(* ===== verification/Prelude.thy ===== *)
theory Prelude
  imports Main "HOL-Library.Word" "HOL-Library.Multiset" "HOL-Library.Monad_Syntax"
begin

text \<open>
  Shared vocabulary of the development: the named collections of simplification rules, the
  machine types, the C integer operations, and the generic lemmas on lists, maps and option
  values that several components use.

  Fallible code is modelled in the option monad with the state passed explicitly: \<open>None\<close> is an
  access through a null or dangling pointer (undefined behaviour of the source), while every
  failure the source reports itself (a null result, a status code) is a value inside \<open>Some\<close>.
\<close>

named_theorems heap_simps \<open>reading and writing the heap of a component\<close>
named_theorems layout_simps \<open>index arithmetic of flat arrays\<close>
named_theorems cint_simps \<open>C integer arithmetic\<close>

section \<open>Machine types\<close>

type_synonym u8 = "8 word"
type_synonym u16 = "16 word"
type_synonym u32 = "32 word"
type_synonym u64 = "64 word"

text \<open>A 64-bit address; 0 is the null pointer.\<close>

type_synonym ptr = u64

abbreviation null :: ptr where "null \<equiv> 0"

section \<open>C integers\<close>

text \<open>C's \<open>/\<close> and \<open>%\<close> on \<open>int\<close> truncate towards zero.\<close>

definition cquot :: "int \<Rightarrow> int \<Rightarrow> int" where
  "cquot a b = sgn a * sgn b * (\<bar>a\<bar> div \<bar>b\<bar>)"

definition crem :: "int \<Rightarrow> int \<Rightarrow> int" where
  "crem a b = a - b * cquot a b"

definition int_ok :: "int \<Rightarrow> bool" where
  "int_ok x \<longleftrightarrow> - (2 ^ 31) \<le> x \<and> x < 2 ^ 31"

lemma cquot_nonneg [cint_simps]: "0 \<le> a \<Longrightarrow> 0 < b \<Longrightarrow> cquot a b = a div b"
  by (cases "a = 0") (simp_all add: cquot_def)

lemma crem_nonneg [cint_simps]: "0 \<le> a \<Longrightarrow> 0 < b \<Longrightarrow> crem a b = a mod b"
  by (simp add: crem_def cquot_nonneg minus_mult_div_eq_mod)

lemma cquot_crem: "b * cquot a b + crem a b = a"
  by (simp add: crem_def)

section \<open>Lists\<close>

lemma distinct_append_swap: "distinct (xs @ ys) \<longleftrightarrow> distinct (ys @ xs)"
  by auto

lemma nth_upt_mult [layout_simps]:
  fixes i j m n :: nat
  assumes "i < m" and "j < n"
  shows "i * n + j < m * n"
proof -
  have "i * n + j < i * n + n" using assms(2) by simp
  also have "\<dots> = Suc i * n" by simp
  also have "\<dots> \<le> m * n" using assms(1) by (intro mult_le_mono1) simp
  finally show ?thesis .
qed

lemma div_mult_add [layout_simps]:
  fixes i j n :: nat
  assumes "j < n"
  shows "(i * n + j) div n = i" and "(i * n + j) mod n = j"
  using assms by simp_all

lemma flat_index_inj:
  fixes i i' j j' n :: nat
  assumes "j < n" and "j' < n"
  shows "i * n + j = i' * n + j' \<longleftrightarrow> i = i' \<and> j = j'"
  using div_mult_add [OF assms(1), of i] div_mult_add [OF assms(2), of i'] by metis

text \<open>Row-major indices over the integers.\<close>

lemma flat_bound [layout_simps]:
  fixes i j m n :: int
  assumes "0 \<le> i" and "i < m" and "0 \<le> j" and "j < n"
  shows "0 \<le> i * n + j" and "i * n + j < m * n"
proof -
  from assms show "0 \<le> i * n + j" by simp
  have "i * n + j < (i + 1) * n" using assms by (simp add: algebra_simps)
  also have "\<dots> \<le> m * n" using assms by (intro mult_right_mono) simp_all
  finally show "i * n + j < m * n" .
qed

lemma flat_div [layout_simps]:
  fixes i j n :: int
  assumes "0 \<le> j" and "j < n"
  shows "(i * n + j) div n = i" and "(i * n + j) mod n = j"
  using assms by simp_all

lemma div_lessI:
  fixes k m n :: int
  assumes "k < m * n" and n: "0 < n"
  shows "k div n < m"
proof -
  have "k div n * n \<le> k" using n pos_mod_sign [of n k] by (simp add: minus_mod_eq_div_mult [symmetric] del: pos_mod_sign)
  then have "k div n * n < m * n" using assms(1) by linarith
  then show ?thesis using n by (simp add: mult_less_cancel_right_pos)
qed

lemma mult_le_iff_div:
  fixes a k n :: int
  assumes "0 < n"
  shows "a * n \<le> k \<longleftrightarrow> a \<le> k div n"
proof
  assume "a * n \<le> k"
  then have "a * n div n \<le> k div n" using assms by (rule zdiv_mono1)
  then show "a \<le> k div n" using assms by simp
next
  assume "a \<le> k div n"
  then have "a * n \<le> k div n * n" using assms by (intro mult_right_mono) simp_all
  moreover have "k div n * n = k - k mod n" "0 \<le> k mod n" using assms by (simp_all add: minus_mod_eq_div_mult)
  ultimately show "a * n \<le> k" by linarith
qed

lemma flat_cases:
  fixes k m n :: int
  assumes "0 \<le> k" and "k < m * n" and "0 \<le> n"
  obtains i j where "k = i * n + j" and "0 \<le> i" and "i < m" and "0 \<le> j" and "j < n"
proof -
  have n: "0 < n" using assms by (cases "n = 0") simp_all
  show thesis
  proof (rule that [of "k div n" "k mod n"])
    show "k = k div n * n + k mod n" by simp
    show "0 \<le> k div n" using n assms(1) by (simp add: pos_imp_zdiv_nonneg_iff)
    show "k div n < m" using assms(2) n by (rule div_lessI)
  qed (use n in simp_all)
qed

section \<open>Runs of calls and simulation\<close>

text \<open>
  A component is used through a sequence of calls. \<open>run_calls\<close> executes them from a state and
  collects the results; it stops with \<open>None\<close> at the first call that is undefined.
\<close>

fun run_calls :: "('c \<Rightarrow> 'w \<Rightarrow> ('r \<times> 'w) option) \<Rightarrow> 'c list \<Rightarrow> 'w \<Rightarrow> ('r list \<times> 'w) option" where
  "run_calls f [] w = Some ([], w)"
| "run_calls f (c # cs) w =
     (case f c w of None \<Rightarrow> None
      | Some (r, w1) \<Rightarrow> (case run_calls f cs w1 of None \<Rightarrow> None
          | Some (rs, w2) \<Rightarrow> Some (r # rs, w2)))"

lemma run_calls_length: "run_calls f cs w = Some (rs, w') \<Longrightarrow> length rs = length cs"
  by (induction cs arbitrary: w rs) (auto split: option.splits)

lemma run_calls_append:
  "run_calls f (cs @ ds) w =
     (case run_calls f cs w of None \<Rightarrow> None
      | Some (rs, w1) \<Rightarrow> (case run_calls f ds w1 of None \<Rightarrow> None
          | Some (ss, w2) \<Rightarrow> Some (rs @ ss, w2)))"
  by (induction cs arbitrary: w) (auto split: option.splits)

text \<open>
  The contract between a detailed component and its abstract specification: wherever the
  specification allows a call, the component performs it without a fault, gives the same result,
  and the two states stay related.
\<close>

locale simulation =
  fixes exec :: "'c \<Rightarrow> 'w \<Rightarrow> ('r \<times> 'w) option"
    and spec :: "'c \<Rightarrow> 's \<Rightarrow> ('r \<times> 's) option"
    and rel :: "'w \<Rightarrow> 's \<Rightarrow> bool"
  assumes step: "rel w s \<Longrightarrow> spec c s = Some (r, s') \<Longrightarrow> \<exists>w'. exec c w = Some (r, w') \<and> rel w' s'"
begin

lemma run:
  assumes "rel w s" and "run_calls spec cs s = Some (rs, s')"
  shows "\<exists>w'. run_calls exec cs w = Some (rs, w') \<and> rel w' s'"
  using assms
proof (induction cs arbitrary: w s rs)
  case Nil
  then show ?case by simp
next
  case (Cons c cs)
  from Cons.prems(2) obtain r s1 qs where
    c: "spec c s = Some (r, s1)" and cs: "run_calls spec cs s1 = Some (qs, s')" and rs: "rs = r # qs"
    by (auto split: option.splits)
  from step [OF Cons.prems(1) c] obtain w1 where "exec c w = Some (r, w1)" and "rel w1 s1"
    by blast
  with Cons.IH [OF _ cs] rs show ?case by fastforce
qed

end

text \<open>An invariant of the specification that every allowed call keeps holds along every run.\<close>

lemma run_calls_invariant:
  assumes "\<And>c s r s'. P s \<Longrightarrow> f c s = Some (r, s') \<Longrightarrow> P s'"
    and "P s" and "run_calls f cs s = Some (rs, s')"
  shows "P s'"
  using assms(2,3)
proof (induction cs arbitrary: s rs)
  case Nil
  then show ?case by simp
next
  case (Cons c cs)
  from Cons.prems(2) obtain r s1 qs where "f c s = Some (r, s1)" and "run_calls f cs s1 = Some (qs, s')"
    by (auto split: option.splits)
  with Cons.IH assms(1) [OF Cons.prems(1)] show ?case by blast
qed

end
