(* ===== verification/Buffers.thy ===== *)
theory Buffers
  imports Prelude
begin

text \<open>
  Flat buffers and counting loops. A buffer that C reads and writes through a pointer is a list; a
  load or store outside it is undefined (\<open>None\<close>), as is an index that is not an \<^verbatim>\<open>int\<close>. A \<^verbatim>\<open>for\<close>
  loop threads its state through the option monad, so a theorem that a loop nest gives \<open>Some\<close>
  says that every access of it stays inside its buffer.
\<close>

named_theorems buf_simps \<open>loads and stores\<close>
named_theorems buf_intros \<open>stores and loops as scattered writes\<close>

section \<open>Loads and stores\<close>

definition ld :: "'a list \<Rightarrow> int \<Rightarrow> 'a option" where
  "ld xs i = (if 0 \<le> i \<and> i < int (length xs) \<and> int_ok i then Some (xs ! nat i) else None)"

definition st :: "'a list \<Rightarrow> int \<Rightarrow> 'a \<Rightarrow> 'a list option" where
  "st xs i v = (if 0 \<le> i \<and> i < int (length xs) \<and> int_ok i then Some (xs[nat i := v]) else None)"

lemma ld_Some [buf_simps]: "0 \<le> i \<Longrightarrow> i < int (length xs) \<Longrightarrow> int_ok i \<Longrightarrow> ld xs i = Some (xs ! nat i)"
  by (simp add: ld_def)

lemma st_Some [buf_simps]: "0 \<le> i \<Longrightarrow> i < int (length xs) \<Longrightarrow> int_ok i \<Longrightarrow> st xs i v = Some (xs[nat i := v])"
  by (simp add: st_def)

lemma int_okI: "0 \<le> i \<Longrightarrow> i < n \<Longrightarrow> n \<le> 2 ^ 31 \<Longrightarrow> int_ok i"
  by (simp add: int_ok_def)

lemma ld_in: "0 \<le> i \<Longrightarrow> i < k \<Longrightarrow> k \<le> int (length xs) \<Longrightarrow> length xs \<le> 2 ^ 31 \<Longrightarrow> ld xs i = Some (xs ! nat i)"
  by (simp add: ld_def int_ok_def)

section \<open>Loops\<close>

primrec foldm :: "('i \<Rightarrow> 's \<Rightarrow> 's option) \<Rightarrow> 'i list \<Rightarrow> 's \<Rightarrow> 's option" where
  "foldm f [] s = Some s"
| "foldm f (x # xs) s = (case f x s of None \<Rightarrow> None | Some s' \<Rightarrow> foldm f xs s')"

definition for_loop :: "int \<Rightarrow> int \<Rightarrow> (int \<Rightarrow> 's \<Rightarrow> 's option) \<Rightarrow> 's \<Rightarrow> 's option" where
  "for_loop a b body s = foldm body [a..b - 1] s"

lemma foldm_append: "foldm f (xs @ ys) s = Option.bind (foldm f xs s) (foldm f ys)"
  by (induction xs arbitrary: s) (auto split: option.splits)

lemma foldm_inv:
  assumes "P 0 s"
    and "\<And>k s. k < length xs \<Longrightarrow> P k s \<Longrightarrow> \<exists>s'. f (xs ! k) s = Some s' \<and> P (Suc k) s'"
  shows "\<exists>s'. foldm f xs s = Some s' \<and> P (length xs) s'"
  using assms
proof (induction xs rule: rev_induct)
  case Nil
  then show ?case by simp
next
  case (snoc x xs)
  have "\<exists>s'. foldm f xs s = Some s' \<and> P (length xs) s'"
  proof (rule snoc.IH [OF snoc.prems(1)])
    fix k t assume k: "k < length xs" and "P k t"
    with snoc.prems(2) [of k t] show "\<exists>s'. f (xs ! k) t = Some s' \<and> P (Suc k) s'"
      by (simp add: nth_append)
  qed
  then obtain s1 where 1: "foldm f xs s = Some s1" and "P (length xs) s1" by blast
  with snoc.prems(2) [of "length xs" s1] obtain s2 where "f x s1 = Some s2" and "P (Suc (length xs)) s2"
    by auto
  then show ?case using 1 by (simp add: foldm_append)
qed

lemma foldm_total:
  assumes "P s" and "\<And>x s. x \<in> set xs \<Longrightarrow> P s \<Longrightarrow> \<exists>s'. f x s = Some s' \<and> P s'"
  shows "\<exists>s'. foldm f xs s = Some s' \<and> P s'"
  using assms by (induction xs arbitrary: s) fastforce+

lemma for_loop_inv:
  assumes "P a s" and "a \<le> b"
    and "\<And>i s. a \<le> i \<Longrightarrow> i < b \<Longrightarrow> P i s \<Longrightarrow> \<exists>s'. body i s = Some s' \<and> P (i + 1) s'"
  shows "\<exists>s'. for_loop a b body s = Some s' \<and> P b s'"
proof -
  have "\<exists>s'. foldm body [a..b - 1] s = Some s' \<and> P (a + int (length [a..b - 1])) s'"
  proof (rule foldm_inv [of "\<lambda>k. P (a + int k)"])
    show "P (a + int 0) s" using assms(1) by simp
    fix k t assume k: "k < length [a..b - 1]" and "P (a + int k) t"
    with assms(3) [of "a + int k" t]
    show "\<exists>s'. body ([a..b - 1] ! k) t = Some s' \<and> P (a + int (Suc k)) s'"
      by (simp add: nth_upto algebra_simps)
  qed
  then show ?thesis using assms(2) by (simp add: for_loop_def)
qed

lemma for_loop_empty [simp]: "b \<le> a \<Longrightarrow> for_loop a b body s = Some s"
  by (simp add: for_loop_def)

lemma for_loop_total:
  assumes "P s" and "\<And>i s. a \<le> i \<Longrightarrow> i < b \<Longrightarrow> P s \<Longrightarrow> \<exists>s'. body i s = Some s' \<and> P s'"
  shows "\<exists>s'. for_loop a b body s = Some s' \<and> P s'"
  unfolding for_loop_def using assms by (intro foldm_total) auto

lemma foldm_undefined: "x \<in> set xs \<Longrightarrow> (\<And>s. f x s = None) \<Longrightarrow> foldm f xs s = None"
  by (induction xs arbitrary: s) (auto split: option.splits)

lemma for_loop_undefined: "a \<le> i \<Longrightarrow> i < b \<Longrightarrow> (\<And>s. body i s = None) \<Longrightarrow> for_loop a b body s = None"
  unfolding for_loop_def by (rule foldm_undefined [of i]) simp_all

section \<open>Runs of loads and stores\<close>

primrec mapm :: "('i \<Rightarrow> 'a option) \<Rightarrow> 'i list \<Rightarrow> 'a list option" where
  "mapm f [] = Some []"
| "mapm f (x # xs) = do { y \<leftarrow> f x; ys \<leftarrow> mapm f xs; Some (y # ys) }"

lemma mapm_total: "(\<And>x. x \<in> set xs \<Longrightarrow> f x = Some (g x)) \<Longrightarrow> mapm f xs = Some (map g xs)"
  by (induction xs) auto

text \<open>A run of \<open>n\<close> elements from \<open>off\<close> on, read or written in order.\<close>

definition ld_run :: "'a list \<Rightarrow> int \<Rightarrow> int \<Rightarrow> 'a list option" where
  "ld_run xs off n = mapm (\<lambda>k. ld xs (off + k)) [0..n - 1]"

primrec st_run :: "'a list \<Rightarrow> int \<Rightarrow> 'a list \<Rightarrow> 'a list option" where
  "st_run xs off [] = Some xs"
| "st_run xs off (v # vs) = do { xs1 \<leftarrow> st xs off v; st_run xs1 (off + 1) vs }"

lemma ld_run_eq:
  assumes "0 \<le> off" "off + n \<le> int (length xs)" "length xs \<le> 2 ^ 31"
  shows "ld_run xs off n = Some (map (\<lambda>k. xs ! nat (off + k)) [0..n - 1])"
  unfolding ld_run_def using assms by (intro mapm_total ld_in [where k = "int (length xs)"]) auto

lemma ld_run_take:
  assumes "0 \<le> off" "0 \<le> n" "off + n \<le> int (length xs)" "length xs \<le> 2 ^ 31"
  shows "ld_run xs off n = Some (take (nat n) (drop (nat off) xs))"
proof -
  have "map (\<lambda>k. xs ! nat (off + k)) [0..n - 1] = take (nat n) (drop (nat off) xs)"
    using assms by (intro nth_equalityI) (auto simp: nth_upto nat_add_distrib)
  then show ?thesis using ld_run_eq [OF assms(1,3,4)] by simp
qed

section \<open>Scattered writes\<close>

text \<open>
  \<open>wrote S g d d'\<close>: the code stored \<open>g i\<close> at every index \<open>i\<close> of \<open>S\<close> and left the rest of the buffer
  alone. The relation composes along sequences and loops, so a loop nest is described by the union
  of the index sets of its bodies.
\<close>

definition wrote :: "int set \<Rightarrow> (int \<Rightarrow> 'a) \<Rightarrow> 'a list \<Rightarrow> 'a list \<Rightarrow> bool" where
  "wrote S g d d' \<longleftrightarrow> length d' = length d \<and>
     (\<forall>i < length d. d' ! i = (if int i \<in> S then g (int i) else d ! i))"

lemma wrote_empty: "wrote {} g d d"
  by (simp add: wrote_def)

lemma wrote_length [dest]: "wrote S g d d' \<Longrightarrow> length d' = length d"
  by (simp add: wrote_def)

lemma wrote_nth: "wrote S g d d' \<Longrightarrow> i < length d \<Longrightarrow> d' ! i = (if int i \<in> S then g (int i) else d ! i)"
  by (simp add: wrote_def)

lemma wrote_comp: "wrote S g d d' \<Longrightarrow> wrote T g d' d'' \<Longrightarrow> wrote (S \<union> T) g d d''"
  by (auto simp: wrote_def)

lemma wrote_st:
  assumes "0 \<le> i" and "i < int (length d)" and "int_ok i" and "g i = v"
  shows "\<exists>d'. st d i v = Some d' \<and> wrote {i} g d d'"
  using assms by (auto simp: st_def wrote_def nth_list_update)

lemma wrote_foldm:
  assumes "\<And>x d. x \<in> set xs \<Longrightarrow> length d = n \<Longrightarrow> \<exists>d'. f x d = Some d' \<and> wrote (S x) g d d'"
    and "length d = n"
  shows "\<exists>d'. foldm f xs d = Some d' \<and> wrote (\<Union>x\<in>set xs. S x) g d d'"
  using assms
proof (induction xs arbitrary: d)
  case Nil
  then show ?case by (simp add: wrote_empty)
next
  case (Cons x xs)
  from Cons.prems(1) [of x d] Cons.prems(2) obtain d1 where 1: "f x d = Some d1" and w: "wrote (S x) g d d1"
    by auto
  have n: "length d1 = n" using wrote_length [OF w] Cons.prems(2) by simp
  have "\<exists>d'. foldm f xs d1 = Some d' \<and> wrote (\<Union>x\<in>set xs. S x) g d1 d'"
    by (rule Cons.IH [OF _ n]) (use Cons.prems(1) in simp)
  then show ?case using 1 wrote_comp [OF w] by auto
qed

lemma wrote_for:
  assumes "\<And>i d. a \<le> i \<Longrightarrow> i < b \<Longrightarrow> length d = n \<Longrightarrow> \<exists>d'. body i d = Some d' \<and> wrote (S i) g d d'"
    and "length d = n"
  shows "\<exists>d'. for_loop a b body d = Some d' \<and> wrote (\<Union>i\<in>{a..<b}. S i) g d d'"
proof -
  have *: "(\<Union>i\<in>{a..<b}. S i) = (\<Union>i\<in>set [a..b - 1]. S i)" by auto
  show ?thesis unfolding for_loop_def * using assms by (intro wrote_foldm) auto
qed

lemma wrote_all:
  assumes "wrote S g d d'" and "\<And>i. 0 \<le> i \<Longrightarrow> i < int (length d) \<Longrightarrow> i \<in> S"
  shows "d' = map (\<lambda>i. g (int i)) [0..<length d]"
  using assms by (intro nth_equalityI) (auto simp: wrote_def)

text \<open>Four nested counting loops over a dense row-major buffer.\<close>

abbreviation idx4 :: "int \<Rightarrow> int \<Rightarrow> int \<Rightarrow> int \<Rightarrow> int \<Rightarrow> int \<Rightarrow> int \<Rightarrow> int" where
  "idx4 C H W b c h w \<equiv> ((b * C + c) * H + h) * W + w"

lemma idx4_bound:
  assumes "0 \<le> b" "b < B" "0 \<le> c" "c < C" "0 \<le> h" "h < H" "0 \<le> w" "w < W"
  shows "0 \<le> idx4 C H W b c h w" and "idx4 C H W b c h w < B * C * H * W"
  using assms by (auto intro!: flat_bound)

lemma idx4_cases:
  assumes "0 \<le> k" and "k < B * C * H * W" and "0 \<le> C" "0 \<le> H" "0 \<le> W"
  obtains b c h w where "k = idx4 C H W b c h w"
    and "0 \<le> b" "b < B" "0 \<le> c" "c < C" "0 \<le> h" "h < H" "0 \<le> w" "w < W"
  using assms by (metis flat_cases)

lemma nest4_wrote:
  assumes body: "\<And>b c h w d. \<lbrakk>0 \<le> b; b < B; 0 \<le> c; c < C; 0 \<le> h; h < H; 0 \<le> w; w < W; length d = n\<rbrakk> \<Longrightarrow>
      \<exists>d'. body b c h w d = Some d' \<and> wrote {idx4 C H W b c h w} g d d'"
    and n: "int n = B * C * H * W" "length d = n" and pos: "0 \<le> C" "0 \<le> H" "0 \<le> W"
  shows "for_loop 0 B (\<lambda>b. for_loop 0 C (\<lambda>c. for_loop 0 H (\<lambda>h. for_loop 0 W (\<lambda>w. body b c h w)))) d
    = Some (map (\<lambda>i. g (int i)) [0..<n])"
proof -
  let ?S = "\<Union>b\<in>{0..<B}. \<Union>c\<in>{0..<C}. \<Union>h\<in>{0..<H}. \<Union>w\<in>{0..<W}. {idx4 C H W b c h w}"
  have "\<exists>d'. for_loop 0 B (\<lambda>b. for_loop 0 C (\<lambda>c. for_loop 0 H (\<lambda>h. for_loop 0 W (\<lambda>w. body b c h w)))) d
      = Some d' \<and> wrote ?S g d d'"
    by (intro wrote_for [where n = n] body) (simp_all add: n(2))
  then obtain d' where r: "for_loop 0 B (\<lambda>b. for_loop 0 C (\<lambda>c. for_loop 0 H (\<lambda>h. for_loop 0 W (\<lambda>w. body b c h w)))) d
      = Some d'" and w: "wrote ?S g d d'" by blast
  have "d' = map (\<lambda>i. g (int i)) [0..<length d]"
  proof (rule wrote_all [OF w])
    fix i assume "0 \<le> i" "i < int (length d)"
    then have i: "0 \<le> i" "i < B * C * H * W" using n by simp_all
    show "i \<in> ?S" by (rule idx4_cases [OF i pos]) (simp, force)
  qed
  then show ?thesis using r n(2) by simp
qed

lemma mset_map_bij:
  assumes "bij_betw f {..<n} {..<n}" and "length xs = n"
  shows "mset (map (\<lambda>i. xs ! f i) [0..<n]) = mset xs"
proof -
  have "mset (map (\<lambda>i. xs ! f i) [0..<n]) = image_mset (\<lambda>i. xs ! i) (image_mset f (mset_set {..<n}))"
    by (simp add: image_mset.compositionality comp_def lessThan_atLeast0)
  also have "image_mset f (mset_set {..<n}) = mset_set {..<n}"
    using assms(1) by (simp add: image_mset_mset_set bij_betw_def)
  also have "image_mset (\<lambda>i. xs ! i) (mset_set {..<n}) = mset (map ((!) xs) [0..<n])"
    by (simp add: lessThan_atLeast0)
  finally show ?thesis by (simp only: assms(2) [symmetric] map_nth)
qed

lemma wrote_st_run:
  assumes "0 \<le> off" "off + int (length vs) \<le> int (length d)" "length d \<le> 2 ^ 31"
    and "\<And>k. k < length vs \<Longrightarrow> g (off + int k) = vs ! k"
  shows "\<exists>d'. st_run d off vs = Some d' \<and> wrote {off..<off + int (length vs)} g d d'"
  using assms
proof (induction vs arbitrary: d off)
  case (Cons v vs)
  have "g off = v" using Cons.prems(4) [of 0] by simp
  with Cons.prems have "\<exists>d1. st d off v = Some d1 \<and> wrote {off} g d d1"
    by (intro wrote_st) (simp_all add: int_ok_def)
  then obtain d1 where 1: "st d off v = Some d1" "wrote {off} g d d1" by blast
  have "\<exists>d'. st_run d1 (off + 1) vs = Some d' \<and> wrote {off + 1..<off + 1 + int (length vs)} g d1 d'"
    using Cons.prems wrote_length [OF 1(2)] Cons.prems(4) [of "Suc _"]
    by (intro Cons.IH) (auto simp: algebra_simps)
  then obtain d' where 2: "st_run d1 (off + 1) vs = Some d'" "wrote {off + 1..<off + 1 + int (length vs)} g d1 d'" by blast
  have "{off} \<union> {off + 1..<off + 1 + int (length vs)} = {off..<off + int (length (v # vs))}" by auto
  with wrote_comp [OF 1(2) 2(2)] 1(1) 2(1) show ?case by simp
qed (simp add: wrote_empty)

lemma wrote_over: "wrote S f d d1 \<Longrightarrow> wrote S g d1 d2 \<Longrightarrow> wrote S g d d2"
  by (auto simp: wrote_def)

lemma wrote_cong: "wrote S f d d1 \<Longrightarrow> (\<And>i. i \<in> S \<Longrightarrow> f i = g i) \<Longrightarrow> wrote S g d d1"
  by (auto simp: wrote_def)

section \<open>Segments that grow\<close>

text \<open>\<open>seg o xs d\<close>: the elements of \<open>d\<close> from \<open>o\<close> on begin with \<open>xs\<close>. A store right behind the segment
  extends it.\<close>

definition seg :: "int \<Rightarrow> 'a list \<Rightarrow> 'a list \<Rightarrow> bool" where
  "seg a xs d \<longleftrightarrow> 0 \<le> a \<and> a + int (length xs) \<le> int (length d) \<and>
     (\<forall>k < length xs. d ! (nat a + k) = xs ! k)"

definition same_outside :: "int \<Rightarrow> int \<Rightarrow> 'a list \<Rightarrow> 'a list \<Rightarrow> bool" where
  "same_outside a b d d' \<longleftrightarrow> length d' = length d \<and>
     (\<forall>i < length d. int i < a \<or> b \<le> int i \<longrightarrow> d' ! i = d ! i)"

lemma same_outside_refl [simp]: "same_outside a b d d"
  by (simp add: same_outside_def)

lemma same_outside_trans: "same_outside a b d d1 \<Longrightarrow> same_outside a b d1 d2 \<Longrightarrow> same_outside a b d d2"
  by (auto simp: same_outside_def)

lemma same_outside_length: "same_outside a b d d' \<Longrightarrow> length d' = length d"
  by (simp add: same_outside_def)

lemma seg_Nil: "0 \<le> a \<Longrightarrow> a \<le> int (length d) \<Longrightarrow> seg a [] d"
  by (simp add: seg_def)

lemma seg_take: "seg a xs d \<Longrightarrow> seg a (take n xs) d"
  by (auto simp: seg_def)

lemma seg_ld:
  assumes "seg a xs d" "0 \<le> k" "k < int (length xs)" "length d \<le> 2 ^ 31"
  shows "ld d (a + k) = Some (xs ! nat k)"
proof -
  have "ld d (a + k) = Some (d ! nat (a + k))"
    using assms by (intro ld_in [where k = "a + int (length xs)"]) (auto simp: seg_def)
  then show ?thesis using assms by (simp add: seg_def nat_add_distrib nat_less_iff)
qed

lemma seg_st:
  assumes "seg a xs d" "a + int (length xs) < b" "b \<le> int (length d)" "length d \<le> 2 ^ 31"
  shows "\<exists>d'. st d (a + int (length xs)) v = Some d' \<and> seg a (xs @ [v]) d' \<and> same_outside a b d d'"
proof -
  let ?i = "nat a + length xs"
  have i: "nat (a + int (length xs)) = ?i" "?i < length d" using assms by (auto simp: seg_def nat_add_distrib)
  have "st d (a + int (length xs)) v = Some (d[?i := v])"
    using assms i by (auto simp: st_def int_ok_def seg_def)
  moreover have "seg a (xs @ [v]) (d[?i := v])"
    using assms i by (auto simp: seg_def nth_append nth_list_update less_Suc_eq)
  moreover have "same_outside a b d (d[?i := v])"
    using assms i by (auto simp: same_outside_def nth_list_update seg_def)
  ultimately show ?thesis by blast
qed

lemma st_run_seg:
  assumes "0 \<le> a" "a + int (length xs) \<le> b" "b \<le> int (length d)" "length d \<le> 2 ^ 31"
  shows "\<exists>d'. st_run d a xs = Some d' \<and> seg a xs d' \<and> same_outside a b d d'"
proof -
  have "\<exists>d'. st_run d a xs = Some d' \<and> wrote {a..<a + int (length xs)} (\<lambda>i. xs ! nat (i - a)) d d'"
    using assms by (intro wrote_st_run) simp_all
  then obtain d' where d': "st_run d a xs = Some d'" and w: "wrote {a..<a + int (length xs)} (\<lambda>i. xs ! nat (i - a)) d d'"
    by blast
  have "seg a xs d'" unfolding seg_def
  proof (intro conjI allI impI)
    fix k assume k: "k < length xs"
    have "int (nat a + k) = a + int k" using assms(1) by simp
    then show "d' ! (nat a + k) = xs ! k" using wrote_nth [OF w, of "nat a + k"] k assms by auto
  qed (use assms wrote_length [OF w] in auto)
  moreover have "same_outside a b d d'" using w assms by (auto simp: same_outside_def wrote_def)
  ultimately show ?thesis using d' by blast
qed

lemma seg_ld_run:
  assumes "seg a xs d" "length d \<le> 2 ^ 31"
  shows "ld_run d a (int (length xs)) = Some xs"
proof -
  have "take (length xs) (drop (nat a) d) = xs"
    using assms(1) by (intro nth_equalityI) (auto simp: seg_def)
  then show ?thesis using assms by (simp add: ld_run_take seg_def)
qed

lemma seg_same_outside:
  assumes "seg a xs d" "same_outside p q d d'" "a + int (length xs) \<le> p \<or> q \<le> a"
  shows "seg a xs d'"
  using assms by (auto simp: seg_def same_outside_def)

lemma seg_append:
  assumes "seg a xs d" "seg (a + int (length xs)) ys d"
  shows "seg a (xs @ ys) d"
proof -
  have "d ! (nat a + k) = (xs @ ys) ! k" if k: "k < length xs + length ys" for k
  proof (cases "k < length xs")
    case False
    then have "k - length xs < length ys" using k by simp
    then have "d ! (nat (a + int (length xs)) + (k - length xs)) = ys ! (k - length xs)" using assms(2) unfolding seg_def by blast
    moreover have "nat (a + int (length xs)) + (k - length xs) = nat a + k" using False assms(1) by (simp add: seg_def nat_add_distrib)
    ultimately show ?thesis using False by (simp add: nth_append)
  qed (use assms(1) in \<open>simp add: seg_def nth_append\<close>)
  then show ?thesis using assms by (simp add: seg_def)
qed

lemma ld_st:
  assumes "st d i v = Some d'"
  shows "ld d' j = (if j = i then Some v else ld d j)"
  using assms by (auto simp: st_def ld_def nth_list_update split: if_splits)

lemma st_length: "st d i v = Some d' \<Longrightarrow> length d' = length d"
  by (auto simp: st_def split: if_splits)

section \<open>Loops that cannot fail\<close>

lemma foldm_pure: "(\<And>x s. x \<in> set xs \<Longrightarrow> f x s = Some (g x s)) \<Longrightarrow> foldm f xs s = Some (fold g xs s)"
  by (induction xs arbitrary: s) simp_all

lemma for_loop_pure: "(\<And>i s. a \<le> i \<Longrightarrow> i < b \<Longrightarrow> body i s = Some (g i s)) \<Longrightarrow> for_loop a b body s = Some (fold g [a..b - 1] s)"
  unfolding for_loop_def by (rule foldm_pure) simp

lemma fold_product: "fold (\<lambda>x. fold (h x) ys) xs s = fold (\<lambda>(x, y). h x y) (List.product xs ys) s"
  by (induction xs arbitrary: s) (simp_all add: fold_map comp_def)

section \<open>Blobs of four dimensions\<close>

text \<open>The value at a flat index, and the statement that a buffer holds the values of a function.\<close>

definition at4 :: "int \<Rightarrow> int \<Rightarrow> int \<Rightarrow> (int \<Rightarrow> int \<Rightarrow> int \<Rightarrow> int \<Rightarrow> 'a) \<Rightarrow> int \<Rightarrow> 'a" where
  "at4 C H W v k = v (k div W div H div C) (k div W div H mod C) (k div W mod H) (k mod W)"

definition blob4 :: "int \<Rightarrow> int \<Rightarrow> int \<Rightarrow> int \<Rightarrow> (int \<Rightarrow> int \<Rightarrow> int \<Rightarrow> int \<Rightarrow> 'a) \<Rightarrow> 'a list \<Rightarrow> bool" where
  "blob4 B C H W v d \<longleftrightarrow> int (length d) = B * C * H * W \<and>
     (\<forall>b \<in> {0..<B}. \<forall>c \<in> {0..<C}. \<forall>h \<in> {0..<H}. \<forall>w \<in> {0..<W}. d ! nat (idx4 C H W b c h w) = v b c h w)"

lemma at4_idx4: "0 \<le> c \<Longrightarrow> c < C \<Longrightarrow> 0 \<le> h \<Longrightarrow> h < H \<Longrightarrow> 0 \<le> w \<Longrightarrow> w < W \<Longrightarrow> at4 C H W v (idx4 C H W b c h w) = v b c h w"
  by (simp add: at4_def flat_div)

lemma ld_idx4:
  assumes "int (length d) = B * C * H * W" "length d \<le> 2 ^ 31"
    and "0 \<le> b" "b < B" "0 \<le> c" "c < C" "0 \<le> h" "h < H" "0 \<le> w" "w < W"
  shows "ld d (idx4 C H W b c h w) = Some (d ! nat (idx4 C H W b c h w))"
  using idx4_bound [OF assms(3-)] assms(1,2) by (intro ld_in [where k = "B * C * H * W"]) simp_all

lemma st_idx4:
  assumes "int (length d) = B * C * H * W" "length d \<le> 2 ^ 31"
    and "0 \<le> b" "b < B" "0 \<le> c" "c < C" "0 \<le> h" "h < H" "0 \<le> w" "w < W" and "x = v b c h w"
  shows "\<exists>d'. st d (idx4 C H W b c h w) x = Some d' \<and> wrote {idx4 C H W b c h w} (at4 C H W v) d d'"
proof (rule wrote_st)
  note i = idx4_bound [OF assms(3-10)]
  show "0 \<le> idx4 C H W b c h w" by (rule i(1))
  show l: "idx4 C H W b c h w < int (length d)" using i(2) assms(1) by simp
  show "int_ok (idx4 C H W b c h w)" by (rule int_okI [OF i(1) l]) (use assms(2) in simp)
  show "at4 C H W v (idx4 C H W b c h w) = x" using assms by (simp add: at4_idx4)
qed

lemma blob4_map:
  assumes "int n = B * C * H * W"
  shows "blob4 B C H W v (map (\<lambda>i. at4 C H W v (int i)) [0..<n])"
proof -
  have "map (\<lambda>i. at4 C H W v (int i)) [0..<n] ! nat (idx4 C H W b c h w) = v b c h w"
    if "b \<in> {0..<B}" "c \<in> {0..<C}" "h \<in> {0..<H}" "w \<in> {0..<W}" for b c h w
  proof -
    have "0 \<le> idx4 C H W b c h w" "idx4 C H W b c h w < int n" unfolding assms using that by (auto intro!: idx4_bound)
    then show ?thesis using that by (simp add: at4_idx4 nat_less_iff)
  qed
  then show ?thesis using assms by (simp add: blob4_def)
qed

lemma nest4_blob:
  assumes "\<And>b c h w d. \<lbrakk>0 \<le> b; b < B; 0 \<le> c; c < C; 0 \<le> h; h < H; 0 \<le> w; w < W; length d = n\<rbrakk> \<Longrightarrow>
      body b c h w d = st d (idx4 C H W b c h w) (v b c h w)"
    and n: "int n = B * C * H * W" "length d = n" "n \<le> 2 ^ 31" and pos: "0 \<le> C" "0 \<le> H" "0 \<le> W"
  shows "\<exists>d'. for_loop 0 B (\<lambda>b. for_loop 0 C (\<lambda>c. for_loop 0 H (\<lambda>h. for_loop 0 W (\<lambda>w. body b c h w)))) d = Some d' \<and>
     blob4 B C H W v d'"
proof -
  have "for_loop 0 B (\<lambda>b. for_loop 0 C (\<lambda>c. for_loop 0 H (\<lambda>h. for_loop 0 W (\<lambda>w. body b c h w)))) d =
      Some (map (\<lambda>i. at4 C H W v (int i)) [0..<n])"
    by (rule nest4_wrote) (use assms in \<open>auto intro!: st_idx4\<close>)
  then show ?thesis using blob4_map [OF n(1)] by blast
qed

lemma copy_all:
  assumes "length src = length dst" "length dst \<le> 2 ^ 31"
  shows "ld_run src 0 (int (length src)) = Some src" "st_run dst 0 src = Some src"
proof -
  show "ld_run src 0 (int (length src)) = Some src" using assms by (simp add: ld_run_take)
  obtain d where d: "st_run dst 0 src = Some d" "seg 0 src d" "same_outside 0 (int (length src)) dst d"
    using st_run_seg [of 0 src "int (length src)" dst] assms by auto
  have "d = src" using d(2) same_outside_length [OF d(3)] assms(1) by (intro nth_equalityI) (simp_all add: seg_def)
  then show "st_run dst 0 src = Some src" using d(1) by simp
qed

end
