(* ===== verification/FloatBits.thy ===== *)
theory FloatBits
  imports Prelude "HOL-Library.Log_Nat" Complex_Main
begin

text \<open>
  Binary floating point as the C code computes with it: a value is a rational number, and every
  operation returns the exact result rounded to nearest, ties to even, at the precision of its
  type (24 bits for \<^verbatim>\<open>float\<close>, 53 bits for \<^verbatim>\<open>double\<close>). The exponent range is not bounded, so
  overflow to infinity, gradual underflow and NaN are outside the model; whatever the development
  states about floats is about finite values. The laws proved here (monotone, odd, exact on small
  integers, sign preserving) are what the components rely on.
\<close>

named_theorems rn_simps \<open>rounding\<close>

type_synonym f32 = rat

section \<open>The exponent of a number\<close>

definition ilog2 :: "rat \<Rightarrow> int" where
  "ilog2 x = (let (p, q) = quotient_of \<bar>x\<bar>;
                  e = int (floorlog 2 (nat p)) - int (floorlog 2 (nat q))
              in if 2 powi e \<le> \<bar>x\<bar> then e else e - 1)"

lemma floorlog_2_bounds:
  assumes "0 < n"
  shows "2 powi (int (floorlog 2 (nat n)) - 1) \<le> (of_int n :: rat)"
    and "(of_int n :: rat) < 2 powi int (floorlog 2 (nat n))"
proof -
  from assms have n: "0 < nat n" and pos: "0 < floorlog 2 (nat n)"
    by (simp_all add: floorlog_def)
  have b: "2 ^ (floorlog 2 (nat n) - 1) \<le> nat n" "nat n < 2 ^ floorlog 2 (nat n)"
    using floorlog_bounds [OF n, of 2] by auto
  have "of_nat (2 ^ (floorlog 2 (nat n) - 1)) \<le> (of_nat (nat n) :: rat)"
    using b(1) by (simp only: of_nat_le_iff)
  moreover have "(of_nat (nat n) :: rat) < of_nat (2 ^ floorlog 2 (nat n))"
    using b(2) by (simp only: of_nat_less_iff)
  moreover have "int (floorlog 2 (nat n)) - 1 = int (floorlog 2 (nat n) - 1)" using pos by simp
  ultimately show "2 powi (int (floorlog 2 (nat n)) - 1) \<le> (of_int n :: rat)"
    and "(of_int n :: rat) < 2 powi int (floorlog 2 (nat n))"
    using assms by (simp_all only: power_int_of_nat of_nat_power of_nat_numeral of_nat_nat less_imp_le)
qed

lemma ilog2_bounds:
  assumes "x \<noteq> 0"
  shows "2 powi ilog2 x \<le> \<bar>x\<bar>" and "\<bar>x\<bar> < 2 powi (ilog2 x + 1)"
proof -
  obtain p q where pq: "quotient_of \<bar>x\<bar> = (p, q)" by fastforce
  have q: "0 < q" using quotient_of_denom_pos [OF pq] .
  have x: "\<bar>x\<bar> = of_int p / of_int q" using quotient_of_div [OF pq] .
  have "0 < (of_int p :: rat) / of_int q" using assms x by (metis zero_less_abs_iff)
  with q have p: "0 < p" by (simp add: zero_less_divide_iff)
  define a b where "a = int (floorlog 2 (nat p))" and "b = int (floorlog 2 (nat q))"
  note P = floorlog_2_bounds [OF p, folded a_def] and Q = floorlog_2_bounds [OF q, folded b_def]
  have q0: "0 < (of_int q :: rat)" using q by simp
  have low: "2 powi (a - b - 1) \<le> \<bar>x\<bar>"
  proof -
    have "2 powi (a - b - 1) * of_int q \<le> 2 powi (a - b - 1) * (2 powi b :: rat)"
      using Q(2) by (intro mult_left_mono) simp_all
    also have "\<dots> = 2 powi (a - 1)" by (simp flip: power_int_add)
    also have "\<dots> \<le> of_int p" by (rule P(1))
    finally show ?thesis using q0 by (simp add: x pos_le_divide_eq)
  qed
  have up: "\<bar>x\<bar> < 2 powi (a - b + 1)"
  proof -
    have "of_int p < (2 powi a :: rat)" by (rule P(2))
    also have "\<dots> = 2 powi (a - b + 1) * 2 powi (b - 1)" by (simp flip: power_int_add)
    also have "\<dots> \<le> 2 powi (a - b + 1) * of_int q" by (intro mult_left_mono Q(1)) simp
    finally show ?thesis using q0 by (simp add: x pos_divide_less_eq)
  qed
  have "ilog2 x = (if 2 powi (a - b) \<le> \<bar>x\<bar> then a - b else a - b - 1)"
    by (simp add: ilog2_def pq a_def b_def Let_def)
  then show "2 powi ilog2 x \<le> \<bar>x\<bar>" and "\<bar>x\<bar> < 2 powi (ilog2 x + 1)"
    using low up by (auto split: if_splits)
qed

lemma two_powi_less: "(2::rat) powi a < 2 powi b \<Longrightarrow> a < b"
  using power_int_increasing [of b a "2::rat"] by force

lemma ilog2_unique:
  assumes "2 powi e \<le> \<bar>x\<bar>" and "\<bar>x\<bar> < 2 powi (e + 1)"
  shows "ilog2 x = e"
proof -
  have x: "x \<noteq> 0" using assms(1) by (auto simp: power_int_eq_0_iff)
      (metis power_int_eq_0_iff zero_less_power_int zero_less_numeral not_le)
  note b = ilog2_bounds [OF x]
  have "(2::rat) powi e < 2 powi (ilog2 x + 1)" "(2::rat) powi ilog2 x < 2 powi (e + 1)"
    using assms b by linarith+
  then have "e < ilog2 x + 1" "ilog2 x < e + 1" by (auto dest: two_powi_less)
  then show ?thesis by linarith
qed

lemma ilog2_mono:
  assumes "0 < x" and "x \<le> y"
  shows "ilog2 x \<le> ilog2 y"
proof -
  have "(2::rat) powi ilog2 x < 2 powi (ilog2 y + 1)"
    using ilog2_bounds(1) [of x] ilog2_bounds(2) [of y] assms by simp
  then show ?thesis by (auto dest: two_powi_less)
qed

section \<open>Round to nearest, ties to even\<close>

definition rne :: "rat \<Rightarrow> int" where
  "rne y = (let f = \<lfloor>y\<rfloor>; d = y - of_int f in
            if d < 1 / 2 then f else if 1 / 2 < d then f + 1 else if even f then f else f + 1)"

definition rnd :: "nat \<Rightarrow> rat \<Rightarrow> rat" where
  "rnd prec x = (if x = 0 then 0
     else let u = 2 powi (ilog2 x - int prec + 1) in of_int (rne (x / u)) * u)"

lemma rne_bounds: "\<lfloor>y\<rfloor> \<le> rne y" "rne y \<le> \<lceil>y\<rceil>" "\<bar>of_int (rne y) - y\<bar> \<le> 1 / 2"
proof -
  show "\<lfloor>y\<rfloor> \<le> rne y" by (simp add: rne_def Let_def)
  have "of_int \<lfloor>y\<rfloor> \<le> y" "y < of_int \<lfloor>y\<rfloor> + 1" by linarith+
  then show "\<bar>of_int (rne y) - y\<bar> \<le> 1 / 2" by (auto simp: rne_def Let_def)
  show "rne y \<le> \<lceil>y\<rceil>"
  proof (cases "y = of_int \<lfloor>y\<rfloor>")
    case True
    then have "y - of_int \<lfloor>y\<rfloor> = 0" by linarith
    then have "rne y = \<lfloor>y\<rfloor>" by (simp add: rne_def)
    then show ?thesis by linarith
  next
    case False
    then have "\<lceil>y\<rceil> = \<lfloor>y\<rfloor> + 1" by linarith
    then show ?thesis by (auto simp: rne_def Let_def)
  qed
qed

lemma rne_of_int [simp]: "rne (of_int n) = n"
  by (simp add: rne_def)

lemma rne_mono: assumes "x \<le> y" shows "rne x \<le> rne y"
proof (cases "\<lfloor>x\<rfloor> = \<lfloor>y\<rfloor>")
  case True
  then show ?thesis using assms by (auto simp: rne_def Let_def)
next
  case False
  with assms have "\<lfloor>x\<rfloor> + 1 \<le> \<lfloor>y\<rfloor>" by (simp add: floor_mono order_le_neq_trans zless_imp_add1_zle)
  moreover have "rne x \<le> \<lfloor>x\<rfloor> + 1" by (simp add: rne_def Let_def)
  moreover have "\<lfloor>y\<rfloor> \<le> rne y" by (rule rne_bounds)
  ultimately show ?thesis by linarith
qed

lemma rne_minus: "rne (- x) = - rne x"
proof (cases "x = of_int \<lfloor>x\<rfloor>")
  case True
  then show ?thesis by (metis of_int_minus rne_of_int)
next
  case False
  then have f: "\<lfloor>- x\<rfloor> = - \<lfloor>x\<rfloor> - 1" by linarith
  show ?thesis unfolding rne_def Let_def f by (auto simp: field_simps)
qed

lemma rnd_0 [simp]: "rnd p 0 = 0"
  by (simp add: rnd_def)

lemma ilog2_minus [simp]: "ilog2 (- x) = ilog2 x"
  by (simp add: ilog2_def)

lemma rnd_minus [rn_simps]: "rnd p (- x) = - rnd p x"
  by (simp add: rnd_def Let_def rne_minus flip: minus_divide_left)

text \<open>The unit of the last place brings a number into the range of \<open>prec\<close>-bit integers.\<close>

lemma scaled_bounds:
  assumes "0 < x" and "0 < p"
  shows "2 ^ (p - 1) \<le> x / 2 powi (ilog2 x - int p + 1)" and "x / 2 powi (ilog2 x - int p + 1) < 2 ^ p"
proof -
  let ?u = "2 powi (ilog2 x - int p + 1) :: rat"
  note b = ilog2_bounds [of x]
  have "2 ^ (p - 1) * ?u = 2 powi ilog2 x"
    using assms(2) by (simp add: of_nat_diff flip: power_int_of_nat power_int_add)
  then show "2 ^ (p - 1) \<le> x / ?u" using b(1) assms(1) by (simp add: pos_le_divide_eq)
  have "2 ^ p * ?u = 2 powi (ilog2 x + 1)" by (simp flip: power_int_of_nat power_int_add)
  then show "x / ?u < 2 ^ p" using b(2) assms(1) by (simp add: pos_divide_less_eq)
qed

lemma rnd_bounds:
  assumes "0 < x" and "0 < p"
  shows "2 powi ilog2 x \<le> rnd p x" and "rnd p x \<le> 2 powi (ilog2 x + 1)"
proof -
  let ?u = "2 powi (ilog2 x - int p + 1) :: rat"
  note b = scaled_bounds [OF assms]
  have "rne (of_int (2 ^ (p - 1))) \<le> rne (x / ?u)" using b(1) by (intro rne_mono) simp
  then have l: "2 ^ (p - 1) \<le> rne (x / ?u)" by (simp only: rne_of_int)
  have "rne (x / ?u) \<le> rne (of_int (2 ^ p))" using b(2) by (intro rne_mono) simp
  then have u: "rne (x / ?u) \<le> 2 ^ p" by (simp only: rne_of_int)
  have r: "rnd p x = of_int (rne (x / ?u)) * ?u" using assms(1) by (simp add: rnd_def Let_def)
  have "2 powi ilog2 x = of_int (2 ^ (p - 1)) * ?u"
    using assms(2) by (simp add: of_nat_diff flip: power_int_of_nat power_int_add)
  also have "\<dots> \<le> rnd p x" unfolding r by (intro mult_right_mono, simp only: of_int_le_iff l) simp
  finally show "2 powi ilog2 x \<le> rnd p x" .
  have "rnd p x \<le> of_int (2 ^ p) * ?u" unfolding r by (intro mult_right_mono, simp only: of_int_le_iff u) simp
  also have "\<dots> = 2 powi (ilog2 x + 1)" by (simp flip: power_int_of_nat power_int_add)
  finally show "rnd p x \<le> 2 powi (ilog2 x + 1)" .
qed

lemma rnd_pos [rn_simps]: "0 < x \<Longrightarrow> 0 < p \<Longrightarrow> 0 < rnd p x"
  using rnd_bounds(1) [of x p] zero_less_power_int [of "2::rat" "ilog2 x"] by linarith

lemma rnd_nonneg: "0 \<le> x \<Longrightarrow> 0 < p \<Longrightarrow> 0 \<le> rnd p x"
  using rnd_pos [of x p] by (cases "x = 0") auto

lemma rnd_mono_pos:
  assumes "0 < x" and "x \<le> y" and "0 < p"
  shows "rnd p x \<le> rnd p y"
proof (cases "ilog2 x = ilog2 y")
  case True
  then show ?thesis using assms
    by (auto simp: rnd_def Let_def intro!: mult_right_mono rne_mono divide_right_mono)
next
  case False
  with ilog2_mono [OF assms(1,2)] have "ilog2 x + 1 \<le> ilog2 y" by linarith
  then have "(2::rat) powi (ilog2 x + 1) \<le> 2 powi ilog2 y" by (intro power_int_increasing) simp_all
  with rnd_bounds(2) [of x p] rnd_bounds(1) [of y p] assms show ?thesis by linarith
qed

lemma rnd_mono:
  assumes "x \<le> y" and p: "0 < p"
  shows "rnd p x \<le> rnd p y"
proof -
  consider "0 < x" | "x \<le> 0" "0 \<le> y" | "y < 0" using assms(1) by linarith
  then show ?thesis
  proof cases
    case 1
    then show ?thesis using assms by (rule rnd_mono_pos)
  next
    case 2
    then have "rnd p (- x) \<ge> 0" "rnd p y \<ge> 0" using p by (simp_all add: rnd_nonneg)
    then show ?thesis by (simp add: rnd_minus)
  next
    case 3
    then have "rnd p (- y) \<le> rnd p (- x)" using assms by (intro rnd_mono_pos) simp_all
    then show ?thesis by (simp add: rnd_minus)
  qed
qed

text \<open>Numbers that fit in the precision are not changed.\<close>

lemma rnd_exact_pos:
  assumes "0 < m" and "m < 2 ^ p"
  shows "rnd p (of_int m * 2 powi e) = of_int m * 2 powi e"
proof -
  let ?x = "of_int m * 2 powi e :: rat"
  have x: "0 < ?x" using assms(1) by simp
  have p: "0 < p" using assms by (cases p) auto
  have "?x < of_int (2 ^ p) * 2 powi e" using assms(2) by (intro mult_strict_right_mono) (simp_all only: of_int_less_iff, simp)
  also have "\<dots> = 2 powi (int p + e)" by (simp add: power_int_add)
  finally have "(2::rat) powi ilog2 ?x < 2 powi (int p + e)" using ilog2_bounds(1) [of ?x] x by linarith
  then have "ilog2 ?x < int p + e" by (rule two_powi_less)
  then obtain k where k: "e - (ilog2 ?x - int p + 1) = int k" by (metis add.commute diff_diff_eq2 diff_ge_0_iff_ge nonneg_int_cases zless_imp_add1_zle add_diff_eq)
  have "?x / 2 powi (ilog2 ?x - int p + 1) = of_int m * 2 powi (int k)"
    unfolding k [symmetric] by (simp add: power_int_diff)
  also have "\<dots> = of_int (m * 2 ^ k)" by simp
  finally show ?thesis using x by (simp only: rnd_def Let_def rne_of_int) (auto simp: field_simps)
qed

lemma rnd_exact:
  assumes "\<bar>m\<bar> < 2 ^ p"
  shows "rnd p (of_int m * 2 powi e) = of_int m * 2 powi e"
proof -
  consider "0 < m" | "m = 0" | "0 < - m" by linarith
  then show ?thesis
  proof cases
    case 1
    then show ?thesis using assms by (intro rnd_exact_pos) simp_all
  next
    case 2
    then show ?thesis by simp
  next
    case 3
    then have "rnd p (of_int (- m) * 2 powi e) = of_int (- m) * 2 powi e"
      using assms by (intro rnd_exact_pos) simp_all
    then show ?thesis by (simp add: rnd_minus)
  qed
qed

lemma rnd_of_int [rn_simps]:
  assumes "\<bar>m\<bar> < 2 ^ p"
  shows "rnd p (of_int m) = of_int m"
  using rnd_exact [OF assms, of 0] by simp

lemma rnd_1 [rn_simps]: "0 < p \<Longrightarrow> rnd p 1 = 1"
  using rnd_exact [of 1 p 0] by simp

text \<open>The rounding error is at most half a unit in the last place.\<close>

lemma rnd_error:
  assumes "x \<noteq> 0"
  shows "\<bar>rnd p x - x\<bar> \<le> 2 powi (ilog2 x - int p)"
proof -
  let ?u = "2 powi (ilog2 x - int p + 1) :: rat"
  have "rnd p x - x = (of_int (rne (x / ?u)) - x / ?u) * ?u"
    using assms by (simp add: rnd_def Let_def left_diff_distrib)
  then have "\<bar>rnd p x - x\<bar> \<le> 1 / 2 * ?u"
    using rne_bounds(3) [of "x / ?u"] by (simp only: abs_mult) (intro mult_mono, simp_all)
  also have "\<dots> = 2 powi (ilog2 x - int p)" by (simp add: power_int_add_1)
  finally show ?thesis .
qed

lemma rnd_rel: "\<bar>rnd p x - x\<bar> \<le> \<bar>x\<bar> / 2 ^ p"
proof (cases "x = 0")
  case False
  have "(2::rat) powi (ilog2 x - int p) = 2 powi ilog2 x / 2 ^ p" by (simp add: power_int_diff)
  also have "\<dots> \<le> \<bar>x\<bar> / 2 ^ p" using ilog2_bounds(1) [OF False] by (simp add: divide_right_mono)
  finally show ?thesis using rnd_error [OF False, of p] by linarith
qed simp

section \<open>The operations of the two types\<close>

definition fadd :: "f32 \<Rightarrow> f32 \<Rightarrow> f32" where "fadd x y = rnd 24 (x + y)"
definition fsub :: "f32 \<Rightarrow> f32 \<Rightarrow> f32" where "fsub x y = rnd 24 (x - y)"
definition fmul :: "f32 \<Rightarrow> f32 \<Rightarrow> f32" where "fmul x y = rnd 24 (x * y)"
definition fdiv :: "f32 \<Rightarrow> f32 \<Rightarrow> f32" where "fdiv x y = rnd 24 (x / y)"

text \<open>The same for \<^verbatim>\<open>double\<close>, and the conversion of a double to \<^verbatim>\<open>float\<close>.\<close>

definition dadd :: "rat \<Rightarrow> rat \<Rightarrow> rat" where "dadd x y = rnd 53 (x + y)"
definition dsub :: "rat \<Rightarrow> rat \<Rightarrow> rat" where "dsub x y = rnd 53 (x - y)"
definition dmul :: "rat \<Rightarrow> rat \<Rightarrow> rat" where "dmul x y = rnd 53 (x * y)"
definition ddiv :: "rat \<Rightarrow> rat \<Rightarrow> rat" where "ddiv x y = rnd 53 (x / y)"
definition d2f :: "rat \<Rightarrow> f32" where "d2f x = rnd 24 x"

text \<open>Conversions: an integer to \<^verbatim>\<open>float\<close>, and a float to \<^verbatim>\<open>int\<close>, which truncates and is undefined
  when the result is not an \<^verbatim>\<open>int\<close>.\<close>

definition i2f :: "int \<Rightarrow> f32" where "i2f n = rnd 24 (of_int n)"

definition ctrunc :: "rat \<Rightarrow> int" where
  "ctrunc x = (if x < 0 then \<lceil>x\<rceil> else \<lfloor>x\<rfloor>)"

definition f2i :: "f32 \<Rightarrow> int option" where
  "f2i x = (if int_ok (ctrunc x) then Some (ctrunc x) else None)"

text \<open>\<^verbatim>\<open>std::roundf\<close>: to nearest, ties away from zero.\<close>

definition roundf :: "f32 \<Rightarrow> f32" where
  "roundf x = (if x < 0 then - of_int \<lfloor>- x + 1 / 2\<rfloor> else of_int \<lfloor>x + 1 / 2\<rfloor>)"

lemma i2f_exact [rn_simps]: "\<bar>n\<bar> < 2 ^ 24 \<Longrightarrow> i2f n = of_int n"
  by (simp add: i2f_def rnd_of_int)

lemma f_nonneg:
  "0 \<le> x \<Longrightarrow> 0 \<le> y \<Longrightarrow> 0 \<le> fadd x y"
  "y \<le> x \<Longrightarrow> 0 \<le> fsub x y"
  "0 \<le> x \<Longrightarrow> 0 \<le> y \<Longrightarrow> 0 \<le> fmul x y"
  "0 \<le> x \<Longrightarrow> 0 \<le> y \<Longrightarrow> 0 \<le> fdiv x y"
  by (simp_all add: fadd_def fsub_def fmul_def fdiv_def rnd_nonneg)

lemma f_mono:
  "x \<le> x' \<Longrightarrow> y \<le> y' \<Longrightarrow> fadd x y \<le> fadd x' y'"
  "x \<le> x' \<Longrightarrow> y' \<le> y \<Longrightarrow> fsub x y \<le> fsub x' y'"
  "0 \<le> x \<Longrightarrow> 0 \<le> y \<Longrightarrow> x \<le> x' \<Longrightarrow> y \<le> y' \<Longrightarrow> fmul x y \<le> fmul x' y'"
  "x \<le> x' \<Longrightarrow> 0 < y \<Longrightarrow> fdiv x y \<le> fdiv x' y"
  by (auto simp: fadd_def fsub_def fmul_def fdiv_def intro!: rnd_mono add_mono diff_mono mult_mono divide_right_mono)

lemma ctrunc_mono: "x \<le> y \<Longrightarrow> ctrunc x \<le> ctrunc y"
  by (auto simp: ctrunc_def ceiling_mono floor_mono)
     (meson ceiling_le_zero less_imp_le not_less order_trans zero_le_floor)

lemma ctrunc_of_int [simp]: "ctrunc (of_int n) = n"
  by (simp add: ctrunc_def)

text \<open>Relative bounds of a rounding, and the conversions between bounds.\<close>

lemma rel_bounds:
  assumes "0 \<le> x"
  shows "rnd 24 x \<le> x * (1 + 1 / 2 ^ 24)" "x * (1 - 1 / 2 ^ 24) \<le> rnd 24 x"
proof -
  have "\<bar>rnd 24 x - x\<bar> \<le> x * (1 / 2 ^ 24)" using rnd_rel [of 24 x] assms by simp
  then show "rnd 24 x \<le> x * (1 + 1 / 2 ^ 24)" "x * (1 - 1 / 2 ^ 24) \<le> rnd 24 x"
    by (simp_all only: abs_le_iff distrib_left right_diff_distrib) linarith+
qed

lemma roundf_near: "\<bar>roundf x - x\<bar> \<le> 1 / 2"
proof (cases "x < 0")
  case True
  have "of_int \<lfloor>- x + 1 / 2\<rfloor> \<le> - x + 1 / 2" "- x + 1 / 2 < of_int \<lfloor>- x + 1 / 2\<rfloor> + 1" by linarith+
  then show ?thesis unfolding roundf_def abs_le_iff if_P [OF True] by linarith
next
  case False
  have "of_int \<lfloor>x + 1 / 2\<rfloor> \<le> x + 1 / 2" "x + 1 / 2 < of_int \<lfloor>x + 1 / 2\<rfloor> + 1" by linarith+
  then show ?thesis unfolding roundf_def abs_le_iff if_not_P [OF False] by linarith
qed

lemma f2i_between:
  assumes "of_int a \<le> x" "x \<le> of_int b" "- (2 ^ 31) \<le> a" "b < 2 ^ 31"
  shows "\<exists>n. f2i x = Some n \<and> a \<le> n \<and> n \<le> b"
proof -
  have "a \<le> ctrunc x" "ctrunc x \<le> b" using ctrunc_mono [OF assms(1)] ctrunc_mono [OF assms(2)] by simp_all
  then show ?thesis using assms(3,4) by (simp add: f2i_def int_ok_def)
qed

lemma roundf_between: "of_int a \<le> x \<Longrightarrow> x \<le> of_int b \<Longrightarrow> of_int a - 1 \<le> roundf x \<and> roundf x \<le> of_int b + 1"
  using roundf_near [of x] by linarith

text \<open>Rounding keeps a number between powers of two.\<close>

lemma rnd_le_pow: "x \<le> 2 ^ n \<Longrightarrow> rnd 24 x \<le> 2 ^ n"
  using rnd_mono [of x "2 ^ n" 24] rnd_exact [of 1 24 "int n"] by simp

lemma rnd_ge_pow: "2 powi n \<le> x \<Longrightarrow> 2 powi n \<le> rnd 24 x"
  using rnd_mono [of "2 powi n" x 24] rnd_exact [of 1 24 n] by simp

lemma rnd_idem: "0 < p \<Longrightarrow> rnd p (rnd p x) = rnd p x"
proof -
  assume p: "0 < p"
  let ?u = "ilog2 x - int p + 1"
  consider "x = 0" | "x \<noteq> 0" "\<bar>rne (x / 2 powi ?u)\<bar> < 2 ^ p" | "x \<noteq> 0" "2 ^ p \<le> \<bar>rne (x / 2 powi ?u)\<bar>" by linarith
  then show ?thesis
  proof cases
    case 2
    then show ?thesis using rnd_exact [OF 2(2), of ?u] by (simp add: rnd_def [of p x] Let_def)
  next
    case 3
    have "\<bar>rnd p x\<bar> \<le> 2 powi (ilog2 x + 1)"
      using rnd_bounds(2) [of x p] rnd_bounds(2) [of "- x" p] rnd_pos [of x p] rnd_pos [of "- x" p] 3(1) p
      by (cases "0 < x") (auto simp: rnd_minus)
    moreover have "\<bar>rnd p x\<bar> = of_int \<bar>rne (x / 2 powi ?u)\<bar> * 2 powi ?u" using 3(1) by (simp add: rnd_def Let_def abs_mult)
    moreover have "(2 :: rat) powi (ilog2 x + 1) = 2 ^ p * 2 powi ?u"
      using power_int_add [of "2 :: rat" "int p" ?u] by simp
    ultimately have "of_int \<bar>rne (x / 2 powi ?u)\<bar> \<le> (2 ^ p :: rat)" by simp
    then have "of_int \<bar>rne (x / 2 powi ?u)\<bar> \<le> (of_int (2 ^ p) :: rat)" by simp
    then have "\<bar>rne (x / 2 powi ?u)\<bar> \<le> 2 ^ p" by (simp only: of_int_le_iff)
    then have "\<bar>rne (x / 2 powi ?u)\<bar> = 2 ^ p" using 3(2) by simp
    then have s: "rne (x / 2 powi ?u) = sgn (rne (x / 2 powi ?u)) * 2 ^ p" by (metis sgn_mult_abs)
    define t where "t = sgn (rne (x / 2 powi ?u))"
    have "rnd p x = of_int (t * 2 ^ p) * 2 powi ?u" unfolding t_def s [symmetric] using 3(1) by (simp add: rnd_def Let_def)
    moreover have e: "(2 :: rat) powi (?u + int p) = 2 ^ p * 2 powi ?u" by (subst power_int_add) simp_all
    ultimately have r: "rnd p x = of_int t * 2 powi (?u + int p)" unfolding e by simp
    have "\<bar>t\<bar> \<le> 1" by (simp add: t_def abs_sgn_eq)
    moreover have "(1 :: int) < 2 ^ p" using p by simp
    ultimately have "\<bar>t\<bar> < 2 ^ p" by linarith
    then show ?thesis unfolding r by (rule rnd_exact)
  qed simp
qed

lemma rnd_abs_le: "\<bar>x\<bar> \<le> 2 ^ n \<Longrightarrow> \<bar>rnd 24 x\<bar> \<le> 2 ^ n"
  using rnd_le_pow [of x n] rnd_le_pow [of "- x" n] unfolding rnd_minus by linarith

lemma i2f_eq_0: "0 \<le> x \<Longrightarrow> i2f x = 0 \<longleftrightarrow> x = 0"
  unfolding i2f_def using rnd_pos [of "of_int x" 24] by (cases "x = 0") auto

end
