(* ===== verification/Dpipe.thy ===== *)
theory Dpipe
  imports Prelude
begin

text \<open>
  The frame pipe of \<^verbatim>\<open>video_analytics_example/dpipe.cpp\<close>: a pool of frame buffers that travel
  between a producer thread (\<^verbatim>\<open>dpipe_get\<close>, \<^verbatim>\<open>dpipe_store\<close>) and a consumer thread
  (\<^verbatim>\<open>dpipe_load\<close>, \<^verbatim>\<open>dpipe_put\<close>). The heap is explicit: a \<^verbatim>\<open>dpipe_buffer_t\<close> node and a
  \<^verbatim>\<open>dpipe_t\<close> are found by their addresses, the \<^verbatim>\<open>next\<close> pointers link the two pools, and every
  operation reads and writes the heap in the order of the source. \<open>None\<close> is an access through an
  address that holds no node. The answers of \<^verbatim>\<open>malloc\<close> are a list in the state, so that any
  pattern of success and failure can be replayed.
\<close>

section \<open>State\<close>

record dbuf =
  buf_pointer :: ptr
  internal :: ptr
  offset :: int
  nxt :: ptr

text \<open>The synchronisation objects of a pipe, and which of them have been initialised.\<close>

datatype sync_obj = Cond_Mutex | Cond | Cond_Input_Mutex | Cond_Input | Io_Mutex

record dpipe =
  channel_id :: int
  pname :: "(ptr \<times> string) option"
  sync :: "sync_obj list"
  in_p :: ptr
  out_p :: ptr
  out_tail :: ptr
  in_count :: int
  out_count :: int

record world =
  blocks :: "ptr \<Rightarrow> int option"
  bufs :: "ptr \<Rightarrow> dbuf option"
  pipes :: "ptr \<Rightarrow> dpipe option"
  dpipemap :: "string \<Rightarrow> ptr option"
  start :: bool
  answers :: "ptr list"

text \<open>The sizes of the two structures on x86-64.\<close>

definition sizeof_dpipe_buffer_t :: int where "sizeof_dpipe_buffer_t = 32"
definition sizeof_dpipe_t :: int where "sizeof_dpipe_t = 264"

section \<open>The C allocator\<close>

definition malloc :: "int \<Rightarrow> world \<Rightarrow> ptr \<times> world" where
  "malloc n w = (case answers w of
       [] \<Rightarrow> (null, w)
     | a # as \<Rightarrow> (a, w\<lparr>answers := as,
         blocks := (if a = null then blocks w else (blocks w)(a \<mapsto> n))\<rparr>))"

text \<open>Freeing an address that is not an allocated block is undefined; freeing null does nothing.\<close>

definition mfree :: "ptr \<Rightarrow> world \<Rightarrow> world option" where
  "mfree a w = (if a = null then Some w
     else if blocks w a = None then None
     else Some (w\<lparr>blocks := (blocks w)(a := None), bufs := (bufs w)(a := None),
                  pipes := (pipes w)(a := None)\<rparr>))"

definition ga_malloc :: "int \<Rightarrow> world \<Rightarrow> ((int \<times> ptr \<times> int) \<times> world) option" where
  "ga_malloc sz w =
     (if \<not> int_ok (sz + 16) then None
      else let (p, w') = malloc (sz + 16) w in
        if p = null then Some ((-1, p, 0), w')
        else Some ((0, p, 16 - uint (and p 0x0f)), w'))"

section \<open>Lookup, creation, destruction\<close>

definition dpipe_lookup :: "string \<Rightarrow> world \<Rightarrow> ptr" where
  "dpipe_lookup name w = (case dpipemap w name of None \<Rightarrow> null | Some p \<Rightarrow> p)"

definition dpipe_stop :: "ptr \<Rightarrow> world \<Rightarrow> world" where
  "dpipe_stop p w = w\<lparr>start := False\<rparr>"

text \<open>
  One of the two release loops of \<^verbatim>\<open>dpipe_destroy\<close>. The list may be circular in a corrupted heap,
  so the loop carries fuel; the number of allocated blocks is enough because every round frees one.
\<close>

fun free_pool :: "nat \<Rightarrow> ptr \<Rightarrow> world \<Rightarrow> world option" where
  "free_pool 0 vbuf w = (if vbuf = null then Some w else None)"
| "free_pool (Suc n) vbuf w =
     (if vbuf = null then Some w
      else do {
        b \<leftarrow> bufs w vbuf;
        w1 \<leftarrow> mfree (internal b) w;
        w2 \<leftarrow> mfree vbuf w1;
        free_pool n (nxt b) w2 })"

text \<open>
  \<^verbatim>\<open>dpipe_destroy\<close> destroys the two mutexes and the two condition variables without asking whether
  they were initialised: \<open>sync := []\<close>. On the way from a failed \<^verbatim>\<open>strdup\<close> they were not, and are all zero
  bytes from \<^verbatim>\<open>bzero\<close>. The model takes the destruction of such an object to have no effect, as in the C
  library of the program's platform, where all zero bytes are the static initialisers; POSIX leaves it undefined.
\<close>

definition dpipe_destroy :: "nat \<Rightarrow> ptr \<Rightarrow> world \<Rightarrow> (int \<times> world) option" where
  "dpipe_destroy fuel p w =
     (if p = null then Some (0, w)
      else do {
        d \<leftarrow> pipes w p;
        w1 \<leftarrow> (case pname d of
                 None \<Rightarrow> Some w
               | Some (na, nm) \<Rightarrow> mfree na (w\<lparr>dpipemap := (dpipemap w)(nm := None)\<rparr>));
        w2 \<leftarrow> Some (w1\<lparr>pipes := (pipes w1)(p \<mapsto> d\<lparr>sync := []\<rparr>)\<rparr>);
        w3 \<leftarrow> free_pool fuel (in_p d) w2;
        w4 \<leftarrow> free_pool fuel (out_p d) w3;
        w5 \<leftarrow> mfree p w4;
        Some (0, w5) })"

text \<open>
  The loop of \<^verbatim>\<open>dpipe_create\<close> that allocates the frame buffers; \<open>False\<close> is the jump to
  \<^verbatim>\<open>err_create\<close>.
\<close>

fun alloc_frames :: "nat \<Rightarrow> int \<Rightarrow> ptr \<Rightarrow> world \<Rightarrow> (bool \<times> world) option" where
  "alloc_frames 0 maxframesize p w = Some (True, w)"
| "alloc_frames (Suc n) maxframesize p w =
     (let (db, w1) = malloc sizeof_dpipe_buffer_t w in
      if db = null then Some (False, w1)
      else do {
        ((r, itn, off), w2) \<leftarrow> ga_malloc maxframesize w1;
        if r < 0 then do { w3 \<leftarrow> mfree db w2; Some (False, w3) }
        else do {
          d \<leftarrow> pipes w2 p;
          alloc_frames n maxframesize p
            (w2\<lparr>bufs := (bufs w2)(db \<mapsto> \<lparr>buf_pointer = itn + word_of_int off,
                    internal = itn, offset = off, nxt = in_p d\<rparr>),
                pipes := (pipes w2)(p \<mapsto> d\<lparr>in_p := db, in_count := in_count d + 1\<rparr>)\<rparr>) } })"

definition blank_dpipe :: dpipe where
  "blank_dpipe = \<lparr>channel_id = 0, pname = None, sync = [], in_p = null, out_p = null,
                  out_tail = null, in_count = 0, out_count = 0\<rparr>"

definition dpipe_create ::
  "int \<Rightarrow> string option \<Rightarrow> int \<Rightarrow> int \<Rightarrow> world \<Rightarrow> (ptr \<times> world) option" where
  "dpipe_create cid name nframe maxframesize w =
     (case name of None \<Rightarrow> Some (null, w) | Some nm \<Rightarrow>
      if cid < 0 \<or> nframe \<le> 0 \<or> maxframesize \<le> 0 then Some (null, w)
      else if dpipe_lookup nm w \<noteq> null then Some (null, w)
      else
        let (p, w1) = malloc sizeof_dpipe_t w in
        if p = null then Some (null, w1)
        else
          let (na, w2) = malloc (int (length nm) + 1) w1;
              d = blank_dpipe\<lparr>channel_id := cid\<rparr> in
          if na = null then do {
            (_, w3) \<leftarrow> dpipe_destroy (nat nframe) p (w2\<lparr>pipes := (pipes w2)(p \<mapsto> d)\<rparr>);
            Some (null, w3) }
          else do {
            (ok, w3) \<leftarrow> alloc_frames (nat nframe) maxframesize p
              (w2\<lparr>pipes := (pipes w2)(p \<mapsto>
                 d\<lparr>pname := Some (na, nm), sync := [Cond_Mutex, Cond, Cond_Input, Io_Mutex]\<rparr>)\<rparr>);
            if ok then Some (p, w3\<lparr>dpipemap := (dpipemap w3)(nm \<mapsto> p), start := True\<rparr>)
            else do {
              (_, w4) \<leftarrow> dpipe_destroy (nat nframe) p w3;
              Some (null, w4) } })"

section \<open>The pool operations\<close>

text \<open>Each of them runs under \<^verbatim>\<open>io_mutex\<close>, so it is one atomic step of the system.\<close>

definition set_nxt :: "ptr \<Rightarrow> ptr \<Rightarrow> world \<Rightarrow> world option" where
  "set_nxt a q w = do { b \<leftarrow> bufs w a; Some (w\<lparr>bufs := (bufs w)(a \<mapsto> b\<lparr>nxt := q\<rparr>)\<rparr>) }"

definition set_pipe :: "ptr \<Rightarrow> dpipe \<Rightarrow> world \<Rightarrow> world" where
  "set_pipe p d w = w\<lparr>pipes := (pipes w)(p \<mapsto> d)\<rparr>"

text \<open>Unlink the first buffer of the output pool.\<close>

definition take_out :: "ptr \<Rightarrow> dpipe \<Rightarrow> world \<Rightarrow> (ptr \<times> world) option" where
  "take_out p d w = do {
     b \<leftarrow> bufs w (out_p d);
     w1 \<leftarrow> set_nxt (out_p d) null w;
     let d1 = d\<lparr>out_p := nxt b, out_tail := (if nxt b = null then null else out_tail d),
                out_count := out_count d - 1\<rparr>;
     Some (out_p d, set_pipe p d1 w1) }"

datatype attempt = Got ptr | Again

text \<open>
  One round of \<^verbatim>\<open>dpipe_get\<close>. With no free buffer it waits for one while \<^verbatim>\<open>start\<close> is set
  (\<open>Again\<close>), and falls back to the eldest frame of the output pool once the pipes are stopped.
\<close>

definition dpipe_get_round :: "ptr \<Rightarrow> world \<Rightarrow> (attempt \<times> world) option" where
  "dpipe_get_round p w = do {
     d \<leftarrow> pipes w p;
     if in_p d \<noteq> null then do {
       b \<leftarrow> bufs w (in_p d);
       w1 \<leftarrow> set_nxt (in_p d) null w;
       Some (Got (in_p d),
             set_pipe p (d\<lparr>in_p := nxt b, in_count := in_count d - 1\<rparr>) w1) }
     else if start w then Some (Again, w)
     else if out_p d \<noteq> null then do { (b, w1) \<leftarrow> take_out p d w; Some (Got b, w1) }
     else Some (Got null, w) }"

definition dpipe_put :: "ptr \<Rightarrow> ptr \<Rightarrow> world \<Rightarrow> world option" where
  "dpipe_put p b w = do {
     d \<leftarrow> pipes w p;
     w1 \<leftarrow> set_nxt b (in_p d) w;
     Some (set_pipe p (d\<lparr>in_p := b, in_count := in_count d + 1\<rparr>) w1) }"

definition dpipe_load_nowait :: "ptr \<Rightarrow> world \<Rightarrow> (ptr \<times> world) option" where
  "dpipe_load_nowait p w = do {
     d \<leftarrow> pipes w p;
     if out_p d \<noteq> null then take_out p d w else Some (null, w) }"

definition dpipe_store :: "ptr \<Rightarrow> ptr \<Rightarrow> world \<Rightarrow> world option" where
  "dpipe_store p b w = do {
     d \<leftarrow> pipes w p;
     (w1, d1) \<leftarrow> (if out_tail d \<noteq> null
        then do { w1 \<leftarrow> set_nxt (out_tail d) b w; Some (w1, d\<lparr>out_tail := b\<rparr>) }
        else Some (w, d\<lparr>out_p := b, out_tail := b\<rparr>));
     w2 \<leftarrow> set_nxt b null w1;
     Some (set_pipe p (d1\<lparr>out_count := out_count d1 + 1\<rparr>) w2) }"

text \<open>
  The blocking forms. While the caller waits the other threads run: their effect between two
  rounds is one element of the list \<open>env\<close>, and \<open>None\<close> in the first component means that the call
  is still waiting when the list is used up. \<^verbatim>\<open>dpipe_load\<close> with a deadline waits once.
\<close>

fun dpipe_get :: "(world \<Rightarrow> world) list \<Rightarrow> ptr \<Rightarrow> world \<Rightarrow> (ptr option \<times> world) option" where
  "dpipe_get env p w = do {
     (r, w1) \<leftarrow> dpipe_get_round p w;
     case r of
       Got b \<Rightarrow> Some (Some b, w1)
     | Again \<Rightarrow> (case env of [] \<Rightarrow> Some (None, w1) | e # es \<Rightarrow> dpipe_get es p (e w1)) }"

fun dpipe_load :: "(world \<Rightarrow> world) list \<Rightarrow> ptr \<Rightarrow> bool \<Rightarrow> world \<Rightarrow> (ptr option \<times> world) option" where
  "dpipe_load env p deadline w = do {
     d \<leftarrow> pipes w p;
     if out_p d \<noteq> null then do { (b, w1) \<leftarrow> take_out p d w; Some (Some b, w1) }
     else case env of
       [] \<Rightarrow> Some (None, w)
     | e # es \<Rightarrow>
         if deadline then do { (b, w1) \<leftarrow> dpipe_load_nowait p (e w); Some (Some b, w1) }
         else dpipe_load es p deadline (e w) }"

section \<open>Linked pools\<close>

text \<open>The buffers of a pool, from its first pointer along \<^verbatim>\<open>next\<close> to null.\<close>

fun chain :: "(ptr \<Rightarrow> dbuf option) \<Rightarrow> ptr \<Rightarrow> ptr list \<Rightarrow> bool" where
  "chain h p [] = (p = null)"
| "chain h p (a # as) = (p = a \<and> a \<noteq> null \<and>
     (case h a of None \<Rightarrow> False | Some b \<Rightarrow> chain h (nxt b) as))"

definition pool_ok :: "world \<Rightarrow> ptr \<Rightarrow> ptr list \<Rightarrow> ptr list \<Rightarrow> bool" where
  "pool_ok w p ins outs \<longleftrightarrow> (case pipes w p of None \<Rightarrow> False | Some d \<Rightarrow>
     chain (bufs w) (in_p d) ins \<and> chain (bufs w) (out_p d) outs \<and>
     out_tail d = (if outs = [] then null else last outs) \<and>
     in_count d = int (length ins) \<and> out_count d = int (length outs) \<and> distinct (ins @ outs))"

lemma chain_upd [simp]: "a \<notin> set as \<Longrightarrow> chain (h(a := x)) p as = chain h p as"
  by (induction as arbitrary: p) (auto split: option.splits)

lemma chain_nonnull: "chain h p as \<Longrightarrow> null \<notin> set as"
  by (induction as arbitrary: p) (auto split: option.splits)

lemma chain_valid: "chain h p as \<Longrightarrow> a \<in> set as \<Longrightarrow> h a \<noteq> None"
  by (induction as arbitrary: p) (auto split: option.splits)

lemma chain_empty_iff: "chain h p as \<Longrightarrow> p = null \<longleftrightarrow> as = []"
  by (cases as) (auto split: option.splits)

lemma chain_cong: "(\<And>a. a \<in> set as \<Longrightarrow> h a = h' a) \<Longrightarrow> chain h p as = chain h' p as"
  by (induction as arbitrary: p) (auto split: option.splits)

text \<open>Linking a buffer behind the last one, as \<^verbatim>\<open>dpipe_store\<close> does.\<close>

lemma chain_snoc:
  assumes "chain h p (as @ [t])" and "distinct (as @ [t])" and "b \<notin> set (as @ [t])"
    and "b \<noteq> null" and "h t = Some bt"
  shows "chain (h(t \<mapsto> bt\<lparr>nxt := b\<rparr>, b \<mapsto> bb\<lparr>nxt := null\<rparr>)) p (as @ [t, b])"
  using assms
  by (induction as arbitrary: p) (auto split: option.splits)

text \<open>What an operation on the pipe \<open>p\<close> leaves alone.\<close>

definition payload :: "dbuf \<Rightarrow> ptr \<times> ptr \<times> int" where
  "payload b = (buf_pointer b, internal b, offset b)"

definition same_but :: "ptr \<Rightarrow> ptr set \<Rightarrow> world \<Rightarrow> world \<Rightarrow> bool" where
  "same_but p B w w' \<longleftrightarrow> blocks w' = blocks w \<and> dpipemap w' = dpipemap w \<and> start w' = start w \<and>
     answers w' = answers w \<and> (\<forall>q. q \<noteq> p \<longrightarrow> pipes w' q = pipes w q) \<and>
     (\<forall>a. a \<notin> B \<longrightarrow> bufs w' a = bufs w a) \<and>
     (\<forall>a. map_option payload (bufs w' a) = map_option payload (bufs w a))"

lemma same_but_refl [simp]: "same_but p B w w"
  by (simp add: same_but_def)

lemma same_but_dom: "same_but p B w w' \<Longrightarrow> dom (bufs w') = dom (bufs w)"
  by (auto simp: same_but_def dom_def) (metis map_option_is_None option.exhaust)+

lemma same_but_start: "same_but p B w w' \<Longrightarrow> start w' = start w"
  by (simp add: same_but_def)

lemma pool_ok_other:
  assumes "same_but p B w w'" and "p \<noteq> q" and "B \<inter> set (ins @ outs) = {}" and "pool_ok w q ins outs"
  shows "pool_ok w' q ins outs"
proof -
  have "pipes w' q = pipes w q" using assms(1,2) by (auto simp: same_but_def)
  moreover have "\<And>a. a \<in> set (ins @ outs) \<Longrightarrow> bufs w' a = bufs w a"
    using assms(1,3) by (auto simp: same_but_def)
  then have "\<And>r. chain (bufs w') r ins = chain (bufs w) r ins"
    and "\<And>r. chain (bufs w') r outs = chain (bufs w) r outs"
    by (auto intro!: chain_cong)
  ultimately show ?thesis using assms(4) by (auto simp: pool_ok_def split: option.splits)
qed

lemma pool_okE:
  assumes "pool_ok w p ins outs"
  obtains d where "pipes w p = Some d" "chain (bufs w) (in_p d) ins" "chain (bufs w) (out_p d) outs"
    "out_tail d = (if outs = [] then null else last outs)" "in_count d = int (length ins)"
    "out_count d = int (length outs)" "distinct (ins @ outs)"
  using assms by (auto simp: pool_ok_def split: option.splits)

lemma pool_ok_members:
  assumes "pool_ok w p ins outs"
  shows "distinct (ins @ outs)" and "null \<notin> set (ins @ outs)"
    and "set (ins @ outs) \<subseteq> dom (bufs w)"
  using assms by (auto elim!: pool_okE dest: chain_nonnull chain_valid)

section \<open>The pool operations on well-formed pipes\<close>

lemmas pool_op_defs = dpipe_get_round_def dpipe_put_def dpipe_load_nowait_def dpipe_store_def
  take_out_def set_nxt_def set_pipe_def

lemma get_round_free:
  assumes "pool_ok w p (b # ins) outs"
  shows "\<exists>w'. dpipe_get_round p w = Some (Got b, w') \<and> pool_ok w' p ins outs \<and> same_but p {b} w w'"
proof -
  from assms obtain d where d: "pipes w p = Some d" "chain (bufs w) (in_p d) (b # ins)"
    "chain (bufs w) (out_p d) outs" "out_tail d = (if outs = [] then null else last outs)"
    "in_count d = int (length (b # ins))" "out_count d = int (length outs)" "distinct ((b # ins) @ outs)"
    by (rule pool_okE)
  from d(2) obtain bb where bb: "bufs w b = Some bb" "chain (bufs w) (nxt bb) ins" "in_p d = b" "b \<noteq> null"
    by (auto split: option.splits)
  show ?thesis
    using d bb by (auto simp: pool_op_defs pool_ok_def same_but_def payload_def)
qed

lemma take_out_ok:
  assumes "pool_ok w p ins (b # outs)" and "pipes w p = Some d"
  shows "\<exists>w'. take_out p d w = Some (b, w') \<and> pool_ok w' p ins outs \<and> same_but p {b} w w'"
proof -
  from assms(1) obtain d' where d: "pipes w p = Some d'" "chain (bufs w) (in_p d') ins"
    "chain (bufs w) (out_p d') (b # outs)" "out_tail d' = (if b # outs = [] then null else last (b # outs))"
    "in_count d' = int (length ins)" "out_count d' = int (length (b # outs))" "distinct (ins @ b # outs)"
    by (rule pool_okE)
  from d(3) obtain bb where bb: "bufs w b = Some bb" "chain (bufs w) (nxt bb) outs" "out_p d' = b" "b \<noteq> null"
    by (auto split: option.splits)
  moreover have "nxt bb = null \<longleftrightarrow> outs = []" using bb(2) by (rule chain_empty_iff)
  ultimately show ?thesis
    using d assms(2) by (auto simp: pool_op_defs pool_ok_def same_but_def payload_def)
qed

lemma out_pool_empty_iff: "pool_ok w p ins outs \<Longrightarrow> pipes w p = Some d \<Longrightarrow> out_p d = null \<longleftrightarrow> outs = []"
  by (auto elim!: pool_okE dest: chain_empty_iff)

lemma in_pool_empty_iff: "pool_ok w p ins outs \<Longrightarrow> pipes w p = Some d \<Longrightarrow> in_p d = null \<longleftrightarrow> ins = []"
  by (auto elim!: pool_okE dest: chain_empty_iff)

lemma get_round_empty:
  assumes "pool_ok w p [] outs"
  shows "start w \<Longrightarrow> dpipe_get_round p w = Some (Again, w)"
    and "\<not> start w \<Longrightarrow> outs = [] \<Longrightarrow> dpipe_get_round p w = Some (Got null, w)"
    and "\<not> start w \<Longrightarrow> outs = b # os \<Longrightarrow>
      \<exists>w'. dpipe_get_round p w = Some (Got b, w') \<and> pool_ok w' p [] os \<and> same_but p {b} w w'"
proof -
  obtain d where d: "pipes w p = Some d" using assms by (auto elim: pool_okE)
  have e: "in_p d = null" "out_p d = null \<longleftrightarrow> outs = []"
    using in_pool_empty_iff [OF assms d] out_pool_empty_iff [OF assms d] by simp_all
  show "start w \<Longrightarrow> dpipe_get_round p w = Some (Again, w)"
    using d e by (simp add: dpipe_get_round_def)
  show "\<not> start w \<Longrightarrow> outs = [] \<Longrightarrow> dpipe_get_round p w = Some (Got null, w)"
    using d e by (simp add: dpipe_get_round_def)
  show "\<not> start w \<Longrightarrow> outs = b # os \<Longrightarrow>
      \<exists>w'. dpipe_get_round p w = Some (Got b, w') \<and> pool_ok w' p [] os \<and> same_but p {b} w w'"
    using d e assms take_out_ok [of w p "[]" b os d] by (auto simp: dpipe_get_round_def)
qed

lemma put_ok:
  assumes "pool_ok w p ins outs" and "b \<noteq> null" and "bufs w b \<noteq> None" and "b \<notin> set (ins @ outs)"
  shows "\<exists>w'. dpipe_put p b w = Some w' \<and> pool_ok w' p (b # ins) outs \<and> same_but p {b} w w'"
proof -
  from assms(1) obtain d where d: "pipes w p = Some d" "chain (bufs w) (in_p d) ins"
    "chain (bufs w) (out_p d) outs" "out_tail d = (if outs = [] then null else last outs)"
    "in_count d = int (length ins)" "out_count d = int (length outs)" "distinct (ins @ outs)"
    by (rule pool_okE)
  obtain bb where "bufs w b = Some bb" using assms(3) by blast
  with d assms show ?thesis
    by (auto simp: pool_op_defs pool_ok_def same_but_def payload_def)
qed

lemma load_ok:
  assumes "pool_ok w p ins (b # outs)"
  shows "\<exists>w'. dpipe_load_nowait p w = Some (b, w') \<and> pool_ok w' p ins outs \<and> same_but p {b} w w'"
proof -
  obtain d where d: "pipes w p = Some d" using assms by (auto elim: pool_okE)
  with assms have "out_p d \<noteq> null" by (simp add: out_pool_empty_iff)
  with d take_out_ok [OF assms d] show ?thesis by (simp add: dpipe_load_nowait_def)
qed

lemma load_empty:
  assumes "pool_ok w p ins []"
  shows "dpipe_load_nowait p w = Some (null, w)"
  using assms by (auto simp: dpipe_load_nowait_def elim!: pool_okE)

lemma store_ok:
  assumes ok: "pool_ok w p ins outs" and b: "b \<noteq> null" "bufs w b \<noteq> None" "b \<notin> set (ins @ outs)"
  shows "\<exists>w'. dpipe_store p b w = Some w' \<and> pool_ok w' p ins (outs @ [b]) \<and>
           same_but p (insert b (set outs)) w w'"
proof -
  from ok obtain d where d: "pipes w p = Some d" "chain (bufs w) (in_p d) ins"
    "chain (bufs w) (out_p d) outs" "out_tail d = (if outs = [] then null else last outs)"
    "in_count d = int (length ins)" "out_count d = int (length outs)" "distinct (ins @ outs)"
    by (rule pool_okE)
  obtain bb where bb: "bufs w b = Some bb" using b(2) by blast
  show ?thesis
proof (cases outs rule: rev_cases)
  case Nil
  then show ?thesis
    using d b bb by (auto simp: pool_op_defs pool_ok_def same_but_def payload_def)
next
  case (snoc os t)
  obtain bt where bt: "bufs w t = Some bt" using d(3) snoc chain_valid by fastforce
  have t: "t \<noteq> null" "t \<noteq> b" using d(3) snoc chain_nonnull b(3) by fastforce+
  have ch: "chain ((bufs w)(t \<mapsto> bt\<lparr>nxt := b\<rparr>, b \<mapsto> bb\<lparr>nxt := null\<rparr>)) (out_p d) (os @ [t, b])"
    using d(3,7) snoc b bt by (intro chain_snoc) auto
  have notin: "t \<notin> set ins" "b \<notin> set ins" using d(7) snoc b(3) by auto
  show ?thesis
    using d snoc t bt bb b ch notin
    by (auto simp: pool_op_defs pool_ok_def same_but_def payload_def)
qed
qed

section \<open>The abstract frame pool\<close>

text \<open>
  What a pipe promises: a stack of free buffers, a queue of occupied ones, and the buffers the
  clients hold. A client may hand back (\<open>Put\<close>, \<open>Store\<close>) only a buffer it holds.
\<close>

datatype pool_call = Get | Put ptr | Load | Store ptr

record pool =
  p_free :: "ptr list"
  p_queue :: "ptr list"
  p_held :: "ptr set"
  p_start :: bool

fun pool_spec :: "pool_call \<Rightarrow> pool \<Rightarrow> (attempt \<times> pool) option" where
  "pool_spec Get s = (case p_free s of
       b # bs \<Rightarrow> Some (Got b, s\<lparr>p_free := bs, p_held := insert b (p_held s)\<rparr>)
     | [] \<Rightarrow> if p_start s then Some (Again, s)
         else (case p_queue s of
             b # bs \<Rightarrow> Some (Got b, s\<lparr>p_queue := bs, p_held := insert b (p_held s)\<rparr>)
           | [] \<Rightarrow> Some (Got null, s)))"
| "pool_spec (Put b) s = (if b \<in> p_held s
     then Some (Got b, s\<lparr>p_free := b # p_free s, p_held := p_held s - {b}\<rparr>) else None)"
| "pool_spec Load s = (case p_queue s of
       b # bs \<Rightarrow> Some (Got b, s\<lparr>p_queue := bs, p_held := insert b (p_held s)\<rparr>)
     | [] \<Rightarrow> Some (Got null, s))"
| "pool_spec (Store b) s = (if b \<in> p_held s
     then Some (Got b, s\<lparr>p_queue := p_queue s @ [b], p_held := p_held s - {b}\<rparr>) else None)"

fun pool_exec :: "ptr \<Rightarrow> pool_call \<Rightarrow> world \<Rightarrow> (attempt \<times> world) option" where
  "pool_exec p Get w = dpipe_get_round p w"
| "pool_exec p (Put b) w = map_option (\<lambda>w'. (Got b, w')) (dpipe_put p b w)"
| "pool_exec p Load w = map_option (\<lambda>(b, w'). (Got b, w')) (dpipe_load_nowait p w)"
| "pool_exec p (Store b) w = map_option (\<lambda>w'. (Got b, w')) (dpipe_store p b w)"

definition pool_rel :: "ptr \<Rightarrow> world \<Rightarrow> pool \<Rightarrow> bool" where
  "pool_rel p w s \<longleftrightarrow> pool_ok w p (p_free s) (p_queue s) \<and> start w = p_start s \<and>
     null \<notin> p_held s \<and> p_held s \<subseteq> dom (bufs w) \<and> p_held s \<inter> set (p_free s @ p_queue s) = {}"

lemma pool_rel_step:
  assumes "pool_rel p w s" and "pool_spec c s = Some (r, s')"
  shows "\<exists>w'. pool_exec p c w = Some (r, w') \<and> pool_rel p w' s'"
proof -
  have ok: "pool_ok w p (p_free s) (p_queue s)" and st: "start w = p_start s"
    and held: "null \<notin> p_held s" "p_held s \<subseteq> dom (bufs w)" "p_held s \<inter> set (p_free s @ p_queue s) = {}"
    using assms(1) by (auto simp: pool_rel_def)
  note mem = pool_ok_members [OF ok]
  have held1: "b \<noteq> null" "bufs w b \<noteq> None" "b \<notin> set (p_free s @ p_queue s)" if "b \<in> p_held s" for b
    using that held by auto
  have same: "start w' = start w" "dom (bufs w') = dom (bufs w)"
    if "same_but p B w w'" for B w'
    using that by (simp_all add: same_but_start same_but_dom)
  show ?thesis
  proof (cases c)
    case Get
    show ?thesis
    proof (cases "p_free s")
      case (Cons b bs)
      then obtain w' where "dpipe_get_round p w = Some (Got b, w')" "pool_ok w' p bs (p_queue s)"
        and sb: "same_but p {b} w w'" using get_round_free ok by metis
      with Get Cons assms(2) st held mem same [OF sb] show ?thesis
        by (auto simp: pool_rel_def)
    next
      case Nil
      note empty = get_round_empty [OF ok [unfolded Nil]]
      show ?thesis
      proof (cases "p_start s \<or> p_queue s = []")
        case True
        with empty(1,2) Get Nil assms st show ?thesis by (auto split: if_splits)
      next
        case False
        then obtain b bs where q: "p_queue s = b # bs" by (cases "p_queue s") auto
        with empty(3) False st obtain w' where "dpipe_get_round p w = Some (Got b, w')"
          "pool_ok w' p [] bs" and sb: "same_but p {b} w w'" by auto
        with Get Nil q False assms(2) st held mem same [OF sb] show ?thesis
          by (auto simp: pool_rel_def)
      qed
    qed
  next
    case (Put b)
    with assms(2) have b: "b \<in> p_held s" by (auto split: if_splits)
    with put_ok [OF ok] held1 obtain w' where "dpipe_put p b w = Some w'"
      "pool_ok w' p (b # p_free s) (p_queue s)" and sb: "same_but p {b} w w'" by meson
    with Put b assms(2) st held same [OF sb] show ?thesis by (auto simp: pool_rel_def)
  next
    case Load
    show ?thesis
    proof (cases "p_queue s")
      case Nil
      with load_empty ok Load assms show ?thesis by fastforce
    next
      case (Cons b bs)
      with load_ok ok obtain w' where "dpipe_load_nowait p w = Some (b, w')"
        "pool_ok w' p (p_free s) bs" and sb: "same_but p {b} w w'" by metis
      with Load Cons assms(2) st held mem same [OF sb] show ?thesis
        by (auto simp: pool_rel_def)
    qed
  next
    case (Store b)
    with assms(2) have b: "b \<in> p_held s" by (auto split: if_splits)
    with store_ok [OF ok] held1 obtain w' where "dpipe_store p b w = Some w'"
      "pool_ok w' p (p_free s) (p_queue s @ [b])"
      and sb: "same_but p (insert b (set (p_queue s))) w w'" by meson
    with Store b assms(2) st held same [OF sb] show ?thesis by (auto simp: pool_rel_def)
  qed
qed

interpretation pipe: simulation "pool_exec p" pool_spec "pool_rel p" for p
  by unfold_locales (rule pool_rel_step)

section \<open>Conservation and order of the frames\<close>

text \<open>Every buffer of the pool, as a set: a call moves buffers between the three places.\<close>

definition all_bufs :: "pool \<Rightarrow> ptr set" where
  "all_bufs s = set (p_free s) \<union> set (p_queue s) \<union> p_held s"

definition pool_wf :: "pool \<Rightarrow> bool" where
  "pool_wf s \<longleftrightarrow> distinct (p_free s @ p_queue s) \<and> set (p_free s @ p_queue s) \<inter> p_held s = {}"

lemma pool_spec_wf: "pool_wf s \<Longrightarrow> pool_spec c s = Some (r, s') \<Longrightarrow> pool_wf s' \<and> all_bufs s' = all_bufs s"
  by (cases c) (auto simp: pool_wf_def all_bufs_def split: list.splits if_splits)

lemma pool_rel_wf: "pool_rel p w s \<Longrightarrow> pool_wf s"
  using pool_ok_members(1) by (fastforce simp: pool_rel_def pool_wf_def)

text \<open>The buffers a run stores, and the ones it takes out of the output pool, in order.\<close>

fun stored :: "pool_call list \<Rightarrow> ptr list" where
  "stored [] = []"
| "stored (Store b # cs) = b # stored cs"
| "stored (_ # cs) = stored cs"

fun loaded :: "pool_call list \<Rightarrow> attempt list \<Rightarrow> ptr list" where
  "loaded (Load # cs) (Got b # rs) = (if b = null then loaded cs rs else b # loaded cs rs)"
| "loaded (_ # cs) (_ # rs) = loaded cs rs"
| "loaded _ _ = []"

lemma pool_spec_run_fifo:
  assumes "null \<notin> all_bufs s" and "pool_wf s" and "p_start s"
    and "run_calls pool_spec cs s = Some (rs, s')"
  shows "loaded cs rs @ p_queue s' = p_queue s @ stored cs"
  using assms
proof (induction cs arbitrary: s rs)
  case Nil
  then show ?case by simp
next
  case (Cons c cs)
  from Cons.prems(4) obtain r s1 qs where
    c: "pool_spec c s = Some (r, s1)" and cs: "run_calls pool_spec cs s1 = Some (qs, s')" and rs: "rs = r # qs"
    by (auto split: option.splits)
  have wf: "pool_wf s1" and ab: "all_bufs s1 = all_bufs s" using pool_spec_wf [OF Cons.prems(2) c] by auto
  have st: "p_start s1" using c Cons.prems(3) by (cases c) (auto split: list.splits if_splits)
  have IH: "loaded cs qs @ p_queue s' = p_queue s1 @ stored cs"
    using Cons.IH [OF _ wf st cs] Cons.prems(1) ab by simp
  have "null \<notin> set (p_queue s)" using Cons.prems(1) by (auto simp: all_bufs_def)
  with c IH rs Cons.prems(3) show ?case
    by (cases c) (auto split: list.splits if_splits)
qed

section \<open>Properties\<close>

text \<open>C3. Along any sequence of \<^verbatim>\<open>dpipe_get\<close>, \<^verbatim>\<open>dpipe_put\<close>, \<^verbatim>\<open>dpipe_load_nowait\<close> and
  \<^verbatim>\<open>dpipe_store\<close> calls that the pool specification allows, the linked-list code never follows an
  invalid pointer, returns exactly what the specification returns, and ends in a well-formed pipe.
  No buffer is lost, duplicated or in two places: the union of free pool, output pool and the
  buffers held by clients never changes.\<close>

theorem dpipe_refines_pool:
  assumes "pool_rel p w s" and "run_calls pool_spec cs s = Some (rs, s')"
  shows "\<exists>w'. run_calls (pool_exec p) cs w = Some (rs, w') \<and> pool_rel p w' s' \<and>
    pool_wf s' \<and> all_bufs s' = all_bufs s"
proof -
  obtain w' where w': "run_calls (pool_exec p) cs w = Some (rs, w')" "pool_rel p w' s'"
    using pipe.run [OF assms] by blast
  moreover have "pool_wf s' \<and> all_bufs s' = all_bufs s"
    by (rule run_calls_invariant [where P = "\<lambda>t. pool_wf t \<and> all_bufs t = all_bufs s", OF _ _ assms(2)])
       (use pool_spec_wf pool_rel_wf [OF assms(1)] in blast)+
  ultimately show ?thesis by blast
qed

definition demo_pool :: pool where
  "demo_pool = \<lparr>p_free = [64, 128], p_queue = [192], p_held = {256}, p_start = True\<rparr>"

definition demo_world :: world where
  "demo_world = \<lparr>blocks = (\<lambda>a. if a \<in> {16, 64, 128, 192, 256} then Some 32 else None),
     bufs = [64 \<mapsto> \<lparr>buf_pointer = 0, internal = 0, offset = 0, nxt = 128\<rparr>,
             128 \<mapsto> \<lparr>buf_pointer = 0, internal = 0, offset = 0, nxt = 0\<rparr>,
             192 \<mapsto> \<lparr>buf_pointer = 0, internal = 0, offset = 0, nxt = 0\<rparr>,
             256 \<mapsto> \<lparr>buf_pointer = 0, internal = 0, offset = 0, nxt = 0\<rparr>],
     pipes = [16 \<mapsto> \<lparr>channel_id = 0, pname = None, sync = [], in_p = 64, out_p = 192,
                 out_tail = 192, in_count = 2, out_count = 1\<rparr>],
     dpipemap = Map.empty, start = True, answers = []\<rparr>"

lemma demo_pool_rel: "pool_rel 16 demo_world demo_pool"
  by (simp add: pool_rel_def pool_ok_def demo_world_def demo_pool_def)

theorem dpipe_refines_pool_witness:
  "\<exists>w'. run_calls (pool_exec 16) [Get, Store 64, Load, Load, Load, Put 192] demo_world =
     Some ([Got 64, Got 64, Got 192, Got 64, Got 0, Got 192], w')"
  using dpipe_refines_pool [OF demo_pool_rel, of "[Get, Store 64, Load, Load, Load, Put 192]"]
  by (auto simp: demo_pool_def)

text \<open>C25. Frames leave a running pipe in the order in which they were stored: the buffers that
  \<^verbatim>\<open>dpipe_load_nowait\<close> returned, followed by those still queued, are the buffers queued at the
  start followed by those that \<^verbatim>\<open>dpipe_store\<close> appended.\<close>

theorem dpipe_fifo:
  assumes "pool_rel p w s" and "p_start s" and "run_calls pool_spec cs s = Some (rs, s')"
  shows "\<exists>w'. run_calls (pool_exec p) cs w = Some (rs, w') \<and> pool_ok w' p (p_free s') (p_queue s') \<and>
    loaded cs rs @ p_queue s' = p_queue s @ stored cs"
proof -
  obtain w' where w': "run_calls (pool_exec p) cs w = Some (rs, w')" "pool_rel p w' s'"
    using pipe.run [OF assms(1,3)] by blast
  have "null \<notin> all_bufs s"
    using assms(1) pool_ok_members(2) by (auto simp: pool_rel_def all_bufs_def)
  from pool_spec_run_fifo [OF this pool_rel_wf [OF assms(1)] assms(2,3)] w' show ?thesis
    by (auto simp: pool_rel_def)
qed

theorem dpipe_fifo_witness:
  "\<exists>w'. run_calls (pool_exec 16) [Get, Store 64, Load, Load] demo_world =
     Some ([Got 64, Got 64, Got 192, Got 64], w') \<and> pool_ok w' 16 [128] []"
  using dpipe_fifo [OF demo_pool_rel, of "[Get, Store 64, Load, Load]"]
  by (auto simp: demo_pool_def)

text \<open>A stopped pipe never blocks its producer: \<^verbatim>\<open>dpipe_get\<close> returns in its first round, with a
  free buffer if there is one, else with the eldest frame of the output pool, and with null only
  when the pipe holds no buffer at all.\<close>

theorem dpipe_get_stopped:
  assumes "pool_ok w p ins outs" and "\<not> start w"
  shows "\<exists>w'. dpipe_get [] p w = Some (Some (case ins @ outs of [] \<Rightarrow> null | b # _ \<Rightarrow> b), w') \<and>
    pool_ok w' p (tl ins) (if ins = [] then tl outs else outs)"
proof (cases ins)
  case Nil
  show ?thesis
  proof (cases outs)
    case Nil
    with \<open>ins = []\<close> get_round_empty(2) [of w p outs] assms show ?thesis by simp
  next
    case (Cons b os)
    with \<open>ins = []\<close> get_round_empty(3) [of w p outs b os] assms show ?thesis by fastforce
  qed
next
  case (Cons b bs)
  with get_round_free assms(1) show ?thesis by fastforce
qed

theorem dpipe_get_stopped_witness:
  "\<exists>w'. dpipe_get [] 16 (dpipe_stop 99 demo_world) = Some (Some 64, w') \<and> pool_ok w' 16 [128] [192]"
  using dpipe_get_stopped [of "dpipe_stop 99 demo_world" 16 "[64, 128]" "[192]"]
  by (simp add: dpipe_stop_def pool_ok_def demo_world_def)






end
