(* ===== verification/DpipeLife.thy ===== *)
theory DpipeLife
  imports Dpipe
begin

text \<open>
  Creation and destruction of frame pipes: what a successful \<^verbatim>\<open>dpipe_create\<close> builds, that a
  failing one gives every block back whichever allocation fails, and that \<^verbatim>\<open>dpipe_destroy\<close>
  releases every block of a pipe without touching a freed one.
\<close>

section \<open>Releasing blocks\<close>

definition freed :: "ptr set \<Rightarrow> world \<Rightarrow> world" where
  "freed B w = w\<lparr>blocks := blocks w |` (- B), bufs := bufs w |` (- B), pipes := pipes w |` (- B)\<rparr>"

lemma freed_simps [simp]:
  "dpipemap (freed B w) = dpipemap w" "start (freed B w) = start w" "answers (freed B w) = answers w"
  "a \<notin> B \<Longrightarrow> bufs (freed B w) a = bufs w a" "a \<notin> B \<Longrightarrow> pipes (freed B w) a = pipes w a"
  "a \<notin> B \<Longrightarrow> blocks (freed B w) a = blocks w a"
  by (simp_all add: freed_def)

lemma dom_freed: "dom (blocks (freed B w)) = dom (blocks w) - B"
  by (auto simp: freed_def)

lemma freed_freed [simp]: "freed A (freed B w) = freed (A \<union> B) w"
  by (simp add: freed_def Int_commute Un_commute)

lemma freed_map_upd [simp]: "freed B (w\<lparr>dpipemap := m\<rparr>) = (freed B w)\<lparr>dpipemap := m\<rparr>"
  by (simp add: freed_def)

lemma freed_pipe_upd:
  "p \<in> B \<Longrightarrow> freed B (w\<lparr>dpipemap := m, pipes := (pipes w)(p := x)\<rparr>) = (freed B w)\<lparr>dpipemap := m\<rparr>"
  by (simp add: freed_def)

lemma restrict_map_UNIV [simp]: "m |` UNIV = m"
  by (simp add: restrict_map_def)

lemma freed_empty [simp]: "freed {} w = w"
  by (cases w) (simp add: freed_def)

lemma restrict_map_delete: "m(a := None) = m |` (- {a})"
  by (auto simp: restrict_map_def)

lemma mfree_freed: "a \<noteq> null \<Longrightarrow> a \<in> dom (blocks w) \<Longrightarrow> mfree a w = Some (freed {a} w)"
  by (auto simp: mfree_def freed_def restrict_map_delete)

fun blocks_of :: "(ptr \<Rightarrow> dbuf option) \<Rightarrow> ptr list \<Rightarrow> ptr list" where
  "blocks_of h [] = []"
| "blocks_of h (a # as) = (case h a of None \<Rightarrow> [] | Some b \<Rightarrow> [internal b, a]) @ blocks_of h as"

lemma blocks_of_append [simp]: "blocks_of h (xs @ ys) = blocks_of h xs @ blocks_of h ys"
  by (induction xs) auto

lemma blocks_of_cong: "(\<And>a. a \<in> set as \<Longrightarrow> h a = h' a) \<Longrightarrow> blocks_of h as = blocks_of h' as"
  by (induction as) auto

lemma nodes_in_blocks_of: "set as \<subseteq> dom h \<Longrightarrow> set as \<subseteq> set (blocks_of h as)"
  by (induction as) auto

lemma chain_dom: "chain h p as \<Longrightarrow> set as \<subseteq> dom h"
  by (induction as arbitrary: p) (auto split: option.splits)

lemma free_pool_ok:
  assumes "chain (bufs w) v as" and "distinct (blocks_of (bufs w) as)"
    and "set (blocks_of (bufs w) as) \<subseteq> dom (blocks w)" and "null \<notin> set (blocks_of (bufs w) as)"
    and "length as \<le> n"
  shows "free_pool n v w = Some (freed (set (blocks_of (bufs w) as)) w)"
  using assms
proof (induction as arbitrary: v w n)
  case Nil
  then show ?case by (cases n) simp_all
next
  case (Cons a as)
  from Cons.prems(1) obtain b where b: "bufs w a = Some b" "chain (bufs w) (nxt b) as" "v = a" "a \<noteq> null"
    by (auto split: option.splits)
  from Cons.prems(5) obtain m where n: "n = Suc m" "length as \<le> m" by (cases n) auto
  let ?i = "internal b" and ?w = "freed {a, internal b} w"
  have sub: "set as \<subseteq> set (blocks_of (bufs w) as)" using chain_dom [OF b(2)] by (rule nodes_in_blocks_of)
  have d: "?i \<noteq> a" "?i \<notin> set (blocks_of (bufs w) as)" "a \<notin> set (blocks_of (bufs w) as)"
    "distinct (blocks_of (bufs w) as)" "?i \<noteq> null" "?i \<in> dom (blocks w)" "a \<in> dom (blocks w)"
    using Cons.prems(2-4) b(1) by auto
  have same: "\<And>x. x \<in> set as \<Longrightarrow> bufs ?w x = bufs w x"
    using sub d(2,3) by (intro freed_simps) auto
  have bo: "blocks_of (bufs ?w) as = blocks_of (bufs w) as" using same by (rule blocks_of_cong)
  have ch: "chain (bufs ?w) (nxt b) as"
    using b(2) chain_cong [of as "bufs ?w" "bufs w", OF same] by simp
  have own: "set (blocks_of (bufs w) as) \<subseteq> dom (blocks ?w)"
    using Cons.prems(3) b(1) d by (auto simp: dom_freed)
  have nn: "null \<notin> set (blocks_of (bufs w) as)" using Cons.prems(4) by auto
  have IH: "free_pool m (nxt b) ?w = Some (freed (set (blocks_of (bufs w) as)) ?w)"
    by (rule Cons.IH [OF ch, unfolded bo, OF d(4) own nn n(2)])
  have "mfree ?i w = Some (freed {?i} w)" using d by (intro mfree_freed)
  moreover have "a \<in> dom (blocks (freed {?i} w))" using d by (auto simp: dom_freed)
  then have "mfree a (freed {?i} w) = Some ?w" using b(4) by (simp add: mfree_freed insert_commute)
  ultimately show ?case using b n IH by (simp add: insert_commute Un_commute)
qed

lemma free_pool_same:
  assumes "chain h v as" and "\<And>x. x \<in> set (blocks_of h as) \<Longrightarrow> bufs w x = h x"
    and "distinct (blocks_of h as)" and "set (blocks_of h as) \<subseteq> dom (blocks w)"
    and "null \<notin> set (blocks_of h as)" and "length as \<le> n"
  shows "free_pool n v w = Some (freed (set (blocks_of h as)) w)"
proof -
  have same: "bufs w x = h x" if "x \<in> set as" for x
    using that assms(2) nodes_in_blocks_of [OF chain_dom [OF assms(1)]] by blast
  have c: "chain (bufs w) v as" using assms(1) chain_cong [of as "bufs w" h v, OF same] by simp
  have b: "blocks_of (bufs w) as = blocks_of h as" using same by (rule blocks_of_cong)
  show ?thesis using free_pool_ok [OF c, unfolded b] assms(3-6) by blast
qed

section \<open>Destruction\<close>

definition pipe_blocks :: "world \<Rightarrow> ptr \<Rightarrow> dpipe \<Rightarrow> ptr list \<Rightarrow> ptr list" where
  "pipe_blocks w p d as = p # (case pname d of None \<Rightarrow> [] | Some (na, _) \<Rightarrow> [na]) @ blocks_of (bufs w) as"

definition erase_name :: "dpipe \<Rightarrow> (string \<Rightarrow> ptr option) \<Rightarrow> (string \<Rightarrow> ptr option)" where
  "erase_name d m = (case pname d of None \<Rightarrow> m | Some (_, nm) \<Rightarrow> m(nm := None))"

lemma destroy_ok:
  assumes d: "pipes w p = Some d" and ins: "chain (bufs w) (in_p d) ins" and outs: "chain (bufs w) (out_p d) outs"
    and dist: "distinct (pipe_blocks w p d (ins @ outs))"
    and own: "set (pipe_blocks w p d (ins @ outs)) \<subseteq> dom (blocks w)"
    and nn: "null \<notin> set (pipe_blocks w p d (ins @ outs))"
    and fuel: "length ins \<le> n" "length outs \<le> n"
  shows "dpipe_destroy n p w = Some (0, (freed (set (pipe_blocks w p d (ins @ outs))) w)
           \<lparr>dpipemap := erase_name d (dpipemap w)\<rparr>)"
proof -
  define N where "N = (case pname d of None \<Rightarrow> {} | Some (na, _) \<Rightarrow> {na})"
  define I where "I = set (blocks_of (bufs w) ins)"
  define J where "J = set (blocks_of (bufs w) outs)"
  note defs = pipe_blocks_def N_def I_def J_def
  let ?w1 = "(freed N w)\<lparr>dpipemap := erase_name d (dpipemap w)\<rparr>"
  have w1: "(case pname d of None \<Rightarrow> Some w
     | Some (na, nm) \<Rightarrow> mfree na (w\<lparr>dpipemap := (dpipemap w)(nm := None)\<rparr>)) = Some ?w1"
    using own nn by (auto simp: defs erase_name_def mfree_freed split: option.splits)
  let ?w2 = "?w1\<lparr>pipes := (pipes ?w1)(p \<mapsto> d\<lparr>sync := []\<rparr>)\<rparr>"
  have disj: "N \<inter> I = {}" "N \<inter> J = {}" "I \<inter> J = {}" "p \<notin> N \<union> I \<union> J"
    using dist by (auto simp: defs split: option.splits)
  have subs: "I \<subseteq> dom (blocks w)" "J \<subseteq> dom (blocks w)" "p \<in> dom (blocks w)" "p \<noteq> null"
    using own nn by (auto simp: pipe_blocks_def I_def J_def)
  have uniq: "distinct (blocks_of (bufs w) ins)" "distinct (blocks_of (bufs w) outs)" "null \<notin> I" "null \<notin> J"
    using dist nn by (auto simp: pipe_blocks_def I_def J_def)
  have h2: "bufs ?w2 x = bufs w x" if "x \<in> I" for x
    using that disj by (auto intro!: freed_simps)
  have dom2: "dom (blocks ?w2) = dom (blocks w) - N" by (simp add: dom_freed)
  have f1: "free_pool n (in_p d) ?w2 = Some (freed I ?w2)"
    unfolding I_def
  proof (rule free_pool_same [OF ins _ uniq(1)])
    show "set (blocks_of (bufs w) ins) \<subseteq> dom (blocks ?w2)"
      unfolding dom2 I_def [symmetric] using subs(1) disj(1) by blast
  qed (use h2 uniq fuel in \<open>simp_all add: I_def\<close>)
  let ?w3 = "freed I ?w2"
  have h3: "bufs ?w3 x = bufs w x" if "x \<in> J" for x
  proof -
    have "x \<notin> I" and "x \<notin> N" using that disj by blast+
    then show ?thesis by simp
  qed
  have dom3: "dom (blocks ?w3) = dom (blocks w) - N - I" by (simp add: dom_freed)
  have f2: "free_pool n (out_p d) ?w3 = Some (freed J ?w3)"
    unfolding J_def
  proof (rule free_pool_same [OF outs _ uniq(2)])
    show "set (blocks_of (bufs w) outs) \<subseteq> dom (blocks ?w3)"
      unfolding dom3 J_def [symmetric] using subs(2) disj by blast
  qed (use h3 uniq fuel in \<open>simp_all add: J_def\<close>)
  have "p \<in> dom (blocks (freed J ?w3))" "p \<noteq> null"
    using subs disj by (auto simp: dom_freed)
  then have f3: "mfree p (freed J ?w3) = Some (freed {p} (freed J ?w3))" by (intro mfree_freed)
  have all: "set (pipe_blocks w p d (ins @ outs)) = {p} \<union> J \<union> I \<union> N"
    by (auto simp: defs split: option.splits)
  have "freed {p} (freed J ?w3) = (freed (set (pipe_blocks w p d (ins @ outs))) w)
           \<lparr>dpipemap := erase_name d (dpipemap w)\<rparr>"
    by (simp add: all freed_pipe_upd Un_assoc)
  then show ?thesis using d w1 f1 f2 f3 subs(4) by (simp add: dpipe_destroy_def)
qed

section \<open>Creation\<close>

text \<open>
  What the caller relies on in the C allocator: a non-null answer is an address that is not
  allocated, and no address is handed out twice. Null answers may come at any point.
\<close>

definition answers_ok :: "world \<Rightarrow> bool" where
  "answers_ok w \<longleftrightarrow> distinct (filter (\<lambda>a. a \<noteq> null) (answers w)) \<and>
     (\<forall>a \<in> set (answers w). a \<noteq> null \<longrightarrow> blocks w a = None)"

definition heap_ok :: "world \<Rightarrow> bool" where
  "heap_ok w \<longleftrightarrow> dom (bufs w) \<subseteq> dom (blocks w) \<and> dom (pipes w) \<subseteq> dom (blocks w) \<and>
     null \<notin> dom (blocks w)"

text \<open>The number of allocations that succeed before the first failure.\<close>

definition grants :: "world \<Rightarrow> nat" where
  "grants w = length (takeWhile (\<lambda>a. a \<noteq> null) (answers w))"

text \<open>
  A frame buffer as the decoder uses it: \<^verbatim>\<open>pointer\<close> is 16-byte aligned, and \<open>sz\<close> bytes from it
  lie inside the block that \<^verbatim>\<open>internal\<close> owns.
\<close>

definition frame_ok :: "int \<Rightarrow> world \<Rightarrow> ptr \<Rightarrow> bool" where
  "frame_ok sz w a \<longleftrightarrow> (case bufs w a of None \<Rightarrow> False | Some b \<Rightarrow>
     buf_pointer b = internal b + word_of_int (offset b) \<and> and (buf_pointer b) 15 = 0 \<and>
     0 < offset b \<and> (case blocks w (internal b) of None \<Rightarrow> False | Some n \<Rightarrow> offset b + sz \<le> n))"

lemma align16:
  fixes p :: ptr
  shows "0 < 16 - uint (and p 15)" and "16 - uint (and p 15) \<le> 16"
    and "and (p + word_of_int (16 - uint (and p 15))) 15 = 0"
proof -
  have m: "uint (and q 15) = uint q mod 16" for q :: ptr
  proof -
    have "and q 15 = take_bit 4 q" by (simp add: take_bit_eq_mask mask_eq_exp_minus_1)
    then show ?thesis by (simp add: unsigned_take_bit_eq take_bit_eq_mod uint_mod)
  qed
  show "0 < 16 - uint (and p 15)" and "16 - uint (and p 15) \<le> 16" by (simp_all add: m)
  have d: "(16::int) dvd 2 ^ 64" by simp
  have "uint (p + word_of_int (16 - uint (and p 15))) = (uint p + (16 - uint p mod 16)) mod 2 ^ 64"
    by (simp add: m uint_word_ariths uint_word_of_int mod_simps)
  then have "uint (and (p + word_of_int (16 - uint (and p 15))) 15)
      = (uint p + (16 - uint p mod 16)) mod 16"
    using m d by (simp only: mod_mod_cancel)
  also have "\<dots> = 0" by presburger
  finally show "and (p + word_of_int (16 - uint (and p 15))) 15 = 0" by (simp only: uint_0_iff)
qed

text \<open>
  A pipe under construction on top of the world \<open>w0\<close>: its own blocks are distinct and allocated,
  and taking them away gives \<open>w0\<close> back, except for the answers the allocator has used up.
\<close>

definition building :: "world \<Rightarrow> int \<Rightarrow> ptr \<Rightarrow> world \<Rightarrow> dpipe \<Rightarrow> ptr list \<Rightarrow> bool" where
  "building w0 sz p w d ins \<longleftrightarrow> pipes w p = Some d \<and> chain (bufs w) (in_p d) ins \<and>
     out_p d = null \<and> out_tail d = null \<and> in_count d = int (length ins) \<and> out_count d = 0 \<and>
     distinct (pipe_blocks w p d ins) \<and> set (pipe_blocks w p d ins) \<subseteq> dom (blocks w) \<and>
     null \<notin> set (pipe_blocks w p d ins) \<and> (\<forall>a \<in> set ins. frame_ok sz w a) \<and>
     answers_ok w \<and> heap_ok w \<and>
     freed (set (pipe_blocks w p d ins)) w = w0\<lparr>answers := answers w\<rparr>"

lemma malloc_answers_ok:
  assumes "answers_ok w" and "malloc n w = (a, w1)"
  shows "answers_ok w1" and "a \<noteq> null \<Longrightarrow> a \<notin> dom (blocks w)"
proof -
  show "answers_ok w1" using assms
    by (cases "answers w") (auto simp: answers_ok_def malloc_def split: if_splits)
  show "a \<noteq> null \<Longrightarrow> a \<notin> dom (blocks w)" using assms
    by (cases "answers w") (auto simp: answers_ok_def malloc_def split: if_splits)
qed

lemma malloc_fields:
  assumes "malloc n w = (a, w1)"
  shows "bufs w1 = bufs w" "pipes w1 = pipes w" "dpipemap w1 = dpipemap w" "start w1 = start w"
    and "blocks w1 = (if a = null then blocks w else (blocks w)(a \<mapsto> n))"
  using assms by (auto simp: malloc_def split: list.splits if_splits)

lemma malloc_grants:
  assumes "malloc n w = (a, w1)"
  shows "a = null \<longleftrightarrow> grants w = 0" and "a \<noteq> null \<Longrightarrow> grants w = Suc (grants w1)"
  using assms by (auto simp: malloc_def grants_def split: list.splits if_splits)

lemma restrict_fresh: "a \<notin> dom m \<Longrightarrow> m |` (- insert a B) = m |` (- B)"
  by (auto simp: restrict_map_def fun_eq_iff)

lemma freed_fresh: "a \<notin> dom (blocks w) \<Longrightarrow> a \<notin> dom (bufs w) \<Longrightarrow> a \<notin> dom (pipes w) \<Longrightarrow>
    freed (insert a B) w = freed B w"
  by (simp add: freed_def restrict_fresh)

lemma freed_unallocated: "heap_ok w \<Longrightarrow> a \<notin> dom (blocks w) \<Longrightarrow> freed (insert a B) w = freed B w"
  by (rule freed_fresh) (auto simp: heap_ok_def)

lemma frame_ok_cong:
  assumes "bufs w' a = bufs w a" and "\<And>b. bufs w a = Some b \<Longrightarrow> blocks w' (internal b) = blocks w (internal b)"
  shows "frame_ok sz w' a = frame_ok sz w a"
  using assms by (auto simp: frame_ok_def split: option.splits)

definition new_frame :: "ptr \<Rightarrow> ptr \<Rightarrow> dbuf" where
  "new_frame itn nx = \<lparr>buf_pointer = itn + word_of_int (16 - uint (and itn 0x0f)), internal = itn,
     offset = 16 - uint (and itn 0x0f), nxt = nx\<rparr>"

lemma building_add:
  assumes B: "building w0 sz p w d ins"
    and m1: "malloc sizeof_dpipe_buffer_t w = (db, w1)" "db \<noteq> null"
    and m2: "malloc (sz + 16) w1 = (itn, w2)" "itn \<noteq> null"
  shows "building w0 sz p
    (w2\<lparr>bufs := (bufs w2)(db \<mapsto> new_frame itn (in_p d)),
        pipes := (pipes w2)(p \<mapsto> d\<lparr>in_p := db, in_count := in_count d + 1\<rparr>)\<rparr>)
    (d\<lparr>in_p := db, in_count := in_count d + 1\<rparr>) (db # ins)" (is "building w0 sz p ?w ?d (db # ins)")
proof -
  note b = B [unfolded building_def]
  have db: "db \<notin> dom (blocks w)" using malloc_answers_ok(2) b m1 by blast
  have ao1: "answers_ok w1" using malloc_answers_ok(1) b m1(1) by blast
  have itn: "itn \<notin> dom (blocks w1)" using malloc_answers_ok(2) [OF ao1] m2 by blast
  have ao2: "answers_ok w2" using malloc_answers_ok(1) [OF ao1] m2(1) by blast
  note f1 = malloc_fields [OF m1(1)] and f2 = malloc_fields [OF m2(1)]
  have bl: "blocks ?w = (blocks w)(db \<mapsto> sizeof_dpipe_buffer_t, itn \<mapsto> sz + 16)"
    using f1(5) f2(5) m1(2) m2(2) by simp
  have itn': "itn \<notin> dom (blocks w)" "itn \<noteq> db" using itn f1(5) m1(2) by auto
  have hp: "dom (bufs w) \<subseteq> dom (blocks w)" "dom (pipes w) \<subseteq> dom (blocks w)" "null \<notin> dom (blocks w)"
    using b by (auto simp: heap_ok_def)
  have insd: "set ins \<subseteq> dom (bufs w)" using b chain_dom by blast
  have own: "set (pipe_blocks w p d ins) \<subseteq> dom (blocks w)" using b by blast
  have p: "p \<in> dom (blocks w)" using own by (auto simp: pipe_blocks_def)
  have dbins: "db \<notin> set ins" using insd hp(1) db by blast
  have bu: "bufs ?w = (bufs w)(db \<mapsto> new_frame itn (in_p d))" using f1(1) f2(1) by simp
  have pi: "pipes ?w = (pipes w)(p \<mapsto> ?d)" using f1(2) f2(2) by simp
  have bo: "blocks_of (bufs ?w) ins = blocks_of (bufs w) ins"
    using dbins bu by (intro blocks_of_cong) auto
  have pb: "mset (pipe_blocks ?w p ?d (db # ins)) = {#itn, db#} + mset (pipe_blocks w p d ins)"
  proof -
    have "internal (new_frame itn (in_p d)) = itn" by (simp add: new_frame_def)
    then have "blocks_of (bufs ?w) (db # ins) = [itn, db] @ blocks_of (bufs w) ins"
      unfolding blocks_of.simps bo unfolding bu by simp
    then show ?thesis by (simp add: pipe_blocks_def)
  qed
  have pbs: "set (pipe_blocks ?w p ?d (db # ins)) = {itn, db} \<union> set (pipe_blocks w p d ins)"
    using arg_cong [OF pb, of set_mset] by simp
  have pbd: "distinct (pipe_blocks ?w p ?d (db # ins))"
  proof -
    have "distinct (itn # db # pipe_blocks w p d ins)" using b own db itn' by auto
    moreover have "mset (pipe_blocks ?w p ?d (db # ins)) = mset (itn # db # pipe_blocks w p d ins)"
      using pb by simp
    ultimately show ?thesis using mset_eq_imp_distinct_iff by blast
  qed
  have fr: "freed (set (pipe_blocks ?w p ?d (db # ins))) ?w = w0\<lparr>answers := answers ?w\<rparr>"
  proof -
    let ?B = "set (pipe_blocks w p d ins)"
    have pB: "p \<in> ?B" by (simp add: pipe_blocks_def)
    have "freed (insert itn (insert db ?B)) ?w = (freed (insert itn (insert db ?B)) w)\<lparr>answers := answers ?w\<rparr>"
      by (rule world.equality) (use pB f1 f2 bl in \<open>simp_all add: freed_def\<close>)
    also have "freed (insert itn (insert db ?B)) w = freed ?B w"
      using itn' db hp by (subst freed_fresh; (subst freed_fresh)?) auto
    also have "\<dots> = w0\<lparr>answers := answers w\<rparr>" using b by blast
    finally have "freed ({itn, db} \<union> ?B) ?w = w0\<lparr>answers := answers w, answers := answers ?w\<rparr>"
      unfolding Un_insert_left Un_empty_left .
    moreover have "w0\<lparr>answers := x, answers := y\<rparr> = w0\<lparr>answers := y\<rparr>" for x y by simp
    ultimately show ?thesis unfolding pbs by (simp only:)
  qed
  have sub: "set (pipe_blocks ?w p ?d (db # ins)) \<subseteq> dom (blocks ?w)"
    unfolding pbs using own by (auto simp: bl)
  have nn: "null \<notin> set (pipe_blocks ?w p ?d (db # ins))"
    unfolding pbs using b m1(2) m2(2) by blast
  have ch: "chain (bufs ?w) db (db # ins)"
    using b dbins m1(2) by (simp add: bu new_frame_def del: fun_upd_apply) (simp add: f1 f2)
  have fo: "\<forall>a \<in> set (db # ins). frame_ok sz ?w a"
  proof -
    have "blocks w2 itn = Some (sz + 16)" using f2(5) m2(2) by simp
    then have "frame_ok sz ?w db"
      using align16 [of itn] by (simp add: frame_ok_def new_frame_def)
    moreover have "frame_ok sz ?w a" if a: "a \<in> set ins" for a
    proof -
      have "internal x \<in> dom (blocks w)" if "bufs w a = Some x" for x
        using own that a by (induction ins) (auto simp: pipe_blocks_def)
      then have "frame_ok sz ?w a = frame_ok sz w a"
        using a dbins bl db itn' by (intro frame_ok_cong) (auto simp: bu)
      then show ?thesis using a b by blast
    qed
    ultimately show ?thesis by simp
  qed
  have hp': "heap_ok ?w" using hp bu pi bl m1(2) m2(2) p by (auto simp: heap_ok_def)
  have ao: "answers_ok ?w" using ao2 by (simp add: answers_ok_def)
  show ?thesis unfolding building_def
    using b pi ch pbd sub nn fo ao hp' fr by simp
qed

text \<open>The whole allocation loop.\<close>

lemma building_answers:
  assumes "building w0 sz p w d ins" and "malloc n w = (null, w1)"
  shows "building w0 sz p w1 d ins"
proof -
  have w1: "w1 = w\<lparr>answers := answers w1\<rparr>"
    using assms(2) by (cases w) (auto simp: malloc_def split: list.splits if_splits)
  have "answers_ok w1" using malloc_answers_ok(1) assms by (auto simp: building_def)
  moreover have "freed B w1 = (freed B w)\<lparr>answers := answers w1\<rparr>" for B
    by (subst w1) (simp add: freed_def)
  moreover have f: "bufs w1 = bufs w" "pipes w1 = pipes w" "blocks w1 = blocks w"
    using malloc_fields [OF assms(2)] by simp_all
  moreover have "pipe_blocks w1 p d ins = pipe_blocks w p d ins" "heap_ok w1 = heap_ok w"
    by (simp_all add: pipe_blocks_def heap_ok_def f)
  moreover have "frame_ok sz w1 a = frame_ok sz w a" for a
    by (rule frame_ok_cong) (simp_all add: f)
  ultimately show ?thesis using assms(1) by (simp add: building_def)
qed

lemma building_drop:
  assumes B: "building w0 sz p w d ins"
    and m1: "malloc n w = (db, w1)" "db \<noteq> null"
    and m2: "malloc m w1 = (null, w2)"
  shows "\<exists>w3. mfree db w2 = Some w3 \<and> building w0 sz p w3 d ins \<and>
           dpipemap w3 = dpipemap w \<and> start w3 = start w"
proof -
  note b = B [unfolded building_def]
  have db: "db \<notin> dom (blocks w)" using malloc_answers_ok(2) b m1 by blast
  have ao: "answers_ok w2" using malloc_answers_ok(1) malloc_answers_ok(1) b m1(1) m2(1) by blast
  note f = malloc_fields [OF m1(1)] malloc_fields [OF m2]
  have hp: "dom (bufs w) \<subseteq> dom (blocks w)" "dom (pipes w) \<subseteq> dom (blocks w)" "null \<notin> dom (blocks w)"
    using b by (auto simp: heap_ok_def)
  have nn: "bufs w db = None" "pipes w db = None" using db hp by auto
  have "mfree db w2 = Some (freed {db} w2)" using f m1(2) by (intro mfree_freed) auto
  moreover have eq: "freed {db} w2 = w\<lparr>answers := answers w2\<rparr>"
    by (rule world.equality) (use f m1(2) db nn in
      \<open>auto simp: freed_def restrict_map_def fun_eq_iff dom_def\<close>)
  moreover have "building w0 sz p (w\<lparr>answers := answers w2\<rparr>) d ins"
  proof -
    have "answers_ok (w\<lparr>answers := answers w2\<rparr>)"
      using ao f m1(2) by (auto simp: answers_ok_def split: if_splits)
    moreover have "freed B (w\<lparr>answers := answers w2\<rparr>) = (freed B w)\<lparr>answers := answers w2\<rparr>" for B
      by (simp add: freed_def)
    moreover have "pipe_blocks (w\<lparr>answers := x\<rparr>) p d ins = pipe_blocks w p d ins"
      "heap_ok (w\<lparr>answers := x\<rparr>) = heap_ok w" for x
      by (simp_all add: pipe_blocks_def heap_ok_def)
    moreover have "frame_ok sz (w\<lparr>answers := x\<rparr>) a = frame_ok sz w a" for x a
      by (rule frame_ok_cong) simp_all
    ultimately show ?thesis using b by (simp add: building_def)
  qed
  ultimately show ?thesis by simp
qed

lemma alloc_frames_ok:
  assumes "building w0 sz p w d ins" and "int_ok (sz + 16)"
  shows "\<exists>ok w' d' ins'. alloc_frames n sz p w = Some (ok, w') \<and> building w0 sz p w' d' ins' \<and>
     pname d' = pname d \<and> channel_id d' = channel_id d \<and> sync d' = sync d \<and>
     dpipemap w' = dpipemap w \<and> start w' = start w \<and> length ins' \<le> length ins + n \<and>
     (ok \<longleftrightarrow> 2 * n \<le> grants w) \<and> (ok \<longrightarrow> length ins' = length ins + n)"
  using assms(1)
proof (induction n arbitrary: w d ins)
  case 0
  then show ?case by auto
next
  case (Suc n)
  obtain db w1 where m1: "malloc sizeof_dpipe_buffer_t w = (db, w1)" by fastforce
  show ?case
  proof (cases "db = null")
    case True
    with m1 building_answers [OF Suc.prems, of sizeof_dpipe_buffer_t w1] malloc_grants [OF m1] malloc_fields [OF m1]
    show ?thesis by (intro exI [of _ False] exI [of _ w1] exI [of _ d] exI [of _ ins]) simp
  next
    case db: False
    obtain itn w2 where m2: "malloc (sz + 16) w1 = (itn, w2)" by fastforce
    note g = malloc_grants [OF m1] malloc_grants [OF m2] and f = malloc_fields [OF m1] malloc_fields [OF m2]
    show ?thesis
    proof (cases "itn = null")
      case True
      then obtain w3 where "mfree db w2 = Some w3" "building w0 sz p w3 d ins"
        "dpipemap w3 = dpipemap w" "start w3 = start w"
        using building_drop [OF Suc.prems m1 db] m2 by blast
      with m1 m2 db True g assms(2) show ?thesis
        by (intro exI [of _ False] exI [of _ w3] exI [of _ d] exI [of _ ins]) (simp add: ga_malloc_def)
    next
      case False
      let ?d = "d\<lparr>in_p := db, in_count := in_count d + 1\<rparr>"
      let ?w = "w2\<lparr>bufs := (bufs w2)(db \<mapsto> new_frame itn (in_p d)), pipes := (pipes w2)(p \<mapsto> ?d)\<rparr>"
      have B: "building w0 sz p ?w ?d (db # ins)"
        by (rule building_add [OF Suc.prems m1 db m2 False])
      from Suc.IH [OF B] obtain ok w' d' ins' where r: "alloc_frames n sz p ?w = Some (ok, w')"
        "building w0 sz p w' d' ins'" "pname d' = pname d" "channel_id d' = channel_id d" "sync d' = sync d"
        "dpipemap w' = dpipemap w" "start w' = start w" "length ins' \<le> length ins + Suc n"
        "ok \<longleftrightarrow> 2 * n \<le> grants w2" "ok \<longrightarrow> length ins' = length ins + Suc n"
        using f by (auto simp: grants_def)
      have pw: "pipes w2 p = Some d" using Suc.prems f by (simp add: building_def)
      have "alloc_frames (Suc n) sz p w = alloc_frames n sz p ?w"
        using m1 m2 db False assms(2) pw by (simp add: ga_malloc_def new_frame_def)
      moreover have "ok \<longleftrightarrow> 2 * Suc n \<le> grants w" using r(9) g db False by auto
      ultimately show ?thesis using r by auto
    qed
  qed
qed

lemma building_frees:
  assumes B: "building w0 sz p w d ins" and fuel: "length ins \<le> n"
  shows "dpipe_destroy n p w = Some (0, w0\<lparr>answers := answers w, dpipemap := erase_name d (dpipemap w)\<rparr>)"
proof -
  note b = B [unfolded building_def]
  have pb: "pipe_blocks w p d (ins @ []) = pipe_blocks w p d ins" by simp
  have "dpipe_destroy n p w = Some (0, (freed (set (pipe_blocks w p d (ins @ []))) w)
           \<lparr>dpipemap := erase_name d (dpipemap w)\<rparr>)"
    by (rule destroy_ok; (unfold pb)?) (use b fuel in simp_all)
  then show ?thesis unfolding pb using b by simp
qed

lemma building_init:
  assumes ao: "answers_ok w" and hp: "heap_ok w"
    and m1: "malloc n w = (p, w1)" "p \<noteq> null" and m2: "malloc m w1 = (na, w2)"
    and d: "d = blank_dpipe\<lparr>channel_id := cid, pname := (if na = null then None else Some (na, nm)), sync := sy\<rparr>"
  shows "building w sz p (w2\<lparr>pipes := (pipes w2)(p \<mapsto> d)\<rparr>) d []" (is "building w sz p ?w d []")
proof -
  have p: "p \<notin> dom (blocks w)" using malloc_answers_ok(2) ao m1 by blast
  have ao1: "answers_ok w1" using malloc_answers_ok(1) ao m1(1) by blast
  have na: "na \<noteq> null \<Longrightarrow> na \<notin> dom (blocks w1)" using malloc_answers_ok(2) [OF ao1] m2 by blast
  have ao2: "answers_ok ?w" using malloc_answers_ok(1) [OF ao1] m2 by (auto simp: answers_ok_def)
  note f = malloc_fields [OF m1(1)] malloc_fields [OF m2]
  have hp': "dom (bufs w) \<subseteq> dom (blocks w)" "dom (pipes w) \<subseteq> dom (blocks w)" "null \<notin> dom (blocks w)"
    using hp by (auto simp: heap_ok_def)
  let ?N = "if na = null then {} else {na}"
  have pb: "pipe_blocks ?w p d [] = p # (if na = null then [] else [na])"
    by (simp add: pipe_blocks_def d)
  then have pbs: "set (pipe_blocks ?w p d []) = insert p ?N" by simp
  have bl: "blocks ?w = (if na = null then (blocks w)(p \<mapsto> n) else (blocks w)(p \<mapsto> n, na \<mapsto> m))"
    using f m1(2) by auto
  have na': "na \<noteq> null \<Longrightarrow> na \<notin> dom (blocks w) \<and> na \<noteq> p" using na f m1(2) by auto
  have fr: "freed (insert p ?N) ?w = w\<lparr>answers := answers ?w\<rparr>"
  proof -
    have "freed (insert p ?N) ?w = (freed (insert p ?N) w)\<lparr>answers := answers ?w\<rparr>"
      by (rule world.equality) (use f bl in \<open>simp_all add: freed_def\<close>)
    also have "freed (insert p ?N) w = freed {} w"
      using na' p hp by (cases "na = null") (simp_all add: freed_unallocated)
    finally show ?thesis by (simp del: fun_upd_apply)
  qed
  have "heap_ok ?w" using hp' f bl m1(2) by (auto simp: heap_ok_def split: if_splits)
  moreover have "distinct (pipe_blocks ?w p d [])" using na' by (auto simp: pb)
  moreover have "insert p ?N \<subseteq> dom (blocks ?w)" unfolding bl by auto
  moreover have "null \<notin> insert p ?N" using m1(2) by auto
  moreover have "pipes ?w p = Some d" by simp
  moreover have "in_p d = null" "out_p d = null" "out_tail d = null" "in_count d = 0" "out_count d = 0"
    by (simp_all add: d blank_dpipe_def)
  ultimately show ?thesis unfolding building_def pbs using fr ao2
    by (simp del: fun_upd_apply)
qed

text \<open>
  The outcome of \<^verbatim>\<open>dpipe_create\<close> on valid arguments, for any number of successful allocations: it
  succeeds exactly when all \<open>2 + 2 * nframe\<close> of them do.
\<close>

lemma dpipe_create_cases:
  assumes args: "0 \<le> cid" "0 < nframe" "0 < sz" "int_ok (sz + 16)"
    and nm: "dpipemap w nm = None" and ao: "answers_ok w" and hp: "heap_ok w"
  shows "grants w < 2 + 2 * nat nframe \<Longrightarrow>
      \<exists>w'. dpipe_create cid (Some nm) nframe sz w = Some (null, w') \<and> w' = w\<lparr>answers := answers w'\<rparr>"
    and "2 + 2 * nat nframe \<le> grants w \<Longrightarrow>
      \<exists>p w' d ins. dpipe_create cid (Some nm) nframe sz w =
           Some (p, w'\<lparr>dpipemap := (dpipemap w')(nm \<mapsto> p), start := True\<rparr>) \<and>
         building w sz p w' d ins \<and> length ins = nat nframe \<and> channel_id d = cid \<and>
         (\<exists>na. pname d = Some (na, nm)) \<and> sync d = [Cond_Mutex, Cond, Cond_Input, Io_Mutex] \<and>
         dpipemap w' = dpipemap w"
proof -
  obtain p w1 where m1: "malloc sizeof_dpipe_t w = (p, w1)" by fastforce
  obtain na w2 where m2: "malloc (int (length nm) + 1) w1 = (na, w2)" by fastforce
  note g = malloc_grants [OF m1] malloc_grants [OF m2] and f = malloc_fields [OF m1] malloc_fields [OF m2]
  have lk: "dpipe_lookup nm w = null" using nm by (simp add: dpipe_lookup_def)
  note unf = dpipe_create_def args lk m1 m2
  define d0 where "d0 = blank_dpipe\<lparr>channel_id := cid\<rparr>"
  define d1 where "d1 = d0\<lparr>pname := Some (na, nm), sync := [Cond_Mutex, Cond, Cond_Input, Io_Mutex]\<rparr>"
  let ?w0 = "w2\<lparr>pipes := (pipes w2)(p \<mapsto> d0)\<rparr>" and ?w1 = "w2\<lparr>pipes := (pipes w2)(p \<mapsto> d1)\<rparr>"
  have B0: "building w sz p ?w0 d0 []" if "p \<noteq> null" "na = null"
    by (rule building_init [OF ao hp m1 that(1) m2, where sy = "[]"])
       (use that in \<open>simp add: d0_def blank_dpipe_def\<close>)
  have B1: "building w sz p ?w1 d1 []" if "p \<noteq> null" "na \<noteq> null"
    by (rule building_init [OF ao hp m1 that(1) m2]) (use that in \<open>simp add: d0_def d1_def\<close>)
  have loop: "\<exists>ok w' d' ins'. alloc_frames (nat nframe) sz p ?w1 = Some (ok, w') \<and> building w sz p w' d' ins' \<and>
     pname d' = Some (na, nm) \<and> channel_id d' = cid \<and> sync d' = sync d1 \<and>
     dpipemap w' = dpipemap w \<and> length ins' \<le> nat nframe \<and>
     (ok \<longleftrightarrow> 2 * nat nframe \<le> grants w2) \<and> (ok \<longrightarrow> length ins' = nat nframe)"
    if "p \<noteq> null" "na \<noteq> null"
    using alloc_frames_ok [OF B1 [OF that] args(4), of "nat nframe"] f
    by (auto simp: d0_def d1_def grants_def)
  show "grants w < 2 + 2 * nat nframe \<Longrightarrow>
      \<exists>w'. dpipe_create cid (Some nm) nframe sz w = Some (null, w') \<and> w' = w\<lparr>answers := answers w'\<rparr>"
  proof -
    assume few: "grants w < 2 + 2 * nat nframe"
    consider "p = null" | "p \<noteq> null" "na = null" | "p \<noteq> null" "na \<noteq> null" by blast
    then show ?thesis
    proof cases
      case 1
      have "w1 = w\<lparr>answers := answers w1\<rparr>" by (rule world.equality) (use f 1 in simp_all)
      with 1 unf show ?thesis by simp
    next
      case 2
      have "dpipe_destroy (nat nframe) p ?w0 = Some (0, w\<lparr>answers := answers w2, dpipemap := dpipemap w\<rparr>)"
        using building_frees [OF B0 [OF 2], of "nat nframe"] f
        by (simp add: erase_name_def d0_def blank_dpipe_def)
      with 2 unf show ?thesis by (simp add: d0_def)
    next
      case 3
      then obtain ok w' d' ins' where r: "alloc_frames (nat nframe) sz p ?w1 = Some (ok, w')"
        "building w sz p w' d' ins'" "pname d' = Some (na, nm)" "dpipemap w' = dpipemap w"
        "length ins' \<le> nat nframe" "ok \<longleftrightarrow> 2 * nat nframe \<le> grants w2"
        using loop by blast
      have "\<not> ok" using few r(6) g 3 by simp
      moreover have "dpipe_destroy (nat nframe) p w' = Some (0, w\<lparr>answers := answers w', dpipemap := dpipemap w\<rparr>)"
        using building_frees [OF r(2,5)] r(3,4) nm by (simp add: erase_name_def fun_upd_idem)
      ultimately show ?thesis using 3 unf r(1) by (simp add: d0_def d1_def)
    qed
  qed
  show "2 + 2 * nat nframe \<le> grants w \<Longrightarrow>
      \<exists>p w' d ins. dpipe_create cid (Some nm) nframe sz w =
           Some (p, w'\<lparr>dpipemap := (dpipemap w')(nm \<mapsto> p), start := True\<rparr>) \<and>
         building w sz p w' d ins \<and> length ins = nat nframe \<and> channel_id d = cid \<and>
         (\<exists>na. pname d = Some (na, nm)) \<and> sync d = [Cond_Mutex, Cond, Cond_Input, Io_Mutex] \<and>
         dpipemap w' = dpipemap w"
  proof -
    assume many: "2 + 2 * nat nframe \<le> grants w"
    then have nz: "p \<noteq> null" "na \<noteq> null" using g by auto
    then obtain ok w' d' ins' where r: "alloc_frames (nat nframe) sz p ?w1 = Some (ok, w')"
      "building w sz p w' d' ins'" "pname d' = Some (na, nm)" "channel_id d' = cid" "sync d' = sync d1"
      "dpipemap w' = dpipemap w" "ok \<longleftrightarrow> 2 * nat nframe \<le> grants w2" "ok \<longrightarrow> length ins' = nat nframe"
      using loop by blast
    have "ok" using many r(7) g nz by simp
    then have "dpipe_create cid (Some nm) nframe sz w =
           Some (p, w'\<lparr>dpipemap := (dpipemap w')(nm \<mapsto> p), start := True\<rparr>)"
      using nz unf r(1) by (simp add: d0_def d1_def)
    with r \<open>ok\<close> show ?thesis by (intro exI [of _ p] exI [of _ w'] exI [of _ d'] exI [of _ ins']) (simp add: d1_def)
  qed
qed

section \<open>Properties\<close>

lemma distinct_nodes: "set as \<subseteq> dom h \<Longrightarrow> distinct (blocks_of h as) \<Longrightarrow> distinct as"
proof (induction as)
  case (Cons a as)
  then have "a \<notin> set (blocks_of h as)" by auto
  with Cons nodes_in_blocks_of [of as h] show ?case by auto
qed simp

lemma building_pool_ok: "building w0 sz p w d ins \<Longrightarrow> pool_ok w p ins []"
proof -
  assume b: "building w0 sz p w d ins"
  then have "distinct (blocks_of (bufs w) ins)" and c: "chain (bufs w) (in_p d) ins"
    by (auto simp: building_def pipe_blocks_def)
  then have "distinct ins" using distinct_nodes chain_dom by blast
  with b show ?thesis by (auto simp: building_def pool_ok_def)
qed

text \<open>C26. A successful \<^verbatim>\<open>dpipe_create\<close> registers the name, hands back a pipe with exactly \<open>nframe\<close>
  free buffers and an empty output pool, and every buffer's \<^verbatim>\<open>pointer\<close> is 16-byte aligned with
  \<^verbatim>\<open>maxframesize\<close> bytes available behind it inside the allocated block. It succeeds whenever the
  allocator grants \<open>2 + 2 * nframe\<close> blocks.\<close>

theorem dpipe_create_ok:
  assumes "0 \<le> cid" and "0 < nframe" and "0 < sz" and "int_ok (sz + 16)"
    and "dpipemap w nm = None" and "answers_ok w" and "heap_ok w" and "2 + 2 * nat nframe \<le> grants w"
  shows "\<exists>p w' ins. dpipe_create cid (Some nm) nframe sz w = Some (p, w') \<and> p \<noteq> null \<and>
    dpipe_lookup nm w' = p \<and> start w' \<and> pool_ok w' p ins [] \<and> length ins = nat nframe \<and>
    (\<forall>a \<in> set ins. frame_ok sz w' a)"
proof -
  from dpipe_create_cases(2) [OF assms] obtain p w' d ins where
    c: "dpipe_create cid (Some nm) nframe sz w =
           Some (p, w'\<lparr>dpipemap := (dpipemap w')(nm \<mapsto> p), start := True\<rparr>)"
    and b: "building w sz p w' d ins" and len: "length ins = nat nframe" by blast
  let ?w = "w'\<lparr>dpipemap := (dpipemap w')(nm \<mapsto> p), start := True\<rparr>"
  have "p \<noteq> null" and fo: "\<forall>a \<in> set ins. frame_ok sz w' a"
    using b by (auto simp: building_def pipe_blocks_def)
  moreover have "pool_ok ?w p ins []" using building_pool_ok [OF b] by (auto simp: pool_ok_def split: option.splits)
  moreover have "frame_ok sz ?w a = frame_ok sz w' a" for a by (rule frame_ok_cong) simp_all
  moreover have "dpipe_lookup nm ?w = p" by (simp add: dpipe_lookup_def)
  ultimately show ?thesis using c len
    by (intro exI [of _ p] exI [of _ ?w] exI [of _ ins]) simp
qed

definition empty_world :: "ptr list \<Rightarrow> world" where
  "empty_world as = \<lparr>blocks = Map.empty, bufs = Map.empty, pipes = Map.empty, dpipemap = Map.empty,
     start = False, answers = as\<rparr>"

theorem dpipe_create_ok_witness:
  "\<exists>p w' ins. dpipe_create 0 (Some ''SharedInferBuf0'') 2 270000 (empty_world [16, 64, 128, 1000, 256, 2001])
      = Some (p, w') \<and> p \<noteq> null \<and> length ins = 2 \<and> pool_ok w' p ins [] \<and> (\<forall>a \<in> set ins. frame_ok 270000 w' a)"
  using dpipe_create_ok [of 0 2 270000 "empty_world [16, 64, 128, 1000, 256, 2001]" "''SharedInferBuf0''"]
  by (auto simp: empty_world_def int_ok_def answers_ok_def heap_ok_def grants_def)

text \<open>C27. A failing \<^verbatim>\<open>dpipe_create\<close> leaks nothing and disturbs nothing: whichever of its
  \<open>2 + 2 * nframe\<close> allocations fails, the function returns null without a fault and the heap, the
  other pipes and the name table are those it was called with; only the answers of the allocator
  have been used up. (When \<^verbatim>\<open>strdup\<close> fails, zeroed mutexes are destroyed; see \<open>dpipe_destroy\<close>.)\<close>

theorem dpipe_create_failure_restores:
  assumes "0 \<le> cid" and "0 < nframe" and "0 < sz" and "int_ok (sz + 16)"
    and "dpipemap w nm = None" and "answers_ok w" and "heap_ok w" and "grants w < 2 + 2 * nat nframe"
  shows "\<exists>w'. dpipe_create cid (Some nm) nframe sz w = Some (null, w') \<and> w' = w\<lparr>answers := answers w'\<rparr>"
  by (rule dpipe_create_cases(1) [OF assms])

theorem dpipe_create_failure_restores_witness:
  "\<exists>w'. dpipe_create 0 (Some ''a'') 2 100 (empty_world [16, 64, 128, 1000, 256, 0]) = Some (null, w') \<and>
     blocks w' = Map.empty"
proof -
  from dpipe_create_failure_restores [of 0 2 100 "empty_world [16, 64, 128, 1000, 256, 0]" "''a''"]
  obtain w' where w': "dpipe_create 0 (Some ''a'') 2 100 (empty_world [16, 64, 128, 1000, 256, 0]) = Some (null, w')"
    "w' = (empty_world [16, 64, 128, 1000, 256, 0])\<lparr>answers := answers w'\<rparr>"
    by (auto simp: empty_world_def int_ok_def answers_ok_def heap_ok_def grants_def)
  have "blocks w' = Map.empty" by (subst w'(2)) (simp add: empty_world_def)
  with w'(1) show ?thesis by blast
qed

text \<open>C40. \<^verbatim>\<open>dpipe_destroy\<close> undoes \<^verbatim>\<open>dpipe_create\<close>: destroying a freshly created pipe frees every block
  that was allocated for it, each exactly once, and removes its name; all that remains of the two
  calls is the global \<^verbatim>\<open>start\<close> flag.\<close>

theorem dpipe_create_destroy_roundtrip:
  assumes "0 \<le> cid" and "0 < nframe" and "0 < sz" and "int_ok (sz + 16)"
    and "dpipemap w nm = None" and "answers_ok w" and "heap_ok w" and "2 + 2 * nat nframe \<le> grants w"
  shows "\<exists>p w1 w2. dpipe_create cid (Some nm) nframe sz w = Some (p, w1) \<and>
    dpipe_destroy (nat nframe) p w1 = Some (0, w2) \<and> w2 = w\<lparr>answers := answers w1, start := True\<rparr>"
proof -
  from dpipe_create_cases(2) [OF assms] obtain p w' d ins na where
    c: "dpipe_create cid (Some nm) nframe sz w =
           Some (p, w'\<lparr>dpipemap := (dpipemap w')(nm \<mapsto> p), start := True\<rparr>)"
    and b: "building w sz p w' d ins" and len: "length ins = nat nframe"
    and na: "pname d = Some (na, nm)" and dm: "dpipemap w' = dpipemap w" by blast
  let ?w = "w'\<lparr>dpipemap := (dpipemap w')(nm \<mapsto> p), start := True\<rparr>"
  note bb = b [unfolded building_def]
  have pb: "pipe_blocks ?w p d (ins @ []) = pipe_blocks w' p d ins" by (simp add: pipe_blocks_def)
  have "dpipe_destroy (nat nframe) p ?w = Some (0, (freed (set (pipe_blocks ?w p d (ins @ []))) ?w)
           \<lparr>dpipemap := erase_name d (dpipemap ?w)\<rparr>)"
    by (rule destroy_ok; (unfold pb)?) (use bb len in simp_all)
  moreover have "erase_name d (dpipemap ?w) = dpipemap w"
    using na dm assms(5) by (auto simp: erase_name_def)
  moreover have "freed B ?w = (freed B w')\<lparr>dpipemap := (dpipemap w')(nm \<mapsto> p), start := True\<rparr>" for B
    by (simp add: freed_def)
  ultimately have "dpipe_destroy (nat nframe) p ?w = Some (0, w\<lparr>answers := answers w', start := True\<rparr>)"
    unfolding pb using bb by simp
  with c show ?thesis by simp
qed

theorem dpipe_create_destroy_roundtrip_witness:
  "\<exists>p w1 w2. dpipe_create 0 (Some ''a'') 1 100 (empty_world [16, 64, 128, 1000]) = Some (p, w1) \<and>
    dpipe_destroy 1 p w1 = Some (0, w2) \<and> w2 = (empty_world [])\<lparr>answers := answers w1, start := True\<rparr>"
  using dpipe_create_destroy_roundtrip [of 0 1 100 "empty_world [16, 64, 128, 1000]" "''a''"]
  by (auto simp: empty_world_def int_ok_def answers_ok_def heap_ok_def grants_def)

end
