(* ===== verification/LayerBase.thy ===== *)
theory LayerBase
  imports Buffers FloatBits
begin

text \<open>
  \<^verbatim>\<open>extension/ext_base.cpp\<close> and \<^verbatim>\<open>ext_base.hpp\<close>: what every CPU layer of the inference extension shares.
  A layer object is built from the network description; its constructor checks the edges, reads the
  parameters and records one layout configuration, or stores the message of the exception it
  catches. The engine then asks for the configurations and hands one back to \<^verbatim>\<open>init\<close>.

  The description is the record \<open>cnn_layer\<close>. The parameter accessors of the inference engine
  (\<^verbatim>\<open>GetParamAsInt\<close> and so on), which parse a string and throw when it is missing or malformed, are
  its fields. The numbers that some messages contain are left out. The blocking descriptor that the engine derives from a tensor descriptor is the
  argument \<open>blocking\<close> of \<open>layer_init\<close>.
\<close>

section \<open>The network description\<close>

datatype status_code = OK | GENERAL_ERROR | NOT_IMPLEMENTED | OUT_OF_BOUNDS

datatype conf_layout = ANY | PLN | BLK8 | BLK16

record data_configurator =
  layout :: conf_layout
  is_constant :: bool
  inplace :: int

record port =
  port_dims :: "nat list"
  port_precision :: nat

record cnn_layer =
  ins_data :: "port option list"
  out_data :: "port option list"
  has_weights :: bool
  int_param :: "string \<Rightarrow> string + int"
  float_param :: "string \<Rightarrow> string + f32"
  floats_param :: "string \<Rightarrow> f32 list"
  string_param :: "string \<Rightarrow> string option"

text \<open>A tensor descriptor: precision and dimensions, with a generic layout or explicit blocks.\<close>

datatype tensor_desc = AnyDesc nat "nat list" | BlockedDesc nat "nat list" "nat list" "nat list"

record blocking_desc =
  blk_order :: "nat list"
  blk_offset_padding :: nat
  blk_padding_to_data :: "nat list"

record data_config =
  cfg_inplace :: int
  cfg_constant :: bool
  cfg_desc :: tensor_desc

record layer_config =
  in_confs :: "data_config list"
  out_confs :: "data_config list"
  dyn_batch :: bool

text \<open>The two members a constructor of a layer leaves behind.\<close>

record ext_layer =
  error_msg :: string
  confs :: "layer_config list"

definition conf :: "conf_layout \<Rightarrow> data_configurator" where
  "conf l = \<lparr>layout = l, is_constant = False, inplace = - 1\<rparr>"

definition conf_at :: "conf_layout \<Rightarrow> bool \<Rightarrow> int \<Rightarrow> data_configurator" where
  "conf_at l c i = \<lparr>layout = l, is_constant = c, inplace = i\<rparr>"

section \<open>Configurations\<close>

definition fill_port :: "data_configurator \<Rightarrow> port option \<Rightarrow> string + data_config" where
  "fill_port cf data = (case data of
     None \<Rightarrow> Inl ''Cannot get input data!''
   | Some d \<Rightarrow>
       let dims = port_dims d;
           order = [0..<length dims];
           blk_size = (if layout cf = BLK8 then 8 else 16);
           ok = (\<lambda>ds. Inr \<lparr>cfg_inplace = inplace cf, cfg_constant = is_constant cf, cfg_desc = ds\<rparr>)
       in if layout cf = BLK8 \<or> layout cf = BLK16 then
            if length dims \<noteq> 4 then Inl ''Inapplicable blocking layout.Tensor should be 4D.''
            else ok (BlockedDesc (port_precision d) dims
                      (dims[1 := dims ! 1 div blk_size] @ [blk_size]) (order @ [1]))
          else if layout cf = ANY then ok (AnyDesc (port_precision d) dims)
          else ok (BlockedDesc (port_precision d) dims dims order))"

fun fill_ports :: "data_configurator list \<Rightarrow> port option list \<Rightarrow> string + data_config list" where
  "fill_ports (c # cs) (d # ds) = (case fill_port c d of Inl e \<Rightarrow> Inl e
     | Inr x \<Rightarrow> (case fill_ports cs ds of Inl e \<Rightarrow> Inl e | Inr xs \<Rightarrow> Inr (x # xs)))"
| "fill_ports _ _ = Inr []"

definition addConfig ::
  "cnn_layer \<Rightarrow> data_configurator list \<Rightarrow> data_configurator list \<Rightarrow> bool \<Rightarrow> string + layer_config" where
  "addConfig l in_l out_l dyn =
     (if length in_l \<noteq> length (ins_data l) then Inl ''Incorrect number of input edges.''
      else if length out_l \<noteq> length (out_data l) then Inl ''Incorrect number of input edges.''
      else case fill_ports in_l (ins_data l) of Inl e \<Rightarrow> Inl e
        | Inr ics \<Rightarrow> (case fill_ports out_l (out_data l) of Inl e \<Rightarrow> Inl e
            | Inr ocs \<Rightarrow> Inr \<lparr>in_confs = ics, out_confs = ocs, dyn_batch = dyn\<rparr>))"

text \<open>Continue with the value of a step unless it threw.\<close>

definition try_with :: "string + 'a \<Rightarrow> ('a \<Rightarrow> string + 'b) \<Rightarrow> string + 'b" where
  "try_with r f = (case r of Inl e \<Rightarrow> Inl e | Inr x \<Rightarrow> f x)"

text \<open>The \<^verbatim>\<open>try\<close> block of a constructor: the object keeps the message of the exception it caught, or
  its members and the one configuration it added. The members of an object whose construction
  failed are not used again: \<^verbatim>\<open>getSupportedConfigurations\<close> reports the message.\<close>

definition construct :: "string + ('m \<times> layer_config) \<Rightarrow> ext_layer \<times> 'm option" where
  "construct r = (case r of
     Inl msg \<Rightarrow> (\<lparr>error_msg = msg, confs = []\<rparr>, None)
   | Inr (m, c) \<Rightarrow> (\<lparr>error_msg = [], confs = [c]\<rparr>, Some m))"

text \<open>The result of \<^verbatim>\<open>getSupportedConfigurations\<close>: a status, the message copied into \<^verbatim>\<open>resp\<close> (cut to its
  length less one) or the configurations.\<close>

definition getSupportedConfigurations ::
  "nat \<Rightarrow> ext_layer \<Rightarrow> status_code \<times> string \<times> layer_config list" where
  "getSupportedConfigurations msg_size x =
     (if error_msg x \<noteq> [] then (GENERAL_ERROR, take (msg_size - 1) (error_msg x), [])
      else (OK, [], confs x))"

definition blocking_ok :: "blocking_desc \<Rightarrow> bool" where
  "blocking_ok b \<longleftrightarrow> (\<forall>x\<in>set (blk_padding_to_data b). x = 0) \<and> blk_offset_padding b = 0 \<and>
     (\<forall>i \<in> {..<length (blk_order b)}. blk_order b ! i = i)"

definition layer_init :: "(tensor_desc \<Rightarrow> blocking_desc) \<Rightarrow> layer_config \<Rightarrow> status_code" where
  "layer_init blocking c =
     (if \<forall>d \<in> set (in_confs c). blocking_ok (blocking (cfg_desc d)) then
        if \<forall>d \<in> set (out_confs c). blocking_ok (blocking (cfg_desc d)) then OK else GENERAL_ERROR
      else GENERAL_ERROR)"

text \<open>\<^verbatim>\<open>dims.size() > k ? dims[k] : 1\<close>, the idiom with which the layers read a dimension.\<close>

definition dim_at :: "nat list \<Rightarrow> nat \<Rightarrow> int" where
  "dim_at dims k = (if k < length dims then int (dims ! k) else 1)"

section \<open>Lemmas\<close>

lemma try_with_simps [simp]: "try_with (Inl e) f = Inl e" "try_with (Inr x) f = f x"
  by (simp_all add: try_with_def)

lemma try_with_Inr: "try_with r f = Inr y \<longleftrightarrow> (\<exists>x. r = Inr x \<and> f x = Inr y)"
  by (cases r) simp_all

lemma dim_at_nonneg [simp]: "0 \<le> dim_at ds k"
  by (simp add: dim_at_def)

lemma fill_ports_length:
  "fill_ports cs ds = Inr xs \<Longrightarrow> length cs = length ds \<Longrightarrow> length xs = length cs"
  by (induction cs ds arbitrary: xs rule: fill_ports.induct) (auto split: sum.splits)

lemma fill_ports_nth:
  "fill_ports cs ds = Inr xs \<Longrightarrow> length cs = length ds \<Longrightarrow> i < length cs \<Longrightarrow>
     fill_port (cs ! i) (ds ! i) = Inr (xs ! i)"
  by (induction cs ds arbitrary: xs i rule: fill_ports.induct) (auto split: sum.splits simp: nth_Cons')

definition blocked :: "data_configurator \<Rightarrow> bool" where
  "blocked c \<longleftrightarrow> layout c = BLK8 \<or> layout c = BLK16"

text \<open>What the inference engine documents of the blocking descriptor of an explicit layout: the
  order that was given and no padding.\<close>

definition plain_blocking :: "(tensor_desc \<Rightarrow> blocking_desc) \<Rightarrow> bool" where
  "plain_blocking blocking \<longleftrightarrow>
     (\<forall>p dims bs ord. blk_order (blocking (BlockedDesc p dims bs ord)) = ord \<and>
        blk_offset_padding (blocking (BlockedDesc p dims bs ord)) = 0 \<and>
        set (blk_padding_to_data (blocking (BlockedDesc p dims bs ord))) \<subseteq> {0})"

lemma blocking_ok_explicit:
  assumes "plain_blocking b"
  shows "blocking_ok (b (BlockedDesc p dims bs ord)) \<longleftrightarrow> ord = [0..<length ord]"
proof -
  let ?d = "b (BlockedDesc p dims bs ord)"
  have o: "blk_order ?d = ord" and p: "blk_offset_padding ?d = 0" and s: "set (blk_padding_to_data ?d) \<subseteq> {0}"
    using assms by (simp_all add: plain_blocking_def)
  have z: "\<forall>x \<in> set (blk_padding_to_data ?d). x = 0" using s by blast
  have "blocking_ok ?d \<longleftrightarrow> (\<forall>i \<in> {..<length ord}. ord ! i = i)"
    by (simp only: blocking_ok_def o p eqTrueI [OF z] simp_thms)
  also have "\<dots> \<longleftrightarrow> ord = [0..<length ord]" by (subst list_eq_iff_nth_eq) (simp add: Ball_def)
  finally show ?thesis .
qed

lemma blocked_order_not_identity: "[0..<4] @ [Suc 0] \<noteq> [0..<5]"
  by code_simp

text \<open>What \<^verbatim>\<open>init\<close> makes of one port: a blocked layout is refused, the generic layout \<^verbatim>\<open>ANY\<close> depends on the blocking
  that the engine derives for it, the planar layout is accepted.\<close>

definition port_refused :: "(tensor_desc \<Rightarrow> blocking_desc) \<Rightarrow> data_configurator \<Rightarrow> port option \<Rightarrow> bool" where
  "port_refused b c d \<longleftrightarrow> blocked c \<or> (layout c = ANY \<and> (case d of None \<Rightarrow> False
     | Some p \<Rightarrow> \<not> blocking_ok (b (AnyDesc (port_precision p) (port_dims p)))))"

lemma fill_port_blocking:
  assumes "plain_blocking b" and "fill_port c d = Inr x"
  shows "blocking_ok (b (cfg_desc x)) \<longleftrightarrow> \<not> port_refused b c d"
  using assms
  by (cases "layout c") (auto simp: fill_port_def port_refused_def blocked_def blocking_ok_explicit Let_def blocked_order_not_identity
      split: option.splits if_splits)

lemma fill_ports_blocking:
  assumes "plain_blocking b" and "fill_ports cs ds = Inr xs" and "length cs = length ds"
  shows "(\<forall>x \<in> set xs. blocking_ok (b (cfg_desc x))) \<longleftrightarrow> (\<forall>(c, d) \<in> set (zip cs ds). \<not> port_refused b c d)"
  using assms fill_ports_length [OF assms(2,3)] fill_port_blocking [OF assms(1) fill_ports_nth [OF assms(2,3)]]
  by (auto simp: all_set_conv_all_nth set_zip)

text \<open>The answer of \<^verbatim>\<open>init\<close> to a configuration built by \<^verbatim>\<open>addConfig\<close>.\<close>

lemma addConfig_ports:
  assumes "plain_blocking b" and "addConfig l ics ocs dyn = Inr cfg"
  shows "layer_init b cfg = (if \<exists>(c, d) \<in> set (zip (ics @ ocs) (ins_data l @ out_data l)). port_refused b c d then GENERAL_ERROR else OK)"
proof -
  from assms(2) have len: "length ics = length (ins_data l)" "length ocs = length (out_data l)"
    and fi: "fill_ports ics (ins_data l) = Inr (in_confs cfg)"
    and fo: "fill_ports ocs (out_data l) = Inr (out_confs cfg)"
    by (auto simp: addConfig_def split: if_splits sum.splits)
  have z: "set (zip (ics @ ocs) (ins_data l @ out_data l)) = set (zip ics (ins_data l)) \<union> set (zip ocs (out_data l))"
    using len by (simp add: zip_append)
  show ?thesis
    unfolding z layer_init_def fill_ports_blocking [OF assms(1) fi len(1)] fill_ports_blocking [OF assms(1) fo len(2)] by auto
qed

lemma addConfig_init:
  assumes "plain_blocking b" and "addConfig l ics ocs dyn = Inr cfg"
    and any: "\<forall>c \<in> set (ics @ ocs). layout c \<noteq> ANY"
  shows "layer_init b cfg = (if \<exists>c \<in> set (ics @ ocs). blocked c then GENERAL_ERROR else OK)"
proof -
  from assms(2) have len: "length (ics @ ocs) = length (ins_data l @ out_data l)" by (auto simp: addConfig_def split: if_splits sum.splits)
  have "(\<exists>(c, d) \<in> set (zip (ics @ ocs) (ins_data l @ out_data l)). port_refused b c d) \<longleftrightarrow> (\<exists>c \<in> set (ics @ ocs). blocked c)"
  proof
    assume "\<exists>(c, d) \<in> set (zip (ics @ ocs) (ins_data l @ out_data l)). port_refused b c d"
    then show "\<exists>c \<in> set (ics @ ocs). blocked c" using any by (fastforce simp: port_refused_def dest: set_zip_leftD)
  next
    assume "\<exists>c \<in> set (ics @ ocs). blocked c"
    then obtain c where c: "c \<in> set (ics @ ocs)" "blocked c" by blast
    then obtain d where "(c, d) \<in> set (zip (ics @ ocs) (ins_data l @ out_data l))" using len by (metis in_set_impl_in_set_zip1)
    then show "\<exists>(c, d) \<in> set (zip (ics @ ocs) (ins_data l @ out_data l)). port_refused b c d" using c(2) by (auto simp: port_refused_def)
  qed
  then show ?thesis unfolding addConfig_ports [OF assms(1,2)] by simp
qed

section \<open>Properties\<close>

text \<open>C38. The configuration that a constructor registers with \<^verbatim>\<open>addConfig\<close> is refused by \<^verbatim>\<open>init\<close> exactly when a port
  asks for a blocked layout, or asks for the layout \<^verbatim>\<open>ANY\<close> and the engine derives a blocking for it that \<^verbatim>\<open>init\<close> does
  not take: the channel-blocked order that \<^verbatim>\<open>fill_port\<close> builds repeats dimension 1 at its end, and \<^verbatim>\<open>init\<close> refuses
  every order that is not the identity. Of the engine it is assumed that an explicit layout keeps its order and has
  no padding.\<close>
theorem init_accepts_planar_only:
  assumes "plain_blocking b" and "addConfig l ics ocs dyn = Inr cfg"
  shows "layer_init b cfg = (if \<exists>(c, d) \<in> set (zip (ics @ ocs) (ins_data l @ out_data l)). blocked c \<or>
      (layout c = ANY \<and> (\<exists>p. d = Some p \<and> \<not> blocking_ok (b (AnyDesc (port_precision p) (port_dims p)))))
    then GENERAL_ERROR else OK)"
proof -
  have "(blocked c \<or> (layout c = ANY \<and> (\<exists>p. d = Some p \<and> \<not> blocking_ok (b (AnyDesc (port_precision p) (port_dims p)))))) =
      port_refused b c d" for c d by (auto simp: port_refused_def split: option.splits)
  then show ?thesis using addConfig_ports [OF assms] by simp
qed

definition demo_layer :: "port option list \<Rightarrow> port option list \<Rightarrow> cnn_layer" where
  "demo_layer is os = \<lparr>ins_data = is, out_data = os, has_weights = True,
     int_param = (\<lambda>_. Inr 2), float_param = (\<lambda>_. Inr 1), floats_param = (\<lambda>_. []), string_param = (\<lambda>_. None)\<rparr>"

definition demo_port :: "nat list \<Rightarrow> port option" where
  "demo_port ds = Some \<lparr>port_dims = ds, port_precision = 10\<rparr>"

fun demo_blocking :: "tensor_desc \<Rightarrow> blocking_desc" where
  "demo_blocking (AnyDesc p ds) = \<lparr>blk_order = [], blk_offset_padding = 0, blk_padding_to_data = []\<rparr>"
| "demo_blocking (BlockedDesc p ds bs ord) =
     \<lparr>blk_order = ord, blk_offset_padding = 0, blk_padding_to_data = map (\<lambda>_. 0) ord\<rparr>"

lemma plain_blocking_demo: "plain_blocking demo_blocking"
  by (auto simp: plain_blocking_def)

theorem init_accepts_planar_only_witness:
  "layer_init demo_blocking \<lparr>in_confs = [\<lparr>cfg_inplace = 0, cfg_constant = False,
       cfg_desc = BlockedDesc 10 [1, 16, 4, 4] [1, 2, 4, 4, 8] [0, 1, 2, 3, 1]\<rparr>],
     out_confs = [\<lparr>cfg_inplace = 0, cfg_constant = False,
       cfg_desc = BlockedDesc 10 [1, 16, 4, 4] [1, 2, 4, 4, 8] [0, 1, 2, 3, 1]\<rparr>],
     dyn_batch = False\<rparr> = GENERAL_ERROR"
  using init_accepts_planar_only [of demo_blocking
      "demo_layer [demo_port [1, 16, 4, 4]] [demo_port [1, 16, 4, 4]]"
      "[conf_at BLK8 False 0]" "[conf_at BLK8 False 0]" False
      "\<lparr>in_confs = [\<lparr>cfg_inplace = 0, cfg_constant = False,
           cfg_desc = BlockedDesc 10 [1, 16, 4, 4] [1, 2, 4, 4, 8] [0, 1, 2, 3, 1]\<rparr>],
        out_confs = [\<lparr>cfg_inplace = 0, cfg_constant = False,
           cfg_desc = BlockedDesc 10 [1, 16, 4, 4] [1, 2, 4, 4, 8] [0, 1, 2, 3, 1]\<rparr>],
        dyn_batch = False\<rparr>"]
  by (simp add: plain_blocking_demo addConfig_def fill_port_def conf_at_def demo_layer_def demo_port_def
      blocked_def upt_rec)

end
