(* ===== verification/ReorgYolo.thy ===== *)
theory ReorgYolo
  imports LayerBase
begin

text \<open>
  \<^verbatim>\<open>extension/ext_reorg_yolo.cpp\<close>: the layer that turns blocks of \<open>stride * stride\<close> neighbouring
  pixels into channels. Its constructor and its loop nest are modelled with the index arithmetic of
  the source; the theorem says that the output is a rearrangement of the input.
\<close>

section \<open>The layer\<close>

definition reorg_new :: "cnn_layer \<Rightarrow> ext_layer \<times> int option" where
  "reorg_new l = construct
     (if length (ins_data l) \<noteq> 1 \<or> out_data l = [] then Inl ''Incorrect number of input/output edges!''
      else try_with (int_param l ''stride'') (\<lambda>stride.
        try_with (addConfig l [conf PLN] [conf PLN] False) (\<lambda>c. Inr (stride, c))))"

text \<open>The innermost statement of the loop nest: one element is copied.\<close>

definition reorg_copy ::
  "int \<Rightarrow> int \<Rightarrow> int \<Rightarrow> int \<Rightarrow> f32 list \<Rightarrow> int \<Rightarrow> int \<Rightarrow> int \<Rightarrow> int \<Rightarrow> f32 list \<Rightarrow> f32 list option" where
  "reorg_copy stride IC IH IW src b ic ih iw d =
     (let ic_off = cquot IC (stride * stride); ih_off = IH * stride; iw_off = IW * stride;
          dstIndex = b * IC * IH * IW + ic * IH * IW + ih * IW + iw in
      if ic_off = 0 then None else
      let oc = crem ic ic_off; offset = cquot ic ic_off;
          ow = iw * stride + crem offset stride;
          oh = ih * stride + cquot offset stride;
          srcIndex = b * ic_off * ih_off * iw_off + oc * ih_off * iw_off + oh * iw_off + ow
      in do { v \<leftarrow> ld src srcIndex; st d dstIndex v })"

definition reorg_execute :: "int \<Rightarrow> nat list \<Rightarrow> f32 list \<Rightarrow> f32 list \<Rightarrow> (status_code \<times> f32 list) option" where
  "reorg_execute stride dims src dst =
     (let IW = dim_at dims 3; IH = dim_at dims 2; IC = dim_at dims 1; B = dim_at dims 0 in
      if stride = 0 then None
      else do {
        dst' \<leftarrow> for_loop 0 B (\<lambda>b. for_loop 0 IC (\<lambda>ic. for_loop 0 IH (\<lambda>ih. for_loop 0 IW (\<lambda>iw.
                  reorg_copy stride IC IH IW src b ic ih iw)))) dst;
        Some (OK, dst') })"

section \<open>Where a value comes from\<close>

text \<open>The source index of a target element, for \<open>Co = IC / (stride * stride)\<close> output channels.\<close>

definition reorg_src :: "int \<Rightarrow> int \<Rightarrow> int \<Rightarrow> int \<Rightarrow> int \<Rightarrow> int \<Rightarrow> int \<Rightarrow> int \<Rightarrow> int" where
  "reorg_src s Co H W b ic h w =
     idx4 Co (H * s) (W * s) b (ic mod Co) (h * s + ic div Co div s) (w * s + ic div Co mod s)"

definition reorg_map :: "int \<Rightarrow> int \<Rightarrow> int \<Rightarrow> int \<Rightarrow> int \<Rightarrow> int" where
  "reorg_map s Co H W i = reorg_src s Co H W (i div W div H div (Co * s * s)) (i div W div H mod (Co * s * s))
     (i div W mod H) (i mod W)"

lemma reorg_map_idx4:
  assumes "0 \<le> ic" "ic < Co * s * s" "0 \<le> h" "h < H" "0 \<le> w" "w < W"
  shows "reorg_map s Co H W (idx4 (Co * s * s) H W b ic h w) = reorg_src s Co H W b ic h w"
  using assms by (simp add: reorg_map_def flat_div)

lemma reorg_quot:
  fixes s Co j :: int
  assumes "0 < s" "0 < Co" "0 \<le> j" "j < Co * s * s"
  shows "0 \<le> j div Co div s" "j div Co div s < s" "0 \<le> j div Co mod s" "j div Co mod s < s"
proof -
  have "Co * s * s = s * s * Co" by simp
  then have "j < s * s * Co" using assms(4) by linarith
  then have "j div Co < s * s" using assms(2) by (rule div_lessI)
  then show "j div Co div s < s" using assms(1) by (rule div_lessI)
qed (use assms in \<open>simp_all add: pos_imp_zdiv_nonneg_iff\<close>)

lemma reorg_src_bound:
  assumes "0 < s" "0 < Co" and "0 \<le> b" "b < B" "0 \<le> ic" "ic < Co * s * s" "0 \<le> h" "h < H" "0 \<le> w" "w < W"
  shows "0 \<le> reorg_src s Co H W b ic h w" "reorg_src s Co H W b ic h w < B * (Co * s * s) * H * W"
proof -
  note q = reorg_quot [OF assms(1,2,5,6)]
  have "0 \<le> h * s + ic div Co div s" "h * s + ic div Co div s < H * s"
    "0 \<le> w * s + ic div Co mod s" "w * s + ic div Co mod s < W * s"
    using assms q by (auto intro: flat_bound)
  then show "0 \<le> reorg_src s Co H W b ic h w" "reorg_src s Co H W b ic h w < B * (Co * s * s) * H * W"
    using idx4_bound [of b B "ic mod Co" Co "h * s + ic div Co div s" "H * s" "w * s + ic div Co mod s" "W * s"]
      assms unfolding reorg_src_def by (simp_all add: mult_ac)
qed

lemma reorg_src_inj:
  assumes s: "0 < s" "0 < Co"
    and "0 \<le> b" "0 \<le> ic" "ic < Co * s * s" "0 \<le> h" "h < H" "0 \<le> w" "w < W"
    and "0 \<le> b'" "0 \<le> ic'" "ic' < Co * s * s" "0 \<le> h'" "h' < H" "0 \<le> w'" "w' < W"
    and eq: "reorg_src s Co H W b ic h w = reorg_src s Co H W b' ic' h' w'"
  shows "b = b' \<and> ic = ic' \<and> h = h' \<and> w = w'"
proof -
  note q1 = reorg_quot [OF s assms(4,5)] and q2 = reorg_quot [OF s assms(11,12)]
  have r: "0 \<le> h * s + ic div Co div s" "h * s + ic div Co div s < H * s"
    "0 \<le> w * s + ic div Co mod s" "w * s + ic div Co mod s < W * s"
    "0 \<le> h' * s + ic' div Co div s" "h' * s + ic' div Co div s < H * s"
    "0 \<le> w' * s + ic' div Co mod s" "w' * s + ic' div Co mod s < W * s"
    using assms q1 q2 by (auto intro: flat_bound)
  from eq have 1: "w * s + ic div Co mod s = w' * s + ic' div Co mod s"
    and e2: "(b * Co + ic mod Co) * (H * s) + (h * s + ic div Co div s) =
             (b' * Co + ic' mod Co) * (H * s) + (h' * s + ic' div Co div s)"
    using r unfolding reorg_src_def by (metis flat_div)+
  from e2 have 2: "h * s + ic div Co div s = h' * s + ic' div Co div s"
    and e3: "b * Co + ic mod Co = b' * Co + ic' mod Co"
    using r by (metis flat_div)+
  from e3 have 3: "ic mod Co = ic' mod Co" "b = b'" using s by (metis flat_div pos_mod_bound pos_mod_sign)+
  from 1 have 4: "w = w'" "ic div Co mod s = ic' div Co mod s" using q1 q2 by (metis flat_div)+
  from 2 have 5: "h = h'" "ic div Co div s = ic' div Co div s" using q1 q2 by (metis flat_div)+
  from 4 5 have "ic div Co = ic' div Co" by (metis div_mult_mod_eq)
  with 3 have "ic = ic'" by (metis div_mult_mod_eq)
  with 3 4 5 show ?thesis by simp
qed

section \<open>Correctness\<close>

lemma reorg_body:
  assumes "0 < s" "0 < Co" and "length src = n" "int n = B * (Co * s * s) * H * W" "n \<le> 2 ^ 31"
    and "0 \<le> b" "b < B" "0 \<le> ic" "ic < Co * s * s" "0 \<le> h" "h < H" "0 \<le> w" "w < W" and "length d = n"
  shows "\<exists>d'. reorg_copy s (Co * s * s) H W src b ic h w d = Some d' \<and>
    wrote {idx4 (Co * s * s) H W b ic h w} (\<lambda>i. src ! nat (reorg_map s Co H W i)) d d'"
proof -
  note r = reorg_src_bound [OF assms(1,2,6-13)] and i = idx4_bound [OF assms(6-13)]
  have b: "B * (Co * s * s) * H * W = int n" using assms(4) by simp
  have ok: "int_ok (reorg_src s Co H W b ic h w)" "int_ok (idx4 (Co * s * s) H W b ic h w)"
    using r i assms(5) unfolding b by (auto intro: int_okI [of _ "int n"])
  then have ld: "ld src (reorg_src s Co H W b ic h w) = Some (src ! nat (reorg_src s Co H W b ic h w))"
    using r assms(3) unfolding b by (simp add: ld_Some)
  have m: "reorg_map s Co H W (idx4 (Co * s * s) H W b ic h w) = reorg_src s Co H W b ic h w"
    using assms(8-13) by (rule reorg_map_idx4)
  have q: "cquot (Co * s * s) (s * s) = Co" and o: "crem ic Co = ic mod Co" "cquot ic Co = ic div Co" "0 \<le> ic div Co"
    using assms by (simp_all add: crem_nonneg cquot_nonneg pos_imp_zdiv_nonneg_iff mult.assoc)
  have di: "b * (Co * s * s) * H * W + ic * H * W + h * W + w = idx4 (Co * s * s) H W b ic h w"
    by (simp add: algebra_simps)
  have si: "b * Co * (H * s) * (W * s) + ic mod Co * (H * s) * (W * s) + (h * s + ic div Co div s) * (W * s) +
      (w * s + ic div Co mod s) = reorg_src s Co H W b ic h w"
    by (simp add: reorg_src_def algebra_simps)
  have "reorg_copy s (Co * s * s) H W src b ic h w d =
      st d (idx4 (Co * s * s) H W b ic h w) (src ! nat (reorg_src s Co H W b ic h w))"
    using assms(2)
    unfolding reorg_copy_def Let_def q o(1,2) crem_nonneg [OF o(3) assms(1)] cquot_nonneg [OF o(3) assms(1)] di si ld
    by simp
  then show ?thesis
    using wrote_st [of "idx4 (Co * s * s) H W b ic h w" d "\<lambda>i. src ! nat (reorg_map s Co H W i)"] ok(2) i assms(14) m unfolding b by simp
qed

lemma reorg_execute_eq:
  assumes s: "0 < s" "0 < Co" and dims: "dim_at dims 1 = Co * s * s"
    and n: "length src = n" "length dst = n" "n \<le> 2 ^ 31"
      "int n = dim_at dims 0 * dim_at dims 1 * dim_at dims 2 * dim_at dims 3"
  shows "reorg_execute s dims src dst =
    Some (OK, map (\<lambda>i. src ! nat (reorg_map s Co (dim_at dims 2) (dim_at dims 3) (int i))) [0..<n])"
proof -
  have "for_loop 0 (dim_at dims 0) (\<lambda>b. for_loop 0 (dim_at dims 1) (\<lambda>ic. for_loop 0 (dim_at dims 2)
      (\<lambda>ih. for_loop 0 (dim_at dims 3) (\<lambda>iw. reorg_copy s (dim_at dims 1) (dim_at dims 2) (dim_at dims 3) src b ic ih iw)))) dst =
    Some (map (\<lambda>i. src ! nat (reorg_map s Co (dim_at dims 2) (dim_at dims 3) (int i))) [0..<n])"
    by (rule nest4_wrote [where g = "\<lambda>i. src ! nat (reorg_map s Co (dim_at dims 2) (dim_at dims 3) i)"])
       (use reorg_body [OF s n(1) _ n(3), of "dim_at dims 0" "dim_at dims 2" "dim_at dims 3"] n dims s in auto)
  then show ?thesis using s(1) by (simp add: reorg_execute_def Let_def)
qed

lemma reorg_map_bij:
  assumes s: "0 < s" "0 < Co" and pos: "0 \<le> H" "0 \<le> W" and n: "int n = B * (Co * s * s) * H * W"
  shows "bij_betw (\<lambda>i. nat (reorg_map s Co H W (int i))) {..<n} {..<n}"
proof -
  have dec: "\<exists>b ic h w. int i = idx4 (Co * s * s) H W b ic h w \<and> 0 \<le> b \<and> b < B \<and> 0 \<le> ic \<and> ic < Co * s * s \<and>
      0 \<le> h \<and> h < H \<and> 0 \<le> w \<and> w < W" if "i < n" for i
  proof -
    have "0 \<le> int i" "int i < B * (Co * s * s) * H * W" "0 \<le> Co * s * s" using that n s by simp_all
    then show ?thesis using pos by (metis idx4_cases)
  qed
  have to: "nat (reorg_map s Co H W (int i)) < n" "0 \<le> reorg_map s Co H W (int i)" if i: "i < n" for i
  proof -
    from dec [OF i] obtain b ic h w where "int i = idx4 (Co * s * s) H W b ic h w"
      and r: "0 \<le> b" "b < B" "0 \<le> ic" "ic < Co * s * s" "0 \<le> h" "h < H" "0 \<le> w" "w < W" by blast
    then show "nat (reorg_map s Co H W (int i)) < n" "0 \<le> reorg_map s Co H W (int i)"
      using reorg_src_bound [OF s r] reorg_map_idx4 [OF r(3-8)] n by simp_all
  qed
  have "inj_on (\<lambda>i. nat (reorg_map s Co H W (int i))) {..<n}"
  proof (rule inj_onI)
    fix i j assume ij: "i \<in> {..<n}" "j \<in> {..<n}"
      and eq: "nat (reorg_map s Co H W (int i)) = nat (reorg_map s Co H W (int j))"
    from dec [of i] ij obtain b ic h w where i: "int i = idx4 (Co * s * s) H W b ic h w"
      and r: "0 \<le> b" "b < B" "0 \<le> ic" "ic < Co * s * s" "0 \<le> h" "h < H" "0 \<le> w" "w < W" by blast
    from dec [of j] ij obtain b' ic' h' w' where j: "int j = idx4 (Co * s * s) H W b' ic' h' w'"
      and r': "0 \<le> b'" "b' < B" "0 \<le> ic'" "ic' < Co * s * s" "0 \<le> h'" "h' < H" "0 \<le> w'" "w' < W" by blast
    have "reorg_src s Co H W b ic h w = reorg_src s Co H W b' ic' h' w'"
      using eq to(2) [of i] to(2) [of j] ij unfolding i j reorg_map_idx4 [OF r(3-8)] reorg_map_idx4 [OF r'(3-8)] by simp
    from reorg_src_inj [OF s r(1,3-8) r'(1,3-8) this] i j show "i = j" by simp
  qed
  then show ?thesis using to(1) by (intro bij_betw_imageI endo_inj_surj) auto
qed

section \<open>Properties\<close>

text \<open>C24. On a blob whose channel count is a multiple of \<open>stride * stride\<close> the layer reads and writes
  inside its buffers only, element \<open>(b, ic, ih, iw)\<close> of the output is the pixel
  \<open>(ih * stride + k div stride, iw * stride + k mod stride)\<close> of input channel \<open>ic mod Co\<close>, where
  \<open>k = ic div Co\<close> and \<open>Co = IC / (stride * stride)\<close>, and the output is a permutation of the input:
  no value is lost or repeated.\<close>
theorem reorg_yolo_rearranges:
  assumes "0 < s" "0 < Co" and "dim_at dims 1 = Co * s * s"
    and "length src = n" "length dst = n" "n \<le> 2 ^ 31"
    and "int n = dim_at dims 0 * dim_at dims 1 * dim_at dims 2 * dim_at dims 3"
  shows "\<exists>out. reorg_execute s dims src dst = Some (OK, out) \<and> mset out = mset src \<and>
    (\<forall>b \<in> {0..<dim_at dims 0}. \<forall>ic \<in> {0..<dim_at dims 1}. \<forall>h \<in> {0..<dim_at dims 2}. \<forall>w \<in> {0..<dim_at dims 3}.
      out ! nat (idx4 (dim_at dims 1) (dim_at dims 2) (dim_at dims 3) b ic h w) =
      src ! nat (idx4 Co (dim_at dims 2 * s) (dim_at dims 3 * s) b (ic mod Co)
                   (h * s + ic div Co div s) (w * s + ic div Co mod s)))"
proof -
  let ?H = "dim_at dims 2" and ?W = "dim_at dims 3"
  let ?out = "map (\<lambda>i. src ! nat (reorg_map s Co ?H ?W (int i))) [0..<n]"
  have "mset ?out = mset src"
    using assms by (intro mset_map_bij reorg_map_bij [of s Co ?H ?W n "dim_at dims 0"]) simp_all
  moreover have "?out ! nat (idx4 (dim_at dims 1) ?H ?W b ic h w) = src ! nat (reorg_src s Co ?H ?W b ic h w)"
    if "b \<in> {0..<dim_at dims 0}" "ic \<in> {0..<dim_at dims 1}" "h \<in> {0..<?H}" "w \<in> {0..<?W}" for b ic h w
    using idx4_bound [of b "dim_at dims 0" ic "dim_at dims 1" h ?H w ?W] that assms(7)
      reorg_map_idx4 [of ic Co s h ?H w ?W b] assms(3) by (simp add: nat_less_iff)
  ultimately show ?thesis using reorg_execute_eq [OF assms] by (simp add: reorg_src_def)
qed

theorem reorg_yolo_rearranges_witness:
  "\<exists>out. reorg_execute 2 [1, 4, 1, 2] [10, 11, 12, 13, 14, 15, 16, 17] (replicate 8 0) = Some (OK, out) \<and>
     mset out = mset [10, 11, 12, 13, 14, 15, 16, 17]"
  using reorg_yolo_rearranges [of 2 1 "[1, 4, 1, 2]" "[10, 11, 12, 13, 14, 15, 16, 17]" 8 "replicate 8 0"]
  by (auto simp: dim_at_def simp del: mset.simps)

end
