(* ===== verification/CtcGreedy.thy ===== *)
theory CtcGreedy
  imports LayerBase
begin

text \<open>
  \<^verbatim>\<open>extension/ext_ctc_greedy.cpp\<close>: greedy decoding of a sequence of class probabilities. For each
  sequence the layer takes the most probable class of every time step until the sequence ends, drops
  repeated classes and the blank (the last class), and pads the result with -1. The reference
  definition is \<open>ctc_decode\<close>: collapse equal neighbours, then remove the blank.
\<close>

section \<open>The layer\<close>

definition ctc_new :: "cnn_layer \<Rightarrow> ext_layer \<times> unit option" where
  "ctc_new l = construct
     (if ins_data l = [] \<or> length (out_data l) \<noteq> 1 then Inl ''Incorrect number of input/output edges!''
      else try_with (addConfig l (map (\<lambda>_. conf PLN) (ins_data l)) [conf PLN] False) (\<lambda>c. Inr ((), c)))"

text \<open>The most probable class of the step whose scores start at \<open>base\<close>: the first maximum.\<close>

definition ctc_best :: "f32 list \<Rightarrow> int \<Rightarrow> int \<Rightarrow> int option" where
  "ctc_best probs base C = do {
     p0 \<leftarrow> ld probs base;
     r \<leftarrow> for_loop 1 C (\<lambda>c (max_class_idx, max_prob). do {
            p \<leftarrow> ld probs (base + c);
            Some (if p > max_prob then (c, p) else (max_class_idx, max_prob)) }) (0, p0);
     Some (fst r) }"

text \<open>The loop over the time steps of sequence \<open>n\<close>. Its exit is in the middle of the body; a step
  index that has passed \<open>T\<close> has left the buffers.\<close>

function ctc_walk ::
  "f32 list \<Rightarrow> f32 list \<Rightarrow> int \<Rightarrow> int \<Rightarrow> int \<Rightarrow> int \<Rightarrow> int \<Rightarrow> int \<Rightarrow> int \<Rightarrow> f32 list \<Rightarrow> f32 list option" where
  "ctc_walk probs ind T N C n t prev oi out = do {
     m \<leftarrow> ctc_best probs (t * C * N + n * C) C;
     (out1, oi1) \<leftarrow> (if m < C - 1 \<and> m \<noteq> prev
        then do { o1 \<leftarrow> st out oi (i2f m); Some (o1, oi + 1) } else Some (out, oi));
     if t + 1 = T then Some out1
     else do {
       s \<leftarrow> ld ind ((t + 1) * N + n);
       if s = 0 then Some out1
       else if T \<le> t then None
       else ctc_walk probs ind T N C n (t + 1) m oi1 out1 } }"
  by pat_completeness auto
termination by (relation "measure (\<lambda>(probs, ind, T, N, C, n, t, prev, oi, out). nat (T - t))") auto

declare ctc_walk.simps [simp del]

definition ctc_execute ::
  "(nat list \<times> f32 list) list \<Rightarrow> f32 list option \<Rightarrow> (status_code \<times> f32 list option) option" where
  "ctc_execute inputs output =
     (if (length inputs \<noteq> 1 \<and> length inputs \<noteq> 2) \<or> output = None then Some (GENERAL_ERROR, output)
      else case inputs of
        [(dims, probs), (idims, ind)] \<Rightarrow>
          if length dims < 3 then None
          else
            let T = int (dims ! 0); N = int (dims ! 1); C = int (dims ! 2) in do {
              out0 \<leftarrow> output;
              out1 \<leftarrow> for_loop 0 (T * N) (\<lambda>ii o1. st o1 ii (- 1)) out0;
              out2 \<leftarrow> for_loop 0 N (\<lambda>n o1. ctc_walk probs ind T N C n 0 (- 1) (n * T) o1) out1;
              Some (OK, Some out2) }
      | _ \<Rightarrow> None)"

section \<open>The reference\<close>

definition first_max :: "f32 list \<Rightarrow> int" where
  "first_max vs = int (LEAST i. i < length vs \<and> (\<forall>v \<in> set vs. v \<le> vs ! i))"

text \<open>The classes of the steps that belong to the sequence, and their decoding.\<close>

definition ctc_path :: "f32 list \<Rightarrow> f32 list \<Rightarrow> int \<Rightarrow> int \<Rightarrow> int \<Rightarrow> int \<Rightarrow> int \<Rightarrow> int list" where
  "ctc_path probs ind T N C n t =
     map (\<lambda>t. first_max (map (\<lambda>c. probs ! nat (t * C * N + n * C + c)) [0..C - 1]))
       (t # takeWhile (\<lambda>t. ind ! nat (t * N + n) \<noteq> 0) [t + 1..T - 1])"

definition ctc_decode :: "int \<Rightarrow> int list \<Rightarrow> int list" where
  "ctc_decode blank path = filter (\<lambda>c. c \<noteq> blank) (remdups_adj path)"

section \<open>The maximum scan\<close>

text \<open>The invariant of the scan: \<open>m\<close> is the first position of the maximum of the first \<open>k\<close> values.\<close>

definition scan_inv :: "f32 list \<Rightarrow> int \<Rightarrow> int \<times> f32 \<Rightarrow> bool" where
  "scan_inv vs k r \<longleftrightarrow> 0 \<le> fst r \<and> fst r < k \<and> snd r = vs ! nat (fst r) \<and>
     (\<forall>j. 0 \<le> j \<and> j < k \<longrightarrow> vs ! nat j \<le> snd r) \<and> (\<forall>j. 0 \<le> j \<and> j < fst r \<longrightarrow> vs ! nat j < snd r)"

lemma scan_inv_start: "scan_inv vs 1 (0, vs ! 0)"
proof -
  have "j = 0" if "0 \<le> j" "j < 1" for j :: int using that by linarith
  then show ?thesis by (auto simp: scan_inv_def)
qed

lemma scan_inv_step:
  assumes "scan_inv vs c (mi, mp)"
  shows "scan_inv vs (c + 1) (if vs ! nat c > mp then (c, vs ! nat c) else (mi, mp))"
proof -
  from assms have mi: "0 \<le> mi" "mi < c" "mp = vs ! nat mi" and lt: "0 \<le> j \<Longrightarrow> j < mi \<Longrightarrow> vs ! nat j < mp"
    and le: "0 \<le> j \<Longrightarrow> j < c \<Longrightarrow> vs ! nat j \<le> mp" for j by (auto simp: scan_inv_def)
  have j: "j < c \<or> j = c" if "j \<le> c" for j using that by linarith
  show ?thesis
  proof (cases "vs ! nat c > mp")
    case True
    then have "vs ! nat j < vs ! nat c" if "0 \<le> j" "j < c" for j using le [OF that] by simp
    with True mi show ?thesis by (auto simp: scan_inv_def less_imp_le dest: j)
  next
    case False
    with mi lt le show ?thesis by (auto simp: scan_inv_def not_less dest!: j)
  qed
qed

lemma scan_inv_first_max:
  assumes "scan_inv vs (int (length vs)) r"
  shows "first_max vs = fst r"
proof -
  have m: "nat (fst r) < length vs" "snd r = vs ! nat (fst r)"
    using assms by (auto simp: scan_inv_def nat_less_iff)
  have le: "vs ! j \<le> snd r" if "j < length vs" for j
    using assms that by (auto simp: scan_inv_def dest: spec [of _ "int j"])
  have less: "vs ! j < snd r" if "int j < fst r" for j
    using assms that by (auto simp: scan_inv_def dest: spec [of _ "int j"])
  have "(LEAST i. i < length vs \<and> (\<forall>v \<in> set vs. v \<le> vs ! i)) = nat (fst r)"
  proof (rule Least_equality)
    show "nat (fst r) < length vs \<and> (\<forall>v \<in> set vs. v \<le> vs ! nat (fst r))"
      using m le by (auto simp: in_set_conv_nth)
    fix y assume y: "y < length vs \<and> (\<forall>v \<in> set vs. v \<le> vs ! y)"
    show "nat (fst r) \<le> y"
    proof (rule ccontr)
      assume "\<not> nat (fst r) \<le> y"
      then have "int y < fst r" by linarith
      then have "vs ! y < vs ! nat (fst r)" using less m(2) by simp
      then show False using y nth_mem [OF m(1)] by (metis leD)
    qed
  qed
  then show ?thesis using assms by (simp add: first_max_def scan_inv_def)
qed

lemma ctc_best_eq:
  assumes "0 < C" "0 \<le> base" "base + C \<le> int (length probs)" "length probs \<le> 2 ^ 31"
  shows "ctc_best probs base C = Some (first_max (map (\<lambda>c. probs ! nat (base + c)) [0..C - 1]))"
    and "0 \<le> first_max (map (\<lambda>c. probs ! nat (base + c)) [0..C - 1])"
proof -
  let ?vs = "map (\<lambda>c. probs ! nat (base + c)) [0..C - 1]"
  let ?body = "\<lambda>c (mi, mp). do { p \<leftarrow> ld probs (base + c); Some (if p > mp then (c, p) else (mi, mp)) }"
  have nth: "?vs ! nat c = probs ! nat (base + c)" if "0 \<le> c" "c < C" for c
    using that by (simp add: nth_upto)
  have ld: "ld probs (base + c) = Some (?vs ! nat c)" if "0 \<le> c" "c < C" for c
    using that assms nth [OF that] by (simp add: ld_def int_ok_def)
  have "\<exists>r. for_loop 1 C ?body (0, probs ! nat base) = Some r \<and> scan_inv ?vs C r"
  proof (rule for_loop_inv [where P = "scan_inv ?vs"])
    show "scan_inv ?vs 1 (0, probs ! nat base)"
      using scan_inv_start [of ?vs] nth [of 0] assms(1) by simp
  next
    fix c r assume c: "1 \<le> c" "c < C" and inv: "scan_inv ?vs c r"
    obtain mi mp where r: "r = (mi, mp)" by fastforce
    have "scan_inv ?vs (c + 1) (if ?vs ! nat c > mp then (c, ?vs ! nat c) else (mi, mp))"
      using scan_inv_step inv unfolding r .
    then show "\<exists>s'. ?body c r = Some s' \<and> scan_inv ?vs (c + 1) s'"
      using ld [of c] nth [of c] c by (simp only: r prod.case) (simp split: if_splits)
  qed (use assms in simp)
  then obtain r where r: "for_loop 1 C ?body (0, probs ! nat base) = Some r" and i: "scan_inv ?vs C r" by blast
  have "first_max ?vs = fst r" using i assms(1) by (intro scan_inv_first_max) simp
  moreover have "ld probs base = Some (probs ! nat base)" using ld [of 0] nth [of 0] assms(1) by simp
  ultimately show "ctc_best probs base C = Some (first_max ?vs)" and "0 \<le> first_max ?vs"
    using r i by (simp_all add: ctc_best_def scan_inv_def)
qed

section \<open>The walk over the time steps\<close>

text \<open>What the walk appends for the classes of the remaining steps.\<close>

fun emitted :: "int \<Rightarrow> int \<Rightarrow> int list \<Rightarrow> int list" where
  "emitted C prev [] = []"
| "emitted C prev (c # cs) = (if c < C - 1 \<and> c \<noteq> prev then c # emitted C c cs else emitted C c cs)"

lemma length_emitted: "length (emitted C prev cs) \<le> length cs"
  by (induction C prev cs rule: emitted.induct) auto

lemma emitted_remdups:
  "\<forall>c \<in> set cs. 0 \<le> c \<and> c < C \<Longrightarrow>
     emitted C prev cs = filter (\<lambda>c. c \<noteq> C - 1)
       (case cs of [] \<Rightarrow> [] | c # _ \<Rightarrow> if c = prev then tl (remdups_adj cs) else remdups_adj cs)"
proof (induction C prev cs rule: emitted.induct)
  case (2 C prev c cs)
  then show ?case by (cases cs) (auto simp: remdups_adj_Cons' split: list.splits)
qed simp

lemma emitted_decode:
  assumes "\<forall>c \<in> set cs. 0 \<le> c \<and> c < C"
  shows "emitted C (- 1) cs = ctc_decode (C - 1) cs"
  using emitted_remdups [OF assms, of "- 1"] assms by (cases cs) (auto simp: ctc_decode_def)

definition step_class :: "f32 list \<Rightarrow> int \<Rightarrow> int \<Rightarrow> int \<Rightarrow> int \<Rightarrow> int" where
  "step_class probs N C n t = first_max (map (\<lambda>c. probs ! nat (t * C * N + n * C + c)) [0..C - 1])"

lemma ctc_path_class:
  "ctc_path probs ind T N C n t =
     map (step_class probs N C n) (t # takeWhile (\<lambda>t. ind ! nat (t * N + n) \<noteq> 0) [t + 1..T - 1])"
  by (simp add: ctc_path_def step_class_def)

lemma ctc_path_step:
  assumes "t < T"
  shows "ctc_path probs ind T N C n t = step_class probs N C n t #
    (if t + 1 = T \<or> ind ! nat ((t + 1) * N + n) = 0 then [] else ctc_path probs ind T N C n (t + 1))"
  using assms upto_rec1 [of "t + 1" "T - 1"] by (cases "t + 1 = T") (auto simp: ctc_path_class)

lemma step_class_bound:
  assumes "0 < C"
  shows "0 \<le> step_class probs N C n t" "step_class probs N C n t < C"
proof -
  let ?vs = "map (\<lambda>c. probs ! nat (t * C * N + n * C + c)) [0..C - 1]"
  let ?P = "\<lambda>i. i < length ?vs \<and> (\<forall>v \<in> set ?vs. v \<le> ?vs ! i)"
  have "Max (set ?vs) \<in> set ?vs" using assms by (intro Max_in) auto
  then obtain i where i: "i < length ?vs" "?vs ! i = Max (set ?vs)" unfolding in_set_conv_nth by blast
  have "v \<le> ?vs ! i" if "v \<in> set ?vs" for v using that unfolding i(2) by (intro Max_ge) simp_all
  with i(1) have "\<exists>i. ?P i" by blast
  then have "?P (LEAST i. ?P i)" by (rule LeastI_ex)
  then have "(LEAST i. ?P i) < nat C" by simp
  then show "step_class probs N C n t < C" unfolding step_class_def first_max_def by linarith
  show "0 \<le> step_class probs N C n t" by (simp add: step_class_def first_max_def)
qed

lemma ctc_path_bounds:
  assumes "0 < C" and "t < T"
  shows "\<forall>c \<in> set (ctc_path probs ind T N C n t). 0 \<le> c \<and> c < C"
    and "int (length (ctc_path probs ind T N C n t)) \<le> T - t"
proof -
  show "\<forall>c \<in> set (ctc_path probs ind T N C n t). 0 \<le> c \<and> c < C"
    using step_class_bound [OF assms(1)] by (auto simp: ctc_path_class)
  have "length (takeWhile P [t + 1..T - 1]) \<le> length [t + 1..T - 1]" for P by (rule length_takeWhile_le)
  then show "int (length (ctc_path probs ind T N C n t)) \<le> T - t"
    using assms(2) by (simp add: ctc_path_class) (smt (verit) length_takeWhile_le length_upto int_nat_eq of_nat_le_iff)
qed

lemma row_bound:
  fixes C N T n t :: int
  assumes "0 \<le> n" "n < N" "0 \<le> t" "t < T" "0 < C"
  shows "0 \<le> t * C * N + n * C" "t * C * N + n * C + C \<le> T * N * C"
proof -
  have "0 \<le> t * N + n" "t * N + n < T * N" using assms by (simp_all add: flat_bound)
  moreover have "t * C * N + n * C = (t * N + n) * C" by (simp add: algebra_simps)
  moreover have "(t * N + n) * C + C = (t * N + n + 1) * C" by (simp add: algebra_simps)
  ultimately show "0 \<le> t * C * N + n * C" "t * C * N + n * C + C \<le> T * N * C"
    using assms(5) mult_right_mono [of "t * N + n + 1" "T * N" C] by (simp_all only: zero_le_mult_iff) simp_all
qed

lemma ctc_walk_correct:
  assumes size: "T * N * C \<le> int (length probs)" "length probs \<le> 2 ^ 31"
      "T * N \<le> int (length ind)" "length ind \<le> 2 ^ 31" "length out \<le> 2 ^ 31"
    and n: "0 \<le> n" "n < N" and C: "0 < C" and t: "0 \<le> t" "t < T"
    and oi: "0 \<le> oi" "oi + (T - t) \<le> int (length out)"
    and g: "\<And>k. k < length (emitted C prev (ctc_path probs ind T N C n t)) \<Longrightarrow>
              g (oi + int k) = i2f (emitted C prev (ctc_path probs ind T N C n t) ! k)"
  shows "\<exists>out'. ctc_walk probs ind T N C n t prev oi out = Some out' \<and>
    wrote {oi..<oi + int (length (emitted C prev (ctc_path probs ind T N C n t)))} g out out'"
  using t oi g size(5)
proof (induction "nat (T - t)" arbitrary: t prev oi out rule: less_induct)
  case less
  let ?c = "step_class probs N C n t"
  let ?rest = "if t + 1 = T \<or> ind ! nat ((t + 1) * N + n) = 0 then [] else ctc_path probs ind T N C n (t + 1)"
  have path: "ctc_path probs ind T N C n t = ?c # ?rest" using less.prems(2) by (rule ctc_path_step)
  have best: "ctc_best probs (t * C * N + n * C) C = Some ?c"
    unfolding step_class_def using row_bound [of n N t T C] less.prems n C size
    by (intro ctc_best_eq(1)) simp_all
  have ld_step: "ld ind (s * N + n) = Some (ind ! nat (s * N + n))" if "0 \<le> s" "s < T" for s
    using flat_bound [OF that n] size(3,4) by (rule ld_in)
  let ?emit = "?c < C - 1 \<and> ?c \<noteq> prev"
  let ?oi = "if ?emit then oi + 1 else oi"
  have "\<exists>o1. (if ?emit then do { o1 \<leftarrow> st out oi (i2f ?c); Some (o1, oi + 1) } else Some (out, oi)) = Some (o1, ?oi)
      \<and> wrote {oi..<?oi} g out o1"
  proof (cases ?emit)
    case True
    have "g oi = i2f ?c" using less.prems(5) [of 0] True by (simp add: path)
    then have "\<exists>o1. st out oi (i2f ?c) = Some o1 \<and> wrote {oi} g out o1"
      using less.prems(2-4,6) by (intro wrote_st) (simp_all add: int_ok_def)
    moreover have "{oi..<oi + 1} = {oi}" by auto
    ultimately show ?thesis using True by auto
  next
    case False
    then show ?thesis by (simp only: if_False) (simp add: wrote_empty)
  qed
  then obtain o1 where o1: "(if ?emit then do { o1 \<leftarrow> st out oi (i2f ?c); Some (o1, oi + 1) } else Some (out, oi)) = Some (o1, ?oi)"
    and w1: "wrote {oi..<?oi} g out o1" by blast
  have len: "length o1 = length out" using w1 by (rule wrote_length)
  have em: "emitted C prev (?c # ?rest) = (if ?emit then ?c # emitted C ?c ?rest else emitted C ?c ?rest)" by simp
  show ?case
  proof (cases "t + 1 = T \<or> ind ! nat ((t + 1) * N + n) = 0")
    case True
    have ind: "t + 1 \<noteq> T \<Longrightarrow> ld ind ((t + 1) * N + n) = Some (ind ! nat ((t + 1) * N + n))"
      using ld_step less.prems(1,2) by simp
    have r: "ctc_walk probs ind T N C n t prev oi out = Some o1"
      using True ind by (subst ctc_walk.simps) (auto simp: best o1)
    have "?oi = oi + int (length (emitted C prev (ctc_path probs ind T N C n t)))"
      using True by (simp add: path)
    with w1 have "wrote {oi..<oi + int (length (emitted C prev (ctc_path probs ind T N C n t)))} g out o1"
      by (simp only:)
    with r show ?thesis by blast
  next
    case False
    then have t1: "t + 1 < T" using less.prems(2) by simp
    have ind: "ld ind ((t + 1) * N + n) = Some (ind ! nat ((t + 1) * N + n))"
      using ld_step less.prems(1) t1 by simp
    have walk: "ctc_walk probs ind T N C n t prev oi out = ctc_walk probs ind T N C n (t + 1) ?c ?oi o1"
      using False less.prems(2) by (subst ctc_walk.simps) (simp add: best o1 ind)
    have "\<exists>out'. ctc_walk probs ind T N C n (t + 1) ?c ?oi o1 = Some out' \<and>
      wrote {?oi..<?oi + int (length (emitted C ?c (ctc_path probs ind T N C n (t + 1))))} g o1 out'"
    proof (rule less.hyps)
      fix k assume "k < length (emitted C ?c (ctc_path probs ind T N C n (t + 1)))"
      then show "g (?oi + int k) = i2f (emitted C ?c (ctc_path probs ind T N C n (t + 1)) ! k)"
        using less.prems(5) [of "if ?emit then Suc k else k"] False by (auto simp: path algebra_simps)
    qed (use less.prems t1 len in auto)
    then obtain out' where r: "ctc_walk probs ind T N C n (t + 1) ?c ?oi o1 = Some out'"
      and w2: "wrote {?oi..<?oi + int (length (emitted C ?c (ctc_path probs ind T N C n (t + 1))))} g o1 out'" by blast
    have "{oi..<?oi} \<union> {?oi..<?oi + int (length (emitted C ?c (ctc_path probs ind T N C n (t + 1))))} =
      {oi..<oi + int (length (emitted C prev (ctc_path probs ind T N C n t)))}"
      using False by (auto simp: path)
    with walk r wrote_comp [OF w1 w2] show ?thesis by auto
  qed
qed

section \<open>Properties\<close>

lemma ctc_execute_fill:
  fixes out :: "f32 list"
  assumes "length out = k" and "k \<le> 2 ^ 31"
  shows "for_loop 0 (int k) (\<lambda>ii o1. st o1 ii (- 1)) out = Some (replicate k (- 1))"
proof -
  have "\<exists>d'. for_loop 0 (int k) (\<lambda>ii o1. st o1 ii (- 1)) out = Some d' \<and>
      wrote (\<Union>i\<in>{0..<int k}. {i}) (\<lambda>_. - 1) out d'"
    using assms by (intro wrote_for [where n = k] wrote_st) (auto simp: int_ok_def)
  then obtain d' where d: "for_loop 0 (int k) (\<lambda>ii o1. st o1 ii (- 1)) out = Some d'"
    and w: "wrote (\<Union>i\<in>{0..<int k}. {i}) (\<lambda>_. - 1) out d'" by blast
  have "d' = map (\<lambda>i. - 1) [0..<length out]" by (rule wrote_all [OF w]) (simp add: assms(1))
  then show ?thesis using d assms(1) by (simp add: map_replicate_const)
qed

text \<open>C21. Row \<open>n\<close> of the output is the greedy decoding of sequence \<open>n\<close>: the most probable class of each
  step up to the last step or the first step whose indicator is zero, equal neighbours collapsed,
  the blank (class \<open>C - 1\<close>) removed, padded with -1 to \<open>T\<close> entries. The loop ends and reads and writes
  inside its buffers.\<close>
theorem ctc_greedy_decodes:
  assumes "0 < T" "0 < C" and "length probs = T * N * C" "T * N * C \<le> 2 ^ 31"
    and "length ind = T * N" "length out = T * N"
  shows "\<exists>out'. ctc_execute [(T # N # C # ds, probs), (ids, ind)] (Some out) = Some (OK, Some out') \<and>
    (\<forall>n \<in> {0..<N}. \<forall>k \<in> {0..<T}. out' ! (n * T + k) =
       (let d = ctc_decode (int C - 1) (ctc_path probs ind (int T) (int N) (int C) (int n) 0)
        in if k < length d then i2f (d ! k) else - 1))"
proof -
  let ?p = "\<lambda>n. ctc_path probs ind (int T) (int N) (int C) n 0"
  let ?e = "\<lambda>n. emitted (int C) (- 1) (?p n)"
  let ?g = "\<lambda>i. i2f (?e (i div int T) ! nat (i mod int T))"
  let ?S = "\<lambda>n. {n * int T..<n * int T + int (length (?e n))}"
  have TN: "T * N \<le> 2 ^ 31" using assms(2,4) by (metis dual_order.trans mult.right_neutral mult_le_mono2 Suc_leI One_nat_def)
  have fit: "length (?e n) \<le> T" for n
    using length_emitted [of "int C" "- 1" "?p n"] ctc_path_bounds(2) [of "int C" 0 "int T" probs ind "int N" n] assms(1,2)
    by simp
  have "\<exists>d'. for_loop 0 (int N) (\<lambda>n o1. ctc_walk probs ind (int T) (int N) (int C) n 0 (- 1) (n * int T) o1)
      (replicate (T * N) (- 1)) = Some d' \<and> wrote (\<Union>n\<in>{0..<int N}. ?S n) ?g (replicate (T * N) (- 1)) d'"
  proof (rule wrote_for [where n = "T * N"])
    fix n and d :: "f32 list" assume n: "0 \<le> n" "n < int N" and d: "length d = T * N"
    have "n * int T + int T \<le> int N * int T"
      using mult_right_mono [of "n + 1" "int N" "int T"] n by (simp add: algebra_simps)
    then have "n * int T + int T \<le> int T * int N" by (simp add: mult.commute)
    then show "\<exists>d'. ctc_walk probs ind (int T) (int N) (int C) n 0 (- 1) (n * int T) d = Some d' \<and> wrote (?S n) ?g d d'"
      using n d assms TN fit [of n]
      by (intro ctc_walk_correct) (auto simp: flat_div simp flip: of_nat_mult of_nat_less_iff)
  qed simp
  then obtain d' where loop: "for_loop 0 (int N) (\<lambda>n o1. ctc_walk probs ind (int T) (int N) (int C) n 0 (- 1) (n * int T) o1)
      (replicate (T * N) (- 1)) = Some d'" and w: "wrote (\<Union>n\<in>{0..<int N}. ?S n) ?g (replicate (T * N) (- 1)) d'"
    by blast
  have "d' ! (n * T + k) = (if k < length (?e (int n)) then i2f (?e (int n) ! k) else - 1)"
    if "n < N" "k < T" for n k
  proof -
    have i: "n * T + k < T * N" using nth_upt_mult [OF that] by (simp add: mult.commute)
    have "int (n * T + k) \<in> ?S n' \<longleftrightarrow> n' = int n \<and> k < length (?e (int n))" for n'
    proof
      assume a: "int (n * T + k) \<in> ?S n'"
      let ?j = "int (n * T + k) - n' * int T"
      have j: "0 \<le> ?j" "?j < int T" using a fit [of n'] by auto
      have "int (n * T + k) = n' * int T + ?j" by simp
      then have "n' = int (n * T + k) div int T" using flat_div(1) [OF j, of n'] by simp
      also have "\<dots> = int n" using that by simp
      finally show "n' = int n \<and> k < length (?e (int n))" using a by simp
    qed simp
    then have "int (n * T + k) \<in> (\<Union>n\<in>{0..<int N}. ?S n) \<longleftrightarrow> k < length (?e (int n))" using that by auto
    moreover have "?g (int (n * T + k)) = i2f (?e (int n) ! k)" using that by simp
    ultimately show ?thesis using wrote_nth [OF w, of "n * T + k"] i by simp
  qed
  moreover have "?e (int n) = ctc_decode (int C - 1) (?p (int n))" for n
    using ctc_path_bounds(1) [of "int C" 0 "int T"] assms(1,2) by (intro emitted_decode) simp
  moreover have "ctc_execute [(T # N # C # ds, probs), (ids, ind)] (Some out) = Some (OK, Some d')"
    using ctc_execute_fill [OF assms(6) TN] loop by (simp add: ctc_execute_def)
  ultimately show ?thesis by (auto simp: Let_def)
qed

theorem ctc_greedy_decodes_witness:
  "\<exists>out'. ctc_execute [([2, 1, 3], [3, 1, 0, 1, 4, 2]), ([2, 1], [1, 1])] (Some [0, 0]) = Some (OK, Some out') \<and>
     out' ! 0 = (let d = ctc_decode 2 (ctc_path [3, 1, 0, 1, 4, 2] [1, 1] 2 1 3 0 0)
                 in if 0 < length d then i2f (d ! 0) else - 1)"
  using ctc_greedy_decodes [of 2 3 "[3, 1, 0, 1, 4, 2]" 1 "[1, 1]" "[0, 0]" "[]" "[2, 1]"]
  by (auto dest!: bspec [of _ _ "0::nat"])

end
