(* ===== verification/ArgMax.thy ===== *)
theory ArgMax
  imports LayerBase "HOL-Library.Product_Lexorder"
begin

text \<open>
  \<^verbatim>\<open>extension/ext_argmax.cpp\<close>: the \<open>top_k\<close> largest elements of every row of a blob, along an axis or over
  everything but the batch. The rows are pairs of a value and its position, ordered as C++ orders
  pairs; \<^verbatim>\<open>std::partial_sort\<close> with \<^verbatim>\<open>std::greater\<close> puts the \<open>top_k\<close> greatest first, in descending
  order (what it leaves behind them is not read).
\<close>

section \<open>The layer\<close>

record argmax =
  out_max_val :: bool
  top_k :: int
  has_axis :: bool
  axis_index :: int

text \<open>\<^verbatim>\<open>std::stoi\<close> may throw an exception that the constructor does not catch; then there is no object.\<close>

definition argmax_new :: "(string \<Rightarrow> int option) \<Rightarrow> cnn_layer \<Rightarrow> (ext_layer \<times> argmax option) option" where
  "argmax_new stoi l =
     (let done = (\<lambda>omv k ha ax. Some (construct
             (try_with (addConfig l [conf PLN] [conf PLN] False) (\<lambda>c.
               Inr (\<lparr>out_max_val = omv, top_k = k, has_axis = ha, axis_index = ax\<rparr>, c)))));
          fail = (\<lambda>e. Some (construct (Inl e)))
      in if length (ins_data l) \<noteq> 1 \<or> out_data l = [] then fail ''Incorrect number of input/output edges!''
         else case int_param l ''out_max_val'' of Inl e \<Rightarrow> fail e
         | Inr v \<Rightarrow> (case int_param l ''top_k'' of Inl e \<Rightarrow> fail e
             | Inr k \<Rightarrow> (case string_param l ''axis'' of None \<Rightarrow> done (v \<noteq> 0) k False 0
                 | Some s \<Rightarrow> (case stoi s of None \<Rightarrow> None | Some ax \<Rightarrow> done (v \<noteq> 0) k True ax))))"

definition count_dims :: "nat list \<Rightarrow> nat \<Rightarrow> nat \<Rightarrow> int" where
  "count_dims dims start_ind end_ind = prod_list (map (\<lambda>i. int (dims ! i)) [start_ind..<end_ind])"

text \<open>The row length and the distance between its elements.\<close>

definition argmax_geometry :: "argmax \<Rightarrow> nat list \<Rightarrow> (int \<times> int) option" where
  "argmax_geometry a dims =
     (if has_axis a then
        let ax = (if axis_index a < 0 then axis_index a + int (length dims) else axis_index a) in
        if ax < 0 \<or> int (length dims) \<le> ax then None
        else let rdim = int (dims ! nat ax) in
          if rdim = 0 then None else Some (rdim, cquot (count_dims dims (nat ax) (length dims)) rdim)
      else Some (count_dims dims 1 (length dims), 1))"

definition argmax_row :: "f32 list \<Rightarrow> int \<Rightarrow> int \<Rightarrow> int \<Rightarrow> (f32 \<times> int) list option" where
  "argmax_row src rdim axis_dist i =
     mapm (\<lambda>j. do { v \<leftarrow> ld src ((cquot i axis_dist * rdim + j) * axis_dist + crem i axis_dist); Some (v, j) })
       [0..rdim - 1]"

text \<open>The first \<open>k\<close> elements after \<^verbatim>\<open>partial_sort\<close>; its middle iterator must lie in the vector.\<close>

definition partial_sort_greater :: "int \<Rightarrow> (f32 \<times> int) list \<Rightarrow> (f32 \<times> int) list option" where
  "partial_sort_greater k xs =
     (if 0 \<le> k \<and> k \<le> int (length xs) then Some (take (nat k) (rev (sort xs))) else None)"

definition argmax_store ::
  "argmax \<Rightarrow> int \<Rightarrow> int \<Rightarrow> (f32 \<times> int) list \<Rightarrow> int \<Rightarrow> f32 list \<Rightarrow> f32 list option" where
  "argmax_store a axis_dist i best j dst =
     (if out_max_val a then
        if has_axis a then
          st dst ((cquot i axis_dist * top_k a + j) * axis_dist + crem i axis_dist) (fst (best ! nat j))
        else do {
          d1 \<leftarrow> st dst (2 * i * top_k a + j) (i2f (snd (best ! nat j)));
          st d1 (2 * i * top_k a + top_k a + j) (fst (best ! nat j)) }
      else st dst ((cquot i axis_dist * top_k a + j) * axis_dist + crem i axis_dist) (i2f (snd (best ! nat j))))"

definition argmax_execute :: "argmax \<Rightarrow> nat list \<Rightarrow> f32 list \<Rightarrow> f32 list \<Rightarrow> (status_code \<times> f32 list) option" where
  "argmax_execute a dims src dst = do {
     (rdim, axis_dist) \<leftarrow> argmax_geometry a dims;
     if rdim = 0 \<or> axis_dist = 0 then None
     else do {
       dst' \<leftarrow> for_loop 0 (cquot (count_dims dims 0 (length dims)) rdim) (\<lambda>i d. do {
         row \<leftarrow> argmax_row src rdim axis_dist i;
         best \<leftarrow> partial_sort_greater (top_k a) row;
         for_loop 0 (top_k a) (argmax_store a axis_dist i best) d }) dst;
       Some (OK, dst') } }"

section \<open>The largest elements\<close>

text \<open>\<open>best\<close> are the \<open>k\<close> greatest elements of \<open>row\<close>, in descending order.\<close>

definition top_of :: "nat \<Rightarrow> ('a::linorder) list \<Rightarrow> 'a list \<Rightarrow> bool" where
  "top_of k row best \<longleftrightarrow> length best = k \<and> sorted_wrt (\<ge>) best \<and>
     (\<exists>rest. mset row = mset best + mset rest \<and> (\<forall>x \<in> set best. \<forall>y \<in> set rest. y \<le> x))"

lemma top_of_sort:
  assumes "k \<le> length row"
  shows "top_of k row (take k (rev (sort row)))"
proof -
  have s: "sorted_wrt (\<ge>) (rev (sort row))" by (simp add: sorted_wrt_rev)
  then have "sorted_wrt (\<ge>) (take k (rev (sort row)) @ drop k (rev (sort row)))" by simp
  then have "sorted_wrt (\<ge>) (take k (rev (sort row)))"
    "\<forall>x \<in> set (take k (rev (sort row))). \<forall>y \<in> set (drop k (rev (sort row))). y \<le> x"
    unfolding sorted_wrt_append by blast+
  moreover have "mset row = mset (take k (rev (sort row))) + mset (drop k (rev (sort row)))"
    by (metis append_take_drop_id mset_append mset_rev mset_sort)
  ultimately show ?thesis using assms unfolding top_of_def by (metis length_rev length_sort length_take min.absorb2)
qed

definition row_of :: "f32 list \<Rightarrow> int \<Rightarrow> int \<Rightarrow> int \<Rightarrow> (f32 \<times> int) list" where
  "row_of src rdim ad i = map (\<lambda>j. (src ! nat ((i div ad * rdim + j) * ad + i mod ad), j)) [0..rdim - 1]"

lemma strided_bound:
  fixes i j ad n outer :: int
  assumes "0 \<le> i" "i < outer * ad" "0 \<le> j" "j < n" "0 < ad"
  shows "0 \<le> (i div ad * n + j) * ad + i mod ad" "(i div ad * n + j) * ad + i mod ad < outer * n * ad"
proof -
  have "0 \<le> i div ad" "i div ad < outer" "0 \<le> i mod ad" "i mod ad < ad"
    using assms div_lessI [of i outer ad] by (simp_all add: pos_imp_zdiv_nonneg_iff)
  then show "0 \<le> (i div ad * n + j) * ad + i mod ad" "(i div ad * n + j) * ad + i mod ad < outer * n * ad"
    using assms by (auto intro!: flat_bound)
qed

lemma argmax_row_eq:
  assumes "0 \<le> i" "i < outer * ad" "0 < ad" "outer * rdim * ad \<le> int (length src)" "length src \<le> 2 ^ 31"
  shows "argmax_row src rdim ad i = Some (row_of src rdim ad i)"
  unfolding argmax_row_def row_of_def
proof (rule mapm_total)
  fix j assume "j \<in> set [0..rdim - 1]"
  then have "ld src ((i div ad * rdim + j) * ad + i mod ad) = Some (src ! nat ((i div ad * rdim + j) * ad + i mod ad))"
    using strided_bound [of i outer ad j rdim] assms by (intro ld_in [where k = "outer * rdim * ad"]) simp_all
  then show "(do { v \<leftarrow> ld src ((cquot i ad * rdim + j) * ad + crem i ad); Some (v, j) }) =
      Some (src ! nat ((i div ad * rdim + j) * ad + i mod ad), j)"
    using assms by (simp add: cquot_nonneg crem_nonneg)
qed

definition best_of :: "f32 list \<Rightarrow> int \<Rightarrow> int \<Rightarrow> int \<Rightarrow> int \<Rightarrow> (f32 \<times> int) list" where
  "best_of src rdim ad k i = take (nat k) (rev (sort (row_of src rdim ad i)))"

section \<open>The result buffer\<close>

text \<open>What the layer leaves at position \<open>p\<close> of the result: one value or index per row and rank, or, for
  both without an axis, the indices of a row followed by its values.\<close>

definition argmax_value :: "argmax \<Rightarrow> (int \<Rightarrow> (f32 \<times> int) list) \<Rightarrow> int \<Rightarrow> int \<Rightarrow> f32" where
  "argmax_value a best ad p = (let k = top_k a in
     if out_max_val a \<and> \<not> has_axis a then
       let i = p div (2 * k); r = p mod (2 * k) in
       if r < k then i2f (snd (best i ! nat r)) else fst (best i ! nat (r - k))
     else
       let x = best (p div ad div k * ad + p mod ad) ! nat (p div ad mod k)
       in if out_max_val a then fst x else i2f (snd x))"

definition argmax_cells :: "argmax \<Rightarrow> int \<Rightarrow> int \<Rightarrow> int \<Rightarrow> int set" where
  "argmax_cells a ad i j = (let k = top_k a in
     if out_max_val a \<and> \<not> has_axis a then {2 * i * k + j, 2 * i * k + k + j}
     else {(i div ad * k + j) * ad + i mod ad})"

lemma argmax_value_strided:
  assumes "\<not> (out_max_val a \<and> \<not> has_axis a)" "0 \<le> i" "0 < ad" "0 \<le> j" "j < top_k a"
  shows "argmax_value a best ad ((i div ad * top_k a + j) * ad + i mod ad) =
    (if out_max_val a then fst (best i ! nat j) else i2f (snd (best i ! nat j)))"
proof -
  let ?p = "(i div ad * top_k a + j) * ad + i mod ad"
  have m: "0 \<le> i mod ad" "i mod ad < ad" using assms by simp_all
  have p: "?p div ad = i div ad * top_k a + j" "?p mod ad = i mod ad" by (rule flat_div [OF m])+
  then have "?p div ad div top_k a = i div ad" "?p div ad mod top_k a = j"
    using assms(4,5) by (simp_all only: flat_div)
  then show ?thesis using assms(1) p(2) by (simp add: argmax_value_def Let_def)
qed

lemma argmax_value_both:
  assumes "out_max_val a" "\<not> has_axis a" "0 \<le> j" "j < top_k a"
  shows "argmax_value a best ad (2 * i * top_k a + j) = i2f (snd (best i ! nat j))"
    and "argmax_value a best ad (2 * i * top_k a + top_k a + j) = fst (best i ! nat j)"
proof -
  have "2 * i * top_k a + j = i * (2 * top_k a) + j" "2 * i * top_k a + top_k a + j = i * (2 * top_k a) + (top_k a + j)"
    by (simp_all add: algebra_simps)
  moreover have "0 \<le> j \<and> j < 2 * top_k a" "0 \<le> top_k a + j \<and> top_k a + j < 2 * top_k a" using assms by linarith+
  ultimately show "argmax_value a best ad (2 * i * top_k a + j) = i2f (snd (best i ! nat j))"
    and "argmax_value a best ad (2 * i * top_k a + top_k a + j) = fst (best i ! nat j)"
    using assms by (simp_all only: argmax_value_def Let_def flat_div simp_thms if_True) simp_all
qed

text \<open>The number of elements of the result that the rows fill.\<close>

definition argmax_size :: "argmax \<Rightarrow> int \<Rightarrow> int \<Rightarrow> int" where
  "argmax_size a outer ad = (if out_max_val a \<and> \<not> has_axis a then 2 else 1) * outer * top_k a * ad"

lemma argmax_store_wrote:
  assumes "0 \<le> i" "i < outer * ad" "0 < ad" "\<not> has_axis a \<longrightarrow> ad = 1" "0 \<le> j" "j < top_k a"
    and "argmax_size a outer ad \<le> int (length d)" "length d \<le> 2 ^ 31"
  shows "\<exists>d'. argmax_store a ad i (best i) j d = Some d' \<and>
    wrote (argmax_cells a ad i j) (argmax_value a best ad) d d'"
proof (cases "out_max_val a \<and> \<not> has_axis a")
  case True
  then have ad: "ad = 1" and i: "i < outer" using assms by simp_all
  let ?p = "2 * i * top_k a + j" and ?q = "2 * i * top_k a + top_k a + j"
  have b: "0 \<le> i * (2 * top_k a) + r" "i * (2 * top_k a) + r < outer * (2 * top_k a)" if "0 \<le> r" "r < 2 * top_k a" for r
    using flat_bound [OF assms(1) i that] .
  have size: "outer * (2 * top_k a) \<le> int (length d)" using assms(7) True ad by (simp add: argmax_size_def algebra_simps)
  have eq: "?p = i * (2 * top_k a) + j" "?q = i * (2 * top_k a) + (top_k a + j)" by (simp_all add: algebra_simps)
  have p: "0 \<le> ?p" "?p < int (length d)" and q: "0 \<le> ?q" "?q < int (length d)"
    using b [of j] b [of "top_k a + j"] size assms(5,6) unfolding eq by linarith+
  have ok: "int_ok ?p" "int_ok ?q" using p q assms(8) by (simp_all add: int_ok_def)
  note v = argmax_value_both [OF _ _ assms(5,6), of best ad i]
  from wrote_st [where g = "argmax_value a best ad", OF p ok(1) v(1)] True obtain d1 where 1: "st d ?p (i2f (snd (best i ! nat j))) = Some d1"
    and w1: "wrote {?p} (argmax_value a best ad) d d1" by blast
  from wrote_length [OF w1] q(2) have "?q < int (length d1)" by simp
  from wrote_st [where g = "argmax_value a best ad", OF q(1) this ok(2) v(2)] True obtain d2 where 2: "st d1 ?q (fst (best i ! nat j)) = Some d2"
    and w2: "wrote {?q} (argmax_value a best ad) d1 d2" by blast
  have "{?p} \<union> {?q} = argmax_cells a ad i j" using True by (auto simp: argmax_cells_def Let_def)
  with wrote_comp [OF w1 w2] have "wrote (argmax_cells a ad i j) (argmax_value a best ad) d d2" by simp
  with True 1 2 show ?thesis by (simp add: argmax_store_def)
next
  case False
  let ?p = "(i div ad * top_k a + j) * ad + i mod ad"
  have "argmax_size a outer ad = outer * top_k a * ad" using False unfolding argmax_size_def by auto
  then have p: "0 \<le> ?p" "?p < int (length d)" using strided_bound [OF assms(1,2,5,6,3)] assms(7) by linarith+
  have c: "argmax_cells a ad i j = {?p}" using False unfolding argmax_cells_def Let_def by auto
  have ok: "int_ok ?p" using p assms(8) by (simp add: int_ok_def)
  have q: "cquot i ad = i div ad" "crem i ad = i mod ad" using assms by (simp_all add: cquot_nonneg crem_nonneg)
  note v = argmax_value_strided [OF False assms(1,3,5,6), of best]
  show ?thesis using wrote_st [where g = "argmax_value a best ad", OF p ok v] False unfolding c argmax_store_def q by (auto split: if_splits)
qed

lemma argmax_execute_eq:
  assumes geo: "argmax_geometry a dims = Some (rdim, ad)" and pos: "0 < rdim" "0 < ad" "\<not> has_axis a \<longrightarrow> ad = 1"
    and num: "count_dims dims 0 (length dims) = outer * rdim * ad" "0 \<le> outer"
    and k: "0 \<le> top_k a" "top_k a \<le> rdim"
    and src: "outer * rdim * ad \<le> int (length src)" "length src \<le> 2 ^ 31"
    and dst: "argmax_size a outer ad \<le> int (length dst)" "length dst \<le> 2 ^ 31"
  shows "\<exists>out. argmax_execute a dims src dst = Some (OK, out) \<and>
    wrote (\<Union>i\<in>{0..<outer * ad}. \<Union>j\<in>{0..<top_k a}. argmax_cells a ad i j)
      (argmax_value a (best_of src rdim ad (top_k a)) ad) dst out"
proof -
  have n: "cquot (count_dims dims 0 (length dims)) rdim = outer * ad"
    using num pos by (simp add: cquot_nonneg)
  let ?g = "argmax_value a (best_of src rdim ad (top_k a)) ad"
  let ?body = "\<lambda>i d. do {
         row \<leftarrow> argmax_row src rdim ad i;
         best \<leftarrow> partial_sort_greater (top_k a) row;
         for_loop 0 (top_k a) (argmax_store a ad i best) d }"
  have "\<exists>out. for_loop 0 (outer * ad) ?body dst = Some out \<and>
      wrote (\<Union>i\<in>{0..<outer * ad}. \<Union>j\<in>{0..<top_k a}. argmax_cells a ad i j) ?g dst out"
  proof (rule wrote_for [where n = "length dst"])
    fix i and d :: "f32 list" assume i: "0 \<le> i" "i < outer * ad" and d: "length d = length dst"
    have row: "argmax_row src rdim ad i = Some (row_of src rdim ad i)"
      using i pos src by (intro argmax_row_eq)
    have "partial_sort_greater (top_k a) (row_of src rdim ad i) = Some (best_of src rdim ad (top_k a) i)"
      using k by (simp add: partial_sort_greater_def best_of_def row_of_def)
    moreover have "\<exists>d'. for_loop 0 (top_k a) (argmax_store a ad i (best_of src rdim ad (top_k a) i)) d = Some d' \<and>
        wrote (\<Union>j\<in>{0..<top_k a}. argmax_cells a ad i j) ?g d d'"
      using i pos dst d by (intro wrote_for [where n = "length dst"] argmax_store_wrote) simp_all
    ultimately show "\<exists>d'. ?body i d = Some d' \<and> wrote (\<Union>j\<in>{0..<top_k a}. argmax_cells a ad i j) ?g d d'"
      using row by simp
  qed simp
  then show ?thesis using geo pos by (auto simp: argmax_execute_def n)
qed

section \<open>Properties\<close>

lemma row_of_nth: "0 \<le> j \<Longrightarrow> j < rdim \<Longrightarrow>
  row_of src rdim ad i ! nat j = (src ! nat ((i div ad * rdim + j) * ad + i mod ad), j)"
  by (simp add: row_of_def nth_upto)

text \<open>C23. For every row \<open>i\<close> the result holds the \<open>top_k\<close> greatest (value, position) pairs of the row in
  descending order: the values, the positions, or, without an axis and with \<open>out_max_val\<close>, the
  positions followed by the values. Every access is inside its buffer.\<close>
theorem argmax_top_k:
  assumes "argmax_geometry a dims = Some (rdim, ad)" "0 < rdim" "0 < ad" "\<not> has_axis a \<longrightarrow> ad = 1"
    and "count_dims dims 0 (length dims) = outer * rdim * ad" "0 \<le> outer"
    and "0 \<le> top_k a" "top_k a \<le> rdim"
    and "outer * rdim * ad \<le> int (length src)" "length src \<le> 2 ^ 31"
    and "argmax_size a outer ad \<le> int (length dst)" "length dst \<le> 2 ^ 31"
  shows "\<exists>out. argmax_execute a dims src dst = Some (OK, out) \<and> length out = length dst \<and>
    (\<forall>i \<in> {0..<outer * ad}. \<exists>best. top_of (nat (top_k a)) (row_of src rdim ad i) best \<and>
      (\<forall>j \<in> {0..<top_k a}.
         if out_max_val a \<and> \<not> has_axis a then
           out ! nat (2 * i * top_k a + j) = i2f (snd (best ! nat j)) \<and>
           out ! nat (2 * i * top_k a + top_k a + j) = fst (best ! nat j)
         else out ! nat ((i div ad * top_k a + j) * ad + i mod ad) =
           (if out_max_val a then fst (best ! nat j) else i2f (snd (best ! nat j)))))"
proof -
  let ?best = "best_of src rdim ad (top_k a)"
  from argmax_execute_eq [OF assms] obtain out where run: "argmax_execute a dims src dst = Some (OK, out)"
    and w: "wrote (\<Union>i\<in>{0..<outer * ad}. \<Union>j\<in>{0..<top_k a}. argmax_cells a ad i j) (argmax_value a ?best ad) dst out"
    by blast
  have cell: "out ! nat p = argmax_value a ?best ad p"
    if "i \<in> {0..<outer * ad}" "j \<in> {0..<top_k a}" "p \<in> argmax_cells a ad i j" for i j p
  proof -
    have s: "argmax_size a outer ad \<le> int (length dst)" by (rule assms(11))
    have "0 \<le> p \<and> p < int (length dst)"
    proof -
      from argmax_store_wrote [of i outer ad a j dst ?best] that(1,2) assms obtain d'
        where st: "argmax_store a ad i (?best i) j dst = Some d'" by auto
      from that(3) st assms(3) that(1) show ?thesis
        by (auto simp: argmax_cells_def argmax_store_def st_def Let_def cquot_nonneg crem_nonneg
            split: if_splits Option.bind_splits)
    qed
    then show ?thesis using wrote_nth [OF w, of "nat p"] that by auto
  qed
  have top: "top_of (nat (top_k a)) (row_of src rdim ad i) (?best i)" for i
    unfolding best_of_def using assms(7,8) by (intro top_of_sort) (simp add: row_of_def)
  show ?thesis
    using run top wrote_length [OF w] cell assms(3)
    by (intro exI [of _ out] conjI ballI exI [of _ "?best _"])
       (auto simp: argmax_cells_def argmax_value_both argmax_value_strided Let_def split: if_splits)
qed

theorem argmax_top_k_witness:
  "\<exists>out. argmax_execute \<lparr>out_max_val = False, top_k = 2, has_axis = False, axis_index = 0\<rparr> [1, 3] [5, 9, 7] [0, 0] =
      Some (OK, out) \<and> length out = 2"
  using argmax_top_k [of "\<lparr>out_max_val = False, top_k = 2, has_axis = False, axis_index = 0\<rparr>" "[1, 3]" 3 1 1 "[5, 9, 7]" "[0, 0]"]
  by (auto simp: argmax_geometry_def count_dims_def argmax_size_def upt_rec)

end
