(* ===== verification/Detector.thy ===== *)
theory Detector
  imports LayerBase "HOL-Library.Sublist"
begin

text \<open>
  \<^verbatim>\<open>detector.cpp\<close> and \<^verbatim>\<open>detector.hpp\<close>: the batched detector. \<^verbatim>\<open>InsertImage\<close> copies one frame into the
  input blob of an inference request; when the batch is full it starts the request and, in the
  asynchronous mode, collects the detections of the batch before, pairing them with the queued
  descriptions of the frames.

  The inference engine and OpenCV are not part of the repository. The engine is the record
  \<open>engine\<close> of the operations the detector calls; \<open>engine_ok\<close> states what its documentation says of
  them: a started request can be waited for and its output blob is the network applied to the input
  blob it was started with, a request that was never started is not ready. \<^verbatim>\<open>cv::split\<close> writes each
  plane of an image into the matrix it is given when size and type match, and otherwise gives that
  matrix fresh storage. The code is built with \<^verbatim>\<open>INPUT_U8\<close>, so \<^verbatim>\<open>PreProcess\<close> is not called and
  \<^verbatim>\<open>CreateMean\<close> is empty.
\<close>

section \<open>Data\<close>

record det_img =
  cols :: int
  rows :: int
  planes :: "u8 list list"

record image_info =
  isize :: "int \<times> int"
  info_inputid :: int
  info_frameno :: int
  info_channelid :: int
  info_img :: det_img

record resultbox =
  classid :: int
  confidence :: f32
  left :: int
  right :: int
  top :: int
  bottom :: int

record det_result =
  boxs :: "resultbox list"
  res_img :: det_img
  imgsize :: "int \<times> int"
  res_inputid :: int
  res_frameno :: int
  res_channelid :: int

text \<open>A matrix that heads a plane of the input blob, or one with storage of its own.\<close>

datatype channel = InBlob nat int int | Detached

datatype insert_status = INSERTIMG_NULL | INSERTIMG_INSERTED | INSERTIMG_PROCESSED | INSERTIMG_GET

record 'req engine =
  start_async :: "'req \<Rightarrow> 'req"
  wait_ok :: "'req \<Rightarrow> bool"
  input_blob :: "'req \<Rightarrow> u8 list"
  set_input :: "u8 list \<Rightarrow> 'req \<Rightarrow> 'req"
  output_blob :: "'req \<Rightarrow> f32 list"

record 'req detector =
  input_channels :: "channel list"
  input_geometry :: "int \<times> int"
  imginfoque :: "image_info list"
  nbatch_index :: int
  num_channels :: int
  num_batch :: int
  maxProposalCount :: int
  objectSize :: int
  bisASync :: bool
  bLoad :: bool
  cpu_extensions :: bool
  infer_curr :: 'req
  infer_next :: 'req

section \<open>Loading a network\<close>

text \<open>What the engine answers while a network is loaded.\<close>

record 'req load_env =
  plugin_found :: "string \<Rightarrow> bool"
  network_readable :: "string \<Rightarrow> string \<Rightarrow> bool"
  set_batch :: "int \<Rightarrow> int"
  output_dims :: "nat list"
  network_loads :: bool
  fresh_curr :: 'req
  fresh_next :: 'req
  image_dims :: "nat list"

text \<open>The constructor: the queues are default-constructed, the other members keep what the storage holds.\<close>

definition detector_init :: "'req detector \<Rightarrow> 'req detector" where
  "detector_init D = D\<lparr>bLoad := False, imginfoque := [], input_channels := []\<rparr>"

text \<open>The result is the return code, or the message of the exception that leaves \<^verbatim>\<open>Load\<close>. Reading a
  dimension the tensor does not have is undefined.\<close>

definition detector_load ::
  "'req load_env \<Rightarrow> string \<Rightarrow> string \<Rightarrow> string \<Rightarrow> int \<Rightarrow> 'req detector \<Rightarrow> ((string + int) \<times> 'req detector) option" where
  "detector_load E device model_file weights_file bn D =
     (if bLoad D then Some (Inr 0, D)
      else if \<not> plugin_found E device then Some (Inr (- 1), D)
      else
        let D1 = (if sublist ''CPU'' device then D\<lparr>cpu_extensions := True\<rparr> else D) in
        if \<not> network_readable E model_file weights_file then Some (Inr (- 1), D1)
        else
          let D2 = D1\<lparr>num_batch := set_batch E bn\<rparr> in
          if length (output_dims E) < 4 then None
          else
            let D3 = D2\<lparr>maxProposalCount := int (output_dims E ! 2), objectSize := int (output_dims E ! 3)\<rparr> in
            if objectSize D3 \<noteq> 7 then Some (Inl ''  Output should have 7 as a last dimension'', D3)
            else if length (output_dims E) \<noteq> 4 then Some (Inl ''  Incorrect output dimensions for SSD'', D3)
            else if \<not> network_loads E then Some (Inr (- 1), D3)
            else
              let D4 = D3\<lparr>infer_curr := fresh_curr E, infer_next := fresh_next E\<rparr> in
              if length (image_dims E) < 3 then None
              else
                let D5 = D4\<lparr>num_channels := int (image_dims E ! 2)\<rparr> in
                if \<not> (num_channels D5 = 3 \<or> num_channels D5 = 1)
                then Some (Inl ''Input layer should have 1 or 3 channels'', D5)
                else Some (Inr 0, D5\<lparr>input_geometry := (int (image_dims E ! 0), int (image_dims E ! 1)),
                            nbatch_index := 0, bisASync := True, bLoad := True\<rparr>))"

section \<open>The input blob\<close>

definition WrapInputLayer :: "'req detector \<Rightarrow> 'req detector" where
  "WrapInputLayer D = (let (width, height) = input_geometry D in
     D\<lparr>input_channels := map (\<lambda>i. InBlob (nat (i * (width * height))) width height)
          [0..num_batch D * num_channels D - 1]\<rparr>)"

definition blit :: "nat \<Rightarrow> 'a list \<Rightarrow> 'a list \<Rightarrow> 'a list option" where
  "blit off xs buf = (if off + length xs \<le> length buf
     then Some (take off buf @ xs @ drop (off + length xs) buf) else None)"

text \<open>\<^verbatim>\<open>cv::split\<close> into the matrices from position \<open>k\<close> on.\<close>

fun cv_split :: "det_img \<Rightarrow> u8 list list \<Rightarrow> nat \<Rightarrow> channel list \<Rightarrow> u8 list \<Rightarrow> (channel list \<times> u8 list) option" where
  "cv_split img [] k chans blob = Some (chans, blob)"
| "cv_split img (p # ps) k chans blob =
     (if length chans \<le> k then None
      else case chans ! k of
        InBlob off w h \<Rightarrow>
          if w = cols img \<and> h = rows img then do {
            blob1 \<leftarrow> blit off p blob;
            cv_split img ps (Suc k) chans blob1 }
          else cv_split img ps (Suc k) (chans[k := Detached]) blob
      | Detached \<Rightarrow> cv_split img ps (Suc k) chans blob)"

section \<open>Collecting the detections\<close>

text \<open>The loop that takes the frame descriptions of one batch off the queue.\<close>

fun take_infos :: "nat \<Rightarrow> image_info list \<Rightarrow> string + (det_result list \<times> image_info list)" where
  "take_infos 0 q = Inr ([], q)"
| "take_infos (Suc n) q = (case q of
     [] \<Rightarrow> Inl ''InsertImage queue fail''
   | i # q' \<Rightarrow> (case take_infos n q' of
       Inl e \<Rightarrow> Inl e
     | Inr (rs, q'') \<Rightarrow> Inr (\<lparr>boxs = [], res_img = info_img i, imgsize = isize i, res_inputid = info_inputid i,
           res_frameno = info_frameno i, res_channelid = info_channelid i\<rparr> # rs, q'')))"

text \<open>One row of the output blob: 7 numbers, the image within the batch, the class, the confidence and
  the corners relative to the image size.\<close>

definition scaled_box :: "f32 list \<Rightarrow> int \<Rightarrow> int \<Rightarrow> resultbox option" where
  "scaled_box row w h = do {
     c \<leftarrow> f2i (row ! 1);
     l \<leftarrow> f2i (fmul (row ! 3) (i2f w));
     t \<leftarrow> f2i (fmul (row ! 4) (i2f h));
     r \<leftarrow> f2i (fmul (row ! 5) (i2f w));
     b \<leftarrow> f2i (fmul (row ! 6) (i2f h));
     Some \<lparr>classid = c, confidence = row ! 2,
           left = (if l < 0 then 0 else l), right = (if r \<ge> w then w - 1 else r),
           top = (if t < 0 then 0 else t), bottom = (if b \<ge> h then h - 1 else b)\<rparr> }"

text \<open>The loop over the proposals. It stops at the first row whose image number is out of range or whose
  confidence is zero; the flag is true when a box was stored. \<^verbatim>\<open>objects[imgid]\<close> beyond the vector and a
  row beyond the blob are undefined.\<close>

fun parse_rows ::
  "int \<Rightarrow> int \<Rightarrow> nat \<Rightarrow> f32 list \<Rightarrow> det_result list \<Rightarrow> bool \<Rightarrow> (det_result list \<times> bool) option" where
  "parse_rows nb osz 0 result objects got = Some (objects, got)"
| "parse_rows nb osz (Suc k) result objects got =
     (if length result < 7 \<or> int (length result) < osz then None
      else do {
        imgid \<leftarrow> f2i (result ! 0);
        if imgid < 0 \<or> result ! 2 = 0 \<or> imgid > nb then Some (objects, got)
        else if int (length objects) \<le> imgid then None
        else do {
          let ob = objects ! nat imgid;
          b \<leftarrow> scaled_box result (fst (imgsize ob)) (snd (imgsize ob));
          parse_rows nb osz k (drop (nat osz) result)
            (objects[nat imgid := ob\<lparr>boxs := boxs ob @ [b]\<rparr>]) True } })"

section \<open>Inserting a frame\<close>

definition image_info_of :: "det_img \<Rightarrow> int \<Rightarrow> int \<Rightarrow> int \<Rightarrow> image_info" where
  "image_info_of img inputid frameno channelid = \<lparr>isize = (cols img, rows img), info_inputid = inputid,
     info_frameno = frameno, info_channelid = channelid, info_img = img\<rparr>"

definition collect ::
  "'req engine \<Rightarrow> 'req detector \<Rightarrow> det_result list \<Rightarrow> ((string + (insert_status \<times> det_result list)) \<times> 'req detector) option" where
  "collect E D objects =
     (if wait_ok E (infer_curr D) then
        (case take_infos (nat (num_batch D)) (imginfoque D) of
           Inl e \<Rightarrow> Some (Inl e, D\<lparr>imginfoque := []\<rparr>)
         | Inr (objs, q) \<Rightarrow> do {
             (objs', got) \<leftarrow> parse_rows (num_batch D) (objectSize D) (nat (maxProposalCount D))
                (output_blob E (infer_curr D)) objs False;
             Some (Inr (if got then INSERTIMG_GET else INSERTIMG_PROCESSED, objs'), D\<lparr>imginfoque := q\<rparr>) })
      else Some (Inr (INSERTIMG_INSERTED, objects), D))"

text \<open>The frame goes into the queue and into its place of the input blob.\<close>

definition insert_frame :: "'req engine \<Rightarrow> det_img \<Rightarrow> image_info \<Rightarrow> 'req detector \<Rightarrow> 'req detector option" where
  "insert_frame E orgimg info D =
     (let D1 = (if nbatch_index D = 0 then WrapInputLayer D else D);
          target = (if bisASync D1 then infer_next D1 else infer_curr D1)
      in do {
        (chans, blob) \<leftarrow> cv_split orgimg (planes orgimg) (nat (num_channels D1 * nbatch_index D1))
           (input_channels D1) (input_blob E target);
        let t = set_input E blob target;
        Some (D1\<lparr>input_channels := chans, imginfoque := imginfoque D1 @ [info],
                 nbatch_index := nbatch_index D1 + 1,
                 infer_curr := (if bisASync D1 then infer_curr D1 else t),
                 infer_next := (if bisASync D1 then t else infer_next D1)\<rparr>) })"

text \<open>A full batch is started, results are collected, and the two requests change places.\<close>

definition start_batch :: "'req engine \<Rightarrow> 'req detector \<Rightarrow> 'req detector" where
  "start_batch E D =
     (if bisASync D then D\<lparr>nbatch_index := 0, infer_next := start_async E (infer_next D)\<rparr>
      else D\<lparr>nbatch_index := 0, infer_curr := start_async E (infer_curr D)\<rparr>)"

definition finish_batch ::
  "'req engine \<Rightarrow> det_result list \<Rightarrow> 'req detector \<Rightarrow> ((string + (insert_status \<times> det_result list)) \<times> 'req detector) option" where
  "finish_batch E objects D = do {
     (r, D1) \<leftarrow> collect E (start_batch E D) objects;
     case r of
       Inl e \<Rightarrow> Some (Inl e, D1)
     | Inr x \<Rightarrow> Some (Inr x, if bisASync D1
         then D1\<lparr>infer_curr := infer_next D1, infer_next := infer_curr D1\<rparr> else D1) }"

definition InsertImage ::
  "'req engine \<Rightarrow> det_img \<Rightarrow> det_result list \<Rightarrow> int \<Rightarrow> int \<Rightarrow> int \<Rightarrow> 'req detector \<Rightarrow>
     ((string + (insert_status \<times> det_result list)) \<times> 'req detector) option" where
  "InsertImage E orgimg objects inputid frameno channelid D =
     (if cols orgimg = 0 \<or> rows orgimg = 0 \<or> \<not> bLoad D then Some (Inr (INSERTIMG_NULL, objects), D)
      else do {
        D1 \<leftarrow> insert_frame E orgimg (image_info_of orgimg inputid frameno channelid) D;
        if nbatch_index D1 \<ge> num_batch D1 then finish_batch E objects D1
        else Some (Inr (INSERTIMG_INSERTED, objects), D1) })"

definition SetMode :: "bool \<Rightarrow> 'req detector \<Rightarrow> 'req detector" where
  "SetMode isSync D = D\<lparr>imginfoque := [], nbatch_index := 0, bisASync := isSync\<rparr>"

section \<open>Boxes\<close>

definition box_in :: "int \<times> int \<Rightarrow> resultbox \<Rightarrow> bool" where
  "box_in sz b \<longleftrightarrow> 0 \<le> left b \<and> 0 \<le> top b \<and> right b < fst sz \<and> bottom b < snd sz"

lemma scaled_box_in: "scaled_box row w h = Some b \<Longrightarrow> box_in (w, h) b"
  by (auto simp: scaled_box_def box_in_def split: Option.bind_splits)

text \<open>Every box stems from a row of the blob, so what holds of all rows holds of the boxes.\<close>

lemma parse_rows_boxes:
  assumes "parse_rows nb osz k result objects got = Some (objects', got')"
    and "\<forall>ob \<in> set objects. \<forall>b \<in> set (boxs ob). Q (imgsize ob) b"
    and "\<And>j sz b. j < k \<Longrightarrow> scaled_box (drop (j * nat osz) result) (fst sz) (snd sz) = Some b \<Longrightarrow> Q sz b"
  shows "map imgsize objects' = map imgsize objects \<and> (\<forall>ob \<in> set objects'. \<forall>b \<in> set (boxs ob). Q (imgsize ob) b)"
  using assms
proof (induction nb osz k result objects got arbitrary: objects' got' rule: parse_rows.induct)
  case (2 nb osz k result objects got)
  from "2.prems"(1) obtain imgid where id: "f2i (result ! 0) = Some imgid"
    by (auto split: if_splits Option.bind_splits)
  let ?ob = "objects ! nat imgid"
  show ?case
  proof (cases "imgid < 0 \<or> result ! 2 = 0 \<or> imgid > nb")
    case True
    with "2.prems" id show ?thesis by (auto split: if_splits)
  next
    case False
    with "2.prems"(1) id obtain b where len: "\<not> (length result < 7 \<or> int (length result) < osz)"
      and i: "\<not> int (length objects) \<le> imgid"
      and b: "scaled_box result (fst (imgsize ?ob)) (snd (imgsize ?ob)) = Some b"
      and r: "parse_rows nb osz k (drop (nat osz) result)
            (objects[nat imgid := ?ob\<lparr>boxs := boxs ?ob @ [b]\<rparr>]) True = Some (objects', got')"
      by (auto simp: Let_def split: if_splits Option.bind_splits)
    have lt: "nat imgid < length objects" using i False by linarith
    let ?objs = "objects[nat imgid := ?ob\<lparr>boxs := boxs ?ob @ [b]\<rparr>]"
    have "Q (imgsize ?ob) b" using "2.prems"(3) [of 0] b by simp
    then have "\<forall>ob \<in> set ?objs. \<forall>b \<in> set (boxs ob). Q (imgsize ob) b"
      using "2.prems"(2) lt set_update_subset_insert [of objects "nat imgid"] by fastforce
    moreover have "map imgsize ?objs = map imgsize objects"
      using lt by (metis (no_types, lifting) list_update_id map_update det_result.select_convs(3) det_result.surjective det_result.update_convs(1))
    moreover have "Q sz c" if "j < k" "scaled_box (drop (j * nat osz) (drop (nat osz) result)) (fst sz) (snd sz) = Some c" for j sz c
      using "2.prems"(3) [of "Suc j" sz c] that by (simp add: add.commute)
    ultimately show ?thesis using "2.IH" [OF len id False i refl b r] by simp
  qed
qed simp

lemma take_infos_blank:
  "take_infos n q = Inr (rs, q') \<Longrightarrow> length rs = n \<and> (\<forall>r \<in> set rs. boxs r = [])"
  by (induction n q arbitrary: rs q' rule: take_infos.induct) (auto split: list.splits sum.splits)

lemma collect_processed:
  assumes "collect E D objects = Some (Inr (status, objs), D')"
    and "status = INSERTIMG_GET \<or> status = INSERTIMG_PROCESSED"
  shows "\<exists>os q got. take_infos (nat (num_batch D)) (imginfoque D) = Inr (os, q) \<and>
    parse_rows (num_batch D) (objectSize D) (nat (maxProposalCount D)) (output_blob E (infer_curr D)) os False = Some (objs, got) \<and>
    D' = D\<lparr>imginfoque := q\<rparr>"
proof (cases "wait_ok E (infer_curr D)")
  case True
  show ?thesis
  proof (cases "take_infos (nat (num_batch D)) (imginfoque D)")
    case (Inr x)
    with assms(1) True show ?thesis by (cases x) (auto simp: collect_def split: Option.bind_splits if_splits)
  qed (use assms True in \<open>simp add: collect_def\<close>)
qed (use assms in \<open>auto simp: collect_def\<close>)

text \<open>The request whose answers \<^verbatim>\<open>InsertImage\<close> reported: the two requests have changed places since in the asynchronous mode.\<close>

definition processed_request :: "'req detector \<Rightarrow> 'req" where
  "processed_request D = (if bisASync D then infer_next D else infer_curr D)"

lemma finish_processed:
  assumes "finish_batch E objects D = Some (Inr (status, objs), D')"
    and "status = INSERTIMG_GET \<or> status = INSERTIMG_PROCESSED"
  shows "\<exists>os q got. take_infos (nat (num_batch D')) q = Inr (os, imginfoque D') \<and>
    parse_rows (num_batch D') (objectSize D') (nat (maxProposalCount D')) (output_blob E (processed_request D')) os False = Some (objs, got)"
proof -
  let ?S = "start_batch E D"
  obtain D2 where col: "collect E ?S objects = Some (Inr (status, objs), D2)"
    and D': "D' = (if bisASync D2 then D2\<lparr>infer_curr := infer_next D2, infer_next := infer_curr D2\<rparr> else D2)"
    using assms(1) by (auto simp: finish_batch_def split: Option.bind_splits sum.splits if_splits)
  obtain os q got where t: "take_infos (nat (num_batch ?S)) (imginfoque ?S) = Inr (os, q)"
    and p: "parse_rows (num_batch ?S) (objectSize ?S) (nat (maxProposalCount ?S)) (output_blob E (infer_curr ?S)) os False = Some (objs, got)"
    and D2: "D2 = ?S\<lparr>imginfoque := q\<rparr>"
    using collect_processed [OF col assms(2)] by blast
  have "processed_request D' = infer_curr ?S" "num_batch D' = num_batch ?S" "objectSize D' = objectSize ?S"
    "maxProposalCount D' = maxProposalCount ?S" "imginfoque D' = q" by (simp_all add: D' D2 processed_request_def)
  then show ?thesis using t p by metis
qed

text \<open>A row whose corners are in order and whose box touches the image, in one direction: the relative positions of the two
  edges, and the size of the image.\<close>

definition edges_ok :: "f32 \<Rightarrow> f32 \<Rightarrow> int \<Rightarrow> bool" where
  "edges_ok x0 x1 n \<longleftrightarrow> 1 \<le> n \<and> n < 2 ^ 24 \<and> x0 \<le> x1 \<and> 0 \<le> x1 \<and> x0 * of_int n \<le> of_int (n - 1)"

lemma f2i_mono: "f2i x = Some i \<Longrightarrow> f2i y = Some j \<Longrightarrow> x \<le> y \<Longrightarrow> i \<le> j"
  by (auto simp: f2i_def split: if_splits intro: ctrunc_mono)

lemma edges_clamped:
  assumes "edges_ok x0 x1 n" "f2i (fmul x0 (i2f n)) = Some i" "f2i (fmul x1 (i2f n)) = Some j"
  shows "(if i < 0 then 0 else i) \<le> (if j \<ge> n then n - 1 else j)"
proof -
  have n: "1 \<le> n" "i2f n = of_int n" using assms(1) by (simp_all add: edges_ok_def i2f_exact)
  have e: "x0 \<le> x1" "0 \<le> x1" "x0 * of_int n \<le> of_int (n - 1)" using assms(1) by (simp_all only: edges_ok_def)
  have "fmul x0 (i2f n) \<le> fmul x1 (i2f n)" unfolding n(2) fmul_def using e n(1) by (intro rnd_mono mult_right_mono) simp_all
  then have "i \<le> j" using f2i_mono assms(2,3) by blast
  moreover have "fmul 0 (i2f n) \<le> fmul x1 (i2f n)" unfolding n(2) fmul_def using e n(1) by (intro rnd_mono mult_right_mono) simp_all
  moreover have "f2i (fmul 0 (i2f n)) = Some 0" by (simp add: f2i_def fmul_def ctrunc_def int_ok_def)
  ultimately have "0 \<le> j" using f2i_mono assms(3) by blast
  have "rnd 24 (of_int (n - 1)) = of_int (n - 1)" using assms(1) by (intro rnd_of_int) (simp add: edges_ok_def)
  then have "fmul x0 (i2f n) \<le> of_int (n - 1)" unfolding n(2) fmul_def using rnd_mono [OF e(3), of 24] by simp
  moreover have "f2i (of_int (n - 1)) = Some (n - 1)" unfolding f2i_def ctrunc_of_int using assms(1) by (simp add: int_ok_def edges_ok_def)
  ultimately have "i \<le> n - 1" using f2i_mono assms(2) by blast
  then show ?thesis using \<open>i \<le> j\<close> \<open>0 \<le> j\<close> n(1) by simp
qed

lemma scaled_box_inside:
  assumes "scaled_box row w h = Some b"
  shows "edges_ok (row ! 3) (row ! 5) w \<Longrightarrow> left b \<le> right b" "edges_ok (row ! 4) (row ! 6) h \<Longrightarrow> top b \<le> bottom b"
  using assms by (auto simp only: scaled_box_def Option.bind_eq_Some_conv option.inject resultbox.simps intro: edges_clamped)

section \<open>Filling the blob\<close>

lemma blit_eq: "off + length xs \<le> length buf \<Longrightarrow> blit off xs buf = Some (take off buf @ xs @ drop (off + length xs) buf)"
  by (simp add: blit_def)

definition heads :: "nat \<Rightarrow> int \<Rightarrow> int \<Rightarrow> channel list" where
  "heads m w h = map (\<lambda>i. InBlob (i * nat (w * h)) w h) [0..<m]"

lemma WrapInputLayer_heads:
  assumes "input_geometry D = (w, h)" and "0 \<le> w * h"
  shows "WrapInputLayer D = D\<lparr>input_channels := heads (nat (num_batch D * num_channels D)) w h\<rparr>"
proof -
  have "[0..num_batch D * num_channels D - 1] = map int [0..<nat (num_batch D * num_channels D)]"
    by (rule nth_equalityI) (auto simp: nth_upto)
  moreover have "nat (int i * (w * h)) = i * nat (w * h)" for i
    using assms(2) by (simp add: nat_mult_distrib)
  ultimately show ?thesis using assms(1) by (simp add: WrapInputLayer_def heads_def comp_def)
qed

lemma cv_split_heads:
  assumes "\<forall>p \<in> set ps. length p = nat (w * h)" and "k + length ps \<le> m" and "length blob = m * nat (w * h)"
    and "cols img = w" "rows img = h"
  shows "cv_split img ps k (heads m w h) blob = Some (heads m w h,
    take (k * nat (w * h)) blob @ concat ps @ drop ((k + length ps) * nat (w * h)) blob)"
  using assms
proof (induction ps arbitrary: k blob)
  case (Cons p ps)
  let ?n = "nat (w * h)"
  have k: "heads m w h ! k = InBlob (k * ?n) w h" "\<not> length (heads m w h) \<le> k"
    using Cons.prems(2) by (simp_all add: heads_def)
  have fit: "k * ?n + length p \<le> length blob"
  proof -
    have "k * ?n + ?n = Suc k * ?n" by simp
    also have "\<dots> \<le> m * ?n" using Cons.prems(2) by (intro mult_le_mono1) simp
    finally show ?thesis using Cons.prems(1,3) by simp
  qed
  let ?b = "take (k * ?n) blob @ p @ drop (k * ?n + length p) blob"
  have len: "length ?b = m * ?n" using fit Cons.prems(3) by (simp add: min_def)
  have p: "length p = ?n" using Cons.prems(1) by simp
  have t: "take (Suc k * ?n) ?b = take (k * ?n) blob @ p" using fit p by simp
  have d: "drop ((Suc k + length ps) * ?n) ?b = drop ((k + length (p # ps)) * ?n) blob"
  proof -
    have e: "(Suc k + length ps) * ?n = length ps * ?n + Suc k * ?n" "k + length (p # ps) = Suc k + length ps"
      by (simp_all add: algebra_simps)
    have "drop (Suc k * ?n) ?b = drop (Suc k * ?n) blob" using fit p by (simp add: algebra_simps)
    then show ?thesis unfolding e by (metis drop_drop)
  qed
  have "cv_split img ps (Suc k) (heads m w h) ?b = Some (heads m w h,
      take (Suc k * ?n) ?b @ concat ps @ drop ((Suc k + length ps) * ?n) ?b)"
    using Cons.prems len by (intro Cons.IH) simp_all
  then show ?case unfolding t d using k Cons.prems(4,5) blit_eq [OF fit] by simp
qed (simp add: heads_def)

section \<open>What the detector promises\<close>

text \<open>A frame is an image with the numbers that identify it. A request answers with the network applied
  to the planes of a whole batch.\<close>

type_synonym frame = "det_img \<times> int \<times> int \<times> int"

definition frame_info :: "frame \<Rightarrow> image_info" where
  "frame_info f = (case f of (img, inputid, frameno, channelid) \<Rightarrow> image_info_of img inputid frameno channelid)"

definition blank_result :: "image_info \<Rightarrow> det_result" where
  "blank_result i = \<lparr>boxs = [], res_img = info_img i, imgsize = isize i, res_inputid = info_inputid i,
     res_frameno = info_frameno i, res_channelid = info_channelid i\<rparr>"

definition batch_blob :: "frame list \<Rightarrow> u8 list" where
  "batch_blob fs = concat (concat (map (\<lambda>f. planes (fst f)) fs))"

definition engine_ok :: "'req engine \<Rightarrow> (u8 list \<Rightarrow> f32 list) \<Rightarrow> bool" where
  "engine_ok E net \<longleftrightarrow>
     (\<forall>r b. input_blob E (set_input E b r) = b \<and> wait_ok E (set_input E b r) = wait_ok E r \<and>
        output_blob E (set_input E b r) = output_blob E r) \<and>
     (\<forall>r. wait_ok E (start_async E r) \<and> output_blob E (start_async E r) = net (input_blob E r) \<and>
        input_blob E (start_async E r) = input_blob E r)"

record det_params =
  p_batch :: nat
  p_channels :: nat
  p_width :: int
  p_height :: int
  p_proposals :: nat
  p_size :: int
  p_async :: bool

definition fits :: "det_params \<Rightarrow> frame \<Rightarrow> bool" where
  "fits P f \<longleftrightarrow> cols (fst f) = p_width P \<and> rows (fst f) = p_height P \<and> length (planes (fst f)) = p_channels P \<and>
     (\<forall>p \<in> set (planes (fst f)). length p = nat (p_width P * p_height P))"

definition nth_batch :: "nat \<Rightarrow> nat \<Rightarrow> frame list \<Rightarrow> frame list" where
  "nth_batch B b fs = take B (drop (b * B) fs)"

text \<open>The specification: the state is the history of the frames inserted so far. A call that completes a
  batch reports the detections of that batch, or, in the asynchronous mode, of the batch before it,
  each with the description of the frame it belongs to.\<close>

definition lag :: "det_params \<Rightarrow> nat" where "lag P = (if p_async P then 2 else 1)"

definition det_spec ::
  "(u8 list \<Rightarrow> f32 list) \<Rightarrow> det_params \<Rightarrow> frame \<Rightarrow> frame list \<Rightarrow>
     ((string + (insert_status \<times> det_result list)) \<times> frame list) option" where
  "det_spec net P f hist =
     (if \<not> fits P f then None
      else let hist' = hist @ [f]; done = length hist' div p_batch P in
        if length hist' mod p_batch P \<noteq> 0 \<or> done < lag P then Some (Inr (INSERTIMG_INSERTED, []), hist')
        else let batch = nth_batch (p_batch P) (done - lag P) hist' in do {
          (objs, got) \<leftarrow> parse_rows (int (p_batch P)) (p_size P) (p_proposals P) (net (batch_blob batch))
             (map (blank_result \<circ> frame_info) batch) False;
          Some (Inr (if got then INSERTIMG_GET else INSERTIMG_PROCESSED, objs), hist') })"

definition det_exec :: "'req engine \<Rightarrow> frame \<Rightarrow> 'req detector \<Rightarrow>
     ((string + (insert_status \<times> det_result list)) \<times> 'req detector) option" where
  "det_exec E f D = (case f of (img, inputid, frameno, channelid) \<Rightarrow> InsertImage E img [] inputid frameno channelid D)"

text \<open>The relation between the detector and its history.\<close>

definition det_rel :: "'req engine \<Rightarrow> (u8 list \<Rightarrow> f32 list) \<Rightarrow> det_params \<Rightarrow> 'req detector \<Rightarrow> frame list \<Rightarrow> bool" where
  "det_rel E net P D hist \<longleftrightarrow>
     (let B = p_batch P; n = nat (p_width P * p_height P); q = length hist div B; r = length hist mod B;
          fill = (if p_async P then infer_next D else infer_curr D) in
      engine_ok E net \<and> bLoad D \<and> bisASync D = p_async P \<and> 0 < B \<and> num_batch D = int B \<and>
      num_channels D = int (p_channels P) \<and> input_geometry D = (p_width P, p_height P) \<and>
      0 < p_width P \<and> 0 < p_height P \<and>
      maxProposalCount D = int (p_proposals P) \<and> objectSize D = p_size P \<and>
      length (input_blob E (infer_curr D)) = B * p_channels P * n \<and>
      length (input_blob E (infer_next D)) = B * p_channels P * n \<and>
      list_all (fits P) hist \<and> nbatch_index D = int r \<and>
      imginfoque D = map frame_info (drop ((q - (lag P - 1)) * B) hist) \<and>
      (p_async P \<longrightarrow> (if q = 0 then \<not> wait_ok E (infer_curr D)
         else wait_ok E (infer_curr D) \<and> output_blob E (infer_curr D) = net (batch_blob (nth_batch B (q - 1) hist)))) \<and>
      (r \<noteq> 0 \<longrightarrow> input_channels D = heads (B * p_channels P) (p_width P) (p_height P)) \<and>
      take (r * p_channels P * n) (input_blob E fill) = batch_blob (drop (q * B) hist))"

lemma length_batch_blob:
  "list_all (fits P) fs \<Longrightarrow> length (batch_blob fs) = length fs * p_channels P * nat (p_width P * p_height P)"
proof (induction fs)
  case (Cons f fs)
  then have "length (concat (planes (fst f))) = p_channels P * nat (p_width P * p_height P)"
    by (auto simp: fits_def length_concat sum_list_triv cong: map_cong)
  with Cons show ?case by (simp add: batch_blob_def add_mult_distrib)
qed (simp add: batch_blob_def)

section \<open>One insertion\<close>

lemma take_infos_eq:
  "n \<le> length q \<Longrightarrow> take_infos n q = Inr (map blank_result (take n q), drop n q)"
  by (induction n q rule: take_infos.induct) (auto simp: blank_result_def split: list.splits)

lemma nth_batch_append: "(b + 1) * B \<le> length fs \<Longrightarrow> nth_batch B b (fs @ gs) = nth_batch B b fs"
  by (simp add: nth_batch_def)

text \<open>Division of the history length by the batch size, after one more frame.\<close>

lemma div_mod_Suc:
  fixes l B :: nat
  assumes "0 < B"
  shows "Suc (l mod B) < B \<Longrightarrow> Suc l div B = l div B \<and> Suc l mod B = Suc (l mod B)"
    and "Suc (l mod B) = B \<Longrightarrow> Suc l div B = Suc (l div B) \<and> Suc l mod B = 0"
  using assms by (auto simp: div_Suc mod_Suc)

text \<open>The state after the frame is in the blob and in the queue, before the batch is started.\<close>

definition filled :: "'req engine \<Rightarrow> frame \<Rightarrow> 'req detector \<Rightarrow> 'req detector" where
  "filled E f D =
     (let B = nat (num_batch D); nch = nat (num_channels D); (w, h) = input_geometry D; n = nat (w * h);
          target = (if bisASync D then infer_next D else infer_curr D); r = nat (nbatch_index D);
          blob = input_blob E target;
          t = set_input E (take (nch * r * n) blob @ concat (planes (fst f)) @ drop ((nch * r + nch) * n) blob) target
      in D\<lparr>input_channels := heads (B * nch) w h, imginfoque := imginfoque D @ [frame_info f],
           nbatch_index := nbatch_index D + 1,
           infer_next := (if bisASync D then t else infer_next D),
           infer_curr := (if bisASync D then infer_curr D else t)\<rparr>)"

lemma insert_frame_filled:
  assumes rel: "det_rel E net P D hist" and f: "fits P f"
  shows "insert_frame E (fst f) (frame_info f) D = Some (filled E f D)"
proof -
  let ?B = "p_batch P" and ?w = "p_width P" and ?h = "p_height P" and ?r = "length hist mod p_batch P"
  let ?n = "nat (p_width P * p_height P)" and ?c = "p_channels P"
  have p: "0 < ?B" "0 < ?w" "0 < ?h" "num_channels D = int ?c" "nbatch_index D = int ?r" "num_batch D = int ?B"
    "input_geometry D = (?w, ?h)" "length (input_blob E (infer_curr D)) = ?B * ?c * ?n"
    "length (input_blob E (infer_next D)) = ?B * ?c * ?n" "?r \<noteq> 0 \<Longrightarrow> input_channels D = heads (?B * ?c) ?w ?h"
    using rel by (simp_all add: det_rel_def Let_def)
  have wh0: "0 \<le> ?w * ?h" using p by simp
  have D1: "(if nbatch_index D = 0 then WrapInputLayer D else D) = D\<lparr>input_channels := heads (?B * ?c) ?w ?h\<rparr>"
    using p WrapInputLayer_heads [OF p(7) wh0] by (auto simp flip: of_nat_mult)
  have k: "?c * ?r + length (planes (fst f)) \<le> ?B * ?c"
  proof -
    have "?c * ?r + ?c = ?c * Suc ?r" by simp
    also have "\<dots> \<le> ?c * ?B" using p(1) by (intro mult_le_mono2) (simp add: Suc_le_eq)
    finally show ?thesis using f by (simp add: fits_def mult.commute)
  qed
  have split: "cv_split (fst f) (planes (fst f)) (?c * ?r) (heads (?B * ?c) ?w ?h) blob = Some (heads (?B * ?c) ?w ?h,
      take (?c * ?r * ?n) blob @ concat (planes (fst f)) @ drop ((?c * ?r + ?c) * ?n) blob)"
    if "length blob = ?B * ?c * ?n" for blob
    using cv_split_heads [of "planes (fst f)" ?w ?h "?c * ?r" "?B * ?c" blob "fst f"] k that f by (simp add: fits_def)
  have idx: "nat (int ?c * int ?r) = ?c * ?r" by (simp flip: of_nat_mult)
  show ?thesis
    unfolding insert_frame_def D1 filled_def Let_def
    by (cases "bisASync D") (simp_all add: p split idx)
qed

text \<open>The request that takes the frames.\<close>

definition target :: "'req detector \<Rightarrow> 'req" where
  "target D = (if bisASync D then infer_next D else infer_curr D)"

lemma filled_facts:
  fixes P :: det_params
  defines "n \<equiv> nat (p_width P * p_height P)"
  assumes rel: "det_rel E net P D hist" and f: "fits P f"
  shows "bLoad (filled E f D)" "bisASync (filled E f D) = p_async P" "num_batch (filled E f D) = int (p_batch P)"
    "num_channels (filled E f D) = int (p_channels P)" "input_geometry (filled E f D) = (p_width P, p_height P)"
    "maxProposalCount (filled E f D) = int (p_proposals P)" "objectSize (filled E f D) = p_size P"
    "nbatch_index (filled E f D) = int (Suc (length hist mod p_batch P))"
    "input_channels (filled E f D) = heads (p_batch P * p_channels P) (p_width P) (p_height P)"
    "imginfoque (filled E f D) =
       map frame_info (drop ((length hist div p_batch P - (lag P - 1)) * p_batch P) (hist @ [f]))"
    "length (input_blob E (infer_curr (filled E f D))) = p_batch P * p_channels P * n"
    "length (input_blob E (infer_next (filled E f D))) = p_batch P * p_channels P * n"
    "take (Suc (length hist mod p_batch P) * p_channels P * n) (input_blob E (target (filled E f D))) =
       batch_blob (drop (length hist div p_batch P * p_batch P) (hist @ [f]))"
    "p_async P \<Longrightarrow> infer_curr (filled E f D) = infer_curr D"
proof -
  let ?B = "p_batch P" and ?c = "p_channels P" and ?r = "length hist mod p_batch P" and ?q = "length hist div p_batch P"
  have p: "engine_ok E net" "bLoad D" "bisASync D = p_async P" "0 < ?B" "num_channels D = int ?c" "nbatch_index D = int ?r"
    "num_batch D = int ?B" "input_geometry D = (p_width P, p_height P)"
    "length (input_blob E (infer_curr D)) = ?B * ?c * n" "length (input_blob E (infer_next D)) = ?B * ?c * n"
    "maxProposalCount D = int (p_proposals P)" "objectSize D = p_size P"
    "imginfoque D = map frame_info (drop ((?q - (lag P - 1)) * ?B) hist)"
    "take (?r * ?c * n) (input_blob E (target D)) = batch_blob (drop (?q * ?B) hist)"
    using rel by (simp_all add: det_rel_def Let_def n_def target_def)
  have set_input: "input_blob E (set_input E b r) = b" for b r using p(1) by (simp add: engine_ok_def)
  have le: "?q * ?B \<le> length hist" by (simp add: div_times_less_eq_dividend)
  have "(?q - (lag P - 1)) * ?B \<le> ?q * ?B" by (intro mult_le_mono1) simp
  with le have le2: "(?q - (lag P - 1)) * ?B \<le> length hist" by linarith
  have plane: "length (concat (planes (fst f))) = ?c * n"
    using length_batch_blob [of P "[f]"] f by (simp add: batch_blob_def n_def)
  let ?blob = "input_blob E (target D)"
  let ?new = "take (?c * ?r * n) ?blob @ concat (planes (fst f)) @ drop ((?c * ?r + ?c) * n) ?blob"
  have fit: "(?c * ?r + ?c) * n \<le> length ?blob" and len: "length ?blob = ?B * ?c * n"
  proof -
    show len: "length ?blob = ?B * ?c * n" using p(9,10) by (simp add: target_def)
    have "(?c * ?r + ?c) * n = Suc ?r * (?c * n)" by (simp add: algebra_simps)
    also have "\<dots> \<le> ?B * (?c * n)" using p(4) by (intro mult_le_mono1) (simp add: Suc_le_eq)
    finally show "(?c * ?r + ?c) * n \<le> length ?blob" using len by (simp add: mult.assoc)
  qed
  have new_len: "length ?new = ?B * ?c * n"
    using fit plane by (simp add: len algebra_simps)
  have t: "target (filled E f D) = set_input E ?new (target D)"
    using p by (auto simp: target_def filled_def Let_def n_def)
  have others: "\<not> bisASync D \<Longrightarrow> infer_next (filled E f D) = infer_next D" "bisASync D \<Longrightarrow> infer_curr (filled E f D) = infer_curr D"
    "bisASync (filled E f D) = bisASync D"
    using p by (simp_all add: filled_def Let_def)
  show "bLoad (filled E f D)" "bisASync (filled E f D) = p_async P" "num_batch (filled E f D) = int (p_batch P)"
    "num_channels (filled E f D) = int (p_channels P)" "input_geometry (filled E f D) = (p_width P, p_height P)"
    "maxProposalCount (filled E f D) = int (p_proposals P)" "objectSize (filled E f D) = p_size P"
    "nbatch_index (filled E f D) = int (Suc ?r)"
    "input_channels (filled E f D) = heads (?B * ?c) (p_width P) (p_height P)"
    "p_async P \<Longrightarrow> infer_curr (filled E f D) = infer_curr D"
    using p by (simp_all add: filled_def Let_def)
  show "imginfoque (filled E f D) = map frame_info (drop ((?q - (lag P - 1)) * ?B) (hist @ [f]))"
    using p le2 by (simp add: filled_def Let_def)
  show "length (input_blob E (infer_curr (filled E f D))) = ?B * ?c * n"
    "length (input_blob E (infer_next (filled E f D))) = ?B * ?c * n"
    using t others p(9,10) new_len set_input unfolding target_def by (auto split: if_splits)
  have "take (Suc ?r * ?c * n) ?new = take (?c * ?r * n) ?blob @ concat (planes (fst f))"
    using fit plane by (simp add: algebra_simps)
  also have "\<dots> = batch_blob (drop (?q * ?B) hist) @ batch_blob [f]"
    using p(14) by (simp add: batch_blob_def mult_ac)
  also have "\<dots> = batch_blob (drop (?q * ?B) (hist @ [f]))" using le by (simp add: batch_blob_def)
  finally show "take (Suc ?r * ?c * n) (input_blob E (target (filled E f D))) = batch_blob (drop (?q * ?B) (hist @ [f]))"
    unfolding t set_input .
qed

lemma filled_rel:
  assumes rel: "det_rel E net P D hist" and f: "fits P f" and r: "Suc (length hist mod p_batch P) < p_batch P"
  shows "det_rel E net P (filled E f D) (hist @ [f])"
proof -
  have B: "0 < p_batch P" using r by simp
  note dm = div_mod_Suc(1) [OF B r]
  have q: "length hist div p_batch P \<noteq> 0 \<Longrightarrow>
      nth_batch (p_batch P) (length hist div p_batch P - 1) (hist @ [f]) = nth_batch (p_batch P) (length hist div p_batch P - 1) hist"
    by (intro nth_batch_append) (simp add: div_times_less_eq_dividend)
  show ?thesis
    using rel f filled_facts [OF rel f] dm q
    unfolding det_rel_def Let_def by (simp add: target_def cong: if_cong)
qed

lemma finish_batch_wait:
  "wait_ok E (infer_curr (start_batch E D)) \<Longrightarrow>
   take_infos (nat (num_batch D)) (imginfoque D) = Inr (objs, q) \<Longrightarrow>
   parse_rows (num_batch D) (objectSize D) (nat (maxProposalCount D)) (output_blob E (infer_curr (start_batch E D))) objs False =
     Some (objs', got) \<Longrightarrow>
   finish_batch E objects D = Some (Inr (if got then INSERTIMG_GET else INSERTIMG_PROCESSED, objs'),
     if bisASync D then D\<lparr>imginfoque := q, nbatch_index := 0, infer_curr := start_async E (infer_next D), infer_next := infer_curr D\<rparr>
     else D\<lparr>imginfoque := q, nbatch_index := 0, infer_curr := start_async E (infer_curr D)\<rparr>)"
  by (cases "bisASync D"; cases got) (simp_all add: finish_batch_def collect_def start_batch_def)

lemma finish_batch_not_ready:
  "bisASync D \<Longrightarrow> \<not> wait_ok E (infer_curr D) \<Longrightarrow>
   finish_batch E objects D = Some (Inr (INSERTIMG_INSERTED, objects),
     D\<lparr>nbatch_index := 0, infer_curr := start_async E (infer_next D), infer_next := infer_curr D\<rparr>)"
  by (simp add: finish_batch_def collect_def start_batch_def)

text \<open>A full batch: what the started request will answer, and the frames at the head of the queue.\<close>

lemma full_batch:
  assumes rel: "det_rel E net P D hist" and f: "fits P f" and r: "Suc (length hist mod p_batch P) = p_batch P"
  shows "wait_ok E (start_async E (target (filled E f D)))"
    "output_blob E (start_async E (target (filled E f D))) =
       net (batch_blob (nth_batch (p_batch P) (length hist div p_batch P) (hist @ [f])))"
    "length (hist @ [f]) = Suc (length hist div p_batch P) * p_batch P"
    "lag P \<le> Suc (length hist div p_batch P) \<Longrightarrow>
       take_infos (p_batch P) (imginfoque (filled E f D)) =
         Inr (map (blank_result \<circ> frame_info) (nth_batch (p_batch P) (Suc (length hist div p_batch P) - lag P) (hist @ [f])),
              map frame_info (drop ((Suc (length hist div p_batch P) - (lag P - 1)) * p_batch P) (hist @ [f])))"
proof -
  let ?B = "p_batch P" and ?q = "length hist div p_batch P" and ?n = "nat (p_width P * p_height P)"
  have eng: "engine_ok E net" using rel by (simp add: det_rel_def Let_def)
  have "length hist = ?q * ?B + length hist mod ?B" by simp
  with r have "Suc (length hist) = ?q * ?B + ?B" by linarith
  then show l: "length (hist @ [f]) = Suc ?q * ?B" by simp
  note ff = filled_facts [OF rel f]
  have "length (input_blob E (target (filled E f D))) = ?B * p_channels P * ?n" using ff(11,12) by (simp add: target_def)
  then have "input_blob E (target (filled E f D)) = batch_blob (drop (?q * ?B) (hist @ [f]))"
    using ff(13) r by simp
  moreover have "drop (?q * ?B) (hist @ [f]) = nth_batch ?B ?q (hist @ [f])" using l by (simp add: nth_batch_def)
  ultimately show "output_blob E (start_async E (target (filled E f D))) = net (batch_blob (nth_batch ?B ?q (hist @ [f])))"
    and "wait_ok E (start_async E (target (filled E f D)))"
    using eng by (simp_all add: engine_ok_def)
  assume lag: "lag P \<le> Suc ?q"
  have lag0: "0 < lag P" by (simp add: lag_def)
  let ?k = "Suc ?q - lag P"
  have k: "?q - (lag P - 1) = ?k" "Suc ?q - (lag P - 1) = Suc ?k" using lag lag0 by simp_all
  have len: "?B \<le> length (drop (?k * ?B) (hist @ [f]))"
  proof -
    have "Suc ?k * ?B \<le> Suc ?q * ?B" using lag0 by (intro mult_le_mono1) simp
    then have "?B + ?k * ?B \<le> length (hist @ [f])" unfolding l by simp
    then show ?thesis unfolding length_drop by linarith
  qed
  show "take_infos ?B (imginfoque (filled E f D)) =
         Inr (map (blank_result \<circ> frame_info) (nth_batch ?B ?k (hist @ [f])),
              map frame_info (drop ((Suc ?q - (lag P - 1)) * ?B) (hist @ [f])))"
    using take_infos_eq [of ?B "imginfoque (filled E f D)"] len unfolding ff(10) k
    by (simp add: nth_batch_def take_map drop_map drop_drop add.commute del: length_append drop_append)
qed

lemma det_step:
  assumes rel: "det_rel E net P D hist" and spec: "det_spec net P f hist = Some (res, hist')"
  shows "\<exists>D'. det_exec E f D = Some (res, D') \<and> det_rel E net P D' hist'"
proof -
  let ?B = "p_batch P" and ?q = "length hist div p_batch P" and ?F = "filled E f D"
  from spec have f: "fits P f" and hist': "hist' = hist @ [f]"
    by (auto simp: det_spec_def Let_def split: if_splits Option.bind_splits)
  have p: "0 < ?B" "bLoad D" "0 < p_width P" "0 < p_height P" using rel by (simp_all add: det_rel_def Let_def)
  have info: "frame_info f = image_info_of (fst f) (fst (snd f)) (fst (snd (snd f))) (snd (snd (snd f)))"
    by (cases f) (simp add: frame_info_def)
  note ff = filled_facts [OF rel f]
  have exec: "det_exec E f D = (if Suc (length hist mod ?B) \<ge> ?B then finish_batch E [] ?F
      else Some (Inr (INSERTIMG_INSERTED, []), ?F))"
    using insert_frame_filled [OF rel f] f p ff(3,8) unfolding info
    by (cases f) (auto simp: det_exec_def InsertImage_def fits_def)
  show ?thesis
  proof (cases "Suc (length hist mod ?B) = ?B")
    case False
    then have r: "Suc (length hist mod ?B) < ?B" using p(1) by (simp add: Suc_lessI)
    then have "res = Inr (INSERTIMG_INSERTED, [])"
      using spec div_mod_Suc(1) [OF p(1) r] f by (simp add: det_spec_def Let_def)
    then show ?thesis using exec r filled_rel [OF rel f r] by (simp add: hist')
  next
    case True
    note dm = div_mod_Suc(2) [OF p(1) True] and fb = full_batch [OF rel f True]
    show ?thesis
    proof (cases "Suc ?q < lag P")
      case True
      then have as: "p_async P" and q: "?q = 0" by (auto simp: lag_def split: if_splits)
      have "res = Inr (INSERTIMG_INSERTED, [])" using spec dm f True by (simp add: det_spec_def Let_def)
      moreover have "\<not> wait_ok E (infer_curr ?F)" "bisASync ?F"
        using rel as q ff(2,14) by (simp_all add: det_rel_def Let_def)
      moreover have "det_rel E net P (?F\<lparr>nbatch_index := 0, infer_curr := start_async E (infer_next ?F),
          infer_next := infer_curr ?F\<rparr>) hist'"
        using rel f ff fb(1-3) as q dm unfolding hist' det_rel_def Let_def
        by (simp add: lag_def target_def batch_blob_def engine_ok_def)
      ultimately show ?thesis using exec \<open>Suc (length hist mod ?B) = ?B\<close> finish_batch_not_ready [of ?F E "[]"] by auto
    next
      case False
      then have lag: "lag P \<le> Suc ?q" by simp
      let ?batch = "nth_batch ?B (Suc ?q - lag P) (hist @ [f])"
      let ?N = "if p_async P then ?F\<lparr>imginfoque := map frame_info (drop ((Suc ?q - (lag P - 1)) * ?B) (hist @ [f])),
            nbatch_index := 0, infer_curr := start_async E (infer_next ?F), infer_next := infer_curr ?F\<rparr>
          else ?F\<lparr>imginfoque := map frame_info (drop ((Suc ?q - (lag P - 1)) * ?B) (hist @ [f])),
            nbatch_index := 0, infer_curr := start_async E (infer_curr ?F)\<rparr>"
      from spec dm f False obtain objs got where
        parse: "parse_rows (int ?B) (p_size P) (p_proposals P) (net (batch_blob ?batch)) (map (blank_result \<circ> frame_info) ?batch) False
          = Some (objs, got)"
        and res: "res = Inr (if got then INSERTIMG_GET else INSERTIMG_PROCESSED, objs)"
        by (auto simp: det_spec_def Let_def hist' split: Option.bind_splits)
      have out: "wait_ok E (infer_curr (start_batch E ?F))"
        "output_blob E (infer_curr (start_batch E ?F)) = net (batch_blob ?batch)"
      proof -
        have "wait_ok E (infer_curr (start_batch E ?F)) \<and> output_blob E (infer_curr (start_batch E ?F)) = net (batch_blob ?batch)"
        proof (cases "p_async P")
          case True
          then have q: "?q \<noteq> 0" using lag by (simp add: lag_def)
          have "nth_batch ?B (?q - 1) (hist @ [f]) = nth_batch ?B (?q - 1) hist"
            using q by (intro nth_batch_append) (simp add: div_times_less_eq_dividend)
          then show ?thesis using True q rel ff(2,14) by (simp add: start_batch_def det_rel_def Let_def lag_def)
        next
          case False
          then show ?thesis using fb(1,2) ff(2) by (simp add: start_batch_def lag_def target_def)
        qed
        then show "wait_ok E (infer_curr (start_batch E ?F))"
          "output_blob E (infer_curr (start_batch E ?F)) = net (batch_blob ?batch)" by simp_all
      qed
      have "finish_batch E [] ?F = Some (res, ?N)"
        using finish_batch_wait [OF out(1), of _ _ objs got "[]"] fb(4) [OF lag] parse out(2) ff(2,3,6,7)
        by (simp add: res)
      moreover have "det_rel E net P ?N hist'"
        using rel f ff fb(1-3) dm unfolding hist' det_rel_def Let_def
        by (cases "p_async P") (simp_all add: lag_def target_def batch_blob_def engine_ok_def)
      ultimately show ?thesis using exec True by simp
    qed
  qed
qed

interpretation det: simulation "det_exec E" "det_spec net P" "det_rel E net P" for E net P
  by unfold_locales (rule det_step)

section \<open>Properties\<close>

text \<open>The answer to the frame that completes history \<open>hist\<close>.\<close>

definition answer :: "(u8 list \<Rightarrow> f32 list) \<Rightarrow> det_params \<Rightarrow> frame list \<Rightarrow> (string + (insert_status \<times> det_result list)) option" where
  "answer net P hist =
     (let done = length hist div p_batch P in
      if length hist mod p_batch P \<noteq> 0 \<or> done < lag P then Some (Inr (INSERTIMG_INSERTED, []))
      else let batch = nth_batch (p_batch P) (done - lag P) hist in do {
        (objs, got) \<leftarrow> parse_rows (int (p_batch P)) (p_size P) (p_proposals P) (net (batch_blob batch))
             (map (blank_result \<circ> frame_info) batch) False;
        Some (Inr (if got then INSERTIMG_GET else INSERTIMG_PROCESSED, objs)) })"

lemma det_spec_answer:
  "fits P f \<Longrightarrow> answer net P (hist @ [f]) = Some r \<Longrightarrow> det_spec net P f hist = Some (r, hist @ [f])"
  by (auto simp: det_spec_def answer_def Let_def split: if_splits Option.bind_splits)

lemma det_spec_run:
  assumes "\<forall>f \<in> set fs. fits P f" and "\<And>i. i < length fs \<Longrightarrow> answer net P (hist @ take (Suc i) fs) \<noteq> None"
  shows "run_calls (det_spec net P) fs hist =
    Some (map (\<lambda>i. the (answer net P (hist @ take (Suc i) fs))) [0..<length fs], hist @ fs)"
  using assms
proof (induction fs arbitrary: hist)
  case (Cons f fs)
  have "answer net P (hist @ [f]) \<noteq> None" using Cons.prems(2) [of 0] by simp
  then have "det_spec net P f hist = Some (the (answer net P (hist @ [f])), hist @ [f])"
    using Cons.prems(1) by (auto intro: det_spec_answer)
  moreover have "run_calls (det_spec net P) fs (hist @ [f]) =
    Some (map (\<lambda>i. the (answer net P ((hist @ [f]) @ take (Suc i) fs))) [0..<length fs], (hist @ [f]) @ fs)"
    using Cons.prems(1) Cons.prems(2) [of "Suc _"] by (intro Cons.IH) auto
  moreover have "map (\<lambda>i. the (answer net P (hist @ take (Suc i) (f # fs)))) [0..<length (f # fs)] =
    the (answer net P (hist @ [f])) # map (\<lambda>i. the (answer net P ((hist @ [f]) @ take (Suc i) fs))) [0..<length fs]"
    by (simp add: upt_conv_Cons map_Suc_upt [symmetric] del: upt_Suc)
  ultimately show ?case by simp
qed simp

text \<open>A detector that has just been loaded, in the mode \<^verbatim>\<open>main\<close> then sets.\<close>

lemma det_rel_loaded:
  assumes "detector_load V device m w bn (detector_init D0) = Some (Inr 0, D)" "engine_ok E net"
    and "output_dims V = [o0, o1, mx, 7]" "set_batch V bn = int B" "0 < B"
    and "image_dims V = wd # ht # ch # rest" "0 < wd" "0 < ht"
    and "length (input_blob E (fresh_curr V)) = B * ch * (wd * ht)"
      "length (input_blob E (fresh_next V)) = B * ch * (wd * ht)" "\<not> wait_ok E (fresh_curr V)"
  shows "det_rel E net \<lparr>p_batch = B, p_channels = ch, p_width = int wd, p_height = int ht, p_proposals = mx,
      p_size = 7, p_async = async\<rparr> (if async then D else SetMode False D) []"
  using assms
  by (auto simp: detector_load_def detector_init_def det_rel_def SetMode_def Let_def batch_blob_def nat_mult_distrib split: if_splits)

text \<open>C2. After a successful load, in either mode, every frame is answered without a fault: frame number
  \<open>i\<close> (from 0) that completes the \<open>k\<close>-th batch of \<open>B\<close> frames is answered with the detections the
  network finds in one whole batch, the \<open>k\<close>-th in the synchronous mode and the one before it in the
  asynchronous mode, each stored with the description of the frame it belongs to; every other frame
  is just stored. The two requests, the channel heads over the blob and the queue of descriptions
  never get out of step.\<close>
theorem detector_answers_batches:
  assumes load: "detector_load V device m w bn (detector_init D0) = Some (Inr 0, D)" "engine_ok E net"
    and dims: "output_dims V = [o0, o1, mx, 7]" "set_batch V bn = int B" "0 < B"
      "image_dims V = wd # ht # ch # rest" "0 < wd" "0 < ht"
      "length (input_blob E (fresh_curr V)) = B * ch * (wd * ht)"
      "length (input_blob E (fresh_next V)) = B * ch * (wd * ht)" "\<not> wait_ok E (fresh_curr V)"
    and P: "P = \<lparr>p_batch = B, p_channels = ch, p_width = int wd, p_height = int ht, p_proposals = mx,
      p_size = 7, p_async = async\<rparr>"
    and fs: "\<forall>f \<in> set fs. fits P f"
    and rows: "\<forall>b < length fs div B. parse_rows (int B) 7 mx (net (batch_blob (nth_batch B b fs)))
      (map (blank_result \<circ> frame_info) (nth_batch B b fs)) False \<noteq> None"
  shows "\<exists>rs D'. run_calls (det_exec E) fs (if async then D else SetMode False D) = Some (rs, D') \<and>
    (\<forall>i < length fs. let k = Suc i div B in
       if Suc i mod B \<noteq> 0 \<or> k < lag P then rs ! i = Inr (INSERTIMG_INSERTED, [])
       else \<exists>objs got. rs ! i = Inr (if got then INSERTIMG_GET else INSERTIMG_PROCESSED, objs) \<and>
         parse_rows (int B) 7 mx (net (batch_blob (nth_batch B (k - lag P) fs)))
           (map (blank_result \<circ> frame_info) (nth_batch B (k - lag P) fs)) False = Some (objs, got))"
proof -
  let ?D = "if async then D else SetMode False D"
  have lag0: "0 < lag P" by (simp add: lag_def)
  have ans: "answer net P (take (Suc i) fs) =
      (if Suc i mod B \<noteq> 0 \<or> Suc i div B < lag P then Some (Inr (INSERTIMG_INSERTED, []))
       else map_option (\<lambda>(objs, got). Inr (if got then INSERTIMG_GET else INSERTIMG_PROCESSED, objs))
         (parse_rows (int B) 7 mx (net (batch_blob (nth_batch B (Suc i div B - lag P) fs)))
           (map (blank_result \<circ> frame_info) (nth_batch B (Suc i div B - lag P) fs)) False))"
    if i: "i < length fs" for i
  proof -
    have "nth_batch B b (take (Suc i) fs) = nth_batch B b fs" if "Suc b \<le> Suc i div B" for b
    proof -
      have "Suc b * B \<le> Suc i div B * B" using that by (rule mult_le_mono1)
      also have "\<dots> \<le> Suc i" by (rule div_times_less_eq_dividend)
      finally show ?thesis using nth_batch_append [of b B "take (Suc i) fs" "drop (Suc i) fs"] i by simp
    qed
    then show ?thesis using i lag0 unfolding answer_def P
      by (auto simp: Let_def map_option_case split: option.splits)
  qed
  have def: "parse_rows (int B) 7 mx (net (batch_blob (nth_batch B (Suc i div B - lag P) fs)))
           (map (blank_result \<circ> frame_info) (nth_batch B (Suc i div B - lag P) fs)) False \<noteq> None"
    if "i < length fs" "\<not> Suc i div B < lag P" for i
  proof -
    have "Suc i div B \<le> length fs div B" using that(1) by (intro div_le_mono) simp
    then show ?thesis using rows that(2) lag0 by auto
  qed
  have run: "run_calls (det_spec net P) fs [] = Some (map (\<lambda>i. the (answer net P ([] @ take (Suc i) fs))) [0..<length fs], [] @ fs)"
    using fs def ans by (intro det_spec_run) auto
  have rel: "det_rel E net P ?D []" unfolding P using det_rel_loaded [OF load dims] .
  from det.run [OF rel run] obtain D' where
    D': "run_calls (det_exec E) fs ?D = Some (map (\<lambda>i. the (answer net P ([] @ take (Suc i) fs))) [0..<length fs], D')" by blast
  have each: "let k = Suc i div B in
       if Suc i mod B \<noteq> 0 \<or> k < lag P then the (answer net P (take (Suc i) fs)) = Inr (INSERTIMG_INSERTED, [])
       else \<exists>objs got. the (answer net P (take (Suc i) fs)) = Inr (if got then INSERTIMG_GET else INSERTIMG_PROCESSED, objs) \<and>
         parse_rows (int B) 7 mx (net (batch_blob (nth_batch B (k - lag P) fs)))
           (map (blank_result \<circ> frame_info) (nth_batch B (k - lag P) fs)) False = Some (objs, got)" if i: "i < length fs" for i
  proof (cases "Suc i mod B \<noteq> 0 \<or> Suc i div B < lag P")
    case True
    then show ?thesis using ans [OF i] by (simp add: Let_def)
  next
    case False
    with def [OF i] obtain objs got where "parse_rows (int B) 7 mx (net (batch_blob (nth_batch B (Suc i div B - lag P) fs)))
           (map (blank_result \<circ> frame_info) (nth_batch B (Suc i div B - lag P) fs)) False = Some (objs, got)" by fastforce
    then show ?thesis using ans [OF i] False by (simp only: Let_def if_False) auto
  qed
  let ?rs = "map (\<lambda>i. the (answer net P (take (Suc i) fs))) [0..<length fs]"
  have nth: "?rs ! i = the (answer net P (take (Suc i) fs))" if "i < length fs" for i using that by simp
  have "run_calls (det_exec E) fs ?D = Some (?rs, D')" using D' by simp
  moreover have "let k = Suc i div B in
       if Suc i mod B \<noteq> 0 \<or> k < lag P then ?rs ! i = Inr (INSERTIMG_INSERTED, [])
       else \<exists>objs got. ?rs ! i = Inr (if got then INSERTIMG_GET else INSERTIMG_PROCESSED, objs) \<and>
         parse_rows (int B) 7 mx (net (batch_blob (nth_batch B (k - lag P) fs)))
           (map (blank_result \<circ> frame_info) (nth_batch B (k - lag P) fs)) False = Some (objs, got)" if i: "i < length fs" for i
    unfolding nth [OF i] by (rule each [OF i])
  ultimately show ?thesis by blast
qed

text \<open>C29. Every box that \<^verbatim>\<open>InsertImage\<close> reports stems from a row of the blob of the processed request, scaled to the
  size of the image it belongs to, and has the clamps of the code: left and top edge are not negative, right and
  bottom edge are less than the width and the height. The code clamps no edge on its other side, so the box as a
  whole lies inside its image, with its edges in order, when the row has its corners in order and touches the
  image (\<open>edges_ok\<close>, for images of up to \<open>2 ^ 24 - 1\<close> pixels a side). There is one result per frame of the batch.\<close>
theorem detector_boxes_inside:
  assumes "InsertImage E img objects inputid frameno channelid D = Some (Inr (status, objs), D')"
    and "status = INSERTIMG_GET \<or> status = INSERTIMG_PROCESSED"
  shows "length objs = nat (num_batch D') \<and>
    (\<forall>ob \<in> set objs. \<forall>b \<in> set (boxs ob). 0 \<le> left b \<and> 0 \<le> top b \<and> right b < fst (imgsize ob) \<and> bottom b < snd (imgsize ob) \<and>
      (\<exists>k < nat (maxProposalCount D'). let row = drop (k * nat (objectSize D')) (output_blob E (processed_request D')) in
         scaled_box row (fst (imgsize ob)) (snd (imgsize ob)) = Some b \<and>
         (edges_ok (row ! 3) (row ! 5) (fst (imgsize ob)) \<longrightarrow> left b \<le> right b) \<and>
         (edges_ok (row ! 4) (row ! 6) (snd (imgsize ob)) \<longrightarrow> top b \<le> bottom b)))"
proof -
  from assms obtain D1 where "finish_batch E objects D1 = Some (Inr (status, objs), D')"
    by (auto simp: InsertImage_def split: if_splits Option.bind_splits)
  from finish_processed [OF this assms(2)] obtain os q got where t: "take_infos (nat (num_batch D')) q = Inr (os, imginfoque D')"
    and p: "parse_rows (num_batch D') (objectSize D') (nat (maxProposalCount D')) (output_blob E (processed_request D')) os False = Some (objs, got)"
    by blast
  let ?row = "\<lambda>k. drop (k * nat (objectSize D')) (output_blob E (processed_request D'))"
  let ?Q = "\<lambda>sz b. \<exists>k < nat (maxProposalCount D'). scaled_box (?row k) (fst sz) (snd sz) = Some b"
  have Q: "map imgsize objs = map imgsize os" "\<forall>ob \<in> set objs. \<forall>b \<in> set (boxs ob). ?Q (imgsize ob) b"
    using parse_rows_boxes [OF p, of ?Q] take_infos_blank [OF t] by auto
  have "0 \<le> left b \<and> 0 \<le> top b \<and> right b < fst sz \<and> bottom b < snd sz \<and> (\<exists>k < nat (maxProposalCount D'). let row = ?row k in
      scaled_box row (fst sz) (snd sz) = Some b \<and> (edges_ok (row ! 3) (row ! 5) (fst sz) \<longrightarrow> left b \<le> right b) \<and>
      (edges_ok (row ! 4) (row ! 6) (snd sz) \<longrightarrow> top b \<le> bottom b))" if "?Q sz b" for sz b
  proof -
    obtain k where k: "k < nat (maxProposalCount D')" "scaled_box (?row k) (fst sz) (snd sz) = Some b" using \<open>?Q sz b\<close> by blast
    have "box_in sz b" using scaled_box_in [OF k(2)] by simp
    then show ?thesis using k scaled_box_inside [OF k(2)] unfolding box_in_def Let_def by blast
  qed
  moreover have "length objs = nat (num_batch D')" using take_infos_blank [OF t] map_eq_imp_length_eq [OF Q(1)] by simp
  ultimately show ?thesis using Q(2) by blast
qed

text \<open>The range check of the image number of a detection is off by one: a row that names image
  \<open>num_batch_\<close> passes it and indexes the result vector, which has \<open>num_batch_\<close> entries, past its end.
  The loop reaches such a row whenever the rows before it are in range.\<close>
theorem detector_image_number_overrun:
  assumes "7 \<le> length row" "osz = int (length row)" and "row ! 0 = of_int nb" "int_ok nb" "0 \<le> nb" "row ! 2 \<noteq> 0"
    and "length objects = nat nb"
  shows "parse_rows nb osz (Suc k) (row @ result) objects got = None"
proof -
  have "f2i ((row @ result) ! 0) = Some nb" "(row @ result) ! 2 = row ! 2"
    using assms by (auto simp: f2i_def nth_append)
  then show ?thesis using assms by simp
qed

text \<open>Concrete requests for the witnesses: the input, whether the request was started, the output.\<close>

type_synonym demo_req = "u8 list \<times> bool \<times> f32 list"

definition demo_net :: "u8 list \<Rightarrow> f32 list" where
  "demo_net b = [0, 15, 1 / 2, 0, 0, 1, 2]"

definition demo_engine :: "demo_req engine" where
  "demo_engine = \<lparr>start_async = (\<lambda>(b, s, r). (b, True, demo_net b)), wait_ok = (\<lambda>(b, s, r). s),
     input_blob = (\<lambda>(b, s, r). b), set_input = (\<lambda>b' (b, s, r). (b', s, r)), output_blob = (\<lambda>(b, s, r). r)\<rparr>"

lemma demo_engine_ok: "engine_ok demo_engine demo_net"
  by (auto simp: engine_ok_def demo_engine_def)

definition demo_env :: "demo_req load_env" where
  "demo_env = \<lparr>plugin_found = (\<lambda>d. True), network_readable = (\<lambda>m w. True), set_batch = (\<lambda>b. b),
     output_dims = [1, 1, 1, 7], network_loads = True, fresh_curr = ([0, 0], False, []),
     fresh_next = ([0, 0], False, []), image_dims = [2, 1, 1, 1]\<rparr>"

definition demo_detector :: "demo_req detector" where
  "demo_detector = \<lparr>input_channels = [], input_geometry = (0, 0), imginfoque = [], nbatch_index = 0, num_channels = 0,
     num_batch = 0, maxProposalCount = 0, objectSize = 0, bisASync = False, bLoad = True, cpu_extensions = False,
     infer_curr = ([], False, []), infer_next = ([], False, [])\<rparr>"

definition demo_loaded :: "demo_req detector" where
  "demo_loaded = \<lparr>input_channels = [], input_geometry = (2, 1), imginfoque = [], nbatch_index = 0, num_channels = 1,
     num_batch = 1, maxProposalCount = 1, objectSize = 7, bisASync = True, bLoad = True, cpu_extensions = True,
     infer_curr = ([0, 0], False, []), infer_next = ([0, 0], False, [])\<rparr>"

lemma demo_load: "detector_load demo_env ''CPU'' ''m'' ''w'' 1 (detector_init demo_detector) = Some (Inr 0, demo_loaded)"
  by (simp add: detector_load_def detector_init_def demo_env_def demo_detector_def demo_loaded_def)

definition demo_frames :: "frame list" where
  "demo_frames = [(\<lparr>cols = 2, rows = 1, planes = [[5, 6]]\<rparr>, 0, 1, 0), (\<lparr>cols = 2, rows = 1, planes = [[7, 8]]\<rparr>, 0, 2, 0)]"

lemma demo_parse:
  "parse_rows 1 7 1 (demo_net b) [blank_result (frame_info (\<lparr>cols = 2, rows = 1, planes = ps\<rparr>, i, n, c))] False =
    Some ([(blank_result (frame_info (\<lparr>cols = 2, rows = 1, planes = ps\<rparr>, i, n, c)))
      \<lparr>boxs := [\<lparr>classid = 15, confidence = 1 / 2, left = 0, right = 1, top = 0, bottom = 0\<rparr>]\<rparr>], True)"
proof -
  have "rnd 24 2 = 2" using rnd_of_int [of 2 24] by simp
  then show ?thesis
    by (simp add: demo_net_def blank_result_def frame_info_def image_info_of_def scaled_box_def f2i_def ctrunc_def
        int_ok_def fmul_def i2f_def rnd_1 numeral_eq_Suc Let_def)
qed

lemma demo_rows:
  "\<forall>b < length demo_frames div 1. parse_rows (int 1) 7 1 (demo_net (batch_blob (nth_batch 1 b demo_frames)))
      (map (blank_result \<circ> frame_info) (nth_batch 1 b demo_frames)) False \<noteq> None"
proof (intro allI impI)
  fix b assume "b < length demo_frames div 1"
  then have "b = 0 \<or> b = 1" by (auto simp: demo_frames_def)
  moreover have "nth_batch 1 0 demo_frames = [demo_frames ! 0]" "nth_batch 1 1 demo_frames = [demo_frames ! 1]"
    by (simp_all add: demo_frames_def nth_batch_def)
  ultimately show "parse_rows (int 1) 7 1 (demo_net (batch_blob (nth_batch 1 b demo_frames)))
      (map (blank_result \<circ> frame_info) (nth_batch 1 b demo_frames)) False \<noteq> None"
    using demo_parse by (auto simp: demo_frames_def simp del: parse_rows.simps One_nat_def)
qed

theorem detector_answers_batches_witness:
  "\<exists>rs D'. run_calls (det_exec demo_engine) demo_frames demo_loaded = Some (rs, D') \<and>
     rs ! 0 = Inr (INSERTIMG_INSERTED, []) \<and> (\<exists>st objs. rs ! 1 = Inr (st, objs))"
proof -
  let ?P = "\<lparr>p_batch = 1, p_channels = 1, p_width = int 2, p_height = int 1, p_proposals = 1, p_size = 7, p_async = True\<rparr>"
  have "\<exists>rs D'. run_calls (det_exec demo_engine) demo_frames (if True then demo_loaded else SetMode False demo_loaded) = Some (rs, D') \<and>
    (\<forall>i < length demo_frames. let k = Suc i div 1 in
       if Suc i mod 1 \<noteq> 0 \<or> k < lag ?P then rs ! i = Inr (INSERTIMG_INSERTED, [])
       else \<exists>objs got. rs ! i = Inr (if got then INSERTIMG_GET else INSERTIMG_PROCESSED, objs) \<and>
         parse_rows (int 1) 7 1 (demo_net (batch_blob (nth_batch 1 (k - lag ?P) demo_frames)))
           (map (blank_result \<circ> frame_info) (nth_batch 1 (k - lag ?P) demo_frames)) False = Some (objs, got))"
    by (rule detector_answers_batches [OF demo_load demo_engine_ok, where mx = 1 and B = 1 and wd = 2 and ht = 1 and ch = 1])
       (simp_all add: demo_env_def demo_engine_def demo_frames_def fits_def demo_rows [unfolded demo_frames_def, simplified])
  then obtain rs D' where r: "run_calls (det_exec demo_engine) demo_frames demo_loaded = Some (rs, D')"
    and a: "\<forall>i < length demo_frames. let k = Suc i div 1 in
       if Suc i mod 1 \<noteq> 0 \<or> k < lag ?P then rs ! i = Inr (INSERTIMG_INSERTED, [])
       else \<exists>objs got. rs ! i = Inr (if got then INSERTIMG_GET else INSERTIMG_PROCESSED, objs) \<and>
         parse_rows (int 1) 7 1 (demo_net (batch_blob (nth_batch 1 (k - lag ?P) demo_frames)))
           (map (blank_result \<circ> frame_info) (nth_batch 1 (k - lag ?P) demo_frames)) False = Some (objs, got)" by auto
  have l: "length demo_frames = 2" by (simp add: demo_frames_def)
  from a [THEN spec, of 0] a [THEN spec, of 1] show ?thesis using r l by (auto simp: lag_def Let_def)
qed

text \<open>The second of two frames is answered with the box found in the first.\<close>

definition demo_second :: "demo_req detector" where
  "demo_second = demo_loaded\<lparr>input_channels := [InBlob 0 2 1], imginfoque := [frame_info (hd demo_frames)],
     infer_curr := ([5, 6], True, demo_net [5, 6]), infer_next := ([0, 0], False, [])\<rparr>"

lemma demo_second_collects:
  "\<exists>objs D'. InsertImage demo_engine \<lparr>cols = 2, rows = 1, planes = [[7, 8]]\<rparr> [] 0 2 0 demo_second =
     Some (Inr (INSERTIMG_GET, objs), D') \<and> length objs = 1 \<and> length (boxs (hd objs)) = 1"
proof -
  have "rnd 24 2 = 2" using rnd_of_int [of 2 24] by simp
  then show ?thesis
    by (simp add: InsertImage_def insert_frame_def demo_second_def demo_loaded_def WrapInputLayer_def blit_def demo_engine_def
      finish_batch_def start_batch_def collect_def demo_frames_def frame_info_def image_info_of_def demo_net_def scaled_box_def
      f2i_def ctrunc_def int_ok_def fmul_def i2f_def rnd_1 numeral_eq_Suc Let_def)
qed

theorem detector_boxes_inside_witness:
  "\<exists>objs D'. InsertImage demo_engine \<lparr>cols = 2, rows = 1, planes = [[7, 8]]\<rparr> [] 0 2 0 demo_second =
     Some (Inr (INSERTIMG_GET, objs), D') \<and> (\<forall>b \<in> set (boxs (hd objs)). 0 \<le> left b \<and> right b < fst (imgsize (hd objs)))"
proof -
  from demo_second_collects obtain objs D' where
    i: "InsertImage demo_engine \<lparr>cols = 2, rows = 1, planes = [[7, 8]]\<rparr> [] 0 2 0 demo_second = Some (Inr (INSERTIMG_GET, objs), D')"
    and "length objs = 1" by blast
  then have "hd objs \<in> set objs" by (cases objs) auto
  then show ?thesis using detector_boxes_inside [OF i] i by auto
qed

theorem detector_image_number_overrun_witness:
  "parse_rows 1 7 3 [1, 15, 1 / 2, 0, 0, 1, 1] [blank_result (frame_info (hd demo_frames))] False = None"
  using detector_image_number_overrun [of "[1, 15, 1 / 2, 0, 0, 1, 1]" 7 1 "[blank_result (frame_info (hd demo_frames))]" 2 "[]" False]
  by (simp add: int_ok_def numeral_eq_Suc)

end
