(* ===== verification/Suppression.thy ===== *)
theory Suppression
  imports Buffers "HOL-Library.Sublist"
begin

text \<open>
  Greedy suppression, the algorithm behind the three layers that remove overlapping boxes: walk the
  boxes from the best to the worst and keep a box unless it clashes with one kept before. The
  lemmas state what the result is, for any clash relation.
\<close>

definition keep_step :: "('a \<Rightarrow> 'a \<Rightarrow> bool) \<Rightarrow> 'a list \<Rightarrow> 'a \<Rightarrow> 'a list" where
  "keep_step clash kept x = (if \<exists>k \<in> set kept. clash x k then kept else kept @ [x])"

definition greedy :: "('a \<Rightarrow> 'a \<Rightarrow> bool) \<Rightarrow> 'a list \<Rightarrow> 'a list" where
  "greedy clash xs = foldl (keep_step clash) [] xs"

lemma greedy_Nil [simp]: "greedy clash [] = []"
  by (simp add: greedy_def)

lemma greedy_snoc: "greedy clash (xs @ [x]) = keep_step clash (greedy clash xs) x"
  by (simp add: greedy_def)

lemma greedy_subseq: "subseq (greedy clash xs) xs"
proof (induction xs rule: rev_induct)
  case (snoc x xs)
  then show ?case by (auto simp: greedy_snoc keep_step_def list_emb_append_mono)
qed simp

lemma greedy_set: "set (greedy clash xs) \<subseteq> set xs"
  by (induction xs rule: rev_induct) (auto simp: greedy_snoc keep_step_def)

lemma greedy_length: "length (greedy clash xs) \<le> length xs"
  using greedy_subseq by (rule list_emb_length)

lemma greedy_cong:
  "(\<And>x y. x \<in> set xs \<Longrightarrow> y \<in> set xs \<Longrightarrow> clash x y = clash' x y) \<Longrightarrow> greedy clash xs = greedy clash' xs"
proof (induction xs rule: rev_induct)
  case (snoc x xs)
  have "greedy clash xs = greedy clash' xs" using snoc by simp
  then show ?case using snoc.prems greedy_set [of clash' xs] by (auto simp: greedy_snoc keep_step_def)
qed simp

text \<open>No kept box clashes with a kept box of higher rank.\<close>

lemma greedy_independent:
  "i < j \<Longrightarrow> j < length (greedy clash xs) \<Longrightarrow> \<not> clash (greedy clash xs ! j) (greedy clash xs ! i)"
proof (induction xs arbitrary: i j rule: rev_induct)
  case (snoc x xs)
  then show ?case
    by (cases "j < length (greedy clash xs)")
       (auto simp: greedy_snoc keep_step_def nth_append less_Suc_eq split: if_splits)
qed simp

text \<open>A box is left out only because it clashes with a kept box of higher rank.\<close>

lemma greedy_complete:
  "i < length xs \<Longrightarrow> xs ! i \<in> set (greedy clash xs) \<or>
     (\<exists>j<i. xs ! j \<in> set (greedy clash xs) \<and> clash (xs ! i) (xs ! j))"
proof (induction xs rule: rev_induct)
  case (snoc x xs)
  let ?g = "greedy clash xs"
  have mono: "set ?g \<subseteq> set (greedy clash (xs @ [x]))" by (auto simp: greedy_snoc keep_step_def)
  show ?case
  proof (cases "i < length xs")
    case True
    with snoc.IH have "xs ! i \<in> set ?g \<or> (\<exists>j<i. xs ! j \<in> set ?g \<and> clash (xs ! i) (xs ! j))" by simp
    then show ?thesis
    proof
      assume "xs ! i \<in> set ?g"
      then show ?thesis using mono True by (auto simp: nth_append)
    next
      assume "\<exists>j<i. xs ! j \<in> set ?g \<and> clash (xs ! i) (xs ! j)"
      then obtain j where "j < i" "xs ! j \<in> set ?g" "clash (xs ! i) (xs ! j)" by blast
      then show ?thesis using mono True by (intro disjI2 exI [of _ j]) (auto simp: nth_append)
    qed
  next
    case False
    then have i: "i = length xs" using snoc.prems by simp
    show ?thesis
    proof (cases "\<exists>k \<in> set ?g. clash x k")
      case True
      then obtain k where k: "k \<in> set ?g" "clash x k" by blast
      then obtain j where "j < length xs" "xs ! j = k"
        using greedy_set [of clash xs] by (metis in_set_conv_nth subsetD)
      then show ?thesis using k i mono by (intro disjI2 exI [of _ j]) (auto simp: nth_append)
    qed (auto simp: i greedy_snoc keep_step_def)
  qed
qed simp

text \<open>The best box is always kept.\<close>

lemma greedy_hd: "xs \<noteq> [] \<Longrightarrow> greedy clash xs \<noteq> [] \<and> hd (greedy clash xs) = hd xs"
proof (induction xs rule: rev_induct)
  case (snoc x xs)
  have "greedy clash (xs @ [x]) = keep_step clash (greedy clash xs) x" by (rule greedy_snoc)
  then show ?case using snoc.IH by (cases "xs = []") (auto simp: keep_step_def)
qed simp

lemma greedy_map: "greedy clash (map f xs) = map f (greedy (\<lambda>x k. clash (f x) (f k)) xs)"
  by (induction xs rule: rev_induct) (auto simp: greedy_snoc keep_step_def)

lemma greedy_prefix: "\<exists>zs. greedy clash (xs @ ys) = greedy clash xs @ zs"
proof (induction ys rule: rev_induct)
  case (snoc y ys)
  then obtain zs where "greedy clash (xs @ ys) = greedy clash xs @ zs" by blast
  then have "greedy clash (xs @ ys @ [y]) = keep_step clash (greedy clash xs @ zs) y"
    using greedy_snoc [of clash "xs @ ys" y] by simp
  then show ?case by (simp add: keep_step_def)
qed simp

end
