(* ===== verification/DetectionOutput.thy ===== *)
theory DetectionOutput
  imports LayerBase Suppression "HOL-Library.Product_Lexorder"
begin

text \<open>
  \<^verbatim>\<open>extension/ext_detectionoutput.cpp\<close>: the last layer of an SSD network. It decodes the location
  predictions of every prior box, suppresses overlapping boxes of a class (\<^verbatim>\<open>nms\<close>), keeps the best
  \<open>keep_top_k\<close> detections of an image and writes one row of seven numbers for each.

  The scratch blobs of the layer are one record of buffers; a pointer into a blob is an offset.
  \<^verbatim>\<open>std::exp\<close> is the argument \<open>expf\<close>. \<^verbatim>\<open>std::partial_sort_copy\<close> is given a strict total order on the
  indices, so its result is determined; \<^verbatim>\<open>std::sort\<close> with a comparison of the scores alone leaves
  the order of equal scores open, so it is the argument \<open>std_sort\<close>.
\<close>

section \<open>The layer and its buffers\<close>

datatype code_type = CORNER | CENTER_SIZE

record detout =
  num_classes :: int
  background_label_id :: int
  det_top_k :: int
  variance_encoded_in_target :: bool
  keep_top_k :: int
  det_code_type :: code_type
  share_location :: bool
  normalized :: bool
  image_width :: int
  image_height :: int
  prior_size :: int
  prior_offset :: int
  nms_threshold :: f32
  confidence_threshold :: f32
  num_loc_classes :: int
  num_priors :: int
  num_images :: int

record detout_bufs =
  decoded_bboxes :: "f32 list"
  nms_buffer :: "int list"
  nms_indices :: "int list"
  detections_count :: "int list"
  reordered_conf :: "f32 list"
  bbox_sizes :: "f32 list"
  num_priors_actual :: "int list"

text \<open>The constructor. \<open>dims\<close> of a port are listed from the innermost dimension outwards, the reverse
  of its tensor descriptor. The parameter accessors with a default value are given by the
  description as well; the sizes are those of the scratch blobs it allocates.\<close>

record detout_params =
  dp_ints :: "string \<Rightarrow> int option"
  dp_floats :: "string \<Rightarrow> f32 option"
  dp_bools :: "string \<Rightarrow> bool option"
  dp_string :: "string \<Rightarrow> string option"

definition or_default :: "'a option \<Rightarrow> 'a \<Rightarrow> 'a" where
  "or_default x d = (case x of None \<Rightarrow> d | Some v \<Rightarrow> v)"

definition old_dims :: "port option \<Rightarrow> nat list" where
  "old_dims p = (case p of None \<Rightarrow> [] | Some d \<Rightarrow> rev (port_dims d))"

definition flt_max :: f32 where "flt_max = (2 ^ 24 - 1) * 2 ^ 104"

definition detout_params_of :: "detout_params \<Rightarrow> int \<Rightarrow> f32 \<Rightarrow> nat list \<Rightarrow> nat \<Rightarrow> detout" where
  "detout_params_of q ncls nms_thr prior_dims num =
     (let norm = or_default (dp_bools q ''normalized'') True;
          share = or_default (dp_bools q ''share_location'') True;
          psize = (if norm then 4 else 5) in
      \<lparr>num_classes = ncls,
       background_label_id = or_default (dp_ints q ''background_label_id'') 0,
       det_top_k = or_default (dp_ints q ''top_k'') (- 1),
       variance_encoded_in_target = or_default (dp_bools q ''variance_encoded_in_target'') False,
       keep_top_k = or_default (dp_ints q ''keep_top_k'') (- 1),
       det_code_type = (if or_default (dp_string q ''code_type'') ''caffe.PriorBoxParameter.CORNER'' =
                          ''caffe.PriorBoxParameter.CENTER_SIZE'' then CENTER_SIZE else CORNER),
       share_location = share, normalized = norm,
       image_width = or_default (dp_ints q ''input_width'') 1,
       image_height = or_default (dp_ints q ''input_height'') 1,
       prior_size = psize, prior_offset = (if norm then 0 else 1),
       nms_threshold = nms_thr,
       confidence_threshold = or_default (dp_floats q ''confidence_threshold'') (- flt_max),
       num_loc_classes = (if share then 1 else ncls),
       num_priors = int (hd prior_dims) div psize,
       num_images = int num\<rparr>)"

definition detout_new :: "detout_params \<Rightarrow> cnn_layer \<Rightarrow> (ext_layer \<times> (detout \<times> nat list) option) option" where
  "detout_new q l =
     (if length (ins_data l) \<noteq> 3 then Some (construct (Inl ''Incorrect number of input edges.''))
      else if out_data l = [] then Some (construct (Inl ''Incorrect number of output edges.''))
      else case dp_ints q ''num_classes'' of
        None \<Rightarrow> Some (construct (Inl ''num_classes''))
      | Some ncls \<Rightarrow> (case dp_floats q ''nms_threshold'' of
          None \<Rightarrow> Some (construct (Inl ''nms_threshold''))
        | Some thr \<Rightarrow>
            let loc = old_dims (ins_data l ! 0); cf = old_dims (ins_data l ! 1); pr = old_dims (ins_data l ! 2) in
            if loc = [] \<or> cf = [] \<or> pr = [] then None
            else
              let P = detout_params_of q ncls thr pr (last cf);
                  n = nat (num_images P * num_classes P * num_priors P) in
              if num_priors P * num_loc_classes P * 4 \<noteq> int (hd loc)
              then Some (construct (Inl ''Number of priors must match number of location predictions.''))
              else if num_priors P * num_classes P \<noteq> int (hd cf)
              then Some (construct (Inl ''Number of priors must match number of confidence predictions.''))
              else Some (construct
                (try_with (addConfig l [conf PLN, conf PLN, conf PLN] [conf PLN] False) (\<lambda>c.
                   Inr ((P, [4 * n, n, n, nat (num_images P * num_classes P), prod_list cf, n, nat (num_images P)]), c))))))"

section \<open>Decoding the boxes\<close>

text \<open>The loop that counts the priors up to the first with image number -1.\<close>

function count_priors :: "detout \<Rightarrow> f32 list \<Rightarrow> int \<Rightarrow> int option" where
  "count_priors P prior num =
     (if num < num_priors P then do {
        b \<leftarrow> ld prior (num * prior_size P + 0);
        if b = - 1 then Some num else count_priors P prior (num + 1) }
      else Some (num_priors P))"
  by pat_completeness auto
termination by (relation "measure (\<lambda>(P, prior, num). nat (num_priors P - num))") auto

declare count_priors.simps [simp del]

text \<open>One prior box: \<open>vo\<close> and \<open>lo\<close> are the offsets of the variances and of the location predictions.\<close>

definition decode_prior ::
  "(f32 \<Rightarrow> f32) \<Rightarrow> detout \<Rightarrow> f32 list \<Rightarrow> f32 list \<Rightarrow> int \<Rightarrow> int \<Rightarrow> int \<Rightarrow> (f32 \<times> f32 \<times> f32 \<times> f32) option" where
  "decode_prior expf P prior loc vo lo p = do {
     let pb = p * prior_size P;
     pxmin0 \<leftarrow> ld prior (pb + 0 + prior_offset P);
     pymin0 \<leftarrow> ld prior (pb + 1 + prior_offset P);
     pxmax0 \<leftarrow> ld prior (pb + 2 + prior_offset P);
     pymax0 \<leftarrow> ld prior (pb + 3 + prior_offset P);
     lxmin \<leftarrow> ld loc (lo + 4 * p * num_loc_classes P + 0);
     lymin \<leftarrow> ld loc (lo + 4 * p * num_loc_classes P + 1);
     lxmax \<leftarrow> ld loc (lo + 4 * p * num_loc_classes P + 2);
     lymax \<leftarrow> ld loc (lo + 4 * p * num_loc_classes P + 3);
     let sx = (\<lambda>v. if normalized P then v else fdiv v (i2f (image_width P)));
     let sy = (\<lambda>v. if normalized P then v else fdiv v (i2f (image_height P)));
     let (pxmin, pymin, pxmax, pymax) = (sx pxmin0, sy pymin0, sx pxmax0, sy pymax0);
     case det_code_type P of
       CORNER \<Rightarrow>
         if variance_encoded_in_target P
         then Some (fadd pxmin lxmin, fadd pymin lymin, fadd pxmax lxmax, fadd pymax lymax)
         else do {
           v0 \<leftarrow> ld prior (vo + p * 4 + 0);
           v1 \<leftarrow> ld prior (vo + p * 4 + 1);
           v2 \<leftarrow> ld prior (vo + p * 4 + 2);
           v3 \<leftarrow> ld prior (vo + p * 4 + 3);
           Some (fadd pxmin (fmul v0 lxmin), fadd pymin (fmul v1 lymin),
                 fadd pxmax (fmul v2 lxmax), fadd pymax (fmul v3 lymax)) }
     | CENTER_SIZE \<Rightarrow> do {
         let pw = fsub pxmax pxmin;
         let ph = fsub pymax pymin;
         let pcx = fdiv (fadd pxmin pxmax) 2;
         let pcy = fdiv (fadd pymin pymax) 2;
         (cx, cy, w, h) \<leftarrow>
           (if variance_encoded_in_target P
            then Some (fadd (fmul lxmin pw) pcx, fadd (fmul lymin ph) pcy, fmul (expf lxmax) pw, fmul (expf lymax) ph)
            else do {
              v0 \<leftarrow> ld prior (vo + p * 4 + 0);
              v1 \<leftarrow> ld prior (vo + p * 4 + 1);
              v2 \<leftarrow> ld prior (vo + p * 4 + 2);
              v3 \<leftarrow> ld prior (vo + p * 4 + 3);
              Some (fadd (fmul (fmul v0 lxmin) pw) pcx, fadd (fmul (fmul v1 lymin) ph) pcy,
                    fmul (expf (fmul v2 lxmax)) pw, fmul (expf (fmul v3 lymax)) ph) });
         Some (fsub cx (fdiv w 2), fsub cy (fdiv h 2), fadd cx (fdiv w 2), fadd cy (fdiv h 2)) } }"

definition decodeBBoxes ::
  "(f32 \<Rightarrow> f32) \<Rightarrow> detout \<Rightarrow> f32 list \<Rightarrow> f32 list \<Rightarrow> int \<Rightarrow> int \<Rightarrow> int \<Rightarrow> int \<Rightarrow> int \<Rightarrow> detout_bufs \<Rightarrow> detout_bufs option" where
  "decodeBBoxes expf P prior loc vo lo bo so n bufs = do {
     actual \<leftarrow> (if normalized P then Some (num_priors P) else count_priors P prior 0);
     npa \<leftarrow> st (num_priors_actual bufs) n actual;
     (boxes, sizes) \<leftarrow> for_loop 0 actual (\<lambda>p (boxes, sizes). do {
        (xmin, ymin, xmax, ymax) \<leftarrow> decode_prior expf P prior loc vo lo p;
        boxes1 \<leftarrow> st_run boxes (bo + p * 4) [xmin, ymin, xmax, ymax];
        sizes1 \<leftarrow> st sizes (so + p) (fmul (fsub xmax xmin) (fsub ymax ymin));
        Some (boxes1, sizes1) }) (decoded_bboxes bufs, bbox_sizes bufs);
     Some (bufs\<lparr>num_priors_actual := npa, decoded_bboxes := boxes, bbox_sizes := sizes\<rparr>) }"

section \<open>Non-maximum suppression\<close>

definition JaccardOverlap :: "f32 list \<Rightarrow> int \<Rightarrow> f32 list \<Rightarrow> int \<Rightarrow> int \<Rightarrow> int \<Rightarrow> f32 option" where
  "JaccardOverlap boxes bo sizes so idx1 idx2 = do {
     xmin1 \<leftarrow> ld boxes (bo + idx1 * 4 + 0);
     ymin1 \<leftarrow> ld boxes (bo + idx1 * 4 + 1);
     xmax1 \<leftarrow> ld boxes (bo + idx1 * 4 + 2);
     ymax1 \<leftarrow> ld boxes (bo + idx1 * 4 + 3);
     xmin2 \<leftarrow> ld boxes (bo + idx2 * 4 + 0);
     ymin2 \<leftarrow> ld boxes (bo + idx2 * 4 + 1);
     ymax2 \<leftarrow> ld boxes (bo + idx2 * 4 + 3);
     xmax2 \<leftarrow> ld boxes (bo + idx2 * 4 + 2);
     if xmin2 > xmax1 \<or> xmax2 < xmin1 \<or> ymin2 > ymax1 \<or> ymax2 < ymin1 then Some 0
     else do {
       let intersect_width = fsub (min xmax1 xmax2) (max xmin1 xmin2);
       let intersect_height = fsub (min ymax1 ymax2) (max ymin1 ymin2);
       if intersect_width \<le> 0 \<or> intersect_height \<le> 0 then Some 0
       else do {
         let intersect_size = fmul intersect_width intersect_height;
         bbox1_size \<leftarrow> ld sizes (so + idx1);
         bbox2_size \<leftarrow> ld sizes (so + idx2);
         Some (fdiv intersect_size (fsub (fadd bbox1_size bbox2_size) intersect_size)) } } }"

text \<open>The indices whose confidence exceeds the threshold, collected at the start of \<open>indices\<close>.\<close>

definition nms_candidates :: "detout \<Rightarrow> f32 list \<Rightarrow> int \<Rightarrow> int \<Rightarrow> int \<Rightarrow> int list \<Rightarrow> (int list \<times> int) option" where
  "nms_candidates P cdata co io n indices =
     for_loop 0 n (\<lambda>i (ind, count). do {
       c \<leftarrow> ld cdata (co + i);
       if c > confidence_threshold P then do { ind1 \<leftarrow> st ind (io + count) i; Some (ind1, count + 1) }
       else Some (ind, count) }) (indices, 0)"

text \<open>\<^verbatim>\<open>ConfidenceComparator\<close> orders by descending confidence, then by ascending index. The candidates
  were read from the confidences before, so the comparisons stay inside them.\<close>

definition conf_order :: "(int \<Rightarrow> f32) \<Rightarrow> int list \<Rightarrow> int list" where
  "conf_order score is = sort_key (\<lambda>i. (- score i, i)) is"

text \<open>The loop over the boxes kept so far, which stops at the first with too much overlap.\<close>

fun overlaps :: "(int \<Rightarrow> f32 option) \<Rightarrow> f32 \<Rightarrow> int list \<Rightarrow> bool option" where
  "overlaps ov thr [] = Some False"
| "overlaps ov thr (k # ks) = do { o1 \<leftarrow> ov k; if o1 > thr then Some True else overlaps ov thr ks }"

definition nms_keep ::
  "detout \<Rightarrow> f32 list \<Rightarrow> int \<Rightarrow> f32 list \<Rightarrow> int \<Rightarrow> int \<Rightarrow> int \<Rightarrow> int list \<times> int \<Rightarrow> (int list \<times> int) option" where
  "nms_keep P boxes bo sizes so io idx = (\<lambda>(ind, detections). do {
     supp \<leftarrow> overlaps (\<lambda>k. do { kept_idx \<leftarrow> ld ind (io + k); JaccardOverlap boxes bo sizes so idx kept_idx })
               (nms_threshold P) [0..detections - 1];
     if supp then Some (ind, detections)
     else do { ind1 \<leftarrow> st ind (io + detections) idx; Some (ind1, detections + 1) } })"

definition nms ::
  "detout \<Rightarrow> f32 list \<Rightarrow> int \<Rightarrow> f32 list \<Rightarrow> int \<Rightarrow> f32 list \<Rightarrow> int \<Rightarrow> int list \<Rightarrow> int \<Rightarrow> int list \<Rightarrow> int \<Rightarrow> int \<Rightarrow> int \<Rightarrow>
     (int list \<times> int list \<times> int) option" where
  "nms P cdata co boxes bo sizes so buffer uo indices io detections n = do {
     (ind, count) \<leftarrow> nms_candidates P cdata co io n indices;
     let num_output_scores = (if det_top_k P = - 1 then count else min (det_top_k P) count);
     if num_output_scores < 0 then None
     else do {
       cand \<leftarrow> ld_run ind io count;
       buf \<leftarrow> st_run buffer uo
          (take (nat num_output_scores) (conf_order (\<lambda>i. cdata ! nat (co + i)) cand));
       (ind', det) \<leftarrow> for_loop 0 num_output_scores (\<lambda>i s. do {
          idx \<leftarrow> ld buf (uo + i);
          nms_keep P boxes bo sizes so io idx s }) (ind, detections);
       Some (buf, ind', det) } }"

section \<open>The whole layer\<close>

definition decode_all :: "(f32 \<Rightarrow> f32) \<Rightarrow> detout \<Rightarrow> int \<Rightarrow> f32 list \<Rightarrow> f32 list \<Rightarrow> detout_bufs \<Rightarrow> detout_bufs option" where
  "decode_all expf P N loc prior bufs =
     (let vo = num_priors P * prior_size P; np = num_priors P; nlc = num_loc_classes P in
      for_loop 0 N (\<lambda>n b.
        if share_location P then decodeBBoxes expf P prior loc vo (n * 4 * np) (n * 4 * np) (n * np) n b
        else for_loop 0 nlc (\<lambda>c b1.
          if c = background_label_id P then Some b1
          else decodeBBoxes expf P prior loc vo (n * 4 * nlc * np + c * 4) (n * 4 * nlc * np + c * 4 * np)
                 (n * nlc * np + c * np) n b1) b) bufs)"

definition reorder_conf :: "detout \<Rightarrow> int \<Rightarrow> f32 list \<Rightarrow> f32 list \<Rightarrow> f32 list option" where
  "reorder_conf P N cdata dst =
     (let np = num_priors P; nc = num_classes P in
      for_loop 0 N (\<lambda>n. for_loop 0 nc (\<lambda>c. for_loop 0 np (\<lambda>p d. do {
        v \<leftarrow> ld cdata (n * np * nc + p * nc + c);
        st d (n * np * nc + c * np + p) v }))) dst)"

definition nms_class :: "detout \<Rightarrow> int \<Rightarrow> int \<Rightarrow> detout_bufs \<Rightarrow> detout_bufs option" where
  "nms_class P n c b =
     (if c = background_label_id P then Some b
      else let np = num_priors P; nc = num_classes P; no = n * nc * np + c * np in do {
        det \<leftarrow> ld (detections_count b) (n * nc + c);
        actual \<leftarrow> ld (num_priors_actual b) n;
        let (bo, so) = (if share_location P then (n * 4 * np, n * np)
                        else (n * 4 * nc * np + c * 4 * np, n * nc * np + c * np));
        (buf, ind, det') \<leftarrow> nms P (reordered_conf b) no (decoded_bboxes b) bo (bbox_sizes b) so
           (nms_buffer b) (c * np) (nms_indices b) no det actual;
        dc \<leftarrow> st (detections_count b) (n * nc + c) det';
        Some (b\<lparr>nms_buffer := buf, nms_indices := ind, detections_count := dc\<rparr>) })"

text \<open>All detections of an image with their score, class and index.\<close>

definition image_detections :: "detout \<Rightarrow> int \<Rightarrow> detout_bufs \<Rightarrow> (f32 \<times> int \<times> int) list option" where
  "image_detections P n b = do {
     per_class \<leftarrow> mapm (\<lambda>c. do {
        let no = n * num_classes P * num_priors P + c * num_priors P;
        det \<leftarrow> ld (detections_count b) (n * num_classes P + c);
        mapm (\<lambda>i. do {
          idx \<leftarrow> ld (nms_indices b) (no + i);
          s \<leftarrow> ld (reordered_conf b) (no + idx);
          Some (s, c, idx) }) [0..det - 1] }) [0..num_classes P - 1];
     Some (concat per_class) }"

definition store_kept :: "detout \<Rightarrow> int \<Rightarrow> (f32 \<times> int \<times> int) list \<Rightarrow> detout_bufs \<Rightarrow> detout_bufs option" where
  "store_kept P n kept b = do {
     dc0 \<leftarrow> st_run (detections_count b) (n * num_classes P) (replicate (nat (num_classes P)) 0);
     foldm (\<lambda>(s, label, idx) b1. do {
       k \<leftarrow> ld (detections_count b1) (n * num_classes P + label);
       ind \<leftarrow> st (nms_indices b1) (n * num_classes P * num_priors P + label * num_priors P + k) idx;
       dc \<leftarrow> st (detections_count b1) (n * num_classes P + label) (k + 1);
       Some (b1\<lparr>nms_indices := ind, detections_count := dc\<rparr>) }) kept (b\<lparr>detections_count := dc0\<rparr>) }"

text \<open>\<^verbatim>\<open>resize(_keep_top_k)\<close> of the sorted vector, which is longer.\<close>

definition keep_best ::
  "((f32 \<times> int \<times> int) list \<Rightarrow> (f32 \<times> int \<times> int) list) \<Rightarrow> detout \<Rightarrow> int \<Rightarrow> detout_bufs \<Rightarrow> detout_bufs option" where
  "keep_best std_sort P n b = do {
     counts \<leftarrow> ld_run (detections_count b) (n * num_classes P) (num_classes P);
     if keep_top_k P > - 1 \<and> sum_list counts > keep_top_k P then do {
       all \<leftarrow> image_detections P n b;
       store_kept P n (take (nat (keep_top_k P)) (std_sort all)) b }
     else Some b }"

text \<open>The result rows; \<open>count\<close> is the number of rows written so far.\<close>

definition write_rows :: "detout \<Rightarrow> int \<Rightarrow> int \<Rightarrow> detout_bufs \<Rightarrow> f32 list \<Rightarrow> (f32 list \<times> int) option" where
  "write_rows P N dsz b dst =
     (let np = num_priors P; nc = num_classes P in
      for_loop 0 N (\<lambda>n. for_loop 0 nc (\<lambda>c (d, count). do {
        det \<leftarrow> ld (detections_count b) (n * nc + c);
        for_loop 0 det (\<lambda>i (d, count). do {
          idx \<leftarrow> ld (nms_indices b) (n * nc * np + c * np + i);
          s \<leftarrow> ld (reordered_conf b) (n * np * nc + c * np + idx);
          let bo = n * np * 4 * num_loc_classes P + (if share_location P then idx * 4 else c * 4 * np + idx * 4);
          box \<leftarrow> ld_run (decoded_bboxes b) bo 4;
          d1 \<leftarrow> st_run d (count * dsz) ([i2f n, i2f c, s] @ box);
          Some (d1, count + 1) }) (d, count) })) (dst, 0))"

definition detout_execute ::
  "(f32 \<Rightarrow> f32) \<Rightarrow> ((f32 \<times> int \<times> int) list \<Rightarrow> (f32 \<times> int \<times> int) list) \<Rightarrow> detout \<Rightarrow> int \<Rightarrow>
     f32 list \<Rightarrow> f32 list \<Rightarrow> f32 list \<Rightarrow> int \<Rightarrow> f32 list \<Rightarrow> detout_bufs \<Rightarrow> (status_code \<times> f32 list \<times> detout_bufs) option" where
  "detout_execute expf std_sort P N loc cdata prior dsz dst bufs = do {
     b1 \<leftarrow> decode_all expf P N loc prior bufs;
     rc \<leftarrow> reorder_conf P N cdata (reordered_conf b1);
     dc \<leftarrow> st_run (detections_count b1) 0 (replicate (nat (N * num_classes P)) 0);
     b2 \<leftarrow> for_loop 0 N (\<lambda>n b. do {
        b' \<leftarrow> for_loop 0 (num_classes P) (nms_class P n) b;
        keep_best std_sort P n b' }) (b1\<lparr>reordered_conf := rc, detections_count := dc\<rparr>);
     if dsz \<noteq> 7 then Some (NOT_IMPLEMENTED, dst, b2)
     else
       let dst_data_size = word_of_int (N * keep_top_k P * dsz) * 4 :: u64 in
       if dst_data_size > of_nat (4 * length dst) then Some (OUT_OF_BOUNDS, dst, b2)
       else do {
         d1 \<leftarrow> st_run dst 0 (replicate (unat dst_data_size div 4) 0);
         (d2, count) \<leftarrow> write_rows P N dsz b2 d1;
         if count < N * keep_top_k P then do {
           d3 \<leftarrow> st d2 (count * dsz + 0) (- 1);
           Some (OK, d3, b2) }
         else Some (OK, d2, b2) } }"

section \<open>Suppression is greedy\<close>

lemma overlaps_total:
  "(\<And>k. k \<in> set ks \<Longrightarrow> f k = Some (g k)) \<Longrightarrow> overlaps f thr ks = Some (\<exists>k \<in> set ks. g k > thr)"
  by (induction ks) auto

lemma JaccardOverlap_total:
  assumes "0 \<le> bo" "bo + 4 * n \<le> int (length boxes)" "length boxes \<le> 2 ^ 31"
    and "0 \<le> so" "so + n \<le> int (length sizes)" "length sizes \<le> 2 ^ 31"
    and "0 \<le> i" "i < n" "0 \<le> j" "j < n"
  shows "JaccardOverlap boxes bo sizes so i j = Some (the (JaccardOverlap boxes bo sizes so i j))"
proof -
  have b: "ld boxes (bo + k * 4 + r) = Some (boxes ! nat (bo + k * 4 + r))" if "0 \<le> k" "k < n" "0 \<le> r" "r < 4" for k r
    using assms that by (intro ld_in [where k = "bo + 4 * n"]) auto
  have s: "ld sizes (so + k) = Some (sizes ! nat (so + k))" if "0 \<le> k" "k < n" for k
    using assms that by (intro ld_in [where k = "so + n"]) auto
  have b0: "ld boxes (bo + k * 4) = Some (boxes ! nat (bo + k * 4))" if "0 \<le> k" "k < n" for k
    using b [of k 0] that by simp
  show ?thesis using assms by (simp add: JaccardOverlap_def b b0 s Let_def)
qed

text \<open>The candidates, their ranking and what is kept of them.\<close>

definition candidates :: "detout \<Rightarrow> (int \<Rightarrow> f32) \<Rightarrow> int \<Rightarrow> int list" where
  "candidates P score n = filter (\<lambda>i. score i > confidence_threshold P) [0..n - 1]"

definition ranked :: "detout \<Rightarrow> (int \<Rightarrow> f32) \<Rightarrow> int \<Rightarrow> int list" where
  "ranked P score n = (let c = candidates P score n in
     take (if det_top_k P = - 1 then length c else min (nat (det_top_k P)) (length c)) (conf_order score c))"

lemma nms_candidates_eq:
  assumes "0 \<le> n" "0 \<le> co" "co + n \<le> int (length cdata)" "length cdata \<le> 2 ^ 31"
    and "0 \<le> io" "io + n \<le> int (length indices)" "length indices \<le> 2 ^ 31"
  shows "\<exists>ind. nms_candidates P cdata co io n indices = Some (ind, int (length (candidates P (\<lambda>i. cdata ! nat (co + i)) n))) \<and>
    seg io (candidates P (\<lambda>i. cdata ! nat (co + i)) n) ind \<and> same_outside io (io + n) indices ind"
proof -
  let ?s = "\<lambda>i. cdata ! nat (co + i)"
  let ?I = "\<lambda>i (ind, count). count = int (length (candidates P ?s i)) \<and> seg io (candidates P ?s i) ind \<and>
     same_outside io (io + n) indices ind"
  let ?body = "\<lambda>i (ind, count). do {
       c \<leftarrow> ld cdata (co + i);
       if c > confidence_threshold P then do { ind1 \<leftarrow> st ind (io + count) i; Some (ind1, count + 1) }
       else Some (ind, count) }"
  have len: "int (length (candidates P ?s i)) \<le> i" if "0 \<le> i" for i
    using that length_filter_le [of _ "[0..i - 1]"] by (simp add: candidates_def) (metis int_nat_eq of_nat_le_iff)
  have step: "candidates P ?s (i + 1) = candidates P ?s i @ (if ?s i > confidence_threshold P then [i] else [])"
    if "0 \<le> i" for i using that upto_rec2 [of 0 i] by (simp add: candidates_def)
  have "\<exists>r. for_loop 0 n ?body (indices, 0) = Some r \<and> ?I n r"
  proof (rule for_loop_inv [where P = ?I])
    show "?I 0 (indices, 0)" using assms by (simp add: candidates_def seg_Nil)
  next
    fix i s assume i: "0 \<le> i" "i < n" and inv: "?I i s"
    obtain ind count where s: "s = (ind, count)" by fastforce
    have ld: "ld cdata (co + i) = Some (?s i)" using assms i by (intro ld_in [where k = "co + n"]) auto
    show "\<exists>s'. ?body i s = Some s' \<and> ?I (i + 1) s'"
    proof (cases "?s i > confidence_threshold P")
      case True
      have "\<exists>d'. st ind (io + int (length (candidates P ?s i))) i = Some d' \<and>
          seg io (candidates P ?s i @ [i]) d' \<and> same_outside io (io + n) ind d'"
        using inv i len [of i] assms same_outside_length [of io "io + n" indices ind] by (intro seg_st) (auto simp: s)
      then show ?thesis using inv i True ld step [of i] by (auto simp: s intro: same_outside_trans)
    next
      case False
      then show ?thesis using inv i ld step [of i] by (simp add: s)
    qed
  qed (use assms in simp)
  then show ?thesis by (auto simp: nms_candidates_def)
qed

lemma conf_order_perm: "mset (conf_order score is) = mset is"
  by (simp add: conf_order_def)

lemma conf_order_sorted:
  assumes "i < j" "j < length is"
  shows "score (conf_order score is ! j) \<le> score (conf_order score is ! i)"
proof -
  have "sorted (map (\<lambda>i. (- score i, i)) (conf_order score is))"
    unfolding conf_order_def by (rule sorted_sort_key)
  then have "(- score (conf_order score is ! i), conf_order score is ! i) \<le> (- score (conf_order score is ! j), conf_order score is ! j)"
    using assms by (auto simp: sorted_iff_nth_mono conf_order_def)
  then show ?thesis by (auto simp: less_eq_prod_def)
qed

lemma ranked_range: "set (ranked P score n) \<subseteq> {0..<n}"
proof -
  have "set (conf_order score (candidates P score n)) = set (candidates P score n)"
    using conf_order_perm [of score "candidates P score n"] by (metis set_mset_mset)
  moreover have "set (candidates P score n) \<subseteq> {0..<n}" by (auto simp: candidates_def)
  ultimately show ?thesis unfolding ranked_def Let_def by (metis set_take_subset subset_trans)
qed

lemma ranked_length: "0 \<le> n \<Longrightarrow> int (length (ranked P score n)) \<le> n"
proof -
  assume n: "0 \<le> n"
  have "length (conf_order score (candidates P score n)) = length (candidates P score n)"
    by (simp add: conf_order_def)
  then have "length (ranked P score n) \<le> length (candidates P score n)" by (simp add: ranked_def Let_def)
  also have "\<dots> \<le> length [0..n - 1]" unfolding candidates_def by (rule length_filter_le)
  finally show ?thesis using n by simp
qed

definition overlap_of :: "f32 list \<Rightarrow> int \<Rightarrow> f32 list \<Rightarrow> int \<Rightarrow> int \<Rightarrow> int \<Rightarrow> f32" where
  "overlap_of boxes bo sizes so i j = the (JaccardOverlap boxes bo sizes so i j)"

definition clashes :: "detout \<Rightarrow> f32 list \<Rightarrow> int \<Rightarrow> f32 list \<Rightarrow> int \<Rightarrow> int \<Rightarrow> int \<Rightarrow> bool" where
  "clashes P boxes bo sizes so i k \<longleftrightarrow> overlap_of boxes bo sizes so i k > nms_threshold P"

lemma nms_keep_step:
  assumes box: "0 \<le> bo" "bo + 4 * n \<le> int (length boxes)" "length boxes \<le> 2 ^ 31"
      "0 \<le> so" "so + n \<le> int (length sizes)" "length sizes \<le> 2 ^ 31"
    and idx: "0 \<le> idx" "idx < n" and kept: "set kept \<subseteq> {0..<n}" "int (length kept) < n"
    and ind: "seg io kept ind" "io + n \<le> int (length ind)" "length ind \<le> 2 ^ 31"
  shows "\<exists>ind'. nms_keep P boxes bo sizes so io idx (ind, int (length kept)) =
      Some (ind', int (length (keep_step (clashes P boxes bo sizes so) kept idx))) \<and>
    seg io (keep_step (clashes P boxes bo sizes so) kept idx) ind' \<and> same_outside io (io + n) ind ind'"
proof -
  let ?ov = "\<lambda>k. do { kept_idx \<leftarrow> ld ind (io + k); JaccardOverlap boxes bo sizes so idx kept_idx }"
  have "?ov k = Some (overlap_of boxes bo sizes so idx (kept ! nat k))" if "k \<in> set [0..int (length kept) - 1]" for k
  proof -
    have k: "0 \<le> k" "k < int (length kept)" using that by auto
    then have "kept ! nat k \<in> {0..<n}" using kept(1) by (meson nth_mem nat_less_iff subsetD)
    then show ?thesis
      using seg_ld [OF ind(1) k ind(3)] JaccardOverlap_total [OF box idx, of "kept ! nat k"]
      by (simp add: overlap_of_def)
  qed
  then have "overlaps ?ov (nms_threshold P) [0..int (length kept) - 1] =
      Some (\<exists>k \<in> set [0..int (length kept) - 1]. overlap_of boxes bo sizes so idx (kept ! nat k) > nms_threshold P)"
    by (rule overlaps_total)
  also have "(\<exists>k \<in> set [0..int (length kept) - 1]. overlap_of boxes bo sizes so idx (kept ! nat k) > nms_threshold P) \<longleftrightarrow>
      (\<exists>k \<in> set kept. clashes P boxes bo sizes so idx k)"
  proof
    assume "\<exists>k \<in> set [0..int (length kept) - 1]. overlap_of boxes bo sizes so idx (kept ! nat k) > nms_threshold P"
    then obtain k where "0 \<le> k" "k < int (length kept)" "overlap_of boxes bo sizes so idx (kept ! nat k) > nms_threshold P" by auto
    then show "\<exists>k \<in> set kept. clashes P boxes bo sizes so idx k"
      unfolding clashes_def by (intro bexI [of _ "kept ! nat k"]) (auto simp: nat_less_iff)
  next
    assume "\<exists>k \<in> set kept. clashes P boxes bo sizes so idx k"
    then obtain i where "i < length kept" "clashes P boxes bo sizes so idx (kept ! i)" by (auto simp: in_set_conv_nth)
    then show "\<exists>k \<in> set [0..int (length kept) - 1]. overlap_of boxes bo sizes so idx (kept ! nat k) > nms_threshold P"
      unfolding clashes_def by (intro bexI [of _ "int i"]) auto
  qed
  finally have o: "overlaps ?ov (nms_threshold P) [0..int (length kept) - 1] = Some (\<exists>k \<in> set kept. clashes P boxes bo sizes so idx k)" .
  show ?thesis
  proof (cases "\<exists>k \<in> set kept. clashes P boxes bo sizes so idx k")
    case True
    then show ?thesis using ind by (simp add: nms_keep_def o keep_step_def)
  next
    case False
    have "\<exists>d'. st ind (io + int (length kept)) idx = Some d' \<and> seg io (kept @ [idx]) d' \<and> same_outside io (io + n) ind d'"
      using ind kept(2) by (intro seg_st) auto
    then show ?thesis using False by (auto simp: nms_keep_def o keep_step_def)
  qed
qed

lemma nms_loop:
  assumes box: "0 \<le> bo" "bo + 4 * n \<le> int (length boxes)" "length boxes \<le> 2 ^ 31"
      "0 \<le> so" "so + n \<le> int (length sizes)" "length sizes \<le> 2 ^ 31"
    and xs: "set xs \<subseteq> {0..<n}" "int (length xs) \<le> n"
    and buf: "seg uo xs buf" "length buf \<le> 2 ^ 31"
    and ind: "0 \<le> io" "io + n \<le> int (length ind)" "length ind \<le> 2 ^ 31"
  shows "\<exists>ind'. for_loop 0 (int (length xs)) (\<lambda>i s. do { idx \<leftarrow> ld buf (uo + i); nms_keep P boxes bo sizes so io idx s }) (ind, 0) =
      Some (ind', int (length (greedy (clashes P boxes bo sizes so) xs))) \<and>
    seg io (greedy (clashes P boxes bo sizes so) xs) ind' \<and> same_outside io (io + n) ind ind'"
proof -
  let ?g = "\<lambda>i. greedy (clashes P boxes bo sizes so) (take (nat i) xs)"
  let ?I = "\<lambda>i (ind', det). det = int (length (?g i)) \<and> seg io (?g i) ind' \<and> same_outside io (io + n) ind ind'"
  let ?body = "\<lambda>i s. do { idx \<leftarrow> ld buf (uo + i); nms_keep P boxes bo sizes so io idx s }"
  have "\<exists>r. for_loop 0 (int (length xs)) ?body (ind, 0) = Some r \<and> ?I (int (length xs)) r"
  proof (rule for_loop_inv [where P = ?I])
    show "?I 0 (ind, 0)" using ind xs by (simp add: seg_Nil)
  next
    fix i s assume i: "0 \<le> i" "i < int (length xs)" and inv: "?I i s"
    obtain ind1 det where s: "s = (ind1, det)" by fastforce
    have idx: "xs ! nat i \<in> {0..<n}" using xs(1) i by (meson nth_mem nat_less_iff subsetD)
    have g: "set (?g i) \<subseteq> {0..<n}"
      using greedy_set [of _ "take (nat i) xs"] set_take_subset [of "nat i" xs] xs(1) by (meson subset_trans)
    have "length (?g i) \<le> length (take (nat i) xs)" by (rule greedy_length)
    then have g2: "int (length (?g i)) < n" using xs(2) i by simp
    have "?g (i + 1) = keep_step (clashes P boxes bo sizes so) (?g i) (xs ! nat i)"
      using i by (simp add: nat_add_distrib take_Suc_conv_app_nth nat_less_iff greedy_snoc)
    moreover have "\<exists>ind'. nms_keep P boxes bo sizes so io (xs ! nat i) (ind1, int (length (?g i))) =
        Some (ind', int (length (keep_step (clashes P boxes bo sizes so) (?g i) (xs ! nat i)))) \<and>
        seg io (keep_step (clashes P boxes bo sizes so) (?g i) (xs ! nat i)) ind' \<and> same_outside io (io + n) ind1 ind'"
      using idx g g2 ind inv same_outside_length [of io "io + n" ind ind1]
      by (intro nms_keep_step box) (auto simp: s)
    ultimately show "\<exists>s'. ?body i s = Some s' \<and> ?I (i + 1) s'"
      using seg_ld [OF buf(1) i buf(2)] inv by (auto simp: s intro: same_outside_trans)
  qed simp
  then show ?thesis by auto
qed

section \<open>Keeping the best detections of an image\<close>

text \<open>\<open>holds\<close>: the counts and index ranges of image \<open>n\<close> represent the index lists \<open>f c\<close> of its classes.\<close>

definition class_base :: "detout \<Rightarrow> int \<Rightarrow> int \<Rightarrow> int" where
  "class_base P n c = n * num_classes P * num_priors P + c * num_priors P"

definition room :: "detout \<Rightarrow> int \<Rightarrow> detout_bufs \<Rightarrow> bool" where
  "room P n b \<longleftrightarrow> 0 \<le> n \<and> 0 \<le> num_classes P \<and> 0 \<le> num_priors P \<and>
     (n + 1) * num_classes P \<le> int (length (detections_count b)) \<and> length (detections_count b) \<le> 2 ^ 31 \<and>
     (n + 1) * num_classes P * num_priors P \<le> int (length (nms_indices b)) \<and> length (nms_indices b) \<le> 2 ^ 31 \<and>
     (n + 1) * num_classes P * num_priors P \<le> int (length (reordered_conf b)) \<and> length (reordered_conf b) \<le> 2 ^ 31"

definition holds :: "detout \<Rightarrow> int \<Rightarrow> detout_bufs \<Rightarrow> (int \<Rightarrow> int list) \<Rightarrow> bool" where
  "holds P n b f \<longleftrightarrow> (\<forall>c. 0 \<le> c \<and> c < num_classes P \<longrightarrow>
     ld (detections_count b) (n * num_classes P + c) = Some (int (length (f c))) \<and>
     seg (class_base P n c) (f c) (nms_indices b) \<and> set (f c) \<subseteq> {0..<num_priors P} \<and> int (length (f c)) \<le> num_priors P)"

definition scored :: "detout \<Rightarrow> int \<Rightarrow> detout_bufs \<Rightarrow> int \<Rightarrow> int \<Rightarrow> f32 \<times> int \<times> int" where
  "scored P n b c i = (reordered_conf b ! nat (class_base P n c + i), c, i)"

lemma class_base_bound:
  assumes "room P n b" "0 \<le> c" "c < num_classes P" "0 \<le> i" "i < num_priors P"
  shows "0 \<le> class_base P n c + i" "class_base P n c + num_priors P \<le> (n + 1) * num_classes P * num_priors P"
proof -
  have "0 \<le> n * num_classes P * num_priors P" "0 \<le> c * num_priors P" using assms by (simp_all add: room_def)
  then show "0 \<le> class_base P n c + i" using assms(4) by (simp add: class_base_def)
  have "c * num_priors P + num_priors P = (c + 1) * num_priors P" by (simp add: algebra_simps)
  also have "\<dots> \<le> num_classes P * num_priors P" using assms by (intro mult_right_mono) simp_all
  finally show "class_base P n c + num_priors P \<le> (n + 1) * num_classes P * num_priors P"
    by (simp add: class_base_def algebra_simps)
qed

lemma image_detections_eq:
  assumes r: "room P n b" and h: "holds P n b f"
  shows "image_detections P n b = Some (concat (map (\<lambda>c. map (scored P n b c) (f c)) [0..num_classes P - 1]))"
proof -
  have row: "(do { let no = n * num_classes P * num_priors P + c * num_priors P;
        det \<leftarrow> ld (detections_count b) (n * num_classes P + c);
        mapm (\<lambda>i. do {
          idx \<leftarrow> ld (nms_indices b) (no + i);
          s \<leftarrow> ld (reordered_conf b) (no + idx);
          Some (s, c, idx) }) [0..det - 1] }) = Some (map (scored P n b c) (f c))"
    if "c \<in> set [0..num_classes P - 1]" for c
  proof -
    have c: "0 \<le> c" "c < num_classes P" using that by auto
    with h have hc: "ld (detections_count b) (n * num_classes P + c) = Some (int (length (f c)))"
      "seg (class_base P n c) (f c) (nms_indices b)" "set (f c) \<subseteq> {0..<num_priors P}" by (simp_all add: holds_def)
    have "mapm (\<lambda>i. do { idx \<leftarrow> ld (nms_indices b) (class_base P n c + i);
          s \<leftarrow> ld (reordered_conf b) (class_base P n c + idx);
          Some (s, c, idx) }) [0..int (length (f c)) - 1] =
        Some (map (\<lambda>i. scored P n b c (f c ! nat i)) [0..int (length (f c)) - 1])"
    proof (rule mapm_total)
      fix i assume "i \<in> set [0..int (length (f c)) - 1]"
      then have i: "0 \<le> i" "i < int (length (f c))" by auto
      have idx: "ld (nms_indices b) (class_base P n c + i) = Some (f c ! nat i)"
        using hc(2) i r by (intro seg_ld) (auto simp: room_def)
      have "f c ! nat i \<in> set (f c)" using i by (simp add: nat_less_iff)
      with hc(3) have m: "0 \<le> f c ! nat i" "f c ! nat i < num_priors P" by auto
      have "ld (reordered_conf b) (class_base P n c + f c ! nat i) =
          Some (reordered_conf b ! nat (class_base P n c + f c ! nat i))"
        using class_base_bound [OF r c m] m r
        by (intro ld_in [where k = "(n + 1) * num_classes P * num_priors P"]) (auto simp: room_def)
      then show "(do { idx \<leftarrow> ld (nms_indices b) (class_base P n c + i);
          s \<leftarrow> ld (reordered_conf b) (class_base P n c + idx); Some (s, c, idx) }) =
          Some (scored P n b c (f c ! nat i))" by (simp add: idx scored_def)
    qed
    moreover have "map (\<lambda>i. scored P n b c (f c ! nat i)) [0..int (length (f c)) - 1] = map (scored P n b c) (f c)"
      by (intro nth_equalityI) (auto simp: nth_upto)
    ultimately show ?thesis using hc(1) by (simp add: class_base_def Let_def)
  qed
  show ?thesis unfolding image_detections_def
    by (subst mapm_total [where g = "\<lambda>c. map (scored P n b c) (f c)"], erule row) simp
qed

text \<open>One stored detection.\<close>

lemma store_one:
  assumes r: "room P n b" and h: "holds P n b f" and l: "0 \<le> l" "l < num_classes P"
    and i: "0 \<le> i" "i < num_priors P" and full: "int (length (f l)) < num_priors P"
  shows "\<exists>b'. (do {
       k \<leftarrow> ld (detections_count b) (n * num_classes P + l);
       ind \<leftarrow> st (nms_indices b) (n * num_classes P * num_priors P + l * num_priors P + k) i;
       dc \<leftarrow> st (detections_count b) (n * num_classes P + l) (k + 1);
       Some (b\<lparr>nms_indices := ind, detections_count := dc\<rparr>) }) = Some b' \<and>
    room P n b' \<and> holds P n b' (f(l := f l @ [i])) \<and> reordered_conf b' = reordered_conf b"
proof -
  from h l have hl: "ld (detections_count b) (n * num_classes P + l) = Some (int (length (f l)))"
    "seg (class_base P n l) (f l) (nms_indices b)" by (simp_all add: holds_def)
  have "class_base P n l + num_priors P \<le> int (length (nms_indices b))"
    using class_base_bound(2) [OF r l i] r by (simp add: room_def)
  then obtain ind where ind: "st (nms_indices b) (class_base P n l + int (length (f l))) i = Some ind"
    "seg (class_base P n l) (f l @ [i]) ind" "same_outside (class_base P n l) (class_base P n l + num_priors P) (nms_indices b) ind"
    using seg_st [OF hl(2), of "class_base P n l + num_priors P" i] full r by (auto simp: room_def)
  obtain dc where dc: "st (detections_count b) (n * num_classes P + l) (int (length (f l)) + 1) = Some dc"
    using hl(1) by (auto simp: ld_def st_def split: if_splits)
  let ?b = "b\<lparr>nms_indices := ind, detections_count := dc\<rparr>"
  have "room P n ?b" using r same_outside_length [OF ind(3)] st_length [OF dc] by (simp add: room_def)
  moreover have "holds P n ?b (f(l := f l @ [i]))"
    unfolding holds_def
  proof (intro allI impI)
    fix c assume c: "0 \<le> c \<and> c < num_classes P"
    show "ld (detections_count ?b) (n * num_classes P + c) = Some (int (length ((f(l := f l @ [i])) c))) \<and>
     seg (class_base P n c) ((f(l := f l @ [i])) c) (nms_indices ?b) \<and> set ((f(l := f l @ [i])) c) \<subseteq> {0..<num_priors P} \<and>
     int (length ((f(l := f l @ [i])) c)) \<le> num_priors P"
    proof (cases "c = l")
      case True
      then show ?thesis using ind(2) ld_st [OF dc] h c i full by (auto simp: holds_def)
    next
      case False
      have len: "int (length (f c)) \<le> num_priors P" using h c by (simp add: holds_def)
      have "class_base P n c + num_priors P \<le> class_base P n l \<or> class_base P n l + num_priors P \<le> class_base P n c"
      proof (cases "c < l")
        case True
        then have "(c + 1) * num_priors P \<le> l * num_priors P" using r by (intro mult_right_mono) (auto simp: room_def)
        then show ?thesis by (simp add: class_base_def algebra_simps)
      next
        case F: False
        then have "(l + 1) * num_priors P \<le> c * num_priors P" using r False by (intro mult_right_mono) (auto simp: room_def)
        then show ?thesis by (simp add: class_base_def algebra_simps)
      qed
      then have "seg (class_base P n c) (f c) ind"
        using h c len by (intro seg_same_outside [OF _ ind(3)]) (auto simp: holds_def)
      then show ?thesis using False ld_st [OF dc] h c by (auto simp: holds_def)
    qed
  qed
  moreover have "(do {
       k \<leftarrow> ld (detections_count b) (n * num_classes P + l);
       ind \<leftarrow> st (nms_indices b) (n * num_classes P * num_priors P + l * num_priors P + k) i;
       dc \<leftarrow> st (detections_count b) (n * num_classes P + l) (k + 1);
       Some (b\<lparr>nms_indices := ind, detections_count := dc\<rparr>) }) = Some ?b"
    using hl(1) ind(1) dc by (simp add: class_base_def)
  ultimately show ?thesis by (intro exI [of _ ?b]) simp
qed

definition of_class :: "(f32 \<times> int \<times> int) list \<Rightarrow> int \<Rightarrow> int list" where
  "of_class ks c = map (snd \<circ> snd) (filter (\<lambda>x. fst (snd x) = c) ks)"

lemma store_kept_holds:
  assumes r: "room P n b"
    and ks: "\<forall>x \<in> set ks. 0 \<le> fst (snd x) \<and> fst (snd x) < num_classes P \<and> 0 \<le> snd (snd x) \<and> snd (snd x) < num_priors P"
    and few: "\<And>c. int (length (of_class ks c)) \<le> num_priors P"
  shows "\<exists>b'. store_kept P n ks b = Some b' \<and> room P n b' \<and> holds P n b' (of_class ks) \<and>
    reordered_conf b' = reordered_conf b"
proof -
  let ?z = "replicate (nat (num_classes P)) (0::int)"
  have "0 \<le> n * num_classes P" "n * num_classes P + int (length ?z) = (n + 1) * num_classes P"
    using r by (simp_all add: room_def algebra_simps)
  then obtain dc0 where dc0: "st_run (detections_count b) (n * num_classes P) ?z = Some dc0"
      "seg (n * num_classes P) ?z dc0" "same_outside (n * num_classes P) ((n + 1) * num_classes P) (detections_count b) dc0"
    using st_run_seg [of "n * num_classes P" ?z "(n + 1) * num_classes P" "detections_count b"] r by (auto simp: room_def)
  let ?b0 = "b\<lparr>detections_count := dc0\<rparr>"
  have len: "length dc0 = length (detections_count b)" using dc0(3) by (rule same_outside_length)
  have r0: "room P n ?b0" using r len by (simp add: room_def)
  have h0: "holds P n ?b0 (of_class [])"
    unfolding holds_def
  proof (intro allI impI)
    fix c assume c: "0 \<le> c \<and> c < num_classes P"
    have "ld dc0 (n * num_classes P + c) = Some 0"
      using seg_ld [OF dc0(2), of c] c r len by (simp add: room_def)
    moreover have "seg (class_base P n c) [] (nms_indices b)"
    proof (rule seg_Nil)
      show "0 \<le> class_base P n c" using r c by (simp add: class_base_def room_def)
      have "(c + 1) * num_priors P \<le> num_classes P * num_priors P" using r c by (intro mult_right_mono) (auto simp: room_def)
      moreover have "0 \<le> num_priors P" using r by (simp add: room_def)
      ultimately have "class_base P n c \<le> (n + 1) * num_classes P * num_priors P"
        by (simp add: class_base_def algebra_simps)
      then show "class_base P n c \<le> int (length (nms_indices b))" using r by (simp add: room_def)
    qed
    ultimately show "ld (detections_count ?b0) (n * num_classes P + c) = Some (int (length (of_class [] c))) \<and>
       seg (class_base P n c) (of_class [] c) (nms_indices ?b0) \<and> set (of_class [] c) \<subseteq> {0..<num_priors P} \<and>
       int (length (of_class [] c)) \<le> num_priors P" using r by (simp add: of_class_def room_def)
  qed
  let ?step = "\<lambda>(s, label, idx) b1. do {
       k \<leftarrow> ld (detections_count b1) (n * num_classes P + label);
       ind \<leftarrow> st (nms_indices b1) (n * num_classes P * num_priors P + label * num_priors P + k) idx;
       dc \<leftarrow> st (detections_count b1) (n * num_classes P + label) (k + 1);
       Some (b1\<lparr>nms_indices := ind, detections_count := dc\<rparr>) }"
  let ?I = "\<lambda>k b1. room P n b1 \<and> holds P n b1 (of_class (take k ks)) \<and> reordered_conf b1 = reordered_conf b"
  have "\<exists>b'. foldm ?step ks ?b0 = Some b' \<and> ?I (length ks) b'"
  proof (rule foldm_inv [where P = ?I])
    show "?I 0 ?b0" using r0 h0 by simp
  next
    fix k b1 assume k: "k < length ks" and inv: "?I k b1"
    obtain s l i where x: "ks ! k = (s, l, i)" by (metis prod_cases3)
    with ks k have li: "0 \<le> l" "l < num_classes P" "0 \<le> i" "i < num_priors P" by (metis fst_conv nth_mem snd_conv)+
    have suc: "of_class (take (Suc k) ks) = (of_class (take k ks))(l := of_class (take k ks) l @ [i])"
      using k x by (auto simp: of_class_def take_Suc_conv_app_nth fun_eq_iff)
    have "length (of_class (take (Suc k) ks) l) \<le> length (of_class ks l)"
      unfolding of_class_def length_map by (metis append_take_drop_id filter_append le_add1 length_append)
    with few [of l] suc have "int (length (of_class (take k ks) l)) < num_priors P" by simp
    then show "\<exists>b'. ?step (ks ! k) b1 = Some b' \<and> ?I (Suc k) b'"
      using store_one [of P n b1 "of_class (take k ks)" l i] inv li unfolding x suc by auto
  qed
  then show ?thesis using dc0(1) by (auto simp: store_kept_def)
qed

lemma mset_by_class:
  assumes "\<forall>x \<in> set ks. 0 \<le> lab x \<and> lab x < m"
  shows "mset (concat (map (\<lambda>c. filter (\<lambda>x. lab x = c) ks) [0..m - 1])) = mset ks"
  using assms
proof (induction ks)
  case (Cons x ks)
  let ?F = "\<lambda>c. filter (\<lambda>x. lab x = c) ks"
  have "mset (concat (map (\<lambda>c. filter (\<lambda>y. lab y = c) (x # ks)) cs)) =
      mset (concat (map ?F cs)) + (if lab x \<in> set cs then {#x#} else {#})" if "distinct cs" for cs
    using that by (induction cs) (auto split: if_splits)
  from this [of "[0..m - 1]"] Cons show ?case by simp
next
  case Nil
  have "concat (map (\<lambda>c. []) cs) = []" for cs :: "int list" by (induction cs) simp_all
  then show ?case by simp
qed

section \<open>Properties\<close>

text \<open>C8. \<^verbatim>\<open>nms\<close>, started with no detections, stays inside its buffers and leaves at the start of the
  class's index range exactly the greedy choice: the priors with a confidence above the threshold are
  ranked by confidence (at most \<open>top_k\<close> of them), and a prior is kept if and only if its overlap with
  no kept prior of higher rank exceeds \<open>nms_threshold\<close>. The index ranges of the other classes are not
  touched.\<close>
theorem nms_is_greedy:
  fixes P :: detout and cdata :: "f32 list" and co n :: int
  defines "rank \<equiv> ranked P (\<lambda>i. cdata ! nat (co + i)) n"
  assumes n: "0 \<le> n" "- 1 \<le> det_top_k P"
    and conf: "0 \<le> co" "co + n \<le> int (length cdata)" "length cdata \<le> 2 ^ 31"
    and box: "0 \<le> bo" "bo + 4 * n \<le> int (length boxes)" "length boxes \<le> 2 ^ 31"
      "0 \<le> so" "so + n \<le> int (length sizes)" "length sizes \<le> 2 ^ 31"
    and buf: "0 \<le> uo" "uo + n \<le> int (length buffer)" "length buffer \<le> 2 ^ 31"
    and ind: "0 \<le> io" "io + n \<le> int (length indices)" "length indices \<le> 2 ^ 31"
  shows "\<exists>buffer' indices' kept. nms P cdata co boxes bo sizes so buffer uo indices io 0 n =
      Some (buffer', indices', int (length kept)) \<and>
    seg io kept indices' \<and> same_outside io (io + n) indices indices' \<and> subseq kept rank \<and>
    (\<forall>j < length kept. \<forall>i < j. \<not> clashes P boxes bo sizes so (kept ! j) (kept ! i)) \<and>
    (\<forall>i < length rank. rank ! i \<in> set kept \<or>
       (\<exists>j < i. rank ! j \<in> set kept \<and> clashes P boxes bo sizes so (rank ! i) (rank ! j)))"
proof -
  let ?s = "\<lambda>i. cdata ! nat (co + i)"
  let ?c = "candidates P ?s n"
  let ?m = "if det_top_k P = - 1 then int (length ?c) else min (det_top_k P) (int (length ?c))"
  from nms_candidates_eq [OF n(1) conf ind] obtain ind1 where
    1: "nms_candidates P cdata co io n indices = Some (ind1, int (length ?c))" "seg io ?c ind1"
       "same_outside io (io + n) indices ind1" by blast
  have len1: "length ind1 = length indices" using 1(3) by (rule same_outside_length)
  have cand: "ld_run ind1 io (int (length ?c)) = Some ?c" using 1(2) ind len1 by (intro seg_ld_run) simp_all
  have m: "\<not> ?m < 0" "nat ?m = (if det_top_k P = - 1 then length ?c else min (nat (det_top_k P)) (length ?c))"
    using n(2) by (auto simp: min_def)
  have rank: "take (nat ?m) (conf_order ?s ?c) = rank" "int (length rank) = ?m"
  proof -
    show r: "take (nat ?m) (conf_order ?s ?c) = rank" unfolding rank_def ranked_def Let_def m(2) by simp
    show "int (length rank) = ?m" unfolding r [symmetric] using n(2) by (auto simp: conf_order_def min_def)
  qed
  have rr: "set rank \<subseteq> {0..<n}" "int (length rank) \<le> n"
    unfolding rank_def using ranked_range ranked_length [OF n(1)] by auto
  from st_run_seg [of uo rank "uo + n" buffer] buf rr(2) obtain buf1 where
    2: "st_run buffer uo rank = Some buf1" "seg uo rank buf1" "same_outside uo (uo + n) buffer buf1" by auto
  have b1: "length buf1 \<le> 2 ^ 31" using same_outside_length [OF 2(3)] buf(3) by simp
  have ind1: "io + n \<le> int (length ind1)" "length ind1 \<le> 2 ^ 31" using ind len1 by simp_all
  from nms_loop [OF box rr 2(2) b1 ind(1) ind1, of P] obtain ind2 where
    3: "for_loop 0 (int (length rank)) (\<lambda>i s. do { idx \<leftarrow> ld buf1 (uo + i); nms_keep P boxes bo sizes so io idx s }) (ind1, 0) =
        Some (ind2, int (length (greedy (clashes P boxes bo sizes so) rank)))"
       "seg io (greedy (clashes P boxes bo sizes so) rank) ind2" "same_outside io (io + n) ind1 ind2" by blast
  have "nms P cdata co boxes bo sizes so buffer uo indices io 0 n =
      Some (buf1, ind2, int (length (greedy (clashes P boxes bo sizes so) rank)))"
    using m(1) 3(1) unfolding rank(2) by (simp add: nms_def 1(1) cand rank(1) 2(1) Let_def)
  then show ?thesis
    using 3(2) same_outside_trans [OF 1(3) 3(3)] greedy_subseq [of _ rank] greedy_independent greedy_complete by blast
qed

text \<open>C14. When an image has more detections than \<open>keep_top_k\<close>, what the layer keeps of them is exactly
  \<open>keep_top_k\<close> detections with the highest scores: the detections after the selection together with
  the ones left out are the detections before, and none left out has a higher score. The selection
  rewrites the counts and the index ranges of the classes consistently, whatever order the sort
  gives to equal scores.\<close>
theorem keep_best_selects:
  assumes b: "room P n b" "holds P n b f" and np: "0 \<le> num_priors P"
    and sort: "\<And>xs. mset (std_sort xs) = mset xs" "\<And>xs. sorted_wrt (\<lambda>x y. fst y \<le> fst x) (std_sort xs)"
    and before: "image_detections P n b = Some before"
    and more: "0 \<le> keep_top_k P" "keep_top_k P < int (length before)"
  shows "\<exists>b' after rest. keep_best std_sort P n b = Some b' \<and> image_detections P n b' = Some after \<and>
    int (length after) = keep_top_k P \<and> mset before = mset after + mset rest \<and>
    (\<forall>x \<in> set after. \<forall>y \<in> set rest. fst y \<le> fst x)"
proof -
  let ?all = "concat (map (\<lambda>c. map (scored P n b c) (f c)) [0..num_classes P - 1])"
  let ?ks = "take (nat (keep_top_k P)) (std_sort before)" and ?rest = "drop (nat (keep_top_k P)) (std_sort before)"
  have all: "before = ?all" using image_detections_eq [OF b] before by simp
  have counts: "ld_run (detections_count b) (n * num_classes P) (num_classes P) = Some (map (\<lambda>c. int (length (f c))) [0..num_classes P - 1])"
    unfolding ld_run_def using b(2) by (intro mapm_total) (auto simp: holds_def)
  have total: "sum_list (map (\<lambda>c. int (length (f c))) [0..num_classes P - 1]) = int (length before)"
  proof -
    have "sum_list (map (\<lambda>c. int (length (f c))) cs) = int (length (concat (map (\<lambda>c. map (scored P n b c) (f c)) cs)))" for cs
      by (induction cs) simp_all
    then show ?thesis by (simp add: all)
  qed
  have mem: "0 \<le> fst (snd x) \<and> fst (snd x) < num_classes P \<and> 0 \<le> snd (snd x) \<and> snd (snd x) < num_priors P \<and>
      x = scored P n b (fst (snd x)) (snd (snd x))" if "x \<in> set before" for x
    using that b(2) unfolding all holds_def scored_def by (fastforce simp: subset_iff)
  have sub: "set ?ks \<subseteq> set before" using sort(1) [of before] by (metis set_mset_mset set_take_subset)
  have few: "int (length (of_class ?ks c)) \<le> num_priors P" for c
  proof -
    have "length (filter (\<lambda>x. fst (snd x) = c) ?ks) \<le> length (filter (\<lambda>x. fst (snd x) = c) (std_sort before))"
      by (metis append_take_drop_id filter_append le_add1 length_append)
    also have "\<dots> = length (filter (\<lambda>x. fst (snd x) = c) before)"
      using sort(1) [of before] by (metis mset_filter size_mset)
    also have "int \<dots> \<le> num_priors P"
    proof -
      have "length (filter (\<lambda>x. fst (snd x) = c) (concat (map (\<lambda>c. map (scored P n b c) (f c)) cs))) =
          (if c \<in> set cs then length (f c) else 0)" if "distinct cs" for cs
        using that by (induction cs) (auto simp: scored_def comp_def filter_empty_conv)
      from this [of "[0..num_classes P - 1]"] show ?thesis using b(2) np unfolding all by (auto simp: holds_def)
    qed
    finally show ?thesis by (simp add: of_class_def)
  qed
  from store_kept_holds [OF b(1) _ few] sub mem obtain b' where
    st: "store_kept P n ?ks b = Some b'" and b': "room P n b'" "holds P n b' (of_class ?ks)" "reordered_conf b' = reordered_conf b"
    by (metis (no_types, lifting) subsetD)
  have "map (scored P n b' c) (of_class ?ks c) = filter (\<lambda>x. fst (snd x) = c) ?ks" for c
  proof -
    have "scored P n b' c (snd (snd x)) = x" if "x \<in> set ?ks" "fst (snd x) = c" for x
      using mem [of x] sub that b'(3) by (metis scored_def subsetD)
    then show ?thesis unfolding of_class_def map_map by (intro map_idI) auto
  qed
  then have after: "image_detections P n b' = Some (concat (map (\<lambda>c. filter (\<lambda>x. fst (snd x) = c) ?ks) [0..num_classes P - 1]))"
    (is "_ = Some ?after") using image_detections_eq [OF b'(1,2)] by simp
  have m: "mset ?after = mset ?ks" using mem sub by (intro mset_by_class) blast
  have "mset before = mset ?ks + mset ?rest" using sort(1) [of before] by (metis append_take_drop_id mset_append)
  moreover have "\<forall>x \<in> set ?ks. \<forall>y \<in> set ?rest. fst y \<le> fst x"
    using sort(2) [of before] by (metis append_take_drop_id sorted_wrt_append)
  moreover have "int (length ?after) = keep_top_k P"
    using m more sort(1) [of before] by (metis (no_types, lifting) int_nat_eq length_take less_imp_le min.absorb2 nat_le_iff size_mset)
  moreover have "keep_best std_sort P n b = Some b'"
    using counts total more before st by (simp add: keep_best_def)
  ultimately show ?thesis using after m by (metis (no_types, lifting) set_mset_mset)
qed

text \<open>With the default \<open>keep_top_k\<close> of -1 the layer never delivers a detection: the size it computes
  for the result is negative, as an unsigned number it exceeds every buffer, and the call is answered
  with \<^verbatim>\<open>OUT_OF_BOUNDS\<close> and an untouched result.\<close>
theorem default_keep_top_k_fails:
  assumes "keep_top_k P = - 1" "0 < N" "28 * N + 4 * int (length dst) < 2 ^ 64"
    and "detout_execute expf std_sort P N loc cdata prior 7 dst bufs = Some (code, dst', bufs')"
  shows "code = OUT_OF_BOUNDS \<and> dst' = dst"
proof -
  let ?w = "word_of_int (N * - 1 * 7) * 4 :: u64"
  have "?w = word_of_int (- 28 * N)" by simp
  then have "uint ?w = (- 28 * N) mod 2 ^ 64" by (simp only: uint_word_of_int) simp
  also have "\<dots> = (2 ^ 64 - 28 * N) mod 2 ^ 64" by (metis mod_add_self1 mult_minus_left uminus_add_conv_diff add.commute)
  also have "\<dots> = 2 ^ 64 - 28 * N" using assms(2,3) by (intro mod_pos_pos_trivial) simp_all
  finally have "uint ?w = 2 ^ 64 - 28 * N" .
  moreover have "uint (of_nat (4 * length dst) :: u64) = 4 * int (length dst)"
  proof -
    have "int (4 * length dst) mod 2 ^ 64 = int (4 * length dst)" using assms(2,3) by (intro mod_pos_pos_trivial) simp_all
    then show ?thesis by (simp add: unsigned_of_nat take_bit_eq_mod del: of_nat_mult)
  qed
  ultimately have "?w > of_nat (4 * length dst)" using assms(3) by (simp add: word_less_def)
  then show ?thesis using assms(1,4)
    by (auto simp: detout_execute_def Let_def split: Option.bind_splits if_splits)
qed

section \<open>Witnesses\<close>

definition demo_detout :: "int \<Rightarrow> int \<Rightarrow> int \<Rightarrow> detout" where
  "demo_detout ncls np keep = \<lparr>num_classes = ncls, background_label_id = - 1, det_top_k = - 1,
     variance_encoded_in_target = False, keep_top_k = keep, det_code_type = CORNER, share_location = True,
     normalized = True, image_width = 1, image_height = 1, prior_size = 4, prior_offset = 0,
     nms_threshold = 1 / 2, confidence_threshold = 1 / 10, num_loc_classes = 1, num_priors = np, num_images = 1\<rparr>"

theorem nms_is_greedy_witness:
  "\<exists>buffer' indices' kept. nms (demo_detout 1 2 5) [1 / 4, 3 / 4] 0 [0, 0, 1, 1, 0, 0, 1, 1] 0 [1, 1] 0 [9, 9] 0 [8, 8] 0 0 2 =
      Some (buffer', indices', int (length kept)) \<and> seg 0 kept indices'"
  using nms_is_greedy [of 2 "demo_detout 1 2 5" 0 "[1 / 4, 3 / 4]" 0 "[0, 0, 1, 1, 0, 0, 1, 1]" 0 "[1, 1]" 0 "[9, 9]" 0 "[8, 8]"]
  by (auto simp: demo_detout_def)

definition demo_bufs :: detout_bufs where
  "demo_bufs = \<lparr>decoded_bboxes = [], nms_buffer = [0, 0], nms_indices = [0, 1], detections_count = [2],
     reordered_conf = [1 / 2, 3 / 4], bbox_sizes = [], num_priors_actual = [0]\<rparr>"

theorem keep_best_selects_witness:
  "\<exists>b' after. keep_best (sort_key (\<lambda>x. - fst x)) (demo_detout 1 2 1) 0 demo_bufs = Some b' \<and>
     image_detections (demo_detout 1 2 1) 0 b' = Some after \<and> length after = 1"
proof -
  have r: "room (demo_detout 1 2 1) 0 demo_bufs" by (simp add: room_def demo_detout_def demo_bufs_def)
  have h: "holds (demo_detout 1 2 1) 0 demo_bufs (\<lambda>c. [0, 1])"
    by (auto simp: holds_def demo_detout_def demo_bufs_def ld_def int_ok_def seg_def class_base_def less_Suc_eq nth_Cons')
  have i: "image_detections (demo_detout 1 2 1) 0 demo_bufs = Some [(1 / 2, 0, 0), (3 / 4, 0, 1)]"
    by (simp add: image_detections_eq [OF r h] scored_def class_base_def) (simp add: demo_detout_def demo_bufs_def)
  have s: "sorted_wrt (\<lambda>x y. fst y \<le> fst x) (sort_key (\<lambda>x. - fst x) xs)" for xs :: "(f32 \<times> int \<times> int) list"
    using sorted_sort_key [of "\<lambda>x. - fst x" xs] by (simp add: sorted_map)
  show ?thesis
    using keep_best_selects [OF r h, of "sort_key (\<lambda>x. - fst x)" "[(1 / 2, 0, 0), (3 / 4, 0, 1)]"] i s
    by (auto simp: demo_detout_def)
qed

lemma demo_default_run:
  "\<exists>b'. detout_execute (\<lambda>x. x) (\<lambda>xs. xs) (demo_detout 1 0 (- 1)) 1 [] [] [] 7 [0, 0, 0, 0, 0, 0, 0] demo_bufs =
     Some (OUT_OF_BOUNDS, [0, 0, 0, 0, 0, 0, 0], b')"
  by (simp add: detout_execute_def demo_detout_def demo_bufs_def decode_all_def decodeBBoxes_def reorder_conf_def
      nms_class_def nms_def nms_candidates_def keep_best_def for_loop_def ld_def st_def int_ok_def ld_run_def
      conf_order_def Let_def)

theorem default_keep_top_k_fails_witness:
  "\<exists>code d b'. detout_execute (\<lambda>x. x) (\<lambda>xs. xs) (demo_detout 1 0 (- 1)) 1 [] [] [] 7 [0, 0, 0, 0, 0, 0, 0] demo_bufs =
     Some (code, d, b') \<and> code = OUT_OF_BOUNDS \<and> d = [0, 0, 0, 0, 0, 0, 0]"
proof -
  from demo_default_run obtain code d b' where
    r: "detout_execute (\<lambda>x. x) (\<lambda>xs. xs) (demo_detout 1 0 (- 1)) 1 [] [] [] 7 [0, 0, 0, 0, 0, 0, 0] demo_bufs = Some (code, d, b')"
    by blast
  have "code = OUT_OF_BOUNDS \<and> d = [0, 0, 0, 0, 0, 0, 0]"
    by (rule default_keep_top_k_fails [OF _ _ _ r]) (simp_all add: demo_detout_def)
  with r show ?thesis by blast
qed

end
