(* ===== verification/DftTables.thy ===== *)
theory DftTables
  imports Buffers FloatBits
begin

text \<open>
  \<^verbatim>\<open>kcftracker.cpp\<close>: the tables of the mixed-radix Fourier transform that the GPU kernels of the
  tracker read: the factors of the size, the digit-reversal permutation \<open>itab\<close> and the roots of
  unity \<open>wave\<close>. The arrays of the caller are buffers; the local arrays of \<^verbatim>\<open>DFTInit\<close> start without a
  value, so reading an element that was not written is undefined. \<^verbatim>\<open>sin\<close> and \<^verbatim>\<open>sqrtf\<close> are arguments.

  \<^verbatim>\<open>DFTInit\<close> is modelled with \<open>inv_itab = 0\<close>, the only value its callers pass.
\<close>

unbundle bit_operations_syntax

section \<open>Bit reversal\<close>

definition bitrevTab :: "int list" where
  "bitrevTab =
    [0, 128, 64, 192, 32, 160, 96, 224, 16, 144, 80, 208, 48, 176, 112, 240,
     8, 136, 72, 200, 40, 168, 104, 232, 24, 152, 88, 216, 56, 184, 120, 248,
     4, 132, 68, 196, 36, 164, 100, 228, 20, 148, 84, 212, 52, 180, 116, 244,
     12, 140, 76, 204, 44, 172, 108, 236, 28, 156, 92, 220, 60, 188, 124, 252,
     2, 130, 66, 194, 34, 162, 98, 226, 18, 146, 82, 210, 50, 178, 114, 242,
     10, 138, 74, 202, 42, 170, 106, 234, 26, 154, 90, 218, 58, 186, 122, 250,
     6, 134, 70, 198, 38, 166, 102, 230, 22, 150, 86, 214, 54, 182, 118, 246,
     14, 142, 78, 206, 46, 174, 110, 238, 30, 158, 94, 222, 62, 190, 126, 254,
     1, 129, 65, 193, 33, 161, 97, 225, 17, 145, 81, 209, 49, 177, 113, 241,
     9, 137, 73, 201, 41, 169, 105, 233, 25, 153, 89, 217, 57, 185, 121, 249,
     5, 133, 69, 197, 37, 165, 101, 229, 21, 149, 85, 213, 53, 181, 117, 245,
     13, 141, 77, 205, 45, 173, 109, 237, 29, 157, 93, 221, 61, 189, 125, 253,
     3, 131, 67, 195, 35, 163, 99, 227, 19, 147, 83, 211, 51, 179, 115, 243,
     11, 139, 75, 203, 43, 171, 107, 235, 27, 155, 91, 219, 59, 187, 123, 251,
     7, 135, 71, 199, 39, 167, 103, 231, 23, 151, 87, 215, 55, 183, 119, 247,
     15, 143, 79, 207, 47, 175, 111, 239, 31, 159, 95, 223, 63, 191, 127, 255]"

text \<open>The macro, for a non-negative index; the shift is that of an unsigned word.\<close>

definition BitRev :: "int \<Rightarrow> nat \<Rightarrow> int option" where
  "BitRev i shift = do {
     a \<leftarrow> ld bitrevTab (i AND 255);
     b \<leftarrow> ld bitrevTab ((drop_bit 8 i) AND 255);
     c \<leftarrow> ld bitrevTab ((drop_bit 16 i) AND 255);
     d \<leftarrow> ld bitrevTab (drop_bit 24 i);
     let w = push_bit 24 (word_of_int a :: u32) + push_bit 16 (word_of_int b) + push_bit 8 (word_of_int c) + word_of_int d;
     Some (sint (drop_bit shift w)) }"

section \<open>Factorisation\<close>

text \<open>\<^verbatim>\<open>(((n - 1)^n)+1) >> 1\<close>\<close>

definition low_factor :: "int \<Rightarrow> int" where
  "low_factor n = drop_bit 1 (((n - 1) XOR n) + 1)"

partial_function (option) odd_loop :: "int \<Rightarrow> int \<Rightarrow> int list \<Rightarrow> int \<Rightarrow> (int list \<times> int \<times> int) option" where
  "odd_loop f n factors nf =
     (if n > 1 then
        let d = cquot n f in
        if d * f = n then do {
          factors1 \<leftarrow> st factors nf f;
          odd_loop f d factors1 (nf + 1) }
        else if \<not> int_ok ((f + 2) * (f + 2)) then None
        else if (f + 2) * (f + 2) > n then Some (factors, nf, n)
        else odd_loop (f + 2) n factors nf
      else Some (factors, nf, n))"

definition swap_loop :: "int \<Rightarrow> int \<Rightarrow> int list \<Rightarrow> int list option" where
  "swap_loop f nf factors =
     for_loop f (cquot (nf + f) 2) (\<lambda>i xs. do {
       a \<leftarrow> ld xs i;
       b \<leftarrow> ld xs (nf - i - 1 + f);
       xs1 \<leftarrow> st xs i b;
       st xs1 (nf - i - 1 + f) a }) factors"

definition DFTFactorize :: "int \<Rightarrow> int list \<Rightarrow> (int list \<times> int) option" where
  "DFTFactorize n factors =
     (if n \<le> 5 then do { factors1 \<leftarrow> st factors 0 n; Some (factors1, 1) }
      else do {
        let f = low_factor n;
        (factors1, nf1, n1) \<leftarrow>
          (if f > 1 then do { fs \<leftarrow> st factors 0 f; Some (fs, 1, if f = n then 1 else cquot n f) }
           else Some (factors, 0, n));
        (factors2, nf2, n2) \<leftarrow> odd_loop 3 n1 factors1 nf1;
        (factors3, nf3) \<leftarrow>
          (if n2 > 1 then do { fs \<leftarrow> st factors2 nf2 n2; Some (fs, nf2 + 1) } else Some (factors2, nf2));
        f0 \<leftarrow> ld factors3 0;
        let f = (if even f0 then 1 else 0);
        factors4 \<leftarrow> swap_loop f nf3 factors3;
        Some (factors4, nf3) })"

section \<open>The permutation\<close>

text \<open>Elements of a local array without a value are \<open>None\<close>.\<close>

definition ldv :: "'a option list \<Rightarrow> int \<Rightarrow> 'a option" where
  "ldv xs i = do { v \<leftarrow> ld xs i; v }"

definition init_radix :: "int \<Rightarrow> int list \<Rightarrow> (int option list \<times> int option list) option" where
  "init_radix nf factors = (if \<not> nf < 34 then None else do {
     radix0 \<leftarrow> st (replicate 34 None) nf (Some 1);
     digits0 \<leftarrow> st (replicate 34 None) nf (Some 0);
     for_loop 0 nf (\<lambda>i (digits, radix). do {
       digits1 \<leftarrow> st digits i (Some 0);
       r \<leftarrow> ldv radix (nf - i);
       f \<leftarrow> ld factors (nf - i - 1);
       radix1 \<leftarrow> st radix (nf - i - 1) (Some (r * f));
       Some (digits1, radix1) }) (digits0, radix0) })"

text \<open>\<^verbatim>\<open>for( k; ++digits[k] >= factors[k]; k++ )\<close>: the carry of the mixed-radix counter.\<close>

partial_function (option) dft_carry ::
  "int \<Rightarrow> int \<Rightarrow> int option list \<Rightarrow> int option list \<Rightarrow> int list \<Rightarrow> (int \<times> int option list) option" where
  "dft_carry k j digits radix factors = do {
     d \<leftarrow> ldv digits k;
     digits1 \<leftarrow> st digits k (Some (d + 1));
     f \<leftarrow> ld factors k;
     if d + 1 \<ge> f then do {
       digits2 \<leftarrow> st digits1 k (Some 0);
       r2 \<leftarrow> ldv radix (k + 2);
       r0 \<leftarrow> ldv radix k;
       dft_carry (k + 1) (j + (r2 - r0)) digits2 radix factors }
     else Some (j, digits1) }"

function log2_loop :: "int \<Rightarrow> nat \<Rightarrow> nat" where
  "log2_loop n m = (if 2 ^ m < n then log2_loop n (Suc m) else m)"
  by pat_completeness auto
termination
proof (relation "measure (\<lambda>(n, m). nat n - m)")
  fix n :: int and m :: nat
  assume "2 ^ m < n"
  moreover have "int m < 2 ^ m" by (rule of_nat_less_two_power)
  ultimately have "m < nat n" by linarith
  then show "((n, Suc m), (n, m)) \<in> measure (\<lambda>(n, m). nat n - m)" by simp
qed simp

declare log2_loop.simps [simp del]

text \<open>The first block, of the even factor \<open>n\<close>: bit reversal, four entries at a time.\<close>

definition store4 :: "int list \<Rightarrow> int \<Rightarrow> int \<Rightarrow> int \<Rightarrow> int \<Rightarrow> int list option" where
  "store4 itab i j na2 na4 = st_run itab i [j, j + na2, j + na4, j + na2 + na4]"

definition even_block :: "int \<Rightarrow> int \<Rightarrow> nat \<Rightarrow> int list \<Rightarrow> int list option" where
  "even_block n a m itab =
     (let na2 = drop_bit 1 (n * a); na4 = drop_bit 1 na2 in
      if n \<le> 2 then do { itab1 \<leftarrow> st itab 0 0; st itab1 1 na2 }
      else if n \<le> 256 then
        for_loop 0 (n div 4) (\<lambda>q t. do {
          r \<leftarrow> ld bitrevTab (drop_bit 2 (4 * q));
          store4 t (4 * q) (drop_bit (10 - m) r * a) na2 na4 }) itab
      else
        for_loop 0 (n div 4) (\<lambda>q t. do {
          r \<leftarrow> BitRev (drop_bit 2 (4 * q)) (34 - m);
          store4 t (4 * q) (r * a) na2 na4 }) itab)"

text \<open>The other blocks are copies of the first one, moved by the mixed-radix counter.\<close>

partial_function (option) block_loop ::
  "int \<Rightarrow> int \<Rightarrow> int \<Rightarrow> int \<Rightarrow> int option list \<Rightarrow> int option list \<Rightarrow> int list \<Rightarrow> int list \<Rightarrow> int list option" where
  "block_loop n0 n i j digits radix factors itab =
     (if i < n0 then do {
        itab1 \<leftarrow> for_loop 0 n (\<lambda>k t. do { v \<leftarrow> ld t k; st t (i + k) (v + j) }) itab;
        if i + n \<ge> n0 then Some itab1
        else do {
          r2 \<leftarrow> ldv radix 2;
          (j1, digits1) \<leftarrow> dft_carry 1 (j + r2) digits radix factors;
          block_loop n0 n (i + n) j1 digits1 radix factors itab1 } }
      else Some itab)"

partial_function (option) odd_itab ::
  "int \<Rightarrow> int \<Rightarrow> int \<Rightarrow> int option list \<Rightarrow> int option list \<Rightarrow> int list \<Rightarrow> int list \<Rightarrow> int list option" where
  "odd_itab n0 i j digits radix factors itab = do {
     itab1 \<leftarrow> st itab i j;
     if i + 1 \<ge> n0 then Some itab1
     else do {
       r1 \<leftarrow> ldv radix 1;
       (j1, digits1) \<leftarrow> dft_carry 0 (j + r1) digits radix factors;
       odd_itab n0 (i + 1) j1 digits1 radix factors itab1 } }"

definition small_itab :: "int \<Rightarrow> int list \<Rightarrow> int list option" where
  "small_itab n0 itab = do {
     itab1 \<leftarrow> st itab 0 0;
     itab2 \<leftarrow> st itab1 (n0 - 1) (n0 - 1);
     if n0 \<noteq> 4 then for_loop 1 (n0 - 1) (\<lambda>i t. st t i i) itab2
     else do { itab3 \<leftarrow> st itab2 1 2; st itab3 2 1 } }"

text \<open>The result is the table and \<open>m\<close>, the logarithm of the even factor.\<close>

definition dft_itab :: "int \<Rightarrow> int \<Rightarrow> int list \<Rightarrow> int list \<Rightarrow> (int list \<times> nat) option" where
  "dft_itab n0 nf factors itab =
     (if n0 \<le> 5 then do { itab1 \<leftarrow> small_itab n0 itab; Some (itab1, 2) }
      else do {
        n \<leftarrow> ld factors 0;
        (digits, radix) \<leftarrow> init_radix nf factors;
        if even n then do {
          a \<leftarrow> ldv radix 1;
          let m = log2_loop n 0;
          itab1 \<leftarrow> even_block n a m itab;
          d1 \<leftarrow> ldv digits 1;
          digits1 \<leftarrow> st digits 1 (Some (d1 + 1));
          itab2 \<leftarrow> (if nf \<ge> 2 then do { r2 \<leftarrow> ldv radix 2; block_loop n0 n n r2 digits1 radix factors itab1 }
                    else Some itab1);
          Some (itab2, m) }
        else do { itab1 \<leftarrow> odd_itab n0 0 0 digits radix factors itab; Some (itab1, 0) } })"

section \<open>The roots of unity\<close>

definition DFTTab :: "(rat \<times> rat) list" where
  "DFTTab =
    [(1, 0), (- 1, 0), (0, 1),
     (70710678118654757 / 10 ^ 17, 70710678118654746 / 10 ^ 17), (92387953251128674 / 10 ^ 17, 38268343236508978 / 10 ^ 17), (98078528040323043 / 10 ^ 17, 19509032201612825 / 10 ^ 17),
     (99518472667219693 / 10 ^ 17, 980171403295606 / 10 ^ 16), (99879545620517241 / 10 ^ 17, 4906767432741802 / 10 ^ 17), (99969881869620425 / 10 ^ 17, 2454122852291229 / 10 ^ 17),
     (9999247018391445 / 10 ^ 16, 1227153828571993 / 10 ^ 17), (99998117528260111 / 10 ^ 17, 613588464915448 / 10 ^ 17), (99999529380957619 / 10 ^ 17, 306795676296598 / 10 ^ 17),
     (99999882345170188 / 10 ^ 17, 153398018628477 / 10 ^ 17), (99999970586288223 / 10 ^ 17, 7669903187427 / 10 ^ 16), (99999992646571789 / 10 ^ 17, 3834951875714 / 10 ^ 16),
     (99999998161642933 / 10 ^ 17, 1917475973107 / 10 ^ 16), (99999999540410733 / 10 ^ 17, 9587379909598 / 10 ^ 17), (99999999885102686 / 10 ^ 17, 4793689960307 / 10 ^ 17),
     (99999999971275666 / 10 ^ 17, 2396844980842 / 10 ^ 17), (99999999992818922 / 10 ^ 17, 1198422490507 / 10 ^ 17), (99999999998204725 / 10 ^ 17, 599211245264 / 10 ^ 17),
     (99999999999551181 / 10 ^ 17, 299605622633 / 10 ^ 17), (99999999999887801 / 10 ^ 17, 149802811317 / 10 ^ 17), (99999999999971945 / 10 ^ 17, 74901405658 / 10 ^ 17),
     (99999999999992983 / 10 ^ 17, 37450702829 / 10 ^ 17), (99999999999998246 / 10 ^ 17, 18725351415 / 10 ^ 17), (99999999999999567 / 10 ^ 17, 9362675707 / 10 ^ 17),
     (99999999999999889 / 10 ^ 17, 4681337854 / 10 ^ 17), (99999999999999978 / 10 ^ 17, 2340668927 / 10 ^ 17), (99999999999999989 / 10 ^ 17, 1170334463 / 10 ^ 17),
     (1, 585167232 / 10 ^ 17), (1, 292583616 / 10 ^ 17)]"

definition CV_PI :: rat where "CV_PI = rnd 53 (31415926535897932384626433832795 / 10 ^ 31)"

definition wave_start :: "(rat \<Rightarrow> rat) \<Rightarrow> (rat \<Rightarrow> rat) \<Rightarrow> int \<Rightarrow> nat \<Rightarrow> (rat \<times> rat) option" where
  "wave_start sin_d sqrt_f n0 m =
     (if n0 AND (n0 - 1) = 0 then do {
        (c, s) \<leftarrow> ld DFTTab (int m);
        Some (rnd 53 c, - rnd 53 s) }
      else let t = ddiv (dmul (- CV_PI) 2) (of_int n0);
               w1 = sin_d t in
           Some (sqrt_f (rnd 24 (dsub 1 (dmul w1 w1))), w1))"

definition wave_loop :: "int \<Rightarrow> rat \<times> rat \<Rightarrow> f32 list \<Rightarrow> f32 list option" where
  "wave_loop n0 w1 wave = do {
     (wave', w) \<leftarrow> for_loop 1 ((n0 + 1) div 2) (\<lambda>i (wv, w). do {
        wv1 \<leftarrow> st wv (2 * i) (d2f (fst w));
        wv2 \<leftarrow> st wv1 (2 * i + 1) (d2f (snd w));
        wv3 \<leftarrow> st wv2 (2 * (n0 - i)) (d2f (fst w));
        wv4 \<leftarrow> st wv3 (2 * (n0 - i) + 1) (d2f (- snd w));
        let t = dsub (dmul (fst w) (fst w1)) (dmul (snd w) (snd w1));
        let s = dadd (dmul (fst w) (snd w1)) (dmul (snd w) (fst w1));
        Some (wv4, (t, s)) }) (wave, w1);
     Some wave' }"

definition dft_wave :: "(rat \<Rightarrow> rat) \<Rightarrow> (rat \<Rightarrow> rat) \<Rightarrow> int \<Rightarrow> nat \<Rightarrow> f32 list \<Rightarrow> f32 list option" where
  "dft_wave sin_d sqrt_f n0 m wave = do {
     w \<leftarrow> wave_start sin_d sqrt_f n0 m;
     wave1 \<leftarrow> st_run wave 0 [1, 0];
     let n = (n0 + 1) div 2;
     wave2 \<leftarrow> (if even n0 then st_run wave1 (2 * n) [- 1, 0] else Some wave1);
     wave_loop n0 w wave2 }"

definition DFTInit ::
  "(rat \<Rightarrow> rat) \<Rightarrow> (rat \<Rightarrow> rat) \<Rightarrow> int \<Rightarrow> int \<Rightarrow> int list \<Rightarrow> int list \<Rightarrow> f32 list \<Rightarrow> (int list \<times> f32 list) option" where
  "DFTInit sin_d sqrt_f n0 nf factors itab wave = do {
     (itab1, m) \<leftarrow> dft_itab n0 nf factors itab;
     wave1 \<leftarrow> (if n0 = 5 then st_run wave 0 [1, 0]
               else if n0 \<le> 5 \<and> n0 \<noteq> 4 then Some wave
               else dft_wave sin_d sqrt_f n0 m wave);
     Some (itab1, wave1) }"

declare odd_loop.simps [code] dft_carry.simps [code] block_loop.simps [code] odd_itab.simps [code]

section \<open>Lemmas\<close>

definition is_prime :: "int \<Rightarrow> bool" where
  "is_prime p \<longleftrightarrow> 1 < p \<and> (\<forall>d \<in> {2..<p}. \<not> d dvd p)"

lemma odd_xor_pred: "odd ((m - 1) XOR m)" for m :: int
  by (simp add: even_xor_iff)

lemma low_factor_power:
  "0 < n \<Longrightarrow> \<exists>k. low_factor n = 2 ^ k \<and> 2 ^ k dvd n \<and> odd (n div 2 ^ k)"
proof (induction "nat n" arbitrary: n rule: less_induct)
  case less
  show ?case
  proof (cases "even n")
    case False
    then obtain j where j: "n = 2 * j + 1" by (blast elim: oddE)
    have "(n - 1) XOR n = 1" unfolding j by (subst xor_rec) simp
    then have "low_factor n = 2 ^ 0" by (simp add: low_factor_def drop_bit_eq_div)
    then show ?thesis using False by (intro exI [of _ 0]) simp
  next
    case True
    then obtain m where m: "n = 2 * m" by blast
    have mm: "(2 * m - 1) div 2 = m - 1" by linarith
    have x: "(n - 1) XOR n = 1 + 2 * ((m - 1) XOR m)"
      unfolding m by (subst xor_rec) (simp add: mm)
    obtain y where y: "(m - 1) XOR m = 2 * y + 1" using odd_xor_pred [of m] by (blast elim: oddE)
    have "low_factor n = 2 * low_factor m"
      unfolding low_factor_def x y by (simp add: drop_bit_eq_div)
    moreover obtain k where "low_factor m = 2 ^ k" "2 ^ k dvd m" "odd (m div 2 ^ k)"
      using less.hyps [of m] less.prems m by auto
    ultimately show ?thesis using m by (intro exI [of _ "Suc k"]) simp
  qed
qed

lemma is_primeI:
  assumes "1 < n" "\<And>d. 1 < d \<Longrightarrow> d < f \<Longrightarrow> \<not> d dvd n" "n < f * f" "0 < f"
  shows "is_prime n"
  unfolding is_prime_def
proof (intro conjI ballI notI)
  fix d assume d: "d \<in> {2..<n}" and dv: "d dvd n"
  then obtain e where e: "n = d * e" by blast
  have "\<not> d < f" using d dv assms(2) [of d] by auto
  moreover have "\<not> e < f"
  proof
    assume "e < f"
    moreover have "1 < e" using e d assms(1)
      by (metis atLeastLessThan_iff less_trans linorder_neqE_linordered_idom mult.right_neutral mult_less_cancel_left_pos zero_less_mult_pos zle_add1_eq_le less_le_trans zero_less_numeral add_0 one_add_one int_one_le_iff_zero_less le_less)
    ultimately show False using e assms(2) [of e] by simp
  qed
  ultimately have "f * f \<le> d * e" using assms(4) by (intro mult_mono) simp_all
  then show False using e assms(3) by simp
qed (rule assms)


lemma seg_snoc_st:
  assumes "seg 0 L d" "length L < length d" "length d \<le> 2 ^ 31"
  shows "\<exists>d'. st d (int (length L)) v = Some d' \<and> seg 0 (L @ [v]) d' \<and> length d' = length d"
proof -
  have "\<exists>d'. st d (0 + int (length L)) v = Some d' \<and> seg 0 (L @ [v]) d' \<and> same_outside 0 (int (length d)) d d'"
    by (rule seg_st) (use assms in auto)
  then show ?thesis by (auto dest: same_outside_length)
qed

text \<open>The trial division keeps the product and adds only odd primes, in ascending order.\<close>

lemma odd_loop_factors:
  assumes "3 \<le> f" "odd f" "odd n" "1 \<le> n" "\<And>d. 1 < d \<Longrightarrow> d < f \<Longrightarrow> \<not> d dvd n"
    and "f = 3 \<or> f * f < 2 ^ 30" "seg 0 L fs" "2 ^ length L * n < 2 ^ length fs" "length fs \<le> 2 ^ 31" "n < 2 ^ 30"
  shows "\<exists>fs' P n' Q. odd_loop f n fs (int (length L)) = Some (fs', int (length (L @ P)), n') \<and> seg 0 (L @ P) fs' \<and>
     length fs' = length fs \<and> Q = P @ (if n' > 1 then [n'] else []) \<and> prod_list Q = n \<and>
     (\<forall>p \<in> set Q. is_prime p \<and> odd p \<and> f \<le> p) \<and> sorted Q \<and> 2 ^ length (L @ P) * n' < 2 ^ length fs \<and> 1 \<le> n'"
  using assms
proof (induction "nat (2 * n - f)" arbitrary: n f L fs rule: less_induct)
  case less
  note p = less.prems
  have len: "length L < length fs" if "1 < n"
  proof (rule ccontr)
    assume "\<not> length L < length fs"
    then have "(2::int) ^ length fs \<le> 2 ^ length L" by simp
    moreover have "(2::int) ^ length L \<le> 2 ^ length L * n" using p(4) by simp
    ultimately show False using p(8) by linarith
  qed
  consider "n = 1" | "1 < n" "f dvd n" | "1 < n" "\<not> f dvd n" using p(4) by linarith
  then show ?case
  proof cases
    case 1
    then show ?thesis using p by (subst odd_loop.simps) auto
  next
    case 2
    then obtain m where m: "n = m * f" by (metis dvd_def mult.commute)
    have q: "cquot n f = m" using p(1,4) m by (simp add: cquot_nonneg)
    have m0: "1 \<le> m"
    proof (rule ccontr)
      assume "\<not> 1 \<le> m"
      then have "m * f \<le> 0" using p(1) by (intro mult_nonpos_nonneg) simp_all
      then show False using m p(4) by simp
    qed
    have mn: "m * 2 \<le> n" unfolding m using p(1) m0 by (intro mult_left_mono) simp_all
    from seg_snoc_st [OF p(7) len p(9)] 2 obtain fs1 where
      1: "st fs (int (length L)) f = Some fs1" "seg 0 (L @ [f]) fs1" "length fs1 = length fs" by auto
    have "2 ^ length (L @ [f]) * m \<le> 2 ^ length L * n" using mn by simp
    then have s: "2 ^ length (L @ [f]) * m < 2 ^ length fs1" using p(8) 1(3) by (simp only:)
    have meas: "nat (2 * m - f) < nat (2 * n - f)" using mn m0 p(1) 2 m by (simp add: mult_le_cancel_left1)
    have d: "\<not> d dvd m" if "1 < d" "d < f" for d using p(5) [OF that] m by (auto simp: dvd_mult2)
    have small: "odd m" "m < 2 ^ 30" using p(3) m apply simp using p(10) mn m0 by linarith
    from less.hyps [OF meas p(1,2) small(1) m0 d p(6) 1(2) s] 1(3) p(9) small(2) obtain fs' P n' Q where
      r: "odd_loop f m fs1 (int (length (L @ [f]))) = Some (fs', int (length ((L @ [f]) @ P)), n')"
         "seg 0 ((L @ [f]) @ P) fs'" "length fs' = length fs" "Q = P @ (if n' > 1 then [n'] else [])" "prod_list Q = m"
         "\<forall>p \<in> set Q. is_prime p \<and> odd p \<and> f \<le> p" "sorted Q" "2 ^ length ((L @ [f]) @ P) * n' < 2 ^ length fs" "1 \<le> n'"
      by auto
    have pf: "is_prime f" unfolding is_prime_def
    proof (intro conjI ballI notI)
      fix d assume "d \<in> {2..<f}" and "d dvd f"
      then show False using p(5) [of d] dvd_trans [of d f n] 2(2) by simp
    qed (use p(1) in simp)
    have "odd_loop f n fs (int (length L)) = Some (fs', int (length (L @ f # P)), n')"
      using 2 1(1) r(1) q m by (subst odd_loop.simps) (simp add: add.commute)
    moreover have "f # Q = (f # P) @ (if n' > 1 then [n'] else [])" using r(4) by simp
    ultimately show ?thesis using r(2,3,5-9) pf p(2) m
      by (intro exI [of _ fs'] exI [of _ "f # P"] exI [of _ n'] exI [of _ "f # Q"]) (simp add: mult.commute)
  next
    case 3
    have q: "cquot n f * f \<noteq> n" using 3(2) by (metis dvd_triv_right)
    have d: "\<not> d dvd n" if "1 < d" "d < f + 2" for d
    proof
      assume dv: "d dvd n"
      then have "odd d" using p(3) by (metis dvd_trans)
      moreover have "d \<noteq> f" using 3 dv by blast
      moreover have "\<not> d < f" using p(5) that dv by blast
      ultimately have "d = f + 1" using that by linarith
      then show False using p(2) \<open>odd d\<close> by simp
    qed
    have ok: "int_ok ((f + 2) * (f + 2))"
      using p(6)
    proof
      assume ff: "f * f < 2 ^ 30"
      have "f < 2 ^ 15"
      proof (rule ccontr)
        assume "\<not> f < 2 ^ 15"
        then have "(2 ^ 15) * (2 ^ 15) \<le> f * f" by (intro mult_mono) auto
        then show False using ff by simp
      qed
      then have "(f + 2) * (f + 2) \<le> (2 ^ 15 + 1) * (2 ^ 15 + 1)" using p(1) by (intro mult_mono) simp_all
      moreover have "- (2 ^ 31) \<le> (f + 2) * (f + 2)" by (rule order_trans [of _ 0]) simp_all
      ultimately show ?thesis unfolding int_ok_def by simp
    qed (simp add: int_ok_def)
    show ?thesis
    proof (cases "(f + 2) * (f + 2) > n")
      case True
      have pn: "is_prime n" using is_primeI [of n "f + 2"] 3(1) d True p(1) by auto
      have fn: "f \<le> n"
      proof (rule ccontr)
        assume "\<not> f \<le> n"
        then show False using d [of n] 3(1) by simp
      qed
      have r: "odd_loop f n fs (int (length L)) = Some (fs, int (length L), n)"
        using 3 q ok True by (subst odd_loop.simps) simp
      show ?thesis
        by (rule exI [of _ fs], rule exI [of _ "[]"], rule exI [of _ n], rule exI [of _ "[n]"])
           (use r 3(1) p pn fn in simp)
    next
      case False
      have "f + 2 \<le> n"
      proof -
        have "(f + 2) * 1 \<le> (f + 2) * (f + 2)" using p(1) by (intro mult_left_mono) simp_all
        then show ?thesis using False by simp
      qed
      then have meas: "nat (2 * n - (f + 2)) < nat (2 * n - f)" using 3(1) by simp
      have "(f + 2) * (f + 2) < 2 ^ 30" using False p(10) by linarith
      with less.hyps [OF meas _ _ p(3,4) d _ p(7-10)] p(1,2) obtain fs' P n' Q where
        r: "odd_loop (f + 2) n fs (int (length L)) = Some (fs', int (length (L @ P)), n')"
           "seg 0 (L @ P) fs'" "length fs' = length fs" "Q = P @ (if n' > 1 then [n'] else [])" "prod_list Q = n"
           "\<forall>p \<in> set Q. is_prime p \<and> odd p \<and> f + 2 \<le> p" "sorted Q" "2 ^ length (L @ P) * n' < 2 ^ length fs" "1 \<le> n'"
        by auto
      have "odd_loop f n fs (int (length L)) = odd_loop (f + 2) n fs (int (length L))"
        using 3 q ok False by (subst odd_loop.simps) simp
      moreover have "\<forall>p \<in> set Q. is_prime p \<and> odd p \<and> f \<le> p" using r(6) by force
      ultimately show ?thesis using r(1-5,7-9)
        by (intro exI [of _ fs'] exI [of _ P] exI [of _ n'] exI [of _ Q]) simp
    qed
  qed
qed

lemma swap_loop_rev:
  assumes "seg 0 (A @ B) fs" "length fs \<le> 2 ^ 31"
  shows "\<exists>fs'. swap_loop (int (length A)) (int (length (A @ B))) fs = Some fs' \<and> seg 0 (A @ rev B) fs' \<and> length fs' = length fs"
proof -
  let ?f = "int (length A)" and ?n = "int (length (A @ B))"
  let ?g = "\<lambda>k. fs ! nat (?n - 1 + ?f - k)"
  let ?S = "\<lambda>i. {?f..<i} \<union> {?n + ?f - i..<?n}"
  have len: "?n \<le> int (length fs)" using assms(1) by (simp add: seg_def)
  have "\<exists>fs'. swap_loop ?f ?n fs = Some fs' \<and> wrote (?S ((?n + ?f) div 2)) ?g fs fs'"
    unfolding swap_loop_def cquot_nonneg [OF add_nonneg_nonneg [OF of_nat_0_le_iff of_nat_0_le_iff] zero_less_numeral]
  proof (rule for_loop_inv [where P = "\<lambda>i. wrote (?S i) ?g fs"])
    show "wrote (?S ?f) ?g fs fs" by (simp add: wrote_empty)
    show "?f \<le> (?n + ?f) div 2" by simp
  next
    fix i xs assume i: "?f \<le> i" "i < (?n + ?f) div 2" and w: "wrote (?S i) ?g fs xs"
    let ?j = "?n - i - 1 + ?f"
    have ij: "i < ?j" "?j < ?n" "0 \<le> i" using i by linarith+
    have lx: "length xs = length fs" using wrote_length [OF w] .
    have a: "ld xs i = Some (fs ! nat i)" and b: "ld xs ?j = Some (fs ! nat ?j)"
      using wrote_nth [OF w, of "nat i"] wrote_nth [OF w, of "nat ?j"] ij i len lx assms(2)
      by (auto simp: ld_def int_ok_def)
    have "\<exists>x1. st xs i (fs ! nat ?j) = Some x1 \<and> wrote {i} ?g xs x1"
      using ij len lx assms(2) by (intro wrote_st) (auto simp: int_ok_def intro: arg_cong)
    then obtain x1 where 1: "st xs i (fs ! nat ?j) = Some x1" "wrote {i} ?g xs x1" by blast
    have "\<exists>x2. st x1 ?j (fs ! nat i) = Some x2 \<and> wrote {?j} ?g x1 x2"
      using ij len lx assms(2) wrote_length [OF 1(2)] by (intro wrote_st) (auto simp: int_ok_def)
    then obtain x2 where 2: "st x1 ?j (fs ! nat i) = Some x2" "wrote {?j} ?g x1 x2" by blast
    have "?S i \<union> {i} \<union> {?j} = ?S (i + 1)" using ij i by auto
    then have "wrote (?S (i + 1)) ?g fs x2"
      using wrote_comp [OF wrote_comp [OF w 1(2)] 2(2)] by simp
    then show "\<exists>s'. (do { a \<leftarrow> ld xs i; b \<leftarrow> ld xs ?j; xs1 \<leftarrow> st xs i b; st xs1 ?j a }) = Some s' \<and> wrote (?S (i + 1)) ?g fs s'"
      using a b 1(1) 2(1) by simp
  qed
  then obtain fs' where r: "swap_loop ?f ?n fs = Some fs'" and w: "wrote (?S ((?n + ?f) div 2)) ?g fs fs'" by blast
  have "fs' ! k = (A @ rev B) ! k" if k: "k < length (A @ B)" for k
  proof (cases "k < length A")
    case True
    then have "int k \<notin> ?S ((?n + ?f) div 2)" by auto
    then show ?thesis using wrote_nth [OF w, of k] True k len assms(1) by (auto simp: seg_def nth_append)
  next
    case False
    let ?j = "length A + length (A @ B) - 1 - k"
    have j: "length A \<le> ?j" "?j < length (A @ B)" using False k by auto
    have "fs' ! k = fs ! ?j"
    proof (cases "int k \<in> ?S ((?n + ?f) div 2)")
      case True
      have "nat (?n - 1 + ?f - int k) = ?j" using k False by auto
      then show ?thesis using wrote_nth [OF w, of k] True k len by simp
    next
      case nS: False
      then have "k = ?j" using False k by auto
      then show ?thesis using wrote_nth [OF w, of k] nS k len by simp
    qed
    also have "\<dots> = (A @ B) ! ?j" using assms(1) j by (simp add: seg_def)
    also have "\<dots> = (A @ rev B) ! k" 
    proof -
      have "?j - length A = length B - Suc (k - length A)" using False k by auto
      then show ?thesis using j False k by (simp add: nth_append rev_nth)
    qed
    finally show ?thesis .
  qed
  then have "seg 0 (A @ rev B) fs'" using len wrote_length [OF w] by (simp add: seg_def)
  then show ?thesis using r wrote_length [OF w] by blast
qed


lemma DFTFactorize_list:
  assumes "6 \<le> n" "n < 2 ^ 30" "n < 2 ^ length fs" "length fs \<le> 2 ^ 31"
  shows "\<exists>fs' L P k. DFTFactorize n fs = Some (fs', int (length L)) \<and> seg 0 L fs' \<and> length fs' = length fs \<and>
     low_factor n = 2 ^ k \<and> L = (if even n then [2 ^ k] else []) @ P \<and> prod_list L = n \<and>
     (\<forall>p \<in> set P. is_prime p \<and> odd p) \<and> sorted_wrt (\<ge>) P \<and> (even n \<longrightarrow> 0 < k)"
proof -
  from low_factor_power [of n] assms(1) obtain k where
    k: "low_factor n = 2 ^ k" "2 ^ k dvd n" "odd (n div 2 ^ k)" by auto
  let ?m = "n div 2 ^ k" and ?L = "(if even n then [2 ^ k] else []) :: int list"
  have n: "n = 2 ^ k * ?m" using k(2) by simp
  have m0: "1 \<le> ?m" using n assms(1) by (metis int_one_le_iff_zero_less less_le_trans zero_less_mult_pos zero_less_numeral zero_less_power)
  have ev: "even n \<longleftrightarrow> 0 < k" using k(3) n by (metis even_mult_iff even_power gr0I dvd_refl div_by_1 power_0)
  have one: "?L = [2 ^ k] \<and> 1 < (2::int) ^ k \<and> even n \<or> ?L = [] \<and> k = 0 \<and> odd n" using ev by (auto intro: one_less_power)
  have l0: "0 < length fs" using assms by (cases "length fs") auto
  have "\<exists>fs1. (if low_factor n > 1 then do { fs \<leftarrow> st fs 0 (low_factor n); Some (fs, 1, if low_factor n = n then 1 else cquot n (low_factor n)) }
       else Some (fs, 0, n)) = Some (fs1, int (length ?L), ?m) \<and> seg 0 ?L fs1 \<and> length fs1 = length fs"
    using one
  proof
    assume c: "?L = [2 ^ k] \<and> 1 < (2::int) ^ k \<and> even n"
    from seg_snoc_st [of "[]" fs "2 ^ k"] l0 assms(4) obtain fs1 where
      "st fs 0 (2 ^ k) = Some fs1" "seg 0 [2 ^ k] fs1" "length fs1 = length fs" by (auto simp: seg_Nil)
    moreover have "(if (2 ^ k) = n then 1 else cquot n (2 ^ k)) = ?m" using assms(1) by (auto simp: cquot_nonneg)
    ultimately show ?thesis using c k(1) by auto
  next
    assume "?L = [] \<and> k = 0 \<and> odd n"
    then show ?thesis using k(1) by (auto simp: seg_Nil)
  qed
  then obtain fs1 where 1: "(if low_factor n > 1 then do { fs \<leftarrow> st fs 0 (low_factor n); Some (fs, 1, if low_factor n = n then 1 else cquot n (low_factor n)) }
       else Some (fs, 0, n)) = Some (fs1, int (length ?L), ?m)" "seg 0 ?L fs1" "length fs1 = length fs" by blast
  have b: "2 ^ length ?L * ?m < 2 ^ length fs1"
  proof -
    have "2 ^ length ?L * ?m \<le> 2 ^ k * ?m" using m0 ev by (intro mult_right_mono power_increasing) auto
    also have "\<dots> < 2 ^ length fs1" using assms(3) 1(3) n by metis
    finally show ?thesis .
  qed
  have "?m \<le> n" using zdiv_mono2 [of n 1 "2 ^ k"] assms(1) by simp
  then have m1: "?m < 2 ^ 30" using assms(2) by linarith
  have d: "\<not> d dvd ?m" if "1 < d" "d < 3" for d
  proof -
    have "d = 2" using that by simp
    then show ?thesis using k(3) by simp
  qed
  from odd_loop_factors [of 3, OF _ _ k(3) m0 d _ 1(2) b _ m1] assms(4) 1(3) obtain fs2 P n' Q where
    2: "odd_loop 3 ?m fs1 (int (length ?L)) = Some (fs2, int (length (?L @ P)), n')" "seg 0 (?L @ P) fs2"
       "length fs2 = length fs" and Q: "Q = P @ (if n' > 1 then [n'] else [])" "prod_list Q = ?m"
       "\<forall>p \<in> set Q. is_prime p \<and> odd p \<and> 3 \<le> p" "sorted Q" and b2: "2 ^ length (?L @ P) * n' < 2 ^ length fs" "1 \<le> n'"
    by auto
  have "\<exists>fs3. (if n' > 1 then do { fs \<leftarrow> st fs2 (int (length (?L @ P))) n'; Some (fs, int (length (?L @ P)) + 1) } else Some (fs2, int (length (?L @ P)))) =
      Some (fs3, int (length (?L @ Q))) \<and> seg 0 (?L @ Q) fs3 \<and> length fs3 = length fs"
  proof (cases "n' > 1")
    case True
    have "length (?L @ P) < length fs2"
    proof (rule ccontr)
      assume "\<not> length (?L @ P) < length fs2"
      then have "(2::int) ^ length fs2 \<le> 2 ^ length (?L @ P)" by (intro power_increasing) simp_all
      moreover have "(2::int) ^ length (?L @ P) \<le> 2 ^ length (?L @ P) * n'" using b2(2) by simp
      ultimately show False using b2(1) unfolding 2(3) by linarith
    qed
    from seg_snoc_st [OF 2(2) this, of n'] assms(4) 2(3) obtain fs3 where
      "st fs2 (int (length (?L @ P))) n' = Some fs3" "seg 0 ((?L @ P) @ [n']) fs3" "length fs3 = length fs" by auto
    then show ?thesis using True Q(1) by auto
  qed (use 2 Q(1) in auto)
  then obtain fs3 where 3: "(if n' > 1 then do { fs \<leftarrow> st fs2 (int (length (?L @ P))) n'; Some (fs, int (length (?L @ P)) + 1) } else Some (fs2, int (length (?L @ P)))) =
      Some (fs3, int (length (?L @ Q)))" "seg 0 (?L @ Q) fs3" "length fs3 = length fs" by blast
  have ne: "?L @ Q \<noteq> []" using Q(2) n assms(1) one by auto
  have f0: "ld fs3 0 = Some ((?L @ Q) ! 0)"
    using seg_ld [OF 3(2), of 0] ne 3(3) assms(4) by simp
  have par: "(if even ((?L @ Q) ! 0) then 1 else 0) = int (length ?L)"
    using one
  proof
    assume "?L = [] \<and> k = 0 \<and> odd n"
    moreover from this have "Q ! 0 \<in> set Q" using ne by simp
    ultimately show ?thesis using Q(3) by auto
  qed (use ev in auto)
  from swap_loop_rev [OF 3(2)] 3(3) assms(4) obtain fs4 where
    4: "swap_loop (int (length ?L)) (int (length (?L @ Q))) fs3 = Some fs4" "seg 0 (?L @ rev Q) fs4" "length fs4 = length fs" by auto
  have "DFTFactorize n fs = Some (fs4, int (length (?L @ rev Q)))"
    using assms(1) by (simp only: DFTFactorize_def Let_def 1(1) 2(1) 3(1) f0 par 4(1) Option.bind_lunit prod.case) simp
  moreover have "prod_list (?L @ rev Q) = n" using one Q(2) n by (auto simp: prod_list.rev)
  moreover have "sorted_wrt (\<ge>) (rev Q)" using Q(4) by (simp add: sorted_wrt_rev)
  ultimately show ?thesis using 4(2,3) k(1) Q(3) ev
    by (intro exI [of _ fs4] exI [of _ "?L @ rev Q"] exI [of _ "rev Q"] exI [of _ k]) simp
qed

end
