(* ===== verification/DftItab.thy ===== *)
theory DftItab
  imports DftTables
begin

text \<open>
  The permutation and the roots of unity that \<^verbatim>\<open>DFTInit\<close> leaves behind: \<open>itab\<close> is the mixed-radix
  digit reversal, which the code computes with a counter of digits and a carry.
\<close>

section \<open>Digit reversal\<close>

text \<open>Mixed-radix digit reversal: the first radix counts fastest in the index and slowest in the
  result.\<close>

fun digit_rev :: "int list \<Rightarrow> int \<Rightarrow> int" where
  "digit_rev [] i = 0"
| "digit_rev (f # fs) i = (i mod f) * prod_list fs + digit_rev fs (i div f)"

fun suffix_prods :: "int list \<Rightarrow> int list" where
  "suffix_prods [] = [1]"
| "suffix_prods (f # fs) = prod_list (f # fs) # suffix_prods fs"

lemma suffix_prods_length [simp]: "length (suffix_prods fs) = Suc (length fs)"
  by (induction fs) simp_all

lemma suffix_prods_nth: "i \<le> length fs \<Longrightarrow> suffix_prods fs ! i = prod_list (drop i fs)"
  by (induction fs arbitrary: i) (auto simp: nth_Cons' drop_Cons')

lemma prod_list_pos: "\<forall>f \<in> set fs. 0 < f \<Longrightarrow> 0 < prod_list (fs :: int list)"
  by (induction fs) simp_all

lemma digit_rev_range:
  "\<forall>f \<in> set fs. 0 < f \<Longrightarrow> 0 \<le> i \<Longrightarrow> i < prod_list fs \<Longrightarrow> 0 \<le> digit_rev fs i \<and> digit_rev fs i < prod_list fs"
proof (induction fs arbitrary: i)
  case (Cons f fs)
  have d: "0 \<le> i div f" "i div f < prod_list fs"
    using Cons.prems by (simp_all add: pos_imp_zdiv_nonneg_iff div_lessI mult.commute)
  then show ?case using Cons flat_bound [of "i mod f" f "digit_rev fs (i div f)" "prod_list fs"] by simp
qed simp

lemma digit_rev_inj:
  "\<forall>f \<in> set fs. 0 < f \<Longrightarrow> 0 \<le> i \<Longrightarrow> i < prod_list fs \<Longrightarrow> 0 \<le> j \<Longrightarrow> j < prod_list fs \<Longrightarrow>
     digit_rev fs i = digit_rev fs j \<Longrightarrow> i = j"
proof (induction fs arbitrary: i j)
  case (Cons f fs)
  have d: "0 \<le> i div f" "i div f < prod_list fs" "0 \<le> j div f" "j div f < prod_list fs"
    using Cons.prems by (simp_all add: pos_imp_zdiv_nonneg_iff div_lessI mult.commute)
  have r: "0 \<le> digit_rev fs (i div f) \<and> digit_rev fs (i div f) < prod_list fs"
    "0 \<le> digit_rev fs (j div f) \<and> digit_rev fs (j div f) < prod_list fs"
    using Cons.prems(1) d by (simp_all add: digit_rev_range)
  have "i mod f = j mod f \<and> digit_rev fs (i div f) = digit_rev fs (j div f)"
    using Cons.prems(6) flat_div [of "digit_rev fs (i div f)" "prod_list fs" "i mod f"]
      flat_div [of "digit_rev fs (j div f)" "prod_list fs" "j mod f"] r by (metis digit_rev.simps(2))
  moreover from this have "i div f = j div f" using Cons.IH d Cons.prems(1) by simp
  ultimately show ?case by (metis div_mult_mod_eq)
qed simp

lemma mset_perm:
  fixes g :: "int \<Rightarrow> int"
  assumes "\<And>i. 0 \<le> i \<Longrightarrow> i < n \<Longrightarrow> 0 \<le> g i \<and> g i < n"
    and "\<And>i j. 0 \<le> i \<Longrightarrow> i < n \<Longrightarrow> 0 \<le> j \<Longrightarrow> j < n \<Longrightarrow> g i = g j \<Longrightarrow> i = j"
  shows "mset (map g [0..n - 1]) = mset [0..n - 1]"
proof -
  have inj: "inj_on g {0..n - 1}" using assms(2) by (auto simp: inj_on_def)
  have "g ` {0..n - 1} \<subseteq> {0..n - 1}" using assms(1) by fastforce
  then have im: "g ` {0..n - 1} = {0..n - 1}" using inj by (simp add: endo_inj_surj)
  have m: "mset_set {0..n - 1} = mset [0..n - 1]" by (metis distinct_upto mset_set_set set_upto)
  have "mset (map g [0..n - 1]) = image_mset g (mset_set {0..n - 1})" by (simp add: m)
  also have "\<dots> = mset_set (g ` {0..n - 1})" using inj by (simp add: image_mset_mset_set)
  finally show ?thesis by (simp add: im m)
qed

text \<open>The digits of \<open>x\<close> as the counter holds them, from position \<open>k\<close> on.\<close>

fun counter :: "nat \<Rightarrow> int list \<Rightarrow> int option list \<Rightarrow> int \<Rightarrow> bool" where
  "counter k [] ds x = True"
| "counter k (f # fs) ds x \<longleftrightarrow> k < length ds \<and> ds ! k = Some (x mod f) \<and> counter (Suc k) fs ds (x div f)"

lemma counter_cong: "\<forall>i \<ge> k. ds ! i = ds' ! i \<Longrightarrow> length ds = length ds' \<Longrightarrow> counter k fs ds x = counter k fs ds' x"
  by (induction fs arbitrary: k x) auto

lemma seg_Cons: "seg (int k) (x # xs) d \<longleftrightarrow> k < length d \<and> d ! k = x \<and> seg (int (Suc k)) xs d"
proof
  assume s: "seg (int k) (x # xs) d"
  then have "d ! (k + 0) = (x # xs) ! 0" unfolding seg_def by fastforce
  moreover have "d ! (Suc k + i) = xs ! i" if "i < length xs" for i
    using s that unfolding seg_def by (metis Suc_less_eq add_Suc_shift length_Cons nat_int nth_Cons_Suc)
  ultimately show "k < length d \<and> d ! k = x \<and> seg (int (Suc k)) xs d" using s
    by (simp add: seg_def nat_add_distrib)
qed (auto simp: seg_def less_Suc_eq_0_disj nat_add_distrib)

lemma carry_counts:
  assumes "fs \<noteq> []" "0 \<le> x" "x + 1 < prod_list fs" "\<forall>f \<in> set fs. 0 < f" "counter k fs digits x"
    and "seg (int k) fs factors" "seg (int k) (map Some (suffix_prods fs)) radix"
    and "length digits \<le> 2 ^ 31" "length radix \<le> 2 ^ 31" "length factors \<le> 2 ^ 31"
  shows "\<exists>digits'. dft_carry (int k) (j + prod_list (tl fs)) digits radix factors =
      Some (j + digit_rev fs (x + 1) - digit_rev fs x, digits') \<and> counter k fs digits' (x + 1) \<and>
      length digits' = length digits \<and> (\<forall>i < k. digits' ! i = digits ! i)"
  using assms
proof (induction fs arbitrary: k x j digits)
  case (Cons f fs)
  let ?d = "x mod f"
  have f: "0 < f" using Cons.prems(4) by simp
  have c: "k < length digits" "digits ! k = Some ?d" "counter (Suc k) fs digits (x div f)" using Cons.prems(5) by auto
  have fac: "k < length factors" "factors ! k = f" "seg (int (Suc k)) fs factors" using Cons.prems(6) by (auto simp: seg_Cons)
  have rad: "k < length radix" "radix ! k = Some (prod_list (f # fs))" "seg (int (Suc k)) (map Some (suffix_prods fs)) radix"
    using Cons.prems(7) by (auto simp: seg_Cons)
  have L: "ldv digits (int k) = Some ?d" "st digits (int k) (Some (?d + 1)) = Some (digits[k := Some (?d + 1)])"
      "ld factors (int k) = Some f" "ldv radix (int k) = Some (prod_list (f # fs))"
    using c fac rad Cons.prems(8-10) by (auto simp: ldv_def ld_def st_def int_ok_def)
  show ?case
  proof (cases "?d + 1 \<ge> f")
    case True
    then have d: "?d = f - 1" using f pos_mod_bound [of f x] by linarith
    have x1: "(x + 1) mod f = 0" "(x + 1) div f = x div f + 1"
    proof -
      have "x + 1 = f * (x div f + 1)" using d by (simp add: algebra_simps) (metis add_diff_cancel_left' diff_add_cancel mult_div_mod_eq add.assoc add.commute)
      then show "(x + 1) mod f = 0" "(x + 1) div f = x div f + 1" using f by (metis mod_mult_self1_is_0, metis less_irrefl nonzero_mult_div_cancel_left)
    qed
    have q: "x div f + 1 < prod_list fs" using div_lessI [of "x + 1" "prod_list fs" f] Cons.prems(3) f x1 by (simp add: mult.commute)
    have q0: "0 \<le> x div f" using Cons.prems(2) f by (simp add: pos_imp_zdiv_nonneg_iff)
    obtain g gs where fs: "fs = g # gs" using q q0 by (cases fs) auto
    have r2: "ldv radix (int k + 2) = Some (prod_list gs)"
    proof -
      have "seg (int (Suc (Suc k))) (map Some (suffix_prods gs)) radix" using rad(3) unfolding fs suffix_prods.simps list.simps(9) seg_Cons by blast
      moreover obtain ps where "suffix_prods gs = prod_list gs # ps" by (cases gs) auto
      ultimately have "Suc (Suc k) < length radix" "radix ! Suc (Suc k) = Some (prod_list gs)"
        by (metis list.simps(9) seg_Cons)+
      moreover have "int k + 2 = int (Suc (Suc k))" by simp
      ultimately show ?thesis using Cons.prems(9) by (simp only: ldv_def ld_def int_ok_def nat_int) simp
    qed
    let ?ds = "digits[k := Some 0]"
    have st2: "st (digits[k := Some (?d + 1)]) (int k) (Some 0) = Some ?ds"
      using c Cons.prems(8) by (simp add: st_def int_ok_def)
    have cc: "counter (Suc k) fs ?ds (x div f)"
      using c(3) counter_cong [of "Suc k" ?ds digits fs "x div f"] by simp
    from Cons.IH [OF _ q0 q _ cc fac(3) rad(3), where j = "j + prod_list fs - prod_list (f # fs)"] Cons.prems fs obtain ds' where
      ih: "dft_carry (int (Suc k)) (j + prod_list fs - prod_list (f # fs) + prod_list (tl fs)) ?ds radix factors =
        Some (j + prod_list fs - prod_list (f # fs) + digit_rev fs (x div f + 1) - digit_rev fs (x div f), ds')"
        "counter (Suc k) fs ds' (x div f + 1)" "length ds' = length ?ds" "\<forall>i < Suc k. ds' ! i = ?ds ! i" by auto
    have e: "int (Suc k) = int k + 1" "j + prod_list fs - prod_list (f # fs) + prod_list (tl fs) =
        j + prod_list (tl (f # fs)) + (prod_list gs - prod_list (f # fs))" by (simp_all add: fs)
    have "dft_carry (int k) (j + prod_list (tl (f # fs))) digits radix factors =
        Some (j + prod_list fs - prod_list (f # fs) + digit_rev fs (x div f + 1) - digit_rev fs (x div f), ds')"
      using True by (subst dft_carry.simps) (simp only: L Option.bind_lunit st2 r2 if_True ih(1) [unfolded e])
    moreover have "j + prod_list fs - prod_list (f # fs) + digit_rev fs (x div f + 1) - digit_rev fs (x div f) =
        j + digit_rev (f # fs) (x + 1) - digit_rev (f # fs) x"
      by (simp only: digit_rev.simps x1 d) (simp add: algebra_simps)
    ultimately show ?thesis using ih(2,3,4) c(1) x1 by (intro exI [of _ ds']) auto
  next
    case False
    have x1: "(x + 1) mod f = ?d + 1" "(x + 1) div f = x div f"
    proof -
      have "x + 1 = (x div f) * f + (?d + 1)" by (metis add.assoc div_mult_mod_eq)
      moreover have "0 \<le> ?d" using f by simp
      ultimately show "(x + 1) mod f = ?d + 1" "(x + 1) div f = x div f"
        using flat_div [of "?d + 1" f "x div f"] False by simp_all
    qed
    let ?ds = "digits[k := Some (?d + 1)]"
    have "dft_carry (int k) (j + prod_list (tl (f # fs))) digits radix factors = Some (j + prod_list fs, ?ds)"
      using False by (subst dft_carry.simps) (simp add: L)
    moreover have "j + prod_list fs = j + digit_rev (f # fs) (x + 1) - digit_rev (f # fs) x"
      by (simp only: digit_rev.simps x1) (simp add: algebra_simps)
    moreover have "counter (Suc k) fs ?ds (x div f)"
      using c(3) counter_cong [of "Suc k" ?ds digits fs "x div f"] by simp
    ultimately show ?thesis using c(1) x1 by (intro exI [of _ ?ds]) auto
  qed
qed simp


section \<open>The counter and the bit-reversed block\<close>

lemma seg_nth: "seg a xs d \<Longrightarrow> k < length xs \<Longrightarrow> d ! (nat a + k) = xs ! k"
  by (simp add: seg_def)

lemma seg0_ld: "seg 0 xs d \<Longrightarrow> k < length xs \<Longrightarrow> length d \<le> 2 ^ 31 \<Longrightarrow> ld d (int k) = Some (xs ! k)"
  using seg_ld [of 0 xs d "int k"] by simp

lemma seg_drop: "seg 0 xs d \<Longrightarrow> k \<le> length xs \<Longrightarrow> seg (int k) (drop k xs) d"
  by (auto simp: seg_def)

lemma counter_0: "\<forall>i \<in> {k..<k + length fs}. ds ! i = Some 0 \<Longrightarrow> k + length fs \<le> length ds \<Longrightarrow> counter k fs ds 0"
  by (induction fs arbitrary: k) auto

lemma init_radix_values:
  assumes L: "seg 0 L factors" "length L < 34" "length factors \<le> 2 ^ 31"
  shows "\<exists>digits radix. init_radix (int (length L)) factors = Some (digits, radix) \<and> length digits = 34 \<and>
     length radix = 34 \<and> (\<forall>i \<le> length L. digits ! i = Some 0) \<and> seg 0 (map Some (suffix_prods L)) radix"
proof -
  let ?n = "length L"
  let ?P = "\<lambda>i (digits :: int option list, radix). length digits = 34 \<and> length radix = 34 \<and> (\<forall>k. int k < i \<or> k = ?n \<longrightarrow> digits ! k = Some 0) \<and>
    (\<forall>k. int ?n - i \<le> int k \<and> k \<le> ?n \<longrightarrow> radix ! k = Some (prod_list (drop k L)))"
  let ?body = "\<lambda>i (digits :: int option list, radix). do {
       digits1 \<leftarrow> st digits i (Some 0);
       r \<leftarrow> ldv radix (int ?n - i);
       f \<leftarrow> ld factors (int ?n - i - 1);
       radix1 \<leftarrow> st radix (int ?n - i - 1) (Some (r * f));
       Some (digits1, radix1) }"
  have "\<exists>s. for_loop 0 (int ?n) ?body ((replicate 34 None)[?n := Some 0], (replicate 34 None)[?n := Some 1]) = Some s \<and> ?P (int ?n) s"
  proof (rule for_loop_inv [where P = ?P])
    show "?P 0 ((replicate 34 None)[?n := Some 0], (replicate 34 None)[?n := Some 1])"
      using L(2) by auto
  next
    fix i s assume i: "0 \<le> i" "i < int ?n" and P: "?P i s"
    obtain digits radix where s: "s = (digits, radix)" by (cases s)
    let ?k = "nat (int ?n - i - 1)"
    have k: "?k < ?n" "int ?k = int ?n - i - 1" "Suc ?k \<le> ?n" using i by auto
    have e: "int ?n - i = int (Suc ?k)" using k(2) by simp
    have "radix ! Suc ?k = Some (prod_list (drop (Suc ?k) L))" using P s k i by auto
    then have r: "ldv radix (int ?n - i) = Some (prod_list (drop (Suc ?k) L))"
      by (subst e) (use P s k(3) L(2) in \<open>simp add: ldv_def ld_def int_ok_def del: of_nat_Suc\<close>)
    have f: "ld factors (int ?n - i - 1) = Some (L ! ?k)"
      using seg0_ld [OF L(1) k(1) L(3)] k(2) by simp
    have p: "prod_list (drop (Suc ?k) L) * L ! ?k = prod_list (drop ?k L)"
      using k(1) by (simp add: mult.commute flip: Cons_nth_drop_Suc)
    have 1: "st digits i (Some 0) = Some (digits[nat i := Some 0])"
      and 2: "st radix (int ?n - i - 1) (Some (prod_list (drop ?k L))) = Some (radix[?k := Some (prod_list (drop ?k L))])"
      using P s i L(2) by (auto simp: st_def int_ok_def)
    have "?P (i + 1) (digits[nat i := Some 0], radix[?k := Some (prod_list (drop ?k L))])"
    proof -
      have "digits[nat i := Some 0] ! k = Some 0" if "int k < i + 1 \<or> k = ?n" for k
        using P s i that L(2) by (cases "k = nat i") auto
      moreover have "radix[?k := Some (prod_list (drop ?k L))] ! j = Some (prod_list (drop j L))"
        if "int ?n - (i + 1) \<le> int j" "j \<le> ?n" for j
        using P s i that L(2) k by (cases "j = ?k") auto
      ultimately show ?thesis using P s by simp
    qed
    then show "\<exists>s'. ?body i s = Some s' \<and> ?P (i + 1) s'" using s 1 2 r f p by simp
  qed simp
  then obtain digits radix where
    r: "for_loop 0 (int ?n) ?body ((replicate 34 None)[?n := Some 0], (replicate 34 None)[?n := Some 1]) = Some (digits, radix)"
    and P: "?P (int ?n) (digits, radix)" by auto
  have s: "st (replicate 34 None) (int ?n) v = Some ((replicate 34 None)[?n := v])" for v :: "int option"
    using L(2) by (simp add: st_def int_ok_def)
  have "init_radix (int ?n) factors = Some (digits, radix)"
    using L(2) r by (simp add: init_radix_def s)
  moreover have "digits ! i = Some 0" if "i \<le> ?n" for i
    using P that by (cases "i = ?n") auto
  moreover have "seg 0 (map Some (suffix_prods L)) radix"
    using P L(2) by (auto simp: seg_def suffix_prods_nth simp del: map_Suc_upt)
  ultimately show ?thesis using P by auto
qed

text \<open>The permutation that \<open>even_block\<close> stores for the radix \<open>2 ^ m\<close>, before the scaling.\<close>

definition block_perm :: "nat \<Rightarrow> int list" where
  "block_perm m = (if m \<le> 1 then [0, 1]
     else concat (map (\<lambda>q. let j = drop_bit (10 - m) (bitrevTab ! nat q)
                           in [j, j + 2 ^ (m - 1), j + 2 ^ (m - 2), j + 2 ^ (m - 1) + 2 ^ (m - 2)]) [0..2 ^ (m - 2) - 1]))"

lemma block_perm_perm: "m \<in> {1..8} \<Longrightarrow> length (block_perm m) = 2 ^ m \<and> sort (block_perm m) = [0..2 ^ m - 1]"
proof -
  have "\<forall>m \<in> set [1..<9]. length (block_perm m) = 2 ^ m \<and> sort (block_perm m) = [0..2 ^ m - 1]" by code_simp
  then show "m \<in> {1..8} \<Longrightarrow> length (block_perm m) = 2 ^ m \<and> sort (block_perm m) = [0..2 ^ m - 1]" by simp
qed


lemma block_perm_range:
  assumes "m \<in> {1..8}"
  shows "set (block_perm m) = {0..2 ^ m - 1}" and "distinct (block_perm m)"
  using block_perm_perm [OF assms] by (metis set_sort set_upto, metis distinct_sort distinct_upto)

lemma nth_concat4:
  assumes "q < n"
  shows "concat (map (\<lambda>q. [f q, g q, h q, k q]) [0..<n]) ! (4 * q) = f q \<and>
    concat (map (\<lambda>q. [f q, g q, h q, k q]) [0..<n]) ! (4 * q + 1) = g q \<and>
    concat (map (\<lambda>q. [f q, g q, h q, k q]) [0..<n]) ! (4 * q + 2) = h q \<and>
    concat (map (\<lambda>q. [f q, g q, h q, k q]) [0..<n]) ! (4 * q + 3) = k q"
proof -
  have len: "length (concat (map (\<lambda>q. [f q, g q, h q, k q]) [0..<n])) = 4 * n" for n
    by (induction n) simp_all
  show ?thesis using assms
  proof (induction n)
    case (Suc n)
    then show ?case by (cases "q = n") (simp_all add: nth_append len)
  qed simp
qed

lemma block_perm_nth:
  assumes "2 \<le> m" "q < 2 ^ (m - 2)" "c < 4"
  shows "block_perm m ! (4 * q + c) = drop_bit (10 - m) (bitrevTab ! q) + [0, 2 ^ (m - 1), 2 ^ (m - 2), 2 ^ (m - 1) + 2 ^ (m - 2)] ! c"
proof -
  have u: "[0..2 ^ (m - 2) - 1] = map int [0..<2 ^ (m - 2)]"
    by (intro nth_equalityI) (auto simp: nth_upto nat_diff_distrib nat_power_eq)
  have "c = 0 \<or> c = 1 \<or> c = 2 \<or> c = 3" using assms(3) by auto
  then show ?thesis
    using nth_concat4 [OF assms(2), of "\<lambda>q. drop_bit (10 - m) (bitrevTab ! q)"
        "\<lambda>q. drop_bit (10 - m) (bitrevTab ! q) + 2 ^ (m - 1)" "\<lambda>q. drop_bit (10 - m) (bitrevTab ! q) + 2 ^ (m - 2)"
        "\<lambda>q. drop_bit (10 - m) (bitrevTab ! q) + 2 ^ (m - 1) + 2 ^ (m - 2)"] assms(1)
    by (auto simp: block_perm_def u comp_def Let_def algebra_simps simp del: upt_Suc)
qed

lemma log2_loop_power: "k \<le> m \<Longrightarrow> log2_loop (2 ^ m) k = m"
proof (induction "m - k" arbitrary: k)
  case 0
  then show ?case by (subst log2_loop.simps) simp
next
  case (Suc d)
  then have "k < m" by simp
  then have "(2::int) ^ k < 2 ^ m" by simp
  then show ?case using Suc by (subst log2_loop.simps) simp
qed

lemma st_run_4:
  assumes "0 \<le> i" "i + 4 \<le> int (length d)" "length d \<le> 2 ^ 31"
    and "g i = a" "g (i + 1) = b" "g (i + 2) = c" "g (i + 3) = e"
  shows "\<exists>d'. st_run d i [a, b, c, e] = Some d' \<and> wrote {i..<i + 4} g d d'"
proof -
  have "\<exists>d'. st_run d i [a, b, c, e] = Some d' \<and> wrote {i..<i + int (length [a, b, c, e])} g d d'"
  proof (rule wrote_st_run)
    fix k assume "k < length [a, b, c, e]"
    then have "k = 0 \<or> k = 1 \<or> k = 2 \<or> k = 3" by auto
    then show "g (i + int k) = [a, b, c, e] ! k" using assms(4-) by auto
  qed (use assms in simp_all)
  then show ?thesis by simp
qed

lemma even_block_writes:
  assumes m: "m \<in> {1..8}" and len: "2 ^ m \<le> length itab" "length itab \<le> 2 ^ 31"
  shows "\<exists>t. even_block (2 ^ m) a m itab = Some t \<and> wrote {0..<2 ^ m} (\<lambda>i. block_perm m ! nat i * a) itab t"
proof (cases "m = 1")
  case True
  have "\<exists>t. st_run itab 0 [0, a] = Some t \<and> wrote {0..<0 + int (length [0, a])} (\<lambda>i. block_perm m ! nat i * a) itab t"
    using len True by (intro wrote_st_run) (auto simp: block_perm_def nth_Cons')
  then show ?thesis using True by (auto simp: even_block_def drop_bit_eq_div Let_def)
next
  case False
  then obtain p where p: "m = p + 2" using m by (metis atLeastAtMost_iff le_add_diff_inverse2 le_neq_implies_less Suc_leI one_add_one plus_1_eq_Suc)
  let ?g = "\<lambda>i. block_perm m ! nat i * a"
  have n: "\<not> (2::int) ^ m \<le> 2" "(2::int) ^ m \<le> 256" "(2::int) ^ m div 4 = 2 ^ p"
  proof -
    have "(2::int) ^ 2 \<le> 2 ^ m" using p by (intro power_increasing) simp_all
    then show "\<not> (2::int) ^ m \<le> 2" by simp
    show "(2::int) ^ m \<le> 256" using power_increasing [of m 8 "2::int"] m by simp
    show "(2::int) ^ m div 4 = 2 ^ p" by (simp add: p power_add)
  qed
  have na: "drop_bit 1 (2 ^ m * a) = 2 ^ (m - 1) * a" "drop_bit 1 (2 ^ (m - 1) * a) = 2 ^ (m - 2) * a"
    by (simp_all add: p drop_bit_eq_div)
  have p6: "(2::nat) ^ p \<le> 64" using power_increasing [of p 6 "2::nat"] p m by simp
  have "\<exists>t. for_loop 0 (2 ^ p) (\<lambda>q t. do {
          r \<leftarrow> ld bitrevTab (drop_bit 2 (4 * q));
          store4 t (4 * q) (drop_bit (10 - m) r * a) (2 ^ (m - 1) * a) (2 ^ (m - 2) * a) }) itab = Some t \<and>
      wrote (\<Union>q\<in>{0..<2 ^ p}. {4 * q..<4 * q + 4}) ?g itab t"
  proof (rule wrote_for)
    fix q :: int and d :: "int list"
    assume q: "0 \<le> q" "q < 2 ^ p" and d: "length d = length itab"
    then obtain k where k: "q = int k" "k < 2 ^ p" by (metis nonneg_int_cases of_nat_less_numeral_power_cancel_iff)
    have l: "length bitrevTab = 256" by (simp add: bitrevTab_def)
    have rr: "ld bitrevTab (drop_bit 2 (4 * q)) = Some (bitrevTab ! k)"
      using k p6 by (simp add: drop_bit_eq_div ld_def l int_ok_def)
    have kk: "4 * k + 4 \<le> 2 ^ m" using k by (simp add: p power_add)
    have b: "block_perm m ! (4 * k + c) = drop_bit (10 - m) (bitrevTab ! k) + [0, 2 ^ (m - 1), 2 ^ (m - 2), 2 ^ (m - 1) + 2 ^ (m - 2)] ! c"
      if "c < 4" for c using block_perm_nth [of m k c] k(2) p that by simp
    have e: "nat (4 * q) = 4 * k" "nat (4 * q + 1) = 4 * k + 1" "nat (4 * q + 2) = 4 * k + 2" "nat (4 * q + 3) = 4 * k + 3"
      using k(1) by simp_all
    define r where "r = drop_bit (10 - m) (bitrevTab ! k)"
    have g: "?g (4 * q) = r * a" "?g (4 * q + 1) = r * a + 2 ^ (m - 1) * a" "?g (4 * q + 2) = r * a + 2 ^ (m - 2) * a"
        "?g (4 * q + 3) = r * a + 2 ^ (m - 1) * a + 2 ^ (m - 2) * a"
      unfolding e using b [of 0] b [of 1] b [of 2] b [of 3]
      by (simp_all add: distrib_right flip: r_def)
    have bd: "0 \<le> 4 * q" "4 * q + 4 \<le> int (length d)" "length d \<le> 2 ^ 31" using q kk k(1) len d by auto
    have "\<exists>d'. store4 d (4 * q) (r * a) (2 ^ (m - 1) * a) (2 ^ (m - 2) * a) = Some d' \<and> wrote {4 * q..<4 * q + 4} ?g d d'"
      unfolding store4_def by (rule st_run_4 [OF bd g])
    then show "\<exists>d'. (do {
          r \<leftarrow> ld bitrevTab (drop_bit 2 (4 * q));
          store4 d (4 * q) (drop_bit (10 - m) r * a) (2 ^ (m - 1) * a) (2 ^ (m - 2) * a) }) = Some d' \<and>
        wrote {4 * q..<4 * q + 4} ?g d d'" by (simp add: rr flip: r_def)
  qed simp
  moreover have "(\<Union>q\<in>{0..<2 ^ p}. {4 * q..<4 * q + 4}) = {0..<(2::int) ^ m}"
  proof -
    have "i \<in> (\<Union>q\<in>{0..<2 ^ p}. {4 * q..<4 * q + 4})" if "0 \<le> i" "i < 2 ^ m" for i :: int
      using that by (intro UN_I [of "i div 4"]) (auto simp: p power_add div_lessI)
    then show ?thesis by (auto simp: p power_add)
  qed
  ultimately show ?thesis using n na by (simp add: even_block_def Let_def)
qed


lemma radix_ld:
  assumes "seg 0 (map Some (suffix_prods L)) radix" "k \<le> length L" "length radix \<le> 2 ^ 31"
  shows "ldv radix (int k) = Some (prod_list (drop k L))"
  using seg0_ld [OF assms(1), of k] assms(2,3) by (simp add: ldv_def suffix_prods_nth less_Suc_eq_le del: upt_Suc)

lemma odd_itab_writes:
  assumes "L \<noteq> []" "\<forall>f \<in> set L. 0 < f" "0 \<le> i" "i < prod_list L" "counter 0 L digits i"
    and "seg 0 L factors" "seg 0 (map Some (suffix_prods L)) radix"
    and "length digits \<le> 2 ^ 31" "length radix \<le> 2 ^ 31" "length factors \<le> 2 ^ 31"
    and "prod_list L \<le> int (length itab)" "length itab \<le> 2 ^ 31"
  shows "\<exists>t. odd_itab (prod_list L) i (digit_rev L i) digits radix factors itab = Some t \<and>
    wrote {i..<prod_list L} (digit_rev L) itab t"
  using assms(3-5,8,11,12)
proof (induction "nat (prod_list L - i)" arbitrary: i digits itab rule: less_induct)
  case less
  let ?n = "prod_list L"
  have "\<exists>t. st itab i (digit_rev L i) = Some t \<and> wrote {i} (digit_rev L) itab t"
    using less.prems by (intro wrote_st) (auto simp: int_ok_def)
  then obtain t where t: "st itab i (digit_rev L i) = Some t" "wrote {i} (digit_rev L) itab t" by blast
  show ?case
  proof (cases "i + 1 \<ge> ?n")
    case True
    then have "{i..<?n} = {i}" using less.prems(2) by auto
    moreover have "odd_itab ?n i (digit_rev L i) digits radix factors itab = Some t"
      using t(1) True by (subst odd_itab.simps) simp
    ultimately show ?thesis using t(2) by auto
  next
    case False
    have r1: "ldv radix 1 = Some (prod_list (tl L))"
      using radix_ld [OF assms(7), of 1] assms(1,9) by (simp add: drop_Suc Suc_le_eq)
    have "\<exists>digits'. dft_carry (int 0) (digit_rev L i + prod_list (tl L)) digits radix factors =
      Some (digit_rev L i + digit_rev L (i + 1) - digit_rev L i, digits') \<and> counter 0 L digits' (i + 1) \<and>
      length digits' = length digits \<and> (\<forall>k < 0. digits' ! k = digits ! k)"
      using False assms less.prems by (intro carry_counts) simp_all
    then obtain ds where ds: "dft_carry 0 (digit_rev L i + prod_list (tl L)) digits radix factors = Some (digit_rev L (i + 1), ds)"
      "counter 0 L ds (i + 1)" "length ds = length digits" by auto
    have "\<exists>t'. odd_itab ?n (i + 1) (digit_rev L (i + 1)) ds radix factors t = Some t' \<and> wrote {i + 1..<?n} (digit_rev L) t t'"
      using less.hyps [of "i + 1" ds t] False less.prems ds(2,3) wrote_length [OF t(2)] by simp
    then obtain t' where t': "odd_itab ?n (i + 1) (digit_rev L (i + 1)) ds radix factors t = Some t'"
      "wrote {i + 1..<?n} (digit_rev L) t t'" by blast
    have "odd_itab ?n i (digit_rev L i) digits radix factors itab = Some t'"
      using t(1) False r1 ds(1) t'(1) by (subst odd_itab.simps) simp
    moreover have "{i..<?n} = {i} \<union> {i + 1..<?n}" using less.prems(2) by auto
    ultimately show ?thesis using wrote_comp [OF t(2) t'(2)] by auto
  qed
qed

lemma copy_block:
  assumes "0 < n" "n \<le> i" "i + n \<le> int (length itab)" "length itab \<le> 2 ^ 31"
    and "\<And>k. 0 \<le> k \<Longrightarrow> k < n \<Longrightarrow> itab ! nat k = B k" "\<And>k. 0 \<le> k \<Longrightarrow> k < n \<Longrightarrow> g (i + k) = B k + j"
  shows "\<exists>t. for_loop 0 n (\<lambda>k t. do { v \<leftarrow> ld t k; st t (i + k) (v + j) }) itab = Some t \<and> wrote {i..<i + n} g itab t"
proof -
  have "\<exists>t. for_loop 0 n (\<lambda>k t. do { v \<leftarrow> ld t k; st t (i + k) (v + j) }) itab = Some t \<and> wrote {i..<i + n} g itab t"
  proof (rule for_loop_inv [where P = "\<lambda>k. wrote {i..<i + k} g itab"])
    show "wrote {i..<i + 0} g itab itab" by (simp add: wrote_empty)
  next
    fix k t assume k: "0 \<le> k" "k < n" and w: "wrote {i..<i + k} g itab t"
    have l: "length t = length itab" using w by auto
    have "t ! nat k = B k" using wrote_nth [OF w, of "nat k"] assms k by auto
    then have v: "ld t k = Some (B k)" using k assms l by (simp add: ld_def int_ok_def)
    have "\<exists>t'. st t (i + k) (B k + j) = Some t' \<and> wrote {i + k} g t t'"
      using k assms l by (intro wrote_st) (auto simp: int_ok_def)
    then obtain t' where t': "st t (i + k) (B k + j) = Some t'" "wrote {i + k} g t t'" by blast
    have "{i..<i + k} \<union> {i + k} = {i..<i + (k + 1)}" using k by auto
    then show "\<exists>s'. (do { v \<leftarrow> ld t k; st t (i + k) (v + j) }) = Some s' \<and> wrote {i..<i + (k + 1)} g itab s'"
      using v t' wrote_comp [OF w t'(2)] by simp
  qed (use assms in simp)
  then show ?thesis .
qed

lemma block_loop_writes:
  assumes n: "0 < n" "\<forall>f \<in> set R. 0 < f" "seg 0 (n # R) factors"
    and "seg 0 (map Some (suffix_prods (n # R))) radix"
    and "length digits \<le> 2 ^ 31" "length radix \<le> 2 ^ 31" "length factors \<le> 2 ^ 31"
    and "1 \<le> x" "x < prod_list R" "counter 1 R digits x"
    and "n * prod_list R \<le> int (length itab)" "length itab \<le> 2 ^ 31"
    and "\<And>k. 0 \<le> k \<Longrightarrow> k < n \<Longrightarrow> itab ! nat k = B k"
  shows "\<exists>t. block_loop (n * prod_list R) n (n * x) (digit_rev R x) digits radix factors itab = Some t \<and>
    wrote {n * x..<n * prod_list R} (\<lambda>p. B (p mod n) + digit_rev R (p div n)) itab t"
  using assms(5,8-)
proof (induction "nat (prod_list R - x)" arbitrary: x digits itab rule: less_induct)
  case less
  let ?N = "n * prod_list R" and ?g = "\<lambda>p. B (p mod n) + digit_rev R (p div n)"
  have ix: "n * (x + 1) \<le> ?N" using less.prems(3) n(1) by (intro mult_left_mono) simp_all
  have nx: "n \<le> n * x" using less.prems(2) n(1) by (simp add: mult_le_cancel_left1)
  have "\<exists>t. for_loop 0 n (\<lambda>k t. do { v \<leftarrow> ld t k; st t (n * x + k) (v + digit_rev R x) }) itab = Some t \<and>
      wrote {n * x..<n * x + n} ?g itab t"
    by (rule copy_block [where B = B]) (use n(1) nx ix less.prems flat_div [of _ n x] in \<open>simp_all add: algebra_simps\<close>)
  then obtain t where t: "for_loop 0 n (\<lambda>k t. do { v \<leftarrow> ld t k; st t (n * x + k) (v + digit_rev R x) }) itab = Some t"
    "wrote {n * x..<n * x + n} ?g itab t" by blast
  have lt: "n * x < ?N" using less.prems(3) n(1) by simp
  show ?case
  proof (cases "n * x + n \<ge> ?N")
    case True
    then have "n * x + n = ?N" using ix by (simp add: distrib_left)
    moreover have "block_loop ?N n (n * x) (digit_rev R x) digits radix factors itab = Some t"
      using t(1) True lt by (subst block_loop.simps) simp
    ultimately show ?thesis using t(2) by auto
  next
    case False
    then have "n * (x + 1) < n * prod_list R" by (simp add: distrib_left)
    then have x1: "x + 1 < prod_list R" using n(1) by (simp add: mult_less_cancel_left_pos)
    have Rne: "R \<noteq> []" using x1 less.prems(2) by auto
    have r2: "ldv radix 2 = Some (prod_list (tl R))"
      using radix_ld [OF assms(4), of 2] Rne assms(6) by (cases R) simp_all
    have s1: "seg (int 1) R factors" "seg (int 1) (map Some (suffix_prods R)) radix"
      using seg_drop [OF n(3), of 1] seg_drop [OF assms(4), of 1] by simp_all
    have "\<exists>digits'. dft_carry (int 1) (digit_rev R x + prod_list (tl R)) digits radix factors =
      Some (digit_rev R x + digit_rev R (x + 1) - digit_rev R x, digits') \<and> counter 1 R digits' (x + 1) \<and>
      length digits' = length digits \<and> (\<forall>k < 1. digits' ! k = digits ! k)"
      by (rule carry_counts) (use x1 less.prems Rne s1 n(2) assms(6,7) in simp_all)
    then obtain ds where ds: "dft_carry 1 (digit_rev R x + prod_list (tl R)) digits radix factors = Some (digit_rev R (x + 1), ds)"
      "counter 1 R ds (x + 1)" "length ds = length digits" by auto
    have lt': "length t = length itab" using t(2) by auto
    have "t ! nat k = B k" if "0 \<le> k" "k < n" for k
    proof -
      have "int (nat k) < int (length itab)" using that nx lt less.prems(5) by linarith
      then show ?thesis using wrote_nth [OF t(2), of "nat k"] that nx less.prems(7) [of k] by auto
    qed
    then have "\<exists>t'. block_loop ?N n (n * (x + 1)) (digit_rev R (x + 1)) ds radix factors t = Some t' \<and> wrote {n * (x + 1)..<?N} ?g t t'"
      by (intro less.hyps) (use x1 less.prems ds lt' in simp_all)
    then obtain t' where t': "block_loop ?N n (n * (x + 1)) (digit_rev R (x + 1)) ds radix factors t = Some t'"
      "wrote {n * (x + 1)..<?N} ?g t t'" by blast
    have "n * (x + 1) = n * x + n" by (simp add: distrib_left)
    with t' have t'': "block_loop ?N n (n * x + n) (digit_rev R (x + 1)) ds radix factors t = Some t'"
      "wrote {n * x + n..<?N} ?g t t'" by simp_all
    have "block_loop ?N n (n * x) (digit_rev R x) digits radix factors itab = Some t'"
      using t(1) False lt r2 ds(1) t''(1) by (subst block_loop.simps) simp
    moreover have "{n * x..<?N} = {n * x..<n * x + n} \<union> {n * x + n..<?N}" using False n(1) by auto
    ultimately show ?thesis using wrote_comp [OF t(2) t''(2)] by auto
  qed
qed


lemma digit_rev_0 [simp]: "digit_rev fs 0 = 0"
  by (induction fs) simp_all

text \<open>What \<open>itab\<close> holds for the factors \<open>L\<close>.\<close>

definition itab_value :: "int list \<Rightarrow> int \<Rightarrow> int" where
  "itab_value L i = (if even (hd L)
     then block_perm (log2_loop (hd L) 0) ! nat (i mod hd L) * prod_list (tl L) + digit_rev (tl L) (i div hd L)
     else digit_rev L i)"

lemma odd_factors_itab:
  assumes "L \<noteq> []" "\<forall>f \<in> set L. 0 < f" "odd (hd L)" "prod_list L = n0" "6 \<le> n0" "seg 0 L fs" "length L < 34"
    and "length fs \<le> 2 ^ 31" "n0 \<le> int (length itab)" "length itab \<le> 2 ^ 31"
  shows "\<exists>t. dft_itab n0 (int (length L)) fs itab = Some (t, 0) \<and> wrote {0..<n0} (itab_value L) itab t"
proof -
  from init_radix_values [OF assms(6-8)] obtain digits radix where
    r: "init_radix (int (length L)) fs = Some (digits, radix)" "length digits = 34" "length radix = 34"
      "\<forall>i \<le> length L. digits ! i = Some 0" "seg 0 (map Some (suffix_prods L)) radix" by blast
  have f0: "ld fs 0 = Some (hd L)" using seg0_ld [OF assms(6), of 0] assms(1,8) by (simp add: hd_conv_nth)
  have c: "counter 0 L digits 0" using r assms(7) by (intro counter_0) auto
  have "\<exists>t. odd_itab (prod_list L) 0 (digit_rev L 0) digits radix fs itab = Some t \<and>
      wrote {0..<prod_list L} (digit_rev L) itab t"
    using assms r c by (intro odd_itab_writes) simp_all
  then obtain t where "odd_itab n0 0 0 digits radix fs itab = Some t" "wrote {0..<n0} (digit_rev L) itab t"
    using assms(4) by auto
  moreover have "itab_value L = digit_rev L" using assms(3) by (intro ext) (simp add: itab_value_def)
  ultimately show ?thesis using assms(3,5) f0 r(1) by (simp add: dft_itab_def)
qed

lemma even_factors_itab:
  assumes L: "L = 2 ^ m # R" and m: "m \<in> {1..8}" and R: "\<forall>f \<in> set R. 1 < f" and n0: "prod_list L = n0" "6 \<le> n0"
    and fs: "seg 0 L fs" "length L < 34" "length fs \<le> 2 ^ 31" and itab: "n0 \<le> int (length itab)" "length itab \<le> 2 ^ 31"
  shows "\<exists>t. dft_itab n0 (int (length L)) fs itab = Some (t, m) \<and> wrote {0..<n0} (itab_value L) itab t"
proof -
  let ?a = "prod_list R" and ?n = "2 ^ m :: int"
  have Rp: "\<forall>f \<in> set R. 0 < f" using R by auto
  have a0: "0 < ?a" using Rp by (rule prod_list_pos)
  have N: "n0 = ?n * ?a" using n0(1) L by simp
  have nle: "?n \<le> n0" unfolding N using a0 by simp
  from init_radix_values [OF fs] obtain digits radix where
    r: "init_radix (int (length L)) fs = Some (digits, radix)" "length digits = 34" "length radix = 34"
      "\<forall>i \<le> length L. digits ! i = Some 0" "seg 0 (map Some (suffix_prods L)) radix" by blast
  have f0: "ld fs 0 = Some ?n" using seg0_ld [OF fs(1), of 0] fs(3) L by simp
  have ra: "ldv radix 1 = Some ?a" using radix_ld [OF r(5), of 1] r(3) L by simp
  have lg: "log2_loop ?n 0 = m" by (rule log2_loop_power) simp
  have m0: "0 < m" using m by auto
  have ev: "even ?n" using m0 by simp
  define B where "B = (\<lambda>k. block_perm m ! nat k * ?a)"
  have "2 ^ m \<le> length itab" 
  proof -
    have "int (2 ^ m) \<le> int (length itab)" using order_trans [OF nle itab(1)] by (simp only: of_nat_power of_nat_numeral)
    then show ?thesis by (simp only: of_nat_le_iff)
  qed
  from even_block_writes [OF m this itab(2), of ?a] obtain t1 where
    t1: "even_block ?n ?a m itab = Some t1" "wrote {0..<?n} B itab t1" by (auto simp: B_def)
  have val: "itab_value L i = B (i mod ?n) + digit_rev R (i div ?n)" for i
    by (simp add: itab_value_def L B_def lg m0)
  have base: "wrote {0..<?n} (itab_value L) itab t1"
    using t1(2) unfolding wrote_def val by auto
  have lt1: "length t1 = length itab" using t1(2) by auto
  have d1: "ldv digits 1 = Some 0" "st digits 1 (Some (0 + 1)) = Some (digits[1 := Some 1])"
    using r L by (simp_all add: ldv_def ld_def st_def int_ok_def)
  show ?thesis
  proof (cases "R = []")
    case True
    then have "\<not> int (length L) \<ge> 2" "n0 = ?n" using L N by simp_all
    then show ?thesis using base n0(2) f0 r(1) ra lg ev t1(1) d1 by (simp add: dft_itab_def)
  next
    case False
    then obtain f fs' where R': "R = f # fs'" by (cases R) auto
    have f1: "1 < f" using R R' by simp
    have p0: "0 < prod_list fs'" using Rp R' by (simp add: prod_list_pos)
    have dr1: "digit_rev R 1 = prod_list (tl R)" using f1 by (simp add: R')
    have a1: "1 < ?a" using f1 p0 by (simp add: R' less_1_mult' mult_less_cancel_right)
    have r2: "ldv radix 2 = Some (prod_list (tl R))"
      using radix_ld [OF r(5), of 2] r(3) L R' by simp
    have c: "counter 1 R (digits[1 := Some 1]) 1"
    proof -
      have "counter 2 fs' (digits[1 := Some 1]) 0" using r fs(2) L R' by (intro counter_0) auto
      then show ?thesis using f1 r(2) by (simp add: R' numeral_2_eq_2)
    qed
    have s: "seg 0 (?n # R) fs" "seg 0 (map Some (suffix_prods (?n # R))) radix" using fs(1) r(5) L by simp_all
    have "t1 ! nat k = B k" if "0 \<le> k" "k < ?n" for k
      using wrote_nth [OF t1(2), of "nat k"] that nle itab(1) by auto
    then have "\<exists>t. block_loop (?n * prod_list R) ?n (?n * 1) (digit_rev R 1) (digits[1 := Some 1]) radix fs t1 = Some t \<and>
        wrote {?n * 1..<?n * prod_list R} (\<lambda>p. B (p mod ?n) + digit_rev R (p div ?n)) t1 t"
      using s c a1 r fs itab N lt1 by (intro block_loop_writes [OF _ Rp]) simp_all
    then obtain t where t: "block_loop n0 ?n ?n (prod_list (tl R)) (digits[1 := Some 1]) radix fs t1 = Some t"
      "wrote {?n..<n0} (itab_value L) t1 t" by (auto simp: N dr1 fun_eq_iff [THEN iffD2, OF allI, OF val])
    have "{0..<?n} \<union> {?n..<n0} = {0..<n0}" using nle by (simp add: ivl_disj_un_two)
    moreover have "int (length L) \<ge> 2" using L R' by simp
    ultimately show ?thesis using wrote_comp [OF base t(2)] n0(2) f0 r(1) ra lg ev t1(1) d1 r2 t(1)
      by (simp add: dft_itab_def)
  qed
qed

lemma itab_value_perm:
  assumes "L = 2 ^ m # R \<and> m \<in> {1..8} \<or> odd (hd L) \<and> L = R" "\<forall>f \<in> set R. 0 < f" "n = prod_list L"
  shows "mset (map (itab_value L) [0..n - 1]) = mset [0..n - 1]"
  using assms(1)
proof
  assume L: "L = 2 ^ m # R \<and> m \<in> {1..8}"
  let ?n = "2 ^ m :: int"
  have N: "n = ?n * prod_list R" using L assms(3) by simp
  have ev: "even ?n" using L by simp
  have a0: "0 < prod_list R" using assms(2) by (rule prod_list_pos)
  have val: "itab_value L i = block_perm m ! nat (i mod ?n) * prod_list R + digit_rev R (i div ?n)" for i
    using L ev by (simp add: itab_value_def log2_loop_power)
  have len: "length (block_perm m) = 2 ^ m" and rg: "set (block_perm m) = {0..?n - 1}" and di: "distinct (block_perm m)"
    using block_perm_perm [of m] block_perm_range [of m] L by simp_all
  have b: "0 \<le> block_perm m ! nat (i mod ?n) \<and> block_perm m ! nat (i mod ?n) < ?n" for i
  proof -
    have "nat (i mod ?n) < length (block_perm m)" unfolding len by (simp add: nat_less_iff)
    then have "block_perm m ! nat (i mod ?n) \<in> {0..?n - 1}" using rg nth_mem by blast
    then show ?thesis by simp
  qed
  have d: "0 \<le> i div ?n \<and> i div ?n < prod_list R" if "0 \<le> i" "i < n" for i
    using that by (simp add: N pos_imp_zdiv_nonneg_iff div_lessI mult.commute)
  note dr = digit_rev_range [OF assms(2)]
  show ?thesis
  proof (rule mset_perm)
    fix i assume i: "0 \<le> i" "i < n"
    show "0 \<le> itab_value L i \<and> itab_value L i < n"
      unfolding val N using b [of i] dr [of "i div ?n"] d [OF i] by (auto intro: flat_bound)
  next
    fix i j assume i: "0 \<le> i" "i < n" and j: "0 \<le> j" "j < n" and e: "itab_value L i = itab_value L j"
    from d [OF i] d [OF j] dr have r: "0 \<le> digit_rev R (i div ?n) \<and> digit_rev R (i div ?n) < prod_list R"
      "0 \<le> digit_rev R (j div ?n) \<and> digit_rev R (j div ?n) < prod_list R" by auto
    have e2: "block_perm m ! nat (i mod ?n) = block_perm m ! nat (j mod ?n)" "digit_rev R (i div ?n) = digit_rev R (j div ?n)"
      using e r flat_div unfolding val by metis+
    have "nat (i mod ?n) = nat (j mod ?n)"
      using e2(1) nth_eq_iff_index_eq [OF di] len by (simp add: nat_less_iff)
    moreover have "i div ?n = j div ?n" using digit_rev_inj [OF assms(2)] e2(2) d [OF i] d [OF j] by blast
    ultimately show "i = j" by (metis div_mult_mod_eq eq_nat_nat_iff pos_mod_sign zero_less_numeral zero_less_power)
  qed
next
  assume L: "odd (hd L) \<and> L = R"
  then have "itab_value L = digit_rev R" by (auto simp: itab_value_def fun_eq_iff)
  then have v: "itab_value L = digit_rev R" "n = prod_list R" using L assms(3) by simp_all
  show ?thesis unfolding v using digit_rev_range [OF assms(2)] digit_rev_inj [OF assms(2)] by (rule mset_perm)
qed


section \<open>Small sizes and the roots of unity\<close>

lemma small_itab_perm:
  assumes "1 \<le> n0" "n0 \<le> 5" "n0 \<le> int (length itab)" "length itab \<le> 2 ^ 31"
  shows "\<exists>t g. small_itab n0 itab = Some t \<and> wrote {0..<n0} g itab t \<and> mset (map g [0..n0 - 1]) = mset [0..n0 - 1]"
proof (cases "n0 = 4")
  case True
  then have "small_itab n0 itab = Some (itab[0 := 0, 3 := 3, 1 := 2, 2 := 1])"
    using assms by (cases itab) (auto simp: small_itab_def st_def int_ok_def)
  moreover have "wrote {0..<n0} (\<lambda>i. [0, 2, 1, 3] ! nat i) itab (itab[0 := 0, 3 := 3, 1 := 2, 2 := 1])"
    using True by (auto simp: wrote_def nth_list_update less_Suc_eq nth_Cons')
  ultimately show ?thesis using True by (intro exI) (auto simp: upto_rec1)
next
  case False
  have "\<exists>t. st itab 0 0 = Some t \<and> wrote {0} (\<lambda>i. i) itab t"
    using assms by (intro wrote_st) (auto simp: int_ok_def)
  then obtain t1 where 1: "st itab 0 0 = Some t1" "wrote {0} (\<lambda>i. i) itab t1" by blast
  have "\<exists>t. st t1 (n0 - 1) (n0 - 1) = Some t \<and> wrote {n0 - 1} (\<lambda>i. i) t1 t"
    using assms wrote_length [OF 1(2)] by (intro wrote_st) (auto simp: int_ok_def)
  then obtain t2 where 2: "st t1 (n0 - 1) (n0 - 1) = Some t2" "wrote {n0 - 1} (\<lambda>i. i) t1 t2" by blast
  have "\<exists>t. for_loop 1 (n0 - 1) (\<lambda>i t. st t i i) t2 = Some t \<and> wrote (\<Union>i\<in>{1..<n0 - 1}. {i}) (\<lambda>i. i) t2 t"
    using assms wrote_length [OF 1(2)] wrote_length [OF 2(2)]
    by (intro wrote_for [where n = "length itab"] wrote_st) (auto simp: int_ok_def)
  then obtain t where 3: "for_loop 1 (n0 - 1) (\<lambda>i t. st t i i) t2 = Some t" "wrote (\<Union>i\<in>{1..<n0 - 1}. {i}) (\<lambda>i. i) t2 t" by blast
  have "{0} \<union> {n0 - 1} \<union> (\<Union>i\<in>{1..<n0 - 1}. {i}) = {0..<n0}" using assms(1) by auto
  then have "wrote {0..<n0} (\<lambda>i. i) itab t" using wrote_comp [OF wrote_comp [OF 1(2) 2(2)] 3(2)] by simp
  then show ?thesis using False 1(1) 2(1) 3(1) by (intro exI [of _ t] exI [of _ "\<lambda>i. i"]) (simp add: small_itab_def)
qed

text \<open>The table of roots is conjugate symmetric.\<close>

definition conj_symmetric :: "int \<Rightarrow> f32 list \<Rightarrow> bool" where
  "conj_symmetric n0 wave \<longleftrightarrow> (\<forall>k \<in> {1..n0 - 1}.
     wave ! nat (2 * (n0 - k)) = wave ! nat (2 * k) \<and>
     wave ! nat (2 * (n0 - k) + 1) = - wave ! nat (2 * k + 1))"

definition wave_inv :: "int \<Rightarrow> f32 list \<Rightarrow> int \<Rightarrow> f32 list \<Rightarrow> bool" where
  "wave_inv n0 w0 i w \<longleftrightarrow> length w = length w0 \<and> seg 0 [1, 0] w \<and> (even n0 \<longrightarrow> seg n0 [- 1, 0] w) \<and>
     (\<forall>k \<in> {1..<i}. w ! nat (2 * (n0 - k)) = w ! nat (2 * k) \<and> w ! nat (2 * (n0 - k) + 1) = - w ! nat (2 * k + 1))"

lemma wave_inv_step:
  assumes inv: "wave_inv n0 w0 i w" and i: "1 \<le> i" "i < (n0 + 1) div 2" and n: "2 * n0 \<le> int (length w0)"
  shows "wave_inv n0 w0 (i + 1) (w[nat (2 * i) := a, nat (2 * i + 1) := b, nat (2 * (n0 - i)) := a, nat (2 * (n0 - i) + 1) := - b])"
    (is "wave_inv n0 w0 (i + 1) ?w")
proof -
  have far: "2 * i + 1 \<le> n0" "even n0 \<Longrightarrow> 2 * i + 2 \<le> n0" using i by presburger+
  have lw: "length w = length w0" using inv by (simp add: wave_inv_def)
  let ?S = "{nat (2 * i), nat (2 * i + 1), nat (2 * (n0 - i)), nat (2 * (n0 - i) + 1)}"
  have same: "?w ! j = w ! j" if "j \<notin> ?S" for j using that by simp
  have new: "?w ! nat (2 * i) = a" "?w ! nat (2 * i + 1) = b" "?w ! nat (2 * (n0 - i)) = a" "?w ! nat (2 * (n0 - i) + 1) = - b"
    using far n lw i by (auto simp: nth_list_update nat_eq_iff)
  have "seg 0 [1, 0] ?w"
    using inv i far same [of 0] same [of 1] by (auto simp: wave_inv_def seg_def less_Suc_eq)
  moreover have "seg n0 [- 1, 0] ?w" if "even n0"
  proof -
    have n0: "0 \<le> n0" using i by linarith
    have "nat n0 \<notin> ?S" "nat n0 + 1 \<notin> ?S" using far that n0 i by (auto simp: nat_eq_iff)
    then show ?thesis using inv that same [of "nat n0"] same [of "nat n0 + 1"]
      by (auto simp: wave_inv_def seg_def less_Suc_eq)
  qed
  moreover have "?w ! nat (2 * (n0 - k)) = ?w ! nat (2 * k) \<and> ?w ! nat (2 * (n0 - k) + 1) = - ?w ! nat (2 * k + 1)"
    if k: "k \<in> {1..<i + 1}" for k
  proof (cases "k = i")
    case False
    then have "nat (2 * (n0 - k)) \<notin> ?S" "nat (2 * k) \<notin> ?S" "nat (2 * (n0 - k) + 1) \<notin> ?S" "nat (2 * k + 1) \<notin> ?S"
      using k far by (auto simp: nat_eq_iff eq_nat_nat_iff)
    note old = this [THEN same]
    have "k \<in> {1..<i}" using k False by auto
    then show ?thesis unfolding old using inv unfolding wave_inv_def by blast
  qed (use new in simp)
  ultimately show ?thesis using lw by (simp add: wave_inv_def)
qed

lemma dft_wave_symmetric:
  assumes n0: "4 \<le> n0" "2 * n0 \<le> int (length wave)" "length wave \<le> 2 ^ 31" and m: "m < 32"
  shows "\<exists>w. dft_wave sin_d sqrt_f n0 m wave = Some w \<and> length w = length wave \<and> conj_symmetric n0 w"
proof -
  let ?n = "(n0 + 1) div 2"
  have "length DFTTab = 32" by (simp add: DFTTab_def)
  then have "ld DFTTab (int m) = Some (DFTTab ! m)" using m by (simp add: ld_def int_ok_def)
  then have "\<exists>w1. wave_start sin_d sqrt_f n0 m = Some w1"
    by (cases "n0 AND (n0 - 1) = 0") (simp_all add: wave_start_def split_def Let_def)
  then obtain w1 where ws: "wave_start sin_d sqrt_f n0 m = Some w1" by blast
  have ev: "2 * ?n = n0" if "even n0" using that by auto
  from st_run_seg [of 0 "[1, 0]" 2 wave] n0 obtain v1 where
    v1: "st_run wave 0 [1, 0] = Some v1" "seg 0 [1, 0] v1" "same_outside 0 2 wave v1" by auto
  have l1: "length v1 = length wave" using v1(3) by (rule same_outside_length)
  have "\<exists>v2. (if even n0 then st_run v1 (2 * ?n) [- 1, 0] else Some v1) = Some v2 \<and> wave_inv n0 wave 1 v2"
  proof (cases "even n0")
    case True
    from st_run_seg [of n0 "[- 1, 0]" "n0 + 2" v1] n0 l1 obtain v2 where
      "st_run v1 n0 [- 1, 0] = Some v2" "seg n0 [- 1, 0] v2" "same_outside n0 (n0 + 2) v1 v2" by auto
    then show ?thesis using True ev n0 l1 seg_same_outside [OF v1(2), of n0 "n0 + 2" v2]
      by (simp add: wave_inv_def same_outside_length)
  qed (use v1(2) l1 in \<open>simp add: wave_inv_def\<close>)
  then obtain v2 where v2: "(if even n0 then st_run v1 (2 * ?n) [- 1, 0] else Some v1) = Some v2" "wave_inv n0 wave 1 v2" by blast
  let ?body = "\<lambda>i (wv, w :: rat \<times> rat). do {
        wv1 \<leftarrow> st wv (2 * i) (d2f (fst w));
        wv2 \<leftarrow> st wv1 (2 * i + 1) (d2f (snd w));
        wv3 \<leftarrow> st wv2 (2 * (n0 - i)) (d2f (fst w));
        wv4 \<leftarrow> st wv3 (2 * (n0 - i) + 1) (d2f (- snd w));
        let t = dsub (dmul (fst w) (fst w1)) (dmul (snd w) (snd w1));
        let s = dadd (dmul (fst w) (snd w1)) (dmul (snd w) (fst w1));
        Some (wv4, (t, s)) }"
  have "\<exists>s. for_loop 1 ?n ?body (v2, w1) = Some s \<and> wave_inv n0 wave ?n (fst s)"
  proof (rule for_loop_inv [where P = "\<lambda>i s. wave_inv n0 wave i (fst s)"])
    fix i and s :: "f32 list \<times> rat \<times> rat" assume i: "1 \<le> i" "i < ?n" and inv: "wave_inv n0 wave i (fst s)"
    obtain wv w where s: "s = (wv, w)" by (cases s)
    have lw: "length wv = length wave" using inv s by (simp add: wave_inv_def)
    have "?body i s = Some (wv[nat (2 * i) := d2f (fst w), nat (2 * i + 1) := d2f (snd w),
        nat (2 * (n0 - i)) := d2f (fst w), nat (2 * (n0 - i) + 1) := - d2f (snd w)],
        (dsub (dmul (fst w) (fst w1)) (dmul (snd w) (snd w1)), dadd (dmul (fst w) (snd w1)) (dmul (snd w) (fst w1))))"
    proof -
      have "2 * i + 1 < int (length wave)" "i \<le> n0" using i n0 by presburger+
      then show ?thesis using i n0 lw s by (simp add: st_def int_ok_def d2f_def rnd_minus)
    qed
    then show "\<exists>s'. ?body i s = Some s' \<and> wave_inv n0 wave (i + 1) (fst s')"
      using wave_inv_step [OF inv i n0(2)] s by simp
  qed (use v2 n0 in auto)
  then obtain w w2 where w: "for_loop 1 ?n ?body (v2, w1) = Some (w, w2)" "wave_inv n0 wave ?n w" by (metis prod.collapse)
  have "dft_wave sin_d sqrt_f n0 m wave = Some w"
    using ws v1(1) v2(1) w(1) by (simp add: dft_wave_def wave_loop_def Let_def)
  moreover have "conj_symmetric n0 w"
    unfolding conj_symmetric_def
  proof
    fix k assume k: "k \<in> {1..n0 - 1}"
    note inv = w(2) [unfolded wave_inv_def]
    have "k < ?n \<or> n0 - k < ?n \<or> even n0 \<and> 2 * k = n0" by presburger
    then consider "k < ?n" | "n0 - k < ?n" | "even n0" "2 * k = n0" by blast
    then show "w ! nat (2 * (n0 - k)) = w ! nat (2 * k) \<and> w ! nat (2 * (n0 - k) + 1) = - w ! nat (2 * k + 1)"
    proof cases
      case 1
      then show ?thesis using inv k by auto
    next
      case 2
      then have "n0 - k \<in> {1..<?n}" using k by auto
      with inv have "w ! nat (2 * (n0 - (n0 - k))) = w ! nat (2 * (n0 - k)) \<and>
        w ! nat (2 * (n0 - (n0 - k)) + 1) = - w ! nat (2 * (n0 - k) + 1)" by blast
      then show ?thesis by simp
    next
      case 3
      have "w ! (nat n0 + 1) = [- 1, 0] ! 1" using inv 3(1) by (intro seg_nth) simp_all
      moreover have "nat (2 * k + 1) = nat n0 + 1" "nat (2 * (n0 - k) + 1) = nat n0 + 1" "n0 - k = k" using 3 k by auto
      ultimately show ?thesis by simp
    qed
  qed
  ultimately show ?thesis using w(2) by (auto simp: wave_inv_def)
qed


lemma dft_itab_perm:
  assumes n0: "6 \<le> n0" "n0 < 2 ^ 30" "low_factor n0 \<le> 256" "n0 < 2 ^ length factors" "length factors < 34"
    and itab: "n0 \<le> int (length itab)" "length itab \<le> 2 ^ 31"
  shows "\<exists>fs nf t m g. DFTFactorize n0 factors = Some (fs, nf) \<and> dft_itab n0 nf fs itab = Some (t, m) \<and> m < 32 \<and>
    wrote {0..<n0} g itab t \<and> mset (map g [0..n0 - 1]) = mset [0..n0 - 1]"
proof -
  have lf: "length factors \<le> 2 ^ 31" using n0(5) by simp
  from DFTFactorize_list [OF n0(1,2,4) lf] obtain fs L P k where
    f: "DFTFactorize n0 factors = Some (fs, int (length L))" "seg 0 L fs" "length fs = length factors"
      "low_factor n0 = 2 ^ k" "L = (if even n0 then [2 ^ k] else []) @ P" "prod_list L = n0"
      "\<forall>p \<in> set P. is_prime p \<and> odd p" "even n0 \<longrightarrow> 0 < k" by blast
  have lL: "length L < 34" using f(2,3) n0(5) by (simp add: seg_def)
  have lfs: "length fs \<le> 2 ^ 31" using f(3) lf by simp
  have P1: "\<forall>p \<in> set P. 1 < p" "\<forall>p \<in> set P. 0 < p" using f(7) by (auto simp: is_prime_def)
  show ?thesis
  proof (cases "even n0")
    case True
    have "(2::int) ^ k \<le> 2 ^ 8" using n0(3) f(4) by simp
    then have "k \<le> 8" by (subst (asm) power_increasing_iff) simp_all
    then have k: "k \<in> {1..8}" using f(8) True by simp
    have L: "L = 2 ^ k # P" using f(5) True by simp
    from even_factors_itab [OF L k P1(1) f(6) n0(1) f(2) lL lfs itab] obtain t where
      t: "dft_itab n0 (int (length L)) fs itab = Some (t, k)" "wrote {0..<n0} (itab_value L) itab t" by blast
    have "mset (map (itab_value L) [0..n0 - 1]) = mset [0..n0 - 1]"
      using L k f(6) by (intro itab_value_perm [OF _ P1(2)]) simp_all
    then show ?thesis using f(1) t k by auto
  next
    case False
    have L: "L = P" using f(5) False by simp
    then have ne: "L \<noteq> []" using f(6) n0(1) by auto
    have od: "odd (hd L)" using f(7) ne by (simp add: L)
    from odd_factors_itab [OF ne _ od f(6) n0(1) f(2) lL lfs itab] P1 L obtain t where
      t: "dft_itab n0 (int (length L)) fs itab = Some (t, 0)" "wrote {0..<n0} (itab_value L) itab t" by blast
    have "mset (map (itab_value L) [0..n0 - 1]) = mset [0..n0 - 1]"
      using L od f(6) by (intro itab_value_perm [OF _ P1(2)]) simp_all
    then show ?thesis using f(1) t by (intro exI conjI) auto
  qed
qed

lemma wrote_take_drop:
  assumes "wrote {0..<n} g d d'" "0 \<le> n" "n \<le> int (length d)"
  shows "take (nat n) d' = map g [0..n - 1]" and "drop (nat n) d' = drop (nat n) d"
proof -
  have l: "length d' = length d" using assms(1) by auto
  show "take (nat n) d' = map g [0..n - 1]"
    using assms l wrote_nth [OF assms(1)] by (intro nth_equalityI) (auto simp: nth_upto)
  show "drop (nat n) d' = drop (nat n) d"
    using assms l wrote_nth [OF assms(1)] by (intro nth_equalityI) auto
qed

lemma DFTInit_ok:
  assumes n0: "1 \<le> n0" "n0 < 2 ^ 30" "low_factor n0 \<le> 256" "n0 < 2 ^ length factors" "length factors < 34"
    and itab: "n0 \<le> int (length itab)" "length itab \<le> 2 ^ 31"
    and wave: "2 * n0 \<le> int (length wave)" "length wave \<le> 2 ^ 31"
  shows "\<exists>fs nf itab' wave'. DFTFactorize n0 factors = Some (fs, nf) \<and>
     DFTInit sin_d sqrt_f n0 nf fs itab wave = Some (itab', wave') \<and>
     mset (take (nat n0) itab') = mset [0..n0 - 1] \<and> drop (nat n0) itab' = drop (nat n0) itab \<and>
     (n0 = 4 \<or> 5 < n0 \<longrightarrow> conj_symmetric n0 wave')"
proof -
  have "\<exists>fs nf t m g. DFTFactorize n0 factors = Some (fs, nf) \<and> dft_itab n0 nf fs itab = Some (t, m) \<and> m < 32 \<and>
    wrote {0..<n0} g itab t \<and> mset (map g [0..n0 - 1]) = mset [0..n0 - 1]"
  proof (cases "n0 \<le> 5")
    case True
    have "0 < length factors" using n0(1,4) by (cases factors) auto
    then obtain fs where "DFTFactorize n0 factors = Some (fs, 1)"
      using True n0(5) by (auto simp: DFTFactorize_def st_def int_ok_def)
    then show ?thesis using small_itab_perm [OF n0(1) True itab] True by (fastforce simp: dft_itab_def)
  next
    case False
    then show ?thesis using dft_itab_perm [OF _ n0(2-5) itab] by simp
  qed
  then obtain fs nf t m g where
    f: "DFTFactorize n0 factors = Some (fs, nf)" "dft_itab n0 nf fs itab = Some (t, m)" "m < 32"
      "wrote {0..<n0} g itab t" "mset (map g [0..n0 - 1]) = mset [0..n0 - 1]" by blast
  have p: "mset (take (nat n0) t) = mset [0..n0 - 1]" "drop (nat n0) t = drop (nat n0) itab"
    using wrote_take_drop [OF f(4)] n0(1) itab(1) f(5) by simp_all
  consider "n0 = 4 \<or> 5 < n0" | "n0 = 5" | "n0 < 4" by linarith
  then show ?thesis
  proof cases
    case 1
    then obtain w where "dft_wave sin_d sqrt_f n0 m wave = Some w" "conj_symmetric n0 w"
      using dft_wave_symmetric [of n0 wave m sin_d sqrt_f] wave f(3) by auto
    then show ?thesis using 1 f(1,2) p by (auto simp: DFTInit_def)
  next
    case 2
    then obtain w where "st_run wave 0 [1, 0] = Some w"
      using st_run_seg [of 0 "[1, 0]" 2 wave] wave by (auto simp del: st_run.simps)
    then have "DFTInit sin_d sqrt_f n0 nf fs itab wave = Some (t, w)"
      using 2 f(2) by (simp add: DFTInit_def del: st_run.simps)
    then show ?thesis using 2 f(1) p by auto
  next
    case 3
    then show ?thesis using f(1,2) p by (auto simp: DFTInit_def)
  qed
qed

section \<open>Properties\<close>

lemma DFTFactorize_small:
  assumes "1 \<le> n" "n \<le> 5" "0 < length factors"
  shows "\<exists>fs. DFTFactorize n factors = Some (fs, 1) \<and> take 1 fs = [n]"
proof -
  obtain x xs where "factors = x # xs" using assms(3) by (cases factors) auto
  then show ?thesis using assms(1,2) by (simp add: DFTFactorize_def st_def int_ok_def)
qed

lemma small_factor_shape:
  assumes "2 \<le> n" "n \<le> 5"
  shows "\<exists>k P. [n] = (if even n then [2 ^ k] else []) @ P \<and> (\<forall>p \<in> set P. is_prime p \<and> odd p) \<and> sorted_wrt (\<ge>) P"
proof -
  have "{2..<3 :: int} = {2}" "{2..<5 :: int} = {2, 3, 4}" by auto
  then have p: "is_prime 3" "is_prime 5" by (simp_all add: is_prime_def)
  consider "n = 2" | "n = 3" | "n = 4" | "n = 5" using assms by linarith
  then show ?thesis
  proof cases
    case 1 then show ?thesis by (intro exI [of _ 1] exI [of _ "[]"]) simp
  next
    case 2 then show ?thesis using p by (intro exI [of _ 0] exI [of _ "[3]"]) simp
  next
    case 3 then show ?thesis by (intro exI [of _ 2] exI [of _ "[]"]) simp
  next
    case 4 then show ?thesis using p by (intro exI [of _ 0] exI [of _ "[5]"]) simp
  qed
qed

text \<open>C34. \<^verbatim>\<open>DFTFactorize\<close> splits every size from 1 up to \<open>2 ^ 30 - 1\<close> into factors whose product is the
  size: first, for an even size, the largest power of two that divides it, and then odd primes in
  descending order (the size 1 is its own only factor). It stays inside the array of the caller whenever
  that has one element for every bit of the size. (The bound keeps the square of the trial divisor
  inside the 32-bit \<^verbatim>\<open>int\<close> the source computes it in.)\<close>
theorem DFTFactorize_factors:
  assumes "1 \<le> n" "n < 2 ^ 30" "n < 2 ^ length factors" "length factors \<le> 2 ^ 31"
  shows "\<exists>fs L. DFTFactorize n factors = Some (fs, int (length L)) \<and> take (length L) fs = L \<and> prod_list L = n \<and>
     (n = 1 \<longrightarrow> L = [1]) \<and>
     (2 \<le> n \<longrightarrow> (\<exists>k P. L = (if even n then [2 ^ k] else []) @ P \<and> (\<forall>p \<in> set P. is_prime p \<and> odd p) \<and>
        sorted_wrt (\<ge>) P))"
proof (cases "n \<le> 5")
  case True
  have "0 < length factors" using assms(1,3) by (cases factors) auto
  then obtain fs where fs: "DFTFactorize n factors = Some (fs, 1)" "take 1 fs = [n]"
    using DFTFactorize_small [OF assms(1) True] by blast
  have "2 \<le> n \<longrightarrow> (\<exists>k P. [n] = (if even n then [2 ^ k] else []) @ P \<and> (\<forall>p \<in> set P. is_prime p \<and> odd p) \<and>
      sorted_wrt (\<ge>) P)" using small_factor_shape [OF _ True] by (rule impI)
  then have "DFTFactorize n factors = Some (fs, int (length [n])) \<and> take (length [n]) fs = [n] \<and> prod_list [n] = n \<and>
     (n = 1 \<longrightarrow> [n] = [1]) \<and> (2 \<le> n \<longrightarrow> (\<exists>k P. [n] = (if even n then [2 ^ k] else []) @ P \<and>
        (\<forall>p \<in> set P. is_prime p \<and> odd p) \<and> sorted_wrt (\<ge>) P))"
    using fs by (intro conjI) (assumption | simp)+
  then show ?thesis by (intro exI)
next
  case False
  then have "6 \<le> n" by simp
  from DFTFactorize_list [OF this assms(2-4)] obtain fs L P k where
    f: "DFTFactorize n factors = Some (fs, int (length L))" "seg 0 L fs" "L = (if even n then [2 ^ k] else []) @ P"
      "prod_list L = n" "\<forall>p \<in> set P. is_prime p \<and> odd p" "sorted_wrt (\<ge>) P" by blast
  have "take (length L) fs = L" using f(2) by (intro nth_equalityI) (auto simp: seg_def)
  moreover have "\<exists>k P. L = (if even n then [2 ^ k] else []) @ P \<and> (\<forall>p \<in> set P. is_prime p \<and> odd p) \<and> sorted_wrt (\<ge>) P"
    using f(3,5,6) by blast
  moreover have "n \<noteq> 1" using \<open>6 \<le> n\<close> by simp
  ultimately show ?thesis using f(1,4) by blast
qed

text \<open>C12. For every size from 1 on whose even factor is at most 256, the two calls with which the tracker
  prepares a transform, \<^verbatim>\<open>DFTFactorize\<close> and then \<^verbatim>\<open>DFTInit\<close>, stay inside the arrays of the caller and
  leave in \<open>itab\<close> a permutation of \<open>0, ..., n0 - 1\<close> and nothing behind it; for the sizes that need
  roots of unity the table \<open>wave\<close> is conjugate symmetric: entry \<open>n0 - k\<close> is the conjugate of
  entry \<open>k\<close>.\<close>
theorem DFTInit_tables:
  assumes n0: "1 \<le> n0" "n0 < 2 ^ 30" "low_factor n0 \<le> 256" "n0 < 2 ^ length factors" "length factors < 34"
    and itab: "n0 \<le> int (length itab)" "length itab \<le> 2 ^ 31"
    and wave: "2 * n0 \<le> int (length wave)" "length wave \<le> 2 ^ 31"
  shows "\<exists>fs nf itab' wave'. DFTFactorize n0 factors = Some (fs, nf) \<and>
     DFTInit sin_d sqrt_f n0 nf fs itab wave = Some (itab', wave') \<and>
     mset (take (nat n0) itab') = mset [0..n0 - 1] \<and> drop (nat n0) itab' = drop (nat n0) itab \<and>
     (n0 = 4 \<or> 5 < n0 \<longrightarrow> conj_symmetric n0 wave')"
  by (rule DFTInit_ok [OF assms])

section \<open>Witnesses\<close>

theorem DFTFactorize_factors_witness:
  "\<exists>fs L. DFTFactorize 24 (replicate 8 0) = Some (fs, int (length L)) \<and> prod_list L = (24 :: int)"
  using DFTFactorize_factors [of 24 "replicate 8 0"] by (simp del: replicate.simps) blast

theorem DFTInit_tables_witness:
  "\<exists>fs nf itab' wave'. DFTFactorize 24 (replicate 8 0) = Some (fs, nf) \<and>
     DFTInit (\<lambda>x. x) (\<lambda>x. x) 24 nf fs (replicate 32 0) (replicate 64 0) = Some (itab', wave') \<and>
     mset (take 24 itab') = mset [0..23] \<and> conj_symmetric 24 wave'"
  using DFTInit_tables [of 24 "replicate 8 0" "replicate 32 0" "replicate 64 0" "\<lambda>x. x" "\<lambda>x. x"]
  by (simp add: low_factor_def drop_bit_eq_div) blast

end
