(* ===== verification/KcfTracker.thy ===== *)
theory KcfTracker
  imports DftItab
begin

text \<open>
  \<^verbatim>\<open>kcftracker.cpp\<close>: the kernelized correlation filter that follows one object: the geometry of the
  search window, the window functions, and the update of the region of interest from frame to
  frame. A \<^verbatim>\<open>cv::Mat\<close> is a record of its size and its elements in row order.

  Arguments of the definitions: the feature kernels of the GPU, the Gaussian correlation (theory
  \<open>KcfGpu\<close> has the calls that compute it), OpenCV's \<^verbatim>\<open>dft\<close>, \<^verbatim>\<open>minMaxLoc\<close> and matrix expressions, and
  \<^verbatim>\<open>exp\<close>, \<^verbatim>\<open>cos\<close>, \<^verbatim>\<open>sqrt\<close>. A conversion to \<^verbatim>\<open>int\<close> that does not fit and a division by zero whose
  result is converted are undefined.
\<close>

section \<open>State\<close>

record 'a mat =
  mrows :: int
  mcols :: int
  elems :: "'a list"

type_synonym fmat = "f32 mat"
type_synonym cmat = "(f32 \<times> f32) mat"

definition at_mat :: "'a mat \<Rightarrow> int \<Rightarrow> int \<Rightarrow> 'a option" where
  "at_mat m i j = (if 0 \<le> i \<and> i < mrows m \<and> 0 \<le> j \<and> j < mcols m then ld (elems m) (i * mcols m + j) else None)"

record rectf =
  rx :: f32
  ry :: f32
  rw :: f32
  rh :: f32

record recti =
  ix :: int
  iy :: int
  iw :: int
  ih :: int

record kcf =
  interp_factor :: f32
  kcf_sigma :: f32
  kcf_lambda :: f32
  cell_size :: int
  kcf_padding :: f32
  output_sigma_factor :: f32
  template_size :: int
  kcf_roi :: rectf
  tmpl_w :: int
  tmpl_h :: int
  kcf_scale :: f32
  patch_y :: int
  patch_x :: int
  patch_n :: int
  hann :: fmat
  tmpl :: fmat
  prob :: cmat
  alphaf :: cmat

definition empty_mat :: "'a mat" where
  "empty_mat = \<lparr>mrows = 0, mcols = 0, elems = []\<rparr>"

text \<open>The constructor; the members it leaves alone are set by \<^verbatim>\<open>init\<close> before anything reads them.\<close>

definition KCFTracker_new :: kcf where
  "KCFTracker_new = \<lparr>interp_factor = rnd 24 (12 / 1000), kcf_sigma = rnd 24 (6 / 10), kcf_lambda = rnd 24 (1 / 10000),
     cell_size = 4, kcf_padding = 5 / 2, output_sigma_factor = 1 / 8, template_size = 96,
     kcf_roi = \<lparr>rx = 0, ry = 0, rw = 0, rh = 0\<rparr>, tmpl_w = 0, tmpl_h = 0, kcf_scale = 0,
     patch_y = 0, patch_x = 0, patch_n = 0, hann = empty_mat, tmpl = empty_mat, prob = empty_mat, alphaf = empty_mat\<rparr>"

section \<open>The search window\<close>

text \<open>The part of \<^verbatim>\<open>getFeatures\<close> that runs with \<open>inithann\<close>: the size of the template and its scale.\<close>

definition round_cells :: "int \<Rightarrow> int \<Rightarrow> int" where
  "round_cells cell v = cquot v (2 * cell) * 2 * cell + cell * 2"

definition div_int :: "int \<Rightarrow> f32 \<Rightarrow> int option" where
  "div_int p s = (if s = 0 then None else f2i (fdiv (i2f p) s))"

definition init_template :: "kcf \<Rightarrow> kcf option" where
  "init_template k = do {
     padded_w \<leftarrow> f2i (fmul (rw (kcf_roi k)) (kcf_padding k));
     padded_h \<leftarrow> f2i (fmul (rh (kcf_roi k)) (kcf_padding k));
     (s, w, h) \<leftarrow>
       (if template_size k > 1 then do {
          let s = (if padded_w \<ge> padded_h then fdiv (i2f padded_w) (i2f (template_size k))
                   else fdiv (i2f padded_h) (i2f (template_size k)));
          w \<leftarrow> div_int padded_w s;
          h \<leftarrow> div_int padded_h s;
          Some (s, w, h) }
        else Some (1, padded_w, padded_h));
     Some (k\<lparr>kcf_scale := s, tmpl_w := round_cells (cell_size k) w, tmpl_h := round_cells (cell_size k) h\<rparr>) }"

text \<open>The region around the object that the features are taken from.\<close>

definition window_roi :: "f32 \<Rightarrow> kcf \<Rightarrow> recti option" where
  "window_roi scale_adjust k = do {
     let r = kcf_roi k;
     let cx = fadd (rx r) (fdiv (rw r) 2);
     let cy = fadd (ry r) (fdiv (rh r) 2);
     w \<leftarrow> f2i (fmul (fmul scale_adjust (kcf_scale k)) (i2f (tmpl_w k)));
     h \<leftarrow> f2i (fmul (fmul scale_adjust (kcf_scale k)) (i2f (tmpl_h k)));
     x \<leftarrow> f2i (fsub cx (i2f (cquot w 2)));
     y \<leftarrow> f2i (fsub cy (i2f (cquot h 2)));
     Some \<lparr>ix = x, iy = y, iw = w, ih = h\<rparr> }"

text \<open>The size of the feature map that \<^verbatim>\<open>getFeatureMaps_gpu\<close> allocates for a template, and the patch
  size that \<^verbatim>\<open>getFeatures\<close> takes from it.\<close>

definition set_patch :: "kcf \<Rightarrow> kcf" where
  "set_patch k = k\<lparr>patch_y := cquot (tmpl_h k) (cell_size k) - 2, patch_x := cquot (tmpl_w k) (cell_size k) - 2,
     patch_n := 3 * 9 + 4\<rparr>"

section \<open>Window functions\<close>

definition dpi :: rat where "dpi = rnd 53 (314159265358979323846 / 10 ^ 20)"

text \<open>One sample of a Hanning window of \<open>n\<close> samples; \<open>n = 1\<close> divides by zero.\<close>

definition hann_sample :: "(rat \<Rightarrow> rat) \<Rightarrow> int \<Rightarrow> int \<Rightarrow> f32 option" where
  "hann_sample cos_d n i = (if n = 1 then None
     else Some (d2f (dmul (1 / 2) (dsub 1 (cos_d (ddiv (dmul (dmul 2 dpi) (of_int i)) (of_int (n - 1))))))))"

definition createHanningMats :: "(rat \<Rightarrow> rat) \<Rightarrow> kcf \<Rightarrow> kcf option" where
  "createHanningMats cos_d k = do {
     h1 \<leftarrow> mapm (hann_sample cos_d (patch_x k)) [0..patch_x k - 1];
     h2 \<leftarrow> mapm (hann_sample cos_d (patch_y k)) [0..patch_y k - 1];
     let hann1d = concat (map (\<lambda>a. map (fmul a) h1) h2);
     let m = concat (map (\<lambda>_. hann1d) [0..patch_n k - 1]);
     Some (k\<lparr>hann := \<lparr>mrows = patch_n k, mcols = patch_y k * patch_x k, elems = m\<rparr>\<rparr>) }"

definition gaussian_peak :: "(f32 \<Rightarrow> f32) \<Rightarrow> (f32 \<Rightarrow> f32) \<Rightarrow> kcf \<Rightarrow> int \<Rightarrow> int \<Rightarrow> fmat" where
  "gaussian_peak sqrt_f exp_f k sizey sizex =
     (let syh = cquot sizey 2; sxh = cquot sizex 2;
          output_sigma = fmul (fdiv (sqrt_f (fmul (i2f sizex) (i2f sizey))) (kcf_padding k)) (output_sigma_factor k);
          mult = d2f (ddiv (- (1 / 2)) (fmul output_sigma output_sigma))
      in \<lparr>mrows = sizey, mcols = sizex,
          elems = concat (map (\<lambda>i. map (\<lambda>j.
            let ih = i - syh; jh = j - sxh in exp_f (fmul mult (i2f (ih * ih + jh * jh)))) [0..sizex - 1]) [0..sizey - 1])\<rparr>)"

definition createGaussianPeak :: "(fmat \<Rightarrow> cmat) \<Rightarrow> (f32 \<Rightarrow> f32) \<Rightarrow> (f32 \<Rightarrow> f32) \<Rightarrow> kcf \<Rightarrow> int \<Rightarrow> int \<Rightarrow> cmat" where
  "createGaussianPeak fft sqrt_f exp_f k sizey sizex = fft (gaussian_peak sqrt_f exp_f k sizey sizex)"

section \<open>Features, detection and training\<close>

text \<open>What the tracker calls: the feature kernels (surface, window, template size), the correlation
  of two feature maps, the transforms, the position of the maximum and the matrix expressions.\<close>

record kcf_lib =
  l_features :: "nat \<Rightarrow> recti \<Rightarrow> int \<Rightarrow> int \<Rightarrow> fmat"
  l_correlate :: "fmat \<Rightarrow> fmat \<Rightarrow> fmat"
  l_fft :: "fmat \<Rightarrow> cmat"
  l_ifft :: "cmat \<Rightarrow> fmat"
  l_max_loc :: "fmat \<Rightarrow> f32 \<times> int \<times> int"
  l_mul :: "fmat \<Rightarrow> fmat \<Rightarrow> fmat"
  l_complex_mul :: "cmat \<Rightarrow> cmat \<Rightarrow> cmat"
  l_complex_div :: "cmat \<Rightarrow> cmat \<Rightarrow> cmat"
  l_add_scalar :: "cmat \<Rightarrow> f32 \<Rightarrow> cmat"
  l_mix :: "f32 \<Rightarrow> fmat \<Rightarrow> f32 \<Rightarrow> fmat \<Rightarrow> fmat"
  l_mixc :: "f32 \<Rightarrow> cmat \<Rightarrow> f32 \<Rightarrow> cmat \<Rightarrow> cmat"
  l_sqrt :: "f32 \<Rightarrow> f32"
  l_exp :: "f32 \<Rightarrow> f32"
  l_cos :: "rat \<Rightarrow> rat"

definition getFeatures :: "kcf_lib \<Rightarrow> nat \<Rightarrow> bool \<Rightarrow> f32 \<Rightarrow> kcf \<Rightarrow> (fmat \<times> kcf) option" where
  "getFeatures L surface inithann scale_adjust k = do {
     k1 \<leftarrow> (if inithann then init_template k else Some k);
     roi \<leftarrow> window_roi scale_adjust k1;
     let map = l_features L surface roi (tmpl_w k1) (tmpl_h k1);
     let k2 = set_patch k1;
     k3 \<leftarrow> (if inithann then createHanningMats (l_cos L) k2 else Some k2);
     Some (l_mul L (hann k3) map, k3) }"

definition train :: "kcf_lib \<Rightarrow> fmat \<Rightarrow> f32 \<Rightarrow> kcf \<Rightarrow> kcf" where
  "train L x f k =
     (let kk = l_correlate L x x;
          al = l_complex_div L (prob k) (l_add_scalar L (l_fft L kk) (kcf_lambda k))
      in k\<lparr>tmpl := l_mix L (fsub 1 f) (tmpl k) f x, alphaf := l_mixc L (fsub 1 f) (alphaf k) f al\<rparr>)"

definition zero_cmat :: "int \<Rightarrow> int \<Rightarrow> cmat" where
  "zero_cmat r c = \<lparr>mrows = r, mcols = c, elems = replicate (nat (r * c)) (0, 0)\<rparr>"

definition kcf_init :: "kcf_lib \<Rightarrow> recti \<Rightarrow> nat \<Rightarrow> kcf \<Rightarrow> kcf option" where
  "kcf_init L roi surface k0 = do {
     let k = k0\<lparr>kcf_roi := \<lparr>rx = i2f (ix roi), ry = i2f (iy roi), rw = i2f (iw roi), rh = i2f (ih roi)\<rparr>\<rparr>;
     if \<not> (iw roi \<ge> 0 \<and> ih roi \<ge> 0) then None
     else do {
       (t, k1) \<leftarrow> getFeatures L surface True 1 k;
       let k2 = k1\<lparr>tmpl := t\<rparr>;
       let k3 = k2\<lparr>prob := createGaussianPeak (l_fft L) (l_sqrt L) (l_exp L) k2 (patch_y k2) (patch_x k2)\<rparr>;
       let k4 = k3\<lparr>alphaf := zero_cmat (patch_y k3) (patch_x k3)\<rparr>;
       Some (train L t 1 k4) } }"

definition subPixelPeak :: "f32 \<Rightarrow> f32 \<Rightarrow> f32 \<Rightarrow> f32" where
  "subPixelPeak left center right =
     (let divisor = fsub (fsub (fmul 2 center) right) left
      in if divisor = 0 then 0 else d2f (ddiv (dmul (1 / 2) (fsub right left)) divisor))"

definition detect :: "kcf_lib \<Rightarrow> fmat \<Rightarrow> fmat \<Rightarrow> kcf \<Rightarrow> (f32 \<times> f32 \<times> f32) option" where
  "detect L z x k = do {
     let kk = l_correlate L x z;
     let res = l_ifft L (l_complex_mul L (alphaf k) (l_fft L kk));
     let (peak, px, py) = l_max_loc L res;
     dx \<leftarrow> (if px > 0 \<and> px < mcols res - 1 then do {
        a \<leftarrow> at_mat res py (px - 1);
        b \<leftarrow> at_mat res py (px + 1);
        Some (fadd (i2f px) (subPixelPeak a peak b)) } else Some (i2f px));
     dy \<leftarrow> (if py > 0 \<and> py < mrows res - 1 then do {
        a \<leftarrow> at_mat res (py - 1) px;
        b \<leftarrow> at_mat res (py + 1) px;
        Some (fadd (i2f py) (subPixelPeak a peak b)) } else Some (i2f py));
     Some (fsub dx (i2f (cquot (mcols res) 2)), fsub dy (i2f (cquot (mrows res) 2)), peak) }"

text \<open>The three steps of \<^verbatim>\<open>update\<close> on the region: bring it back into the frame, move it by the
  detected shift, and bring it back again.\<close>

definition clamp_before :: "int \<Rightarrow> int \<Rightarrow> rectf \<Rightarrow> rectf" where
  "clamp_before width height r0 =
     (let r1 = (if fadd (rx r0) (rw r0) \<le> 0 then r0\<lparr>rx := fadd (- rw r0) 1\<rparr> else r0);
          r2 = (if fadd (ry r1) (rh r1) \<le> 0 then r1\<lparr>ry := fadd (- rh r1) 1\<rparr> else r1);
          r3 = (if rx r2 \<ge> i2f (width - 1) then r2\<lparr>rx := i2f (width - 2)\<rparr> else r2)
      in if ry r3 \<ge> i2f (height - 1) then r3\<lparr>ry := i2f (height - 2)\<rparr> else r3)"

definition move_roi :: "f32 \<Rightarrow> f32 \<Rightarrow> int \<Rightarrow> f32 \<Rightarrow> rectf \<Rightarrow> rectf" where
  "move_roi resx resy cell scale r =
     (let cx = fadd (rx r) (fdiv (rw r) 2); cy = fadd (ry r) (fdiv (rh r) 2)
      in r\<lparr>rx := fadd (fsub cx (fdiv (rw r) 2)) (fmul (fmul resx (i2f cell)) scale),
           ry := fadd (fsub cy (fdiv (rh r) 2)) (fmul (fmul resy (i2f cell)) scale)\<rparr>)"

definition clamp_after :: "int \<Rightarrow> int \<Rightarrow> rectf \<Rightarrow> rectf" where
  "clamp_after width height r0 =
     (let r1 = (if rx r0 \<ge> i2f (width - 1) then r0\<lparr>rx := i2f (width - 1)\<rparr> else r0);
          r2 = (if ry r1 \<ge> i2f (height - 1) then r1\<lparr>ry := i2f (height - 1)\<rparr> else r1);
          r3 = (if fadd (rx r2) (rw r2) \<le> 0 then r2\<lparr>rx := fadd (- rw r2) 2\<rparr> else r2)
      in if fadd (ry r3) (rh r3) \<le> 0 then r3\<lparr>ry := fadd (- rh r3) 2\<rparr> else r3)"

text \<open>The conversion of the region to \<^verbatim>\<open>cv::Rect\<close> rounds each number to the nearest integer.\<close>

definition rect_of :: "rectf \<Rightarrow> recti" where
  "rect_of r = \<lparr>ix = rne (rx r), iy = rne (ry r), iw = rne (rw r), ih = rne (rh r)\<rparr>"

definition kcf_update :: "kcf_lib \<Rightarrow> nat \<Rightarrow> int \<Rightarrow> int \<Rightarrow> kcf \<Rightarrow> (recti \<times> kcf) option" where
  "kcf_update L surface width height k0 = do {
     let k1 = k0\<lparr>kcf_roi := clamp_before width height (kcf_roi k0)\<rparr>;
     (x, k2) \<leftarrow> getFeatures L surface False 1 k1;
     (resx, resy, peak) \<leftarrow> detect L (tmpl k2) x k2;
     let k3 = k2\<lparr>kcf_roi := clamp_after width height
               (move_roi resx resy (cell_size k2) (kcf_scale k2) (kcf_roi k2))\<rparr>;
     if \<not> (rw (kcf_roi k3) \<ge> 0 \<and> rh (kcf_roi k3) \<ge> 0) then None
     else do {
       (x2, k4) \<leftarrow> getFeatures L surface False 1 k3;
       let k5 = train L x2 (interp_factor k4) k4;
       Some (rect_of (kcf_roi k5), k5) } }"

end
