(* ===== verification/KcfTrackerFacts.thy ===== *)
theory KcfTrackerFacts
  imports KcfTracker
begin

text \<open>
  What the tracker of theory \<open>KcfTracker\<close> guarantees: the template and its transform tables, the window
  functions, the sub-pixel peak, and the box that it returns for every frame.
\<close>

section \<open>Rounding lemmas\<close>

lemma rnd_relative:
  assumes "0 < x"
  shows "\<bar>rnd p x - x\<bar> \<le> x / 2 ^ p"
proof -
  have "\<bar>rnd p x - x\<bar> \<le> 2 powi (ilog2 x - int p)" using assms by (intro rnd_error) simp
  also have "\<dots> = 2 powi ilog2 x / 2 ^ p" by (simp add: power_int_diff)
  also have "\<dots> \<le> x / 2 ^ p" using ilog2_bounds(1) [of x] assms by (intro divide_right_mono) simp_all
  finally show ?thesis .
qed

lemma rnd_int_bounds:
  assumes "of_int a \<le> x" "x \<le> of_int b" "\<bar>a\<bar> < 2 ^ 24" "\<bar>b\<bar> < 2 ^ 24"
  shows "of_int a \<le> rnd 24 x" and "rnd 24 x \<le> of_int b"
  using rnd_mono [OF assms(1), of 24] rnd_mono [OF assms(2), of 24] rnd_of_int [OF assms(3)] rnd_of_int [OF assms(4)] by simp_all

lemma ctrunc_bounds: "of_int a \<le> x \<Longrightarrow> x \<le> of_int b \<Longrightarrow> a \<le> ctrunc x \<and> ctrunc x \<le> b"
  using ctrunc_mono [of "of_int a" x] ctrunc_mono [of x "of_int b"] by simp

lemma f2i_bounds:
  assumes "of_int a \<le> x" "x \<le> of_int b" "- (2 ^ 31) \<le> a" "b < 2 ^ 31"
  shows "\<exists>v. f2i x = Some v \<and> a \<le> v \<and> v \<le> b"
  using ctrunc_bounds [OF assms(1,2)] assms(3,4) by (simp add: f2i_def int_ok_def)

lemma rnd_sum_pos [simp]: "rnd 24 x \<le> 0 \<longleftrightarrow> x \<le> 0"
  using rnd_pos [of x 24] rnd_nonneg [of "- x" 24] by (cases "0 < x") (auto simp: rnd_minus)

lemma padded_exact:
  assumes "0 \<le> w" "w \<le> 2 ^ 20"
  shows "f2i (fmul (i2f w) (5 / 2)) = Some (5 * w div 2)"
proof -
  have i: "i2f w = of_int w" using assms by (intro i2f_exact) simp
  have "of_int w * (5 / 2) = (of_int (5 * w) * 2 powi (- 1) :: rat)" by simp
  moreover have "rnd 24 (of_int (5 * w) * 2 powi (- 1)) = of_int (5 * w) * 2 powi (- 1)"
    using assms by (intro rnd_exact) simp
  ultimately have "fmul (i2f w) (5 / 2) = of_int (5 * w) / 2"
    unfolding fmul_def i by (simp only: power_int_minus power_int_1_right)
  then have "ctrunc (fmul (i2f w) (5 / 2)) = ctrunc (of_int (5 * w) / 2)" by (simp only:)
  also have "\<dots> = 5 * w div 2"
    using assms floor_divide_of_int_eq [where 'a = rat, of "5 * w" 2] by (simp add: ctrunc_def)
  finally show ?thesis using assms unfolding f2i_def int_ok_def by auto
qed

section \<open>The template\<close>

text \<open>The scale maps the longer side to 96 up to rounding, and the other side below it.\<close>

lemma scale_bounds:
  assumes "1 \<le> p" "p < 2 ^ 24"
  defines "s \<equiv> fdiv (i2f p) (i2f 96)"
  shows "0 < s" and "95 * s \<le> of_int p" and "of_int p \<le> 97 * s"
proof -
  define x where "x = (of_int p :: rat) / 96"
  have x: "0 < x" "96 * x = of_int p" using assms by (simp_all add: x_def)
  have s: "s = rnd 24 x" using assms by (simp add: s_def fdiv_def i2f_exact x_def)
  have e: "\<bar>s - x\<bar> \<le> x / 2 ^ 24" unfolding s by (rule rnd_relative [OF x(1)])
  then show "0 < s" using x(1) by (simp add: s rnd_pos)
  have "x / 2 ^ 24 \<le> x / 200" using x(1) by (intro divide_left_mono) simp_all
  then have "\<bar>s - x\<bar> \<le> x / 200" using e by linarith
  then show "95 * s \<le> of_int p" "of_int p \<le> 97 * s" using x by linarith+
qed

lemma div_int_bounds:
  assumes s: "0 < s" and q: "0 \<le> q" "q < 2 ^ 24" "of_int a * s \<le> of_int q" "of_int q \<le> of_int b * s" and ab: "0 \<le> a" "b < 2 ^ 24"
  shows "\<exists>v. div_int q s = Some v \<and> a \<le> v \<and> v \<le> b"
proof -
  have i: "i2f q = of_int q" using q by (intro i2f_exact) simp
  have "of_int a \<le> of_int q / s" "of_int q / s \<le> of_int b" using s q by (simp_all add: pos_le_divide_eq pos_divide_le_eq)
  moreover from this have "a \<le> b" using order_trans [of "of_int a" "of_int q / s" "of_int b :: rat"] by simp
  ultimately have "of_int a \<le> fdiv (i2f q) s" "fdiv (i2f q) s \<le> of_int b"
    using ab by (auto simp: fdiv_def i intro: rnd_int_bounds)
  then show ?thesis using s ab \<open>a \<le> b\<close> by (simp add: div_int_def f2i_bounds)
qed

lemma div_int_below:
  assumes s: "0 < s" and q: "0 \<le> q" "q < 2 ^ 24" "of_int q \<le> of_int b * s * 15 / 16" and b: "0 < b" "b \<le> 2 ^ 10"
  shows "\<exists>v. div_int q s = Some v \<and> 0 \<le> v \<and> v < b"
proof -
  have i: "i2f q = of_int q" using q by (intro i2f_exact) simp
  have "of_int q / s \<le> of_int b * 15 / 16" using s q by (simp add: pos_divide_le_eq mult_ac)
  then have "rnd 24 (of_int q / s) \<le> rnd 24 (of_int (15 * b) * 2 powi (- 4))" by (intro rnd_mono) simp_all
  also have "\<dots> = of_int (15 * b) * 2 powi (- 4)" using b by (intro rnd_exact) simp
  also have "\<dots> < of_int b" using b by simp
  finally have u: "fdiv (i2f q) s < of_int b" by (simp add: fdiv_def i)
  have l: "0 \<le> fdiv (i2f q) s" using s q by (simp add: i f_nonneg)
  have "\<exists>v. f2i (fdiv (i2f q) s) = Some v \<and> 0 \<le> v \<and> v \<le> b"
    using l u b by (intro f2i_bounds) simp_all
  moreover have "ctrunc (fdiv (i2f q) s) < b" using l u by (simp add: ctrunc_def floor_less_iff)
  ultimately show ?thesis using s by (auto simp: div_int_def f2i_def split: if_splits)
qed

definition fresh_params :: "kcf \<Rightarrow> bool" where
  "fresh_params k \<longleftrightarrow> cell_size k = 4 \<and> template_size k = 96 \<and> kcf_padding k = 5 / 2"

definition int_roi :: "kcf \<Rightarrow> int \<Rightarrow> int \<Rightarrow> bool" where
  "int_roi k w h \<longleftrightarrow> rw (kcf_roi k) = i2f w \<and> rh (kcf_roi k) = i2f h"

definition side_ok :: "int \<Rightarrow> bool" where
  "side_ok v \<longleftrightarrow> 8 \<le> v \<and> v \<le> 104 \<and> v mod 8 = 0"

lemma round_cells_4: "0 \<le> v \<Longrightarrow> round_cells 4 v = v div 8 * 8 + 8"
  by (simp add: round_cells_def cquot_nonneg)

lemma both_sides:
  assumes p: "1 \<le> p" "p < 2 ^ 24" and q: "0 \<le> q" "q \<le> p"
  defines "s \<equiv> fdiv (i2f p) (i2f 96)"
  shows "\<exists>a b. div_int p s = Some a \<and> div_int q s = Some b \<and> 95 \<le> a \<and> a \<le> 97 \<and> 0 \<le> b \<and> b \<le> 97 \<and>
     (p \<le> 10 * q \<longrightarrow> 8 \<le> b) \<and> (13 * q \<le> p \<longrightarrow> b < 8)"
proof -
  note s = scale_bounds [OF p, folded s_def]
  have p2: "0 \<le> p" "of_int 95 * s \<le> of_int p" "of_int p \<le> of_int 97 * s" using p s(2,3) by simp_all
  from div_int_bounds [OF s(1) p2(1) p(2) p2(2,3)] obtain a where a: "div_int p s = Some a" "95 \<le> a" "a \<le> 97" by auto
  have qp: "(of_int q :: rat) \<le> of_int p" using q(2) by simp
  have q0: "of_int 0 * s \<le> of_int q" "of_int q \<le> of_int 97 * s" "q < 2 ^ 24"
    using q p(2) qp s(3) by simp_all
  from div_int_bounds [OF s(1) q(1) q0(3,1,2)] obtain b where b: "div_int q s = Some b" "0 \<le> b" "b \<le> 97" by auto
  have "8 \<le> b" if "p \<le> 10 * q"
  proof -
    have "(of_int p :: rat) \<le> of_int (10 * q)" using that by (simp only: of_int_le_iff)
    then have "of_int 8 * s \<le> of_int q" using s(1,2) by simp
    then show ?thesis using div_int_bounds [OF s(1) q(1) q0(3) _ q0(2), of 8] b(1) by auto
  qed
  moreover have "b < 8" if "13 * q \<le> p"
  proof -
    have "(of_int (13 * q) :: rat) \<le> of_int p" using that by (simp only: of_int_le_iff)
    then have "of_int q \<le> of_int 8 * s * 15 / 16" using s by simp
    then show ?thesis using div_int_below [OF s(1) q(1) q0(3), of 8] b(1) by auto
  qed
  ultimately show ?thesis using a b by blast
qed

text \<open>The two sides of the template, before they are rounded to cells.\<close>

definition sides_ok :: "int \<Rightarrow> int \<Rightarrow> int \<Rightarrow> int \<Rightarrow> bool" where
  "sides_ok w h a b \<longleftrightarrow> 0 \<le> a \<and> a \<le> 97 \<and> 0 \<le> b \<and> b \<le> 97 \<and> (95 \<le> a \<or> 95 \<le> b) \<and>
     (h \<le> 8 * w \<and> w \<le> 8 * h \<longrightarrow> 8 \<le> a \<and> 8 \<le> b) \<and> (14 * w \<le> h \<longrightarrow> a < 8) \<and> (14 * h \<le> w \<longrightarrow> b < 8)"

lemma init_template_sides:
  assumes k: "fresh_params k" "int_roi k w h" and wh: "0 \<le> w" "w \<le> 2 ^ 14" "0 \<le> h" "h \<le> 2 ^ 14" "1 \<le> max w h"
  shows "\<exists>k' a b. init_template k = Some k' \<and> sides_ok w h a b \<and> 0 \<le> kcf_scale k' \<and> kcf_scale k' \<le> 2 ^ 10 \<and>
     k' = k\<lparr>kcf_scale := kcf_scale k', tmpl_w := a div 8 * 8 + 8, tmpl_h := b div 8 * 8 + 8\<rparr>"
proof -
  let ?p = "5 * w div 2" and ?q = "5 * h div 2"
  have f: "f2i (fmul (rw (kcf_roi k)) (kcf_padding k)) = Some ?p" "f2i (fmul (rh (kcf_roi k)) (kcf_padding k)) = Some ?q"
  proof -
    have e: "rw (kcf_roi k) = i2f w" "rh (kcf_roi k) = i2f h" "kcf_padding k = 5 / 2"
      using k unfolding fresh_params_def int_roi_def by blast+
    show "f2i (fmul (rw (kcf_roi k)) (kcf_padding k)) = Some ?p" "f2i (fmul (rh (kcf_roi k)) (kcf_padding k)) = Some ?q"
      unfolding e using wh by (intro padded_exact; simp)+
  qed
  let ?s = "\<lambda>x. fdiv (i2f x) (i2f 96)"
  have sc: "0 \<le> ?s x \<and> ?s x \<le> 2 ^ 10" if "0 \<le> x" "x \<le> 5 * 2 ^ 13" for x :: int
  proof -
    have "of_int 0 \<le> (of_int x / 96 :: rat)" "(of_int x / 96 :: rat) \<le> of_int (2 ^ 10)" using that by simp_all
    then have "of_int 0 \<le> rnd 24 (of_int x / 96)" "rnd 24 (of_int x / 96) \<le> of_int (2 ^ 10)"
      using rnd_int_bounds [of 0 "of_int x / 96" "2 ^ 10"] by simp_all
    then show ?thesis using that by (simp add: fdiv_def i2f_exact)
  qed
  have d: "2 * ?p \<le> 5 * w" "5 * w \<le> 2 * ?p + 1" "2 * ?q \<le> 5 * h" "5 * h \<le> 2 * ?q + 1" by linarith+
  have big: "1 \<le> w \<or> 1 \<le> h" using wh(5) by (auto simp: max_def split: if_splits)
  show ?thesis
  proof (cases "?p \<ge> ?q")
    case True
    have pq: "1 \<le> ?p" using big True d by (elim disjE; linarith)
    have ps: "?p < 2 ^ 24" "0 \<le> ?q" using wh(1-4) by simp_all
    from both_sides [OF pq ps True] obtain a b where
      ab: "div_int ?p (?s ?p) = Some a" "div_int ?q (?s ?p) = Some b" "95 \<le> a" "a \<le> 97" "0 \<le> b" "b \<le> 97"
        "?p \<le> 10 * ?q \<longrightarrow> 8 \<le> b" "13 * ?q \<le> ?p \<longrightarrow> b < 8" by blast
    have "?p \<le> 10 * ?q" if "h \<le> 8 * w" "w \<le> 8 * h"
    proof -
      have "1 \<le> h" using big that by (elim disjE; linarith)
      then show ?thesis using that d by linarith
    qed
    moreover have "13 * ?q \<le> ?p" if "14 * h \<le> w" using that d wh(1,3) by linarith
    moreover have False if "14 * w \<le> h" using that pq True d wh(1) by linarith
    ultimately have "sides_ok w h a b" using ab(3-) unfolding sides_ok_def by auto
    moreover have "init_template k = Some (k\<lparr>kcf_scale := ?s ?p, tmpl_w := a div 8 * 8 + 8, tmpl_h := b div 8 * 8 + 8\<rparr>)"
      using f ab k(1) True by (simp add: init_template_def fresh_params_def round_cells_4)
    ultimately show ?thesis using sc [of ?p] wh by (intro exI) auto
  next
    case False
    then have qp: "?p \<le> ?q" by simp
    have pq: "1 \<le> ?q" using big False d by (elim disjE; linarith)
    have ps: "?q < 2 ^ 24" "0 \<le> ?p" using wh(1-4) by simp_all
    from both_sides [OF pq ps qp] obtain a b where
      ab: "div_int ?q (?s ?q) = Some b" "div_int ?p (?s ?q) = Some a" "95 \<le> b" "b \<le> 97" "0 \<le> a" "a \<le> 97"
        "?q \<le> 10 * ?p \<longrightarrow> 8 \<le> a" "13 * ?p \<le> ?q \<longrightarrow> a < 8" by blast
    have "?q \<le> 10 * ?p" if "h \<le> 8 * w" "w \<le> 8 * h"
    proof -
      have "1 \<le> w" using big that by (elim disjE; linarith)
      then show ?thesis using that d by linarith
    qed
    moreover have "13 * ?p \<le> ?q" if "14 * w \<le> h" using that d wh(1,3) by linarith
    moreover have False if "14 * h \<le> w" using that pq qp d wh(3) by linarith
    ultimately have "sides_ok w h a b" using ab(3-) unfolding sides_ok_def by auto
    moreover have "init_template k = Some (k\<lparr>kcf_scale := ?s ?q, tmpl_w := a div 8 * 8 + 8, tmpl_h := b div 8 * 8 + 8\<rparr>)"
      using f ab k(1) False by (simp add: init_template_def fresh_params_def round_cells_4)
    ultimately show ?thesis using sc [of ?q] wh by (intro exI) auto
  qed
qed


section \<open>Regions\<close>

definition rect_in :: "int \<Rightarrow> rectf \<Rightarrow> bool" where
  "rect_in n r \<longleftrightarrow> - of_int n \<le> rx r \<and> rx r \<le> of_int n \<and> - of_int n \<le> ry r \<and> ry r \<le> of_int n"

definition sized :: "int \<Rightarrow> int \<Rightarrow> rectf \<Rightarrow> bool" where
  "sized w h r \<longleftrightarrow> rw r = of_int w \<and> rh r = of_int h"

text \<open>The object is visible: its left edge is inside the frame and its right edge is not left of it.\<close>

definition visible :: "int \<Rightarrow> int \<Rightarrow> rectf \<Rightarrow> bool" where
  "visible W H r \<longleftrightarrow> 0 < rx r + rw r \<and> rx r \<le> of_int (W - 1) \<and> 0 < ry r + rh r \<and> ry r \<le> of_int (H - 1)"

definition frame_size :: "int \<Rightarrow> int \<Rightarrow> bool" where
  "frame_size W H \<longleftrightarrow> 2 \<le> W \<and> W \<le> 2 ^ 14 \<and> 2 \<le> H \<and> H \<le> 2 ^ 14"

definition box_size :: "int \<Rightarrow> int \<Rightarrow> bool" where
  "box_size w h \<longleftrightarrow> 1 \<le> w \<and> w \<le> 2 ^ 14 \<and> 1 \<le> h \<and> h \<le> 2 ^ 14"

lemma fadd_neg_int:
  assumes "\<bar>w\<bar> < 2 ^ 20" "\<bar>c\<bar> < 2 ^ 20"
  shows "fadd (- of_int w) (of_int c) = of_int (c - w)"
proof -
  have "rnd 24 (of_int (c - w)) = of_int (c - w)" by (rule rnd_of_int) (use assms in simp)
  then show ?thesis by (simp add: fadd_def)
qed

lemma clamp_after_visible:
  assumes "frame_size W H" "box_size w h" "sized w h r"
  shows "visible W H (clamp_after W H r) \<and> sized w h (clamp_after W H r) \<and> rect_in (2 ^ 14) (clamp_after W H r)"
proof -
  have i: "i2f (W - 1) = of_int (W - 1)" "i2f (H - 1) = of_int (H - 1)"
    using assms(1) by (simp_all add: frame_size_def i2f_exact)
  have n: "fadd (- of_int w) 2 = 2 - of_int w" "fadd (- of_int h) 2 = 2 - of_int h"
    using fadd_neg_int [of w 2] fadd_neg_int [of h 2] assms(2) by (simp_all add: box_size_def)
  have wh: "(1 :: rat) \<le> of_int w" "(of_int w :: rat) \<le> 2 ^ 14" "(1 :: rat) \<le> of_int h" "(of_int h :: rat) \<le> 2 ^ 14"
    "(2 :: rat) \<le> of_int W" "(of_int W :: rat) \<le> 2 ^ 14" "(2 :: rat) \<le> of_int H" "(of_int H :: rat) \<le> 2 ^ 14"
    using assms(1,2) by (simp_all add: frame_size_def box_size_def)
  have r: "rw r = of_int w" "rh r = of_int h" using assms(3) by (simp_all add: sized_def)
  have x: "0 < rx (clamp_after W H r) + of_int w \<and> rx (clamp_after W H r) \<le> of_int W - 1"
    unfolding clamp_after_def Let_def i r using r n wh by (auto simp: fadd_def i)
  have y: "0 < ry (clamp_after W H r) + of_int h \<and> ry (clamp_after W H r) \<le> of_int H - 1"
    unfolding clamp_after_def Let_def i r using r n wh by (auto simp: fadd_def i)
  have "sized w h (clamp_after W H r)" using r by (simp add: clamp_after_def Let_def sized_def)
  with x y wh show ?thesis by (auto simp: visible_def sized_def rect_in_def)
qed

lemma clamp_before_in:
  assumes "frame_size W H" "box_size w h" "sized w h r"
  shows "sized w h (clamp_before W H r) \<and> rect_in (2 ^ 14) (clamp_before W H r)"
proof -
  have i: "i2f (W - 1) = of_int (W - 1)" "i2f (H - 1) = of_int (H - 1)" "i2f (W - 2) = of_int (W - 2)" "i2f (H - 2) = of_int (H - 2)"
    using assms(1) by (simp_all add: frame_size_def i2f_exact)
  have n: "fadd (- of_int w) 1 = 1 - of_int w" "fadd (- of_int h) 1 = 1 - of_int h"
    using fadd_neg_int [of w 1] fadd_neg_int [of h 1] assms(2) by (simp_all add: box_size_def)
  have wh: "(1 :: rat) \<le> of_int w" "(of_int w :: rat) \<le> 2 ^ 14" "(1 :: rat) \<le> of_int h" "(of_int h :: rat) \<le> 2 ^ 14"
    "(2 :: rat) \<le> of_int W" "(of_int W :: rat) \<le> 2 ^ 14" "(2 :: rat) \<le> of_int H" "(of_int H :: rat) \<le> 2 ^ 14"
    using assms(1,2) by (simp_all add: frame_size_def box_size_def)
  have r: "rw r = of_int w" "rh r = of_int h" using assms(3) by (simp_all add: sized_def)
  have x: "- (2 ^ 14) \<le> rx (clamp_before W H r) \<and> rx (clamp_before W H r) \<le> 2 ^ 14"
    unfolding clamp_before_def Let_def i r using r n wh by (auto simp: fadd_def i)
  have y: "- (2 ^ 14) \<le> ry (clamp_before W H r) \<and> ry (clamp_before W H r) \<le> 2 ^ 14"
    unfolding clamp_before_def Let_def i r using r n wh by (auto simp: fadd_def i)
  show ?thesis using r x y by (simp add: clamp_before_def Let_def sized_def rect_in_def)
qed

lemma window_roi_total:
  assumes "rect_in (2 ^ 14) (kcf_roi k)" "sized w h (kcf_roi k)" "box_size w h"
    and "side_ok (tmpl_w k)" "side_ok (tmpl_h k)" "0 \<le> kcf_scale k" "kcf_scale k \<le> 2 ^ 10"
  shows "\<exists>roi. window_roi 1 k = Some roi"
proof -
  have s1: "of_int 0 \<le> fmul 1 (kcf_scale k)" "fmul 1 (kcf_scale k) \<le> of_int (2 ^ 10)"
    using rnd_int_bounds [of 0 "kcf_scale k" "2 ^ 10"] assms(6,7) by (simp_all add: fmul_def)
  have prod: "\<exists>v. f2i (fmul (fmul 1 (kcf_scale k)) (i2f t)) = Some v \<and> 0 \<le> v \<and> v \<le> 2 ^ 17" if "side_ok t" for t
  proof -
    have t: "(0::rat) \<le> of_int t" "of_int t \<le> (2 ^ 7 :: rat)" "i2f t = of_int t" using that by (simp_all add: side_ok_def i2f_exact)
    have "fmul 1 (kcf_scale k) * of_int t \<le> of_int (2 ^ 10) * 2 ^ 7" using s1 t by (intro mult_mono) simp_all
    then have "of_int 0 \<le> fmul (fmul 1 (kcf_scale k)) (i2f t)" "fmul (fmul 1 (kcf_scale k)) (i2f t) \<le> of_int (2 ^ 17)"
      using rnd_int_bounds [of 0 "fmul 1 (kcf_scale k) * of_int t" "2 ^ 17"] s1 t unfolding fmul_def [of "fmul 1 (kcf_scale k)"] t(3) by simp_all
    then show ?thesis by (intro f2i_bounds) simp_all
  qed
  obtain ww where ww: "f2i (fmul (fmul 1 (kcf_scale k)) (i2f (tmpl_w k))) = Some ww" "0 \<le> ww" "ww \<le> 2 ^ 17" using prod [OF assms(4)] by blast
  obtain hh where hh: "f2i (fmul (fmul 1 (kcf_scale k)) (i2f (tmpl_h k))) = Some hh" "0 \<le> hh" "hh \<le> 2 ^ 17" using prod [OF assms(5)] by blast
  have pos: "\<exists>v. f2i (fsub (fadd p (fdiv (of_int q) 2)) (i2f (cquot d 2))) = Some v"
    if "- of_int (2 ^ 14) \<le> p" "p \<le> of_int (2 ^ 14)" "1 \<le> q" "q \<le> 2 ^ 14" "0 \<le> d" "d \<le> 2 ^ 17" for p and q d :: int
  proof -
    have "(of_int q :: rat) \<le> 2 ^ 14" "(1 :: rat) \<le> of_int q" using that(3,4) by simp_all
    then have a: "of_int 0 \<le> fdiv (of_int q) 2" "fdiv (of_int q) 2 \<le> of_int (2 ^ 14)"
      unfolding fdiv_def using rnd_int_bounds [of 0 "of_int q / 2" "2 ^ 14"] by simp_all
    have b: "of_int (- (2 ^ 15)) \<le> fadd p (fdiv (of_int q) 2)" "fadd p (fdiv (of_int q) 2) \<le> of_int (2 ^ 15)"
      unfolding fadd_def using rnd_int_bounds [of "- (2 ^ 15)" "p + fdiv (of_int q) 2" "2 ^ 15"] a that(1,2) by simp_all
    have c: "i2f (cquot d 2) = of_int (d div 2)" using that(5,6) by (simp add: cquot_nonneg i2f_exact)
    have d: "(0 :: rat) \<le> of_int (d div 2)" "(of_int (d div 2) :: rat) \<le> 2 ^ 16" using that(5,6) by simp_all
    have "of_int (- (2 ^ 18)) \<le> fsub (fadd p (fdiv (of_int q) 2)) (i2f (cquot d 2))"
      "fsub (fadd p (fdiv (of_int q) 2)) (i2f (cquot d 2)) \<le> of_int (2 ^ 18)"
      unfolding fsub_def c using rnd_int_bounds [of "- (2 ^ 18)" "fadd p (fdiv (of_int q) 2) - of_int (d div 2)" "2 ^ 18"] b d by simp_all
    then show ?thesis using f2i_bounds [of "- (2 ^ 18)" _ "2 ^ 18"] by fastforce
  qed
  obtain x where x: "f2i (fsub (fadd (rx (kcf_roi k)) (fdiv (rw (kcf_roi k)) 2)) (i2f (cquot ww 2))) = Some x"
    using pos [of "rx (kcf_roi k)" w ww] assms(1,2,3) ww by (auto simp: rect_in_def sized_def box_size_def)
  obtain y where y: "f2i (fsub (fadd (ry (kcf_roi k)) (fdiv (rh (kcf_roi k)) 2)) (i2f (cquot hh 2))) = Some y"
    using pos [of "ry (kcf_roi k)" h hh] assms(1,2,3) hh by (auto simp: rect_in_def sized_def box_size_def)
  show ?thesis using ww hh x y by (simp add: window_roi_def Let_def)
qed


section \<open>The tracker from frame to frame\<close>

text \<open>What the tracker relies on of OpenCV: matrix expressions keep the size of their first operand,
  the inverse transform gives a dense matrix of the same size, and \<^verbatim>\<open>minMaxLoc\<close> a position in it.\<close>

definition lib_ok :: "kcf_lib \<Rightarrow> bool" where
  "lib_ok L \<longleftrightarrow>
     (\<forall>a b. mrows (l_complex_mul L a b) = mrows a \<and> mcols (l_complex_mul L a b) = mcols a) \<and>
     (\<forall>s a f b. mrows (l_mixc L s a f b) = mrows a \<and> mcols (l_mixc L s a f b) = mcols a) \<and>
     (\<forall>c. 0 < mrows c \<and> 0 < mcols c \<longrightarrow>
        mrows (l_ifft L c) = mrows c \<and> mcols (l_ifft L c) = mcols c \<and>
        int (length (elems (l_ifft L c))) = mrows c * mcols c \<and>
        (case l_max_loc L (l_ifft L c) of (v, px, py) \<Rightarrow> 0 \<le> px \<and> px < mcols c \<and> 0 \<le> py \<and> py < mrows c))"

definition kcf_ready :: "kcf \<Rightarrow> bool" where
  "kcf_ready k \<longleftrightarrow> cell_size k = 4 \<and> side_ok (tmpl_w k) \<and> side_ok (tmpl_h k) \<and>
     0 \<le> kcf_scale k \<and> kcf_scale k \<le> 2 ^ 10 \<and>
     16 \<le> tmpl_w k \<and> 16 \<le> tmpl_h k \<and> mrows (alphaf k) = tmpl_h k div 4 - 2 \<and> mcols (alphaf k) = tmpl_w k div 4 - 2"

lemma at_mat_total:
  assumes "int (length (elems m)) = mrows m * mcols m" "0 \<le> i" "i < mrows m" "0 \<le> j" "j < mcols m" "mrows m * mcols m \<le> 2 ^ 31"
  shows "\<exists>v. at_mat m i j = Some v"
proof -
  have "0 \<le> i * mcols m + j" "i * mcols m + j < mrows m * mcols m"
    using assms(2-5) by (auto intro: flat_bound)
  then have "ld (elems m) (i * mcols m + j) = Some (elems m ! nat (i * mcols m + j))"
    using assms by (intro ld_in [where k = "mrows m * mcols m"]) simp_all
  then show ?thesis using assms by (simp add: at_mat_def)
qed

lemma detect_total:
  assumes L: "lib_ok L" and a: "0 < mrows (alphaf k)" "0 < mcols (alphaf k)" "mrows (alphaf k) * mcols (alphaf k) \<le> 2 ^ 31"
  shows "\<exists>r. detect L z x k = Some r"
proof -
  define c where "c = l_complex_mul L (alphaf k) (l_fft L (l_correlate L x z))"
  have c: "mrows c = mrows (alphaf k)" "mcols c = mcols (alphaf k)" using L by (simp_all add: lib_ok_def c_def)
  define m where "m = l_ifft L c"
  obtain v px py where mx: "l_max_loc L m = (v, px, py)" by (metis prod_cases3)
  have m: "mrows m = mrows c" "mcols m = mcols c" "int (length (elems m)) = mrows m * mcols m"
    and p: "0 \<le> px" "px < mcols m" "0 \<le> py" "py < mrows m"
  proof -
    have "0 < mrows c" "0 < mcols c" using a c by simp_all
    then have "mrows m = mrows c \<and> mcols m = mcols c \<and> int (length (elems m)) = mrows c * mcols c \<and>
        (case l_max_loc L m of (v, px, py) \<Rightarrow> 0 \<le> px \<and> px < mcols c \<and> 0 \<le> py \<and> py < mrows c)"
      using L [unfolded lib_ok_def, THEN conjunct2, THEN conjunct2, THEN spec, of c] by (simp only: m_def simp_thms)
    then show "mrows m = mrows c" "mcols m = mcols c" "int (length (elems m)) = mrows m * mcols m"
      "0 \<le> px" "px < mcols m" "0 \<le> py" "py < mrows m" using mx by simp_all
  qed
  have at: "\<exists>v. at_mat m i j = Some v" if "0 \<le> i" "i < mrows m" "0 \<le> j" "j < mcols m" for i j
    using that m a c by (intro at_mat_total) simp_all
  have X: "\<exists>d. (if px > 0 \<and> px < mcols m - 1 then do { a \<leftarrow> at_mat m py (px - 1); b \<leftarrow> at_mat m py (px + 1);
        Some (fadd (i2f px) (subPixelPeak a v b)) } else Some (i2f px)) = Some d"
    using at [of py "px - 1"] at [of py "px + 1"] p by auto
  have Y: "\<exists>d. (if py > 0 \<and> py < mrows m - 1 then do { a \<leftarrow> at_mat m (py - 1) px; b \<leftarrow> at_mat m (py + 1) px;
        Some (fadd (i2f py) (subPixelPeak a v b)) } else Some (i2f py)) = Some d"
    using at [of "py - 1" px] at [of "py + 1" px] p by auto
  from X obtain dx where dx: "(if px > 0 \<and> px < mcols m - 1 then do { a \<leftarrow> at_mat m py (px - 1); b \<leftarrow> at_mat m py (px + 1);
        Some (fadd (i2f px) (subPixelPeak a v b)) } else Some (i2f px)) = Some dx" by blast
  from Y obtain dy where dy: "(if py > 0 \<and> py < mrows m - 1 then do { a \<leftarrow> at_mat m (py - 1) px; b \<leftarrow> at_mat m (py + 1) px;
        Some (fadd (i2f py) (subPixelPeak a v b)) } else Some (i2f py)) = Some dy" by blast
  show ?thesis
    by (simp only: detect_def Let_def c_def [symmetric] m_def [symmetric] mx prod.case dx dy Option.bind_lunit) simp
qed

lemma getFeatures_update:
  assumes "kcf_ready k" "rect_in (2 ^ 14) (kcf_roi k)" "sized w h (kcf_roi k)" "box_size w h"
  shows "\<exists>m. getFeatures L s False 1 k = Some (m, set_patch k)"
proof -
  have "\<exists>roi. window_roi 1 k = Some roi"
    using assms by (intro window_roi_total [OF assms(2,3,4)]) (simp_all add: kcf_ready_def)
  then show ?thesis by (auto simp: getFeatures_def Let_def)
qed

lemma sized_move: "sized w h r \<Longrightarrow> sized w h (move_roi a b c d r)"
  by (simp add: sized_def move_roi_def Let_def)

lemma kcf_update_step:
  assumes L: "lib_ok L" and F: "frame_size W H" and B: "box_size w h" and k: "kcf_ready k" "sized w h (kcf_roi k)"
  shows "\<exists>k'. kcf_update L s W H k = Some (rect_of (kcf_roi k'), k') \<and> kcf_ready k' \<and> sized w h (kcf_roi k') \<and>
    visible W H (kcf_roi k')"
proof -
  let ?k1 = "k\<lparr>kcf_roi := clamp_before W H (kcf_roi k)\<rparr>"
  note b = clamp_before_in [OF F B k(2)]
  have "kcf_ready ?k1" using k(1) by (simp add: kcf_ready_def)
  from getFeatures_update [OF this, of w h L s] b B obtain x where
    x: "getFeatures L s False 1 ?k1 = Some (x, set_patch ?k1)" by auto
  define k2 where "k2 = set_patch ?k1"
  have al: "alphaf k2 = alphaf k" by (simp add: k2_def set_patch_def)
  have dims: "0 < mrows (alphaf k)" "0 < mcols (alphaf k)" "mrows (alphaf k) \<le> 24" "mcols (alphaf k) \<le> 24"
  proof -
    have "16 \<le> tmpl_w k" "tmpl_w k \<le> 104" "16 \<le> tmpl_h k" "tmpl_h k \<le> 104"
      and e: "mrows (alphaf k) = tmpl_h k div 4 - 2" "mcols (alphaf k) = tmpl_w k div 4 - 2"
      using k(1) unfolding kcf_ready_def side_ok_def by blast+
    then show "0 < mrows (alphaf k)" "0 < mcols (alphaf k)" "mrows (alphaf k) \<le> 24" "mcols (alphaf k) \<le> 24"
      unfolding e by linarith+
  qed
  then have "mrows (alphaf k) * mcols (alphaf k) \<le> 24 * 24" by (intro mult_mono) simp_all
  then have "mrows (alphaf k2) * mcols (alphaf k2) \<le> 2 ^ 31" by (simp add: al)
  from detect_total [OF L _ _ this, of "tmpl k2" x] dims obtain rx0 ry0 pk where
    d: "detect L (tmpl k2) x k2 = Some (rx0, ry0, pk)" by (auto simp: al)
  define r where "r = clamp_after W H (move_roi rx0 ry0 (cell_size k2) (kcf_scale k2) (kcf_roi k2))"
  have r: "visible W H r" "sized w h r" "rect_in (2 ^ 14) r"
  proof -
    have "sized w h (move_roi rx0 ry0 (cell_size k2) (kcf_scale k2) (kcf_roi k2))"
      using b by (intro sized_move) (simp add: k2_def set_patch_def)
    from clamp_after_visible [OF F B this] show "visible W H r" "sized w h r" "rect_in (2 ^ 14) r"
      by (simp_all only: r_def)
  qed
  let ?k3 = "k2\<lparr>kcf_roi := r\<rparr>"
  have k3: "kcf_ready ?k3" using k(1) by (simp add: kcf_ready_def k2_def set_patch_def)
  from getFeatures_update [OF k3, of w h L s] r B obtain x2 where
    x2: "getFeatures L s False 1 ?k3 = Some (x2, set_patch ?k3)" by auto
  let ?k5 = "train L x2 (interp_factor (set_patch ?k3)) (set_patch ?k3)"
  have roi: "kcf_roi ?k5 = r" by (simp add: train_def set_patch_def Let_def)
  have "kcf_ready ?k5" using k3 L by (simp add: kcf_ready_def train_def set_patch_def Let_def lib_ok_def)
  moreover have "0 \<le> rw r" "0 \<le> rh r" using r(2) B by (simp_all add: sized_def box_size_def)
  ultimately show ?thesis
    using x d x2 r roi by (intro exI [of _ ?k5]) (simp add: kcf_update_def Let_def k2_def [symmetric] r_def [symmetric])
qed


section \<open>The first frame\<close>

text \<open>What is assumed of \<^verbatim>\<open>cos\<close>: its values lie between -1 and 1.\<close>

definition cos_ok :: "(rat \<Rightarrow> rat) \<Rightarrow> bool" where
  "cos_ok f \<longleftrightarrow> (\<forall>x. - 1 \<le> f x \<and> f x \<le> 1)"

definition hann_value :: "(rat \<Rightarrow> rat) \<Rightarrow> int \<Rightarrow> int \<Rightarrow> f32" where
  "hann_value f n i = d2f (dmul (1 / 2) (dsub 1 (f (ddiv (dmul (dmul 2 dpi) (of_int i)) (of_int (n - 1))))))"

lemma hann_value_range:
  assumes "cos_ok f"
  shows "0 \<le> hann_value f n i \<and> hann_value f n i \<le> 1"
proof -
  let ?c = "f (ddiv (dmul (dmul 2 dpi) (of_int i)) (of_int (n - 1)))"
  have c: "0 \<le> 1 - ?c" "1 - ?c \<le> 2" proof -
    have "- 1 \<le> ?c" "?c \<le> 1" using assms unfolding cos_ok_def by blast+
    then show "0 \<le> 1 - ?c" "1 - ?c \<le> 2" by linarith+
  qed
  have 1: "0 \<le> dsub 1 ?c" "dsub 1 ?c \<le> 2"
    unfolding dsub_def using rnd_nonneg [OF c(1), of 53] rnd_mono [OF c(2), of 53] rnd_of_int [of 2 53] by simp_all
  then have h: "0 \<le> 1 / 2 * dsub 1 ?c" "1 / 2 * dsub 1 ?c \<le> 1" by simp_all
  have 2: "0 \<le> dmul (1 / 2) (dsub 1 ?c)" "dmul (1 / 2) (dsub 1 ?c) \<le> 1"
    unfolding dmul_def [of "1 / 2"] using rnd_nonneg [OF h(1), of 53] rnd_mono [OF h(2), of 53] rnd_1 [of 53] by simp_all
  show ?thesis unfolding hann_value_def d2f_def
    using rnd_nonneg [OF 2(1), of 24] rnd_mono [OF 2(2), of 24] rnd_1 [of 24] by simp
qed

lemma createHanningMats_eq:
  assumes "patch_x k \<noteq> 1" "patch_y k \<noteq> 1"
  shows "createHanningMats f k = Some (k\<lparr>hann := \<lparr>mrows = patch_n k, mcols = patch_y k * patch_x k,
     elems = concat (map (\<lambda>_. concat (map (\<lambda>a. map (fmul a) (map (hann_value f (patch_x k)) [0..patch_x k - 1]))
       (map (hann_value f (patch_y k)) [0..patch_y k - 1]))) [0..patch_n k - 1])\<rparr>\<rparr>)"
proof -
  have m: "mapm (hann_sample f n) [0..n - 1] = Some (map (hann_value f n) [0..n - 1])" if "n \<noteq> 1" for n
    using that by (intro mapm_total) (simp add: hann_sample_def hann_value_def)
  show ?thesis using assms by (simp add: createHanningMats_def m Let_def)
qed

lemma fmul_unit: "0 \<le> a \<Longrightarrow> a \<le> 1 \<Longrightarrow> 0 \<le> b \<Longrightarrow> b \<le> 1 \<Longrightarrow> 0 \<le> fmul a b \<and> fmul a b \<le> 1"
  using f_mono(3) [of a b 1 1] f_nonneg(3) [of a b] by (simp add: fmul_def rnd_1)

lemma length_concat_const: "(\<And>x. x \<in> set xs \<Longrightarrow> length (f x) = n) \<Longrightarrow> length (concat (map f xs)) = length xs * n"
  by (induction xs) simp_all

lemma kcf_init_ready:
  assumes L: "lib_ok L" and B: "box_size w h" "h \<le> 8 * w" "w \<le> 8 * h" and p: "\<bar>x\<bar> \<le> 2 ^ 14" "\<bar>y\<bar> \<le> 2 ^ 14"
  shows "\<exists>k. kcf_init L \<lparr>ix = x, iy = y, iw = w, ih = h\<rparr> s KCFTracker_new = Some k \<and> kcf_ready k \<and> sized w h (kcf_roi k)"
proof -
  let ?k = "KCFTracker_new\<lparr>kcf_roi := \<lparr>rx = i2f x, ry = i2f y, rw = i2f w, rh = i2f h\<rparr>\<rparr>"
  have i: "i2f x = of_int x" "i2f y = of_int y" "i2f w = of_int w" "i2f h = of_int h"
    using B p by (auto simp: box_size_def intro!: i2f_exact)
  have "fresh_params ?k" "int_roi ?k w h" by (simp_all add: fresh_params_def KCFTracker_new_def int_roi_def)
  then have "\<exists>k' a b. init_template ?k = Some k' \<and> sides_ok w h a b \<and> 0 \<le> kcf_scale k' \<and> kcf_scale k' \<le> 2 ^ 10 \<and>
     k' = ?k\<lparr>kcf_scale := kcf_scale k', tmpl_w := a div 8 * 8 + 8, tmpl_h := b div 8 * 8 + 8\<rparr>"
    by (rule init_template_sides) (use B in \<open>simp_all add: box_size_def max_def\<close>)
  then obtain k1 a b where k1: "init_template ?k = Some k1" "sides_ok w h a b" "0 \<le> kcf_scale k1" "kcf_scale k1 \<le> 2 ^ 10"
     "k1 = ?k\<lparr>kcf_scale := kcf_scale k1, tmpl_w := a div 8 * 8 + 8, tmpl_h := b div 8 * 8 + 8\<rparr>" by blast
  have ab: "8 \<le> a" "a \<le> 97" "8 \<le> b" "b \<le> 97" using k1(2) B(2,3) unfolding sides_ok_def by blast+
  have t: "tmpl_w k1 = a div 8 * 8 + 8" "tmpl_h k1 = b div 8 * 8 + 8" "cell_size k1 = 4" "kcf_roi k1 = kcf_roi ?k"
    by (subst k1(5), simp add: KCFTracker_new_def)+
  have sd: "side_ok (tmpl_w k1)" "side_ok (tmpl_h k1)" "16 \<le> tmpl_w k1" "16 \<le> tmpl_h k1"
  proof -
    have "1 \<le> a div 8" "a div 8 \<le> 12" "1 \<le> b div 8" "b div 8 \<le> 12" using ab by linarith+
    then show "side_ok (tmpl_w k1)" "side_ok (tmpl_h k1)" "16 \<le> tmpl_w k1" "16 \<le> tmpl_h k1"
      unfolding t side_ok_def by (simp_all add: mod_mult_self1)
  qed
  have roi: "rect_in (2 ^ 14) (kcf_roi k1)" "sized w h (kcf_roi k1)"
    using p unfolding t(4) by (simp_all add: rect_in_def sized_def i, linarith)
  obtain ro where ro: "window_roi 1 k1 = Some ro"
    using window_roi_total [OF roi B(1) sd(1,2) k1(3,4)] by blast
  let ?k2 = "set_patch k1"
  have pt: "patch_x ?k2 = tmpl_w k1 div 4 - 2" "patch_y ?k2 = tmpl_h k1 div 4 - 2"
    using sd(3,4) by (simp_all add: set_patch_def t(3) cquot_nonneg)
  have "patch_x ?k2 \<noteq> 1" "patch_y ?k2 \<noteq> 1" unfolding pt t by presburger+
  then obtain m where h: "createHanningMats (l_cos L) ?k2 = Some (?k2\<lparr>hann := m\<rparr>)"
    using createHanningMats_eq by blast
  let ?k3 = "?k2\<lparr>hann := m\<rparr>"
  obtain f where g: "getFeatures L s True 1 ?k = Some (f, ?k3)"
    using k1(1) ro h by (simp add: getFeatures_def Let_def)
  have "\<exists>k. kcf_init L \<lparr>ix = x, iy = y, iw = w, ih = h\<rparr> s KCFTracker_new = Some k \<and> kcf_roi k = kcf_roi k1 \<and>
     cell_size k = cell_size k1 \<and> tmpl_w k = tmpl_w k1 \<and> tmpl_h k = tmpl_h k1 \<and> kcf_scale k = kcf_scale k1 \<and>
     mrows (alphaf k) = patch_y ?k2 \<and> mcols (alphaf k) = patch_x ?k2"
    using g B(1) L by (auto simp: kcf_init_def Let_def box_size_def train_def zero_cmat_def lib_ok_def set_patch_def)
  then show ?thesis using sd k1(3,4) roi(2) by (auto simp: kcf_ready_def t(3) pt)
qed


lemma run_updates:
  assumes "lib_ok L" "frame_size W H" "box_size w h"
  shows "kcf_ready k \<Longrightarrow> sized w h (kcf_roi k) \<Longrightarrow>
    \<exists>boxes k'. run_calls (\<lambda>s. kcf_update L s W H) frames k = Some (boxes, k') \<and>
      (\<forall>b \<in> set boxes. iw b = w \<and> ih b = h \<and> 0 \<le> ix b + w \<and> ix b \<le> W - 1 \<and> 0 \<le> iy b + h \<and> iy b \<le> H - 1) \<and>
      (if boxes = [] then k' = k else last boxes = rect_of (kcf_roi k') \<and> visible W H (kcf_roi k') \<and> sized w h (kcf_roi k'))"
proof (induction frames arbitrary: k)
  case (Cons s frames)
  from kcf_update_step [OF assms Cons.prems] obtain k1 where
    k1: "kcf_update L s W H k = Some (rect_of (kcf_roi k1), k1)" "kcf_ready k1" "sized w h (kcf_roi k1)" "visible W H (kcf_roi k1)"
    by blast
  from Cons.IH [OF k1(2,3)] obtain boxes k' where
    r: "run_calls (\<lambda>s. kcf_update L s W H) frames k1 = Some (boxes, k')"
      "\<forall>b \<in> set boxes. iw b = w \<and> ih b = h \<and> 0 \<le> ix b + w \<and> ix b \<le> W - 1 \<and> 0 \<le> iy b + h \<and> iy b \<le> H - 1"
      "if boxes = [] then k' = k1 else last boxes = rect_of (kcf_roi k') \<and> visible W H (kcf_roi k') \<and> sized w h (kcf_roi k')" by blast
  have z: "rw (kcf_roi k1) = of_int w" "rh (kcf_roi k1) = of_int h" using k1(3) by (simp_all add: sized_def)
  have v: "rne (rx (kcf_roi k1)) \<le> W - 1" "- w \<le> rne (rx (kcf_roi k1))" "rne (ry (kcf_roi k1)) \<le> H - 1" "- h \<le> rne (ry (kcf_roi k1))"
    using rne_mono [of "rx (kcf_roi k1)" "of_int (W - 1)"] rne_mono [of "of_int (- w)" "rx (kcf_roi k1)"]
      rne_mono [of "ry (kcf_roi k1)" "of_int (H - 1)"] rne_mono [of "of_int (- h)" "ry (kcf_roi k1)"] k1(4) z
    by (simp_all only: rne_of_int) (simp_all add: visible_def)
  have "iw (rect_of (kcf_roi k1)) = w" "ih (rect_of (kcf_roi k1)) = h" using z by (simp_all add: rect_of_def)
  moreover have "last (rect_of (kcf_roi k1) # boxes) = rect_of (kcf_roi k') \<and> visible W H (kcf_roi k') \<and> sized w h (kcf_roi k')"
    using r(3) k1(3,4) by (cases "boxes = []") simp_all
  ultimately show ?case using k1(1) r(1,2) v
    by (intro exI [of _ "rect_of (kcf_roi k1) # boxes"] exI [of _ k']) (simp add: rect_of_def)
qed simp

lemma low_factor_le: "0 < n \<Longrightarrow> low_factor n \<le> n"
  using low_factor_power [of n] by (auto intro: zdvd_imp_le)

lemma concat_rows_nth:
  assumes "0 \<le> i" "i < m" "0 \<le> j" "j < n"
  shows "concat (map (\<lambda>i. map (e i) [0..n - 1]) [0..m - 1]) ! nat (i * n + j) = e i j"
    and "length (concat (map (\<lambda>i. map (e i) [0..n - 1]) [0..m - 1])) = nat (m * n)"
proof -
  have len: "length (concat (map (\<lambda>i. map (e i) [0..n - 1]) xs)) = length xs * nat n" for xs
    by (rule length_concat_const) simp
  then show "length (concat (map (\<lambda>i. map (e i) [0..n - 1]) [0..m - 1])) = nat (m * n)"
    using assms by (simp add: nat_mult_distrib)
  have "[0..m - 1] = [0..i - 1] @ i # [i + 1..m - 1]"
    using assms upto_split2 [of 0 i "m - 1"] upto_rec1 [of i "m - 1"] upto_split1 [of 0 i "m - 1"] by simp
  moreover have "nat (i * n + j) = length [0..i - 1] * nat n + nat j"
    using assms by (simp add: nat_add_distrib nat_mult_distrib)
  ultimately show "concat (map (\<lambda>i. map (e i) [0..n - 1]) [0..m - 1]) ! nat (i * n + j) = e i j"
    using assms by (simp add: nth_append len nth_upto nat_less_iff)
qed

lemma rnd_representable:
  assumes "p < q"
  shows "rnd q (rnd p x * 2 powi e) = rnd p x * 2 powi e"
proof (cases "x = 0")
  case False
  let ?u = "ilog2 x - int p + 1"
  have "\<bar>x\<bar> / 2 powi ?u < 2 ^ p"
  proof (cases "p = 0")
    case True
    then show ?thesis using ilog2_bounds(2) [OF False] by (simp add: pos_divide_less_eq)
  next
    case p: False
    have "\<bar>x\<bar> / 2 powi (ilog2 \<bar>x\<bar> - int p + 1) < 2 ^ p" using False p by (intro scaled_bounds(2)) simp_all
    moreover have "ilog2 \<bar>x\<bar> = ilog2 x" by (cases "x < 0") simp_all
    ultimately show ?thesis by simp
  qed
  then have b: "\<bar>x / 2 powi ?u\<bar> < 2 ^ p" by (simp add: abs_divide power_int_abs)
  have "\<bar>of_int (rne (x / 2 powi ?u))\<bar> \<le> \<bar>x / 2 powi ?u\<bar> + (1 / 2 :: rat)"
    using rne_bounds(3) [of "x / 2 powi ?u"] by linarith
  then have "\<bar>of_int (rne (x / 2 powi ?u))\<bar> < (2 ^ p + 1 :: rat)" using b by linarith
  then have "(of_int \<bar>rne (x / 2 powi ?u)\<bar> :: rat) < of_int (2 ^ p + 1)" by simp
  then have "\<bar>rne (x / 2 powi ?u)\<bar> < 2 ^ p + 1" by (simp only: of_int_less_iff)
  also have "(2::int) ^ p + 1 \<le> 2 ^ q" 
  proof -
    have "(2::int) ^ p < 2 ^ q" using assms by (rule power_strict_increasing) simp
    then show ?thesis by linarith
  qed
  finally have r: "\<bar>rne (x / 2 powi ?u)\<bar> < 2 ^ q" .
  have "rnd p x * 2 powi e = of_int (rne (x / 2 powi ?u)) * 2 powi (?u + e)"
    using False by (simp add: rnd_def Let_def power_int_add)
  then show ?thesis using rnd_exact [OF r, of "?u + e"] by (simp only:)
qed simp

lemma rnd_double: "rnd p (2 * x) = 2 * rnd p x"
proof (cases "x = 0")
  case False
  have e: "(2::rat) powi (ilog2 x + 1) = 2 * 2 powi ilog2 x" "(2::rat) powi (ilog2 x + 1 + 1) = 2 * 2 powi (ilog2 x + 1)"
    using power_int_add_1 [of "2::rat" "ilog2 x"] power_int_add_1 [of "2::rat" "ilog2 x + 1"] by (simp_all only: mult.commute) simp_all
  have "2 powi (ilog2 x + 1) \<le> \<bar>2 * x\<bar>" "\<bar>2 * x\<bar> < 2 powi (ilog2 x + 1 + 1)"
    unfolding e(2) unfolding e(1) using ilog2_bounds [OF False] unfolding e(1) by (simp_all add: abs_mult)
  then have i: "ilog2 (2 * x) = ilog2 x + 1" by (rule ilog2_unique)
  have "(2::rat) powi (ilog2 x + 1 - int p + 1) = 2 * 2 powi (ilog2 x - int p + 1)"
    using power_int_add_1 [of "2::rat" "ilog2 x - int p + 1"] by (simp add: algebra_simps)
  then show ?thesis using False by (simp add: rnd_def Let_def i)
qed simp

section \<open>Properties\<close>

text \<open>C6. Once the tracker is started on a box whose sides differ by at most a factor of 8, every
  sequence of frames is processed without a fault, whatever the features and the correlation are. After every
  \<^verbatim>\<open>update\<close> the region of the tracker, which has the size of the first one, overlaps the frame: it begins left of
  the last column and ends strictly right of the frame's left edge, and the same for the rows. The box that
  \<^verbatim>\<open>update\<close> returns is that region rounded to integers; the rounding can move it by half a pixel, so all that is left of
  the overlap there is that it touches the frame.\<close>
theorem tracker_follows:
  assumes "lib_ok L" "frame_size W H" "box_size w h" "h \<le> 8 * w" "w \<le> 8 * h" "\<bar>x\<bar> \<le> 2 ^ 14" "\<bar>y\<bar> \<le> 2 ^ 14"
  shows "\<exists>k boxes k'. kcf_init L \<lparr>ix = x, iy = y, iw = w, ih = h\<rparr> s KCFTracker_new = Some k \<and>
     run_calls (\<lambda>s. kcf_update L s W H) frames k = Some (boxes, k') \<and> length boxes = length frames \<and>
     (\<forall>b \<in> set boxes. iw b = w \<and> ih b = h \<and> 0 \<le> ix b + w \<and> ix b \<le> W - 1 \<and> 0 \<le> iy b + h \<and> iy b \<le> H - 1) \<and>
     (frames \<noteq> [] \<longrightarrow> last boxes = rect_of (kcf_roi k') \<and> rw (kcf_roi k') = of_int w \<and> rh (kcf_roi k') = of_int h \<and>
        0 < rx (kcf_roi k') + of_int w \<and> rx (kcf_roi k') \<le> of_int (W - 1) \<and>
        0 < ry (kcf_roi k') + of_int h \<and> ry (kcf_roi k') \<le> of_int (H - 1))"
proof -
  from kcf_init_ready [OF assms(1,3-7)] obtain k where
    k: "kcf_init L \<lparr>ix = x, iy = y, iw = w, ih = h\<rparr> s KCFTracker_new = Some k" "kcf_ready k" "sized w h (kcf_roi k)" by blast
  from run_updates [OF assms(1-3) k(2,3)] obtain boxes k' where r: "run_calls (\<lambda>s. kcf_update L s W H) frames k = Some (boxes, k')"
    "\<forall>b \<in> set boxes. iw b = w \<and> ih b = h \<and> 0 \<le> ix b + w \<and> ix b \<le> W - 1 \<and> 0 \<le> iy b + h \<and> iy b \<le> H - 1"
    "if boxes = [] then k' = k else last boxes = rect_of (kcf_roi k') \<and> visible W H (kcf_roi k') \<and> sized w h (kcf_roi k')" by blast
  have len: "length boxes = length frames" using r(1) by (rule run_calls_length)
  moreover have "last boxes = rect_of (kcf_roi k') \<and> rw (kcf_roi k') = of_int w \<and> rh (kcf_roi k') = of_int h \<and>
        0 < rx (kcf_roi k') + of_int w \<and> rx (kcf_roi k') \<le> of_int (W - 1) \<and>
        0 < ry (kcf_roi k') + of_int h \<and> ry (kcf_roi k') \<le> of_int (H - 1)" if "frames \<noteq> []"
  proof -
    have "boxes \<noteq> []" using that len by auto
    then have "last boxes = rect_of (kcf_roi k')" "visible W H (kcf_roi k')" "sized w h (kcf_roi k')" using r(3) by simp_all
    then show ?thesis by (simp add: visible_def sized_def)
  qed
  ultimately show ?thesis using k(1) r(1,2) by blast
qed

text \<open>For a box whose sides differ by at most a factor of 8, both sides of the feature patch are even
  and between 2 and 24, so the tables of both transforms fit the fixed arrays of
  \<^verbatim>\<open>gpu_gaussianCorrelation\<close> (8 factors, 32 indices, 64 floats): building them stays in bounds and
  gives a permutation.\<close>
theorem tracker_tables_fit:
  assumes "box_size w h" "h \<le> 8 * w" "w \<le> 8 * h" and k: "fresh_params k" "int_roi k w h"
  shows "\<exists>k'. init_template k = Some k' \<and> (\<forall>n \<in> {patch_x (set_patch k'), patch_y (set_patch k')}.
     2 \<le> n \<and> n \<le> 24 \<and> even n \<and> (\<exists>fs nf itab wave. DFTFactorize n (replicate 8 0) = Some (fs, nf) \<and>
       DFTInit sin_d sqrt_f n nf fs (replicate 32 0) (replicate 64 0) = Some (itab, wave) \<and>
       mset (take (nat n) itab) = mset [0..n - 1]))"
proof -
  have "\<exists>k' a b. init_template k = Some k' \<and> sides_ok w h a b \<and> 0 \<le> kcf_scale k' \<and> kcf_scale k' \<le> 2 ^ 10 \<and>
     k' = k\<lparr>kcf_scale := kcf_scale k', tmpl_w := a div 8 * 8 + 8, tmpl_h := b div 8 * 8 + 8\<rparr>"
    by (rule init_template_sides [OF k]) (use assms(1) in \<open>simp_all add: box_size_def max_def\<close>)
  then obtain k' a b where r: "init_template k = Some k'" "sides_ok w h a b"
     "k' = k\<lparr>kcf_scale := kcf_scale k', tmpl_w := a div 8 * 8 + 8, tmpl_h := b div 8 * 8 + 8\<rparr>" by blast
  have ab: "1 \<le> a div 8" "a div 8 \<le> 12" "1 \<le> b div 8" "b div 8 \<le> 12"
  proof -
    have "8 \<le> a" "a \<le> 97" "8 \<le> b" "b \<le> 97" using r(2) assms(2,3) unfolding sides_ok_def by blast+
    then show "1 \<le> a div 8" "a div 8 \<le> 12" "1 \<le> b div 8" "b div 8 \<le> 12" by linarith+
  qed
  have pt: "patch_x (set_patch k') = 2 * (a div 8)" "patch_y (set_patch k') = 2 * (b div 8)"
    using ab k(1) by (subst r(3), simp add: set_patch_def cquot_nonneg fresh_params_def)+
  have tab: "2 \<le> 2 * m \<and> 2 * m \<le> 24 \<and> even (2 * m) \<and> (\<exists>fs nf itab wave. DFTFactorize (2 * m) (replicate 8 0) = Some (fs, nf) \<and>
       DFTInit sin_d sqrt_f (2 * m) nf fs (replicate 32 0) (replicate 64 0) = Some (itab, wave) \<and>
       mset (take (nat (2 * m)) itab) = mset [0..2 * m - 1])" if m: "1 \<le> m" "m \<le> 12" for m :: int
  proof -
    have "\<exists>fs nf itab' wave'. DFTFactorize (2 * m) (replicate 8 0) = Some (fs, nf) \<and>
      DFTInit sin_d sqrt_f (2 * m) nf fs (replicate 32 0) (replicate 64 0) = Some (itab', wave') \<and>
      mset (take (nat (2 * m)) itab') = mset [0..2 * m - 1] \<and> drop (nat (2 * m)) itab' = drop (nat (2 * m)) (replicate 32 0) \<and>
      (2 * m = 4 \<or> 5 < 2 * m \<longrightarrow> conj_symmetric (2 * m) wave')"
      by (rule DFTInit_ok) (use low_factor_le [of "2 * m"] m in simp_all)
    then obtain fs nf itab' wave' where "DFTFactorize (2 * m) (replicate 8 0) = Some (fs, nf)"
      "DFTInit sin_d sqrt_f (2 * m) nf fs (replicate 32 0) (replicate 64 0) = Some (itab', wave')"
      "mset (take (nat (2 * m)) itab') = mset [0..2 * m - 1]" by blast
    moreover have "2 \<le> 2 * m" "2 * m \<le> 24" "even (2 * m)" using m by simp_all
    ultimately show ?thesis by blast
  qed
  show ?thesis
  proof (rule exI [of _ k'], rule conjI [OF r(1)], rule ballI)
    fix n assume "n \<in> {patch_x (set_patch k'), patch_y (set_patch k')}"
    then have "n = 2 * (a div 8) \<or> n = 2 * (b div 8)" by (simp add: pt)
    then show "2 \<le> n \<and> n \<le> 24 \<and> even n \<and> (\<exists>fs nf itab wave. DFTFactorize n (replicate 8 0) = Some (fs, nf) \<and>
       DFTInit sin_d sqrt_f n nf fs (replicate 32 0) (replicate 64 0) = Some (itab, wave) \<and>
       mset (take (nat n) itab) = mset [0..n - 1])"
      using tab [OF ab(1,2)] tab [OF ab(3,4)] by (elim disjE) (simp_all only:)
  qed
qed

text \<open>A box at least 14 times as high as wide (or as wide as high) gives a feature patch with an empty side, and
  building the transform tables of size 0 writes in front of the array: \<^verbatim>\<open>DFTInit\<close> stores
  \<open>itab[n0 - 1]\<close> without looking at \<open>n0\<close>.\<close>
theorem narrow_box_undefined:
  assumes "box_size w h" "14 * w \<le> h" and k: "fresh_params k" "int_roi k w h"
  shows "\<exists>k'. init_template k = Some k' \<and> patch_x (set_patch k') = 0 \<and>
     DFTInit sin_d sqrt_f (patch_x (set_patch k')) nf fs itab wave = None"
proof -
  have "\<exists>k' a b. init_template k = Some k' \<and> sides_ok w h a b \<and> 0 \<le> kcf_scale k' \<and> kcf_scale k' \<le> 2 ^ 10 \<and>
     k' = k\<lparr>kcf_scale := kcf_scale k', tmpl_w := a div 8 * 8 + 8, tmpl_h := b div 8 * 8 + 8\<rparr>"
    by (rule init_template_sides [OF k]) (use assms(1) in \<open>simp_all add: box_size_def max_def\<close>)
  then obtain k' a b where r: "init_template k = Some k'" "sides_ok w h a b"
     "k' = k\<lparr>kcf_scale := kcf_scale k', tmpl_w := a div 8 * 8 + 8, tmpl_h := b div 8 * 8 + 8\<rparr>" by blast
  have "0 \<le> a" "a < 8" using r(2) assms(2) by (simp_all add: sides_ok_def)
  then have a: "a div 8 = 0" by simp
  have pt: "patch_x (set_patch k') = 0"
    using a k(1) by (subst r(3)) (simp add: set_patch_def cquot_nonneg fresh_params_def)
  have "DFTInit sin_d sqrt_f 0 nf fs itab wave = None"
    by (cases itab) (simp_all add: DFTInit_def dft_itab_def small_itab_def st_def int_ok_def)
  then show ?thesis using r(1) pt by auto
qed

text \<open>The Hanning window of the tracker has one row of \<open>patch_y * patch_x\<close> weights for each feature, all
  rows alike, and every weight lies between 0 and 1.\<close>
theorem hann_window_unit:
  assumes "cos_ok f" "patch_x k \<noteq> 1" "patch_y k \<noteq> 1" "0 \<le> patch_x k" "0 \<le> patch_y k" "0 \<le> patch_n k"
  shows "\<exists>row. createHanningMats f k = Some (k\<lparr>hann := \<lparr>mrows = patch_n k, mcols = patch_y k * patch_x k,
       elems = concat (replicate (nat (patch_n k)) row)\<rparr>\<rparr>) \<and>
     int (length row) = patch_y k * patch_x k \<and> (\<forall>v \<in> set row. 0 \<le> v \<and> v \<le> 1)"
proof -
  let ?row = "concat (map (\<lambda>a. map (fmul a) (map (hann_value f (patch_x k)) [0..patch_x k - 1])) (map (hann_value f (patch_y k)) [0..patch_y k - 1]))"
  have "map (\<lambda>_. ?row) [0..patch_n k - 1] = replicate (nat (patch_n k)) ?row"
    by (simp add: map_replicate_const)
  moreover have "\<forall>v \<in> set ?row. 0 \<le> v \<and> v \<le> 1"
    using hann_value_range [OF assms(1)] by (auto intro!: fmul_unit [THEN conjunct1] fmul_unit [THEN conjunct2])
  moreover have "int (length ?row) = patch_y k * patch_x k"
    using assms(4,5) by (subst length_concat_const [where n = "nat (patch_x k)"]) auto
  ultimately show ?thesis using createHanningMats_eq [OF assms(2,3), of f] by (intro exI [of _ ?row]) simp
qed

text \<open>The target of the correlation filter has its peak at the middle of the patch: the sample there is
  \<^verbatim>\<open>exp(0)\<close>, and no other sample is larger, for any monotone \<^verbatim>\<open>exp\<close> and any square root that is positive on
  positive numbers.\<close>
theorem gaussian_peak_centered:
  assumes "mono exp_f" "\<And>v. 0 < v \<Longrightarrow> 0 < sqrt_f v" "0 < kcf_padding k" "0 < output_sigma_factor k"
    and "1 \<le> sizey" "sizey \<le> 2 ^ 10" "1 \<le> sizex" "sizex \<le> 2 ^ 10"
  shows "at_mat (gaussian_peak sqrt_f exp_f k sizey sizex) (sizey div 2) (sizex div 2) = Some (exp_f 0) \<and>
     (\<forall>v \<in> set (elems (gaussian_peak sqrt_f exp_f k sizey sizex)). v \<le> exp_f 0)"
proof -
  let ?g = "gaussian_peak sqrt_f exp_f k sizey sizex"
  define sg where "sg = fmul (fdiv (sqrt_f (fmul (i2f sizex) (i2f sizey))) (kcf_padding k)) (output_sigma_factor k)"
  define mu where "mu = d2f (ddiv (- (1 / 2)) (fmul sg sg))"
  have "- ddiv (- (1 / 2)) (fmul sg sg) = rnd 53 (1 / 2 / fmul sg sg)" by (simp add: ddiv_def flip: rnd_minus)
  moreover have "0 \<le> fmul sg sg" by (simp add: fmul_def rnd_nonneg)
  ultimately have "ddiv (- (1 / 2)) (fmul sg sg) \<le> 0" using rnd_nonneg [of "1 / 2 / fmul sg sg" 53] by simp
  then have mu: "mu \<le> 0" unfolding mu_def d2f_def by simp
  define e where "e = (\<lambda>i j. exp_f (fmul mu (i2f ((i - sizey div 2) * (i - sizey div 2) + (j - sizex div 2) * (j - sizex div 2)))))"
  have el: "elems ?g = concat (map (\<lambda>i. map (e i) [0..sizex - 1]) [0..sizey - 1])" "mrows ?g = sizey" "mcols ?g = sizex"
    using assms(5,7) by (simp_all add: gaussian_peak_def Let_def e_def mu_def sg_def cquot_nonneg)
  have le: "e i j \<le> exp_f 0" for i j
  proof -
    have "0 \<le> i2f ((i - sizey div 2) * (i - sizey div 2) + (j - sizex div 2) * (j - sizex div 2))"
      unfolding i2f_def by (intro rnd_nonneg) simp_all
    then have "fmul mu (i2f ((i - sizey div 2) * (i - sizey div 2) + (j - sizex div 2) * (j - sizex div 2))) \<le> 0"
      using mu by (simp add: fmul_def mult_nonpos_nonneg)
    then show ?thesis unfolding e_def using assms(1) by (simp add: monoD)
  qed
  have "i2f 0 = 0" by (simp add: i2f_def)
  then have c: "e (sizey div 2) (sizex div 2) = exp_f 0" by (simp add: e_def fmul_def)
  have mid: "0 \<le> sizey div 2" "sizey div 2 < sizey" "0 \<le> sizex div 2" "sizex div 2 < sizex" using assms(5,7) by auto
  have "sizey * sizex \<le> 2 ^ 10 * 2 ^ 10" using assms(5-8) by (intro mult_mono) simp_all
  moreover have "0 \<le> sizey div 2 * sizex + sizex div 2" "sizey div 2 * sizex + sizex div 2 < sizey * sizex"
    using mid by (auto intro: flat_bound)
  ultimately have "ld (elems ?g) (sizey div 2 * sizex + sizex div 2) = Some (elems ?g ! nat (sizey div 2 * sizex + sizex div 2))"
    unfolding el(1) using concat_rows_nth(2) [OF mid, of e]
    by (intro ld_in [where k = "sizey * sizex"]) (simp_all add: nat_le_iff)
  then have "at_mat ?g (sizey div 2) (sizex div 2) = Some (e (sizey div 2) (sizex div 2))"
    using mid concat_rows_nth(1) [OF mid, of e] by (simp add: at_mat_def el)
  moreover have "\<forall>v \<in> set (elems ?g). v \<le> exp_f 0" unfolding el(1) using le by auto
  ultimately show ?thesis using c by simp
qed

text \<open>The sub-pixel correction of a peak moves towards the larger neighbour, and at most half a pixel to
  the right, for all values of type \<^verbatim>\<open>float\<close> of which the middle one is the largest.\<close>
theorem subPixelPeak_direction:
  assumes "rnd 24 left = left" "rnd 24 center = center" "rnd 24 right = right" "left \<le> center" "right \<le> center"
  shows "subPixelPeak left center right \<le> 1 / 2 \<and>
    (left \<le> right \<longrightarrow> 0 \<le> subPixelPeak left center right) \<and> (right \<le> left \<longrightarrow> subPixelPeak left center right \<le> 0)"
proof -
  let ?a = "fsub (fmul 2 center) right" and ?n = "fsub right left"
  let ?d = "fsub ?a left"
  have m: "fmul 2 center = 2 * center" by (simp add: fmul_def rnd_double assms)
  have "right \<le> ?a" using rnd_mono [of right "2 * center - right" 24] assms by (simp add: fsub_def m)
  then have nd: "?n \<le> ?d" unfolding fsub_def by (intro rnd_mono) simp_all
  have "left \<le> ?a" using rnd_mono [of left "2 * center - right" 24] assms by (simp add: fsub_def m)
  then have d: "0 \<le> ?d" by (rule f_nonneg)
  have h: "dmul (1 / 2) ?n = ?n / 2"
    using rnd_representable [of 24 53 "right - left" "- 1"] by (simp add: dmul_def fsub_def)
  have half: "rnd 53 (1 / 2) = 1 / 2" "rnd 24 (1 / 2) = 1 / 2"
    using rnd_exact [of 1 53 "- 1"] rnd_exact [of 1 24 "- 1"] by simp_all
  show ?thesis
  proof (cases "?d = 0")
    case False
    then have d0: "0 < ?d" using d by simp
    let ?q = "?n / 2 / ?d"
    have q: "?q \<le> 1 / 2" using nd d0 by (simp add: pos_divide_le_eq)
    have r: "subPixelPeak left center right = d2f (rnd 53 ?q)" using False by (simp add: subPixelPeak_def Let_def ddiv_def h)
    have "d2f (rnd 53 ?q) \<le> 1 / 2" unfolding d2f_def using rnd_mono [OF q, of 53] rnd_mono [of "rnd 53 ?q" "1 / 2" 24] half by simp
    moreover have "0 \<le> d2f (rnd 53 ?q)" if "left \<le> right"
    proof -
      have "0 \<le> ?q" using d0 f_nonneg(2) [OF that] by simp
      then show ?thesis by (simp add: d2f_def rnd_nonneg)
    qed
    moreover have "d2f (rnd 53 ?q) \<le> 0" if "right \<le> left"
    proof -
      have "?n \<le> 0" using that by (simp add: fsub_def)
      then have "0 \<le> - ?q" using d0 by (simp add: divide_nonpos_pos)
      then have "0 \<le> rnd 53 (- ?q)" by (rule rnd_nonneg) simp
      then have "rnd 53 ?q \<le> 0" by (simp only: rnd_minus)
      then show ?thesis by (simp add: d2f_def)
    qed
    ultimately show ?thesis unfolding r by blast
  qed (simp add: subPixelPeak_def Let_def)
qed

section \<open>Witnesses\<close>

definition demo_lib :: kcf_lib where
  "demo_lib = \<lparr>l_features = (\<lambda>s r w h. empty_mat), l_correlate = (\<lambda>a b. a), l_fft = (\<lambda>m. zero_cmat (mrows m) (mcols m)),
     l_ifft = (\<lambda>c. \<lparr>mrows = mrows c, mcols = mcols c, elems = replicate (nat (mrows c * mcols c)) 0\<rparr>),
     l_max_loc = (\<lambda>m. (0, 0, 0)), l_mul = (\<lambda>a b. b), l_complex_mul = (\<lambda>a b. a), l_complex_div = (\<lambda>a b. a),
     l_add_scalar = (\<lambda>c s. c), l_mix = (\<lambda>s a f b. a), l_mixc = (\<lambda>s a f b. a), l_sqrt = (\<lambda>x. x), l_exp = (\<lambda>x. x),
     l_cos = (\<lambda>x. 1)\<rparr>"

lemma demo_lib_ok: "lib_ok demo_lib"
  by (auto simp: lib_ok_def demo_lib_def)

definition demo_kcf :: "int \<Rightarrow> int \<Rightarrow> kcf" where
  "demo_kcf w h = KCFTracker_new\<lparr>kcf_roi := \<lparr>rx = 0, ry = 0, rw = i2f w, rh = i2f h\<rparr>\<rparr>"

theorem tracker_follows_witness:
  "\<exists>k boxes k'. kcf_init demo_lib \<lparr>ix = 10, iy = 20, iw = 40, ih = 100\<rparr> 7 KCFTracker_new = Some k \<and>
     run_calls (\<lambda>s. kcf_update demo_lib s 640 480) [7, 8, 9] k = Some (boxes, k') \<and> length boxes = 3 \<and> (\<forall>b \<in> set boxes. iw b = 40)"
  using tracker_follows [of demo_lib 640 480 40 100 10 20 7 "[7, 8, 9]"] by (auto simp: demo_lib_ok frame_size_def box_size_def)

theorem tracker_tables_fit_witness:
  "\<exists>k'. init_template (demo_kcf 40 100) = Some k' \<and> 2 \<le> patch_x (set_patch k') \<and> patch_x (set_patch k') \<le> 24"
  using tracker_tables_fit [of 40 100 "demo_kcf 40 100" "\<lambda>x. x" "\<lambda>x. x"]
  by (auto simp: box_size_def fresh_params_def int_roi_def demo_kcf_def KCFTracker_new_def)

theorem narrow_box_undefined_witness:
  "\<exists>k'. init_template (demo_kcf 10 200) = Some k' \<and> DFTInit (\<lambda>x. x) (\<lambda>x. x) (patch_x (set_patch k')) 1 [] [] [] = None"
  using narrow_box_undefined [of 10 200 "demo_kcf 10 200" "\<lambda>x. x" "\<lambda>x. x" 1 "[]" "[]" "[]"]
  by (auto simp: box_size_def fresh_params_def int_roi_def demo_kcf_def KCFTracker_new_def)

theorem hann_window_unit_witness:
  "\<exists>k'. createHanningMats (\<lambda>x. 0) (KCFTracker_new\<lparr>patch_x := 4, patch_y := 2, patch_n := 31\<rparr>) = Some k'"
  using hann_window_unit [of "\<lambda>x. 0" "KCFTracker_new\<lparr>patch_x := 4, patch_y := 2, patch_n := 31\<rparr>"] by (auto simp: cos_ok_def)

theorem gaussian_peak_centered_witness:
  "at_mat (gaussian_peak (\<lambda>x. x) (\<lambda>x. x) KCFTracker_new 4 6) 2 3 = Some 0"
  using gaussian_peak_centered [of "\<lambda>x. x" "\<lambda>x. x" KCFTracker_new 4 6] by (simp add: KCFTracker_new_def mono_def)

theorem subPixelPeak_direction_witness: "subPixelPeak 1 3 2 \<le> 1 / 2 \<and> 0 \<le> subPixelPeak 1 3 2"
  using subPixelPeak_direction [of 1 3 2] rnd_of_int [of 1 24] rnd_of_int [of 2 24] rnd_of_int [of 3 24] by simp

end
