(* ===== verification/CmDevice.thy ===== *)
theory CmDevice
  imports DftItab
begin

text \<open>
  The GPU objects that \<^verbatim>\<open>KCFTracker\<close> keeps through the C-for-Media runtime
  (\<^verbatim>\<open>kcftracker.hpp\<close> 238-316) and the calls it makes on them. Every pointer member owns at most one
  object, so an object is found under the name of the member that points to it; a kernel argument
  and a thread space association remember the number of the object they were set from, so that they
  are stale once that object is destroyed.

  The runtime is not part of the repository. Its answers are an argument: \<open>dev_ok\<close> tells of the n-th
  call whose result the program can see whether it succeeds, \<open>gpu_kernel\<close> gives what a kernel of the
  binary \<^verbatim>\<open>kcf_correlation_genx.isa\<close> computes from its arguments. A failed call leaves the pointer as
  it was. Calls that only store a value on a live object (\<^verbatim>\<open>SetKernelArg\<close>, \<^verbatim>\<open>SetThreadCount\<close>,
  \<^verbatim>\<open>GetIndex\<close>, \<^verbatim>\<open>SelectMediaWalkingPattern\<close>) and the destroy calls do not fail. A null or
  uninitialised pointer, an object destroyed before and a read past an array are \<open>Fault\<close>.
\<close>

section \<open>Objects\<close>

datatype kname = kernel_H_F_0 | kernel_V_F_0 | kernel_H_F_1 | kernel_V_F_1 | kernel_MulSpec | kernel_H_I
  | kernel_V_I | kernel_ImageSum | kernelFinalExp | kernelSrcImageSum

datatype sname = pInputSurf0 | pInputSurf1 | pOutputSurf_H_F_0 | pOutputSurf_V_F_0 | pOutputSurf_H_F_1
  | pOutputSurf_V_F_1 | pMulSpectrumSurf | pOutputSurf_H_V_1 | pOutputSurf_V_V_1 | pOutputInvSumSurf
  | pInputSumSurf | pOutputFinalSurf | pParamSurfHUP | pParamBufferV | pSrcImageSumBufferUp

datatype hname = pParamBufferULTH | pParamBufferULTV | SrcImageSumBuffer

datatype tname = pTS0 | pTS1 | pTS2 | pTS3 | pTS4 | pTS_DFT_FWD_H | pTS_DFT_FWD_V | pTSImageSum
  | pTS_SrcImageSum | pTS_Final

datatype qname = pKernelArray | pKernelArrayTmp | pKernelArray_Final

datatype ename = e_SrcImageSum | e_Final

text \<open>What a surface or a block of host memory holds: numbers by position, or the 320 bytes of the
  transform tables (64 numbers, 32 bytes of which some may never be written, 8 integers).\<close>

datatype content = Floats "nat \<Rightarrow> f32" | Table "f32 list" "int option list" "int list"

datatype dims = Bytes int | Pixels int int | UP int hname

datatype karg = Surf sname nat | Num int | Flt f32 | Flag bool

datatype kval = Data "content option" | VNum int | VFlt f32 | VFlag bool | Out

record surf =
  sid :: nat
  sdim :: dims
  sdata :: "content option"

record cm_kernel =
  kfun :: string
  kargs :: "nat \<Rightarrow> karg option"
  kcount :: int
  kspace :: "(tname \<times> nat) option"

datatype entry = Run kname | Sync

record sPerfProfileParam =
  usInWidth :: int
  usInHeight :: int
  usOutWidth :: int
  usOutHeight :: int
  usPitchX :: int
  usPitchY :: int
  usPitchZ :: int
  ucChannel :: int
  bInv :: bool
  fScale :: f32
  usWalkerPattern :: int

record gst =
  kernels :: "kname \<Rightarrow> cm_kernel option"
  surfs :: "sname \<Rightarrow> surf option"
  hosts :: "hname \<Rightarrow> (int \<times> content option) option"
  spaces :: "tname \<Rightarrow> nat option"
  walk :: "tname \<Rightarrow> bool"
  tasks :: "qname \<Rightarrow> entry list option"
  events :: "ename \<Rightarrow> bool"
  queue :: bool
  program :: bool
  device :: bool
  isa_code :: bool
  cfg :: sPerfProfileParam
  gWidth :: int
  gHeight :: int
  gPitchX :: int
  gPitchY :: int
  gPitchZ :: int
  nfx :: int
  nfy :: int
  l_factor :: "int list"
  l_itab :: "int list"
  l_wave :: "f32 list"
  l_sum :: f32
  outbuf :: "content option"
  lost :: nat
  clock :: nat
  ident :: nat

record gpu_env =
  dev_ok :: "nat \<Rightarrow> bool"
  gpu_kernel :: "string \<Rightarrow> kval list \<Rightarrow> nat \<Rightarrow> f32"
  sin_d :: "rat \<Rightarrow> rat"
  sqrt_d :: "rat \<Rightarrow> rat"
  falls_off :: bool

section \<open>Steps\<close>

text \<open>How a piece of code ends: it goes on, it returns a status, it leaves the process or it is undefined.\<close>

datatype 's outcome = Next 's | Return int 's | Exit int 's | Fault

type_synonym step = "gst \<Rightarrow> gst outcome"

primrec run :: "('s \<Rightarrow> 's outcome) list \<Rightarrow> 's \<Rightarrow> 's outcome" where
  "run [] s = Next s"
| "run (f # fs) s = (case f s of Next s' \<Rightarrow> run fs s' | r \<Rightarrow> r)"

definition guarded :: "('s \<Rightarrow> bool) \<Rightarrow> ('s \<Rightarrow> 's outcome) list \<Rightarrow> 's \<Rightarrow> 's outcome" where
  "guarded b fs s = (if b s then run fs s else Next s)"

definition set_st :: "('s \<Rightarrow> 's) \<Rightarrow> 's \<Rightarrow> 's outcome" where
  "set_st f s = Next (f s)"

definition need :: "('s \<Rightarrow> bool) \<Rightarrow> 's \<Rightarrow> 's outcome" where
  "need b s = (if b s then Next s else Fault)"

text \<open>A call whose result is visible, with what it does on success; \<open>checked_call\<close> returns -1 on failure,
  \<open>tried\<close> goes on.\<close>

definition checked_call :: "gpu_env \<Rightarrow> (gst \<Rightarrow> gst) \<Rightarrow> step" where
  "checked_call E f s = (let s1 = s\<lparr>clock := Suc (clock s)\<rparr>
     in if dev_ok E (clock s) then Next (f s1) else Return (- 1) s1)"

definition tried :: "gpu_env \<Rightarrow> (gst \<Rightarrow> gst) \<Rightarrow> step" where
  "tried E f s = (let s1 = s\<lparr>clock := Suc (clock s)\<rparr>
     in Next (if dev_ok E (clock s) then f s1 else s1))"

text \<open>A function called for its effect: the status it returns is not looked at. The objects its local
  variables still hold when it ends are lost.\<close>

definition drop_locals :: "tname list \<Rightarrow> qname list \<Rightarrow> ename list \<Rightarrow> gst \<Rightarrow> gst" where
  "drop_locals ts qs es s = s\<lparr>
     lost := lost s + length (filter (\<lambda>t. spaces s t \<noteq> None) ts) + length (filter (\<lambda>q. tasks s q \<noteq> None) qs)
       + length (filter (events s) es),
     spaces := (\<lambda>t. if t \<in> set ts then None else spaces s t),
     tasks := (\<lambda>q. if q \<in> set qs then None else tasks s q),
     events := (\<lambda>e. events s e \<and> e \<notin> set es)\<rparr>"

definition body :: "tname list \<Rightarrow> qname list \<Rightarrow> ename list \<Rightarrow> step list \<Rightarrow> step" where
  "body ts qs es fs s = (case run fs s of Next s' \<Rightarrow> Next (drop_locals ts qs es s')
     | Return r s' \<Rightarrow> Return r (drop_locals ts qs es s') | r \<Rightarrow> r)"

definition ignore :: "('s \<Rightarrow> 's outcome) \<Rightarrow> 's \<Rightarrow> 's outcome" where
  "ignore f s = (case f s of Return r s' \<Rightarrow> Next s' | r \<Rightarrow> r)"

text \<open>The end of a function that is declared \<^verbatim>\<open>int\<close> and has no \<^verbatim>\<open>return\<close> there: undefined, unless the build lets such
  a function go back to its caller (\<open>falls_off\<close>).\<close>

definition off_end :: "gpu_env \<Rightarrow> step" where
  "off_end E s = (if falls_off E then Next s else Fault)"

named_theorems gpu_simps \<open>symbolic execution of the device steps\<close>

lemma run_append: "run (xs @ ys) s = (case run xs s of Next s' \<Rightarrow> run ys s' | r \<Rightarrow> r)"
  by (induction xs arbitrary: s) (auto split: outcome.splits)

lemma outcome_simps [gpu_simps]:
  "guarded b fs s = (if b s then run fs s else Next s)"
  "set_st f s = Next (f s)"
  "need b s = (if b s then Next s else Fault)"
  by (simp_all add: guarded_def set_st_def need_def)

lemma ignore_next [gpu_simps]: "f s = Next s' \<Longrightarrow> ignore f s = Next s'"
  by (simp add: ignore_def)

section \<open>Surfaces and host memory\<close>

definition new_surf :: "sname \<Rightarrow> dims \<Rightarrow> gst \<Rightarrow> gst" where
  "new_surf x d s = s\<lparr>surfs := (surfs s)(x \<mapsto> \<lparr>sid = ident s, sdim = d, sdata = None\<rparr>), ident := Suc (ident s)\<rparr>"

definition DestroySurface :: "sname \<Rightarrow> step" where
  "DestroySurface x s = (case surfs s x of None \<Rightarrow> Fault | Some _ \<Rightarrow> Next (s\<lparr>surfs := (surfs s)(x := None)\<rparr>))"

text \<open>The idiom of \<^verbatim>\<open>gpu_gaussianCorrelation\<close>: a surface that is missing or of another size is destroyed
  and created again.\<close>

definition remake :: "gpu_env \<Rightarrow> (gst \<Rightarrow> bool) \<Rightarrow> sname \<Rightarrow> (gst \<Rightarrow> dims) \<Rightarrow> step" where
  "remake E changed x d s =
     guarded (\<lambda>s. surfs s x = None \<or> changed s)
       [guarded (\<lambda>s. surfs s x \<noteq> None) [DestroySurface x], \<lambda>s. checked_call E (new_surf x (d s)) s] s"

definition WriteSurface :: "gpu_env \<Rightarrow> sname \<Rightarrow> (gst \<Rightarrow> content) \<Rightarrow> step" where
  "WriteSurface E x c s = (case surfs s x of None \<Rightarrow> Fault
     | Some sf \<Rightarrow> checked_call E (\<lambda>s1. s1\<lparr>surfs := (surfs s1)(x \<mapsto> sf\<lparr>sdata := Some (c s1)\<rparr>)\<rparr>) s)"

definition GetIndex :: "sname \<Rightarrow> step" where
  "GetIndex x = need (\<lambda>s. surfs s x \<noteq> None)"

definition surf_data :: "gst \<Rightarrow> surf \<Rightarrow> content option" where
  "surf_data s sf = (case sdim sf of UP _ h \<Rightarrow> (case hosts s h of None \<Rightarrow> None | Some (_, c) \<Rightarrow> c) | _ \<Rightarrow> sdata sf)"

definition put_surf :: "sname \<Rightarrow> surf \<Rightarrow> content \<Rightarrow> gst \<Rightarrow> gst" where
  "put_surf x sf c s = (case sdim sf of
       UP _ h \<Rightarrow> (case hosts s h of None \<Rightarrow> s | Some (n, _) \<Rightarrow> s\<lparr>hosts := (hosts s)(h \<mapsto> (n, Some c))\<rparr>)
     | _ \<Rightarrow> s\<lparr>surfs := (surfs s)(x \<mapsto> sf\<lparr>sdata := Some c\<rparr>)\<rparr>)"

section \<open>Kernels, thread spaces and tasks\<close>

definition on_kernel :: "kname \<Rightarrow> (cm_kernel \<Rightarrow> cm_kernel) \<Rightarrow> step" where
  "on_kernel k f s = (case kernels s k of None \<Rightarrow> Fault | Some kr \<Rightarrow> Next (s\<lparr>kernels := (kernels s)(k \<mapsto> f kr)\<rparr>))"

definition CreateKernel :: "kname \<Rightarrow> string \<Rightarrow> gst \<Rightarrow> gst" where
  "CreateKernel k fn s = s\<lparr>kernels := (kernels s)(k \<mapsto> \<lparr>kfun = fn, kargs = Map.empty, kcount = 0, kspace = None\<rparr>)\<rparr>"

definition SetThreadCount :: "kname \<Rightarrow> (gst \<Rightarrow> int) \<Rightarrow> step" where
  "SetThreadCount k n s = on_kernel k (\<lambda>kr. kr\<lparr>kcount := n s\<rparr>) s"

text \<open>The values of the arguments of a kernel, in order; the index of a null surface is undefined.\<close>

definition surf_arg :: "sname \<Rightarrow> gst \<Rightarrow> karg option" where
  "surf_arg x s = map_option (\<lambda>sf. Surf x (sid sf)) (surfs s x)"

definition num_arg :: "(gst \<Rightarrow> int) \<Rightarrow> gst \<Rightarrow> karg option" where
  "num_arg v s = Some (Num (v s))"

definition SetKernelArg :: "kname \<Rightarrow> nat \<Rightarrow> (gst \<Rightarrow> karg option) \<Rightarrow> step" where
  "SetKernelArg k i v s = (case v s of None \<Rightarrow> Fault | Some a \<Rightarrow> on_kernel k (\<lambda>kr. kr\<lparr>kargs := (kargs kr)(i \<mapsto> a)\<rparr>) s)"

primrec set_args :: "kname \<Rightarrow> nat \<Rightarrow> (gst \<Rightarrow> karg option) list \<Rightarrow> step" where
  "set_args k i [] = Next"
| "set_args k i (a # as) = run [SetKernelArg k i a, set_args k (Suc i) as]"

definition CreateThreadSpace :: "gpu_env \<Rightarrow> tname \<Rightarrow> step" where
  "CreateThreadSpace E t = tried E (\<lambda>s. s\<lparr>spaces := (spaces s)(t \<mapsto> ident s), ident := Suc (ident s)\<rparr>)"

definition DestroyThreadSpace :: "tname \<Rightarrow> step" where
  "DestroyThreadSpace t s = (case spaces s t of None \<Rightarrow> Fault | Some _ \<Rightarrow> Next (s\<lparr>spaces := (spaces s)(t := None)\<rparr>))"

definition SelectWalk :: "tname \<Rightarrow> (gst \<Rightarrow> bool) \<Rightarrow> step" where
  "SelectWalk t h s = (case spaces s t of None \<Rightarrow> Fault | Some _ \<Rightarrow> Next (s\<lparr>walk := (walk s)(t := h s)\<rparr>))"

definition AssociateThreadSpace :: "gpu_env \<Rightarrow> kname \<Rightarrow> tname \<Rightarrow> step" where
  "AssociateThreadSpace E k t s = (case (kernels s k, spaces s t) of
       (Some kr, Some i) \<Rightarrow> checked_call E (\<lambda>s1. s1\<lparr>kernels := (kernels s1)(k \<mapsto> kr\<lparr>kspace := Some (t, i)\<rparr>)\<rparr>) s
     | _ \<Rightarrow> Fault)"

definition CreateTask :: "qname \<Rightarrow> gst \<Rightarrow> gst" where
  "CreateTask q s = s\<lparr>tasks := (tasks s)(q \<mapsto> [])\<rparr>"

definition DestroyTask :: "qname \<Rightarrow> step" where
  "DestroyTask q s = (case tasks s q of None \<Rightarrow> Fault | Some _ \<Rightarrow> Next (s\<lparr>tasks := (tasks s)(q := None)\<rparr>))"

definition add_entry :: "qname \<Rightarrow> entry \<Rightarrow> gst \<Rightarrow> gst" where
  "add_entry q e s = s\<lparr>tasks := (tasks s)(q := map_option (\<lambda>es. es @ [e]) (tasks s q))\<rparr>"

text \<open>\<^verbatim>\<open>AddKernel\<close> with a checked_call or an overwritten result, and \<^verbatim>\<open>AddSync\<close>.\<close>

definition AddKernel :: "gpu_env \<Rightarrow> qname \<Rightarrow> kname \<Rightarrow> step" where
  "AddKernel E q k s = (if tasks s q = None \<or> kernels s k = None then Fault else checked_call E (add_entry q (Run k)) s)"

definition AddKernel_tried :: "gpu_env \<Rightarrow> qname \<Rightarrow> kname \<Rightarrow> step" where
  "AddKernel_tried E q k s =
     (if tasks s q = None \<or> kernels s k = None then Fault else tried E (add_entry q (Run k)) s)"

definition AddSync :: "gpu_env \<Rightarrow> qname \<Rightarrow> step" where
  "AddSync E q s = (if tasks s q = None then Fault else checked_call E (add_entry q Sync) s)"

section \<open>Execution\<close>

text \<open>Number of arguments of a kernel of the binary, and the argument that is its output.\<close>

definition arity :: "string \<Rightarrow> nat" where
  "arity fn = (if fn = ''fftd_h'' then 9 else if fn = ''fftd_v'' then 8 else if fn = ''ImageExpSum'' then 7 else 4)"

definition out_arg :: "string \<Rightarrow> nat" where
  "out_arg fn = (if fn = ''fftd_h'' \<or> fn = ''fftd_v'' \<or> fn = ''InvRealSum'' then 1 else 2)"

definition arg_val :: "gst \<Rightarrow> cm_kernel \<Rightarrow> nat \<Rightarrow> kval option" where
  "arg_val s kr i = (case kargs kr i of
       Some (Surf x n) \<Rightarrow> (case surfs s x of None \<Rightarrow> None
          | Some sf \<Rightarrow> if sid sf \<noteq> n then None
                       else Some (if i = out_arg (kfun kr) then Out else Data (surf_data s sf)))
     | Some (Num v) \<Rightarrow> Some (VNum v) | Some (Flt f) \<Rightarrow> Some (VFlt f) | Some (Flag b) \<Rightarrow> Some (VFlag b) | None \<Rightarrow> None)"

definition exec_kernel :: "gpu_env \<Rightarrow> bool \<Rightarrow> kname \<Rightarrow> gst \<Rightarrow> gst option" where
  "exec_kernel E own k s = do {
     kr \<leftarrow> kernels s k;
     (if \<not> own then Some () else case kspace kr of None \<Rightarrow> Some ()
        | Some (t, i) \<Rightarrow> if spaces s t = Some i then Some () else None);
     vs \<leftarrow> mapm (arg_val s kr) [0..<arity (kfun kr)];
     (case kargs kr (out_arg (kfun kr)) of
        Some (Surf x n) \<Rightarrow> do { sf \<leftarrow> surfs s x; Some (put_surf x sf (Floats (gpu_kernel E (kfun kr) vs)) s) }
      | _ \<Rightarrow> None) }"

text \<open>A task runs its kernels with a barrier after each \<^verbatim>\<open>AddSync\<close>; kernels with no barrier between
  them would run side by side and are not given a meaning here.\<close>

fun exec_task :: "gpu_env \<Rightarrow> bool \<Rightarrow> entry list \<Rightarrow> gst \<Rightarrow> gst option" where
  "exec_task E own [] s = Some s"
| "exec_task E own (Sync # es) s = exec_task E own es s"
| "exec_task E own [Run k] s = exec_kernel E own k s"
| "exec_task E own (Run k # Run k' # es) s = None"
| "exec_task E own (Run k # Sync # es) s = do { s1 \<leftarrow> exec_kernel E own k s; exec_task E own es s1 }"

text \<open>\<^verbatim>\<open>Enqueue\<close>: the queue works in order, so the task is executed here; \<open>t\<close> is the thread space given with
  the call, without it every kernel uses the one associated with it.\<close>

definition Enqueue :: "gpu_env \<Rightarrow> qname \<Rightarrow> tname option \<Rightarrow> step" where
  "Enqueue E q t s = (if \<not> queue s then Fault else case tasks s q of None \<Rightarrow> Fault
     | Some es \<Rightarrow> (if (case t of None \<Rightarrow> False | Some t' \<Rightarrow> spaces s t' = None) then Fault
        else if dev_ok E (clock s) then
          (case exec_task E (t = None) es (s\<lparr>clock := Suc (clock s)\<rparr>) of None \<Rightarrow> Fault | Some s1 \<Rightarrow> Next s1)
        else Return (- 1) (s\<lparr>clock := Suc (clock s)\<rparr>)))"

end
