(* ===== verification/KcfGpu.thy ===== *)
theory KcfGpu
  imports CmDevice
begin

text \<open>
  \<^verbatim>\<open>kcftracker.cpp\<close>: the Gaussian correlation of two feature maps on the GPU. \<open>initMDF\<close> sets up the
  device, the program and the task; \<open>gpu_gaussianCorrelation\<close> makes the surfaces and kernels the first
  time or when the sizes change, wires the eight kernels of the task, runs it, and then runs the two
  kernels of the sums. It is cut into the stages that its comments mark, in their order.

  The functions \<^verbatim>\<open>Call_*\<close> and \<^verbatim>\<open>gpu_gaussianCorrelation\<close> are declared \<^verbatim>\<open>int\<close> and run off their end
  after success, which C++ leaves undefined although no caller looks at the value. The model has that end as a
  step of its own, \<open>off_end\<close>: a fault, unless the environment says that the build lets such functions return.
\<close>

section \<open>Initialisation\<close>

definition no_cfg :: sPerfProfileParam where
  "no_cfg = \<lparr>usInWidth = 0, usInHeight = 0, usOutWidth = 0, usOutHeight = 0, usPitchX = 0, usPitchY = 0,
     usPitchZ = 0, ucChannel = 0, bInv = False, fScale = 0, usWalkerPattern = 0\<rparr>"

definition null_members :: "gst \<Rightarrow> gst" where
  "null_members s = s\<lparr>kernels := Map.empty, surfs := Map.empty, hosts := Map.empty,
     tasks := Map.empty, queue := False, program := False,
     gPitchX := 0, gPitchY := 0, gPitchZ := 0, gWidth := 0, gHeight := 0, nfx := 0, nfy := 0\<rparr>"

text \<open>The input and output calls of the code file; \<^verbatim>\<open>fopen\<close> ends the process when it fails.\<close>

definition open_isa :: "gpu_env \<Rightarrow> step" where
  "open_isa E s = (let s1 = s\<lparr>clock := Suc (clock s)\<rparr> in if dev_ok E (clock s) then Next s1 else Exit (- 1) s1)"

definition initMDF :: "gpu_env \<Rightarrow> bool \<Rightarrow> step" where
  "initMDF E va_dpy = run [
     \<lambda>s. if va_dpy then Next s else Return (- 1) s,
     guarded (\<lambda>s. \<not> device s) [checked_call E (\<lambda>s. s\<lparr>device := True\<rparr>), checked_call E id],
     set_st null_members,
     guarded (\<lambda>s. \<not> program s) [
       open_isa E,
       checked_call E id,
       guarded (\<lambda>s. \<not> isa_code s) [checked_call E (\<lambda>s. s\<lparr>isa_code := True\<rparr>), checked_call E id],
       checked_call E (\<lambda>s. s\<lparr>program := True\<rparr>),
       set_st (\<lambda>s. s\<lparr>isa_code := False\<rparr>)],
     guarded (\<lambda>s. tasks s pKernelArray = None) [checked_call E (CreateTask pKernelArray)],
     guarded (\<lambda>s. \<not> queue s) [checked_call E (\<lambda>s. s\<lparr>queue := True\<rparr>)],
     (\<lambda>s. Return 0 s)]"

section \<open>The wiring of one kernel\<close>

definition uint32 :: "int \<Rightarrow> int" where "uint32 v = v mod 2 ^ 32"

text \<open>A product of \<^verbatim>\<open>int\<close> values that does not fit is undefined.\<close>

definition fits :: "(gst \<Rightarrow> int) \<Rightarrow> step" where
  "fits v = need (\<lambda>s. int_ok (v s))"

definition HORIZONTAL_WALKER :: int where "HORIZONTAL_WALKER = 0"

definition threads :: "gpu_env \<Rightarrow> kname \<Rightarrow> tname \<Rightarrow> (gst \<Rightarrow> int) \<Rightarrow> (gst \<Rightarrow> int) \<Rightarrow> step" where
  "threads E k t w h = run [
     fits (\<lambda>s. w s * h s),
     SetThreadCount k (\<lambda>s. w s * h s),
     CreateThreadSpace E t,
     SelectWalk t (\<lambda>s. usWalkerPattern (cfg s) = HORIZONTAL_WALKER)]"

text \<open>The common body of the functions \<^verbatim>\<open>Call_*\<close> of the task: thread count and thread space, the indices of
  the surfaces, the arguments in order, and the association.\<close>

definition wire :: "gpu_env \<Rightarrow> kname \<Rightarrow> tname \<Rightarrow> (gst \<Rightarrow> int) \<Rightarrow> (gst \<Rightarrow> int) \<Rightarrow> sname list \<Rightarrow>
    (gst \<Rightarrow> karg option) list \<Rightarrow> step" where
  "wire E k t w h xs as = ignore (run (threads E k t w h # map GetIndex xs @ [set_args k 0 as, AssociateThreadSpace E k t, off_end E]))"

definition Call_DFT_FWD_H :: "gpu_env \<Rightarrow> kname \<Rightarrow> sname \<Rightarrow> sname \<Rightarrow> sname \<Rightarrow> tname \<Rightarrow> step" where
  "Call_DFT_FWD_H E k inp par outp t =
     wire E k t (\<lambda>s. usPitchY (cfg s)) (\<lambda>s. usPitchZ (cfg s)) [inp, outp, par]
       [surf_arg inp, surf_arg outp, surf_arg par,
        num_arg (\<lambda>s. usPitchX (cfg s)),
        num_arg (\<lambda>s. usPitchY (cfg s)),
        (\<lambda>_. Some (Flt 1)),
        num_arg nfx,
        num_arg (\<lambda>s. ucChannel (cfg s)),
        (\<lambda>s. Some (Flag (bInv (cfg s))))]"

definition Call_DFT_FWD_V :: "gpu_env \<Rightarrow> kname \<Rightarrow> sname \<Rightarrow> sname \<Rightarrow> sname \<Rightarrow> tname \<Rightarrow> step" where
  "Call_DFT_FWD_V E k inp par outp t =
     wire E k t (\<lambda>s. usPitchX (cfg s) div 2) (\<lambda>s. usPitchZ (cfg s)) [inp, outp, par]
       [surf_arg inp, surf_arg outp, surf_arg par,
        num_arg (\<lambda>s. usPitchX (cfg s)),
        num_arg (\<lambda>s. usPitchY (cfg s)),
        (\<lambda>s. Some (Flt (fScale (cfg s)))),
        num_arg nfy,
        (\<lambda>s. Some (Flag (bInv (cfg s))))]"

definition uPitch :: "gst \<Rightarrow> karg option" where
  "uPitch s = (let p = usPitchX (cfg s) * usPitchY (cfg s) * 8 in if int_ok p then Some (Num p) else None)"

definition Call_MulSpec :: "gpu_env \<Rightarrow> kname \<Rightarrow> sname \<Rightarrow> sname \<Rightarrow> sname \<Rightarrow> tname \<Rightarrow> step" where
  "Call_MulSpec E k inp0 inp1 outp t =
     wire E k t (\<lambda>s. (usOutWidth (cfg s) + 7) div 8) (\<lambda>s. usOutHeight (cfg s)) [inp0, inp1, outp]
       [surf_arg inp0, surf_arg inp1, surf_arg outp, uPitch]"

definition Call_ImageSum :: "gpu_env \<Rightarrow> kname \<Rightarrow> sname \<Rightarrow> sname \<Rightarrow> tname \<Rightarrow> step" where
  "Call_ImageSum E k inp outp t =
     wire E k t (\<lambda>s. (usOutWidth (cfg s) + 7) div 8) (\<lambda>_. 1) [inp, outp]
       [surf_arg inp, surf_arg outp, uPitch, num_arg (\<lambda>s. usPitchZ (cfg s))]"

text \<open>A task of one kernel with its own thread space, as the two functions of the sums make it.\<close>

definition set_event :: "ename \<Rightarrow> bool \<Rightarrow> step" where
  "set_event e b = set_st (\<lambda>s. s\<lparr>events := (events s)(e := b)\<rparr>)"

definition ensure_queue :: "gpu_env \<Rightarrow> step" where
  "ensure_queue E = guarded (\<lambda>s. \<not> queue s) [checked_call E (\<lambda>s. s\<lparr>queue := True\<rparr>)]"

definition single_task :: "gpu_env \<Rightarrow> qname \<Rightarrow> kname \<Rightarrow> tname \<Rightarrow> ename \<Rightarrow> step \<Rightarrow> step" where
  "single_task E q k t e get = run [
     ensure_queue E,
     checked_call E (CreateTask q),
     AddKernel E q k,
     Enqueue E q (Some t),
     set_event e True,
     get,
     DestroyThreadSpace t,
     set_event e False,
     DestroyTask q]"

definition ReadSurface :: "gpu_env \<Rightarrow> sname \<Rightarrow> step" where
  "ReadSurface E x s = (case surfs s x of None \<Rightarrow> Fault
     | Some sf \<Rightarrow> checked_call E (\<lambda>s1. s1\<lparr>outbuf := surf_data s1 sf\<rparr>) s)"

definition Call_SrcImageSum :: "gpu_env \<Rightarrow> sname \<Rightarrow> sname \<Rightarrow> sname \<Rightarrow> step" where
  "Call_SrcImageSum E inp0 inp1 outp = ignore (body [pTS_SrcImageSum] [pKernelArrayTmp] [e_SrcImageSum] [
     guarded (\<lambda>s. kernels s kernelSrcImageSum = None)
       [need program, checked_call E (CreateKernel kernelSrcImageSum ''SrcImageSum'')],
     threads E kernelSrcImageSum pTS_SrcImageSum (\<lambda>s. (usInWidth (cfg s) + 7) div 8) (\<lambda>s. 1),
     GetIndex inp0, GetIndex inp1, GetIndex outp,
     set_args kernelSrcImageSum 0
       [surf_arg inp0, surf_arg inp1, surf_arg outp, num_arg (\<lambda>s. usPitchZ (cfg s))],
     single_task E pKernelArrayTmp kernelSrcImageSum pTS_SrcImageSum e_SrcImageSum (checked_call E id),
     off_end E])"

text \<open>The array \<^verbatim>\<open>sum\<close> of eight numbers, of which the first is computed.\<close>

definition sum8 :: "f32 \<Rightarrow> content" where
  "sum8 v = Floats (\<lambda>i. if i = 0 then v else 0)"

definition Call_FianlExpImageSum :: "gpu_env \<Rightarrow> sname \<Rightarrow> step" where
  "Call_FianlExpImageSum E inp = ignore (body [pTS_Final] [pKernelArray_Final] [e_Final] [
     guarded (\<lambda>s. kernels s kernelFinalExp = None)
       [need program, checked_call E (CreateKernel kernelFinalExp ''ImageExpSum'')],
     guarded (\<lambda>s. surfs s pInputSumSurf = None) [checked_call E (new_surf pInputSumSurf (Bytes (8 * 4)))],
     WriteSurface E pInputSumSurf (\<lambda>s. sum8 (l_sum s)),
     fits (\<lambda>s. usPitchX (cfg s) * usPitchY (cfg s)),
     remake E (\<lambda>s. usPitchX (cfg s) \<noteq> gPitchX s \<or> usPitchY (cfg s) \<noteq> gPitchY s) pOutputFinalSurf
       (\<lambda>s. Bytes (uint32 (usPitchX (cfg s) * usPitchY (cfg s) * 4))),
     threads E kernelFinalExp pTS_Final (\<lambda>s. (usOutWidth (cfg s) + 15) div 16) (\<lambda>s. 1),
     GetIndex inp, GetIndex pInputSumSurf, GetIndex pOutputFinalSurf,
     set_args kernelFinalExp 0
       [surf_arg inp, surf_arg pInputSumSurf, surf_arg pOutputFinalSurf,
        num_arg (\<lambda>s. usPitchX (cfg s)), num_arg (\<lambda>s. usPitchY (cfg s)), num_arg (\<lambda>s. usPitchZ (cfg s)),
        (\<lambda>_. Some (Flt (rnd 24 (6 / 10))))],
     single_task E pKernelArray_Final kernelFinalExp pTS_Final e_Final (ReadSurface E pOutputFinalSurf),
     off_end E])"

section \<open>The stages of the correlation\<close>

definition gc_config :: "int \<Rightarrow> int \<Rightarrow> int \<Rightarrow> int \<Rightarrow> int \<Rightarrow> int \<Rightarrow> step" where
  "gc_config usWidth usHeight uChannel px py pz = run [
     fits (\<lambda>_. usWidth * usHeight),
     set_st (\<lambda>s. s\<lparr>l_factor := replicate 8 0, l_itab := replicate 32 0, l_wave := replicate 64 0,
       cfg := (cfg s)\<lparr>bInv := False, ucChannel := uChannel, usInHeight := usHeight, usOutHeight := usHeight,
         usInWidth := usWidth, usOutWidth := usWidth, usPitchX := px, usPitchY := py, usPitchZ := pz, fScale := 1\<rparr>\<rparr>)]"

definition new_size :: "gst \<Rightarrow> bool" where
  "new_size s \<longleftrightarrow> gWidth s \<noteq> usOutWidth (cfg s) \<or> gHeight s \<noteq> usOutHeight (cfg s)"

definition new_size_in :: "gst \<Rightarrow> bool" where
  "new_size_in s \<longleftrightarrow> usOutWidth (cfg s) \<noteq> gWidth s \<or> usInHeight (cfg s) \<noteq> gHeight s"

definition complex_bytes :: "gst \<Rightarrow> dims" where
  "complex_bytes s = Bytes (uint32 (usOutWidth (cfg s) * usOutHeight (cfg s) * 4 * 2))"

definition gc_buffer_H0 :: "gpu_env \<Rightarrow> step" where
  "gc_buffer_H0 E = remake E new_size pOutputSurf_H_F_0 complex_bytes"

text \<open>The input surfaces. The result of the first of the two calls is overwritten by the second.\<close>

definition gc_create_inputs :: "gpu_env \<Rightarrow> step" where
  "gc_create_inputs E s = run [
     \<lambda>s. tried E (new_surf pInputSurf0 (if \<not> bInv (cfg s) then Pixels (usInWidth (cfg s)) (usInHeight (cfg s))
            else Pixels (usInWidth (cfg s) * 2) (usInHeight (cfg s)))) s,
     \<lambda>s. checked_call E (new_surf pInputSurf1 (if \<not> bInv (cfg s) then Pixels (usInWidth (cfg s)) (usInHeight (cfg s))
            else Pixels (usInWidth (cfg s) * 2) (usInHeight (cfg s)))) s] s"

definition gc_inputs :: "gpu_env \<Rightarrow> content \<Rightarrow> content \<Rightarrow> step" where
  "gc_inputs E x1 x2 = run [
     guarded (\<lambda>s. surfs s pInputSurf0 = None \<or> surfs s pInputSurf1 = None \<or> new_size s) [
       guarded (\<lambda>s. surfs s pInputSurf0 \<noteq> None) [DestroySurface pInputSurf0],
       guarded (\<lambda>s. surfs s pInputSurf1 \<noteq> None) [DestroySurface pInputSurf1],
       gc_create_inputs E],
     WriteSurface E pInputSurf0 (\<lambda>_. x1),
     WriteSurface E pInputSurf1 (\<lambda>_. x2)]"

text \<open>The tables of a transform of length \<open>n\<close>, and the block of 320 bytes made of them; \<open>gap\<close> is what the
  bytes between the permutation and the factors hold.\<close>

definition table_bytes :: "int \<Rightarrow> int list \<Rightarrow> int option \<Rightarrow> int option list option" where
  "table_bytes n itab gap = (if int (length itab) < n then None
     else Some (map (\<lambda>i. if int i < n then Some (itab ! i mod 256) else gap) [0..<32]))"

definition table_result :: "gpu_env \<Rightarrow> int \<Rightarrow> int option \<Rightarrow> int list \<Rightarrow> int list \<Rightarrow> f32 list \<Rightarrow>
    (int list \<times> int \<times> int list \<times> f32 list \<times> int option list) option" where
  "table_result E n gap factor itab wave = do {
     (fs, nf) \<leftarrow> DFTFactorize n factor;
     (it, wv) \<leftarrow> DFTInit (sin_d E) (sqrt_d E) n nf fs itab wave;
     bs \<leftarrow> table_bytes n it gap;
     Some (fs, nf, it, wv, bs) }"

definition fill_table :: "gpu_env \<Rightarrow> int \<Rightarrow> hname \<Rightarrow> int option \<Rightarrow> (int \<Rightarrow> gst \<Rightarrow> gst) \<Rightarrow> sname \<Rightarrow> step" where
  "fill_table E n h gap set_nf up s =
     (case table_result E n gap (l_factor s) (l_itab s) (l_wave s) of
        None \<Rightarrow> Fault
      | Some (fs, nf, it, wv, bs) \<Rightarrow>
          run [set_st (\<lambda>s. set_nf nf (s\<lparr>l_factor := fs, l_itab := it, l_wave := wv\<rparr>)),
               guarded (\<lambda>s. hosts s h \<noteq> None) [set_st (\<lambda>s. s\<lparr>hosts := (hosts s)(h := None)\<rparr>), DestroySurface up],
               (\<lambda>s. let s1 = s\<lparr>clock := Suc (clock s)\<rparr> in if dev_ok E (clock s)
                  then Next (s1\<lparr>hosts := (hosts s1)(h \<mapsto> (320, Some (Table wv bs fs)))\<rparr>) else Fault),
               tried E (new_surf up (UP 320 h))] s)"

definition gc_table_H :: "gpu_env \<Rightarrow> step" where
  "gc_table_H E = guarded (\<lambda>s. gPitchX s \<noteq> usPitchX (cfg s)) [
     \<lambda>s. fill_table E (usPitchX (cfg s)) pParamBufferULTH None (\<lambda>nf s. s\<lparr>nfx := nf\<rparr>) pParamSurfHUP s]"

definition gc_table_V :: "gpu_env \<Rightarrow> step" where
  "gc_table_V E = guarded (\<lambda>s. gPitchY s \<noteq> usPitchY (cfg s)) [
     set_st (\<lambda>s. s\<lparr>l_factor := replicate 8 0, l_itab := replicate 8 0 @ drop 8 (l_itab s), l_wave := replicate 64 0\<rparr>),
     \<lambda>s. fill_table E (usPitchY (cfg s)) pParamBufferULTV (Some 0) (\<lambda>nf s. s\<lparr>nfy := nf\<rparr>) pParamBufferV s]"

text \<open>A kernel is created once and added to the task with a barrier; the result of \<^verbatim>\<open>AddKernel\<close> is
  overwritten by that of \<^verbatim>\<open>AddSync\<close>.\<close>

definition ensure_kernel :: "gpu_env \<Rightarrow> kname \<Rightarrow> string \<Rightarrow> step" where
  "ensure_kernel E k fn = guarded (\<lambda>s. kernels s k = None) [
     need program, checked_call E (CreateKernel k fn), AddKernel_tried E pKernelArray k, AddSync E pKernelArray]"

definition gc_stage_H0 :: "gpu_env \<Rightarrow> step" where
  "gc_stage_H0 E = run [
     ensure_kernel E kernel_H_F_0 ''fftd_h'',
     Call_DFT_FWD_H E kernel_H_F_0 pInputSurf0 pParamSurfHUP pOutputSurf_H_F_0 pTS0]"

definition gc_stage_V0 :: "gpu_env \<Rightarrow> step" where
  "gc_stage_V0 E = run [
     remake E new_size_in pOutputSurf_V_F_0 complex_bytes,
     ensure_kernel E kernel_V_F_0 ''fftd_v'',
     Call_DFT_FWD_V E kernel_V_F_0 pOutputSurf_H_F_0 pParamBufferV pOutputSurf_V_F_0 pTS1]"

definition gc_stage_H1 :: "gpu_env \<Rightarrow> step" where
  "gc_stage_H1 E = run [
     remake E new_size_in pOutputSurf_H_F_1 complex_bytes,
     ensure_kernel E kernel_H_F_1 ''fftd_h'',
     Call_DFT_FWD_H E kernel_H_F_1 pInputSurf1 pParamSurfHUP pOutputSurf_H_F_1 pTS2]"

definition gc_stage_V1 :: "gpu_env \<Rightarrow> step" where
  "gc_stage_V1 E = run [
     remake E new_size_in pOutputSurf_V_F_1 complex_bytes,
     ensure_kernel E kernel_V_F_1 ''fftd_v'',
     Call_DFT_FWD_V E kernel_V_F_1 pOutputSurf_H_F_1 pParamBufferV pOutputSurf_V_F_1 pTS3]"

definition gc_stage_mul :: "gpu_env \<Rightarrow> step" where
  "gc_stage_mul E = run [
     remake E new_size pMulSpectrumSurf (\<lambda>s. Pixels (usOutWidth (cfg s) * 2) (usOutHeight (cfg s))),
     guarded (\<lambda>s. kernels s kernel_MulSpec = None) [
       need program, tried E (CreateKernel kernel_MulSpec ''mulSpectrums''),
       AddKernel_tried E pKernelArray kernel_MulSpec, AddSync E pKernelArray],
     Call_MulSpec E kernel_MulSpec pOutputSurf_V_F_0 pOutputSurf_V_F_1 pMulSpectrumSurf pTS4]"

definition gc_stage_invH :: "gpu_env \<Rightarrow> step" where
  "gc_stage_invH E = run [
     set_st (\<lambda>s. s\<lparr>cfg := (cfg s)\<lparr>bInv := True\<rparr>\<rparr>),
     remake E new_size_in pOutputSurf_H_V_1 complex_bytes,
     ensure_kernel E kernel_H_I ''fftd_h'',
     Call_DFT_FWD_H E kernel_H_I pMulSpectrumSurf pParamSurfHUP pOutputSurf_H_V_1 pTS_DFT_FWD_H]"

definition gc_stage_invV :: "gpu_env \<Rightarrow> step" where
  "gc_stage_invV E = run [
     remake E new_size_in pOutputSurf_V_V_1 complex_bytes,
     ensure_kernel E kernel_V_I ''fftd_v'',
     need (\<lambda>s. int_ok (usPitchX (cfg s) * usPitchY (cfg s)) \<and> usPitchX (cfg s) * usPitchY (cfg s) \<noteq> 0),
     set_st (\<lambda>s. s\<lparr>cfg := (cfg s)\<lparr>fScale := fdiv 1 (i2f (usPitchX (cfg s) * usPitchY (cfg s)))\<rparr>\<rparr>),
     Call_DFT_FWD_V E kernel_V_I pOutputSurf_H_V_1 pParamBufferV pOutputSurf_V_V_1 pTS_DFT_FWD_V]"

definition gc_stage_sum :: "gpu_env \<Rightarrow> step" where
  "gc_stage_sum E = run [
     remake E new_size_in pOutputInvSumSurf (\<lambda>s. Bytes (uint32 (usPitchX (cfg s) * usPitchY (cfg s) * 4))),
     ensure_kernel E kernel_ImageSum ''InvRealSum'',
     Call_ImageSum E kernel_ImageSum pOutputSurf_V_V_1 pOutputInvSumSurf pTSImageSum]"

text \<open>The sum over the squares of both inputs: a kernel adds up columns in host memory, the program adds
  up the results.\<close>

definition host_sum :: step where
  "host_sum s = (case hosts s SrcImageSumBuffer of
       Some (n, Some (Floats f)) \<Rightarrow>
         (if usOutWidth (cfg s) * 4 \<le> n
          then Next (s\<lparr>l_sum := fold (\<lambda>i a. fadd a (f i)) [0..<nat (usOutWidth (cfg s))] 0\<rparr>) else Fault)
     | _ \<Rightarrow> Fault)"

definition gc_source_sum :: "gpu_env \<Rightarrow> step" where
  "gc_source_sum E = run [
     guarded (\<lambda>s. hosts s SrcImageSumBuffer = None \<or> usOutWidth (cfg s) \<noteq> gWidth s) [
       guarded (\<lambda>s. hosts s SrcImageSumBuffer \<noteq> None) [
         set_st (\<lambda>s. s\<lparr>hosts := (hosts s)(SrcImageSumBuffer := None)\<rparr>), DestroySurface pSrcImageSumBufferUp],
       tried E (\<lambda>s. s\<lparr>hosts := (hosts s)(SrcImageSumBuffer \<mapsto> (usOutWidth (cfg s) * 4, None))\<rparr>),
       (\<lambda>s. tried E (new_surf pSrcImageSumBufferUp (UP (usOutWidth (cfg s) * 4) SrcImageSumBuffer)) s)],
     Call_SrcImageSum E pInputSurf0 pInputSurf1 pSrcImageSumBufferUp,
     host_sum]"

definition gc_finish :: "gpu_env \<Rightarrow> step" where
  "gc_finish E = run [
     Call_FianlExpImageSum E pOutputInvSumSurf,
     DestroyThreadSpace pTS0, DestroyThreadSpace pTS1, DestroyThreadSpace pTS2, DestroyThreadSpace pTS3,
     DestroyThreadSpace pTS4, DestroyThreadSpace pTS_DFT_FWD_H, DestroyThreadSpace pTSImageSum,
     DestroyThreadSpace pTS_DFT_FWD_V,
     set_st (\<lambda>s. s\<lparr>gWidth := usOutWidth (cfg s), gHeight := usOutHeight (cfg s), gPitchX := usPitchX (cfg s),
       gPitchY := usPitchY (cfg s), gPitchZ := usPitchZ (cfg s)\<rparr>)]"

definition gc_stages :: "gpu_env \<Rightarrow> step list" where
  "gc_stages E = [gc_table_H E, gc_stage_H0 E, gc_table_V E, gc_stage_V0 E, gc_stage_H1 E, gc_stage_V1 E, gc_stage_mul E,
     gc_stage_invH E, gc_stage_invV E, gc_stage_sum E]"

definition gpu_gaussianCorrelation ::
  "gpu_env \<Rightarrow> content \<Rightarrow> content \<Rightarrow> int \<Rightarrow> int \<Rightarrow> int \<Rightarrow> int \<Rightarrow> int \<Rightarrow> int \<Rightarrow> step" where
  "gpu_gaussianCorrelation E x1 x2 usWidth usHeight uChannel px py pz =
     body [pTS0, pTS1, pTS2, pTS3, pTS4, pTS_DFT_FWD_H, pTSImageSum, pTS_DFT_FWD_V] [] []
       ([gc_config usWidth usHeight uChannel px py pz, gc_buffer_H0 E, gc_inputs E x1 x2] @ gc_stages E @
        [Enqueue E pKernelArray None, gc_source_sum E, gc_finish E, off_end E])"

text \<open>The caller: the sizes of the feature maps and of the patch become \<^verbatim>\<open>unsigned short\<close>; the result is
  written into a matrix of zeros of the size of the patch.\<close>

definition ushort :: "int \<Rightarrow> int" where "ushort v = v mod 2 ^ 16"

definition gaussianCorrelation_gpu ::
  "gpu_env \<Rightarrow> (nat \<Rightarrow> f32) \<Rightarrow> (nat \<Rightarrow> f32) \<Rightarrow> int \<Rightarrow> int \<Rightarrow> int \<Rightarrow> int \<Rightarrow> int \<Rightarrow> step" where
  "gaussianCorrelation_gpu E x1 x2 cols rows patch_y patch_x patch_n = run [
     set_st (\<lambda>s. s\<lparr>outbuf := Some (Floats (\<lambda>_. 0))\<rparr>),
     ignore (gpu_gaussianCorrelation E (Floats x1) (Floats x2) (ushort cols) (ushort rows) 1
       (ushort patch_x) (ushort patch_y) (ushort patch_n))]"

end
