(* ===== verification/KcfGpuSteps.thy ===== *)
theory KcfGpuSteps
  imports KcfGpu
begin

text \<open>
  Symbolic execution of the device steps when no call fails, and the state between two stages of the
  correlation. \<open>wired\<close>, \<open>remade\<close> and \<open>ensured\<close> are the three idioms of the code as functions of the state; \<open>armed\<close> says
  that a kernel's function, arguments and thread space are in place; \<open>staging b j l M A\<close> is the invariant after
  \<open>j\<close> kernels have been created and wired and the surfaces \<open>M\<close> brought to their new size (\<open>b\<close>: this is not the
  first call). \<open>make_step\<close> and \<open>arm_step\<close> carry it over the making of a surface and of a kernel.
\<close>

section \<open>Runs without a failed call\<close>

text \<open>Every call of the runtime succeeds, and the build lets a function run off its end.\<close>

definition all_ok :: "gpu_env \<Rightarrow> bool" where
  "all_ok E \<longleftrightarrow> (\<forall>n. dev_ok E n) \<and> falls_off E"

lemma calls_ok [gpu_simps]:
  assumes "all_ok E"
  shows "checked_call E f s = Next (f (s\<lparr>clock := Suc (clock s)\<rparr>))"
    and "tried E f s = Next (f (s\<lparr>clock := Suc (clock s)\<rparr>))"
    and "off_end E s = Next s"
  using assms by (simp_all add: all_ok_def checked_call_def tried_def off_end_def Let_def)

lemma step_simps [gpu_simps]:
  "fits v s = (if int_ok (v s) then Next s else Fault)"
  "GetIndex x s = (if surfs s x = None then Fault else Next s)"
  by (simp_all add: need_def fits_def GetIndex_def)

primrec put_from :: "nat \<Rightarrow> karg list \<Rightarrow> (nat \<Rightarrow> karg option) \<Rightarrow> nat \<Rightarrow> karg option" where
  "put_from i [] m = m"
| "put_from i (v # vs) m = put_from (Suc i) vs (m(i \<mapsto> v))"

lemma put_from_nth: "put_from i vs m j = (if i \<le> j \<and> j < i + length vs then Some (vs ! (j - i)) else m j)"
proof (induction vs arbitrary: i m)
  case (Cons v vs)
  then show ?case by (cases "j = i") (auto simp: nth_Cons' Suc_diff_Suc)
qed auto

text \<open>Argument values that do not depend on what the wiring itself changes.\<close>

definition arg_stable :: "(gst \<Rightarrow> karg option) \<Rightarrow> bool" where
  "arg_stable a \<longleftrightarrow> (\<forall>s K sp wk id ck. a (s\<lparr>kernels := K, spaces := sp, walk := wk, clock := ck, ident := id\<rparr>) = a s)"

lemma set_args_ok:
  assumes "kernels s k = Some kr" and "\<forall>a\<in>set as. a s \<noteq> None"
    and "\<forall>a\<in>set as. \<forall>K. a (s\<lparr>kernels := K\<rparr>) = a s"
  shows "set_args k i as s =
    Next (s\<lparr>kernels := (kernels s)(k \<mapsto> kr\<lparr>kargs := put_from i (map (\<lambda>a. the (a s)) as) (kargs kr)\<rparr>)\<rparr>)"
  using assms
proof (induction as arbitrary: i s kr)
  case Nil
  then have "(kernels s)(k \<mapsto> kr) = kernels s" by auto
  then show ?case by simp
next
  case (Cons a as)
  obtain v where v: "a s = Some v" using Cons.prems(2) by auto
  define s1 where "s1 = s\<lparr>kernels := (kernels s)(k \<mapsto> kr\<lparr>kargs := (kargs kr)(i \<mapsto> v)\<rparr>)\<rparr>"
  have st: "b s1 = b s" if "b \<in> set as" for b
    using that Cons.prems(3) by (simp add: s1_def)
  have k1: "kernels s1 k = Some (kr\<lparr>kargs := (kargs kr)(i \<mapsto> v)\<rparr>)" by (simp add: s1_def)
  have p2: "\<forall>b\<in>set as. b s1 \<noteq> None" using st Cons.prems(2) by (metis list.set_intros(2))
  have p3: "\<forall>b\<in>set as. \<forall>K. b (s1\<lparr>kernels := K\<rparr>) = b s1"
  proof (intro ballI allI)
    fix b K assume "b \<in> set as"
    then have b: "b (s\<lparr>kernels := L\<rparr>) = b s" for L using Cons.prems(3) by simp
    have "b (s1\<lparr>kernels := K\<rparr>) = b (s\<lparr>kernels := K\<rparr>)" by (simp add: s1_def)
    also have "\<dots> = b s1" unfolding s1_def by (simp only: b)
    finally show "b (s1\<lparr>kernels := K\<rparr>) = b s1" .
  qed
  have m: "map (\<lambda>b. the (b s1)) as = map (\<lambda>b. the (b s)) as" using st by (metis (no_types, lifting) map_cong)
  have "SetKernelArg k i a s = Next s1"
    using Cons.prems(1) v by (simp add: SetKernelArg_def on_kernel_def s1_def)
  then have "set_args k i (a # as) s = set_args k (Suc i) as s1" by (simp split: outcome.splits)
  moreover have "s1\<lparr>kernels := (kernels s1)(k \<mapsto> (kr\<lparr>kargs := (kargs kr)(i \<mapsto> v)\<rparr>)
      \<lparr>kargs := put_from (Suc i) (map (\<lambda>b. the (b s1)) as) (kargs (kr\<lparr>kargs := (kargs kr)(i \<mapsto> v)\<rparr>))\<rparr>)\<rparr> =
    s\<lparr>kernels := (kernels s)(k \<mapsto> kr\<lparr>kargs := put_from i (map (\<lambda>a. the (a s)) (a # as)) (kargs kr)\<rparr>)\<rparr>"
    unfolding m by (simp add: s1_def v)
  moreover note Cons.IH [OF k1 p2 p3, of "Suc i"]
  ultimately show ?case by (simp only:)
qed

definition wired :: "kname \<Rightarrow> tname \<Rightarrow> (gst \<Rightarrow> int) \<Rightarrow> (gst \<Rightarrow> int) \<Rightarrow> (gst \<Rightarrow> karg option) list \<Rightarrow> gst \<Rightarrow> gst" where
  "wired k t w h as s = s\<lparr>
     kernels := (kernels s)(k \<mapsto> (the (kernels s k))\<lparr>kcount := w s * h s,
        kargs := put_from 0 (map (\<lambda>a. the (a s)) as) (kargs (the (kernels s k))), kspace := Some (t, ident s)\<rparr>),
     spaces := (spaces s)(t \<mapsto> ident s), walk := (walk s)(t := usWalkerPattern (cfg s) = HORIZONTAL_WALKER),
     clock := Suc (Suc (clock s)), ident := Suc (ident s)\<rparr>"

lemma run_GetIndex: "\<forall>x\<in>set xs. surfs s x \<noteq> None \<Longrightarrow> run (map GetIndex xs @ fs) s = run fs s"
  by (induction xs) (auto simp: gpu_simps)

definition threaded :: "kname \<Rightarrow> tname \<Rightarrow> int \<Rightarrow> cm_kernel \<Rightarrow> gst \<Rightarrow> gst" where
  "threaded k t n kr s = s\<lparr>kernels := (kernels s)(k \<mapsto> kr\<lparr>kcount := n\<rparr>), spaces := (spaces s)(t \<mapsto> ident s),
     walk := (walk s)(t := usWalkerPattern (cfg s) = HORIZONTAL_WALKER), clock := Suc (clock s), ident := Suc (ident s)\<rparr>"

lemma threads_ok:
  assumes "all_ok E" "kernels s k = Some kr" "int_ok (w s * h s)"
  shows "threads E k t w h s = Next (threaded k t (w s * h s) kr s)"
  using assms by (simp add: threads_def gpu_simps threaded_def SetThreadCount_def on_kernel_def CreateThreadSpace_def SelectWalk_def)

lemma wire_ok:
  assumes E: "all_ok E" and k: "kernels s k = Some kr" and n: "int_ok (w s * h s)"
    and xs: "\<forall>x\<in>set xs. surfs s x \<noteq> None"
    and as: "\<forall>a\<in>set as. a s \<noteq> None" and st: "\<forall>a\<in>set as. arg_stable a"
  shows "wire E k t w h xs as s = Next (wired k t w h as s)"
proof -
  let ?s1 = "threaded k t (w s * h s) kr s"
  have e: "?s1\<lparr>kernels := K\<rparr> = s\<lparr>kernels := K, spaces := (spaces s)(t \<mapsto> ident s),
     walk := (walk s)(t := usWalkerPattern (cfg s) = HORIZONTAL_WALKER), clock := Suc (clock s), ident := Suc (ident s)\<rparr>" for K
    by (cases s) (simp add: threaded_def)
  have a1: "a (?s1\<lparr>kernels := K\<rparr>) = a s" if "a \<in> set as" for a K
    using st that unfolding e by (simp only: arg_stable_def)
  have a2: "a ?s1 = a s" if "a \<in> set as" for a
    using a1 [OF that, of "kernels ?s1"] by simp
  have k1: "kernels ?s1 k = Some (kr\<lparr>kcount := w s * h s\<rparr>)" by (simp add: threaded_def)
  have m: "map (\<lambda>a. the (a ?s1)) as = map (\<lambda>a. the (a s)) as" using a2 by (metis (no_types, lifting) map_cong)
  have sa: "set_args k 0 as ?s1 = Next (?s1\<lparr>kernels := (kernels ?s1)(k \<mapsto> (kr\<lparr>kcount := w s * h s\<rparr>)
      \<lparr>kargs := put_from 0 (map (\<lambda>a. the (a s)) as) (kargs kr)\<rparr>)\<rparr>)"
    unfolding m [symmetric]
  proof (rule set_args_ok [OF k1, THEN trans])
    show "\<forall>a\<in>set as. a ?s1 \<noteq> None" using a2 as by metis
    show "\<forall>a\<in>set as. \<forall>K. a (?s1\<lparr>kernels := K\<rparr>) = a ?s1" using a1 a2 by metis
  qed simp
  have xs1: "\<forall>x\<in>set xs. surfs ?s1 x \<noteq> None" using xs by (simp add: threaded_def)
  have "run (map GetIndex xs @ [set_args k 0 as, AssociateThreadSpace E k t, off_end E]) ?s1 =
      Next (wired k t w h as s)"
    unfolding run_GetIndex [OF xs1]
    using E by (simp add: sa) (simp add: AssociateThreadSpace_def gpu_simps wired_def threaded_def k)
  then show ?thesis
    using threads_ok [of E s k kr w h t, OF E k n] by (simp add: wire_def ignore_def)
qed

text \<open>Making a surface and making a kernel, as functions of the state.\<close>

definition remade :: "(gst \<Rightarrow> bool) \<Rightarrow> sname \<Rightarrow> (gst \<Rightarrow> dims) \<Rightarrow> gst \<Rightarrow> gst" where
  "remade c x d s = (if surfs s x = None \<or> c s
     then s\<lparr>surfs := (surfs s)(x \<mapsto> \<lparr>sid = ident s, sdim = d s, sdata = None\<rparr>), ident := Suc (ident s), clock := Suc (clock s)\<rparr>
     else s)"

lemma remake_ok:
  assumes "all_ok E" and "\<And>S. d (s\<lparr>surfs := S\<rparr>) = d s"
  shows "remake E c x d s = Next (remade c x d s)"
  using assms by (auto simp: remake_def remade_def gpu_simps new_surf_def DestroySurface_def)

definition ensured :: "kname \<Rightarrow> string \<Rightarrow> gst \<Rightarrow> gst" where
  "ensured k fn s = (if kernels s k = None
     then s\<lparr>kernels := (kernels s)(k \<mapsto> \<lparr>kfun = fn, kargs = Map.empty, kcount = 0, kspace = None\<rparr>),
            tasks := (tasks s)(pKernelArray := map_option (\<lambda>es. es @ [Run k, Sync]) (tasks s pKernelArray)),
            clock := Suc (Suc (Suc (clock s)))\<rparr>
     else s)"

lemma ensure_kernel_ok:
  assumes "all_ok E" "program s" "tasks s pKernelArray \<noteq> None"
  shows "ensure_kernel E k fn s = Next (ensured k fn s)"
  using assms by (auto simp: ensure_kernel_def ensured_def gpu_simps CreateKernel_def AddKernel_tried_def AddSync_def add_entry_def)

section \<open>The stages as functions of the state\<close>

lemma remade_simps [gpu_simps]:
  "kernels (remade c x d s) = kernels s" "hosts (remade c x d s) = hosts s" "spaces (remade c x d s) = spaces s"
  "tasks (remade c x d s) = tasks s" "events (remade c x d s) = events s" "queue (remade c x d s) = queue s"
  "program (remade c x d s) = program s" "cfg (remade c x d s) = cfg s" "gWidth (remade c x d s) = gWidth s"
  "gHeight (remade c x d s) = gHeight s" "gPitchX (remade c x d s) = gPitchX s" "gPitchY (remade c x d s) = gPitchY s"
  "nfx (remade c x d s) = nfx s" "nfy (remade c x d s) = nfy s" "lost (remade c x d s) = lost s"
  "l_itab (remade c x d s) = l_itab s" "l_factor (remade c x d s) = l_factor s" "l_wave (remade c x d s) = l_wave s"
  "y \<noteq> x \<Longrightarrow> surfs (remade c x d s) y = surfs s y"
  by (simp_all add: remade_def)

lemma remade_made [gpu_simps]: "surfs (remade c x d s) x \<noteq> None"
  by (simp add: remade_def)

lemma remade_dim:
  "(\<And>sf. surfs s x = Some sf \<Longrightarrow> c s \<or> sdim sf = d s) \<Longrightarrow> sdim (the (surfs (remade c x d s) x)) = d s"
  by (auto simp: remade_def)

lemma ensured_simps [gpu_simps]:
  "surfs (ensured k fn s) = surfs s" "hosts (ensured k fn s) = hosts s" "spaces (ensured k fn s) = spaces s"
  "events (ensured k fn s) = events s" "queue (ensured k fn s) = queue s"
  "program (ensured k fn s) = program s" "cfg (ensured k fn s) = cfg s" "gWidth (ensured k fn s) = gWidth s"
  "gHeight (ensured k fn s) = gHeight s" "gPitchX (ensured k fn s) = gPitchX s" "gPitchY (ensured k fn s) = gPitchY s"
  "nfx (ensured k fn s) = nfx s" "nfy (ensured k fn s) = nfy s" "lost (ensured k fn s) = lost s"
  "l_itab (ensured k fn s) = l_itab s" "l_factor (ensured k fn s) = l_factor s" "l_wave (ensured k fn s) = l_wave s"
  "k' \<noteq> k \<Longrightarrow> kernels (ensured k fn s) k' = kernels s k'"
  "tasks (ensured k fn s) = (if kernels s k = None
     then (tasks s)(pKernelArray := map_option (\<lambda>es. es @ [Run k, Sync]) (tasks s pKernelArray)) else tasks s)"
  by (simp_all add: ensured_def)

lemma ensured_made [gpu_simps]: "kernels (ensured k fn s) k \<noteq> None"
  by (simp add: ensured_def)

lemma ensured_fun: "(\<And>kr. kernels s k = Some kr \<Longrightarrow> kfun kr = fn) \<Longrightarrow> kfun (the (kernels (ensured k fn s) k)) = fn"
  by (auto simp: ensured_def)

lemma wired_simps [gpu_simps]:
  "surfs (wired k t w h as s) = surfs s" "hosts (wired k t w h as s) = hosts s"
  "tasks (wired k t w h as s) = tasks s" "events (wired k t w h as s) = events s" "queue (wired k t w h as s) = queue s"
  "program (wired k t w h as s) = program s" "cfg (wired k t w h as s) = cfg s" "gWidth (wired k t w h as s) = gWidth s"
  "gHeight (wired k t w h as s) = gHeight s" "gPitchX (wired k t w h as s) = gPitchX s" "gPitchY (wired k t w h as s) = gPitchY s"
  "nfx (wired k t w h as s) = nfx s" "nfy (wired k t w h as s) = nfy s" "lost (wired k t w h as s) = lost s"
  "l_itab (wired k t w h as s) = l_itab s" "l_factor (wired k t w h as s) = l_factor s" "l_wave (wired k t w h as s) = l_wave s"
  "k' \<noteq> k \<Longrightarrow> kernels (wired k t w h as s) k' = kernels s k'"
  "t' \<noteq> t \<Longrightarrow> spaces (wired k t w h as s) t' = spaces s t'"
  by (simp_all add: wired_def)

lemma wired_made [gpu_simps]: "kernels (wired k t w h as s) k \<noteq> None" "spaces (wired k t w h as s) t \<noteq> None"
  by (simp_all add: wired_def)

text \<open>A kernel that is ready to run: its function, its arguments and its thread space are in place.\<close>

datatype warg = WS sname | WV karg

definition reify :: "gst \<Rightarrow> warg \<Rightarrow> karg" where
  "reify s a = (case a of WS x \<Rightarrow> Surf x (sid (the (surfs s x))) | WV v \<Rightarrow> v)"

definition armed :: "gst \<Rightarrow> kname \<Rightarrow> string \<Rightarrow> tname \<Rightarrow> warg list \<Rightarrow> bool" where
  "armed s k fn t ws \<longleftrightarrow> (\<exists>kr i m. kernels s k = Some kr \<and> kfun kr = fn \<and> kargs kr = put_from 0 (map (reify s) ws) m \<and>
     kspace kr = Some (t, i) \<and> spaces s t = Some i \<and> (\<forall>x. WS x \<in> set ws \<longrightarrow> surfs s x \<noteq> None))"

lemma armed_frame:
  assumes "armed s k fn t ws" "kernels s' k = kernels s k" "spaces s' t = spaces s t"
    and "\<forall>x. WS x \<in> set ws \<longrightarrow> surfs s' x = surfs s x"
  shows "armed s' k fn t ws"
proof -
  have "map (reify s') ws = map (reify s) ws"
    using assms(4) by (auto simp: reify_def split: warg.splits)
  then show ?thesis using assms unfolding armed_def by metis
qed

lemma wired_armed:
  assumes "kernels s k = Some kr" "kfun kr = fn" and "map (\<lambda>a. the (a s)) as = map (reify s) ws"
    and "\<forall>x. WS x \<in> set ws \<longrightarrow> surfs s x \<noteq> None"
  shows "armed (wired k t w h as s) k fn t ws"
proof -
  have r: "reify (wired k t w h as s) = reify s" by (auto simp: reify_def gpu_simps fun_eq_iff split: warg.splits)
  show ?thesis unfolding armed_def r using assms by (simp add: wired_def) blast
qed

section \<open>The state between two stages\<close>

definition korder :: "kname list" where
  "korder = [kernel_H_F_0, kernel_V_F_0, kernel_H_F_1, kernel_V_F_1, kernel_MulSpec, kernel_H_I, kernel_V_I, kernel_ImageSum]"

definition torder :: "tname list" where
  "torder = [pTS0, pTS1, pTS2, pTS3, pTS4, pTS_DFT_FWD_H, pTS_DFT_FWD_V, pTSImageSum]"

definition kernel_fun :: "kname \<Rightarrow> string" where
  "kernel_fun k = (case k of kernel_H_F_0 \<Rightarrow> ''fftd_h'' | kernel_H_F_1 \<Rightarrow> ''fftd_h'' | kernel_H_I \<Rightarrow> ''fftd_h''
     | kernel_V_F_0 \<Rightarrow> ''fftd_v'' | kernel_V_F_1 \<Rightarrow> ''fftd_v'' | kernel_V_I \<Rightarrow> ''fftd_v''
     | kernel_MulSpec \<Rightarrow> ''mulSpectrums'' | kernel_ImageSum \<Rightarrow> ''InvRealSum''
     | kernelFinalExp \<Rightarrow> ''ImageExpSum'' | kernelSrcImageSum \<Rightarrow> ''SrcImageSum'')"

definition pipeline :: "nat \<Rightarrow> entry list" where
  "pipeline j = concat (map (\<lambda>k. [Run k, Sync]) (take j korder))"

text \<open>The size that a surface must have for the sizes of the feature maps and of the patch.\<close>

definition surf_dims :: "int \<Rightarrow> int \<Rightarrow> int \<Rightarrow> int \<Rightarrow> sname \<Rightarrow> dims" where
  "surf_dims w h px py x = (case x of
       pInputSurf0 \<Rightarrow> Pixels w h | pInputSurf1 \<Rightarrow> Pixels w h
     | pMulSpectrumSurf \<Rightarrow> Pixels (w * 2) h
     | pOutputInvSumSurf \<Rightarrow> Bytes (uint32 (px * py * 4))
     | pOutputFinalSurf \<Rightarrow> Bytes (uint32 (px * py * 4))
     | pInputSumSurf \<Rightarrow> Bytes 32
     | pParamSurfHUP \<Rightarrow> UP 320 pParamBufferULTH
     | pParamBufferV \<Rightarrow> UP 320 pParamBufferULTV
     | pSrcImageSumBufferUp \<Rightarrow> UP (w * 4) SrcImageSumBuffer
     | _ \<Rightarrow> Bytes (uint32 (w * h * 4 * 2)))"

definition had :: "gst \<Rightarrow> sname \<Rightarrow> dims" where
  "had s = surf_dims (gWidth s) (gHeight s) (gPitchX s) (gPitchY s)"

definition want :: "gst \<Rightarrow> sname \<Rightarrow> dims" where
  "want s = surf_dims (usOutWidth (cfg s)) (usOutHeight (cfg s)) (usPitchX (cfg s)) (usPitchY (cfg s))"

definition staging :: "bool \<Rightarrow> nat \<Rightarrow> nat \<Rightarrow> sname set \<Rightarrow> (kname \<times> tname \<times> warg list) list \<Rightarrow> gst \<Rightarrow> bool" where
  "staging b j l M A s \<longleftrightarrow> program s \<and> queue s \<and>
     tasks s = [pKernelArray \<mapsto> pipeline (if b then 8 else j)] \<and>
     (\<forall>k kr. kernels s k = Some kr \<longrightarrow> kfun kr = kernel_fun k) \<and>
     (\<forall>k. kernels s k \<noteq> None \<longleftrightarrow> b \<or> k \<in> set (take j korder)) \<and>
     (\<forall>t. spaces s t \<noteq> None \<longleftrightarrow> t \<in> set (take l torder)) \<and>
     (\<forall>x. surfs s x \<noteq> None \<longleftrightarrow> b \<or> x \<in> M) \<and>
     (\<forall>x sf. surfs s x = Some sf \<longrightarrow> sdim sf = (if x \<in> M then want s x else had s x)) \<and>
     (\<forall>(k, t, ws)\<in>set A. armed s k (kernel_fun k) t ws)"

text \<open>What the stages leave alone, and the contents of the inputs.\<close>

definition rest :: "gst \<Rightarrow> sPerfProfileParam \<times> (hname \<Rightarrow> (int \<times> content option) option) \<times> int list \<times> nat \<times> (ename \<Rightarrow> bool) \<times> int list" where
  "rest s = (cfg s, hosts s, [gWidth s, gHeight s, gPitchX s, gPitchY s, nfx s, nfy s], lost s, events s, l_itab s)"

definition data_of :: "gst \<Rightarrow> sname \<Rightarrow> content option" where
  "data_of s x = sdata (the (surfs s x))"

lemma rest_eqD:
  assumes "rest s' = rest s"
  shows "cfg s' = cfg s" "hosts s' = hosts s" "gWidth s' = gWidth s" "gHeight s' = gHeight s" "gPitchX s' = gPitchX s"
    "gPitchY s' = gPitchY s" "nfx s' = nfx s" "nfy s' = nfy s" "lost s' = lost s" "events s' = events s"
    "l_itab s' = l_itab s" "had s' = had s" "want s' = want s"
  using assms by (simp_all add: rest_def had_def want_def)

lemma staging_armed: "staging b j l M A s \<Longrightarrow> (k, t, ws) \<in> set A \<Longrightarrow> armed s k (kernel_fun k) t ws"
  by (fastforce simp: staging_def)

lemma make_step:
  assumes E: "all_ok E" and S: "staging b j l M A s" and x: "x \<notin> M" and d: "\<And>S. d (s\<lparr>surfs := S\<rparr>) = d s" "d s = want s x"
    and c: "\<not> c s \<Longrightarrow> had s x = want s x"
    and A: "\<forall>(k, t, ws)\<in>set A. WS x \<notin> set ws"
  shows "\<exists>s'. remake E c x d s = Next s' \<and> staging b j l (insert x M) A s' \<and> rest s' = rest s \<and>
    (\<forall>y. y \<noteq> x \<longrightarrow> surfs s' y = surfs s y)"
proof -
  let ?s = "remade c x d s"
  have r: "remake E c x d s = Next ?s"
    using E d(1) unfolding remake_def remade_def
    by (auto simp: gpu_simps new_surf_def DestroySurface_def)
  have rs: "rest ?s = rest s" by (simp add: rest_def gpu_simps)
  have dim: "sdim sf = want s x" if "surfs ?s x = Some sf" for sf
  proof -
    have "sdim sf' = d s \<or> c s" if "surfs s x = Some sf'" for sf'
      using S x c d(2) that unfolding staging_def by (metis (full_types))
    then show ?thesis using remade_dim [of s x c d] that d(2) by auto
  qed
  have "armed ?s k (kernel_fun k) t ws" if "(k, t, ws) \<in> set A" for k t ws
  proof (rule armed_frame [OF staging_armed [OF S that]])
    have "WS x \<notin> set ws" using A that by auto
    then have "WS y \<in> set ws \<Longrightarrow> y \<noteq> x" for y by metis
    then show "\<forall>y. WS y \<in> set ws \<longrightarrow> surfs ?s y = surfs s y" by (simp add: gpu_simps)
  qed (simp_all add: gpu_simps)
  moreover have "surfs ?s y \<noteq> None \<longleftrightarrow> b \<or> y \<in> insert x M" for y
    using S remade_made [of c x d s] unfolding staging_def by (cases "y = x") (auto simp: gpu_simps)
  moreover have "sdim sf = (if y \<in> insert x M then want s y else had s y)" if "surfs ?s y = Some sf" for y sf
    using S dim that unfolding staging_def by (cases "y = x") (auto simp: gpu_simps)
  ultimately have "staging b j l (insert x M) A ?s"
    using S rest_eqD(12,13) [OF rs] unfolding staging_def by (simp add: gpu_simps) blast
  then show ?thesis using r rs by (auto simp: gpu_simps)
qed

lemma pipeline_Suc: "j < 8 \<Longrightarrow> korder ! j = k \<Longrightarrow> pipeline (Suc j) = pipeline j @ [Run k, Sync]"
proof -
  assume "j < 8" and k: "korder ! j = k"
  then have "j < length korder" by (simp add: korder_def)
  then show ?thesis unfolding pipeline_def take_Suc_conv_app_nth [OF \<open>j < length korder\<close>] k by simp
qed

lemma arm_step:
  assumes E: "all_ok E" and S: "staging b j j M A s" and j: "j < 8" "korder ! j = k" "torder ! j = t" and fn: "fn = kernel_fun k"
    and n: "int_ok (w s * h s)" and wh: "\<And>s'. cfg s' = cfg s \<Longrightarrow> w s' = w s" "\<And>s'. cfg s' = cfg s \<Longrightarrow> h s' = h s"
    and ws: "\<And>s'. rest s' = rest s \<Longrightarrow> surfs s' = surfs s \<Longrightarrow> map (\<lambda>a. a s') as = map Some (map (reify s') ws)"
    and xs: "\<forall>x. WS x \<in> set ws \<longrightarrow> x \<in> M" "set xs \<subseteq> M" and st: "\<forall>a\<in>set as. arg_stable a"
    and A: "k \<notin> fst ` set A" "t \<notin> (fst \<circ> snd) ` set A"
  shows "\<exists>s'. run [ensure_kernel E k fn, wire E k t w h xs as] s = Next s' \<and>
    staging b (Suc j) (Suc j) M (A @ [(k, t, ws)]) s' \<and> rest s' = rest s \<and> surfs s' = surfs s"
proof -
  let ?s1 = "ensured k fn s" and ?s2 = "wired k t w h as (ensured k fn s)"
  note Sd = S [unfolded staging_def]
  have e: "ensure_kernel E k fn s = Next ?s1" using E Sd by (intro ensure_kernel_ok) auto
  have rs: "rest ?s1 = rest s" "rest ?s2 = rest s" "surfs ?s1 = surfs s" "surfs ?s2 = surfs s"
    by (simp_all add: rest_def gpu_simps)
  have as1: "map (\<lambda>a. a ?s1) as = map Some (map (reify ?s1) ws)" using ws rs by blast
  have ne: "\<forall>a\<in>set as. a ?s1 \<noteq> None"
  proof
    fix a assume "a \<in> set as"
    then have "a ?s1 \<in> set (map (\<lambda>a. a ?s1) as)" by simp
    then show "a ?s1 \<noteq> None" unfolding as1 by auto
  qed
  have as2: "map (\<lambda>a. the (a ?s1)) as = map (reify ?s1) ws"
    using arg_cong [OF as1, of "map the"] by (simp add: comp_def)
  obtain kr where kr: "kernels ?s1 k = Some kr" using ensured_made [of k fn s] by auto
  have xs1: "\<forall>x\<in>set xs. surfs ?s1 x \<noteq> None" using Sd xs(2) rs(3) by auto
  have c: "w ?s1 = w s" "h ?s1 = h s" using wh(1) [of ?s1] wh(2) [of ?s1] by (simp_all add: gpu_simps)
  have "wire E k t w h xs as ?s1 = Next ?s2"
    using wire_ok [OF E kr _ xs1 ne st, of w h t] n c by simp
  with e have r: "run [ensure_kernel E k fn, wire E k t w h xs as] s = Next ?s2" by simp
  have kf: "kfun kr' = kernel_fun k'" if "kernels ?s1 k' = Some kr'" for k' kr'
    using that Sd fn by (cases "k' = k") (auto simp: ensured_def split: if_splits)
  have ar: "armed ?s2 k (kernel_fun k) t ws"
    using wired_armed [OF kr kf [OF kr] as2, of t w h] xs(1) Sd rs(3) by auto
  have ar': "armed ?s2 k' (kernel_fun k') t' ws'" if "(k', t', ws') \<in> set A" for k' t' ws'
  proof (rule armed_frame [OF staging_armed [OF S that]])
    have "k' \<noteq> k" "t' \<noteq> t" using A that by (force simp: image_iff)+
    then show "kernels ?s2 k' = kernels s k'" "spaces ?s2 t' = spaces s t'" by (simp_all add: gpu_simps)
  qed (simp add: rs(4))
  have len: "length korder = 8" "length torder = 8" by (simp_all add: korder_def torder_def)
  have kset: "set (take (Suc j) korder) = insert k (set (take j korder))"
    "set (take (Suc j) torder) = insert t (set (take j torder))"
    using j take_Suc_conv_app_nth [of j korder] take_Suc_conv_app_nth [of j torder] len by simp_all
  have "k \<notin> set (take j korder)"
  proof -
    have "distinct korder" "length korder = 8" by (simp_all add: korder_def)
    then show ?thesis using j by (metis distinct_take in_set_conv_nth length_take less_irrefl min.absorb4 min_less_iff_conj nth_eq_iff_index_eq nth_take)
  qed
  then have tk: "tasks ?s2 = [pKernelArray \<mapsto> pipeline (if b then 8 else Suc j)]"
  proof -
    have "kernels s k = None \<longleftrightarrow> \<not> b" using Sd \<open>k \<notin> set (take j korder)\<close> by blast
    then show ?thesis using Sd pipeline_Suc [OF j(1,2)] by (simp add: gpu_simps)
  qed
  have kn: "kernels ?s2 k' \<noteq> None \<longleftrightarrow> b \<or> k' \<in> set (take (Suc j) korder)" for k'
    using Sd kset(1) wired_made(1) [of k t w h as ?s1] by (cases "k' = k") (auto simp: gpu_simps)
  have tn: "spaces ?s2 t' \<noteq> None \<longleftrightarrow> t' \<in> set (take (Suc j) torder)" for t'
    using Sd kset(2) wired_made(2) [where t = t] by (cases "t' = t") (auto simp: gpu_simps)
  have kf2: "kfun kr' = kernel_fun k'" if "kernels ?s2 k' = Some kr'" for k' kr'
    using that kf kr by (cases "k' = k") (auto simp: wired_def)
  have "staging b (Suc j) (Suc j) M (A @ [(k, t, ws)]) ?s2"
    using Sd tk kn tn kf2 ar ar' rs(4) rest_eqD(12,13) [OF rs(2)]
    unfolding staging_def by (simp add: gpu_simps) blast
  then show ?thesis using r rs by blast
qed

end
