(* ===== verification/KcfGpuStages.thy ===== *)
theory KcfGpuStages
  imports KcfGpuSteps
begin

text \<open>
  The stages of \<open>gpu_gaussianCorrelation\<close> one by one: the tables of both transforms (made anew exactly when the
  patch has another size), the four kernels of the forward transforms (\<open>forward_ok\<close>) and the four of the
  product, the inverse transforms and the sum (\<open>inverse_ok\<close>), with the arguments each kernel ends up with.
\<close>

section \<open>The transform tables\<close>

definition made_table :: "gpu_env \<Rightarrow> int \<Rightarrow> int option \<Rightarrow> content \<Rightarrow> int \<Rightarrow> bool" where
  "made_table E n gap c nf \<longleftrightarrow> (\<exists>itab fs it wv bs. length itab = 32 \<and>
     table_result E n gap (replicate 8 0) itab (replicate 64 0) = Some (fs, nf, it, wv, bs) \<and> c = Table wv bs fs)"

lemma low_factor_small: "0 < n \<Longrightarrow> low_factor n \<le> n"
  using low_factor_power [of n] by (auto intro: zdvd_imp_le)

lemma table_result_ok:
  assumes n: "1 \<le> n" "n \<le> 32" and itab: "length itab = 32"
  obtains fs nf it wv bs where "table_result E n gap (replicate 8 0) itab (replicate 64 0) = Some (fs, nf, it, wv, bs)"
    "length it = 32"
proof -
  have "\<exists>fs nf it wv. DFTFactorize n (replicate 8 0) = Some (fs, nf) \<and>
     DFTInit (sin_d E) (sqrt_d E) n nf fs itab (replicate 64 0) = Some (it, wv) \<and>
     mset (take (nat n) it) = mset [0..n - 1] \<and> drop (nat n) it = drop (nat n) itab \<and>
     (n = 4 \<or> 5 < n \<longrightarrow> conj_symmetric n wv)"
    using n itab low_factor_small [of n] by (intro DFTInit_ok) (simp_all del: replicate.simps)
  then obtain fs nf it wv where d: "DFTFactorize n (replicate 8 0) = Some (fs, nf)"
     "DFTInit (sin_d E) (sqrt_d E) n nf fs itab (replicate 64 0) = Some (it, wv)"
     "mset (take (nat n) it) = mset [0..n - 1]" "drop (nat n) it = drop (nat n) itab" by blast
  have l1: "length (take (nat n) it) = nat n" using arg_cong [OF d(3), of size] by simp
  have l2: "length it - nat n = 32 - nat n" using arg_cong [OF d(4), of length] itab by simp
  have l: "length it = 32" using l1 l2 n by (simp split: if_splits)
  then obtain bs where "table_bytes n it gap = Some bs" using n by (simp add: table_bytes_def)
  then show thesis using that d l by (simp add: table_result_def del: replicate.simps)
qed

lemma table_step:
  assumes E: "all_ok E" and S: "staging b j l M A s" and x: "x \<notin> M"
    and n: "1 \<le> n" "n \<le> 32" and lt: "l_factor s = replicate 8 0" "length (l_itab s) = 32" "l_wave s = replicate 64 0"
    and h: "hosts s h \<noteq> None \<longleftrightarrow> b" and w: "want s x = UP 320 h"
    and A: "\<forall>(k, t, ws)\<in>set A. WS x \<notin> set ws"
    and set_nf: "set_nf = (\<lambda>nf s. s\<lparr>nfx := nf\<rparr>) \<or> set_nf = (\<lambda>nf s. s\<lparr>nfy := nf\<rparr>)"
  shows "\<exists>s' c nf. fill_table E n h gap set_nf x s = Next s' \<and> staging b j l (insert x M) A s' \<and>
    made_table E n gap c nf \<and> hosts s' = (hosts s)(h \<mapsto> (320, Some c)) \<and>
    nfx s' = nfx (set_nf nf s) \<and> nfy s' = nfy (set_nf nf s) \<and> cfg s' = cfg s \<and> had s' = had s \<and> want s' = want s \<and>
    gPitchX s' = gPitchX s \<and> gPitchY s' = gPitchY s \<and> gWidth s' = gWidth s \<and> gHeight s' = gHeight s \<and>
    lost s' = lost s \<and> events s' = events s \<and> length (l_itab s') = 32 \<and>
    (\<forall>y. y \<noteq> x \<longrightarrow> surfs s' y = surfs s y)"
proof -
  obtain fs nf it wv bs where
    t: "table_result E n gap (replicate 8 0) (l_itab s) (replicate 64 0) = Some (fs, nf, it, wv, bs)" "length it = 32"
    using table_result_ok [OF n lt(2)] by blast
  note Sd = S [unfolded staging_def]
  have hx: "surfs s x \<noteq> None \<longleftrightarrow> b" using Sd x by blast
  define c where "c = Table wv bs fs"
  define s0 where "s0 = (set_nf nf s)\<lparr>l_factor := fs, l_itab := it, l_wave := wv\<rparr>"
  define s1 where "s1 = s0\<lparr>hosts := (hosts s)(h \<mapsto> (320, Some c)),
     surfs := (surfs s)(x \<mapsto> \<lparr>sid = ident s, sdim = UP 320 h, sdata = None\<rparr>),
     ident := Suc (ident s), clock := Suc (Suc (clock s))\<rparr>"
  have m: "made_table E n gap c nf" unfolding made_table_def using t(1) lt(2) c_def by blast
  have comm: "set_nf nf (s\<lparr>l_factor := fs, l_itab := it, l_wave := wv\<rparr>) = s0"
    using set_nf by (cases s) (auto simp: s0_def)
  have s0: "hosts s0 = hosts s" "surfs s0 = surfs s" "ident s0 = ident s" "clock s0 = clock s"
    using set_nf by (auto simp: s0_def)
  have r: "fill_table E n h gap set_nf x s = Next s1"
    using E h hx s0 by (auto simp: fill_table_def lt t(1) gpu_simps comm c_def s1_def all_ok_def Let_def new_surf_def DestroySurface_def
        simp del: replicate.simps)
  have f: "cfg s1 = cfg s" "had s1 = had s" "want s1 = want s" "gPitchX s1 = gPitchX s" "gPitchY s1 = gPitchY s"
    "gWidth s1 = gWidth s" "gHeight s1 = gHeight s" "lost s1 = lost s" "events s1 = events s" "l_itab s1 = it"
    "nfx s1 = nfx (set_nf nf s)" "nfy s1 = nfy (set_nf nf s)" "kernels s1 = kernels s" "spaces s1 = spaces s"
    "tasks s1 = tasks s" "program s1 = program s" "queue s1 = queue s"
    using set_nf by (auto simp: s1_def s0_def had_def want_def)
  have sf: "surfs s1 = (surfs s)(x \<mapsto> \<lparr>sid = ident s, sdim = UP 320 h, sdata = None\<rparr>)" by (simp add: s1_def)
  have ar: "armed s1 k (kernel_fun k) t' ws" if "(k, t', ws) \<in> set A" for k t' ws
  proof (rule armed_frame [OF staging_armed [OF S that]])
    have "WS x \<notin> set ws" using A that by auto
    then show "\<forall>y. WS y \<in> set ws \<longrightarrow> surfs s1 y = surfs s y" by (auto simp: sf)
  qed (simp_all add: f)
  have "staging b j l (insert x M) A s1"
    using Sd w ar unfolding staging_def by (simp add: f sf) blast
  then show ?thesis using r m f t(2) by (auto simp: sf s1_def)
qed

lemma keep_step:
  "staging b j l M A s \<Longrightarrow> b \<Longrightarrow> had s x = want s x \<Longrightarrow> staging b j l (insert x M) A s"
  unfolding staging_def by auto

section \<open>The eight stages\<close>

definition sizes_ok :: "sPerfProfileParam \<Rightarrow> bool" where
  "sizes_ok c \<longleftrightarrow> 1 \<le> usPitchX c \<and> usPitchX c \<le> 32 \<and> 1 \<le> usPitchY c \<and> usPitchY c \<le> 32 \<and>
     0 \<le> usPitchZ c \<and> usPitchZ c < 2 ^ 16 \<and> usOutWidth c = usPitchX c * usPitchY c \<and> usInWidth c = usOutWidth c \<and>
     0 \<le> usOutHeight c \<and> usOutHeight c < 2 ^ 16 \<and> usInHeight c = usOutHeight c"

definition wH :: "gst \<Rightarrow> sname \<Rightarrow> sname \<Rightarrow> warg list" where
  "wH s inp outp = [WS inp, WS outp, WS pParamSurfHUP, WV (Num (usPitchX (cfg s))), WV (Num (usPitchY (cfg s))),
     WV (Flt 1), WV (Num (nfx s)), WV (Num (ucChannel (cfg s))), WV (Flag (bInv (cfg s)))]"

definition wV :: "gst \<Rightarrow> sname \<Rightarrow> sname \<Rightarrow> warg list" where
  "wV s inp outp = [WS inp, WS outp, WS pParamBufferV, WV (Num (usPitchX (cfg s))), WV (Num (usPitchY (cfg s))),
     WV (Flt (fScale (cfg s))), WV (Num (nfy s)), WV (Flag (bInv (cfg s)))]"

definition wM :: "gst \<Rightarrow> sname \<Rightarrow> sname \<Rightarrow> sname \<Rightarrow> warg list" where
  "wM s inp0 inp1 outp = [WS inp0, WS inp1, WS outp, WV (Num (usPitchX (cfg s) * usPitchY (cfg s) * 8))]"

definition wS :: "gst \<Rightarrow> sname \<Rightarrow> sname \<Rightarrow> warg list" where
  "wS s inp outp = [WS inp, WS outp, WV (Num (usPitchX (cfg s) * usPitchY (cfg s) * 8)), WV (Num (usPitchZ (cfg s)))]"

lemma stable_args [simp]:
  "arg_stable (surf_arg x)" "arg_stable uPitch" "arg_stable (num_arg nfx)" "arg_stable (num_arg nfy)"
  "arg_stable (num_arg (\<lambda>s. f (cfg s)))" "arg_stable (\<lambda>s. Some (Flag (g (cfg s))))"
  "arg_stable (\<lambda>s. Some (Flt (r (cfg s))))" "arg_stable (\<lambda>s. Some v)"
  by (simp_all add: arg_stable_def surf_arg_def num_arg_def uPitch_def Let_def)

lemma surf_arg_reify: "surfs s x \<noteq> None \<Longrightarrow> surf_arg x s = Some (reify s (WS x))"
  by (auto simp: surf_arg_def reify_def)

lemma num_arg_reify: "num_arg v s = Some (reify s (WV (Num (v s))))"
  by (simp add: num_arg_def reify_def)

lemma reify_val [simp]: "reify s (WV v) = v"
  by (simp add: reify_def)

lemma small_int_ok: "0 \<le> x \<Longrightarrow> x \<le> 2 ^ 26 \<Longrightarrow> int_ok x"
  by (simp add: int_ok_def)

lemma prod_le: "0 \<le> (x :: int) \<Longrightarrow> x \<le> m \<Longrightarrow> 0 \<le> y \<Longrightarrow> y \<le> n \<Longrightarrow> 0 \<le> x * y \<and> x * y \<le> m * n"
  by (intro conjI mult_nonneg_nonneg mult_mono) auto

lemma small_products:
  assumes "sizes_ok c"
  shows "int_ok (usPitchY c * usPitchZ c)" "int_ok (usPitchX c div 2 * usPitchZ c)" "int_ok (usPitchX c * usPitchY c * 8)"
    "int_ok (usPitchX c * usPitchY c)" "int_ok ((usOutWidth c + 7) div 8 * usOutHeight c)" "int_ok ((usOutWidth c + 7) div 8 * 1)"
    "0 < usPitchX c * usPitchY c" "usPitchX c * usPitchY c \<le> 1024" "int_ok ((usOutWidth c + 15) div 16 * 1)"
    "int_ok ((usInWidth c + 7) div 8 * 1)"
proof -
  have x: "1 \<le> usPitchX c" "usPitchX c \<le> 32" and y: "1 \<le> usPitchY c" "usPitchY c \<le> 32"
    and z: "0 \<le> usPitchZ c" "usPitchZ c \<le> 2 ^ 16" and h: "0 \<le> usOutHeight c" "usOutHeight c \<le> 2 ^ 16"
    and w: "usOutWidth c = usPitchX c * usPitchY c" "usInWidth c = usOutWidth c"
    using assms by (simp_all add: sizes_ok_def)
  show p: "0 < usPitchX c * usPitchY c" using x y by simp
  show q: "usPitchX c * usPitchY c \<le> 1024" using prod_le [of "usPitchX c" 32 "usPitchY c" 32] x y by simp
  have w': "0 < usOutWidth c" "usOutWidth c \<le> 1024" unfolding w(1) by (rule p, rule q)
  have d: "0 \<le> (usOutWidth c + 7) div 8" "(usOutWidth c + 7) div 8 \<le> 200"
    "0 \<le> (usOutWidth c + 15) div 16" "(usOutWidth c + 15) div 16 \<le> 200" using w' by linarith+
  have x2: "0 \<le> usPitchX c div 2" "usPitchX c div 2 \<le> 32" using x by linarith+
  show "int_ok (usPitchY c * usPitchZ c)" using prod_le [OF _ y(2) z] y(1) by (intro small_int_ok) simp_all
  show "int_ok (usPitchX c div 2 * usPitchZ c)" using prod_le [OF x2 z] by (intro small_int_ok) simp_all
  show "int_ok (usPitchX c * usPitchY c * 8)" "int_ok (usPitchX c * usPitchY c)" using p q by (auto intro: small_int_ok)
  show "int_ok ((usOutWidth c + 7) div 8 * usOutHeight c)" using prod_le [OF d(1,2) h] by (intro small_int_ok) simp_all
  show "int_ok ((usOutWidth c + 7) div 8 * 1)" "int_ok ((usOutWidth c + 15) div 16 * 1)" "int_ok ((usInWidth c + 7) div 8 * 1)"
    using d w(2) by (auto intro: small_int_ok)
qed

lemma staging_made: "staging b j l M A s \<Longrightarrow> x \<in> M \<Longrightarrow> surfs s x \<noteq> None"
  by (simp add: staging_def)

text \<open>One stage: the surface \<open>x\<close> is made, the j-th kernel is made and wired.\<close>

definition done_stage :: "gpu_env \<Rightarrow> bool \<Rightarrow> nat \<Rightarrow> sname set \<Rightarrow> (kname \<times> tname \<times> warg list) list \<Rightarrow> gst \<Rightarrow> step \<Rightarrow> gst \<Rightarrow> bool" where
  "done_stage E b j M A s f s' \<longleftrightarrow> f s = Next s' \<and> staging b j j M A s' \<and> rest s' = rest s \<and>
     (\<forall>y \<in> {pInputSurf0, pInputSurf1}. surfs s' y = surfs s y)"

lemma arm_done:
  assumes "all_ok E" "staging b j j M A s" "j < 8" "korder ! j = k" "torder ! j = t" "fn = kernel_fun k"
    and "int_ok (w s * h s)" "\<And>s'. cfg s' = cfg s \<Longrightarrow> w s' = w s" "\<And>s'. cfg s' = cfg s \<Longrightarrow> h s' = h s"
    and "\<And>s'. rest s' = rest s \<Longrightarrow> surfs s' = surfs s \<Longrightarrow> \<forall>x\<in>M. surfs s' x \<noteq> None \<Longrightarrow>
      map (\<lambda>a. a s') as = map Some (map (reify s') ws)"
    and "\<forall>x. WS x \<in> set ws \<longrightarrow> x \<in> M" "set xs \<subseteq> M" and "\<forall>a\<in>set as. arg_stable a"
    and "k \<notin> fst ` set A" "t \<notin> (fst \<circ> snd) ` set A"
  shows "\<exists>s'. done_stage E b (Suc j) M (A @ [(k, t, ws)]) s (run [ensure_kernel E k fn, wire E k t w h xs as]) s'"
proof -
  have "\<forall>x\<in>M. surfs s x \<noteq> None" using staging_made [OF assms(2)] by blast
  then obtain s' where "run [ensure_kernel E k fn, wire E k t w h xs as] s = Next s'"
    "staging b (Suc j) (Suc j) M (A @ [(k, t, ws)]) s'" "rest s' = rest s" "surfs s' = surfs s"
    using arm_step [where w = w and h = h and s = s, OF assms(1-9) _ assms(11-15)] assms(10) by (metis (no_types, lifting))
  then show ?thesis by (auto simp: done_stage_def)
qed

lemma arm_H:
  assumes "all_ok E" "staging b j j M A s" "j < 8" "korder ! j = k" "torder ! j = t" "kernel_fun k = ''fftd_h''"
    and "sizes_ok (cfg s)" "{inp, outp, pParamSurfHUP} \<subseteq> M" "k \<notin> fst ` set A" "t \<notin> (fst \<circ> snd) ` set A"
  shows "\<exists>s'. done_stage E b (Suc j) M (A @ [(k, t, wH s inp outp)]) s
    (run [ensure_kernel E k ''fftd_h'', Call_DFT_FWD_H E k inp pParamSurfHUP outp t]) s'"
  unfolding Call_DFT_FWD_H_def
proof (rule arm_done [OF assms(1-5)], goal_cases)
  case (5 s')
  then show ?case using assms(8) by (simp add: wH_def surf_arg_reify num_arg_reify rest_eqD [OF 5(1)])
qed (use assms(6-) small_products(1) [OF assms(7)] in \<open>simp_all add: wH_def\<close>)

lemma arm_V:
  assumes "all_ok E" "staging b j j M A s" "j < 8" "korder ! j = k" "torder ! j = t" "kernel_fun k = ''fftd_v''"
    and "sizes_ok (cfg s)" "{inp, outp, pParamBufferV} \<subseteq> M" "k \<notin> fst ` set A" "t \<notin> (fst \<circ> snd) ` set A"
  shows "\<exists>s'. done_stage E b (Suc j) M (A @ [(k, t, wV s inp outp)]) s
    (run [ensure_kernel E k ''fftd_v'', Call_DFT_FWD_V E k inp pParamBufferV outp t]) s'"
  unfolding Call_DFT_FWD_V_def
proof (rule arm_done [OF assms(1-5)], goal_cases)
  case (5 s')
  then show ?case using assms(8) by (simp add: wV_def surf_arg_reify num_arg_reify rest_eqD [OF 5(1)])
qed (use assms(6-) small_products(2) [OF assms(7)] in \<open>simp_all add: wV_def\<close>)

lemma arm_M:
  assumes "all_ok E" "staging b 4 4 M A s" and "sizes_ok (cfg s)"
    "{pOutputSurf_V_F_0, pOutputSurf_V_F_1, pMulSpectrumSurf} \<subseteq> M" "kernel_MulSpec \<notin> fst ` set A" "pTS4 \<notin> (fst \<circ> snd) ` set A"
  shows "\<exists>s'. done_stage E b (Suc 4) M (A @ [(kernel_MulSpec, pTS4, wM s pOutputSurf_V_F_0 pOutputSurf_V_F_1 pMulSpectrumSurf)]) s
    (run [ensure_kernel E kernel_MulSpec ''mulSpectrums'',
      Call_MulSpec E kernel_MulSpec pOutputSurf_V_F_0 pOutputSurf_V_F_1 pMulSpectrumSurf pTS4]) s'"
  unfolding Call_MulSpec_def
proof (rule arm_done [OF assms(1,2)], goal_cases)
  case (8 s')
  then show ?case using assms(4) small_products(3) [OF assms(3)]
    by (simp add: wM_def surf_arg_reify uPitch_def Let_def rest_eqD [OF 8(1)])
qed (use assms(3-) small_products(5) [OF assms(3)] in \<open>simp_all add: wM_def korder_def torder_def kernel_fun_def\<close>)

lemma arm_S:
  assumes "all_ok E" "staging b 7 7 M A s" and "sizes_ok (cfg s)"
    "{pOutputSurf_V_V_1, pOutputInvSumSurf} \<subseteq> M" "kernel_ImageSum \<notin> fst ` set A" "pTSImageSum \<notin> (fst \<circ> snd) ` set A"
  shows "\<exists>s'. done_stage E b (Suc 7) M (A @ [(kernel_ImageSum, pTSImageSum, wS s pOutputSurf_V_V_1 pOutputInvSumSurf)]) s
    (run [ensure_kernel E kernel_ImageSum ''InvRealSum'',
      Call_ImageSum E kernel_ImageSum pOutputSurf_V_V_1 pOutputInvSumSurf pTSImageSum]) s'"
  unfolding Call_ImageSum_def
proof (rule arm_done [OF assms(1,2)], goal_cases)
  case (8 s')
  then show ?case using assms(4) small_products(3) [OF assms(3)]
    by (simp add: wS_def surf_arg_reify num_arg_reify uPitch_def Let_def rest_eqD [OF 8(1)])
qed (use assms(3-) small_products(6) [OF assms(3)] in \<open>simp_all add: wS_def korder_def torder_def kernel_fun_def\<close>)

definition good_sizes :: "gst \<Rightarrow> bool" where
  "good_sizes s \<longleftrightarrow> sizes_ok (cfg s) \<and> gWidth s = gPitchX s * gPitchY s"

lemma good_sizesD:
  assumes "good_sizes s"
  shows "sizes_ok (cfg s)" "gWidth s = gPitchX s * gPitchY s" "usOutWidth (cfg s) = usPitchX (cfg s) * usPitchY (cfg s)"
    "usInHeight (cfg s) = usOutHeight (cfg s)" "usInWidth (cfg s) = usOutWidth (cfg s)"
  using assms unfolding good_sizes_def sizes_ok_def by blast+

lemma surf_dims_area: "px * py = px' * py' \<Longrightarrow> surf_dims w h px py x = surf_dims w h px' py' x"
  by (cases x) (simp_all add: surf_dims_def)

lemma same_size:
  assumes "good_sizes s" "gWidth s = usOutWidth (cfg s)" "gHeight s = usOutHeight (cfg s)"
  shows "had s x = want s x"
proof -
  have "gPitchX s * gPitchY s = usPitchX (cfg s) * usPitchY (cfg s)"
    using good_sizesD(2,3) [OF assms(1)] assms(2) by metis
  then show ?thesis unfolding had_def want_def assms(2,3) by (rule surf_dims_area)
qed

lemma same_size_in:
  assumes "good_sizes s"
  shows "\<not> new_size_in s \<Longrightarrow> had s x = want s x" "\<not> new_size s \<Longrightarrow> had s x = want s x"
  using same_size [OF assms, of x] unfolding new_size_in_def new_size_def good_sizesD(4) [OF assms] by metis+

lemma rest_good:
  assumes "rest s' = rest s" shows "good_sizes s' = good_sizes s"
  by (simp only: good_sizes_def rest_eqD [OF assms])

lemma stage_seq: "f s = Next s1 \<Longrightarrow> run fs s1 = r \<Longrightarrow> run (f # fs) s = r"
  by simp

text \<open>A stage makes its surface and then its kernel.\<close>

lemma make_then_arm:
  assumes E: "all_ok E" and S: "staging b j j M A s" and G: "good_sizes s" and x: "x \<notin> M" "x \<notin> {pInputSurf0, pInputSurf1}"
    and d: "\<And>S. d (s\<lparr>surfs := S\<rparr>) = d s" "d s = want s x" and c: "c = new_size_in \<or> c = new_size"
    and A: "\<forall>(k, t, ws)\<in>set A. WS x \<notin> set ws"
    and arm: "\<And>s1. staging b j j (insert x M) A s1 \<Longrightarrow> rest s1 = rest s \<Longrightarrow>
      \<exists>s'. done_stage E b (Suc j) (insert x M) A' s1 (run fs) s'"
  shows "\<exists>s'. done_stage E b (Suc j) (insert x M) A' s (run (remake E c x d # fs)) s'"
proof -
  obtain s1 where 1: "remake E c x d s = Next s1" "staging b j j (insert x M) A s1" "rest s1 = rest s"
    "\<forall>y. y \<noteq> x \<longrightarrow> surfs s1 y = surfs s y"
  proof -
    have "\<not> c s \<Longrightarrow> had s x = want s x" using c same_size_in [OF G, of x] by metis
    from make_step [OF E S x(1) d this A] that show thesis by blast
  qed
  obtain s' where "done_stage E b (Suc j) (insert x M) A' s1 (run fs) s'" using arm 1 by blast
  then have "done_stage E b (Suc j) (insert x M) A' s (run (remake E c x d # fs)) s'"
    using 1 x(2) by (auto simp: done_stage_def)
  then show ?thesis by blast
qed

lemma wH_rest:
  assumes "rest s' = rest s"
  shows "wH s' = wH s" "wV s' = wV s" "wM s' = wM s" "wS s' = wS s"
  by (simp_all add: wH_def wV_def wM_def wS_def rest_eqD [OF assms] fun_eq_iff)

lemma complex_want: "x \<in> {pOutputSurf_H_F_0, pOutputSurf_V_F_0, pOutputSurf_H_F_1, pOutputSurf_V_F_1, pOutputSurf_H_V_1, pOutputSurf_V_V_1}
  \<Longrightarrow> complex_bytes s = want s x"
  by (elim insertE) (simp_all add: complex_bytes_def want_def surf_dims_def)

lemma rest_sizes: "rest s' = rest s \<Longrightarrow> sizes_ok (cfg s) \<Longrightarrow> sizes_ok (cfg s')"
  using rest_eqD(1) [of s' s] by simp

lemma stage_H:
  assumes E: "all_ok E" and S: "staging b j j M A s" and G: "good_sizes s" and x: "x \<notin> M" "x \<in> {pOutputSurf_H_F_1, pOutputSurf_H_V_1}"
    and A: "\<forall>(k, t, ws)\<in>set A. WS x \<notin> set ws" "k \<notin> fst ` set A" "t \<notin> (fst \<circ> snd) ` set A"
    and k: "j < 8" "korder ! j = k" "torder ! j = t" "kernel_fun k = ''fftd_h''" and inp: "{inp, pParamSurfHUP} \<subseteq> M"
  shows "\<exists>s'. done_stage E b (Suc j) (insert x M) (A @ [(k, t, wH s inp x)]) s
    (run [remake E new_size_in x complex_bytes, ensure_kernel E k ''fftd_h'', Call_DFT_FWD_H E k inp pParamSurfHUP x t]) s'"
proof (rule make_then_arm [OF E S G x(1)])
  fix s1 assume s1: "staging b j j (insert x M) A s1" "rest s1 = rest s"
  have "sizes_ok (cfg s1)" by (rule rest_sizes [OF s1(2) good_sizesD(1) [OF G]])
  from arm_H [OF E s1(1) k this _ A(2,3), of inp x] inp
  have "\<exists>s'. done_stage E b (Suc j) (insert x M) (A @ [(k, t, wH s inp x)]) s1
      (run [ensure_kernel E k ''fftd_h'', Call_DFT_FWD_H E k inp pParamSurfHUP x t]) s'"
    unfolding wH_rest(1) [OF s1(2)] by simp
  then show "\<exists>s'. done_stage E b (Suc j) (insert x M) (A @ [(k, t, wH s inp x)]) s1
      (run [ensure_kernel E k ''fftd_h'', Call_DFT_FWD_H E k inp pParamSurfHUP x t]) s'" .
next
  show "complex_bytes s = want s x" by (rule complex_want) (use x(2) in blast)
  show "x \<notin> {pInputSurf0, pInputSurf1}" using x(2) by (elim insertE) simp_all
  show "new_size_in = new_size_in \<or> new_size_in = new_size" by blast
  show "\<forall>(k, t, ws)\<in>set A. WS x \<notin> set ws" by (rule A(1))
qed (simp add: complex_bytes_def)

lemma stage_V:
  assumes E: "all_ok E" and S: "staging b j j M A s" and G: "good_sizes s" and x: "x \<notin> M"
      "x \<in> {pOutputSurf_V_F_0, pOutputSurf_V_F_1}"
    and A: "\<forall>(k, t, ws)\<in>set A. WS x \<notin> set ws" "k \<notin> fst ` set A" "t \<notin> (fst \<circ> snd) ` set A"
    and k: "j < 8" "korder ! j = k" "torder ! j = t" "kernel_fun k = ''fftd_v''" and inp: "{inp, pParamBufferV} \<subseteq> M"
  shows "\<exists>s'. done_stage E b (Suc j) (insert x M) (A @ [(k, t, wV s inp x)]) s
    (run [remake E new_size_in x complex_bytes, ensure_kernel E k ''fftd_v'', Call_DFT_FWD_V E k inp pParamBufferV x t]) s'"
proof (rule make_then_arm [OF E S G x(1)])
  fix s1 assume s1: "staging b j j (insert x M) A s1" "rest s1 = rest s"
  have "sizes_ok (cfg s1)" by (rule rest_sizes [OF s1(2) good_sizesD(1) [OF G]])
  from arm_V [OF E s1(1) k this _ A(2,3), of inp x] inp
  have "\<exists>s'. done_stage E b (Suc j) (insert x M) (A @ [(k, t, wV s inp x)]) s1
      (run [ensure_kernel E k ''fftd_v'', Call_DFT_FWD_V E k inp pParamBufferV x t]) s'"
    unfolding wH_rest(2) [OF s1(2)] by simp
  then show "\<exists>s'. done_stage E b (Suc j) (insert x M) (A @ [(k, t, wV s inp x)]) s1
      (run [ensure_kernel E k ''fftd_v'', Call_DFT_FWD_V E k inp pParamBufferV x t]) s'" .
next
  show "complex_bytes s = want s x" by (rule complex_want) (use x(2) in blast)
  show "x \<notin> {pInputSurf0, pInputSurf1}" using x(2) by (elim insertE) simp_all
  show "new_size_in = new_size_in \<or> new_size_in = new_size" by blast
  show "\<forall>(k, t, ws)\<in>set A. WS x \<notin> set ws" by (rule A(1))
qed (simp add: complex_bytes_def)

definition carried :: "gst \<Rightarrow> int list \<times> nat \<times> (ename \<Rightarrow> bool)" where
  "carried s = ([gWidth s, gHeight s, gPitchX s, gPitchY s], lost s, events s)"

lemma carriedD:
  assumes "carried s' = carried s"
  shows "gWidth s' = gWidth s" "gHeight s' = gHeight s" "gPitchX s' = gPitchX s" "gPitchY s' = gPitchY s"
    "lost s' = lost s" "events s' = events s"
  using assms by (simp_all add: carried_def)

lemma rest_carried: "rest s' = rest s \<Longrightarrow> carried s' = carried s"
  by (simp add: rest_def carried_def)

definition table_kept :: "gpu_env \<Rightarrow> bool \<Rightarrow> gst \<Rightarrow> hname \<Rightarrow> int \<Rightarrow> int option \<Rightarrow> int \<Rightarrow> bool" where
  "table_kept E b s h g gap nf \<longleftrightarrow> (hosts s h \<noteq> None \<longleftrightarrow> b) \<and> (if b then \<exists>c. hosts s h = Some (320, Some c) \<and> made_table E g gap c nf else g = 0)"

lemma staging_locals:
  "staging b j l M A (s\<lparr>l_factor := f, l_itab := i, l_wave := v\<rparr>) = staging b j l M A s"
proof -
  let ?s = "s\<lparr>l_factor := f, l_itab := i, l_wave := v\<rparr>"
  have "armed ?s = armed s" "want ?s = want s" "had ?s = had s"
    by (simp_all add: fun_eq_iff armed_def reify_def [abs_def] want_def had_def)
  then show ?thesis by (simp add: staging_def)
qed

definition table_done :: "gpu_env \<Rightarrow> gst \<Rightarrow> gst \<Rightarrow> hname \<Rightarrow> int \<Rightarrow> int option \<Rightarrow> int \<Rightarrow> sname \<Rightarrow> bool" where
  "table_done E s s' h n gap nf x \<longleftrightarrow> (\<exists>c. hosts s' = (hosts s)(h \<mapsto> (320, Some c)) \<and> made_table E n gap c nf) \<and>
     cfg s' = cfg s \<and> carried s' = carried s \<and> length (l_itab s') = 32 \<and> (\<forall>y. y \<noteq> x \<longrightarrow> surfs s' y = surfs s y)"

lemma table_H:
  assumes E: "all_ok E" and S: "staging b j l M A s" and x: "pParamSurfHUP \<notin> M" and G: "good_sizes s"
    and lt: "l_factor s = replicate 8 0" "length (l_itab s) = 32" "l_wave s = replicate 64 0"
    and k: "table_kept E b s pParamBufferULTH (gPitchX s) None (nfx s)" and A: "\<forall>(k, t, ws)\<in>set A. WS pParamSurfHUP \<notin> set ws"
  shows "\<exists>s'. gc_table_H E s = Next s' \<and> staging b j l (insert pParamSurfHUP M) A s' \<and>
    table_done E s s' pParamBufferULTH (usPitchX (cfg s)) None (nfx s') pParamSurfHUP \<and> nfy s' = nfy s"
proof -
  have n: "1 \<le> usPitchX (cfg s)" "usPitchX (cfg s) \<le> 32" using good_sizesD(1) [OF G] unfolding sizes_ok_def by blast+
  have d: "had s pParamSurfHUP = UP 320 pParamBufferULTH" "want s pParamSurfHUP = UP 320 pParamBufferULTH"
    by (simp_all add: had_def want_def surf_dims_def)
  show ?thesis
  proof (cases "gPitchX s = usPitchX (cfg s)")
    case True
    then have b: "b" using k n by (auto simp: table_kept_def split: if_splits)
    then obtain c where "hosts s pParamBufferULTH = Some (320, Some c)" "made_table E (usPitchX (cfg s)) None c (nfx s)"
      using k True by (auto simp: table_kept_def)
    then have "table_done E s s pParamBufferULTH (usPitchX (cfg s)) None (nfx s) pParamSurfHUP"
      using lt(2) by (auto simp: table_done_def intro!: exI [of _ c] fun_upd_idem [symmetric])
    moreover have "staging b j l (insert pParamSurfHUP M) A s" using keep_step [OF S b, of pParamSurfHUP] d by simp
    ultimately show ?thesis using True by (intro exI [of _ s]) (simp add: gc_table_H_def gpu_simps)
  next
    case False
    have h: "hosts s pParamBufferULTH \<noteq> None \<longleftrightarrow> b" using k by (simp only: table_kept_def)
    obtain s' c nf where s': "fill_table E (usPitchX (cfg s)) pParamBufferULTH None (\<lambda>nf s. s\<lparr>nfx := nf\<rparr>) pParamSurfHUP s = Next s'"
       "staging b j l (insert pParamSurfHUP M) A s'" "made_table E (usPitchX (cfg s)) None c nf"
       "hosts s' = (hosts s)(pParamBufferULTH \<mapsto> (320, Some c))" "nfx s' = nfx (s\<lparr>nfx := nf\<rparr>)" "nfy s' = nfy (s\<lparr>nfx := nf\<rparr>)"
       "cfg s' = cfg s" "gPitchX s' = gPitchX s" "gPitchY s' = gPitchY s" "gWidth s' = gWidth s" "gHeight s' = gHeight s"
       "lost s' = lost s" "events s' = events s" "length (l_itab s') = 32" "\<forall>y. y \<noteq> pParamSurfHUP \<longrightarrow> surfs s' y = surfs s y"
      using table_step [OF E S x n lt h d(2) A, where set_nf = "\<lambda>nf s. s\<lparr>nfx := nf\<rparr>" and gap = None] by blast
    then have "table_done E s s' pParamBufferULTH (usPitchX (cfg s)) None (nfx s') pParamSurfHUP"
      by (auto simp: table_done_def carried_def)
    then show ?thesis using s'(1,2,6) False by (intro exI [of _ s']) (simp add: gc_table_H_def gpu_simps)
  qed
qed

lemma table_V:
  assumes E: "all_ok E" and S: "staging b j l M A s" and x: "pParamBufferV \<notin> M" and G: "good_sizes s"
    and lt: "length (l_itab s) = 32"
    and k: "table_kept E b s pParamBufferULTV (gPitchY s) (Some 0) (nfy s)" and A: "\<forall>(k, t, ws)\<in>set A. WS pParamBufferV \<notin> set ws"
  shows "\<exists>s'. gc_table_V E s = Next s' \<and> staging b j l (insert pParamBufferV M) A s' \<and>
    table_done E s s' pParamBufferULTV (usPitchY (cfg s)) (Some 0) (nfy s') pParamBufferV \<and> nfx s' = nfx s"
proof -
  have n: "1 \<le> usPitchY (cfg s)" "usPitchY (cfg s) \<le> 32" using good_sizesD(1) [OF G] unfolding sizes_ok_def by blast+
  have d: "had s pParamBufferV = UP 320 pParamBufferULTV" "want s pParamBufferV = UP 320 pParamBufferULTV"
    by (simp_all add: had_def want_def surf_dims_def)
  show ?thesis
  proof (cases "gPitchY s = usPitchY (cfg s)")
    case True
    then have b: "b" using k n by (auto simp: table_kept_def split: if_splits)
    then obtain c where "hosts s pParamBufferULTV = Some (320, Some c)" "made_table E (usPitchY (cfg s)) (Some 0) c (nfy s)"
      using k True by (auto simp: table_kept_def)
    then have "table_done E s s pParamBufferULTV (usPitchY (cfg s)) (Some 0) (nfy s) pParamBufferV"
      using lt by (auto simp: table_done_def intro!: exI [of _ c] fun_upd_idem [symmetric])
    moreover have "staging b j l (insert pParamBufferV M) A s" using keep_step [OF S b, of pParamBufferV] d by simp
    ultimately show ?thesis using True by (intro exI [of _ s]) (simp add: gc_table_V_def gpu_simps)
  next
    case False
    define s1 where "s1 = s\<lparr>l_factor := replicate 8 0, l_itab := replicate 8 0 @ drop 8 (l_itab s), l_wave := replicate 64 0\<rparr>"
    have S1: "staging b j l M A s1" using S unfolding s1_def staging_locals .
    have f: "hosts s1 = hosts s" "cfg s1 = cfg s" "want s1 = want s" "nfx s1 = nfx s" "surfs s1 = surfs s" "carried s1 = carried s"
      "l_factor s1 = replicate 8 0" "length (l_itab s1) = 32" "l_wave s1 = replicate 64 0"
      using lt by (simp_all add: s1_def want_def carried_def del: replicate.simps)
    have h: "hosts s1 pParamBufferULTV \<noteq> None \<longleftrightarrow> b" using k f(1) by (simp only: table_kept_def)
    have w: "want s1 pParamBufferV = UP 320 pParamBufferULTV" using d(2) f(3) by simp
    obtain s' c nf where s': "fill_table E (usPitchY (cfg s)) pParamBufferULTV (Some 0) (\<lambda>nf s. s\<lparr>nfy := nf\<rparr>) pParamBufferV s1 = Next s'"
       "staging b j l (insert pParamBufferV M) A s'" "made_table E (usPitchY (cfg s)) (Some 0) c nf"
       "hosts s' = (hosts s1)(pParamBufferULTV \<mapsto> (320, Some c))" "nfx s' = nfx (s1\<lparr>nfy := nf\<rparr>)" "nfy s' = nfy (s1\<lparr>nfy := nf\<rparr>)"
       "cfg s' = cfg s1" "gPitchX s' = gPitchX s1" "gPitchY s' = gPitchY s1" "gWidth s' = gWidth s1" "gHeight s' = gHeight s1"
       "lost s' = lost s1" "events s' = events s1" "length (l_itab s') = 32" "\<forall>y. y \<noteq> pParamBufferV \<longrightarrow> surfs s' y = surfs s1 y"
      using table_step [OF E S1 x n f(7-9) h w A, where set_nf = "\<lambda>nf s. s\<lparr>nfy := nf\<rparr>" and gap = "Some 0"] by blast
    then have "table_done E s s' pParamBufferULTV (usPitchY (cfg s)) (Some 0) (nfy s') pParamBufferV"
      using f by (auto simp: table_done_def carried_def)
    moreover have "gc_table_V E s = Next s'" using False s'(1) f(2) by (simp add: gc_table_V_def gpu_simps s1_def [symmetric])
    ultimately show ?thesis using s'(2,5) f(4) by (intro exI [of _ s']) simp
  qed
qed

definition fwd_wires :: "gst \<Rightarrow> (kname \<times> tname \<times> warg list) list" where
  "fwd_wires s = [(kernel_H_F_0, pTS0, wH s pInputSurf0 pOutputSurf_H_F_0), (kernel_V_F_0, pTS1, wV s pOutputSurf_H_F_0 pOutputSurf_V_F_0),
     (kernel_H_F_1, pTS2, wH s pInputSurf1 pOutputSurf_H_F_1), (kernel_V_F_1, pTS3, wV s pOutputSurf_H_F_1 pOutputSurf_V_F_1)]"

definition inv_wires :: "gst \<Rightarrow> (kname \<times> tname \<times> warg list) list" where
  "inv_wires s = [(kernel_MulSpec, pTS4, wM s pOutputSurf_V_F_0 pOutputSurf_V_F_1 pMulSpectrumSurf),
     (kernel_H_I, pTS_DFT_FWD_H, wH s pMulSpectrumSurf pOutputSurf_H_V_1),
     (kernel_V_I, pTS_DFT_FWD_V, wV s pOutputSurf_H_V_1 pOutputSurf_V_V_1),
     (kernel_ImageSum, pTSImageSum, wS s pOutputSurf_V_V_1 pOutputInvSumSurf)]"

definition M_in :: "sname set" where "M_in = {pOutputSurf_H_F_0, pInputSurf0, pInputSurf1}"

definition M_fwd :: "sname set" where
  "M_fwd = insert pOutputSurf_V_F_1 (insert pOutputSurf_H_F_1 (insert pOutputSurf_V_F_0
     (insert pParamBufferV (insert pParamSurfHUP M_in))))"

definition inputs_same :: "gst \<Rightarrow> gst \<Rightarrow> bool" where
  "inputs_same s' s \<longleftrightarrow> surfs s' pInputSurf0 = surfs s pInputSurf0 \<and> surfs s' pInputSurf1 = surfs s pInputSurf1"

lemma done_stageD:
  assumes "done_stage E b j M A s f s'"
  shows "f s = Next s'" "staging b j j M A s'" "rest s' = rest s" "inputs_same s' s"
  using assms by (simp_all add: done_stage_def inputs_same_def)

lemma w_same:
  assumes "cfg s' = cfg s"
  shows "nfx s' = nfx s \<Longrightarrow> wH s' = wH s" "nfy s' = nfy s \<Longrightarrow> wV s' = wV s" "wM s' = wM s" "wS s' = wS s"
  by (simp_all add: wH_def wV_def wM_def wS_def assms fun_eq_iff)

lemma carried_good: "carried s' = carried s \<Longrightarrow> cfg s' = cfg s \<Longrightarrow> good_sizes s' = good_sizes s"
  using carriedD [of s' s] by (simp only: good_sizes_def)

lemma forward_ok:
  assumes E: "all_ok E" and S: "staging b 0 0 M_in [] s" and G: "good_sizes s"
    and lt: "l_factor s = replicate 8 0" "length (l_itab s) = 32" "l_wave s = replicate 64 0"
    and kH: "table_kept E b s pParamBufferULTH (gPitchX s) None (nfx s)"
    and kV: "table_kept E b s pParamBufferULTV (gPitchY s) (Some 0) (nfy s)"
  shows "\<exists>s'. run [gc_table_H E, gc_stage_H0 E, gc_table_V E, gc_stage_V0 E, gc_stage_H1 E, gc_stage_V1 E] s = Next s' \<and>
    staging b 4 4 M_fwd (fwd_wires s') s' \<and> cfg s' = cfg s \<and> carried s' = carried s \<and> inputs_same s' s \<and>
    (\<exists>cH cV. hosts s' = (hosts s)(pParamBufferULTH \<mapsto> (320, Some cH), pParamBufferULTV \<mapsto> (320, Some cV)) \<and>
       made_table E (usPitchX (cfg s)) None cH (nfx s') \<and> made_table E (usPitchY (cfg s)) (Some 0) cV (nfy s'))"
proof -
  obtain s1 where s1: "gc_table_H E s = Next s1" "staging b 0 0 (insert pParamSurfHUP M_in) [] s1"
    "table_done E s s1 pParamBufferULTH (usPitchX (cfg s)) None (nfx s1) pParamSurfHUP" "nfy s1 = nfy s"
    using table_H [OF E S _ G lt kH] by (auto simp: M_in_def)
  note d1 = s1(3) [unfolded table_done_def]
  have G1: "good_sizes s1" using G carried_good [of s1 s] d1 by blast
  obtain s2 where s2: "done_stage E b (Suc 0) (insert pParamSurfHUP M_in) ([] @ [(kernel_H_F_0, pTS0, wH s1 pInputSurf0 pOutputSurf_H_F_0)]) s1 (gc_stage_H0 E) s2"
    using arm_H [OF E s1(2), of kernel_H_F_0 pTS0 pInputSurf0 pOutputSurf_H_F_0] good_sizesD(1) [OF G1]
    unfolding gc_stage_H0_def by (simp add: M_in_def korder_def torder_def kernel_fun_def) blast
  note D2 = done_stageD [OF s2] and R2 = rest_eqD [OF done_stageD(3) [OF s2]]
  have c2: "cfg s2 = cfg s" "carried s2 = carried s" using R2 rest_carried [OF D2(3)] d1 by simp_all
  have G2: "good_sizes s2" using G carried_good [OF c2(2,1)] by blast
  have l2: "length (l_itab s2) = 32" using R2 d1 by simp
  have kV2: "table_kept E b s2 pParamBufferULTV (gPitchY s2) (Some 0) (nfy s2)"
    using kV s1(4) R2 d1 carriedD(4) [OF c2(2)] by (auto simp: table_kept_def)
  obtain s3 where s3: "gc_table_V E s2 = Next s3"
    "staging b (Suc 0) (Suc 0) (insert pParamBufferV (insert pParamSurfHUP M_in)) [(kernel_H_F_0, pTS0, wH s1 pInputSurf0 pOutputSurf_H_F_0)] s3"
    "table_done E s2 s3 pParamBufferULTV (usPitchY (cfg s2)) (Some 0) (nfy s3) pParamBufferV" "nfx s3 = nfx s2"
    using table_V [OF E D2(2) _ G2 l2 kV2] by (auto simp: M_in_def wH_def)
  note d3 = s3(3) [unfolded table_done_def]
  have c3: "cfg s3 = cfg s" "carried s3 = carried s" using d3 c2 by simp_all
  have G3: "good_sizes s3" using G carried_good [OF c3(2,1)] by blast
  have w1: "wH s1 = wH s3" using w_same(1) [of s1 s3] s3(4) R2 c3 d1 by simp
  obtain s4 where s4: "done_stage E b (Suc 1) (insert pOutputSurf_V_F_0 (insert pParamBufferV (insert pParamSurfHUP M_in)))
     ([(kernel_H_F_0, pTS0, wH s3 pInputSurf0 pOutputSurf_H_F_0)] @ [(kernel_V_F_0, pTS1, wV s3 pOutputSurf_H_F_0 pOutputSurf_V_F_0)]) s3 (gc_stage_V0 E) s4"
    using stage_V [OF E s3(2) [unfolded One_nat_def [symmetric] w1] G3, of pOutputSurf_V_F_0 kernel_V_F_0 pTS1 pOutputSurf_H_F_0]
    unfolding gc_stage_V0_def by (simp add: M_in_def korder_def torder_def kernel_fun_def wH_def) blast
  note D4 = done_stageD [OF s4] and R4 = rest_eqD [OF done_stageD(3) [OF s4]]
  have G4: "good_sizes s4" using G3 rest_good [OF D4(3)] by simp
  obtain s5 where s5: "done_stage E b (Suc 2) (insert pOutputSurf_H_F_1 (insert pOutputSurf_V_F_0 (insert pParamBufferV (insert pParamSurfHUP M_in))))
     (([(kernel_H_F_0, pTS0, wH s3 pInputSurf0 pOutputSurf_H_F_0)] @ [(kernel_V_F_0, pTS1, wV s3 pOutputSurf_H_F_0 pOutputSurf_V_F_0)])
       @ [(kernel_H_F_1, pTS2, wH s4 pInputSurf1 pOutputSurf_H_F_1)]) s4 (gc_stage_H1 E) s5"
    using stage_H [OF E D4(2) [unfolded Suc_1] G4, of pOutputSurf_H_F_1 kernel_H_F_1 pTS2 pInputSurf1]
    unfolding gc_stage_H1_def by (simp add: M_in_def korder_def torder_def kernel_fun_def wH_def wV_def) blast
  note D5 = done_stageD [OF s5] and R5 = rest_eqD [OF done_stageD(3) [OF s5]]
  have G5: "good_sizes s5" using G4 rest_good [OF D5(3)] by simp
  obtain s6 where s6: "done_stage E b (Suc 3) M_fwd
     ((([(kernel_H_F_0, pTS0, wH s3 pInputSurf0 pOutputSurf_H_F_0)] @ [(kernel_V_F_0, pTS1, wV s3 pOutputSurf_H_F_0 pOutputSurf_V_F_0)])
       @ [(kernel_H_F_1, pTS2, wH s4 pInputSurf1 pOutputSurf_H_F_1)]) @ [(kernel_V_F_1, pTS3, wV s5 pOutputSurf_H_F_1 pOutputSurf_V_F_1)])
     s5 (gc_stage_V1 E) s6"
    using stage_V [OF E D5(2) [unfolded eval_nat_numeral(3) [symmetric]] G5, of pOutputSurf_V_F_1 kernel_V_F_1 pTS3 pOutputSurf_H_F_1]
    unfolding gc_stage_V1_def M_fwd_def by (simp add: M_in_def korder_def torder_def kernel_fun_def wH_def wV_def) blast
  note D6 = done_stageD [OF s6] and R6 = rest_eqD [OF done_stageD(3) [OF s6]]
  have w: "wH s6 = wH s3" "wV s6 = wV s3" "wH s4 = wH s3" "wV s5 = wV s3"
    using wH_rest [OF D4(3)] wH_rest [OF D5(3)] wH_rest [OF D6(3)] by simp_all
  have "run [gc_table_H E, gc_stage_H0 E, gc_table_V E, gc_stage_V0 E, gc_stage_H1 E, gc_stage_V1 E] s = Next s6"
    using s1(1) D2(1) s3(1) D4(1) D5(1) D6(1) by simp
  moreover have "staging b 4 4 M_fwd (fwd_wires s6) s6" using D6(2) by (simp add: fwd_wires_def w)
  moreover have "cfg s6 = cfg s" "carried s6 = carried s"
    using c3 R4 R5 R6 rest_carried [OF D4(3)] rest_carried [OF D5(3)] rest_carried [OF D6(3)] by simp_all
  moreover have "inputs_same s6 s" using D2(4) D4(4) D5(4) D6(4) d1 d3 by (simp add: inputs_same_def)
  moreover have "hosts s6 = hosts s3" "nfx s6 = nfx s1" "nfy s6 = nfy s3" "hosts s2 = hosts s1" "cfg s2 = cfg s"
    using R2 R4 R5 R6 s3(4) c2 by simp_all
  ultimately show ?thesis using d1 d3 by (intro exI [of _ s6]) fastforce
qed

lemma staging_cfg:
  assumes "want (s\<lparr>cfg := c\<rparr>) = want s"
  shows "staging b j l M A (s\<lparr>cfg := c\<rparr>) = staging b j l M A s"
proof -
  have "armed (s\<lparr>cfg := c\<rparr>) = armed s" "had (s\<lparr>cfg := c\<rparr>) = had s"
    by (simp_all add: fun_eq_iff armed_def reify_def [abs_def] had_def)
  then show ?thesis using assms by (simp add: staging_def)
qed

definition inv_cfg :: "sPerfProfileParam \<Rightarrow> sPerfProfileParam" where
  "inv_cfg c = c\<lparr>bInv := True, fScale := fdiv 1 (i2f (usPitchX c * usPitchY c))\<rparr>"

definition M_all :: "sname set" where
  "M_all = insert pOutputInvSumSurf (insert pOutputSurf_V_V_1 (insert pOutputSurf_H_V_1 (insert pMulSpectrumSurf M_fwd)))"

lemma fwd_slots:
  "\<forall>(k, t, ws)\<in>set (fwd_wires s). WS pMulSpectrumSurf \<notin> set ws \<and> WS pOutputSurf_H_V_1 \<notin> set ws \<and> WS pOutputSurf_V_V_1 \<notin> set ws
     \<and> WS pOutputInvSumSurf \<notin> set ws"
  "fst ` set (fwd_wires s) = {kernel_H_F_0, kernel_V_F_0, kernel_H_F_1, kernel_V_F_1}"
  "(fst \<circ> snd) ` set (fwd_wires s) = {pTS0, pTS1, pTS2, pTS3}"
  by (simp_all add: fwd_wires_def wH_def wV_def)

lemma mul_kernel:
  assumes "all_ok E" "program s" "tasks s pKernelArray \<noteq> None"
  shows "guarded (\<lambda>s. kernels s kernel_MulSpec = None) [need program, tried E (CreateKernel kernel_MulSpec ''mulSpectrums''),
       AddKernel_tried E pKernelArray kernel_MulSpec, AddSync E pKernelArray] s = ensure_kernel E kernel_MulSpec ''mulSpectrums'' s"
  using assms by (simp add: ensure_kernel_def gpu_simps)

lemma stage_mul:
  assumes E: "all_ok E" and S: "staging b 4 4 M_fwd A s" and G: "good_sizes s" and A: "A = fwd_wires s0"
  shows "\<exists>s'. done_stage E b 5 (insert pMulSpectrumSurf M_fwd)
    (A @ [(kernel_MulSpec, pTS4, wM s pOutputSurf_V_F_0 pOutputSurf_V_F_1 pMulSpectrumSurf)]) s (gc_stage_mul E) s'"
proof -
  have "\<exists>s'. done_stage E b (Suc 4) (insert pMulSpectrumSurf M_fwd)
    (A @ [(kernel_MulSpec, pTS4, wM s pOutputSurf_V_F_0 pOutputSurf_V_F_1 pMulSpectrumSurf)]) s
    (run (remake E new_size pMulSpectrumSurf (\<lambda>s. Pixels (usOutWidth (cfg s) * 2) (usOutHeight (cfg s))) #
      [ensure_kernel E kernel_MulSpec ''mulSpectrums'', Call_MulSpec E kernel_MulSpec pOutputSurf_V_F_0 pOutputSurf_V_F_1 pMulSpectrumSurf pTS4])) s'"
  proof (rule make_then_arm [OF E S G])
    fix s1 assume s1: "staging b 4 4 (insert pMulSpectrumSurf M_fwd) A s1" "rest s1 = rest s"
    have "sizes_ok (cfg s1)" by (rule rest_sizes [OF s1(2) good_sizesD(1) [OF G]])
    from arm_M [OF E s1(1) this]
    have "\<exists>s'. done_stage E b (Suc 4) (insert pMulSpectrumSurf M_fwd)
      (A @ [(kernel_MulSpec, pTS4, wM s pOutputSurf_V_F_0 pOutputSurf_V_F_1 pMulSpectrumSurf)]) s1
      (run [ensure_kernel E kernel_MulSpec ''mulSpectrums'', Call_MulSpec E kernel_MulSpec pOutputSurf_V_F_0 pOutputSurf_V_F_1 pMulSpectrumSurf pTS4]) s'"
      unfolding wH_rest(3) [OF s1(2)] A fwd_slots by (simp add: M_fwd_def)
    then show "\<exists>s'. done_stage E b (Suc 4) (insert pMulSpectrumSurf M_fwd)
      (A @ [(kernel_MulSpec, pTS4, wM s pOutputSurf_V_F_0 pOutputSurf_V_F_1 pMulSpectrumSurf)]) s1
      (run [ensure_kernel E kernel_MulSpec ''mulSpectrums'', Call_MulSpec E kernel_MulSpec pOutputSurf_V_F_0 pOutputSurf_V_F_1 pMulSpectrumSurf pTS4]) s'" .
  next
    show "\<forall>(k, t, ws)\<in>set A. WS pMulSpectrumSurf \<notin> set ws" using fwd_slots(1) [of s0] unfolding A by blast
  qed (simp_all add: M_fwd_def M_in_def want_def surf_dims_def)
  then obtain s' where s': "done_stage E b (Suc 4) (insert pMulSpectrumSurf M_fwd)
    (A @ [(kernel_MulSpec, pTS4, wM s pOutputSurf_V_F_0 pOutputSurf_V_F_1 pMulSpectrumSurf)]) s
    (run (remake E new_size pMulSpectrumSurf (\<lambda>s. Pixels (usOutWidth (cfg s) * 2) (usOutHeight (cfg s))) #
      [ensure_kernel E kernel_MulSpec ''mulSpectrums'', Call_MulSpec E kernel_MulSpec pOutputSurf_V_F_0 pOutputSurf_V_F_1 pMulSpectrumSurf pTS4])) s'" by blast
  define d :: "gst \<Rightarrow> dims" where "d = (\<lambda>s. Pixels (usOutWidth (cfg s) * 2) (usOutHeight (cfg s)))"
  have r: "remake E new_size pMulSpectrumSurf d s = Next (remade new_size pMulSpectrumSurf d s)"
    by (rule remake_ok [OF E]) (simp add: d_def)
  have "gc_stage_mul E s = run (remake E new_size pMulSpectrumSurf d #
      [ensure_kernel E kernel_MulSpec ''mulSpectrums'', Call_MulSpec E kernel_MulSpec pOutputSurf_V_F_0 pOutputSurf_V_F_1 pMulSpectrumSurf pTS4]) s"
    using S unfolding gc_stage_mul_def d_def [symmetric] run.simps r outcome.case
    by (subst mul_kernel [OF E]) (simp_all add: remade_simps staging_def)
  then have "done_stage E b (Suc 4) (insert pMulSpectrumSurf M_fwd)
    (A @ [(kernel_MulSpec, pTS4, wM s pOutputSurf_V_F_0 pOutputSurf_V_F_1 pMulSpectrumSurf)]) s (gc_stage_mul E) s'"
    using s' unfolding done_stage_def d_def by simp
  then show ?thesis by auto
qed

lemma stage_invV:
  assumes E: "all_ok E" and D: "staging b 6 6 M A2 s3" and G3: "good_sizes s3" and M: "pOutputSurf_V_V_1 \<notin> M" "pOutputSurf_H_V_1 \<in> M" "pParamBufferV \<in> M"
    and A2: "\<forall>(k, t, ws)\<in>set A2. WS pOutputSurf_V_V_1 \<notin> set ws" "kernel_V_I \<notin> fst ` set A2" "pTS_DFT_FWD_V \<notin> (fst \<circ> snd) ` set A2"
    and c3: "inv_cfg (cfg s3) = inv_cfg c0"  "bInv (cfg s3)"
  shows "\<exists>s4. gc_stage_invV E s3 = Next s4 \<and> staging b 7 7 (insert pOutputSurf_V_V_1 M)
      (A2 @ [(kernel_V_I, pTS_DFT_FWD_V, wV s4 pOutputSurf_H_V_1 pOutputSurf_V_V_1)]) s4 \<and>
      cfg s4 = inv_cfg c0 \<and> carried s4 = carried s3 \<and> hosts s4 = hosts s3 \<and> nfx s4 = nfx s3 \<and> nfy s4 = nfy s3 \<and> inputs_same s4 s3"
proof -
  have n3: "int_ok (usPitchX (cfg s3) * usPitchY (cfg s3))" "usPitchX (cfg s3) * usPitchY (cfg s3) \<noteq> 0"
    using small_products(4,7) [OF good_sizesD(1) [OF G3]] by auto
  have "\<not> new_size_in s3 \<Longrightarrow> had s3 pOutputSurf_V_V_1 = want s3 pOutputSurf_V_V_1" by (rule same_size_in(1) [OF G3])
  with make_step [OF E D M(1), of complex_bytes new_size_in] A2(1) complex_want [of pOutputSurf_V_V_1 s3]
  obtain t1 where t1: "remake E new_size_in pOutputSurf_V_V_1 complex_bytes s3 = Next t1"
    "staging b 6 6 (insert pOutputSurf_V_V_1 M) A2 t1" "rest t1 = rest s3"
    "\<forall>y. y \<noteq> pOutputSurf_V_V_1 \<longrightarrow> surfs t1 y = surfs s3 y"
    by (simp add: complex_bytes_def) blast
  note Q1 = rest_eqD [OF t1(3)]
  have e: "ensure_kernel E kernel_V_I ''fftd_v'' t1 = Next (ensured kernel_V_I ''fftd_v'' t1)"
    using t1(2) E by (intro ensure_kernel_ok) (simp_all add: staging_def)
  define c where "c = inv_cfg c0"
  have c: "(cfg t1)\<lparr>fScale := fdiv 1 (i2f (usPitchX (cfg t1) * usPitchY (cfg t1)))\<rparr> = c"
  proof -
    have "(cfg s3)\<lparr>bInv := True\<rparr> = cfg s3" using c3(2) by (cases "cfg s3") simp
    then show ?thesis unfolding c_def c3(1) [symmetric] Q1(1) by (simp add: inv_cfg_def)
  qed
  define t2 where "t2 = t1\<lparr>cfg := c\<rparr>"
  have comm: "ensure_kernel E kernel_V_I ''fftd_v'' t2 = Next ((ensured kernel_V_I ''fftd_v'' t1)\<lparr>cfg := c\<rparr>)"
  proof -
    have "ensured kernel_V_I ''fftd_v'' t2 = (ensured kernel_V_I ''fftd_v'' t1)\<lparr>cfg := c\<rparr>"
      by (cases t1) (simp add: ensured_def t2_def)
    moreover have "ensure_kernel E kernel_V_I ''fftd_v'' t2 = Next (ensured kernel_V_I ''fftd_v'' t2)"
      using t1(2) E by (intro ensure_kernel_ok) (simp_all add: staging_def t2_def)
    ultimately show ?thesis by simp
  qed
  have w2: "want t2 = want t1" by (simp add: t2_def want_def c [symmetric])
  have S: "staging b 6 6 (insert pOutputSurf_V_V_1 M) A2 t2"
    using t1(2) w2 unfolding t2_def by (subst staging_cfg) simp_all
  have sz: "sizes_ok (cfg t2)" using good_sizesD(1) [OF G3] Q1(1) by (simp add: t2_def c [symmetric] sizes_ok_def)
  obtain s4 where s4: "done_stage E b (Suc 6) (insert pOutputSurf_V_V_1 M)
      (A2 @ [(kernel_V_I, pTS_DFT_FWD_V, wV t2 pOutputSurf_H_V_1 pOutputSurf_V_V_1)]) t2
      (run [ensure_kernel E kernel_V_I ''fftd_v'', Call_DFT_FWD_V E kernel_V_I pOutputSurf_H_V_1 pParamBufferV pOutputSurf_V_V_1 pTS_DFT_FWD_V]) s4"
    using arm_V [OF E S, of kernel_V_I pTS_DFT_FWD_V pOutputSurf_H_V_1 pOutputSurf_V_V_1] sz M A2(2,3)
    by (simp add: korder_def torder_def kernel_fun_def) blast
  note D4 = done_stageD [OF s4] and R4 = rest_eqD [OF done_stageD(3) [OF s4]]
  have "gc_stage_invV E s3 = Next s4"
  proof -
    have "int_ok (usPitchX (cfg t1) * usPitchY (cfg t1))" "usPitchX (cfg t1) * usPitchY (cfg t1) \<noteq> 0" using n3 by (simp_all add: Q1)
    then show ?thesis
      using D4(1) unfolding gc_stage_invV_def
      by (simp add: t1(1) e comm gpu_simps c)
  qed
  moreover have "wV s4 = wV t2" by (rule wH_rest(2) [OF D4(3)])
  moreover have "carried s4 = carried s3"
    using rest_carried [OF D4(3)] rest_carried [OF t1(3)] by (simp add: t2_def carried_def)
  moreover have "cfg s4 = c" "hosts s4 = hosts s3" "nfx s4 = nfx s3" "nfy s4 = nfy s3"
    using R4 Q1 by (simp_all add: t2_def)
  moreover have "inputs_same s4 s3" using D4(4) t1(4) by (simp add: inputs_same_def t2_def)
  ultimately show ?thesis using D4(2) unfolding c_def by (intro exI [of _ s4]) simp
qed

lemma inverse_ok:
  assumes E: "all_ok E" and S: "staging b 4 4 M_fwd (fwd_wires s) s" and G: "good_sizes s"
  shows "\<exists>s'. run [gc_stage_mul E, gc_stage_invH E, gc_stage_invV E, gc_stage_sum E] s = Next s' \<and>
    staging b 8 8 M_all (fwd_wires s @ inv_wires s') s' \<and> cfg s' = inv_cfg (cfg s) \<and> carried s' = carried s \<and>
    hosts s' = hosts s \<and> nfx s' = nfx s \<and> nfy s' = nfy s \<and> inputs_same s' s"
proof -
  define A0 where "A0 = fwd_wires s"
  obtain s1 where s1: "done_stage E b 5 (insert pMulSpectrumSurf M_fwd)
     (A0 @ [(kernel_MulSpec, pTS4, wM s pOutputSurf_V_F_0 pOutputSurf_V_F_1 pMulSpectrumSurf)]) s (gc_stage_mul E) s1"
    using stage_mul [OF E S G refl] unfolding A0_def by blast
  define A1 where "A1 = A0 @ [(kernel_MulSpec, pTS4, wM s pOutputSurf_V_F_0 pOutputSurf_V_F_1 pMulSpectrumSurf)]"
  note D1 = done_stageD [OF s1 [folded A1_def]] and R1 = rest_eqD [OF done_stageD(3) [OF s1]]
  have A1: "\<forall>(k, t, ws)\<in>set A1. WS pOutputSurf_H_V_1 \<notin> set ws \<and> WS pOutputSurf_V_V_1 \<notin> set ws \<and> WS pOutputInvSumSurf \<notin> set ws"
    "fst ` set A1 = {kernel_H_F_0, kernel_V_F_0, kernel_H_F_1, kernel_V_F_1, kernel_MulSpec}"
    "(fst \<circ> snd) ` set A1 = {pTS0, pTS1, pTS2, pTS3, pTS4}"
    using fwd_slots [of s] unfolding A1_def A0_def by (simp_all add: wM_def image_Un insert_commute) blast
  define s2 where "s2 = s1\<lparr>cfg := (cfg s1)\<lparr>bInv := True\<rparr>\<rparr>"
  have S2: "staging b 5 5 (insert pMulSpectrumSurf M_fwd) A1 s2"
    unfolding s2_def using D1(2) by (subst staging_cfg) (simp_all add: want_def)
  have f2: "cfg s2 = (cfg s)\<lparr>bInv := True\<rparr>" "carried s2 = carried s" "hosts s2 = hosts s" "nfx s2 = nfx s" "nfy s2 = nfy s"
    "inputs_same s2 s"
    using R1 rest_carried [OF D1(3)] D1(4) by (simp_all add: s2_def carried_def inputs_same_def)
  have G2: "good_sizes s2" using G carriedD [OF f2(2)] by (simp add: good_sizes_def f2(1) sizes_ok_def)
  obtain s3 where s3: "done_stage E b (Suc 5) (insert pOutputSurf_H_V_1 (insert pMulSpectrumSurf M_fwd))
     (A1 @ [(kernel_H_I, pTS_DFT_FWD_H, wH s2 pMulSpectrumSurf pOutputSurf_H_V_1)]) s2
     (run [remake E new_size_in pOutputSurf_H_V_1 complex_bytes, ensure_kernel E kernel_H_I ''fftd_h'',
       Call_DFT_FWD_H E kernel_H_I pMulSpectrumSurf pParamSurfHUP pOutputSurf_H_V_1 pTS_DFT_FWD_H]) s3"
    using stage_H [OF E S2 G2, of pOutputSurf_H_V_1 kernel_H_I pTS_DFT_FWD_H pMulSpectrumSurf] A1
    by (simp add: M_fwd_def M_in_def korder_def torder_def kernel_fun_def) blast
  define A2 where "A2 = A1 @ [(kernel_H_I, pTS_DFT_FWD_H, wH s2 pMulSpectrumSurf pOutputSurf_H_V_1)]"
  note D3 = done_stageD [OF s3 [folded A2_def]] and R3 = rest_eqD [OF done_stageD(3) [OF s3]]
  have A2: "\<forall>(k, t, ws)\<in>set A2. WS pOutputSurf_V_V_1 \<notin> set ws \<and> WS pOutputInvSumSurf \<notin> set ws"
    "fst ` set A2 = insert kernel_H_I {kernel_H_F_0, kernel_V_F_0, kernel_H_F_1, kernel_V_F_1, kernel_MulSpec}"
    "(fst \<circ> snd) ` set A2 = insert pTS_DFT_FWD_H {pTS0, pTS1, pTS2, pTS3, pTS4}"
    using A1 unfolding A2_def by (simp_all add: wH_def image_Un) blast
  have G3: "good_sizes s3" using G2 rest_good [OF D3(3)] by simp
  have S3: "staging b 6 6 (insert pOutputSurf_H_V_1 (insert pMulSpectrumSurf M_fwd)) A2 s3" using D3(2) by simp
  have c3: "inv_cfg (cfg s3) = inv_cfg (cfg s)" "bInv (cfg s3)" by (simp_all add: R3 f2 inv_cfg_def)
  obtain s4 where s4: "gc_stage_invV E s3 = Next s4"
      "staging b 7 7 (insert pOutputSurf_V_V_1 (insert pOutputSurf_H_V_1 (insert pMulSpectrumSurf M_fwd)))
      (A2 @ [(kernel_V_I, pTS_DFT_FWD_V, wV s4 pOutputSurf_H_V_1 pOutputSurf_V_V_1)]) s4"
      "cfg s4 = inv_cfg (cfg s)" "carried s4 = carried s3" "hosts s4 = hosts s3" "nfx s4 = nfx s3" "nfy s4 = nfy s3" "inputs_same s4 s3"
    using stage_invV [OF E S3 G3 _ _ _ _ _ _ c3] A2 by (simp add: M_fwd_def M_in_def) blast
  define A3 where "A3 = A2 @ [(kernel_V_I, pTS_DFT_FWD_V, wV s4 pOutputSurf_H_V_1 pOutputSurf_V_V_1)]"
  have A3: "\<forall>(k, t, ws)\<in>set A3. WS pOutputInvSumSurf \<notin> set ws" "kernel_ImageSum \<notin> fst ` set A3" "pTSImageSum \<notin> (fst \<circ> snd) ` set A3"
    using A2 unfolding A3_def by (simp_all add: wV_def image_Un) blast
  have G4: "good_sizes s4"
    using good_sizesD(1) [OF G] good_sizesD(2) [OF G3] carriedD [OF s4(4)] s4(3) by (simp add: good_sizes_def inv_cfg_def sizes_ok_def)
  have "\<exists>s'. done_stage E b (Suc 7) M_all (A3 @ [(kernel_ImageSum, pTSImageSum, wS s4 pOutputSurf_V_V_1 pOutputInvSumSurf)]) s4 (gc_stage_sum E) s'"
    unfolding gc_stage_sum_def M_all_def
  proof (rule make_then_arm [OF E s4(2) [folded A3_def] G4])
    fix u assume u: "staging b 7 7 (insert pOutputInvSumSurf (insert pOutputSurf_V_V_1 (insert pOutputSurf_H_V_1 (insert pMulSpectrumSurf M_fwd)))) A3 u"
      "rest u = rest s4"
    have "sizes_ok (cfg u)" by (rule rest_sizes [OF u(2) good_sizesD(1) [OF G4]])
    from arm_S [OF E u(1) this _ A3(2,3)]
    have "\<exists>s'. done_stage E b (Suc 7) (insert pOutputInvSumSurf (insert pOutputSurf_V_V_1 (insert pOutputSurf_H_V_1 (insert pMulSpectrumSurf M_fwd))))
       (A3 @ [(kernel_ImageSum, pTSImageSum, wS s4 pOutputSurf_V_V_1 pOutputInvSumSurf)]) u
       (run [ensure_kernel E kernel_ImageSum ''InvRealSum'', Call_ImageSum E kernel_ImageSum pOutputSurf_V_V_1 pOutputInvSumSurf pTSImageSum]) s'"
      unfolding wH_rest(4) [OF u(2)] by simp
    then show "\<exists>s'. done_stage E b (Suc 7) (insert pOutputInvSumSurf (insert pOutputSurf_V_V_1 (insert pOutputSurf_H_V_1 (insert pMulSpectrumSurf M_fwd))))
       (A3 @ [(kernel_ImageSum, pTSImageSum, wS s4 pOutputSurf_V_V_1 pOutputInvSumSurf)]) u
       (run [ensure_kernel E kernel_ImageSum ''InvRealSum'', Call_ImageSum E kernel_ImageSum pOutputSurf_V_V_1 pOutputInvSumSurf pTSImageSum]) s'" .
  next
    show "\<forall>(k, t, ws)\<in>set A3. WS pOutputInvSumSurf \<notin> set ws" by (rule A3(1))
  qed (simp_all add: M_fwd_def M_in_def want_def surf_dims_def)
  then obtain s5 where s5: "done_stage E b (Suc 7) M_all (A3 @ [(kernel_ImageSum, pTSImageSum, wS s4 pOutputSurf_V_V_1 pOutputInvSumSurf)]) s4 (gc_stage_sum E) s5" by blast
  note D5 = done_stageD [OF s5] and R5 = rest_eqD [OF done_stageD(3) [OF s5]]
  have i3: "gc_stage_invH E s1 = Next s3" using D3(1) by (simp add: gc_stage_invH_def gpu_simps s2_def)
  have "wM s = wM s5" "wH s2 = wH s5" "wV s4 = wV s5" "wS s4 = wS s5"
    using R5 s4 R3 f2 by (simp_all add: wM_def wH_def wV_def wS_def fun_eq_iff inv_cfg_def)
  then have A: "A3 @ [(kernel_ImageSum, pTSImageSum, wS s4 pOutputSurf_V_V_1 pOutputInvSumSurf)] = fwd_wires s @ inv_wires s5"
    by (simp add: A3_def A2_def A1_def A0_def inv_wires_def)
  have "run [gc_stage_mul E, gc_stage_invH E, gc_stage_invV E, gc_stage_sum E] s = Next s5"
    using D1(1) i3 s4(1) D5(1) by simp
  moreover have "staging b 8 8 M_all (fwd_wires s @ inv_wires s5) s5" using D5(2) unfolding A by simp
  moreover have "cfg s5 = inv_cfg (cfg s)" "hosts s5 = hosts s" "nfx s5 = nfx s" "nfy s5 = nfy s"
    using R5 s4 R3 f2 by simp_all
  moreover have "carried s5 = carried s" using rest_carried [OF D5(3)] s4(4) rest_carried [OF D3(3)] f2(2) by simp
  moreover have "inputs_same s5 s" using D5(4) s4(8) D3(4) f2(6) by (simp add: inputs_same_def)
  ultimately show ?thesis by blast
qed

end
