(* ===== verification/KcfGpuRun.thy ===== *)
theory KcfGpuRun
  imports KcfGpuStages
begin

text \<open>
  The run of the task and of the two kernels of the sums. \<open>gauss\<close> holds the constants of a correlation and
  \<open>spectrum\<close>, \<open>cross_sum\<close>, \<open>square_sum\<close> say what it computes as a composition of kernels; \<open>exec_forward\<close> and
  \<open>exec_inverse\<close> show that the task does so, \<open>source_sum_ok\<close> and \<open>final_ok\<close> follow the two single tasks.
\<close>

section \<open>Execution of the task\<close>

definition cont :: "gst \<Rightarrow> sname \<Rightarrow> content option" where
  "cont s x = (case surfs s x of None \<Rightarrow> None | Some sf \<Rightarrow> surf_data s sf)"

definition val :: "gst \<Rightarrow> warg \<Rightarrow> kval" where
  "val s a = (case a of WS x \<Rightarrow> Data (cont s x)
     | WV v \<Rightarrow> (case v of Num n \<Rightarrow> VNum n | Flt f \<Rightarrow> VFlt f | Flag b \<Rightarrow> VFlag b | Surf x n \<Rightarrow> Data (cont s x)))"

definition plain :: "warg list \<Rightarrow> bool" where
  "plain ws \<longleftrightarrow> (\<forall>x n. WV (Surf x n) \<notin> set ws)"

lemma arg_val_reify:
  assumes "kargs kr = put_from 0 (map (reify s) ws) m" "i < length ws" "plain ws" "\<forall>x. WS x \<in> set ws \<longrightarrow> surfs s x \<noteq> None"
    and "i = out_arg (kfun kr) \<Longrightarrow> \<exists>x. ws ! i = WS x"
  shows "arg_val s kr i = Some (if i = out_arg (kfun kr) then Out else val s (ws ! i))"
proof (cases "ws ! i")
  case (WS x)
  then have "WS x \<in> set ws" using assms(2) by (metis nth_mem)
  then obtain sf where "surfs s x = Some sf" using assms(4) by auto
  then show ?thesis using assms(1,2) WS by (auto simp: arg_val_def put_from_nth reify_def val_def cont_def)
next
  case (WV v)
  then have "WV v \<in> set ws" using assms(2) by (metis nth_mem)
  then show ?thesis using assms WV by (cases v) (auto simp: arg_val_def put_from_nth reify_def val_def plain_def)
qed

lemma arg_vals:
  assumes "kargs kr = put_from 0 (map (reify s) ws) m" "plain ws" "\<forall>x. WS x \<in> set ws \<longrightarrow> surfs s x \<noteq> None"
    and o: "out_arg (kfun kr) < length ws" "ws ! out_arg (kfun kr) = WS x"
  shows "mapm (arg_val s kr) [0..<length ws] = Some ((map (val s) ws)[out_arg (kfun kr) := Out])"
proof -
  have "mapm (arg_val s kr) [0..<length ws] = Some (map (\<lambda>i. if i = out_arg (kfun kr) then Out else val s (ws ! i)) [0..<length ws])"
    using assms by (intro mapm_total arg_val_reify) auto
  also have "map (\<lambda>i. if i = out_arg (kfun kr) then Out else val s (ws ! i)) [0..<length ws] = (map (val s) ws)[out_arg (kfun kr) := Out]"
    by (rule nth_equalityI) (auto simp: nth_list_update)
  finally show ?thesis .
qed

lemma exec_kernel_ok:
  assumes k: "kernels s k = Some kr" "kargs kr = put_from 0 (map (reify s) ws) m" and ws: "plain ws" "\<forall>x. WS x \<in> set ws \<longrightarrow> surfs s x \<noteq> None"
    and o: "out_arg (kfun kr) < length ws" "ws ! out_arg (kfun kr) = WS x" and l: "arity (kfun kr) = length ws"
    and sp: "own \<Longrightarrow> kspace kr = Some (t, i) \<and> spaces s t = Some i"
  shows "exec_kernel E own k s =
    Some (put_surf x (the (surfs s x)) (Floats (gpu_kernel E (kfun kr) ((map (val s) ws)[out_arg (kfun kr) := Out]))) s)"
proof -
  have x: "WS x \<in> set ws" using o by (metis nth_mem)
  then obtain sf where sf: "surfs s x = Some sf" using ws(2) by auto
  have a: "kargs kr (out_arg (kfun kr)) = Some (Surf x (sid sf))"
    using k(2) o sf by (simp add: put_from_nth reify_def)
  show ?thesis
    using k(1) sp by (cases own) (simp_all add: exec_kernel_def l arg_vals [OF k(2) ws o] a sf)
qed

definition written :: "gst \<Rightarrow> sname \<Rightarrow> content \<Rightarrow> gst \<Rightarrow> bool" where
  "written s x c s' \<longleftrightarrow> cont s' = (cont s)(x \<mapsto> c) \<and> s' = s\<lparr>surfs := surfs s'\<rparr> \<and>
     (\<forall>y. map_option sid (surfs s' y) = map_option sid (surfs s y) \<and> map_option sdim (surfs s' y) = map_option sdim (surfs s y))"

lemma put_written:
  assumes "surfs s x = Some sf" "\<nexists>n h. sdim sf = UP n h"
  shows "written s x c (put_surf x sf c s)"
proof -
  have p: "put_surf x sf c s = s\<lparr>surfs := (surfs s)(x \<mapsto> sf\<lparr>sdata := Some c\<rparr>)\<rparr>"
    using assms(2) by (auto simp: put_surf_def split: dims.splits)
  show ?thesis unfolding p written_def
    using assms by (auto simp: fun_eq_iff cont_def surf_data_def split: dims.splits option.splits)
qed

lemma written_staging:
  assumes "written s x c s'" "staging b j l M A s"
  shows "staging b j l M A s'"
proof -
  define S where "S = surfs s'"
  have s': "s' = s\<lparr>surfs := S\<rparr>" using assms(1) by (simp only: written_def S_def)
  have i: "map_option sid (S y) = map_option sid (surfs s y)" "map_option sdim (S y) = map_option sdim (surfs s y)" for y
    using assms(1) by (simp_all add: written_def S_def)
  have n: "S y \<noteq> None \<longleftrightarrow> surfs s y \<noteq> None" for y using i(1) [of y] by (metis option.map_disc_iff)
  have d: "\<exists>sf'. surfs s y = Some sf' \<and> sdim sf' = sdim sf \<and> sid sf' = sid sf" if "S y = Some sf" for y sf
    using i [of y] that by (cases "surfs s y") auto
  have r: "reify s' a = reify s a" if "\<forall>y. a = WS y \<longrightarrow> surfs s y \<noteq> None" for a
    using that d n unfolding s' by (cases a) (auto simp: reify_def, metis n not_None_eq option.inject option.sel d)
  have ar: "armed s' k fn t ws" if "armed s k fn t ws" for k fn t ws
  proof -
    have "map (reify s') ws = map (reify s) ws" using that by (intro map_cong refl r) (auto simp: armed_def)
    moreover have "kernels s' = kernels s" "spaces s' = spaces s" "surfs s' y \<noteq> None \<longleftrightarrow> surfs s y \<noteq> None" for y
      using n by (simp_all add: s')
    ultimately show ?thesis using that unfolding armed_def by (simp only:)
  qed
  have hw: "had s' = had s" "want s' = want s" by (simp_all add: s' had_def want_def)
  have dim: "\<forall>x sf. surfs s' x = Some sf \<longrightarrow> sdim sf = (if x \<in> M then want s' x else had s' x)"
  proof (intro allI impI)
    fix x sf assume "surfs s' x = Some sf"
    then obtain sf' where "surfs s x = Some sf'" "sdim sf' = sdim sf" using d [of x sf] by (auto simp: s')
    then show "sdim sf = (if x \<in> M then want s' x else had s' x)"
      using assms(2) unfolding hw staging_def by metis
  qed
  have arm: "\<forall>(k, t, ws)\<in>set A. armed s' k (kernel_fun k) t ws" using ar staging_armed [OF assms(2)] by blast
  have sm: "\<forall>x. surfs s' x \<noteq> None \<longleftrightarrow> b \<or> x \<in> M" using assms(2) n unfolding staging_def s' by simp
  have f: "program s' = program s" "queue s' = queue s" "tasks s' = tasks s" "kernels s' = kernels s" "spaces s' = spaces s"
    by (simp_all add: s')
  from assms(2) dim arm sm show ?thesis unfolding staging_def f by blast
qed

text \<open>The correlation as the composition of the kernels: the spectra of both inputs, their product, the
  inverse transform with the scale of the patch, and the sum over the channels.\<close>

record gauss =
  gx :: int
  gy :: int
  gz :: int
  gch :: int
  tabH :: content
  tabV :: content
  nH :: int
  nV :: int

definition dftH :: "gpu_env \<Rightarrow> gauss \<Rightarrow> bool \<Rightarrow> content \<Rightarrow> content" where
  "dftH E g b c = Floats (gpu_kernel E ''fftd_h''
     [Data (Some c), Out, Data (Some (tabH g)), VNum (gx g), VNum (gy g), VFlt 1, VNum (nH g), VNum (gch g), VFlag b])"

definition dftV :: "gpu_env \<Rightarrow> gauss \<Rightarrow> f32 \<Rightarrow> bool \<Rightarrow> content \<Rightarrow> content" where
  "dftV E g scale b c = Floats (gpu_kernel E ''fftd_v''
     [Data (Some c), Out, Data (Some (tabV g)), VNum (gx g), VNum (gy g), VFlt scale, VNum (nV g), VFlag b])"

definition spectrum :: "gpu_env \<Rightarrow> gauss \<Rightarrow> content \<Rightarrow> content" where
  "spectrum E g x = dftV E g 1 False (dftH E g False x)"

definition cross_sum :: "gpu_env \<Rightarrow> gauss \<Rightarrow> content \<Rightarrow> content \<Rightarrow> content" where
  "cross_sum E g x1 x2 =
     (let m = Floats (gpu_kernel E ''mulSpectrums''
            [Data (Some (spectrum E g x1)), Data (Some (spectrum E g x2)), Out, VNum (gx g * gy g * 8)]);
          c = dftV E g (fdiv 1 (i2f (gx g * gy g))) True (dftH E g True m)
      in Floats (gpu_kernel E ''InvRealSum'' [Data (Some c), Out, VNum (gx g * gy g * 8), VNum (gz g)]))"

lemma exec_step:
  assumes S: "staging b 8 8 M A s" and k: "(k, t, ws) \<in> set A" and ws: "plain ws" and fn: "kernel_fun k = fn"
    and o: "out_arg fn < length ws" "ws ! out_arg fn = WS x" and l: "arity fn = length ws" and x: "x \<in> M" "\<nexists>n h. want s x = UP n h"
  shows "\<exists>s'. exec_kernel E True k s = Some s' \<and> staging b 8 8 M A s' \<and>
    written s x (Floats (gpu_kernel E fn ((map (val s) ws)[out_arg fn := Out]))) s'"
proof -
  obtain kr i m where kr: "kernels s k = Some kr" "kfun kr = fn" "kargs kr = put_from 0 (map (reify s) ws) m"
     "kspace kr = Some (t, i)" "spaces s t = Some i" "\<forall>x. WS x \<in> set ws \<longrightarrow> surfs s x \<noteq> None"
    using staging_armed [OF S k] fn unfolding armed_def by blast
  obtain sf where sf: "surfs s x = Some sf" using staging_made [OF S x(1)] by auto
  have "sdim sf = want s x" using S x(1) sf unfolding staging_def by metis
  then have w: "written s x c (put_surf x sf c s)" for c using put_written [OF sf] x(2) by simp
  show ?thesis
    using exec_kernel_ok [OF kr(1,3) ws kr(6), of x True t i E] kr o l w written_staging [OF w S] sf by simp
qed


lemma want_plain: "x \<notin> {pParamSurfHUP, pParamBufferV, pSrcImageSumBufferUp} \<Longrightarrow> \<nexists>n h. want s x = UP n h"
  by (cases x) (simp_all add: want_def surf_dims_def)

definition gauss_of :: "gst \<Rightarrow> content \<Rightarrow> content \<Rightarrow> gauss" where
  "gauss_of s cH cV = \<lparr>gx = usPitchX (cfg s), gy = usPitchY (cfg s), gz = usPitchZ (cfg s), gch = ucChannel (cfg s),
     tabH = cH, tabV = cV, nH = nfx s, nV = nfy s\<rparr>"

lemma writtenD:
  assumes "written s x c s'"
  shows "cont s' = (cont s)(x \<mapsto> c)" "cfg s' = cfg s" "nfx s' = nfx s" "nfy s' = nfy s" "s' = s\<lparr>surfs := surfs s'\<rparr>"
proof -
  have e: "s' = s\<lparr>surfs := surfs s'\<rparr>" and "cont s' = (cont s)(x \<mapsto> c)" using assms by (simp_all only: written_def)
  then show "cont s' = (cont s)(x \<mapsto> c)" "s' = s\<lparr>surfs := surfs s'\<rparr>" by simp_all
  have "cfg s' = cfg (s\<lparr>surfs := surfs s'\<rparr>)" "nfx s' = nfx (s\<lparr>surfs := surfs s'\<rparr>)" "nfy s' = nfy (s\<lparr>surfs := surfs s'\<rparr>)"
    using e by metis+
  then show "cfg s' = cfg s" "nfx s' = nfx s" "nfy s' = nfy s" by simp_all
qed

lemma pipeline_list: "pipeline 8 = [Run kernel_H_F_0, Sync, Run kernel_V_F_0, Sync, Run kernel_H_F_1, Sync, Run kernel_V_F_1, Sync,
  Run kernel_MulSpec, Sync, Run kernel_H_I, Sync, Run kernel_V_I, Sync, Run kernel_ImageSum, Sync]"
  by (simp add: pipeline_def korder_def)

lemma out_args: "out_arg ''fftd_h'' = 1" "out_arg ''fftd_v'' = 1" "out_arg ''mulSpectrums'' = 2" "out_arg ''InvRealSum'' = 1"
  "arity ''fftd_h'' = 9" "arity ''fftd_v'' = 8" "arity ''mulSpectrums'' = 4" "arity ''InvRealSum'' = 4"
  "out_arg ''SrcImageSum'' = 2" "arity ''SrcImageSum'' = 4" "out_arg ''ImageExpSum'' = 2" "arity ''ImageExpSum'' = 7"
  by (simp_all add: out_arg_def arity_def)

lemma exec_H:
  assumes "staging b 8 8 M A s" "(k, t, wH s0 inp outp) \<in> set A" "kernel_fun k = ''fftd_h''" "outp \<in> M"
    "outp \<notin> {pParamSurfHUP, pParamBufferV, pSrcImageSumBufferUp}"
    and "cont s inp = Some c" "cont s pParamSurfHUP = Some cH" "g = gauss_of s0 cH cV"
  shows "\<exists>s'. exec_kernel E True k s = Some s' \<and> staging b 8 8 M A s' \<and> written s outp (dftH E g (bInv (cfg s0)) c) s'"
  using exec_step [OF assms(1,2) _ assms(3), of outp E] want_plain [OF assms(5)] assms(4,6-)
  by (simp add: out_args wH_def plain_def val_def dftH_def gauss_of_def)

lemma exec_V:
  assumes "staging b 8 8 M A s" "(k, t, wV s0 inp outp) \<in> set A" "kernel_fun k = ''fftd_v''" "outp \<in> M"
    "outp \<notin> {pParamSurfHUP, pParamBufferV, pSrcImageSumBufferUp}"
    and "cont s inp = Some c" "cont s pParamBufferV = Some cV" "g = gauss_of s0 cH cV"
  shows "\<exists>s'. exec_kernel E True k s = Some s' \<and> staging b 8 8 M A s' \<and> written s outp (dftV E g (fScale (cfg s0)) (bInv (cfg s0)) c) s'"
  using exec_step [OF assms(1,2) _ assms(3), of outp E] want_plain [OF assms(5)] assms(4,6-)
  by (simp add: out_args wV_def plain_def val_def dftV_def gauss_of_def)

lemma exec_M:
  assumes "staging b 8 8 M A s" "(kernel_MulSpec, t, wM s0 in0 in1 outp) \<in> set A" "outp \<in> M"
    "outp \<notin> {pParamSurfHUP, pParamBufferV, pSrcImageSumBufferUp}"
    and "cont s in0 = Some c0" "cont s in1 = Some c1" "g = gauss_of s0 cH cV"
  shows "\<exists>s'. exec_kernel E True kernel_MulSpec s = Some s' \<and> staging b 8 8 M A s' \<and>
    written s outp (Floats (gpu_kernel E ''mulSpectrums'' [Data (Some c0), Data (Some c1), Out, VNum (gx g * gy g * 8)])) s'"
  using exec_step [OF assms(1,2) _, of "''mulSpectrums''" outp E] want_plain [OF assms(4)] assms(3,5-)
  by (simp add: out_args wM_def plain_def val_def gauss_of_def kernel_fun_def)

lemma exec_S:
  assumes "staging b 8 8 M A s" "(kernel_ImageSum, t, wS s0 inp outp) \<in> set A" "outp \<in> M"
    "outp \<notin> {pParamSurfHUP, pParamBufferV, pSrcImageSumBufferUp}"
    and "cont s inp = Some c" "g = gauss_of s0 cH cV"
  shows "\<exists>s'. exec_kernel E True kernel_ImageSum s = Some s' \<and> staging b 8 8 M A s' \<and>
    written s outp (Floats (gpu_kernel E ''InvRealSum'' [Data (Some c), Out, VNum (gx g * gy g * 8), VNum (gz g)])) s'"
  using exec_step [OF assms(1,2) _, of "''InvRealSum''" outp E] want_plain [OF assms(4)] assms(3,5-)
  by (simp add: out_args wS_def plain_def val_def gauss_of_def kernel_fun_def)

lemma exec_forward:
  assumes S: "staging b 8 8 M A s" and M: "M_fwd \<subseteq> M" and A: "set (fwd_wires s0) \<subseteq> set A"
    and c: "bInv (cfg s0) = False" "fScale (cfg s0) = 1" and g: "g = gauss_of s0 cH cV"
    and cont: "cont s pInputSurf0 = Some x1" "cont s pInputSurf1 = Some x2" "cont s pParamSurfHUP = Some cH" "cont s pParamBufferV = Some cV"
  shows "\<exists>s'. exec_task E True (Run kernel_H_F_0 # Sync # Run kernel_V_F_0 # Sync # Run kernel_H_F_1 # Sync # Run kernel_V_F_1 # Sync # es) s =
      exec_task E True es s' \<and> staging b 8 8 M A s' \<and> s' = s\<lparr>surfs := surfs s'\<rparr> \<and>
    cont s' pOutputSurf_V_F_0 = Some (spectrum E g x1) \<and> cont s' pOutputSurf_V_F_1 = Some (spectrum E g x2) \<and>
    (\<forall>x. x \<notin> {pOutputSurf_H_F_0, pOutputSurf_V_F_0, pOutputSurf_H_F_1, pOutputSurf_V_F_1} \<longrightarrow> cont s' x = cont s x)"
proof -
  have Mm: "pOutputSurf_H_F_0 \<in> M" "pOutputSurf_V_F_0 \<in> M" "pOutputSurf_H_F_1 \<in> M" "pOutputSurf_V_F_1 \<in> M"
    using M by (auto simp: M_fwd_def M_in_def)
  have Am: "(kernel_H_F_0, pTS0, wH s0 pInputSurf0 pOutputSurf_H_F_0) \<in> set A" "(kernel_V_F_0, pTS1, wV s0 pOutputSurf_H_F_0 pOutputSurf_V_F_0) \<in> set A"
    "(kernel_H_F_1, pTS2, wH s0 pInputSurf1 pOutputSurf_H_F_1) \<in> set A" "(kernel_V_F_1, pTS3, wV s0 pOutputSurf_H_F_1 pOutputSurf_V_F_1) \<in> set A"
    using A by (auto simp: fwd_wires_def)
  obtain s1 where s1: "exec_kernel E True kernel_H_F_0 s = Some s1" "staging b 8 8 M A s1" "written s pOutputSurf_H_F_0 (dftH E g False x1) s1"
    using exec_H [OF S Am(1) _ Mm(1) _ cont(1,3) g, of E] c by (auto simp: kernel_fun_def)
  note w1 = writtenD [OF s1(3)]
  obtain s2 where s2: "exec_kernel E True kernel_V_F_0 s1 = Some s2" "staging b 8 8 M A s2" "written s1 pOutputSurf_V_F_0 (spectrum E g x1) s2"
    using exec_V [OF s1(2) Am(2) _ Mm(2) _ _ _ g, of "dftH E g False x1" E] c w1 cont by (auto simp: kernel_fun_def spectrum_def)
  note w2 = writtenD [OF s2(3)]
  obtain s3 where s3: "exec_kernel E True kernel_H_F_1 s2 = Some s3" "staging b 8 8 M A s3" "written s2 pOutputSurf_H_F_1 (dftH E g False x2) s3"
    using exec_H [OF s2(2) Am(3) _ Mm(3) _ _ _ g, of x2 E] c w1 w2 cont by (auto simp: kernel_fun_def)
  note w3 = writtenD [OF s3(3)]
  obtain s4 where s4: "exec_kernel E True kernel_V_F_1 s3 = Some s4" "staging b 8 8 M A s4" "written s3 pOutputSurf_V_F_1 (spectrum E g x2) s4"
    using exec_V [OF s3(2) Am(4) _ Mm(4) _ _ _ g, of "dftH E g False x2" E] c w1 w2 w3 cont by (auto simp: kernel_fun_def spectrum_def)
  note w4 = writtenD [OF s4(3)]
  have "s4 = s\<lparr>surfs := surfs s4\<rparr>"
    by (subst w4(5), subst w3(5), subst w2(5), subst w1(5)) simp
  then show ?thesis using s1(1) s2(1) s3(1) s4(1,2) w1(1) w2(1) w3(1) w4(1) by (intro exI [of _ s4]) simp
qed

lemma exec_inverse:
  assumes S: "staging b 8 8 M A s" and M: "M_all \<subseteq> M" and A: "set (inv_wires s0) \<subseteq> set A"
    and c: "bInv (cfg s0)" "fScale (cfg s0) = fdiv 1 (i2f (gx g * gy g))" and g: "g = gauss_of s0 cH cV"
    and cont: "cont s pOutputSurf_V_F_0 = Some (spectrum E g x1)" "cont s pOutputSurf_V_F_1 = Some (spectrum E g x2)"
      "cont s pParamSurfHUP = Some cH" "cont s pParamBufferV = Some cV"
  shows "\<exists>s'. exec_task E True [Run kernel_MulSpec, Sync, Run kernel_H_I, Sync, Run kernel_V_I, Sync, Run kernel_ImageSum, Sync] s = Some s' \<and>
    staging b 8 8 M A s' \<and> s' = s\<lparr>surfs := surfs s'\<rparr> \<and> cont s' pOutputInvSumSurf = Some (cross_sum E g x1 x2) \<and>
    (\<forall>x. x \<notin> {pMulSpectrumSurf, pOutputSurf_H_V_1, pOutputSurf_V_V_1, pOutputInvSumSurf} \<longrightarrow> cont s' x = cont s x)"
proof -
  have Mm: "pMulSpectrumSurf \<in> M" "pOutputSurf_H_V_1 \<in> M" "pOutputSurf_V_V_1 \<in> M" "pOutputInvSumSurf \<in> M"
    using M by (auto simp: M_all_def)
  have Am: "(kernel_MulSpec, pTS4, wM s0 pOutputSurf_V_F_0 pOutputSurf_V_F_1 pMulSpectrumSurf) \<in> set A"
     "(kernel_H_I, pTS_DFT_FWD_H, wH s0 pMulSpectrumSurf pOutputSurf_H_V_1) \<in> set A"
     "(kernel_V_I, pTS_DFT_FWD_V, wV s0 pOutputSurf_H_V_1 pOutputSurf_V_V_1) \<in> set A"
     "(kernel_ImageSum, pTSImageSum, wS s0 pOutputSurf_V_V_1 pOutputInvSumSurf) \<in> set A"
    using A by (auto simp: inv_wires_def)
  define m where "m = Floats (gpu_kernel E ''mulSpectrums''
            [Data (Some (spectrum E g x1)), Data (Some (spectrum E g x2)), Out, VNum (gx g * gy g * 8)])"
  obtain s1 where s1: "exec_kernel E True kernel_MulSpec s = Some s1" "staging b 8 8 M A s1" "written s pMulSpectrumSurf m s1"
    using exec_M [OF S Am(1) Mm(1) _ cont(1,2) g] unfolding m_def by auto
  note w1 = writtenD [OF s1(3)]
  obtain s2 where s2: "exec_kernel E True kernel_H_I s1 = Some s2" "staging b 8 8 M A s2" "written s1 pOutputSurf_H_V_1 (dftH E g True m) s2"
    using exec_H [OF s1(2) Am(2) _ Mm(2) _ _ _ g, of m E] c w1 cont by (auto simp: kernel_fun_def)
  note w2 = writtenD [OF s2(3)]
  define v where "v = dftV E g (fdiv 1 (i2f (gx g * gy g))) True (dftH E g True m)"
  obtain s3 where s3: "exec_kernel E True kernel_V_I s2 = Some s3" "staging b 8 8 M A s3" "written s2 pOutputSurf_V_V_1 v s3"
    using exec_V [OF s2(2) Am(3) _ Mm(3) _ _ _ g, of "dftH E g True m" E] c w1 w2 cont unfolding v_def by (auto simp: kernel_fun_def)
  note w3 = writtenD [OF s3(3)]
  obtain s4 where s4: "exec_kernel E True kernel_ImageSum s3 = Some s4" "staging b 8 8 M A s4" "written s3 pOutputInvSumSurf (cross_sum E g x1 x2) s4"
    using exec_S [OF s3(2) Am(4) Mm(4) _ _ g, of v E] w3 by (auto simp: cross_sum_def m_def v_def Let_def)
  note w4 = writtenD [OF s4(3)]
  have "s4 = s\<lparr>surfs := surfs s4\<rparr>"
    by (subst w4(5), subst w3(5), subst w2(5), subst w1(5)) simp
  then show ?thesis using s1(1) s2(1) s3(1) s4(1,2) w1(1) w2(1) w3(1) w4(1) by (intro exI [of _ s4]) simp
qed

section \<open>The sums and the end of the call\<close>

lemma drop_locals_none:
  assumes "\<forall>t\<in>set ts. spaces s t = None" "\<forall>q\<in>set qs. tasks s q = None" "\<forall>e\<in>set es. \<not> events s e"
  shows "drop_locals ts qs es s = s"
proof -
  have "filter (\<lambda>t. spaces s t \<noteq> None) ts = []" "filter (\<lambda>q. tasks s q \<noteq> None) qs = []" "filter (events s) es = []"
    "(\<lambda>t. if t \<in> set ts then None else spaces s t) = spaces s" "(\<lambda>q. if q \<in> set qs then None else tasks s q) = tasks s"
    "(\<lambda>e. events s e \<and> e \<notin> set es) = events s"
    using assms by (auto simp: filter_empty_conv fun_eq_iff)
  then show ?thesis by (simp add: drop_locals_def)
qed

text \<open>A task of one kernel with a thread space of its own.\<close>

lemma single_task_ok:
  assumes E: "all_ok E" and u: "queue u" "tasks u q = None" "spaces u t \<noteq> None" "\<not> events u e" "kernels u k \<noteq> None"
    and ex: "\<And>c T. exec_kernel E False k (u\<lparr>tasks := T, clock := c\<rparr>) = Some (u\<lparr>tasks := T, clock := c, hosts := H, surfs := S\<rparr>)"
    and get: "\<And>c T V. get (u\<lparr>tasks := T, clock := c, hosts := H, surfs := S, events := V\<rparr>) =
      Next (u\<lparr>tasks := T, clock := Suc c, hosts := H, surfs := S, events := V, outbuf := r\<rparr>)"
  shows "single_task E q k t e get u =
    Next (u\<lparr>clock := Suc (Suc (Suc (Suc (clock u)))), hosts := H, surfs := S, outbuf := r, spaces := (spaces u)(t := None)\<rparr>)"
proof -
  have ee: "(tasks u)(q := None) = tasks u" "(events u)(e := False) = events u" using u by (auto simp: fun_eq_iff)
  define T where "T = (tasks u)(q \<mapsto> [Run k])"
  define c where "c = clock u"
  define w where "w = u\<lparr>tasks := T, clock := Suc (Suc (Suc c)), hosts := H, surfs := S, events := (events u)(e := True)\<rparr>"
  have en: "Enqueue E q (Some t) (u\<lparr>clock := Suc (Suc c), tasks := T\<rparr>) = Next (u\<lparr>tasks := T, clock := Suc (Suc (Suc c)), hosts := H, surfs := S\<rparr>)"
    using u E ex [where c = "Suc (Suc (Suc c))" and T = T] by (auto simp: Enqueue_def all_ok_def T_def)
  have pre: "run [ensure_queue E, checked_call E (CreateTask q), AddKernel E q k, Enqueue E q (Some t), set_event e True] u = Next w"
    using u E en by (simp add: ensure_queue_def gpu_simps CreateTask_def AddKernel_def add_entry_def T_def c_def set_event_def w_def)
  define w2 where "w2 = w\<lparr>clock := Suc (Suc (Suc (Suc c))), outbuf := r\<rparr>"
  have f2: "spaces w2 = spaces u" "tasks w2 = T" "events w2 = (events u)(e := True)" by (simp_all add: w2_def w_def)
  have fin: "w2\<lparr>spaces := (spaces u)(t := None), events := events u, tasks := tasks u\<rparr> =
      u\<lparr>clock := Suc (Suc (Suc (Suc c))), hosts := H, surfs := S, outbuf := r, spaces := (spaces u)(t := None)\<rparr>"
    by (cases u) (simp add: w2_def w_def)
  have gw: "get w = Next w2"
    using get [where c = "Suc (Suc (Suc c))" and T = T and V = "(events u)(e := True)"] by (simp add: w_def w2_def)
  have "run [get, DestroyThreadSpace t, set_event e False, DestroyTask q] w =
      Next (u\<lparr>clock := Suc (Suc (Suc (Suc c))), hosts := H, surfs := S, outbuf := r, spaces := (spaces u)(t := None)\<rparr>)"
    using u ee fin by (auto simp: gw f2 DestroyThreadSpace_def set_event_def set_st_def DestroyTask_def T_def)
  then show ?thesis
    using pre run_append [of "[ensure_queue E, checked_call E (CreateTask q), AddKernel E q k, Enqueue E q (Some t), set_event e True]"
      "[get, DestroyThreadSpace t, set_event e False, DestroyTask q]" u]
    by (simp add: single_task_def c_def)
qed

text \<open>The kernel of such a task after its arguments have been set.\<close>

lemma wired_kernel:
  assumes E: "all_ok E" and k: "kernels s k = Some kr" "kfun kr = fn" and n: "int_ok (w s * 1)" and sp: "spaces s t = None"
    and as: "map (\<lambda>a. a s) as = map Some (map (reify s) ws)" "\<forall>a\<in>set as. arg_stable a"
    and ws: "plain ws" "\<forall>x. WS x \<in> set ws \<longrightarrow> surfs s x \<noteq> None"
    and o: "out_arg fn < length ws" "ws ! out_arg fn = WS x" "arity fn = length ws" and xs: "\<forall>x\<in>set xs. surfs s x \<noteq> None"
  shows "\<exists>u kr' W SP. run (threads E k t w (\<lambda>_. 1) # map GetIndex xs @ [set_args k 0 as]) s = Next u \<and>
    u = s\<lparr>kernels := (kernels s)(k \<mapsto> kr'), spaces := SP, walk := W, clock := Suc (clock s), ident := Suc (ident s)\<rparr> \<and>
    SP t \<noteq> None \<and> SP(t := None) = spaces s \<and> kfun kr' = fn \<and>
    (\<forall>c T. exec_kernel E False k (u\<lparr>tasks := T, clock := c\<rparr>) = Some (put_surf x (the (surfs s x))
      (Floats (gpu_kernel E fn ((map (val s) ws)[out_arg fn := Out]))) (u\<lparr>tasks := T, clock := c\<rparr>)))"
proof -
  define t1 where "t1 = threaded k t (w s * 1) kr s"
  have th: "threads E k t w (\<lambda>_. 1) s = Next t1"
    unfolding t1_def using threads_ok [OF E k(1), of w "\<lambda>_. 1" t] n by simp
  have e: "t1\<lparr>kernels := K\<rparr> = s\<lparr>kernels := K, spaces := spaces t1, walk := walk t1, clock := clock t1, ident := ident t1\<rparr>" for K
    by (cases s) (simp add: t1_def threaded_def)
  have st: "a (t1\<lparr>kernels := K\<rparr>) = a s" if "a \<in> set as" for a K
    using as(2) that unfolding e by (simp only: arg_stable_def)
  have st1: "a t1 = a s" if "a \<in> set as" for a using st [OF that, of "kernels t1"] by simp
  have ne: "\<forall>a\<in>set as. a t1 \<noteq> None"
  proof
    fix a assume a: "a \<in> set as"
    then have "a s \<in> set (map (\<lambda>a. a s) as)" by simp
    then show "a t1 \<noteq> None" unfolding as(1) st1 [OF a] by auto
  qed
  have "map (\<lambda>a. the (a t1)) as = map (\<lambda>a. the (a s)) as" using st1 by (metis (no_types, lifting) map_cong)
  also have "\<dots> = map (reify s) ws" using arg_cong [OF as(1), of "map the"] by (simp add: comp_def)
  finally have vs: "map (\<lambda>a. the (a t1)) as = map (reify s) ws" .
  have k1: "kernels t1 k = Some (kr\<lparr>kcount := w s * 1\<rparr>)" by (simp add: t1_def threaded_def)
  define kr' where "kr' = (kr\<lparr>kcount := w s * 1\<rparr>)\<lparr>kargs := put_from 0 (map (reify s) ws) (kargs kr)\<rparr>"
  define u where "u = t1\<lparr>kernels := (kernels t1)(k \<mapsto> kr')\<rparr>"
  have kk: "\<forall>a\<in>set as. \<forall>K. a (t1\<lparr>kernels := K\<rparr>) = a t1" using st st1 by metis
  have "set_args k 0 as t1 = Next u"
    using set_args_ok [OF k1 ne kk, of 0] by (simp add: vs u_def kr'_def)
  moreover have "\<forall>x\<in>set xs. surfs t1 x \<noteq> None" using xs by (simp add: t1_def threaded_def)
  ultimately have r: "run (threads E k t w (\<lambda>_. 1) # map GetIndex xs @ [set_args k 0 as]) s = Next u"
    by (simp add: th run_GetIndex del: set_args.simps)
  have f: "u = s\<lparr>kernels := (kernels s)(k \<mapsto> kr'), spaces := spaces u, walk := walk u, clock := Suc (clock s), ident := Suc (ident s)\<rparr>"
    by (cases s) (simp add: u_def t1_def threaded_def)
  have fs: "surfs u = surfs s" "hosts u = hosts s" "kernels u k = Some kr'" by (simp_all add: u_def t1_def threaded_def)
  have ex: "exec_kernel E False k v = Some (put_surf x (the (surfs s x)) (Floats (gpu_kernel E fn ((map (val s) ws)[out_arg fn := Out]))) v)"
    if v: "surfs v = surfs s" "hosts v = hosts s" "kernels v k = Some kr'" for v
  proof -
    have c: "cont v = cont s" by (intro ext) (unfold cont_def surf_data_def v(1,2), rule refl)
    have re: "reify v = reify s" by (intro ext) (unfold reify_def v(1), rule refl)
    have va: "val v = val s" by (intro ext) (unfold val_def c, rule refl)
    have "kargs kr' = put_from 0 (map (reify v) ws) (kargs kr)" "kfun kr' = fn" by (simp_all add: kr'_def re k)
    then show ?thesis
      using exec_kernel_ok [OF v(3), of ws "kargs kr" x False undefined undefined E] ws o by (simp add: v va)
  qed
  have sps: "spaces u t \<noteq> None" "(spaces u)(t := None) = spaces s" using sp by (auto simp: u_def t1_def threaded_def fun_eq_iff)
  have "kfun kr' = fn" by (simp add: kr'_def k)
  then show ?thesis
    using r f sps ex fs by (intro exI [of _ u] exI [of _ kr'] exI [of _ "walk u"] exI [of _ "spaces u"]) simp
qed

definition square_sum :: "gpu_env \<Rightarrow> gauss \<Rightarrow> content \<Rightarrow> content \<Rightarrow> f32" where
  "square_sum E g x1 x2 = fold (\<lambda>i a. fadd a (gpu_kernel E ''SrcImageSum'' [Data (Some x1), Data (Some x2), Out, VNum (gz g)] i))
     [0..<nat (gx g * gy g)] 0"

lemma ensure_own_kernel:
  assumes "all_ok E" "program s" "\<And>kr. kernels s k = Some kr \<Longrightarrow> kfun kr = fn"
  shows "\<exists>kr c. guarded (\<lambda>s. kernels s k = None) [need program, checked_call E (CreateKernel k fn)] s =
    Next (s\<lparr>kernels := (kernels s)(k \<mapsto> kr), clock := c\<rparr>) \<and> kfun kr = fn"
proof (cases "kernels s k")
  case None
  let ?kr = "\<lparr>kfun = fn, kargs = Map.empty, kcount = 0, kspace = None\<rparr>"
  have "s\<lparr>clock := c, kernels := K\<rparr> = s\<lparr>kernels := K, clock := c\<rparr>" for c K by (cases s) simp
  then show ?thesis using None assms by (intro exI [of _ "Suc (clock s)"] exI [of _ ?kr]) (simp add: gpu_simps CreateKernel_def)
next
  case (Some kr)
  then have "s\<lparr>kernels := (kernels s)(k \<mapsto> kr), clock := clock s\<rparr> = s" by (cases s) auto
  moreover have "guarded (\<lambda>s. kernels s k = None) [need program, checked_call E (CreateKernel k fn)] s = Next s"
    using Some by (simp add: gpu_simps)
  ultimately show ?thesis using assms(3) Some by metis
qed

lemma src_sum_ok:
  assumes E: "all_ok E" and p: "program s" "queue s" and sz: "sizes_ok (cfg s)"
    and x: "cont s i0 = Some x1" "cont s i1 = Some x2" "surfs s up = Some sf" "sdim sf = UP n h" "hosts s h = Some (n, c)"
    and k: "\<And>kr. kernels s kernelSrcImageSum = Some kr \<Longrightarrow> kfun kr = ''SrcImageSum''"
    and l: "tasks s pKernelArrayTmp = None" "spaces s pTS_SrcImageSum = None" "\<not> events s e_SrcImageSum"
  shows "\<exists>kr W ck i. Call_SrcImageSum E i0 i1 up s = Next (s\<lparr>kernels := (kernels s)(kernelSrcImageSum \<mapsto> kr), walk := W, clock := ck, ident := i,
      hosts := (hosts s)(h \<mapsto> (n, Some (Floats (gpu_kernel E ''SrcImageSum''
        [Data (Some x1), Data (Some x2), Out, VNum (usPitchZ (cfg s))]))))\<rparr>) \<and> kfun kr = ''SrcImageSum''"
proof -
  let ?k = kernelSrcImageSum and ?w = "\<lambda>s. (usInWidth (cfg s) + 7) div 8"
  let ?g = "guarded (\<lambda>s. kernels s ?k = None) [need program, checked_call E (CreateKernel ?k ''SrcImageSum'')]"
  let ?t = "single_task E pKernelArrayTmp ?k pTS_SrcImageSum e_SrcImageSum (checked_call E id)"
  let ?c = "Floats (gpu_kernel E ''SrcImageSum'' [Data (Some x1), Data (Some x2), Out, VNum (usPitchZ (cfg s))])"
  obtain kr ck where g: "?g s = Next (s\<lparr>kernels := (kernels s)(?k \<mapsto> kr), clock := ck\<rparr>)" "kfun kr = ''SrcImageSum''"
    using ensure_own_kernel [OF E p(1) k] by blast
  define s1 where "s1 = s\<lparr>kernels := (kernels s)(?k \<mapsto> kr), clock := ck\<rparr>"
  define ws where "ws = [WS i0, WS i1, WS up, WV (Num (usPitchZ (cfg s)))]"
  define as where "as = [surf_arg i0, surf_arg i1, surf_arg up, num_arg (\<lambda>s. usPitchZ (cfg s))]"
  have ne: "surfs s i0 \<noteq> None" "surfs s i1 \<noteq> None" "surfs s up \<noteq> None" using x by (auto simp: cont_def split: option.splits)
  have f1: "surfs s1 = surfs s" "hosts s1 = hosts s" "cfg s1 = cfg s" "kernels s1 ?k = Some kr" "spaces s1 = spaces s"
    by (simp_all add: s1_def)
  have c1: "cont s1 = cont s" by (intro ext) (unfold cont_def surf_data_def f1(1,2), rule refl)
  have w: "int_ok (?w s1 * 1)" using small_products(10) [OF sz] f1(3) by simp
  have as: "map (\<lambda>a. a s1) as = map Some (map (reify s1) ws)"
    using ne by (auto simp: as_def ws_def surf_arg_def num_arg_def reify_def f1)
  obtain u kr' W SP where u: "run (threads E ?k pTS_SrcImageSum ?w (\<lambda>_. 1) # map GetIndex [i0, i1, up] @ [set_args ?k 0 as]) s1 = Next u"
    "u = s1\<lparr>kernels := (kernels s1)(?k \<mapsto> kr'), spaces := SP, walk := W, clock := Suc (clock s1), ident := Suc (ident s1)\<rparr>"
    "SP pTS_SrcImageSum \<noteq> None" "SP(pTS_SrcImageSum := None) = spaces s" "kfun kr' = ''SrcImageSum''"
    "\<forall>c T. exec_kernel E False ?k (u\<lparr>tasks := T, clock := c\<rparr>) = Some (put_surf up (the (surfs s1 up))
      (Floats (gpu_kernel E ''SrcImageSum'' ((map (val s1) ws)[2 := Out]))) (u\<lparr>tasks := T, clock := c\<rparr>))"
    using wired_kernel [where w = ?w and t = pTS_SrcImageSum and xs = "[i0, i1, up]" and x = up, OF E f1(4) g(2) w _ as] ne l(2) f1
    by (auto simp: as_def ws_def plain_def out_args simp del: set_args.simps run.simps)
  have us: "u = s\<lparr>kernels := (kernels s)(?k \<mapsto> kr'), spaces := SP, walk := W, clock := Suc ck, ident := Suc (ident s)\<rparr>"
    unfolding u(2) s1_def by (cases s) simp
  have pv: "(map (val s1) ws)[2 := Out] = [Data (Some x1), Data (Some x2), Out, VNum (usPitchZ (cfg s))]"
    by (simp add: ws_def val_def c1 x)
  define H where "H = (hosts s)(h \<mapsto> (n, Some ?c))"
  define v where "v = u\<lparr>clock := Suc (Suc (Suc (Suc (clock u)))), hosts := H, surfs := surfs s, outbuf := outbuf u, spaces := (spaces u)(pTS_SrcImageSum := None)\<rparr>"
  have "?t u = Next v"
    unfolding v_def
  proof (rule single_task_ok [OF E])
    show "exec_kernel E False ?k (u\<lparr>tasks := T, clock := c\<rparr>) = Some (u\<lparr>tasks := T, clock := c, hosts := H, surfs := surfs s\<rparr>)" for c T
      unfolding u(6) [rule_format] pv using x by (simp add: put_surf_def H_def f1(1) us)
    show "checked_call E id (u\<lparr>tasks := T, clock := c, hosts := H, surfs := surfs s, events := V\<rparr>) =
       Next (u\<lparr>tasks := T, clock := Suc c, hosts := H, surfs := surfs s, events := V, outbuf := outbuf u\<rparr>)" for c T V
      by (cases u) (simp add: calls_ok [OF E])
  qed (use p u(3) l in \<open>auto simp: us\<close>)
  then have "run [?g, threads E ?k pTS_SrcImageSum ?w (\<lambda>s. 1), GetIndex i0, GetIndex i1, GetIndex up, set_args ?k 0 as, ?t, off_end E] s = Next v"
    using g(1) u(1) calls_ok(3) [OF E, of v]
      run_append [of "threads E ?k pTS_SrcImageSum ?w (\<lambda>_. 1) # map GetIndex [i0, i1, up] @ [set_args ?k 0 as]" "[?t, off_end E]" s1]
    by (simp add: s1_def del: set_args.simps)
  then have "Call_SrcImageSum E i0 i1 up s = Next (drop_locals [pTS_SrcImageSum] [pKernelArrayTmp] [e_SrcImageSum] v)"
    unfolding Call_SrcImageSum_def as_def [symmetric] ignore_def body_def by simp
  also have "drop_locals [pTS_SrcImageSum] [pKernelArrayTmp] [e_SrcImageSum] v = v"
    using l by (intro drop_locals_none) (simp_all add: v_def us)
  finally have r: "Call_SrcImageSum E i0 i1 up s = Next v" .
  have "v = s\<lparr>kernels := (kernels s)(?k \<mapsto> kr'), walk := W, clock := clock v, ident := Suc (ident s), hosts := H\<rparr>"
    using u(4) unfolding v_def us by (cases s) simp
  then show ?thesis using r u(5) unfolding H_def by metis
qed


text \<open>The surfaces of the last kernel: the sum of squares is written into a small buffer, the result buffer
  is made anew when the patch has changed.\<close>

lemma final_surfaces:
  fixes s :: gst
  assumes E: "all_ok E" and sz: "sizes_ok (cfg s)"
    and d: "\<And>sf. surfs s pInputSumSurf = Some sf \<Longrightarrow> sdim sf = Bytes 32"
      "\<And>sf. surfs s pOutputFinalSurf = Some sf \<Longrightarrow> usPitchX (cfg s) = gPitchX s \<Longrightarrow> usPitchY (cfg s) = gPitchY s \<Longrightarrow>
        sdim sf = want s pOutputFinalSurf"
  shows "\<exists>sf0 sf1 ck i. run [guarded (\<lambda>s. surfs s pInputSumSurf = None) [checked_call E (new_surf pInputSumSurf (Bytes (8 * 4)))],
     WriteSurface E pInputSumSurf (\<lambda>s. sum8 (l_sum s)),
     fits (\<lambda>s. usPitchX (cfg s) * usPitchY (cfg s)),
     remake E (\<lambda>s. usPitchX (cfg s) \<noteq> gPitchX s \<or> usPitchY (cfg s) \<noteq> gPitchY s) pOutputFinalSurf
       (\<lambda>s. Bytes (uint32 (usPitchX (cfg s) * usPitchY (cfg s) * 4)))] s =
    Next (s\<lparr>surfs := (surfs s)(pInputSumSurf \<mapsto> sf0, pOutputFinalSurf \<mapsto> sf1), clock := ck, ident := i\<rparr>) \<and>
    sdim sf0 = Bytes 32 \<and> sdata sf0 = Some (sum8 (l_sum s)) \<and> sdim sf1 = want s pOutputFinalSurf"
proof -
  let ?q = "sum8 (l_sum s)"
  let ?g = "guarded (\<lambda>s. surfs s pInputSumSurf = None) [checked_call E (new_surf pInputSumSurf (Bytes (8 * 4)))]"
  let ?w = "WriteSurface E pInputSumSurf (\<lambda>s. sum8 (l_sum s))"
  let ?c = "\<lambda>s :: gst. usPitchX (cfg s) \<noteq> gPitchX s \<or> usPitchY (cfg s) \<noteq> gPitchY s"
  let ?d = "\<lambda>s :: gst. Bytes (uint32 (usPitchX (cfg s) * usPitchY (cfg s) * 4))"
  have "\<exists>sf0 ck i. run [?g, ?w] s = Next (s\<lparr>surfs := (surfs s)(pInputSumSurf \<mapsto> sf0), clock := ck, ident := i\<rparr>) \<and>
      sdim sf0 = Bytes 32 \<and> sdata sf0 = Some ?q"
  proof (cases "surfs s pInputSumSurf")
    case None
    let ?sf = "\<lparr>sid = ident s, sdim = Bytes 32, sdata = Some ?q\<rparr>"
    have "run [?g, ?w] s = Next (s\<lparr>surfs := (surfs s)(pInputSumSurf \<mapsto> ?sf), clock := Suc (Suc (clock s)), ident := Suc (ident s)\<rparr>)"
      using None E by (cases s) (simp add: gpu_simps new_surf_def WriteSurface_def)
    then show ?thesis by (intro exI conjI) (assumption, simp_all)
  next
    case (Some sf)
    let ?sf = "sf\<lparr>sdata := Some ?q\<rparr>"
    have "run [?g, ?w] s = Next (s\<lparr>surfs := (surfs s)(pInputSumSurf \<mapsto> ?sf), clock := Suc (clock s), ident := ident s\<rparr>)"
      using Some E by (cases s) (simp add: gpu_simps WriteSurface_def)
    then show ?thesis using d(1) [OF Some] by (intro exI conjI) (assumption, simp_all)
  qed
  then obtain sf0 ck i where 1: "run [?g, ?w] s = Next (s\<lparr>surfs := (surfs s)(pInputSumSurf \<mapsto> sf0), clock := ck, ident := i\<rparr>)"
    "sdim sf0 = Bytes 32" "sdata sf0 = Some ?q" by blast
  define s1 where "s1 = s\<lparr>surfs := (surfs s)(pInputSumSurf \<mapsto> sf0), clock := ck, ident := i\<rparr>"
  have f: "cfg s1 = cfg s" "gPitchX s1 = gPitchX s" "gPitchY s1 = gPitchY s" "surfs s1 pOutputFinalSurf = surfs s pOutputFinalSurf"
    by (simp_all add: s1_def)
  have w: "?d s1 = want s pOutputFinalSurf" by (simp add: f want_def surf_dims_def)
  have fit: "run [fits (\<lambda>s. usPitchX (cfg s) * usPitchY (cfg s)), remake E ?c pOutputFinalSurf ?d] s1 = Next (remade ?c pOutputFinalSurf ?d s1)"
    using small_products(4) [OF sz] remake_ok [where d = ?d and c = ?c and x = pOutputFinalSurf and s = s1, OF E] by (simp add: gpu_simps f)
  have "\<exists>sf1 ck i. remade ?c pOutputFinalSurf ?d s1 = s1\<lparr>surfs := (surfs s1)(pOutputFinalSurf \<mapsto> sf1), clock := ck, ident := i\<rparr> \<and>
    sdim sf1 = want s pOutputFinalSurf"
  proof (cases "surfs s1 pOutputFinalSurf = None \<or> ?c s1")
    case True
    have "remade ?c pOutputFinalSurf ?d s1 = s1\<lparr>surfs := (surfs s1)(pOutputFinalSurf \<mapsto> \<lparr>sid = ident s1, sdim = ?d s1, sdata = None\<rparr>),
        clock := Suc (clock s1), ident := Suc (ident s1)\<rparr>"
      using True by (cases s1) (simp add: remade_def)
    then show ?thesis using w by (metis surf.select_convs(2))
  next
    case False
    then obtain sf where sf: "surfs s1 pOutputFinalSurf = Some sf" by auto
    then have "s1\<lparr>surfs := (surfs s1)(pOutputFinalSurf \<mapsto> sf), clock := clock s1, ident := ident s1\<rparr> = s1" by (cases s1) auto
    moreover have "sdim sf = want s pOutputFinalSurf" using d(2) [of sf] sf False f by auto
    moreover have "remade ?c pOutputFinalSurf ?d s1 = s1" using False by (auto simp: remade_def)
    ultimately show ?thesis by (intro exI [of _ sf] exI [of _ "clock s1"] exI [of _ "ident s1"]) (simp only:)
  qed
  then obtain sf1 ck' i' where 2: "remade ?c pOutputFinalSurf ?d s1 = s1\<lparr>surfs := (surfs s1)(pOutputFinalSurf \<mapsto> sf1), clock := ck', ident := i'\<rparr>"
    "sdim sf1 = want s pOutputFinalSurf" by blast
  have "run ([?g, ?w] @ [fits (\<lambda>s. usPitchX (cfg s) * usPitchY (cfg s)), remake E ?c pOutputFinalSurf ?d]) s =
      Next (s1\<lparr>surfs := (surfs s1)(pOutputFinalSurf \<mapsto> sf1), clock := ck', ident := i'\<rparr>)"
    unfolding run_append 1(1) by (simp only: outcome.case s1_def [symmetric] fit 2)
  moreover have "s1\<lparr>surfs := (surfs s1)(pOutputFinalSurf \<mapsto> sf1), clock := ck', ident := i'\<rparr> =
     s\<lparr>surfs := (surfs s)(pInputSumSurf \<mapsto> sf0, pOutputFinalSurf \<mapsto> sf1), clock := ck', ident := i'\<rparr>"
    by (cases s) (simp add: s1_def)
  ultimately have "run [?g, ?w, fits (\<lambda>s. usPitchX (cfg s) * usPitchY (cfg s)), remake E ?c pOutputFinalSurf ?d] s =
      Next (s\<lparr>surfs := (surfs s)(pInputSumSurf \<mapsto> sf0, pOutputFinalSurf \<mapsto> sf1), clock := ck', ident := i'\<rparr>)"
    by (simp only: append.simps)
  then show ?thesis using 1(2,3) 2(2) by (intro exI conjI) (assumption+)
qed


lemma final_ok:
  fixes s :: gst
  assumes E: "all_ok E" and p: "program s" "queue s" and sz: "sizes_ok (cfg s)"
    and x: "cont s i0 = Some c0" "i0 \<notin> {pInputSumSurf, pOutputFinalSurf}"
    and d: "\<And>sf. surfs s pInputSumSurf = Some sf \<Longrightarrow> sdim sf = Bytes 32"
      "\<And>sf. surfs s pOutputFinalSurf = Some sf \<Longrightarrow> usPitchX (cfg s) = gPitchX s \<Longrightarrow> usPitchY (cfg s) = gPitchY s \<Longrightarrow>
        sdim sf = want s pOutputFinalSurf"
    and k: "\<And>kr. kernels s kernelFinalExp = Some kr \<Longrightarrow> kfun kr = ''ImageExpSum''"
    and l: "tasks s pKernelArray_Final = None" "spaces s pTS_Final = None" "\<not> events s e_Final"
  shows "\<exists>kr sf0 sf1 W ck i. Call_FianlExpImageSum E i0 s = Next (s\<lparr>kernels := (kernels s)(kernelFinalExp \<mapsto> kr),
      walk := W, clock := ck, ident := i, surfs := (surfs s)(pInputSumSurf \<mapsto> sf0, pOutputFinalSurf \<mapsto> sf1),
      outbuf := Some (Floats (gpu_kernel E ''ImageExpSum'' [Data (Some c0), Data (Some (sum8 (l_sum s))), Out,
        VNum (usPitchX (cfg s)), VNum (usPitchY (cfg s)), VNum (usPitchZ (cfg s)), VFlt (rnd 24 (6 / 10))]))\<rparr>) \<and>
    kfun kr = ''ImageExpSum'' \<and> sdim sf0 = Bytes 32 \<and> sdim sf1 = want s pOutputFinalSurf"
proof -
  let ?k = kernelFinalExp and ?w = "\<lambda>s. (usOutWidth (cfg s) + 15) div 16"
  let ?g = "guarded (\<lambda>s. kernels s ?k = None) [need program, checked_call E (CreateKernel ?k ''ImageExpSum'')]"
  let ?t = "single_task E pKernelArray_Final ?k pTS_Final e_Final (ReadSurface E pOutputFinalSurf)"
  let ?P = "[guarded (\<lambda>s. surfs s pInputSumSurf = None) [checked_call E (new_surf pInputSumSurf (Bytes (8 * 4)))],
     WriteSurface E pInputSumSurf (\<lambda>s. sum8 (l_sum s)),
     fits (\<lambda>s. usPitchX (cfg s) * usPitchY (cfg s)),
     remake E (\<lambda>s. usPitchX (cfg s) \<noteq> gPitchX s \<or> usPitchY (cfg s) \<noteq> gPitchY s) pOutputFinalSurf
       (\<lambda>s. Bytes (uint32 (usPitchX (cfg s) * usPitchY (cfg s) * 4)))]"
  let ?c = "Floats (gpu_kernel E ''ImageExpSum'' [Data (Some c0), Data (Some (sum8 (l_sum s))), Out,
        VNum (usPitchX (cfg s)), VNum (usPitchY (cfg s)), VNum (usPitchZ (cfg s)), VFlt (rnd 24 (6 / 10))])"
  let ?as = "[surf_arg i0, surf_arg pInputSumSurf, surf_arg pOutputFinalSurf, num_arg (\<lambda>s. usPitchX (cfg s)),
     num_arg (\<lambda>s. usPitchY (cfg s)), num_arg (\<lambda>s. usPitchZ (cfg s)), (\<lambda>_. Some (Flt (rnd 24 (6 / 10))))]"
  let ?ws = "[WS i0, WS pInputSumSurf, WS pOutputFinalSurf, WV (Num (usPitchX (cfg s))), WV (Num (usPitchY (cfg s))),
     WV (Num (usPitchZ (cfg s))), WV (Flt (rnd 24 (6 / 10)))]"
  obtain kr ck where g: "?g s = Next (s\<lparr>kernels := (kernels s)(?k \<mapsto> kr), clock := ck\<rparr>)" "kfun kr = ''ImageExpSum''"
    using ensure_own_kernel [OF E p(1) k] by blast
  define s1 where "s1 = s\<lparr>kernels := (kernels s)(?k \<mapsto> kr), clock := ck\<rparr>"
  have f1: "surfs s1 = surfs s" "cfg s1 = cfg s" "gPitchX s1 = gPitchX s" "gPitchY s1 = gPitchY s" "l_sum s1 = l_sum s" "want s1 = want s"
    by (simp_all add: s1_def want_def)
  obtain sf0 sf1 ck1 i1 where P: "run ?P s1 = Next (s1\<lparr>surfs := (surfs s1)(pInputSumSurf \<mapsto> sf0, pOutputFinalSurf \<mapsto> sf1), clock := ck1, ident := i1\<rparr>)"
    "sdim sf0 = Bytes 32" "sdata sf0 = Some (sum8 (l_sum s1))" "sdim sf1 = want s1 pOutputFinalSurf"
    using final_surfaces [OF E, of s1] sz d unfolding f1 by blast
  define S where "S = (surfs s)(pInputSumSurf \<mapsto> sf0, pOutputFinalSurf \<mapsto> sf1)"
  define s2 where "s2 = s\<lparr>kernels := (kernels s)(?k \<mapsto> kr), surfs := S, clock := ck1, ident := i1\<rparr>"
  have P2: "run ?P s1 = Next s2" unfolding P(1) by (cases s) (simp add: s1_def s2_def S_def)
  have f2: "surfs s2 = S" "hosts s2 = hosts s" "cfg s2 = cfg s" "kernels s2 ?k = Some kr" "spaces s2 = spaces s" by (simp_all add: s2_def)
  have c2: "cont s2 i0 = Some c0" "cont s2 pInputSumSurf = Some (sum8 (l_sum s))"
    using x P(2,3) f1(5) by (auto simp: cont_def f2 S_def surf_data_def split: option.splits dims.splits)
  have ne: "\<forall>y\<in>set [i0, pInputSumSurf, pOutputFinalSurf]. surfs s2 y \<noteq> None"
    using c2(1) by (auto simp: f2 S_def cont_def split: option.splits)
  have w: "int_ok (?w s2 * 1)" using small_products(9) [OF sz] f2(3) by simp
  have as: "map (\<lambda>a. a s2) ?as = map Some (map (reify s2) ?ws)"
    using ne by (auto simp: surf_arg_def num_arg_def reify_def f2)
  obtain u kr' W SP where u: "run (threads E ?k pTS_Final ?w (\<lambda>_. 1) # map GetIndex [i0, pInputSumSurf, pOutputFinalSurf] @ [set_args ?k 0 ?as]) s2 = Next u"
    "u = s2\<lparr>kernels := (kernels s2)(?k \<mapsto> kr'), spaces := SP, walk := W, clock := Suc (clock s2), ident := Suc (ident s2)\<rparr>"
    "SP pTS_Final \<noteq> None" "SP(pTS_Final := None) = spaces s" "kfun kr' = ''ImageExpSum''"
    "\<forall>c T. exec_kernel E False ?k (u\<lparr>tasks := T, clock := c\<rparr>) = Some (put_surf pOutputFinalSurf (the (surfs s2 pOutputFinalSurf))
      (Floats (gpu_kernel E ''ImageExpSum'' ((map (val s2) ?ws)[2 := Out]))) (u\<lparr>tasks := T, clock := c\<rparr>))"
  proof -
    have p: "plain ?ws" "\<forall>x. WS x \<in> set ?ws \<longrightarrow> surfs s2 x \<noteq> None" using ne by (auto simp: plain_def)
    have o: "out_arg ''ImageExpSum'' < length ?ws" "?ws ! out_arg ''ImageExpSum'' = WS pOutputFinalSurf" "arity ''ImageExpSum'' = length ?ws"
      by (simp_all add: out_args)
    have st: "\<forall>a\<in>set ?as. arg_stable a" by simp
    have sp: "spaces s2 pTS_Final = None" using l(2) f2(5) by simp
    note wired_kernel [where w = ?w, OF E f2(4) g(2) w sp as st p o ne]
    then show thesis unfolding f2(5) out_args by (elim exE conjE) (rule that)
  qed
  have us: "u = s\<lparr>kernels := (kernels s)(?k \<mapsto> kr'), spaces := SP, walk := W, surfs := S, clock := Suc ck1, ident := Suc i1\<rparr>"
    unfolding u(2) s2_def by (cases s) simp
  have pv: "(map (val s2) ?ws)[2 := Out] = [Data (Some c0), Data (Some (sum8 (l_sum s))), Out,
        VNum (usPitchX (cfg s)), VNum (usPitchY (cfg s)), VNum (usPitchZ (cfg s)), VFlt (rnd 24 (6 / 10))]"
    by (simp add: val_def c2)
  define S' where "S' = S(pOutputFinalSurf \<mapsto> sf1\<lparr>sdata := Some ?c\<rparr>)"
  have dim1: "\<exists>n. sdim sf1 = Bytes n" using P(4) by (simp add: want_def surf_dims_def)
  define v where "v = u\<lparr>clock := Suc (Suc (Suc (Suc (clock u)))), hosts := hosts s, surfs := S', outbuf := Some ?c, spaces := (spaces u)(pTS_Final := None)\<rparr>"
  have "?t u = Next v"
    unfolding v_def
  proof (rule single_task_ok [OF E])
    show "exec_kernel E False ?k (u\<lparr>tasks := T, clock := c\<rparr>) = Some (u\<lparr>tasks := T, clock := c, hosts := hosts s, surfs := S'\<rparr>)" for c T
      unfolding u(6) [rule_format] pv using dim1 by (auto simp: put_surf_def f2 S_def S'_def us)
    show "ReadSurface E pOutputFinalSurf (u\<lparr>tasks := T, clock := c, hosts := hosts s, surfs := S', events := V\<rparr>) =
       Next (u\<lparr>tasks := T, clock := Suc c, hosts := hosts s, surfs := S', events := V, outbuf := Some ?c\<rparr>)" for c T V
      using dim1 by (cases u) (auto simp: calls_ok [OF E] ReadSurface_def S'_def surf_data_def)
  qed (use p u(3) l in \<open>auto simp: us\<close>)
  moreover have "run (?g # ?P @ (threads E ?k pTS_Final ?w (\<lambda>_. 1) # map GetIndex [i0, pInputSumSurf, pOutputFinalSurf] @ [set_args ?k 0 ?as]) @ [?t, off_end E]) s = run [?t, off_end E] u"
    by (rule stage_seq [where f = ?g, OF g(1) [folded s1_def]]) (simp only: run_append P2 u(1) outcome.case)
  moreover have "off_end E v = Next v" by (rule calls_ok(3) [OF E])
  ultimately have "Call_FianlExpImageSum E i0 s = Next (drop_locals [pTS_Final] [pKernelArray_Final] [e_Final] v)"
    unfolding Call_FianlExpImageSum_def ignore_def body_def by (simp del: set_args.simps run.simps) (simp del: set_args.simps)
  also have "drop_locals [pTS_Final] [pKernelArray_Final] [e_Final] v = v"
    using l by (intro drop_locals_none) (simp_all add: v_def us)
  finally have r: "Call_FianlExpImageSum E i0 s = Next v" .
  have "v = s\<lparr>kernels := (kernels s)(?k \<mapsto> kr'), walk := W, clock := clock v, ident := Suc i1,
      surfs := (surfs s)(pInputSumSurf \<mapsto> sf0, pOutputFinalSurf \<mapsto> sf1\<lparr>sdata := Some ?c\<rparr>), outbuf := Some ?c\<rparr>"
    using u(4) unfolding v_def us by (cases s) (simp add: S'_def S_def)
  moreover have "sdim (sf1\<lparr>sdata := Some ?c\<rparr>) = want s pOutputFinalSurf" using P(4) f1(6) by simp
  ultimately show ?thesis using r u(5) P(2) by metis
qed

lemma cont_plain:
  assumes "surfs s' x = surfs s x" "\<And>sf n h. surfs s x = Some sf \<Longrightarrow> sdim sf \<noteq> UP n h"
  shows "cont s' x = cont s x"
proof (cases "surfs s x")
  case (Some sf)
  then show ?thesis using assms by (cases "sdim sf") (auto simp: cont_def surf_data_def)
qed (simp add: cont_def assms(1))

lemma staging_sdim: "staging b j l M A s \<Longrightarrow> x \<in> M \<Longrightarrow> surfs s x = Some sf \<Longrightarrow> sdim sf = want s x"
  by (simp add: staging_def)

lemma staging_old: "staging b j l M A s \<Longrightarrow> x \<notin> M \<Longrightarrow> surfs s x = Some sf \<Longrightarrow> sdim sf = had s x"
  by (simp add: staging_def)

lemma staging_kernel: "staging b j l M A s \<Longrightarrow> kernels s k = Some kr \<Longrightarrow> kfun kr = kernel_fun k"
  by (simp add: staging_def)

lemma staging_cont_plain:
  assumes "staging b j l M A s" "x \<in> M" "x \<notin> {pParamSurfHUP, pParamBufferV, pSrcImageSumBufferUp}" "surfs s' x = surfs s x"
  shows "cont s' x = cont s x"
  using staging_sdim [OF assms(1,2)] want_plain [OF assms(3), of s] by (intro cont_plain assms(4)) metis

text \<open>The buffer for the sums of the columns is kept while the width stays the same.\<close>

definition src_kept :: "bool \<Rightarrow> gst \<Rightarrow> bool" where
  "src_kept b s \<longleftrightarrow> (hosts s SrcImageSumBuffer \<noteq> None \<longleftrightarrow> b) \<and> (b \<longrightarrow> (\<exists>c. hosts s SrcImageSumBuffer = Some (gWidth s * 4, c)))"

lemma src_buffer:
  assumes E: "all_ok E" and S: "staging b 8 8 M A s" and M: "pSrcImageSumBufferUp \<notin> M" and k: "src_kept b s"
  shows "\<exists>c sf ck i. guarded (\<lambda>s. hosts s SrcImageSumBuffer = None \<or> usOutWidth (cfg s) \<noteq> gWidth s) [
       guarded (\<lambda>s. hosts s SrcImageSumBuffer \<noteq> None) [
         set_st (\<lambda>s. s\<lparr>hosts := (hosts s)(SrcImageSumBuffer := None)\<rparr>), DestroySurface pSrcImageSumBufferUp],
       tried E (\<lambda>s. s\<lparr>hosts := (hosts s)(SrcImageSumBuffer \<mapsto> (usOutWidth (cfg s) * 4, None))\<rparr>),
       (\<lambda>s. tried E (new_surf pSrcImageSumBufferUp (UP (usOutWidth (cfg s) * 4) SrcImageSumBuffer)) s)] s =
     Next (s\<lparr>surfs := (surfs s)(pSrcImageSumBufferUp \<mapsto> sf), hosts := (hosts s)(SrcImageSumBuffer \<mapsto> (usOutWidth (cfg s) * 4, c)),
       clock := ck, ident := i\<rparr>) \<and> sdim sf = UP (usOutWidth (cfg s) * 4) SrcImageSumBuffer"
proof -
  have up: "surfs s pSrcImageSumBufferUp \<noteq> None \<longleftrightarrow> b" using S M unfolding staging_def by blast
  have hb: "hosts s SrcImageSumBuffer \<noteq> None \<longleftrightarrow> b" using k unfolding src_kept_def by blast
  show ?thesis
  proof (cases "hosts s SrcImageSumBuffer = None \<or> usOutWidth (cfg s) \<noteq> gWidth s")
    case True
    let ?sf = "\<lparr>sid = ident s, sdim = UP (usOutWidth (cfg s) * 4) SrcImageSumBuffer, sdata = None\<rparr>"
    show ?thesis
    proof (intro exI conjI)
      show "guarded (\<lambda>s. hosts s SrcImageSumBuffer = None \<or> usOutWidth (cfg s) \<noteq> gWidth s) [
       guarded (\<lambda>s. hosts s SrcImageSumBuffer \<noteq> None) [
         set_st (\<lambda>s. s\<lparr>hosts := (hosts s)(SrcImageSumBuffer := None)\<rparr>), DestroySurface pSrcImageSumBufferUp],
       tried E (\<lambda>s. s\<lparr>hosts := (hosts s)(SrcImageSumBuffer \<mapsto> (usOutWidth (cfg s) * 4, None))\<rparr>),
       (\<lambda>s. tried E (new_surf pSrcImageSumBufferUp (UP (usOutWidth (cfg s) * 4) SrcImageSumBuffer)) s)] s =
        Next (s\<lparr>surfs := (surfs s)(pSrcImageSumBufferUp \<mapsto> ?sf), hosts := (hosts s)(SrcImageSumBuffer \<mapsto> (usOutWidth (cfg s) * 4, None)),
          clock := Suc (Suc (clock s)), ident := Suc (ident s)\<rparr>)"
        using True up hb E by (cases s) (auto simp: gpu_simps new_surf_def DestroySurface_def)
    qed simp
  next
    case False
    then obtain c where c: "hosts s SrcImageSumBuffer = Some (usOutWidth (cfg s) * 4, c)"
      using k unfolding src_kept_def by auto
    obtain sf where sf: "surfs s pSrcImageSumBufferUp = Some sf" using up hb c by auto
    have "s\<lparr>surfs := (surfs s)(pSrcImageSumBufferUp \<mapsto> sf), hosts := (hosts s)(SrcImageSumBuffer \<mapsto> (usOutWidth (cfg s) * 4, c)),
       clock := clock s, ident := ident s\<rparr> = s" using c sf by (cases s) auto
    moreover have "sdim sf = UP (usOutWidth (cfg s) * 4) SrcImageSumBuffer"
      using staging_old [OF S M sf] False by (simp add: had_def surf_dims_def)
    ultimately show ?thesis unfolding guarded_def if_not_P [OF False]
      by (intro exI [of _ c] exI [of _ sf] exI [of _ "clock s"] exI [of _ "ident s"]) (simp only:)
  qed
qed

lemma source_sum_ok:
  assumes E: "all_ok E" and S: "staging b 8 8 M_all A s" and sz: "sizes_ok (cfg s)" and k: "src_kept b s"
    and x: "cont s pInputSurf0 = Some x1" "cont s pInputSurf1 = Some x2" and ev: "\<forall>e. \<not> events s e"
    and g: "gx g * gy g = usOutWidth (cfg s)" "gz g = usPitchZ (cfg s)"
  shows "\<exists>kr W ck i c sf. gc_source_sum E s = Next (s\<lparr>kernels := (kernels s)(kernelSrcImageSum \<mapsto> kr), walk := W, clock := ck, ident := i,
      surfs := (surfs s)(pSrcImageSumBufferUp \<mapsto> sf), hosts := (hosts s)(SrcImageSumBuffer \<mapsto> (usOutWidth (cfg s) * 4, c)),
      l_sum := square_sum E g x1 x2\<rparr>) \<and> kfun kr = ''SrcImageSum'' \<and> sdim sf = UP (usOutWidth (cfg s) * 4) SrcImageSumBuffer"
proof -
  have up: "pSrcImageSumBufferUp \<notin> M_all" by (simp add: M_all_def M_fwd_def M_in_def)
  have im: "pInputSurf0 \<in> M_all" "pInputSurf1 \<in> M_all" by (simp_all add: M_all_def M_fwd_def M_in_def)
  let ?n = "usOutWidth (cfg s) * 4"
  obtain c sf ck i where 1: "guarded (\<lambda>s. hosts s SrcImageSumBuffer = None \<or> usOutWidth (cfg s) \<noteq> gWidth s) [
       guarded (\<lambda>s. hosts s SrcImageSumBuffer \<noteq> None) [
         set_st (\<lambda>s. s\<lparr>hosts := (hosts s)(SrcImageSumBuffer := None)\<rparr>), DestroySurface pSrcImageSumBufferUp],
       tried E (\<lambda>s. s\<lparr>hosts := (hosts s)(SrcImageSumBuffer \<mapsto> (usOutWidth (cfg s) * 4, None))\<rparr>),
       (\<lambda>s. tried E (new_surf pSrcImageSumBufferUp (UP (usOutWidth (cfg s) * 4) SrcImageSumBuffer)) s)] s =
     Next (s\<lparr>surfs := (surfs s)(pSrcImageSumBufferUp \<mapsto> sf), hosts := (hosts s)(SrcImageSumBuffer \<mapsto> (?n, c)), clock := ck, ident := i\<rparr>)"
     "sdim sf = UP ?n SrcImageSumBuffer" using src_buffer [OF E S up k] by blast
  define s1 where "s1 = s\<lparr>surfs := (surfs s)(pSrcImageSumBufferUp \<mapsto> sf), hosts := (hosts s)(SrcImageSumBuffer \<mapsto> (?n, c)), clock := ck, ident := i\<rparr>"
  have f: "program s1" "queue s1" "cfg s1 = cfg s" "kernels s1 = kernels s" "tasks s1 = tasks s" "spaces s1 = spaces s" "events s1 = events s"
    "surfs s1 pSrcImageSumBufferUp = Some sf" "hosts s1 SrcImageSumBuffer = Some (?n, c)"
    using S by (simp_all add: s1_def staging_def)
  have c1: "cont s1 pInputSurf0 = Some x1" "cont s1 pInputSurf1 = Some x2"
    using x staging_cont_plain [OF S im(1), of s1] staging_cont_plain [OF S im(2), of s1] by (simp_all add: s1_def)
  have sz1: "sizes_ok (cfg s1)" using sz f(3) by simp
  have kk: "kfun kr = ''SrcImageSum''" if "kernels s1 kernelSrcImageSum = Some kr" for kr
    using staging_kernel [OF S] that by (simp add: f kernel_fun_def)
  have l: "tasks s1 pKernelArrayTmp = None" "spaces s1 pTS_SrcImageSum = None" "\<not> events s1 e_SrcImageSum"
  proof -
    show "tasks s1 pKernelArrayTmp = None" using S by (simp add: staging_def f)
    have "spaces s pTS_SrcImageSum \<noteq> None \<longleftrightarrow> pTS_SrcImageSum \<in> set (take 8 torder)" using S unfolding staging_def by blast
    then show "spaces s1 pTS_SrcImageSum = None" by (simp add: f torder_def)
    show "\<not> events s1 e_SrcImageSum" using ev by (simp add: f)
  qed
  let ?K = "gpu_kernel E ''SrcImageSum'' [Data (Some x1), Data (Some x2), Out, VNum (usPitchZ (cfg s1))]"
  obtain kr W ck2 i2 where 2: "Call_SrcImageSum E pInputSurf0 pInputSurf1 pSrcImageSumBufferUp s1 =
      Next (s1\<lparr>kernels := (kernels s1)(kernelSrcImageSum \<mapsto> kr), walk := W, clock := ck2, ident := i2,
        hosts := (hosts s1)(SrcImageSumBuffer \<mapsto> (?n, Some (Floats ?K)))\<rparr>)" "kfun kr = ''SrcImageSum''"
    using src_sum_ok [OF E f(1,2) sz1 c1 f(8) 1(2) f(9) kk l] by blast
  have "host_sum (s1\<lparr>kernels := (kernels s1)(kernelSrcImageSum \<mapsto> kr), walk := W, clock := ck2, ident := i2,
        hosts := (hosts s1)(SrcImageSumBuffer \<mapsto> (?n, Some (Floats ?K)))\<rparr>) =
      Next (s\<lparr>kernels := (kernels s)(kernelSrcImageSum \<mapsto> kr), walk := W, clock := ck2, ident := i2,
      surfs := (surfs s)(pSrcImageSumBufferUp \<mapsto> sf), hosts := (hosts s)(SrcImageSumBuffer \<mapsto> (?n, Some (Floats ?K))),
      l_sum := square_sum E g x1 x2\<rparr>)"
    by (cases s) (simp add: host_sum_def s1_def square_sum_def g)
  then have "gc_source_sum E s = Next (s\<lparr>kernels := (kernels s)(kernelSrcImageSum \<mapsto> kr), walk := W, clock := ck2, ident := i2,
      surfs := (surfs s)(pSrcImageSumBufferUp \<mapsto> sf), hosts := (hosts s)(SrcImageSumBuffer \<mapsto> (?n, Some (Floats ?K))),
      l_sum := square_sum E g x1 x2\<rparr>)"
    unfolding gc_source_sum_def run.simps 1(1) s1_def [symmetric] outcome.case 2(1) by (simp only: outcome.case)
  then show ?thesis using 2(2) 1(2) by blast
qed

text \<open>Writing the inputs, into surfaces made for them when the sizes have changed.\<close>

lemma inputs_ok:
  assumes E: "all_ok E" and S: "staging b 0 0 {pOutputSurf_H_F_0} [] s" and G: "good_sizes s" and bi: "\<not> bInv (cfg s)"
  shows "\<exists>s'. gc_inputs E x1 x2 s = Next s' \<and> staging b 0 0 M_in [] s' \<and> rest s' = rest s \<and> cont s' pInputSurf0 = Some x1 \<and>
    cont s' pInputSurf1 = Some x2 \<and> l_factor s' = l_factor s \<and> l_wave s' = l_wave s"
proof -
  have sb: "surfs s pInputSurf0 \<noteq> None \<longleftrightarrow> b" "surfs s pInputSurf1 \<noteq> None \<longleftrightarrow> b" using S unfolding staging_def by blast+
  have wd: "want s pInputSurf0 = Pixels (usInWidth (cfg s)) (usInHeight (cfg s))" "want s pInputSurf1 = Pixels (usInWidth (cfg s)) (usInHeight (cfg s))"
    using good_sizesD(4,5) [OF G] by (simp_all add: want_def surf_dims_def)
  have "\<exists>sf0 sf1 ck i. gc_inputs E x1 x2 s = Next (s\<lparr>surfs := (surfs s)(pInputSurf0 \<mapsto> sf0, pInputSurf1 \<mapsto> sf1), clock := ck, ident := i\<rparr>) \<and>
    sdim sf0 = want s pInputSurf0 \<and> sdim sf1 = want s pInputSurf1 \<and> sdata sf0 = Some x1 \<and> sdata sf1 = Some x2"
  proof (cases "surfs s pInputSurf0 = None \<or> surfs s pInputSurf1 = None \<or> new_size s")
    case True
    let ?d = "Pixels (usInWidth (cfg s)) (usInHeight (cfg s))"
    have "gc_inputs E x1 x2 s = Next (s\<lparr>surfs := (surfs s)(pInputSurf0 \<mapsto> \<lparr>sid = ident s, sdim = ?d, sdata = Some x1\<rparr>,
        pInputSurf1 \<mapsto> \<lparr>sid = Suc (ident s), sdim = ?d, sdata = Some x2\<rparr>), clock := Suc (Suc (Suc (Suc (clock s)))), ident := Suc (Suc (ident s))\<rparr>)"
      using True sb E bi by (cases s; cases b) (auto simp: gc_inputs_def gpu_simps gc_create_inputs_def new_surf_def DestroySurface_def WriteSurface_def fun_upd_twist)
    then show ?thesis by (intro exI conjI) (assumption, simp_all add: wd)
  next
    case False
    then obtain f0 f1 where f: "surfs s pInputSurf0 = Some f0" "surfs s pInputSurf1 = Some f1" by auto
    have "had s x = want s x" for x using same_size_in(2) [OF G] False by blast
    then have "sdim f0 = want s pInputSurf0" "sdim f1 = want s pInputSurf1"
      using staging_old [OF S _ f(1)] staging_old [OF S _ f(2)] by simp_all
    moreover have "gc_inputs E x1 x2 s = Next (s\<lparr>surfs := (surfs s)(pInputSurf0 \<mapsto> f0\<lparr>sdata := Some x1\<rparr>,
        pInputSurf1 \<mapsto> f1\<lparr>sdata := Some x2\<rparr>), clock := Suc (Suc (clock s)), ident := ident s\<rparr>)"
      using False f E by (cases s) (simp add: gc_inputs_def gpu_simps WriteSurface_def)
    ultimately show ?thesis by (intro exI conjI) (assumption, simp_all)
  qed
  then obtain sf0 sf1 ck i where r: "gc_inputs E x1 x2 s = Next (s\<lparr>surfs := (surfs s)(pInputSurf0 \<mapsto> sf0, pInputSurf1 \<mapsto> sf1), clock := ck, ident := i\<rparr>)"
    "sdim sf0 = want s pInputSurf0" "sdim sf1 = want s pInputSurf1" "sdata sf0 = Some x1" "sdata sf1 = Some x2" by blast
  define s' where "s' = s\<lparr>surfs := (surfs s)(pInputSurf0 \<mapsto> sf0, pInputSurf1 \<mapsto> sf1), clock := ck, ident := i\<rparr>"
  have f: "rest s' = rest s" "had s' = had s" "want s' = want s" by (simp_all add: s'_def rest_def had_def want_def)
  have "staging b 0 0 M_in [] s'"
    using S r(2,3) unfolding staging_def f M_in_def by (auto simp: s'_def)
  moreover have "cont s' pInputSurf0 = Some x1" "cont s' pInputSurf1 = Some x2"
    using r wd by (auto simp: cont_def s'_def surf_data_def)
  ultimately show ?thesis using r(1) f(1) unfolding s'_def by (intro exI conjI) (assumption, simp_all)
qed

end
