(* ===== verification/KcfGpuCalls.thy ===== *)
theory KcfGpuCalls
  imports KcfGpuRun
begin

text \<open>
  Whole calls of the correlation. \<open>gpu_ready\<close> is the state between two calls; \<open>correlation_step\<close> shows that a call keeps it
  and leaves the composition \<open>gauss_result\<close> in the output matrix; \<open>correlates_ok\<close> states this for any sequence of calls. The last theorem shows a
  failure that goes unnoticed.
\<close>

section \<open>A whole call\<close>

text \<open>The state between two calls: before the first one (\<open>\<not> b\<close>) nothing exists but the program, the queue and the
  empty task; afterwards every object exists once, with the size that the last sizes ask for, and no local
  object is left.\<close>

definition gpu_ready :: "gpu_env \<Rightarrow> bool \<Rightarrow> gst \<Rightarrow> bool" where
  "gpu_ready E b s \<longleftrightarrow> program s \<and> queue s \<and> tasks s = [pKernelArray \<mapsto> pipeline (if b then 8 else 0)] \<and>
     spaces s = Map.empty \<and> events s = (\<lambda>_. False) \<and>
     (\<forall>k kr. kernels s k = Some kr \<longrightarrow> kfun kr = kernel_fun k) \<and> (\<forall>k. kernels s k \<noteq> None \<longleftrightarrow> b) \<and>
     (\<forall>x. surfs s x \<noteq> None \<longleftrightarrow> b) \<and> (\<forall>x sf. surfs s x = Some sf \<longrightarrow> sdim sf = had s x) \<and>
     gWidth s = gPitchX s * gPitchY s \<and>
     table_kept E b s pParamBufferULTH (gPitchX s) None (nfx s) \<and>
     table_kept E b s pParamBufferULTV (gPitchY s) (Some 0) (nfy s) \<and> src_kept b s"

definition gauss_result :: "gpu_env \<Rightarrow> gauss \<Rightarrow> content \<Rightarrow> content \<Rightarrow> content" where
  "gauss_result E g x1 x2 = Floats (gpu_kernel E ''ImageExpSum'' [Data (Some (cross_sum E g x1 x2)),
     Data (Some (sum8 (square_sum E g x1 x2))), Out, VNum (gx g), VNum (gy g), VNum (gz g), VFlt (rnd 24 (6 / 10))])"

lemma run_app_next: "run xs s = Next s' \<Longrightarrow> run (xs @ ys) s = run ys s'"
  by (simp add: run_append)

definition call_cfg :: "gst \<Rightarrow> int \<Rightarrow> int \<Rightarrow> int \<Rightarrow> int \<Rightarrow> int \<Rightarrow> int \<Rightarrow> sPerfProfileParam" where
  "call_cfg s w h ch px py pz = (cfg s)\<lparr>bInv := False, ucChannel := ch, usInHeight := h, usOutHeight := h,
     usInWidth := w, usOutWidth := w, usPitchX := px, usPitchY := py, usPitchZ := pz, fScale := 1\<rparr>"

lemma prepare_ok:
  assumes E: "all_ok E" and R: "gpu_ready E b s" and p: "1 \<le> px" "px \<le> 32" "1 \<le> py" "py \<le> 32"
    and z: "0 \<le> pz" "pz < 2 ^ 16" "0 \<le> h" "h < 2 ^ 16"
  shows "\<exists>s'. run [gc_config (px * py) h ch px py pz, gc_buffer_H0 E, gc_inputs E x1 x2] s = Next s' \<and>
    staging b 0 0 M_in [] s' \<and> cfg s' = call_cfg s (px * py) h ch px py pz \<and> good_sizes s' \<and> carried s' = carried s \<and>
    hosts s' = hosts s \<and> nfx s' = nfx s \<and> nfy s' = nfy s \<and>
    l_factor s' = replicate 8 0 \<and> length (l_itab s') = 32 \<and> l_wave s' = replicate 64 0 \<and>
    cont s' pInputSurf0 = Some x1 \<and> cont s' pInputSurf1 = Some x2"
proof -
  define s1 where "s1 = s\<lparr>l_factor := replicate 8 0, l_itab := replicate 32 0, l_wave := replicate 64 0,
    cfg := call_cfg s (px * py) h ch px py pz\<rparr>"
  have f1: "cfg s1 = call_cfg s (px * py) h ch px py pz" "carried s1 = carried s" "hosts s1 = hosts s" "nfx s1 = nfx s" "nfy s1 = nfy s"
    "l_factor s1 = replicate 8 0" "length (l_itab s1) = 32" "l_wave s1 = replicate 64 0" "had s1 = had s"
    by (simp_all add: s1_def carried_def had_def del: replicate.simps)
  have sz: "sizes_ok (cfg s1)" using p z by (simp add: f1 call_cfg_def sizes_ok_def)
  have G1: "good_sizes s1" using sz R by (simp add: good_sizes_def gpu_ready_def s1_def)
  have "0 \<le> px * py \<and> px * py \<le> 32 * 32" by (rule prod_le) (use p in simp_all)
  then have "0 \<le> px * py * h \<and> px * py * h \<le> 32 * 32 * 2 ^ 16" using prod_le [of "px * py" "32 * 32" h "2 ^ 16"] z by simp
  then have "int_ok (px * py * h)" by (intro small_int_ok) simp_all
  then have r1: "gc_config (px * py) h ch px py pz s = Next s1" by (simp add: gc_config_def gpu_simps s1_def call_cfg_def del: replicate.simps)
  have S1: "staging b 0 0 {} [] s1"
    using R unfolding staging_def f1 by (simp add: gpu_ready_def s1_def)
  obtain s2 where s2: "gc_buffer_H0 E s1 = Next s2" "staging b 0 0 {pOutputSurf_H_F_0} [] s2" "rest s2 = rest s1"
  proof -
    have "\<not> new_size s1 \<Longrightarrow> had s1 pOutputSurf_H_F_0 = want s1 pOutputSurf_H_F_0" by (rule same_size_in(2) [OF G1])
    with make_step [OF E S1, of pOutputSurf_H_F_0 complex_bytes new_size] complex_want [of pOutputSurf_H_F_0 s1] show thesis
      using that unfolding gc_buffer_H0_def by (simp add: complex_bytes_def) blast
  qed
  have "s2 = remade new_size pOutputSurf_H_F_0 complex_bytes s1"
    using s2(1) remake_ok [OF E, where d = complex_bytes and c = new_size and s = s1 and x = pOutputSurf_H_F_0]
    by (simp add: gc_buffer_H0_def complex_bytes_def)
  then have l2: "l_factor s2 = l_factor s1" "l_wave s2 = l_wave s1" by (simp_all add: remade_simps)
  note R2 = rest_eqD [OF s2(3)]
  have G2: "good_sizes s2" using G1 rest_good [OF s2(3)] by simp
  have "\<not> bInv (cfg s2)" by (simp add: R2 f1 call_cfg_def)
  then obtain s3 where s3: "gc_inputs E x1 x2 s2 = Next s3" "staging b 0 0 M_in [] s3" "rest s3 = rest s2" "cont s3 pInputSurf0 = Some x1"
    "cont s3 pInputSurf1 = Some x2" "l_factor s3 = l_factor s2" "l_wave s3 = l_wave s2"
    using inputs_ok [OF E s2(2) G2] by blast
  note R3 = rest_eqD [OF s3(3)]
  have "good_sizes s3" using G2 rest_good [OF s3(3)] by simp
  moreover have "carried s3 = carried s" using rest_carried [OF s3(3)] rest_carried [OF s2(3)] f1(2) by simp
  ultimately show ?thesis using r1 s2(1) s3 l2 f1 R2 R3 by (intro exI [of _ s3]) (simp del: replicate.simps)
qed

lemma cont_UP:
  assumes "staging b j l M A s" "x \<in> M" "want s x = UP n h" "hosts s h = Some (n, c)"
  shows "cont s x = c"
proof -
  obtain sf where "surfs s x = Some sf" using staging_made [OF assms(1,2)] by auto
  then show ?thesis using staging_sdim [OF assms(1,2)] assms(3,4) by (simp add: cont_def surf_data_def)
qed

lemma staging_clock: "staging b j l M A (s\<lparr>clock := c\<rparr>) = staging b j l M A s"
proof -
  have "armed (s\<lparr>clock := c\<rparr>) = armed s" "had (s\<lparr>clock := c\<rparr>) = had s" "want (s\<lparr>clock := c\<rparr>) = want s"
    by (simp_all add: fun_eq_iff armed_def reify_def [abs_def] had_def want_def)
  then show ?thesis by (simp add: staging_def)
qed

lemma cont_clock: "cont (s\<lparr>clock := c\<rparr>) = cont s"
  by (intro ext) (simp add: cont_def surf_data_def split: option.splits dims.splits)

text \<open>The task of eight kernels computes the correlation of the two inputs.\<close>

lemma enqueue_ok:
  assumes E: "all_ok E" and S: "staging b 8 8 M_all (fwd_wires s0 @ inv_wires s) s" and c0: "bInv (cfg s0) = False" "fScale (cfg s0) = 1"
    and c: "cfg s = inv_cfg (cfg s0)" "nfx s = nfx s0" "nfy s = nfy s0"
    and h: "hosts s pParamBufferULTH = Some (320, Some cH)" "hosts s pParamBufferULTV = Some (320, Some cV)"
    and x: "cont s pInputSurf0 = Some x1" "cont s pInputSurf1 = Some x2" and g: "g = gauss_of s0 cH cV"
  shows "\<exists>Sf ck. Enqueue E pKernelArray None s = Next (s\<lparr>surfs := Sf, clock := ck\<rparr>) \<and>
    staging b 8 8 M_all (fwd_wires s0 @ inv_wires s) (s\<lparr>surfs := Sf, clock := ck\<rparr>) \<and>
    cont (s\<lparr>surfs := Sf, clock := ck\<rparr>) pOutputInvSumSurf = Some (cross_sum E g x1 x2) \<and>
    cont (s\<lparr>surfs := Sf, clock := ck\<rparr>) pInputSurf0 = Some x1 \<and> cont (s\<lparr>surfs := Sf, clock := ck\<rparr>) pInputSurf1 = Some x2"
proof -
  let ?A = "fwd_wires s0 @ inv_wires s"
  let ?s = "s\<lparr>clock := Suc (clock s)\<rparr>"
  have g': "g = gauss_of s cH cV" unfolding g by (simp add: gauss_of_def c inv_cfg_def)
  have M: "M_fwd \<subseteq> M_all" by (auto simp: M_all_def)
  have "pParamSurfHUP \<in> M_all" "pParamBufferV \<in> M_all" by (simp_all add: M_all_def M_fwd_def)
  then have ct: "cont s pParamSurfHUP = Some cH" "cont s pParamBufferV = Some cV"
    using cont_UP [OF S] h by (simp_all add: want_def surf_dims_def)
  have S1: "staging b 8 8 M_all ?A ?s" using S unfolding staging_clock .
  have fw: "set (fwd_wires s0) \<subseteq> set ?A" by simp
  obtain s1 where s1: "exec_task E True (pipeline 8) ?s = exec_task E True [Run kernel_MulSpec, Sync, Run kernel_H_I, Sync, Run kernel_V_I, Sync, Run kernel_ImageSum, Sync] s1"
    "staging b 8 8 M_all ?A s1" "s1 = ?s\<lparr>surfs := surfs s1\<rparr>" "cont s1 pOutputSurf_V_F_0 = Some (spectrum E g x1)" "cont s1 pOutputSurf_V_F_1 = Some (spectrum E g x2)"
    "\<forall>x. x \<notin> {pOutputSurf_H_F_0, pOutputSurf_V_F_0, pOutputSurf_H_F_1, pOutputSurf_V_F_1} \<longrightarrow> cont s1 x = cont ?s x"
    using exec_forward [OF S1 M fw c0 g, where es = "[Run kernel_MulSpec, Sync, Run kernel_H_I, Sync, Run kernel_V_I, Sync, Run kernel_ImageSum, Sync]",
      unfolded cont_clock, OF x ct]
    unfolding pipeline_list cont_clock by blast
  have ci: "bInv (cfg s)" "fScale (cfg s) = fdiv 1 (i2f (gx g * gy g))" by (simp_all add: c inv_cfg_def g gauss_of_def)
  have ct1: "cont s1 pParamSurfHUP = Some cH" "cont s1 pParamBufferV = Some cV" "cont s1 pInputSurf0 = Some x1" "cont s1 pInputSurf1 = Some x2"
    using s1(6) ct x by (simp_all add: cont_clock)
  have sub: "set (inv_wires s) \<subseteq> set ?A" by simp
  obtain s2 where s2: "exec_task E True [Run kernel_MulSpec, Sync, Run kernel_H_I, Sync, Run kernel_V_I, Sync, Run kernel_ImageSum, Sync] s1 = Some s2"
    "staging b 8 8 M_all ?A s2" "s2 = s1\<lparr>surfs := surfs s2\<rparr>" "cont s2 pOutputInvSumSurf = Some (cross_sum E g x1 x2)"
    "\<forall>x. x \<notin> {pMulSpectrumSurf, pOutputSurf_H_V_1, pOutputSurf_V_V_1, pOutputInvSumSurf} \<longrightarrow> cont s2 x = cont s1 x"
    using exec_inverse [OF s1(2) subset_refl sub ci g' s1(4,5) ct1(1,2)] by blast
  have e: "s2 = s\<lparr>surfs := surfs s2, clock := Suc (clock s)\<rparr>"
    by (subst s2(3), subst s1(3), cases s) simp
  have "tasks s pKernelArray = Some (pipeline 8)" "queue s" using S by (auto simp: staging_def)
  then have "Enqueue E pKernelArray None s = Next s2"
    using E s1(1) s2(1) by (simp add: Enqueue_def all_ok_def)
  then show ?thesis using e s2 ct1 by (intro exI [of _ "surfs s2"] exI [of _ "Suc (clock s)"]) simp
qed

lemma destroy_spaces:
  "distinct ts \<Longrightarrow> \<forall>t\<in>set ts. spaces s t \<noteq> None \<Longrightarrow>
    run (map DestroyThreadSpace ts) s = Next (s\<lparr>spaces := (\<lambda>t. if t \<in> set ts then None else spaces s t)\<rparr>)"
proof (induction ts arbitrary: s)
  case Nil
  then show ?case by (cases s) simp
next
  case (Cons t ts)
  then obtain i where i: "spaces s t = Some i" by auto
  define s1 where "s1 = s\<lparr>spaces := (spaces s)(t := None)\<rparr>"
  have p: "\<forall>t\<in>set ts. spaces s1 t \<noteq> None" using Cons.prems by (auto simp: s1_def)
  have e: "(\<lambda>u. if u \<in> set ts then None else spaces s1 u) = (\<lambda>u. if u \<in> set (t # ts) then None else spaces s u)"
    by (auto simp: s1_def fun_eq_iff)
  have "run (map DestroyThreadSpace (t # ts)) s = run (map DestroyThreadSpace ts) s1"
    using i by (simp add: DestroyThreadSpace_def s1_def)
  also have "\<dots> = Next (s1\<lparr>spaces := (\<lambda>u. if u \<in> set (t # ts) then None else spaces s u)\<rparr>)"
    using Cons.IH [OF _ p] Cons.prems(1) e by simp
  finally show ?case by (simp add: s1_def)
qed

definition tail_state :: "gst \<Rightarrow> cm_kernel \<Rightarrow> cm_kernel \<Rightarrow> surf \<Rightarrow> surf \<Rightarrow> surf \<Rightarrow> content option \<Rightarrow> f32 \<Rightarrow> content \<Rightarrow>
    (tname \<Rightarrow> bool) \<Rightarrow> nat \<Rightarrow> nat \<Rightarrow> gst" where
  "tail_state s kr kr2 sf sf0 sf1 c l r W ck i = s\<lparr>
     kernels := (kernels s)(kernelSrcImageSum \<mapsto> kr, kernelFinalExp \<mapsto> kr2),
     surfs := (surfs s)(pSrcImageSumBufferUp \<mapsto> sf, pInputSumSurf \<mapsto> sf0, pOutputFinalSurf \<mapsto> sf1),
     hosts := (hosts s)(SrcImageSumBuffer \<mapsto> (usOutWidth (cfg s) * 4, c)),
     spaces := Map.empty, walk := W, gWidth := usOutWidth (cfg s), gHeight := usOutHeight (cfg s),
     gPitchX := usPitchX (cfg s), gPitchY := usPitchY (cfg s), gPitchZ := usPitchZ (cfg s),
     l_sum := l, outbuf := Some r, clock := ck, ident := i\<rparr>"

lemma tail_ok:
  assumes E: "all_ok E" and S: "staging b 8 8 M_all A s" and sz: "sizes_ok (cfg s)" and k: "src_kept b s"
    and x: "cont s pInputSurf0 = Some x1" "cont s pInputSurf1 = Some x2" "cont s pOutputInvSumSurf = Some c0"
    and ev: "\<forall>e. \<not> events s e"
    and g: "gx g = usPitchX (cfg s)" "gy g = usPitchY (cfg s)" "gz g = usPitchZ (cfg s)" and c0: "c0 = cross_sum E g x1 x2"
  shows "\<exists>kr kr2 sf sf0 sf1 c l W ck i. run [gc_source_sum E, gc_finish E] s =
      Next (tail_state s kr kr2 sf sf0 sf1 c l (gauss_result E g x1 x2) W ck i) \<and>
    kfun kr = ''SrcImageSum'' \<and> kfun kr2 = ''ImageExpSum'' \<and> sdim sf = UP (usOutWidth (cfg s) * 4) SrcImageSumBuffer \<and>
    sdim sf0 = Bytes 32 \<and> sdim sf1 = want s pOutputFinalSurf"
proof -
  have gw: "gx g * gy g = usOutWidth (cfg s)" using sz g by (simp add: sizes_ok_def)
  obtain kr W ck i c sf where 1: "gc_source_sum E s = Next (s\<lparr>kernels := (kernels s)(kernelSrcImageSum \<mapsto> kr), walk := W, clock := ck, ident := i,
      surfs := (surfs s)(pSrcImageSumBufferUp \<mapsto> sf), hosts := (hosts s)(SrcImageSumBuffer \<mapsto> (usOutWidth (cfg s) * 4, c)),
      l_sum := square_sum E g x1 x2\<rparr>)" "kfun kr = ''SrcImageSum''" "sdim sf = UP (usOutWidth (cfg s) * 4) SrcImageSumBuffer"
    using source_sum_ok [OF E S sz k x(1,2) ev gw g(3)] by blast
  define s1 where "s1 = s\<lparr>kernels := (kernels s)(kernelSrcImageSum \<mapsto> kr), walk := W, clock := ck, ident := i,
      surfs := (surfs s)(pSrcImageSumBufferUp \<mapsto> sf), hosts := (hosts s)(SrcImageSumBuffer \<mapsto> (usOutWidth (cfg s) * 4, c)),
      l_sum := square_sum E g x1 x2\<rparr>"
  have f: "program s1" "queue s1" "cfg s1 = cfg s" "tasks s1 = tasks s" "spaces s1 = spaces s" "events s1 = events s"
    "gPitchX s1 = gPitchX s" "gPitchY s1 = gPitchY s" "l_sum s1 = square_sum E g x1 x2" "want s1 = want s"
    "kernels s1 kernelFinalExp = kernels s kernelFinalExp" "surfs s1 pInputSumSurf = surfs s pInputSumSurf"
    "surfs s1 pOutputFinalSurf = surfs s pOutputFinalSurf"
    using S by (simp_all add: s1_def staging_def want_def)
  have im: "pOutputInvSumSurf \<in> M_all" "pInputSumSurf \<notin> M_all" "pOutputFinalSurf \<notin> M_all" by (simp_all add: M_all_def M_fwd_def M_in_def)
  have c1: "cont s1 pOutputInvSumSurf = Some c0"
    using x(3) staging_cont_plain [OF S im(1), of s1] by (simp add: s1_def)
  have sz1: "sizes_ok (cfg s1)" using sz f(3) by simp
  have d1: "sdim sf = Bytes 32" if "surfs s1 pInputSumSurf = Some sf" for sf
    using staging_old [OF S im(2)] that by (simp add: f had_def surf_dims_def)
  have d2: "sdim sf = want s1 pOutputFinalSurf" if "surfs s1 pOutputFinalSurf = Some sf" "usPitchX (cfg s1) = gPitchX s1" "usPitchY (cfg s1) = gPitchY s1" for sf
    using staging_old [OF S im(3)] that by (simp add: f had_def want_def surf_dims_def)
  have kk: "kfun kr = ''ImageExpSum''" if "kernels s1 kernelFinalExp = Some kr" for kr
    using staging_kernel [OF S] that by (simp add: f kernel_fun_def)
  have sp: "spaces s t \<noteq> None \<longleftrightarrow> t \<in> set torder" for t using S by (simp add: staging_def torder_def)
  have l: "tasks s1 pKernelArray_Final = None" "spaces s1 pTS_Final = None" "\<not> events s1 e_Final"
  proof -
    show "tasks s1 pKernelArray_Final = None" using S by (simp add: staging_def f)
    show "spaces s1 pTS_Final = None" using sp [of pTS_Final] by (simp add: f torder_def)
    show "\<not> events s1 e_Final" using ev by (simp add: f)
  qed
  obtain kr2 sf0 sf1 W2 ck2 i2 where 2: "Call_FianlExpImageSum E pOutputInvSumSurf s1 = Next (s1\<lparr>kernels := (kernels s1)(kernelFinalExp \<mapsto> kr2),
      walk := W2, clock := ck2, ident := i2, surfs := (surfs s1)(pInputSumSurf \<mapsto> sf0, pOutputFinalSurf \<mapsto> sf1),
      outbuf := Some (gauss_result E g x1 x2)\<rparr>)" "kfun kr2 = ''ImageExpSum''" "sdim sf0 = Bytes 32" "sdim sf1 = want s pOutputFinalSurf"
    using final_ok [OF E f(1,2) sz1 c1 _ d1 d2 kk l] unfolding gauss_result_def c0 g f(3,9,10) by fastforce
  let ?D = "[pTS0, pTS1, pTS2, pTS3, pTS4, pTS_DFT_FWD_H, pTSImageSum, pTS_DFT_FWD_V]"
  define s2 where "s2 = s1\<lparr>kernels := (kernels s1)(kernelFinalExp \<mapsto> kr2),
      walk := W2, clock := ck2, ident := i2, surfs := (surfs s1)(pInputSumSurf \<mapsto> sf0, pOutputFinalSurf \<mapsto> sf1),
      outbuf := Some (gauss_result E g x1 x2)\<rparr>"
  have s2s: "spaces s2 = spaces s" by (simp add: s2_def f)
  have se: "(\<lambda>t. if t \<in> set ?D then None else spaces s2 t) = Map.empty"
  proof
    fix t show "(if t \<in> set ?D then None else spaces s2 t) = None"
      using sp [of t] by (cases "t \<in> set ?D") (simp_all add: s2s torder_def)
  qed
  have "\<forall>t\<in>set ?D. spaces s2 t \<noteq> None" unfolding s2s sp by (simp add: torder_def)
  moreover have "distinct ?D" by simp
  ultimately have D: "run (map DestroyThreadSpace ?D) s2 = Next (s2\<lparr>spaces := Map.empty\<rparr>)"
    by (rule destroy_spaces [of ?D s2, unfolded se, rotated])
  have fin: "gc_finish E s1 = Next ((s2\<lparr>spaces := Map.empty\<rparr>)\<lparr>gWidth := usOutWidth (cfg s), gHeight := usOutHeight (cfg s), gPitchX := usPitchX (cfg s),
       gPitchY := usPitchY (cfg s), gPitchZ := usPitchZ (cfg s)\<rparr>)"
  proof -
    let ?e = "set_st (\<lambda>s. s\<lparr>gWidth := usOutWidth (cfg s), gHeight := usOutHeight (cfg s), gPitchX := usPitchX (cfg s),
       gPitchY := usPitchY (cfg s), gPitchZ := usPitchZ (cfg s)\<rparr>)"
    have "gc_finish E s1 = run (map DestroyThreadSpace ?D @ [?e]) s2"
      unfolding gc_finish_def by (simp only: run.simps(2) 2(1) s2_def [symmetric] outcome.case list.map append.simps)
    also have "\<dots> = run [?e] (s2\<lparr>spaces := Map.empty\<rparr>)" by (rule run_app_next [OF D])
    finally show ?thesis by (simp add: set_st_def s2_def f)
  qed
  have e: "(s2\<lparr>spaces := Map.empty\<rparr>)\<lparr>gWidth := usOutWidth (cfg s), gHeight := usOutHeight (cfg s), gPitchX := usPitchX (cfg s),
       gPitchY := usPitchY (cfg s), gPitchZ := usPitchZ (cfg s)\<rparr> =
     tail_state s kr kr2 sf sf0 sf1 c (square_sum E g x1 x2) (gauss_result E g x1 x2) W2 ck2 i2"
    by (cases s) (simp add: s2_def s1_def tail_state_def)
  have "run [gc_source_sum E, gc_finish E] s = Next (tail_state s kr kr2 sf sf0 sf1 c (square_sum E g x1 x2) (gauss_result E g x1 x2) W2 ck2 i2)"
    using fin 1(1) unfolding e by (simp add: s1_def)
  then show ?thesis using 1(2,3) 2(2-4) by blast
qed

text \<open>The constants of a correlation: sizes, channels, and the tables of the two transforms.\<close>

definition gauss_for :: "gpu_env \<Rightarrow> int \<Rightarrow> int \<Rightarrow> int \<Rightarrow> int \<Rightarrow> gauss \<Rightarrow> bool" where
  "gauss_for E px py pz ch g \<longleftrightarrow> gx g = px \<and> gy g = py \<and> gz g = pz \<and> gch g = ch \<and>
     made_table E px None (tabH g) (nH g) \<and> made_table E py (Some 0) (tabV g) (nV g)"

lemma tail_ready:
  assumes S: "staging b 8 8 M_all A s" and sz: "sizes_ok (cfg s)"
    and h: "hosts s pParamBufferULTH = Some (320, Some cH)" "hosts s pParamBufferULTV = Some (320, Some cV)"
    and t: "made_table E (usPitchX (cfg s)) None cH (nfx s)" "made_table E (usPitchY (cfg s)) (Some 0) cV (nfy s)"
    and k: "kfun kr = ''SrcImageSum''" "kfun kr2 = ''ImageExpSum''" and ev: "\<forall>e. \<not> events s e"
    and d: "sdim sf = UP (usOutWidth (cfg s) * 4) SrcImageSumBuffer" "sdim sf0 = Bytes 32" "sdim sf1 = want s pOutputFinalSurf"
  shows "gpu_ready E True (tail_state s kr kr2 sf sf0 sf1 c l r W ck i)"
proof -
  let ?t = "tail_state s kr kr2 sf sf0 sf1 c l r W ck i"
  note Sd = S [unfolded staging_def]
  have hw: "had ?t = want s" by (simp add: tail_state_def had_def want_def)
  have tk: "tasks s = [pKernelArray \<mapsto> pipeline 8]" using Sd by simp
  have kf: "kfun kr' = kernel_fun k'" if "kernels ?t k' = Some kr'" for k' kr'
    using that staging_kernel [OF S, of k'] k by (auto simp: tail_state_def kernel_fun_def split: if_splits)
  have "k' \<in> set (take 8 korder) \<or> k' \<in> {kernelSrcImageSum, kernelFinalExp}" for k' by (cases k') (simp_all add: korder_def)
  then have kn: "kernels ?t k' \<noteq> None" for k' using Sd by (auto simp: tail_state_def)
  have xs: "x \<in> M_all \<or> x \<in> {pSrcImageSumBufferUp, pInputSumSurf, pOutputFinalSurf}" for x
    by (cases x) (simp_all add: M_all_def M_fwd_def M_in_def)
  have sn: "surfs ?t x \<noteq> None" for x using Sd xs [of x] by (auto simp: tail_state_def)
  have im: "pSrcImageSumBufferUp \<notin> M_all" "pInputSumSurf \<notin> M_all" "pOutputFinalSurf \<notin> M_all"
    by (simp_all add: M_all_def M_fwd_def M_in_def)
  have sd: "sdim sfx = want s x" if "surfs ?t x = Some sfx" for x sfx
  proof (cases "x \<in> M_all")
    case True
    then show ?thesis using staging_sdim [OF S True] that im by (auto simp: tail_state_def split: if_splits)
  next
    case False
    then show ?thesis using xs [of x] that d by (auto simp: tail_state_def want_def surf_dims_def split: if_splits)
  qed
  have e0: "events s = (\<lambda>_. False)" using ev by (simp add: fun_eq_iff)
  have fl: "program ?t" "queue ?t" "tasks ?t = [pKernelArray \<mapsto> pipeline 8]" "spaces ?t = Map.empty" "events ?t = (\<lambda>_. False)"
     "gWidth ?t = gPitchX ?t * gPitchY ?t" "src_kept True ?t"
     "table_kept E True ?t pParamBufferULTH (gPitchX ?t) None (nfx ?t)"
     "table_kept E True ?t pParamBufferULTV (gPitchY ?t) (Some 0) (nfy ?t)"
    using Sd tk e0 sz h t by (simp_all add: tail_state_def sizes_ok_def src_kept_def table_kept_def)
  show ?thesis unfolding gpu_ready_def hw using fl kf kn sn sd by simp
qed

lemma correlation_step:
  assumes E: "all_ok E" and R: "gpu_ready E b s" and p: "1 \<le> px" "px \<le> 32" "1 \<le> py" "py \<le> 32"
    and z: "0 \<le> pz" "pz < 2 ^ 16" "0 \<le> h" "h < 2 ^ 16"
  shows "\<exists>s' g. gpu_gaussianCorrelation E x1 x2 (px * py) h ch px py pz s = Next s' \<and> gpu_ready E True s' \<and>
    outbuf s' = Some (gauss_result E g x1 x2) \<and> gauss_for E px py pz ch g \<and> lost s' = lost s"
proof -
  let ?P = "[gc_config (px * py) h ch px py pz, gc_buffer_H0 E, gc_inputs E x1 x2]"
  let ?F = "[gc_table_H E, gc_stage_H0 E, gc_table_V E, gc_stage_V0 E, gc_stage_H1 E, gc_stage_V1 E]"
  let ?I = "[gc_stage_mul E, gc_stage_invH E, gc_stage_invV E, gc_stage_sum E]"
  obtain s1 where s1: "run ?P s = Next s1" "staging b 0 0 M_in [] s1" "cfg s1 = call_cfg s (px * py) h ch px py pz" "good_sizes s1"
    "carried s1 = carried s" "hosts s1 = hosts s" "nfx s1 = nfx s" "nfy s1 = nfy s"
    "l_factor s1 = replicate 8 0" "length (l_itab s1) = 32" "l_wave s1 = replicate 64 0"
    "cont s1 pInputSurf0 = Some x1" "cont s1 pInputSurf1 = Some x2"
    using prepare_ok [OF E R p z, of ch x1 x2] by blast
  note C1 = carriedD [OF s1(5)]
  have tk: "table_kept E b s1 pParamBufferULTH (gPitchX s1) None (nfx s1)" "table_kept E b s1 pParamBufferULTV (gPitchY s1) (Some 0) (nfy s1)"
    using R unfolding gpu_ready_def by (simp_all add: table_kept_def s1(6-8) C1)
  obtain s2 cH cV where s2: "run ?F s1 = Next s2" "staging b 4 4 M_fwd (fwd_wires s2) s2" "cfg s2 = cfg s1" "carried s2 = carried s1"
    "inputs_same s2 s1" "hosts s2 = (hosts s1)(pParamBufferULTH \<mapsto> (320, Some cH), pParamBufferULTV \<mapsto> (320, Some cV))"
    "made_table E (usPitchX (cfg s1)) None cH (nfx s2)" "made_table E (usPitchY (cfg s1)) (Some 0) cV (nfy s2)"
    using forward_ok [OF E s1(2,4,9-11) tk] by blast
  have G2: "good_sizes s2" using s1(4) carried_good [OF s2(4,3)] by simp
  obtain s3 where s3: "run ?I s2 = Next s3" "staging b 8 8 M_all (fwd_wires s2 @ inv_wires s3) s3" "cfg s3 = inv_cfg (cfg s2)" "carried s3 = carried s2"
    "hosts s3 = hosts s2" "nfx s3 = nfx s2" "nfy s3 = nfy s2" "inputs_same s3 s2"
    using inverse_ok [OF E s2(2) G2] by blast
  have im: "pInputSurf0 \<in> M_in" "pInputSurf1 \<in> M_in" by (simp_all add: M_in_def)
  have c3: "cont s3 pInputSurf0 = Some x1" "cont s3 pInputSurf1 = Some x2"
    using s1(12,13) staging_cont_plain [OF s1(2) im(1), of s3] staging_cont_plain [OF s1(2) im(2), of s3] s2(5) s3(8)
    by (simp_all add: inputs_same_def)
  have h3: "hosts s3 pParamBufferULTH = Some (320, Some cH)" "hosts s3 pParamBufferULTV = Some (320, Some cV)"
    by (simp_all add: s3(5) s2(6))
  define g where "g = gauss_of s2 cH cV"
  have c2: "bInv (cfg s2) = False" "fScale (cfg s2) = 1" by (simp_all add: s2(3) s1(3) call_cfg_def)
  obtain Sf ck where s4: "Enqueue E pKernelArray None s3 = Next (s3\<lparr>surfs := Sf, clock := ck\<rparr>)"
    "staging b 8 8 M_all (fwd_wires s2 @ inv_wires s3) (s3\<lparr>surfs := Sf, clock := ck\<rparr>)"
    "cont (s3\<lparr>surfs := Sf, clock := ck\<rparr>) pOutputInvSumSurf = Some (cross_sum E g x1 x2)"
    "cont (s3\<lparr>surfs := Sf, clock := ck\<rparr>) pInputSurf0 = Some x1" "cont (s3\<lparr>surfs := Sf, clock := ck\<rparr>) pInputSurf1 = Some x2"
    using enqueue_ok [OF E s3(2) c2 s3(3,6,7) h3 c3 g_def] by blast
  define s4 where "s4 = s3\<lparr>surfs := Sf, clock := ck\<rparr>"
  have f4: "cfg s4 = inv_cfg (cfg s2)" "hosts s4 = hosts s3" "nfx s4 = nfx s2" "nfy s4 = nfy s2" "events s4 = events s3" "gWidth s4 = gWidth s3"
    "lost s4 = lost s3"
    by (simp_all add: s4_def s3)
  have cc: "inv_cfg c = c\<lparr>bInv := True, fScale := fScale (inv_cfg c)\<rparr>" for c by (cases c) (simp add: inv_cfg_def)
  have pz: "usPitchX (cfg s4) = px" "usPitchY (cfg s4) = py" "usPitchZ (cfg s4) = pz" "ucChannel (cfg s4) = ch"
    "usPitchX (cfg s1) = px" "usPitchY (cfg s1) = py"
    by (simp_all add: f4 s2(3) s1(3) call_cfg_def inv_cfg_def)
  have "sizes_ok (cfg s2)" using G2 by (simp add: good_sizes_def)
  then have sz: "sizes_ok (cfg s4)" by (simp add: f4 sizes_ok_def inv_cfg_def)
  note C = trans [OF s3(4) trans [OF s2(4) s1(5)]]
  have "events s4 = events s" "gWidth s4 = gWidth s" "lost s4 = lost s" using carriedD [OF C] f4 by simp_all
  then have ev: "\<forall>e. \<not> events s4 e" and gw: "gWidth s4 = gWidth s" "lost s4 = lost s" using R by (simp_all add: gpu_ready_def)
  have "src_kept b s" using R unfolding gpu_ready_def by blast
  then have sk: "src_kept b s4" unfolding src_kept_def gw(1) f4(2) s3(5) s2(6) s1(6) by simp
  have gg: "gx g = usPitchX (cfg s4)" "gy g = usPitchY (cfg s4)" "gz g = usPitchZ (cfg s4)" "gch g = ch" "nH g = nfx s2" "nV g = nfy s2"
    "tabH g = cH" "tabV g = cV"
    by (simp_all add: g_def gauss_of_def f4 inv_cfg_def s2(3) s1(3) call_cfg_def)
  obtain kr kr2 sf sf0 sf1 c l W ck2 i where s5: "run [gc_source_sum E, gc_finish E] s4 =
      Next (tail_state s4 kr kr2 sf sf0 sf1 c l (gauss_result E g x1 x2) W ck2 i)"
    "kfun kr = ''SrcImageSum''" "kfun kr2 = ''ImageExpSum''" "sdim sf = UP (usOutWidth (cfg s4) * 4) SrcImageSumBuffer"
    "sdim sf0 = Bytes 32" "sdim sf1 = want s4 pOutputFinalSurf"
    using tail_ok [OF E s4(2) [folded s4_def] sz sk s4(4,5,3) [folded s4_def] ev gg(1-3) refl] by blast
  define t where "t = tail_state s4 kr kr2 sf sf0 sf1 c l (gauss_result E g x1 x2) W ck2 i"
  have tt: "made_table E (usPitchX (cfg s4)) None cH (nfx s4)" "made_table E (usPitchY (cfg s4)) (Some 0) cV (nfy s4)"
    using s2(7,8) unfolding pz f4(3,4) by simp_all
  have h4: "hosts s4 pParamBufferULTH = Some (320, Some cH)" "hosts s4 pParamBufferULTV = Some (320, Some cV)"
    using h3 f4(2) by simp_all
  have rdy: "gpu_ready E True t" unfolding t_def
    by (rule tail_ready [OF s4(2) [folded s4_def] sz h4 tt s5(2,3) ev s5(4,5,6)])
  have t: "outbuf t = Some (gauss_result E g x1 x2)" "lost t = lost s4" "spaces t = Map.empty" by (simp_all add: t_def tail_state_def)
  have "drop_locals [pTS0, pTS1, pTS2, pTS3, pTS4, pTS_DFT_FWD_H, pTSImageSum, pTS_DFT_FWD_V] [] [] t = t"
    by (rule drop_locals_none) (simp_all add: t(3))
  moreover have "run (?P @ gc_stages E @ [Enqueue E pKernelArray None, gc_source_sum E, gc_finish E, off_end E]) s = Next t"
  proof -
    have "gc_stages E = ?F @ ?I" by (simp add: gc_stages_def)
    then have "run (?P @ gc_stages E @ [Enqueue E pKernelArray None, gc_source_sum E, gc_finish E, off_end E]) s =
      run (?F @ ?I @ [Enqueue E pKernelArray None, gc_source_sum E, gc_finish E, off_end E]) s1"
      using run_app_next [OF s1(1)] by (simp only: append_assoc)
    also have "\<dots> = run (?I @ [Enqueue E pKernelArray None, gc_source_sum E, gc_finish E, off_end E]) s2" by (rule run_app_next [OF s2(1)])
    also have "\<dots> = run [Enqueue E pKernelArray None, gc_source_sum E, gc_finish E, off_end E] s3" by (rule run_app_next [OF s3(1)])
    also have "\<dots> = run [gc_source_sum E, gc_finish E, off_end E] s4"
      by (simp only: run.simps(2) [of "Enqueue E pKernelArray None"] s4(1) outcome.case s4_def)
    also have "\<dots> = run [off_end E] t"
      using run_app_next [OF s5(1), of "[off_end E]"] by (simp only: append.simps t_def)
    finally show ?thesis by (simp add: calls_ok(3) [OF E])
  qed
  ultimately have "gpu_gaussianCorrelation E x1 x2 (px * py) h ch px py pz s = Next t"
    unfolding gpu_gaussianCorrelation_def body_def by (simp only: outcome.case)
  moreover have "gauss_for E px py pz ch g"
    using tt unfolding gauss_for_def gg pz f4(3,4) by simp
  ultimately show ?thesis using rdy t(1,2) gw(2) by metis
qed

section \<open>Sequences of calls\<close>

lemma initMDF_ok:
  assumes "all_ok E" "spaces s = Map.empty" "events s = (\<lambda>_. False)"
  shows "\<exists>s0. initMDF E True s = Return 0 s0 \<and> gpu_ready E False s0 \<and> lost s0 = lost s"
proof -
  have p: "pipeline 0 = []" by (simp add: pipeline_def)
  have o: "dev_ok E n" for n using assms(1) by (simp add: all_ok_def)
  show ?thesis
    using assms(2,3)
    by (cases "device s"; cases "isa_code s")
      (simp_all add: initMDF_def gpu_simps calls_ok [OF assms(1)] null_members_def open_isa_def o CreateTask_def gpu_ready_def p
        table_kept_def src_kept_def)
qed

record gcall =
  feat1 :: "nat \<Rightarrow> f32"
  feat2 :: "nat \<Rightarrow> f32"
  sizeY :: int
  sizeX :: int
  numF :: int

text \<open>A call as the tracker makes it: a feature map has a row per feature and a column per cell of the patch.\<close>

definition correlate :: "gpu_env \<Rightarrow> gcall \<Rightarrow> step" where
  "correlate E c = gaussianCorrelation_gpu E (feat1 c) (feat2 c) (sizeX c * sizeY c) (numF c) (sizeY c) (sizeX c) (numF c)"

definition patch_ok :: "gcall \<Rightarrow> bool" where
  "patch_ok c \<longleftrightarrow> 1 \<le> sizeY c \<and> sizeY c \<le> 32 \<and> 1 \<le> sizeX c \<and> sizeX c \<le> 32 \<and> 0 \<le> numF c \<and> numF c < 2 ^ 16"

lemma ready_outbuf: "gpu_ready E b (s\<lparr>outbuf := r\<rparr>) = gpu_ready E b s"
proof -
  have "had (s\<lparr>outbuf := r\<rparr>) = had s" by (simp add: had_def)
  then show ?thesis by (simp add: gpu_ready_def table_kept_def src_kept_def)
qed

lemma correlate_ok:
  assumes E: "all_ok E" and R: "gpu_ready E b s" and c: "patch_ok c"
  shows "\<exists>s' g. correlate E c s = Next s' \<and> gpu_ready E True s' \<and> lost s' = lost s \<and>
    outbuf s' = Some (gauss_result E g (Floats (feat1 c)) (Floats (feat2 c))) \<and> gauss_for E (sizeX c) (sizeY c) (numF c) 1 g"
proof -
  note C = c [unfolded patch_ok_def]
  have "0 \<le> sizeX c * sizeY c \<and> sizeX c * sizeY c \<le> 32 * 32" by (rule prod_le) (use C in simp_all)
  then have u: "ushort (sizeX c * sizeY c) = sizeX c * sizeY c" "ushort (numF c) = numF c" "ushort (sizeX c) = sizeX c" "ushort (sizeY c) = sizeY c"
    using C by (simp_all add: ushort_def)
  define s1 where "s1 = s\<lparr>outbuf := Some (Floats (\<lambda>_. 0))\<rparr>"
  have R1: "gpu_ready E b s1" "lost s1 = lost s" using R by (simp_all add: s1_def ready_outbuf)
  obtain s' g where r: "gpu_gaussianCorrelation E (Floats (feat1 c)) (Floats (feat2 c)) (sizeX c * sizeY c) (numF c) 1 (sizeX c) (sizeY c) (numF c) s1 = Next s'"
    "gpu_ready E True s'" "outbuf s' = Some (gauss_result E g (Floats (feat1 c)) (Floats (feat2 c)))"
    "gauss_for E (sizeX c) (sizeY c) (numF c) 1 g" "lost s' = lost s1"
    using correlation_step [OF E R1(1), of "sizeX c" "sizeY c" "numF c" "numF c" "Floats (feat1 c)" "Floats (feat2 c)" 1] C by blast
  have "correlate E c s = Next s'"
    unfolding correlate_def gaussianCorrelation_gpu_def u by (simp add: set_st_def s1_def [symmetric] ignore_def r(1))
  then show ?thesis using r R1(2) by metis
qed

lemma correlates_ok:
  assumes "all_ok E" "gpu_ready E b s" "\<forall>c\<in>set cs. patch_ok c"
  shows "\<exists>s' b'. run (map (correlate E) cs) s = Next s' \<and> gpu_ready E b' s' \<and> lost s' = lost s"
  using assms(2,3)
proof (induction cs arbitrary: s b)
  case (Cons c cs)
  obtain s1 where "correlate E c s = Next s1" "gpu_ready E True s1" "lost s1 = lost s"
    using correlate_ok [OF assms(1) Cons.prems(1), of c] Cons.prems(2) by auto
  then show ?case using Cons.IH [of True s1] Cons.prems(2) by simp
qed auto

definition all_fine :: gpu_env where
  "all_fine = \<lparr>dev_ok = (\<lambda>_. True), gpu_kernel = (\<lambda>fn vs i. 1), sin_d = (\<lambda>_. 0), sqrt_d = (\<lambda>_. 1), falls_off = True\<rparr>"

definition blank :: gst where
  "blank = \<lparr>kernels = Map.empty, surfs = Map.empty, hosts = Map.empty, spaces = Map.empty, walk = (\<lambda>_. False), tasks = Map.empty,
     events = (\<lambda>_. False), queue = False, program = False, device = False, isa_code = False, cfg = no_cfg, gWidth = 7, gHeight = 7,
     gPitchX = 7, gPitchY = 7, gPitchZ = 7, nfx = 7, nfy = 7, l_factor = [], l_itab = [], l_wave = [], l_sum = 0, outbuf = None,
     lost = 0, clock = 0, ident = 0\<rparr>"

definition small_patch :: "int \<Rightarrow> int \<Rightarrow> gcall" where
  "small_patch y x = \<lparr>feat1 = (\<lambda>_. 1), feat2 = (\<lambda>_. 2), sizeY = y, sizeX = x, numF = 31\<rparr>"

lemma small_setup:
  "all_ok all_fine" "spaces blank = Map.empty" "events blank = (\<lambda>_. False)"
  "1 \<le> y \<Longrightarrow> y \<le> 32 \<Longrightarrow> 1 \<le> x \<Longrightarrow> x \<le> 32 \<Longrightarrow> patch_ok (small_patch y x)"
  by (simp_all add: all_ok_def all_fine_def blank_def small_patch_def patch_ok_def)

text \<open>On the first call, when the creation of the first input surface fails and the one of the second succeeds,
  the failure goes unnoticed, since the result is overwritten, and the call writes through a null pointer.\<close>

theorem gpu_input_failure_fault:
  assumes "gpu_ready E False s" "1 \<le> px" "px \<le> 32" "1 \<le> py" "py \<le> 32"
    and "dev_ok E (clock s)" "\<not> dev_ok E (Suc (clock s))" "dev_ok E (Suc (Suc (clock s)))"
  shows "gpu_gaussianCorrelation E x1 x2 (px * py) 31 1 px py 31 s = Fault"
proof -
  have "0 \<le> px * py \<and> px * py \<le> 32 * 32" by (rule prod_le) (use assms in simp_all)
  then have "int_ok (px * py * 31)" by (intro small_int_ok) simp_all
  moreover have "surfs s x = None" for x using assms(1) unfolding gpu_ready_def by (metis not_Some_eq)
  ultimately have "run [gc_config (px * py) 31 1 px py 31, gc_buffer_H0 E, gc_inputs E x1 x2] s = Fault"
    using assms(6-8)
    by (simp add: gc_config_def gc_buffer_H0_def gc_inputs_def gc_create_inputs_def remake_def gpu_simps checked_call_def tried_def
        complex_bytes_def new_surf_def WriteSurface_def Let_def del: replicate.simps)
  then have "run ([gc_config (px * py) 31 1 px py 31, gc_buffer_H0 E, gc_inputs E x1 x2] @ fs) s = Fault" for fs
    unfolding run_append by simp
  then show ?thesis unfolding gpu_gaussianCorrelation_def body_def by simp
qed

theorem gpu_input_failure_fault_witness:
  "\<exists>s0. initMDF all_fine True blank = Return 0 s0 \<and>
    gpu_gaussianCorrelation (all_fine\<lparr>dev_ok := (\<lambda>n. n \<noteq> Suc (clock s0))\<rparr>) (Floats (\<lambda>_. 1)) (Floats (\<lambda>_. 2)) (6 * 4) 31 1 6 4 31 s0 = Fault"
proof -
  obtain s0 where 0: "initMDF all_fine True blank = Return 0 s0" "gpu_ready all_fine False s0"
    using initMDF_ok [OF small_setup(1-3)] by blast
  let ?E = "all_fine\<lparr>dev_ok := (\<lambda>n. n \<noteq> Suc (clock s0))\<rparr>"
  have "gpu_ready ?E False s0" using 0(2) by (simp add: gpu_ready_def table_kept_def)
  then have "gpu_gaussianCorrelation ?E (Floats (\<lambda>_. 1)) (Floats (\<lambda>_. 2)) (6 * 4) 31 1 6 4 31 s0 = Fault"
    by (rule gpu_input_failure_fault) simp_all
  then show ?thesis using 0(1) by blast
qed

end
