(* ===== verification/KcfGpuReturns.thy ===== *)
theory KcfGpuReturns
  imports KcfGpuCalls
begin

text \<open>
  The missing returns of \<^verbatim>\<open>kcftracker.cpp\<close>: where the end of an \<^verbatim>\<open>int\<close> function without a \<^verbatim>\<open>return\<close> is undefined, every
  correlation is. The run is compared with the one of a build that lets such functions return: it does the same
  until it faults (\<open>faultier\<close>), and the last step of a correlation faults. The properties of the correlation state what
  happens in either build, for any sequence of calls after \<^verbatim>\<open>initMDF\<close>.
\<close>

text \<open>A step that faults where another one goes on, and does the same otherwise.\<close>

definition faultier :: "step \<Rightarrow> step \<Rightarrow> bool" where
  "faultier f g \<longleftrightarrow> (\<forall>s. f s = Fault \<or> f s = g s)"

lemma faultier_refl [simp]: "faultier f f"
  by (simp add: faultier_def)

lemma faultier_off_end: "\<not> falls_off E \<Longrightarrow> faultier (off_end E) f"
  by (simp add: faultier_def off_end_def)

lemma faultier_run: "list_all2 faultier fs gs \<Longrightarrow> faultier (run fs) (run gs)"
proof (induction rule: list_all2_induct)
  case (Cons f fs g gs)
  have "run (f # fs) s = Fault \<or> run (f # fs) s = run (g # gs) s" for s
  proof (cases "f s = Fault")
    case False
    then have "f s = g s" using Cons(1) unfolding faultier_def by blast
    then show ?thesis using Cons(3) by (cases "g s") (auto simp: faultier_def)
  qed simp
  then show ?case by (simp only: faultier_def) blast
qed simp

lemma faultier_ignore: "faultier f g \<Longrightarrow> faultier (ignore f) (ignore g)"
  unfolding faultier_def ignore_def
proof
  fix s assume "\<forall>s. f s = Fault \<or> f s = g s"
  then consider "f s = Fault" | "f s = g s" by blast
  then show "(case f s of Return r s' \<Rightarrow> Next s' | r \<Rightarrow> r) = Fault \<or>
      (case f s of Return r s' \<Rightarrow> Next s' | r \<Rightarrow> r) = (case g s of Return r s' \<Rightarrow> Next s' | r \<Rightarrow> r)"
    by cases simp_all
qed

lemma faultier_body: "list_all2 faultier fs gs \<Longrightarrow> faultier (body ts qs es fs) (body ts qs es gs)"
proof -
  assume "list_all2 faultier fs gs"
  then have r: "run fs s = Fault \<or> run fs s = run gs s" for s using faultier_run [of fs gs] unfolding faultier_def by blast
  show ?thesis unfolding faultier_def body_def
  proof
    fix s
    consider "run fs s = Fault" | "run fs s = run gs s" using r by blast
    then show "(case run fs s of Next s' \<Rightarrow> Next (drop_locals ts qs es s') | Return r s' \<Rightarrow> Return r (drop_locals ts qs es s') | r \<Rightarrow> r) = Fault \<or>
    (case run fs s of Next s' \<Rightarrow> Next (drop_locals ts qs es s') | Return r s' \<Rightarrow> Return r (drop_locals ts qs es s') | r \<Rightarrow> r) =
    (case run gs s of Next s' \<Rightarrow> Next (drop_locals ts qs es s') | Return r s' \<Rightarrow> Return r (drop_locals ts qs es s') | r \<Rightarrow> r)"
      by cases simp_all
  qed
qed

section \<open>What does not depend on the build\<close>

definition returning :: "gpu_env \<Rightarrow> gpu_env" where
  "returning E = E\<lparr>falls_off := True\<rparr>"

lemma returning_sel [simp]: "dev_ok (returning E) = dev_ok E" "gpu_kernel (returning E) = gpu_kernel E"
  "sin_d (returning E) = sin_d E" "sqrt_d (returning E) = sqrt_d E" "falls_off (returning E)"
  by (simp_all add: returning_def)

lemma exec_indep: "exec_kernel (returning E) own k s = exec_kernel E own k s"
  by (simp only: exec_kernel_def returning_sel)

lemma exec_task_indep: "exec_task (returning E) own es s = exec_task E own es s"
  by (induction E own es s rule: exec_task.induct) (simp_all add: exec_indep cong: Option.bind_cong)

lemma call_indep: "checked_call (returning E) = checked_call E" "tried (returning E) = tried E"
  by (intro ext, simp add: checked_call_def tried_def)+

lemma Enqueue_indep: "Enqueue (returning E) = Enqueue E"
  by (intro ext) (simp only: Enqueue_def exec_task_indep returning_sel)

lemmas device_indep = call_indep Enqueue_indep

lemma step_indep:
  "remake (returning E) = remake E" "WriteSurface (returning E) = WriteSurface E" "CreateThreadSpace (returning E) = CreateThreadSpace E"
  "AssociateThreadSpace (returning E) = AssociateThreadSpace E" "AddKernel (returning E) = AddKernel E"
  "AddKernel_tried (returning E) = AddKernel_tried E" "AddSync (returning E) = AddSync E" "ReadSurface (returning E) = ReadSurface E"
  by (intro ext, simp only: remake_def WriteSurface_def CreateThreadSpace_def AssociateThreadSpace_def AddKernel_def
    AddKernel_tried_def AddSync_def ReadSurface_def call_indep)+

lemma table_indep: "table_result (returning E) = table_result E" "fill_table (returning E) = fill_table E"
proof -
  show t: "table_result (returning E) = table_result E" by (intro ext) (simp only: table_result_def returning_sel)
  show "fill_table (returning E) = fill_table E" by (intro ext) (simp only: fill_table_def t call_indep returning_sel)
qed

lemma create_indep: "gc_create_inputs (returning E) = gc_create_inputs E"
  by (intro ext) (simp only: gc_create_inputs_def call_indep)

lemma gc_indep:
  "threads (returning E) = threads E" "ensure_kernel (returning E) = ensure_kernel E" "single_task (returning E) = single_task E"
  "gc_buffer_H0 (returning E) = gc_buffer_H0 E" "gc_inputs (returning E) = gc_inputs E" "gc_table_H (returning E) = gc_table_H E"
  "gc_table_V (returning E) = gc_table_V E"
  by (intro ext, simp only: threads_def ensure_kernel_def single_task_def ensure_queue_def gc_buffer_H0_def gc_inputs_def
    create_indep gc_table_H_def gc_table_V_def device_indep step_indep table_indep)+

section \<open>The correlation\<close>

lemma wire_faultier: "\<not> falls_off E \<Longrightarrow> faultier (wire E k t w h xs as) (wire (returning E) k t w h xs as)"
  unfolding wire_def gc_indep step_indep
  by (intro faultier_ignore faultier_run list.rel_intros list_all2_appendI list.rel_refl faultier_refl faultier_off_end)

lemma stages_faultier:
  assumes "\<not> falls_off E"
  shows "list_all2 faultier (gc_stages E) (gc_stages (returning E))"
proof -
  note c = wire_faultier [OF assms]
  show ?thesis
    unfolding gc_stages_def gc_stage_H0_def gc_stage_V0_def gc_stage_H1_def gc_stage_V1_def gc_stage_mul_def gc_stage_invH_def
      gc_stage_invV_def gc_stage_sum_def Call_DFT_FWD_H_def Call_DFT_FWD_V_def Call_MulSpec_def Call_ImageSum_def
      gc_indep step_indep device_indep
    by (intro list.rel_intros faultier_run faultier_refl c)
qed

lemma sums_faultier:
  assumes "\<not> falls_off E"
  shows "faultier (gc_source_sum E) (gc_source_sum (returning E))" "faultier (gc_finish E) (gc_finish (returning E))"
  unfolding gc_source_sum_def gc_finish_def Call_SrcImageSum_def Call_FianlExpImageSum_def gc_indep step_indep device_indep
  by (intro list.rel_intros faultier_run faultier_ignore faultier_body faultier_refl faultier_off_end assms)+

text \<open>The stages before the end of \<^verbatim>\<open>gpu_gaussianCorrelation\<close>.\<close>

definition gc_all :: "gpu_env \<Rightarrow> content \<Rightarrow> content \<Rightarrow> int \<Rightarrow> int \<Rightarrow> int \<Rightarrow> int \<Rightarrow> int \<Rightarrow> int \<Rightarrow> step list" where
  "gc_all E x1 x2 w h ch px py pz = [gc_config w h ch px py pz, gc_buffer_H0 E, gc_inputs E x1 x2] @ gc_stages E @
     [Enqueue E pKernelArray None, gc_source_sum E, gc_finish E]"

lemma gc_all_faultier:
  "\<not> falls_off E \<Longrightarrow> list_all2 faultier (gc_all E x1 x2 w h ch px py pz) (gc_all (returning E) x1 x2 w h ch px py pz)"
  unfolding gc_all_def gc_indep device_indep
  by (intro list_all2_appendI list.rel_intros faultier_refl stages_faultier sums_faultier)

lemma gc_end:
  "gpu_gaussianCorrelation E x1 x2 w h ch px py pz s = body [pTS0, pTS1, pTS2, pTS3, pTS4, pTS_DFT_FWD_H, pTSImageSum, pTS_DFT_FWD_V] [] []
     (gc_all E x1 x2 w h ch px py pz @ [off_end E]) s"
  by (simp only: gpu_gaussianCorrelation_def gc_all_def append.simps append_assoc)

lemma correlation_fault:
  assumes "\<not> falls_off E" and "gpu_gaussianCorrelation (returning E) x1 x2 w h ch px py pz s = Next s'"
  shows "gpu_gaussianCorrelation E x1 x2 w h ch px py pz s = Fault"
proof -
  let ?a = "\<lambda>E. gc_all E x1 x2 w h ch px py pz"
  obtain v where "run (?a (returning E) @ [off_end (returning E)]) s = Next v"
    using assms(2) unfolding gc_end body_def by (cases "run (?a (returning E) @ [off_end (returning E)]) s") simp_all
  then obtain u where u: "run (?a (returning E)) s = Next u"
    unfolding run_append by (cases "run (?a (returning E)) s") simp_all
  have "run (?a E) s = Fault \<or> run (?a E) s = Next u"
    using faultier_run [OF gc_all_faultier [OF assms(1)]] u unfolding faultier_def by metis
  then have "run (?a E @ [off_end E]) s = Fault"
    using assms(1) unfolding run_append by (elim disjE) (simp_all add: off_end_def)
  then show ?thesis unfolding gc_end body_def by simp
qed

lemma initMDF_indep: "initMDF (returning E) = initMDF E"
proof -
  have "open_isa (returning E) = open_isa E" by (intro ext) (simp only: open_isa_def returning_sel)
  then show ?thesis by (intro ext) (simp only: initMDF_def call_indep)
qed

lemma first_correlation_fault:
  assumes "\<forall>n. dev_ok E n" "\<not> falls_off E" "gpu_ready (returning E) False s0" "patch_ok c"
  shows "correlate E c s0 = Fault"
proof -
  let ?R = "returning E" and ?n = "sizeX c * sizeY c"
  have R: "all_ok ?R" using assms(1) by (simp add: all_ok_def)
  define t where "t = s0\<lparr>outbuf := Some (Floats (\<lambda>_. 0))\<rparr>"
  have t: "gpu_ready ?R False t" using assms(3) by (simp add: t_def ready_outbuf)
  note C = assms(4) [unfolded patch_ok_def]
  have "0 \<le> ?n \<and> ?n \<le> 32 * 32" by (rule prod_le) (use C in simp_all)
  then have u: "ushort ?n = ?n" "ushort (numF c) = numF c" "ushort (sizeX c) = sizeX c" "ushort (sizeY c) = sizeY c"
    using C by (simp_all add: ushort_def)
  obtain v where "gpu_gaussianCorrelation ?R (Floats (feat1 c)) (Floats (feat2 c)) ?n (numF c) 1 (sizeX c) (sizeY c) (numF c) t = Next v"
    using correlation_step [OF R t, of "sizeX c" "sizeY c" "numF c" "numF c" "Floats (feat1 c)" "Floats (feat2 c)" 1] C by blast
  from correlation_fault [OF assms(2) this] show ?thesis
    unfolding correlate_def gaussianCorrelation_gpu_def u by (simp add: set_st_def ignore_def t_def)
qed

lemma initMDF_ready:
  assumes "\<forall>n. dev_ok E n" "spaces s = Map.empty" "events s = (\<lambda>_. False)"
  shows "\<exists>s0. initMDF E True s = Return 0 s0 \<and> gpu_ready (returning E) False s0 \<and> lost s0 = lost s"
proof -
  have "all_ok (returning E)" using assms(1) by (simp add: all_ok_def)
  from initMDF_ok [OF this assms(2,3)] show ?thesis unfolding initMDF_indep by blast
qed

lemma returning_same: "falls_off E \<Longrightarrow> returning E = E"
  by (simp add: returning_def)

section \<open>Properties\<close>

text \<open>C4. When every call of the runtime succeeds: \<^verbatim>\<open>initMDF\<close> succeeds, and on a build that lets the \<^verbatim>\<open>int\<close> functions without a
  \<^verbatim>\<open>return\<close> go back to their callers (\<open>falls_off\<close>), any sequence of correlations of patches of 1 to 32 cells on each side,
  whatever sizes came before, ends without a fault, and each call computes the composition of the eight kernels of its task
  and the two kernels of the sums on its own inputs, with sizes and tables for its own patch. Taken as C++ has it, the end of
  those functions is undefined, and so is the first correlation.\<close>

theorem gaussianCorrelation_gpu_result:
  assumes "\<forall>n. dev_ok E n" "spaces s = Map.empty" "events s = (\<lambda>_. False)" "\<forall>c\<in>set (cs @ [c]). patch_ok c"
  shows "\<exists>s0. initMDF E True s = Return 0 s0 \<and>
    (if falls_off E
     then \<exists>s1 s2 g. run (map (correlate E) cs) s0 = Next s1 \<and> correlate E c s1 = Next s2 \<and>
       outbuf s2 = Some (gauss_result E g (Floats (feat1 c)) (Floats (feat2 c))) \<and> gauss_for E (sizeX c) (sizeY c) (numF c) 1 g
     else run (map (correlate E) (cs @ [c])) s0 = Fault)"
proof -
  obtain s0 where 0: "initMDF E True s = Return 0 s0" "gpu_ready (returning E) False s0"
    using initMDF_ready [OF assms(1-3)] by blast
  show ?thesis
  proof (cases "falls_off E")
    case True
    then have E: "all_ok E" using assms(1) by (simp add: all_ok_def)
    have g: "gpu_ready E False s0" using 0(2) True by (simp add: returning_same)
    obtain s1 b where 1: "run (map (correlate E) cs) s0 = Next s1" "gpu_ready E b s1"
      using correlates_ok [OF E g, of cs] assms(4) by auto
    have "patch_ok c" using assms(4) by simp
    from correlate_ok [OF E 1(2) this] 0(1) 1(1) True show ?thesis by auto
  next
    case False
    obtain d ds where d: "cs @ [c] = d # ds" by (cases cs) auto
    then have "patch_ok d" using assms(4) by simp
    from first_correlation_fault [OF assms(1) False 0(2) this] have "run (map (correlate E) (cs @ [c])) s0 = Fault"
      by (simp only: d list.map run.simps outcome.case)
    then show ?thesis using 0(1) False by auto
  qed
qed

theorem gaussianCorrelation_gpu_result_witness:
  "(\<exists>s0 s1 s2 g. initMDF all_fine True blank = Return 0 s0 \<and>
    run (map (correlate all_fine) [small_patch 4 6, small_patch 5 6]) s0 = Next s1 \<and> correlate all_fine (small_patch 6 4) s1 = Next s2 \<and>
    outbuf s2 = Some (gauss_result all_fine g (Floats (\<lambda>_. 1)) (Floats (\<lambda>_. 2))) \<and> gauss_for all_fine 4 6 31 1 g) \<and>
   (\<exists>s0. initMDF (all_fine\<lparr>falls_off := False\<rparr>) True blank = Return 0 s0 \<and>
    run [correlate (all_fine\<lparr>falls_off := False\<rparr>) (small_patch 6 4)] s0 = Fault)"
proof -
  have e: "\<forall>n. dev_ok all_fine n" "falls_off all_fine" "\<forall>n. dev_ok (all_fine\<lparr>falls_off := False\<rparr>) n"
    "\<not> falls_off (all_fine\<lparr>falls_off := False\<rparr>)" by (simp_all add: all_fine_def)
  have p: "\<forall>c\<in>set ([small_patch 4 6, small_patch 5 6] @ [small_patch 6 4]). patch_ok c" "\<forall>c\<in>set ([] @ [small_patch 6 4]). patch_ok c"
    using small_setup(4) by simp_all
  from gaussianCorrelation_gpu_result [OF e(1) small_setup(2,3) p(1)] gaussianCorrelation_gpu_result [OF e(3) small_setup(2,3) p(2)]
  show ?thesis unfolding if_P [OF e(2)] if_not_P [OF e(4)] by (simp add: small_patch_def)
qed



end
