(* ===== verification/VideoAlloc.thy ===== *)
theory VideoAlloc
  imports Prelude
begin

text \<open>
  \<^verbatim>\<open>src/common/common_vaapi.cpp\<close>: the frame allocator that the Media SDK calls back. A successful
  allocation makes an array of VA surfaces (or coded buffers), an array of memory ids that point to
  them and an array of handles; the response holds the last. Responses for the decoder are kept per
  session with a count of references, the others in a map from the array of handles.

  The VA library and \<^verbatim>\<open>calloc\<close> are not part of the repository: their answers are arguments, by the
  number of the call. A surface or buffer is a number, live from its creation to its destruction.
\<close>

section \<open>Status codes and formats\<close>

datatype VAStatus = VA_STATUS_SUCCESS | VA_STATUS_ERROR_ALLOCATION_FAILED | VA_STATUS_ERROR_ATTR_NOT_SUPPORTED
  | VA_STATUS_ERROR_UNSUPPORTED_PROFILE | VA_STATUS_ERROR_UNSUPPORTED_ENTRYPOINT | VA_STATUS_ERROR_UNSUPPORTED_RT_FORMAT
  | VA_STATUS_ERROR_UNSUPPORTED_BUFFERTYPE | VA_STATUS_ERROR_FLAG_NOT_SUPPORTED | VA_STATUS_ERROR_RESOLUTION_NOT_SUPPORTED
  | VA_STATUS_ERROR_INVALID_DISPLAY | VA_STATUS_ERROR_INVALID_CONFIG | VA_STATUS_ERROR_INVALID_CONTEXT
  | VA_STATUS_ERROR_INVALID_SURFACE | VA_STATUS_ERROR_INVALID_BUFFER | VA_STATUS_ERROR_INVALID_IMAGE
  | VA_STATUS_ERROR_INVALID_SUBPICTURE | VA_STATUS_ERROR_INVALID_PARAMETER | VA_STATUS_other

datatype mfxStatus = MFX_ERR_NONE | MFX_ERR_UNKNOWN | MFX_ERR_NULL_PTR | MFX_ERR_UNSUPPORTED | MFX_ERR_MEMORY_ALLOC
  | MFX_ERR_INVALID_HANDLE | MFX_ERR_LOCK_MEMORY | MFX_ERR_NOT_INITIALIZED | MFX_ERR_NOT_FOUND | MFX_ERR_MORE_DATA
  | MFX_ERR_MORE_SURFACE | MFX_ERR_INVALID_VIDEO_PARAM | MFX_ERR_other | MFX_WRN_DEVICE_BUSY | MFX_WRN_other

text \<open>The case of an invalid parameter has no \<^verbatim>\<open>break\<close> and falls into the default.\<close>

definition va_to_mfx_status :: "VAStatus \<Rightarrow> mfxStatus" where
  "va_to_mfx_status r = (case r of
       VA_STATUS_SUCCESS \<Rightarrow> MFX_ERR_NONE
     | VA_STATUS_ERROR_ALLOCATION_FAILED \<Rightarrow> MFX_ERR_MEMORY_ALLOC
     | VA_STATUS_ERROR_ATTR_NOT_SUPPORTED \<Rightarrow> MFX_ERR_UNSUPPORTED
     | VA_STATUS_ERROR_UNSUPPORTED_PROFILE \<Rightarrow> MFX_ERR_UNSUPPORTED
     | VA_STATUS_ERROR_UNSUPPORTED_ENTRYPOINT \<Rightarrow> MFX_ERR_UNSUPPORTED
     | VA_STATUS_ERROR_UNSUPPORTED_RT_FORMAT \<Rightarrow> MFX_ERR_UNSUPPORTED
     | VA_STATUS_ERROR_UNSUPPORTED_BUFFERTYPE \<Rightarrow> MFX_ERR_UNSUPPORTED
     | VA_STATUS_ERROR_FLAG_NOT_SUPPORTED \<Rightarrow> MFX_ERR_UNSUPPORTED
     | VA_STATUS_ERROR_RESOLUTION_NOT_SUPPORTED \<Rightarrow> MFX_ERR_UNSUPPORTED
     | VA_STATUS_ERROR_INVALID_DISPLAY \<Rightarrow> MFX_ERR_NOT_INITIALIZED
     | VA_STATUS_ERROR_INVALID_CONFIG \<Rightarrow> MFX_ERR_NOT_INITIALIZED
     | VA_STATUS_ERROR_INVALID_CONTEXT \<Rightarrow> MFX_ERR_NOT_INITIALIZED
     | VA_STATUS_ERROR_INVALID_SURFACE \<Rightarrow> MFX_ERR_NOT_INITIALIZED
     | VA_STATUS_ERROR_INVALID_BUFFER \<Rightarrow> MFX_ERR_NOT_INITIALIZED
     | VA_STATUS_ERROR_INVALID_IMAGE \<Rightarrow> MFX_ERR_NOT_INITIALIZED
     | VA_STATUS_ERROR_INVALID_SUBPICTURE \<Rightarrow> MFX_ERR_NOT_INITIALIZED
     | VA_STATUS_ERROR_INVALID_PARAMETER \<Rightarrow> MFX_ERR_UNKNOWN
     | VA_STATUS_other \<Rightarrow> MFX_ERR_UNKNOWN)"

datatype mfx_fourcc = MFX_FOURCC_NV12 | MFX_FOURCC_YUY2 | MFX_FOURCC_YV12 | MFX_FOURCC_RGB4 | MFX_FOURCC_RGBP
  | MFX_FOURCC_P8 | MFX_FOURCC_other

datatype va_fourcc = VA_FOURCC_NV12 | VA_FOURCC_YUY2 | VA_FOURCC_YV12 | VA_FOURCC_ARGB | VA_FOURCC_RGBP | VA_FOURCC_P208
  | VA_FOURCC_other

text \<open>\<open>None\<close>: the assertion for an unsupported format stops the program.\<close>

definition ConvertMfxFourccToVAFormat :: "mfx_fourcc \<Rightarrow> va_fourcc option" where
  "ConvertMfxFourccToVAFormat f = (case f of
       MFX_FOURCC_NV12 \<Rightarrow> Some VA_FOURCC_NV12
     | MFX_FOURCC_YUY2 \<Rightarrow> Some VA_FOURCC_YUY2
     | MFX_FOURCC_YV12 \<Rightarrow> Some VA_FOURCC_YV12
     | MFX_FOURCC_RGB4 \<Rightarrow> Some VA_FOURCC_ARGB
     | MFX_FOURCC_RGBP \<Rightarrow> Some VA_FOURCC_RGBP
     | MFX_FOURCC_P8 \<Rightarrow> Some VA_FOURCC_P208
     | MFX_FOURCC_other \<Rightarrow> None)"

section \<open>State\<close>

text \<open>The three arrays of one allocation: its surfaces and the format its memory ids carry. \<^verbatim>\<open>m_sys_buffer\<close> is never set.\<close>

record mem_block =
  b_surfaces :: "nat list"
  b_fourcc :: mfx_fourcc

record mfxFrameAllocResponse =
  mids :: "nat option"
  NumFrameActual :: int

record sharedResponse =
  mfxResponse :: mfxFrameAllocResponse
  refCount :: int

record mfxFrameAllocRequest =
  FourCC :: mfx_fourcc
  NumFrameSuggested :: int
  type_external :: bool
  type_from_decode :: bool
  type_video_target :: bool

record valloc =
  live :: "nat set"
  blocks :: "nat \<Rightarrow> mem_block option"
  allocDecodeResponses :: "nat \<Rightarrow> sharedResponse"
  allocResponses :: "nat \<Rightarrow> nat option"
  next_id :: nat
  va_clock :: nat

record va_env =
  calloc_ok :: "nat \<Rightarrow> bool"
  va_status :: "nat \<Rightarrow> VAStatus"

definition no_response :: mfxFrameAllocResponse where
  "no_response = \<lparr>mids = None, NumFrameActual = 0\<rparr>"

definition no_shared :: sharedResponse where
  "no_shared = \<lparr>mfxResponse = no_response, refCount = 0\<rparr>"

section \<open>Allocation\<close>

definition vaCreateSurfaces :: "va_env \<Rightarrow> nat \<Rightarrow> valloc \<Rightarrow> mfxStatus \<times> nat list \<times> valloc" where
  "vaCreateSurfaces E n s = (let r = va_to_mfx_status (va_status E (va_clock s)); s1 = s\<lparr>va_clock := Suc (va_clock s)\<rparr>
     in if va_status E (va_clock s) = VA_STATUS_SUCCESS
        then (r, [next_id s..<next_id s + n], s1\<lparr>live := live s \<union> {next_id s..<next_id s + n}, next_id := next_id s + n\<rparr>)
        else (r, [], s1))"

text \<open>The loop over the coded buffers stops at the first failure; the result lists those made.\<close>

fun vaCreateBuffers :: "va_env \<Rightarrow> nat \<Rightarrow> nat list \<Rightarrow> valloc \<Rightarrow> mfxStatus \<times> nat list \<times> valloc" where
  "vaCreateBuffers E 0 bs s = (MFX_ERR_NONE, bs, s)"
| "vaCreateBuffers E (Suc n) bs s =
     (let (r, b, s1) = vaCreateSurfaces E 1 s
      in if r \<noteq> MFX_ERR_NONE then (r, bs, s1) else vaCreateBuffers E n (bs @ b) s1)"

definition vaDestroy :: "nat list \<Rightarrow> valloc \<Rightarrow> valloc" where
  "vaDestroy xs s = s\<lparr>live := live s - set xs\<rparr>"

definition simple_alloc0 :: "va_env \<Rightarrow> mfxFrameAllocRequest \<Rightarrow> valloc \<Rightarrow>
    (mfxStatus \<times> mfxFrameAllocResponse \<times> valloc) option" where
  "simple_alloc0 E request s = (case ConvertMfxFourccToVAFormat (FourCC request) of None \<Rightarrow> None
     | Some va_fourcc \<Rightarrow>
        if NumFrameSuggested request = 0 then Some (MFX_ERR_MEMORY_ALLOC, no_response, s)
        else
          let n = nat (NumFrameSuggested request);
              c = va_clock s;
              s0 = s\<lparr>va_clock := c + 3\<rparr>
          in if \<not> (calloc_ok E c \<and> calloc_ok E (c + 1) \<and> calloc_ok E (c + 2))
             then Some (MFX_ERR_MEMORY_ALLOC, no_response, s0)
             else
               let (r, xs, s1) = (if va_fourcc \<noteq> VA_FOURCC_P208 then vaCreateSurfaces E n s0 else vaCreateBuffers E n [] s0)
               in if r = MFX_ERR_NONE
                  then Some (MFX_ERR_NONE, \<lparr>mids = Some (next_id s1), NumFrameActual = NumFrameSuggested request\<rparr>,
                    s1\<lparr>blocks := (blocks s1)(next_id s1 \<mapsto> \<lparr>b_surfaces = xs, b_fourcc = FourCC request\<rparr>), next_id := Suc (next_id s1)\<rparr>)
                  else Some (r, no_response, vaDestroy xs s1))"

definition simple_alloc :: "va_env \<Rightarrow> nat \<Rightarrow> mfxFrameAllocRequest option \<Rightarrow> valloc \<Rightarrow>
    (mfxStatus \<times> mfxFrameAllocResponse option \<times> valloc) option" where
  "simple_alloc E pthis req s = (case req of None \<Rightarrow> Some (MFX_ERR_MEMORY_ALLOC, None, s)
     | Some request \<Rightarrow>
       if NumFrameSuggested request = 0 then Some (MFX_ERR_MEMORY_ALLOC, None, s)
       else if \<not> type_video_target request then Some (MFX_ERR_UNSUPPORTED, None, s)
       else
         let d = allocDecodeResponses s pthis;
             decode = type_external request \<and> type_from_decode request
         in if NumFrameSuggested request \<le> NumFrameActual (mfxResponse d) \<and> decode \<and> NumFrameActual (mfxResponse d) \<noteq> 0
            then Some (MFX_ERR_NONE, Some (mfxResponse d),
              s\<lparr>allocDecodeResponses := (allocDecodeResponses s)(pthis := d\<lparr>refCount := refCount d + 1\<rparr>)\<rparr>)
            else (case simple_alloc0 E request s of None \<Rightarrow> None
              | Some (sts, response, s1) \<Rightarrow>
                 if sts \<noteq> MFX_ERR_NONE then Some (sts, Some response, s1)
                 else if decode then
                   Some (sts, Some response, s1\<lparr>allocDecodeResponses := (allocDecodeResponses s1)
                     (pthis := \<lparr>mfxResponse = response, refCount = refCount d + 1\<rparr>)\<rparr>)
                 else Some (sts, Some response, s1\<lparr>allocResponses := (allocResponses s1)(the (mids response) \<mapsto> pthis)\<rparr>)))"

section \<open>Release\<close>

definition simple_free0 :: "nat \<Rightarrow> mfxFrameAllocResponse \<Rightarrow> valloc \<Rightarrow> (mfxStatus \<times> mfxFrameAllocResponse \<times> valloc) option" where
  "simple_free0 pthis response s =
     (let d = allocDecodeResponses s pthis;
          same = (response = mfxResponse d);
          s1 = (if same then s\<lparr>allocDecodeResponses := (allocDecodeResponses s)(pthis := d\<lparr>refCount := refCount d - 1\<rparr>)\<rparr> else s);
          actualFreeMemory = (same \<and> refCount d - 1 = 0)
      in if \<not> actualFreeMemory then Some (MFX_ERR_NONE, response, s1)
         else (case mids response of
             None \<Rightarrow> Some (MFX_ERR_NONE, response\<lparr>NumFrameActual := 0\<rparr>, s1)
           | Some m \<Rightarrow> (case blocks s1 m of None \<Rightarrow> None
               | Some b \<Rightarrow> Some (MFX_ERR_NONE, \<lparr>mids = None, NumFrameActual = 0\<rparr>,
                   (vaDestroy (take (nat (NumFrameActual response)) (b_surfaces b)) s1)\<lparr>blocks := (blocks s1)(m := None)\<rparr>))))"

definition simple_free :: "nat \<Rightarrow> mfxFrameAllocResponse option \<Rightarrow> valloc \<Rightarrow>
    (mfxStatus \<times> mfxFrameAllocResponse option \<times> valloc) option" where
  "simple_free pthis resp s = (case resp of None \<Rightarrow> Some (MFX_ERR_NULL_PTR, None, s)
     | Some response \<Rightarrow>
       (if (case mids response of None \<Rightarrow> True | Some m \<Rightarrow> allocResponses s m = None)
        then
          let d = allocDecodeResponses s pthis;
              s1 = s\<lparr>allocDecodeResponses := (allocDecodeResponses s)(pthis := d\<lparr>refCount := refCount d - 1\<rparr>)\<rparr>
          in if refCount d - 1 = 0
             then (case simple_free0 pthis response s1 of None \<Rightarrow> None
               | Some (_, r, s2) \<Rightarrow> Some (MFX_ERR_NONE, Some r,
                   s2\<lparr>allocDecodeResponses := (allocDecodeResponses s2)(pthis := no_shared)\<rparr>))
             else Some (MFX_ERR_NONE, Some response, s1)
        else
          (case simple_free0 pthis response (s\<lparr>allocResponses := (allocResponses s)(the (mids response) := None)\<rparr>) of
             None \<Rightarrow> None
           | Some (_, r, s2) \<Rightarrow> Some (MFX_ERR_NONE, Some r, s2))))"

section \<open>Locking\<close>

text \<open>The picture that the library derives from a surface, and the planes as offsets into its mapping. A plane
  that the code does not set keeps its pointer.\<close>

record va_image =
  i_fourcc :: va_fourcc
  i_pitch0 :: int
  i_offset0 :: int
  i_offset1 :: int
  i_offset2 :: int

record mfxFrameData =
  Pitch :: int
  pY :: "int option"
  pU :: "int option"
  pV :: "int option"
  pR :: "int option"
  pG :: "int option"
  pB :: "int option"
  pA :: "int option"

definition ushort16 :: "int \<Rightarrow> int" where "ushort16 v = v mod 2 ^ 16"

definition set_planes :: "mfx_fourcc \<Rightarrow> va_image \<Rightarrow> mfxFrameData \<Rightarrow> mfxStatus \<times> mfxFrameData" where
  "set_planes f im ptr =
     (let p = ptr\<lparr>Pitch := ushort16 (i_pitch0 im)\<rparr>; o0 = i_offset0 im; o1 = i_offset1 im; o2 = i_offset2 im
      in case i_fourcc im of
           VA_FOURCC_NV12 \<Rightarrow> (if f = MFX_FOURCC_NV12 then (MFX_ERR_NONE, p\<lparr>pY := Some o0, pU := Some o1, pV := Some (o1 + 1)\<rparr>)
              else (MFX_ERR_LOCK_MEMORY, ptr))
         | VA_FOURCC_YV12 \<Rightarrow> (if f = MFX_FOURCC_YV12 then (MFX_ERR_NONE, p\<lparr>pY := Some o0, pV := Some o1, pU := Some o2\<rparr>)
              else (MFX_ERR_LOCK_MEMORY, ptr))
         | VA_FOURCC_YUY2 \<Rightarrow> (if f = MFX_FOURCC_YUY2 then (MFX_ERR_NONE, p\<lparr>pY := Some o0, pU := Some (o0 + 1), pV := Some (o0 + 3)\<rparr>)
              else (MFX_ERR_LOCK_MEMORY, ptr))
         | VA_FOURCC_RGBP \<Rightarrow> (if f = MFX_FOURCC_RGBP then (MFX_ERR_NONE, p\<lparr>pB := Some o0, pG := Some o1, pR := Some o2\<rparr>)
              else (MFX_ERR_LOCK_MEMORY, ptr))
         | VA_FOURCC_ARGB \<Rightarrow> (if f = MFX_FOURCC_RGB4
              then (MFX_ERR_NONE, p\<lparr>pB := Some o0, pG := Some (o0 + 1), pR := Some (o0 + 2), pA := Some (o0 + 3)\<rparr>)
              else (MFX_ERR_LOCK_MEMORY, ptr))
         | _ \<Rightarrow> (MFX_ERR_LOCK_MEMORY, ptr))"

text \<open>Locking maps the memory of a surface. For a coded buffer the pointer to its segment is read even when the
  mapping failed, which is undefined (\<open>None\<close>). A memory id is an array and a position in it. \<open>mapped\<close> counts the mappings and \<open>images\<close> the derived pictures of a surface.\<close>

record lock_state =
  mapped :: "nat \<Rightarrow> int"
  images :: "nat \<Rightarrow> int"
  l_clock :: nat

type_synonym mem_id = "nat \<times> nat"

definition mid_surface :: "valloc \<Rightarrow> mem_id option \<Rightarrow> (nat \<times> mfx_fourcc) option" where
  "mid_surface s mid = (case mid of None \<Rightarrow> None | Some (m, i) \<Rightarrow> (case blocks s m of None \<Rightarrow> None
     | Some b \<Rightarrow> if i < length (b_surfaces b) then Some (b_surfaces b ! i, b_fourcc b) else None))"

definition simple_lock :: "va_env \<Rightarrow> (nat \<Rightarrow> va_image) \<Rightarrow> valloc \<Rightarrow> mem_id option \<Rightarrow> mfxFrameData \<Rightarrow> lock_state \<Rightarrow>
    (mfxStatus \<times> mfxFrameData \<times> lock_state) option" where
  "simple_lock E derive s mid ptr l = (case mid_surface s mid of None \<Rightarrow> Some (MFX_ERR_INVALID_HANDLE, ptr, l)
     | Some (sf, f) \<Rightarrow>
        let c = l_clock l; r0 = va_to_mfx_status (va_status E c); r1 = va_to_mfx_status (va_status E (c + 1));
            l1 = l\<lparr>l_clock := c + 1\<rparr>; l2 = l\<lparr>l_clock := c + 2, images := (images l)(sf := images l sf + 1)\<rparr>;
            l3 = l2\<lparr>mapped := (mapped l2)(sf := mapped l2 sf + 1)\<rparr>
        in if f = MFX_FOURCC_P8
           then (if r0 = MFX_ERR_NONE then Some (r0, ptr\<lparr>pY := Some 0\<rparr>, l1\<lparr>mapped := (mapped l1)(sf := mapped l1 sf + 1)\<rparr>) else None)
           else if r0 \<noteq> MFX_ERR_NONE then Some (r0, ptr, l1)
           else if r1 \<noteq> MFX_ERR_NONE then Some (r1, ptr, l2)
           else (case set_planes f (derive sf) ptr of (r, p) \<Rightarrow> Some (r, p, l3)))"

definition simple_unlock :: "valloc \<Rightarrow> mem_id option \<Rightarrow> mfxFrameData option \<Rightarrow> lock_state \<Rightarrow>
    mfxStatus \<times> mfxFrameData option \<times> lock_state" where
  "simple_unlock s mid ptr l = (case mid_surface s mid of None \<Rightarrow> (MFX_ERR_INVALID_HANDLE, ptr, l)
     | Some (sf, f) \<Rightarrow>
        if f = MFX_FOURCC_P8 then (MFX_ERR_NONE, ptr, l\<lparr>mapped := (mapped l)(sf := mapped l sf - 1)\<rparr>)
        else (MFX_ERR_NONE, map_option (\<lambda>p. p\<lparr>Pitch := 0, pY := None, pU := None, pV := None, pA := None\<rparr>) ptr,
          l\<lparr>mapped := (mapped l)(sf := mapped l sf - 1), images := (images l)(sf := images l sf - 1)\<rparr>))"

definition simple_gethdl :: "valloc \<Rightarrow> mem_id option \<Rightarrow> mfxStatus \<times> nat option" where
  "simple_gethdl s mid = (case mid_surface s mid of None \<Rightarrow> (MFX_ERR_INVALID_HANDLE, None) | Some (sf, _) \<Rightarrow> (MFX_ERR_NONE, Some sf))"

end
