(* ===== verification/VideoAllocFacts.thy ===== *)
theory VideoAllocFacts
  imports VideoAlloc
begin

text \<open>
  Properties of the frame allocator: what a successful allocation gives, that a failed one leaves nothing behind,
  that locking and unlocking balance, and that the two counts of references cancel so that nothing is ever released.
\<close>

section \<open>The invariant\<close>

definition response_ok :: "valloc \<Rightarrow> mfxFrameAllocResponse \<Rightarrow> bool" where
  "response_ok s r \<longleftrightarrow> r = no_response \<or> (\<exists>m b. mids r = Some m \<and> blocks s m = Some b \<and> NumFrameActual r = int (length (b_surfaces b)))"

definition valloc_ok :: "valloc \<Rightarrow> bool" where
  "valloc_ok s \<longleftrightarrow> live s \<subseteq> {..<next_id s} \<and>
     (\<forall>m b. blocks s m = Some b \<longrightarrow> m < next_id s \<and> distinct (b_surfaces b) \<and> set (b_surfaces b) \<subseteq> live s) \<and>
     (\<forall>p. response_ok s (mfxResponse (allocDecodeResponses s p))) \<and>
     (\<forall>p m. mids (mfxResponse (allocDecodeResponses s p)) = Some m \<longrightarrow> allocResponses s m = None) \<and>
     (\<forall>m. allocResponses s m \<noteq> None \<longrightarrow> m < next_id s)"

definition grown :: "valloc \<Rightarrow> valloc \<Rightarrow> bool" where
  "grown s s' \<longleftrightarrow> live s \<subseteq> live s' \<and> blocks s \<subseteq>\<^sub>m blocks s' \<and> next_id s \<le> next_id s'"

lemma grown_refl: "grown s s"
  by (simp add: grown_def)

lemma grown_trans: "grown s t \<Longrightarrow> grown t u \<Longrightarrow> grown s u"
  unfolding grown_def by (meson map_le_trans order_trans)

lemma response_ok_grown: "response_ok s r \<Longrightarrow> blocks s \<subseteq>\<^sub>m blocks s' \<Longrightarrow> response_ok s' r"
  unfolding response_ok_def map_le_def by (metis domI)

section \<open>Creating surfaces\<close>

text \<open>What one of the two ways to create surfaces does: fresh numbers become live, nothing else changes.\<close>

definition made_surfaces :: "valloc \<Rightarrow> nat list \<Rightarrow> valloc \<Rightarrow> bool" where
  "made_surfaces s xs s' \<longleftrightarrow> distinct xs \<and> set xs \<subseteq> {next_id s..<next_id s'} \<and> live s' = live s \<union> set xs \<and> next_id s \<le> next_id s' \<and>
     blocks s' = blocks s \<and> allocDecodeResponses s' = allocDecodeResponses s \<and> allocResponses s' = allocResponses s"

lemma va_success: "va_to_mfx_status r = MFX_ERR_NONE \<longleftrightarrow> r = VA_STATUS_SUCCESS"
  by (cases r) (simp_all add: va_to_mfx_status_def)

lemma vaCreateSurfaces_made:
  assumes "vaCreateSurfaces E n s = (r, xs, s')"
  shows "made_surfaces s xs s'" "length xs = (if r = MFX_ERR_NONE then n else 0)"
  using assms by (auto simp: vaCreateSurfaces_def made_surfaces_def va_success Let_def split: if_splits)

lemma made_surfaces_trans:
  assumes "made_surfaces s xs t" "made_surfaces t ys u"
  shows "made_surfaces s (xs @ ys) u"
  using assms unfolding made_surfaces_def by (auto simp: subset_iff) (meson less_le_trans not_less)+

lemma vaCreateBuffers_made:
  "vaCreateBuffers E n bs s = (r, xs, s') \<Longrightarrow> \<exists>ys. xs = bs @ ys \<and> made_surfaces s ys s' \<and> (r = MFX_ERR_NONE \<longrightarrow> length ys = n)"
proof (induction E n bs s arbitrary: xs rule: vaCreateBuffers.induct)
  case (1 E bs s)
  then show ?case by (simp add: made_surfaces_def)
next
  case (2 E n bs s)
  obtain r1 b s1 where c: "vaCreateSurfaces E 1 s = (r1, b, s1)" by (cases "vaCreateSurfaces E 1 s")
  note m = vaCreateSurfaces_made [OF c]
  show ?case
  proof (cases "r1 = MFX_ERR_NONE")
    case True
    then have "vaCreateBuffers E n (bs @ b) s1 = (r, xs, s')" using 2(2) c by simp
    from "2.IH" [OF c [symmetric] refl refl _ this] True
    obtain ys where ys: "xs = (bs @ b) @ ys" "made_surfaces s1 ys s'" "r = MFX_ERR_NONE \<longrightarrow> length ys = n" by auto
    show ?thesis
    proof (intro exI conjI)
      show "xs = bs @ (b @ ys)" using ys(1) by simp
      show "made_surfaces s (b @ ys) s'" using made_surfaces_trans [OF m(1) ys(2)] .
      show "r = MFX_ERR_NONE \<longrightarrow> length (b @ ys) = Suc n" using ys(3) m(2) True by simp
    qed
  next
    case False
    then have "xs = bs \<and> s' = s1 \<and> r = r1" using 2(2) c by simp
    moreover have "b = []" using m(2) False by simp
    ultimately show ?thesis using m(1) False by auto
  qed
qed

text \<open>The allocation proper: on success one new block with the surfaces asked for, on failure nothing.\<close>

lemma simple_alloc0_cases:
  assumes "simple_alloc0 E req s = Some (r, resp, s')" and ok: "valloc_ok s" and n: "0 \<le> NumFrameSuggested req"
  shows "allocDecodeResponses s' = allocDecodeResponses s \<and> allocResponses s' = allocResponses s \<and> next_id s \<le> next_id s' \<and>
    (if r = MFX_ERR_NONE
     then \<exists>m xs. next_id s \<le> m \<and> m < next_id s' \<and> distinct xs \<and> set xs \<subseteq> {next_id s..<next_id s'} \<and> live s' = live s \<union> set xs \<and>
       blocks s' = (blocks s)(m \<mapsto> \<lparr>b_surfaces = xs, b_fourcc = FourCC req\<rparr>) \<and>
       resp = \<lparr>mids = Some m, NumFrameActual = NumFrameSuggested req\<rparr> \<and> int (length xs) = NumFrameSuggested req
     else live s' = live s \<and> blocks s' = blocks s \<and> resp = no_response)"
proof -
  obtain vf where vf: "ConvertMfxFourccToVAFormat (FourCC req) = Some vf" using assms(1) by (auto simp: simple_alloc0_def split: option.splits)
  let ?n = "nat (NumFrameSuggested req)" and ?c = "va_clock s"
  let ?s0 = "s\<lparr>va_clock := ?c + 3\<rparr>"
  consider "NumFrameSuggested req = 0 \<or> \<not> (calloc_ok E ?c \<and> calloc_ok E (?c + 1) \<and> calloc_ok E (?c + 2))"
    | "NumFrameSuggested req \<noteq> 0" "calloc_ok E ?c \<and> calloc_ok E (?c + 1) \<and> calloc_ok E (?c + 2)" by blast
  then show ?thesis
  proof cases
    case 1
    then have "r = MFX_ERR_MEMORY_ALLOC \<and> resp = no_response \<and> (s' = s \<or> s' = ?s0)"
      using assms(1) vf by (auto simp: simple_alloc0_def Let_def split: if_splits)
    then show ?thesis by auto
  next
    case 2
    obtain r1 xs s1 where c: "(if vf \<noteq> VA_FOURCC_P208 then vaCreateSurfaces E ?n ?s0 else vaCreateBuffers E ?n [] ?s0) = (r1, xs, s1)"
      by (metis prod_cases3)
    have m: "made_surfaces ?s0 xs s1" "r1 = MFX_ERR_NONE \<longrightarrow> length xs = ?n"
      using c vaCreateSurfaces_made [of E ?n ?s0 r1 xs s1] vaCreateBuffers_made [of E ?n "[]" ?s0 r1 xs s1] by (auto split: if_splits)
    have res: "(if r1 = MFX_ERR_NONE then Some (MFX_ERR_NONE, \<lparr>mids = Some (next_id s1), NumFrameActual = NumFrameSuggested req\<rparr>,
          s1\<lparr>blocks := (blocks s1)(next_id s1 \<mapsto> \<lparr>b_surfaces = xs, b_fourcc = FourCC req\<rparr>), next_id := Suc (next_id s1)\<rparr>)
        else Some (r1, no_response, vaDestroy xs s1)) = Some (r, resp, s')"
      using assms(1) vf 2 c by (simp add: simple_alloc0_def Let_def)
    show ?thesis
    proof (cases "r1 = MFX_ERR_NONE")
      case True
      then have e: "r = MFX_ERR_NONE" "resp = \<lparr>mids = Some (next_id s1), NumFrameActual = NumFrameSuggested req\<rparr>"
        "s' = s1\<lparr>blocks := (blocks s1)(next_id s1 \<mapsto> \<lparr>b_surfaces = xs, b_fourcc = FourCC req\<rparr>), next_id := Suc (next_id s1)\<rparr>"
        using res by auto
      show ?thesis unfolding if_P [OF e(1)]
        using m n True by (auto simp: e made_surfaces_def intro!: exI [of _ "next_id s1"] exI [of _ xs])
    next
      case False
      then have e: "r = r1" "resp = no_response" "s' = vaDestroy xs s1" using res by auto
      have "set xs \<inter> live s = {}" using m(1) ok by (fastforce simp: made_surfaces_def valloc_ok_def)
      then have "live s' = live s" using m(1) by (auto simp: e vaDestroy_def made_surfaces_def)
      then show ?thesis using m(1) False by (simp add: e vaDestroy_def made_surfaces_def)
    qed
  qed
qed

lemma valloc_ok_more:
  assumes "valloc_ok s" "live s' = live s" "blocks s' = blocks s" "next_id s \<le> next_id s'"
    and "allocDecodeResponses s' = allocDecodeResponses s" "allocResponses s' = allocResponses s"
  shows "valloc_ok s'"
proof -
  have lt: "m < next_id s'" if "m < next_id s" for m using assms(4) that by linarith
  note O = assms(1) [unfolded valloc_ok_def response_ok_def]
  have "live s \<subseteq> {..<next_id s'}" using O lt by blast
  moreover have "\<forall>m b. blocks s m = Some b \<longrightarrow> m < next_id s' \<and> distinct (b_surfaces b) \<and> set (b_surfaces b) \<subseteq> live s" using O lt by blast
  moreover have "\<forall>m. allocResponses s m \<noteq> None \<longrightarrow> m < next_id s'" using O lt by blast
  ultimately show ?thesis using O unfolding valloc_ok_def response_ok_def assms(2,3,5,6) by blast
qed

text \<open>A block with fresh surfaces under a fresh number, and its registration under a session.\<close>

definition new_block :: "valloc \<Rightarrow> nat \<Rightarrow> nat list \<Rightarrow> mfx_fourcc \<Rightarrow> valloc \<Rightarrow> bool" where
  "new_block s m xs f s' \<longleftrightarrow> next_id s \<le> m \<and> m < next_id s' \<and> distinct xs \<and> set xs \<subseteq> {next_id s..<next_id s'} \<and>
     live s' = live s \<union> set xs \<and> blocks s' = (blocks s)(m \<mapsto> \<lparr>b_surfaces = xs, b_fourcc = f\<rparr>) \<and>
     allocDecodeResponses s' = allocDecodeResponses s \<and> allocResponses s' = allocResponses s"

lemma new_block_ok:
  assumes ok: "valloc_ok s" and n: "new_block s m xs f s'"
  shows "valloc_ok s'" "grown s s'" "allocResponses s m = None" "\<And>p m'. mids (mfxResponse (allocDecodeResponses s p)) = Some m' \<Longrightarrow> m' \<noteq> m"
proof -
  note N = n [unfolded new_block_def] and O = ok [unfolded valloc_ok_def]
  have id: "next_id s < next_id s'" using N by linarith
  have bm: "blocks s m = None" using O N by (metis not_Some_eq not_le)
  have le: "blocks s \<subseteq>\<^sub>m blocks s'" using bm N by (auto simp: map_le_def)
  show "grown s s'" using le N id by (simp add: grown_def)
  show am: "allocResponses s m = None" using O N by (metis not_le)
  show "m' \<noteq> m" if "mids (mfxResponse (allocDecodeResponses s p)) = Some m'" for p m'
  proof
    assume "m' = m"
    moreover have "response_ok s (mfxResponse (allocDecodeResponses s p))" using O by blast
    ultimately show False using that bm by (auto simp: response_ok_def no_response_def)
  qed
  have bl: "m' < next_id s' \<and> distinct (b_surfaces b) \<and> set (b_surfaces b) \<subseteq> live s'" if "blocks s' m' = Some b" for m' b
  proof (cases "m' = m")
    case True
    then show ?thesis using that N by auto
  next
    case False
    then have "blocks s m' = Some b" using that N by simp
    then have "m' < next_id s \<and> distinct (b_surfaces b) \<and> set (b_surfaces b) \<subseteq> live s" using O by blast
    then show ?thesis using N id by auto
  qed
  have "live s' \<subseteq> {..<next_id s'}" using O N id by fastforce
  moreover have "response_ok s' (mfxResponse (allocDecodeResponses s' p))" for p using O N response_ok_grown [OF _ le] by metis
  moreover have "allocResponses s' m' \<noteq> None \<longrightarrow> m' < next_id s'" for m' using O N id by (metis less_trans)
  ultimately show "valloc_ok s'" using bl O N unfolding valloc_ok_def by metis
qed

lemma register_ok:
  assumes ok: "valloc_ok s" and r: "response_ok s r" "\<And>m. mids r = Some m \<Longrightarrow> allocResponses s m = None"
  shows "valloc_ok (s\<lparr>allocDecodeResponses := (allocDecodeResponses s)(p := \<lparr>mfxResponse = r, refCount = n\<rparr>)\<rparr>)"
  using assms by (auto simp: valloc_ok_def response_ok_def)

lemma register_other:
  assumes ok: "valloc_ok s" and m: "m < next_id s" "\<And>p m'. mids (mfxResponse (allocDecodeResponses s p)) = Some m' \<Longrightarrow> m' \<noteq> m"
  shows "valloc_ok (s\<lparr>allocResponses := (allocResponses s)(m \<mapsto> p)\<rparr>)"
  using assms by (auto simp: valloc_ok_def response_ok_def)

lemma simple_alloc0_new:
  assumes "simple_alloc0 E req s = Some (MFX_ERR_NONE, resp, s')" "valloc_ok s" "0 \<le> NumFrameSuggested req"
  obtains m xs where "new_block s m xs (FourCC req) s'" "resp = \<lparr>mids = Some m, NumFrameActual = NumFrameSuggested req\<rparr>"
    "int (length xs) = NumFrameSuggested req"
  using simple_alloc0_cases [OF assms] that unfolding new_block_def by auto

definition good_response :: "valloc \<Rightarrow> mfxFrameAllocRequest \<Rightarrow> mfxFrameAllocResponse \<Rightarrow> bool" where
  "good_response s q r \<longleftrightarrow> (\<exists>m b. mids r = Some m \<and> blocks s m = Some b \<and>
       NumFrameActual r = int (length (b_surfaces b)) \<and> NumFrameSuggested q \<le> NumFrameActual r)"

lemma simple_alloc_shared:
  assumes ok: "valloc_ok s" and "NumFrameSuggested q \<le> NumFrameActual (mfxResponse (allocDecodeResponses s p))"
    and "NumFrameActual (mfxResponse (allocDecodeResponses s p)) \<noteq> 0"
  shows "good_response s q (mfxResponse (allocDecodeResponses s p))"
    "valloc_ok (s\<lparr>allocDecodeResponses := (allocDecodeResponses s)(p := allocDecodeResponses s p\<lparr>refCount := n\<rparr>)\<rparr>)"
proof -
  have r: "response_ok s (mfxResponse (allocDecodeResponses s p))" using ok by (simp add: valloc_ok_def)
  then show "good_response s q (mfxResponse (allocDecodeResponses s p))"
    using assms(2,3) by (auto simp: good_response_def response_ok_def no_response_def)
  have a: "allocResponses s m = None" if "mids (mfxResponse (allocDecodeResponses s p)) = Some m" for m
    using ok that unfolding valloc_ok_def by blast
  have e: "allocDecodeResponses s p\<lparr>refCount := n\<rparr> = \<lparr>mfxResponse = mfxResponse (allocDecodeResponses s p), refCount = n\<rparr>"
    by (cases "allocDecodeResponses s p") simp
  show "valloc_ok (s\<lparr>allocDecodeResponses := (allocDecodeResponses s)(p := allocDecodeResponses s p\<lparr>refCount := n\<rparr>)\<rparr>)"
    unfolding e by (rule register_ok [OF ok r a])
qed

lemma simple_alloc_step:
  assumes ok: "valloc_ok s" and n: "\<And>r. req = Some r \<Longrightarrow> 0 \<le> NumFrameSuggested r"
    and run: "simple_alloc E p req s = Some (sts, resp, s')"
  shows "valloc_ok s'" "grown s s'" "sts \<noteq> MFX_ERR_NONE \<Longrightarrow> live s' = live s \<and> blocks s' = blocks s"
    "sts = MFX_ERR_NONE \<Longrightarrow> \<exists>r q. req = Some q \<and> resp = Some r \<and> good_response s' q r"
proof -
  have "valloc_ok s' \<and> grown s s' \<and> (if sts = MFX_ERR_NONE then \<exists>r q. req = Some q \<and> resp = Some r \<and> good_response s' q r
    else live s' = live s \<and> blocks s' = blocks s)"
  proof (cases "\<exists>q. req = Some q \<and> NumFrameSuggested q \<noteq> 0 \<and> type_video_target q")
    case False
    then have "s' = s \<and> sts \<noteq> MFX_ERR_NONE" using run by (auto simp: simple_alloc_def split: option.splits if_splits)
    then show ?thesis using ok by (simp add: grown_refl)
  next
    case True
    then obtain q where q: "req = Some q" "NumFrameSuggested q \<noteq> 0" "type_video_target q" by blast
    let ?d = "allocDecodeResponses s p" and ?dec = "type_external q \<and> type_from_decode q"
    show ?thesis
    proof (cases "NumFrameSuggested q \<le> NumFrameActual (mfxResponse ?d) \<and> ?dec \<and> NumFrameActual (mfxResponse ?d) \<noteq> 0")
      case True
      then have e: "sts = MFX_ERR_NONE" "resp = Some (mfxResponse ?d)"
        "s' = s\<lparr>allocDecodeResponses := (allocDecodeResponses s)(p := ?d\<lparr>refCount := refCount ?d + 1\<rparr>)\<rparr>"
        using run q by (auto simp: simple_alloc_def Let_def)
      show ?thesis using simple_alloc_shared(1) [OF ok, where q = q and p = p] simple_alloc_shared(2) [OF ok, where q = q and p = p and n = "refCount ?d + 1"] True q
        by (auto simp: e grown_def good_response_def)
    next
      case F: False
      then obtain r0 resp0 s1 where a: "simple_alloc0 E q s = Some (r0, resp0, s1)"
        using run q by (auto simp: simple_alloc_def Let_def split: option.splits)
      show ?thesis
      proof (cases "r0 = MFX_ERR_NONE")
        case False
        then have e: "sts = r0" "s' = s1" using run q F a by (auto simp: simple_alloc_def Let_def)
        have C: "live s1 = live s" "blocks s1 = blocks s" "next_id s \<le> next_id s1" "allocDecodeResponses s1 = allocDecodeResponses s"
          "allocResponses s1 = allocResponses s" using simple_alloc0_cases [OF a ok n [OF q(1)]] False by simp_all
        have "valloc_ok s1" using ok C by (rule valloc_ok_more)
        then show ?thesis using C False e by (simp add: grown_def)
      next
        case True
        with a have a0: "simple_alloc0 E q s = Some (MFX_ERR_NONE, resp0, s1)" by simp
        obtain m xs where nb: "new_block s m xs (FourCC q) s1" and r0: "resp0 = \<lparr>mids = Some m, NumFrameActual = NumFrameSuggested q\<rparr>"
          "int (length xs) = NumFrameSuggested q" using simple_alloc0_new [OF a0 ok n [OF q(1)]] .
        note B = new_block_ok [OF ok nb] and N = nb [unfolded new_block_def]
        have e: "sts = MFX_ERR_NONE" "resp = Some resp0"
          "s' = (if ?dec then s1\<lparr>allocDecodeResponses := (allocDecodeResponses s1)(p := \<lparr>mfxResponse = resp0, refCount = refCount ?d + 1\<rparr>)\<rparr>
             else s1\<lparr>allocResponses := (allocResponses s1)(m \<mapsto> p)\<rparr>)"
          using run q F a True r0 by (auto simp: simple_alloc_def Let_def split: if_splits)
        have ro: "response_ok s1 resp0" using N r0 by (simp add: response_ok_def)
        have "valloc_ok s'" unfolding e(3) using register_ok [OF B(1) ro] register_other [OF B(1)] B(3,4) N r0 by simp
        moreover have "grown s s'" "blocks s' = blocks s1" using B(2) by (simp_all add: e(3) grown_def)
        ultimately show ?thesis using N r0 q e by (simp add: good_response_def)
      qed
    qed
  qed
  then show "valloc_ok s'" "grown s s'" "sts \<noteq> MFX_ERR_NONE \<Longrightarrow> live s' = live s \<and> blocks s' = blocks s"
    "sts = MFX_ERR_NONE \<Longrightarrow> \<exists>r q. req = Some q \<and> resp = Some r \<and> good_response s' q r" by simp_all
qed

section \<open>Release\<close>

text \<open>The decode path calls the release with a count of 0, which it decrements again; the other path hands over a
  response that is not the one of the decoder. Either way the test for 0 fails.\<close>

lemma simple_free0_decode: "refCount (allocDecodeResponses s p) = 0 \<Longrightarrow>
  simple_free0 p r s = Some (st, r', s') \<Longrightarrow> r' = r \<and> live s' = live s \<and> blocks s' = blocks s \<and> next_id s' = next_id s \<and>
    allocResponses s' = allocResponses s \<and> (\<forall>q. mfxResponse (allocDecodeResponses s' q) = mfxResponse (allocDecodeResponses s q))"
  by (auto simp: simple_free0_def Let_def split: if_splits)

lemma simple_free0_other:
  assumes "r \<noteq> mfxResponse (allocDecodeResponses s p)"
  shows "simple_free0 p r s = Some (MFX_ERR_NONE, r, s)"
  using assms by (simp add: simple_free0_def)

lemma valloc_ok_same:
  assumes "valloc_ok s" "live s' = live s" "blocks s' = blocks s" "next_id s' = next_id s"
    and "\<And>q. mfxResponse (allocDecodeResponses s' q) \<in> {mfxResponse (allocDecodeResponses s q), no_response}"
    and "\<And>m. allocResponses s m = None \<Longrightarrow> allocResponses s' m = None"
  shows "valloc_ok s'"
proof -
  have "response_ok s' (mfxResponse (allocDecodeResponses s' q))" for q
    using assms(1,3) assms(5) [of q] unfolding valloc_ok_def response_ok_def by (metis insertE singletonD)
  moreover have "allocResponses s' m = None" if "mids (mfxResponse (allocDecodeResponses s' q)) = Some m" for q m
    using assms(1) assms(5) [of q] assms(6) [of m] that unfolding valloc_ok_def no_response_def by auto
  moreover have "m < next_id s'" if "allocResponses s' m \<noteq> None" for m
    using assms(1,4,6) that unfolding valloc_ok_def by metis
  ultimately show ?thesis using assms(1-4) unfolding valloc_ok_def by simp
qed

lemma simple_free_step:
  assumes ok: "valloc_ok s" and run: "simple_free p resp s = Some (sts, resp', s')"
  shows "valloc_ok s' \<and> live s' = live s \<and> blocks s' = blocks s \<and> next_id s' = next_id s \<and> resp' = resp"
proof (cases resp)
  case None
  then show ?thesis using run ok by (simp add: simple_free_def)
next
  case (Some r)
  show ?thesis
  proof (cases "case mids r of None \<Rightarrow> True | Some m \<Rightarrow> allocResponses s m = None")
    case True
    let ?d = "allocDecodeResponses s p"
    let ?s1 = "s\<lparr>allocDecodeResponses := (allocDecodeResponses s)(p := ?d\<lparr>refCount := refCount ?d - 1\<rparr>)\<rparr>"
    show ?thesis
    proof (cases "refCount ?d - 1 = 0")
      case z: True
      then obtain st r' s2 where f: "simple_free0 p r ?s1 = Some (st, r', s2)"
        "resp' = Some r'" "s' = s2\<lparr>allocDecodeResponses := (allocDecodeResponses s2)(p := no_shared)\<rparr>"
        using run Some True by (auto simp: simple_free_def Let_def split: option.splits)
      have "refCount (allocDecodeResponses ?s1 p) = 0" using z by simp
      note F = simple_free0_decode [OF this f(1)]
      have "valloc_ok s'" by (rule valloc_ok_same [OF ok]) (use F in \<open>auto simp: f(3) no_shared_def\<close>)
      then show ?thesis using F f Some by simp
    next
      case False
      then have "resp' = Some r" "s' = ?s1" using run Some True by (auto simp: simple_free_def Let_def)
      moreover have "valloc_ok ?s1" by (rule valloc_ok_same [OF ok]) auto
      ultimately show ?thesis using Some by simp
    qed
  next
    case False
    then obtain m q where m: "mids r = Some m" "allocResponses s m = Some q" by (auto split: option.splits)
    let ?s1 = "s\<lparr>allocResponses := (allocResponses s)(m := None)\<rparr>"
    have "mids (mfxResponse (allocDecodeResponses s p)) \<noteq> Some m" using ok m unfolding valloc_ok_def by (metis option.distinct(1))
    then have "r \<noteq> mfxResponse (allocDecodeResponses ?s1 p)" using m by auto
    then have "resp' = Some r" "s' = ?s1"
      using run Some m simple_free0_other [of r ?s1 p] by (auto simp: simple_free_def)
    moreover have "valloc_ok ?s1" by (rule valloc_ok_same [OF ok]) auto
    ultimately show ?thesis using Some by simp
  qed
qed

section \<open>Sequences of calls\<close>

datatype alloc_call = Alloc nat "mfxFrameAllocRequest option" | Free nat "mfxFrameAllocResponse option"

fun exec_alloc :: "va_env \<Rightarrow> alloc_call \<Rightarrow> valloc \<Rightarrow> ((mfxStatus \<times> mfxFrameAllocResponse option) \<times> valloc) option" where
  "exec_alloc E (Alloc p req) s = map_option (\<lambda>(r, a, s'). ((r, a), s')) (simple_alloc E p req s)"
| "exec_alloc E (Free p resp) s = map_option (\<lambda>(r, a, s'). ((r, a), s')) (simple_free p resp s)"

definition fresh_alloc :: valloc where
  "fresh_alloc = \<lparr>live = {}, blocks = Map.empty, allocDecodeResponses = (\<lambda>_. no_shared), allocResponses = Map.empty, next_id = 0, va_clock = 0\<rparr>"

definition counts_ok :: "alloc_call list \<Rightarrow> bool" where
  "counts_ok cs \<longleftrightarrow> (\<forall>p r. Alloc p (Some r) \<in> set cs \<longrightarrow> 0 \<le> NumFrameSuggested r)"

lemma fresh_ok: "valloc_ok fresh_alloc"
  by (simp add: valloc_ok_def fresh_alloc_def no_shared_def no_response_def response_ok_def)

lemma exec_alloc_step:
  assumes "valloc_ok s" "exec_alloc E c s = Some (r, s')" "\<And>p q. c = Alloc p (Some q) \<Longrightarrow> 0 \<le> NumFrameSuggested q"
  shows "valloc_ok s' \<and> grown s s'"
proof (cases c)
  case (Alloc p req)
  with assms obtain sts resp where "simple_alloc E p req s = Some (sts, resp, s')" by auto
  from simple_alloc_step(1,2) [OF assms(1) _ this] assms(3) Alloc show ?thesis by auto
next
  case (Free p resp)
  with assms obtain sts resp' where "simple_free p resp s = Some (sts, resp', s')" by auto
  from simple_free_step [OF assms(1) this] show ?thesis by (simp add: grown_def)
qed

lemma exec_allocs:
  assumes "valloc_ok s" "run_calls (exec_alloc E) cs s = Some (rs, s')" "counts_ok cs"
  shows "valloc_ok s' \<and> grown s s'"
  using assms
proof (induction cs arbitrary: s rs)
  case Nil
  then show ?case by (simp add: grown_refl)
next
  case (Cons c cs)
  from Cons.prems(2) obtain r s1 qs where c: "exec_alloc E c s = Some (r, s1)" and cs: "run_calls (exec_alloc E) cs s1 = Some (qs, s')"
    by (auto split: option.splits)
  have "valloc_ok s1 \<and> grown s s1"
    by (rule exec_alloc_step [OF Cons.prems(1) c]) (use Cons.prems(3) in \<open>auto simp: counts_ok_def\<close>)
  moreover have "counts_ok cs" using Cons.prems(3) by (auto simp: counts_ok_def)
  ultimately show ?case using Cons.IH [OF _ cs] grown_trans by blast
qed

section \<open>Properties\<close>

text \<open>C17. A successful allocation gives at least the frames asked for: the memory ids of the response name distinct live
  surfaces, whatever calls came before. A failed one leaves no surface and no array behind.\<close>

theorem simple_alloc_gives_frames:
  assumes "run_calls (exec_alloc E) cs fresh_alloc = Some (rs, s)" "counts_ok (cs @ [Alloc p (Some q)])"
    and "simple_alloc E p (Some q) s = Some (sts, resp, s')"
  shows "if sts = MFX_ERR_NONE
    then \<exists>r m hs. resp = Some r \<and> mids r = Some m \<and> NumFrameSuggested q \<le> NumFrameActual r \<and> int (length hs) = NumFrameActual r \<and>
      distinct hs \<and> set hs \<subseteq> live s' \<and> (\<forall>i < length hs. simple_gethdl s' (Some (m, i)) = (MFX_ERR_NONE, Some (hs ! i)))
    else live s' = live s \<and> blocks s' = blocks s"
proof -
  have "valloc_ok s" using exec_allocs [OF fresh_ok assms(1)] assms(2) by (auto simp: counts_ok_def)
  moreover have "0 \<le> NumFrameSuggested q" using assms(2) by (auto simp: counts_ok_def)
  ultimately have st: "valloc_ok s'" "sts \<noteq> MFX_ERR_NONE \<Longrightarrow> live s' = live s \<and> blocks s' = blocks s"
    "sts = MFX_ERR_NONE \<Longrightarrow> \<exists>r. resp = Some r \<and> good_response s' q r"
    using simple_alloc_step [OF _ _ assms(3)] by auto
  show ?thesis
  proof (cases "sts = MFX_ERR_NONE")
    case True
    then obtain r m b where r: "resp = Some r" "mids r = Some m" "blocks s' m = Some b" "NumFrameActual r = int (length (b_surfaces b))"
      "NumFrameSuggested q \<le> NumFrameActual r" using st(3) by (auto simp: good_response_def)
    have "distinct (b_surfaces b)" "set (b_surfaces b) \<subseteq> live s'" using st(1) r(3) unfolding valloc_ok_def by blast+
    then show ?thesis using True r by (auto simp: simple_gethdl_def mid_surface_def intro!: exI [of _ r] exI [of _ m] exI [of _ "b_surfaces b"])
  qed (use st(2) in simp)
qed

definition all_va_ok :: va_env where
  "all_va_ok = \<lparr>calloc_ok = (\<lambda>_. True), va_status = (\<lambda>_. VA_STATUS_SUCCESS)\<rparr>"

definition decoder_frames :: "int \<Rightarrow> mfxFrameAllocRequest" where
  "decoder_frames n = \<lparr>FourCC = MFX_FOURCC_NV12, NumFrameSuggested = n, type_external = True, type_from_decode = True, type_video_target = True\<rparr>"

definition vpp_frames :: "int \<Rightarrow> mfxFrameAllocRequest" where
  "vpp_frames n = \<lparr>FourCC = MFX_FOURCC_RGBP, NumFrameSuggested = n, type_external = True, type_from_decode = False, type_video_target = True\<rparr>"

lemmas alloc_eval = decoder_frames_def vpp_frames_def all_va_ok_def fresh_alloc_def simple_alloc_def simple_alloc0_def Let_def
  no_shared_def no_response_def ConvertMfxFourccToVAFormat_def vaCreateSurfaces_def va_to_mfx_status_def

theorem simple_alloc_gives_frames_witness:
  "\<exists>rs s s' r m hs. run_calls (exec_alloc all_va_ok) [Alloc 1 (Some (vpp_frames 2))] fresh_alloc = Some (rs, s) \<and>
    simple_alloc all_va_ok 1 (Some (decoder_frames 3)) s = Some (MFX_ERR_NONE, Some r, s') \<and>
    mids r = Some m \<and> 3 \<le> NumFrameActual r \<and> int (length hs) = NumFrameActual r \<and> distinct hs \<and> set hs \<subseteq> live s'"
proof -
  obtain rs s where 1: "run_calls (exec_alloc all_va_ok) [Alloc 1 (Some (vpp_frames 2))] fresh_alloc = Some (rs, s)"
    by (simp add: alloc_eval)
  then obtain r s' where 2: "simple_alloc all_va_ok 1 (Some (decoder_frames 3)) s = Some (MFX_ERR_NONE, Some r, s')"
    by (auto simp: alloc_eval)
  have "counts_ok ([Alloc 1 (Some (vpp_frames 2))] @ [Alloc 1 (Some (decoder_frames 3))])"
    by (simp add: counts_ok_def vpp_frames_def decoder_frames_def)
  from simple_alloc_gives_frames [OF 1 this 2] 1 2 show ?thesis by (auto simp: decoder_frames_def)
qed

text \<open>C18. Releasing frees nothing: whatever calls follow, in particular \<^verbatim>\<open>simple_free\<close> for every response handed
  out, each surface ever made stays live and each array of memory ids allocated.\<close>

theorem frames_never_released:
  assumes "run_calls (exec_alloc E) cs fresh_alloc = Some (rs, s)" "run_calls (exec_alloc E) ds s = Some (qs, s')"
    and "counts_ok (cs @ ds)"
  shows "live s \<subseteq> live s' \<and> blocks s \<subseteq>\<^sub>m blocks s'"
proof -
  have "counts_ok cs" "counts_ok ds" using assms(3) by (auto simp: counts_ok_def)
  then have "valloc_ok s" using exec_allocs [OF fresh_ok assms(1)] by blast
  then show ?thesis using exec_allocs [OF _ assms(2)] \<open>counts_ok ds\<close> by (auto simp: grown_def)
qed

theorem frames_never_released_witness:
  "\<exists>r1 r2 s1 s2 s3 qs. simple_alloc all_va_ok 1 (Some (decoder_frames 2)) fresh_alloc = Some (MFX_ERR_NONE, Some r1, s1) \<and>
    simple_alloc all_va_ok 1 (Some (vpp_frames 1)) s1 = Some (MFX_ERR_NONE, Some r2, s2) \<and>
    run_calls (exec_alloc all_va_ok) [Free 1 (Some r1), Free 1 (Some r2)] s2 = Some (qs, s3) \<and> card (live s2) = 3 \<and> live s2 \<subseteq> live s3"
proof -
  let ?cs = "[Alloc 1 (Some (decoder_frames 2)), Alloc 1 (Some (vpp_frames 1))]"
  obtain r1 s1 where 1: "simple_alloc all_va_ok 1 (Some (decoder_frames 2)) fresh_alloc = Some (MFX_ERR_NONE, Some r1, s1)"
    by (simp add: alloc_eval)
  then obtain r2 s2 where 2: "simple_alloc all_va_ok 1 (Some (vpp_frames 1)) s1 = Some (MFX_ERR_NONE, Some r2, s2)"
    by (auto simp: alloc_eval)
  have "live s2 = {0, 1, 3}" using 1 2 by (auto simp: alloc_eval)
  then have c: "card (live s2) = 3" by simp
  have run: "\<exists>rs. run_calls (exec_alloc all_va_ok) ?cs fresh_alloc = Some (rs, s2)" using 1 2 by simp
  have f: "\<exists>qs s3. run_calls (exec_alloc all_va_ok) [Free 1 (Some r1), Free 1 (Some r2)] s2 = Some (qs, s3)"
    using 1 2 by (auto simp: alloc_eval simple_free_def simple_free0_def)
  have "counts_ok (?cs @ [Free 1 (Some r1), Free 1 (Some r2)])" by (auto simp: counts_ok_def decoder_frames_def vpp_frames_def)
  with frames_never_released run f 1 2 c show ?thesis by metis
qed









end
