(* ===== verification/MediaFrames.thy ===== *)
theory MediaFrames
  imports Buffers
begin

text \<open>
  Moving picture data between buffers: the copies of the decoding threads and of the tracker
  (\<^verbatim>\<open>main.cpp\<close> 605-672, 823-850, 2335-2442), the frame headers (\<^verbatim>\<open>main.cpp\<close> 1483-1523) and the
  reading of the bit stream (\<^verbatim>\<open>common_utils.cpp\<close> 195-210). Memory is a list of bytes, a plane a
  position in it; a copy that leaves its buffer is undefined (\<open>None\<close>). Products of \<^verbatim>\<open>mfxU32\<close>
  counters wrap at 32 bits.
\<close>

section \<open>Copies\<close>

definition memcpy :: "'a list \<Rightarrow> int \<Rightarrow> 'a list \<Rightarrow> int \<Rightarrow> int \<Rightarrow> 'a list option" where
  "memcpy d doff s soff n = do { vs \<leftarrow> ld_run s soff n; st_run d doff vs }"

definition ru32 :: "int \<Rightarrow> int" where "ru32 v = v mod 2 ^ 32"

text \<open>\<open>n\<close> rows of \<open>w\<close> bytes, \<open>dw\<close> and \<open>pitch\<close> bytes apart.\<close>

definition copy_rows :: "int \<Rightarrow> int \<Rightarrow> int \<Rightarrow> 'a list \<Rightarrow> int \<Rightarrow> int \<Rightarrow> int \<Rightarrow> 'a list \<Rightarrow> 'a list option" where
  "copy_rows n w dw src soff pitch doff =
     for_loop 0 n (\<lambda>i d. memcpy d (doff + ru32 (i * dw)) src (soff + ru32 (i * pitch)) w)"

record 'a pic_surface =
  sWidth :: int
  sHeight :: int
  sCropX :: int
  sCropY :: int
  sCropW :: int
  sCropH :: int
  sPitch :: int
  sB :: int
  sG :: int
  sR :: int
  sY :: int
  sUV :: int
  sMem :: "'a list"

definition crop_size :: "'a pic_surface \<Rightarrow> int \<times> int" where
  "crop_size s = (if sCropH s > 0 \<and> sCropW s > 0 then (sCropW s, sCropH s) else (sWidth s, sHeight s))"

definition crop_at :: "'a pic_surface \<Rightarrow> int \<Rightarrow> int" where
  "crop_at s plane = plane + sCropX s + sCropY s * sPitch s"

text \<open>The three planes of a planar surface into the buffer of a frame. The first loop counts to the width.\<close>

definition decode_planes :: "'a pic_surface \<Rightarrow> 'a list \<Rightarrow> 'a list option" where
  "decode_planes s imgbuf = (let (w, h) = crop_size s in do {
     d1 \<leftarrow> copy_rows w w w (sMem s) (crop_at s (sB s)) (sPitch s) 0 imgbuf;
     d2 \<leftarrow> copy_rows h w w (sMem s) (crop_at s (sG s)) (sPitch s) (ru32 (w * h)) d1;
     copy_rows h w w (sMem s) (crop_at s (sR s)) (sPitch s) (ru32 (2 * w * h)) d2 })"

text \<open>The same for a packed surface of four bytes per pixel.\<close>

definition min3 :: "int \<Rightarrow> int \<Rightarrow> int \<Rightarrow> int" where "min3 a b c = min (min a b) c"

definition decode_packed :: "'a pic_surface \<Rightarrow> 'a list \<Rightarrow> 'a list option" where
  "decode_packed s imgbuf = (let (w, h) = crop_size s; p = crop_at s (min3 (sR s) (sG s) (sB s)) in
     for_loop 0 h (\<lambda>i. for_loop 0 w (\<lambda>j d0. do {
       b \<leftarrow> ld (sMem s) (p + i * sPitch s + j * 4);
       d1 \<leftarrow> st d0 (ru32 (i * w + j)) b;
       g \<leftarrow> ld (sMem s) (p + i * sPitch s + j * 4 + 1);
       d2 \<leftarrow> st d1 (ru32 (w * h) + ru32 (i * w + j)) g;
       r \<leftarrow> ld (sMem s) (p + i * sPitch s + j * 4 + 2);
       st d2 (ru32 (2 * w * h) + ru32 (i * w + j)) r })) imgbuf)"

text \<open>The planes of a picture of the software decoder (order G, B, R) into the frame (order R, G, B).\<close>

definition ff_planes :: "int \<Rightarrow> int \<Rightarrow> 'a list \<Rightarrow> int \<times> int \<times> int \<Rightarrow> int \<times> int \<times> int \<Rightarrow> 'a list \<Rightarrow> 'a list option" where
  "ff_planes w h mem data linesize imgbuf =
     (case (data, linesize) of ((data0, data1, data2), (ls0, ls1, ls2)) \<Rightarrow> do {
       d1 \<leftarrow> copy_rows w w w mem data2 ls0 0 imgbuf;
       d2 \<leftarrow> copy_rows h w w mem data0 ls1 (w * h) d1;
       copy_rows h w w mem data1 ls2 (2 * w * h) d2 })"

text \<open>\<^verbatim>\<open>createMat\<close>: the three planes become the channels of a matrix, in reverse order.\<close>

definition createMat :: "'a list \<Rightarrow> int \<Rightarrow> int \<Rightarrow> ('a \<times> 'a \<times> 'a) list option" where
  "createMat raw dimX dimY = do {
     r \<leftarrow> ld_run raw 0 (dimX * dimY);
     g \<leftarrow> ld_run raw (dimX * dimY) (dimX * dimY);
     b \<leftarrow> ld_run raw (2 * dimX * dimY) (dimX * dimY);
     Some (zip b (zip g r)) }"

section \<open>\<^verbatim>\<open>WriteRawFrameToMemory\<close>\<close>

datatype raw_format = RAW_RGBP | RAW_RGB4 | RAW_NV12 | RAW_other

text \<open>One byte to the next free place of the destination.\<close>

definition put_next :: "'a list \<Rightarrow> int \<Rightarrow> 'a list \<times> int \<Rightarrow> ('a list \<times> int) option" where
  "put_next src off = (\<lambda>(d, ipos). do { d1 \<leftarrow> memcpy d ipos src off 1; Some (d1, ipos + 1) })"

definition chroma :: "'a pic_surface \<Rightarrow> int \<Rightarrow> 'a list \<times> int \<Rightarrow> ('a list \<times> int) option" where
  "chroma s first = (let h = sCropH s div 2; w = sCropW s; n = (w - first + 1) div 2 in
     for_loop 0 h (\<lambda>i. for_loop 0 n (\<lambda>k. put_next (sMem s)
       (sUV s + (cquot (sCropY s * sPitch s) 2 + sCropX s) + ru32 (i * sPitch s) + (first + 2 * k)))))"

definition WriteRawFrameToMemory :: "'a pic_surface \<Rightarrow> int \<Rightarrow> int \<Rightarrow> raw_format \<Rightarrow> 'a list \<Rightarrow> 'a list option" where
  "WriteRawFrameToMemory s dest_w dest_h fourCC dest = (case fourCC of
       RAW_RGBP \<Rightarrow> do {
         d1 \<leftarrow> copy_rows dest_h dest_w dest_w (sMem s) (crop_at s (sB s)) (sPitch s) 0 dest;
         d2 \<leftarrow> copy_rows dest_h dest_w dest_w (sMem s) (crop_at s (sG s)) (sPitch s) (dest_w * dest_h) d1;
         copy_rows dest_h dest_w dest_w (sMem s) (crop_at s (sR s)) (sPitch s) (2 * dest_w * dest_h) d2 }
     | RAW_RGB4 \<Rightarrow>
         copy_rows dest_h (dest_w * 4) (dest_w * 4) (sMem s) (crop_at s (min3 (sR s) (sG s) (sB s))) (sPitch s) 0 dest
     | RAW_NV12 \<Rightarrow> do {
         d1 \<leftarrow> copy_rows (sCropH s) (sCropW s) (sCropW s) (sMem s) (sY s + (sCropY s * sPitch s + sCropX s)) (sPitch s) 0 dest;
         u \<leftarrow> chroma s 0 (d1, sCropH s * sCropW s);
         v \<leftarrow> chroma s 1 u;
         Some (fst v) }
     | RAW_other \<Rightarrow> Some dest)"

section \<open>Frame headers\<close>

definition alignment :: "int \<Rightarrow> int \<Rightarrow> int" where
  "alignment p alignto = alignto - p mod alignto"

definition VSOURCE_ALIGNMENT :: int where "VSOURCE_ALIGNMENT = 16"

text \<open>Where the pixels of a frame at address \<open>frame\<close> begin, and how many bytes are cleared.\<close>

definition vsource_frame_init :: "int \<Rightarrow> int \<Rightarrow> int \<Rightarrow> int \<Rightarrow> int \<times> int" where
  "vsource_frame_init sizeof_frame width height frame =
     (let p = frame + sizeof_frame in (p + alignment p VSOURCE_ALIGNMENT, width * height * 3))"

section \<open>The bit stream\<close>

record 'a mfxBitstream =
  bData :: "'a list"
  DataOffset :: nat
  DataLength :: nat

text \<open>The result says whether more data came; \<^verbatim>\<open>MaxLength\<close> is the length of the buffer and \<open>file\<close> what is left to read.\<close>

definition ReadBitStreamData :: "'a mfxBitstream \<Rightarrow> 'a list \<Rightarrow> (bool \<times> 'a mfxBitstream \<times> 'a list) option" where
  "ReadBitStreamData bs file =
     (if length (bData bs) < DataOffset bs + DataLength bs then None
      else
        let n = DataLength bs;
            kept = take n (drop (DataOffset bs) (bData bs));
            got = take (length (bData bs) - n) file;
            data1 = kept @ drop n (bData bs);
            data2 = kept @ got @ drop (n + length got) data1
        in Some (got \<noteq> [], bs\<lparr>bData := data2, DataOffset := 0, DataLength := n + length got\<rparr>, drop (length got) file))"

section \<open>Rows as scattered writes\<close>

lemma ru32_small: "0 \<le> x \<Longrightarrow> x < 4294967296 \<Longrightarrow> ru32 x = x"
  by (simp add: ru32_def)

lemma memcpy_wrote:
  assumes "0 \<le> doff" "0 \<le> soff" "0 \<le> n" "soff + n \<le> int (length s)" "length s \<le> 2 ^ 31" "doff + n \<le> int (length d)" "length d \<le> 2 ^ 31"
    and g: "\<And>k. 0 \<le> k \<Longrightarrow> k < n \<Longrightarrow> g (doff + k) = s ! nat (soff + k)"
  shows "\<exists>d'. memcpy d doff s soff n = Some d' \<and> wrote {doff..<doff + n} g d d'"
proof -
  let ?v = "map (\<lambda>k. s ! nat (soff + k)) [0..n - 1]"
  have "ld_run s soff n = Some ?v" using assms by (intro ld_run_eq) auto
  moreover have "\<exists>d'. st_run d doff ?v = Some d' \<and> wrote {doff..<doff + int (length ?v)} g d d'"
    using assms by (intro wrote_st_run) (simp_all add: nth_upto)
  ultimately show ?thesis using assms(3) by (auto simp: memcpy_def)
qed

lemma copy_rows_wrote:
  fixes s d :: "'a list"
  assumes nn: "0 \<le> n" "0 \<le> w" "w \<le> dw" "w \<le> pitch" "0 \<le> doff" "0 \<le> soff"
    and src: "n = 0 \<or> soff + (n - 1) * pitch + w \<le> int (length s)" "length s \<le> 2 ^ 31"
    and dst: "n = 0 \<or> doff + (n - 1) * dw + w \<le> int (length d)" "length d \<le> 2 ^ 31"
    and g: "\<And>i k. 0 \<le> i \<Longrightarrow> i < n \<Longrightarrow> 0 \<le> k \<Longrightarrow> k < w \<Longrightarrow> g (doff + i * dw + k) = s ! nat (soff + i * pitch + k)"
  shows "\<exists>d'. copy_rows n w dw s soff pitch doff d = Some d' \<and> wrote (\<Union>i\<in>{0..<n}. {doff + i * dw..<doff + i * dw + w}) g d d'"
  unfolding copy_rows_def
proof (rule wrote_for [where n = "length d"])
  fix i and e :: "'a list"
  assume i: "0 \<le> i" "i < n" and e: "length e = length d"
  have p: "i * dw \<le> (n - 1) * dw" "i * pitch \<le> (n - 1) * pitch" "0 \<le> i * dw" "0 \<le> i * pitch"
    using i nn by (auto intro!: mult_right_mono)
  then have b: "doff + i * dw + w \<le> int (length d)" "soff + i * pitch + w \<le> int (length s)" using src(1) dst(1) i by auto
  have m: "ru32 (i * dw) = i * dw" "ru32 (i * pitch) = i * pitch"
    using p b nn src(2) dst(2) by (auto intro!: ru32_small)
  show "\<exists>d'. memcpy e (doff + ru32 (i * dw)) s (soff + ru32 (i * pitch)) w = Some d' \<and> wrote {doff + i * dw..<doff + i * dw + w} g e d'"
    unfolding m using nn p b e src(2) dst(2) g i by (intro memcpy_wrote) simp_all
qed simp

text \<open>Dense rows fill an interval.\<close>

lemma dense_rows: "0 \<le> w \<Longrightarrow> 0 \<le> n \<Longrightarrow> (\<Union>i\<in>{0..<n}. {a + i * w..<a + i * w + w}) = {a..<a + n * w}" for a :: int
proof (intro equalityI subsetI)
  fix x assume w: "0 \<le> w" "0 \<le> n" and "x \<in> (\<Union>i\<in>{0..<n}. {a + i * w..<a + i * w + w})"
  then obtain i where i: "0 \<le> i" "i < n" "a + i * w \<le> x" "x < a + i * w + w" by auto
  have "i * w + w \<le> n * w" using i(1,2) w mult_right_mono [of "i + 1" n w] by (simp add: algebra_simps)
  moreover have "0 \<le> i * w" using i w by simp
  ultimately show "x \<in> {a..<a + n * w}" using i(3,4) by simp
next
  fix x assume w: "0 \<le> w" "0 \<le> n" and x: "x \<in> {a..<a + n * w}"
  then obtain i j where "x - a = i * w + j" "0 \<le> i" "i < n" "0 \<le> j" "j < w" using flat_cases [of "x - a" n w] by auto
  then show "x \<in> (\<Union>i\<in>{0..<n}. {a + i * w..<a + i * w + w})" by (intro UN_I [of i]) auto
qed

section \<open>Properties\<close>

definition plane_byte :: "'a pic_surface \<Rightarrow> int \<Rightarrow> int \<Rightarrow> int \<Rightarrow> 'a" where
  "plane_byte s p y x = sMem s ! nat (crop_at s p + y * sPitch s + x)"

text \<open>The rows of a plane that a copy of \<open>n\<close> rows reads lie inside the memory of the surface.\<close>

definition plane_ok :: "'a pic_surface \<Rightarrow> int \<Rightarrow> int \<Rightarrow> int \<Rightarrow> bool" where
  "plane_ok s p n w \<longleftrightarrow> 0 \<le> crop_at s p \<and> w \<le> sPitch s \<and> crop_at s p + (n - 1) * sPitch s + w \<le> int (length (sMem s))"

definition flat_byte :: "'a pic_surface \<Rightarrow> int \<Rightarrow> int \<Rightarrow> int \<Rightarrow> int \<Rightarrow> 'a" where
  "flat_byte s p off w k = plane_byte s p ((k - off) div w) ((k - off) mod w)"

lemma plane_copy:
  fixes d :: "'a list"
  assumes w: "0 < w" "0 \<le> n" and p: "plane_ok s p n w" "length (sMem s) \<le> 2 ^ 31"
    and d: "0 \<le> off" "off + n * w \<le> int (length d)" "length d \<le> 2 ^ 31"
  shows "\<exists>d'. copy_rows n w w (sMem s) (crop_at s p) (sPitch s) off d = Some d' \<and> wrote {off..<off + n * w} (flat_byte s p off w) d d'"
proof -
  have "\<exists>d'. copy_rows n w w (sMem s) (crop_at s p) (sPitch s) off d = Some d' \<and>
      wrote (\<Union>i\<in>{0..<n}. {off + i * w..<off + i * w + w}) (flat_byte s p off w) d d'"
  proof (rule copy_rows_wrote)
    show "n = 0 \<or> off + (n - 1) * w + w \<le> int (length d)" using d(2) by (simp add: algebra_simps)
    fix i k assume "0 \<le> i" "i < n" "0 \<le> k" "k < w"
    moreover have "off + i * w + k - off = i * w + k" by simp
    ultimately show "flat_byte s p off w (off + i * w + k) = sMem s ! nat (crop_at s p + i * sPitch s + k)"
      using flat_div [of k w i] by (simp only: flat_byte_def plane_byte_def)
  qed (use w p d in \<open>auto simp: plane_ok_def\<close>)
  then show ?thesis using dense_rows [of w n off] w by simp
qed

lemma createMat_pixels:
  assumes n: "0 \<le> w * h" "3 * (w * h) \<le> int (length d)" "length d \<le> 2 ^ 31" and k: "0 \<le> k" "k < w * h"
  shows "\<exists>px. createMat d w h = Some px \<and> length px = nat (w * h) \<and>
    px ! nat k = (d ! nat (2 * (w * h) + k), d ! nat (w * h + k), d ! nat k)"
proof -
  let ?m = "\<lambda>off. map (\<lambda>k. d ! nat (off + k)) [0..w * h - 1]"
  have "ld_run d 0 (w * h) = Some (?m 0)" "ld_run d (w * h) (w * h) = Some (?m (w * h))" "ld_run d (2 * w * h) (w * h) = Some (?m (2 * w * h))"
    using n by (intro ld_run_eq; simp add: algebra_simps)+
  then have c: "createMat d w h = Some (zip (?m (2 * w * h)) (zip (?m (w * h)) (?m 0)))" by (simp add: createMat_def)
  have "nat k < nat (w * h)" using k by simp
  then have "zip (?m (2 * w * h)) (zip (?m (w * h)) (?m 0)) ! nat k = (d ! nat (2 * (w * h) + k), d ! nat (w * h + k), d ! nat k)"
    using k by (simp add: nth_upto algebra_simps)
  then show ?thesis using c by simp
qed

text \<open>The place that \<^verbatim>\<open>vsource_frame_init\<close> gives the pixels in a buffer of \<open>sizeof + 4wh\<close> bytes.\<close>

definition room :: "int \<Rightarrow> int \<Rightarrow> int \<Rightarrow> int \<Rightarrow> int" where
  "room sz w h frame = frame + sz + 4 * (w * h) - fst (vsource_frame_init sz w h frame)"

lemma frame_room:
  assumes "16 \<le> w * h"
  shows "snd (vsource_frame_init sz w h frame) \<le> room sz w h frame" "fst (vsource_frame_init sz w h frame) mod 16 = 0"
    "room sz w h frame < 4 * (w * h)"
proof -
  let ?p = "frame + sz"
  have m: "0 \<le> ?p mod 16" "?p mod 16 < 16" by simp_all
  show "snd (vsource_frame_init sz w h frame) \<le> room sz w h frame" "room sz w h frame < 4 * (w * h)"
    using assms m by (simp_all add: room_def vsource_frame_init_def alignment_def VSOURCE_ALIGNMENT_def Let_def algebra_simps)
  have "(?p + (16 - ?p mod 16)) mod 16 = 0" by presburger
  then show "fst (vsource_frame_init sz w h frame) mod 16 = 0"
    by (simp add: vsource_frame_init_def alignment_def VSOURCE_ALIGNMENT_def Let_def)
qed

text \<open>C16. A frame of a pipe has room for three planes at a multiple of 16, and the matrix made from it after a decoded
  surface has been copied has at each pixel the bytes of the R, G and B plane of the surface, except that
  the third is stale in the rows beyond the width, because the first loop counts to the width.\<close>

theorem decoded_frame_pixels:
  fixes s :: "'a pic_surface"
  assumes "16 \<le> w * h" "0 < w" "0 < h" "crop_size s = (w, h)" "int (length imgbuf) = room sz w h frame" "w * w \<le> int (length imgbuf)"
    and "plane_ok s (sB s) w w" "plane_ok s (sG s) h w" "plane_ok s (sR s) h w" "length (sMem s) \<le> 2 ^ 31" "4 * (w * h) \<le> 2 ^ 31"
    and "0 \<le> y" "y < h" "0 \<le> x" "x < w"
  shows "fst (vsource_frame_init sz w h frame) mod 16 = 0 \<and>
    (\<exists>d px. decode_planes s imgbuf = Some d \<and> createMat d w h = Some px \<and> length px = nat (w * h) \<and>
      px ! nat (y * w + x) = (plane_byte s (sR s) y x, plane_byte s (sG s) y x,
        if y < w then plane_byte s (sB s) y x else imgbuf ! nat (y * w + x)))"
proof -
  let ?n = "w * h" and ?k = "y * w + x"
  have k: "0 \<le> ?k" "?k < ?n" using flat_bound [of y h x w] assms by (simp_all add: mult.commute)
  have "?n * 3 \<le> int (length imgbuf)"
    using frame_room(1) [OF assms(1), of sz frame] assms(5) by (simp add: vsource_frame_init_def Let_def)
  moreover have "int (length imgbuf) \<le> 2 ^ 31" using frame_room(3) [OF assms(1), of sz frame] assms(5,11) by linarith
  ultimately have len: "3 * ?n \<le> int (length imgbuf)" "length imgbuf \<le> 2 ^ 31" by simp_all
  obtain d1 where d1: "copy_rows w w w (sMem s) (crop_at s (sB s)) (sPitch s) 0 imgbuf = Some d1"
    "wrote {0..<0 + w * w} (flat_byte s (sB s) 0 w) imgbuf d1"
    using plane_copy [OF assms(2) _ assms(7,10), of 0 imgbuf] assms(2,6) len by auto
  obtain d2 where d2: "copy_rows h w w (sMem s) (crop_at s (sG s)) (sPitch s) ?n d1 = Some d2"
    "wrote {?n..<?n + h * w} (flat_byte s (sG s) ?n w) d1 d2"
    using plane_copy [OF assms(2) _ assms(8,10), of ?n d1] assms(2,3) len wrote_length [OF d1(2)] by (auto simp: mult.commute)
  obtain d3 where d3: "copy_rows h w w (sMem s) (crop_at s (sR s)) (sPitch s) (2 * ?n) d2 = Some d3"
    "wrote {2 * ?n..<2 * ?n + h * w} (flat_byte s (sR s) (2 * ?n) w) d2 d3"
    using plane_copy [OF assms(2) _ assms(9,10), of "2 * ?n" d2] assms(2,3) len wrote_length [OF d1(2)] wrote_length [OF d2(2)]
    by (auto simp: mult.commute)
  have l: "length d1 = length imgbuf" "length d2 = length imgbuf" "length d3 = length imgbuf"
    using wrote_length [OF d1(2)] wrote_length [OF d2(2)] wrote_length [OF d3(2)] by simp_all
  have "4 * ?n \<le> 2147483648" using assms(11) by simp
  then have "0 \<le> ?n" "?n < 4294967296" "0 \<le> 2 * ?n" "2 * ?n < 4294967296" using assms(1) by linarith+
  then have "ru32 ?n = ?n" "ru32 (2 * ?n) = 2 * ?n" by (simp_all only: ru32_small)
  then have run: "decode_planes s imgbuf = Some d3" using d1(1) d2(1) d3(1) assms(4) by (simp add: decode_planes_def mult.assoc)
  have fb: "flat_byte s p off w (off + ?k) = plane_byte s p y x" for p off
    using flat_div [of x w y] assms by (simp add: flat_byte_def)
  have v3: "d3 ! nat (2 * ?n + ?k) = plane_byte s (sR s) y x"
    using wrote_nth [OF d3(2), of "nat (2 * ?n + ?k)"] fb [of "sR s" "2 * ?n"] k len l by (simp add: mult.commute)
  have v2: "d3 ! nat (?n + ?k) = plane_byte s (sG s) y x"
    using wrote_nth [OF d3(2), of "nat (?n + ?k)"] wrote_nth [OF d2(2), of "nat (?n + ?k)"] fb [of "sG s" ?n] k len l
    by (simp add: mult.commute)
  have "d3 ! nat ?k = d1 ! nat ?k"
    using wrote_nth [OF d3(2), of "nat ?k"] wrote_nth [OF d2(2), of "nat ?k"] k len l by simp
  moreover have "?k < w * w \<longleftrightarrow> y < w"
  proof (cases "y < w")
    case True
    then show ?thesis using flat_bound(2) [of y w x w] assms(12,14,15) by simp
  next
    case False
    then have "w * w \<le> y * w" using assms(2) by (intro mult_right_mono) auto
    then show ?thesis using False assms(14) by linarith
  qed
  ultimately have v1: "d3 ! nat ?k = (if y < w then plane_byte s (sB s) y x else imgbuf ! nat ?k)"
    using wrote_nth [OF d1(2), of "nat ?k"] fb [of "sB s" 0] k len by simp
  obtain px where "createMat d3 w h = Some px" "length px = nat ?n" "px ! nat ?k = (d3 ! nat (2 * ?n + ?k), d3 ! nat (?n + ?k), d3 ! nat ?k)"
    using createMat_pixels [of w h d3 ?k] k len l by auto
  then show ?thesis unfolding v1 v2 v3 using run frame_room(2) [OF assms(1)] by blast
qed

definition demo_planar :: "nat pic_surface" where
  "demo_planar = \<lparr>sWidth = 4, sHeight = 4, sCropX = 0, sCropY = 0, sCropW = 4, sCropH = 4, sPitch = 4, sB = 0, sG = 16, sR = 32,
     sY = 0, sUV = 0, sMem = [0..<48]\<rparr>"

theorem decoded_frame_pixels_witness:
  "\<exists>d px. decode_planes demo_planar (replicate 48 0) = Some d \<and> createMat d 4 4 = Some px \<and> px ! 11 = (43, 27, 11)"
proof -
  have "16 \<le> (4 :: int) * 4" "crop_size demo_planar = (4, 4)" "int (length (replicate 48 (0 :: nat))) = room 160 4 4 0"
    "4 * 4 \<le> int (length (replicate 48 (0 :: nat)))" "plane_ok demo_planar (sB demo_planar) 4 4" "plane_ok demo_planar (sG demo_planar) 4 4"
    "plane_ok demo_planar (sR demo_planar) 4 4" "length (sMem demo_planar) \<le> 2 ^ 31" "4 * (4 * 4) \<le> (2 :: int) ^ 31"
    by (simp_all add: crop_size_def demo_planar_def plane_ok_def crop_at_def room_def vsource_frame_init_def alignment_def VSOURCE_ALIGNMENT_def Let_def)
  from decoded_frame_pixels [OF this(1) _ _ this(2-9), of 2 3]
  show ?thesis by (auto simp: plane_byte_def crop_at_def demo_planar_def)
qed

text \<open>The packing of a list of bytes, one by one, is a run of stores.\<close>

lemma for_loop_pairs:
  "for_loop 0 h (\<lambda>i. for_loop 0 n (\<lambda>k. f i k)) s = foldm (\<lambda>(i, k). f i k) (List.product [0..h - 1] [0..n - 1]) s"
proof -
  have in1: "foldm (\<lambda>(i, k). f i k) (map (Pair i) ks) s = foldm (f i) ks s" for i ks s
    by (induction ks arbitrary: s) (auto split: option.splits)
  have "foldm (\<lambda>i. foldm (f i) ks) us s = foldm (\<lambda>(i, k). f i k) (List.product us ks) s" for us ks s
    by (induction us arbitrary: s) (auto simp: foldm_append in1 split: option.splits)
  then show ?thesis unfolding for_loop_def [abs_def] by simp
qed

lemma put_next_fold:
  assumes "\<forall>x\<in>set xs. 0 \<le> off x \<and> off x < int (length src)" "length src \<le> 2 ^ 31"
    and "0 \<le> p" "p + int (length xs) \<le> int (length d)" "length d \<le> 2 ^ 31"
  shows "\<exists>d'. foldm (\<lambda>x. put_next src (off x)) xs (d, p) = Some (d', p + int (length xs)) \<and>
    st_run d p (map (\<lambda>x. src ! nat (off x)) xs) = Some d'"
  using assms
proof (induction xs arbitrary: d p)
  case (Cons x xs)
  let ?v = "src ! nat (off x)" and ?d = "d[nat p := src ! nat (off x)]"
  have s: "st d p ?v = Some ?d" using Cons.prems by (auto simp: st_def int_ok_def)
  have "ld_run src (off x) 1 = Some [?v]" using Cons.prems by (subst ld_run_eq) (auto simp: upto_rec1)
  then have "put_next src (off x) (d, p) = Some (?d, p + 1)" using s by (simp add: put_next_def memcpy_def)
  moreover obtain d' where "foldm (\<lambda>x. put_next src (off x)) xs (?d, p + 1) = Some (d', p + 1 + int (length xs))"
    "st_run ?d (p + 1) (map (\<lambda>x. src ! nat (off x)) xs) = Some d'" using Cons.IH [of "p + 1" ?d] Cons.prems by auto
  ultimately show ?case using s by (simp add: add.assoc add.commute)
qed simp

lemma nth_product_int:
  assumes "0 \<le> i" "i < h" "0 \<le> k" "k < n"
  shows "List.product [0..h - 1] [0..n - 1] ! nat (i * n + k) = (i, k)" "nat (i * n + k) < length (List.product [0..h - 1] [0..n - 1])"
proof -
  have b: "0 \<le> i * n + k" "i * n + k < h * n" using flat_bound [OF assms] by simp_all
  have n: "nat (i * n + k) = nat i * nat n + nat k" using assms by (simp add: nat_add_distrib nat_mult_distrib)
  have kn: "nat k < nat n" using assms by simp
  show l: "nat (i * n + k) < length (List.product [0..h - 1] [0..n - 1])"
    using b assms by (simp add: nat_mult_distrib [symmetric] nat_less_iff)
  show "List.product [0..h - 1] [0..n - 1] ! nat (i * n + k) = (i, k)"
    using l assms kn unfolding n by (subst product_nth) (simp_all add: nth_upto)
qed

text \<open>One of the two passes over the chroma rows.\<close>

lemma chroma_pass:
  fixes d :: "'a list"
  assumes w: "0 \<le> sCropW s" "0 \<le> first" "first \<le> 1" "n = (sCropW s - first + 1) div 2" "h = sCropH s div 2" "0 \<le> n" "0 \<le> h"
    and src: "0 \<le> base" "base = sUV s + (cquot (sCropY s * sPitch s) 2 + sCropX s)" "sCropW s \<le> sPitch s"
      "h = 0 \<or> base + (h - 1) * sPitch s + sCropW s \<le> int (length (sMem s))" "length (sMem s) \<le> 2 ^ 31"
    and dst: "0 \<le> p" "p + h * n \<le> int (length d)" "length d \<le> 2 ^ 31"
  shows "\<exists>d'. chroma s first (d, p) = Some (d', p + h * n) \<and>
    wrote {p..<p + h * n} (\<lambda>q. sMem s ! nat (base + (q - p) div n * sPitch s + (first + 2 * ((q - p) mod n)))) d d'"
proof -
  let ?xs = "List.product [0..h - 1] [0..n - 1]" and ?off = "\<lambda>(i, k). base + ru32 (i * sPitch s) + (first + 2 * k)"
  have "chroma s first = for_loop 0 h (\<lambda>i. for_loop 0 n (\<lambda>k. put_next (sMem s) (base + ru32 (i * sPitch s) + (first + 2 * k))))"
    by (simp add: chroma_def w(4,5) src(2) Let_def)
  then have c: "chroma s first (d, p) = foldm (\<lambda>x. put_next (sMem s) (?off x)) ?xs (d, p)"
    by (simp add: for_loop_pairs split_def)
  have inb: "0 \<le> i * sPitch s \<and> ru32 (i * sPitch s) = i * sPitch s \<and> base + i * sPitch s + (first + 2 * k) < int (length (sMem s))"
    if "0 \<le> i" "i < h" "0 \<le> k" "k < n" for i k
  proof -
    define m where "m = (h - 1) * sPitch s"
    have "i * sPitch s \<le> m" "0 \<le> i * sPitch s" using that w(1) src(3) by (auto simp: m_def intro!: mult_right_mono)
    moreover have "first + 2 * k < sCropW s" using that w by simp
    moreover have "base + m + sCropW s \<le> int (length (sMem s))" "int (length (sMem s)) \<le> 2147483648" using that src by (auto simp: m_def)
    ultimately have "0 \<le> i * sPitch s" "i * sPitch s < 4294967296" "base + i * sPitch s + (first + 2 * k) < int (length (sMem s))"
      using src(1) w(1) by linarith+
    then show ?thesis using ru32_small [of "i * sPitch s"] by simp
  qed
  have lx: "int (length ?xs) = h * n" using w by simp
  have "\<forall>x\<in>set ?xs. 0 \<le> ?off x \<and> ?off x < int (length (sMem s))" using inb w src(1) by fastforce
  then obtain d' where d': "foldm (\<lambda>x. put_next (sMem s) (?off x)) ?xs (d, p) = Some (d', p + h * n)"
    "st_run d p (map (\<lambda>x. sMem s ! nat (?off x)) ?xs) = Some d'"
    using put_next_fold [of ?xs ?off "sMem s" p d] src(5) dst lx by auto
  let ?g = "\<lambda>q. sMem s ! nat (base + (q - p) div n * sPitch s + (first + 2 * ((q - p) mod n)))"
  have "\<exists>e. st_run d p (map (\<lambda>x. sMem s ! nat (?off x)) ?xs) = Some e \<and>
     wrote {p..<p + int (length (map (\<lambda>x. sMem s ! nat (?off x)) ?xs))} ?g d e"
  proof (rule wrote_st_run)
    fix q assume q: "q < length (map (\<lambda>x. sMem s ! nat (?off x)) ?xs)"
    then have "q < length ?xs" by (simp only: length_map)
    then have "int q < h * n" using lx by linarith
    then obtain i k where ik: "int q = i * n + k" "0 \<le> i" "i < h" "0 \<le> k" "k < n" using flat_cases [of "int q" h n] w by auto
    have "q = nat (i * n + k)" using ik(1) by simp
    then have "?xs ! q = (i, k)" "q < length ?xs" using nth_product_int [OF ik(2-5)] by simp_all
    then show "?g (p + int q) = map (\<lambda>x. sMem s ! nat (?off x)) ?xs ! q"
      using inb [OF ik(2-5)] flat_div [OF ik(4,5), of i] by (simp add: ik(1))
  qed (use dst lx in simp_all)
  then show ?thesis using c d' lx by auto
qed

definition uv_at :: "'a pic_surface \<Rightarrow> int" where
  "uv_at s = sUV s + (cquot (sCropY s * sPitch s) 2 + sCropX s)"

text \<open>C36. The tracker's copy of an NV12 surface of even size is the planar I420 picture that the colour conversion expects:
  the rows of the luma plane, then a quarter as many U bytes (the even ones of the interleaved chroma
  plane), then the V bytes (the odd ones).\<close>

theorem nv12_to_i420:
  fixes s :: "'a pic_surface"
  assumes "sCropW s = 2 * cw" "sCropH s = 2 * ch" "0 < cw" "0 < ch" "length (sMem s) \<le> 2 ^ 31"
    and "0 \<le> sY s + (sCropY s * sPitch s + sCropX s)" "sCropW s \<le> sPitch s"
    and "sY s + (sCropY s * sPitch s + sCropX s) + (sCropH s - 1) * sPitch s + sCropW s \<le> int (length (sMem s))"
    and "0 \<le> uv_at s" "uv_at s + (ch - 1) * sPitch s + sCropW s \<le> int (length (sMem s))"
    and "6 * (cw * ch) \<le> int (length dest)" "length dest \<le> 2 ^ 31"
  shows "\<exists>d. WriteRawFrameToMemory s dw dh RAW_NV12 dest = Some d \<and> length d = length dest \<and>
    (\<forall>y x. 0 \<le> y \<and> y < 2 * ch \<and> 0 \<le> x \<and> x < 2 * cw \<longrightarrow>
       d ! nat (y * (2 * cw) + x) = sMem s ! nat (sY s + (sCropY s * sPitch s + sCropX s) + y * sPitch s + x)) \<and>
    (\<forall>y x. 0 \<le> y \<and> y < ch \<and> 0 \<le> x \<and> x < cw \<longrightarrow>
       d ! nat (4 * (cw * ch) + (y * cw + x)) = sMem s ! nat (uv_at s + y * sPitch s + 2 * x) \<and>
       d ! nat (5 * (cw * ch) + (y * cw + x)) = sMem s ! nat (uv_at s + y * sPitch s + (1 + 2 * x)))"
proof -
  let ?yo = "sY s + (sCropY s * sPitch s + sCropX s)" and ?w = "2 * cw" and ?h = "2 * ch" and ?n = "cw * ch"
  let ?gy = "\<lambda>k. sMem s ! nat (?yo + (k div ?w) * sPitch s + k mod ?w)"
  let ?gc = "\<lambda>f p q. sMem s ! nat (uv_at s + (q - p) div cw * sPitch s + (f + 2 * ((q - p) mod cw)))"
  have n4: "?h * ?w = 4 * ?n" "ch * cw = ?n" by (simp_all add: algebra_simps)
  have "\<exists>d1. copy_rows ?h ?w ?w (sMem s) ?yo (sPitch s) 0 dest = Some d1 \<and> wrote (\<Union>i\<in>{0..<?h}. {0 + i * ?w..<0 + i * ?w + ?w}) ?gy dest d1"
  proof (rule copy_rows_wrote)
    show "?h = 0 \<or> 0 + (?h - 1) * ?w + ?w \<le> int (length dest)" using assms(3,4,11) by (simp add: algebra_simps)
    show "?h = 0 \<or> ?yo + (?h - 1) * sPitch s + ?w \<le> int (length (sMem s))" using assms(1,2,8) by simp
    fix i k assume "0 \<le> i" "i < ?h" "0 \<le> k" "k < ?w"
    then show "?gy (0 + i * ?w + k) = sMem s ! nat (?yo + i * sPitch s + k)" using flat_div [of k ?w i] by simp
  qed (use assms in auto)
  then obtain d1 where d1: "copy_rows ?h ?w ?w (sMem s) ?yo (sPitch s) 0 dest = Some d1" "wrote {0..<0 + ?h * ?w} ?gy dest d1"
    using dense_rows [of ?w ?h 0] assms(3,4) by auto
  have l1: "length d1 = length dest" using wrote_length [OF d1(2)] .
  have n0: "0 < ?n" using assms(3,4) by simp
  then have r: "5 * (ch * cw) \<le> int (length dest)" "6 * (ch * cw) \<le> int (length dest)" using assms(11) n4 by linarith+
  have "\<exists>u. chroma s 0 (d1, 4 * ?n) = Some (u, 4 * ?n + ch * cw) \<and> wrote {4 * ?n..<4 * ?n + ch * cw} (?gc 0 (4 * ?n)) d1 u"
    by (rule chroma_pass [where base = "uv_at s"]) (use assms l1 r in \<open>simp_all add: uv_at_def mult.commute\<close>)
  then obtain u where u: "chroma s 0 (d1, 4 * ?n) = Some (u, 5 * ?n)" "wrote {4 * ?n..<5 * ?n} (?gc 0 (4 * ?n)) d1 u"
    by (auto simp: n4(2))
  have l2: "length u = length dest" using wrote_length [OF u(2)] l1 by simp
  have "\<exists>v. chroma s 1 (u, 5 * ?n) = Some (v, 5 * ?n + ch * cw) \<and> wrote {5 * ?n..<5 * ?n + ch * cw} (?gc 1 (5 * ?n)) u v"
    by (rule chroma_pass [where base = "uv_at s"]) (use assms l2 r in \<open>simp_all add: uv_at_def mult.commute\<close>)
  then obtain v where v: "chroma s 1 (u, 5 * ?n) = Some (v, 6 * ?n)" "wrote {5 * ?n..<6 * ?n} (?gc 1 (5 * ?n)) u v"
    by (auto simp: n4(2))
  have run: "WriteRawFrameToMemory s dw dh RAW_NV12 dest = Some v"
    using d1(1) u(1) v(1) assms(1,2) by (simp add: WriteRawFrameToMemory_def n4)
  have l3: "length v = length dest" using wrote_length [OF v(2)] l2 by simp
  have Y: "v ! nat (y * ?w + x) = sMem s ! nat (?yo + y * sPitch s + x)" if "0 \<le> y" "y < ?h" "0 \<le> x" "x < ?w" for y x
  proof -
    have b: "0 \<le> y * ?w + x" "y * ?w + x < 4 * ?n" using flat_bound [OF that] n4 by simp_all
    then have i: "nat (y * ?w + x) < length dest" using assms(11) n0 by linarith
    have "v ! nat (y * ?w + x) = d1 ! nat (y * ?w + x)"
      using wrote_nth [OF v(2), of "nat (y * ?w + x)"] wrote_nth [OF u(2), of "nat (y * ?w + x)"] i b n0 l1 l2 by simp
    then show ?thesis using wrote_nth [OF d1(2) i] b n4 flat_div [of x ?w y] that by simp
  qed
  have C: "4 * ?n + (y * cw + x) < 5 * ?n" "0 \<le> y * cw + x" "(y * cw + x) div cw = y" "(y * cw + x) mod cw = x"
    if "0 \<le> y" "y < ch" "0 \<le> x" "x < cw" for y x
    using flat_bound [OF that] flat_div [OF that(3,4), of y] by (simp_all add: mult.commute)
  have U: "v ! nat (4 * ?n + (y * cw + x)) = sMem s ! nat (uv_at s + y * sPitch s + 2 * x)"
    if yx: "0 \<le> y" "y < ch" "0 \<le> x" "x < cw" for y x
  proof -
    let ?i = "nat (4 * ?n + (y * cw + x))"
    have i: "?i < length dest" "int ?i = 4 * ?n + (y * cw + x)" using C [OF yx] assms(11) n0 by linarith+
    have "v ! ?i = u ! ?i" using wrote_nth [OF v(2), of ?i] i C(1) [OF yx] l2 by simp
    then show ?thesis using wrote_nth [OF u(2), of ?i] i C [OF yx] l1 by simp
  qed
  have V: "v ! nat (5 * ?n + (y * cw + x)) = sMem s ! nat (uv_at s + y * sPitch s + (1 + 2 * x))"
    if yx: "0 \<le> y" "y < ch" "0 \<le> x" "x < cw" for y x
  proof -
    let ?i = "nat (5 * ?n + (y * cw + x))"
    have "?i < length dest" "int ?i = 5 * ?n + (y * cw + x)" using C [OF yx] assms(11) n0 by linarith+
    then show ?thesis using wrote_nth [OF v(2), of ?i] C [OF yx] l2 by simp
  qed
  show ?thesis using run l3 Y U V by blast
qed

definition demo_nv12 :: "nat pic_surface" where
  "demo_nv12 = \<lparr>sWidth = 2, sHeight = 2, sCropX = 0, sCropY = 0, sCropW = 2, sCropH = 2, sPitch = 2, sB = 0, sG = 0, sR = 0,
     sY = 0, sUV = 4, sMem = [10, 11, 12, 13, 20, 21]\<rparr>"

theorem nv12_to_i420_witness:
  "\<exists>d. WriteRawFrameToMemory demo_nv12 2 2 RAW_NV12 (replicate 6 0) = Some d \<and> d ! 3 = 13 \<and> d ! 4 = 20 \<and> d ! 5 = 21"
proof -
  have c: "cquot 0 2 = 0" by (simp add: cquot_def)
  have "sCropW demo_nv12 = 2 * 1" "sCropH demo_nv12 = 2 * 1" "0 < (1 :: int)" "0 < (1 :: int)" "length (sMem demo_nv12) \<le> 2 ^ 31"
    "0 \<le> sY demo_nv12 + (sCropY demo_nv12 * sPitch demo_nv12 + sCropX demo_nv12)" "sCropW demo_nv12 \<le> sPitch demo_nv12"
    "sY demo_nv12 + (sCropY demo_nv12 * sPitch demo_nv12 + sCropX demo_nv12) + (sCropH demo_nv12 - 1) * sPitch demo_nv12 + sCropW demo_nv12 \<le> int (length (sMem demo_nv12))"
    "0 \<le> uv_at demo_nv12" "uv_at demo_nv12 + (1 - 1) * sPitch demo_nv12 + sCropW demo_nv12 \<le> int (length (sMem demo_nv12))"
    "6 * (1 * 1) \<le> int (length (replicate 6 (0 :: nat)))" "length (replicate 6 (0 :: nat)) \<le> 2 ^ 31"
    by (simp_all add: demo_nv12_def uv_at_def c)
  from nv12_to_i420 [OF this, of 2 2] obtain d where d: "WriteRawFrameToMemory demo_nv12 2 2 RAW_NV12 (replicate 6 0) = Some d"
    "\<forall>y x. 0 \<le> y \<and> y < 2 * 1 \<and> 0 \<le> x \<and> x < 2 * 1 \<longrightarrow>
       d ! nat (y * (2 * 1) + x) = sMem demo_nv12 ! nat (sY demo_nv12 + (sCropY demo_nv12 * sPitch demo_nv12 + sCropX demo_nv12) + y * sPitch demo_nv12 + x)"
    "\<forall>y x. 0 \<le> y \<and> y < 1 \<and> 0 \<le> x \<and> x < 1 \<longrightarrow>
       d ! nat (4 * (1 * 1) + (y * 1 + x)) = sMem demo_nv12 ! nat (uv_at demo_nv12 + y * sPitch demo_nv12 + 2 * x) \<and>
       d ! nat (5 * (1 * 1) + (y * 1 + x)) = sMem demo_nv12 ! nat (uv_at demo_nv12 + y * sPitch demo_nv12 + (1 + 2 * x))" by blast
  have "d ! 3 = 13" using spec [OF spec [OF d(2), of 1], of 1] by (simp add: demo_nv12_def eval_nat_numeral)
  moreover have "d ! 4 = 20 \<and> d ! 5 = 21" using spec [OF spec [OF d(3), of 0], of 0] by (simp add: demo_nv12_def uv_at_def c eval_nat_numeral)
  ultimately show ?thesis using d(1) by blast
qed

text \<open>C37. Reading the bit stream loses and repeats nothing: what waits in the buffer followed by what is left of the
  file stays the same, the waiting bytes move to the front of the buffer, and it is filled as far as
  the file goes. Without room or at the end of the file the call reports that no data came.\<close>

theorem ReadBitStreamData_stream:
  assumes "DataOffset bs + DataLength bs \<le> length (bData bs)"
  shows "\<exists>more bs' file'. ReadBitStreamData bs file = Some (more, bs', file') \<and> DataOffset bs' = 0 \<and>
    length (bData bs') = length (bData bs) \<and> DataLength bs' \<le> length (bData bs) \<and>
    take (DataLength bs') (bData bs') @ file' = take (DataLength bs) (drop (DataOffset bs) (bData bs)) @ file \<and>
    DataLength bs' = min (length (bData bs)) (DataLength bs + length file) \<and>
    (more \<longleftrightarrow> file \<noteq> [] \<and> DataLength bs < length (bData bs))"
proof -
  let ?n = "DataLength bs" and ?L = "length (bData bs)"
  define kept where "kept = take ?n (drop (DataOffset bs) (bData bs))"
  define got where "got = take (?L - ?n) file"
  define data2 where "data2 = kept @ got @ drop (?n + length got) (kept @ drop ?n (bData bs))"
  have lk: "length kept = ?n" using assms by (simp add: kept_def)
  have lg: "length got = min (?L - ?n) (length file)" "?n + length got \<le> ?L" using assms by (auto simp: got_def)
  have ld: "length data2 = ?L" using assms lk lg(2) by (simp add: data2_def)
  have r: "ReadBitStreamData bs file = Some (got \<noteq> [], bs\<lparr>bData := data2, DataOffset := 0, DataLength := ?n + length got\<rparr>, drop (length got) file)"
    unfolding ReadBitStreamData_def Let_def kept_def got_def data2_def using assms by (subst if_not_P) simp_all
  have "take (?n + length got) data2 = kept @ got" using lk by (simp add: data2_def)
  moreover have "got @ drop (length got) file = file" by (simp add: got_def min_def)
  moreover have "got \<noteq> [] \<longleftrightarrow> file \<noteq> [] \<and> ?n < ?L" using assms by (auto simp: got_def)
  moreover have "?n + length got = min ?L (?n + length file)" using assms lg(1) by linarith
  ultimately show ?thesis using r ld lg(2) unfolding kept_def by simp
qed

theorem ReadBitStreamData_stream_witness:
  "\<exists>more bs' file'. ReadBitStreamData \<lparr>bData = [0, 1, 2, 3, 4 :: nat], DataOffset = 2, DataLength = 2\<rparr> [7, 8, 9, 10] = Some (more, bs', file') \<and>
    take (DataLength bs') (bData bs') @ file' = [2, 3, 7, 8, 9, 10]"
  using ReadBitStreamData_stream [of "\<lparr>bData = [0, 1, 2, 3, 4 :: nat], DataOffset = 2, DataLength = 2\<rparr>" "[7, 8, 9, 10]"] by auto

end
