(* ===== verification/Pipeline.thy ===== *)
theory Pipeline
  imports Dpipe Detector
begin

text \<open>
  The threads of \<^verbatim>\<open>video_analytics_example/main.cpp\<close>: one \<^verbatim>\<open>DecodeThreadFunc\<close> per channel, the
  scheduler \<^verbatim>\<open>ScheduleThreadFunc\<close> that feeds the detector, \<^verbatim>\<open>DisplayThreadFunc\<close> at the end of
  the result queue, and \<^verbatim>\<open>main\<close>, which creates them. They share the frame pipes of \<^theory_text>\<open>Dpipe\<close>, the
  frames in the buffers, two semaphores and the result queue. A step is what one thread does up to
  its next access to shared state; a schedule is the list of the threads that step. \<open>None\<close> is undefined
  behaviour; a thread that has to wait leaves the state unchanged. Counters are unbounded.
\<close>

section \<open>State\<close>

text \<open>The frame description in a buffer (\<^verbatim>\<open>vsource_frame_t\<close>), with the picture at \<^verbatim>\<open>imgbuf\<close>.\<close>

record vframe =
  vf_channel :: int
  vf_frameno :: int
  vf_image :: det_img

text \<open>What the media library answers for one decoded frame: a picture after video processing, a
  request for more data, or an error.\<close>

datatype vpp_answer = Vpp_frame det_img | Vpp_more_data | Vpp_error

datatype dec_pc = D_decode | D_get | D_tag ptr | D_image ptr | D_store ptr | D_post | D_done

record decoder =
  d_pc :: dec_pc
  nFrameProcessed :: nat
  d_surface :: det_img

datatype sched_pc = S_none | S_wait | S_load nat | S_copy nat ptr | S_put nat ptr det_img
  | S_insert nat ptr det_img | S_show nat | S_thrown string

datatype main_pc = M_decoders nat | M_sem | M_scheduler | M_pause

record 'req pstate =
  heap :: world
  frames :: "ptr \<Rightarrow> vframe"
  decs :: "decoder list"
  spc :: sched_pc
  mpc :: main_pc
  gNewtaskAvaiable :: nat
  det :: "'req detector"
  last_objects :: "det_result list"
  submitted :: "frame list"
  each_frame :: "int list"
  gresultque :: "det_result list list"
  g_semtshow :: nat
  shown :: "det_result list list"

record 'req penv =
  vdpipe :: "ptr list"
  stream :: "nat \<Rightarrow> nat \<Rightarrow> vpp_answer"
  engine :: "'req engine"
  FLAGS_show :: bool

datatype thread = Dec nat | Sched | Main | Display

definition INPUTNUM :: nat where "INPUTNUM = 6"

section \<open>The decoding thread\<close>

text \<open>
  \<^verbatim>\<open>D_decode\<close>: a frame is decoded and counted, and handed to the video processor. \<^verbatim>\<open>D_get\<close>: a round
  of \<^verbatim>\<open>dpipe_get\<close>. \<^verbatim>\<open>D_tag\<close>, \<^verbatim>\<open>D_image\<close>: the description and the picture are written into the
  buffer. \<^verbatim>\<open>D_store\<close>, \<^verbatim>\<open>D_post\<close>: the buffer goes to the scheduler, which is woken.
\<close>

definition upd_dec :: "nat \<Rightarrow> decoder \<Rightarrow> 'req pstate \<Rightarrow> 'req pstate" where
  "upd_dec c d g = g\<lparr>decs := (decs g)[c := d]\<rparr>"

definition dec_step :: "'req penv \<Rightarrow> nat \<Rightarrow> 'req pstate \<Rightarrow> 'req pstate option" where
  "dec_step E c g =
     (let d = decs g ! c; p = vdpipe E ! c in
      case d_pc d of
        D_decode \<Rightarrow> Some (upd_dec c (case stream E c (nFrameProcessed d) of
            Vpp_frame img \<Rightarrow> d\<lparr>d_pc := D_get, nFrameProcessed := nFrameProcessed d + 1, d_surface := img\<rparr>
          | Vpp_more_data \<Rightarrow> d\<lparr>nFrameProcessed := nFrameProcessed d + 1\<rparr>
          | Vpp_error \<Rightarrow> d\<lparr>d_pc := D_done, nFrameProcessed := nFrameProcessed d + 1\<rparr>) g)
      | D_get \<Rightarrow> do {
          (r, w) \<leftarrow> dpipe_get_round p (heap g);
          Some (case r of
              Again \<Rightarrow> g
            | Got b \<Rightarrow> upd_dec c (d\<lparr>d_pc := (if b = null then D_done else D_tag b)\<rparr>) (g\<lparr>heap := w\<rparr>)) }
      | D_tag b \<Rightarrow> Some (upd_dec c (d\<lparr>d_pc := D_image b\<rparr>)
          (g\<lparr>frames := (frames g)(b := (frames g b)
             \<lparr>vf_channel := int c, vf_frameno := int (nFrameProcessed d)\<rparr>)\<rparr>))
      | D_image b \<Rightarrow> Some (upd_dec c (d\<lparr>d_pc := D_store b\<rparr>)
          (g\<lparr>frames := (frames g)(b := (frames g b)\<lparr>vf_image := d_surface d\<rparr>)\<rparr>))
      | D_store b \<Rightarrow> do {
          w \<leftarrow> dpipe_store p b (heap g);
          Some (upd_dec c (d\<lparr>d_pc := D_post\<rparr>) (g\<lparr>heap := w\<rparr>)) }
      | D_post \<Rightarrow> Some (upd_dec c (d\<lparr>d_pc := D_decode\<rparr>)
          (g\<lparr>gNewtaskAvaiable := gNewtaskAvaiable g + 1\<rparr>))
      | D_done \<Rightarrow> Some g)"

section \<open>The scheduler\<close>

text \<open>The results of a batch: one count per frame in the array \<^verbatim>\<open>each_frame\<close> of \<^verbatim>\<open>INPUTNUM\<close> entries.\<close>

fun count_frames :: "det_result list \<Rightarrow> int list \<Rightarrow> int list option" where
  "count_frames [] ef = Some ef"
| "count_frames (r # rs) ef =
     (let i = res_inputid r in
      if i < 0 \<or> int (length ef) \<le> i then None
      else count_frames rs (ef[nat i := ef ! nat i + 1]))"

definition next_pipe :: "'req penv \<Rightarrow> nat \<Rightarrow> sched_pc" where
  "next_pipe E i = (if Suc i < length (vdpipe E) then S_load (Suc i) else S_wait)"

text \<open>
  \<^verbatim>\<open>S_wait\<close>: \<^verbatim>\<open>sem_wait\<close>. \<^verbatim>\<open>S_load\<close>: \<^verbatim>\<open>dpipe_load\<close> without a deadline, which returns only with a
  frame. \<^verbatim>\<open>S_copy\<close>, \<^verbatim>\<open>S_put\<close>: the picture is copied and the buffer goes back to the pool.
  \<^verbatim>\<open>S_insert\<close>: \<^verbatim>\<open>InsertImage\<close> with the channel and the frame number that the buffer holds at that
  moment, and the treatment of its results. \<^verbatim>\<open>S_show\<close>: the wait for the display.
\<close>

definition sched_step :: "'req penv \<Rightarrow> 'req pstate \<Rightarrow> 'req pstate option" where
  "sched_step E g = (case spc g of
       S_none \<Rightarrow> Some g
     | S_wait \<Rightarrow> Some (if gNewtaskAvaiable g = 0 then g
         else g\<lparr>gNewtaskAvaiable := gNewtaskAvaiable g - 1,
                 spc := (if vdpipe E = [] then S_wait else S_load 0)\<rparr>)
     | S_load i \<Rightarrow> do {
         (r, w) \<leftarrow> dpipe_load [] (vdpipe E ! i) False (heap g);
         Some (case r of None \<Rightarrow> g | Some b \<Rightarrow> g\<lparr>heap := w, spc := S_copy i b\<rparr>) }
     | S_copy i b \<Rightarrow> Some (g\<lparr>spc := S_put i b (vf_image (frames g b))\<rparr>)
     | S_put i b img \<Rightarrow> do {
         w \<leftarrow> dpipe_put (vdpipe E ! i) b (heap g);
         Some (g\<lparr>heap := w, spc := S_insert i b img\<rparr>) }
     | S_insert i b img \<Rightarrow> do {
         let f = (img, vf_channel (frames g b), vf_frameno (frames g b), 0);
         (r, D) \<leftarrow> InsertImage (engine E) img (last_objects g) (vf_channel (frames g b))
            (vf_frameno (frames g b)) 0 (det g);
         let g1 = g\<lparr>det := D, submitted := submitted g @ [f]\<rparr>;
         case r of
           Inl e \<Rightarrow> Some (g1\<lparr>spc := S_thrown e\<rparr>)
         | Inr (faceret, objs) \<Rightarrow>
             if faceret = INSERTIMG_GET \<or> faceret = INSERTIMG_PROCESSED then do {
               ef \<leftarrow> count_frames objs (each_frame g);
               let g2 = g1\<lparr>last_objects := objs, each_frame := ef\<rparr>;
               Some (if faceret = INSERTIMG_GET \<and> FLAGS_show E
                 then g2\<lparr>gresultque := gresultque g2 @ [objs], g_semtshow := g_semtshow g2 + 1,
                          spc := S_show i\<rparr>
                 else g2\<lparr>spc := next_pipe E i\<rparr>) }
             else Some (g1\<lparr>last_objects := objs, spc := next_pipe E i\<rparr>) }
     | S_show i \<Rightarrow> Some (if length (gresultque g) \<ge> 2 then g else g\<lparr>spc := next_pipe E i\<rparr>)
     | S_thrown e \<Rightarrow> Some g)"

section \<open>The display and the main thread\<close>

definition display_step :: "'req pstate \<Rightarrow> 'req pstate" where
  "display_step g =
     (if g_semtshow g = 0 then g
      else case gresultque g of
          [] \<Rightarrow> g\<lparr>g_semtshow := g_semtshow g - 1\<rparr>
        | q # qs \<Rightarrow> g\<lparr>g_semtshow := g_semtshow g - 1, gresultque := qs, shown := shown g @ [q]\<rparr>)"

text \<open>\<^verbatim>\<open>main\<close> starts a decoding thread per channel, then sets the semaphore to zero, then starts the
  scheduler.\<close>

definition new_decoder :: decoder where
  "new_decoder = \<lparr>d_pc = D_decode, nFrameProcessed = 0, d_surface = \<lparr>cols = 0, rows = 0, planes = []\<rparr>\<rparr>"

definition main_step :: "'req penv \<Rightarrow> 'req pstate \<Rightarrow> 'req pstate" where
  "main_step E g = (case mpc g of
       M_decoders n \<Rightarrow> if n < length (vdpipe E)
         then g\<lparr>decs := decs g @ [new_decoder], mpc := M_decoders (n + 1)\<rparr>
         else g\<lparr>mpc := M_sem\<rparr>
     | M_sem \<Rightarrow> g\<lparr>gNewtaskAvaiable := 0, mpc := M_scheduler\<rparr>
     | M_scheduler \<Rightarrow> g\<lparr>spc := S_wait, mpc := M_pause\<rparr>
     | M_pause \<Rightarrow> g)"

text \<open>An uncaught exception ends the process; a thread that does not exist yet does not step.\<close>

definition pstep :: "'req penv \<Rightarrow> thread \<Rightarrow> 'req pstate \<Rightarrow> 'req pstate option" where
  "pstep E t g = (case spc g of S_thrown e \<Rightarrow> Some g | _ \<Rightarrow>
     (case t of
        Dec c \<Rightarrow> if c < length (decs g) then dec_step E c g else Some g
      | Sched \<Rightarrow> sched_step E g
      | Main \<Rightarrow> Some (main_step E g)
      | Display \<Rightarrow> Some (display_step g)))"

fun psteps :: "'req penv \<Rightarrow> thread list \<Rightarrow> 'req pstate \<Rightarrow> 'req pstate option" where
  "psteps E [] g = Some g"
| "psteps E (t # ts) g = do { g1 \<leftarrow> pstep E t g; psteps E ts g1 }"

definition boot :: "world \<Rightarrow> 'req detector \<Rightarrow> (ptr \<Rightarrow> vframe) \<Rightarrow> 'req pstate" where
  "boot w D fr = \<lparr>heap = w, frames = fr, decs = [], spc = S_none, mpc = M_decoders 0,
     gNewtaskAvaiable = 0, det = D, last_objects = [], submitted = [], each_frame = replicate INPUTNUM 0,
     gresultque = [], g_semtshow = 0, shown = []\<rparr>"

section \<open>Several pipes in one heap\<close>

definition pools_rel :: "ptr list \<Rightarrow> world \<Rightarrow> pool list \<Rightarrow> bool" where
  "pools_rel ps w S \<longleftrightarrow> length S = length ps \<and> distinct ps \<and> (\<forall>c < length ps. pool_rel (ps ! c) w (S ! c)) \<and>
     (\<forall>c < length ps. \<forall>c' < length ps. c \<noteq> c' \<longrightarrow> all_bufs (S ! c) \<inter> all_bufs (S ! c') = {})"

lemma pool_exec_same:
  assumes "pool_rel p w s" and "pool_spec c s = Some (r, s')" and "pool_exec p c w = Some (r, w')"
  shows "same_but p (all_bufs s) w w'"
proof -
  have ok: "pool_ok w p (p_free s) (p_queue s)" and g: "start w = p_start s"
    and held: "null \<notin> p_held s" "p_held s \<subseteq> dom (bufs w)" "p_held s \<inter> set (p_free s @ p_queue s) = {}"
    using assms(1) by (auto simp: pool_rel_def)
  have mono: "same_but p B w w' \<Longrightarrow> B \<subseteq> all_bufs s \<Longrightarrow> same_but p (all_bufs s) w w'" for B
    by (auto simp: same_but_def)
  show ?thesis
  proof (cases c)
    case Get
    show ?thesis
    proof (cases "p_free s")
      case (Cons b bs)
      with get_round_free ok obtain w1 where "dpipe_get_round p w = Some (Got b, w1)" "same_but p {b} w w1" by metis
      with assms(3) Get Cons show ?thesis by (intro mono) (auto simp: all_bufs_def)
    next
      case Nil
      note empty = get_round_empty [OF ok [unfolded Nil]]
      show ?thesis
      proof (cases "p_start s \<or> p_queue s = []")
        case True
        with empty(1,2) g assms(3) Get show ?thesis by auto
      next
        case False
        then obtain b bs where q: "p_queue s = b # bs" by (cases "p_queue s") auto
        with empty(3) False g obtain w1 where "dpipe_get_round p w = Some (Got b, w1)" "same_but p {b} w w1" by auto
        with assms(3) Get q show ?thesis by (intro mono) (auto simp: all_bufs_def)
      qed
    qed
  next
    case (Put b)
    with assms(2) have b: "b \<in> p_held s" by (auto split: if_splits)
    with put_ok [OF ok, of b] held obtain w1 where "dpipe_put p b w = Some w1" "same_but p {b} w w1" by blast
    with assms(3) Put b show ?thesis by (intro mono) (auto simp: all_bufs_def)
  next
    case Load
    show ?thesis
    proof (cases "p_queue s")
      case Nil
      with load_empty ok assms(3) Load show ?thesis by fastforce
    next
      case (Cons b bs)
      with load_ok ok obtain w1 where "dpipe_load_nowait p w = Some (b, w1)" "same_but p {b} w w1" by metis
      with assms(3) Load Cons show ?thesis by (intro mono) (auto simp: all_bufs_def)
    qed
  next
    case (Store b)
    with assms(2) have b: "b \<in> p_held s" by (auto split: if_splits)
    with store_ok [OF ok, of b] held obtain w1 where "dpipe_store p b w = Some w1"
      "same_but p (insert b (set (p_queue s))) w w1" by blast
    with assms(3) Store b show ?thesis by (intro mono) (auto simp: all_bufs_def)
  qed
qed

lemma pools_step:
  assumes "pools_rel ps w S" and c: "c < length ps" and "pool_spec op (S ! c) = Some (r, s')"
  shows "\<exists>w'. pool_exec (ps ! c) op w = Some (r, w') \<and> pools_rel ps w' (S[c := s']) \<and>
    all_bufs s' = all_bufs (S ! c) \<and> start w' = start w"
proof -
  have rel: "pool_rel (ps ! c) w (S ! c)" and d: "distinct ps" and l: "length S = length ps"
    using assms(1,2) by (auto simp: pools_rel_def)
  from pool_rel_step [OF rel assms(3)] obtain w' where w': "pool_exec (ps ! c) op w = Some (r, w')" "pool_rel (ps ! c) w' s'"
    by blast
  have same: "same_but (ps ! c) (all_bufs (S ! c)) w w'" by (rule pool_exec_same [OF rel assms(3) w'(1)])
  have ab: "all_bufs s' = all_bufs (S ! c)" using pool_spec_wf [OF pool_rel_wf [OF rel] assms(3)] by simp
  have others: "pool_rel (ps ! c') w' (S ! c')" if "c' < length ps" "c' \<noteq> c" for c'
  proof -
    have r': "pool_rel (ps ! c') w (S ! c')" and dis: "all_bufs (S ! c) \<inter> all_bufs (S ! c') = {}"
      using assms(1) that c by (auto simp: pools_rel_def)
    have "ps ! c \<noteq> ps ! c'" using d c that by (simp add: nth_eq_iff_index_eq)
    then have "pool_ok w' (ps ! c') (p_free (S ! c')) (p_queue (S ! c'))"
      using r' dis by (intro pool_ok_other [OF same]) (auto simp: pool_rel_def all_bufs_def)
    then show ?thesis using r' same_but_start [OF same] same_but_dom [OF same] by (simp add: pool_rel_def)
  qed
  have "pools_rel ps w' (S[c := s'])"
    unfolding pools_rel_def
  proof (intro conjI allI impI)
    fix a assume "a < length ps"
    then show "pool_rel (ps ! a) w' (S[c := s'] ! a)" using w'(2) others l by (cases "a = c") simp_all
  next
    fix a b assume "a < length ps" "b < length ps" "a \<noteq> b"
    then show "all_bufs (S[c := s'] ! a) \<inter> all_bufs (S[c := s'] ! b) = {}"
      using assms(1) ab l by (cases "a = c"; cases "b = c") (simp_all add: pools_rel_def)
  qed (use l d in simp_all)
  then show ?thesis using w'(1) ab same_but_start [OF same] by blast
qed

end
