(* ===== verification/PipelineFacts.thy ===== *)
theory PipelineFacts
  imports Pipeline
begin

text \<open>
  What the threads of the pipeline keep under every schedule: the pipes stay well formed and no buffer
  is lost, the scheduler serves the channels in strict rotation and in the order of their frames, and
  the detector is called as its specification demands.
\<close>

section \<open>Turns and outputs\<close>

text \<open>How many of the first \<open>m\<close> turns of a rotation over \<open>N\<close> channels belong to channel \<open>c\<close>.\<close>

definition turns :: "nat \<Rightarrow> nat \<Rightarrow> nat \<Rightarrow> nat" where
  "turns N m c = m div N + (if c < m mod N then 1 else 0)"

lemma turns_Suc: "c < N \<Longrightarrow> turns N (Suc m) c = turns N m c + (if m mod N = c then 1 else 0)"
  by (auto simp: turns_def div_Suc mod_Suc)

lemma turns_0 [simp]: "turns N 0 c = 0"
  by (simp add: turns_def)

lemma turns_own: "turns N m (m mod N) = m div N"
  by (simp add: turns_def)

text \<open>The pictures a channel has delivered after \<open>n\<close> decoded frames, with their frame numbers.\<close>

fun outputs :: "(nat \<Rightarrow> vpp_answer) \<Rightarrow> nat \<Rightarrow> (int \<times> det_img) list" where
  "outputs f 0 = []"
| "outputs f (Suc n) = outputs f n @ (case f n of Vpp_frame img \<Rightarrow> [(int (Suc n), img)] | _ \<Rightarrow> [])"

lemma outputs_bound: "x \<in> set (outputs f n) \<Longrightarrow> fst x \<le> int n"
  by (induction n) (force split: vpp_answer.splits)+

lemma outputs_fits:
  "(\<And>n img. f n = Vpp_frame img \<Longrightarrow> Q img) \<Longrightarrow> x \<in> set (outputs f n) \<Longrightarrow> Q (snd x)"
  by (induction n) (auto split: vpp_answer.splits)

section \<open>The detector\<close>

lemma parse_rows_ids:
  "parse_rows nb osz k result objects got = Some (objects', got') \<Longrightarrow> map res_inputid objects' = map res_inputid objects"
proof (induction nb osz k result objects got arbitrary: objects' got' rule: parse_rows.induct)
  case (2 nb osz k result objects got)
  show ?case
  proof (cases "\<exists>imgid. f2i (result ! 0) = Some imgid \<and> (imgid < 0 \<or> result ! 2 = 0 \<or> imgid > nb)")
    case True
    with "2.prems" show ?thesis by (auto split: if_splits)
  next
    case False
    with "2.prems" obtain imgid b where i: "f2i (result ! 0) = Some imgid" "\<not> int (length objects) \<le> imgid"
      "\<not> (imgid < 0 \<or> result ! 2 = 0 \<or> imgid > nb)" "\<not> (length result < 7 \<or> int (length result) < osz)"
      and b: "scaled_box result (fst (imgsize (objects ! nat imgid))) (snd (imgsize (objects ! nat imgid))) = Some b"
      and r: "parse_rows nb osz k (drop (nat osz) result)
        (objects[nat imgid := (objects ! nat imgid)\<lparr>boxs := boxs (objects ! nat imgid) @ [b]\<rparr>]) True = Some (objects', got')"
      by (auto simp: Let_def split: if_splits Option.bind_splits)
    have lt: "nat imgid < length objects" using i by linarith
    have "map res_inputid (objects[nat imgid := (objects ! nat imgid)\<lparr>boxs := boxs (objects ! nat imgid) @ [b]\<rparr>])
      = map res_inputid objects"
      using lt by (simp add: map_update list_update_same_conv)
    with "2.IH" [OF i(4,1,3,2) refl b r] show ?thesis by simp
  qed
qed simp

text \<open>The network answers a batch with image numbers and boxes that \<^verbatim>\<open>ParseNetworkOutput\<close> accepts.\<close>

definition net_ok :: "(u8 list \<Rightarrow> f32 list) \<Rightarrow> det_params \<Rightarrow> bool" where
  "net_ok net P \<longleftrightarrow> (\<forall>blob rs. length rs = p_batch P \<and> (\<forall>r \<in> set rs. imgsize r = (p_width P, p_height P)) \<longrightarrow>
     parse_rows (int (p_batch P)) (p_size P) (p_proposals P) (net blob) rs False \<noteq> None)"

definition answer_ok :: "frame list \<Rightarrow> string + (insert_status \<times> det_result list) \<Rightarrow> bool" where
  "answer_ok hist r \<longleftrightarrow> (\<exists>status objs. r = Inr (status, objs) \<and> status \<noteq> INSERTIMG_NULL \<and>
     (\<forall>ob \<in> set objs. \<exists>f \<in> set hist. res_inputid ob = fst (snd f)))"

lemma det_spec_total:
  assumes "net_ok net P" and "fits P f" and "0 < p_batch P" and hist: "\<forall>f \<in> set hist. fits P f"
  shows "\<exists>r. det_spec net P f hist = Some (r, hist @ [f]) \<and> answer_ok (hist @ [f]) r"
proof -
  let ?h = "hist @ [f]" and ?B = "p_batch P"
  let ?done = "length ?h div ?B"
  show ?thesis
  proof (cases "length ?h mod ?B \<noteq> 0 \<or> ?done < lag P")
    case True
    then show ?thesis using assms(2) by (auto simp: det_spec_def answer_ok_def Let_def)
  next
    case False
    define batch where "batch = nth_batch ?B (?done - lag P) ?h"
    have lag: "0 < lag P" by (simp add: lag_def)
    have "Suc (?done - lag P) \<le> ?done" using False lag by linarith
    then have "Suc (?done - lag P) * ?B \<le> ?done * ?B" by (rule mult_le_mono1)
    also have "\<dots> \<le> length ?h" by (rule div_times_less_eq_dividend)
    finally have len: "length batch = ?B" by (simp add: batch_def nth_batch_def)
    have sub: "set batch \<subseteq> set ?h" unfolding batch_def nth_batch_def by (meson order_trans set_drop_subset set_take_subset)
    let ?rs = "map (blank_result \<circ> frame_info) batch"
    have "\<forall>r \<in> set ?rs. imgsize r = (p_width P, p_height P)"
      using sub hist assms(2) by (fastforce simp: blank_result_def frame_info_def image_info_of_def fits_def)
    then obtain objs got where p: "parse_rows (int ?B) (p_size P) (p_proposals P) (net (batch_blob batch)) ?rs False = Some (objs, got)"
      using assms(1) len unfolding net_ok_def by (metis length_map not_Some_eq surj_pair)
    have ids: "map res_inputid objs = map (fst \<circ> snd) batch"
      using parse_rows_ids [OF p] by (auto simp: blank_result_def frame_info_def image_info_of_def)
    have "\<exists>f \<in> set ?h. res_inputid ob = fst (snd f)" if "ob \<in> set objs" for ob
    proof -
      have "res_inputid ob \<in> set (map res_inputid objs)" using that by simp
      then show ?thesis unfolding ids using sub by auto
    qed
    then show ?thesis using p False assms(2) unfolding batch_def
      by (auto simp: det_spec_def answer_ok_def Let_def)
  qed
qed

lemma InsertImage_objects:
  assumes "InsertImage G img [] i n c D = Some (Inr (status, objs), D')" and "status \<noteq> INSERTIMG_NULL"
  shows "InsertImage G img os i n c D = Some (Inr (status, if status = INSERTIMG_INSERTED then os else objs), D')"
  using assms
  by (auto simp: InsertImage_def finish_batch_def collect_def Let_def split: if_splits Option.bind_splits sum.splits)

lemma detector_call:
  assumes rel: "det_rel G net P D hist" and net: "net_ok net P" and f: "fits P (img, i, n, c)"
    and hist: "\<forall>f \<in> set hist. fits P f"
  shows "\<exists>status objs D'. InsertImage G img os i n c D = Some (Inr (status, objs), D') \<and> status \<noteq> INSERTIMG_NULL \<and>
    det_rel G net P D' (hist @ [(img, i, n, c)]) \<and>
    (status \<noteq> INSERTIMG_INSERTED \<longrightarrow> (\<forall>ob \<in> set objs. \<exists>f \<in> set (hist @ [(img, i, n, c)]). res_inputid ob = fst (snd f)))"
proof -
  have B: "0 < p_batch P" using rel by (simp add: det_rel_def Let_def)
  obtain r where r: "det_spec net P (img, i, n, c) hist = Some (r, hist @ [(img, i, n, c)])"
    "answer_ok (hist @ [(img, i, n, c)]) r"
    using det_spec_total [OF net f B hist] by blast
  from det.step [OF rel r(1)] obtain D' where D': "det_exec G (img, i, n, c) D = Some (r, D')"
    "det_rel G net P D' (hist @ [(img, i, n, c)])" by blast
  from r(2) obtain status objs where st: "r = Inr (status, objs)" "status \<noteq> INSERTIMG_NULL"
    "\<forall>ob \<in> set objs. \<exists>f \<in> set (hist @ [(img, i, n, c)]). res_inputid ob = fst (snd f)"
    by (auto simp: answer_ok_def)
  have "InsertImage G img os i n c D = Some (Inr (status, if status = INSERTIMG_INSERTED then os else objs), D')"
    using D'(1) st by (intro InsertImage_objects) (simp_all add: det_exec_def)
  then show ?thesis using st D'(2) by auto
qed

lemma count_frames_total:
  assumes "\<forall>ob \<in> set rs. 0 \<le> res_inputid ob \<and> res_inputid ob < int (length ef)"
  shows "\<exists>ef'. count_frames rs ef = Some ef' \<and> length ef' = length ef"
  using assms
proof (induction rs arbitrary: ef)
  case (Cons a rs)
  show ?case using Cons.IH [of "ef[nat (res_inputid a) := ef ! nat (res_inputid a) + 1]"] Cons.prems
    by (auto simp: Let_def)
qed simp

lemma count_frames_length: "count_frames rs ef = Some ef' \<Longrightarrow> length ef' = length ef"
  by (induction rs arbitrary: ef) (fastforce simp: Let_def split: if_splits)+

section \<open>The state of one channel\<close>

text \<open>The buffers that the decoder and the scheduler hold, and the frame the scheduler has taken but not
  yet submitted.\<close>

fun dec_bufs :: "dec_pc \<Rightarrow> ptr set" where
  "dec_bufs (D_tag b) = {b}"
| "dec_bufs (D_image b) = {b}"
| "dec_bufs (D_store b) = {b}"
| "dec_bufs _ = {}"

fun sched_bufs :: "sched_pc \<Rightarrow> nat \<Rightarrow> ptr set" where
  "sched_bufs (S_copy i b) c = (if i = c then {b} else {})"
| "sched_bufs (S_put i b img) c = (if i = c then {b} else {})"
| "sched_bufs _ c = {}"

fun taken :: "sched_pc \<Rightarrow> nat \<Rightarrow> nat" where
  "taken (S_copy i b) c = (if i = c then 1 else 0)"
| "taken (S_put i b img) c = (if i = c then 1 else 0)"
| "taken (S_insert i b img) c = (if i = c then 1 else 0)"
| "taken _ c = 0"

text \<open>The frames a decoder has stored; the last picture may still be on its way into a buffer.\<close>

fun in_flight :: "dec_pc \<Rightarrow> bool" where
  "in_flight D_get = True"
| "in_flight (D_tag b) = True"
| "in_flight (D_image b) = True"
| "in_flight (D_store b) = True"
| "in_flight _ = False"

definition stored_frames :: "(nat \<Rightarrow> vpp_answer) \<Rightarrow> decoder \<Rightarrow> (int \<times> det_img) list" where
  "stored_frames f d = (let os = outputs f (nFrameProcessed d) in if in_flight (d_pc d) then butlast os else os)"

definition content :: "(ptr \<Rightarrow> vframe) \<Rightarrow> ptr \<Rightarrow> int \<times> det_img" where
  "content fr b = (vf_frameno (fr b), vf_image (fr b))"

fun dec_data :: "dec_pc \<Rightarrow> int \<Rightarrow> int \<Rightarrow> det_img \<Rightarrow> (ptr \<Rightarrow> vframe) \<Rightarrow> bool" where
  "dec_data (D_image b) c n img fr = (vf_channel (fr b) = c \<and> vf_frameno (fr b) = n)"
| "dec_data (D_store b) c n img fr = (vf_channel (fr b) = c \<and> content fr b = (n, img))"
| "dec_data _ c n img fr = True"

fun sched_data :: "sched_pc \<Rightarrow> nat \<Rightarrow> ptr set \<Rightarrow> int \<times> det_img \<Rightarrow> (ptr \<Rightarrow> vframe) \<Rightarrow> bool" where
  "sched_data (S_copy i b) c B x fr = (i = c \<longrightarrow> vf_channel (fr b) = int c \<and> content fr b = x)"
| "sched_data (S_put i b img) c B x fr = (i = c \<longrightarrow> vf_channel (fr b) = int c \<and> vf_frameno (fr b) = fst x \<and> img = snd x)"
| "sched_data (S_insert i b img) c B x fr = (i = c \<longrightarrow> b \<in> B \<and> vf_channel (fr b) = int c \<and> fst x \<le> vf_frameno (fr b) \<and> img = snd x)"
| "sched_data _ c B x fr = True"

definition chan_ok ::
  "(nat \<Rightarrow> vpp_answer) \<Rightarrow> nat \<Rightarrow> decoder \<Rightarrow> sched_pc \<Rightarrow> nat \<Rightarrow> (ptr \<Rightarrow> vframe) \<Rightarrow> pool \<Rightarrow> bool" where
  "chan_ok f c d sp t fr s \<longleftrightarrow>
     (let os = stored_frames f d; k = t + taken sp c in
      pool_wf s \<and> p_held s = dec_bufs (d_pc d) \<union> sched_bufs sp c \<and> dec_bufs (d_pc d) \<inter> sched_bufs sp c = {} \<and>
      k \<le> length os \<and> map (content fr) (p_queue s) = drop k os \<and>
      (\<forall>b \<in> set (p_queue s). vf_channel (fr b) = int c) \<and>
      (in_flight (d_pc d) \<longrightarrow> outputs f (nFrameProcessed d) = os @ [(int (nFrameProcessed d), d_surface d)]) \<and>
      dec_data (d_pc d) (int c) (int (nFrameProcessed d)) (d_surface d) fr \<and>
      sched_data sp c (all_bufs s) (os ! t) fr)"

lemma content_cong: "fr b = fr' b \<Longrightarrow> content fr b = content fr' b"
  by (simp add: content_def)

lemma stored_frames_bound: "x \<in> set (stored_frames f d) \<Longrightarrow> fst x \<le> int (nFrameProcessed d)"
  by (auto simp: stored_frames_def Let_def dest: outputs_bound in_set_butlastD split: if_splits)

lemma stored_frames_prefix: "\<exists>xs. outputs f (nFrameProcessed d) = stored_frames f d @ xs"
  by (cases "outputs f (nFrameProcessed d)" rule: rev_cases) (auto simp: stored_frames_def Let_def)

lemma chan_ok_frames:
  assumes "chan_ok f c d sp t fr s" and "\<And>b. b \<in> all_bufs s \<Longrightarrow> fr' b = fr b"
  shows "chan_ok f c d sp t fr' s"
proof -
  have q: "\<And>b. b \<in> set (p_queue s) \<Longrightarrow> fr' b = fr b" and h: "\<And>b. b \<in> p_held s \<Longrightarrow> fr' b = fr b"
    using assms(2) by (auto simp: all_bufs_def)
  have "map (content fr') (p_queue s) = map (content fr) (p_queue s)" using q by (simp add: content_def)
  then show ?thesis using assms q h
    by (cases "d_pc d"; cases sp) (auto simp: chan_ok_def Let_def content_def)
qed

text \<open>A scheduler that is busy with another pipe.\<close>

lemma chan_ok_away:
  assumes "chan_ok f c d sp t fr s" and "taken sp c = 0" "taken sp' c = 0"
  shows "chan_ok f c d sp' t fr s"
proof -
  have "sched_bufs sp c = {}" "sched_bufs sp' c = {}" "\<And>B x. sched_data sp' c B x fr"
    using assms(2,3) by (cases sp; cases sp'; auto split: if_splits)+
  then show ?thesis using assms by (simp add: chan_ok_def Let_def)
qed


section \<open>The steps of one channel\<close>

lemma chan_decode:
  assumes "chan_ok f c d sp t fr s" and "d_pc d = D_decode"
  shows "chan_ok f c (case f (nFrameProcessed d) of
            Vpp_frame img \<Rightarrow> d\<lparr>d_pc := D_get, nFrameProcessed := nFrameProcessed d + 1, d_surface := img\<rparr>
          | Vpp_more_data \<Rightarrow> d\<lparr>nFrameProcessed := nFrameProcessed d + 1\<rparr>
          | Vpp_error \<Rightarrow> d\<lparr>d_pc := D_done, nFrameProcessed := nFrameProcessed d + 1\<rparr>) sp t fr s"
  using assms by (cases "f (nFrameProcessed d)") (auto simp: chan_ok_def stored_frames_def Let_def)

lemma chan_get:
  assumes "chan_ok f c d sp t fr s" and "d_pc d = D_get" and "pool_spec Get s = Some (Got b, s')" and "p_start s" "b \<noteq> null"
  shows "chan_ok f c (d\<lparr>d_pc := D_tag b\<rparr>) sp t fr s'"
proof -
  obtain bs where s: "p_free s = b # bs" "s' = s\<lparr>p_free := bs, p_held := insert b (p_held s)\<rparr>"
    using assms(3,4) by (auto split: list.splits)
  have "all_bufs s' = all_bufs s" using s by (auto simp: all_bufs_def)
  then show ?thesis using assms(1,2) s
    by (auto simp: chan_ok_def stored_frames_def Let_def pool_wf_def)
qed

lemma stored_nth_bound:
  assumes "chan_ok f c d sp t fr s" and "0 < taken sp c"
  shows "fst (stored_frames f d ! t) \<le> int (nFrameProcessed d)"
proof -
  have "t < length (stored_frames f d)" using assms by (auto simp: chan_ok_def Let_def)
  then show ?thesis by (intro stored_frames_bound [of _ f]) simp
qed

lemma held_not_queued:
  assumes "chan_ok f c d sp t fr s" and "b \<in> dec_bufs (d_pc d)"
  shows "b \<notin> set (p_queue s)" and "b \<notin> sched_bufs sp c"
  using assms by (auto simp: chan_ok_def pool_wf_def Let_def)

lemma chan_write:
  assumes ok: "chan_ok f c d sp t fr s" and b: "b \<in> dec_bufs (d_pc d)"
    and pc: "dec_bufs pc = dec_bufs (d_pc d)" "in_flight pc" "in_flight (d_pc d)"
    and v: "vf_channel v = int c" "vf_frameno v = int (nFrameProcessed d)"
    and data: "dec_data pc (int c) (int (nFrameProcessed d)) (d_surface d) (fr(b := v))"
  shows "chan_ok f c (d\<lparr>d_pc := pc\<rparr>) sp t (fr(b := v)) s"
proof -
  note n = held_not_queued [OF ok b]
  have st: "stored_frames f (d\<lparr>d_pc := pc\<rparr>) = stored_frames f d" using pc by (simp add: stored_frames_def)
  have q: "map (content (fr(b := v))) (p_queue s) = map (content fr) (p_queue s)"
    using n(1) by (auto simp: content_def)
  have sd: "sched_data sp c (all_bufs s) (stored_frames f d ! t) (fr(b := v))"
    using ok n(2) v stored_nth_bound [OF ok]
    by (cases sp) (auto simp: chan_ok_def Let_def content_def)
  show ?thesis using ok q sd data pc v n unfolding chan_ok_def Let_def st by simp
qed

lemma chan_store:
  assumes ok: "chan_ok f c d sp t fr s" and pc: "d_pc d = D_store b" and sp: "pool_spec (Store b) s = Some (r, s')"
  shows "chan_ok f c (d\<lparr>d_pc := D_post\<rparr>) sp t fr s'"
proof -
  from sp have s': "s' = s\<lparr>p_queue := p_queue s @ [b], p_held := p_held s - {b}\<rparr>" by (auto split: if_splits)
  let ?os = "stored_frames f d" and ?x = "(int (nFrameProcessed d), d_surface d)"
  have os: "stored_frames f (d\<lparr>d_pc := D_post\<rparr>) = ?os @ [?x]"
    and k: "t + taken sp c \<le> length ?os" and q: "map (content fr) (p_queue s) = drop (t + taken sp c) ?os"
    and wf: "pool_wf s" and held: "p_held s = insert b (sched_bufs sp c)" "b \<notin> sched_bufs sp c"
    and fr: "vf_channel (fr b) = int c" "content fr b = ?x" "\<forall>b \<in> set (p_queue s). vf_channel (fr b) = int c"
    and sd: "sched_data sp c (all_bufs s) (?os ! t) fr"
    using ok pc by (auto simp: chan_ok_def stored_frames_def Let_def)
  have ab: "all_bufs s' = all_bufs s" using s' held(1) by (auto simp: all_bufs_def)
  have "sched_data sp c (all_bufs s) ((?os @ [?x]) ! t) fr"
  proof (cases "taken sp c = 0")
    case True
    then show ?thesis by (cases sp) (auto split: if_splits)
  next
    case False
    then have "t < length ?os" using k by simp
    then show ?thesis using sd by (simp add: nth_append)
  qed
  moreover have "pool_wf s'" using wf held s' by (auto simp: pool_wf_def)
  moreover have "map (content fr) (p_queue s') = drop (t + taken sp c) (?os @ [?x])" using q k fr(2) s' by simp
  ultimately show ?thesis using k held fr ab s' unfolding chan_ok_def Let_def os by auto
qed

lemma chan_post:
  assumes "chan_ok f c d sp t fr s" and "d_pc d = D_post"
  shows "chan_ok f c (d\<lparr>d_pc := D_decode\<rparr>) sp t fr s"
  using assms by (auto simp: chan_ok_def stored_frames_def Let_def)

lemma chan_load:
  assumes ok: "chan_ok f c d sp t fr s" and sp: "taken sp c = 0" and q: "p_queue s = b # bs"
  shows "chan_ok f c d (S_copy c b) t fr (s\<lparr>p_queue := bs, p_held := insert b (p_held s)\<rparr>)"
proof -
  have e: "sched_bufs sp c = {}" using sp by (cases sp) (auto split: if_splits)
  let ?os = "stored_frames f d"
  have d: "content fr b # map (content fr) bs = drop t ?os" using ok sp q by (auto simp: chan_ok_def Let_def)
  then have t: "t < length ?os" by (metis drop_all linorder_not_less list.distinct(1))
  with d have h: "content fr b = ?os ! t" "map (content fr) bs = drop (Suc t) ?os"
    by (metis Cons_nth_drop_Suc list.inject)+
  have ab: "all_bufs (s\<lparr>p_queue := bs, p_held := insert b (p_held s)\<rparr>) = all_bufs s" using q by (auto simp: all_bufs_def)
  show ?thesis using ok e q h t unfolding chan_ok_def Let_def ab by (auto simp: pool_wf_def)
qed

lemma chan_copy:
  assumes "chan_ok f c d (S_copy c b) t fr s"
  shows "chan_ok f c d (S_put c b (vf_image (fr b))) t fr s"
  using assms by (auto simp: chan_ok_def Let_def content_def prod_eq_iff)

lemma chan_put:
  assumes ok: "chan_ok f c d (S_put c b img) t fr s" and sp: "pool_spec (Put b) s = Some (r, s')"
  shows "chan_ok f c d (S_insert c b img) t fr s'"
proof -
  from sp have s': "s' = s\<lparr>p_free := b # p_free s, p_held := p_held s - {b}\<rparr>" and b: "b \<in> p_held s" by (auto split: if_splits)
  have ab: "all_bufs s' = all_bufs s" "b \<in> all_bufs s" using s' b by (auto simp: all_bufs_def)
  have "pool_wf s'" using ok s' b by (auto simp: chan_ok_def pool_wf_def Let_def)
  then show ?thesis using ok ab s' unfolding chan_ok_def Let_def ab(1) by auto
qed

lemma chan_insert:
  assumes "chan_ok f c d (S_insert c b img) t fr s" and "taken sp c = 0"
  shows "chan_ok f c d sp (Suc t) fr s"
proof -
  have e: "sched_bufs sp c = {}" "\<And>B x. sched_data sp c B x fr" using assms(2) by (cases sp; auto split: if_splits)+
  show ?thesis using assms e by (auto simp: chan_ok_def Let_def)
qed

lemma chan_submits:
  assumes "chan_ok f c d (S_insert c b img) t fr s"
  shows "t < length (stored_frames f d)" and "vf_channel (fr b) = int c" and "img = snd (stored_frames f d ! t)"
    and "fst (stored_frames f d ! t) \<le> vf_frameno (fr b)"
  using assms by (auto simp: chan_ok_def Let_def)


section \<open>The invariant of the pipeline\<close>

definition decoder_of :: "'req pstate \<Rightarrow> nat \<Rightarrow> decoder" where
  "decoder_of g c = (if c < length (decs g) then decs g ! c else new_decoder)"

definition frames_of :: "'req penv \<Rightarrow> 'req pstate \<Rightarrow> nat \<Rightarrow> (int \<times> det_img) list" where
  "frames_of E g c = stored_frames (stream E c) (decoder_of g c)"

fun sched_at :: "nat \<Rightarrow> sched_pc \<Rightarrow> nat \<Rightarrow> bool" where
  "sched_at N S_none m = (m mod N = 0)"
| "sched_at N S_wait m = (m mod N = 0)"
| "sched_at N (S_load i) m = (i < N \<and> m mod N = i)"
| "sched_at N (S_copy i b) m = (i < N \<and> m mod N = i)"
| "sched_at N (S_put i b img) m = (i < N \<and> m mod N = i)"
| "sched_at N (S_insert i b img) m = (i < N \<and> m mod N = i)"
| "sched_at N (S_show i) m = (i < N \<and> m mod N = Suc i mod N)"
| "sched_at N (S_thrown e) m = False"

text \<open>Submission \<open>k\<close> carries a picture of channel \<open>k mod N\<close>, the next one of that channel.\<close>

definition submission_ok :: "nat \<Rightarrow> (nat \<Rightarrow> (int \<times> det_img) list) \<Rightarrow> nat \<Rightarrow> frame \<Rightarrow> bool" where
  "submission_ok N os k f \<longleftrightarrow> k div N < length (os (k mod N)) \<and>
     (\<exists>fno. f = (snd (os (k mod N) ! (k div N)), int (k mod N), fno, 0) \<and> fst (os (k mod N) ! (k div N)) \<le> fno)"

definition pipeline_inv ::
  "'req penv \<Rightarrow> (u8 list \<Rightarrow> f32 list) \<Rightarrow> det_params \<Rightarrow> ptr set list \<Rightarrow> pool list \<Rightarrow> 'req pstate \<Rightarrow> bool" where
  "pipeline_inv E net P B S g \<longleftrightarrow>
     (let N = length (vdpipe E); m = length (submitted g) in
      pools_rel (vdpipe E) (heap g) S \<and> start (heap g) \<and> map all_bufs S = B \<and>
      length (decs g) \<le> N \<and> (case mpc g of M_decoders n \<Rightarrow> n = length (decs g) | _ \<Rightarrow> length (decs g) = N) \<and>
      (mpc g \<noteq> M_pause \<longrightarrow> spc g = S_none \<and> submitted g = []) \<and> sched_at N (spc g) m \<and>
      length (each_frame g) = INPUTNUM \<and>
      (\<forall>c < N. chan_ok (stream E c) c (decoder_of g c) (spc g) (turns N m c) (frames g) (S ! c)) \<and>
      det_rel (engine E) net P (det g) (submitted g) \<and>
      (\<forall>k < m. submission_ok N (frames_of E g) k (submitted g ! k)))"

lemma submission_ok_mono:
  assumes "submission_ok N os k f" and "\<And>c. \<exists>xs. os' c = os c @ xs"
  shows "submission_ok N os' k f"
proof -
  obtain xs where "os' (k mod N) = os (k mod N) @ xs" using assms(2) by blast
  then show ?thesis using assms(1) by (auto simp: submission_ok_def nth_append)
qed

lemma pipeline_inv_dec:
  assumes inv: "pipeline_inv E net P B S g" and c: "c < length (decs g)"
    and heap: "pools_rel (vdpipe E) (heap g') (S[c := s'])" "all_bufs s' = all_bufs (S ! c)" "start (heap g')"
    and same: "spc g' = spc g" "mpc g' = mpc g" "submitted g' = submitted g" "det g' = det g"
      "each_frame g' = each_frame g" "decs g' = (decs g)[c := d']"
    and fr: "\<And>b. b \<notin> all_bufs (S ! c) \<Longrightarrow> frames g' b = frames g b"
    and ch: "chan_ok (stream E c) c d' (spc g) (turns (length (vdpipe E)) (length (submitted g)) c) (frames g') s'"
    and grow: "stored_frames (stream E c) d' = stored_frames (stream E c) (decs g ! c) @ xs"
  shows "pipeline_inv E net P B (S[c := s']) g'"
proof -
  let ?N = "length (vdpipe E)"
  have cN: "c < ?N" and rel: "pools_rel (vdpipe E) (heap g) S" and B: "map all_bufs S = B"
    using inv c by (auto simp: pipeline_inv_def Let_def)
  have lS: "length S = ?N" using rel by (simp add: pools_rel_def)
  have dec: "decoder_of g' a = (if a = c then d' else decoder_of g a)" for a
    using c same(6) by (simp add: decoder_of_def)
  have fs: "\<exists>xs. frames_of E g' a = frames_of E g a @ xs" for a
    using dec grow c by (auto simp: frames_of_def decoder_of_def)
  have ch': "chan_ok (stream E a) a (decoder_of g' a) (spc g') (turns ?N (length (submitted g')) a) (frames g') (S[c := s'] ! a)"
    if "a < ?N" for a
  proof (cases "a = c")
    case True
    then show ?thesis using ch same dec lS cN by simp
  next
    case False
    have "all_bufs (S ! c) \<inter> all_bufs (S ! a) = {}" using rel that cN False by (auto simp: pools_rel_def)
    then have "frames g' b = frames g b" if "b \<in> all_bufs (S ! a)" for b using fr that by blast
    moreover have "chan_ok (stream E a) a (decoder_of g a) (spc g) (turns ?N (length (submitted g)) a) (frames g) (S ! a)"
      using inv that by (simp add: pipeline_inv_def Let_def)
    ultimately show ?thesis using False same dec by (auto intro: chan_ok_frames)
  qed
  have "map all_bufs (S[c := s']) = B" using B heap(2) by (metis list_update_id map_update)
  then show ?thesis using inv heap same ch' fs
    by (auto simp: pipeline_inv_def Let_def intro: submission_ok_mono split: main_pc.splits)
qed


definition idle_env :: "'req penv \<Rightarrow> (u8 list \<Rightarrow> f32 list) \<Rightarrow> det_params \<Rightarrow> bool" where
  "idle_env E net P \<longleftrightarrow> 0 < length (vdpipe E) \<and> net_ok net P \<and>
     (\<forall>c n img i no ch. stream E c n = Vpp_frame img \<longrightarrow> fits P (img, i, no, ch))"

text \<open>The one step that can be undefined: the scheduler counts results with more channels than
  \<^verbatim>\<open>each_frame\<close> has entries, after at least that many submissions.\<close>

definition overrun :: "'req penv \<Rightarrow> 'req pstate \<Rightarrow> bool" where
  "overrun E g \<longleftrightarrow> INPUTNUM < length (vdpipe E) \<and> INPUTNUM \<le> length (submitted g) \<and>
     (\<exists>i b img. spc g = S_insert i b img)"

lemma pipeline_inv_chan:
  assumes "pipeline_inv E net P B S g" and "c < length (vdpipe E)"
  shows "chan_ok (stream E c) c (decoder_of g c) (spc g) (turns (length (vdpipe E)) (length (submitted g)) c) (frames g) (S ! c)"
    and "pools_rel (vdpipe E) (heap g) S" and "pool_rel (vdpipe E ! c) (heap g) (S ! c)" and "p_start (S ! c)"
    and "null \<notin> all_bufs (S ! c)" and "length S = length (vdpipe E)"
proof -
  show ch: "chan_ok (stream E c) c (decoder_of g c) (spc g) (turns (length (vdpipe E)) (length (submitted g)) c) (frames g) (S ! c)"
    and rel: "pools_rel (vdpipe E) (heap g) S" using assms by (simp_all add: pipeline_inv_def Let_def)
  show r: "pool_rel (vdpipe E ! c) (heap g) (S ! c)" "length S = length (vdpipe E)" using rel assms(2) by (simp_all add: pools_rel_def)
  have "start (heap g)" using assms by (simp add: pipeline_inv_def Let_def)
  then show "p_start (S ! c)" using r(1) by (simp add: pool_rel_def)
  have "pool_ok (heap g) (vdpipe E ! c) (p_free (S ! c)) (p_queue (S ! c))" using r(1) by (simp add: pool_rel_def)
  then show "null \<notin> all_bufs (S ! c)" using r(1) pool_ok_members(2) by (auto simp: pool_rel_def all_bufs_def)
qed

lemma stored_same:
  assumes "nFrameProcessed d' = nFrameProcessed d" and "in_flight (d_pc d') = in_flight (d_pc d)"
  shows "stored_frames f d' = stored_frames f d @ []"
  using assms by (simp add: stored_frames_def)

lemma dec_step_inv:
  assumes inv: "pipeline_inv E net P B S g" and c: "c < length (decs g)"
  shows "\<exists>g' s'. dec_step E c g = Some g' \<and> pipeline_inv E net P B (S[c := s']) g' \<and>
    length (p_free s') = length (p_free (S ! c)) - (if d_pc (decs g ! c) = D_get then 1 else 0)"
proof -
  let ?d = "decs g ! c" and ?p = "vdpipe E ! c"
  have cN: "c < length (vdpipe E)" using inv c by (auto simp: pipeline_inv_def Let_def)
  note facts = pipeline_inv_chan [OF inv cN]
  have d: "decoder_of g c = ?d" using c by (simp add: decoder_of_def)
  have ch: "chan_ok (stream E c) c ?d (spc g) (turns (length (vdpipe E)) (length (submitted g)) c) (frames g) (S ! c)"
    using facts(1) d by simp
  have S: "S[c := S ! c] = S" by simp
  have st: "start (heap g)" using inv by (simp add: pipeline_inv_def Let_def)
  have held: "b \<in> all_bufs (S ! c)" if "b \<in> dec_bufs (d_pc ?d)" for b
    using ch that by (auto simp: chan_ok_def all_bufs_def Let_def)
  have fin: "\<exists>g' s'. dec_step E c g = Some g' \<and> pipeline_inv E net P B (S[c := s']) g' \<and>
      length (p_free s') = length (p_free (S ! c)) - (if d_pc ?d = D_get then 1 else 0)"
    if "dec_step E c g = Some g'" "pipeline_inv E net P B S g'" "d_pc ?d = D_get \<Longrightarrow> p_free (S ! c) = []" for g'
    using that by (intro exI [of _ g'] exI [of _ "S ! c"]) auto
  note here = pipeline_inv_dec [OF inv c, where s' = "S ! c", unfolded S, OF _ refl]
  show ?thesis
  proof (cases "d_pc ?d")
    case D_decode
    let ?d' = "case stream E c (nFrameProcessed ?d) of
            Vpp_frame img \<Rightarrow> ?d\<lparr>d_pc := D_get, nFrameProcessed := nFrameProcessed ?d + 1, d_surface := img\<rparr>
          | Vpp_more_data \<Rightarrow> ?d\<lparr>nFrameProcessed := nFrameProcessed ?d + 1\<rparr>
          | Vpp_error \<Rightarrow> ?d\<lparr>d_pc := D_done, nFrameProcessed := nFrameProcessed ?d + 1\<rparr>"
    have g: "stored_frames (stream E c) ?d' = stored_frames (stream E c) ?d @ []"
      using D_decode by (auto simp: stored_frames_def Let_def split: vpp_answer.splits)
    have "pipeline_inv E net P B S (upd_dec c ?d' g)"
      using chan_decode [OF ch D_decode] facts(2) st g by (intro here [where d' = ?d' and xs = "[]"]) (simp_all add: upd_dec_def)
    then show ?thesis using D_decode by (intro fin) (auto simp: dec_step_def Let_def)
  next
    case D_get
    show ?thesis
    proof (cases "p_free (S ! c)")
      case Nil
      then have "pool_spec Get (S ! c) = Some (Again, S ! c)" using facts(4) by simp
      from pools_step [OF facts(2) cN this] obtain w' where "dpipe_get_round ?p (heap g) = Some (Again, w')" by auto
      then show ?thesis using D_get inv Nil by (intro fin) (auto simp: dec_step_def Let_def)
    next
      case (Cons b bs)
      let ?s = "(S ! c)\<lparr>p_free := bs, p_held := insert b (p_held (S ! c))\<rparr>" and ?d' = "?d\<lparr>d_pc := D_tag b\<rparr>"
      have sp: "pool_spec Get (S ! c) = Some (Got b, ?s)" using Cons by simp
      have b: "b \<noteq> null" using Cons facts(5) by (auto simp: all_bufs_def)
      from pools_step [OF facts(2) cN sp] obtain w' where w': "dpipe_get_round ?p (heap g) = Some (Got b, w')"
        "pools_rel (vdpipe E) w' (S[c := ?s])" "all_bufs ?s = all_bufs (S ! c)" "start w'" using st by auto
      have "pipeline_inv E net P B (S[c := ?s]) (upd_dec c ?d' (g\<lparr>heap := w'\<rparr>))"
        using chan_get [OF ch D_get sp facts(4) b] w' stored_same [of ?d' ?d] D_get
        by (intro pipeline_inv_dec [OF inv c, where d' = ?d' and xs = "[]"]) (simp_all add: upd_dec_def)
      then show ?thesis using D_get w'(1) b Cons
        by (intro exI [of _ "upd_dec c ?d' (g\<lparr>heap := w'\<rparr>)"] exI [of _ ?s]) (auto simp: dec_step_def Let_def)
    qed
  next
    case (D_tag b)
    let ?v = "(frames g b)\<lparr>vf_channel := int c, vf_frameno := int (nFrameProcessed ?d)\<rparr>" and ?d' = "?d\<lparr>d_pc := D_image b\<rparr>"
    have "chan_ok (stream E c) c ?d' (spc g) (turns (length (vdpipe E)) (length (submitted g)) c) ((frames g)(b := ?v)) (S ! c)"
      using D_tag by (intro chan_write [OF ch]) simp_all
    then have "pipeline_inv E net P B S (upd_dec c ?d' (g\<lparr>frames := (frames g)(b := ?v)\<rparr>))"
      using facts(2) st stored_same [of ?d' ?d] D_tag held [of b]
      by (intro here [where d' = ?d' and xs = "[]"]) (auto simp: upd_dec_def)
    then show ?thesis using D_tag by (intro fin) (auto simp: dec_step_def Let_def)
  next
    case (D_image b)
    let ?v = "(frames g b)\<lparr>vf_image := d_surface ?d\<rparr>" and ?d' = "?d\<lparr>d_pc := D_store b\<rparr>"
    have t: "vf_channel (frames g b) = int c" "vf_frameno (frames g b) = int (nFrameProcessed ?d)"
      using ch D_image by (auto simp: chan_ok_def Let_def)
    have "chan_ok (stream E c) c ?d' (spc g) (turns (length (vdpipe E)) (length (submitted g)) c) ((frames g)(b := ?v)) (S ! c)"
      using D_image t by (intro chan_write [OF ch]) (simp_all add: content_def)
    then have "pipeline_inv E net P B S (upd_dec c ?d' (g\<lparr>frames := (frames g)(b := ?v)\<rparr>))"
      using facts(2) st stored_same [of ?d' ?d] D_image held [of b]
      by (intro here [where d' = ?d' and xs = "[]"]) (auto simp: upd_dec_def)
    then show ?thesis using D_image by (intro fin) (auto simp: dec_step_def Let_def)
  next
    case (D_store b)
    let ?s = "(S ! c)\<lparr>p_queue := p_queue (S ! c) @ [b], p_held := p_held (S ! c) - {b}\<rparr>" and ?d' = "?d\<lparr>d_pc := D_post\<rparr>"
    have "b \<in> p_held (S ! c)" using ch D_store by (auto simp: chan_ok_def Let_def)
    then have sp: "pool_spec (Store b) (S ! c) = Some (Got b, ?s)" by simp
    from pools_step [OF facts(2) cN sp] obtain w' where w': "dpipe_store ?p b (heap g) = Some w'"
      "pools_rel (vdpipe E) w' (S[c := ?s])" "all_bufs ?s = all_bufs (S ! c)" "start w'" using st by auto
    have g: "stored_frames (stream E c) ?d' = stored_frames (stream E c) ?d @ [(int (nFrameProcessed ?d), d_surface ?d)]"
      using ch D_store by (auto simp: chan_ok_def stored_frames_def Let_def)
    have "pipeline_inv E net P B (S[c := ?s]) (upd_dec c ?d' (g\<lparr>heap := w'\<rparr>))"
      using chan_store [OF ch D_store sp] w' by (intro pipeline_inv_dec [OF inv c _ _ _ _ _ _ _ _ _ _ _ g]) (simp_all add: upd_dec_def)
    then show ?thesis using D_store w'(1)
      by (intro exI [of _ "upd_dec c ?d' (g\<lparr>heap := w'\<rparr>)"] exI [of _ ?s]) (auto simp: dec_step_def Let_def)
  next
    case D_post
    let ?d' = "?d\<lparr>d_pc := D_decode\<rparr>"
    have "pipeline_inv E net P B S (upd_dec c ?d' (g\<lparr>gNewtaskAvaiable := gNewtaskAvaiable g + 1\<rparr>))"
      using chan_post [OF ch D_post] facts(2) st stored_same [of ?d' ?d] D_post
      by (intro here [where d' = ?d' and xs = "[]"]) (simp_all add: upd_dec_def)
    then show ?thesis using D_post by (intro fin) (auto simp: dec_step_def Let_def)
  next
    case D_done
    then show ?thesis using inv by (intro fin) (auto simp: dec_step_def Let_def)
  qed
qed


lemma pipeline_inv_sched:
  assumes inv: "pipeline_inv E net P B S g" and sp: "spc g \<noteq> S_none" and i: "i < length (vdpipe E)"
    and heap: "pools_rel (vdpipe E) (heap g') (S[i := s'])" "all_bufs s' = all_bufs (S ! i)" "start (heap g')"
    and same: "decs g' = decs g" "mpc g' = mpc g" "submitted g' = submitted g" "det g' = det g"
      "each_frame g' = each_frame g" "frames g' = frames g"
    and at: "sched_at (length (vdpipe E)) (spc g') (length (submitted g))"
    and away: "\<And>c. c \<noteq> i \<Longrightarrow> taken (spc g) c = 0 \<and> taken (spc g') c = 0"
    and ch: "chan_ok (stream E i) i (decoder_of g i) (spc g') (turns (length (vdpipe E)) (length (submitted g)) i) (frames g) s'"
  shows "pipeline_inv E net P B (S[i := s']) g'"
proof -
  let ?N = "length (vdpipe E)"
  have lS: "length S = ?N" and B: "map all_bufs S = B" using inv by (auto simp: pipeline_inv_def pools_rel_def Let_def)
  have dec: "decoder_of g' c = decoder_of g c" for c using same(1) by (simp add: decoder_of_def)
  have fs: "frames_of E g' = frames_of E g" by (simp add: frames_of_def dec fun_eq_iff)
  have ch': "chan_ok (stream E c) c (decoder_of g' c) (spc g') (turns ?N (length (submitted g')) c) (frames g') (S[i := s'] ! c)"
    if "c < ?N" for c
  proof (cases "c = i")
    case True
    then show ?thesis using ch same dec lS i by simp
  next
    case False
    have "chan_ok (stream E c) c (decoder_of g c) (spc g) (turns ?N (length (submitted g)) c) (frames g) (S ! c)"
      using inv that by (simp add: pipeline_inv_def Let_def)
    then show ?thesis using False same dec away by (auto intro: chan_ok_away)
  qed
  have "map all_bufs (S[i := s']) = B" using B heap(2) by (metis list_update_id map_update)
  moreover have "mpc g = M_pause" using inv sp by (auto simp: pipeline_inv_def Let_def)
  ultimately show ?thesis using inv heap same at ch' fs by (auto simp: pipeline_inv_def Let_def)
qed

lemma pipeline_inv_move:
  assumes inv: "pipeline_inv E net P B S g" and sp: "spc g \<noteq> S_none" and i: "i < length (vdpipe E)"
    and same: "heap g' = heap g" "decs g' = decs g" "mpc g' = mpc g" "submitted g' = submitted g" "det g' = det g"
      "each_frame g' = each_frame g" "frames g' = frames g"
    and at: "sched_at (length (vdpipe E)) (spc g') (length (submitted g))"
    and away: "\<And>c. c \<noteq> i \<Longrightarrow> taken (spc g) c = 0 \<and> taken (spc g') c = 0"
    and ch: "chan_ok (stream E i) i (decoder_of g i) (spc g') (turns (length (vdpipe E)) (length (submitted g)) i) (frames g) (S ! i)"
  shows "pipeline_inv E net P B S g'"
proof -
  have "pools_rel (vdpipe E) (heap g') (S[i := S ! i])" "start (heap g')"
    using inv same(1) by (simp_all add: pipeline_inv_def Let_def)
  from pipeline_inv_sched [OF inv sp i this(1) refl this(2) same(2-7) at away ch] show ?thesis by simp
qed

lemma next_pipe_at:
  assumes "i < length (vdpipe E)" and "m mod length (vdpipe E) = Suc i mod length (vdpipe E)"
  shows "sched_at (length (vdpipe E)) (next_pipe E i) m"
proof (cases "Suc i < length (vdpipe E)")
  case False
  then have "length (vdpipe E) = Suc i" using assms(1) by simp
  then show ?thesis using assms(2) by (simp add: next_pipe_def)
qed (use assms in \<open>simp add: next_pipe_def\<close>)

lemma next_pipe_away [simp]: "taken (next_pipe E i) c = 0"
  by (simp add: next_pipe_def)

lemma dpipe_load_pool:
  assumes "pool_ok w p ins outs"
  shows "dpipe_load [] p False w = (if outs = [] then Some (None, w)
    else map_option (\<lambda>(b, w'). (Some b, w')) (dpipe_load_nowait p w))"
proof -
  obtain d where d: "pipes w p = Some d" using assms by (auto elim: pool_okE)
  show ?thesis using d out_pool_empty_iff [OF assms d]
    by (auto simp: dpipe_load_nowait_def split: option.splits Option.bind_splits)
qed

lemma dec_exists:
  assumes "pipeline_inv E net P B S g" and "spc g \<noteq> S_none" and "c < length (vdpipe E)"
  shows "decoder_of g c = decs g ! c" and "c < length (decs g)"
  using assms by (auto simp: pipeline_inv_def Let_def decoder_of_def split: main_pc.splits)

lemma submitted_fits:
  assumes "pipeline_inv E net P B S g" and "idle_env E net P"
  shows "\<forall>f \<in> set (submitted g). fits P f \<and> 0 \<le> fst (snd f) \<and> fst (snd f) < int (length (vdpipe E)) \<and>
    fst (snd f) \<le> int (length (submitted g))"
proof
  fix f assume "f \<in> set (submitted g)"
  then obtain k where k: "k < length (submitted g)" "f = submitted g ! k" by (auto simp: in_set_conv_nth)
  let ?c = "k mod length (vdpipe E)"
  have sub: "submission_ok (length (vdpipe E)) (frames_of E g) k f" using assms(1) k by (simp add: pipeline_inv_def Let_def)
  have c: "?c < length (vdpipe E)" using assms(2) by (simp add: idle_env_def)
  have "?c \<le> k" by (rule mod_less_eq_dividend)
  then have cm: "?c \<le> length (submitted g)" using k(1) by linarith
  have fit: "fits P (snd x, i, no, ch)" if "x \<in> set (frames_of E g ?c)" for x i no ch
  proof -
    have "x \<in> set (outputs (stream E ?c) (nFrameProcessed (decoder_of g ?c)))"
      using that by (auto simp: frames_of_def stored_frames_def Let_def dest: in_set_butlastD split: if_splits)
    then show ?thesis using assms(2) by (intro outputs_fits [where Q = "\<lambda>img. fits P (img, i, no, ch)"]) (auto simp: idle_env_def)
  qed
  then show "fits P f \<and> 0 \<le> fst (snd f) \<and> fst (snd f) < int (length (vdpipe E)) \<and> fst (snd f) \<le> int (length (submitted g))"
  proof -
    from sub obtain fno where x: "k div length (vdpipe E) < length (frames_of E g ?c)"
      "f = (snd (frames_of E g ?c ! (k div length (vdpipe E))), int ?c, fno, 0)" by (auto simp: submission_ok_def)
    then have "fits P f" using fit [OF nth_mem [OF x(1)]] by simp
    then show ?thesis using x(2) c cm by simp
  qed
qed

lemma pipeline_inv_submit:
  assumes inv: "pipeline_inv E net P B S g" and sp: "spc g = S_insert i b img"
    and f: "f = (img, vf_channel (frames g b), vf_frameno (frames g b), 0)"
    and same: "heap g' = heap g" "decs g' = decs g" "mpc g' = mpc g" "frames g' = frames g" "submitted g' = submitted g @ [f]"
    and ef: "length (each_frame g') = INPUTNUM" and det: "det_rel (engine E) net P (det g') (submitted g @ [f])"
    and at: "sched_at (length (vdpipe E)) (spc g') (Suc (length (submitted g)))" and away: "\<And>c. taken (spc g') c = 0"
  shows "pipeline_inv E net P B S g'"
proof -
  let ?N = "length (vdpipe E)" and ?m = "length (submitted g)"
  have i: "i < ?N" "?m mod ?N = i" using inv sp by (auto simp: pipeline_inv_def Let_def)
  have dec: "decoder_of g' c = decoder_of g c" for c using same(2) by (simp add: decoder_of_def)
  have fs: "frames_of E g' = frames_of E g" by (simp add: frames_of_def dec fun_eq_iff)
  have old: "chan_ok (stream E c) c (decoder_of g c) (S_insert i b img) (turns ?N ?m c) (frames g) (S ! c)" if "c < ?N" for c
    using inv that sp by (simp add: pipeline_inv_def Let_def)
  have ch: "chan_ok (stream E c) c (decoder_of g' c) (spc g') (turns ?N (Suc ?m) c) (frames g') (S ! c)" if "c < ?N" for c
  proof (cases "c = i")
    case True
    then show ?thesis using chan_insert [OF old [unfolded True], OF _ away] that i same dec by (simp add: turns_Suc)
  next
    case False
    then show ?thesis using chan_ok_away [OF old [OF that] _ away] that i same dec by (simp add: turns_Suc)
  qed
  have t: "turns ?N ?m i = ?m div ?N" using i(2) turns_own [of ?N ?m] by simp
  have "submission_ok ?N (frames_of E g) ?m f"
    using chan_submits [OF old [OF i(1)]] f i t by (auto simp: submission_ok_def frames_of_def)
  then have sub: "submission_ok ?N (frames_of E g) k ((submitted g @ [f]) ! k)" if "k < Suc ?m" for k
    using that inv by (cases "k = ?m") (auto simp: pipeline_inv_def Let_def nth_append)
  have "mpc g = M_pause" using inv sp by (auto simp: pipeline_inv_def Let_def)
  then show ?thesis using inv same ef det at ch sub fs by (auto simp: pipeline_inv_def Let_def)
qed

lemma sched_step_inv:
  assumes inv: "pipeline_inv E net P B S g" and env: "idle_env E net P"
  shows "(\<exists>g' S'. sched_step E g = Some g' \<and> pipeline_inv E net P B S' g') \<or> sched_step E g = None \<and> overrun E g"
proof -
  let ?N = "length (vdpipe E)" and ?m = "length (submitted g)"
  have N: "0 < ?N" using env by (simp add: idle_env_def)
  have st: "start (heap g)" and at: "sched_at ?N (spc g) ?m" and ef: "length (each_frame g) = INPUTNUM"
    using inv by (simp_all add: pipeline_inv_def Let_def)
  note here = pipeline_inv_move [OF inv]
  show ?thesis
  proof (cases "spc g")
    case S_none
    then show ?thesis using inv by (auto simp: sched_step_def)
  next
    case S_wait
    show ?thesis
    proof (cases "gNewtaskAvaiable g = 0")
      case True
      then show ?thesis using S_wait inv by (auto simp: sched_step_def)
    next
      case False
      let ?g = "g\<lparr>gNewtaskAvaiable := gNewtaskAvaiable g - 1, spc := S_load 0\<rparr>"
      note f = pipeline_inv_chan [OF inv N]
      have "chan_ok (stream E 0) 0 (decoder_of g 0) (S_load 0) (turns ?N ?m 0) (frames g) (S ! 0)"
        using f(1) S_wait by - (rule chan_ok_away [where sp = "spc g"], simp_all)
      then have "pipeline_inv E net P B S ?g" using at N S_wait by (intro here [of 0]) simp_all
      then show ?thesis using S_wait False N by (auto simp: sched_step_def)
    qed
  next
    case (S_load i)
    have i: "i < ?N" using at S_load by simp
    note f = pipeline_inv_chan [OF inv i]
    have ok: "pool_ok (heap g) (vdpipe E ! i) (p_free (S ! i)) (p_queue (S ! i))" using f(3) by (simp add: pool_rel_def)
    show ?thesis
    proof (cases "p_queue (S ! i)")
      case Nil
      then show ?thesis using S_load inv dpipe_load_pool [OF ok] by (auto simp: sched_step_def)
    next
      case (Cons b bs)
      let ?s = "(S ! i)\<lparr>p_queue := bs, p_held := insert b (p_held (S ! i))\<rparr>"
      have sp: "pool_spec Load (S ! i) = Some (Got b, ?s)" using Cons by simp
      from pools_step [OF f(2) i sp] obtain w' where w': "dpipe_load_nowait (vdpipe E ! i) (heap g) = Some (b, w')"
        "pools_rel (vdpipe E) w' (S[i := ?s])" "all_bufs ?s = all_bufs (S ! i)" "start w'" using st by auto
      have "chan_ok (stream E i) i (decoder_of g i) (S_copy i b) (turns ?N ?m i) (frames g) ?s"
        using f(1) S_load Cons by (intro chan_load [where sp = "spc g"]) simp_all
      then have "pipeline_inv E net P B (S[i := ?s]) (g\<lparr>heap := w', spc := S_copy i b\<rparr>)"
        using w' S_load at by (intro pipeline_inv_sched [OF inv _ i]) simp_all
      then show ?thesis using S_load Cons w'(1) dpipe_load_pool [OF ok] by (auto simp: sched_step_def)
    qed
  next
    case (S_copy i b)
    have i: "i < ?N" using at S_copy by simp
    note f = pipeline_inv_chan [OF inv i]
    have "chan_ok (stream E i) i (decoder_of g i) (S_put i b (vf_image (frames g b))) (turns ?N ?m i) (frames g) (S ! i)"
      using f(1) S_copy by (intro chan_copy) simp
    then have "pipeline_inv E net P B S (g\<lparr>spc := S_put i b (vf_image (frames g b))\<rparr>)"
      using at i S_copy by (intro here [of i]) simp_all
    then show ?thesis using S_copy by (auto simp: sched_step_def)
  next
    case (S_put i b img)
    have i: "i < ?N" using at S_put by simp
    note f = pipeline_inv_chan [OF inv i]
    let ?s = "(S ! i)\<lparr>p_free := b # p_free (S ! i), p_held := p_held (S ! i) - {b}\<rparr>"
    have "b \<in> p_held (S ! i)" using f(1) S_put by (simp add: chan_ok_def Let_def)
    then have sp: "pool_spec (Put b) (S ! i) = Some (Got b, ?s)" by simp
    from pools_step [OF f(2) i sp] obtain w' where w': "dpipe_put (vdpipe E ! i) b (heap g) = Some w'"
      "pools_rel (vdpipe E) w' (S[i := ?s])" "all_bufs ?s = all_bufs (S ! i)" "start w'" using st by auto
    have "chan_ok (stream E i) i (decoder_of g i) (S_insert i b img) (turns ?N ?m i) (frames g) ?s"
      using f(1) S_put by (intro chan_put [OF _ sp]) simp
    then have "pipeline_inv E net P B (S[i := ?s]) (g\<lparr>heap := w', spc := S_insert i b img\<rparr>)"
      using w' S_put at by (intro pipeline_inv_sched [OF inv _ i]) simp_all
    then show ?thesis using S_put w'(1) by (auto simp: sched_step_def)
  next
    case (S_insert i b img)
    have i: "i < ?N" "?m mod ?N = i" using at S_insert by simp_all
    let ?f = "(img, vf_channel (frames g b), vf_frameno (frames g b), 0)"
    have at': "sched_at ?N (next_pipe E i) (Suc ?m)" "sched_at ?N (S_show i) (Suc ?m)"
      using i next_pipe_at [OF i(1), of "Suc ?m"] by (auto simp: mod_Suc)
    have ch: "chan_ok (stream E i) i (decoder_of g i) (S_insert i b img) (turns ?N ?m i) (frames g) (S ! i)"
      using pipeline_inv_chan(1) [OF inv i(1)] S_insert by simp
    note sub = chan_submits [OF ch]
    have fit: "fits P ?f"
    proof -
      have "stored_frames (stream E i) (decoder_of g i) ! turns ?N ?m i \<in> set (outputs (stream E i) (nFrameProcessed (decoder_of g i)))"
        using nth_mem [OF sub(1)] by (auto simp: stored_frames_def Let_def dest: in_set_butlastD split: if_splits)
      then have "fits P (snd (stored_frames (stream E i) (decoder_of g i) ! turns ?N ?m i), vf_channel (frames g b), vf_frameno (frames g b), 0)"
        using env by (intro outputs_fits [where Q = "\<lambda>img. fits P (img, _, _, _)"]) (auto simp: idle_env_def)
      then show ?thesis using sub(3) by simp
    qed
    have hist: "\<forall>f \<in> set (submitted g). fits P f" using submitted_fits [OF inv env] by blast
    have rel: "det_rel (engine E) net P (det g) (submitted g)" using inv by (simp add: pipeline_inv_def Let_def)
    have net: "net_ok net P" using env by (simp add: idle_env_def)
    from detector_call [OF rel net fit hist, of "last_objects g"] obtain status objs D' where
      call: "InsertImage (engine E) img (last_objects g) (vf_channel (frames g b)) (vf_frameno (frames g b)) 0 (det g)
        = Some (Inr (status, objs), D')" "status \<noteq> INSERTIMG_NULL" "det_rel (engine E) net P D' (submitted g @ [?f])"
      and ids: "status \<noteq> INSERTIMG_INSERTED \<longrightarrow> (\<forall>ob \<in> set objs. \<exists>f \<in> set (submitted g @ [?f]). res_inputid ob = fst (snd f))"
      by blast
    note put = pipeline_inv_submit [OF inv S_insert refl]
    have i': "i \<le> ?m" using i(2) by (metis mod_less_eq_dividend)
    have counted: "\<exists>ef'. count_frames objs (each_frame g) = Some ef'" if "\<not> overrun E g" "status \<noteq> INSERTIMG_INSERTED"
    proof -
      have "i < INPUTNUM" "length (vdpipe E) \<le> INPUTNUM \<or> ?m < INPUTNUM" using that(1) S_insert i(1) i' by (auto simp: overrun_def)
      then have "\<forall>f \<in> set (submitted g @ [?f]). 0 \<le> fst (snd f) \<and> fst (snd f) < int INPUTNUM"
        using submitted_fits [OF inv env] sub(2) by fastforce
      then have "\<forall>ob \<in> set objs. 0 \<le> res_inputid ob \<and> res_inputid ob < int (length (each_frame g))"
        using ids that(2) ef by fastforce
      then show ?thesis using count_frames_total by blast
    qed
    let ?g1 = "g\<lparr>det := D', submitted := submitted g @ [?f]\<rparr>"
    show ?thesis
    proof (cases "status = INSERTIMG_INSERTED")
      case True
      have "pipeline_inv E net P B S (?g1\<lparr>last_objects := objs, spc := next_pipe E i\<rparr>)"
        using call(3) ef at'(1) by (intro put) simp_all
      then show ?thesis using S_insert call(1) True by (auto simp: sched_step_def)
    next
      case False
      then have s: "status = INSERTIMG_GET \<or> status = INSERTIMG_PROCESSED" using call(2) by (cases status) simp_all
      show ?thesis
      proof (cases "count_frames objs (each_frame g)")
        case None
        then have "sched_step E g = None" using S_insert call(1) s by (auto simp: sched_step_def Let_def)
        then show ?thesis using None counted False by auto
      next
        case (Some ef')
        let ?g2 = "?g1\<lparr>last_objects := objs, each_frame := ef'\<rparr>"
        have "pipeline_inv E net P B S (?g2\<lparr>gresultque := gresultque ?g2 @ [objs], g_semtshow := g_semtshow ?g2 + 1, spc := S_show i\<rparr>)"
          "pipeline_inv E net P B S (?g2\<lparr>spc := next_pipe E i\<rparr>)"
          using call(3) count_frames_length [OF Some] ef at' by (intro put; simp)+
        then show ?thesis using S_insert call(1) s Some by (auto simp: sched_step_def Let_def)
      qed
    qed
  next
    case (S_show i)
    have i: "i < ?N" "?m mod ?N = Suc i mod ?N" using at S_show by simp_all
    note f = pipeline_inv_chan [OF inv i(1)]
    have "chan_ok (stream E i) i (decoder_of g i) (next_pipe E i) (turns ?N ?m i) (frames g) (S ! i)"
      using f(1) S_show by - (rule chan_ok_away [where sp = "spc g"], simp_all)
    then have "pipeline_inv E net P B S (g\<lparr>spc := next_pipe E i\<rparr>)"
      using next_pipe_at [OF i] i S_show by (intro here [of i]) simp_all
    then show ?thesis using S_show inv by (auto simp: sched_step_def)
  next
    case (S_thrown e)
    then show ?thesis using inv by (auto simp: sched_step_def)
  qed
qed


lemma main_step_inv:
  assumes inv: "pipeline_inv E net P B S g" and env: "idle_env E net P"
  shows "pipeline_inv E net P B S (main_step E g)"
proof (cases "mpc g")
  case (M_decoders n)
  show ?thesis
  proof (cases "n < length (vdpipe E)")
    case True
    let ?g = "g\<lparr>decs := decs g @ [new_decoder], mpc := M_decoders (n + 1)\<rparr>"
    have "decoder_of ?g c = decoder_of g c" for c by (auto simp: decoder_of_def nth_append)
    then have "decoder_of ?g = decoder_of g" "frames_of E ?g = frames_of E g" by (simp_all add: frames_of_def fun_eq_iff)
    then show ?thesis using inv M_decoders True by (auto simp: pipeline_inv_def main_step_def Let_def)
  next
    case False
    have "decoder_of (g\<lparr>mpc := M_sem\<rparr>) = decoder_of g" "frames_of E (g\<lparr>mpc := M_sem\<rparr>) = frames_of E g"
      by (simp_all add: frames_of_def decoder_of_def fun_eq_iff)
    then show ?thesis using inv M_decoders False by (auto simp: pipeline_inv_def main_step_def Let_def)
  qed
next
  case M_sem
  let ?g = "g\<lparr>gNewtaskAvaiable := 0, mpc := M_scheduler\<rparr>"
  have "decoder_of ?g = decoder_of g" "frames_of E ?g = frames_of E g"
    by (simp_all add: frames_of_def decoder_of_def fun_eq_iff)
  then show ?thesis using inv M_sem by (auto simp: pipeline_inv_def main_step_def Let_def)
next
  case M_scheduler
  let ?g = "g\<lparr>spc := S_wait, mpc := M_pause\<rparr>"
  have "decoder_of ?g = decoder_of g" "frames_of E ?g = frames_of E g"
    by (simp_all add: frames_of_def decoder_of_def fun_eq_iff)
  moreover have "chan_ok f c d S_wait t fr s" if "chan_ok f c d S_none t fr s" for f c d t fr s
    using that by (rule chan_ok_away) simp_all
  ultimately show ?thesis using inv M_scheduler by (auto simp: pipeline_inv_def main_step_def Let_def)
next
  case M_pause
  then show ?thesis using inv by (simp add: main_step_def)
qed

lemma display_step_fields:
  "heap (display_step g) = heap g" "decs (display_step g) = decs g" "mpc (display_step g) = mpc g"
  "submitted (display_step g) = submitted g" "det (display_step g) = det g" "spc (display_step g) = spc g"
  "each_frame (display_step g) = each_frame g" "frames (display_step g) = frames g"
  "gNewtaskAvaiable (display_step g) = gNewtaskAvaiable g"
  by (simp_all add: display_step_def split: list.splits)

lemma display_step_inv:
  assumes "pipeline_inv E net P B S g"
  shows "pipeline_inv E net P B S (display_step g)"
proof -
  have "decoder_of (display_step g) = decoder_of g" "frames_of E (display_step g) = frames_of E g"
    by (simp_all add: frames_of_def decoder_of_def display_step_fields fun_eq_iff)
  then show ?thesis using assms by (simp add: pipeline_inv_def display_step_fields Let_def split: main_pc.splits)
qed

lemma pstep_cases:
  assumes "pipeline_inv E net P B S g"
  shows "pstep E t g = (case t of Dec c \<Rightarrow> if c < length (decs g) then dec_step E c g else Some g
      | Sched \<Rightarrow> sched_step E g | Main \<Rightarrow> Some (main_step E g) | Display \<Rightarrow> Some (display_step g))"
  using assms by (cases "spc g") (auto simp: pstep_def pipeline_inv_def Let_def)

lemma pstep_inv:
  assumes inv: "pipeline_inv E net P B S g" and env: "idle_env E net P"
  shows "(\<exists>g' S'. pstep E t g = Some g' \<and> pipeline_inv E net P B S' g') \<or> pstep E t g = None \<and> t = Sched \<and> overrun E g"
proof (cases t)
  case (Dec c)
  then show ?thesis using pstep_cases [OF inv, of t] inv dec_step_inv [OF inv, of c] by (auto split: if_splits)
next
  case Sched
  then show ?thesis using pstep_cases [OF inv, of t] sched_step_inv [OF inv env] by auto
next
  case Main
  then show ?thesis using pstep_cases [OF inv, of t] main_step_inv [OF inv env] by auto
next
  case Display
  then show ?thesis using pstep_cases [OF inv, of t] display_step_inv [OF inv] by auto
qed

text \<open>A run is defined, or it stops at a scheduler step that writes outside \<^verbatim>\<open>each_frame\<close>.\<close>

lemma psteps_inv:
  assumes "pipeline_inv E net P B S g" and "idle_env E net P"
  shows "(\<exists>g' S'. psteps E ts g = Some g' \<and> pipeline_inv E net P B S' g') \<or>
    psteps E ts g = None \<and> (\<exists>us vs h. ts = us @ Sched # vs \<and> psteps E us g = Some h \<and> overrun E h)"
  using assms(1)
proof (induction ts arbitrary: g S)
  case (Cons t ts)
  from pstep_inv [OF Cons.prems assms(2), of t] show ?case
  proof (elim disjE exE conjE)
    fix g1 S1 assume s: "pstep E t g = Some g1" and i: "pipeline_inv E net P B S1 g1"
    from Cons.IH [OF i] show ?case
    proof (elim disjE exE conjE)
      fix us vs h assume "psteps E ts g1 = None" "ts = us @ Sched # vs" "psteps E us g1 = Some h" "overrun E h"
      then have "t # ts = (t # us) @ Sched # vs" "psteps E (t # us) g = Some h" "psteps E (t # ts) g = None" using s by simp_all
      then show ?case using \<open>overrun E h\<close> by blast
    qed (use s in auto)
  next
    assume "pstep E t g = None" "t = Sched" "overrun E g"
    then have "t # ts = [] @ Sched # ts" "psteps E [] g = Some g" "psteps E (t # ts) g = None" by simp_all
    then show ?case using \<open>overrun E g\<close> by blast
  qed
qed auto

lemma psteps_inv_some:
  assumes "pipeline_inv E net P B S g" and "idle_env E net P" and "psteps E ts g = Some g'"
  shows "\<exists>S'. pipeline_inv E net P B S' g'"
  using psteps_inv [OF assms(1,2), of ts] assms(3) by auto

lemma psteps_defined:
  assumes "pipeline_inv E net P B S g" and "idle_env E net P" and "length (vdpipe E) \<le> INPUTNUM"
  shows "\<exists>g'. psteps E ts g = Some g'"
  using psteps_inv [OF assms(1,2), of ts] assms(3) by (auto simp: overrun_def)

text \<open>The pipes as \<^verbatim>\<open>dpipe_create\<close> leaves them: every buffer is free.\<close>

definition idle_pipes :: "'req penv \<Rightarrow> world \<Rightarrow> pool list \<Rightarrow> bool" where
  "idle_pipes E w S \<longleftrightarrow> pools_rel (vdpipe E) w S \<and> start w \<and> (\<forall>s \<in> set S. p_queue s = [] \<and> p_held s = {})"

lemma boot_inv:
  assumes "idle_pipes E w S" and "det_rel (engine E) net P D []" and "idle_env E net P"
  shows "pipeline_inv E net P (map all_bufs S) S (boot w D fr)"
proof -
  have "chan_ok (stream E c) c new_decoder S_none 0 fr (S ! c)" if "c < length (vdpipe E)" for c
  proof -
    have "pool_rel (vdpipe E ! c) w (S ! c)" "S ! c \<in> set S" using assms(1) that by (auto simp: idle_pipes_def pools_rel_def)
    then show ?thesis using assms(1) pool_rel_wf
      by (auto simp: chan_ok_def new_decoder_def stored_frames_def idle_pipes_def Let_def)
  qed
  then show ?thesis using assms by (simp add: pipeline_inv_def boot_def idle_pipes_def decoder_of_def Let_def)
qed

section \<open>Order and conservation\<close>

text \<open>C1. With freshly created pipes, a loaded detector, a network whose rows the parser accepts and pictures of
  its input size, whatever the order in which the threads step: every pointer the pipes follow is valid and the
  detector is called as it expects, so that the only step that can be undefined is the count of
  results, and that only with more than \<^verbatim>\<open>INPUTNUM\<close> = 6 channels, when the scheduler has already submitted
  as many pictures as \<^verbatim>\<open>each_frame\<close> has entries; with up to six channels every schedule runs. The scheduler
  serves the channels in strict rotation: submission \<open>k\<close> (from 0) is picture number \<open>k div N\<close> of
  channel \<open>k mod N\<close>, no picture is dropped, repeated or passed to another channel, and the frame
  number that goes with it is never smaller than the right one. The buffers of a pipe stay in that
  pipe.\<close>

theorem pipeline_rotation:
  assumes "idle_pipes E w S" and "det_rel (engine E) net P D []" and "idle_env E net P"
    and "N = length (vdpipe E)"
  shows "(\<exists>g S'. psteps E ts (boot w D fr) = Some g \<and> pools_rel (vdpipe E) (heap g) S' \<and> map all_bufs S' = map all_bufs S \<and>
    (\<forall>k < length (submitted g).
       let c = k mod N; os = outputs (stream E c) (nFrameProcessed (decs g ! c)) in
       c < length (decs g) \<and> k div N < length os \<and>
       (\<exists>fno. submitted g ! k = (snd (os ! (k div N)), int c, fno, 0) \<and> fst (os ! (k div N)) \<le> fno))) \<or>
    INPUTNUM < N \<and> psteps E ts (boot w D fr) = None \<and>
    (\<exists>us vs h i b img. ts = us @ Sched # vs \<and> psteps E us (boot w D fr) = Some h \<and>
       spc h = S_insert i b img \<and> INPUTNUM \<le> length (submitted h))"
proof -
  have sub: "let c = k mod N; os = outputs (stream E c) (nFrameProcessed (decs g ! c)) in
       c < length (decs g) \<and> k div N < length os \<and>
       (\<exists>fno. submitted g ! k = (snd (os ! (k div N)), int c, fno, 0) \<and> fst (os ! (k div N)) \<le> fno)"
    if g: "pipeline_inv E net P (map all_bufs S) S' g" and k: "k < length (submitted g)" for g S' k
  proof -
    let ?c = "k mod N"
    have c: "?c < length (vdpipe E)" using assms(3,4) by (simp add: idle_env_def)
    have "mpc g = M_pause" using g k by (auto simp: pipeline_inv_def Let_def)
    then have d: "?c < length (decs g)" "decoder_of g ?c = decs g ! ?c"
      using g c by (auto simp: pipeline_inv_def decoder_of_def Let_def)
    have sub: "submission_ok N (frames_of E g) k (submitted g ! k)" using g k assms(4) by (simp add: pipeline_inv_def Let_def)
    obtain xs where "outputs (stream E ?c) (nFrameProcessed (decs g ! ?c)) = frames_of E g ?c @ xs"
      using stored_frames_prefix [of "stream E ?c" "decs g ! ?c"] by (auto simp: frames_of_def d(2))
    then show ?thesis using sub d(1) by (auto simp: submission_ok_def Let_def nth_append)
  qed
  from psteps_inv [OF boot_inv [OF assms(1-3)] assms(3), of ts fr] show ?thesis
  proof (elim disjE exE conjE)
    fix g S' assume g: "psteps E ts (boot w D fr) = Some g" and i: "pipeline_inv E net P (map all_bufs S) S' g"
    have "pools_rel (vdpipe E) (heap g) S'" "map all_bufs S' = map all_bufs S" using i by (simp_all add: pipeline_inv_def Let_def)
    then show ?thesis using g sub [OF i] by blast
  next
    fix us vs h assume "psteps E ts (boot w D fr) = None" "ts = us @ Sched # vs" "psteps E us (boot w D fr) = Some h" "overrun E h"
    then show ?thesis unfolding overrun_def assms(4) by blast
  qed
qed

section \<open>Demonstration states\<close>

definition demo_img :: "nat \<Rightarrow> det_img" where
  "demo_img n = \<lparr>cols = 2, rows = 1, planes = [[of_nat n, 6]]\<rparr>"

definition demo_pipe_env :: "demo_req penv" where
  "demo_pipe_env = \<lparr>vdpipe = [16], stream = (\<lambda>c n. Vpp_frame (demo_img n)), engine = demo_engine, FLAGS_show = False\<rparr>"

definition demo_pipe_world :: world where
  "demo_pipe_world = \<lparr>blocks = (\<lambda>a. if a \<in> {16, 64} then Some 32 else None),
     bufs = [64 \<mapsto> \<lparr>buf_pointer = 0, internal = 0, offset = 0, nxt = 0\<rparr>],
     pipes = [16 \<mapsto> \<lparr>channel_id = 0, pname = None, sync = [], in_p = 64, out_p = 0,
                 out_tail = 0, in_count = 1, out_count = 0\<rparr>],
     dpipemap = Map.empty, start = True, answers = []\<rparr>"

definition demo_blank :: "ptr \<Rightarrow> vframe" where
  "demo_blank a = \<lparr>vf_channel = 0, vf_frameno = 0, vf_image = \<lparr>cols = 0, rows = 0, planes = []\<rparr>\<rparr>"

definition demo_boot :: "demo_req pstate" where
  "demo_boot = boot demo_pipe_world demo_loaded demo_blank"

definition demo_pools :: "pool list" where
  "demo_pools = [\<lparr>p_free = [64], p_queue = [], p_held = {}, p_start = True\<rparr>]"

definition demo_det_params :: det_params where
  "demo_det_params = \<lparr>p_batch = 1, p_channels = 1, p_width = int 2, p_height = int 1, p_proposals = 1, p_size = 7, p_async = True\<rparr>"

lemma demo_pipeline_ok:
  "idle_pipes demo_pipe_env demo_pipe_world demo_pools"
  "det_rel (engine demo_pipe_env) demo_net demo_det_params demo_loaded []"
  "idle_env demo_pipe_env demo_net demo_det_params"
proof -
  show "idle_pipes demo_pipe_env demo_pipe_world demo_pools"
    by (simp add: idle_pipes_def demo_pools_def demo_pipe_env_def demo_pipe_world_def pools_rel_def pool_rel_def pool_ok_def)
  have "det_rel demo_engine demo_net demo_det_params (if True then demo_loaded else SetMode False demo_loaded) []"
    unfolding demo_det_params_def
    by (rule det_rel_loaded [OF demo_load demo_engine_ok]) (simp_all add: demo_env_def demo_engine_def)
  then show "det_rel (engine demo_pipe_env) demo_net demo_det_params demo_loaded []" by (simp add: demo_pipe_env_def)
  have "rnd 24 2 = 2" using rnd_of_int [of 2 24] by simp
  then have "parse_rows 1 7 1 (demo_net blob) [r] False \<noteq> None" if "imgsize r = (2, 1)" for blob r
    using that by (simp add: demo_net_def scaled_box_def f2i_def ctrunc_def int_ok_def fmul_def i2f_def rnd_1 numeral_eq_Suc Let_def)
  then have "net_ok demo_net demo_det_params" by (auto simp: net_ok_def demo_det_params_def length_Suc_conv simp del: parse_rows.simps)
  then show "idle_env demo_pipe_env demo_net demo_det_params"
    by (auto simp: idle_env_def demo_pipe_env_def INPUTNUM_def demo_det_params_def fits_def demo_img_def)
qed

lemma demo_outputs: "outputs (stream demo_pipe_env c) n = map (\<lambda>j. (int (Suc j), demo_img j)) [0..<n]"
  by (induction n) (simp_all add: demo_pipe_env_def)

theorem pipeline_rotation_witness:
  "\<exists>g S'. psteps demo_pipe_env [Main, Main, Main, Main, Dec 0, Dec 0, Dec 0, Dec 0, Dec 0, Dec 0, Sched, Sched, Sched, Sched, Sched]
     (boot demo_pipe_world demo_loaded demo_blank) = Some g \<and> pools_rel [16] (heap g) S' \<and> map all_bufs S' = [{64}] \<and>
     (\<forall>k < length (submitted g). \<exists>fno \<ge> int (Suc k). submitted g ! k = (demo_img k, 0, fno, 0))"
proof -
  have v: "vdpipe demo_pipe_env = [16]" "map all_bufs demo_pools = [{64}]" "\<not> INPUTNUM < length [16::nat]"
    by (simp_all add: demo_pipe_env_def demo_pools_def all_bufs_def INPUTNUM_def)
  from pipeline_rotation [OF demo_pipeline_ok refl, of "[Main, Main, Main, Main, Dec 0, Dec 0, Dec 0, Dec 0, Dec 0, Dec 0, Sched, Sched, Sched, Sched, Sched]" demo_blank]
  show ?thesis unfolding v
    by (elim disjE exE conjE, intro exI conjI) (use v(3) in \<open>auto simp: demo_outputs Let_def simp del: upt_Suc\<close>)
qed

end
