(* ===== verification/PipelineLive.thy ===== *)
theory PipelineLive
  imports PipelineFacts
begin

text \<open>
  Liveness of the pipeline: the semaphore counts the frames that wait for the scheduler, so that some
  thread can always go on, provided that it is initialised before the first decoder posts; what
  happens otherwise; and the frame number that the detector gets when a buffer is reused early.
\<close>

section \<open>What the semaphore counts\<close>

text \<open>The rounds of the scheduler that have begun: one per \<^verbatim>\<open>sem_wait\<close> that returned.\<close>

fun rounds :: "nat \<Rightarrow> sched_pc \<Rightarrow> nat \<Rightarrow> nat" where
  "rounds N S_none m = m div N"
| "rounds N S_wait m = m div N"
| "rounds N (S_show i) m = (m - 1) div N + 1"
| "rounds N _ m = m div N + 1"

text \<open>The posts of a decoder: one per stored frame, but for the frame it is about to announce.\<close>

definition posts :: "(nat \<Rightarrow> vpp_answer) \<Rightarrow> decoder \<Rightarrow> int" where
  "posts f d = int (length (stored_frames f d)) - (if d_pc d = D_post then 1 else 0)"

definition awake :: "'req penv \<Rightarrow> 'req pstate \<Rightarrow> bool" where
  "awake E g \<longleftrightarrow> (let N = length (vdpipe E) in
     (spc g = S_none \<longleftrightarrow> mpc g \<noteq> M_pause) \<and> g_semtshow g = length (gresultque g) \<and>
     (case spc g of S_show i \<Rightarrow> submitted g \<noteq> [] | _ \<Rightarrow> True) \<and>
     int (gNewtaskAvaiable g) + int (rounds N (spc g) (length (submitted g))) = (\<Sum>c < N. posts (stream E c) (decoder_of g c)))"

lemma decoder_of_update [simp]:
  "decoder_of (g\<lparr>heap := w\<rparr>) = decoder_of g" "decoder_of (g\<lparr>spc := s\<rparr>) = decoder_of g"
  "decoder_of (g\<lparr>gNewtaskAvaiable := n\<rparr>) = decoder_of g" "decoder_of (g\<lparr>det := D\<rparr>) = decoder_of g"
  "decoder_of (g\<lparr>last_objects := os\<rparr>) = decoder_of g" "decoder_of (g\<lparr>submitted := fs\<rparr>) = decoder_of g"
  "decoder_of (g\<lparr>each_frame := ef\<rparr>) = decoder_of g" "decoder_of (g\<lparr>gresultque := q\<rparr>) = decoder_of g"
  "decoder_of (g\<lparr>g_semtshow := n\<rparr>) = decoder_of g"
  by (simp_all add: decoder_of_def fun_eq_iff)

lemma sum_one:
  fixes N :: nat and F F' :: "nat \<Rightarrow> int"
  assumes "c < N" and "\<And>a. a \<noteq> c \<Longrightarrow> F' a = F a"
  shows "(\<Sum>a < N. F' a) = (\<Sum>a < N. F a) + (F' c - F c)"
proof -
  have "(\<Sum>a < N. F' a) - (\<Sum>a < N. F a) = (\<Sum>a < N. F' a - F a)" by (simp add: sum_subtractf)
  also have "\<dots> = (\<Sum>a < N. if a = c then F' c - F c else 0)" using assms(2) by (intro sum.cong) auto
  also have "\<dots> = F' c - F c" using assms(1) by (simp add: sum.delta sum.delta')
  finally show ?thesis by simp
qed

lemma awake_dec:
  assumes inv: "pipeline_inv E net P B S g" and aw: "awake E g" and c: "c < length (decs g)"
    and step: "dec_step E c g = Some g'"
  shows "awake E g'"
proof -
  let ?d = "decs g ! c" and ?f = "stream E c" and ?N = "length (vdpipe E)"
  have cN: "c < ?N" using inv c by (auto simp: pipeline_inv_def Let_def)
  note facts = pipeline_inv_chan [OF inv cN]
  have other: "awake E g'" if "g' = g" using aw that by simp
  have moved: "awake E g'" if g': "mpc g' = mpc g" "spc g' = spc g" "g_semtshow g' = g_semtshow g" "gresultque g' = gresultque g"
      "submitted g' = submitted g" "decs g' = (decs g)[c := d']"
      and n: "int (gNewtaskAvaiable g') - int (gNewtaskAvaiable g) = posts ?f d' - posts ?f ?d" for d'
  proof -
    have "decoder_of g' a = (if a = c then d' else decoder_of g a)" for a using g'(6) c by (simp add: decoder_of_def)
    then have "(\<Sum>a < ?N. posts (stream E a) (decoder_of g' a)) = (\<Sum>a < ?N. posts (stream E a) (decoder_of g a)) + (posts ?f d' - posts ?f ?d)"
      using sum_one [OF cN, of "\<lambda>a. posts (stream E a) (decoder_of g' a)" "\<lambda>a. posts (stream E a) (decoder_of g a)"] c
      by (simp add: decoder_of_def)
    then show ?thesis using aw g' n by (auto simp: awake_def Let_def split: sched_pc.splits)
  qed
  show ?thesis
  proof (cases "d_pc ?d")
    case D_decode
    then show ?thesis using step
      by (intro moved [of "decs g' ! c"]) (use c in \<open>auto simp: dec_step_def upd_dec_def posts_def stored_frames_def Let_def split: vpp_answer.splits\<close>)
  next
    case D_get
    then obtain r w where r: "dpipe_get_round (vdpipe E ! c) (heap g) = Some (r, w)"
      using step by (auto simp: dec_step_def Let_def split: Option.bind_splits)
    show ?thesis
    proof (cases r)
      case Again
      then show ?thesis using step r D_get by (intro other) (auto simp: dec_step_def Let_def)
    next
      case (Got b)
      have "b \<noteq> null"
      proof (cases "p_free (S ! c)")
        case Nil
        then have "pool_spec Get (S ! c) = Some (Again, S ! c)" using facts(4) by simp
        from pools_step [OF facts(2) cN this] r Got show ?thesis by auto
      next
        case (Cons b' bs)
        then have "pool_spec Get (S ! c) = Some (Got b', (S ! c)\<lparr>p_free := bs, p_held := insert b' (p_held (S ! c))\<rparr>)" by simp
        from pools_step [OF facts(2) cN this] r Got have "b = b'" by auto
        then show ?thesis using Cons facts(5) by (auto simp: all_bufs_def)
      qed
      then show ?thesis using step r Got D_get
        by (intro moved [of "?d\<lparr>d_pc := D_tag b\<rparr>"]) (auto simp: dec_step_def upd_dec_def posts_def stored_frames_def Let_def)
    qed
  next
    case (D_tag b)
    then show ?thesis using step
      by (intro moved [of "?d\<lparr>d_pc := D_image b\<rparr>"]) (auto simp: dec_step_def upd_dec_def posts_def stored_frames_def Let_def)
  next
    case (D_image b)
    then show ?thesis using step
      by (intro moved [of "?d\<lparr>d_pc := D_store b\<rparr>"]) (auto simp: dec_step_def upd_dec_def posts_def stored_frames_def Let_def)
  next
    case (D_store b)
    have "chan_ok ?f c ?d (spc g) (turns ?N (length (submitted g)) c) (frames g) (S ! c)"
      using facts(1) c by (simp add: decoder_of_def)
    then have "outputs ?f (nFrameProcessed ?d) = stored_frames ?f ?d @ [(int (nFrameProcessed ?d), d_surface ?d)]"
      using D_store by (auto simp: chan_ok_def Let_def)
    moreover have "stored_frames ?f (?d\<lparr>d_pc := D_post\<rparr>) = outputs ?f (nFrameProcessed ?d)" by (simp add: stored_frames_def)
    ultimately have "posts ?f (?d\<lparr>d_pc := D_post\<rparr>) = posts ?f ?d" using D_store by (simp add: posts_def)
    then show ?thesis using step D_store
      by (intro moved [of "?d\<lparr>d_pc := D_post\<rparr>"]) (auto simp: dec_step_def upd_dec_def Let_def split: Option.bind_splits)
  next
    case D_post
    then show ?thesis using step
      by (intro moved [of "?d\<lparr>d_pc := D_decode\<rparr>"]) (auto simp: dec_step_def upd_dec_def posts_def stored_frames_def Let_def)
  next
    case D_done
    then show ?thesis using step by (intro other) (simp add: dec_step_def Let_def)
  qed
qed

lemma rounds_next:
  assumes "i < length (vdpipe E)" and "m mod length (vdpipe E) = i"
  shows "rounds (length (vdpipe E)) (next_pipe E i) (Suc m) = m div length (vdpipe E) + 1"
  using assms by (auto simp: next_pipe_def div_Suc mod_Suc)

lemma next_pipe_cases:
  obtains "next_pipe E i = S_load (Suc i)" | "next_pipe E i = S_wait"
  by (cases "Suc i < length (vdpipe E)") (simp_all add: next_pipe_def)

lemma awake_sched:
  assumes inv: "pipeline_inv E net P B S g" and aw: "awake E g" and env: "idle_env E net P"
    and step: "sched_step E g = Some g'"
  shows "awake E g'"
proof -
  let ?N = "length (vdpipe E)" and ?m = "length (submitted g)"
  have at: "sched_at ?N (spc g) ?m" and N: "0 < ?N" using inv env by (simp_all add: pipeline_inv_def idle_env_def Let_def)
  show ?thesis
  proof (cases "spc g")
    case (S_insert i b img)
    then have i: "i < ?N" "?m mod ?N = i" using at by simp_all
    from step S_insert obtain r D where call: "InsertImage (engine E) img (last_objects g) (vf_channel (frames g b))
        (vf_frameno (frames g b)) 0 (det g) = Some (r, D)"
      by (auto simp: sched_step_def split: Option.bind_splits)
    have "\<not> (\<exists>e. spc g' = S_thrown e)"
      using sched_step_inv [OF inv env] step by (fastforce simp: pipeline_inv_def Let_def)
    then obtain status objs where r: "r = Inr (status, objs)"
      using step S_insert call by (cases r) (auto simp: sched_step_def Let_def)
    note eqs = step S_insert call r aw rounds_next [OF i]
    show ?thesis
    proof (cases rule: next_pipe_cases [of E i])
      case 1
      then show ?thesis using eqs by (auto simp: sched_step_def awake_def Let_def split: if_splits Option.bind_splits)
    next
      case 2
      then show ?thesis using eqs by (auto simp: sched_step_def awake_def Let_def split: if_splits Option.bind_splits)
    qed
  next
    case (S_show i)
    then have i: "i < ?N" "?m mod ?N = Suc i mod ?N" "submitted g \<noteq> []" using at aw by (simp_all add: awake_def Let_def)
    then obtain k where k: "?m = Suc k" by (cases "submitted g") auto
    have "k mod ?N = i"
    proof (cases "Suc (k mod ?N) = ?N")
      case True
      then have "Suc i mod ?N = 0" using i(2) k by (simp add: mod_Suc)
      then have "Suc i = ?N" using i(1) by (metis Suc_lessI mod_less nat.distinct(1))
      then show ?thesis using True by simp
    next
      case False
      then have "Suc (k mod ?N) = Suc i mod ?N" using i(2) k by (simp add: mod_Suc)
      then show ?thesis using i(1) by (metis Suc_lessI mod_less mod_self nat.distinct(1) nat.inject)
    qed
    note eqs = rounds_next [OF i(1) this] k step S_show aw i(3)
    show ?thesis
    proof (cases rule: next_pipe_cases [of E i])
      case 1
      then show ?thesis using eqs by (auto simp: sched_step_def awake_def Let_def split: if_splits)
    next
      case 2
      then show ?thesis using eqs by (auto simp: sched_step_def awake_def Let_def split: if_splits)
    qed
  next
    case (S_load i)
    then show ?thesis using step aw
      by (auto simp: sched_step_def awake_def Let_def split: Option.bind_splits option.splits)
  next
    case (S_put i b img)
    then show ?thesis using step aw by (auto simp: sched_step_def awake_def Let_def split: Option.bind_splits)
  qed (use step aw N in \<open>auto simp: sched_step_def awake_def Let_def split: if_splits\<close>)
qed

lemma awake_main:
  assumes inv: "pipeline_inv E net P B S g" and aw: "awake E g" and sem: "mpc g = M_sem \<Longrightarrow> gNewtaskAvaiable g = 0"
  shows "awake E (main_step E g)"
proof -
  have same: "decoder_of (main_step E g) c = decoder_of g c" for c
  proof (cases "mpc g")
    case (M_decoders n)
    then show ?thesis by (auto simp: main_step_def decoder_of_def nth_append)
  qed (simp_all add: main_step_def decoder_of_def)
  have "spc g = S_none \<and> submitted g = []" if "mpc g \<noteq> M_pause" using inv that by (auto simp: pipeline_inv_def Let_def)
  then show ?thesis using aw sem unfolding awake_def Let_def same
    by (cases "mpc g") (auto simp: main_step_def split: sched_pc.splits)
qed

lemma awake_pstep:
  assumes inv: "pipeline_inv E net P B S g" and aw: "awake E g" and env: "idle_env E net P"
    and sem: "mpc g = M_sem \<Longrightarrow> t = Main \<Longrightarrow> gNewtaskAvaiable g = 0" and step: "pstep E t g = Some g'"
  shows "awake E g'"
proof (cases t)
  case (Dec c)
  then show ?thesis using pstep_cases [OF inv, of t] step aw awake_dec [OF inv aw, of c] by (auto split: if_splits)
next
  case Sched
  then show ?thesis using pstep_cases [OF inv, of t] step awake_sched [OF inv aw env] by simp
next
  case Main
  then show ?thesis using pstep_cases [OF inv, of t] step awake_main [OF inv aw] sem by auto
next
  case Display
  have "g_semtshow (display_step g) = length (gresultque (display_step g))" "decoder_of (display_step g) = decoder_of g"
    using aw by (auto simp: display_step_def awake_def decoder_of_def Let_def fun_eq_iff split: list.splits)
  then show ?thesis using pstep_cases [OF inv, of t] step Display aw
    by (auto simp: awake_def display_step_fields Let_def split: sched_pc.splits)
qed

lemma mpc_step:
  assumes "pipeline_inv E net P B S g" and "pstep E t g = Some g'"
  shows "mpc g' = (if t = Main then mpc (main_step E g) else mpc g)"
proof -
  have "mpc g' = mpc g" if "dec_step E c g = Some g'" for c
    using that by (auto simp: dec_step_def upd_dec_def Let_def split: dec_pc.splits vpp_answer.splits Option.bind_splits attempt.splits)
  moreover have "mpc g' = mpc g" if "sched_step E g = Some g'"
    using that by (auto simp: sched_step_def Let_def split: sched_pc.splits Option.bind_splits option.splits sum.splits if_splits)
  ultimately show ?thesis using assms(2) pstep_cases [OF assms(1), of t]
    by (auto simp: display_step_fields split: thread.splits if_splits)
qed

text \<open>\<^verbatim>\<open>main\<close> has initialised the semaphore.\<close>

definition initialised :: "'req pstate \<Rightarrow> bool" where
  "initialised g \<longleftrightarrow> mpc g = M_scheduler \<or> mpc g = M_pause"

lemma psteps_invariant:
  assumes step: "\<And>g S t g'. pipeline_inv E net P B S g \<Longrightarrow> Q g \<Longrightarrow> pstep E t g = Some g' \<Longrightarrow> Q g'"
    and env: "idle_env E net P"
  shows "pipeline_inv E net P B S g \<Longrightarrow> Q g \<Longrightarrow> psteps E ts g = Some g' \<Longrightarrow> Q g'"
proof (induction ts arbitrary: g S)
  case (Cons t ts)
  then obtain g1 where g1: "pstep E t g = Some g1" "psteps E ts g1 = Some g'" by (auto split: Option.bind_splits)
  with pstep_inv [OF Cons.prems(1) env, of t] obtain S1 where "pipeline_inv E net P B S1 g1" by auto
  from Cons.IH [OF this step [OF Cons.prems(1,2) g1(1)] g1(2)] show ?case .
qed simp

lemma initialised_step:
  "pipeline_inv E net P B S g \<Longrightarrow> initialised g \<Longrightarrow> pstep E t g = Some g' \<Longrightarrow> initialised g'"
  by (drule (1) mpc_step) (auto simp: initialised_def main_step_def split: if_splits)

lemma awake_after:
  "pipeline_inv E net P B S g \<Longrightarrow> initialised g \<and> awake E g \<Longrightarrow> idle_env E net P \<Longrightarrow> pstep E t g = Some g' \<Longrightarrow>
     initialised g' \<and> awake E g'"
  using initialised_step awake_pstep by (metis initialised_def main_pc.distinct(7,9))

lemma awake_before:
  assumes "pipeline_inv E net P B S g" and "initialised g \<or> awake E g" and env: "idle_env E net P"
    and "pstep E t g = Some g'"
  shows "initialised g' \<or> awake E g'"
proof (cases "initialised g")
  case True
  then show ?thesis using initialised_step assms(1,4) by blast
next
  case False
  then have aw: "awake E g" using assms(2) by simp
  show ?thesis
  proof (cases "mpc g = M_sem \<and> t = Main")
    case True
    then have "mpc g' = M_scheduler" using mpc_step [OF assms(1,4)] by (simp add: main_step_def)
    then show ?thesis by (simp add: initialised_def)
  next
    case False
    then show ?thesis using awake_pstep [OF assms(1) aw env _ assms(4)] by blast
  qed
qed

section \<open>Progress\<close>

lemma dec_moves:
  assumes inv: "pipeline_inv E net P B S g" and c: "c < length (decs g)" and pc: "d_pc (decs g ! c) \<noteq> D_done"
    and free: "d_pc (decs g ! c) = D_get \<Longrightarrow> p_free (S ! c) \<noteq> []"
  shows "dec_step E c g \<noteq> Some g"
proof
  assume st: "dec_step E c g = Some g"
  let ?d = "decs g ! c"
  have cN: "c < length (vdpipe E)" using inv c by (auto simp: pipeline_inv_def Let_def)
  note facts = pipeline_inv_chan [OF inv cN]
  have no: "False" if "dec_step E c g = Some g'" "decs g' = (decs g)[c := d']" "d' \<noteq> ?d" for g' d'
    using st that c by (metis nth_list_update_eq option.inject)
  show False
  proof (cases "d_pc ?d")
    case D_decode
    show False
    proof (cases "stream E c (nFrameProcessed ?d)")
      case (Vpp_frame img)
      with D_decode show False
        by (intro no [of _ "?d\<lparr>d_pc := D_get, nFrameProcessed := nFrameProcessed ?d + 1, d_surface := img\<rparr>"])
          (auto simp: dec_step_def upd_dec_def Let_def dest: arg_cong [where f = d_pc])
    next
      case Vpp_more_data
      with D_decode show False
        by (intro no [of _ "?d\<lparr>nFrameProcessed := nFrameProcessed ?d + 1\<rparr>"])
          (auto simp: dec_step_def upd_dec_def Let_def dest: arg_cong [where f = nFrameProcessed])
    next
      case Vpp_error
      with D_decode show False
        by (intro no [of _ "?d\<lparr>d_pc := D_done, nFrameProcessed := nFrameProcessed ?d + 1\<rparr>"])
          (auto simp: dec_step_def upd_dec_def Let_def dest: arg_cong [where f = d_pc])
    qed
  next
    case D_get
    then obtain b bs where "p_free (S ! c) = b # bs" using free by (cases "p_free (S ! c)") auto
    then have "pool_spec Get (S ! c) = Some (Got b, (S ! c)\<lparr>p_free := bs, p_held := insert b (p_held (S ! c))\<rparr>)" by simp
    from pools_step [OF facts(2) cN this] obtain w' where "dpipe_get_round (vdpipe E ! c) (heap g) = Some (Got b, w')" by auto
    with D_get show False
      by (intro no [of _ "?d\<lparr>d_pc := (if b = null then D_done else D_tag b)\<rparr>"])
        (auto simp: dec_step_def upd_dec_def Let_def dest: arg_cong [where f = d_pc])
  next
    case (D_tag b)
    then show False by (intro no [of _ "?d\<lparr>d_pc := D_image b\<rparr>"]) (auto simp: dec_step_def upd_dec_def Let_def dest: arg_cong [where f = d_pc])
  next
    case (D_image b)
    then show False by (intro no [of _ "?d\<lparr>d_pc := D_store b\<rparr>"]) (auto simp: dec_step_def upd_dec_def Let_def dest: arg_cong [where f = d_pc])
  next
    case (D_store b)
    then obtain w where "dpipe_store (vdpipe E ! c) b (heap g) = Some w"
      using st by (auto simp: dec_step_def Let_def split: Option.bind_splits)
    with D_store show False by (intro no [of _ "?d\<lparr>d_pc := D_post\<rparr>"]) (auto simp: dec_step_def upd_dec_def Let_def dest: arg_cong [where f = d_pc])
  next
    case D_post
    then show False by (intro no [of _ "?d\<lparr>d_pc := D_decode\<rparr>"]) (auto simp: dec_step_def upd_dec_def Let_def dest: arg_cong [where f = d_pc])
  qed (use pc in simp)
qed

lemma queue_length:
  assumes "chan_ok f c d sp t fr s"
  shows "length (stored_frames f d) = t + taken sp c + length (p_queue s)"
proof -
  have "length (map (content fr) (p_queue s)) = length (drop (t + taken sp c) (stored_frames f d))"
    "t + taken sp c \<le> length (stored_frames f d)" using assms by (simp_all add: chan_ok_def Let_def)
  then show ?thesis by simp
qed

text \<open>With every decoder running but out of free buffers, the semaphore is positive or the scheduler is busy.\<close>

lemma progress:
  assumes inv: "pipeline_inv E net P B S g" and aw: "awake E g" and env: "idle_env E net P"
    and full: "\<And>c. c < length (vdpipe E) \<Longrightarrow> all_bufs (S ! c) \<noteq> {}"
    and notdone: "\<And>c. c < length (vdpipe E) \<Longrightarrow> d_pc (decs g ! c) \<noteq> D_done"
  shows "\<exists>t. pstep E t g \<noteq> Some g"
proof (rule ccontr)
  assume "\<not> (\<exists>t. pstep E t g \<noteq> Some g)"
  then have stuck: "pstep E t g = Some g" for t by blast
  let ?N = "length (vdpipe E)" and ?m = "length (submitted g)"
  note s = pstep_cases [OF inv]
  have "main_step E g = g" using stuck [of Main] s by simp
  then have m: "mpc g = M_pause" by (cases "mpc g") (auto simp: main_step_def split: if_splits dest: arg_cong [where f = mpc])
  have at: "sched_at ?N (spc g) ?m" and N: "0 < ?N" and none: "spc g \<noteq> S_none"
    and sem': "int (gNewtaskAvaiable g) + int (rounds ?N (spc g) ?m) = (\<Sum>c < ?N. posts (stream E c) (decoder_of g c))"
    and sh: "g_semtshow g = length (gresultque g)"
    using inv env aw m by (simp_all add: pipeline_inv_def idle_env_def awake_def Let_def)
  have sem: "int (gNewtaskAvaiable g) + int (rounds ?N (spc g) ?m) = (\<Sum>c < ?N. posts (stream E c) (decs g ! c))"
    unfolding sem' using dec_exists(1) [OF inv none] by (intro sum.cong) auto
  have dl: "length (decs g) = ?N" using inv m by (simp add: pipeline_inv_def Let_def)
  have get: "d_pc (decs g ! c) = D_get" "p_free (S ! c) = []" if "c < ?N" for c
    using dec_moves [OF inv _ notdone [OF that]] stuck [of "Dec c"] s that dl by auto
  have ch: "chan_ok (stream E c) c (decs g ! c) (spc g) (turns ?N ?m c) (frames g) (S ! c)" if "c < ?N" for c
    using pipeline_inv_chan(1) [OF inv that] dec_exists [OF inv none that] by simp
  have queue: "p_queue (S ! c) \<noteq> []" if "c < ?N" "taken (spc g) c = 0" for c
  proof -
    have "sched_bufs (spc g) c = {}" using that(2) by (cases "spc g") (auto split: if_splits)
    then have "p_held (S ! c) = {}" using ch [OF that(1)] get [OF that(1)] by (simp add: chan_ok_def Let_def)
    then show ?thesis using full [OF that(1)] get(2) [OF that(1)] by (auto simp: all_bufs_def)
  qed
  have sched: "sched_step E g = Some g" using stuck [of Sched] s by simp
  have no: "False" if "sched_step E g = Some g'" "spc g' \<noteq> spc g" for g' using sched that by auto
  show False
  proof (cases "spc g")
    case S_wait
    have "?m div ?N + 1 \<le> posts (stream E c) (decs g ! c)" if c: "c < ?N" for c
    proof -
      have "0 < length (p_queue (S ! c))" using queue [OF c] S_wait by simp
      moreover have "length (stored_frames (stream E c) (decs g ! c)) = ?m div ?N + length (p_queue (S ! c))"
        using queue_length [OF ch [OF c]] S_wait at by (simp add: turns_def)
      ultimately show ?thesis using get(1) [OF c] by (simp add: posts_def Suc_le_eq)
    qed
    then have "(\<Sum>c < ?N. int (?m div ?N) + 1) \<le> (\<Sum>c < ?N. posts (stream E c) (decs g ! c))"
      by (intro sum_mono) (simp add: add.commute)
    then have "int ?N * (int (?m div ?N) + 1) \<le> int (gNewtaskAvaiable g) + int (?m div ?N)" using sem S_wait by simp
    moreover have "1 * (int (?m div ?N) + 1) \<le> int ?N * (int (?m div ?N) + 1)" using N by (intro mult_right_mono) (simp_all add: Suc_le_eq)
    ultimately have "1 * (int (?m div ?N) + 1) \<le> int (gNewtaskAvaiable g) + int (?m div ?N)" by (rule order_trans [rotated])
    then have "0 < gNewtaskAvaiable g" by simp
    then show False using S_wait N by (intro no) (auto simp: sched_step_def)
  next
    case (S_load i)
    have i: "i < ?N" using at S_load by simp
    obtain b bs where q: "p_queue (S ! i) = b # bs" using queue [OF i] S_load by (cases "p_queue (S ! i)") auto
    note f = pipeline_inv_chan [OF inv i]
    have ok: "pool_ok (heap g) (vdpipe E ! i) (p_free (S ! i)) (p_queue (S ! i))" using f(3) by (simp add: pool_rel_def)
    have "pool_spec Load (S ! i) = Some (Got b, (S ! i)\<lparr>p_queue := bs, p_held := insert b (p_held (S ! i))\<rparr>)" using q by simp
    from pools_step [OF f(2) i this] obtain w' where "dpipe_load_nowait (vdpipe E ! i) (heap g) = Some (b, w')" by auto
    then show False using S_load q dpipe_load_pool [OF ok] by (intro no) (auto simp: sched_step_def)
  next
    case (S_copy i b)
    then show False by (intro no) (auto simp: sched_step_def)
  next
    case (S_put i b img)
    then show False using sched by (auto simp: sched_step_def split: Option.bind_splits dest: arg_cong [where f = spc])
  next
    case (S_insert i b img)
    then show False using sched
      by (auto simp: sched_step_def Let_def split: Option.bind_splits sum.splits if_splits dest!: arg_cong [where f = "length \<circ> submitted"])
  next
    case (S_show i)
    show False
    proof (cases "2 \<le> length (gresultque g)")
      case True
      then obtain q qs where "gresultque g = q # qs" by (cases "gresultque g") auto
      then have "gresultque (display_step g) = qs" using sh by (simp add: display_step_def)
      then have "display_step g \<noteq> g" using \<open>gresultque g = q # qs\<close> by auto
      then show False using stuck [of Display] s by simp
    next
      case False
      then show False using S_show by (cases rule: next_pipe_cases [of E i]) (auto intro: no simp: sched_step_def)
    qed
  qed (use at none in simp_all)
qed

section \<open>Starting order\<close>

lemma psteps_append: "psteps E (ts @ us) g = do { g1 \<leftarrow> psteps E ts g; psteps E us g1 }"
  by (induction ts arbitrary: g) (auto split: Option.bind_splits)

lemma boot_fields [simp]:
  "spc (boot w D fr) = S_none" "mpc (boot w D fr) = M_decoders 0" "decs (boot w D fr) = []" "submitted (boot w D fr) = []"
  "gNewtaskAvaiable (boot w D fr) = 0" "gresultque (boot w D fr) = []" "g_semtshow (boot w D fr) = 0"
  by (simp_all add: boot_def)

lemma boot_awake: "awake E (boot w D fr)"
  by (simp add: awake_def decoder_of_def posts_def stored_frames_def new_decoder_def Let_def)

text \<open>An interleaving in which the semaphore is initialised before the first post leaves the count right.\<close>

lemma good_start_awake:
  assumes inv: "pipeline_inv E net P B S (boot w D fr)" and env: "idle_env E net P"
    and us: "psteps E us (boot w D fr) = Some g0" "mpc g0 = M_sem" "gNewtaskAvaiable g0 = 0"
    and ts: "psteps E (us @ Main # ts) (boot w D fr) = Some g"
  shows "awake E g"
proof -
  from psteps_inv_some [OF inv env us(1)] obtain S0 where S0: "pipeline_inv E net P B S0 g0" by blast
  have "initialised g0 \<or> awake E g0"
  proof (rule psteps_invariant [where Q = "\<lambda>g. initialised g \<or> awake E g", OF _ env inv _ us(1)])
    show "initialised (boot w D fr) \<or> awake E (boot w D fr)" using boot_awake by blast
  qed (rule awake_before [OF _ _ env])
  then have aw: "awake E g0" using us(2) by (simp add: initialised_def)
  obtain g1 where g1: "pstep E Main g0 = Some g1" "psteps E ts g1 = Some g" using ts us(1) by (auto simp: psteps_append split: Option.bind_splits)
  from pstep_inv [OF S0 env, of Main] g1(1) obtain S1 where S1: "pipeline_inv E net P B S1 g1" by auto
  have "awake E g1" by (rule awake_pstep [OF S0 aw env us(3) g1(1)])
  moreover have "initialised g1" using mpc_step [OF S0 g1(1)] us(2) by (simp add: initialised_def main_step_def)
  ultimately have "initialised g1 \<and> awake E g1" by blast
  from psteps_invariant [where Q = "\<lambda>g. initialised g \<and> awake E g", OF _ env S1 this g1(2)] show ?thesis
    using awake_after [OF _ _ env] by blast
qed

section \<open>A buffer reused too early\<close>

text \<open>The free list is a stack: the buffer that the scheduler has just put back is the next one to go.\<close>

lemma race_steps:
  assumes inv: "pipeline_inv E net P B S g" and env: "idle_env E net P"
    and spc: "spc g = S_put i b img" and pc: "d_pc (decs g ! i) = D_decode"
    and next_frame: "stream E i (nFrameProcessed (decs g ! i)) = Vpp_frame img'"
  shows "\<exists>h. psteps E [Sched, Dec i, Dec i, Dec i] g = Some h \<and> spc h = S_insert i b img \<and> submitted h = submitted g \<and>
    vf_channel (frames h b) = int i \<and> vf_frameno (frames h b) = int (Suc (nFrameProcessed (decs g ! i)))"
proof -
  let ?N = "length (vdpipe E)" and ?d = "decs g ! i"
  have i: "i < ?N" using inv spc by (simp add: pipeline_inv_def Let_def)
  note f = pipeline_inv_chan [OF inv i] and dec = dec_exists [OF inv _ i, unfolded spc, simplified]
  let ?s = "(S ! i)\<lparr>p_free := b # p_free (S ! i), p_held := p_held (S ! i) - {b}\<rparr>"
  have b: "b \<in> p_held (S ! i)" "b \<noteq> null" using f(1,5) spc by (auto simp: chan_ok_def all_bufs_def Let_def)
  then have "pool_spec (Put b) (S ! i) = Some (Got b, ?s)" by simp
  from pools_step [OF f(2) i this] obtain w1 where w1: "dpipe_put (vdpipe E ! i) b (heap g) = Some w1"
    "pools_rel (vdpipe E) w1 (S[i := ?s])" by auto
  have l: "length S = ?N" by (rule f(6))
  have "pool_spec Get (S[i := ?s] ! i) = Some (Got b, ?s\<lparr>p_free := p_free (S ! i), p_held := insert b (p_held ?s)\<rparr>)"
    using l i by simp
  from pools_step [OF w1(2) i this] obtain w2 where w2: "dpipe_get_round (vdpipe E ! i) w1 = Some (Got b, w2)" by auto
  have st: "spc g \<noteq> S_none" "i < length (decs g)" using spc dec by simp_all
  show ?thesis using w1(1) w2 b(2) st(2) spc pc next_frame
    by (simp add: pstep_def sched_step_def dec_step_def upd_dec_def Let_def)
qed

section \<open>Decoders that fill their pools\<close>

text \<open>What is left to do until the decoder waits for a free buffer.\<close>

fun dec_rank :: "dec_pc \<Rightarrow> nat" where
  "dec_rank D_get = 0"
| "dec_rank D_decode = 1"
| "dec_rank D_post = 2"
| "dec_rank (D_store b) = 3"
| "dec_rank (D_image b) = 4"
| "dec_rank (D_tag b) = 5"
| "dec_rank D_done = 0"

definition dec_work :: "decoder \<Rightarrow> pool \<Rightarrow> nat" where
  "dec_work d s = 6 * length (p_free s) + dec_rank (d_pc d)"

definition starved :: "decoder \<Rightarrow> pool \<Rightarrow> bool" where
  "starved d s \<longleftrightarrow> d_pc d = D_get \<and> p_free s = []"

text \<open>The threads other than decoders do not move.\<close>

definition quiet :: "'req pstate \<Rightarrow> 'req pstate \<Rightarrow> bool" where
  "quiet g g' \<longleftrightarrow> spc g' = spc g \<and> mpc g' = mpc g \<and> submitted g' = submitted g \<and> gresultque g' = gresultque g \<and>
     g_semtshow g' = g_semtshow g"

lemma quiet_trans: "quiet g g1 \<Longrightarrow> quiet g1 g2 \<Longrightarrow> quiet g g2"
  by (simp add: quiet_def)

lemma dec_step_quiet: "dec_step E c g = Some g' \<Longrightarrow> quiet g g' \<and> (\<forall>a. a \<noteq> c \<longrightarrow> decs g' ! a = decs g ! a) \<and> length (decs g') = length (decs g)"
  by (auto simp: quiet_def dec_step_def upd_dec_def Let_def split: dec_pc.splits Option.bind_splits attempt.splits)

lemma dec_works:
  assumes inv: "pipeline_inv E net P B S g" and c: "c < length (decs g)"
    and busy: "\<not> starved (decs g ! c) (S ! c)" and alive: "d_pc (decs g ! c) \<noteq> D_done"
    and pics: "\<And>n. \<exists>img. stream E c n = Vpp_frame img"
  shows "\<exists>g' s'. dec_step E c g = Some g' \<and> pipeline_inv E net P B (S[c := s']) g' \<and>
    d_pc (decs g' ! c) \<noteq> D_done \<and> dec_work (decs g' ! c) s' < dec_work (decs g ! c) (S ! c)"
proof -
  from dec_step_inv [OF inv c] obtain g' s' where step: "dec_step E c g = Some g'" "pipeline_inv E net P B (S[c := s']) g'"
    and len: "length (p_free s') = length (p_free (S ! c)) - (if d_pc (decs g ! c) = D_get then 1 else 0)" by blast
  have "d_pc (decs g' ! c) \<noteq> D_done \<and> dec_work (decs g' ! c) s' < dec_work (decs g ! c) (S ! c)"
  proof (cases "d_pc (decs g ! c) = D_get")
    case True
    then obtain b bs where q: "p_free (S ! c) = b # bs" using busy by (cases "p_free (S ! c)") (auto simp: starved_def)
    have cN: "c < length (vdpipe E)" using inv c by (auto simp: pipeline_inv_def Let_def)
    note facts = pipeline_inv_chan [OF inv cN]
    from q have "pool_spec Get (S ! c) = Some (Got b, (S ! c)\<lparr>p_free := bs, p_held := insert b (p_held (S ! c))\<rparr>)" by simp
    from pools_step [OF facts(2) cN this] obtain w' where "dpipe_get_round (vdpipe E ! c) (heap g) = Some (Got b, w')" by auto
    moreover have "b \<noteq> null" using q facts(5) by (auto simp: all_bufs_def)
    ultimately have "d_pc (decs g' ! c) = D_tag b" using step(1) True c by (auto simp: dec_step_def upd_dec_def Let_def)
    then show ?thesis using len q True by (simp add: dec_work_def)
  next
    case False
    obtain img where "stream E c (nFrameProcessed (decs g ! c)) = Vpp_frame img" using pics by blast
    then have "d_pc (decs g' ! c) \<noteq> D_done \<and> dec_rank (d_pc (decs g' ! c)) < dec_rank (d_pc (decs g ! c))"
      using step(1) False alive c
      by (cases "d_pc (decs g ! c)") (auto simp: dec_step_def upd_dec_def Let_def split: Option.bind_splits)
    then show ?thesis using len False by (simp add: dec_work_def)
  qed
  then show ?thesis using step by blast
qed

text \<open>A decoder that runs alone ends up waiting for a free buffer.\<close>

lemma dec_fills:
  assumes "pipeline_inv E net P B S g" and "c < length (decs g)" and "d_pc (decs g ! c) \<noteq> D_done"
    and pics: "\<And>n. \<exists>img. stream E c n = Vpp_frame img"
  shows "\<exists>k g' s'. psteps E (replicate k (Dec c)) g = Some g' \<and> pipeline_inv E net P B (S[c := s']) g' \<and> quiet g g' \<and>
    (\<forall>a. a \<noteq> c \<longrightarrow> decs g' ! a = decs g ! a) \<and> length (decs g') = length (decs g) \<and> starved (decs g' ! c) s'"
  using assms(1-3)
proof (induction "dec_work (decs g ! c) (S ! c)" arbitrary: g S rule: less_induct)
  case less
  show ?case
  proof (cases "starved (decs g ! c) (S ! c)")
    case True
    then show ?thesis using less.prems by (intro exI [of _ 0] exI [of _ g] exI [of _ "S ! c"]) (simp add: quiet_def)
  next
    case False
    from dec_works [OF less.prems(1,2) False less.prems(3) pics] obtain g1 s1 where g1: "dec_step E c g = Some g1"
      "pipeline_inv E net P B (S[c := s1]) g1" "d_pc (decs g1 ! c) \<noteq> D_done"
      "dec_work (decs g1 ! c) s1 < dec_work (decs g ! c) (S ! c)" by blast
    note q = dec_step_quiet [OF g1(1)]
    have "c < length (vdpipe E)" using less.prems by (auto simp: pipeline_inv_def Let_def)
    then have "(S[c := s1]) ! c = s1" using pipeline_inv_chan(6) [OF less.prems(1)] by simp
    then obtain k g' s' where r: "psteps E (replicate k (Dec c)) g1 = Some g'" "pipeline_inv E net P B (S[c := s1, c := s']) g'"
      "quiet g1 g'" "\<forall>a. a \<noteq> c \<longrightarrow> decs g' ! a = decs g1 ! a" "length (decs g') = length (decs g1)" "starved (decs g' ! c) s'"
      using less.hyps [OF _ g1(2) _ g1(3)] g1(4) q less.prems(2) by auto
    have "psteps E (replicate (Suc k) (Dec c)) g = Some g'"
      using r(1) g1(1) pstep_cases [OF less.prems(1), of "Dec c"] less.prems(2) by simp
    moreover have "pipeline_inv E net P B (S[c := s']) g'" using r(2) by simp
    moreover have "quiet g g'" using quiet_trans q r(3) by blast
    ultimately show ?thesis using r(4,5,6) q by metis
  qed
qed

lemma all_fill:
  assumes "pipeline_inv E net P B S g" and "\<forall>c < length (decs g). d_pc (decs g ! c) \<noteq> D_done"
    and pics: "\<And>c n. \<exists>img. stream E c n = Vpp_frame img"
  shows "m \<le> length (decs g) \<Longrightarrow> \<exists>ts g' S'. psteps E ts g = Some g' \<and> pipeline_inv E net P B S' g' \<and> quiet g g' \<and>
    length (decs g') = length (decs g) \<and> (\<forall>c < length (decs g). d_pc (decs g' ! c) \<noteq> D_done) \<and>
    (\<forall>c < m. starved (decs g' ! c) (S' ! c))"
proof (induction m)
  case 0
  then show ?case using assms by (intro exI [of _ "[]"] exI [of _ g] exI [of _ S]) (simp add: quiet_def)
next
  case (Suc m)
  then obtain ts g1 S1 where g1: "psteps E ts g = Some g1" "pipeline_inv E net P B S1 g1" "quiet g g1"
    "length (decs g1) = length (decs g)" "\<forall>c < length (decs g). d_pc (decs g1 ! c) \<noteq> D_done"
    "\<forall>c < m. starved (decs g1 ! c) (S1 ! c)" by auto
  have m: "m < length (decs g1)" "d_pc (decs g1 ! m) \<noteq> D_done" using Suc.prems g1(4,5) by simp_all
  from dec_fills [OF g1(2) m pics] obtain k g2 s2 where g2: "psteps E (replicate k (Dec m)) g1 = Some g2"
    "pipeline_inv E net P B (S1[m := s2]) g2" "quiet g1 g2" "\<forall>a. a \<noteq> m \<longrightarrow> decs g2 ! a = decs g1 ! a"
    "length (decs g2) = length (decs g1)" "starved (decs g2 ! m) s2" by blast
  have l: "m < length S1" using m(1) g1(2) by (auto simp: pipeline_inv_def pools_rel_def Let_def)
  have "psteps E (ts @ replicate k (Dec m)) g = Some g2" using g1(1) g2(1) by (simp add: psteps_append)
  moreover have "\<forall>c < Suc m. starved (decs g2 ! c) (S1[m := s2] ! c)"
    using g1(6) g2(4,6) l by (auto simp: less_Suc_eq)
  moreover have "\<forall>c < length (decs g). d_pc (decs g2 ! c) \<noteq> D_done"
  proof (intro allI impI)
    fix c assume "c < length (decs g)"
    then show "d_pc (decs g2 ! c) \<noteq> D_done" using g1(5) g2(4,6) by (cases "c = m") (simp_all add: starved_def)
  qed
  ultimately show ?case using g2(2,5) quiet_trans [OF g1(3) g2(3)] g1(4) by metis
qed

lemma boot_decoders:
  "k \<le> length (vdpipe E) \<Longrightarrow> psteps E (replicate k Main) (boot w D fr) =
     Some ((boot w D fr)\<lparr>decs := replicate k new_decoder, mpc := M_decoders k\<rparr>)"
proof (induction k)
  case 0
  then show ?case by (simp add: boot_def)
next
  case (Suc k)
  then have IH: "psteps E (replicate k Main) (boot w D fr) = Some ((boot w D fr)\<lparr>decs := replicate k new_decoder, mpc := M_decoders k\<rparr>)"
    by simp
  have "replicate (Suc k) Main = replicate k Main @ [Main]" "replicate (Suc k) new_decoder = replicate k new_decoder @ [new_decoder]"
    by (simp_all add: replicate_append_same)
  then show ?case using Suc.prems by (simp add: psteps_append IH pstep_def main_step_def del: replicate_Suc)
qed

text \<open>When every decoder waits for a buffer and the semaphore is zero, nothing moves.\<close>

lemma starved_stuck:
  assumes inv: "pipeline_inv E net P B S g"
    and idle: "spc g = S_wait" "mpc g = M_pause" "gNewtaskAvaiable g = 0" "g_semtshow g = 0"
    and st: "\<And>c. c < length (decs g) \<Longrightarrow> starved (decs g ! c) (S ! c)"
  shows "psteps E us g = Some g"
proof -
  have dec: "dec_step E c g = Some g" if c: "c < length (decs g)" for c
  proof -
    have cN: "c < length (vdpipe E)" using inv c by (auto simp: pipeline_inv_def Let_def)
    note facts = pipeline_inv_chan [OF inv cN]
    have "pool_spec Get (S ! c) = Some (Again, S ! c)" using st [OF c] facts(4) by (simp add: starved_def)
    from pools_step [OF facts(2) cN this] show ?thesis using st [OF c] by (auto simp: dec_step_def starved_def Let_def)
  qed
  have "pstep E t g = Some g" for t
    using pstep_cases [OF inv, of t] dec idle
    by (cases t) (simp_all add: sched_step_def main_step_def display_step_def)
  then show ?thesis by (induction us) simp_all
qed

lemma starved_queue:
  assumes inv: "pipeline_inv E net P B S g" and "spc g = S_wait" and c: "c < length (vdpipe E)"
    and st: "starved (decs g ! c) (S ! c)"
  shows "p_free (S ! c) = []" and "set (p_queue (S ! c)) = all_bufs (S ! c)"
proof -
  have "chan_ok (stream E c) c (decs g ! c) S_wait (turns (length (vdpipe E)) (length (submitted g)) c) (frames g) (S ! c)"
    using pipeline_inv_chan(1) [OF inv c] dec_exists(1) [OF inv _ c] assms(2) by simp
  then have "p_held (S ! c) = {}" using st by (simp add: chan_ok_def starved_def Let_def)
  then show "p_free (S ! c) = []" "set (p_queue (S ! c)) = all_bufs (S ! c)" using st by (auto simp: all_bufs_def starved_def)
qed

lemma filled_start:
  assumes "idle_pipes E w S" and "det_rel (engine E) net P D []" and env: "idle_env E net P"
    and pics: "\<And>c n. \<exists>img. stream E c n = Vpp_frame img"
  shows "\<exists>ts g S'. psteps E ts (boot w D fr) = Some g \<and> pipeline_inv E net P (map all_bufs S) S' g \<and> spc g = S_wait \<and>
    mpc g = M_pause \<and> gNewtaskAvaiable g = 0 \<and> g_semtshow g = 0 \<and> submitted g = [] \<and>
    (\<forall>c < length (decs g). starved (decs g ! c) (S' ! c))"
proof -
  let ?B = "map all_bufs S" and ?N = "length (vdpipe E)"
  let ?g0 = "(boot w D fr)\<lparr>decs := replicate ?N new_decoder, mpc := M_sem\<rparr>"
  have start: "psteps E (replicate ?N Main @ [Main]) (boot w D fr) = Some ?g0"
    by (simp add: psteps_append boot_decoders pstep_def main_step_def)
  from psteps_inv_some [OF boot_inv [OF assms(1-3)] env start] obtain S0 where S0: "pipeline_inv E net P ?B S0 ?g0" by blast
  have "\<forall>c < length (decs ?g0). d_pc (decs ?g0 ! c) \<noteq> D_done" by (simp add: new_decoder_def)
  from all_fill [OF S0 this pics, of ?N] obtain ts g1 S1 where g1: "psteps E ts ?g0 = Some g1"
    "pipeline_inv E net P ?B S1 g1" "quiet ?g0 g1" "length (decs g1) = ?N" "\<forall>c < ?N. starved (decs g1 ! c) (S1 ! c)" by auto
  let ?g2 = "main_step E (main_step E g1)"
  have i1: "pipeline_inv E net P ?B S1 (main_step E g1)" by (rule main_step_inv [OF g1(2) env])
  have i2: "pipeline_inv E net P ?B S1 ?g2" by (rule main_step_inv [OF i1 env])
  have "psteps E [Main, Main] g1 = Some ?g2" using pstep_cases [OF g1(2), of Main] pstep_cases [OF i1, of Main] by simp
  then have "psteps E ((replicate ?N Main @ [Main]) @ ts @ [Main, Main]) (boot w D fr) = Some ?g2"
    using start g1(1) by (simp only: psteps_append [of E "replicate ?N Main @ [Main]"] psteps_append [of E ts] Option.bind.bind_lunit)
  moreover have "spc ?g2 = S_wait" "mpc ?g2 = M_pause" "gNewtaskAvaiable ?g2 = 0" "g_semtshow ?g2 = 0" "submitted ?g2 = []" "decs ?g2 = decs g1"
    using g1(3) by (simp_all add: quiet_def main_step_def)
  ultimately show ?thesis using i2 g1(4,5) by metis
qed

section \<open>Properties\<close>

text \<open>C39. The frame number is read from the buffer after \<^verbatim>\<open>dpipe_put\<close> gave it back. From every state
  in which the scheduler is about to put a buffer back while the decoder of that channel is free to
  decode its next picture, the decoder can overwrite the description in time: the scheduler then
  submits the old picture with the frame number of the new one, which is larger than its own. (With at
  most \<^verbatim>\<open>INPUTNUM\<close> channels, so that the submission is defined.)\<close>

theorem frame_number_race:
  assumes "idle_pipes E w S" and "det_rel (engine E) net P D []" and "idle_env E net P"
    and "length (vdpipe E) \<le> INPUTNUM"
    and "psteps E ts (boot w D fr) = Some g" and "spc g = S_put i b img" and "d_pc (decs g ! i) = D_decode"
    and "stream E i (nFrameProcessed (decs g ! i)) = Vpp_frame img'"
  shows "\<exists>h. psteps E (ts @ [Sched, Dec i, Dec i, Dec i, Sched]) (boot w D fr) = Some h \<and>
    submitted h = submitted g @ [(img, int i, int (Suc (nFrameProcessed (decs g ! i))), 0)] \<and>
    (let x = outputs (stream E i) (nFrameProcessed (decs g ! i)) ! (length (submitted g) div length (vdpipe E)) in
     img = snd x \<and> fst x < int (Suc (nFrameProcessed (decs g ! i))))"
proof -
  let ?B = "map all_bufs S" and ?N = "length (vdpipe E)" and ?m = "length (submitted g)" and ?d = "decs g ! i"
  note boot = boot_inv [OF assms(1-3), of fr]
  from psteps_inv_some [OF boot assms(3,5)] obtain S1 where S1: "pipeline_inv E net P ?B S1 g" by blast
  from race_steps [OF S1 assms(3,6-8)] obtain h where h: "psteps E [Sched, Dec i, Dec i, Dec i] g = Some h"
    "spc h = S_insert i b img" "submitted h = submitted g" "vf_channel (frames h b) = int i"
    "vf_frameno (frames h b) = int (Suc (nFrameProcessed ?d))" by blast
  from psteps_inv_some [OF S1 assms(3) h(1)] obtain S2 where S2: "pipeline_inv E net P ?B S2 h" by blast
  from psteps_defined [OF S2 assms(3,4), of "[Sched]"] obtain h' where h': "sched_step E h = Some h'"
    using pstep_cases [OF S2, of Sched] by (auto split: Option.bind_splits)
  have run: "psteps E (ts @ [Sched, Dec i, Dec i, Dec i, Sched]) (boot w D fr) = Some h'"
    using assms(5) h(1) h' pstep_cases [OF S2, of Sched] psteps_append [of E "[Sched, Dec i, Dec i, Dec i]" "[Sched]" g]
    by (simp add: psteps_append)
  have sub: "submitted h' = submitted g @ [(img, int i, int (Suc (nFrameProcessed ?d)), 0)]"
    using h' h(2-5) by (auto simp: sched_step_def Let_def split: Option.bind_splits sum.splits if_splits)
  have i: "i < ?N" "?m mod ?N = i" using S1 assms(6) by (simp_all add: pipeline_inv_def Let_def)
  have d: "decoder_of g i = ?d" using dec_exists(1) [OF S1 _ i(1)] assms(6) by simp
  have "chan_ok (stream E i) i ?d (S_put i b img) (turns ?N ?m i) (frames g) (S1 ! i)"
    using pipeline_inv_chan(1) [OF S1 i(1)] assms(6) d by simp
  then have k: "turns ?N ?m i < length (stored_frames (stream E i) ?d)"
    "img = snd (stored_frames (stream E i) ?d ! turns ?N ?m i)" by (auto simp: chan_ok_def Let_def)
  have t: "turns ?N ?m i = ?m div ?N" using i(2) turns_own [of ?N ?m] by simp
  have "fst (stored_frames (stream E i) ?d ! turns ?N ?m i) \<le> int (nFrameProcessed ?d)"
    by (rule stored_frames_bound [OF nth_mem [OF k(1)]])
  moreover have "stored_frames (stream E i) ?d = outputs (stream E i) (nFrameProcessed ?d)"
    using assms(7) by (simp add: stored_frames_def)
  ultimately show ?thesis using run sub k t by (auto simp: Let_def)
qed

lemmas demo_pipe_eval = boot_def demo_pipe_env_def demo_pipe_world_def pstep_def main_step_def dec_step_def
  sched_step_def upd_dec_def new_decoder_def dpipe_get_round_def dpipe_store_def dpipe_put_def take_out_def set_nxt_def
  set_pipe_def

theorem frame_number_race_witness:
  "\<exists>ts h. psteps demo_pipe_env ts (boot demo_pipe_world demo_loaded demo_blank) = Some h \<and>
     submitted h = [(demo_img 0, 0, 2, 0)] \<and> outputs (stream demo_pipe_env 0) 2 = [(1, demo_img 0), (2, demo_img 1)]"
proof -
  let ?ts = "[Main, Main, Main, Main, Dec 0, Dec 0, Dec 0, Dec 0, Dec 0, Dec 0, Sched, Sched, Sched]"
  have "\<exists>g. psteps demo_pipe_env ?ts (boot demo_pipe_world demo_loaded demo_blank) = Some g \<and>
     spc g = S_put 0 64 (demo_img 0) \<and> d_pc (decs g ! 0) = D_decode \<and> nFrameProcessed (decs g ! 0) = 1 \<and> submitted g = []"
    by (simp add: demo_pipe_eval Let_def)
  then obtain g where g: "psteps demo_pipe_env ?ts (boot demo_pipe_world demo_loaded demo_blank) = Some g"
     "spc g = S_put 0 64 (demo_img 0)" "d_pc (decs g ! 0) = D_decode" "nFrameProcessed (decs g ! 0) = 1" "submitted g = []"
    by blast
  have e: "length (vdpipe demo_pipe_env) \<le> INPUTNUM" "stream demo_pipe_env 0 (nFrameProcessed (decs g ! 0)) = Vpp_frame (demo_img 1)"
    using g(4) by (simp_all add: demo_pipe_env_def INPUTNUM_def)
  have "outputs (stream demo_pipe_env 0) 2 = [(1, demo_img 0), (2, demo_img 1)]"
    by (simp add: numeral_2_eq_2 demo_pipe_env_def)
  moreover from frame_number_race [OF demo_pipeline_ok e(1) g(1-3) e(2)] obtain h where
    "psteps demo_pipe_env (?ts @ [Sched, Dec 0, Dec 0, Dec 0, Sched]) (boot demo_pipe_world demo_loaded demo_blank) = Some h"
    "submitted h = submitted g @ [(demo_img 0, int 0, int (Suc (nFrameProcessed (decs g ! 0))), 0)]" by blast
  moreover have "submitted g @ [(demo_img 0, int 0, int (Suc (nFrameProcessed (decs g ! 0))), 0)] = [(demo_img 0, 0, 2, 0)]"
    using g(4,5) by simp
  ultimately show ?thesis by (simp only:) blast
qed

text \<open>C11. \<^verbatim>\<open>main\<close> initialises \<^verbatim>\<open>gNewtaskAvaiable\<close> after it has started the decoders. For any number of
  channels, fresh pools of any size above zero and streams that always deliver pictures of the network's input size, there is a schedule in which the
  decoders fill their pools before that: their posts are lost and the program stands still. Every
  buffer then waits in its output pool, nothing has been submitted, and no thread can ever take a
  step again.\<close>

theorem startup_deadlock:
  assumes "idle_pipes E w S" and "det_rel (engine E) net P D []" and "idle_env E net P"
    and "\<forall>s \<in> set S. p_free s \<noteq> []" and "\<forall>c n. \<exists>img. stream E c n = Vpp_frame img"
  shows "\<exists>ts g S'. psteps E ts (boot w D fr) = Some g \<and> mpc g = M_pause \<and> submitted g = [] \<and>
    pools_rel (vdpipe E) (heap g) S' \<and>
    (\<forall>c < length (vdpipe E). p_free (S' ! c) = [] \<and> p_queue (S' ! c) \<noteq> [] \<and> set (p_queue (S' ! c)) = set (p_free (S ! c))) \<and>
    (\<forall>us. psteps E us g = Some g)"
proof -
  let ?B = "map all_bufs S" and ?N = "length (vdpipe E)"
  have "\<exists>img. stream E c n = Vpp_frame img" for c n using assms(5) by blast
  from filled_start [OF assms(1-3) this] obtain ts g S' where g: "psteps E ts (boot w D fr) = Some g"
    "pipeline_inv E net P ?B S' g" "spc g = S_wait" "mpc g = M_pause" "gNewtaskAvaiable g = 0" "g_semtshow g = 0"
    "submitted g = []" "\<forall>c < length (decs g). starved (decs g ! c) (S' ! c)" by blast
  have stuck: "\<forall>us. psteps E us g = Some g" using starved_stuck [OF g(2-6)] g(8) by blast
  have dl: "length (decs g) = ?N" and rel: "pools_rel (vdpipe E) (heap g) S'" and B: "map all_bufs S' = ?B" "length S' = ?N"
    using g(2,4) by (simp_all add: pipeline_inv_def pools_rel_def Let_def)
  have "p_free (S' ! c) = [] \<and> p_queue (S' ! c) \<noteq> [] \<and> set (p_queue (S' ! c)) = set (p_free (S ! c))" if c: "c < ?N" for c
  proof -
    have cS: "c < length S" "all_bufs (S' ! c) = all_bufs (S ! c)" using B c by (metis length_map nth_map)+
    then have "all_bufs (S ! c) = set (p_free (S ! c))" "p_free (S ! c) \<noteq> []"
      using assms(1,4) by (auto simp: idle_pipes_def all_bufs_def)
    then show ?thesis using starved_queue [OF g(2,3) c] g(8) c dl cS(2) by auto
  qed
  then show ?thesis using g(1,4,7) rel stuck by blast
qed

theorem startup_deadlock_witness:
  "\<exists>ts g S'. psteps demo_pipe_env ts (boot demo_pipe_world demo_loaded demo_blank) = Some g \<and> submitted g = [] \<and>
     pools_rel [16] (heap g) S' \<and> set (p_queue (S' ! 0)) = {64} \<and> (\<forall>us. psteps demo_pipe_env us g = Some g)"
proof -
  have e: "\<forall>s \<in> set demo_pools. p_free s \<noteq> []" "\<forall>c n. \<exists>img. stream demo_pipe_env c n = Vpp_frame img"
    "vdpipe demo_pipe_env = [16]" "p_free (demo_pools ! 0) = [64]"
    by (simp_all add: demo_pools_def demo_pipe_env_def)
  from startup_deadlock [OF demo_pipeline_ok e(1,2), of demo_blank] e(3,4) show ?thesis by auto
qed

text \<open>C9. Under the assumptions on pipes, detector and network of the rotation, with no empty pool: in every interleaving in which \<^verbatim>\<open>main\<close> initialises the semaphore before a decoder has posted,
  the pipeline never stands still: after any schedule, either some decoding thread has ended or
  there is a thread whose next step changes the state, whatever the lengths of the pools and of the
  result queue. With at most \<^verbatim>\<open>INPUTNUM\<close> channels every such schedule runs.\<close>

theorem pipeline_never_stuck:
  assumes "idle_pipes E w S" and "det_rel (engine E) net P D []" and "idle_env E net P"
    and "\<forall>s \<in> set S. p_free s \<noteq> []"
    and "psteps E us (boot w D fr) = Some g0" and "mpc g0 = M_sem" and "gNewtaskAvaiable g0 = 0"
  shows "(length (vdpipe E) \<le> INPUTNUM \<longrightarrow> psteps E (us @ Main # ts) (boot w D fr) \<noteq> None) \<and>
    (\<forall>g. psteps E (us @ Main # ts) (boot w D fr) = Some g \<longrightarrow>
       (\<exists>c < length (vdpipe E). d_pc (decs g ! c) = D_done) \<or> (\<exists>t. pstep E t g \<noteq> Some g))"
proof (intro conjI allI impI)
  let ?B = "map all_bufs S"
  note inv = boot_inv [OF assms(1-3), of fr]
  show "psteps E (us @ Main # ts) (boot w D fr) \<noteq> None" if "length (vdpipe E) \<le> INPUTNUM"
    using psteps_defined [OF inv assms(3) that, of "us @ Main # ts"] by auto
  fix g assume g: "psteps E (us @ Main # ts) (boot w D fr) = Some g"
  from psteps_inv_some [OF inv assms(3) g] obtain S' where S': "pipeline_inv E net P ?B S' g" by blast
  have aw: "awake E g" by (rule good_start_awake [OF inv assms(3,5-7) g])
  have "all_bufs (S' ! c) \<noteq> {}" if c: "c < length (vdpipe E)" for c
  proof -
    have "map all_bufs S' = ?B" and l: "length S' = length (vdpipe E)" using S' by (auto simp: pipeline_inv_def pools_rel_def Let_def)
    then have "all_bufs (S' ! c) = all_bufs (S ! c)" "c < length S" using c by (metis length_map nth_map)+
    then show ?thesis using assms(4) by (auto simp: all_bufs_def)
  qed
  from progress [OF S' aw assms(3) this]
  show "(\<exists>c < length (vdpipe E). d_pc (decs g ! c) = D_done) \<or> (\<exists>t. pstep E t g \<noteq> Some g)" by blast
qed

theorem pipeline_never_stuck_witness:
  "\<exists>g. psteps demo_pipe_env ([Main, Dec 0, Dec 0, Main] @ Main # Main # replicate 9 Sched) (boot demo_pipe_world demo_loaded demo_blank) = Some g \<and>
     ((\<exists>c < 1. d_pc (decs g ! c) = D_done) \<or> (\<exists>t. pstep demo_pipe_env t g \<noteq> Some g))"
proof -
  have e: "\<forall>s \<in> set demo_pools. p_free s \<noteq> []" "length (vdpipe demo_pipe_env) = 1" "1 \<le> INPUTNUM"
    by (simp_all add: demo_pools_def demo_pipe_env_def INPUTNUM_def)
  have "\<exists>g0. psteps demo_pipe_env [Main, Dec 0, Dec 0, Main] (boot demo_pipe_world demo_loaded demo_blank) = Some g0 \<and>
      mpc g0 = M_sem \<and> gNewtaskAvaiable g0 = 0"
    by (simp add: demo_pipe_eval Let_def)
  then obtain g0 where g0: "psteps demo_pipe_env [Main, Dec 0, Dec 0, Main] (boot demo_pipe_world demo_loaded demo_blank) = Some g0"
      "mpc g0 = M_sem" "gNewtaskAvaiable g0 = 0" by blast
  from pipeline_never_stuck [OF demo_pipeline_ok e(1) g0, where ts = "Main # replicate 9 Sched"] e(2,3)
  show ?thesis by (simp only: e(2)) blast
qed

end
