(* ===== verification/Proposal.thy ===== *)
theory Proposal
  imports LayerBase Suppression
begin

text \<open>
  \<^verbatim>\<open>extension/ext_proposal.cpp\<close>: the region proposal layer of Faster R-CNN. Every position of the
  feature map carries \<open>A\<close> anchor boxes; the layer moves them by the predicted deltas, clips them to
  the image, takes the best \<open>pre_nms_topn\<close> by score, suppresses the overlapping ones and writes
  at most \<open>post_nms_topn\<close> rows (image number and corners), with a marker row behind the last.

  \<^verbatim>\<open>std::sqrt\<close> and \<^verbatim>\<open>std::exp\<close> are the arguments \<open>sqrtf\<close> and \<open>expf\<close>; \<^verbatim>\<open>std::partial_sort\<close>, which leaves the
  order of equal scores open, is the argument \<open>psort\<close>. The scalar path is modelled; the AVX2
  path of \<^verbatim>\<open>nms_cpu\<close> compares the same quantities eight at a time.
\<close>

section \<open>Anchors\<close>

definition generate_anchors ::
  "(f32 \<Rightarrow> f32) \<Rightarrow> int \<Rightarrow> f32 list \<Rightarrow> f32 list \<Rightarrow> int \<Rightarrow> int \<Rightarrow> f32 list \<Rightarrow> f32 list option" where
  "generate_anchors sqrtf base_size ratios scales num_ratios num_scales anchors =
     (if \<not> int_ok (base_size * base_size) then None
      else
        let base_area = i2f (base_size * base_size);
            center = fmul (1 / 2) (fsub (i2f base_size) 1);
            plane = num_ratios * num_scales in
        for_loop 0 num_ratios (\<lambda>ratio anchors. do {
          r \<leftarrow> ld ratios ratio;
          let ratio_w = roundf (sqrtf (fdiv base_area r));
          let ratio_h = roundf (fmul ratio_w r);
          for_loop 0 num_scales (\<lambda>scale anchors. do {
            s \<leftarrow> ld scales scale;
            let scale_w = fmul (1 / 2) (fsub (fmul ratio_w s) 1);
            let scale_h = fmul (1 / 2) (fsub (fmul ratio_h s) 1);
            let o1 = ratio * num_scales + scale;
            a1 \<leftarrow> st anchors (0 * plane + o1) (fsub center scale_w);
            a2 \<leftarrow> st a1 (1 * plane + o1) (fsub center scale_h);
            a3 \<leftarrow> st a2 (2 * plane + o1) (fadd center scale_w);
            st a3 (3 * plane + o1) (fadd center scale_h) }) anchors }) anchors)"

section \<open>Boxes\<close>

record proposal_box =
  bx0 :: f32
  by0 :: f32
  bx1 :: f32
  by1 :: f32
  bscore :: f32

definition clip :: "f32 \<Rightarrow> f32 \<Rightarrow> f32" where
  "clip extent v = max 0 (min v (fsub extent 1))"

text \<open>One anchor moved by its deltas and clipped; a box smaller than the minimum gets the score 0.\<close>

definition move_anchor ::
  "(f32 \<Rightarrow> f32) \<Rightarrow> f32 \<times> f32 \<Rightarrow> f32 \<times> f32 \<times> f32 \<times> f32 \<Rightarrow> f32 \<times> f32 \<times> f32 \<times> f32 \<Rightarrow> f32 \<Rightarrow> f32 \<times> f32 \<Rightarrow> f32 \<times> f32 \<Rightarrow>
     proposal_box" where
  "move_anchor expf xy anchor delta score img min_box =
     (let (x, y) = xy; (wm, hm, wp, hp) = anchor; (dx, dy, d_log_w, d_log_h) = delta;
          (img_H, img_W) = img; (min_box_H, min_box_W) = min_box;
          x0 = fadd x wm; y0 = fadd y hm; x1 = fadd x wp; y1 = fadd y hp;
          ww = fadd (fsub x1 x0) 1; hh = fadd (fsub y1 y0) 1;
          ctr_x = fadd x0 (fmul (1 / 2) ww); ctr_y = fadd y0 (fmul (1 / 2) hh);
          pred_ctr_x = fadd (fmul dx ww) ctr_x; pred_ctr_y = fadd (fmul dy hh) ctr_y;
          pred_w = fmul (expf d_log_w) ww; pred_h = fmul (expf d_log_h) hh;
          x0 = clip img_W (fsub pred_ctr_x (fmul (1 / 2) pred_w));
          y0 = clip img_H (fsub pred_ctr_y (fmul (1 / 2) pred_h));
          x1 = clip img_W (fadd pred_ctr_x (fmul (1 / 2) pred_w));
          y1 = clip img_H (fadd pred_ctr_y (fmul (1 / 2) pred_h));
          box_w = fadd (fsub x1 x0) 1; box_h = fadd (fsub y1 y0) 1;
          big = (if min_box_W \<le> box_w then 1 else 0) * (if min_box_H \<le> box_h then 1 else 0)
      in \<lparr>bx0 = x0, by0 = y0, bx1 = x1, by1 = y1, bscore = fmul (i2f big) score\<rparr>)"

text \<open>The layer reads the scores from offset \<open>so\<close> of its input on.\<close>

definition proposal_at ::
  "(f32 \<Rightarrow> f32) \<Rightarrow> f32 list \<Rightarrow> int \<Rightarrow> f32 list \<Rightarrow> f32 list \<Rightarrow> int \<Rightarrow> int \<Rightarrow> int \<Rightarrow> f32 \<times> f32 \<Rightarrow> f32 \<times> f32 \<Rightarrow> int \<Rightarrow>
     int \<Rightarrow> int \<Rightarrow> int \<Rightarrow> proposal_box option" where
  "proposal_at expf bottom so d_anchor anchors num_anchors bottom_H bottom_W img min_box feat_stride h w anchor =
     (let area = bottom_H * bottom_W; p = h * bottom_W + w in
      if \<not> int_ok (w * feat_stride) \<or> \<not> int_ok (h * feat_stride) then None
      else do {
        dx \<leftarrow> ld d_anchor (p + (anchor * 4 + 0) * area);
        dy \<leftarrow> ld d_anchor (p + (anchor * 4 + 1) * area);
        dw \<leftarrow> ld d_anchor (p + (anchor * 4 + 2) * area);
        dh \<leftarrow> ld d_anchor (p + (anchor * 4 + 3) * area);
        score \<leftarrow> ld bottom (so + p + anchor * area);
        wm \<leftarrow> ld anchors (0 * num_anchors + anchor);
        hm \<leftarrow> ld anchors (1 * num_anchors + anchor);
        wp \<leftarrow> ld anchors (2 * num_anchors + anchor);
        hp \<leftarrow> ld anchors (3 * num_anchors + anchor);
        Some (move_anchor expf (i2f (w * feat_stride), i2f (h * feat_stride)) (wm, hm, wp, hp)
          (dx, dy, dw, dh) score img min_box) })"

definition enumerate_proposals_cpu ::
  "(f32 \<Rightarrow> f32) \<Rightarrow> f32 list \<Rightarrow> int \<Rightarrow> f32 list \<Rightarrow> f32 list \<Rightarrow> int \<Rightarrow> int \<Rightarrow> int \<Rightarrow> f32 \<times> f32 \<Rightarrow> f32 \<times> f32 \<Rightarrow> int \<Rightarrow>
     proposal_box list \<Rightarrow> proposal_box list option" where
  "enumerate_proposals_cpu expf bottom so d_anchor anchors num_anchors bottom_H bottom_W img min_box feat_stride proposals =
     for_loop 0 bottom_H (\<lambda>h. for_loop 0 bottom_W (\<lambda>w. for_loop 0 num_anchors (\<lambda>anchor proposals. do {
       b \<leftarrow> proposal_at expf bottom so d_anchor anchors num_anchors bottom_H bottom_W img min_box feat_stride h w anchor;
       st proposals ((h * bottom_W + w) * num_anchors + anchor) b }))) proposals"

text \<open>The corners of the first boxes, coordinate by coordinate.\<close>

definition unpack_boxes :: "proposal_box list \<Rightarrow> f32 list \<Rightarrow> int \<Rightarrow> f32 list option" where
  "unpack_boxes proposals unpacked n = for_loop 0 n (\<lambda>i u. do {
     b \<leftarrow> ld proposals i;
     u1 \<leftarrow> st u (0 * n + i) (bx0 b);
     u2 \<leftarrow> st u1 (1 * n + i) (by0 b);
     u3 \<leftarrow> st u2 (2 * n + i) (bx1 b);
     st u3 (3 * n + i) (by1 b) }) unpacked"

section \<open>Suppression\<close>

type_synonym corners = "f32 \<times> f32 \<times> f32 \<times> f32"

definition box_overlap :: "corners \<Rightarrow> corners \<Rightarrow> f32" where
  "box_overlap bi bj = (case (bi, bj) of ((x0i, y0i, x1i, y1i), (x0j, y0j, x1j, y1j)) \<Rightarrow>
     if x0i \<le> x1j \<and> y0i \<le> y1j \<and> x0j \<le> x1i \<and> y0j \<le> y1i then
       let x0 = max x0i x0j; y0 = max y0i y0j; x1 = min x1i x1j; y1 = min y1i y1j;
           width = max 0 (fadd (fsub x1 x0) 1); height = max 0 (fadd (fsub y1 y0) 1);
           area = fmul width height;
           A_area = fmul (fadd (fsub x1i x0i) 1) (fadd (fsub y1i y0i) 1);
           B_area = fmul (fadd (fsub x1j x0j) 1) (fadd (fsub y1j y0j) 1)
       in fdiv area (fsub (fadd A_area B_area) area)
     else 0)"

definition corners_at :: "f32 list \<Rightarrow> int \<Rightarrow> int \<Rightarrow> corners option" where
  "corners_at boxes n i = do {
     x0 \<leftarrow> ld boxes (0 * n + i);
     y0 \<leftarrow> ld boxes (1 * n + i);
     x1 \<leftarrow> ld boxes (2 * n + i);
     y1 \<leftarrow> ld boxes (3 * n + i);
     Some (x0, y0, x1, y1) }"

definition mark_overlaps :: "f32 list \<Rightarrow> int \<Rightarrow> f32 \<Rightarrow> int \<Rightarrow> int list \<Rightarrow> int list option" where
  "mark_overlaps boxes n nms_thresh box is_dead = for_loop (box + 1) n (\<lambda>tail dead. do {
     bi \<leftarrow> corners_at boxes n box;
     bj \<leftarrow> corners_at boxes n tail;
     if nms_thresh < box_overlap bi bj then st dead tail 1 else Some dead }) is_dead"

text \<open>The loop of \<^verbatim>\<open>nms_cpu\<close>; \<open>k\<close> boxes are left. It returns the indices and their number.\<close>

fun nms_boxes ::
  "nat \<Rightarrow> f32 list \<Rightarrow> int \<Rightarrow> int \<Rightarrow> f32 \<Rightarrow> int \<Rightarrow> int list \<Rightarrow> int list \<Rightarrow> int \<Rightarrow> (int list \<times> int list \<times> int) option" where
  "nms_boxes 0 boxes n base nms_thresh max_out is_dead index_out cnt = Some (is_dead, index_out, cnt)"
| "nms_boxes (Suc k) boxes n base nms_thresh max_out is_dead index_out cnt =
     (let box = n - int (Suc k) in do {
        d \<leftarrow> ld is_dead box;
        if d \<noteq> 0 then nms_boxes k boxes n base nms_thresh max_out is_dead index_out cnt
        else do {
          index1 \<leftarrow> st index_out cnt (base + box);
          if cnt + 1 = max_out then Some (is_dead, index1, cnt + 1)
          else do {
            dead1 \<leftarrow> mark_overlaps boxes n nms_thresh box is_dead;
            nms_boxes k boxes n base nms_thresh max_out dead1 index1 (cnt + 1) } } })"

definition nms_cpu ::
  "int \<Rightarrow> int list \<Rightarrow> f32 list \<Rightarrow> int list \<Rightarrow> int \<Rightarrow> f32 \<Rightarrow> int \<Rightarrow> (int list \<times> int list \<times> int) option" where
  "nms_cpu num_boxes is_dead boxes index_out base_index nms_thresh max_num_out = do {
     dead \<leftarrow> st_run is_dead 0 (replicate (nat num_boxes) 0);
     nms_boxes (nat num_boxes) boxes num_boxes base_index nms_thresh max_num_out dead index_out 0 }"

definition retrieve_rois_cpu ::
  "int \<Rightarrow> int \<Rightarrow> int \<Rightarrow> f32 list \<Rightarrow> int list \<Rightarrow> f32 list \<Rightarrow> int \<Rightarrow> f32 list option" where
  "retrieve_rois_cpu num_rois item_index num_proposals proposals roi_indices rois post_nms_topn = do {
     rois1 \<leftarrow> for_loop 0 num_rois (\<lambda>roi r. do {
       index \<leftarrow> ld roi_indices roi;
       (x0, y0, x1, y1) \<leftarrow> corners_at proposals num_proposals index;
       st_run r (roi * 5) [i2f item_index, x0, y0, x1, y1] }) rois;
     if num_rois < post_nms_topn then do {
       rois2 \<leftarrow> for_loop (5 * num_rois) (5 * post_nms_topn) (\<lambda>i r. st r i 0) rois1;
       st rois2 (num_rois * 5 + 0) (- 1) }
     else Some rois1 }"

section \<open>The layer\<close>

record proposal =
  feat_stride :: int
  base_size :: int
  min_size :: int
  pre_nms_topn :: int
  post_nms_topn :: int
  nms_thresh :: f32
  p_scales :: "f32 list"
  p_ratios :: "f32 list"
  anchors_shape_0 :: int
  p_anchors :: "f32 list"
  roi_indices :: "int list"

text \<open>The constructor. A negative \<^verbatim>\<open>post_nms_topn\<close> makes \<^verbatim>\<open>resize\<close> throw an exception that the constructor
  does not catch.\<close>

definition proposal_new :: "(f32 \<Rightarrow> f32) \<Rightarrow> cnn_layer \<Rightarrow> (ext_layer \<times> proposal option) option" where
  "proposal_new sqrtf l =
     (if length (ins_data l) \<noteq> 3 \<or> length (out_data l) \<noteq> 1
      then Some (construct (Inl ''Incorrect number of input/output edges!''))
      else let ip = int_param l; scales = floats_param l ''scale''; ratios = floats_param l ''ratio'' in
        case try_with (ip ''feat_stride'') (\<lambda>fs. try_with (ip ''base_size'') (\<lambda>bs. try_with (ip ''min_size'') (\<lambda>ms.
             try_with (ip ''pre_nms_topn'') (\<lambda>pre. try_with (ip ''post_nms_topn'') (\<lambda>post.
             try_with (float_param l ''nms_thresh'') (\<lambda>thr. Inr (fs, bs, ms, pre, post, thr))))))) of
          Inl e \<Rightarrow> Some (construct (Inl e))
        | Inr (fs, bs, ms, pre, post, thr) \<Rightarrow> do {
            let n = length ratios * length scales;
            anchors \<leftarrow> generate_anchors sqrtf bs ratios scales (int (length ratios)) (int (length scales)) (replicate (4 * n) 0);
            if post < 0 then None
            else Some (construct (try_with (addConfig l [conf PLN, conf PLN, conf PLN] [conf PLN] False) (\<lambda>c.
              Inr (\<lparr>feat_stride = fs, base_size = bs, min_size = ms mod 2 ^ 64, pre_nms_topn = pre, post_nms_topn = post,
                nms_thresh = thr, p_scales = scales, p_ratios = ratios, anchors_shape_0 = int n, p_anchors = anchors,
                roi_indices = replicate (nat post) 0\<rparr>, c)))) })"

definition zero_box :: proposal_box where
  "zero_box = \<lparr>bx0 = 0, by0 = 0, bx1 = 0, by1 = 0, bscore = 0\<rparr>"

text \<open>One round of the loop over the images of the batch. The input pointers are those of the first image
  in every round, and so is the output pointer.\<close>

definition proposal_image ::
  "(f32 \<Rightarrow> f32) \<Rightarrow> (int \<Rightarrow> proposal_box list \<Rightarrow> proposal_box list) \<Rightarrow> proposal \<Rightarrow> f32 list \<Rightarrow> f32 list \<Rightarrow> int \<Rightarrow> int \<Rightarrow>
     f32 \<times> f32 \<Rightarrow> f32 \<times> f32 \<Rightarrow> int \<Rightarrow> int \<Rightarrow>
     proposal_box list \<times> f32 list \<times> int list \<times> int list \<times> f32 list \<Rightarrow>
     (proposal_box list \<times> f32 list \<times> int list \<times> int list \<times> f32 list) option" where
  "proposal_image expf psort P bottom d_anchor H W img min_box pre n = (\<lambda>(props, unpacked, is_dead, idx, rois). do {
     props1 \<leftarrow> enumerate_proposals_cpu expf bottom (anchors_shape_0 P * H * W) d_anchor (p_anchors P)
        (anchors_shape_0 P) H W img min_box (feat_stride P) props;
     let props2 = psort pre props1;
     unpacked1 \<leftarrow> unpack_boxes props2 unpacked pre;
     (dead1, idx1, num_rois) \<leftarrow> nms_cpu pre is_dead unpacked1 idx 0 (nms_thresh P) (post_nms_topn P);
     rois1 \<leftarrow> retrieve_rois_cpu num_rois n pre unpacked1 idx1 rois (post_nms_topn P);
     Some (props2, unpacked1, dead1, idx1, rois1) })"

text \<open>The result: a status, the layer with its index buffer, and the output.\<close>

definition proposal_execute ::
  "(f32 \<Rightarrow> f32) \<Rightarrow> (int \<Rightarrow> proposal_box list \<Rightarrow> proposal_box list) \<Rightarrow> proposal \<Rightarrow> nat list list \<Rightarrow> nat \<Rightarrow>
     f32 list \<Rightarrow> f32 list \<Rightarrow> f32 list \<Rightarrow> f32 list \<Rightarrow> (status_code \<times> proposal \<times> f32 list) option" where
  "proposal_execute expf psort P in_dims num_out bottom d_anchor img_info rois =
     (if length in_dims \<noteq> 3 \<or> num_out = 0 then Some (GENERAL_ERROR, P, rois)
      else if length (in_dims ! 0) < 4 then None
      else do {
        let H = int (in_dims ! 0 ! 2);
        let W = int (in_dims ! 0 ! 3);
        img_H \<leftarrow> ld img_info 0;
        img_W \<leftarrow> ld img_info 1;
        scale_H \<leftarrow> ld img_info 2;
        scale_W \<leftarrow> (if prod_list (in_dims ! 2) > 3 then ld img_info 3 else Some scale_H);
        let min_box = (fmul (i2f (min_size P)) scale_H, fmul (i2f (min_size P)) scale_W);
        let num_proposals = anchors_shape_0 P * H * W;
        let pre = min num_proposals (pre_nms_topn P);
        if \<not> int_ok num_proposals \<or> pre < 0 then None
        else do {
          (_, _, _, idx, out) \<leftarrow> for_loop 0 (int (in_dims ! 0 ! 0))
            (proposal_image expf psort P bottom d_anchor H W (img_H, img_W) min_box pre)
            (replicate (nat num_proposals) zero_box, replicate (nat (4 * pre)) 0, replicate (nat pre) 0, roi_indices P, rois);
          Some (OK, P\<lparr>roi_indices := idx\<rparr>, out) } })"

text \<open>\<^verbatim>\<open>getShapes\<close> of the factory, from the dimensions of the inputs it is given.\<close>

definition proposal_getShapes :: "nat list list \<Rightarrow> status_code \<times> nat list list" where
  "proposal_getShapes shapes = (if length shapes \<noteq> 1 then (GENERAL_ERROR, []) else (OK, [shapes ! 0]))"

end
