(* ===== verification/ProposalFacts.thy ===== *)
theory ProposalFacts
  imports Proposal
begin

text \<open>
  What the region proposal layer computes: the output is the greedy suppression of the boxes with the
  best scores, row by row, with the marker behind them; every corner lies in the image.
\<close>

section \<open>Boxes\<close>

definition corners :: "proposal_box \<Rightarrow> corners" where
  "corners b = (bx0 b, by0 b, bx1 b, by1 b)"

definition inside :: "f32 \<Rightarrow> f32 \<Rightarrow> proposal_box \<Rightarrow> bool" where
  "inside img_H img_W b \<longleftrightarrow> (\<forall>v \<in> {bx0 b, bx1 b}. 0 \<le> v \<and> v \<le> max 0 (fsub img_W 1)) \<and>
     (\<forall>v \<in> {by0 b, by1 b}. 0 \<le> v \<and> v \<le> max 0 (fsub img_H 1))"

lemma clip_range: "0 \<le> clip e v \<and> clip e v \<le> max 0 (fsub e 1)"
  by (auto simp: clip_def)

lemma move_anchor_inside: "inside (fst img) (snd img) (move_anchor expf xy anchor delta score img min_box)"
  by (cases xy; cases anchor; cases delta; cases img; cases min_box) (simp add: move_anchor_def inside_def clip_range Let_def)

text \<open>The sizes of the maps: \<open>A\<close> anchors at \<open>H * W\<close> positions, the scores from offset \<open>so\<close> on.\<close>

definition maps_ok :: "f32 list \<Rightarrow> int \<Rightarrow> f32 list \<Rightarrow> f32 list \<Rightarrow> int \<Rightarrow> int \<Rightarrow> int \<Rightarrow> int \<Rightarrow> bool" where
  "maps_ok bottom so d_anchor anchors A H W fs \<longleftrightarrow> 0 \<le> A \<and> 0 \<le> H \<and> 0 \<le> W \<and> 0 \<le> so \<and> so + A * H * W \<le> int (length bottom) \<and>
     4 * (A * H * W) \<le> int (length d_anchor) \<and> int (length anchors) = 4 * A \<and> length bottom \<le> 2 ^ 31 \<and>
     length d_anchor \<le> 2 ^ 31 \<and> length anchors \<le> 2 ^ 31 \<and> 0 \<le> fs \<and> int_ok (H * fs) \<and> int_ok (W * fs)"

lemma stride_ok:
  assumes "0 \<le> k" "k < n" "0 \<le> fs" "int_ok (n * fs)"
  shows "int_ok (k * fs)"
proof -
  have "0 \<le> k * fs" "k * fs \<le> n * fs" using assms(1-3) by (simp_all add: mult_right_mono)
  then show ?thesis using assms(4) by (simp add: int_ok_def)
qed

lemma proposal_at_ok:
  assumes maps: "maps_ok bottom so d_anchor anchors A H W fs"
    and "0 \<le> h" "h < H" "0 \<le> w" "w < W" "0 \<le> a" "a < A"
  shows "\<exists>b. proposal_at expf bottom so d_anchor anchors A H W img min_box fs h w a = Some b \<and> inside (fst img) (snd img) b"
proof -
  note sizes = maps [unfolded maps_ok_def]
  have strides: "int_ok (w * fs)" "int_ok (h * fs)" using sizes assms by (auto intro: stride_ok)
  let ?area = "H * W" and ?p = "h * W + w"
  have p: "0 \<le> ?p" "?p < ?area" using flat_bound [of h H w W] assms by simp_all
  have plane: "0 \<le> ?p + k * ?area \<and> ?p + k * ?area < n * ?area" if "0 \<le> k" "k < n" for k n
    using flat_bound [OF that p] by (simp add: add.commute)
  have d: "ld d_anchor (?p + (a * 4 + j) * ?area) = Some (d_anchor ! nat (?p + (a * 4 + j) * ?area))" if "0 \<le> j" "j < 4" for j
    using plane [of "a * 4 + j" "A * 4"] assms that sizes by (intro ld_in [where k = "4 * (A * H * W)"]) (auto simp: ac_simps)
  have s: "ld bottom (so + ?p + a * ?area) = Some (bottom ! nat (so + ?p + a * ?area))"
    using plane [of a A] assms sizes by (intro ld_in [where k = "so + A * H * W"]) (auto simp: ac_simps)
  have c: "ld anchors (j * A + a) = Some (anchors ! nat (j * A + a))" if "0 \<le> j" "j < 4" for j
    using flat_bound [OF that, of a A] assms sizes by (intro ld_in [where k = "4 * A"]) auto
  show ?thesis
    unfolding proposal_at_def Let_def d [of 0, simplified] d [of 1, simplified] d [of 2, simplified] d [of 3, simplified]
    using d [of 0] d [of 1] d [of 2] d [of 3] s c [of 0] c [of 1] c [of 2] c [of 3] strides
      move_anchor_inside [of img]
    by (simp add: move_anchor_inside)
qed

lemma enumerate_ok:
  assumes maps: "maps_ok bottom so d_anchor anchors A H W fs" and "int (length props) = A * H * W" "length props \<le> 2 ^ 31"
  shows "\<exists>boxes. enumerate_proposals_cpu expf bottom so d_anchor anchors A H W img min_box fs props = Some boxes \<and>
    length boxes = length props \<and>
    (\<forall>h w a. 0 \<le> h \<and> h < H \<and> 0 \<le> w \<and> w < W \<and> 0 \<le> a \<and> a < A \<longrightarrow>
       proposal_at expf bottom so d_anchor anchors A H W img min_box fs h w a = Some (boxes ! nat ((h * W + w) * A + a)) \<and>
       inside (fst img) (snd img) (boxes ! nat ((h * W + w) * A + a)))"
proof -
  let ?at = "proposal_at expf bottom so d_anchor anchors A H W img min_box fs"
  let ?g = "\<lambda>i. the (?at (i div A div W) (i div A mod W) (i mod A))"
  have g: "?g ((h * W + w) * A + a) = the (?at h w a)" if "0 \<le> w" "w < W" "0 \<le> a" "a < A" for h w a
    using that by (simp add: flat_div)
  let ?body = "\<lambda>h w a props. do { b \<leftarrow> ?at h w a; st props ((h * W + w) * A + a) b }"
  have r: "for_loop 0 1 (\<lambda>k. for_loop 0 H (\<lambda>h. for_loop 0 W (\<lambda>w. for_loop 0 A (\<lambda>a. ?body h w a)))) props
    = Some (map (\<lambda>i. ?g (int i)) [0..<length props])"
  proof (rule nest4_wrote)
    fix k h w a :: int and d :: "proposal_box list"
    assume i: "0 \<le> k" "k < 1" "0 \<le> h" "h < H" "0 \<le> w" "w < W" "0 \<le> a" "a < A" and d: "length d = length props"
    obtain b where b: "?at h w a = Some b" using proposal_at_ok [OF maps] i by blast
    have k: "k = 0" using i by simp
    have "\<exists>d'. st d ((h * W + w) * A + a) b = Some d' \<and> wrote {(h * W + w) * A + a} ?g d d'"
    proof (rule wrote_st)
      have "0 \<le> ((0 * H + h) * W + w) * A + a \<and> ((0 * H + h) * W + w) * A + a < 1 * H * W * A"
        using idx4_bound [of 0 1 h H w W a A] i by simp
      then show "0 \<le> (h * W + w) * A + a" "(h * W + w) * A + a < int (length d)" "int_ok ((h * W + w) * A + a)"
        using assms d by (simp_all add: int_ok_def ac_simps)
      show "?g ((h * W + w) * A + a) = b" using g i b by simp
    qed
    then show "\<exists>d'. ?body h w a d = Some d' \<and> wrote {idx4 H W A k h w a} ?g d d'" using b k by simp
  qed (use assms maps [unfolded maps_ok_def] in \<open>simp_all add: ac_simps\<close>)
  then have e: "enumerate_proposals_cpu expf bottom so d_anchor anchors A H W img min_box fs props
    = Some (map (\<lambda>i. ?g (int i)) [0..<length props])"
    by (simp add: enumerate_proposals_cpu_def for_loop_def [of 0 1] split: option.splits)
  have "?at h w a = Some (map (\<lambda>i. ?g (int i)) [0..<length props] ! nat ((h * W + w) * A + a)) \<and>
      inside (fst img) (snd img) (map (\<lambda>i. ?g (int i)) [0..<length props] ! nat ((h * W + w) * A + a))"
    if i: "0 \<le> h" "h < H" "0 \<le> w" "w < W" "0 \<le> a" "a < A" for h w a
  proof -
    have "0 \<le> ((0 * H + h) * W + w) * A + a \<and> ((0 * H + h) * W + w) * A + a < 1 * H * W * A"
      using idx4_bound [of 0 1 h H w W a A] i by simp
    then have k: "0 \<le> (h * W + w) * A + a" "nat ((h * W + w) * A + a) < length props" using assms by (auto simp: ac_simps)
    obtain b where b: "?at h w a = Some b" "inside (fst img) (snd img) b" using proposal_at_ok [OF maps] i by blast
    have "map (\<lambda>i. ?g (int i)) [0..<length props] ! nat ((h * W + w) * A + a) = ?g ((h * W + w) * A + a)"
      using k by simp
    then show ?thesis using g [of w a h] i b by simp
  qed
  then show ?thesis using e by (intro exI [of _ "map (\<lambda>i. ?g (int i)) [0..<length props]"]) simp
qed


section \<open>The loops over the best boxes\<close>

definition coord :: "proposal_box \<Rightarrow> int \<Rightarrow> f32" where
  "coord b k = (if k = 0 then bx0 b else if k = 1 then by0 b else if k = 2 then bx1 b else by1 b)"

lemma unpack_boxes_ok:
  assumes n: "0 \<le> n" "n \<le> int (length props)" "length props \<le> 2 ^ 31" "int (length u) = 4 * n" "length u \<le> 2 ^ 31"
  shows "\<exists>u'. unpack_boxes props u n = Some u' \<and> int (length u') = 4 * n \<and>
    (\<forall>i. 0 \<le> i \<and> i < n \<longrightarrow> corners_at u' n i = Some (corners (props ! nat i)))"
proof -
  let ?g = "\<lambda>j. coord (props ! nat (j mod n)) (j div n)"
  have g: "?g (k * n + i) = coord (props ! nat i) k" if "0 \<le> i" "i < n" for k i using that by (simp add: flat_div)
  have in4: "0 \<le> k * n + i \<and> k * n + i < 4 * n" if "0 \<le> k" "k < 4" "0 \<le> i" "i < n" for k i
    using flat_bound [OF that] by simp
  have w1: "\<exists>d'. st d (k * n + i) v = Some d' \<and> wrote {k * n + i} ?g d d'"
    if "0 \<le> k" "k < 4" "0 \<le> i" "i < n" "length d = length u" "v = coord (props ! nat i) k" for d k i v
    using in4 [OF that(1-4)] g [OF that(3,4)] that(5,6) n by (intro wrote_st) (auto simp: int_ok_def)
  let ?S = "\<lambda>i. {0 * n + i} \<union> {1 * n + i} \<union> {2 * n + i} \<union> {3 * n + i}"
  have "\<exists>u'. unpack_boxes props u n = Some u' \<and> wrote (\<Union>i\<in>{0..<n}. ?S i) ?g u u'"
    unfolding unpack_boxes_def
  proof (rule wrote_for [where n = "length u"])
    fix i :: int and d :: "f32 list" assume i: "0 \<le> i" "i < n" and d: "length d = length u"
    have b: "ld props i = Some (props ! nat i)" using i n by (intro ld_in [where k = n]) simp_all
    obtain d1 where d1: "st d (0 * n + i) (bx0 (props ! nat i)) = Some d1" "wrote {0 * n + i} ?g d d1"
      using w1 [of 0 i d] i d by (auto simp: coord_def)
    obtain d2 where d2: "st d1 (1 * n + i) (by0 (props ! nat i)) = Some d2" "wrote {1 * n + i} ?g d1 d2"
      using w1 [of 1 i d1 "by0 (props ! nat i)"] i d wrote_length [OF d1(2)] by (auto simp: coord_def)
    obtain d3 where d3: "st d2 (2 * n + i) (bx1 (props ! nat i)) = Some d3" "wrote {2 * n + i} ?g d2 d3"
      using w1 [of 2 i d2 "bx1 (props ! nat i)"] i d wrote_length [OF d1(2)] wrote_length [OF d2(2)] by (auto simp: coord_def)
    obtain d4 where d4: "st d3 (3 * n + i) (by1 (props ! nat i)) = Some d4" "wrote {3 * n + i} ?g d3 d4"
      using w1 [of 3 i d3 "by1 (props ! nat i)"] i d wrote_length [OF d1(2)] wrote_length [OF d2(2)] wrote_length [OF d3(2)]
      by (auto simp: coord_def)
    from wrote_comp [OF wrote_comp [OF wrote_comp [OF d1(2) d2(2)] d3(2)] d4(2)] b d1(1) d2(1) d3(1) d4(1)
    show "\<exists>d'. do { b \<leftarrow> ld props i; u1 \<leftarrow> st d (0 * n + i) (bx0 b); u2 \<leftarrow> st u1 (1 * n + i) (by0 b);
        u3 \<leftarrow> st u2 (2 * n + i) (bx1 b); st u3 (3 * n + i) (by1 b) } = Some d' \<and> wrote (?S i) ?g d d'" by simp
  qed simp
  then obtain u' where u': "unpack_boxes props u n = Some u'" and w: "wrote (\<Union>i\<in>{0..<n}. ?S i) ?g u u'" by blast
  have at: "ld u' (k * n + i) = Some (coord (props ! nat i) k)" if "k \<in> {0, 1, 2, 3}" "0 \<le> i" "i < n" for k i
  proof -
    have k: "0 \<le> k" "k < 4" using that by auto
    note b = in4 [OF k that(2,3)]
    have "ld u' (k * n + i) = Some (u' ! nat (k * n + i))"
      using b n wrote_length [OF w] by (intro ld_in [where k = "4 * n"]) auto
    moreover have "int (nat (k * n + i)) \<in> (\<Union>i\<in>{0..<n}. ?S i)" using b that by auto
    ultimately show ?thesis using wrote_nth [OF w, of "nat (k * n + i)"] b n g [OF that(2,3)] by (auto simp: nat_less_iff)
  qed
  have "corners_at u' n i = Some (corners (props ! nat i))" if "0 \<le> i" "i < n" for i
    using at [of 0 i] at [of 1 i] at [of 2 i] at [of 3 i] that by (simp add: corners_at_def corners_def coord_def)
  then show ?thesis using u' n wrote_length [OF w] by auto
qed

definition clashes :: "f32 \<Rightarrow> (int \<Rightarrow> corners) \<Rightarrow> int \<Rightarrow> int \<Rightarrow> bool" where
  "clashes thr c x k \<longleftrightarrow> thr < box_overlap (c k) (c x)"

lemma mark_overlaps_ok:
  assumes c: "\<And>i. 0 \<le> i \<Longrightarrow> i < n \<Longrightarrow> corners_at boxes n i = Some (c i)" and box: "0 \<le> box" "box < n"
    and dead: "int (length dead) = n" "n \<le> 2 ^ 31"
  shows "\<exists>dead'. mark_overlaps boxes n thr box dead = Some dead' \<and> length dead' = length dead \<and>
    (\<forall>t. 0 \<le> t \<and> t < n \<longrightarrow> dead' ! nat t = (if box < t \<and> clashes thr c t box then 1 else dead ! nat t))"
proof -
  let ?P = "\<lambda>i d. length d = length dead \<and>
    (\<forall>t. 0 \<le> t \<and> t < n \<longrightarrow> d ! nat t = (if box < t \<and> t < i \<and> clashes thr c t box then 1 else dead ! nat t))"
  have "\<exists>d. mark_overlaps boxes n thr box dead = Some d \<and> ?P n d"
    unfolding mark_overlaps_def
  proof (rule for_loop_inv [where P = ?P])
    fix i d assume i: "box + 1 \<le> i" "i < n" and P: "?P i d"
    have s: "st d i 1 = Some (d[nat i := 1])" using i box dead P by (auto simp: st_def int_ok_def)
    show "\<exists>d'. do { bi \<leftarrow> corners_at boxes n box; bj \<leftarrow> corners_at boxes n i;
        if thr < box_overlap bi bj then st d i 1 else Some d } = Some d' \<and> ?P (i + 1) d'"
    proof (cases "clashes thr c i box")
      case True
      have "?P (i + 1) (d[nat i := 1])"
        using P True i box dead by (auto simp: nth_list_update nat_eq_iff)
      then show ?thesis using True s c i box by (simp add: clashes_def)
    next
      case False
      have "?P (i + 1) d"
      proof (intro conjI allI impI)
        fix t assume t: "0 \<le> t \<and> t < n"
        have "t = i \<longrightarrow> \<not> clashes thr c t box" using False by simp
        then show "d ! nat t = (if box < t \<and> t < i + 1 \<and> clashes thr c t box then 1 else dead ! nat t)"
          using P t by auto
      qed (use P in simp)
      then show ?thesis using False c i box by (simp add: clashes_def)
    qed
  qed (use box in auto)
  then show ?thesis by auto
qed

definition dead_ok :: "f32 \<Rightarrow> (int \<Rightarrow> corners) \<Rightarrow> int \<Rightarrow> int \<Rightarrow> int list \<Rightarrow> int list \<Rightarrow> bool" where
  "dead_ok thr c box n kept dead \<longleftrightarrow> int (length dead) = n \<and>
     (\<forall>t. box \<le> t \<and> t < n \<longrightarrow> dead ! nat t = (if \<exists>k \<in> set kept. clashes thr c t k then 1 else 0))"

lemma nms_boxes_ok:
  assumes c: "\<And>i. 0 \<le> i \<Longrightarrow> i < n \<Longrightarrow> corners_at boxes n i = Some (c i)" and n: "n \<le> 2 ^ 31" and mx: "mx \<le> int (length idx)" "length idx \<le> 2 ^ 31"
    and box: "box = n - int k" "0 \<le> box"
    and dead: "dead_ok thr c box n (greedy (clashes thr c) [0..box - 1]) dead"
    and idx: "seg 0 (greedy (clashes thr c) [0..box - 1]) idx" "int (length (greedy (clashes thr c) [0..box - 1])) = cnt" "cnt < mx"
  shows "\<exists>dead' idx' num. nms_boxes k boxes n 0 thr mx dead idx cnt = Some (dead', idx', num) \<and> length dead' = length dead \<and>
    length idx' = length idx \<and> seg 0 (take (nat mx) (greedy (clashes thr c) [0..n - 1])) idx' \<and>
    num = int (length (take (nat mx) (greedy (clashes thr c) [0..n - 1])))"
  using mx box dead idx
proof (induction k arbitrary: box dead idx cnt)
  case 0
  let ?kept = "greedy (clashes thr c) [0..n - 1]"
  have "int (length ?kept) = cnt" "cnt < mx" "seg 0 ?kept idx" using "0.prems" by simp_all
  then show ?case by simp
next
  case (Suc k)
  let ?cl = "clashes thr c" and ?kept = "greedy (clashes thr c) [0..box - 1]"
  have up: "[0..box] = [0..box - 1] @ [box]" using Suc.prems(4) by (simp add: upto_rec2)
  have b: "box < n" "n - int (Suc k) = box" "box + 1 = n - int k" "0 \<le> box + 1" using Suc.prems(3,4) by simp_all
  have d: "ld dead box = Some (dead ! nat box)" "dead ! nat box = (if \<exists>x \<in> set ?kept. ?cl box x then 1 else 0)"
  proof -
    show "ld dead box = Some (dead ! nat box)"
      using Suc.prems(4,5) b n by (intro ld_in [where k = n]) (simp_all add: dead_ok_def)
    show "dead ! nat box = (if \<exists>x \<in> set ?kept. ?cl box x then 1 else 0)"
      using Suc.prems(4,5) b by (simp add: dead_ok_def)
  qed
  have sets: "set ?kept \<subseteq> {0..<box}" using greedy_set [of ?cl "[0..box - 1]"] by auto
  show ?case
  proof (cases "\<exists>x \<in> set ?kept. ?cl box x")
    case True
    then have g: "greedy ?cl [0..box] = ?kept" by (simp add: up greedy_snoc keep_step_def)
    have ok: "dead_ok thr c (box + 1) n ?kept dead" using Suc.prems(5) by (simp add: dead_ok_def)
    have s: "[0..box + 1 - 1] = [0..box]" by simp
    have "\<exists>dead' idx' num. nms_boxes k boxes n 0 thr mx dead idx cnt = Some (dead', idx', num) \<and> length dead' = length dead \<and>
        length idx' = length idx \<and> seg 0 (take (nat mx) (greedy ?cl [0..n - 1])) idx' \<and>
        num = int (length (take (nat mx) (greedy ?cl [0..n - 1])))"
      by (rule Suc.IH [of idx "box + 1" dead cnt, unfolded s g]) (use Suc.prems(1,2,6-8) b ok in simp_all)
    moreover have "nms_boxes (Suc k) boxes n 0 thr mx dead idx cnt = nms_boxes k boxes n 0 thr mx dead idx cnt"
      unfolding nms_boxes.simps b(2) Let_def using d True by simp
    ultimately show ?thesis by simp
  next
    case False
    have g: "greedy ?cl [0..box] = ?kept @ [box]" using False by (simp add: up greedy_snoc keep_step_def)
    have cnt: "0 \<le> cnt" using Suc.prems(7) by simp
    have "\<exists>d'. st idx (0 + int (length ?kept)) box = Some d' \<and> seg 0 (?kept @ [box]) d' \<and> same_outside 0 mx idx d'"
      using Suc.prems by (intro seg_st) simp_all
    then obtain idx1 where i1: "st idx cnt box = Some idx1" "seg 0 (?kept @ [box]) idx1" "length idx1 = length idx"
      using Suc.prems(7) same_outside_length by fastforce
    have d0: "dead ! nat box = 0" using d(2) False by simp
    have pre: "\<exists>zs. greedy ?cl [0..n - 1] = greedy ?cl [0..box] @ zs"
    proof -
      have "[0..n - 1] = [0..box] @ [box + 1..n - 1]" using upto_split2 [of 0 box "n - 1"] b Suc.prems(4) by simp
      then show ?thesis using greedy_prefix by metis
    qed
    show ?thesis
    proof (cases "cnt + 1 = mx")
      case True
      obtain zs where zs: "greedy ?cl [0..n - 1] = (?kept @ [box]) @ zs" using pre g by auto
      have "nat mx = length (?kept @ [box])" using True Suc.prems(7) by simp
      then have "take (nat mx) (greedy ?cl [0..n - 1]) = ?kept @ [box]" unfolding zs by simp
      then show ?thesis unfolding nms_boxes.simps b(2) Let_def using i1 d(1) d0 True Suc.prems(7) by simp
    next
      case neq: False
      obtain dead1 where d1: "mark_overlaps boxes n thr box dead = Some dead1" "length dead1 = length dead"
        "\<forall>t. 0 \<le> t \<and> t < n \<longrightarrow> dead1 ! nat t = (if box < t \<and> ?cl t box then 1 else dead ! nat t)"
        using mark_overlaps_ok [of n boxes c box dead thr] c b(1) Suc.prems(4,5) n by (auto simp: dead_ok_def)
      have ok: "dead_ok thr c (box + 1) n (?kept @ [box]) dead1"
        using Suc.prems(4,5) d1(2,3) unfolding dead_ok_def by auto
      have s: "[0..box + 1 - 1] = [0..box]" by simp
      have "\<exists>dead' idx' num. nms_boxes k boxes n 0 thr mx dead1 idx1 (cnt + 1) = Some (dead', idx', num) \<and> length dead' = length dead1 \<and>
        length idx' = length idx1 \<and> seg 0 (take (nat mx) (greedy ?cl [0..n - 1])) idx' \<and>
        num = int (length (take (nat mx) (greedy ?cl [0..n - 1])))"
        by (rule Suc.IH [of idx1 "box + 1" dead1 "cnt + 1", unfolded s g]) (use Suc.prems(1,2,7,8) i1 b ok neq in simp_all)
      then show ?thesis unfolding nms_boxes.simps b(2) Let_def using i1 d(1) d0 d1(1,2) neq by simp
    qed
  qed
qed

lemma nms_cpu_ok:
  assumes c: "\<And>i. 0 \<le> i \<Longrightarrow> i < n \<Longrightarrow> corners_at boxes n i = Some (c i)" and n: "0 \<le> n" "n \<le> 2 ^ 31" "int (length dead) = n"
    and mx: "0 < mx" "mx \<le> int (length idx)" "length idx \<le> 2 ^ 31"
  shows "\<exists>dead' idx' num. nms_cpu n dead boxes idx 0 thr mx = Some (dead', idx', num) \<and> length dead' = length dead \<and>
    length idx' = length idx \<and> seg 0 (take (nat mx) (greedy (clashes thr c) [0..n - 1])) idx' \<and>
    num = int (length (take (nat mx) (greedy (clashes thr c) [0..n - 1])))"
proof -
  have "\<exists>d'. st_run dead 0 (replicate (nat n) 0) = Some d' \<and> wrote {0..<0 + int (length (replicate (nat n) (0::int)))} (\<lambda>_. 0) dead d'"
    using n by (intro wrote_st_run) simp_all
  then obtain d where d: "st_run dead 0 (replicate (nat n) 0) = Some d" "wrote {0..<n} (\<lambda>_. 0) dead d" using n by auto
  have "d ! nat t = 0" if "0 \<le> t" "t < n" for t using wrote_nth [OF d(2), of "nat t"] that n by (simp add: nat_less_iff)
  then have "dead_ok thr c 0 n [] d" using n wrote_length [OF d(2)] by (simp add: dead_ok_def)
  then have "\<exists>dead' idx' num. nms_boxes (nat n) boxes n 0 thr mx d idx 0 = Some (dead', idx', num) \<and> length dead' = length d \<and>
    length idx' = length idx \<and> seg 0 (take (nat mx) (greedy (clashes thr c) [0..n - 1])) idx' \<and>
    num = int (length (take (nat mx) (greedy (clashes thr c) [0..n - 1])))"
    using n mx by (intro nms_boxes_ok [OF c, where box = 0]) (simp_all add: seg_Nil)
  then show ?thesis using d(1) wrote_length [OF d(2)] by (auto simp: nms_cpu_def)
qed


section \<open>The output rows\<close>

fun row_of :: "int \<Rightarrow> corners \<Rightarrow> f32 list" where
  "row_of item (x0, y0, x1, y1) = [i2f item, x0, y0, x1, y1]"

lemma length_row_of [simp]: "length (row_of item c) = 5"
  by (cases c) simp

text \<open>The rows for the boxes \<open>keep\<close>, the marker, and zeros up to the capacity \<open>post\<close>.\<close>

definition rows_written :: "int \<Rightarrow> corners list \<Rightarrow> nat \<Rightarrow> f32 list \<Rightarrow> f32 list \<Rightarrow> bool" where
  "rows_written item keep post rois out \<longleftrightarrow> length out = length rois \<and>
     (\<forall>r < length keep. \<forall>j < 5. out ! (5 * r + j) = row_of item (keep ! r) ! j) \<and>
     (length keep < post \<longrightarrow> out ! (5 * length keep) = - 1) \<and>
     (\<forall>i. 5 * length keep < i \<and> i < 5 * post \<longrightarrow> out ! i = 0) \<and>
     (\<forall>i < length rois. 5 * post \<le> i \<longrightarrow> out ! i = rois ! i)"

lemma retrieve_rois_ok:
  assumes c: "\<And>i. 0 \<le> i \<Longrightarrow> i < n \<Longrightarrow> corners_at boxes n i = Some (c i)" and keep: "set keep \<subseteq> {0..<n}" "length keep \<le> post"
    and idx: "seg 0 keep idx" "length idx \<le> 2 ^ 31" and rois: "5 * post \<le> length rois" "length rois \<le> 2 ^ 31"
  shows "\<exists>out. retrieve_rois_cpu (int (length keep)) item n boxes idx rois (int post) = Some out \<and>
    rows_written item (map c keep) post rois out"
proof -
  let ?m = "length keep" and ?g = "\<lambda>i. row_of item (c (keep ! nat (i div 5))) ! nat (i mod 5)"
  let ?S = "\<lambda>roi. {roi * 5..<roi * 5 + 5 :: int}"
  have rows: "\<exists>d'. do { index \<leftarrow> ld idx roi; (x0, y0, x1, y1) \<leftarrow> corners_at boxes n index;
      st_run d (roi * 5) [i2f item, x0, y0, x1, y1] } = Some d' \<and> wrote (?S roi) ?g d d'"
    if roi: "0 \<le> roi" "roi < int ?m" and d: "length d = length rois" for roi d
  proof -
    have k: "nat roi < ?m" using roi by simp
    have i: "ld idx roi = Some (keep ! nat roi)" using seg_ld [OF idx(1) roi idx(2)] by simp
    have "keep ! nat roi \<in> {0..<n}" using keep(1) k nth_mem by blast
    then have ca: "corners_at boxes n (keep ! nat roi) = Some (c (keep ! nat roi))" using c by simp
    let ?r = "row_of item (c (keep ! nat roi))"
    have "\<exists>d'. st_run d (roi * 5) ?r = Some d' \<and> wrote {roi * 5..<roi * 5 + int (length ?r)} ?g d d'"
    proof (rule wrote_st_run)
      fix j assume j: "j < length ?r"
      then have "(roi * 5 + int j) div 5 = roi" "(roi * 5 + int j) mod 5 = int j" by (simp_all add: flat_div)
      then show "?g (roi * 5 + int j) = ?r ! j" by simp
    qed (use roi keep(2) d rois in auto)
    then show ?thesis using i ca by (cases "c (keep ! nat roi)") auto
  qed
  have "\<exists>r1. for_loop 0 (int ?m) (\<lambda>roi r. do { index \<leftarrow> ld idx roi; (x0, y0, x1, y1) \<leftarrow> corners_at boxes n index;
      st_run r (roi * 5) [i2f item, x0, y0, x1, y1] }) rois = Some r1 \<and> wrote (\<Union>roi\<in>{0..<int ?m}. ?S roi) ?g rois r1"
    by (rule wrote_for [where n = "length rois"], erule (2) rows) (rule refl)
  then obtain r1 where r1: "for_loop 0 (int ?m) (\<lambda>roi r. do { index \<leftarrow> ld idx roi; (x0, y0, x1, y1) \<leftarrow> corners_at boxes n index;
      st_run r (roi * 5) [i2f item, x0, y0, x1, y1] }) rois = Some r1" and w1: "wrote (\<Union>roi\<in>{0..<int ?m}. ?S roi) ?g rois r1"
    by blast
  have S: "(\<Union>roi\<in>{0..<int ?m}. ?S roi) = {0..<5 * int ?m}"
  proof (intro set_eqI iffI)
    fix i assume "i \<in> {0..<5 * int ?m}"
    then have "i div 5 \<in> {0..<int ?m}" "i \<in> ?S (i div 5)" by auto
    then show "i \<in> (\<Union>roi\<in>{0..<int ?m}. ?S roi)" by blast
  qed auto
  note l1 = wrote_length [OF w1]
  have old: "r1 ! i = rois ! i" if "5 * ?m \<le> i" "i < length rois" for i using wrote_nth [OF w1 that(2)] that unfolding S by simp
  have row: "r1 ! (5 * r + j) = row_of item (map c keep ! r) ! j" if "r < ?m" "j < 5" for r j
  proof -
    have lt: "5 * r + j < 5 * ?m" "5 * r + j < length rois" using that keep(2) rois by linarith+
    have i: "int (5 * r + j) = int r * 5 + int j" by simp
    have "int (5 * r + j) \<in> {0..<5 * int ?m}" using lt(1) by simp
    then have "r1 ! (5 * r + j) = ?g (int (5 * r + j))" using wrote_nth [OF w1 lt(2)] unfolding S by simp
    also have "\<dots> = row_of item (c (keep ! r)) ! j" unfolding i using that flat_div [of "int j" 5 "int r"] by simp
    finally show ?thesis using that by simp
  qed
  show ?thesis
  proof (cases "?m < post")
    case False
    then have "?m = post" using keep(2) by simp
    then show ?thesis using r1 l1 row old by (intro exI [of _ r1]) (simp add: retrieve_rois_cpu_def rows_written_def)
  next
    case True
    have "\<exists>r2. for_loop (5 * int ?m) (5 * int post) (\<lambda>i r. st r i 0) r1 = Some r2 \<and>
        wrote (\<Union>i\<in>{5 * int ?m..<5 * int post}. {i}) (\<lambda>_. 0) r1 r2"
      by (rule wrote_for [where n = "length rois"]) (use l1 rois in \<open>auto intro!: wrote_st simp: int_ok_def\<close>)
    then obtain r2 where r2: "for_loop (5 * int ?m) (5 * int post) (\<lambda>i r. st r i 0) r1 = Some r2" "wrote {5 * int ?m..<5 * int post} (\<lambda>_. 0) r1 r2"
      by auto
    note l2 = wrote_length [OF r2(2)]
    have z: "r2 ! i = (if 5 * ?m \<le> i \<and> i < 5 * post then 0 else r1 ! i)" if "i < length rois" for i
      using wrote_nth [OF r2(2)] that l1 by simp
    let ?out = "r2[5 * ?m := - 1]"
    have s: "st r2 (int ?m * 5 + 0) (- 1) = Some ?out"
      using True rois l1 l2 by (auto simp: st_def int_ok_def nat_mult_distrib mult.commute)
    have "rows_written item (map c keep) post rois ?out"
      unfolding rows_written_def length_map
    proof (intro conjI allI impI)
      fix r j :: nat assume rj: "r < ?m" "j < 5"
      then have "5 * r + j < 5 * ?m" "5 * r + j < length rois" using keep(2) rois by linarith+
      then show "?out ! (5 * r + j) = row_of item (map c keep ! r) ! j" using z [of "5 * r + j"] row [OF rj] by simp
    next
      show "?out ! (5 * ?m) = - 1" using True rois l1 l2 by simp
    next
      fix i assume "5 * ?m < i \<and> i < 5 * post"
      then show "?out ! i = 0" using z [of i] rois by simp
    next
      fix i assume "i < length rois" "5 * post \<le> i"
      then show "?out ! i = rois ! i" using z [of i] old [of i] True by simp
    qed (simp add: l1 l2)
    then show ?thesis using r1 r2(1) s True by (simp add: retrieve_rois_cpu_def)
  qed
qed

section \<open>The layer\<close>

text \<open>The contract of \<^verbatim>\<open>std::partial_sort\<close> with the comparison of the scores.\<close>

definition partial_sorted :: "nat \<Rightarrow> proposal_box list \<Rightarrow> proposal_box list \<Rightarrow> bool" where
  "partial_sorted n xs ys \<longleftrightarrow> mset ys = mset xs \<and> sorted_wrt (\<lambda>a b. bscore b \<le> bscore a) (take n ys) \<and>
     (\<forall>a \<in> set (take n ys). \<forall>b \<in> set (drop n ys). bscore b \<le> bscore a)"

definition kept_corners :: "f32 \<Rightarrow> nat \<Rightarrow> proposal_box list \<Rightarrow> corners list" where
  "kept_corners thr post best = take post (greedy (\<lambda>x k. thr < box_overlap k x) (map corners best))"

lemma kept_corners_indices:
  assumes "n = int (length best)"
  shows "kept_corners thr post best = map (\<lambda>i. corners (best ! nat i)) (take post (greedy (clashes thr (\<lambda>i. corners (best ! nat i))) [0..n - 1]))"
proof -
  have "map corners best = map (\<lambda>i. corners (best ! nat i)) [0..n - 1]"
    using assms by (intro nth_equalityI) (simp_all add: nth_upto)
  then show ?thesis by (simp add: kept_corners_def greedy_map take_map clashes_def [abs_def])
qed

definition layer_ok :: "proposal \<Rightarrow> f32 list \<Rightarrow> f32 list \<Rightarrow> int \<Rightarrow> int \<Rightarrow> int \<Rightarrow> bool" where
  "layer_ok P bottom d_anchor H W pre \<longleftrightarrow>
     maps_ok bottom (anchors_shape_0 P * H * W) d_anchor (p_anchors P) (anchors_shape_0 P) H W (feat_stride P) \<and>
     anchors_shape_0 P * H * W * 4 \<le> 2 ^ 31 \<and> 0 \<le> pre \<and> pre \<le> anchors_shape_0 P * H * W \<and> 0 < post_nms_topn P \<and>
     post_nms_topn P < 2 ^ 31"

definition boxes_of ::
  "(f32 \<Rightarrow> f32) \<Rightarrow> proposal \<Rightarrow> f32 list \<Rightarrow> f32 list \<Rightarrow> int \<Rightarrow> int \<Rightarrow> f32 \<times> f32 \<Rightarrow> f32 \<times> f32 \<Rightarrow> proposal_box list \<Rightarrow> bool" where
  "boxes_of expf P bottom d_anchor H W img min_box boxes \<longleftrightarrow> int (length boxes) = anchors_shape_0 P * H * W \<and>
     (\<forall>h w a. 0 \<le> h \<and> h < H \<and> 0 \<le> w \<and> w < W \<and> 0 \<le> a \<and> a < anchors_shape_0 P \<longrightarrow>
        proposal_at expf bottom (anchors_shape_0 P * H * W) d_anchor (p_anchors P) (anchors_shape_0 P) H W img min_box (feat_stride P) h w a
          = Some (boxes ! nat ((h * W + w) * anchors_shape_0 P + a)))"

lemma proposal_image_ok:
  assumes ok: "layer_ok P bottom d_anchor H W pre"
    and sort: "\<forall>xs. partial_sorted (nat pre) xs (psort pre xs)"
    and bufs: "int (length props) = anchors_shape_0 P * H * W" "int (length unpacked) = 4 * pre" "int (length is_dead) = pre"
      "int (length idx) = post_nms_topn P" "5 * post_nms_topn P \<le> int (length rois)" "length rois \<le> 2 ^ 31"
  shows "\<exists>boxes unpacked' dead' idx' out. boxes_of expf P bottom d_anchor H W img min_box boxes \<and>
    (\<forall>b \<in> set boxes. inside (fst img) (snd img) b) \<and>
    proposal_image expf psort P bottom d_anchor H W img min_box pre n (props, unpacked, is_dead, idx, rois) =
      Some (psort pre boxes, unpacked', dead', idx', out) \<and>
    length unpacked' = length unpacked \<and> length dead' = length is_dead \<and> length idx' = length idx \<and>
    rows_written n (kept_corners (nms_thresh P) (nat (post_nms_topn P)) (take (nat pre) (psort pre boxes))) (nat (post_nms_topn P)) rois out"
proof -
  let ?A = "anchors_shape_0 P" and ?post = "post_nms_topn P"
  have maps: "maps_ok bottom (?A * H * W) d_anchor (p_anchors P) ?A H W (feat_stride P)" and num: "?A * H * W * 4 \<le> 2 ^ 31"
    and pre: "0 \<le> pre" "pre \<le> ?A * H * W" and post: "0 < ?post" "?post < 2 ^ 31"
    using ok by (simp_all add: layer_ok_def)
  have "int (length props) * 4 \<le> 2147483648" using bufs(1) num by simp
  then have pl: "length props \<le> 2 ^ 31" by simp
  obtain boxes where b: "enumerate_proposals_cpu expf bottom (?A * H * W) d_anchor (p_anchors P) ?A H W img min_box (feat_stride P) props = Some boxes"
    "length boxes = length props" and at: "\<forall>h w a. 0 \<le> h \<and> h < H \<and> 0 \<le> w \<and> w < W \<and> 0 \<le> a \<and> a < ?A \<longrightarrow>
       proposal_at expf bottom (?A * H * W) d_anchor (p_anchors P) ?A H W img min_box (feat_stride P) h w a = Some (boxes ! nat ((h * W + w) * ?A + a)) \<and>
       inside (fst img) (snd img) (boxes ! nat ((h * W + w) * ?A + a))"
    using enumerate_ok [OF maps bufs(1) pl, of expf img min_box] by blast
  have ins: "\<forall>b \<in> set boxes. inside (fst img) (snd img) b"
  proof
    fix x assume "x \<in> set boxes"
    then obtain k where k: "k < length boxes" "x = boxes ! k" by (auto simp: in_set_conv_nth)
    have dims: "0 \<le> ?A" "0 \<le> W" "0 \<le> H" using maps by (simp_all add: maps_ok_def)
    have "int k < int (length props)" using k(1) b(2) by simp
    then have klt: "int k < (H * W) * ?A" using bufs(1) by (simp only: ac_simps)
    have k0: "0 \<le> int k" by simp
    obtain p a where p: "int k = p * ?A + a" "0 \<le> p" "p < H * W" "0 \<le> a" "a < ?A" using flat_cases [OF k0 klt dims(1)] by blast
    obtain h w where h: "p = h * W + w" "0 \<le> h" "h < H" "0 \<le> w" "w < W" using flat_cases [OF p(2,3) dims(2)] by blast
    have "nat ((h * W + w) * ?A + a) = k" unfolding h(1) [symmetric] p(1) [symmetric] by simp
    then show "inside (fst img) (snd img) x" using at h p k(2) by auto
  qed
  let ?ps = "psort pre boxes"
  have "mset ?ps = mset boxes" using sort by (simp add: partial_sorted_def)
  then have len: "length ?ps = length boxes" by (metis size_mset)
  let ?best = "take (nat pre) ?ps" and ?c = "\<lambda>i. corners (?ps ! nat i)"
  have lt: "int (length ?best) = pre" using len b(2) bufs(1) pre by simp
  have n4: "?A * H * W * 4 \<le> 2147483648" using num by simp
  then have "int (length unpacked) \<le> 2147483648" using bufs(2) pre by linarith
  then have u: "pre \<le> int (length ?ps)" "length ?ps \<le> 2 ^ 31" "length unpacked \<le> 2 ^ 31" using len b(2) bufs(1) pre pl by simp_all
  obtain un where un: "unpack_boxes ?ps unpacked pre = Some un" "int (length un) = 4 * pre"
    "\<And>i. 0 \<le> i \<Longrightarrow> i < pre \<Longrightarrow> corners_at un pre i = Some (?c i)"
    using unpack_boxes_ok [OF pre(1) u(1,2) bufs(2) u(3)] by blast
  let ?keep = "take (nat ?post) (greedy (clashes (nms_thresh P) ?c) [0..pre - 1])"
  have p31: "pre \<le> 2 ^ 31" using pre num by linarith
  obtain dead' idx' where nms: "nms_cpu pre is_dead un idx 0 (nms_thresh P) ?post = Some (dead', idx', int (length ?keep))"
    "length dead' = length is_dead" "length idx' = length idx" "seg 0 ?keep idx'"
    using nms_cpu_ok [OF un(3) pre(1) p31 bufs(3) post(1), of idx "nms_thresh P"] bufs(4) post(2) by auto
  have ks: "set ?keep \<subseteq> {0..<pre}"
    using greedy_set [of "clashes (nms_thresh P) ?c" "[0..pre - 1]"] set_take_subset [of "nat ?post" "greedy (clashes (nms_thresh P) ?c) [0..pre - 1]"]
    by fastforce
  have room: "5 * nat ?post \<le> length rois" using bufs(5) post by linarith
  obtain out where out: "retrieve_rois_cpu (int (length ?keep)) n pre un idx' rois (int (nat ?post)) = Some out"
    "rows_written n (map ?c ?keep) (nat ?post) rois out"
    using retrieve_rois_ok [OF un(3) ks _ nms(4), of "nat ?post" rois n] nms(3) bufs(4-6) post room by auto
  have "map ?c ?keep = kept_corners (nms_thresh P) (nat ?post) ?best"
  proof -
    have same: "?c i = corners (?best ! nat i)" if "0 \<le> i" "i < pre" for i using that by (simp add: nat_less_iff)
    have "greedy (clashes (nms_thresh P) ?c) [0..pre - 1] = greedy (clashes (nms_thresh P) (\<lambda>i. corners (?best ! nat i))) [0..pre - 1]"
      using same by (intro greedy_cong) (simp add: clashes_def)
    moreover have "map ?c ?keep = map (\<lambda>i. corners (?best ! nat i)) ?keep" using ks same by (intro map_cong) auto
    ultimately show ?thesis using kept_corners_indices [of pre ?best] lt by simp
  qed
  then have rows: "rows_written n (kept_corners (nms_thresh P) (nat ?post) ?best) (nat ?post) rois out" using out(2) by simp
  have "proposal_image expf psort P bottom d_anchor H W img min_box pre n (props, unpacked, is_dead, idx, rois) =
      Some (?ps, un, dead', idx', out)"
    using b(1) un(1) nms(1) out(1) post by (simp add: proposal_image_def Let_def)
  moreover have "boxes_of expf P bottom d_anchor H W img min_box boxes" using at b(2) bufs(1) by (simp add: boxes_of_def)
  ultimately show ?thesis using ins rows nms(2,3) un(2) bufs(2)
    by (intro exI [of _ boxes] exI [of _ un] exI [of _ dead'] exI [of _ idx'] exI [of _ out]) simp
qed


lemma rows_written_again:
  assumes "rows_written n keep post mid out" and "length mid = length rois" and "\<And>i. i < length rois \<Longrightarrow> 5 * post \<le> i \<Longrightarrow> mid ! i = rois ! i"
  shows "rows_written n keep post rois out"
  using assms by (simp add: rows_written_def)

text \<open>The buffers after \<open>i\<close> rounds of the batch loop.\<close>

definition batch_inv ::
  "(f32 \<Rightarrow> f32) \<Rightarrow> (int \<Rightarrow> proposal_box list \<Rightarrow> proposal_box list) \<Rightarrow> proposal \<Rightarrow> f32 list \<Rightarrow> f32 list \<Rightarrow> int \<Rightarrow> int \<Rightarrow>
     f32 \<times> f32 \<Rightarrow> f32 \<times> f32 \<Rightarrow> int \<Rightarrow> f32 list \<Rightarrow> int \<Rightarrow>
     proposal_box list \<times> f32 list \<times> int list \<times> int list \<times> f32 list \<Rightarrow> bool" where
  "batch_inv expf psort P bottom d_anchor H W img min_box pre rois i = (\<lambda>(props, un, dead, idx, mid).
     int (length props) = anchors_shape_0 P * H * W \<and> int (length un) = 4 * pre \<and> int (length dead) = pre \<and>
     int (length idx) = post_nms_topn P \<and> length mid = length rois \<and>
     (\<forall>j < length rois. 5 * nat (post_nms_topn P) \<le> j \<longrightarrow> mid ! j = rois ! j) \<and>
     (0 < i \<longrightarrow> (\<exists>boxes. boxes_of expf P bottom d_anchor H W img min_box boxes \<and> (\<forall>b \<in> set boxes. inside (fst img) (snd img) b) \<and>
        rows_written (i - 1) (kept_corners (nms_thresh P) (nat (post_nms_topn P)) (take (nat pre) (psort pre boxes)))
          (nat (post_nms_topn P)) rois mid)))"

lemma batch_step:
  assumes ok: "layer_ok P bottom d_anchor H W pre" and sort: "\<forall>xs. partial_sorted (nat pre) xs (psort pre xs)"
    and rois: "5 * post_nms_topn P \<le> int (length rois)" "length rois \<le> 2 ^ 31"
    and inv: "batch_inv expf psort P bottom d_anchor H W img min_box pre rois i s" and i: "0 \<le> i"
  shows "\<exists>s'. proposal_image expf psort P bottom d_anchor H W img min_box pre i s = Some s' \<and>
    batch_inv expf psort P bottom d_anchor H W img min_box pre rois (i + 1) s'"
proof -
  let ?post = "nat (post_nms_topn P)"
  obtain props un dead idx mid where s: "s = (props, un, dead, idx, mid)" by (cases s)
  have q: "int (length props) = anchors_shape_0 P * H * W" "int (length un) = 4 * pre" "int (length dead) = pre" "int (length idx) = post_nms_topn P"
    "length mid = length rois" "\<And>j. j < length rois \<Longrightarrow> 5 * ?post \<le> j \<Longrightarrow> mid ! j = rois ! j"
    using inv unfolding s batch_inv_def by simp_all
  have m: "5 * post_nms_topn P \<le> int (length mid)" "length mid \<le> 2 ^ 31" using rois q(5) by simp_all
  from proposal_image_ok [where psort = psort and pre = pre, OF ok sort q(1-4) m, of expf img min_box i] obtain boxes un' dead' idx' out where
    r: "boxes_of expf P bottom d_anchor H W img min_box boxes" "\<forall>b \<in> set boxes. inside (fst img) (snd img) b"
    "proposal_image expf psort P bottom d_anchor H W img min_box pre i s = Some (psort pre boxes, un', dead', idx', out)"
    "length un' = length un" "length dead' = length dead" "length idx' = length idx"
    and rw: "rows_written i (kept_corners (nms_thresh P) ?post (take (nat pre) (psort pre boxes))) ?post mid out"
    unfolding s by blast
  have "mset (psort pre boxes) = mset boxes" using sort by (simp add: partial_sorted_def)
  then have "length (psort pre boxes) = length boxes" by (rule mset_eq_length)
  then have len: "int (length (psort pre boxes)) = anchors_shape_0 P * H * W" using r(1) by (simp add: boxes_of_def)
  have rw': "rows_written i (kept_corners (nms_thresh P) ?post (take (nat pre) (psort pre boxes))) ?post rois out"
    by (rule rows_written_again [OF rw q(5,6)])
  then have keep: "length out = length rois" "\<forall>j < length rois. 5 * ?post \<le> j \<longrightarrow> out ! j = rois ! j" by (simp_all add: rows_written_def)
  have "\<exists>boxes. boxes_of expf P bottom d_anchor H W img min_box boxes \<and> (\<forall>b \<in> set boxes. inside (fst img) (snd img) b) \<and>
      rows_written (i + 1 - 1) (kept_corners (nms_thresh P) ?post (take (nat pre) (psort pre boxes))) ?post rois out"
    using r(1,2) rw' unfolding add_diff_cancel_right' by blast
  then have "batch_inv expf psort P bottom d_anchor H W img min_box pre rois (i + 1) (psort pre boxes, un', dead', idx', out)"
    unfolding batch_inv_def prod.case r(4-6) q(2-4) len keep(1) using keep(2) by blast
  then show ?thesis using r(3) by blast
qed

lemma prop_scale:
  fixes d :: "nat list"
  assumes "3 \<le> length img_info" "length img_info \<le> 2 ^ 31" "3 < prod_list d \<longrightarrow> 4 \<le> length img_info"
  shows "ld img_info 0 = Some (img_info ! 0)" "ld img_info 1 = Some (img_info ! 1)" "ld img_info 2 = Some (img_info ! 2)"
    "(if prod_list d > 3 then ld img_info 3 else Some (img_info ! 2)) = Some (img_info ! (if prod_list d > 3 then 3 else 2))"
  using assms by (auto simp: ld_def int_ok_def)

text \<open>C7. With maps of the sizes the network description gives, the layer runs without an access outside
  its buffers. Every box is an anchor moved by its deltas and lies inside the image. The output holds
  one row for each box that greedy suppression keeps among the \<open>pre_nms_topn\<close> boxes of highest
  score, in descending order of score and at most \<open>post_nms_topn\<close> of them, then the marker -1 and
  zeros; the rest of the output is untouched. All rows are made from the maps of the first image of
  the batch and carry the number of the last one.\<close>

theorem proposal_rows:
  assumes dims: "in_dims = [[nn, ch, nH, nW], d1, d2]" "0 < nn" "num_out \<noteq> 0"
    and info: "3 \<le> length img_info" "length img_info \<le> 2 ^ 31" "3 < prod_list d2 \<longrightarrow> 4 \<le> length img_info"
    and pre: "pre = min (anchors_shape_0 P * int nH * int nW) (pre_nms_topn P)"
    and ok: "layer_ok P bottom d_anchor (int nH) (int nW) pre"
    and sort: "\<forall>xs. partial_sorted (nat pre) xs (psort pre xs)"
    and bufs: "int (length (roi_indices P)) = post_nms_topn P" "5 * post_nms_topn P \<le> int (length rois)" "length rois \<le> 2 ^ 31"
  shows "\<exists>boxes idx out. proposal_execute expf psort P in_dims num_out bottom d_anchor img_info rois = Some (OK, P\<lparr>roi_indices := idx\<rparr>, out) \<and>
    boxes_of expf P bottom d_anchor (int nH) (int nW) (img_info ! 0, img_info ! 1)
      (fmul (i2f (min_size P)) (img_info ! 2), fmul (i2f (min_size P)) (img_info ! (if prod_list d2 > 3 then 3 else 2))) boxes \<and>
    (\<forall>b \<in> set boxes. inside (img_info ! 0) (img_info ! 1) b) \<and>
    rows_written (int nn - 1) (kept_corners (nms_thresh P) (nat (post_nms_topn P)) (take (nat pre) (psort pre boxes)))
      (nat (post_nms_topn P)) rois out"
proof -
  let ?num = "anchors_shape_0 P * int nH * int nW" and ?post = "nat (post_nms_topn P)"
  let ?img = "(img_info ! 0, img_info ! 1)"
  let ?min = "(fmul (i2f (min_size P)) (img_info ! 2), fmul (i2f (min_size P)) (img_info ! (if prod_list d2 > 3 then 3 else 2)))"
  let ?body = "proposal_image expf psort P bottom d_anchor (int nH) (int nW) ?img ?min pre"
  let ?inv = "batch_inv expf psort P bottom d_anchor (int nH) (int nW) ?img ?min pre rois"
  let ?init = "(replicate (nat ?num) zero_box, replicate (nat (4 * pre)) 0, replicate (nat pre) 0, roi_indices P, rois)"
  have num: "0 \<le> ?num" "?num * 4 \<le> 2 ^ 31" "0 \<le> pre" using ok by (simp_all add: layer_ok_def maps_ok_def)
  have "\<exists>s. for_loop 0 (int nn) ?body ?init = Some s \<and> ?inv (int nn) s"
  proof (rule for_loop_inv [where P = ?inv])
    show "?inv 0 ?init" using num bufs(1) by (simp add: batch_inv_def)
  qed (use dims batch_step [where psort = psort and pre = pre, OF ok sort bufs(2,3)] in simp_all)
  then obtain s where "for_loop 0 (int nn) ?body ?init = Some s" "?inv (int nn) s" by blast
  moreover obtain props un dead idx out where s: "s = (props, un, dead, idx, out)" by (cases s)
  ultimately have run: "for_loop 0 (int nn) ?body ?init = Some (props, un, dead, idx, out)"
    and Q: "?inv (int nn) (props, un, dead, idx, out)" by simp_all
  have "?num * 4 \<le> 2147483648" using num(2) by simp
  then have "?num < 2147483648" using num(1) by linarith
  then have "int_ok ?num" using num(1) by (simp add: int_ok_def)
  then have "proposal_execute expf psort P in_dims num_out bottom d_anchor img_info rois = Some (OK, P\<lparr>roi_indices := idx\<rparr>, out)"
    using dims run num(3) prop_scale [OF info] by (simp add: proposal_execute_def pre [symmetric] Let_def)
  moreover have "0 < int nn" using dims(2) by simp
  ultimately show ?thesis using Q unfolding batch_inv_def prod.case fst_conv snd_conv by blast
qed


text \<open>A full sort meets the contract of the partial one.\<close>

lemma sort_partial: "partial_sorted n xs (sort_key (\<lambda>b. - bscore b) xs)"
proof -
  let ?ys = "sort_key (\<lambda>b. - bscore b) xs"
  have "sorted (map (\<lambda>b. - bscore b) ?ys)" by simp
  then have s: "sorted_wrt (\<lambda>a b. bscore b \<le> bscore a) ?ys" by (simp add: sorted_map)
  then have "sorted_wrt (\<lambda>a b. bscore b \<le> bscore a) (take n ?ys @ drop n ?ys)" by simp
  then show ?thesis unfolding partial_sorted_def sorted_wrt_append by simp
qed

definition demo_proposal :: proposal where
  "demo_proposal = \<lparr>feat_stride = 16, base_size = 4, min_size = 0, pre_nms_topn = 2, post_nms_topn = 2, nms_thresh = 1 / 2,
     p_scales = [1], p_ratios = [1], anchors_shape_0 = 1, p_anchors = [0, 0, 3, 3], roi_indices = [0, 0]\<rparr>"

theorem proposal_rows_witness:
  "\<exists>boxes idx out. proposal_execute (\<lambda>x. 1) (\<lambda>n. sort_key (\<lambda>b. - bscore b)) demo_proposal [[1, 2, 1, 2], [1, 4, 1, 2], [1, 3]] 1
       [0, 0, 1 / 2, 3 / 4] (replicate 8 0) [32, 32, 1] (replicate 10 7) = Some (OK, demo_proposal\<lparr>roi_indices := idx\<rparr>, out) \<and>
     length boxes = 2 \<and>
     rows_written 0 (kept_corners (1 / 2) 2 (take 2 (sort_key (\<lambda>b. - bscore b) boxes))) 2 (replicate 10 7) out"
proof -
  have ok: "layer_ok demo_proposal [0, 0, 1 / 2, 3 / 4] (replicate 8 0) (int 1) (int 2) 2"
    by (simp add: layer_ok_def maps_ok_def demo_proposal_def int_ok_def)
  have "\<exists>boxes idx out. proposal_execute (\<lambda>x. 1) (\<lambda>n. sort_key (\<lambda>b. - bscore b)) demo_proposal [[1, 2, 1, 2], [1, 4, 1, 2], [1, 3]] 1
       [0, 0, 1 / 2, 3 / 4] (replicate 8 0) [32, 32, 1] (replicate 10 7) = Some (OK, demo_proposal\<lparr>roi_indices := idx\<rparr>, out) \<and>
     boxes_of (\<lambda>x. 1) demo_proposal [0, 0, 1 / 2, 3 / 4] (replicate 8 0) (int 1) (int 2) ([32, 32, 1] ! 0, [32, 32, 1] ! 1)
      (fmul (i2f (min_size demo_proposal)) ([32, 32, 1] ! 2),
       fmul (i2f (min_size demo_proposal)) ([32, 32, 1] ! (if prod_list [1, 3 :: nat] > 3 then 3 else 2))) boxes \<and>
     (\<forall>b \<in> set boxes. inside ([32, 32, 1] ! 0) ([32, 32, 1] ! 1) b) \<and>
     rows_written (int 1 - 1) (kept_corners (nms_thresh demo_proposal) (nat (post_nms_topn demo_proposal))
       (take (nat 2) (sort_key (\<lambda>b. - bscore b) boxes))) (nat (post_nms_topn demo_proposal)) (replicate 10 7) out"
    by (rule proposal_rows [OF refl _ _ _ _ _ _ ok]) (simp_all add: demo_proposal_def sort_partial)
  then obtain boxes idx out where r: "proposal_execute (\<lambda>x. 1) (\<lambda>n. sort_key (\<lambda>b. - bscore b)) demo_proposal [[1, 2, 1, 2], [1, 4, 1, 2], [1, 3]] 1
       [0, 0, 1 / 2, 3 / 4] (replicate 8 0) [32, 32, 1] (replicate 10 7) = Some (OK, demo_proposal\<lparr>roi_indices := idx\<rparr>, out)"
    and b: "boxes_of (\<lambda>x. 1) demo_proposal [0, 0, 1 / 2, 3 / 4] (replicate 8 0) (int 1) (int 2) ([32, 32, 1] ! 0, [32, 32, 1] ! 1)
      (fmul (i2f (min_size demo_proposal)) ([32, 32, 1] ! 2),
       fmul (i2f (min_size demo_proposal)) ([32, 32, 1] ! (if prod_list [1, 3 :: nat] > 3 then 3 else 2))) boxes"
    and w: "rows_written (int 1 - 1) (kept_corners (nms_thresh demo_proposal) (nat (post_nms_topn demo_proposal))
       (take (nat 2) (sort_key (\<lambda>b. - bscore b) boxes))) (nat (post_nms_topn demo_proposal)) (replicate 10 7) out" by blast
  have "length boxes = 2" using b by (simp add: boxes_of_def demo_proposal_def)
  moreover have "nms_thresh demo_proposal = 1 / 2" "nat (post_nms_topn demo_proposal) = 2" "int 1 - 1 = 0" "nat 2 = 2"
    by (simp_all add: demo_proposal_def)
  ultimately have "rows_written 0 (kept_corners (1 / 2) 2 (take 2 (sort_key (\<lambda>b. - bscore b) boxes))) 2 (replicate 10 7) out"
    using w by (simp only:)
  then show ?thesis using r \<open>length boxes = 2\<close> by blast
qed

end
