(* ===== verification/PriorBox.thy ===== *)
theory PriorBox
  imports LayerBase
begin

text \<open>
  \<^verbatim>\<open>extension/ext_priorbox.cpp\<close> and \<^verbatim>\<open>ext_priorbox_clustered.cpp\<close>: the layers that list the prior boxes of an
  SSD network. For every cell of the feature map they write the corners of one box per size and
  aspect ratio, relative to the image, and behind all boxes the variances of their coordinates.

  The name \<^verbatim>\<open>sqrt\<close> of the first layer is resolved by the headers of the engine to the function on
  \<^verbatim>\<open>double\<close> or to the one on \<^verbatim>\<open>float\<close>; the model has its precision \<open>p\<close> and the function as arguments. The accessors
  with a default value are the arguments \<open>getf\<close> and \<open>geti\<close>. The images are not empty, so the divisions by their sizes are defined.
\<close>

section \<open>The prior box layer\<close>

record prior_box =
  pb_offset :: f32
  pb_step :: f32
  pb_min_sizes :: "f32 list"
  pb_max_sizes :: "f32 list"
  pb_flip :: bool
  pb_clip :: bool
  pb_aspect_ratios :: "f32 list"
  pb_variance :: "f32 list"
  pb_num_priors :: int

definition near :: "f32 \<Rightarrow> f32 \<Rightarrow> bool" where
  "near a b \<longleftrightarrow> \<bar>fsub a b\<bar> < rnd 53 (1 / 1000000)"

fun add_ratios :: "bool \<Rightarrow> f32 list \<Rightarrow> f32 list \<Rightarrow> f32 list" where
  "add_ratios flip known [] = known"
| "add_ratios flip known (a # as) =
     (if \<exists>r \<in> set known. near a r then add_ratios flip known as
      else add_ratios flip (if flip then known @ [a] @ [fdiv 1 a] else known @ [a]) as)"

definition prior_variance :: "f32 list \<Rightarrow> string + f32 list" where
  "prior_variance vs =
     (if length vs = 1 \<or> length vs = 4 then
        if \<exists>v \<in> set vs. v < 0 then Inl ''Variance must be > 0.'' else Inr vs
      else if vs = [] then Inr [rnd 24 (1 / 10)]
      else Inl ''Wrong number of variance values. Not less than 1 and more than 4 variance values.'')"

definition prior_box_new :: "(string \<Rightarrow> f32 \<Rightarrow> string + f32) \<Rightarrow> cnn_layer \<Rightarrow> ext_layer \<times> prior_box option" where
  "prior_box_new getf l = construct
     (if length (ins_data l) \<noteq> 2 \<or> out_data l = [] then Inl ''Incorrect number of input/output edges!''
      else try_with (float_param l ''offset'') (\<lambda>offset. try_with (getf ''step'' 0) (\<lambda>step.
        let min_sizes = floats_param l ''min_size''; max_sizes = floats_param l ''max_size'' in
        try_with (int_param l ''flip'') (\<lambda>flip. try_with (int_param l ''clip'') (\<lambda>clip.
        let ratios = add_ratios (flip \<noteq> 0) [1] (floats_param l ''aspect_ratio'') in
        try_with (prior_variance (floats_param l ''variance'')) (\<lambda>variance.
        try_with (addConfig l [conf_at ANY True (- 1), conf_at ANY True (- 1)] [conf_at PLN True (- 1)] False) (\<lambda>c.
          Inr (\<lparr>pb_offset = offset, pb_step = step, pb_min_sizes = min_sizes, pb_max_sizes = max_sizes, pb_flip = flip \<noteq> 0,
            pb_clip = clip \<noteq> 0, pb_aspect_ratios = ratios, pb_variance = variance,
            pb_num_priors = int (length ratios * length min_sizes) + int (length max_sizes)\<rparr>, c))))))))"

text \<open>\<^verbatim>\<open>dst_data[idx++] = v\<close>: the state is the buffer and the cursor.\<close>

definition put :: "f32 \<Rightarrow> f32 list \<times> int \<Rightarrow> (f32 list \<times> int) option" where
  "put v = (\<lambda>(d, idx). do { d1 \<leftarrow> st d idx v; Some (d1, idx + 1) })"

definition put_box :: "f32 \<times> f32 \<Rightarrow> f32 \<times> f32 \<Rightarrow> int \<Rightarrow> int \<Rightarrow> f32 list \<times> int \<Rightarrow> (f32 list \<times> int) option" where
  "put_box center extent IW IH s = (case (center, extent) of ((center_x, center_y), (box_width, box_height)) \<Rightarrow> do {
     s1 \<leftarrow> put (fdiv (fsub center_x (fdiv box_width 2)) (i2f IW)) s;
     s2 \<leftarrow> put (fdiv (fsub center_y (fdiv box_height 2)) (i2f IH)) s1;
     s3 \<leftarrow> put (fdiv (fadd center_x (fdiv box_width 2)) (i2f IW)) s2;
     put (fdiv (fadd center_y (fdiv box_height 2)) (i2f IH)) s3 })"

definition prior_center :: "prior_box \<Rightarrow> f32 \<times> f32 \<Rightarrow> int \<Rightarrow> int \<Rightarrow> f32 \<times> f32" where
  "prior_center P step h w =
     (if pb_step P = 0 then (fmul (fadd (i2f w) (1 / 2)) (fst step), fmul (fadd (i2f h) (1 / 2)) (snd step))
      else (fmul (fadd (pb_offset P) (i2f w)) (pb_step P), fmul (fadd (pb_offset P) (i2f h)) (pb_step P)))"

text \<open>The boxes of one minimum size at one cell.\<close>

definition prior_boxes_of_size ::
  "nat \<Rightarrow> (rat \<Rightarrow> rat) \<Rightarrow> prior_box \<Rightarrow> f32 \<times> f32 \<Rightarrow> int \<Rightarrow> int \<Rightarrow> int \<Rightarrow> f32 list \<times> int \<Rightarrow> (f32 list \<times> int) option" where
  "prior_boxes_of_size p sq P center IW IH msIdx s = do {
     m \<leftarrow> ld (pb_min_sizes P) msIdx;
     s1 \<leftarrow> put_box center (m, m) IW IH s;
     s2 \<leftarrow> (if msIdx < int (length (pb_max_sizes P)) then do {
               x \<leftarrow> ld (pb_max_sizes P) msIdx;
               let side = rnd 24 (sq (fmul m x));
               put_box center (side, side) IW IH s1 }
             else Some s1);
     foldm (\<lambda>ar s. if near ar 1 then Some s
        else put_box center (rnd 24 (rnd p (m * sq ar)), rnd 24 (rnd p (m / sq ar))) IW IH s) (pb_aspect_ratios P) s2 }"

definition prior_fill ::
  "nat \<Rightarrow> (rat \<Rightarrow> rat) \<Rightarrow> prior_box \<Rightarrow> f32 \<times> f32 \<Rightarrow> int \<Rightarrow> int \<Rightarrow> int \<Rightarrow> int \<Rightarrow> f32 list \<times> int \<Rightarrow> (f32 list \<times> int) option" where
  "prior_fill p sq P step H W IH IW =
     for_loop 0 H (\<lambda>h. for_loop 0 W (\<lambda>w. for_loop 0 (int (length (pb_min_sizes P)))
       (prior_boxes_of_size p sq P (prior_center P step h w) IW IH)))"

definition prior_clip :: "int \<Rightarrow> f32 list \<Rightarrow> f32 list option" where
  "prior_clip dm = for_loop 0 dm (\<lambda>d dst. do { v \<leftarrow> ld dst d; st dst d (min (max v 0) 1) })"

text \<open>The variances go behind the boxes: the pointer is moved by \<open>channel_size\<close>.\<close>

definition prior_variances :: "prior_box \<Rightarrow> int \<Rightarrow> int \<Rightarrow> int \<Rightarrow> f32 list \<Rightarrow> f32 list option" where
  "prior_variances P H W channel_size dst =
     (if length (pb_variance P) = 1 then
        for_loop 0 channel_size (\<lambda>i d. do { v \<leftarrow> ld (pb_variance P) 0; st d (channel_size + i) v }) dst
      else do {
        (d, _) \<leftarrow> for_loop 0 H (\<lambda>h. for_loop 0 W (\<lambda>w. for_loop 0 (pb_num_priors P) (\<lambda>i. for_loop 0 4 (\<lambda>j s. do {
            v \<leftarrow> ld (pb_variance P) j; put v s })))) (dst, channel_size);
        Some d })"

definition prior_box_execute ::
  "nat \<Rightarrow> (rat \<Rightarrow> rat) \<Rightarrow> prior_box \<Rightarrow> nat list list \<Rightarrow> nat list list \<Rightarrow> f32 list \<Rightarrow> (status_code \<times> f32 list) option" where
  "prior_box_execute p sq P in_dims out_dims dst =
     (if length in_dims \<noteq> 2 \<or> out_dims = [] then Some (GENERAL_ERROR, dst)
      else if length (in_dims ! 0) < 4 \<or> length (in_dims ! 1) < 4 \<or> length (out_dims ! 0) < 3 then None
      else
        let W = int (in_dims ! 0 ! 3); H = int (in_dims ! 0 ! 2);
            IW = int (in_dims ! 1 ! 3); IH = int (in_dims ! 1 ! 2);
            OH = int (out_dims ! 0 ! 2); OW = (if length (out_dims ! 0) = 3 then 1 else int (out_dims ! 0 ! 3));
            step = (if pb_step P = 0 then (fdiv (i2f IW) (i2f W), fdiv (i2f IH) (i2f H)) else (pb_step P, pb_step P));
            dm = H * W * pb_num_priors P * 4; channel_size = OH * OW
        in do {
          (d1, idx) \<leftarrow> prior_fill p sq P step H W IH IW (dst, 0);
          d2 \<leftarrow> (if pb_clip P then prior_clip dm d1 else Some d1);
          d3 \<leftarrow> prior_variances P H W channel_size d2;
          Some (OK, d3) })"

section \<open>The clustered layer\<close>

record prior_clustered =
  pc_widths :: "f32 list"
  pc_heights :: "f32 list"
  pc_variance :: "f32 list"
  pc_clip :: int
  pc_img_h :: int
  pc_img_w :: int
  pc_step :: f32
  pc_step_h :: f32
  pc_step_w :: f32
  pc_offset :: f32

definition prior_clustered_new ::
  "(string \<Rightarrow> f32 \<Rightarrow> string + f32) \<Rightarrow> (string \<Rightarrow> int \<Rightarrow> string + int) \<Rightarrow> cnn_layer \<Rightarrow> ext_layer \<times> prior_clustered option" where
  "prior_clustered_new getf geti l = construct
     (if length (ins_data l) \<noteq> 2 \<or> out_data l = [] then Inl ''Incorrect number of input/output edges!''
      else try_with (int_param l ''clip'') (\<lambda>clip. try_with (geti ''img_h'' 0) (\<lambda>img_h. try_with (geti ''img_w'' 0) (\<lambda>img_w.
        try_with (getf ''step'' 0) (\<lambda>step. try_with (getf ''step_h'' 0) (\<lambda>step_h. try_with (getf ''step_w'' 0) (\<lambda>step_w.
        try_with (float_param l ''offset'') (\<lambda>offset.
        try_with (addConfig l [conf_at PLN True (- 1), conf_at PLN True (- 1)] [conf_at PLN True (- 1)] False) (\<lambda>c.
          Inr (\<lparr>pc_widths = floats_param l ''width'', pc_heights = floats_param l ''height'', pc_variance = floats_param l ''variance'',
            pc_clip = clip, pc_img_h = img_h, pc_img_w = img_w, pc_step = step, pc_step_h = step_h, pc_step_w = step_w,
            pc_offset = offset\<rparr>, c))))))))))"

definition unit_clip :: "f32 \<Rightarrow> f32" where
  "unit_clip x = min (max x 0) 1"

definition clustered_box :: "int \<Rightarrow> f32 \<times> f32 \<Rightarrow> f32 \<times> f32 \<Rightarrow> int \<Rightarrow> int \<Rightarrow> f32 \<times> f32 \<times> f32 \<times> f32" where
  "clustered_box clips center extent img_width img_height = (case (center, extent) of ((center_x, center_y), (box_width, box_height)) \<Rightarrow>
     let xmin = d2f (ddiv (dsub center_x (ddiv box_width 2)) (of_int img_width));
         ymin = d2f (ddiv (dsub center_y (ddiv box_height 2)) (of_int img_height));
         xmax = d2f (ddiv (dadd center_x (ddiv box_width 2)) (of_int img_width));
         ymax = d2f (ddiv (dadd center_y (ddiv box_height 2)) (of_int img_height))
     in if clips \<noteq> 0 then (unit_clip xmin, unit_clip ymin, unit_clip xmax, unit_clip ymax) else (xmin, ymin, xmax, ymax))"

text \<open>One prior of one cell; \<open>t1\<close> is the offset of \<open>top_data_1\<close>.\<close>

definition clustered_put ::
  "prior_clustered \<Rightarrow> int \<Rightarrow> int \<Rightarrow> int \<Rightarrow> f32 \<times> f32 \<Rightarrow> int \<Rightarrow> int \<Rightarrow> int \<Rightarrow> int \<Rightarrow> f32 list \<Rightarrow> f32 list option" where
  "clustered_put P W img_width img_height center t1 h w s dst = do {
     box_width \<leftarrow> ld (pc_widths P) s;
     box_height \<leftarrow> ld (pc_heights P) s;
     let n = int (length (pc_widths P));
     let var_size = int (length (pc_variance P));
     let (xmin, ymin, xmax, ymax) = clustered_box (pc_clip P) center (box_width, box_height) img_width img_height;
     d1 \<leftarrow> st_run dst (h * W * n * 4 + w * n * 4 + s * 4) [xmin, ymin, xmax, ymax];
     for_loop 0 var_size (\<lambda>j d. do {
       v \<leftarrow> ld (pc_variance P) j;
       st d (t1 + (h * W * n * var_size + w * n * var_size + s * var_size + j)) v }) d1 }"

definition clustered_fill ::
  "prior_clustered \<Rightarrow> int \<Rightarrow> int \<Rightarrow> int \<Rightarrow> int \<Rightarrow> f32 \<Rightarrow> f32 \<Rightarrow> int \<Rightarrow> f32 list \<Rightarrow> f32 list option" where
  "clustered_fill P H W img_width img_height step_w step_h t1 =
     for_loop 0 H (\<lambda>h. for_loop 0 W (\<lambda>w. for_loop 0 (int (length (pc_widths P)))
       (clustered_put P W img_width img_height
         (fmul (fadd (i2f w) (pc_offset P)) step_w, fmul (fadd (i2f h) (pc_offset P)) step_h) t1 h w)))"

text \<open>A missing list of variances is filled in once, in the member.\<close>

definition prior_clustered_execute ::
  "prior_clustered \<Rightarrow> nat list list \<Rightarrow> nat list list \<Rightarrow> f32 list \<Rightarrow> (status_code \<times> prior_clustered \<times> f32 list) option" where
  "prior_clustered_execute P0 in_dims out_dims dst =
     (let P = (if pc_variance P0 = [] then P0\<lparr>pc_variance := [d2f (rnd 53 (1 / 10))]\<rparr> else P0) in
      if in_dims = [] \<or> length (in_dims ! 0) < 4 \<or> out_dims = [] \<or> length (out_dims ! 0) < 3 then None
      else if (pc_img_w P = 0 \<or> pc_img_h P = 0) \<and> (length in_dims < 2 \<or> length (in_dims ! 1) < 4) then None
      else
        let layer_width = int (in_dims ! 0 ! 3); layer_height = int (in_dims ! 0 ! 2);
            img_width = (if pc_img_w P = 0 then int (in_dims ! 1 ! 3) else pc_img_w P);
            img_height = (if pc_img_h P = 0 then int (in_dims ! 1 ! 2) else pc_img_h P);
            step_w = (if pc_step_w P = 0 then pc_step P else pc_step_w P);
            step_h = (if pc_step_h P = 0 then pc_step P else pc_step_h P)
        in do {
          d \<leftarrow> clustered_fill P layer_height layer_width img_width img_height step_w step_h (int (out_dims ! 0 ! 2)) dst;
          Some (OK, P, d) })"

end
