(* ===== verification/PriorBoxFacts.thy ===== *)
theory PriorBoxFacts
  imports PriorBox
begin

text \<open>
  What the prior box layers write. \<open>emits f vs\<close> says that a piece of code with a cursor appends the values \<open>vs\<close>;
  it composes along sequences and loops, so the whole loop nest emits the concatenation of its boxes.
\<close>

section \<open>Code that appends\<close>

definition emits :: "(f32 list \<times> int \<Rightarrow> (f32 list \<times> int) option) \<Rightarrow> f32 list \<Rightarrow> bool" where
  "emits f vs \<longleftrightarrow> (\<forall>xs ys. length vs \<le> length ys \<and> length xs + length ys \<le> 2 ^ 31 \<longrightarrow>
     f (xs @ ys, int (length xs)) = Some (xs @ vs @ drop (length vs) ys, int (length xs + length vs)))"

lemma emitsD:
  assumes "emits f vs" "length vs \<le> length ys" "length xs + length ys \<le> 2 ^ 31"
  shows "f (xs @ ys, int (length xs)) = Some (xs @ vs @ drop (length vs) ys, int (length xs + length vs))"
  using assms by (simp add: emits_def)

lemma emits_id: "emits Some []"
  by (simp add: emits_def)

lemma emits_put: "emits (put v) [v]"
  unfolding emits_def
proof (intro allI impI)
  fix xs ys :: "f32 list"
  assume a: "length [v] \<le> length ys \<and> length xs + length ys \<le> 2 ^ 31"
  then obtain y ys' where ys: "ys = y # ys'" by (cases ys) auto
  have "int_ok (int (length xs))" using a ys by (simp add: int_ok_def)
  then show "put v (xs @ ys, int (length xs)) = Some (xs @ [v] @ drop (length [v]) ys, int (length xs + length [v]))"
    by (simp add: put_def st_def ys)
qed

lemma emits_seq:
  assumes f: "emits f vs" and g: "emits g ws"
  shows "emits (\<lambda>s. Option.bind (f s) g) (vs @ ws)"
  unfolding emits_def
proof (intro allI impI)
  fix xs ys :: "f32 list"
  assume a: "length (vs @ ws) \<le> length ys \<and> length xs + length ys \<le> 2 ^ 31"
  have 1: "f (xs @ ys, int (length xs)) = Some ((xs @ vs) @ drop (length vs) ys, int (length (xs @ vs)))"
    using emitsD [OF f, of ys xs] a by simp
  have "g ((xs @ vs) @ drop (length vs) ys, int (length (xs @ vs))) =
      Some ((xs @ vs) @ ws @ drop (length ws) (drop (length vs) ys), int (length (xs @ vs) + length ws))"
    by (rule emitsD [OF g]) (use a in auto)
  with 1 show "Option.bind (f (xs @ ys, int (length xs))) g =
      Some (xs @ (vs @ ws) @ drop (length (vs @ ws)) ys, int (length xs + length (vs @ ws)))"
    by (simp add: ac_simps)
qed

lemma emits_foldm:
  "(\<And>x. x \<in> set l \<Longrightarrow> emits (f x) (g x)) \<Longrightarrow> emits (foldm f l) (concat (map g l))"
proof (induction l)
  case Nil
  have "foldm f [] = Some" by (rule ext) simp
  then show ?case using emits_id by simp
next
  case (Cons x l)
  have "foldm f (x # l) = (\<lambda>s. Option.bind (f x s) (foldm f l))"
    by (rule ext) (simp split: option.splits)
  then show ?case using emits_seq [of "f x" "g x" "foldm f l" "concat (map g l)"] Cons by simp
qed

lemma emits_for:
  assumes "\<And>i. a \<le> i \<Longrightarrow> i < b \<Longrightarrow> emits (f i) (g i)"
  shows "emits (for_loop a b f) (concat (map g [a..b - 1]))"
proof -
  have "for_loop a b f = foldm f [a..b - 1]" by (rule ext) (simp add: for_loop_def)
  then show ?thesis using emits_foldm [of "[a..b - 1]" f g] assms by simp
qed

section \<open>The boxes of the prior box layer\<close>

definition box4 :: "f32 \<times> f32 \<Rightarrow> int \<Rightarrow> int \<Rightarrow> f32 \<times> f32 \<Rightarrow> f32 list" where
  "box4 c IW IH sz = [fdiv (fsub (fst c) (fdiv (fst sz) 2)) (i2f IW), fdiv (fsub (snd c) (fdiv (snd sz) 2)) (i2f IH),
     fdiv (fadd (fst c) (fdiv (fst sz) 2)) (i2f IW), fdiv (fadd (snd c) (fdiv (snd sz) 2)) (i2f IH)]"

text \<open>The widths and heights of the boxes of one minimum size and of a cell, in the order of the code.\<close>

definition sizes_of :: "nat \<Rightarrow> (rat \<Rightarrow> rat) \<Rightarrow> prior_box \<Rightarrow> nat \<Rightarrow> (f32 \<times> f32) list" where
  "sizes_of p sq P i =
     (let m = pb_min_sizes P ! i; side = rnd 24 (sq (fmul m (pb_max_sizes P ! i))) in
      [(m, m)] @ (if i < length (pb_max_sizes P) then [(side, side)] else []) @
      map (\<lambda>ar. (rnd 24 (rnd p (m * sq ar)), rnd 24 (rnd p (m / sq ar)))) (filter (\<lambda>ar. \<not> near ar 1) (pb_aspect_ratios P)))"

definition cell_sizes :: "nat \<Rightarrow> (rat \<Rightarrow> rat) \<Rightarrow> prior_box \<Rightarrow> (f32 \<times> f32) list" where
  "cell_sizes p sq P = concat (map (sizes_of p sq P) [0..<length (pb_min_sizes P)])"

definition prior_corners ::
  "nat \<Rightarrow> (rat \<Rightarrow> rat) \<Rightarrow> prior_box \<Rightarrow> f32 \<times> f32 \<Rightarrow> int \<Rightarrow> int \<Rightarrow> int \<Rightarrow> int \<Rightarrow> f32 list" where
  "prior_corners p sq P step H W IH IW =
     concat (map (\<lambda>h. concat (map (\<lambda>w.
       concat (map (box4 (prior_center P step h w) IW IH) (cell_sizes p sq P))) [0..W - 1])) [0..H - 1])"

lemma emits_box: "emits (put_box c sz IW IH) (box4 c IW IH sz)"
proof -
  have "emits (\<lambda>s. Option.bind (put a s) (\<lambda>s. Option.bind (put b s) (\<lambda>s. Option.bind (put d s) (put e)))) ([a] @ [b] @ [d] @ [e])"
    for a b d e by (intro emits_seq emits_put)
  then show ?thesis by (simp add: put_box_def [abs_def] box4_def case_prod_unfold)
qed

lemma emits_ratio:
  "emits (foldm (\<lambda>ar s. if near ar 1 then Some s else put_box c (f ar) IW IH s) rs)
     (concat (map (box4 c IW IH) (map f (filter (\<lambda>ar. \<not> near ar 1) rs))))"
proof -
  have "emits (\<lambda>s. if near ar 1 then Some s else put_box c (f ar) IW IH s) (if near ar 1 then [] else box4 c IW IH (f ar))" for ar
    using emits_id emits_box [of c "f ar" IW IH] by simp
  then have "emits (foldm (\<lambda>ar s. if near ar 1 then Some s else put_box c (f ar) IW IH s) rs)
      (concat (map (\<lambda>ar. if near ar 1 then [] else box4 c IW IH (f ar)) rs))" by (intro emits_foldm)
  moreover have "concat (map (\<lambda>ar. if near ar 1 then [] else box4 c IW IH (f ar)) rs) =
      concat (map (box4 c IW IH) (map f (filter (\<lambda>ar. \<not> near ar 1) rs)))" by (induction rs) auto
  ultimately show ?thesis by simp
qed

lemma emits_size:
  assumes "i < length (pb_min_sizes P)" "length (pb_min_sizes P) \<le> 2 ^ 31" "length (pb_max_sizes P) \<le> 2 ^ 31"
  shows "emits (prior_boxes_of_size p sq P c IW IH (int i)) (concat (map (box4 c IW IH) (sizes_of p sq P i)))"
proof -
  have m: "ld (pb_min_sizes P) (int i) = Some (pb_min_sizes P ! i)"
    using assms by (simp add: ld_in [where k = "int (length (pb_min_sizes P))"])
  have x: "ld (pb_max_sizes P) (int i) = Some (pb_max_sizes P ! i)" if "i < length (pb_max_sizes P)"
    using assms that by (simp add: ld_in [where k = "int (length (pb_max_sizes P))"])
  define m' where "m' = pb_min_sizes P ! i"
  define side where "side = rnd 24 (sq (fmul m' (pb_max_sizes P ! i)))"
  let ?f = "\<lambda>ar. (rnd 24 (rnd p (m' * sq ar)), rnd 24 (rnd p (m' / sq ar)))"
  let ?loop = "foldm (\<lambda>ar s. if near ar 1 then Some s else put_box c (?f ar) IW IH s) (pb_aspect_ratios P)"
  let ?mid = "if i < length (pb_max_sizes P) then put_box c (side, side) IW IH else Some"
  have "emits ?mid (concat (map (box4 c IW IH) (if i < length (pb_max_sizes P) then [(side, side)] else [])))"
    using emits_id emits_box [of c "(side, side)" IW IH] by simp
  then have "emits (\<lambda>s. Option.bind (put_box c (m', m') IW IH s) (\<lambda>s. Option.bind (?mid s) ?loop))
     (box4 c IW IH (m', m') @ concat (map (box4 c IW IH) (if i < length (pb_max_sizes P) then [(side, side)] else [])) @
      concat (map (box4 c IW IH) (map ?f (filter (\<lambda>ar. \<not> near ar 1) (pb_aspect_ratios P)))))"
    by (intro emits_seq emits_box emits_ratio)
  moreover have "prior_boxes_of_size p sq P c IW IH (int i) =
      (\<lambda>s. Option.bind (put_box c (m', m') IW IH s) (\<lambda>s. Option.bind (?mid s) ?loop))"
    unfolding m'_def side_def using x by (intro ext) (simp add: prior_boxes_of_size_def m Let_def)
  moreover have "box4 c IW IH (m', m') @ concat (map (box4 c IW IH) (if i < length (pb_max_sizes P) then [(side, side)] else [])) @
      concat (map (box4 c IW IH) (map ?f (filter (\<lambda>ar. \<not> near ar 1) (pb_aspect_ratios P)))) =
      concat (map (box4 c IW IH) (sizes_of p sq P i))"
    by (simp add: sizes_of_def Let_def m'_def side_def)
  ultimately show ?thesis by (simp only:)
qed

lemma emits_fill:
  assumes "length (pb_min_sizes P) \<le> 2 ^ 31" "length (pb_max_sizes P) \<le> 2 ^ 31"
  shows "emits (prior_fill p sq P step H W IH IW) (prior_corners p sq P step H W IH IW)"
proof -
  have cell: "emits (for_loop 0 (int (length (pb_min_sizes P))) (prior_boxes_of_size p sq P c IW IH))
      (concat (map (box4 c IW IH) (cell_sizes p sq P)))" for c
  proof -
    let ?n = "length (pb_min_sizes P)"
    have "emits (for_loop 0 (int ?n) (prior_boxes_of_size p sq P c IW IH))
      (concat (map (\<lambda>i. concat (map (box4 c IW IH) (sizes_of p sq P (nat i)))) [0..int ?n - 1]))"
    proof (rule emits_for)
      fix i :: int assume "0 \<le> i" "i < int ?n"
      then show "emits (prior_boxes_of_size p sq P c IW IH i) (concat (map (box4 c IW IH) (sizes_of p sq P (nat i))))"
        using emits_size [of "nat i" P p sq c IW IH] assms by simp
    qed
    moreover have "map (\<lambda>i. concat (map (box4 c IW IH) (sizes_of p sq P (nat i)))) [0..int ?n - 1] =
        map (\<lambda>i. concat (map (box4 c IW IH) (sizes_of p sq P i))) [0..<?n]"
      by (rule nth_equalityI) (simp_all add: nth_upto)
    moreover have "concat (map (\<lambda>i. concat (map (box4 c IW IH) (sizes_of p sq P i))) l) =
        concat (map (box4 c IW IH) (concat (map (sizes_of p sq P) l)))" for l
      by (induction l) auto
    ultimately show ?thesis by (simp add: cell_sizes_def)
  qed
  show ?thesis
    unfolding prior_fill_def prior_corners_def
    by (intro emits_for) (rule cell)
qed


section \<open>Counting the boxes\<close>

lemma add_ratios_prefix: "\<exists>rest. add_ratios flip known as = known @ rest"
  by (induction flip known as rule: add_ratios.induct) force+

lemma near_one: "near 1 1"
  by (simp add: near_def fsub_def rn_simps)

definition shape_ratios :: "prior_box \<Rightarrow> f32 list" where
  "shape_ratios P = filter (\<lambda>ar. \<not> near ar 1) (pb_aspect_ratios P)"

lemma prior_box_new_fields:
  assumes "prior_box_new getf l = (x, Some P)"
  shows "pb_num_priors P = int (length (pb_aspect_ratios P) * length (pb_min_sizes P)) + int (length (pb_max_sizes P))"
    and "\<exists>rest. pb_aspect_ratios P = 1 # rest"
    and "length (pb_variance P) = 1 \<or> length (pb_variance P) = 4"
proof -
  have v: "length vs = Suc 0 \<or> length vs = 4" if "prior_variance as = Inr vs" for as vs
    using that by (auto simp: prior_variance_def split: if_splits)
  have r: "\<exists>rest. add_ratios flip [1] as = 1 # rest" for flip as
    using add_ratios_prefix [of flip "[1]" as] by simp
  show "pb_num_priors P = int (length (pb_aspect_ratios P) * length (pb_min_sizes P)) + int (length (pb_max_sizes P))"
    "\<exists>rest. pb_aspect_ratios P = 1 # rest" "length (pb_variance P) = 1 \<or> length (pb_variance P) = 4"
    using assms r by (auto simp: prior_box_new_def construct_def Let_def try_with_Inr split: sum.splits if_splits dest!: v)
qed

lemma cell_sizes_length:
  "length (cell_sizes p sq P) =
     length (pb_min_sizes P) * (1 + length (shape_ratios P)) + min (length (pb_min_sizes P)) (length (pb_max_sizes P))"
proof -
  have "length (concat (map (sizes_of p sq P) [0..<n])) = n * (1 + length (shape_ratios P)) + min n (length (pb_max_sizes P))" for n
    by (induction n) (auto simp: sizes_of_def Let_def shape_ratios_def)
  then show ?thesis by (simp add: cell_sizes_def)
qed

lemma cell_sizes_le:
  assumes "prior_box_new getf l = (x, Some P)"
  shows "int (length (cell_sizes p sq P)) \<le> pb_num_priors P"
    and "length (pb_max_sizes P) \<le> length (pb_min_sizes P) \<Longrightarrow> (\<forall>ar \<in> set (tl (pb_aspect_ratios P)). \<not> near ar 1) \<Longrightarrow>
      int (length (cell_sizes p sq P)) = pb_num_priors P"
proof -
  from prior_box_new_fields(2) [OF assms] obtain rest where r: "pb_aspect_ratios P = 1 # rest" by blast
  have s: "shape_ratios P = filter (\<lambda>ar. \<not> near ar 1) rest" using r near_one by (simp add: shape_ratios_def)
  have "length (shape_ratios P) \<le> length rest" using s by simp
  then have "length (pb_min_sizes P) * (1 + length (shape_ratios P)) \<le> length (pb_aspect_ratios P) * length (pb_min_sizes P)"
    using r by (simp add: mult.commute)
  then have "length (cell_sizes p sq P) \<le> length (pb_aspect_ratios P) * length (pb_min_sizes P) + length (pb_max_sizes P)"
    unfolding cell_sizes_length by simp
  then show "int (length (cell_sizes p sq P)) \<le> pb_num_priors P"
    unfolding prior_box_new_fields(1) [OF assms] by (metis of_nat_add of_nat_le_iff)
  assume m: "length (pb_max_sizes P) \<le> length (pb_min_sizes P)" and n: "\<forall>ar \<in> set (tl (pb_aspect_ratios P)). \<not> near ar 1"
  have "shape_ratios P = rest" using n r s by (simp add: filter_id_conv)
  then show "int (length (cell_sizes p sq P)) = pb_num_priors P"
    unfolding prior_box_new_fields(1) [OF assms] cell_sizes_length using m r by (simp add: algebra_simps)
qed

lemma length_concat_blocks:
  "(\<And>x. x \<in> set l \<Longrightarrow> length (f x) = k) \<Longrightarrow> length (concat (map f l)) = k * length l"
  by (induction l) auto

lemma nth_concat_blocks:
  assumes "\<And>x. x \<in> set l \<Longrightarrow> length (f x) = k" "i < length l" "j < k"
  shows "concat (map f l) ! (i * k + j) = f (l ! i) ! j"
  using assms
proof (induction l arbitrary: i)
  case (Cons x l)
  show ?case
  proof (cases i)
    case 0
    with Cons.prems show ?thesis by (simp add: nth_append)
  next
    case (Suc i')
    with Cons.prems Cons.IH [of i'] show ?thesis by (simp add: nth_append add.assoc)
  qed
qed simp

lemma prior_corners_length:
  assumes "0 \<le> H" "0 \<le> W"
  shows "length (prior_corners p sq P step H W IH IW) = 4 * length (cell_sizes p sq P) * nat W * nat H"
proof -
  have c: "length (concat (map (box4 c IW IH) l)) = 4 * length l" for c l
    by (rule length_concat_blocks) (simp add: box4_def)
  have r: "length (concat (map (\<lambda>w. concat (map (box4 (prior_center P step h w) IW IH) (cell_sizes p sq P))) [0..W - 1])) =
      4 * length (cell_sizes p sq P) * nat W" for h
    by (subst length_concat_blocks [OF c]) simp
  show ?thesis unfolding prior_corners_def by (subst length_concat_blocks [OF r]) simp
qed

section \<open>Clipping and variances\<close>

lemma prior_clip_eq:
  assumes "n \<le> length d" "length d \<le> 2 ^ 31"
  shows "prior_clip (int n) d = Some (map unit_clip (take n d) @ drop n d)"
proof -
  let ?inv = "\<lambda>i e. e = map unit_clip (take (nat i) d) @ drop (nat i) d"
  have "\<exists>e. prior_clip (int n) d = Some e \<and> ?inv (int n) e" unfolding prior_clip_def
  proof (rule for_loop_inv)
    fix i e assume i: "0 \<le> i" "i < int n" and e: "?inv i e"
    obtain k where k: "i = int k" "k < n" using i by (metis nonneg_int_cases of_nat_less_iff)
    have l: "length e = length d" "int_ok i" using e i assms k by (auto simp: int_ok_def)
    have nth: "e ! k = d ! k" using e k assms by (simp add: nth_append)
    have up: "e[k := unit_clip (d ! k)] = map unit_clip (take (Suc k) d) @ drop (Suc k) d"
      using e k assms by (intro nth_equalityI) (auto simp: nth_append nth_list_update less_Suc_eq)
    have "do { v \<leftarrow> ld e i; st e i (min (max v 0) 1) } = Some (e[k := unit_clip (d ! k)])"
      using l k assms nth by (simp add: ld_def st_def unit_clip_def)
    then show "\<exists>s'. do { v \<leftarrow> ld e i; st e i (min (max v 0) 1) } = Some s' \<and> ?inv (i + 1) s'"
      using up k by (simp add: nat_add_distrib)
  qed simp_all
  then show ?thesis by simp
qed

text \<open>The variances of one prior: four numbers.\<close>

definition variance4 :: "prior_box \<Rightarrow> f32 list" where
  "variance4 P = (if length (pb_variance P) = 1 then replicate 4 (pb_variance P ! 0) else pb_variance P)"

lemma fill_run:
  assumes "a + n \<le> length d" "length d \<le> 2 ^ 31"
  shows "for_loop 0 (int n) (\<lambda>i e. st e (int a + i) v) d = Some (take a d @ replicate n v @ drop (a + n) d)"
proof -
  let ?inv = "\<lambda>i e. e = take a d @ replicate (nat i) v @ drop (a + nat i) d"
  have "\<exists>e. for_loop 0 (int n) (\<lambda>i e. st e (int a + i) v) d = Some e \<and> ?inv (int n) e"
  proof (rule for_loop_inv)
    fix i e assume i: "0 \<le> i" "i < int n" and e: "?inv i e"
    obtain k where k: "i = int k" "k < n" using i by (metis nonneg_int_cases of_nat_less_iff)
    have l: "length e = length d" "int_ok (int a + i)" "nat (int a + int k) = a + k" using e i assms k by (auto simp: int_ok_def)
    have "e[a + k := v] = take a d @ replicate (Suc k) v @ drop (a + Suc k) d"
      using e k assms by (intro nth_equalityI) (auto simp: nth_append nth_list_update nth_Cons' less_Suc_eq)
    then show "\<exists>s'. st e (int a + i) v = Some s' \<and> ?inv (i + 1) s'"
      using l k assms by (simp add: st_def nat_add_distrib)
  qed simp_all
  then show ?thesis by simp
qed

lemma concat_replicate_const: "concat (replicate n (replicate k v)) = replicate (n * k) v"
  by (induction n) (simp_all add: replicate_add)

lemma concat_replicate_concat: "concat (replicate n (concat (replicate m v))) = concat (replicate (n * m) v)"
  by (induction n) (simp_all add: replicate_add)

lemma prior_variances_eq:
  assumes v: "length (pb_variance P) = 1 \<or> length (pb_variance P) = 4" and np: "pb_num_priors P = int np"
    and d: "length d = 2 * N" "length d \<le> 2 ^ 31" and N: "N = H * W * np * 4"
  shows "prior_variances P (int H) (int W) (int N) d = Some (take N d @ concat (replicate (H * W * np) (variance4 P)))"
proof (cases "length (pb_variance P) = 1")
  case True
  have ld: "ld (pb_variance P) 0 = Some (pb_variance P ! 0)" using True by (simp add: ld_def int_ok_def)
  have "prior_variances P (int H) (int W) (int N) d = Some (take N d @ replicate N (pb_variance P ! 0))"
    using True fill_run [of N N d "pb_variance P ! 0"] d by (simp add: prior_variances_def ld)
  then show ?thesis using True by (simp add: variance4_def concat_replicate_const N)
next
  case False
  with v have l: "length (pb_variance P) = 4" by simp
  let ?v = "pb_variance P"
  have "emits (for_loop 0 4 (\<lambda>j s. do { v \<leftarrow> ld ?v j; put v s })) (concat (map (\<lambda>j. [?v ! nat j]) [0..4 - 1]))"
  proof (rule emits_for)
    fix j :: int assume "0 \<le> j" "j < 4"
    then have "ld ?v j = Some (?v ! nat j)" using l by (simp add: ld_in [where k = 4])
    then show "emits (\<lambda>s. do { v \<leftarrow> ld ?v j; put v s }) [?v ! nat j]" by (simp add: emits_put)
  qed
  moreover have "concat (map (\<lambda>j. [?v ! nat j]) [0..4 - 1]) = ?v"
    using l by (intro nth_equalityI) (auto simp: nth_upto concat_map_singleton)
  ultimately have e: "emits (for_loop 0 4 (\<lambda>j s. do { v \<leftarrow> ld ?v j; put v s })) ?v" by simp
  have "emits (for_loop 0 (int H) (\<lambda>h. for_loop 0 (int W) (\<lambda>w. for_loop 0 (int np) (\<lambda>i. for_loop 0 4 (\<lambda>j s. do {
      v \<leftarrow> ld ?v j; put v s }))))) (concat (map (\<lambda>_. concat (map (\<lambda>_. concat (map (\<lambda>_. ?v) [0..int np - 1])) [0..int W - 1])) [0..int H - 1]))"
    by (intro emits_for) (rule e)
  moreover have "concat (map (\<lambda>_. concat (map (\<lambda>_. concat (map (\<lambda>_. ?v) [0..int np - 1])) [0..int W - 1])) [0..int H - 1]) =
      concat (replicate (H * W * np) ?v)"
    by (simp add: map_replicate_const concat_replicate_concat mult.assoc)
  ultimately have E: "emits (for_loop 0 (int H) (\<lambda>h. for_loop 0 (int W) (\<lambda>w. for_loop 0 (int np) (\<lambda>i. for_loop 0 4 (\<lambda>j s. do {
      v \<leftarrow> ld ?v j; put v s }))))) (concat (replicate (H * W * np) ?v))" by simp
  have len: "length (concat (replicate (H * W * np) ?v)) = N" using l N by (simp add: length_concat sum_list_replicate)
  have "for_loop 0 (int H) (\<lambda>h. for_loop 0 (int W) (\<lambda>w. for_loop 0 (int np) (\<lambda>i. for_loop 0 4 (\<lambda>j s. do {
      v \<leftarrow> ld ?v j; put v s })))) (take N d @ drop N d, int (length (take N d))) =
      Some (take N d @ concat (replicate (H * W * np) ?v) @ drop N (drop N d), int (length (take N d) + N))"
    using emitsD [OF E, of "drop N d" "take N d"] d unfolding len by simp
  then show ?thesis using False d l by (simp add: prior_variances_def np variance4_def)
qed

section \<open>The output of the prior box layer\<close>

definition prior_steps :: "prior_box \<Rightarrow> nat list \<Rightarrow> nat list \<Rightarrow> f32 \<times> f32" where
  "prior_steps P d0 d1 = (if pb_step P = 0
     then (fdiv (i2f (int (d1 ! 3))) (i2f (int (d0 ! 3))), fdiv (i2f (int (d1 ! 2))) (i2f (int (d0 ! 2))))
     else (pb_step P, pb_step P))"

lemma prior_box_execute_eq:
  assumes new: "prior_box_new getf l = (x, Some P)"
    and dims: "length d0 = 4" "length d1 = 4" "pb_num_priors P = int np" "N = d0 ! 2 * d0 ! 3 * np * 4"
    and buf: "length dst = 2 * N" "2 * N \<le> 2 ^ 31"
    and sz: "length (pb_min_sizes P) \<le> 2 ^ 31" "length (pb_max_sizes P) \<le> 2 ^ 31"
    and C: "C = prior_corners p sq P (prior_steps P d0 d1) (int (d0 ! 2)) (int (d0 ! 3)) (int (d1 ! 2)) (int (d1 ! 3))"
  shows "length C \<le> N" and "prior_box_execute p sq P [d0, d1] [[1, 2, N]] dst = Some (OK,
    map (if pb_clip P then unit_clip else id) (C @ drop (length C) (take N dst)) @
    concat (replicate (d0 ! 2 * d0 ! 3 * np) (variance4 P)))"
proof -
  let ?H = "d0 ! 2" and ?W = "d0 ! 3" and ?step = "prior_steps P d0 d1"
  have "length (cell_sizes p sq P) \<le> np" using cell_sizes_le(1) [OF new] dims(3) by simp
  then have "4 * length (cell_sizes p sq P) * ?W * ?H \<le> 4 * np * ?W * ?H" by (intro mult_le_mono) simp_all
  then show CN: "length C \<le> N" by (simp add: C prior_corners_length dims(4) mult_ac)
  let ?d1 = "C @ drop (length C) dst"
  let ?f = "if pb_clip P then unit_clip else id"
  have fill: "prior_fill p sq P ?step (int ?H) (int ?W) (int (d1 ! 2)) (int (d1 ! 3)) (dst, 0) = Some (?d1, int (length C))"
    using emitsD [OF emits_fill [OF sz, of p sq ?step "int ?H" "int ?W" "int (d1 ! 2)" "int (d1 ! 3)"], of dst "[]"] CN buf C
    by simp
  have l: "length ?d1 = 2 * N" using CN buf by simp
  have N: "int ?H * int ?W * int np * 4 = int N" by (simp add: dims(4))
  let ?d2 = "map ?f (C @ drop (length C) (take N dst)) @ drop N dst"
  have t: "take N ?d1 = C @ drop (length C) (take N dst)" "drop N ?d1 = drop N dst" using CN by (simp_all add: drop_take)
  have clip: "(if pb_clip P then prior_clip (int ?H * int ?W * int np * 4) ?d1 else Some ?d1) = Some ?d2"
  proof (cases "pb_clip P")
    case True
    have "N \<le> length ?d1" "length ?d1 \<le> 2 ^ 31" unfolding l using buf by simp_all
    then have "prior_clip (int N) ?d1 = Some (map unit_clip (take N ?d1) @ drop N ?d1)" by (rule prior_clip_eq)
    then show ?thesis using True by (simp only: N t if_True)
  next
    case False
    have "(C @ drop (length C) (take N dst)) @ drop N dst = ?d1" using append_take_drop_id [of N ?d1] unfolding t .
    then show ?thesis using False by simp
  qed
  have l2: "length ?d2 = 2 * N" "take N ?d2 = map ?f (C @ drop (length C) (take N dst))" using CN buf by simp_all
  have var: "prior_variances P (int ?H) (int ?W) (int N) ?d2 =
      Some (take N ?d2 @ concat (replicate (?H * ?W * np) (variance4 P)))"
    by (rule prior_variances_eq [OF prior_box_new_fields(3) [OF new] dims(3) l2(1) _ dims(4)]) (unfold l2(1), rule buf(2))
  have e: "prior_box_execute p sq P [d0, d1] [[1, 2, N]] dst = do {
      (d1', idx) \<leftarrow> prior_fill p sq P ?step (int ?H) (int ?W) (int (d1 ! 2)) (int (d1 ! 3)) (dst, 0);
      d2 \<leftarrow> (if pb_clip P then prior_clip (int ?H * int ?W * int np * 4) d1' else Some d1');
      d3 \<leftarrow> prior_variances P (int ?H) (int ?W) (int N) d2;
      Some (OK, d3) }"
    using dims(1-3) by (simp add: prior_box_execute_def prior_steps_def Let_def)
  show "prior_box_execute p sq P [d0, d1] [[1, 2, N]] dst = Some (OK,
      map ?f (C @ drop (length C) (take N dst)) @ concat (replicate (?H * ?W * np) (variance4 P)))"
    unfolding e by (simp only: fill clip var l2(2) Option.bind.simps prod.case)
qed

text \<open>Corners in the right order, box by box.\<close>

fun ordered_boxes :: "f32 list \<Rightarrow> bool" where
  "ordered_boxes (a # b # c # d # r) \<longleftrightarrow> a \<le> c \<and> b \<le> d \<and> ordered_boxes r"
| "ordered_boxes _ \<longleftrightarrow> True"

lemma dvd_4: "4 dvd Suc (Suc (Suc (Suc n))) \<longleftrightarrow> 4 dvd n" "\<not> 4 dvd Suc (Suc 0)" "\<not> 4 dvd Suc (Suc (Suc 0))"
  by presburger+

lemma ordered_boxes_append: "4 dvd length xs \<Longrightarrow> ordered_boxes (xs @ ys) \<longleftrightarrow> ordered_boxes xs \<and> ordered_boxes ys"
  by (induction xs rule: ordered_boxes.induct) (auto simp: dvd_4)

lemma ordered_boxes_concat:
  "(\<And>x. x \<in> set l \<Longrightarrow> ordered_boxes (f x) \<and> 4 dvd length (f x)) \<Longrightarrow>
     ordered_boxes (concat (map f l)) \<and> 4 dvd length (concat (map f l))"
  by (induction l) (auto simp: ordered_boxes_append)

lemma ordered_boxes_clip: "ordered_boxes xs \<Longrightarrow> ordered_boxes (map unit_clip xs)"
  by (induction xs rule: ordered_boxes.induct) (auto simp: unit_clip_def)

lemma box4_ordered:
  assumes "0 \<le> fst sz" "0 \<le> snd sz" "0 < IW" "0 < IH"
  shows "ordered_boxes (box4 c IW IH sz)"
proof -
  have *: "fdiv (fsub a (fdiv s 2)) (i2f n) \<le> fdiv (fadd a (fdiv s 2)) (i2f n)" if "0 \<le> s" "0 < n" for a s :: rat and n
  proof -
    have "0 \<le> fdiv s 2" using that by (simp add: fdiv_def rnd_nonneg)
    then have "fsub a (fdiv s 2) \<le> fadd a (fdiv s 2)" unfolding fsub_def fadd_def by (intro rnd_mono) simp_all
    moreover have "0 < i2f n" using that by (simp add: i2f_def rnd_pos)
    ultimately show ?thesis unfolding fdiv_def by (intro rnd_mono) (simp_all add: divide_right_mono)
  qed
  show ?thesis using assms by (simp add: box4_def *)
qed

lemma cell_sizes_nonneg:
  assumes "0 < p" "\<forall>y. 0 \<le> sq y" "\<forall>m \<in> set (pb_min_sizes P). 0 \<le> m" "sz \<in> set (cell_sizes p sq P)"
  shows "0 \<le> fst sz" "0 \<le> snd sz"
  using assms by (auto simp: cell_sizes_def sizes_of_def Let_def rnd_nonneg intro!: rnd_nonneg mult_nonneg_nonneg divide_nonneg_nonneg
      split: if_splits)

lemma prior_corners_ordered:
  assumes "0 < p" "\<forall>y. 0 \<le> sq y" "\<forall>m \<in> set (pb_min_sizes P). 0 \<le> m" "0 < IW" "0 < IH"
  shows "ordered_boxes (prior_corners p sq P step H W IH IW)" "4 dvd length (prior_corners p sq P step H W IH IW)"
proof -
  have "ordered_boxes (prior_corners p sq P step H W IH IW) \<and> 4 dvd length (prior_corners p sq P step H W IH IW)"
    unfolding prior_corners_def
  proof (intro ordered_boxes_concat)
    fix h w sz assume "sz \<in> set (cell_sizes p sq P)"
    then show "ordered_boxes (box4 (prior_center P step h w) IW IH sz) \<and> 4 dvd length (box4 (prior_center P step h w) IW IH sz)"
      using box4_ordered cell_sizes_nonneg [OF assms(1-3)] assms(4,5)
      by (simp only:) (simp add: box4_def dvd_4)
  qed
  then show "ordered_boxes (prior_corners p sq P step H W IH IW)" "4 dvd length (prior_corners p sq P step H W IH IW)" by simp_all
qed

section \<open>The clustered layer\<close>

definition clustered_prior :: "prior_clustered \<Rightarrow> f32 \<Rightarrow> f32 \<Rightarrow> int \<Rightarrow> int \<Rightarrow> int \<Rightarrow> int \<Rightarrow> nat \<Rightarrow> f32 list" where
  "clustered_prior P step_w step_h img_width img_height h w s =
     (case clustered_box (pc_clip P)
        (fmul (fadd (i2f w) (pc_offset P)) step_w, fmul (fadd (i2f h) (pc_offset P)) step_h)
        (pc_widths P ! s, pc_heights P ! s) img_width img_height of (x0, y0, x1, y1) \<Rightarrow> [x0, y0, x1, y1])"

text \<open>What the loops store at an index: boxes below \<open>t1\<close>, variances from there on.\<close>

definition clustered_value :: "prior_clustered \<Rightarrow> (int \<Rightarrow> int \<Rightarrow> nat \<Rightarrow> f32 list) \<Rightarrow> int \<Rightarrow> int \<Rightarrow> int \<Rightarrow> f32" where
  "clustered_value P box W t1 i =
     (let n = int (length (pc_widths P)) in
      if i < t1 then box (i div 4 div n div W) (i div 4 div n mod W) (nat (i div 4 mod n)) ! nat (i mod 4)
      else pc_variance P ! nat ((i - t1) mod int (length (pc_variance P))))"

lemma clustered_put_wrote:
  assumes n: "n = int (length (pc_widths P))" "length (pc_heights P) = length (pc_widths P)"
    and vs: "vs = int (length (pc_variance P))"
    and r: "0 \<le> h" "h < H" "0 \<le> w" "w < W" "0 \<le> s" "s < n"
    and t1: "H * W * n * 4 \<le> t1" "t1 + H * W * n * vs \<le> int (length dst)"
    and l: "length dst = m" "m \<le> 2 ^ 31" "length (pc_widths P) \<le> 2 ^ 31" "length (pc_variance P) \<le> 2 ^ 31"
  shows "\<exists>d'. clustered_put P W iw ih (fmul (fadd (i2f w) (pc_offset P)) sw, fmul (fadd (i2f h) (pc_offset P)) sh) t1 h w s dst = Some d' \<and>
    wrote ({((h * W + w) * n + s) * 4..<((h * W + w) * n + s) * 4 + 4} \<union>
           {t1 + ((h * W + w) * n + s) * vs..<t1 + ((h * W + w) * n + s) * vs + vs})
      (clustered_value P (clustered_prior P sw sh iw ih) W t1) dst d'"
proof -
  define c where "c = (h * W + w) * n + s"
  let ?g = "clustered_value P (clustered_prior P sw sh iw ih) W t1"
  let ?b = "clustered_prior P sw sh iw ih h w (nat s)"
  have hw: "0 \<le> h * W + w" "h * W + w < H * W" using flat_bound [OF r(1-4)] by simp_all
  have c: "0 \<le> c" "c < H * W * n" using flat_bound [OF hw r(5,6)] by (simp_all add: c_def)
  have dec: "c div n = h * W + w" "c mod n = s" "c div n div W = h" "c div n mod W = w"
    using flat_div [OF r(5,6), of "h * W + w"] flat_div [OF r(3,4), of h] by (simp_all add: c_def)
  have cb: "c * 4 + 4 \<le> t1" using c(2) t1(1) by linarith
  have "(c + 1) * vs \<le> H * W * n * vs" using c(2) vs by (intro mult_right_mono) simp_all
  then have cv: "t1 + c * vs + vs \<le> int (length dst)" using t1(2) by (simp add: algebra_simps)
  have "0 \<le> c * vs" using c vs by simp
  then have le: "t1 \<le> int (length dst)" using cv vs by linarith
  have H: "0 \<le> H * W * n * 4" using c by simp
  have ld: "ld (pc_widths P) s = Some (pc_widths P ! nat s)" "ld (pc_heights P) s = Some (pc_heights P ! nat s)"
    using r n l by (simp_all add: ld_in [where k = n])
  have b4: "length ?b = 4" by (simp add: clustered_prior_def split: prod.splits)
  have "\<exists>d1. st_run dst (c * 4) ?b = Some d1 \<and> wrote {c * 4..<c * 4 + int (length ?b)} ?g dst d1"
  proof (rule wrote_st_run)
    fix k assume k: "k < length ?b"
    then have "c * 4 + int k < t1" "(c * 4 + int k) div 4 = c" "(c * 4 + int k) mod 4 = int k" using cb b4 by simp_all
    then show "?g (c * 4 + int k) = ?b ! k" by (simp add: clustered_value_def Let_def n(1) [symmetric] dec flat_div(1) [OF r(3,4)] mod_pos_pos_trivial [OF r(3,4)])
  qed (use c b4 cb le l in \<open>simp_all\<close>)
  then obtain d1 where d1: "st_run dst (c * 4) ?b = Some d1" and w1: "wrote {c * 4..<c * 4 + 4} ?g dst d1"
    unfolding b4 by auto
  have l1: "length d1 = m" using wrote_length [OF w1] l by simp
  have "\<exists>d'. for_loop 0 vs (\<lambda>j d. do { v \<leftarrow> ld (pc_variance P) j; st d (t1 + (c * vs + j)) v }) d1 = Some d' \<and>
      wrote (\<Union>j\<in>{0..<vs}. {t1 + (c * vs + j)}) ?g d1 d'"
  proof (rule wrote_for [OF _ l1])
    fix j d assume j: "0 \<le> j" "j < vs" and d: "length (d :: f32 list) = m"
    have "ld (pc_variance P) j = Some (pc_variance P ! nat j)" using j vs l by (simp add: ld_in [where k = vs])
    moreover have "t1 + (c * vs + j) < int m" "0 \<le> c * vs" "0 \<le> t1" using cv j c vs l H t1 by simp_all
    moreover have "?g (t1 + (c * vs + j)) = pc_variance P ! nat j"
      using j \<open>0 \<le> c * vs\<close> vs by (simp add: clustered_value_def Let_def)
    ultimately show "\<exists>d'. do { v \<leftarrow> ld (pc_variance P) j; st d (t1 + (c * vs + j)) v } = Some d' \<and>
        wrote {t1 + (c * vs + j)} ?g d d'"
      using wrote_st [of "t1 + (c * vs + j)" d ?g "pc_variance P ! nat j"] j d l int_okI [of "t1 + (c * vs + j)" "int m"] by simp
  qed
  then obtain d2 where d2: "for_loop 0 vs (\<lambda>j d. do { v \<leftarrow> ld (pc_variance P) j; st d (t1 + (c * vs + j)) v }) d1 = Some d2"
    and w2: "wrote (\<Union>j\<in>{0..<vs}. {t1 + (c * vs + j)}) ?g d1 d2" by blast
  have U: "(\<Union>j\<in>{0..<vs}. {t1 + (c * vs + j)}) = {t1 + c * vs..<t1 + c * vs + vs}"
  proof (intro equalityI subsetI)
    fix i assume "i \<in> {t1 + c * vs..<t1 + c * vs + vs}"
    then show "i \<in> (\<Union>j\<in>{0..<vs}. {t1 + (c * vs + j)})" by (intro UN_I [of "i - t1 - c * vs"]) auto
  qed auto
  have ix: "h * W * n * 4 + w * n * 4 + s * 4 = c * 4" "h * W * n * vs + w * n * vs + s * vs + j = c * vs + j" for j
    by (simp_all add: c_def algebra_simps)
  have "clustered_put P W iw ih (fmul (fadd (i2f w) (pc_offset P)) sw, fmul (fadd (i2f h) (pc_offset P)) sh) t1 h w s dst = Some d2"
    using d1 d2 unfolding clustered_prior_def
    by (simp add: clustered_put_def ld Let_def n(1) [symmetric] vs [symmetric] ix split: prod.splits del: st_run.simps)
  then show ?thesis using wrote_comp [OF w1 w2] unfolding U c_def [symmetric] by blast
qed

lemma clustered_fill_wrote:
  assumes n: "n = int (length (pc_widths P))" "length (pc_heights P) = length (pc_widths P)"
    and vs: "vs = int (length (pc_variance P))"
    and t1: "H * W * n * 4 \<le> t1" "t1 + H * W * n * vs \<le> int (length dst)"
    and l: "length dst \<le> 2 ^ 31" "length (pc_widths P) \<le> 2 ^ 31" "length (pc_variance P) \<le> 2 ^ 31"
  shows "\<exists>d'. clustered_fill P H W iw ih sw sh t1 dst = Some d' \<and>
    wrote (\<Union>h\<in>{0..<H}. \<Union>w\<in>{0..<W}. \<Union>s\<in>{0..<n}. {((h * W + w) * n + s) * 4..<((h * W + w) * n + s) * 4 + 4} \<union>
           {t1 + ((h * W + w) * n + s) * vs..<t1 + ((h * W + w) * n + s) * vs + vs})
      (clustered_value P (clustered_prior P sw sh iw ih) W t1) dst d'"
  unfolding clustered_fill_def n(1) [symmetric]
proof (intro wrote_for [where n = "length dst"] refl)
  fix h w s :: int and d :: "f32 list"
  assume "0 \<le> h" "h < H" "0 \<le> w" "w < W" "0 \<le> s" "s < n" "length d = length dst"
  then show "\<exists>d'. clustered_put P W iw ih (fmul (fadd (i2f w) (pc_offset P)) sw, fmul (fadd (i2f h) (pc_offset P)) sh) t1 h w s d = Some d' \<and>
    wrote ({((h * W + w) * n + s) * 4..<((h * W + w) * n + s) * 4 + 4} \<union>
           {t1 + ((h * W + w) * n + s) * vs..<t1 + ((h * W + w) * n + s) * vs + vs})
      (clustered_value P (clustered_prior P sw sh iw ih) W t1) d d'"
    using clustered_put_wrote [OF n vs, of h H w W s t1 d "length dst" iw ih sw sh] t1 l by simp
qed simp_all

text \<open>The cells of the loops cover the indices below \<open>H * W * n\<close>, \<open>k\<close> elements each.\<close>

lemma cells_cover:
  fixes H W n k :: int
  assumes "0 \<le> i" "i < H * W * n * k" "0 \<le> W" "0 \<le> n" "0 \<le> k"
  obtains h w s where "0 \<le> h" "h < H" "0 \<le> w" "w < W" "0 \<le> s" "s < n"
    "((h * W + w) * n + s) * k \<le> i" "i < ((h * W + w) * n + s) * k + k"
proof -
  from flat_cases [OF assms(1,2,5)] obtain c j where c: "i = c * k + j" "0 \<le> c" "c < H * W * n" "0 \<le> j" "j < k" by metis
  from flat_cases [OF c(2,3) assms(4)] obtain a s where s: "c = a * n + s" "0 \<le> a" "a < H * W" "0 \<le> s" "s < n" by metis
  from flat_cases [OF s(2,3) assms(3)] obtain h w where "a = h * W + w" "0 \<le> h" "h < H" "0 \<le> w" "w < W" by metis
  with c s that show thesis by simp
qed

lemma clustered_value_box:
  fixes h w s k m n :: nat and W :: int
  assumes "s < n" "int w < W" "k < 4" "n = length (pc_widths P)" "((h * nat W + w) * n + s) * 4 + k < m"
  shows "clustered_value P box W (int m) (int (((h * nat W + w) * n + s) * 4 + k)) = box (int h) (int w) s ! k"
proof -
  define c where "c = int ((h * nat W + w) * n + s)"
  have cc: "c = (int h * W + int w) * int n + int s" using assms(2) by (simp add: c_def)
  have "c div int n div W = int h" "c div int n mod W = int w" "c mod int n = int s"
    unfolding cc using flat_div [of "int s" "int n" "int h * W + int w"] flat_div [of "int w" W "int h"] assms(1,2) by simp_all
  moreover have "int (((h * nat W + w) * n + s) * 4 + k) = c * 4 + int k" by (simp add: c_def)
  moreover have "(c * 4 + int k) div 4 = c" "(c * 4 + int k) mod 4 = int k" using assms(3) by simp_all
  moreover have "c * 4 + int k < int m" using assms(5) unfolding c_def by linarith
  ultimately show ?thesis using assms(4) by (simp only: clustered_value_def Let_def) simp
qed

text \<open>The buffer after the loops: the boxes, the variances of every prior, and what was there before.\<close>

lemma clustered_fill_values:
  fixes H W n vs N :: nat
  assumes n: "n = length (pc_widths P)" "length (pc_heights P) = n" "n \<le> 2 ^ 31"
    and vs: "vs = length (pc_variance P)" "vs \<le> 4" and N: "N = H * W * n * 4"
    and dst: "length dst = 2 * N" "2 * N \<le> 2 ^ 31"
  obtains out where "clustered_fill P (int H) (int W) iw ih sw sh (int N) dst = Some out" "length out = 2 * N"
    "\<And>h w s k. h < H \<Longrightarrow> w < W \<Longrightarrow> s < n \<Longrightarrow> k < 4 \<Longrightarrow>
       out ! (((h * W + w) * n + s) * 4 + k) = clustered_prior P sw sh iw ih (int h) (int w) s ! k"
    "\<And>i. i < H * W * n * vs \<Longrightarrow> out ! (N + i) = pc_variance P ! (i mod vs)"
    "\<And>i. N + H * W * n * vs \<le> i \<Longrightarrow> i < 2 * N \<Longrightarrow> out ! i = dst ! i"
proof -
  let ?g = "clustered_value P (clustered_prior P sw sh iw ih) (int W) (int N)"
  let ?c = "\<lambda>h w s. (h * int W + w) * int n + s"
  let ?S = "\<Union>h\<in>{0..<int H}. \<Union>w\<in>{0..<int W}. \<Union>s\<in>{0..<int n}. {?c h w s * 4..<?c h w s * 4 + 4} \<union>
     {int N + ?c h w s * int vs..<int N + ?c h w s * int vs + int vs}"
  have NI: "int H * int W * int n * 4 = int N" by (simp add: N)
  have "H * W * n * vs \<le> N" unfolding N using vs(2) by (intro mult_le_mono2)
  then have V: "int N + int H * int W * int n * int vs \<le> int (length dst)" unfolding dst(1) by (simp flip: of_nat_mult)
  have "vs \<le> 2 ^ 31" using vs(2) by simp
  then obtain out where o: "clustered_fill P (int H) (int W) iw ih sw sh (int N) dst = Some out" and w: "wrote ?S ?g dst out"
    using clustered_fill_wrote [of "int n" P "int vs" "int H" "int W" "int N" dst iw ih sw sh] n vs(1) NI V dst by auto
  have cell: "0 \<le> ?c h w s" "?c h w s < int H * int W * int n" if "0 \<le> h" "h < int H" "0 \<le> w" "w < int W" "0 \<le> s" "s < int n" for h w s
    using flat_bound [of "h * int W + w" "int H * int W" s "int n"] flat_bound [of h "int H" w "int W"] that by simp_all
  have l: "length out = 2 * N" using wrote_length [OF w] dst(1) by simp
  have box: "out ! (((h * W + v) * n + s) * 4 + k) = clustered_prior P sw sh iw ih (int h) (int v) s ! k"
    if r: "h < H" "v < W" "s < n" "k < 4" for h v s k
  proof -
    have "(h * W + v) * n + s < H * W * n" using r by (intro nth_upt_mult) simp_all
    then have i: "((h * W + v) * n + s) * 4 + k < N" using r(4) N by simp
    have "int (((h * W + v) * n + s) * 4 + k) \<in> ?S" using r by (intro UN_I [of "int h"] UN_I [of "int v"] UN_I [of "int s"]) simp_all
    then show ?thesis using wrote_nth [OF w, of "((h * W + v) * n + s) * 4 + k"] i dst(1) n(1)
        clustered_value_box [of s n v "int W" k P h N] r by simp
  qed
  have var: "out ! (N + i) = pc_variance P ! (i mod vs)" if i: "i < H * W * n * vs" for i
  proof -
    have "int i < int H * int W * int n * int vs" using i by (simp flip: of_nat_mult)
    then obtain h v s where "0 \<le> h" "h < int H" "0 \<le> v" "v < int W" "0 \<le> s" "s < int n"
      "?c h v s * int vs \<le> int i" "int i < ?c h v s * int vs + int vs" by (rule cells_cover [rotated]) simp_all
    then have "int (N + i) \<in> ?S" by (intro UN_I [of h] UN_I [of v] UN_I [of s]) simp_all
    moreover have "?g (int (N + i)) = pc_variance P ! (i mod vs)" by (simp add: clustered_value_def Let_def vs(1) flip: of_nat_mod)
    moreover have "N + i < length dst" using i \<open>H * W * n * vs \<le> N\<close> dst(1) by simp
    ultimately show ?thesis using wrote_nth [OF w, of "N + i"] by simp
  qed
  have rest: "out ! i = dst ! i" if i: "N + H * W * n * vs \<le> i" "i < 2 * N" for i
  proof -
    have "int i \<notin> {?c h v s * 4..<?c h v s * 4 + 4} \<union> {int N + ?c h v s * int vs..<int N + ?c h v s * int vs + int vs}"
      if "0 \<le> h" "h < int H" "0 \<le> v" "v < int W" "0 \<le> s" "s < int n" for h v s
    proof -
      have "(?c h v s + 1) * int vs \<le> int H * int W * int n * int vs" using cell(2) [OF that] by (intro mult_right_mono) simp_all
      then have "?c h v s * int vs + int vs \<le> int H * int W * int n * int vs" by (simp add: distrib_right)
      moreover have le: "int N + int H * int W * int n * int vs \<le> int i" using i(1) by (simp flip: of_nat_mult of_nat_add)
      ultimately have "int N + ?c h v s * int vs + int vs \<le> int i" by linarith
      moreover have "(?c h v s + 1) * 4 \<le> int H * int W * int n * 4" using cell(2) [OF that] by (intro mult_right_mono) simp_all
      then have "?c h v s * 4 + 4 \<le> int N" unfolding NI by (simp only: distrib_right mult_1)
      moreover have nn: "0 \<le> int H * int W * int n * int vs" by simp
      have "int N \<le> int i" using le nn by linarith
      ultimately show ?thesis by simp
    qed
    then have notin: "int i \<notin> ?S" by auto
    have "i < length dst" using i dst(1) by simp
    from wrote_nth [OF w this] show ?thesis unfolding if_not_P [OF notin] .
  qed
  show thesis by (rule that [OF o l box var rest])
qed

section \<open>Properties\<close>

text \<open>C13. A prior box layer built from the network description writes, for an output of two channels of
  \<open>N = H * W * priors * 4\<close> numbers, inside that output only: first the boxes of all cells in row order
  (\<open>prior_corners\<close>: in each cell one box per minimum size, maximum size and aspect ratio), clipped to the unit square
  if the layer clips, and in the second channel the four variances for every prior. The corners of every box are in
  order. The first channel is filled when there are no more maximum than minimum sizes and no further
  ratio counts as 1; otherwise the numbers behind the last box are left over from before.\<close>
theorem prior_boxes_written:
  assumes "prior_box_new getf l = (x, Some P)"
    and "length d0 = 4" "length d1 = 4" "0 < d1 ! 2" "0 < d1 ! 3" "N = d0 ! 2 * d0 ! 3 * nat (pb_num_priors P) * 4"
    and "length dst = 2 * N" "2 * N \<le> 2 ^ 31" "length (pb_min_sizes P) \<le> 2 ^ 31" "length (pb_max_sizes P) \<le> 2 ^ 31"
    and "0 < p" "\<forall>y. 0 \<le> sq y" "\<forall>m \<in> set (pb_min_sizes P). 0 \<le> m"
  shows "\<exists>C rest. prior_box_execute p sq P [d0, d1] [[1, 2, N]] dst =
      Some (OK, C @ rest @ concat (replicate (d0 ! 2 * d0 ! 3 * nat (pb_num_priors P)) (variance4 P))) \<and>
    C = map (if pb_clip P then unit_clip else id) (prior_corners p sq P (prior_steps P d0 d1) (int (d0 ! 2)) (int (d0 ! 3))
      (int (d1 ! 2)) (int (d1 ! 3))) \<and>
    ordered_boxes C \<and> length C = 4 * length (cell_sizes p sq P) * d0 ! 3 * d0 ! 2 \<and>
    rest = map (if pb_clip P then unit_clip else id) (drop (length C) (take N dst)) \<and>
    (length (pb_max_sizes P) \<le> length (pb_min_sizes P) \<and> (\<forall>ar \<in> set (tl (pb_aspect_ratios P)). \<not> near ar 1) \<longrightarrow> rest = [])"
proof -
  define C where "C = prior_corners p sq P (prior_steps P d0 d1) (int (d0 ! 2)) (int (d0 ! 3)) (int (d1 ! 2)) (int (d1 ! 3))"
  let ?f = "if pb_clip P then unit_clip else id"
  have np: "pb_num_priors P = int (nat (pb_num_priors P))" using prior_box_new_fields(1) [OF assms(1)] by simp
  note e = prior_box_execute_eq [OF assms(1-3) np assms(6-10) C_def]
  have len: "length C = 4 * length (cell_sizes p sq P) * d0 ! 3 * d0 ! 2" by (simp add: C_def prior_corners_length)
  have "ordered_boxes C" unfolding C_def using assms(4,5,11-13) by (intro prior_corners_ordered) simp_all
  then have ord: "ordered_boxes (map ?f C)" by (simp add: ordered_boxes_clip)
  have full: "drop (length C) (take N dst) = []"
    if "length (pb_max_sizes P) \<le> length (pb_min_sizes P)" "\<forall>ar \<in> set (tl (pb_aspect_ratios P)). \<not> near ar 1"
  proof -
    have "length (cell_sizes p sq P) = nat (pb_num_priors P)" using cell_sizes_le(2) [OF assms(1) that] by (metis nat_int)
    then have "length C = N" unfolding len assms(6) by (simp add: mult_ac)
    then show ?thesis by simp
  qed
  show ?thesis using e(2) len ord full unfolding C_def [symmetric] map_append append_assoc
    by (intro exI [of _ "map ?f C"] exI [of _ "map ?f (drop (length C) (take N dst))"]) simp
qed

text \<open>The clustered layer writes the box of every cell and cluster in the first part of its output and from
  \<open>N\<close> on the list of variances once per prior: with one variance (the default) only the first quarter of
  the second channel gets a value, the rest keeps what it held.\<close>
theorem clustered_variances_partial:
  assumes "pc_variance P = []" "length (pc_heights P) = length (pc_widths P)" "length (pc_widths P) \<le> 2 ^ 31"
    and "length d0 = 4" "length d1 = 4" "N = d0 ! 2 * d0 ! 3 * length (pc_widths P) * 4"
    and "length dst = 2 * N" "2 * N \<le> 2 ^ 31"
    and "sw = (if pc_step_w P = 0 then pc_step P else pc_step_w P)" "sh = (if pc_step_h P = 0 then pc_step P else pc_step_h P)"
    and "iw = (if pc_img_w P = 0 then int (d1 ! 3) else pc_img_w P)" "ih = (if pc_img_h P = 0 then int (d1 ! 2) else pc_img_h P)"
  shows "\<exists>out. prior_clustered_execute P [d0, d1] [[1, 2, N]] dst = Some (OK, P\<lparr>pc_variance := [d2f (rnd 53 (1 / 10))]\<rparr>, out) \<and>
    length out = 2 * N \<and>
    (\<forall>h < d0 ! 2. \<forall>w < d0 ! 3. \<forall>s < length (pc_widths P). \<forall>k < 4.
       out ! (((h * d0 ! 3 + w) * length (pc_widths P) + s) * 4 + k) = clustered_prior P sw sh iw ih (int h) (int w) s ! k) \<and>
    (\<forall>i < N div 4. out ! (N + i) = d2f (rnd 53 (1 / 10))) \<and>
    (\<forall>i. N + N div 4 \<le> i \<and> i < 2 * N \<longrightarrow> out ! i = dst ! i)"
proof -
  define Q where "Q = P\<lparr>pc_variance := [d2f (rnd 53 (1 / 10))]\<rparr>"
  have Q: "pc_widths Q = pc_widths P" "pc_heights Q = pc_heights P" "pc_variance Q = [d2f (rnd 53 (1 / 10))]"
    "clustered_prior Q = clustered_prior P" "pc_step_w Q = pc_step_w P" "pc_step_h Q = pc_step_h P" "pc_step Q = pc_step P"
    "pc_img_w Q = pc_img_w P" "pc_img_h Q = pc_img_h P"
    by (simp_all add: Q_def clustered_prior_def [abs_def])
  have N4: "N div 4 = d0 ! 2 * d0 ! 3 * length (pc_widths P)" by (simp add: assms(6))
  obtain out where o: "clustered_fill Q (int (d0 ! 2)) (int (d0 ! 3)) iw ih sw sh (int N) dst = Some out" "length out = 2 * N"
    and b: "\<And>h w s k. h < d0 ! 2 \<Longrightarrow> w < d0 ! 3 \<Longrightarrow> s < length (pc_widths P) \<Longrightarrow> k < 4 \<Longrightarrow>
       out ! (((h * d0 ! 3 + w) * length (pc_widths P) + s) * 4 + k) = clustered_prior P sw sh iw ih (int h) (int w) s ! k"
    and v: "\<And>i. i < N div 4 \<Longrightarrow> out ! (N + i) = d2f (rnd 53 (1 / 10))"
    and r: "\<And>i. N + N div 4 \<le> i \<Longrightarrow> i < 2 * N \<Longrightarrow> out ! i = dst ! i"
    using clustered_fill_values [of "length (pc_widths P)" Q 1 N "d0 ! 2" "d0 ! 3" dst iw ih sw sh] assms(2,3,6-8)
    unfolding Q N4 by auto
  have "prior_clustered_execute P [d0, d1] [[1, 2, N]] dst = Some (OK, Q, out)"
    using assms(1,4,5,9-12) o(1) Q(5-9)
    by (cases "pc_img_w P = 0"; cases "pc_img_h P = 0"; cases "pc_step_w P = 0"; cases "pc_step_h P = 0")
       (simp_all add: prior_clustered_execute_def Let_def Q_def [symmetric])
  then show ?thesis using o(2) b v r unfolding Q_def by blast
qed

definition demo_prior :: "(string \<Rightarrow> f32 \<Rightarrow> string + f32) \<times> cnn_layer" where
  "demo_prior = (\<lambda>_ d. Inr d, \<lparr>ins_data = [demo_port [1, 1, 1, 1], demo_port [1, 3, 8, 8]], out_data = [demo_port [1, 2, 8]],
     has_weights = False, int_param = (\<lambda>_. Inr 1), float_param = (\<lambda>_. Inr (1 / 2)),
     floats_param = (\<lambda>k. if k = ''min_size'' then [4] else if k = ''max_size'' then [9] else []), string_param = (\<lambda>_. None)\<rparr>)"

definition demo_prior_box :: prior_box where
  "demo_prior_box = \<lparr>pb_offset = 1 / 2, pb_step = 0, pb_min_sizes = [4], pb_max_sizes = [9], pb_flip = True, pb_clip = True,
     pb_aspect_ratios = [1], pb_variance = [rnd 24 (1 / 10)], pb_num_priors = 2\<rparr>"

lemma demo_prior_new: "\<exists>x. prior_box_new (fst demo_prior) (snd demo_prior) = (x, Some demo_prior_box)"
  by (simp add: demo_prior_def demo_prior_box_def prior_box_new_def construct_def addConfig_def fill_port_def conf_at_def
      demo_port_def prior_variance_def Let_def)

theorem prior_boxes_written_witness:
  "\<exists>C rest. prior_box_execute 24 (\<lambda>_. 6) demo_prior_box [[1, 1, 1, 1], [1, 3, 8, 8]] [[1, 2, 8]] (replicate 16 0) =
      Some (OK, C @ rest @ concat (replicate 2 (variance4 demo_prior_box))) \<and> ordered_boxes C \<and> rest = []"
proof -
  from demo_prior_new obtain x where x: "prior_box_new (fst demo_prior) (snd demo_prior) = (x, Some demo_prior_box)" by blast
  let ?d0 = "[1, 1, 1, 1] :: nat list" and ?d1 = "[1, 3, 8, 8] :: nat list"
  have h: "length ?d0 = 4" "length ?d1 = 4" "0 < ?d1 ! 2" "0 < ?d1 ! 3"
    "8 = ?d0 ! 2 * ?d0 ! 3 * nat (pb_num_priors demo_prior_box) * 4" "length (replicate 16 (0 :: rat)) = 2 * 8" "2 * 8 \<le> (2 :: nat) ^ 31"
    "length (pb_min_sizes demo_prior_box) \<le> 2 ^ 31" "length (pb_max_sizes demo_prior_box) \<le> 2 ^ 31" "0 < (24 :: nat)" "\<forall>y :: rat. 0 \<le> (6 :: rat)"
    "\<forall>m \<in> set (pb_min_sizes demo_prior_box). 0 \<le> m"
    and f: "length (pb_max_sizes demo_prior_box) \<le> length (pb_min_sizes demo_prior_box)"
      "\<forall>ar \<in> set (tl (pb_aspect_ratios demo_prior_box)). \<not> near ar 1"
    and n: "?d0 ! 2 * ?d0 ! 3 * nat (pb_num_priors demo_prior_box) = 2"
    by (simp_all add: demo_prior_box_def)
  from prior_boxes_written [OF x h] f show ?thesis unfolding n by blast
qed

definition demo_clustered :: prior_clustered where
  "demo_clustered = \<lparr>pc_widths = [4], pc_heights = [2], pc_variance = [], pc_clip = 0, pc_img_h = 0, pc_img_w = 0, pc_step = 8,
     pc_step_h = 0, pc_step_w = 0, pc_offset = 1 / 2\<rparr>"

theorem clustered_variances_partial_witness:
  "\<exists>out. prior_clustered_execute demo_clustered [[1, 1, 1, 1], [1, 3, 8, 8]] [[1, 2, 4]] [7, 7, 7, 7, 7, 7, 7, 7] =
     Some (OK, demo_clustered\<lparr>pc_variance := [d2f (rnd 53 (1 / 10))]\<rparr>, out) \<and> length out = 8 \<and> out ! 5 = 7"
proof -
  let ?d0 = "[1, 1, 1, 1] :: nat list" and ?d1 = "[1, 3, 8, 8] :: nat list" and ?dst = "[7, 7, 7, 7, 7, 7, 7, 7] :: rat list"
  have h: "pc_variance demo_clustered = []" "length (pc_heights demo_clustered) = length (pc_widths demo_clustered)"
    "length (pc_widths demo_clustered) \<le> 2 ^ 31" "length ?d0 = 4" "length ?d1 = 4"
    "4 = ?d0 ! 2 * ?d0 ! 3 * length (pc_widths demo_clustered) * 4" "length ?dst = 2 * 4" "2 * 4 \<le> (2 :: nat) ^ 31"
    by (simp_all add: demo_clustered_def)
  obtain out where "prior_clustered_execute demo_clustered [?d0, ?d1] [[1, 2, 4]] ?dst =
      Some (OK, demo_clustered\<lparr>pc_variance := [d2f (rnd 53 (1 / 10))]\<rparr>, out)" "length out = 2 * 4"
    "\<forall>i. 4 + 4 div 4 \<le> i \<and> i < 2 * 4 \<longrightarrow> out ! i = ?dst ! i"
    using clustered_variances_partial [OF h refl refl refl refl] by blast
  then show ?thesis by simp
qed

end
