(* ===== verification/SimplerNms.thy ===== *)
theory SimplerNms
  imports LayerBase Suppression "HOL-Library.Product_Lexorder"
begin

text \<open>
  \<^verbatim>\<open>extension/ext_simplernms.cpp\<close>: another region proposal layer. Nine anchors at every position of the feature map
  are moved by the predicted deltas and clamped to the image; those that are large enough are ranked by
  confidence, the best \<open>pre_nms_topn\<close> of them go through greedy suppression, and the boxes that are left are
  written as rows of five numbers.

  The unqualified \<^verbatim>\<open>exp\<close> and \<^verbatim>\<open>sqrt\<close> are those of C on \<^verbatim>\<open>double\<close>, the arguments \<open>expd\<close> and \<open>sqrtd\<close>. The order that
  \<^verbatim>\<open>std::sort\<close> and \<^verbatim>\<open>std::partial_sort\<close> get is total, because every proposal has its own number.
\<close>

section \<open>Boxes\<close>

record simpler_nms_roi_t =
  x0 :: f32
  y0 :: f32
  x1 :: f32
  y1 :: f32

definition clamp_v :: "f32 \<Rightarrow> f32 \<Rightarrow> f32 \<Rightarrow> f32" where
  "clamp_v v v_min v_max = max v_min (min v v_max)"

definition roi_area :: "simpler_nms_roi_t \<Rightarrow> f32" where
  "roi_area r = fmul (max 0 (fadd (fsub (y1 r) (y0 r)) 1)) (max 0 (fadd (fsub (x1 r) (x0 r)) 1))"

definition roi_intersect :: "simpler_nms_roi_t \<Rightarrow> simpler_nms_roi_t \<Rightarrow> simpler_nms_roi_t" where
  "roi_intersect r other = \<lparr>x0 = max (x0 r) (x0 other), y0 = max (y0 r) (y0 other),
     x1 = min (x1 r) (x1 other), y1 = min (y1 r) (y1 other)\<rparr>"

definition roi_clamp :: "simpler_nms_roi_t \<Rightarrow> simpler_nms_roi_t \<Rightarrow> simpler_nms_roi_t" where
  "roi_clamp r other = \<lparr>x0 = clamp_v (x0 r) (x0 other) (x1 other), y0 = clamp_v (y0 r) (y0 other) (y1 other),
     x1 = clamp_v (x1 r) (x0 other) (x1 other), y1 = clamp_v (y1 r) (y0 other) (y1 other)\<rparr>"

record simpler_nms_delta_t =
  shift_x :: f32
  shift_y :: f32
  log_w :: f32
  log_h :: f32

record simpler_nms_proposal_t =
  roi :: simpler_nms_roi_t
  confidence :: f32
  ord :: nat

record simpler_nms_anchor =
  start_x :: f32
  start_y :: f32
  end_x :: f32
  end_y :: f32

section \<open>Anchors\<close>

text \<open>Width, height and centre of an anchor.\<close>

definition CalcBasicParams :: "simpler_nms_anchor \<Rightarrow> f32 \<times> f32 \<times> f32 \<times> f32" where
  "CalcBasicParams b = (let width = fadd (fsub (end_x b) (start_x b)) 1; height = fadd (fsub (end_y b) (start_y b)) 1
     in (width, height, fadd (start_x b) (fmul (1 / 2) (fsub width 1)), fadd (start_y b) (fmul (1 / 2) (fsub height 1))))"

definition MakeAnchors :: "f32 list \<Rightarrow> f32 list \<Rightarrow> f32 \<Rightarrow> f32 \<Rightarrow> simpler_nms_anchor list" where
  "MakeAnchors ws hs x_center y_center = map (\<lambda>(w, h).
     \<lparr>start_x = fsub x_center (fmul (1 / 2) (fsub w 1)), start_y = fsub y_center (fmul (1 / 2) (fsub h 1)),
      end_x = fadd x_center (fmul (1 / 2) (fsub w 1)), end_y = fadd y_center (fmul (1 / 2) (fsub h 1))\<rparr>) (zip ws hs)"

definition CalcAnchors :: "simpler_nms_anchor \<Rightarrow> f32 list \<Rightarrow> simpler_nms_anchor list" where
  "CalcAnchors b scales = (let (width, height, x_center, y_center) = CalcBasicParams b
     in MakeAnchors (map (fmul width) scales) (map (fmul height) scales) x_center y_center)"

definition CalcRatioAnchors :: "(rat \<Rightarrow> rat) \<Rightarrow> simpler_nms_anchor \<Rightarrow> f32 list \<Rightarrow> simpler_nms_anchor list" where
  "CalcRatioAnchors sqrtd b ratios = (let (width, height, x_center, y_center) = CalcBasicParams b;
     ws = map (\<lambda>r. d2f (roundf (sqrtd (fdiv (fmul width height) r)))) ratios;
     hs = map (\<lambda>(w, r). d2f (roundf (fmul w r))) (zip ws ratios)
     in MakeAnchors ws hs x_center y_center)"

definition GenerateAnchors :: "(rat \<Rightarrow> rat) \<Rightarrow> int \<Rightarrow> f32 list \<Rightarrow> f32 list \<Rightarrow> simpler_nms_anchor list" where
  "GenerateAnchors sqrtd base_size ratios scales = (let end = i2f (base_size - 1)
     in concat (map (\<lambda>r. CalcAnchors r scales)
       (CalcRatioAnchors sqrtd \<lparr>start_x = 0, start_y = 0, end_x = end, end_y = end\<rparr> ratios)))"

section \<open>Ranking and suppression\<close>

definition snms_overlaps :: "f32 \<Rightarrow> simpler_nms_roi_t \<Rightarrow> simpler_nms_roi_t \<Rightarrow> bool" where
  "snms_overlaps iou_threshold bbox res_bbox =
     (let interArea = roi_area (roi_intersect bbox res_bbox);
          unionArea = fsub (fadd (roi_area res_bbox) (roi_area bbox)) interArea
      in fmul iou_threshold unionArea < interArea)"

text \<open>The loop over the proposals; \<open>res\<close> are the boxes found so far.\<close>

primrec nms_loop :: "f32 \<Rightarrow> nat \<Rightarrow> simpler_nms_proposal_t list \<Rightarrow> simpler_nms_roi_t list \<Rightarrow> simpler_nms_roi_t list" where
  "nms_loop thr top_n [] res = res"
| "nms_loop thr top_n (p # ps) res =
     (if 0 < confidence p \<and> \<not> (\<exists>r \<in> set res. snms_overlaps thr (roi p) r) then
        (if length (res @ [roi p]) = top_n then res @ [roi p] else nms_loop thr top_n ps (res @ [roi p]))
      else nms_loop thr top_n ps res)"

definition simpler_nms_perform_nms :: "simpler_nms_proposal_t list \<Rightarrow> f32 \<Rightarrow> nat \<Rightarrow> simpler_nms_roi_t list" where
  "simpler_nms_perform_nms proposals iou_threshold top_n = nms_loop iou_threshold top_n proposals []"

text \<open>\<^verbatim>\<open>cmp_fn\<close>: higher confidence first, then the higher number.\<close>

definition sort_proposals :: "simpler_nms_proposal_t list \<Rightarrow> simpler_nms_proposal_t list" where
  "sort_proposals ps = sort_key (\<lambda>p. (- confidence p, - int (ord p))) ps"

definition sort_and_keep_at_most_top_n :: "simpler_nms_proposal_t list \<Rightarrow> nat \<Rightarrow> simpler_nms_proposal_t list" where
  "sort_and_keep_at_most_top_n ps top_n = (if top_n < length ps then take top_n (sort_proposals ps) else sort_proposals ps)"

definition simpler_nms_gen_bbox :: "(rat \<Rightarrow> rat) \<Rightarrow> simpler_nms_anchor \<Rightarrow> simpler_nms_delta_t \<Rightarrow> int \<Rightarrow> int \<Rightarrow> simpler_nms_roi_t" where
  "simpler_nms_gen_bbox expd box delta anchor_shift_x anchor_shift_y =
     (let anchor_w = fadd (fsub (end_x box) (start_x box)) 1;
          anchor_h = fadd (fsub (end_y box) (start_y box)) 1;
          center_x = fadd (start_x box) (fmul anchor_w (1 / 2));
          center_y = fadd (start_y box) (fmul anchor_h (1 / 2));
          pred_center_x = fadd (fadd (fmul (shift_x delta) anchor_w) center_x) (i2f anchor_shift_x);
          pred_center_y = fadd (fadd (fmul (shift_y delta) anchor_h) center_y) (i2f anchor_shift_y);
          half_pred_w = d2f (dmul (dmul (expd (log_w delta)) anchor_w) (1 / 2));
          half_pred_h = d2f (dmul (dmul (expd (log_h delta)) anchor_h) (1 / 2))
      in \<lparr>x0 = fsub pred_center_x half_pred_w, y0 = fsub pred_center_y half_pred_h,
          x1 = fadd pred_center_x half_pred_w, y1 = fadd pred_center_y half_pred_h\<rparr>)"

section \<open>The layer\<close>

record simpler_nms =
  snms_min_box_size :: int
  snms_feat_stride :: int
  snms_pre_nms_topn :: int
  snms_post_nms_topn :: int
  snms_iou_threshold :: f32
  snms_scales :: "f32 list"
  snms_ratios :: "f32 list"
  snms_anchors :: "simpler_nms_anchor list"

text \<open>The constructor. The address of the first anchor is taken before the dimensions are checked, so a network
  without scales, or with a missing port, is undefined.\<close>

definition simpler_nms_new :: "(rat \<Rightarrow> rat) \<Rightarrow> cnn_layer \<Rightarrow> (ext_layer \<times> simpler_nms option) option" where
  "simpler_nms_new sqrtd l =
     (if length (ins_data l) \<noteq> 3 \<or> length (out_data l) \<noteq> 1
      then Some (construct (Inl ''Incorrect number of input/output edges!''))
      else let ip = int_param l; scales = floats_param l ''scale''; ratios = [1 / 2, 1, 2] in
        case try_with (ip ''min_bbox_size'') (\<lambda>mb. try_with (ip ''feat_stride'') (\<lambda>fs. try_with (ip ''pre_nms_topn'') (\<lambda>pre.
             try_with (ip ''post_nms_topn'') (\<lambda>post. try_with (float_param l ''iou_threshold'') (\<lambda>thr. Inr (mb, fs, pre, post, thr)))))) of
          Inl e \<Rightarrow> Some (construct (Inl e))
        | Inr (mb, fs, pre, post, thr) \<Rightarrow> (if scales = [] then None else case (out_data l ! 0, ins_data l ! 0) of
            (Some oport, Some iport) \<Rightarrow> Some (construct (
              if length (port_dims oport) \<noteq> 2 \<or> length (port_dims iport) \<noteq> 4 then Inl ''Unsupported dimensions!''
              else try_with (addConfig l [conf PLN, conf PLN, conf PLN] [conf PLN] False) (\<lambda>c.
                Inr (\<lparr>snms_min_box_size = mb, snms_feat_stride = fs, snms_pre_nms_topn = pre, snms_post_nms_topn = post, snms_iou_threshold = thr,
                  snms_scales = scales, snms_ratios = ratios, snms_anchors = GenerateAnchors sqrtd 16 ratios scales\<rparr>, c))))
          | _ \<Rightarrow> None))"

definition anchored_box :: "(rat \<Rightarrow> rat) \<Rightarrow> simpler_nms_anchor \<Rightarrow> simpler_nms_delta_t \<Rightarrow> int \<Rightarrow> int \<Rightarrow> int \<Rightarrow> int \<Rightarrow> simpler_nms_roi_t" where
  "anchored_box expd anchor bbox_delta anchor_shift_x anchor_shift_y IW IH =
     roi_clamp (simpler_nms_gen_bbox expd anchor bbox_delta anchor_shift_x anchor_shift_y)
       \<lparr>x0 = 0, y0 = 0, x1 = i2f (IW - 1), y1 = i2f (IH - 1)\<rparr>"

text \<open>The box of one anchor at one position with its confidence, and whether it is large enough.\<close>

definition proposal_of ::
  "(rat \<Rightarrow> rat) \<Rightarrow> simpler_nms \<Rightarrow> f32 list \<Rightarrow> f32 list \<Rightarrow> int \<Rightarrow> int \<Rightarrow> int \<Rightarrow> int \<Rightarrow> int \<Rightarrow> int \<Rightarrow> int \<Rightarrow> int \<Rightarrow>
     (simpler_nms_roi_t \<times> f32 \<times> bool) option" where
  "proposal_of expd P cls_scores delta_pred H W IH IW scaled_min_bbox_size y x anchor_index =
     (let SZ = H * W; location_index = y * W + x;
          anchor_shift_y = y * snms_feat_stride P; anchor_shift_x = x * snms_feat_stride P in
      if \<not> int_ok anchor_shift_y \<or> \<not> int_ok anchor_shift_x \<or> \<not> int_ok (IW - 1) \<or> \<not> int_ok (IH - 1) then None
      else do {
        dx0 \<leftarrow> ld delta_pred (location_index + SZ * (anchor_index * 4 + 0));
        dy0 \<leftarrow> ld delta_pred (location_index + SZ * (anchor_index * 4 + 1));
        dx1 \<leftarrow> ld delta_pred (location_index + SZ * (anchor_index * 4 + 2));
        dy1 \<leftarrow> ld delta_pred (location_index + SZ * (anchor_index * 4 + 3));
        proposal_confidence \<leftarrow> ld cls_scores (location_index + SZ * (anchor_index + 9 * 1));
        anchor \<leftarrow> ld (snms_anchors P) anchor_index;
        let r = anchored_box expd anchor \<lparr>shift_x = dx0, shift_y = dy0, log_w = dx1, log_h = dy1\<rparr>
          anchor_shift_x anchor_shift_y IW IH;
        bbox_w \<leftarrow> f2i (fadd (fsub (x1 r) (x0 r)) 1);
        bbox_h \<leftarrow> f2i (fadd (fsub (y1 r) (y0 r)) 1);
        Some (r, proposal_confidence, scaled_min_bbox_size \<le> bbox_w \<and> scaled_min_bbox_size \<le> bbox_h) })"

definition add_proposal :: "simpler_nms_roi_t \<times> f32 \<times> bool \<Rightarrow> simpler_nms_proposal_t list \<Rightarrow> simpler_nms_proposal_t list" where
  "add_proposal = (\<lambda>(r, cf, big) ps. if big then ps @ [\<lparr>roi = r, confidence = cf, ord = length ps\<rparr>] else ps)"

definition collect_proposals ::
  "(rat \<Rightarrow> rat) \<Rightarrow> simpler_nms \<Rightarrow> f32 list \<Rightarrow> f32 list \<Rightarrow> int \<Rightarrow> int \<Rightarrow> int \<Rightarrow> int \<Rightarrow> int \<Rightarrow> simpler_nms_proposal_t list option" where
  "collect_proposals expd P cls_scores delta_pred H W IH IW scaled_min_bbox_size =
     for_loop 0 H (\<lambda>y. for_loop 0 W (\<lambda>x. for_loop 0 (3 * 3) (\<lambda>anchor_index ps. do {
       p \<leftarrow> proposal_of expd P cls_scores delta_pred H W IH IW scaled_min_bbox_size y x anchor_index;
       Some (add_proposal p ps) }))) []"

definition write_rois :: "simpler_nms_roi_t list \<Rightarrow> f32 list \<Rightarrow> f32 list option" where
  "write_rois res dst = for_loop 0 (int (length res)) (\<lambda>i d.
     let r = res ! nat i in st_run d (5 * i) [0, x0 r, y0 r, x1 r, y1 r]) dst"

text \<open>A negative \<^verbatim>\<open>post_nms_topn\<close> makes \<^verbatim>\<open>reserve\<close> throw out of a function that is declared not to; a negative
  \<^verbatim>\<open>pre_nms_topn\<close> becomes a number larger than any list.\<close>

definition simpler_nms_execute :: "(rat \<Rightarrow> rat) \<Rightarrow> simpler_nms \<Rightarrow> nat list list \<Rightarrow> f32 list list \<Rightarrow> f32 list \<Rightarrow> (status_code \<times> f32 list) option" where
  "simpler_nms_execute expd P in_dims inputs dst =
     (if length inputs < 3 \<or> length in_dims < 2 \<or> length (in_dims ! 0) < 4 \<or> length (in_dims ! 1) < 4 then None
      else do {
        let cls_idx = (if in_dims ! 1 ! 1 < in_dims ! 0 ! 1 then 1 else 0 :: nat);
        let delta_idx = 1 - cls_idx;
        let H = int (in_dims ! cls_idx ! 2);
        let W = int (in_dims ! cls_idx ! 3);
        w \<leftarrow> ld (inputs ! 2) 1;
        IW \<leftarrow> f2i w;
        h \<leftarrow> ld (inputs ! 2) 0;
        IH \<leftarrow> f2i h;
        s \<leftarrow> ld (inputs ! 2) 2;
        IS \<leftarrow> f2i s;
        if \<not> int_ok (snms_min_box_size P * IS) then None
        else do {
          ps \<leftarrow> collect_proposals expd P (inputs ! cls_idx) (inputs ! delta_idx) H W IH IW (snms_min_box_size P * IS);
          let best = sort_and_keep_at_most_top_n ps (nat (snms_pre_nms_topn P mod 2 ^ 64));
          if snms_post_nms_topn P < 0 then None
          else do {
            out \<leftarrow> write_rois (simpler_nms_perform_nms best (snms_iou_threshold P) (nat (snms_post_nms_topn P))) dst;
            Some (OK, out) } } })"

end
