(* ===== verification/SimplerNmsFacts.thy ===== *)
theory SimplerNmsFacts
  imports SimplerNms
begin

text \<open>
  What the SimplerNMS layer computes: its rows are the greedy suppression of the best proposals, and every box lies in
  the image. With fewer scales than the three that the loop over the anchors assumes it reads past them.
\<close>

section \<open>Suppression\<close>

lemma nms_loop_greedy:
  assumes "res = greedy (snms_overlaps thr) old" and "top_n = 0 \<or> length res < top_n"
  shows "nms_loop thr top_n ps res =
    (let all = greedy (snms_overlaps thr) (old @ map roi (filter (\<lambda>p. 0 < confidence p) ps)) in if top_n = 0 then all else take top_n all)"
  using assms
proof (induction ps arbitrary: res old)
  case Nil
  then show ?case by (auto simp: Let_def)
next
  case (Cons p ps)
  let ?g = "greedy (snms_overlaps thr)"
  show ?case
  proof (cases "0 < confidence p")
    case False
    then show ?thesis using Cons.IH [OF Cons.prems] by simp
  next
    case True
    let ?rest = "map roi (filter (\<lambda>p. 0 < confidence p) ps)"
    have eq: "old @ map roi (filter (\<lambda>p. 0 < confidence p) (p # ps)) = (old @ [roi p]) @ ?rest" using True by simp
    have step: "?g (old @ [roi p]) = (if \<exists>r \<in> set res. snms_overlaps thr (roi p) r then res else res @ [roi p])"
      by (simp add: greedy_snoc keep_step_def Cons.prems(1))
    obtain zs where zs: "?g ((old @ [roi p]) @ ?rest) = ?g (old @ [roi p]) @ zs" using greedy_prefix by blast
    show ?thesis
    proof (cases "\<exists>r \<in> set res. snms_overlaps thr (roi p) r")
      case True
      then have "res = ?g (old @ [roi p])" using step by simp
      from Cons.IH [OF this Cons.prems(2)] True show ?thesis unfolding eq by simp
    next
      case no: False
      then have r: "res @ [roi p] = ?g (old @ [roi p])" using step by simp
      show ?thesis
      proof (cases "length (res @ [roi p]) = top_n")
        case full: True
        then have "take top_n (?g ((old @ [roi p]) @ ?rest)) = res @ [roi p]" "top_n \<noteq> 0" using zs r by auto
        then show ?thesis using True no full unfolding eq by simp
      next
        case False
        then have "top_n = 0 \<or> length (res @ [roi p]) < top_n" using Cons.prems(2) by auto
        from Cons.IH [OF r this] show ?thesis using True no False unfolding eq by simp
      qed
    qed
  qed
qed

lemma perform_nms_greedy:
  "simpler_nms_perform_nms ps thr top_n =
    (let all = greedy (snms_overlaps thr) (map roi (filter (\<lambda>p. 0 < confidence p) ps)) in if top_n = 0 then all else take top_n all)"
  unfolding simpler_nms_perform_nms_def using nms_loop_greedy [of "[]" thr "[]" top_n ps] by auto

section \<open>Collecting the proposals\<close>

text \<open>Proposals carry their position as number.\<close>

definition numbered :: "(simpler_nms_roi_t \<times> f32) list \<Rightarrow> simpler_nms_proposal_t list" where
  "numbered qs = map (\<lambda>(i, r, cf). \<lparr>roi = r, confidence = cf, ord = i\<rparr>) (enumerate 0 qs)"

definition big_one :: "simpler_nms_roi_t \<times> f32 \<times> bool \<Rightarrow> (simpler_nms_roi_t \<times> f32) list" where
  "big_one = (\<lambda>(r, cf, big). if big then [(r, cf)] else [])"

lemma add_proposal_numbered: "add_proposal p (numbered qs) = numbered (qs @ big_one p)"
  by (cases p) (auto simp: add_proposal_def numbered_def big_one_def enumerate_append_eq)

lemma foldm_collect:
  assumes "\<And>x qs. x \<in> set xs \<Longrightarrow> f x (numbered qs) = Some (numbered (qs @ g x))"
  shows "foldm f xs (numbered qs) = Some (numbered (qs @ concat (map g xs)))"
  using assms by (induction xs arbitrary: qs) auto

lemma for_collect:
  assumes "\<And>i qs. a \<le> i \<Longrightarrow> i < b \<Longrightarrow> f i (numbered qs) = Some (numbered (qs @ g i))"
  shows "for_loop a b f (numbered qs) = Some (numbered (qs @ concat (map g [a..b - 1])))"
  unfolding for_loop_def using assms by (intro foldm_collect) auto

text \<open>All proposals that are large enough, position by position.\<close>

definition candidates :: "(int \<Rightarrow> int \<Rightarrow> int \<Rightarrow> simpler_nms_roi_t \<times> f32 \<times> bool) \<Rightarrow> int \<Rightarrow> int \<Rightarrow> simpler_nms_proposal_t list" where
  "candidates pick H W = numbered (concat (map (\<lambda>y. concat (map (\<lambda>x. concat (map (\<lambda>a. big_one (pick y x a)) [0..8])) [0..W - 1])) [0..H - 1]))"

lemma collect_ok:
  assumes "\<And>y x a. 0 \<le> y \<Longrightarrow> y < H \<Longrightarrow> 0 \<le> x \<Longrightarrow> x < W \<Longrightarrow> 0 \<le> a \<Longrightarrow> a < 9 \<Longrightarrow>
     proposal_of expd P cls delta H W IH IW minb y x a = Some (pick y x a)"
  shows "collect_proposals expd P cls delta H W IH IW minb = Some (candidates pick H W)"
proof -
  let ?body = "\<lambda>y x a ps. do { p \<leftarrow> proposal_of expd P cls delta H W IH IW minb y x a; Some (add_proposal p ps) }"
  have "for_loop 0 H (\<lambda>y. for_loop 0 W (\<lambda>x. for_loop 0 9 (?body y x))) (numbered []) =
     Some (numbered ([] @ concat (map (\<lambda>y. concat (map (\<lambda>x. concat (map (\<lambda>a. big_one (pick y x a)) [0..9 - 1])) [0..W - 1])) [0..H - 1])))"
    by (intro for_collect) (simp_all add: assms add_proposal_numbered)
  then show ?thesis by (simp add: collect_proposals_def candidates_def numbered_def)
qed

section \<open>One proposal\<close>

definition roi_inside :: "int \<Rightarrow> int \<Rightarrow> simpler_nms_roi_t \<Rightarrow> bool" where
  "roi_inside IH IW r \<longleftrightarrow> 0 \<le> x0 r \<and> x0 r \<le> of_int (IW - 1) \<and> 0 \<le> x1 r \<and> x1 r \<le> of_int (IW - 1) \<and>
     0 \<le> y0 r \<and> y0 r \<le> of_int (IH - 1) \<and> 0 \<le> y1 r \<and> y1 r \<le> of_int (IH - 1)"

lemma clamp_v_range: "lo \<le> hi \<Longrightarrow> lo \<le> clamp_v v lo hi \<and> clamp_v v lo hi \<le> hi"
  by (auto simp: clamp_v_def)

lemma anchored_box_inside:
  assumes "1 \<le> IW" "IW \<le> 2 ^ 23" "1 \<le> IH" "IH \<le> 2 ^ 23"
  shows "roi_inside IH IW (anchored_box expd anchor d sx sy IW IH)"
proof -
  have "i2f (IW - 1) = of_int (IW - 1)" "i2f (IH - 1) = of_int (IH - 1)" using assms by (simp_all add: i2f_exact)
  then show ?thesis using assms clamp_v_range [of 0 "of_int (IW - 1)"] clamp_v_range [of 0 "of_int (IH - 1)"]
    by (simp add: roi_inside_def anchored_box_def roi_clamp_def)
qed

lemma side_int:
  assumes a: "0 \<le> a" "a \<le> of_int (n - 1)" and b: "0 \<le> b" "b \<le> of_int (n - 1)" and n: "1 \<le> n" "n \<le> 2 ^ 23"
  shows "f2i (fadd (fsub b a) 1) = Some (ctrunc (fadd (fsub b a) 1))"
proof -
  have m: "of_int (- (n - 1)) \<le> b - a" "b - a \<le> of_int (n - 1)" using a b by simp_all
  have e: "rnd 24 (of_int k) = of_int k" if "\<bar>k\<bar> \<le> 2 ^ 23" for k using that by (intro rnd_of_int) simp
  have "rnd 24 (of_int (- (n - 1))) \<le> fsub b a" "fsub b a \<le> rnd 24 (of_int (n - 1))"
    unfolding fsub_def by (intro rnd_mono m, simp)+
  moreover have "rnd 24 (of_int (- (n - 1))) = of_int (- (n - 1))" "rnd 24 (of_int (n - 1)) = of_int (n - 1)" by (rule e; use n in simp)+
  ultimately have "of_int (- (n - 1)) \<le> fsub b a" "fsub b a \<le> of_int (n - 1)" by (simp_all only:)
  then have m2: "of_int (2 - n) \<le> fsub b a + 1" "fsub b a + 1 \<le> of_int n" by simp_all
  have "rnd 24 (of_int (2 - n)) \<le> fadd (fsub b a) 1" "fadd (fsub b a) 1 \<le> rnd 24 (of_int n)"
    unfolding fadd_def by (intro rnd_mono m2, simp)+
  moreover have "rnd 24 (of_int (2 - n)) = of_int (2 - n)" "rnd 24 (of_int n) = of_int n" by (rule e; use n in simp)+
  ultimately have "of_int (2 - n) \<le> fadd (fsub b a) 1" "fadd (fsub b a) 1 \<le> of_int n" by (simp_all only:)
  from ctrunc_mono [OF this(1)] ctrunc_mono [OF this(2)] have "2 - n \<le> ctrunc (fadd (fsub b a) 1)" "ctrunc (fadd (fsub b a) 1) \<le> n"
    by (simp_all only: ctrunc_of_int)
  then show ?thesis using n by (simp add: f2i_def int_ok_def)
qed

definition snms_maps_ok :: "simpler_nms \<Rightarrow> f32 list \<Rightarrow> f32 list \<Rightarrow> int \<Rightarrow> int \<Rightarrow> bool" where
  "snms_maps_ok P cls delta H W \<longleftrightarrow> 0 \<le> H \<and> 0 \<le> W \<and> 18 * (H * W) \<le> int (length cls) \<and> 36 * (H * W) \<le> int (length delta) \<and>
     length cls \<le> 2 ^ 31 \<and> length delta \<le> 2 ^ 31 \<and> 9 \<le> length (snms_anchors P) \<and> length (snms_anchors P) \<le> 2 ^ 31 \<and>
     0 \<le> snms_feat_stride P \<and> int_ok (H * snms_feat_stride P) \<and> int_ok (W * snms_feat_stride P)"

lemma stride_index_ok:
  assumes "0 \<le> k" "k < n" "0 \<le> fs" "int_ok (n * fs)"
  shows "int_ok (k * fs)"
proof -
  have "0 \<le> k * fs" "k * fs \<le> n * fs" using assms(1-3) by (simp_all add: mult_right_mono)
  then show ?thesis using assms(4) by (simp add: int_ok_def)
qed

lemma proposal_of_ok:
  assumes maps: "snms_maps_ok P cls delta H W" and i: "0 \<le> y" "y < H" "0 \<le> x" "x < W" "0 \<le> a" "a < 9"
    and img: "1 \<le> IW" "IW \<le> 2 ^ 23" "1 \<le> IH" "IH \<le> 2 ^ 23"
  obtains r cf big where "proposal_of expd P cls delta H W IH IW minb y x a = Some (r, cf, big)" "roi_inside IH IW r"
proof -
  note m = maps [unfolded snms_maps_ok_def]
  have strides: "int_ok (y * snms_feat_stride P)" "int_ok (x * snms_feat_stride P)" using m i by (auto intro: stride_index_ok)
  let ?p = "y * W + x"
  have p: "0 \<le> ?p" "?p < H * W" using flat_bound [of y H x W] i by simp_all
  have plane: "0 \<le> ?p + H * W * k \<and> ?p + H * W * k < H * W * n" if "0 \<le> k" "k < n" for k n
    using flat_bound [OF that p] by (simp add: ac_simps)
  have d: "ld delta (?p + H * W * (a * 4 + j)) = Some (delta ! nat (?p + H * W * (a * 4 + j)))" if "0 \<le> j" "j < 4" for j
    using plane [of "a * 4 + j" 36] i that m by (intro ld_in [where k = "36 * (H * W)"]) auto
  have d4: "ld delta (?p + H * W * (a * 4 + 0)) = Some (delta ! nat (?p + H * W * (a * 4 + 0)))"
    "ld delta (?p + H * W * (a * 4 + 1)) = Some (delta ! nat (?p + H * W * (a * 4 + 1)))"
    "ld delta (?p + H * W * (a * 4 + 2)) = Some (delta ! nat (?p + H * W * (a * 4 + 2)))"
    "ld delta (?p + H * W * (a * 4 + 3)) = Some (delta ! nat (?p + H * W * (a * 4 + 3)))" by (rule d; simp)+
  have s: "ld cls (?p + H * W * (a + 9 * 1)) = Some (cls ! nat (?p + H * W * (a + 9 * 1)))"
    using plane [of "a + 9" 18] i m by (intro ld_in [where k = "18 * (H * W)"]) auto
  have c: "ld (snms_anchors P) a = Some (snms_anchors P ! nat a)" using i m by (intro ld_in [where k = 9]) auto
  define r where "r = anchored_box expd (snms_anchors P ! nat a) \<lparr>shift_x = delta ! nat (?p + H * W * (a * 4 + 0)),
    shift_y = delta ! nat (?p + H * W * (a * 4 + 1)), log_w = delta ! nat (?p + H * W * (a * 4 + 2)),
    log_h = delta ! nat (?p + H * W * (a * 4 + 3))\<rparr> (x * snms_feat_stride P) (y * snms_feat_stride P) IW IH"
  have r: "roi_inside IH IW r" unfolding r_def by (rule anchored_box_inside [OF img])
  then have f: "f2i (fadd (fsub (x1 r) (x0 r)) 1) = Some (ctrunc (fadd (fsub (x1 r) (x0 r)) 1))"
    "f2i (fadd (fsub (y1 r) (y0 r)) 1) = Some (ctrunc (fadd (fsub (y1 r) (y0 r)) 1))"
    using img by (auto simp: roi_inside_def intro!: side_int)
  have ok: "int_ok (IW - 1)" "int_ok (IH - 1)" using img by (simp_all add: int_ok_def)
  have "proposal_of expd P cls delta H W IH IW minb y x a = Some (r, cls ! nat (?p + H * W * (a + 9 * 1)),
     minb \<le> ctrunc (fadd (fsub (x1 r) (x0 r)) 1) \<and> minb \<le> ctrunc (fadd (fsub (y1 r) (y0 r)) 1))"
    unfolding proposal_of_def Let_def
    by (simp only: strides ok d4 s c r_def [symmetric] f Option.bind.simps if_False not_not simp_thms)
  then show thesis using r by (rule that)
qed

section \<open>Ranking\<close>

definition outranks :: "simpler_nms_proposal_t \<Rightarrow> simpler_nms_proposal_t \<Rightarrow> bool" where
  "outranks a b \<longleftrightarrow> confidence b < confidence a \<or> confidence a = confidence b \<and> ord b < ord a"

text \<open>The best \<open>n\<close> elements of a list, in order.\<close>

definition best_ranked :: "nat \<Rightarrow> simpler_nms_proposal_t list \<Rightarrow> simpler_nms_proposal_t list \<Rightarrow> bool" where
  "best_ranked n ps best \<longleftrightarrow> length best = min n (length ps) \<and>
     (\<exists>rest. mset ps = mset best + mset rest \<and> sorted_wrt outranks (best @ rest))"

lemma distinct_ord: "distinct (map ord (numbered qs))"
proof -
  have "map ord (numbered qs) = [0..<length qs]"
    by (simp add: numbered_def comp_def case_prod_unfold flip: map_fst_enumerate [of 0])
  then show ?thesis by simp
qed

lemma sort_proposals_ranked:
  assumes "distinct (map ord ps)"
  shows "sorted_wrt outranks (sort_proposals ps)" "mset (sort_proposals ps) = mset ps"
proof -
  let ?k = "\<lambda>p. (- confidence p, - int (ord p))" and ?s = "sort_proposals ps"
  show m: "mset ?s = mset ps" by (simp add: sort_proposals_def)
  have "sorted (map ?k ?s)" unfolding sort_proposals_def by (rule sorted_sort_key)
  then have le: "sorted_wrt (\<lambda>a b. ?k a \<le> ?k b) ?s" by (simp add: sorted_map)
  have "mset (map ord ?s) = mset (map ord ps)" using m by simp
  then have "distinct (map ord ?s)" using assms by (metis mset_eq_imp_distinct_iff)
  then have ne: "ord (?s ! i) \<noteq> ord (?s ! j)" if "i < j" "j < length ?s" for i j
    using that by (auto simp: distinct_conv_nth)
  have "outranks (?s ! i) (?s ! j)" if "i < j" "j < length ?s" for i j
    using sorted_wrt_nth_less [OF le that] ne [OF that] by (auto simp: outranks_def less_eq_prod_def)
  then show "sorted_wrt outranks ?s" by (simp add: sorted_wrt_iff_nth_less)
qed

lemma keep_best_ranked:
  assumes "distinct (map ord ps)"
  shows "best_ranked n ps (sort_and_keep_at_most_top_n ps n)"
proof -
  note s = sort_proposals_ranked [OF assms]
  have len: "length (sort_proposals ps) = length ps" using s(2) by (rule mset_eq_length)
  have "sort_and_keep_at_most_top_n ps n = take n (sort_proposals ps)"
    by (simp add: sort_and_keep_at_most_top_n_def len)
  moreover have "mset ps = mset (take n (sort_proposals ps)) + mset (drop n (sort_proposals ps))"
    using s(2) by (metis append_take_drop_id mset_append)
  ultimately show ?thesis unfolding best_ranked_def using s(1) len
    by (intro conjI exI [of _ "drop n (sort_proposals ps)"]) (simp_all add: min.commute)
qed

section \<open>Rows\<close>

definition roi_row :: "simpler_nms_roi_t \<Rightarrow> f32 list" where
  "roi_row r = [0, x0 r, y0 r, x1 r, y1 r]"

lemma length_roi_rows: "length (concat (map roi_row rs)) = 5 * length rs"
  by (induction rs) (simp_all add: roi_row_def)

lemma write_rois_ok:
  assumes "5 * length res \<le> length dst" "length dst \<le> 2 ^ 31"
  shows "\<exists>out. write_rois res dst = Some out \<and> seg 0 (concat (map roi_row res)) out \<and> same_outside 0 (5 * int (length res)) dst out"
proof -
  let ?n = "int (length res)"
  let ?P = "\<lambda>i d. 0 \<le> i \<and> seg 0 (concat (map roi_row (take (nat i) res))) d \<and> same_outside 0 (5 * ?n) dst d"
  have "\<exists>out. write_rois res dst = Some out \<and> ?P ?n out"
    unfolding write_rois_def
  proof (rule for_loop_inv [where P = ?P])
    show "?P 0 dst" by (simp add: seg_Nil)
    fix i d assume i: "0 \<le> i" "i < ?n" and P: "?P i d"
    then have len: "length d = length dst" using same_outside_length by blast
    let ?row = "roi_row (res ! nat i)"
    have b: "5 * i + int (length ?row) \<le> int (length d)" "length d \<le> 2 ^ 31" using assms len i by (simp_all add: roi_row_def)
    have i5: "0 \<le> 5 * i" using i by simp
    obtain d' where d': "st_run d (5 * i) ?row = Some d'" "seg (5 * i) ?row d'" "same_outside (5 * i) (5 * i + int (length ?row)) d d'"
      using st_run_seg [OF i5 order_refl b] by blast
    have l: "int (length (concat (map roi_row (take (nat i) res)))) = 5 * i" using i by (simp add: length_roi_rows)
    have "seg 0 (concat (map roi_row (take (nat i) res))) d'"
      using P l by (intro seg_same_outside [OF _ d'(3)]) simp_all
    with d'(2) l have "seg 0 (concat (map roi_row (take (nat i) res)) @ ?row) d'" by (intro seg_append) simp_all
    moreover have "take (nat (i + 1)) res = take (nat i) res @ [res ! nat i]"
      using i by (simp add: nat_add_distrib take_Suc_conv_app_nth)
    moreover have "same_outside 0 (5 * ?n) d d'"
      using d'(3) i by (auto simp: same_outside_def roi_row_def)
    ultimately show "\<exists>d'. (let r = res ! nat i in st_run d (5 * i) [0, x0 r, y0 r, x1 r, y1 r]) = Some d' \<and> ?P (i + 1) d'"
      using d'(1) P i same_outside_trans by (intro exI [of _ d']) (auto simp: roi_row_def Let_def)
  qed simp
  then show ?thesis by simp
qed

section \<open>Properties\<close>

definition simpler_rows :: "simpler_nms \<Rightarrow> simpler_nms_proposal_t list \<Rightarrow> simpler_nms_roi_t list" where
  "simpler_rows P best = take (nat (snms_post_nms_topn P))
     (greedy (snms_overlaps (snms_iou_threshold P)) (map roi (filter (\<lambda>p. 0 < confidence p) best)))"

text \<open>C10. With maps of the sizes the network description gives and at least nine anchors, the layer stays inside its buffers. The
  proposals are the anchors moved by their deltas that are large enough, numbered in the order of positions, and all
  lie in the image. The best \<open>pre_nms_topn\<close> of them by confidence, a tie going to the later, are suppressed
  greedily, without those of no confidence, and at most \<open>post_nms_topn\<close> boxes are written as rows from the
  start of the output; what lies behind the rows is left as it was.\<close>

theorem simpler_nms_rows:
  assumes dims: "in_dims = [[n0, c0, h0, w0], [n1, c1, h1, w1], d2]" "inputs = [m0, m1, im_info]"
    and sel: "(cls, delta, H, W) = (if c1 < c0 then (m1, m0, int h1, int w1) else (m0, m1, int h0, int w0))"
    and info: "3 \<le> length im_info" "length im_info \<le> 2 ^ 31" "f2i (im_info ! 0) = Some IH" "f2i (im_info ! 1) = Some IW" "f2i (im_info ! 2) = Some IS"
    and img: "1 \<le> IW" "IW \<le> 2 ^ 23" "1 \<le> IH" "IH \<le> 2 ^ 23" "int_ok (snms_min_box_size P * IS)"
    and maps: "snms_maps_ok P cls delta H W"
    and out: "0 < snms_post_nms_topn P" "5 * snms_post_nms_topn P \<le> int (length dst)" "length dst \<le> 2 ^ 31"
  shows "\<exists>pick best dst'.
    (\<forall>y \<in> {0..<H}. \<forall>x \<in> {0..<W}. \<forall>a \<in> {0..<9}. roi_inside IH IW (fst (pick y x a)) \<and>
       proposal_of expd P cls delta H W IH IW (snms_min_box_size P * IS) y x a = Some (pick y x a)) \<and>
    best_ranked (nat (snms_pre_nms_topn P mod 2 ^ 64)) (candidates pick H W) best \<and>
    simpler_nms_execute expd P in_dims inputs dst = Some (OK, dst') \<and>
    seg 0 (concat (map roi_row (simpler_rows P best))) dst' \<and> same_outside 0 (5 * int (length (simpler_rows P best))) dst dst'"
proof -
  let ?m = "snms_min_box_size P * IS" and ?pre = "nat (snms_pre_nms_topn P mod 2 ^ 64)"
  define pick where "pick y x a = the (proposal_of expd P cls delta H W IH IW ?m y x a)" for y x a
  have pick: "proposal_of expd P cls delta H W IH IW ?m y x a = Some (pick y x a)" "roi_inside IH IW (fst (pick y x a))"
    if i: "0 \<le> y" "y < H" "0 \<le> x" "x < W" "0 \<le> a" "a < 9" for y x a
  proof -
    obtain r cf big where "proposal_of expd P cls delta H W IH IW ?m y x a = Some (r, cf, big)" "roi_inside IH IW r"
      by (rule proposal_of_ok [OF maps i img(1-4)])
    then show "proposal_of expd P cls delta H W IH IW ?m y x a = Some (pick y x a)" "roi_inside IH IW (fst (pick y x a))"
      by (simp_all add: pick_def)
  qed
  define best where "best = sort_and_keep_at_most_top_n (candidates pick H W) ?pre"
  have c: "collect_proposals expd P cls delta H W IH IW ?m = Some (candidates pick H W)" by (rule collect_ok) (rule pick(1))
  have ranked: "best_ranked ?pre (candidates pick H W) best"
    unfolding best_def by (rule keep_best_ranked) (simp add: candidates_def distinct_ord)
  have rows: "simpler_nms_perform_nms best (snms_iou_threshold P) (nat (snms_post_nms_topn P)) = simpler_rows P best"
    using out(1) by (simp add: perform_nms_greedy simpler_rows_def Let_def)
  have "length (simpler_rows P best) \<le> nat (snms_post_nms_topn P)" by (simp add: simpler_rows_def)
  then have "5 * length (simpler_rows P best) \<le> length dst" using out by linarith
  then obtain dst' where w: "write_rois (simpler_rows P best) dst = Some dst'" "seg 0 (concat (map roi_row (simpler_rows P best))) dst'"
    "same_outside 0 (5 * int (length (simpler_rows P best))) dst dst'" using write_rois_ok out(3) by blast
  have im: "ld im_info 0 = Some (im_info ! 0)" "ld im_info 1 = Some (im_info ! 1)" "ld im_info 2 = Some (im_info ! 2)"
    using info(1,2) by (auto simp: ld_def int_ok_def)
  have "simpler_nms_execute expd P in_dims inputs dst = Some (OK, dst')"
  proof (cases "c1 < c0")
    case True
    with sel have "cls = m1" "delta = m0" "H = int h1" "W = int w1" by simp_all
    then show ?thesis using True c im info(3-5) img(5) rows w(1) out(1)
      by (simp add: simpler_nms_execute_def dims best_def Let_def)
  next
    case False
    with sel have "cls = m0" "delta = m1" "H = int h0" "W = int w0" by simp_all
    then show ?thesis using False c im info(3-5) img(5) rows w(1) out(1)
      by (simp add: simpler_nms_execute_def dims best_def Let_def)
  qed
  then show ?thesis using pick ranked w(2,3) by (intro exI [of _ pick] exI [of _ best] exI [of _ dst']) auto
qed

definition demo_snms :: simpler_nms where
  "demo_snms = \<lparr>snms_min_box_size = 2, snms_feat_stride = 16, snms_pre_nms_topn = 4, snms_post_nms_topn = 2, snms_iou_threshold = 1 / 2,
     snms_scales = [1, 2, 3], snms_ratios = [1 / 2, 1, 2],
     snms_anchors = replicate 9 \<lparr>start_x = 0, start_y = 0, end_x = 7, end_y = 7\<rparr>\<rparr>"

theorem simpler_nms_rows_witness:
  "\<exists>pick best dst'.
    (\<forall>y \<in> {0..<1}. \<forall>x \<in> {0..<1}. \<forall>a \<in> {0..<9}. roi_inside 32 32 (fst (pick y x a)) \<and>
       proposal_of (\<lambda>_. 1) demo_snms (replicate 18 (1 / 2)) (replicate 36 0) 1 1 32 32 (snms_min_box_size demo_snms * 1) y x a = Some (pick y x a)) \<and>
    best_ranked (nat (snms_pre_nms_topn demo_snms mod 2 ^ 64)) (candidates pick 1 1) best \<and>
    simpler_nms_execute (\<lambda>_. 1) demo_snms [[1, 36, 1, 1], [1, 18, 1, 1], [1, 3]] [replicate 36 0, replicate 18 (1 / 2), [32, 32, 1]] (replicate 10 7) = Some (OK, dst') \<and>
    seg 0 (concat (map roi_row (simpler_rows demo_snms best))) dst' \<and>
    same_outside 0 (5 * int (length (simpler_rows demo_snms best))) (replicate 10 7) dst'"
  by (rule simpler_nms_rows [OF refl refl])
    (simp_all add: demo_snms_def snms_maps_ok_def int_ok_def f2i_def ctrunc_def)

text \<open>A network with fewer than three scales.\<close>

lemma length_MakeAnchors [simp]: "length (MakeAnchors ws hs x y) = min (length ws) (length hs)"
  by (simp add: MakeAnchors_def)

lemma length_GenerateAnchors: "length (GenerateAnchors sqrtd b ratios scales) = length ratios * length scales"
proof -
  have "length (CalcAnchors a scales) = length scales" for a by (simp add: CalcAnchors_def split_beta)
  then have "length (concat (map (\<lambda>r. CalcAnchors r scales) as)) = length as * length scales" for as by (induction as) simp_all
  moreover have "length (CalcRatioAnchors sqrtd a ratios) = length ratios" for a by (simp add: CalcRatioAnchors_def Let_def split_beta)
  ultimately show ?thesis by (simp add: GenerateAnchors_def Let_def)
qed

lemma simpler_nms_new_anchors:
  assumes "simpler_nms_new sqrtd l = Some (e, Some P)"
  shows "length (snms_anchors P) = 3 * length (floats_param l ''scale'')"
  using assms length_GenerateAnchors [of sqrtd 16 "[1 / 2, 1, 2]" "floats_param l ''scale''"]
  by (auto simp: simpler_nms_new_def construct_def Let_def try_with_Inr split: sum.splits if_splits option.splits)

lemma collect_undefined:
  assumes "0 < H" "0 < W" "length (snms_anchors P) < 9"
  shows "collect_proposals expd P cls delta H W IH IW m = None"
proof -
  have "ld (snms_anchors P) (int (length (snms_anchors P))) = None" by (simp add: ld_def)
  then have "proposal_of expd P cls delta H W IH IW m y x (int (length (snms_anchors P))) = None" for y x
    by (auto simp: proposal_of_def Let_def split: bind_splits)
  then show ?thesis unfolding collect_proposals_def
    using assms by (intro for_loop_undefined [where i = 0] for_loop_undefined [where i = "int (length (snms_anchors P))"]) auto
qed

text \<open>The loop over the anchors assumes three scales: a layer built from a description with fewer reads past its
  anchors at the first position of any map that is not empty.\<close>

theorem simpler_scales_overrun:
  assumes "simpler_nms_new sqrtd l = Some (e, Some P)" and "length (floats_param l ''scale'') < 3"
    and "in_dims = [[n0, c0, h0, w0], [n1, c1, h1, w1], d2]" and "0 < h0" "0 < w0" "0 < h1" "0 < w1"
  shows "simpler_nms_execute expd P in_dims inputs dst = None"
proof -
  have "length (snms_anchors P) < 9" using simpler_nms_new_anchors [OF assms(1)] assms(2) by simp
  then have "collect_proposals expd P cls delta (int h) (int w) IH IW m = None" if "0 < h" "0 < w" for cls delta h w IH IW m
    using that by (intro collect_undefined) simp_all
  then show ?thesis using assms(3-) by (auto simp: simpler_nms_execute_def Let_def split: bind_splits)
qed

definition demo_two_scales :: cnn_layer where
  "demo_two_scales = (demo_layer [demo_port [1, 18, 1, 1], demo_port [1, 36, 1, 1], demo_port [1, 3]] [demo_port [10, 5]])
     \<lparr>floats_param := (\<lambda>_. [8, 16])\<rparr>"

theorem simpler_scales_overrun_witness:
  "\<exists>e P. simpler_nms_new (\<lambda>x. x) demo_two_scales = Some (e, Some P) \<and>
     simpler_nms_execute (\<lambda>_. 1) P [[1, 18, 1, 1], [1, 36, 1, 1], [1, 3]] [replicate 18 (1 / 2), replicate 36 0, [32, 32, 1]] (replicate 10 7) = None"
proof -
  obtain e P where "simpler_nms_new (\<lambda>x. x) demo_two_scales = Some (e, Some P)"
    by (simp add: simpler_nms_new_def demo_two_scales_def demo_layer_def demo_port_def construct_def addConfig_def fill_port_def conf_def Let_def)
  moreover from this have "simpler_nms_execute (\<lambda>_. 1) P [[1, 18, 1, 1], [1, 36, 1, 1], [1, 3]] [replicate 18 (1 / 2), replicate 36 0, [32, 32, 1]] (replicate 10 7) = None"
    by (rule simpler_scales_overrun [OF _ _ refl]) (simp_all add: demo_two_scales_def)
  ultimately show ?thesis by blast
qed

end
