(* ===== verification/Resample.thy ===== *)
theory Resample
  imports LayerBase
begin

text \<open>
  \<^verbatim>\<open>extension/ext_resample.cpp\<close>: the layer that changes the size of its input planes, by the nearest pixel or with
  a triangular kernel. A build with SSE or AVX2 (\<open>simd\<close>) has kernels of its own for an output four times as wide and high as
  the input. The one for the nearest pixel is modelled like the portable ones; the triangular one reads
  the element before its input first of all, which is undefined, and nothing of it after that.
  The factor is input size over output size; a sample is taken at the centre of the output pixel, but the
  half pixel that is added to the column comes from the vertical factor and the one of the row from the
  horizontal factor, so the positions are right only when the two factors agree.
\<close>

record resample =
  rs_type :: string
  antialias :: bool

definition resample_new :: "cnn_layer \<Rightarrow> ext_layer \<times> resample option" where
  "resample_new l = construct (
     if length (ins_data l) \<noteq> 1 \<or> out_data l = [] then Inl ''Incorrect number of input/output edges!''
     else case string_param l ''type'' of None \<Rightarrow> Inl ''No such parameter name type''
       | Some t \<Rightarrow> try_with (int_param l ''antialias'') (\<lambda>a. try_with (addConfig l [conf PLN] [conf PLN] False) (\<lambda>c.
           Inr (\<lparr>rs_type = t, antialias = (a \<noteq> 0)\<rparr>, c))))"

section \<open>Kernels\<close>

text \<open>The position of a sample along one axis: the factor of the axis and the one its half pixel is taken from.\<close>

definition sample_at :: "f32 \<Rightarrow> f32 \<Rightarrow> int \<Rightarrow> f32" where
  "sample_at f g o1 = fsub (fadd (fmul (i2f o1) f) (fdiv g 2)) (1 / 2)"

text \<open>Conversion to \<^verbatim>\<open>size_t\<close>, undefined for a negative number.\<close>

definition to_size :: "f32 \<Rightarrow> int option" where
  "to_size x = (if x \<le> - 1 then None else Some (ctrunc x))"

definition NearestNeighborKernel :: "f32 list \<Rightarrow> int \<Rightarrow> int \<Rightarrow> f32 \<Rightarrow> f32 \<Rightarrow> f32 list \<Rightarrow> int \<Rightarrow> int \<Rightarrow> int \<Rightarrow> int \<Rightarrow> f32 list option" where
  "NearestNeighborKernel src iw ih fx fy dst ow oh channels batch =
     for_loop 0 batch (\<lambda>b. for_loop 0 channels (\<lambda>c. for_loop 0 oh (\<lambda>oy. for_loop 0 ow (\<lambda>ox d. do {
       ix_r \<leftarrow> to_size (roundf (sample_at fx fy ox));
       iy_r \<leftarrow> to_size (roundf (sample_at fy fx oy));
       v \<leftarrow> ld src (iw * ih * channels * b + iw * ih * c + (iy_r * iw + ix_r));
       st d (ow * oh * channels * b + ow * oh * c + (oy * ow + ox)) v })))) dst"

definition Upsample2x_Nearest :: "f32 list \<Rightarrow> int \<Rightarrow> int \<Rightarrow> f32 list \<Rightarrow> int \<Rightarrow> int \<Rightarrow> int \<Rightarrow> int \<Rightarrow> f32 list option" where
  "Upsample2x_Nearest src iw ih dst ow oh channels batch =
     for_loop 0 batch (\<lambda>b. for_loop 0 channels (\<lambda>c. for_loop 0 ih (\<lambda>iy. for_loop 0 iw (\<lambda>ix d. do {
       let base = ow * oh * channels * b + ow * oh * c;
       let oy = 2 * iy;
       let ox = 2 * ix;
       v \<leftarrow> ld src (iw * ih * channels * b + iw * ih * c + (iy * iw + ix));
       d1 \<leftarrow> st d (base + ((oy + 0) * ow + ox + 0)) v;
       d2 \<leftarrow> st d1 (base + ((oy + 0) * ow + ox + 1)) v;
       d3 \<leftarrow> st d2 (base + ((oy + 1) * ow + ox + 0)) v;
       st d3 (base + ((oy + 1) * ow + ox + 1)) v })))) dst"

text \<open>The kernel of the SSE and AVX2 builds: the last argument of the innermost loop is the lane of the store. For a width
  below 4 the bound of the loop over columns, \<^verbatim>\<open>ow - 4\<close>, wraps around and the loop leaves the output.\<close>

definition Upsample4x_Nearest :: "f32 list \<Rightarrow> int \<Rightarrow> int \<Rightarrow> f32 \<Rightarrow> f32 \<Rightarrow> f32 list \<Rightarrow> int \<Rightarrow> int \<Rightarrow> int \<Rightarrow> int \<Rightarrow> f32 list option" where
  "Upsample4x_Nearest src iw ih fx fy dst ow oh channels batch =
     for_loop 0 batch (\<lambda>b. for_loop 0 channels (\<lambda>c. for_loop 0 oh (\<lambda>oy. if ow < 4 then \<lambda>d. None else for_loop 0 (ow div 4) (\<lambda>q d. do {
       let ox = 4 * q;
       ix_r \<leftarrow> to_size (roundf (sample_at fx fy ox));
       iy_r \<leftarrow> to_size (roundf (sample_at fy fx oy));
       v \<leftarrow> ld src (iw * ih * channels * b + iw * ih * c + (iy_r * iw + ix_r));
       for_loop 0 4 (\<lambda>p d. st d (ow * oh * channels * b + ow * oh * c + (oy * ow + (ox + p))) v) d })))) dst"

text \<open>The triangular kernel of these builds starts every plane at its first row and column, with a load of the
  element to the left of the sample. The rest of a plane follows only after that load.\<close>

definition Upsample4x_first_loads :: "f32 list \<Rightarrow> int \<Rightarrow> int \<Rightarrow> f32 \<Rightarrow> f32 \<Rightarrow> f32 list \<Rightarrow> int \<Rightarrow> int \<Rightarrow> f32 list option" where
  "Upsample4x_first_loads src iw ih fx fy dst channels batch =
     for_loop 0 batch (\<lambda>b. for_loop 0 channels (\<lambda>c d. do {
       iy_r \<leftarrow> to_size (roundf (sample_at fy fx 0));
       ix_r \<leftarrow> to_size (roundf (sample_at fx fy 0));
       _ \<leftarrow> ld src (b * channels * iw * ih + c * iw * ih + ((iy_r + 0) * iw + ix_r - 1));
       Some d })) dst"

definition triangleCoeff :: "f32 \<Rightarrow> f32" where
  "triangleCoeff x = max 0 (fsub 1 \<bar>x\<bar>)"

text \<open>One output value of the triangular kernel: \<open>off\<close> is the start of the input plane.\<close>

definition kernel_sums :: "f32 list \<Rightarrow> int \<Rightarrow> int \<Rightarrow> int \<Rightarrow> f32 \<Rightarrow> f32 \<Rightarrow> f32 \<Rightarrow> f32 \<Rightarrow> int \<Rightarrow> int \<Rightarrow> int \<Rightarrow> int \<Rightarrow> (f32 \<times> f32) option" where
  "kernel_sums src off iw ih ix iy ax ay ix_r iy_r rx ry =
     for_loop (iy_r - ry) (iy_r + ry + 1) (\<lambda>y. for_loop (ix_r - rx) (ix_r + rx + 1) (\<lambda>x (s, ws).
       if y < 0 \<or> x < 0 \<or> ih \<le> y \<or> iw \<le> x then Some (s, ws)
       else do {
         let w = fmul (fmul (fmul ax (triangleCoeff (fmul ax (fsub ix (i2f x))))) ay) (triangleCoeff (fmul ay (fsub iy (i2f y))));
         v \<leftarrow> ld src (off + (y * iw + x));
         Some (fadd s (fmul w v), fadd ws w) })) (0, 0)"

definition kernel_value :: "f32 list \<Rightarrow> int \<Rightarrow> int \<Rightarrow> int \<Rightarrow> f32 \<Rightarrow> f32 \<Rightarrow> int \<Rightarrow> bool \<Rightarrow> int \<Rightarrow> int \<Rightarrow> f32 option" where
  "kernel_value src off iw ih fx fy kernel_width aa oy ox = do {
     let ix = sample_at fx fy ox;
     let iy = sample_at fy fx oy;
     ix_r \<leftarrow> f2i (roundf ix);
     iy_r \<leftarrow> f2i (roundf iy);
     let ax = fdiv 1 (if aa then fx else 1);
     let ay = fdiv 1 (if aa then fy else 1);
     rx \<leftarrow> (if fx < 1 then Some 2 else f2i (of_int \<lceil>fdiv (i2f kernel_width) ax\<rceil>));
     ry \<leftarrow> (if fy < 1 then Some 2 else f2i (of_int \<lceil>fdiv (i2f kernel_width) ay\<rceil>));
     if \<not> (int_ok (iy_r - ry) \<and> int_ok (iy_r + ry + 1) \<and> int_ok (ix_r - rx) \<and> int_ok (ix_r + rx + 1)) then None
     else do {
       (s, ws) \<leftarrow> kernel_sums src off iw ih ix iy ax ay ix_r iy_r rx ry;
       Some (if ws = 0 then 0 else fdiv s ws) } }"

definition InterpolationKernel :: "f32 list \<Rightarrow> int \<Rightarrow> int \<Rightarrow> f32 \<Rightarrow> f32 \<Rightarrow> f32 list \<Rightarrow> int \<Rightarrow> int \<Rightarrow> int \<Rightarrow> int \<Rightarrow> int \<Rightarrow> bool \<Rightarrow> f32 list option" where
  "InterpolationKernel src iw ih fx fy dst ow oh channels batch kernel_width aa =
     for_loop 0 batch (\<lambda>b. for_loop 0 channels (\<lambda>c. for_loop 0 oh (\<lambda>oy. for_loop 0 ow (\<lambda>ox d. do {
       v \<leftarrow> kernel_value src (iw * ih * channels * b + iw * ih * c) iw ih fx fy kernel_width aa oy ox;
       st d (ow * oh * channels * b + ow * oh * c + (oy * ow + ox)) v })))) dst"

section \<open>The layer\<close>

definition resample_nearest_type :: string where
  "resample_nearest_type = ''caffe.ResampleParameter.NEAREST''"

definition resample_linear_type :: string where
  "resample_linear_type = ''caffe.ResampleParameter.LINEAR''"

definition resample_execute :: "bool \<Rightarrow> resample \<Rightarrow> nat list \<Rightarrow> nat list \<Rightarrow> f32 list \<Rightarrow> f32 list \<Rightarrow> (status_code \<times> f32 list) option" where
  "resample_execute simd P in_dims out_dims src dst =
     (if length in_dims < 4 \<or> length out_dims < 4 then None
      else
        let batch = int (in_dims ! 0); channels = int (in_dims ! 1); ih = int (in_dims ! 2); iw = int (in_dims ! 3);
            oh = int (out_dims ! 2); ow = int (out_dims ! 3);
            fx = fdiv (i2f iw) (i2f ow); fy = fdiv (i2f ih) (i2f oh);
            isDownsample = (1 < fx \<or> 1 < fy)
        in if iw = ow \<and> ih = oh \<and> rs_type P = resample_linear_type then do {
             run \<leftarrow> ld_run src 0 (batch * channels * ih * iw);
             d \<leftarrow> st_run dst 0 run;
             Some (OK, d) }
           else if rs_type P = resample_nearest_type then do {
             d \<leftarrow> (if simd \<and> \<not> isDownsample \<and> fx = 1 / 4 \<and> fy = 1 / 4
                   then Upsample4x_Nearest src iw ih fx fy dst ow oh channels batch
                   else if \<not> isDownsample \<and> fx = 1 / 2 \<and> fy = 1 / 2
                   then Upsample2x_Nearest src iw ih dst ow oh channels batch
                   else NearestNeighborKernel src iw ih fx fy dst ow oh channels batch);
             Some (OK, d) }
           else if rs_type P = resample_linear_type then do {
             d \<leftarrow> (if simd \<and> \<not> isDownsample \<and> fx = 1 / 4 \<and> fy = 1 / 4
                   then Upsample4x_first_loads src iw ih fx fy dst channels batch
                   else InterpolationKernel src iw ih fx fy dst ow oh channels batch 2 (isDownsample \<and> antialias P));
             Some (OK, d) }
           else Some (OK, dst))"

end
