(* ===== verification/ResampleFacts.thy ===== *)
theory ResampleFacts
  imports Resample
begin

text \<open>
  Nearest resampling takes, for every output pixel, an input pixel whose centre lies within half a pixel (and the
  rounding errors) of the centre of the output pixel, as long as both directions have the same factor. When
  only the width shrinks it reads behind the input.
\<close>

section \<open>Positions\<close>

text \<open>The exact position of an output pixel in the input, and what the nearest pixel has to satisfy.\<close>

definition centre :: "int \<Rightarrow> int \<Rightarrow> int \<Rightarrow> rat" where
  "centre i1 o1 k = (of_int k + 1 / 2) * (of_int i1 / of_int o1) - 1 / 2"

definition nearest_to :: "int \<Rightarrow> int \<Rightarrow> int \<Rightarrow> int \<Rightarrow> bool" where
  "nearest_to i1 o1 k r \<longleftrightarrow> 0 \<le> r \<and> r < i1 \<and> \<bar>of_int r - centre i1 o1 k\<bar> \<le> 1 / 2 + 1 / 128"

lemma roundf_range:
  assumes "- (1 / 2) < x" "x < of_int n - 1 / 2"
  shows "\<exists>r. roundf x = of_int r \<and> 0 \<le> r \<and> r < n"
proof (cases "x < 0")
  case True
  then have f: "\<lfloor>- x + 1 / 2\<rfloor> = 0" using assms(1) by (simp add: floor_eq_iff)
  have "- (1 / 2) < of_int n - (1 / 2 :: rat)" using assms by linarith
  then have "0 < n" by simp
  then show ?thesis using True f by (intro exI [of _ 0]) (simp add: roundf_def)
next
  case False
  then have "0 \<le> \<lfloor>x + 1 / 2\<rfloor>" by simp
  moreover have "\<lfloor>x + 1 / 2\<rfloor> < n" using assms(2) by (simp add: floor_less_iff)
  ultimately show ?thesis using False by (simp add: roundf_def)
qed

lemma to_size_of_int: "0 \<le> r \<Longrightarrow> to_size (of_int r) = Some r"
  by (simp add: to_size_def)

text \<open>The computed sum before the last step, with the relative errors of its four roundings.\<close>

lemma sample_sum:
  fixes K r f :: rat
  assumes "0 \<le> K" "0 \<le> r" and f: "f = rnd 24 r"
  defines "s \<equiv> fadd (fmul K f) (fdiv f 2)"
  shows "s \<le> (K + 1 / 2) * r * (1 + 4 / 2 ^ 24)" "(K + 1 / 2) * r * (1 - 4 / 2 ^ 24) \<le> s" "0 \<le> s"
proof -
  define u :: rat where "u = 1 / 2 ^ 24"
  have u: "0 < u" "u < 1" by (simp_all add: u_def)
  note rb = rel_bounds [folded u_def]
  have f: "f \<le> r * (1 + u)" "r * (1 - u) \<le> f" "0 \<le> f"
    using rb [OF assms(2)] assms(2) by (simp_all add: f rnd_nonneg)
  define a where "a = fmul K f"
  define h where "h = fdiv f 2"
  have nn: "0 \<le> K * f" "0 \<le> f / 2" using assms f by simp_all
  have a: "a \<le> K * f * (1 + u)" "K * f * (1 - u) \<le> a" "0 \<le> a"
    using rb [OF nn(1)] nn(1) by (simp_all add: a_def fmul_def rnd_nonneg)
  have h: "h \<le> f / 2 * (1 + u)" "f / 2 * (1 - u) \<le> h" "0 \<le> h"
    using rb [OF nn(2)] nn(2) by (simp_all add: h_def fdiv_def rnd_nonneg)
  have ah: "0 \<le> a + h" using a h by simp
  have s: "s \<le> (a + h) * (1 + u)" "(a + h) * (1 - u) \<le> s" "0 \<le> s"
    using rb [OF ah] ah by (simp_all add: s_def a_def [symmetric] h_def [symmetric] fadd_def rnd_nonneg)
  show "0 \<le> s" by (rule s(3))
  define q where "q = K + 1 / 2"
  have q: "0 \<le> q" "0 \<le> q * r" using assms by (simp_all add: q_def)
  have e: "K * f * x + f / 2 * x = q * f * x" for x by (simp add: q_def algebra_simps)
  have "s \<le> q * r * (1 + u) * (1 + u) * (1 + u)"
  proof -
    have "a + h \<le> q * f * (1 + u)" using a(1) h(1) e [of "1 + u"] by linarith
    also have "\<dots> \<le> q * (r * (1 + u)) * (1 + u)" using f q u by (intro mult_right_mono mult_left_mono) simp_all
    finally have "(a + h) * (1 + u) \<le> q * (r * (1 + u)) * (1 + u) * (1 + u)" using u by (intro mult_right_mono) simp_all
    with s(1) show ?thesis by (simp only: mult.assoc)
  qed
  also have "\<dots> = q * r * ((1 + u) * (1 + u) * (1 + u))" by (simp only: mult.assoc)
  also have "\<dots> \<le> q * r * (1 + 4 / 2 ^ 24)" using q by (intro mult_left_mono) (simp_all add: u_def)
  finally show "s \<le> (K + 1 / 2) * r * (1 + 4 / 2 ^ 24)" by (simp only: q_def)
  have "q * r * (1 - 4 / 2 ^ 24) \<le> q * r * ((1 - u) * (1 - u) * (1 - u))" using q by (intro mult_left_mono) (simp_all add: u_def)
  also have "\<dots> = q * (r * (1 - u)) * (1 - u) * (1 - u)" by (simp only: mult.assoc)
  also have "\<dots> \<le> q * f * (1 - u) * (1 - u)" using f q u by (intro mult_right_mono mult_left_mono) simp_all
  also have "\<dots> \<le> (a + h) * (1 - u)"
    using a(2) h(2) e [of "1 - u"] u by (intro mult_right_mono) linarith+
  finally show "(K + 1 / 2) * r * (1 - 4 / 2 ^ 24) \<le> s" using s(2) unfolding q_def by linarith
qed

text \<open>The computed position is close to the exact one and stays clear of the borders.\<close>

lemma sample_bounds:
  assumes i: "1 \<le> i1" "i1 \<le> 2 ^ 12" and n: "1 \<le> o1" "o1 \<le> 2 ^ 12" and k: "0 \<le> k" "k < o1"
  defines "f \<equiv> fdiv (i2f i1) (i2f o1)"
  shows "- (1 / 2) < sample_at f f k" "sample_at f f k < of_int i1 - 1 / 2" "\<bar>sample_at f f k - centre i1 o1 k\<bar> \<le> 1 / 128"
proof -
  define I :: rat where "I = of_int i1"
  define r :: rat where "r = of_int i1 / of_int o1"
  define K :: rat where "K = of_int k"
  have ex: "i2f i1 = of_int i1" "i2f o1 = of_int o1" "i2f k = K" using i n k by (simp_all add: i2f_exact K_def)
  have "of_int i1 \<le> (of_int (2 ^ 12) :: rat)" using i by (simp only: of_int_le_iff)
  then have I: "1 \<le> I" "I \<le> 4096" using i by (simp_all add: I_def)
  have ro: "r * of_int o1 = I" using n by (simp add: r_def I_def)
  have o: "1 \<le> (of_int o1 :: rat)" "(of_int o1 :: rat) \<le> 4096"
  proof -
    have "of_int o1 \<le> (of_int (2 ^ 12) :: rat)" using n by (simp only: of_int_le_iff)
    then show "1 \<le> (of_int o1 :: rat)" "(of_int o1 :: rat) \<le> 4096" using n by simp_all
  qed
  have r: "0 < r" "I \<le> r * 4096"
  proof -
    show "0 < r" using i n by (simp add: r_def)
    then have "r * of_int o1 \<le> r * 4096" using o by (intro mult_left_mono) simp_all
    then show "I \<le> r * 4096" by (simp only: ro)
  qed
  define p where "p = (K + 1 / 2) * r"
  have K: "0 \<le> K" "K + 1 / 2 \<le> of_int o1 - 1 / 2"
  proof -
    show "0 \<le> K" using k by (simp add: K_def)
    have "of_int (k + 1) \<le> (of_int o1 :: rat)" using k by (simp only: of_int_le_iff)
    then show "K + 1 / 2 \<le> of_int o1 - 1 / 2" by (simp add: K_def)
  qed
  have p: "p \<le> I - r / 2" "r / 2 \<le> p"
  proof -
    have "p \<le> (of_int o1 - 1 / 2) * r" unfolding p_def using K r by (intro mult_right_mono) simp_all
    then show "p \<le> I - r / 2" using ro by (simp add: algebra_simps)
    have "1 / 2 * r \<le> p" unfolding p_def using K r by (intro mult_right_mono) simp_all
    then show "r / 2 \<le> p" by simp
  qed
  define s where "s = fadd (fmul K f) (fdiv f 2)"
  have f: "f = rnd 24 r" by (simp add: f_def ex fdiv_def r_def)
  have s: "s \<le> p * (1 + 4 / 2 ^ 24)" "p * (1 - 4 / 2 ^ 24) \<le> s" "0 \<le> s"
    using sample_sum [OF K(1) _ f] r unfolding s_def p_def by simp_all
  have ps: "s \<le> p + p / 4194304" "p - p / 4194304 \<le> s" using s(1,2) by (simp_all add: algebra_simps)
  define t where "t = sample_at f f k"
  have t: "t = rnd 24 (s - 1 / 2)" by (simp add: t_def sample_at_def fsub_def s_def ex)
  have b: "\<bar>s - 1 / 2\<bar> \<le> I" using ps s(3) p r I by linarith
  have te: "\<bar>t - (s - 1 / 2)\<bar> \<le> I / 16777216"
    using rnd_rel [of 24 "s - 1 / 2"] b unfolding t [symmetric] by simp
  have "\<bar>t - (p - 1 / 2)\<bar> \<le> 1 / 128" using te ps p r I by linarith
  then show "\<bar>sample_at f f k - centre i1 o1 k\<bar> \<le> 1 / 128" by (simp add: t_def centre_def p_def K_def r_def)
  have "t < I - 1 / 2" using te ps p r I by linarith
  then show "sample_at f f k < of_int i1 - 1 / 2" by (simp add: t_def I_def)
  have "of_int (- 8191) * 2 powi (- 14) \<le> s - 1 / 2" using ps p r I by (simp add: power_int_minus)
  then have "rnd 24 (of_int (- 8191) * 2 powi (- 14)) \<le> t" unfolding t by (intro rnd_mono) simp_all
  moreover have "rnd 24 (of_int (- 8191) * 2 powi (- 14)) = of_int (- 8191) * 2 powi (- 14)" by (rule rnd_exact) simp
  ultimately have "of_int (- 8191) * 2 powi (- 14) \<le> t" by simp
  then show "- (1 / 2) < sample_at f f k" unfolding t_def [symmetric] by (simp add: power_int_minus)
qed

lemma sample_nearest:
  assumes "1 \<le> i1" "i1 \<le> 2 ^ 12" "1 \<le> o1" "o1 \<le> 2 ^ 12" "0 \<le> k" "k < o1" and f: "f = fdiv (i2f i1) (i2f o1)"
  shows "\<exists>r. to_size (roundf (sample_at f f k)) = Some r \<and> nearest_to i1 o1 k r"
proof -
  note b = sample_bounds [OF assms(1-6), folded f]
  obtain r where r: "roundf (sample_at f f k) = of_int r" "0 \<le> r" "r < i1" using roundf_range [OF b(1,2)] by blast
  have "\<bar>of_int r - centre i1 o1 k\<bar> \<le> 1 / 2 + 1 / 128" using roundf_near [of "sample_at f f k"] b(3) r(1) by linarith
  then show ?thesis using r by (simp add: to_size_of_int nearest_to_def)
qed

section \<open>The kernels\<close>

text \<open>The value at a flat index of the output, when row and column of the source are given by functions.\<close>

definition picked :: "f32 list \<Rightarrow> int \<Rightarrow> int \<Rightarrow> int \<Rightarrow> int \<Rightarrow> (int \<Rightarrow> int) \<Rightarrow> (int \<Rightarrow> int) \<Rightarrow> int \<Rightarrow> f32" where
  "picked src ih iw oh ow ry rx k = src ! nat ((k div ow div oh * ih + ry (k div ow mod oh)) * iw + rx (k mod ow))"

lemma picked_idx:
  assumes "0 \<le> h" "h < oh" "0 \<le> w" "w < ow"
  shows "picked src ih iw oh ow ry rx (idx4 C oh ow b c h w) = src ! nat (idx4 C ih iw b c (ry h) (rx w))"
  using assms by (simp add: picked_def flat_div)

text \<open>Source and destination have the sizes that the dimensions say.\<close>

definition planes_ok :: "f32 list \<Rightarrow> f32 list \<Rightarrow> int \<Rightarrow> int \<Rightarrow> int \<Rightarrow> int \<Rightarrow> int \<Rightarrow> int \<Rightarrow> bool" where
  "planes_ok src dst B C ih iw oh ow \<longleftrightarrow> 0 \<le> B \<and> 0 \<le> C \<and> 0 \<le> ih \<and> 0 \<le> iw \<and> 0 \<le> oh \<and> 0 \<le> ow \<and>
     int (length src) = B * C * ih * iw \<and> int (length dst) = B * C * oh * ow \<and> length src \<le> 2 ^ 31 \<and> length dst \<le> 2 ^ 31"

lemma plane_index: "w * h * C * b + w * h * c + (y * w + x) = idx4 C h w b c y x"
  by (simp add: algebra_simps)

lemma src_ld:
  assumes "planes_ok src dst B C ih iw oh ow" "0 \<le> b" "b < B" "0 \<le> c" "c < C" "0 \<le> y" "y < ih" "0 \<le> x" "x < iw"
  shows "ld src (idx4 C ih iw b c y x) = Some (src ! nat (idx4 C ih iw b c y x))"
  using idx4_bound [OF assms(2-9)] assms(1) by (intro ld_in [where k = "B * C * ih * iw"]) (simp_all add: planes_ok_def)

lemma dst_st:
  assumes "planes_ok src dst B C ih iw oh ow" "0 \<le> b" "b < B" "0 \<le> c" "c < C" "0 \<le> y" "y < oh" "0 \<le> x" "x < ow"
    and "length d = length dst" "g (idx4 C oh ow b c y x) = v"
  shows "\<exists>d'. st d (idx4 C oh ow b c y x) v = Some d' \<and> wrote {idx4 C oh ow b c y x} g d d'"
proof (rule wrote_st)
  note idx4_bound [OF assms(2-9)] 
  with assms(1,10) show "0 \<le> idx4 C oh ow b c y x" "idx4 C oh ow b c y x < int (length d)" "int_ok (idx4 C oh ow b c y x)"
    by (auto simp: planes_ok_def int_ok_def)
qed (rule assms(11))

lemma nearest_kernel_ok:
  assumes pl: "planes_ok src dst B C ih iw oh ow"
    and rx: "\<And>x. 0 \<le> x \<Longrightarrow> x < ow \<Longrightarrow> to_size (roundf (sample_at fx fy x)) = Some (rx x) \<and> 0 \<le> rx x \<and> rx x < iw"
    and ry: "\<And>y. 0 \<le> y \<Longrightarrow> y < oh \<Longrightarrow> to_size (roundf (sample_at fy fx y)) = Some (ry y) \<and> 0 \<le> ry y \<and> ry y < ih"
  shows "NearestNeighborKernel src iw ih fx fy dst ow oh C B = Some (map (\<lambda>k. picked src ih iw oh ow ry rx (int k)) [0..<length dst])"
  unfolding NearestNeighborKernel_def plane_index
proof (rule nest4_wrote)
  fix b c h w :: int and d :: "f32 list"
  assume i: "0 \<le> b" "b < B" "0 \<le> c" "c < C" "0 \<le> h" "h < oh" "0 \<le> w" "w < ow" and d: "length d = length dst"
  note x = rx [OF i(7,8)] and y = ry [OF i(5,6)]
  have "ld src (idx4 C ih iw b c (ry h) (rx w)) = Some (picked src ih iw oh ow ry rx (idx4 C oh ow b c h w))"
    using src_ld [OF pl i(1-4)] x y i by (simp add: picked_idx)
  moreover obtain d' where "st d (idx4 C oh ow b c h w) (picked src ih iw oh ow ry rx (idx4 C oh ow b c h w)) = Some d'"
    "wrote {idx4 C oh ow b c h w} (picked src ih iw oh ow ry rx) d d'" using dst_st [OF pl i d refl] by blast
  ultimately show "\<exists>d'. (do { ix_r \<leftarrow> to_size (roundf (sample_at fx fy w)); iy_r \<leftarrow> to_size (roundf (sample_at fy fx h));
      v \<leftarrow> ld src (idx4 C ih iw b c iy_r ix_r); st d (idx4 C oh ow b c h w) v }) = Some d' \<and>
      wrote {idx4 C oh ow b c h w} (picked src ih iw oh ow ry rx) d d'" using x y by simp
qed (use pl in \<open>simp_all add: planes_ok_def\<close>)

lemma upsample_block:
  assumes pl: "planes_ok src dst B C ih iw (2 * ih) (2 * iw)"
    and i: "0 \<le> b" "b < B" "0 \<le> c" "c < C" "0 \<le> y" "y < ih" "0 \<le> x" "x < iw" and d: "length d = length dst"
  defines "g \<equiv> picked src ih iw (2 * ih) (2 * iw) (\<lambda>y. y div 2) (\<lambda>x. x div 2)" and "pos \<equiv> idx4 C (2 * ih) (2 * iw) b c"
  shows "\<exists>d'. (do { v \<leftarrow> ld src (idx4 C ih iw b c y x);
       d1 \<leftarrow> st d (pos (2 * y + 0) (2 * x + 0)) v; d2 \<leftarrow> st d1 (pos (2 * y + 0) (2 * x + 1)) v;
       d3 \<leftarrow> st d2 (pos (2 * y + 1) (2 * x + 0)) v; st d3 (pos (2 * y + 1) (2 * x + 1)) v }) = Some d' \<and>
     wrote {pos (2 * y + p) (2 * x + q) | p q. p \<in> {0, 1} \<and> q \<in> {0, 1}} g d d'"
proof -
  let ?v = "src ! nat (idx4 C ih iw b c y x)"
  have v: "ld src (idx4 C ih iw b c y x) = Some ?v" by (rule src_ld [OF pl i])
  have st1: "\<exists>d'. st e (pos (2 * y + p) (2 * x + q)) ?v = Some d' \<and> wrote {pos (2 * y + p) (2 * x + q)} g e d' \<and> length d' = length dst"
    if e: "length e = length dst" and pq: "p \<in> {0, 1}" "q \<in> {0, 1}" for e p q
  proof -
    have r: "0 \<le> 2 * y + p" "2 * y + p < 2 * ih" "0 \<le> 2 * x + q" "2 * x + q < 2 * iw" using i pq by auto
    have "(2 * y + p) div 2 = y" "(2 * x + q) div 2 = x" using pq by auto
    then have "g (pos (2 * y + p) (2 * x + q)) = ?v" using r by (simp only: g_def pos_def picked_idx)
    then obtain d' where "st e (pos (2 * y + p) (2 * x + q)) ?v = Some d'" "wrote {pos (2 * y + p) (2 * x + q)} g e d'"
      using dst_st [OF pl i(1-4) r e] unfolding pos_def by blast
    then show ?thesis using e wrote_length by metis
  qed
  obtain d1 where 1: "st d (pos (2 * y + 0) (2 * x + 0)) ?v = Some d1" "wrote {pos (2 * y + 0) (2 * x + 0)} g d d1" "length d1 = length dst"
    using st1 [OF d, of 0 0] by blast
  obtain d2 where 2: "st d1 (pos (2 * y + 0) (2 * x + 1)) ?v = Some d2" "wrote {pos (2 * y + 0) (2 * x + 1)} g d1 d2" "length d2 = length dst"
    using st1 [OF 1(3), of 0 1] by blast
  obtain d3 where 3: "st d2 (pos (2 * y + 1) (2 * x + 0)) ?v = Some d3" "wrote {pos (2 * y + 1) (2 * x + 0)} g d2 d3" "length d3 = length dst"
    using st1 [OF 2(3), of 1 0] by blast
  obtain d4 where 4: "st d3 (pos (2 * y + 1) (2 * x + 1)) ?v = Some d4" "wrote {pos (2 * y + 1) (2 * x + 1)} g d3 d4"
    using st1 [OF 3(3), of 1 1] by blast
  have s: "{pos (2 * y + p) (2 * x + q) | p q. p \<in> {0, 1} \<and> q \<in> {0, 1}} = {pos (2 * y + 0) (2 * x + 0)} \<union> {pos (2 * y + 0) (2 * x + 1)} \<union>
     {pos (2 * y + 1) (2 * x + 0)} \<union> {pos (2 * y + 1) (2 * x + 1)}" by blast
  have "wrote {pos (2 * y + p) (2 * x + q) | p q. p \<in> {0, 1} \<and> q \<in> {0, 1}} g d d4"
    unfolding s by (intro wrote_comp [OF wrote_comp [OF wrote_comp [OF 1(2) 2(2)] 3(2)] 4(2)])
  then show ?thesis using v 1(1) 2(1) 3(1) 4(1) by (simp only: Option.bind.simps) blast
qed

lemma upsample_ok:
  assumes pl: "planes_ok src dst B C ih iw (2 * ih) (2 * iw)"
  shows "Upsample2x_Nearest src iw ih dst (2 * iw) (2 * ih) C B =
    Some (map (\<lambda>k. picked src ih iw (2 * ih) (2 * iw) (\<lambda>y. y div 2) (\<lambda>x. x div 2) (int k)) [0..<length dst])"
proof -
  let ?g = "picked src ih iw (2 * ih) (2 * iw) (\<lambda>y. y div 2) (\<lambda>x. x div 2)" and ?at = "idx4 C (2 * ih) (2 * iw)"
  let ?T = "\<lambda>b c y x. {?at b c (2 * y + p) (2 * x + q) | p q. p \<in> {0, 1} \<and> q \<in> {0, 1}}"
  let ?S = "\<Union>b\<in>{0..<B}. \<Union>c\<in>{0..<C}. \<Union>y\<in>{0..<ih}. \<Union>x\<in>{0..<iw}. ?T b c y x"
  have pos: "2 * iw * (2 * ih) * C * b + 2 * iw * (2 * ih) * c + (y * (2 * iw) + 2 * x + p) = ?at b c y (2 * x + p)" for b c x y p
    by (simp add: algebra_simps)
  have "\<exists>d'. Upsample2x_Nearest src iw ih dst (2 * iw) (2 * ih) C B = Some d' \<and> wrote ?S ?g dst d'"
    unfolding Upsample2x_Nearest_def Let_def plane_index pos
    by (intro wrote_for [where n = "length dst"] upsample_block [OF pl]) simp_all
  then obtain d' where d': "Upsample2x_Nearest src iw ih dst (2 * iw) (2 * ih) C B = Some d'" "wrote ?S ?g dst d'" by blast
  have "k \<in> ?S" if k: "0 \<le> k" "k < int (length dst)" for k
  proof -
    have k': "k < B * C * (2 * ih) * (2 * iw)" and nn: "0 \<le> C" "0 \<le> 2 * ih" "0 \<le> 2 * iw" using k pl by (simp_all add: planes_ok_def)
    obtain b c h w where i: "k = ?at b c h w" "0 \<le> b" "b < B" "0 \<le> c" "c < C" "0 \<le> h" "h < 2 * ih" "0 \<le> w" "w < 2 * iw"
      by (rule idx4_cases [OF k(1) k' nn])
    have "h = 2 * (h div 2) + h mod 2" "w = 2 * (w div 2) + w mod 2" "h mod 2 \<in> {0, 1}" "w mod 2 \<in> {0, 1}" by auto
    then have "k \<in> ?T b c (h div 2) (w div 2)" unfolding i(1)
      by (intro CollectI exI [of _ "h mod 2"] exI [of _ "w mod 2"]) simp
    moreover have "h div 2 \<in> {0..<ih}" "w div 2 \<in> {0..<iw}" "b \<in> {0..<B}" "c \<in> {0..<C}" using i by simp_all
    ultimately show ?thesis by (intro UN_I)
  qed
  then have "d' = map (\<lambda>k. ?g (int k)) [0..<length dst]" by (intro wrote_all [OF d'(2)])
  then show ?thesis using d'(1) by simp
qed

text \<open>A computed factor of one half or a quarter means that the output is exactly twice or four times the input.\<close>

lemma factor_whole:
  assumes "1 \<le> i1" "i1 \<le> 2 ^ 12" "1 \<le> o1" "o1 \<le> 2 ^ 12" "fdiv (i2f i1) (i2f o1) = 1 / of_int m" "1 \<le> m" "m \<le> 4"
  shows "o1 = m * i1"
proof -
  let ?r = "of_int i1 / of_int o1 :: rat"
  have ex: "i2f i1 = of_int i1" "i2f o1 = of_int o1" using assms by (simp_all add: i2f_exact)
  have "\<bar>1 / of_int m - ?r\<bar> \<le> \<bar>?r\<bar> / 2 ^ 24" using rnd_rel [of 24 ?r] assms(5) by (simp add: ex fdiv_def)
  moreover have r: "0 \<le> ?r" using assms by simp
  ultimately have "\<bar>1 / of_int m - ?r\<bar> * of_int (m * o1) \<le> ?r / 2 ^ 24 * of_int (m * o1)" using assms(3,6) by (intro mult_right_mono) simp_all
  moreover have "\<bar>1 / of_int m - ?r\<bar> * of_int (m * o1) = \<bar>of_int o1 - of_int m * of_int i1\<bar>"
  proof -
    have "\<bar>1 / of_int m - ?r\<bar> * of_int (m * o1) = \<bar>(1 / of_int m - ?r) * of_int (m * o1)\<bar>" using assms(3,6) by (simp add: abs_mult)
    also have "(1 / of_int m - ?r) * of_int (m * o1) = of_int o1 - of_int m * of_int i1" using assms(3,6) by (simp add: field_simps)
    finally show ?thesis .
  qed
  moreover have "?r / 2 ^ 24 * of_int (m * o1) = of_int (m * i1) / 2 ^ 24" using assms(3) by simp
  moreover have "m * i1 \<le> 4 * 2 ^ 12" using assms by (intro mult_mono) simp_all
  then have "of_int (m * i1) \<le> (of_int (4 * 2 ^ 12) :: rat)" by (simp only: of_int_le_iff)
  ultimately have "\<bar>of_int o1 - of_int m * of_int i1\<bar> < (1 :: rat)" by simp
  then have "of_int \<bar>o1 - m * i1\<bar> < (1 :: rat)" by simp
  then have "\<bar>o1 - m * i1\<bar> < 1" by (simp only: of_int_less_1_iff)
  then show ?thesis by simp
qed

lemma factor_half:
  assumes "1 \<le> i1" "i1 \<le> 2 ^ 12" "1 \<le> o1" "o1 \<le> 2 ^ 12" "fdiv (i2f i1) (i2f o1) = 1 / 2"
  shows "o1 = 2 * i1"
  using factor_whole [OF assms(1-4), of 2] assms(5) by simp

lemma factor_quarter:
  assumes "1 \<le> i1" "i1 \<le> 2 ^ 12" "1 \<le> o1" "o1 \<le> 2 ^ 12"
  shows "fdiv (i2f i1) (i2f o1) = 1 / 4 \<longleftrightarrow> o1 = 4 * i1"
proof
  show "o1 = 4 * i1" if "fdiv (i2f i1) (i2f o1) = 1 / 4" using factor_whole [OF assms, of 4] that by simp
  show "fdiv (i2f i1) (i2f o1) = 1 / 4" if "o1 = 4 * i1"
  proof -
    have "i2f i1 / i2f o1 = 1 / 4" using that assms by (simp add: i2f_exact)
    moreover have "rnd 24 (1 / 4) = 1 / 4" using rnd_exact [of 1 24 "- 2"] by (simp add: power_int_minus)
    ultimately show ?thesis by (simp add: fdiv_def)
  qed
qed

lemma half_nearest: "0 \<le> k \<Longrightarrow> k < 2 * i1 \<Longrightarrow> nearest_to i1 (2 * i1) k (k div 2)"
proof -
  assume k: "0 \<le> k" "k < 2 * i1"
  have "(of_int i1 :: rat) / of_int (2 * i1) = 1 / 2" using k by simp
  then have "centre i1 (2 * i1) k = of_int k / 2 - 1 / 4" unfolding centre_def by (simp only: distrib_right)
  moreover have "of_int k = (2 * of_int (k div 2) + of_int (k mod 2) :: rat)"
    by (metis of_int_add of_int_mult of_int_numeral mult_div_mod_eq)
  moreover have "k mod 2 = 0 \<or> k mod 2 = 1" by auto
  ultimately have "of_int (k div 2) - centre i1 (2 * i1) k \<in> {1 / 4, - 1 / 4}" by (elim disjE) (simp_all add: field_simps)
  then have "\<bar>of_int (k div 2) - centre i1 (2 * i1) k\<bar> \<le> 1 / 2 + 1 / 128" by auto
  then show ?thesis using k by (simp add: nearest_to_def)
qed

text \<open>A factor of a quarter: every group of four output columns takes the input column of its number.\<close>

lemma centre_quarter: "0 < i1 \<Longrightarrow> centre i1 (4 * i1) (4 * q + p) = of_int q + (of_int p / 4 - 3 / 8)"
proof -
  assume "0 < i1"
  then have "(of_int i1 :: rat) / of_int (4 * i1) = 1 / 4" by simp
  then show ?thesis unfolding centre_def by (simp only:) (simp add: field_simps)
qed

lemma quarter_unique:
  assumes "nearest_to i1 (4 * i1) (4 * q) r"
  shows "r = q"
proof -
  have "0 < i1" using assms by (simp add: nearest_to_def)
  then have "centre i1 (4 * i1) (4 * q) = of_int q - 3 / 8" using centre_quarter [of i1 q 0] by simp
  moreover have "\<bar>of_int r - centre i1 (4 * i1) (4 * q)\<bar> \<le> 1 / 2 + 1 / 128" using assms by (simp only: nearest_to_def)
  moreover have "of_int r - (of_int q - 3 / 8 :: rat) = of_int (r - q) + 3 / 8" by simp
  ultimately have "\<bar>of_int (r - q) + 3 / 8\<bar> \<le> (1 / 2 + 1 / 128 :: rat)" by (simp only:)
  then have "of_int (r - q) < (1 :: rat)" "- 1 < (of_int (r - q) :: rat)" by linarith+
  then have "of_int (r - q) < (of_int 1 :: rat)" "of_int (- 1) < (of_int (r - q) :: rat)" by simp_all
  then have "r - q < 1" "- 1 < r - q" by (simp_all only: of_int_less_iff)
  then show ?thesis by simp
qed

lemma quarter_nearest:
  assumes "0 \<le> k" "k < 4 * i1"
  shows "nearest_to i1 (4 * i1) k (k div 4)"
proof -
  have m: "k mod 4 = 0 \<or> k mod 4 = 1 \<or> k mod 4 = 2 \<or> k mod 4 = 3" by presburger
  have "centre i1 (4 * i1) k = of_int (k div 4) + (of_int (k mod 4) / 4 - 3 / 8)"
    using centre_quarter [of i1 "k div 4" "k mod 4"] assms by simp
  then have "\<bar>of_int (k div 4) - centre i1 (4 * i1) k\<bar> \<le> 3 / 8" using m by (elim disjE) simp_all
  moreover have "0 \<le> k div 4" "k div 4 < i1" using assms by auto
  ultimately show ?thesis by (simp add: nearest_to_def)
qed

lemma quarter_block:
  assumes pl: "planes_ok src dst B C ih iw oh (4 * iw)"
    and i: "0 \<le> b" "b < B" "0 \<le> c" "c < C" "0 \<le> y" "y < oh" "0 \<le> q" "q < iw" and d: "length d = length dst"
    and r: "to_size (roundf (sample_at fx fy (4 * q))) = Some q" "to_size (roundf (sample_at fy fx y)) = Some (ry y)" "0 \<le> ry y" "ry y < ih"
  shows "\<exists>d'. (do { ix_r \<leftarrow> to_size (roundf (sample_at fx fy (4 * q))); iy_r \<leftarrow> to_size (roundf (sample_at fy fx y));
       v \<leftarrow> ld src (idx4 C ih iw b c iy_r ix_r); for_loop 0 4 (\<lambda>p d. st d (idx4 C oh (4 * iw) b c y (4 * q + p)) v) d }) = Some d' \<and>
     wrote (\<Union>p \<in> {0..<4}. {idx4 C oh (4 * iw) b c y (4 * q + p)}) (picked src ih iw oh (4 * iw) ry (\<lambda>x. x div 4)) d d'"
proof -
  let ?v = "src ! nat (idx4 C ih iw b c (ry y) q)"
  have v: "ld src (idx4 C ih iw b c (ry y) q) = Some ?v" by (rule src_ld [OF pl i(1-4) r(3,4) i(7,8)])
  have "\<exists>d'. for_loop 0 4 (\<lambda>p d. st d (idx4 C oh (4 * iw) b c y (4 * q + p)) ?v) d = Some d' \<and>
     wrote (\<Union>p \<in> {0..<4}. {idx4 C oh (4 * iw) b c y (4 * q + p)}) (picked src ih iw oh (4 * iw) ry (\<lambda>x. x div 4)) d d'"
  proof (rule wrote_for [OF _ d])
    fix p :: int and e :: "f32 list" assume p: "0 \<le> p" "p < 4" and e: "length e = length dst"
    have x: "0 \<le> 4 * q + p" "4 * q + p < 4 * iw" "(4 * q + p) div 4 = q" using p i(7,8) by auto
    show "\<exists>d'. st e (idx4 C oh (4 * iw) b c y (4 * q + p)) ?v = Some d' \<and>
        wrote {idx4 C oh (4 * iw) b c y (4 * q + p)} (picked src ih iw oh (4 * iw) ry (\<lambda>x. x div 4)) e d'"
      by (rule dst_st [OF pl i(1-6) x(1,2) e]) (simp only: picked_idx [OF i(5,6) x(1,2)] x(3))
  qed
  then show ?thesis using r(1,2) v by simp
qed

lemma quarter_ok:
  assumes pl: "planes_ok src dst B C ih iw oh (4 * iw)" and iw: "1 \<le> iw"
    and rx: "\<And>q. 0 \<le> q \<Longrightarrow> q < iw \<Longrightarrow> to_size (roundf (sample_at fx fy (4 * q))) = Some q"
    and ry: "\<And>y. 0 \<le> y \<Longrightarrow> y < oh \<Longrightarrow> to_size (roundf (sample_at fy fx y)) = Some (ry y) \<and> 0 \<le> ry y \<and> ry y < ih"
  shows "Upsample4x_Nearest src iw ih fx fy dst (4 * iw) oh C B =
    Some (map (\<lambda>k. picked src ih iw oh (4 * iw) ry (\<lambda>x. x div 4) (int k)) [0..<length dst])"
proof -
  let ?g = "picked src ih iw oh (4 * iw) ry (\<lambda>x. x div 4)" and ?at = "idx4 C oh (4 * iw)"
  let ?S = "\<Union>b\<in>{0..<B}. \<Union>c\<in>{0..<C}. \<Union>y\<in>{0..<oh}. \<Union>q\<in>{0..<iw}. \<Union>p \<in> {0..<4}. {?at b c y (4 * q + p)}"
  have w: "\<not> 4 * iw < 4" "4 * iw div 4 = iw" using iw by simp_all
  have "\<exists>d'. Upsample4x_Nearest src iw ih fx fy dst (4 * iw) oh C B = Some d' \<and> wrote ?S ?g dst d'"
    unfolding Upsample4x_Nearest_def Let_def plane_index w if_not_P [OF w(1)]
    by (intro wrote_for [where n = "length dst"] quarter_block [OF pl]) (simp_all add: rx ry)
  then obtain d' where d': "Upsample4x_Nearest src iw ih fx fy dst (4 * iw) oh C B = Some d'" "wrote ?S ?g dst d'" by blast
  have "k \<in> ?S" if k: "0 \<le> k" "k < int (length dst)" for k
  proof -
    have k': "k < B * C * oh * (4 * iw)" and nn: "0 \<le> C" "0 \<le> oh" "0 \<le> 4 * iw" using k pl by (simp_all add: planes_ok_def)
    obtain b c h w where i: "k = ?at b c h w" "0 \<le> b" "b < B" "0 \<le> c" "c < C" "0 \<le> h" "h < oh" "0 \<le> w" "w < 4 * iw"
      by (rule idx4_cases [OF k(1) k' nn])
    have "w mod 4 \<in> {0..<4}" "w div 4 \<in> {0..<iw}" "k \<in> {?at b c h (4 * (w div 4) + w mod 4)}" using i by auto
    moreover have "h \<in> {0..<oh}" "b \<in> {0..<B}" "c \<in> {0..<C}" using i by simp_all
    ultimately show ?thesis by (intro UN_I)
  qed
  then have "d' = map (\<lambda>k. ?g (int k)) [0..<length dst]" by (intro wrote_all [OF d'(2)])
  then show ?thesis using d'(1) by simp
qed

text \<open>The first sample of the triangular kernel for a factor of a quarter is the first pixel, and the element before it is
  not in the input.\<close>

lemma first_load_outside:
  assumes "0 < B" "0 < C"
  shows "Upsample4x_first_loads src iw ih (1 / 4) (1 / 4) dst C B = None"
proof -
  have e: "rnd 24 (1 / 8) = 1 / 8" "rnd 24 (- (3 / 8)) = - (3 / 8)"
    using rnd_exact [of 1 24 "- 3"] rnd_exact [of "- 3" 24 "- 3"] by (simp_all add: power_int_minus)
  have s: "sample_at (1 / 4) (1 / 4) 0 = - (3 / 8)"
    by (simp add: sample_at_def i2f_def fmul_def fdiv_def fadd_def fsub_def e)
  have "\<lfloor>7 / 8 :: rat\<rfloor> = 0" by (simp add: floor_eq_iff)
  then have r: "to_size (roundf (sample_at (1 / 4) (1 / 4) 0)) = Some 0" unfolding s by (simp add: roundf_def to_size_def ctrunc_def)
  show ?thesis unfolding Upsample4x_first_loads_def r
    by (rule for_loop_undefined [where i = 0], simp, use assms in simp, rule for_loop_undefined [where i = 0])
       (use assms in \<open>simp_all add: ld_def\<close>)
qed

section \<open>The triangular kernel\<close>

lemma factor_range:
  assumes "1 \<le> i1" "i1 \<le> 2 ^ 12" "1 \<le> o1" "o1 \<le> 2 ^ 12"
  shows "0 < fdiv (i2f i1) (i2f o1)" "fdiv (i2f i1) (i2f o1) \<le> 2 ^ 12"
proof -
  have ex: "i2f i1 = of_int i1" "i2f o1 = of_int o1" using assms by (simp_all add: i2f_exact)
  show "0 < fdiv (i2f i1) (i2f o1)" using assms by (simp add: ex fdiv_def rnd_pos)
  have "of_int i1 \<le> (of_int (2 ^ 12) :: rat)" "1 \<le> (of_int o1 :: rat)" using assms by (simp_all only: of_int_le_iff of_int_1_le_iff)
  then have "of_int i1 / of_int o1 \<le> (2 ^ 12 / 1 :: rat)" by (intro frac_le) simp_all
  then show "fdiv (i2f i1) (i2f o1) \<le> 2 ^ 12" unfolding ex fdiv_def by (intro rnd_le_pow) simp
qed

lemma sample_range:
  assumes "0 \<le> k" "k < 2 ^ 12" "0 \<le> f" "f \<le> 2 ^ 12" "0 \<le> g" "g \<le> 2 ^ 12"
  shows "- 1 \<le> sample_at f g k" "sample_at f g k \<le> 2 ^ 25"
proof -
  have k: "i2f k = of_int k" using assms by (simp add: i2f_exact)
  have "of_int k \<le> (of_int (2 ^ 12) :: rat)" using assms by (simp only: of_int_le_iff)
  then have "of_int k * f \<le> 2 ^ 12 * 2 ^ 12" using assms by (intro mult_mono) simp_all
  then have "of_int k * f \<le> 2 ^ 24" by simp
  then have a: "fmul (i2f k) f \<le> 2 ^ 24" "0 \<le> fmul (i2f k) f"
    unfolding k fmul_def by (rule rnd_le_pow, intro rnd_nonneg) (use assms in simp_all)
  have h: "fdiv g 2 \<le> 2 ^ 12" "0 \<le> fdiv g 2"
    unfolding fdiv_def by (rule rnd_le_pow, use assms in simp) (intro rnd_nonneg, use assms in simp_all)
  have s: "fadd (fmul (i2f k) f) (fdiv g 2) \<le> 2 ^ 25" "0 \<le> fadd (fmul (i2f k) f) (fdiv g 2)"
    unfolding fadd_def by (rule rnd_le_pow, use a h in simp) (intro rnd_nonneg, use a h in simp_all)
  show "sample_at f g k \<le> 2 ^ 25" unfolding sample_at_def fsub_def using s by (intro rnd_le_pow) simp
  have "rnd 24 (- 1) \<le> rnd 24 (fadd (fmul (i2f k) f) (fdiv g 2) - 1 / 2)" using s by (intro rnd_mono) simp_all
  then show "- 1 \<le> sample_at f g k" unfolding sample_at_def fsub_def by (simp add: rnd_minus rnd_1)
qed

lemma radius_ok:
  assumes "0 < f" "f \<le> 2 ^ 12"
  shows "\<exists>n. (if f < 1 then Some 2 else f2i (of_int \<lceil>fdiv (i2f 2) (fdiv 1 (if aa then f else 1))\<rceil>)) = Some n \<and> 0 \<le> n \<and> n \<le> 2 ^ 14"
proof (cases "f < 1")
  case False
  let ?a = "fdiv 1 (if aa then f else 1)"
  have f: "1 / 2 ^ 12 \<le> 1 / f" using assms False by (intro divide_left_mono) simp_all
  have "2 powi (- 12) \<le> 1 / f" using f by (simp add: power_int_minus field_simps)
  moreover have "2 powi (- 12) \<le> (1 :: rat)" by (simp add: power_int_minus)
  ultimately have "2 powi (- 12) \<le> ?a" unfolding fdiv_def by (intro rnd_ge_pow) simp
  then have a: "1 / 2 ^ 12 \<le> ?a" by (simp add: power_int_minus field_simps)
  then have "2 / ?a \<le> 2 / (1 / 2 ^ 12)" "0 \<le> 2 / ?a"
    by (intro divide_left_mono) (simp_all add: order.strict_trans2 [OF _ a] order_trans [OF _ a])
  then have b: "2 / ?a \<le> 2 ^ 13" "0 \<le> 2 / ?a" by simp_all
  have "i2f 2 = 2" by (simp add: i2f_exact)
  then have q: "fdiv (i2f 2) ?a \<le> 2 ^ 13" "0 \<le> fdiv (i2f 2) ?a"
    using rnd_le_pow [OF b(1)] rnd_nonneg [OF b(2)] unfolding fdiv_def by simp_all
  have "\<lceil>fdiv (i2f 2) ?a\<rceil> \<le> 2 ^ 13" "0 \<le> \<lceil>fdiv (i2f 2) ?a\<rceil>" using q by (simp_all add: ceiling_le_iff)
  then show ?thesis using False by (simp add: f2i_def int_ok_def)
qed simp

lemma sums_ok:
  assumes ld: "\<And>y x. 0 \<le> y \<Longrightarrow> y < ih \<Longrightarrow> 0 \<le> x \<Longrightarrow> x < iw \<Longrightarrow> \<exists>v. ld src (off + (y * iw + x)) = Some v \<and> (nn \<longrightarrow> 0 \<le> v)"
    and a: "0 \<le> ax" "0 \<le> ay"
  shows "\<exists>s ws. kernel_sums src off iw ih ix iy ax ay ix_r iy_r rx ry = Some (s, ws) \<and> (nn \<longrightarrow> 0 \<le> s \<and> 0 \<le> ws)"
proof -
  let ?P = "\<lambda>(s, ws). nn \<longrightarrow> 0 \<le> s \<and> 0 \<le> ws"
  have t: "0 \<le> triangleCoeff x" for x by (simp add: triangleCoeff_def)
  have "\<exists>r. kernel_sums src off iw ih ix iy ax ay ix_r iy_r rx ry = Some r \<and> ?P r"
    unfolding kernel_sums_def
  proof (intro for_loop_total [where P = ?P])
    fix y x :: int and r :: "f32 \<times> f32" assume r: "?P r"
    let ?w = "fmul (fmul (fmul ax (triangleCoeff (fmul ax (fsub ix (i2f x))))) ay) (triangleCoeff (fmul ay (fsub iy (i2f y))))"
    have w: "0 \<le> ?w" using a t by (intro f_nonneg(3)) simp_all
    show "\<exists>r'. (case r of (s, ws) \<Rightarrow> if y < 0 \<or> x < 0 \<or> ih \<le> y \<or> iw \<le> x then Some (s, ws)
       else do { let w = ?w; v \<leftarrow> ld src (off + (y * iw + x)); Some (fadd s (fmul w v), fadd ws w) }) = Some r' \<and> ?P r'"
    proof (cases "y < 0 \<or> x < 0 \<or> ih \<le> y \<or> iw \<le> x")
      case False
      then obtain v where "ld src (off + (y * iw + x)) = Some v" "nn \<longrightarrow> 0 \<le> v" using ld [of y x] by auto
      then show ?thesis using False r w by (auto simp: Let_def split_beta intro!: f_nonneg)
    qed (use r in auto)
  qed simp
  then show ?thesis by auto
qed

lemma kernel_value_ok:
  assumes pl: "planes_ok src dst B C ih iw oh ow" and pos: "nn \<longrightarrow> (\<forall>v \<in> set src. 0 \<le> v)"
    and i: "0 \<le> b" "b < B" "0 \<le> c" "c < C" "0 \<le> oy" "oy < 2 ^ 12" "0 \<le> ox" "ox < 2 ^ 12"
    and f: "0 < fx" "fx \<le> 2 ^ 12" "0 < fy" "fy \<le> 2 ^ 12"
  shows "\<exists>v. kernel_value src (iw * ih * C * b + iw * ih * c) iw ih fx fy 2 aa oy ox = Some v \<and> (nn \<longrightarrow> 0 \<le> v)"
proof -
  have f0: "0 \<le> fx" "0 \<le> fy" using f by simp_all
  note sx = sample_range [OF i(7,8) f0(1) f(2) f0(2) f(4)] and sy = sample_range [OF i(5,6) f0(2) f(4) f0(1) f(2)]
  have r: "\<exists>n. f2i (roundf x) = Some n \<and> - 2 \<le> n \<and> n \<le> 2 ^ 25 + 1" if "- 1 \<le> x" "x \<le> 2 ^ 25" for x
    using roundf_between [of "- 1" x "2 ^ 25"] that by (intro f2i_between) simp_all
  obtain ix_r where ix: "f2i (roundf (sample_at fx fy ox)) = Some ix_r" "- 2 \<le> ix_r" "ix_r \<le> 2 ^ 25 + 1" using r [OF sx] by blast
  obtain iy_r where iy: "f2i (roundf (sample_at fy fx oy)) = Some iy_r" "- 2 \<le> iy_r" "iy_r \<le> 2 ^ 25 + 1" using r [OF sy] by blast
  let ?ax = "fdiv 1 (if aa then fx else 1)" and ?ay = "fdiv 1 (if aa then fy else 1)"
  obtain rx where rx: "(if fx < 1 then Some 2 else f2i (of_int \<lceil>fdiv (i2f 2) ?ax\<rceil>)) = Some rx" "0 \<le> rx" "rx \<le> 2 ^ 14"
    using radius_ok [OF f(1,2)] by blast
  obtain ry where ry: "(if fy < 1 then Some 2 else f2i (of_int \<lceil>fdiv (i2f 2) ?ay\<rceil>)) = Some ry" "0 \<le> ry" "ry \<le> 2 ^ 14"
    using radius_ok [OF f(3,4)] by blast
  have rng: "int_ok (iy_r - ry) \<and> int_ok (iy_r + ry + 1) \<and> int_ok (ix_r - rx) \<and> int_ok (ix_r + rx + 1)"
    using ix(2,3) iy(2,3) rx(2,3) ry(2,3) by (simp add: int_ok_def)
  have ld: "\<exists>v. ld src (iw * ih * C * b + iw * ih * c + (y * iw + x)) = Some v \<and> (nn \<longrightarrow> 0 \<le> v)"
    if "0 \<le> y" "y < ih" "0 \<le> x" "x < iw" for y x
  proof -
    have "ld src (idx4 C ih iw b c y x) = Some (src ! nat (idx4 C ih iw b c y x))" by (rule src_ld [OF pl i(1-4) that])
    moreover from this have "nat (idx4 C ih iw b c y x) < length src" by (auto simp: ld_def split: if_splits)
    ultimately show ?thesis using pos unfolding plane_index by simp
  qed
  have ax: "0 \<le> ?ax" "0 \<le> ?ay" using f by (auto intro!: f_nonneg)
  obtain s ws where s: "kernel_sums src (iw * ih * C * b + iw * ih * c) iw ih (sample_at fx fy ox) (sample_at fy fx oy) ?ax ?ay ix_r iy_r rx ry = Some (s, ws)"
    "nn \<longrightarrow> 0 \<le> s \<and> 0 \<le> ws" using sums_ok [OF ld ax] by blast
  have "kernel_value src (iw * ih * C * b + iw * ih * c) iw ih fx fy 2 aa oy ox = Some (if ws = 0 then 0 else fdiv s ws)"
    unfolding kernel_value_def Let_def by (simp only: ix(1) iy(1) rx(1) ry(1) rng s(1) Option.bind.simps simp_thms if_False prod.case)
  then show ?thesis using s(2) by (auto intro!: f_nonneg)
qed

lemma interpolation_ok:
  assumes pl: "planes_ok src dst B C ih iw oh ow" and pos: "nn \<longrightarrow> (\<forall>v \<in> set src. 0 \<le> v)" and o: "oh \<le> 2 ^ 12" "ow \<le> 2 ^ 12"
    and f: "0 < fx" "fx \<le> 2 ^ 12" "0 < fy" "fy \<le> 2 ^ 12"
  shows "\<exists>dst'. InterpolationKernel src iw ih fx fy dst ow oh C B 2 aa = Some dst' \<and> length dst' = length dst \<and> (nn \<longrightarrow> (\<forall>v \<in> set dst'. 0 \<le> v))"
proof -
  let ?val = "\<lambda>b c y x. the (kernel_value src (iw * ih * C * b + iw * ih * c) iw ih fx fy 2 aa y x)"
  define g where "g k = ?val (k div ow div oh div C) (k div ow div oh mod C) (k div ow mod oh) (k mod ow)" for k
  have val: "kernel_value src (iw * ih * C * b + iw * ih * c) iw ih fx fy 2 aa y x = Some (g (idx4 C oh ow b c y x)) \<and> (nn \<longrightarrow> 0 \<le> g (idx4 C oh ow b c y x))"
    if q: "0 \<le> b" "b < B" "0 \<le> c" "c < C" "0 \<le> y" "y < oh" "0 \<le> x" "x < ow" for b c y x
  proof -
    have "y < 2 ^ 12" "x < 2 ^ 12" using q o by linarith+
    then have "\<exists>v. kernel_value src (iw * ih * C * b + iw * ih * c) iw ih fx fy 2 aa y x = Some v \<and> (nn \<longrightarrow> 0 \<le> v)"
      using q by (intro kernel_value_ok [OF pl pos _ _ _ _ _ _ _ _ f])
    moreover have "g (idx4 C oh ow b c y x) = ?val b c y x" using q by (simp add: g_def flat_div)
    ultimately show ?thesis by auto
  qed
  have "InterpolationKernel src iw ih fx fy dst ow oh C B 2 aa = Some (map (\<lambda>k. g (int k)) [0..<length dst])"
    unfolding InterpolationKernel_def
  proof (rule nest4_wrote)
    fix b c h w :: int and d :: "f32 list"
    assume i: "0 \<le> b" "b < B" "0 \<le> c" "c < C" "0 \<le> h" "h < oh" "0 \<le> w" "w < ow" and d: "length d = length dst"
    obtain d' where "st d (idx4 C oh ow b c h w) (g (idx4 C oh ow b c h w)) = Some d'" "wrote {idx4 C oh ow b c h w} g d d'"
      using dst_st [OF pl i d refl] by blast
    then show "\<exists>d'. (do { v \<leftarrow> kernel_value src (iw * ih * C * b + iw * ih * c) iw ih fx fy 2 aa h w;
        st d (ow * oh * C * b + ow * oh * c + (h * ow + w)) v }) = Some d' \<and> wrote {idx4 C oh ow b c h w} g d d'"
      using val [OF i] unfolding plane_index by simp
  qed (use pl in \<open>simp_all add: planes_ok_def\<close>)
  moreover have "0 \<le> g (int k)" if "k < length dst" nn for k
  proof -
    have k: "0 \<le> int k" "int k < B * C * oh * ow" and nn: "0 \<le> C" "0 \<le> oh" "0 \<le> ow" using pl that(1) by (simp_all add: planes_ok_def flip: of_nat_less_iff)
    obtain b c h w where i: "int k = idx4 C oh ow b c h w" "0 \<le> b" "b < B" "0 \<le> c" "c < C" "0 \<le> h" "h < oh" "0 \<le> w" "w < ow"
      by (rule idx4_cases [OF k nn])
    show ?thesis unfolding i(1) using val [OF i(2-9)] that(2) by blast
  qed
  ultimately show ?thesis by auto
qed

section \<open>Properties\<close>

lemma quarter_dispatch:
  assumes dims: "in_dims = [B, C, ih, iw]" "out_dims = [B, C, oh, ow]"
    and q: "fdiv (i2f (int iw)) (i2f (int ow)) = 1 / 4" "fdiv (i2f (int ih)) (i2f (int oh)) = 1 / 4" and simd
  shows "rs_type P = resample_nearest_type \<Longrightarrow>
      Upsample4x_Nearest src (int iw) (int ih) (1 / 4) (1 / 4) dst (int ow) (int oh) (int C) (int B) = Some d \<Longrightarrow>
      resample_execute simd P in_dims out_dims src dst = Some (OK, d)"
    and "rs_type P = resample_linear_type \<Longrightarrow> \<not> (iw = ow \<and> ih = oh) \<Longrightarrow>
      Upsample4x_first_loads src (int iw) (int ih) (1 / 4) (1 / 4) dst (int C) (int B) = None \<Longrightarrow>
      resample_execute simd P in_dims out_dims src dst = None"
proof -
  define f :: rat where "f = 1 / 4"
  have f: "fdiv (i2f (int iw)) (i2f (int ow)) = f" "fdiv (i2f (int ih)) (i2f (int oh)) = f" "\<not> 1 < f" "f * 4 = 1" using q by (simp_all add: f_def)
  have lin: "resample_nearest_type \<noteq> resample_linear_type" by (simp add: resample_nearest_type_def resample_linear_type_def)
  show "resample_execute simd P in_dims out_dims src dst = Some (OK, d)" if "rs_type P = resample_nearest_type"
    "Upsample4x_Nearest src (int iw) (int ih) (1 / 4) (1 / 4) dst (int ow) (int oh) (int C) (int B) = Some d"
    using that(1) that(2) [folded f_def] lin f \<open>simd\<close> unfolding resample_execute_def dims by (simp add: Let_def)
  show "resample_execute simd P in_dims out_dims src dst = None" if "rs_type P = resample_linear_type" "\<not> (iw = ow \<and> ih = oh)"
    "Upsample4x_first_loads src (int iw) (int ih) (1 / 4) (1 / 4) dst (int C) (int B) = None"
    using that(1,2) that(3) [folded f_def] lin f \<open>simd\<close> unfolding resample_execute_def dims by (auto simp: Let_def)
qed

lemma nearest_quarter:
  assumes "rs_type P = resample_nearest_type" and dims: "in_dims = [B, C, ih, iw]" "out_dims = [B, C, oh, ow]"
    and pl: "planes_ok src dst (int B) (int C) (int ih) (int iw) (int oh) (int ow)"
    and sz: "0 < ih" "ih \<le> 2 ^ 12" "0 < iw" "iw \<le> 2 ^ 12" "0 < oh" "oh \<le> 2 ^ 12" "0 < ow" "ow \<le> 2 ^ 12"
    and q: "fdiv (i2f (int iw)) (i2f (int ow)) = 1 / 4" "fdiv (i2f (int ih)) (i2f (int oh)) = 1 / 4" and simd
  shows "\<exists>ry rx. resample_execute simd P in_dims out_dims src dst = Some (OK, map (\<lambda>k. picked src ih iw oh ow ry rx (int k)) [0..<length dst]) \<and>
     (\<forall>y \<in> {0..<int oh}. nearest_to (int ih) (int oh) y (ry y)) \<and> (\<forall>x \<in> {0..<int ow}. nearest_to (int iw) (int ow) x (rx x))"
proof -
  have i: "1 \<le> int ih" "int ih \<le> 2 ^ 12" "1 \<le> int iw" "int iw \<le> 2 ^ 12" "1 \<le> int oh" "int oh \<le> 2 ^ 12" "1 \<le> int ow" "int ow \<le> 2 ^ 12"
    using sz by simp_all
  have o: "int ow = 4 * int iw" "int oh = 4 * int ih"
    using factor_quarter [OF i(3,4,7,8)] factor_quarter [OF i(1,2,5,6)] q by blast+
  let ?r = "\<lambda>k. the (to_size (roundf (sample_at (1 / 4) (1 / 4) k)))"
  have rx: "to_size (roundf (sample_at (1 / 4) (1 / 4) (4 * k))) = Some k" if k: "0 \<le> k" "k < int iw" for k
  proof -
    have "0 \<le> 4 * k" "4 * k < int ow" using k o by simp_all
    from sample_nearest [OF i(3,4,7,8) this q(1) [symmetric]] show ?thesis unfolding o(1) using quarter_unique by blast
  qed
  have ry: "to_size (roundf (sample_at (1 / 4) (1 / 4) k)) = Some (?r k) \<and> nearest_to (int ih) (int oh) k (?r k)" if "0 \<le> k" "k < int oh" for k
    using sample_nearest [OF i(1,2,5,6) that q(2) [symmetric]] by auto
  have ry': "to_size (roundf (sample_at (1 / 4) (1 / 4) k)) = Some (?r k) \<and> 0 \<le> ?r k \<and> ?r k < int ih" if "0 \<le> k" "k < int oh" for k
    using ry [OF that] by (simp add: nearest_to_def)
  have "Upsample4x_Nearest src (int iw) (int ih) (1 / 4) (1 / 4) dst (int ow) (int oh) (int C) (int B) =
     Some (map (\<lambda>k. picked src ih iw oh ow ?r (\<lambda>x. x div 4) (int k)) [0..<length dst])"
    unfolding o(1) by (rule quarter_ok [OF pl [unfolded o(1)] i(3) rx ry'])
  then have "resample_execute simd P in_dims out_dims src dst =
     Some (OK, map (\<lambda>k. picked src ih iw oh ow ?r (\<lambda>x. x div 4) (int k)) [0..<length dst])"
    by (rule quarter_dispatch(1) [OF dims q \<open>simd\<close> assms(1)])
  moreover have "\<forall>x \<in> {0..<int ow}. nearest_to (int iw) (int ow) x (x div 4)" using quarter_nearest o by simp
  moreover have "\<forall>y \<in> {0..<int oh}. nearest_to (int ih) (int oh) y (?r y)" using ry by simp
  ultimately show ?thesis by (intro exI conjI)
qed

lemma nearest_portable:
  assumes "rs_type P = resample_nearest_type" and dims: "in_dims = [B, C, ih, iw]" "out_dims = [B, C, oh, ow]"
    and pl: "planes_ok src dst (int B) (int C) (int ih) (int iw) (int oh) (int ow)"
    and sz: "0 < ih" "ih \<le> 2 ^ 12" "0 < iw" "iw \<le> 2 ^ 12" "0 < oh" "oh \<le> 2 ^ 12" "0 < ow" "ow \<le> 2 ^ 12"
    and iso: "fdiv (i2f (int iw)) (i2f (int ow)) = fdiv (i2f (int ih)) (i2f (int oh))"
    and no4: "\<not> (simd \<and> fdiv (i2f (int iw)) (i2f (int ow)) = 1 / 4)"
  shows "\<exists>ry rx. resample_execute simd P in_dims out_dims src dst = Some (OK, map (\<lambda>k. picked src ih iw oh ow ry rx (int k)) [0..<length dst]) \<and>
     (\<forall>y \<in> {0..<int oh}. nearest_to (int ih) (int oh) y (ry y)) \<and> (\<forall>x \<in> {0..<int ow}. nearest_to (int iw) (int ow) x (rx x))"
proof -
  let ?fx = "fdiv (i2f (int iw)) (i2f (int ow))" and ?fy = "fdiv (i2f (int ih)) (i2f (int oh))"
  have i: "1 \<le> int ih" "int ih \<le> 2 ^ 12" "1 \<le> int iw" "int iw \<le> 2 ^ 12" "1 \<le> int oh" "int oh \<le> 2 ^ 12" "1 \<le> int ow" "int ow \<le> 2 ^ 12"
    using sz by simp_all
  have lin: "resample_nearest_type \<noteq> resample_linear_type" by (simp add: resample_nearest_type_def resample_linear_type_def)
  have i4: "\<not> (simd \<and> \<not> (1 < ?fx \<or> 1 < ?fy) \<and> ?fx = 1 / 4 \<and> ?fy = 1 / 4)" using no4 by blast
  show ?thesis
  proof (cases "\<not> (1 < ?fx \<or> 1 < ?fy) \<and> ?fx = 1 / 2 \<and> ?fy = 1 / 2")
    case True
    then have o: "int ow = 2 * int iw" "int oh = 2 * int ih" using factor_half i by blast+
    have pl2: "planes_ok src dst (int B) (int C) (int ih) (int iw) (2 * int ih) (2 * int iw)" using pl o by simp
    have "Upsample2x_Nearest src (int iw) (int ih) dst (int ow) (int oh) (int C) (int B) =
       Some (map (\<lambda>k. picked src ih iw oh ow (\<lambda>y. y div 2) (\<lambda>x. x div 2) (int k)) [0..<length dst])"
      unfolding o by (rule upsample_ok [OF pl2])
    then have "resample_execute simd P in_dims out_dims src dst =
       Some (OK, map (\<lambda>k. picked src ih iw oh ow (\<lambda>y. y div 2) (\<lambda>x. x div 2) (int k)) [0..<length dst])"
      using True assms(1) lin unfolding resample_execute_def dims by (simp add: Let_def)
    then show ?thesis using half_nearest o by (intro exI [of _ "\<lambda>y. y div 2"]) (auto simp: o)
  next
    case False
    let ?r = "\<lambda>k. the (to_size (roundf (sample_at ?fx ?fx k)))"
    have rx: "to_size (roundf (sample_at ?fx ?fx k)) = Some (?r k) \<and> nearest_to (int iw) (int ow) k (?r k)" if "0 \<le> k" "k < int ow" for k
      using sample_nearest [OF i(3,4,7,8) that refl] by auto
    have ry: "to_size (roundf (sample_at ?fx ?fx k)) = Some (?r k) \<and> nearest_to (int ih) (int oh) k (?r k)" if "0 \<le> k" "k < int oh" for k
      using sample_nearest [OF i(1,2,5,6) that iso] by auto
    have "NearestNeighborKernel src (int iw) (int ih) ?fx ?fx dst (int ow) (int oh) (int C) (int B) =
       Some (map (\<lambda>k. picked src ih iw oh ow ?r ?r (int k)) [0..<length dst])"
      by (rule nearest_kernel_ok [OF pl]) (use rx ry in \<open>auto simp: nearest_to_def\<close>)
    then have "resample_execute simd P in_dims out_dims src dst = Some (OK, map (\<lambda>k. picked src ih iw oh ow ?r ?r (int k)) [0..<length dst])"
      using False i4 assms(1) lin iso unfolding resample_execute_def dims by (auto simp: Let_def)
    then show ?thesis using rx ry by (intro exI [of _ ?r]) auto
  qed
qed

text \<open>C20. Nearest resampling with the same factor in both directions, sizes up to 4096: the layer stays inside its buffers, and
  every output pixel of every plane is an input pixel of the same plane whose centre is at most half a pixel, and a
  128th for the roundings, away from the centre of the output pixel in either direction. This covers the general
  kernel, the one for a factor of one half and, in a build with SSE or AVX2 (\<open>simd\<close>), the one for a factor of a quarter.\<close>

theorem resample_nearest:
  assumes "rs_type P = resample_nearest_type" and dims: "in_dims = [B, C, ih, iw]" "out_dims = [B, C, oh, ow]"
    and pl: "planes_ok src dst (int B) (int C) (int ih) (int iw) (int oh) (int ow)"
    and sz: "0 < ih" "ih \<le> 2 ^ 12" "0 < iw" "iw \<le> 2 ^ 12" "0 < oh" "oh \<le> 2 ^ 12" "0 < ow" "ow \<le> 2 ^ 12"
    and iso: "fdiv (i2f (int iw)) (i2f (int ow)) = fdiv (i2f (int ih)) (i2f (int oh))"
  shows "\<exists>dst'. resample_execute simd P in_dims out_dims src dst = Some (OK, dst') \<and> length dst' = length dst \<and>
    (\<forall>b \<in> {0..<int B}. \<forall>c \<in> {0..<int C}. \<forall>y \<in> {0..<int oh}. \<forall>x \<in> {0..<int ow}. \<exists>ry rx.
       nearest_to (int ih) (int oh) y ry \<and> nearest_to (int iw) (int ow) x rx \<and>
       dst' ! nat (idx4 (int C) (int oh) (int ow) b c y x) = src ! nat (idx4 (int C) (int ih) (int iw) b c ry rx))"
proof -
  have "\<exists>ry rx. resample_execute simd P in_dims out_dims src dst = Some (OK, map (\<lambda>k. picked src ih iw oh ow ry rx (int k)) [0..<length dst]) \<and>
     (\<forall>y \<in> {0..<int oh}. nearest_to (int ih) (int oh) y (ry y)) \<and> (\<forall>x \<in> {0..<int ow}. nearest_to (int iw) (int ow) x (rx x))"
  proof (cases "simd \<and> fdiv (i2f (int iw)) (i2f (int ow)) = 1 / 4")
    case True
    then show ?thesis using iso by (intro nearest_quarter [OF assms(1-12)]) simp_all
  qed (rule nearest_portable [OF assms])
  then obtain ry rx where r: "resample_execute simd P in_dims out_dims src dst = Some (OK, map (\<lambda>k. picked src ih iw oh ow ry rx (int k)) [0..<length dst])"
    "\<forall>y \<in> {0..<int oh}. nearest_to (int ih) (int oh) y (ry y)" "\<forall>x \<in> {0..<int ow}. nearest_to (int iw) (int ow) x (rx x)" by blast
  have "map (\<lambda>k. picked src ih iw oh ow ry rx (int k)) [0..<length dst] ! nat (idx4 (int C) (int oh) (int ow) b c y x) =
      src ! nat (idx4 (int C) (int ih) (int iw) b c (ry y) (rx x))"
    if "b \<in> {0..<int B}" "c \<in> {0..<int C}" "y \<in> {0..<int oh}" "x \<in> {0..<int ow}" for b c y x
  proof -
    have q: "0 \<le> b" "b < int B" "0 \<le> c" "c < int C" "0 \<le> y" "y < int oh" "0 \<le> x" "x < int ow" using that by simp_all
    have n: "0 \<le> idx4 (int C) (int oh) (int ow) b c y x" "idx4 (int C) (int oh) (int ow) b c y x < int (length dst)"
      using idx4_bound [OF q] pl by (simp_all add: planes_ok_def)
    then have "nat (idx4 (int C) (int oh) (int ow) b c y x) < length dst" by linarith
    then show ?thesis using n(1) picked_idx [OF q(5-8)] by simp
  qed
  then show ?thesis using r by (intro exI [of _ "map (\<lambda>k. picked src ih iw oh ow ry rx (int k)) [0..<length dst]"] conjI) (simp, simp, blast)
qed

definition demo_resample :: resample where
  "demo_resample = \<lparr>rs_type = resample_nearest_type, antialias = False\<rparr>"

theorem resample_nearest_witness:
  "\<exists>dst'. resample_execute False demo_resample [1, 2, 2, 3] [1, 2, 4, 6] (map i2f [1..12]) (replicate 48 0) = Some (OK, dst') \<and>
    length dst' = length (replicate 48 (0 :: f32)) \<and>
    (\<forall>b \<in> {0..<int 1}. \<forall>c \<in> {0..<int 2}. \<forall>y \<in> {0..<int 4}. \<forall>x \<in> {0..<int 6}. \<exists>ry rx.
       nearest_to (int 2) (int 4) y ry \<and> nearest_to (int 3) (int 6) x rx \<and>
       dst' ! nat (idx4 (int 2) (int 4) (int 6) b c y x) = map i2f [1..12] ! nat (idx4 (int 2) (int 2) (int 3) b c ry rx))"
  by (rule resample_nearest [where P = demo_resample]) (simp_all add: demo_resample_def planes_ok_def i2f_exact fdiv_def)

text \<open>Halves of small integers are exact.\<close>

lemma half_exact: "\<bar>m\<bar> < 2 ^ 24 \<Longrightarrow> rnd 24 (of_int m / 2) = of_int m / 2"
  using rnd_exact [of m 24 "- 1"] by (simp add: power_int_minus field_simps)

lemma overrun_row:
  assumes "1 \<le> h" "h \<le> 2 ^ 12" "2 \<le> k" "k \<le> 2 ^ 12"
  shows "\<exists>r. to_size (roundf (sample_at 1 (of_int k) (h - 1))) = Some r \<and> h \<le> r"
proof -
  have 1: "i2f (h - 1) = of_int (h - 1)" using assms by (intro i2f_exact) simp
  have 2: "fdiv (of_int k) 2 = of_int k / 2" unfolding fdiv_def using assms by (intro half_exact) simp
  have m: "fmul (of_int (h - 1)) 1 = of_int (h - 1)" unfolding fmul_def mult_1_right using assms by (intro rnd_of_int) simp
  have 3: "fadd (of_int (h - 1)) (of_int k / 2) = of_int (2 * (h - 1) + k) / 2"
  proof -
    have "of_int (h - 1) + of_int k / 2 = (of_int (2 * (h - 1) + k) / 2 :: rat)" by simp
    then show ?thesis unfolding fadd_def using assms by (simp only:) (rule half_exact, simp)
  qed
  have 4: "fsub (of_int (2 * (h - 1) + k) / 2) (1 / 2) = of_int (2 * (h - 1) + k - 1) / 2"
  proof -
    have "of_int (2 * (h - 1) + k) / 2 - 1 / 2 = (of_int (2 * (h - 1) + k - 1) / 2 :: rat)" by (simp add: field_simps)
    then show ?thesis unfolding fsub_def using assms by (simp only:) (rule half_exact, simp)
  qed
  have s: "sample_at 1 (of_int k) (h - 1) = of_int (2 * (h - 1) + k - 1) / 2"
    unfolding sample_at_def 1 2 m 3 4 ..
  let ?r = "\<lfloor>of_int (2 * (h - 1) + k - 1) / 2 + 1 / 2 :: rat\<rfloor>"
  have "of_int h \<le> (of_int (2 * (h - 1) + k - 1) / 2 + 1 / 2 :: rat)"
  proof -
    have "(of_int (2 * h) :: rat) \<le> of_int (2 * (h - 1) + k)" unfolding of_int_le_iff using assms by simp
    moreover have "(of_int (2 * (h - 1) + k - 1) / 2 + 1 / 2 :: rat) = of_int (2 * (h - 1) + k) / 2" by (simp add: field_simps)
    moreover have "(of_int (2 * h) :: rat) / 2 = of_int h" by simp
    ultimately show ?thesis by (metis divide_right_mono zero_le_numeral)
  qed
  then have r: "h \<le> ?r" by (simp only: le_floor_iff)
  moreover have "\<not> (of_int (2 * (h - 1) + k - 1) / 2 :: rat) < 0"
  proof -
    have "(0 :: rat) \<le> of_int (2 * (h - 1) + k - 1)" unfolding of_int_0_le_iff using assms by simp
    then show ?thesis by simp
  qed
  ultimately show ?thesis using assms(1) unfolding s roundf_def by (simp add: to_size_of_int)
qed

text \<open>When only the width shrinks, by a whole factor of at least two, nearest resampling reads behind the last row of its
  input: the half pixel of the row position comes from the factor of the columns.\<close>

theorem resample_width_overrun:
  assumes "rs_type P = resample_nearest_type" and dims: "in_dims = [B, C, h, k * w]" "out_dims = [B, C, h, w]"
    and sz: "0 < B" "0 < C" "0 < h" "h \<le> 2 ^ 12" "0 < w" "k * w \<le> 2 ^ 12" "2 \<le> k"
    and src: "length src = B * C * h * (k * w)"
  shows "resample_execute simd P in_dims out_dims src dst = None"
proof -
  have kw: "k \<le> k * w" "w \<le> k * w" using sz by simp_all
  then have b: "k \<le> 2 ^ 12" "w \<le> 2 ^ 12" using sz by linarith+
  have "int (k * w) \<le> int (2 ^ 12)" using sz(6) by (simp only: of_nat_le_iff)
  moreover have "(int (2 ^ 12) :: int) < 2 ^ 24" by simp
  ultimately have "\<bar>int (k * w)\<bar> < 2 ^ 24" by linarith
  then have "i2f (int (k * w)) = of_int (int (k * w))" by (rule i2f_exact)
  then have ex: "i2f (int (k * w)) = of_int (int k) * of_int (int w)" "i2f (int w) = of_int (int w)" "i2f (int h) = of_int (int h)"
    using sz b by (simp_all add: i2f_exact)
  have fx: "fdiv (i2f (int (k * w))) (i2f (int w)) = of_int (int k)"
  proof -
    have "of_int (int k) * of_int (int w) / of_int (int w) = (of_int (int k) :: rat)" using sz by simp
    then show ?thesis unfolding ex fdiv_def using b by (simp only:) (intro rnd_of_int, simp)
  qed
  have fy: "fdiv (i2f (int h)) (i2f (int h)) = 1" using sz by (simp add: ex fdiv_def rnd_1)
  obtain r where r: "to_size (roundf (sample_at 1 (of_int (int k)) (int h - 1))) = Some r" "int h \<le> r"
    using overrun_row [of "int h" "int k"] sz b by auto
  have n: "int (length src) = int B * int C * int h * int (k * w)" by (simp add: src)
  have none: "ld src (idx4 (int C) (int h) (int (k * w)) (int B - 1) (int C - 1) r x) = None" if "0 \<le> x" for x
  proof -
    have "((int B - 1) * int C + (int C - 1)) * int h + int h \<le> ((int B - 1) * int C + (int C - 1)) * int h + r" using r(2) by simp
    then have "int B * int C * int h * int (k * w) \<le> (((int B - 1) * int C + (int C - 1)) * int h + r) * int (k * w)"
      by (intro mult_right_mono) (simp_all add: algebra_simps)
    then show ?thesis using n that by (simp add: ld_def)
  qed
  have "NearestNeighborKernel src (int (k * w)) (int h) (of_int (int k)) 1 dst (int w) (int h) (int C) (int B) = None"
    unfolding NearestNeighborKernel_def plane_index
  proof (rule for_loop_undefined [where i = "int B - 1"], use sz in simp, simp, rule for_loop_undefined [where i = "int C - 1"], use sz in simp, simp,
      rule for_loop_undefined [where i = "int h - 1"], use sz in simp, simp, rule for_loop_undefined [where i = 0], simp, use sz in simp)
    fix d
    have "ld src (idx4 (int C) (int h) (int (k * w)) (int B - 1) (int C - 1) r x) = None"
      if "to_size (roundf (sample_at (of_int (int k)) 1 0)) = Some x" for x
    proof (rule none)
      have "rnd 24 (1 / 2) = 1 / 2" using half_exact [of 1] by simp
      then have "sample_at (of_int (int k)) 1 0 = 0"
        by (simp only: sample_at_def i2f_def fmul_def fdiv_def fadd_def fsub_def of_int_0 rnd_0 mult_zero_left add_0 diff_self)
      moreover have "\<lfloor>1 / 2 :: rat\<rfloor> = 0" by linarith
      then have "to_size (roundf 0) = Some 0" by (simp add: roundf_def to_size_def ctrunc_def)
      ultimately show "0 \<le> x" using that by simp
    qed
    then show "(do { ix_r \<leftarrow> to_size (roundf (sample_at (of_int (int k)) 1 0)); iy_r \<leftarrow> to_size (roundf (sample_at 1 (of_int (int k)) (int h - 1)));
       v \<leftarrow> ld src (idx4 (int C) (int h) (int (k * w)) (int B - 1) (int C - 1) iy_r ix_r);
       st d (idx4 (int C) (int h) (int w) (int B - 1) (int C - 1) (int h - 1) 0) v }) = None"
      using r(1) by (cases "to_size (roundf (sample_at (of_int (int k)) 1 0))") simp_all
  qed
  moreover have "resample_nearest_type \<noteq> resample_linear_type" by (simp add: resample_nearest_type_def resample_linear_type_def)
  moreover have "1 < (of_int (int k) :: rat)" using sz by simp
  ultimately show ?thesis unfolding resample_execute_def dims using assms(1) fx fy by (simp add: Let_def)
qed

theorem resample_width_overrun_witness:
  "resample_execute False demo_resample [1, 1, 1, 2 * 1] [1, 1, 1, 1] [5, 6] [0] = None"
  using resample_width_overrun [of demo_resample "[1, 1, 1, 2 * 1]" 1 1 1 2 1 "[1, 1, 1, 1]" "[5, 6]"] by (simp add: demo_resample_def)

text \<open>C33. Linear resampling in the portable build is defined for all sizes up to 4096, whatever the two factors are and with or without
  antialiasing: it reads only inside its input, its loop bounds are \<^verbatim>\<open>int\<close>s, and input without negative
  values gives output without negative values. An input of the output's size is copied. The same holds in a build with
  SSE or AVX2 (\<open>simd\<close>) except when the output is four times as wide and high as the input: then the kernel of that
  build reads the element before its input, which is undefined.\<close>

theorem resample_linear_inside:
  assumes "rs_type P = resample_linear_type" and dims: "in_dims = [B, C, ih, iw]" "out_dims = [B, C, oh, ow]"
    and pl: "planes_ok src dst (int B) (int C) (int ih) (int iw) (int oh) (int ow)"
    and sz: "0 < ih" "ih \<le> 2 ^ 12" "0 < iw" "iw \<le> 2 ^ 12" "0 < oh" "oh \<le> 2 ^ 12" "0 < ow" "ow \<le> 2 ^ 12" "0 < B" "0 < C"
  shows "if simd \<and> ow = 4 * iw \<and> oh = 4 * ih then resample_execute simd P in_dims out_dims src dst = None
    else \<exists>dst'. resample_execute simd P in_dims out_dims src dst = Some (OK, dst') \<and> length dst' = length dst \<and>
      ((\<forall>v \<in> set src. 0 \<le> v) \<longrightarrow> (\<forall>v \<in> set dst'. 0 \<le> v)) \<and> (iw = ow \<and> ih = oh \<longrightarrow> dst' = src)"
proof (cases "iw = ow \<and> ih = oh")
  case True
  then have n: "int (length src) = int B * int C * int ih * int iw" "int (length dst) = int B * int C * int ih * int iw"
    and l: "length src \<le> 2 ^ 31" "length dst \<le> 2 ^ 31" using pl by (simp_all add: planes_ok_def)
  have len: "length src = length dst" using n by linarith
  have "resample_execute simd P in_dims out_dims src dst = Some (OK, src)"
    using True assms(1) n(1) copy_all [OF len l(2)] unfolding resample_execute_def dims by (simp add: Let_def)
  then show ?thesis using True len sz by auto
next
  case False
  have lin: "resample_linear_type \<noteq> resample_nearest_type" by (simp add: resample_nearest_type_def resample_linear_type_def)
  let ?fx = "fdiv (i2f (int iw)) (i2f (int ow))" and ?fy = "fdiv (i2f (int ih)) (i2f (int oh))"
  have i: "1 \<le> int ih" "int ih \<le> 2 ^ 12" "1 \<le> int iw" "int iw \<le> 2 ^ 12" "1 \<le> int oh" "int oh \<le> 2 ^ 12" "1 \<le> int ow" "int ow \<le> 2 ^ 12"
    using sz by simp_all
  have q: "(?fx = 1 / 4) = (ow = 4 * iw)" "(?fy = 1 / 4) = (oh = 4 * ih)"
    using factor_quarter [OF i(3,4,7,8)] factor_quarter [OF i(1,2,5,6)] by linarith+
  show ?thesis
  proof (cases "simd \<and> ow = 4 * iw \<and> oh = 4 * ih")
    case True
    then have "?fx = 1 / 4" "?fy = 1 / 4" using q by blast+
    then have "resample_execute simd P in_dims out_dims src dst = None"
      using True False sz by (intro quarter_dispatch(2) [OF dims] assms(1) first_load_outside) auto
    then show ?thesis using True by simp
  next
    case no4: False
    have f: "0 < ?fx" "?fx \<le> 2 ^ 12" "0 < ?fy" "?fy \<le> 2 ^ 12" by (intro factor_range; use sz in simp)+
    have o: "int oh \<le> 2 ^ 12" "int ow \<le> 2 ^ 12" using sz by simp_all
    have "(\<forall>v \<in> set src. 0 \<le> v) \<longrightarrow> (\<forall>v \<in> set src. 0 \<le> v)" by blast
    from interpolation_ok [OF pl this o f] obtain dst' where dst':
      "InterpolationKernel src iw ih ?fx ?fy dst ow oh C B 2 ((1 < ?fx \<or> 1 < ?fy) \<and> antialias P) = Some dst'"
      "length dst' = length dst" "(\<forall>v \<in> set src. 0 \<le> v) \<longrightarrow> (\<forall>v \<in> set dst'. 0 \<le> v)" by blast
    note dst'(1)
    moreover have "\<not> (simd \<and> \<not> (1 < ?fx \<or> 1 < ?fy) \<and> ?fx = 1 / 4 \<and> ?fy = 1 / 4)" using no4 q by blast
    ultimately have "resample_execute simd P in_dims out_dims src dst = Some (OK, dst')"
      using False assms(1) lin unfolding resample_execute_def dims by (auto simp: Let_def)
    then show ?thesis unfolding if_not_P [OF no4] using False dst'(2,3) by blast
  qed
qed

theorem resample_linear_inside_witness:
  "(\<exists>dst'. resample_execute True (demo_resample\<lparr>rs_type := resample_linear_type, antialias := True\<rparr>) [1, 1, 2, 3] [1, 1, 2, 1] [1, 2, 3, 4, 5, 6] [0, 0] = Some (OK, dst') \<and>
     length dst' = length [0 :: f32, 0] \<and> (\<forall>v \<in> set dst'. 0 \<le> v)) \<and>
   resample_execute True (demo_resample\<lparr>rs_type := resample_linear_type\<rparr>) [1, 1, 1, 1] [1, 1, 4, 4] [5] (replicate 16 0) = None"
  using resample_linear_inside [of "demo_resample\<lparr>rs_type := resample_linear_type, antialias := True\<rparr>" "[1, 1, 2, 3]" 1 1 2 3 "[1, 1, 2, 1]" 2 1
      "[1, 2, 3, 4, 5, 6]" "[0, 0]" True]
    resample_linear_inside [of "demo_resample\<lparr>rs_type := resample_linear_type\<rparr>" "[1, 1, 1, 1]" 1 1 1 1 "[1, 1, 4, 4]" 4 4 "[5]" "replicate 16 0" True]
  by (simp add: planes_ok_def)

end
