(* ===== verification/PsRoi.thy ===== *)
theory PsRoi
  imports LayerBase
begin

text \<open>
  \<^verbatim>\<open>extension/ext_psroi.cpp\<close>: position-sensitive pooling. Every region of interest is divided into a grid of bins, and
  bin \<open>(h, w)\<close> of output channel \<open>c\<close> is the mean of the pixels of that bin in the input channel that
  belongs to \<open>c\<close> and to the position of the bin. The list of regions ends at the first with batch index -1; the
  outputs behind it are zero. The \<^verbatim>\<open>omp\<close> loops run over outputs that do not depend on each other, so the
  model takes them in order.
\<close>

section \<open>The layer\<close>

record psroi =
  output_dim :: int
  group_size :: int
  spatial_scale :: f32
  ps_channels :: int
  ps_height :: int
  ps_width :: int
  ps_nn :: int
  ps_nc :: int
  ps_nh :: int
  ps_nw :: int

text \<open>The constructor. It indexes the dimensions of its ports without a check, so fewer than four of them, or a
  missing port, are undefined.\<close>

definition psroi_new :: "cnn_layer \<Rightarrow> (ext_layer \<times> psroi option) option" where
  "psroi_new l =
     (if length (ins_data l) \<noteq> 2 \<or> length (out_data l) \<noteq> 1
      then Some (construct (Inl ''Incorrect number of input/output edges!''))
      else case try_with (int_param l ''output_dim'') (\<lambda>od. try_with (int_param l ''group_size'') (\<lambda>gs.
             try_with (float_param l ''spatial_scale'') (\<lambda>sc. Inr (od mod 2 ^ 64, gs mod 2 ^ 64, sc)))) of
        Inl e \<Rightarrow> Some (construct (Inl e))
      | Inr (od, gs, sc) \<Rightarrow> (case (ins_data l ! 0, out_data l ! 0) of
          (Some iport, Some oport) \<Rightarrow> (let ids = port_dims iport; ods = port_dims oport in
            if length ids < 4 \<or> length ods < 4 then None
            else Some (construct (try_with (addConfig l [conf PLN, conf PLN] [conf PLN] False) (\<lambda>c.
              Inr (\<lparr>output_dim = od, group_size = gs, spatial_scale = sc,
                ps_channels = int (ids ! 1), ps_height = int (ids ! 2), ps_width = int (ids ! 3),
                ps_nn = int (ods ! 0), ps_nc = int (ods ! 1), ps_nh = int (ods ! 2), ps_nw = int (ods ! 3)\<rparr>, c)))))
        | _ \<Rightarrow> None))"

text \<open>The loop that looks for the end of the list of regions; \<open>m\<close> of them are left.\<close>

primrec count_rois :: "f32 list \<Rightarrow> int \<Rightarrow> nat \<Rightarrow> int option" where
  "count_rois rois k 0 = Some k"
| "count_rois rois k (Suc m) = do {
     v \<leftarrow> ld rois (k * 5);
     roi_batch_ind \<leftarrow> f2i v;
     if roi_batch_ind = - 1 then Some k else count_rois rois (k + 1) m }"

text \<open>First and last edge of a region along one axis, in pixels of the feature map, and the size of its bins.\<close>

definition roi_edge :: "f32 \<Rightarrow> f32 \<Rightarrow> f32 \<Rightarrow> f32 \<times> f32" where
  "roi_edge scale lo hi = (fmul (d2f (roundf lo)) scale, fmul (d2f (dadd (roundf hi) 1)) scale)"

definition bin_size :: "int \<Rightarrow> f32 \<times> f32 \<Rightarrow> f32" where
  "bin_size pooled = (\<lambda>(roi_start, roi_end).
     fdiv (max (fsub roi_end roi_start) (rnd 24 (1 / 10))) (i2f pooled))"

text \<open>The rows (or columns) of bin \<open>k\<close>: from the first to before the second number, cut to the map.\<close>

definition bin_range :: "f32 \<Rightarrow> f32 \<Rightarrow> int \<Rightarrow> int \<Rightarrow> (int \<times> int) option" where
  "bin_range bin roi_start extent k = do {
     s \<leftarrow> f2i (of_int \<lfloor>fadd (fmul (i2f (k + 0)) bin) roi_start\<rfloor>);
     e \<leftarrow> f2i (of_int \<lceil>fadd (fmul (i2f (k + 1)) bin) roi_start\<rceil>);
     Some (min (max s 0) extent, min (max e 0) extent) }"

text \<open>A \<^verbatim>\<open>size_t\<close> stored to an \<^verbatim>\<open>int\<close> keeps its lower 32 bits.\<close>

definition to_int :: "int \<Rightarrow> int" where
  "to_int x = (x + 2 ^ 31) mod 2 ^ 32 - 2 ^ 31"

definition bin_sum :: "f32 list \<Rightarrow> int \<Rightarrow> int \<Rightarrow> int \<times> int \<Rightarrow> int \<times> int \<Rightarrow> f32 option" where
  "bin_sum bottom off width = (\<lambda>(hstart, hend) (wstart, wend).
     for_loop hstart hend (\<lambda>hh. for_loop wstart wend (\<lambda>ww out_sum. do {
       v \<leftarrow> ld bottom (off + (hh * width + ww));
       Some (fadd out_sum v) })) 0)"

definition pool_bin :: "psroi \<Rightarrow> f32 list \<Rightarrow> int \<Rightarrow> int \<Rightarrow> int \<times> int \<Rightarrow> f32 \<Rightarrow> f32 \<Rightarrow> int \<Rightarrow> int \<Rightarrow> int \<Rightarrow> f32 list \<Rightarrow> f32 list option" where
  "pool_bin P bottom n roi_batch_ind rows bin_size_w roi_start_w c h w d = do {
     let index = n * ps_nc P * ps_nh P * ps_nw P + c * ps_nh P * ps_nw P + h * ps_nw P + w;
     d1 \<leftarrow> st d index 0;
     cols \<leftarrow> bin_range bin_size_w roi_start_w (ps_width P) w;
     let area = (snd rows - fst rows) * (snd cols - fst cols);
     if \<not> int_ok area then None
     else if i2f area = 0 then Some d1
     else do {
       let gc = to_int (((c * group_size P + h) * group_size P + w) mod 2 ^ 64);
       out_sum \<leftarrow> bin_sum bottom ((roi_batch_ind * ps_channels P + gc) * ps_height P * ps_width P) (ps_width P) rows cols;
       st d1 index (fdiv out_sum (i2f area)) } }"

definition pool_roi :: "psroi \<Rightarrow> f32 list \<Rightarrow> f32 list \<Rightarrow> int \<Rightarrow> f32 list \<Rightarrow> f32 list option" where
  "pool_roi P bottom rois n d = do {
     v0 \<leftarrow> ld rois (n * 5 + 0);
     roi_batch_ind \<leftarrow> f2i v0;
     x1 \<leftarrow> ld rois (n * 5 + 1);
     y1 \<leftarrow> ld rois (n * 5 + 2);
     x2 \<leftarrow> ld rois (n * 5 + 3);
     y2 \<leftarrow> ld rois (n * 5 + 4);
     let ew = roi_edge (spatial_scale P) x1 x2;
     let eh = roi_edge (spatial_scale P) y1 y2;
     for_loop 0 (ps_nc P) (\<lambda>c. for_loop 0 (ps_nh P) (\<lambda>h d. do {
       rows \<leftarrow> bin_range (bin_size (group_size P) eh) (fst eh) (ps_height P) h;
       for_loop 0 (ps_nw P) (\<lambda>w. pool_bin P bottom n roi_batch_ind rows (bin_size (group_size P) ew) (fst ew) c h w) d })) d }"

definition psroi_execute :: "psroi \<Rightarrow> f32 list \<Rightarrow> f32 list \<Rightarrow> f32 list \<Rightarrow> (status_code \<times> f32 list) option" where
  "psroi_execute P bottom rois dst = do {
     real_rois \<leftarrow> count_rois rois 0 (nat (ps_nn P));
     d \<leftarrow> for_loop 0 real_rois (pool_roi P bottom rois) dst;
     d' \<leftarrow> for_loop real_rois (ps_nn P) (\<lambda>n. for_loop 0 (ps_nc P) (\<lambda>c. for_loop 0 (ps_nh P) (\<lambda>h. for_loop 0 (ps_nw P) (\<lambda>w d.
       st d (n * ps_nc P * ps_nh P * ps_nw P + c * ps_nh P * ps_nw P + h * ps_nw P + w) 0)))) d;
     Some (OK, d') }"

section \<open>Bins\<close>

text \<open>The ranges of the bins along one axis: each lies in the map, they move on with the bin, and there is no
  gap between neighbours.\<close>

definition bins_tile :: "int \<Rightarrow> int \<Rightarrow> (int \<Rightarrow> int \<times> int) \<Rightarrow> bool" where
  "bins_tile n extent r \<longleftrightarrow> (\<forall>k \<in> {0..<n}. 0 \<le> fst (r k) \<and> fst (r k) \<le> snd (r k) \<and> snd (r k) \<le> extent \<and>
     (k + 1 < n \<longrightarrow> fst (r k) \<le> fst (r (k + 1)) \<and> fst (r (k + 1)) \<le> snd (r k) \<and> snd (r k) \<le> snd (r (k + 1))))"

lemma edge_bounds:
  assumes "\<bar>lo\<bar> \<le> 2 ^ 20" "\<bar>hi\<bar> \<le> 2 ^ 20" "0 \<le> scale" "scale \<le> 1"
  shows "\<bar>fst (roi_edge scale lo hi)\<bar> \<le> 2 ^ 21" "\<bar>snd (roi_edge scale lo hi)\<bar> \<le> 2 ^ 21"
proof -
  have m: "\<bar>fmul (rnd 24 x) scale\<bar> \<le> 2 ^ 21" if "\<bar>x\<bar> \<le> 2 ^ 21" for x
  proof -
    have "\<bar>rnd 24 x\<bar> \<le> 2 ^ 21" using that by (rule rnd_abs_le)
    then have "\<bar>rnd 24 x * scale\<bar> \<le> 2 ^ 21 * 1" unfolding abs_mult using assms(3,4) by (intro mult_mono) simp_all
    then show ?thesis unfolding fmul_def by (intro rnd_abs_le) simp
  qed
  have r: "\<bar>roundf lo\<bar> \<le> 2 ^ 21" "\<bar>roundf hi + 1\<bar> \<le> 2 ^ 20 + 2" using roundf_near [of lo] roundf_near [of hi] assms(1,2) by (simp_all add: abs_le_iff; linarith)+
  have "\<bar>dadd (roundf hi) 1\<bar> \<le> 2 ^ 21"
  proof -
    have "rnd 53 (roundf hi + 1) \<le> rnd 53 (of_int (2 ^ 21))" "rnd 53 (of_int (- (2 ^ 21))) \<le> rnd 53 (roundf hi + 1)"
      using r(2) by (intro rnd_mono; simp)+
    then show ?thesis unfolding dadd_def by (subst (asm) (1 2) rnd_of_int; simp)
  qed
  with m r(1) show "\<bar>fst (roi_edge scale lo hi)\<bar> \<le> 2 ^ 21" "\<bar>snd (roi_edge scale lo hi)\<bar> \<le> 2 ^ 21"
    by (simp_all add: roi_edge_def d2f_def)
qed

lemma bin_size_bounds:
  assumes "\<bar>fst e\<bar> \<le> 2 ^ 21" "\<bar>snd e\<bar> \<le> 2 ^ 21" "0 < n" "n \<le> 2 ^ 6"
  shows "0 \<le> bin_size n e" "bin_size n e \<le> 2 ^ 22"
proof -
  have n: "i2f n = of_int n" using assms(3,4) by (intro i2f_exact) simp
  let ?m = "max (fsub (snd e) (fst e)) (rnd 24 (1 / 10))"
  have "rnd 24 (1 / 10) \<le> rnd 24 (of_int 1)" "0 < rnd 24 (1 / 10)" by (intro rnd_mono rnd_pos; simp)+
  moreover have "fsub (snd e) (fst e) \<le> 2 ^ 22" unfolding fsub_def using assms(1,2) by (intro rnd_le_pow) (simp add: abs_le_iff)
  ultimately have m: "0 \<le> ?m" "?m \<le> 2 ^ 22" by (auto simp: rnd_1)
  show "0 \<le> bin_size n e" using m(1) n assms(3) by (simp add: bin_size_def split_beta f_nonneg)
  have "?m / of_int n \<le> ?m / 1" using m(1) assms(3) by (intro divide_left_mono) simp_all
  then have "?m / of_int n \<le> 2 ^ 22" using m(2) by linarith
  then show "bin_size n e \<le> 2 ^ 22" unfolding bin_size_def split_beta n fdiv_def by (intro rnd_le_pow)
qed

definition bin_pos :: "f32 \<Rightarrow> f32 \<Rightarrow> int \<Rightarrow> f32" where
  "bin_pos bin roi_start k = fadd (fmul (i2f k) bin) roi_start"

definition bin_at :: "f32 \<Rightarrow> f32 \<Rightarrow> int \<Rightarrow> int \<Rightarrow> int \<times> int" where
  "bin_at bin roi_start extent k =
     (min (max \<lfloor>bin_pos bin roi_start k\<rfloor> 0) extent, min (max \<lceil>bin_pos bin roi_start (k + 1)\<rceil> 0) extent)"

lemma bin_pos_bounds:
  assumes "\<bar>roi_start\<bar> \<le> 2 ^ 21" "0 \<le> bin" "bin \<le> 2 ^ 22" "0 \<le> k" "k \<le> 2 ^ 6"
  shows "\<bar>bin_pos bin roi_start k\<bar> \<le> of_int (2 ^ 29)"
proof -
  have k: "i2f k = of_int k" using assms(4,5) by (intro i2f_exact) simp
  have "of_int k \<le> (of_int (2 ^ 6) :: rat)" using assms(5) by (simp only: of_int_le_iff)
  then have "of_int k * bin \<le> 2 ^ 6 * 2 ^ 22" using assms by (intro mult_mono) simp_all
  then have "of_int k * bin \<le> 2 ^ 28" by simp
  then have m: "fmul (i2f k) bin \<le> 2 ^ 28" "0 \<le> fmul (i2f k) bin"
    using assms unfolding k fmul_def by (auto intro: rnd_le_pow rnd_nonneg simp del: power_numeral)
  then have "\<bar>fmul (i2f k) bin + roi_start\<bar> \<le> 2 ^ 29" using assms(1) by (simp add: abs_le_iff)
  then have "\<bar>rnd 24 (fmul (i2f k) bin + roi_start)\<bar> \<le> 2 ^ 29" by (rule rnd_abs_le)
  then show ?thesis by (simp add: bin_pos_def fadd_def)
qed

lemma bin_range_eq:
  assumes "\<bar>roi_start\<bar> \<le> 2 ^ 21" "0 \<le> bin" "bin \<le> 2 ^ 22" "0 \<le> k" "k < 2 ^ 6"
  shows "bin_range bin roi_start extent k = Some (bin_at bin roi_start extent k)"
proof -
  let ?p = "bin_pos bin roi_start k" and ?q = "bin_pos bin roi_start (k + 1)"
  have b: "\<bar>?p\<bar> \<le> of_int (2 ^ 29)" "\<bar>?q\<bar> \<le> of_int (2 ^ 29)" using assms by (intro bin_pos_bounds; simp)+
  have "- of_int (2 ^ 29) \<le> ?p" "?q \<le> of_int (2 ^ 29)" "?p \<le> of_int (2 ^ 29)" "- of_int (2 ^ 29) \<le> ?q" using b by (simp_all add: abs_le_iff)
  then have "- (2 ^ 29) \<le> \<lfloor>?p\<rfloor>" "\<lceil>?q\<rceil> \<le> 2 ^ 29" "\<lfloor>?p\<rfloor> \<le> 2 ^ 29" "- (2 ^ 29) \<le> \<lceil>?q\<rceil>"
    by (simp_all add: le_floor_iff ceiling_le_iff, linarith?)
  then have "int_ok \<lfloor>?p\<rfloor>" "int_ok \<lceil>?q\<rceil>" by (simp_all add: int_ok_def)
  then have "f2i (of_int \<lfloor>?p\<rfloor>) = Some \<lfloor>?p\<rfloor>" "f2i (of_int \<lceil>?q\<rceil>) = Some \<lceil>?q\<rceil>" by (simp_all add: f2i_def)
  then show ?thesis by (simp add: bin_range_def bin_at_def bin_pos_def)
qed

lemma bin_at_tile:
  assumes "0 \<le> bin" "0 \<le> extent" "n \<le> 2 ^ 6"
  shows "bins_tile n extent (bin_at bin roi_start extent)"
proof -
  have m: "bin_pos bin roi_start k \<le> bin_pos bin roi_start (k + 1)" if "0 \<le> k" "k < 2 ^ 6" for k
  proof -
    have "i2f k = of_int k" "i2f (k + 1) = of_int (k + 1)" using that by (intro i2f_exact; simp)+
    then show ?thesis unfolding bin_pos_def using that assms(1) by (intro f_mono) simp_all
  qed
  have "0 \<le> fst (bin_at bin roi_start extent k) \<and> fst (bin_at bin roi_start extent k) \<le> snd (bin_at bin roi_start extent k) \<and>
      snd (bin_at bin roi_start extent k) \<le> extent \<and>
      (k + 1 < n \<longrightarrow> fst (bin_at bin roi_start extent k) \<le> fst (bin_at bin roi_start extent (k + 1)) \<and>
         fst (bin_at bin roi_start extent (k + 1)) \<le> snd (bin_at bin roi_start extent k) \<and>
         snd (bin_at bin roi_start extent k) \<le> snd (bin_at bin roi_start extent (k + 1)))" if k: "0 \<le> k" "k < n" for k
  proof -
    let ?p = "bin_pos bin roi_start"
    have 1: "\<lfloor>?p k\<rfloor> \<le> \<lfloor>?p (k + 1)\<rfloor>" "\<lfloor>?p (k + 1)\<rfloor> \<le> \<lceil>?p (k + 1)\<rceil>" using m [of k] k assms(3) by (simp_all add: floor_mono)
    have 2: "k + 1 < n \<longrightarrow> \<lceil>?p (k + 1)\<rceil> \<le> \<lceil>?p (k + 1 + 1)\<rceil>" using m [of "k + 1"] k assms(3) by (auto intro: ceiling_mono)
    have c: "min (max x 0) extent \<le> min (max y 0) extent" if "x \<le> y" for x y :: int using that by (auto simp: min_def max_def)
    have "\<lfloor>?p k\<rfloor> \<le> \<lceil>?p (k + 1)\<rceil>" using 1 by linarith
    then show ?thesis unfolding bin_at_def fst_conv snd_conv using 1 2 assms(2) by (intro conjI impI c) (simp_all, linarith?)
  qed
  then show ?thesis by (simp add: bins_tile_def)
qed

section \<open>The layer on a list of regions\<close>

text \<open>Sizes of the maps, and a list of \<open>R\<close> regions with batch indices \<open>bi\<close> and coordinates up to \<open>2 ^ 20\<close>.\<close>

definition psroi_ok :: "psroi \<Rightarrow> f32 list \<Rightarrow> int \<Rightarrow> f32 list \<Rightarrow> bool" where
  "psroi_ok P bottom B dst \<longleftrightarrow> 0 < group_size P \<and> group_size P \<le> 2 ^ 6 \<and> ps_nh P = group_size P \<and> ps_nw P = group_size P \<and>
     0 \<le> spatial_scale P \<and> spatial_scale P \<le> 1 \<and> 0 \<le> ps_nn P \<and> 0 \<le> ps_nc P \<and> 0 \<le> ps_height P \<and> 0 \<le> ps_width P \<and>
     ps_channels P = ps_nc P * group_size P * group_size P \<and>
     int (length bottom) = B * ps_channels P * ps_height P * ps_width P \<and> length bottom < 2 ^ 31 \<and>
     int (length dst) = ps_nn P * ps_nc P * group_size P * group_size P \<and> length dst \<le> 2 ^ 31"

definition rois_ok :: "psroi \<Rightarrow> int \<Rightarrow> f32 list \<Rightarrow> int \<Rightarrow> (int \<Rightarrow> int) \<Rightarrow> bool" where
  "rois_ok P B rois R bi \<longleftrightarrow> 0 \<le> R \<and> R \<le> ps_nn P \<and> int (length rois) = 5 * ps_nn P \<and> length rois \<le> 2 ^ 31 \<and>
     (\<forall>n \<in> {0..<R}. f2i (rois ! nat (n * 5)) = Some (bi n) \<and> 0 \<le> bi n \<and> bi n < B \<and>
        (\<forall>j \<in> {1..4}. \<bar>rois ! nat (n * 5 + j)\<bar> \<le> 2 ^ 20)) \<and>
     (R < ps_nn P \<longrightarrow> f2i (rois ! nat (R * 5)) = Some (- 1))"

text \<open>The mean of the pixels of a bin: their sum in the order of the rows, rounded at every step, over their number.\<close>

definition bin_mean :: "f32 list \<Rightarrow> int \<Rightarrow> int \<Rightarrow> int \<times> int \<Rightarrow> int \<times> int \<Rightarrow> f32" where
  "bin_mean bottom off width rows cols =
     (let area = (snd rows - fst rows) * (snd cols - fst cols) in
      if area = 0 then 0
      else fdiv (fold (\<lambda>(hh, ww) s. fadd s (bottom ! nat (off + (hh * width + ww))))
        (List.product [fst rows..snd rows - 1] [fst cols..snd cols - 1]) 0) (i2f area))"

lemma count_rois_ok:
  assumes "rois_ok P B rois R bi" "0 \<le> k" "k \<le> R" "int m = ps_nn P - k"
  shows "count_rois rois k m = Some R"
  using assms(2-)
proof (induction m arbitrary: k)
  case 0
  then show ?case using assms(1) by (simp add: rois_ok_def)
next
  case (Suc m)
  have "ld rois (k * 5) = Some (rois ! nat (k * 5))"
    using assms(1) Suc.prems by (intro ld_in [where k = "5 * ps_nn P"]) (auto simp: rois_ok_def)
  moreover have "f2i (rois ! nat (k * 5)) = Some (if k = R then - 1 else bi k)" "k < R \<Longrightarrow> 0 \<le> bi k"
    using assms(1) Suc.prems by (auto simp: rois_ok_def)
  moreover have "k < R \<Longrightarrow> count_rois rois (k + 1) m = Some R" using Suc by simp
  ultimately show ?case using Suc.prems(2) by auto
qed

lemma bin_sum_ok:
  assumes "\<And>hh ww. fst rows \<le> hh \<Longrightarrow> hh < snd rows \<Longrightarrow> fst cols \<le> ww \<Longrightarrow> ww < snd cols \<Longrightarrow>
      ld bottom (off + (hh * width + ww)) = Some (bottom ! nat (off + (hh * width + ww)))"
  shows "bin_sum bottom off width rows cols = Some (fold (\<lambda>(hh, ww) s. fadd s (bottom ! nat (off + (hh * width + ww))))
     (List.product [fst rows..snd rows - 1] [fst cols..snd cols - 1]) 0)"
proof -
  have "for_loop (fst cols) (snd cols) (\<lambda>ww s. do { v \<leftarrow> ld bottom (off + (hh * width + ww)); Some (fadd s v) }) s =
      Some (fold (\<lambda>ww s. fadd s (bottom ! nat (off + (hh * width + ww)))) [fst cols..snd cols - 1] s)"
    if "fst rows \<le> hh" "hh < snd rows" for hh s using assms that by (intro for_loop_pure) simp
  then have "bin_sum bottom off width rows cols = Some (fold (\<lambda>hh. fold (\<lambda>ww s. fadd s (bottom ! nat (off + (hh * width + ww)))) [fst cols..snd cols - 1])
      [fst rows..snd rows - 1] 0)" unfolding bin_sum_def split_beta by (rule for_loop_pure)
  then show ?thesis by (simp only: fold_product)
qed

lemma st_st: "st d i a = Some d1 \<Longrightarrow> st d1 i b = st d i b"
  by (auto simp: st_def split: if_splits)

lemma to_int_id: "0 \<le> x \<Longrightarrow> x < 2 ^ 31 \<Longrightarrow> to_int (x mod 2 ^ 64) = x"
  by (simp add: to_int_def)

lemma group_channel:
  fixes c h w g nc :: int
  assumes "0 \<le> c" "c < nc" "0 \<le> h" "h < g" "0 \<le> w" "w < g"
  shows "0 \<le> (c * g + h) * g + w" "(c * g + h) * g + w < nc * g * g"
  using assms flat_bound [of c nc h g] by (auto intro!: flat_bound)

lemma pool_bin_ok:
  assumes ok: "psroi_ok P bottom B dst" and i: "0 \<le> n" "n < ps_nn P" "0 \<le> c" "c < ps_nc P" "0 \<le> h" "h < group_size P" "0 \<le> w" "w < group_size P"
    and b: "0 \<le> b" "b < B" and d: "length d = length dst"
    and rows: "0 \<le> fst rows" "fst rows \<le> snd rows" "snd rows \<le> ps_height P"
    and cols: "bin_range bw sw (ps_width P) w = Some cols" "0 \<le> fst cols" "fst cols \<le> snd cols" "snd cols \<le> ps_width P"
    and v: "v n c h w = bin_mean bottom (idx4 (ps_channels P) (ps_height P) (ps_width P) b ((c * group_size P + h) * group_size P + w) 0 0) (ps_width P) rows cols"
  shows "\<exists>d'. pool_bin P bottom n b rows bw sw c h w d = Some d' \<and>
    wrote {idx4 (ps_nc P) (group_size P) (group_size P) n c h w} (at4 (ps_nc P) (group_size P) (group_size P) v) d d'"
proof -
  let ?g = "group_size P" and ?H = "ps_height P" and ?W = "ps_width P"
  let ?gc = "(c * ?g + h) * ?g + w" and ?area = "(snd rows - fst rows) * (snd cols - fst cols)"
  let ?i = "idx4 (ps_nc P) ?g ?g n c h w" and ?off = "(b * ps_channels P + ?gc) * ?H * ?W"
  note gc = group_channel [OF i(3-8)]
  have sz: "ps_channels P = ps_nc P * ?g * ?g" "ps_nh P = ?g" "ps_nw P = ?g" "int (length d) = ps_nn P * ps_nc P * ?g * ?g" "length d \<le> 2 ^ 31"
    and lb: "int (length bottom) = B * ps_channels P * ?H * ?W" "length bottom < 2 ^ 31" "0 \<le> ?H" "0 \<le> ?W"
    using ok d by (simp_all add: psroi_ok_def)
  have off: "?off = idx4 (ps_channels P) ?H ?W b ?gc 0 0" "?off + (hh * ?W + ww) = idx4 (ps_channels P) ?H ?W b ?gc hh ww" for hh ww
    by (simp_all add: algebra_simps)
  have ix: "n * ps_nc P * ps_nh P * ps_nw P + c * ps_nh P * ps_nw P + h * ps_nw P + w = ?i" by (simp add: sz algebra_simps)
  obtain d1 where d1: "st d ?i 0 = Some d1" using st_idx4 [OF sz(4,5) i, of "0 :: f32" "\<lambda>_ _ _ _. 0"] by auto
  obtain d' where d': "st d ?i (v n c h w) = Some d'" "wrote {?i} (at4 (ps_nc P) ?g ?g v) d d'" using st_idx4 [OF sz(4,5) i refl] by blast
  have BC: "1 \<le> B" "1 \<le> ps_channels P" using b gc sz(1) by linarith+
  have HW: "?H * ?W \<le> int (length bottom)"
  proof -
    have "1 * (?H * ?W) \<le> B * ps_channels P * (?H * ?W)" using BC lb by (intro mult_right_mono) (auto simp: mult_pos_pos int_one_le_iff_zero_less)
    then show ?thesis by (simp add: lb(1) mult.assoc)
  qed
  have area: "0 \<le> ?area" "?area \<le> ?H * ?W" using rows cols lb by (auto intro!: mult_mono)
  then have ao: "int_ok ?area" using HW lb(2) by (simp add: int_ok_def)
  have zero: "i2f ?area = 0 \<longleftrightarrow> ?area = 0"
    using area(1) by (rule i2f_eq_0)
  show ?thesis
  proof (cases "?area = 0")
    case True
    then have "v n c h w = 0" by (simp add: v bin_mean_def)
    then have "d' = d1" using d1 d'(1) by simp
    moreover have "pool_bin P bottom n b rows bw sw c h w d = Some d1"
      using zero True ao unfolding pool_bin_def Let_def ix d1 cols(1) Option.bind.simps by (simp only: if_True if_False simp_thms)
    ultimately show ?thesis using d'(2) by simp
  next
    case False
    have "1 \<le> ?H" "1 \<le> ?W" using False rows cols by (auto intro: ccontr)
    then have "1 \<le> ?H * ?W" using mult_mono [of 1 ?H 1 ?W] by simp
    have "ps_channels P * 1 \<le> ps_channels P * (?H * ?W)" using \<open>1 \<le> ?H * ?W\<close> BC by (intro mult_left_mono) simp_all
    also have "\<dots> \<le> B * (ps_channels P * (?H * ?W))" using BC lb mult_right_mono [of 1 B "ps_channels P * (?H * ?W)"] by simp
    also have "\<dots> = int (length bottom)" by (simp add: lb(1) mult.assoc)
    finally have "to_int (?gc mod 2 ^ 64) = ?gc" using gc sz(1) lb(2) by (intro to_int_id) simp_all
    moreover have "bin_sum bottom ?off ?W rows cols = Some (fold (\<lambda>(hh, ww) s. fadd s (bottom ! nat (?off + (hh * ?W + ww))))
        (List.product [fst rows..snd rows - 1] [fst cols..snd cols - 1]) 0)"
    proof (rule bin_sum_ok)
      fix hh ww assume "fst rows \<le> hh" "hh < snd rows" "fst cols \<le> ww" "ww < snd cols"
      then have "0 \<le> hh" "hh < ?H" "0 \<le> ww" "ww < ?W" using rows cols by linarith+
      then show "ld bottom (?off + (hh * ?W + ww)) = Some (bottom ! nat (?off + (hh * ?W + ww)))"
        unfolding off(2) using gc sz(1) lb b by (intro ld_idx4) simp_all
    qed
    moreover have "v n c h w = fdiv (fold (\<lambda>(hh, ww) s. fadd s (bottom ! nat (?off + (hh * ?W + ww))))
        (List.product [fst rows..snd rows - 1] [fst cols..snd cols - 1]) 0) (i2f ?area)"
      unfolding v bin_mean_def Let_def off(1) using False by simp
    ultimately have "pool_bin P bottom n b rows bw sw c h w d = st d1 ?i (v n c h w)"
      using zero False ao unfolding pool_bin_def Let_def ix d1 cols(1) Option.bind.simps by (simp only: if_True if_False simp_thms Option.bind.simps)
    then show ?thesis using d' st_st [OF d1] by simp
  qed
qed

text \<open>The bins of region \<open>n\<close> along the two axes.\<close>

definition roi_rows :: "psroi \<Rightarrow> f32 list \<Rightarrow> int \<Rightarrow> int \<Rightarrow> int \<times> int" where
  "roi_rows P rois n = (let e = roi_edge (spatial_scale P) (rois ! nat (n * 5 + 2)) (rois ! nat (n * 5 + 4))
     in bin_at (bin_size (group_size P) e) (fst e) (ps_height P))"

definition roi_cols :: "psroi \<Rightarrow> f32 list \<Rightarrow> int \<Rightarrow> int \<Rightarrow> int \<times> int" where
  "roi_cols P rois n = (let e = roi_edge (spatial_scale P) (rois ! nat (n * 5 + 1)) (rois ! nat (n * 5 + 3))
     in bin_at (bin_size (group_size P) e) (fst e) (ps_width P))"

definition psroi_value :: "psroi \<Rightarrow> f32 list \<Rightarrow> f32 list \<Rightarrow> int \<Rightarrow> (int \<Rightarrow> int) \<Rightarrow> int \<Rightarrow> int \<Rightarrow> int \<Rightarrow> int \<Rightarrow> f32" where
  "psroi_value P bottom rois R bi n c h w = (if n < R then
     bin_mean bottom (idx4 (ps_channels P) (ps_height P) (ps_width P) (bi n) ((c * group_size P + h) * group_size P + w) 0 0)
       (ps_width P) (roi_rows P rois n h) (roi_cols P rois n w) else 0)"

lemma roi_edges_ok:
  assumes "psroi_ok P bottom B dst" "rois_ok P B rois R bi" "0 \<le> n" "n < R" and j: "(j, k) \<in> {(1, 3), (2, 4)}"
  defines "e \<equiv> roi_edge (spatial_scale P) (rois ! nat (n * 5 + j)) (rois ! nat (n * 5 + k))"
  shows "\<bar>fst e\<bar> \<le> 2 ^ 21" "0 \<le> bin_size (group_size P) e" "bin_size (group_size P) e \<le> 2 ^ 22"
proof -
  have "\<forall>i \<in> {1..4}. \<bar>rois ! nat (n * 5 + i)\<bar> \<le> 2 ^ 20" using assms(2-4) unfolding rois_ok_def by simp
  then have c: "\<bar>rois ! nat (n * 5 + j)\<bar> \<le> 2 ^ 20" "\<bar>rois ! nat (n * 5 + k)\<bar> \<le> 2 ^ 20" using j by auto
  have s: "0 \<le> spatial_scale P" "spatial_scale P \<le> 1" "0 < group_size P" "group_size P \<le> 2 ^ 6" using assms(1) by (simp_all add: psroi_ok_def)
  note e = edge_bounds [OF c s(1,2), folded e_def]
  show "\<bar>fst e\<bar> \<le> 2 ^ 21" "0 \<le> bin_size (group_size P) e" "bin_size (group_size P) e \<le> 2 ^ 22"
    using e bin_size_bounds [OF e s(3,4)] by simp_all
qed

lemma roi_bins_tile:
  assumes "psroi_ok P bottom B dst" "rois_ok P B rois R bi" "0 \<le> n" "n < R"
  shows "bins_tile (group_size P) (ps_height P) (roi_rows P rois n)" "bins_tile (group_size P) (ps_width P) (roi_cols P rois n)"
  unfolding roi_rows_def roi_cols_def Let_def using assms(1)
  by (intro bin_at_tile roi_edges_ok(2) [OF assms]; simp add: psroi_ok_def)+

lemma pool_roi_ok:
  assumes ok: "psroi_ok P bottom B dst" and ro: "rois_ok P B rois R bi" and n: "0 \<le> n" "n < R" and d: "length d = length dst"
  shows "\<exists>d'. pool_roi P bottom rois n d = Some d' \<and>
    wrote (\<Union>c\<in>{0..<ps_nc P}. \<Union>h\<in>{0..<group_size P}. \<Union>w\<in>{0..<group_size P}. {idx4 (ps_nc P) (group_size P) (group_size P) n c h w})
      (at4 (ps_nc P) (group_size P) (group_size P) (psroi_value P bottom rois R bi)) d d'"
proof -
  let ?g = "group_size P" and ?v = "psroi_value P bottom rois R bi"
  have ld: "ld rois (n * 5 + j) = Some (rois ! nat (n * 5 + j))" if "0 \<le> j" "j < 5" for j
    using ro n that by (intro ld_in [where k = "5 * ps_nn P"]) (auto simp: rois_ok_def)
  have bi: "f2i (rois ! nat (n * 5)) = Some (bi n)" "0 \<le> bi n" "bi n < B" "n < ps_nn P" using ro n by (auto simp: rois_ok_def)
  have g: "ps_nh P = ?g" "ps_nw P = ?g" "?g \<le> 2 ^ 6" using ok by (simp_all add: psroi_ok_def)
  note e = roi_edges_ok [OF ok ro n]
  have rows: "bin_range (bin_size ?g eh) (fst eh) (ps_height P) h = Some (roi_rows P rois n h)"
    if "eh = roi_edge (spatial_scale P) (rois ! nat (n * 5 + 2)) (rois ! nat (n * 5 + 4))" "0 \<le> h" "h < ?g" for eh h
    using e [of 2 4] that g(3) by (simp add: roi_rows_def Let_def bin_range_eq)
  have cols: "bin_range (bin_size ?g ew) (fst ew) (ps_width P) w = Some (roi_cols P rois n w)"
    if "ew = roi_edge (spatial_scale P) (rois ! nat (n * 5 + 1)) (rois ! nat (n * 5 + 3))" "0 \<le> w" "w < ?g" for ew w
    using e [of 1 3] that g(3) by (simp add: roi_cols_def Let_def bin_range_eq)
  have tile: "0 \<le> fst (roi_rows P rois n h)" "fst (roi_rows P rois n h) \<le> snd (roi_rows P rois n h)" "snd (roi_rows P rois n h) \<le> ps_height P"
    "0 \<le> fst (roi_cols P rois n h)" "fst (roi_cols P rois n h) \<le> snd (roi_cols P rois n h)" "snd (roi_cols P rois n h) \<le> ps_width P"
    if "0 \<le> h" "h < ?g" for h using roi_bins_tile [OF ok ro n] that by (simp_all add: bins_tile_def)
  define ew where "ew = roi_edge (spatial_scale P) (rois ! nat (n * 5 + 1)) (rois ! nat (n * 5 + 3))"
  define eh where "eh = roi_edge (spatial_scale P) (rois ! nat (n * 5 + 2)) (rois ! nat (n * 5 + 4))"
  have cell: "\<exists>d'. pool_bin P bottom n (bi n) (roi_rows P rois n h) (bin_size ?g ew) (fst ew) c h w d = Some d' \<and>
      wrote {idx4 (ps_nc P) ?g ?g n c h w} (at4 (ps_nc P) ?g ?g ?v) d d'"
    if i: "0 \<le> c" "c < ps_nc P" "0 \<le> h" "h < ?g" "0 \<le> w" "w < ?g" and d: "length d = length dst" for c h w d
    by (rule pool_bin_ok [OF ok n(1) bi(4) i bi(2,3) d tile(1-3) [OF i(3,4)] cols [OF ew_def i(5,6)] tile(4-6) [OF i(5,6)]])
       (simp add: psroi_value_def n)
  have row: "\<exists>d'. (do { rows \<leftarrow> bin_range (bin_size ?g eh) (fst eh) (ps_height P) h;
        for_loop 0 ?g (\<lambda>w. pool_bin P bottom n (bi n) rows (bin_size ?g ew) (fst ew) c h w) d }) = Some d' \<and>
      wrote (\<Union>w\<in>{0..<?g}. {idx4 (ps_nc P) ?g ?g n c h w}) (at4 (ps_nc P) ?g ?g ?v) d d'"
    if i: "0 \<le> c" "c < ps_nc P" "0 \<le> h" "h < ?g" and d: "length d = length dst" for c h d
    unfolding rows [OF eh_def i(3,4)] Option.bind.simps
    by (rule wrote_for [where n = "length dst"]) (use d cell i in auto)
  have "pool_roi P bottom rois n d = for_loop 0 (ps_nc P) (\<lambda>c. for_loop 0 ?g (\<lambda>h d. do {
       rows \<leftarrow> bin_range (bin_size ?g eh) (fst eh) (ps_height P) h;
       for_loop 0 ?g (\<lambda>w. pool_bin P bottom n (bi n) rows (bin_size ?g ew) (fst ew) c h w) d })) d"
    using ld [of 0] bi(1) by (simp add: pool_roi_def g ld eh_def ew_def Let_def)
  then show ?thesis using d row by (auto intro!: wrote_for [where n = "length dst"] simp del: UN_singleton)
qed

lemma psroi_loops:
  assumes ok: "psroi_ok P bottom B dst" and ro: "rois_ok P B rois R bi"
  shows "\<exists>d'. psroi_execute P bottom rois dst = Some (OK, d') \<and> wrote (\<Union>n\<in>{0..<ps_nn P}. \<Union>c\<in>{0..<ps_nc P}.
      \<Union>h\<in>{0..<group_size P}. \<Union>w\<in>{0..<group_size P}. {idx4 (ps_nc P) (group_size P) (group_size P) n c h w})
    (at4 (ps_nc P) (group_size P) (group_size P) (psroi_value P bottom rois R bi)) dst d'"
proof -
  let ?g = "group_size P" and ?v = "psroi_value P bottom rois R bi"
  let ?S = "\<lambda>n. \<Union>c\<in>{0..<ps_nc P}. \<Union>h\<in>{0..<?g}. \<Union>w\<in>{0..<?g}. {idx4 (ps_nc P) ?g ?g n c h w}"
  have R: "0 \<le> R" "R \<le> ps_nn P" and g: "ps_nh P = ?g" "ps_nw P = ?g"
    and sz: "int (length dst) = ps_nn P * ps_nc P * ?g * ?g" "length dst \<le> 2 ^ 31"
    using ok ro by (simp_all add: psroi_ok_def rois_ok_def)
  have c: "count_rois rois 0 (nat (ps_nn P)) = Some R" using R by (intro count_rois_ok [OF ro]) simp_all
  have "\<exists>d. for_loop 0 R (pool_roi P bottom rois) dst = Some d \<and> wrote (\<Union>n\<in>{0..<R}. ?S n) (at4 (ps_nc P) ?g ?g ?v) dst d"
    by (rule wrote_for [where n = "length dst"]) (use pool_roi_ok [OF ok ro] in simp_all)
  then obtain d where d: "for_loop 0 R (pool_roi P bottom rois) dst = Some d" "wrote (\<Union>n\<in>{0..<R}. ?S n) (at4 (ps_nc P) ?g ?g ?v) dst d" by blast
  have ix: "n * ps_nc P * ?g * ?g + c * ?g * ?g + h * ?g + w = idx4 (ps_nc P) ?g ?g n c h w" for n c h w by (simp add: algebra_simps)
  have "\<exists>d'. for_loop R (ps_nn P) (\<lambda>n. for_loop 0 (ps_nc P) (\<lambda>c. for_loop 0 ?g (\<lambda>h. for_loop 0 ?g (\<lambda>w d.
       st d (idx4 (ps_nc P) ?g ?g n c h w) 0)))) d = Some d' \<and> wrote (\<Union>n\<in>{R..<ps_nn P}. ?S n) (at4 (ps_nc P) ?g ?g ?v) d d'"
    using R sz wrote_length [OF d(2)]
    by (intro wrote_for [where n = "length dst"] st_idx4 [where B = "ps_nn P"]) (simp_all add: psroi_value_def)
  then obtain d' where d': "for_loop R (ps_nn P) (\<lambda>n. for_loop 0 (ps_nc P) (\<lambda>c. for_loop 0 ?g (\<lambda>h. for_loop 0 ?g (\<lambda>w d.
       st d (idx4 (ps_nc P) ?g ?g n c h w) 0)))) d = Some d'" "wrote (\<Union>n\<in>{R..<ps_nn P}. ?S n) (at4 (ps_nc P) ?g ?g ?v) d d'" by blast
  have "{0..<R} \<union> {R..<ps_nn P} = {0..<ps_nn P}" using R by auto
  then have "wrote (\<Union>n\<in>{0..<ps_nn P}. ?S n) (at4 (ps_nc P) ?g ?g ?v) dst d'"
    using wrote_comp [OF d(2) d'(2)] by (simp only: UN_Un [symmetric])
  moreover have "psroi_execute P bottom rois dst = Some (OK, d')"
    unfolding psroi_execute_def g ix using c d(1) d'(1) by simp
  ultimately show ?thesis by blast
qed

section \<open>Property\<close>

text \<open>C15. With maps of the sizes that the description gives, and a list of regions whose batch indices name
  images of the batch up to the end mark -1 (the code reads the index without a check) and whose
  coordinates are at most \<open>2 ^ 20\<close> in absolute value, the layer stays inside its buffers: the regions
  may lie outside the map or be turned over. The bins of a region lie in the map, follow each other
  without a gap along both axes, and the output is the mean of the bin in the input channel of its
  output channel and grid position, of the region's own image; it is zero for an empty bin and for every
  region from the end mark on.\<close>

theorem psroi_pools:
  assumes ok: "psroi_ok P bottom B dst" and ro: "rois_ok P B rois R bi"
  shows "\<exists>dst'. psroi_execute P bottom rois dst = Some (OK, dst') \<and>
    blob4 (ps_nn P) (ps_nc P) (group_size P) (group_size P) (\<lambda>n c h w. if n < R then
       bin_mean bottom (idx4 (ps_channels P) (ps_height P) (ps_width P) (bi n) ((c * group_size P + h) * group_size P + w) 0 0)
         (ps_width P) (roi_rows P rois n h) (roi_cols P rois n w) else 0) dst' \<and>
    (\<forall>n \<in> {0..<R}. bins_tile (group_size P) (ps_height P) (roi_rows P rois n) \<and>
       bins_tile (group_size P) (ps_width P) (roi_cols P rois n))"
proof -
  let ?g = "group_size P" and ?v = "psroi_value P bottom rois R bi"
  have sz: "int (length dst) = ps_nn P * ps_nc P * ?g * ?g" "0 \<le> ps_nc P" "0 \<le> ?g" using ok by (simp_all add: psroi_ok_def)
  obtain d' where d': "psroi_execute P bottom rois dst = Some (OK, d')"
    and w: "wrote (\<Union>n\<in>{0..<ps_nn P}. \<Union>c\<in>{0..<ps_nc P}. \<Union>h\<in>{0..<?g}. \<Union>w\<in>{0..<?g}. {idx4 (ps_nc P) ?g ?g n c h w})
      (at4 (ps_nc P) ?g ?g ?v) dst d'"
    using psroi_loops [OF ok ro] by blast
  have "d' = map (\<lambda>i. at4 (ps_nc P) ?g ?g ?v (int i)) [0..<length dst]"
  proof (rule wrote_all [OF w])
    fix i assume "0 \<le> i" "i < int (length dst)"
    then have "0 \<le> i" "i < ps_nn P * ps_nc P * ?g * ?g" using sz by simp_all
    then show "i \<in> (\<Union>n\<in>{0..<ps_nn P}. \<Union>c\<in>{0..<ps_nc P}. \<Union>h\<in>{0..<?g}. \<Union>w\<in>{0..<?g}. {idx4 (ps_nc P) ?g ?g n c h w})"
      by (rule idx4_cases [OF _ _ sz(2,3,3)]) (simp, force)
  qed
  then have "blob4 (ps_nn P) (ps_nc P) ?g ?g ?v d'" using blob4_map [OF sz(1)] by simp
  moreover have "psroi_value P bottom rois R bi = (\<lambda>n c h w. if n < R then
       bin_mean bottom (idx4 (ps_channels P) (ps_height P) (ps_width P) (bi n) ((c * group_size P + h) * group_size P + w) 0 0)
         (ps_width P) (roi_rows P rois n h) (roi_cols P rois n w) else 0)" by (intro ext) (simp add: psroi_value_def)
  ultimately show ?thesis using d' roi_bins_tile [OF ok ro] by auto
qed

definition demo_psroi :: psroi where
  "demo_psroi = \<lparr>output_dim = 1, group_size = 1, spatial_scale = 1, ps_channels = 1, ps_height = 2, ps_width = 2,
     ps_nn = 2, ps_nc = 1, ps_nh = 1, ps_nw = 1\<rparr>"

theorem psroi_pools_witness:
  "\<exists>dst'. psroi_execute demo_psroi [1, 2, 3, 4] [0, 0, 0, 1, 1, - 1, 0, 0, 0, 0] [9, 9] = Some (OK, dst') \<and> length dst' = 2"
proof -
  have "psroi_ok demo_psroi [1, 2, 3, 4] 1 [9, 9]" by (simp add: psroi_ok_def demo_psroi_def)
  moreover have "rois_ok demo_psroi 1 [0, 0, 0, 1, 1, - 1, 0, 0, 0, 0] 1 (\<lambda>_. 0)"
  proof -
    have "n = 0" if "n \<in> {0..<1 :: int}" for n using that by simp
    moreover have "{1..4 :: int} = {1, 2, 3, 4}" by auto
    moreover have "\<lceil>- 1 :: rat\<rceil> = - 1" using ceiling_of_int [of "- 1", where ?'a = rat] by simp
    ultimately show ?thesis by (auto simp: rois_ok_def demo_psroi_def f2i_def ctrunc_def int_ok_def)
  qed
  ultimately show ?thesis using psroi_pools [of demo_psroi "[1, 2, 3, 4]" 1 "[9, 9]" "[0, 0, 0, 1, 1, - 1, 0, 0, 0, 0]" 1 "\<lambda>_. 0"]
    by (auto simp: demo_psroi_def blob4_def)
qed

end
