(* ===== verification/RegionYolo.thy ===== *)
theory RegionYolo
  imports LayerBase
begin

text \<open>
  \<^verbatim>\<open>extension/ext_region_yolo.cpp\<close> and the portable loop of \<^verbatim>\<open>softmax_generic\<close> in \<^verbatim>\<open>extension/common/softmax.h\<close>: the output
  layer of a YOLO network. The input has \<open>num\<close> groups of channels for every image, each with \<open>coords\<close>
  coordinates, one objectness and \<open>classes\<close> scores. The first two coordinates and the objectness go through the logistic
  function, the scores through softmax, and the rest is copied.

  The unqualified \<^verbatim>\<open>exp\<close> is that of C on \<^verbatim>\<open>double\<close>, the argument \<open>expd\<close>.
\<close>

section \<open>Softmax\<close>

text \<open>One pixel \<open>i\<close>; \<open>off\<close> is the start of the planes in both buffers.\<close>

definition softmax_pixel :: "(rat \<Rightarrow> rat) \<Rightarrow> f32 list \<Rightarrow> int \<Rightarrow> int \<Rightarrow> int \<Rightarrow> int \<Rightarrow> int \<Rightarrow> int \<Rightarrow> f32 list \<Rightarrow> f32 list option" where
  "softmax_pixel expd src off b C H W i d = do {
     m0 \<leftarrow> ld src (off + (b * C * H * W + i));
     m \<leftarrow> for_loop 0 C (\<lambda>c m. do { v \<leftarrow> ld src (off + (b * C * H * W + c * H * W + i)); Some (if m < v then v else m) }) m0;
     (d1, expSum) \<leftarrow> for_loop 0 C (\<lambda>c (d, s). do {
       v \<leftarrow> ld src (off + (b * C * H * W + c * H * W + i));
       let e = d2f (expd (fsub v m));
       d' \<leftarrow> st d (off + (b * C * H * W + c * H * W + i)) e;
       Some (d', fadd s e) }) (d, 0);
     for_loop 0 C (\<lambda>c d. do {
       v \<leftarrow> ld d (off + (b * C * H * W + c * H * W + i));
       st d (off + (b * C * H * W + c * H * W + i)) (fdiv v expSum) }) d1 }"

definition softmax_generic :: "(rat \<Rightarrow> rat) \<Rightarrow> f32 list \<Rightarrow> int \<Rightarrow> int \<Rightarrow> int \<Rightarrow> int \<Rightarrow> int \<Rightarrow> f32 list \<Rightarrow> f32 list option" where
  "softmax_generic expd src off B C H W d =
     for_loop 0 B (\<lambda>b. for_loop 0 (H * W) (softmax_pixel expd src off b C H W)) d"

section \<open>The layer\<close>

record region_yolo =
  ry_classes :: int
  ry_coords :: int
  ry_num :: int

definition region_yolo_new :: "cnn_layer \<Rightarrow> ext_layer \<times> region_yolo option" where
  "region_yolo_new l = construct
     (if length (ins_data l) \<noteq> 1 \<or> out_data l = [] then Inl ''Incorrect number of input/output edges!''
      else try_with (int_param l ''classes'') (\<lambda>cl. try_with (int_param l ''coords'') (\<lambda>co. try_with (int_param l ''num'') (\<lambda>n.
        try_with (addConfig l [conf PLN] [conf PLN] False) (\<lambda>c.
          Inr (\<lparr>ry_classes = cl, ry_coords = co, ry_num = n\<rparr>, c))))))"

definition entry_index :: "int \<Rightarrow> int \<Rightarrow> int \<Rightarrow> int \<Rightarrow> int \<Rightarrow> int \<Rightarrow> int \<Rightarrow> int \<Rightarrow> int option" where
  "entry_index width height coords classes outputs batch location entry =
     (if width * height = 0 then None
      else let n = cquot location (width * height); loc = crem location (width * height)
        in Some (batch * outputs + n * width * height * (coords + classes + 1) + entry * width * height + loc))"

definition logistic_activate :: "(rat \<Rightarrow> rat) \<Rightarrow> f32 \<Rightarrow> f32" where
  "logistic_activate expd x = d2f (ddiv 1 (dadd 1 (expd (- x))))"

definition logistic_run :: "(rat \<Rightarrow> rat) \<Rightarrow> int \<Rightarrow> int \<Rightarrow> f32 list \<Rightarrow> f32 list option" where
  "logistic_run expd a b d = for_loop a b (\<lambda>i d. do { v \<leftarrow> ld d i; st d i (logistic_activate expd v) }) d"

text \<open>The two logistic runs for one group of one image.\<close>

definition region_group :: "(rat \<Rightarrow> rat) \<Rightarrow> region_yolo \<Rightarrow> int \<Rightarrow> int \<Rightarrow> int \<Rightarrow> int \<Rightarrow> int \<Rightarrow> f32 list \<Rightarrow> f32 list option" where
  "region_group expd P IH IW inputs_size b n d = do {
     index \<leftarrow> entry_index IW IH (ry_coords P) (ry_classes P) inputs_size b (n * IW * IH) 0;
     d1 \<leftarrow> logistic_run expd index (index + 2 * IW * IH) d;
     index \<leftarrow> entry_index IW IH (ry_coords P) (ry_classes P) inputs_size b (n * IW * IH) (ry_coords P);
     logistic_run expd index (index + IW * IH) d1 }"

definition region_yolo_execute :: "(rat \<Rightarrow> rat) \<Rightarrow> region_yolo \<Rightarrow> nat list \<Rightarrow> f32 list \<Rightarrow> f32 list \<Rightarrow> (status_code \<times> f32 list) option" where
  "region_yolo_execute expd P dims src dst = do {
     let IW = dim_at dims 3;
     let IH = dim_at dims 2;
     let IC = dim_at dims 1;
     let B = dim_at dims 0;
     run \<leftarrow> ld_run src 0 (B * IC * IH * IW);
     d0 \<leftarrow> st_run dst 0 run;
     let inputs_size = IH * IW * ry_num P * (ry_classes P + ry_coords P + 1);
     d1 \<leftarrow> for_loop 0 B (\<lambda>b. for_loop 0 (ry_num P) (region_group expd P IH IW inputs_size b)) d0;
     index \<leftarrow> entry_index IW IH (ry_coords P) (ry_classes P) inputs_size 0 0 (ry_coords P + 1);
     if ry_num P = 0 then None
     else do {
       let batch_offset = cquot inputs_size (ry_num P);
       d2 \<leftarrow> for_loop 0 (B * ry_num P) (\<lambda>b. softmax_generic expd src (index + b * batch_offset) 1 (ry_classes P) IH IW) d1;
       Some (OK, d2) } }"

section \<open>What softmax computes\<close>

text \<open>The reference: the exponentials of the distances to the greatest score, over their sum.\<close>

definition soft_exp :: "(rat \<Rightarrow> rat) \<Rightarrow> f32 list \<Rightarrow> f32 \<Rightarrow> f32" where
  "soft_exp expd xs x = d2f (expd (fsub x (Max (set xs))))"

definition soft_sum :: "(rat \<Rightarrow> rat) \<Rightarrow> f32 list \<Rightarrow> f32" where
  "soft_sum expd xs = fold (\<lambda>x s. fadd s (soft_exp expd xs x)) xs 0"

definition softmax_of :: "(rat \<Rightarrow> rat) \<Rightarrow> f32 list \<Rightarrow> f32 \<Rightarrow> f32" where
  "softmax_of expd xs x = fdiv (soft_exp expd xs x) (soft_sum expd xs)"

lemma fold_max: "fold (\<lambda>v m. if m < v then v else m) xs a = Max (insert a (set xs))"
proof (induction xs arbitrary: a)
  case (Cons x xs)
  have m: "(if a < x then x else a) = max a x" by (auto simp: max_def)
  have "Max (insert (max a x) (set xs)) = Max (insert a (insert x (set xs)))"
    by (cases "set xs = {}") (simp_all add: max.assoc)
  then show ?case by (simp only: fold_simps comp_apply m Cons.IH list.set)
qed simp

lemma soft_exp_float:
  assumes "\<And>x. 0 \<le> expd x"
  shows "0 \<le> soft_exp expd xs x" "rnd 24 (soft_exp expd xs x) = soft_exp expd xs x"
  by (simp_all add: soft_exp_def d2f_def assms rnd_nonneg rnd_idem)

lemma fold_sum_bounds:
  assumes "\<And>x. 0 \<le> f x" "\<And>x. rnd 24 (f x) = f x" "0 \<le> s" "rnd 24 s = s"
  shows "s \<le> fold (\<lambda>x s. fadd s (f x)) ys s \<and> (\<forall>y \<in> set ys. f y \<le> fold (\<lambda>x s. fadd s (f x)) ys s)"
  using assms(3,4)
proof (induction ys arbitrary: s)
  case (Cons y ys)
  let ?s = "fadd s (f y)"
  have s: "0 \<le> ?s" "rnd 24 ?s = ?s" using Cons.prems assms(1) by (simp_all add: fadd_def rnd_nonneg rnd_idem)
  have "rnd 24 s \<le> ?s" "rnd 24 (f y) \<le> ?s" unfolding fadd_def using Cons.prems assms(1) [of y] by (intro rnd_mono; simp)+
  then have "s \<le> ?s" "f y \<le> ?s" using Cons.prems(2) assms(2) by simp_all
  then show ?case using Cons.IH [OF s] by auto
qed simp

text \<open>Each result lies between 0 and 1, whatever the rounding errors are.\<close>

lemma softmax_bounds:
  assumes e: "\<And>x. 0 \<le> expd x" "expd 0 = 1" and x: "x \<in> set xs"
  shows "0 \<le> softmax_of expd xs x" "softmax_of expd xs x \<le> 1"
proof -
  note b = fold_sum_bounds [of "soft_exp expd xs", OF soft_exp_float [OF e(1)], of 0 xs, folded soft_sum_def]
  have m: "Max (set xs) \<in> set xs" using x by (intro Max_in) auto
  have "soft_exp expd xs (Max (set xs)) = 1" by (simp add: soft_exp_def fsub_def e(2) d2f_def rnd_1)
  then have s: "1 \<le> soft_sum expd xs" using b m by (metis order_refl rnd_0)
  have le: "soft_exp expd xs x \<le> soft_sum expd xs" and nn: "0 \<le> soft_exp expd xs x" using b x soft_exp_float [OF e(1)] by auto
  show "0 \<le> softmax_of expd xs x" using nn s by (simp add: softmax_of_def f_nonneg)
  have "soft_exp expd xs x / soft_sum expd xs \<le> 1" using le s by simp
  then have "rnd 24 (soft_exp expd xs x / soft_sum expd xs) \<le> rnd 24 1" by (rule rnd_mono) simp
  then show "softmax_of expd xs x \<le> 1" by (simp add: softmax_of_def fdiv_def rnd_1)
qed

lemma logistic_bounds:
  assumes "\<And>x. 0 \<le> expd x"
  shows "0 \<le> logistic_activate expd x" "logistic_activate expd x \<le> 1"
proof -
  have "rnd 53 1 \<le> dadd 1 (expd (- x))" unfolding dadd_def using assms by (intro rnd_mono) simp_all
  then have s: "1 \<le> dadd 1 (expd (- x))" by (simp add: rnd_1)
  then have "ddiv 1 (dadd 1 (expd (- x))) \<le> rnd 53 1" unfolding ddiv_def by (intro rnd_mono) simp_all
  then have d: "ddiv 1 (dadd 1 (expd (- x))) \<le> 1" "0 \<le> ddiv 1 (dadd 1 (expd (- x)))"
    using s by (simp_all add: rnd_1) (simp add: ddiv_def rnd_nonneg)
  then have "d2f (ddiv 1 (dadd 1 (expd (- x)))) \<le> rnd 24 1" unfolding d2f_def by (intro rnd_mono) simp_all
  then show "logistic_activate expd x \<le> 1" by (simp add: logistic_activate_def rnd_1)
  show "0 \<le> logistic_activate expd x" using d(2) by (simp add: logistic_activate_def d2f_def rnd_nonneg)
qed

section \<open>The loops\<close>

lemma image_upto_Suc: "0 \<le> c \<Longrightarrow> A ` {0..<c + 1 :: int} = A ` {0..<c} \<union> {A c}"
proof -
  assume "0 \<le> c"
  then have "{0..<c + 1} = insert c {0..<c}" by auto
  then show ?thesis by simp
qed

lemma softmax_pixel_ok:
  assumes C: "0 < C" and A: "\<And>c. A c = off + (0 * C * H * W + c * H * W + i)"
    and b: "\<And>c. 0 \<le> c \<Longrightarrow> c < C \<Longrightarrow> 0 \<le> A c \<and> A c < int n" and n: "length src = n" "n \<le> 2 ^ 31" "length d = n"
    and inj: "\<And>c c'. A c = A c' \<Longrightarrow> c = c'"
  defines "xs \<equiv> map (\<lambda>c. src ! nat (A c)) [0..C - 1]"
  shows "\<exists>d'. softmax_pixel expd src off 0 C H W i d = Some d' \<and>
    wrote (A ` {0..<C}) (\<lambda>k. softmax_of expd xs (src ! nat k)) d d'"
proof -
  let ?e = "\<lambda>c. soft_exp expd xs (src ! nat (A c))"
  have ld: "ld src (A c) = Some (src ! nat (A c))" if "0 \<le> c" "c < C" for c
    using b [OF that] n by (intro ld_in [where k = "int n"]) simp_all
  have A0: "off + (0 * C * H * W + i) = A 0" by (simp add: A)
  have "src ! nat (A 0) \<in> set xs" using C by (auto simp: xs_def)
  then have "Max (insert (src ! nat (A 0)) (set xs)) = Max (set xs)" by (simp add: insert_absorb)
  then have 1: "for_loop 0 C (\<lambda>c m. do { v \<leftarrow> ld src (A c); Some (if m < v then v else m) }) (src ! nat (A 0)) = Some (Max (set xs))"
    using for_loop_pure [of 0 C "\<lambda>c m. do { v \<leftarrow> ld src (A c); Some (if m < v then v else m) }" "\<lambda>c m. if m < src ! nat (A c) then src ! nat (A c) else m"]
      fold_max [of xs "src ! nat (A 0)"] ld by (simp add: xs_def fold_map comp_def)
  let ?s = "\<lambda>c. fold (\<lambda>c s. fadd s (?e c)) [0..c - 1] 0"
  let ?b = "\<lambda>c (d, s). do { v \<leftarrow> ld src (A c); d' \<leftarrow> st d (A c) (d2f (expd (fsub v (Max (set xs))))); Some (d', fadd s (d2f (expd (fsub v (Max (set xs)))))) }"
  have "\<exists>r. for_loop 0 C ?b (d, 0) = Some r \<and> (wrote (A ` {0..<C}) (\<lambda>k. soft_exp expd xs (src ! nat k)) d (fst r) \<and> snd r = ?s C)"
  proof (rule for_loop_inv [where P = "\<lambda>c r. wrote (A ` {0..<c}) (\<lambda>k. soft_exp expd xs (src ! nat k)) d (fst r) \<and> snd r = ?s c"])
    fix c r assume c: "0 \<le> c" "c < C" and P: "wrote (A ` {0..<c}) (\<lambda>k. soft_exp expd xs (src ! nat k)) d (fst r) \<and> snd r = ?s c"
    have "\<exists>d'. st (fst r) (A c) (?e c) = Some d' \<and> wrote {A c} (\<lambda>k. soft_exp expd xs (src ! nat k)) (fst r) d'"
      using b [OF c] n P by (intro wrote_st) (auto simp: int_ok_def dest: wrote_length)
    then obtain d' where d': "st (fst r) (A c) (?e c) = Some d'" "wrote {A c} (\<lambda>k. soft_exp expd xs (src ! nat k)) (fst r) d'" by blast
    have "wrote (A ` {0..<c + 1}) (\<lambda>k. soft_exp expd xs (src ! nat k)) d d'"
      unfolding image_upto_Suc [OF c(1)] by (rule wrote_comp [OF conjunct1 [OF P] d'(2)])
    moreover have "?s (c + 1) = fadd (snd r) (?e c)" using c P by (simp add: upto_rec2 [of 0 c])
    ultimately show "\<exists>r'. ?b c r = Some r' \<and> wrote (A ` {0..<c + 1}) (\<lambda>k. soft_exp expd xs (src ! nat k)) d (fst r') \<and> snd r' = ?s (c + 1)"
      using ld [OF c] d'(1) by (simp add: split_beta soft_exp_def)
  qed (use C in \<open>simp_all add: wrote_empty\<close>)
  then obtain d1 where 2: "for_loop 0 C ?b (d, 0) = Some (d1, ?s C)" "wrote (A ` {0..<C}) (\<lambda>k. soft_exp expd xs (src ! nat k)) d d1"
    by (metis prod.collapse)
  have s: "?s C = soft_sum expd xs" by (simp add: soft_sum_def xs_def fold_map comp_def)
  let ?h = "\<lambda>c d. do { v \<leftarrow> ld d (A c); st d (A c) (fdiv v (?s C)) }" and ?g = "\<lambda>k. softmax_of expd xs (src ! nat k)"
  have "\<exists>d'. for_loop 0 C ?h d1 = Some d' \<and> wrote (A ` {0..<C}) ?g d1 d'"
  proof (rule for_loop_inv [where P = "\<lambda>c d'. wrote (A ` {0..<c}) ?g d1 d'"])
    fix c d' assume c: "0 \<le> c" "c < C" and P: "wrote (A ` {0..<c}) ?g d1 d'"
    have l: "length d1 = n" "length d' = n" using wrote_length [OF 2(2)] wrote_length [OF P] n by simp_all
    have "A c \<notin> A ` {0..<c}" using inj by fastforce
    then have "d' ! nat (A c) = ?e c" using wrote_nth [OF P, of "nat (A c)"] wrote_nth [OF 2(2), of "nat (A c)"] b [OF c] c l n by auto
    then have v: "ld d' (A c) = Some (?e c)" using b [OF c] l n by (simp add: ld_def int_ok_def)
    have "\<exists>d''. st d' (A c) (fdiv (?e c) (?s C)) = Some d'' \<and> wrote {A c} ?g d' d''"
      using b [OF c] n l by (intro wrote_st) (auto simp: int_ok_def s softmax_of_def)
    then obtain d'' where d'': "st d' (A c) (fdiv (?e c) (?s C)) = Some d''" "wrote {A c} ?g d' d''" by blast
    show "\<exists>s'. ?h c d' = Some s' \<and> wrote (A ` {0..<c + 1}) ?g d1 s'"
      unfolding image_upto_Suc [OF c(1)] using wrote_comp [OF P d''(2)] d''(1) v by simp
  qed (use C in \<open>simp_all add: wrote_empty\<close>)
  then obtain d' where 3: "for_loop 0 C ?h d1 = Some d'" "wrote (A ` {0..<C}) ?g d1 d'" by blast
  have "softmax_pixel expd src off 0 C H W i d = Some d'"
    unfolding softmax_pixel_def A0 A [symmetric] Let_def ld [OF order_refl C] Option.bind.simps 1 2(1) prod.case by (rule 3(1))
  then show ?thesis using wrote_over [OF 2(2) 3(2)] by blast
qed

lemma logistic_run_ok:
  assumes "0 \<le> a" "a \<le> b" "b \<le> int (length d)" "length d \<le> 2 ^ 31"
  shows "\<exists>d'. logistic_run expd a b d = Some d' \<and> length d' = length d \<and>
    (\<forall>k < length d. d' ! k = (if a \<le> int k \<and> int k < b then logistic_activate expd (d ! k) else d ! k))"
  unfolding logistic_run_def
proof (rule for_loop_inv [where P = "\<lambda>i d'. length d' = length d \<and>
    (\<forall>k < length d. d' ! k = (if a \<le> int k \<and> int k < i then logistic_activate expd (d ! k) else d ! k))"])
  fix i d' assume i: "a \<le> i" "i < b" and P: "length d' = length d \<and>
    (\<forall>k < length d. d' ! k = (if a \<le> int k \<and> int k < i then logistic_activate expd (d ! k) else d ! k))"
  let ?x = "logistic_activate expd (d ! nat i)"
  have "ld d' i = Some (d ! nat i)" using P i assms by (simp add: ld_def int_ok_def)
  moreover have "st d' i ?x = Some (d'[nat i := ?x])" using P i assms by (simp add: st_def int_ok_def)
  moreover have "d'[nat i := ?x] ! k = (if a \<le> int k \<and> int k < i + 1 then logistic_activate expd (d ! k) else d ! k)" if "k < length d" for k
    using P that i assms by (cases "k = nat i") (auto simp: nth_list_update)
  ultimately show "\<exists>s'. (do { v \<leftarrow> ld d' i; st d' i (logistic_activate expd v) }) = Some s' \<and> length s' = length d \<and>
      (\<forall>k < length d. s' ! k = (if a \<le> int k \<and> int k < i + 1 then logistic_activate expd (d ! k) else d ! k))"
    using P by simp
qed (use assms in auto)

text \<open>A flat index of the output: group \<open>m\<close>, entry \<open>e\<close> of the group, pixel \<open>i\<close>.\<close>

lemma entry_range:
  fixes HW S m e j k :: int
  assumes "0 < HW" "0 \<le> e" "e + j \<le> S" "0 \<le> j"
  shows "(m * S + e) * HW \<le> k \<and> k < (m * S + e + j) * HW \<longleftrightarrow>
     k div HW div S = m \<and> e \<le> k div HW mod S \<and> k div HW mod S < e + j"
proof -
  have "(m * S + e) * HW \<le> k \<longleftrightarrow> m * S + e \<le> k div HW" "k < (m * S + e + j) * HW \<longleftrightarrow> k div HW < m * S + e + j"
    using mult_le_iff_div [OF assms(1), of "m * S + e" k] mult_le_iff_div [OF assms(1), of "m * S + e + j" k] by linarith+
  moreover have "m * S + e \<le> q \<and> q < m * S + e + j \<longleftrightarrow> q div S = m \<and> e \<le> q mod S \<and> q mod S < e + j" for q
  proof (cases "j = 0")
    case False
    then have S: "0 < S" using assms by simp
    show ?thesis
    proof
      assume q: "m * S + e \<le> q \<and> q < m * S + e + j"
      have "q = m * S + (q - m * S)" "0 \<le> q - m * S" "q - m * S < S" using q assms by auto
      then have "q div S = m" "q mod S = q - m * S" using flat_div [of "q - m * S" S m] by simp_all
      then show "q div S = m \<and> e \<le> q mod S \<and> q mod S < e + j" using q by simp
    next
      assume "q div S = m \<and> e \<le> q mod S \<and> q mod S < e + j"
      then show "m * S + e \<le> q \<and> q < m * S + e + j" using div_mult_mod_eq [of q S] by (auto simp: mult.commute)
    qed
  qed auto
  ultimately show ?thesis by simp
qed

text \<open>Sizes: \<open>N\<close> elements in \<open>B * num\<close> groups of entries.\<close>

abbreviation entries :: "region_yolo \<Rightarrow> int" where
  "entries P \<equiv> ry_coords P + ry_classes P + 1"

definition region_ok :: "region_yolo \<Rightarrow> int \<Rightarrow> int \<Rightarrow> int \<Rightarrow> nat \<Rightarrow> bool" where
  "region_ok P B IH IW N \<longleftrightarrow> 2 \<le> ry_coords P \<and> 1 \<le> ry_classes P \<and> 1 \<le> ry_num P \<and> 0 \<le> B \<and> 1 \<le> IH \<and> 1 \<le> IW \<and>
     int N = B * ry_num P * entries P * (IH * IW) \<and> N \<le> 2 ^ 31"

text \<open>The entries that go through the logistic function.\<close>

definition logistic_entry :: "region_yolo \<Rightarrow> int \<Rightarrow> bool" where
  "logistic_entry P e \<longleftrightarrow> e < 2 \<or> e = ry_coords P"

definition upto_group :: "(rat \<Rightarrow> rat) \<Rightarrow> region_yolo \<Rightarrow> int \<Rightarrow> f32 list \<Rightarrow> int \<Rightarrow> f32 list \<Rightarrow> bool" where
  "upto_group expd P HW src m d \<longleftrightarrow> length d = length src \<and>
     (\<forall>k < length src. d ! k = (if int k div HW div entries P < m \<and> logistic_entry P (int k div HW mod entries P)
        then logistic_activate expd (src ! k) else src ! k))"

lemma entry_index_eq:
  assumes "region_ok P B IH IW N" "0 \<le> n"
  shows "entry_index IW IH (ry_coords P) (ry_classes P) (IH * IW * ry_num P * (ry_classes P + ry_coords P + 1)) b (n * IW * IH) e =
    Some (((b * ry_num P + n) * entries P + e) * (IH * IW))"
proof -
  have pos: "0 < IW * IH" using assms(1) by (auto simp: region_ok_def)
  have "n * IW * IH = n * (IW * IH)" by simp
  then have "cquot (n * IW * IH) (IW * IH) = n" "crem (n * IW * IH) (IW * IH) = 0"
    using pos assms(2) by (simp_all only: cquot_nonneg crem_nonneg mult_nonneg_nonneg less_imp_le nonzero_mult_div_cancel_right mod_mult_self2_is_0)
  moreover have "IH \<noteq> 0" "IW \<noteq> 0" using pos by auto
  ultimately show ?thesis by (simp add: entry_index_def algebra_simps)
qed

lemma entry_run:
  fixes m S e j HW :: int
  assumes "0 < HW" "0 \<le> e" "0 \<le> j" "e + j \<le> S" "0 \<le> (m * S + e) * HW" "(m * S + e + j) * HW \<le> int (length d)" "length d \<le> 2 ^ 31"
  shows "\<exists>d'. logistic_run expd ((m * S + e) * HW) ((m * S + e + j) * HW) d = Some d' \<and> length d' = length d \<and>
    (\<forall>k < length d. d' ! k = (if int k div HW div S = m \<and> e \<le> int k div HW mod S \<and> int k div HW mod S < e + j
       then logistic_activate expd (d ! k) else d ! k))"
  unfolding entry_range [OF assms(1,2,4,3), symmetric]
  using assms by (intro logistic_run_ok mult_right_mono) simp_all

lemma region_group_ok:
  assumes ok: "region_ok P B IH IW (length src)" and i: "0 \<le> b" "b < B" "0 \<le> n" "n < ry_num P"
    and up: "upto_group expd P (IH * IW) src (b * ry_num P + n) d"
  shows "\<exists>d'. region_group expd P IH IW (IH * IW * ry_num P * (ry_classes P + ry_coords P + 1)) b n d = Some d' \<and>
    upto_group expd P (IH * IW) src (b * ry_num P + n + 1) d'"
proof -
  let ?HW = "IH * IW" and ?S = "entries P" and ?m = "b * ry_num P + n" and ?co = "ry_coords P"
  have pos: "0 < ?HW" "2 \<le> ?co" "1 \<le> ry_classes P" "0 < ?S" using ok by (auto simp: region_ok_def)
  have len: "length d = length src" "length src \<le> 2 ^ 31" using up ok by (simp_all add: upto_group_def region_ok_def)
  have m: "0 \<le> ?m" "?m + 1 \<le> B * ry_num P" using flat_bound [OF i] by simp_all
  have le: "(?m * ?S + e) * ?HW \<le> int (length src)" "0 \<le> (?m * ?S + e) * ?HW" if "0 \<le> e" "e \<le> ?S" for e
  proof -
    have "?m * ?S + e \<le> (?m + 1) * ?S" using that by (simp add: algebra_simps)
    also have "\<dots> \<le> B * ry_num P * ?S" using m pos by (intro mult_right_mono) simp_all
    finally have "(?m * ?S + e) * ?HW \<le> B * ry_num P * ?S * ?HW" using pos by (intro mult_right_mono) simp_all
    then show "(?m * ?S + e) * ?HW \<le> int (length src)" using ok by (simp add: region_ok_def)
    have "0 \<le> ?m * ?S" using m pos by (intro mult_nonneg_nonneg) simp_all
    then have "0 \<le> ?m * ?S + e" using that by linarith
    then show "0 \<le> (?m * ?S + e) * ?HW" by (rule mult_nonneg_nonneg) (use pos in simp)
  qed
  have r: "(?m * ?S + 0) * ?HW + 2 * IW * IH = (?m * ?S + 0 + 2) * ?HW" "(?m * ?S + ?co) * ?HW + IW * IH = (?m * ?S + ?co + 1) * ?HW"
    by (simp_all add: algebra_simps)
  obtain d1 where d1: "logistic_run expd ((?m * ?S + 0) * ?HW) ((?m * ?S + 0 + 2) * ?HW) d = Some d1" "length d1 = length d"
    "\<forall>k < length d. d1 ! k = (if int k div ?HW div ?S = ?m \<and> 0 \<le> int k div ?HW mod ?S \<and> int k div ?HW mod ?S < 0 + 2 then logistic_activate expd (d ! k) else d ! k)"
    using entry_run [of ?HW 0 2 ?S ?m d expd] le [of 0] le [of 2] pos len by auto
  obtain d2 where d2: "logistic_run expd ((?m * ?S + ?co) * ?HW) ((?m * ?S + ?co + 1) * ?HW) d1 = Some d2" "length d2 = length d1"
    "\<forall>k < length d1. d2 ! k = (if int k div ?HW div ?S = ?m \<and> ?co \<le> int k div ?HW mod ?S \<and> int k div ?HW mod ?S < ?co + 1 then logistic_activate expd (d1 ! k) else d1 ! k)"
    using entry_run [of ?HW ?co 1 ?S ?m d1 expd] le [of ?co] le [of "?co + 1"] pos len d1(2) by (auto simp: add.assoc)
  have "region_group expd P IH IW (IH * IW * ry_num P * (ry_classes P + ry_coords P + 1)) b n d = Some d2"
    unfolding region_group_def entry_index_eq [OF ok i(3)] Option.bind.simps r d1(1) by (rule d2(1))
  moreover have "upto_group expd P ?HW src (?m + 1) d2"
    unfolding upto_group_def
  proof (intro conjI allI impI)
    fix k assume k: "k < length src"
    let ?q = "int k div ?HW div ?S" and ?e = "int k div ?HW mod ?S"
    have "0 \<le> ?e" using pos by simp
    then have "d2 ! k = (if ?q = ?m \<and> logistic_entry P ?e then logistic_activate expd (d ! k) else d ! k)"
      using d1(2,3) d2(3) k len(1) pos(2) by (auto simp: logistic_entry_def)
    moreover have "d ! k = (if ?q < ?m \<and> logistic_entry P ?e then logistic_activate expd (src ! k) else src ! k)"
      using up k by (simp add: upto_group_def)
    ultimately show "d2 ! k = (if ?q < ?m + 1 \<and> logistic_entry P ?e then logistic_activate expd (src ! k) else src ! k)" by auto
  qed (use d1(2) d2(2) len in simp)
  ultimately show ?thesis by blast
qed

lemma region_groups_ok:
  assumes ok: "region_ok P B IH IW (length src)"
  shows "\<exists>d'. for_loop 0 B (\<lambda>b. for_loop 0 (ry_num P) (region_group expd P IH IW (IH * IW * ry_num P * (ry_classes P + ry_coords P + 1)) b)) src = Some d' \<and>
    upto_group expd P (IH * IW) src (B * ry_num P) d'"
proof (rule for_loop_inv [where P = "\<lambda>b. upto_group expd P (IH * IW) src (b * ry_num P)"])
  have "0 \<le> int k div (IH * IW) div entries P" for k using ok by (auto simp: region_ok_def pos_imp_zdiv_nonneg_iff)
  then have "\<not> int k div (IH * IW) div entries P < 0 * ry_num P" for k by (simp add: not_less)
  then show "upto_group expd P (IH * IW) src (0 * ry_num P) src" unfolding upto_group_def by (simp only: simp_thms if_False)
  fix b d assume b: "0 \<le> b" "b < B" and up: "upto_group expd P (IH * IW) src (b * ry_num P) d"
  have "\<exists>d'. for_loop 0 (ry_num P) (region_group expd P IH IW (IH * IW * ry_num P * (ry_classes P + ry_coords P + 1)) b) d = Some d' \<and>
      upto_group expd P (IH * IW) src (b * ry_num P + ry_num P) d'"
  proof (rule for_loop_inv [where P = "\<lambda>n. upto_group expd P (IH * IW) src (b * ry_num P + n)"])
    fix n d assume "0 \<le> n" "n < ry_num P" "upto_group expd P (IH * IW) src (b * ry_num P + n) d"
    then show "\<exists>d'. region_group expd P IH IW (IH * IW * ry_num P * (ry_classes P + ry_coords P + 1)) b n d = Some d' \<and>
        upto_group expd P (IH * IW) src (b * ry_num P + (n + 1)) d'" using region_group_ok [OF ok b] by (simp add: add.assoc)
  qed (use up ok in \<open>simp_all add: region_ok_def\<close>)
  then show "\<exists>d'. for_loop 0 (ry_num P) (region_group expd P IH IW (IH * IW * ry_num P * (ry_classes P + ry_coords P + 1)) b) d = Some d' \<and>
      upto_group expd P (IH * IW) src ((b + 1) * ry_num P) d'" by (simp add: distrib_right)
qed (use ok in \<open>simp add: region_ok_def\<close>)

text \<open>The scores of group \<open>m\<close> at pixel \<open>i\<close>, and the final value at a flat index.\<close>

definition group_scores :: "region_yolo \<Rightarrow> int \<Rightarrow> f32 list \<Rightarrow> int \<Rightarrow> int \<Rightarrow> f32 list" where
  "group_scores P HW src m i = map (\<lambda>c. src ! nat ((m * entries P + ry_coords P + 1 + c) * HW + i)) [0..ry_classes P - 1]"

definition region_at :: "(rat \<Rightarrow> rat) \<Rightarrow> region_yolo \<Rightarrow> int \<Rightarrow> f32 list \<Rightarrow> int \<Rightarrow> f32" where
  "region_at expd P HW src k = (let e = k div HW mod entries P in
     if logistic_entry P e then logistic_activate expd (src ! nat k)
     else if ry_coords P < e then softmax_of expd (group_scores P HW src (k div HW div entries P) (k mod HW)) (src ! nat k)
     else src ! nat k)"

definition score_indices :: "region_yolo \<Rightarrow> int \<Rightarrow> int \<Rightarrow> int \<Rightarrow> int set" where
  "score_indices P HW m i = (\<lambda>c. (m * entries P + ry_coords P + 1 + c) * HW + i) ` {0..<ry_classes P}"

lemma score_index:
  fixes i c m HW :: int
  assumes "0 \<le> i" "i < HW" "0 \<le> c" "c < ry_classes P" "0 \<le> ry_coords P"
  defines "k \<equiv> (m * entries P + ry_coords P + 1 + c) * HW + i"
  shows "k div HW div entries P = m" "k div HW mod entries P = ry_coords P + 1 + c" "k mod HW = i"
proof -
  have e: "m * entries P + ry_coords P + 1 + c = m * entries P + (ry_coords P + 1 + c)" by simp
  have k: "k div HW = m * entries P + (ry_coords P + 1 + c)" "k mod HW = i" unfolding k_def e using assms(1,2) flat_div by blast+
  have "0 \<le> ry_coords P + 1 + c" "ry_coords P + 1 + c < entries P" using assms(3-5) by simp_all
  then show "k div HW div entries P = m" "k div HW mod entries P = ry_coords P + 1 + c" unfolding k by (rule flat_div)+
  show "k mod HW = i" by (rule k(2))
qed

lemma group_softmax_ok:
  assumes ok: "region_ok P B IH IW (length src)" and m: "0 \<le> m" "m < B * ry_num P" and d: "length d = length src"
  shows "\<exists>d'. softmax_generic expd src ((ry_coords P + 1) * (IH * IW) + m * (entries P * (IH * IW))) 1 (ry_classes P) IH IW d = Some d' \<and>
    wrote (\<Union>i\<in>{0..<IH * IW}. score_indices P (IH * IW) m i) (region_at expd P (IH * IW) src) d d'"
proof -
  let ?HW = "IH * IW" and ?off = "(ry_coords P + 1) * (IH * IW) + m * (entries P * (IH * IW))"
  have pos: "0 < ?HW" "2 \<le> ry_coords P" "1 \<le> ry_classes P" "length src \<le> 2 ^ 31" and len: "int (length src) = B * ry_num P * entries P * ?HW"
    using ok by (auto simp: region_ok_def)
  have "\<exists>d'. for_loop 0 ?HW (softmax_pixel expd src ?off 0 (ry_classes P) IH IW) d = Some d' \<and>
      wrote (\<Union>i\<in>{0..<?HW}. score_indices P ?HW m i) (region_at expd P ?HW src) d d'"
  proof (rule wrote_for [where n = "length src"])
    fix i and d :: "f32 list" assume i: "0 \<le> i" "i < ?HW" and d: "length d = length src"
    let ?A = "\<lambda>c. (m * entries P + ry_coords P + 1 + c) * ?HW + i"
    have A: "?A c = ?off + (0 * ry_classes P * IH * IW + c * IH * IW + i)" for c by (simp add: algebra_simps)
    have b: "0 \<le> ?A c \<and> ?A c < int (length src)" if c: "0 \<le> c" "c < ry_classes P" for c
    proof -
      have e: "m * entries P + ry_coords P + 1 + c = m * entries P + (ry_coords P + 1 + c)" by simp
      have "0 \<le> m * entries P + (ry_coords P + 1 + c)" "m * entries P + (ry_coords P + 1 + c) < B * ry_num P * entries P"
        using flat_bound [OF m, of "ry_coords P + 1 + c" "entries P"] c pos by simp_all
      then show ?thesis unfolding e len using flat_bound [OF _ _ i] by blast
    qed
    have C: "0 < ry_classes P" and nz: "IH \<noteq> 0" "IW \<noteq> 0" using pos by auto
    from nz have inj: "c = c'" if "?A c = ?A c'" for c c' using that by simp
    obtain d' where d': "softmax_pixel expd src ?off 0 (ry_classes P) IH IW i d = Some d'"
      "wrote (?A ` {0..<ry_classes P}) (\<lambda>k. softmax_of expd (map (\<lambda>c. src ! nat (?A c)) [0..ry_classes P - 1]) (src ! nat k)) d d'"
      using softmax_pixel_ok [where expd = expd, OF C A b refl pos(4) d inj] by blast
    have "wrote (score_indices P ?HW m i) (region_at expd P ?HW src) d d'"
      unfolding score_indices_def
    proof (rule wrote_cong [OF d'(2)])
      fix k assume "k \<in> ?A ` {0..<ry_classes P}"
      then obtain c where "k = ?A c" "c \<in> {0..<ry_classes P}" by blast
      then have c: "k = ?A c" "0 \<le> c" "c < ry_classes P" by simp_all
      have "0 \<le> ry_coords P" using pos by simp
      note q = score_index [OF i c(2,3) this, of m, folded c(1)]
      show "softmax_of expd (map (\<lambda>c. src ! nat (?A c)) [0..ry_classes P - 1]) (src ! nat k) = region_at expd P ?HW src k"
        unfolding region_at_def Let_def q using c(2) pos(2) by (simp add: logistic_entry_def group_scores_def)
    qed
    then show "\<exists>d'. softmax_pixel expd src ?off 0 (ry_classes P) IH IW i d = Some d' \<and>
        wrote (score_indices P ?HW m i) (region_at expd P ?HW src) d d'" using d'(1) by blast
  qed (rule d)
  then show ?thesis by (auto simp: softmax_generic_def for_loop_def [of 0 1])
qed

lemma region_loops:
  assumes ok: "region_ok P B IH IW (length src)" and dims: "dims = [nat B, nat (ry_num P * entries P), nat IH, nat IW]" and l: "length dst = length src"
  shows "\<exists>d. region_yolo_execute expd P dims src dst = Some (OK, d) \<and> length d = length src \<and>
    (\<forall>k < length src. d ! k = region_at expd P (IH * IW) src (int k))"
proof -
  let ?HW = "IH * IW" and ?is = "IH * IW * ry_num P * (ry_classes P + ry_coords P + 1)"
  have pos: "0 < ?HW" "2 \<le> ry_coords P" "1 \<le> ry_classes P" "1 \<le> ry_num P" "0 \<le> B" "0 \<le> IH" "0 \<le> IW" "length src \<le> 2 ^ 31"
    and len: "int (length src) = B * ry_num P * entries P * ?HW" using ok by (auto simp: region_ok_def)
  have dm: "dim_at dims 3 = IW" "dim_at dims 2 = IH" "dim_at dims 1 = ry_num P * entries P" "dim_at dims 0 = B"
    using pos by (simp_all add: dims dim_at_def)
  have n: "B * (ry_num P * entries P) * IH * IW = int (length src)" by (simp add: len mult_ac)
  have c: "ld_run src 0 (int (length src)) = Some src" "st_run dst 0 src = Some src" using copy_all [of src dst] l pos by simp_all
  obtain d1 where d1: "for_loop 0 B (\<lambda>b. for_loop 0 (ry_num P) (region_group expd P IH IW ?is b)) src = Some d1"
    "upto_group expd P ?HW src (B * ry_num P) d1" using region_groups_ok [OF ok] by blast
  have ix: "entry_index IW IH (ry_coords P) (ry_classes P) ?is 0 0 (ry_coords P + 1) = Some ((ry_coords P + 1) * ?HW)"
    using entry_index_eq [OF ok, of 0 0 "ry_coords P + 1"] by simp
  have bo: "cquot ?is (ry_num P) = entries P * ?HW"
  proof -
    have "?is = entries P * ?HW * ry_num P" by (simp add: algebra_simps)
    moreover have "0 \<le> entries P * ?HW * ry_num P" using pos by (intro mult_nonneg_nonneg) simp_all
    ultimately show ?thesis using pos(4) by (simp only: cquot_nonneg) simp
  qed
  let ?S = "\<Union>m\<in>{0..<B * ry_num P}. \<Union>i\<in>{0..<?HW}. score_indices P ?HW m i"
  have "\<exists>d2. for_loop 0 (B * ry_num P) (\<lambda>b. softmax_generic expd src ((ry_coords P + 1) * ?HW + b * (entries P * ?HW)) 1 (ry_classes P) IH IW) d1 = Some d2 \<and>
      wrote ?S (region_at expd P ?HW src) d1 d2"
    by (rule wrote_for [where n = "length src"]) (use group_softmax_ok [OF ok] d1(2) in \<open>simp_all add: upto_group_def\<close>)
  then obtain d2 where d2: "for_loop 0 (B * ry_num P) (\<lambda>b. softmax_generic expd src ((ry_coords P + 1) * ?HW + b * (entries P * ?HW)) 1 (ry_classes P) IH IW) d1 = Some d2"
    "wrote ?S (region_at expd P ?HW src) d1 d2" by blast
  have "d2 ! k = region_at expd P ?HW src (int k)" if k: "k < length src" for k
  proof (cases "int k \<in> ?S")
    case False
    let ?q = "int k div ?HW" let ?m = "?q div entries P" and ?e = "?q mod entries P"
    have "int k < B * ry_num P * entries P * ?HW" using k len by simp
    then have "?q < B * ry_num P * entries P" by (rule div_lessI [OF _ pos(1)])
    then have m: "?m < B * ry_num P" by (rule div_lessI) (use pos in simp)
    have S: "0 < entries P" using pos by simp
    have e: "0 \<le> ?e" "?e < entries P" "0 \<le> ?m" using pos_mod_sign [OF S] pos_mod_bound [OF S] pos by (simp_all add: pos_imp_zdiv_nonneg_iff)
    have "\<not> ry_coords P < ?e"
    proof
      assume g: "ry_coords P < ?e"
      have "?m * entries P + ry_coords P + 1 + (?e - ry_coords P - 1) = ?q" using div_mult_mod_eq [of ?q "entries P"] by linarith
      then have "int k = (?m * entries P + ry_coords P + 1 + (?e - ry_coords P - 1)) * ?HW + int k mod ?HW"
        using div_mult_mod_eq [of "int k" ?HW] by (simp only:)
      moreover have "?e - ry_coords P - 1 \<in> {0..<ry_classes P}" using g e by simp
      ultimately have "int k \<in> score_indices P ?HW ?m (int k mod ?HW)" unfolding score_indices_def by (rule image_eqI)
      moreover have "?m \<in> {0..<B * ry_num P}" "int k mod ?HW \<in> {0..<?HW}" using m e pos by simp_all
      ultimately show False using False by blast
    qed
    moreover have "d1 ! k = (if logistic_entry P ?e then logistic_activate expd (src ! k) else src ! k)"
      using d1(2) k m by (simp add: upto_group_def)
    moreover have "d2 ! k = d1 ! k" using wrote_nth [OF d2(2), of k] k False d1(2) by (simp add: upto_group_def)
    ultimately show ?thesis by (simp add: region_at_def Let_def)
  qed (use wrote_nth [OF d2(2), of k] k d1(2) in \<open>simp add: upto_group_def\<close>)
  moreover have "region_yolo_execute expd P dims src dst = Some (OK, d2)"
    unfolding region_yolo_execute_def Let_def dm n c Option.bind.simps d1(1) ix bo d2(1) using pos(4) by simp
  moreover have "length d2 = length src" using wrote_length [OF d2(2)] d1(2) by (simp add: upto_group_def)
  ultimately show ?thesis by blast
qed

lemma region_at_idx4:
  assumes "0 \<le> h" "h < IH" "0 \<le> w" "w < IW" and S0: "0 < entries P"
  shows "region_at expd P (IH * IW) src (idx4 (ry_num P * entries P) IH IW b c h w) =
    (let v = src ! nat (idx4 (ry_num P * entries P) IH IW b c h w); g = c div entries P; e = c mod entries P in
      if e < 2 \<or> e = ry_coords P then logistic_activate expd v
      else if ry_coords P < e then softmax_of expd (map (\<lambda>j. src !
        nat (idx4 (ry_num P * entries P) IH IW b (g * entries P + (ry_coords P + 1 + j)) h w)) [0..ry_classes P - 1]) v
      else v)"
proof -
  let ?IC = "ry_num P * entries P" and ?HW = "IH * IW"
  define S where "S = entries P"
  have f: "idx4 ?IC IH IW b c h w = (b * ?IC + c) * ?HW + (h * IW + w)" by (simp add: algebra_simps)
  have "0 \<le> h * IW + w" "h * IW + w < ?HW" using assms flat_bound [of h IH w IW] by simp_all
  then have q: "idx4 ?IC IH IW b c h w div ?HW = b * ?IC + c" "idx4 ?IC IH IW b c h w mod ?HW = h * IW + w" unfolding f by (simp_all add: flat_div)
  have "0 < S" using S0 by (simp add: S_def)
  have bc: "b * ?IC + c = c + (b * ry_num P) * S" by (simp add: S_def)
  have m: "(b * ?IC + c) div S = b * ry_num P + c div S" "(b * ?IC + c) mod S = c mod S" unfolding bc using \<open>0 < S\<close> by simp_all
  have "((b * ry_num P + c div S) * S + ry_coords P + 1 + j) * ?HW + (h * IW + w) = idx4 ?IC IH IW b (c div S * S + (ry_coords P + 1 + j)) h w" for j
    by (simp add: S_def algebra_simps)
  then show ?thesis
    unfolding region_at_def group_scores_def S_def [symmetric] by (simp only: q [folded S_def] m [folded S_def] Let_def logistic_entry_def)
qed

lemma region_value_bounds:
  assumes ok: "region_ok P B IH IW (length src)" and e: "\<And>x. 0 \<le> expd x" "expd 0 = 1"
    and c: "0 \<le> c" "c < ry_num P * entries P" "c mod entries P < 2 \<or> ry_coords P \<le> c mod entries P"
  shows "0 \<le> (let v = f c; g = c div entries P; e = c mod entries P in
      if e < 2 \<or> e = ry_coords P then logistic_activate expd v
      else if ry_coords P < e then softmax_of expd (map (\<lambda>j. f (g * entries P + (ry_coords P + 1 + j))) [0..ry_classes P - 1]) v
      else v) \<and> (let v = f c; g = c div entries P; e = c mod entries P in
      if e < 2 \<or> e = ry_coords P then logistic_activate expd v
      else if ry_coords P < e then softmax_of expd (map (\<lambda>j. f (g * entries P + (ry_coords P + 1 + j))) [0..ry_classes P - 1]) v
      else v) \<le> 1"
proof (cases "c mod entries P < 2 \<or> c mod entries P = ry_coords P")
  case True
  then show ?thesis using logistic_bounds [of expd, OF e(1)] by (simp add: Let_def)
next
  case False
  let ?e = "c mod entries P" and ?g = "c div entries P"
  have S: "0 < entries P" using ok by (simp add: region_ok_def)
  have j: "0 \<le> ?e - ry_coords P - 1" "?e - ry_coords P - 1 \<le> ry_classes P - 1" using False c(3) pos_mod_bound [OF S, of c] by auto
  have "c = ?g * entries P + (ry_coords P + 1 + (?e - ry_coords P - 1))" using div_mult_mod_eq [of c "entries P"] by linarith
  then have "f c \<in> set (map (\<lambda>j. f (?g * entries P + (ry_coords P + 1 + j))) [0..ry_classes P - 1])"
    unfolding set_map using j by (intro image_eqI [of _ _ "?e - ry_coords P - 1"]) auto
  then show ?thesis using softmax_bounds [of expd, OF e] False c(3) by (auto simp: Let_def)
qed

section \<open>Property\<close>

text \<open>C19. On a blob with \<open>num\<close> groups of \<open>coords + classes + 1\<close> channels the layer stays inside its buffers. In every group
  the first two entries and the objectness are passed through the logistic function, the scores are replaced by their
  softmax at the same pixel, the other coordinates are copied, and all results that are not copies lie between 0
  and 1, roundings included.\<close>

theorem region_yolo_activates:
  assumes ok: "region_ok P B IH IW (length src)" and dims: "dims = [nat B, nat (ry_num P * entries P), nat IH, nat IW]"
    and l: "length dst = length src" and e: "\<And>x. 0 \<le> expd x" "expd 0 = 1"
  shows "\<exists>d. region_yolo_execute expd P dims src dst = Some (OK, d) \<and>
    blob4 B (ry_num P * entries P) IH IW (\<lambda>b c h w.
      let v = src ! nat (idx4 (ry_num P * entries P) IH IW b c h w); g = c div entries P; e = c mod entries P in
      if e < 2 \<or> e = ry_coords P then logistic_activate expd v
      else if ry_coords P < e then softmax_of expd (map (\<lambda>j. src !
        nat (idx4 (ry_num P * entries P) IH IW b (g * entries P + (ry_coords P + 1 + j)) h w)) [0..ry_classes P - 1]) v
      else v) d \<and>
    (\<forall>b \<in> {0..<B}. \<forall>c \<in> {0..<ry_num P * entries P}. \<forall>h \<in> {0..<IH}. \<forall>w \<in> {0..<IW}.
      c mod entries P < 2 \<or> ry_coords P \<le> c mod entries P \<longrightarrow>
        0 \<le> d ! nat (idx4 (ry_num P * entries P) IH IW b c h w) \<and> d ! nat (idx4 (ry_num P * entries P) IH IW b c h w) \<le> 1)"
proof -
  let ?IC = "ry_num P * entries P" and ?HW = "IH * IW"
  define v where "v b c h w = (let v = src ! nat (idx4 ?IC IH IW b c h w); g = c div entries P; e = c mod entries P in
      if e < 2 \<or> e = ry_coords P then logistic_activate expd v
      else if ry_coords P < e then softmax_of expd (map (\<lambda>j. src !
        nat (idx4 ?IC IH IW b (g * entries P + (ry_coords P + 1 + j)) h w)) [0..ry_classes P - 1]) v
      else v)" for b c h w
  obtain d where d: "region_yolo_execute expd P dims src dst = Some (OK, d)" "length d = length src"
    "\<And>k. k < length src \<Longrightarrow> d ! k = region_at expd P ?HW src (int k)" using region_loops [OF ok dims l] by blast
  have len: "int (length d) = B * ?IC * IH * IW" using ok d(2) by (simp add: region_ok_def mult_ac)
  have at: "region_at expd P ?HW src (idx4 ?IC IH IW b c h w) = v b c h w" if "0 \<le> h" "h < IH" "0 \<le> w" "w < IW" for b c h w
    using that ok unfolding v_def by (intro region_at_idx4) (simp_all add: region_ok_def)
  have nth: "d ! nat (idx4 ?IC IH IW b c h w) = v b c h w"
    if i: "0 \<le> b" "b < B" "0 \<le> c" "c < ?IC" "0 \<le> h" "h < IH" "0 \<le> w" "w < IW" for b c h w
    using idx4_bound [OF i] len d(2,3) at [OF i(5-8)] by (simp add: nat_less_iff)
  have bnd: "0 \<le> v b c h w \<and> v b c h w \<le> 1" if i: "0 \<le> c" "c < ?IC" "c mod entries P < 2 \<or> ry_coords P \<le> c mod entries P" for b c h w
    using region_value_bounds [where f = "\<lambda>c. src ! nat (idx4 ?IC IH IW b c h w)" and expd = expd, OF ok e i] by (simp only: v_def)
  have "blob4 B ?IC IH IW v d" unfolding blob4_def using len nth by simp
  then show ?thesis unfolding v_def [symmetric, abs_def] using d(1) nth bnd by auto
qed

definition demo_region :: region_yolo where
  "demo_region = \<lparr>ry_classes = 2, ry_coords = 2, ry_num = 1\<rparr>"

theorem region_yolo_activates_witness:
  "\<exists>d. region_yolo_execute (\<lambda>_. 1) demo_region [1, 5, 1, 1] [1, 2, 3, 4, 5] [0, 0, 0, 0, 0] = Some (OK, d) \<and>
     0 \<le> d ! 4 \<and> d ! 4 \<le> 1"
proof -
  have "region_ok demo_region 1 1 1 (length [1, 2, 3, 4, 5 :: f32])" by (simp add: region_ok_def demo_region_def)
  from region_yolo_activates [where expd = "\<lambda>_. 1" and dst = "[0, 0, 0, 0, 0]", OF this refl] obtain d where
    "region_yolo_execute (\<lambda>_. 1) demo_region [1, 5, 1, 1] [1, 2, 3, 4, 5] [0, 0, 0, 0, 0] = Some (OK, d)"
    and *: "\<forall>b \<in> {0..<1}. \<forall>c \<in> {0..<5}. \<forall>h \<in> {0..<1}. \<forall>w \<in> {0..<1}. c mod 5 < 2 \<or> 2 \<le> c mod 5 \<longrightarrow>
      0 \<le> d ! nat (idx4 5 1 1 b c h w) \<and> d ! nat (idx4 5 1 1 b c h w) \<le> 1"
    by (auto simp: demo_region_def)
  moreover have "0 \<le> d ! 4 \<and> d ! 4 \<le> 1"
    using * [THEN bspec [of _ _ 0], THEN bspec [of _ _ 4], THEN bspec [of _ _ 0], THEN bspec [of _ _ 0]] by simp
  ultimately show ?thesis by blast
qed

end
