(* ===== verification/NormLayers.thy ===== *)
theory NormLayers
  imports LayerBase
begin

text \<open>
  \<^verbatim>\<open>extension/ext_grn.cpp\<close>, \<^verbatim>\<open>ext_mvn.cpp\<close> and \<^verbatim>\<open>ext_normalize.cpp\<close>: the layers that normalise their input, by the norm
  over the channels of a pixel (GRN), by mean and variance of a plane or an image (MVN), or by the norm of an
  image or a pixel and a scale per channel (Normalize).

  The C library's \<^verbatim>\<open>pow\<close> on \<^verbatim>\<open>double\<close> and \<^verbatim>\<open>sqrt\<close> on \<^verbatim>\<open>float\<close> are the arguments \<open>powd\<close> and \<open>sqrtf\<close>. A sum that the
  source distributes over threads is taken in the order of the loop. The SSE and AVX2 parts of Normalize are
  not modelled, its portable loops are.
\<close>

section \<open>Loops over lists of indices\<close>

lemma foldm_map: "foldm f (map g xs) s = foldm (\<lambda>x. f (g x)) xs s"
  by (induction xs arbitrary: s) (auto split: option.splits)

lemma foldm_product: "foldm (\<lambda>x. foldm (h x) ys) xs s = foldm (\<lambda>(x, y). h x y) (List.product xs ys) s"
  by (induction xs arbitrary: s) (auto simp: foldm_append foldm_map comp_def split: option.splits bind_splits)

definition sum_over :: "(f32 \<Rightarrow> rat) \<Rightarrow> f32 list \<Rightarrow> int list \<Rightarrow> rat" where
  "sum_over f xs R = fold (\<lambda>i s. dadd s (f (xs ! nat i))) R 0"

lemma foldm_sum:
  assumes "\<And>i. i \<in> set R \<Longrightarrow> 0 \<le> i \<and> i < int (length xs)" "length xs \<le> 2 ^ 31"
  shows "foldm (\<lambda>i s. do { v \<leftarrow> ld xs i; Some (dadd s (f v)) }) R 0 = Some (sum_over f xs R)"
  unfolding sum_over_def
proof (rule foldm_pure)
  fix i s assume "i \<in> set R"
  then have "0 \<le> i \<and> i < int (length xs)" by (rule assms(1))
  then show "(do { v \<leftarrow> ld xs i; Some (dadd s (f v)) }) = Some (dadd s (f (xs ! nat i)))" using assms(2) by (simp add: ld_def int_ok_def)
qed

lemma sum_over_cong: "(\<And>i. i \<in> set R \<Longrightarrow> xs ! nat i = ys ! nat i) \<Longrightarrow> sum_over f xs R = sum_over f ys R"
  unfolding sum_over_def by (rule fold_cong) simp_all

text \<open>A loop whose bodies each overwrite their own part of the buffer, reading only that part.\<close>

lemma wrote_foldm_inplace:
  assumes body: "\<And>x d. x \<in> set xs \<Longrightarrow> length d = n \<Longrightarrow> (\<And>k. k < n \<Longrightarrow> int k \<in> S x \<Longrightarrow> d ! k = d0 ! k) \<Longrightarrow>
      \<exists>d'. f x d = Some d' \<and> wrote (S x) g d d'"
    and dis: "distinct xs" "\<And>x y. x \<in> set xs \<Longrightarrow> y \<in> set xs \<Longrightarrow> x \<noteq> y \<Longrightarrow> S x \<inter> S y = {}" and d0: "length d0 = n"
  shows "\<exists>d'. foldm f xs d0 = Some d' \<and> wrote (\<Union>x \<in> set xs. S x) g d0 d'"
  using body dis
proof (induction xs rule: rev_induct)
  case Nil
  then show ?case by (simp add: wrote_empty)
next
  case (snoc x xs)
  have "\<exists>d'. foldm f xs d0 = Some d' \<and> wrote (\<Union>x \<in> set xs. S x) g d0 d'" by (rule snoc.IH) (use snoc.prems in simp_all)
  then obtain d1 where 1: "foldm f xs d0 = Some d1" "wrote (\<Union>x \<in> set xs. S x) g d0 d1" by blast
  have l: "length d1 = n" using wrote_length [OF 1(2)] d0 by simp
  have "d1 ! k = d0 ! k" if "k < n" "int k \<in> S x" for k
  proof -
    have "S y \<inter> S x = {}" if "y \<in> set xs" for y using snoc.prems(2,3) that by (intro snoc.prems(3)) auto
    then have "int k \<notin> (\<Union>x \<in> set xs. S x)" using that by blast
    then show ?thesis using wrote_nth [OF 1(2), of k] that d0 by simp
  qed
  then have "\<exists>d'. f x d1 = Some d' \<and> wrote (S x) g d1 d'" using l by (intro snoc.prems(1)) simp_all
  then obtain d' where 2: "f x d1 = Some d'" "wrote (S x) g d1 d'" by blast
  show ?case using 1 2 wrote_comp [OF 1(2) 2(2)] by (simp add: foldm_append Un_commute)
qed

text \<open>A division by zero gives an infinity or no number at all in the source, neither of which the model has: it ends there.\<close>

definition nonzero :: "rat \<Rightarrow> rat option" where "nonzero y = (if y = 0 then None else Some y)"

section \<open>GRN\<close>

definition grn_new :: "cnn_layer \<Rightarrow> ext_layer \<times> f32 option" where
  "grn_new l = construct
     (if length (ins_data l) \<noteq> 1 \<or> out_data l = [] then Inl ''Incorrect number of input/output edges!''
      else try_with (float_param l ''bias'') (\<lambda>bias. try_with (addConfig l [conf_at PLN False 0] [conf_at PLN False 0] False) (\<lambda>c.
        Inr (bias, c))))"

definition grn_pixel :: "(rat \<Rightarrow> rat \<Rightarrow> rat) \<Rightarrow> f32 \<Rightarrow> int \<Rightarrow> int \<Rightarrow> int \<Rightarrow> f32 list \<Rightarrow> int \<Rightarrow> int \<Rightarrow> int \<Rightarrow> f32 list \<Rightarrow> f32 list option" where
  "grn_pixel powd bias C H W src b h w d = do {
     variance \<leftarrow> for_loop 0 C (\<lambda>c s. do { v \<leftarrow> ld src (b * C * H * W + c * H * W + h * W + w); Some (dadd s (powd v 2)) }) 0;
     let variance = powd (dadd variance bias) (1 / 2);
     for_loop 0 C (\<lambda>c d. do {
       v \<leftarrow> ld src (b * C * H * W + c * H * W + h * W + w);
       y \<leftarrow> nonzero variance;
       st d (b * C * H * W + c * H * W + h * W + w) (d2f (ddiv v y)) }) d }"

definition grn_execute :: "(rat \<Rightarrow> rat \<Rightarrow> rat) \<Rightarrow> f32 \<Rightarrow> nat list \<Rightarrow> f32 list \<Rightarrow> f32 list \<Rightarrow> (status_code \<times> f32 list) option" where
  "grn_execute powd bias dims src dst = do {
     let N = dim_at dims 0;
     let C = dim_at dims 1;
     let H = dim_at dims 2;
     let W = dim_at dims 3;
     d \<leftarrow> for_loop 0 N (\<lambda>b. for_loop 0 H (\<lambda>h. for_loop 0 W (\<lambda>w. grn_pixel powd bias C H W src b h w))) dst;
     Some (OK, d) }"

section \<open>MVN\<close>

record mvn =
  across_channels :: bool
  normalize_variance :: bool
  mvn_eps :: f32

definition mvn_new :: "cnn_layer \<Rightarrow> ext_layer \<times> mvn option" where
  "mvn_new l = construct
     (if length (ins_data l) \<noteq> 1 \<or> out_data l = [] then Inl ''Incorrect number of input/output edges!''
      else try_with (int_param l ''across_channels'') (\<lambda>ac. try_with (int_param l ''normalize_variance'') (\<lambda>nv.
        try_with (float_param l ''eps'') (\<lambda>eps. try_with (addConfig l [conf_at PLN False 0] [conf_at PLN False 0] False) (\<lambda>c.
          Inr (\<lparr>across_channels = ac \<noteq> 0, normalize_variance = nv \<noteq> 0, mvn_eps = eps\<rparr>, c))))))"

text \<open>The mean is taken from the values of one image, or of one plane.\<close>

definition center_image :: "int \<Rightarrow> int \<Rightarrow> int \<Rightarrow> f32 list \<Rightarrow> int \<Rightarrow> f32 list \<Rightarrow> f32 list option" where
  "center_image C H W src b d = do {
     s \<leftarrow> for_loop 0 C (\<lambda>c. for_loop 0 H (\<lambda>h. for_loop 0 W (\<lambda>w s. do {
       v \<leftarrow> ld src (b * C * H * W + c * H * W + h * W + w); Some (dadd s v) }))) 0;
     let mean = ddiv s (of_int (C * H * W));
     for_loop 0 C (\<lambda>c. for_loop 0 H (\<lambda>h. for_loop 0 W (\<lambda>w d. do {
       v \<leftarrow> ld src (b * C * H * W + c * H * W + h * W + w);
       st d (b * C * H * W + c * H * W + h * W + w) (d2f (dsub v mean)) }))) d }"

definition center_plane :: "int \<Rightarrow> int \<Rightarrow> int \<Rightarrow> f32 list \<Rightarrow> int \<Rightarrow> int \<Rightarrow> f32 list \<Rightarrow> f32 list option" where
  "center_plane C H W src b c d = do {
     s \<leftarrow> for_loop 0 H (\<lambda>h. for_loop 0 W (\<lambda>w s. do {
       v \<leftarrow> ld src (b * C * H * W + c * H * W + h * W + w); Some (dadd s v) })) 0;
     let mean = ddiv s (of_int (H * W));
     for_loop 0 H (\<lambda>h. for_loop 0 W (\<lambda>w d. do {
       v \<leftarrow> ld src (b * C * H * W + c * H * W + h * W + w);
       st d (b * C * H * W + c * H * W + h * W + w) (d2f (dsub v mean)) })) d }"

definition scale_image :: "(rat \<Rightarrow> rat \<Rightarrow> rat) \<Rightarrow> f32 \<Rightarrow> int \<Rightarrow> int \<Rightarrow> int \<Rightarrow> int \<Rightarrow> f32 list \<Rightarrow> f32 list option" where
  "scale_image powd eps C H W b d = do {
     s \<leftarrow> for_loop 0 C (\<lambda>c. for_loop 0 H (\<lambda>h. for_loop 0 W (\<lambda>w s. do {
       v \<leftarrow> ld d (b * C * H * W + c * H * W + h * W + w); Some (dadd s (powd v 2)) }))) 0;
     let variance = dadd (powd (ddiv s (of_int (C * H * W))) (1 / 2)) eps;
     for_loop 0 C (\<lambda>c. for_loop 0 H (\<lambda>h. for_loop 0 W (\<lambda>w d. do {
       v \<leftarrow> ld d (b * C * H * W + c * H * W + h * W + w);
       y \<leftarrow> nonzero variance;
       st d (b * C * H * W + c * H * W + h * W + w) (d2f (ddiv v y)) }))) d }"

definition scale_plane :: "(rat \<Rightarrow> rat \<Rightarrow> rat) \<Rightarrow> f32 \<Rightarrow> int \<Rightarrow> int \<Rightarrow> int \<Rightarrow> int \<Rightarrow> int \<Rightarrow> f32 list \<Rightarrow> f32 list option" where
  "scale_plane powd eps C H W b c d = do {
     s \<leftarrow> for_loop 0 H (\<lambda>h. for_loop 0 W (\<lambda>w s. do {
       v \<leftarrow> ld d (b * C * H * W + c * H * W + h * W + w); Some (dadd s (powd v 2)) })) 0;
     let variance = dadd (powd (ddiv s (of_int (H * W))) (1 / 2)) eps;
     for_loop 0 H (\<lambda>h. for_loop 0 W (\<lambda>w d. do {
       v \<leftarrow> ld d (b * C * H * W + c * H * W + h * W + w);
       y \<leftarrow> nonzero variance;
       st d (b * C * H * W + c * H * W + h * W + w) (d2f (ddiv v y)) })) d }"

definition mvn_execute :: "(rat \<Rightarrow> rat \<Rightarrow> rat) \<Rightarrow> mvn \<Rightarrow> nat list \<Rightarrow> f32 list \<Rightarrow> f32 list \<Rightarrow> (status_code \<times> f32 list) option" where
  "mvn_execute powd P dims src dst = do {
     let N = dim_at dims 0;
     let C = dim_at dims 1;
     let H = dim_at dims 2;
     let W = dim_at dims 3;
     d1 \<leftarrow> for_loop 0 N (\<lambda>b. if across_channels P then center_image C H W src b else for_loop 0 C (center_plane C H W src b)) dst;
     if normalize_variance P then do {
       d2 \<leftarrow> for_loop 0 N (\<lambda>b. if across_channels P then scale_image powd (mvn_eps P) C H W b
         else for_loop 0 C (scale_plane powd (mvn_eps P) C H W b)) d1;
       Some (OK, d2) }
     else Some (OK, d1) }"

section \<open>Normalize\<close>

record normalize =
  across_spatial :: bool
  channel_shared :: bool
  norm_eps :: f32
  norm_weights :: "f32 list"

text \<open>The constructor; \<open>weights\<close> is the content of the blob of that name, when there is one.\<close>

definition normalize_new :: "f32 list \<Rightarrow> cnn_layer \<Rightarrow> ext_layer \<times> normalize option" where
  "normalize_new weights l = construct
     (if length (ins_data l) \<noteq> 1 \<or> length (out_data l) \<noteq> 1 then Inl ''Incorrect number of input/output edges!''
      else if \<not> has_weights l then Inl '' weights is empty!''
      else try_with (int_param l ''across_spatial'') (\<lambda>asp. try_with (int_param l ''channel_shared'') (\<lambda>csh.
        try_with (float_param l ''eps'') (\<lambda>eps. try_with (addConfig l [conf_at PLN False 0] [conf_at PLN False 0] True) (\<lambda>c.
          Inr (\<lparr>across_spatial = asp \<noteq> 0, channel_shared = csh \<noteq> 0, norm_eps = eps, norm_weights = weights\<rparr>, c))))))"

definition normalize_image :: "(f32 \<Rightarrow> f32) \<Rightarrow> normalize \<Rightarrow> int \<Rightarrow> int \<Rightarrow> int \<Rightarrow> f32 list \<Rightarrow> int \<Rightarrow> f32 list \<Rightarrow> f32 list option" where
  "normalize_image sqrtf P C H W src n d = do {
     s \<leftarrow> for_loop 0 (C * H * W) (\<lambda>i s. do { v \<leftarrow> ld src (n * C * H * W + i); Some (fadd s (fmul v v)) }) (norm_eps P);
     y \<leftarrow> nonzero (sqrtf s);
     let norm = fdiv 1 y;
     for_loop 0 C (\<lambda>c. for_loop 0 (H * W) (\<lambda>hw d. do {
       scl \<leftarrow> ld (norm_weights P) (if channel_shared P then 0 else c);
       v \<leftarrow> ld src (n * C * H * W + (c * H * W + hw));
       st d (n * C * H * W + (c * H * W + hw)) (fmul (fmul v norm) scl) })) d }"

definition normalize_pixel :: "(f32 \<Rightarrow> f32) \<Rightarrow> normalize \<Rightarrow> int \<Rightarrow> int \<Rightarrow> int \<Rightarrow> f32 list \<Rightarrow> int \<Rightarrow> int \<Rightarrow> f32 list \<Rightarrow> f32 list option" where
  "normalize_pixel sqrtf P C H W src n wh d = do {
     s \<leftarrow> for_loop 0 C (\<lambda>c s. do { v \<leftarrow> ld src (n * C * H * W + c * W * H + wh); Some (fadd s (fmul v v)) }) (norm_eps P);
     y \<leftarrow> nonzero (sqrtf s);
     let norm = fdiv 1 y;
     for_loop 0 C (\<lambda>c d. do {
       scl \<leftarrow> ld (norm_weights P) (if channel_shared P then 0 else c);
       v \<leftarrow> ld src (n * C * H * W + c * W * H + wh);
       st d (n * C * H * W + c * W * H + wh) (fmul (fmul v norm) scl) }) d }"

definition normalize_execute :: "(f32 \<Rightarrow> f32) \<Rightarrow> normalize \<Rightarrow> nat list \<Rightarrow> f32 list list \<Rightarrow> f32 list list \<Rightarrow> (status_code \<times> f32 list list) option" where
  "normalize_execute sqrtf P dims inputs outputs =
     (if length inputs \<noteq> 1 \<or> outputs = [] then Some (GENERAL_ERROR, outputs)
      else if length dims < 4 then None
      else do {
        let N = int (dims ! 0);
        let C = int (dims ! 1);
        let H = int (dims ! 2);
        let W = int (dims ! 3);
        d \<leftarrow> for_loop 0 N (\<lambda>n. if across_spatial P then normalize_image sqrtf P C H W (inputs ! 0) n
          else for_loop 0 (W * H) (normalize_pixel sqrtf P C H W (inputs ! 0) n)) (outputs ! 0);
        Some (OK, outputs[0 := d]) })"

section \<open>Regions\<close>

text \<open>The flat indices of an image and of a plane, and the two steps of MVN on a list of indices.\<close>

definition image_idx :: "int \<Rightarrow> int \<Rightarrow> int \<Rightarrow> int \<Rightarrow> int list" where
  "image_idx C H W b = map (\<lambda>(c, h, w). b * C * H * W + c * H * W + h * W + w) (List.product [0..C - 1] (List.product [0..H - 1] [0..W - 1]))"

definition plane_idx :: "int \<Rightarrow> int \<Rightarrow> int \<Rightarrow> int \<Rightarrow> int \<Rightarrow> int list" where
  "plane_idx C H W b c = map (\<lambda>(h, w). b * C * H * W + c * H * W + h * W + w) (List.product [0..H - 1] [0..W - 1])"

definition centered :: "f32 list \<Rightarrow> int list \<Rightarrow> int \<Rightarrow> f32" where
  "centered src R i = d2f (dsub (src ! nat i) (ddiv (sum_over (\<lambda>v. v) src R) (of_int (int (length R)))))"

definition deviation :: "(rat \<Rightarrow> rat \<Rightarrow> rat) \<Rightarrow> f32 \<Rightarrow> f32 list \<Rightarrow> int list \<Rightarrow> rat" where
  "deviation powd eps d R = dadd (powd (ddiv (sum_over (\<lambda>v. powd v 2) d R) (of_int (int (length R)))) (1 / 2)) eps"

definition center_region :: "f32 list \<Rightarrow> int list \<Rightarrow> f32 list \<Rightarrow> f32 list option" where
  "center_region src R d = do {
     s \<leftarrow> foldm (\<lambda>i s. do { v \<leftarrow> ld src i; Some (dadd s v) }) R 0;
     foldm (\<lambda>i d. do { v \<leftarrow> ld src i; st d i (d2f (dsub v (ddiv s (of_int (int (length R)))))) }) R d }"

definition scale_region :: "(rat \<Rightarrow> rat \<Rightarrow> rat) \<Rightarrow> f32 \<Rightarrow> int list \<Rightarrow> f32 list \<Rightarrow> f32 list option" where
  "scale_region powd eps R d = do {
     s \<leftarrow> foldm (\<lambda>i s. do { v \<leftarrow> ld d i; Some (dadd s (powd v 2)) }) R 0;
     foldm (\<lambda>i d. do { v \<leftarrow> ld d i; y \<leftarrow> nonzero (dadd (powd (ddiv s (of_int (int (length R)))) (1 / 2)) eps); st d i (d2f (ddiv v y)) }) R d }"

lemma idx_length: "0 \<le> C \<Longrightarrow> 0 \<le> H \<Longrightarrow> 0 \<le> W \<Longrightarrow> int (length (image_idx C H W b)) = C * H * W"
  "0 \<le> H \<Longrightarrow> 0 \<le> W \<Longrightarrow> int (length (plane_idx C H W b c)) = H * W"
  by (simp_all add: image_idx_def plane_idx_def)

lemma nest2: "for_loop 0 H (\<lambda>h. for_loop 0 W (f h)) s = foldm (\<lambda>(h, w). f h w) (List.product [0..H - 1] [0..W - 1]) s"
  unfolding for_loop_def [abs_def] by (rule foldm_product)

lemma nest3: "for_loop 0 C (\<lambda>c. for_loop 0 H (\<lambda>h. for_loop 0 W (f c h))) s =
    foldm (\<lambda>(c, h, w). f c h w) (List.product [0..C - 1] (List.product [0..H - 1] [0..W - 1])) s"
  unfolding nest2 [abs_def] unfolding for_loop_def foldm_product by (simp add: case_prod_unfold)

lemma plane_regions:
  assumes "0 \<le> H" "0 \<le> W"
  shows "center_plane C H W src b c = center_region src (plane_idx C H W b c)"
    and "scale_plane powd eps C H W b c = scale_region powd eps (plane_idx C H W b c)"
  unfolding center_plane_def center_region_def scale_plane_def scale_region_def nest2 [abs_def] idx_length(2) [OF assms]
  by (rule ext, simp add: plane_idx_def foldm_map case_prod_unfold Let_def)+

lemma image_regions:
  assumes "0 \<le> C" "0 \<le> H" "0 \<le> W"
  shows "center_image C H W src b = center_region src (image_idx C H W b)"
    and "scale_image powd eps C H W b = scale_region powd eps (image_idx C H W b)"
  unfolding center_image_def center_region_def scale_image_def scale_region_def nest3 [abs_def] idx_length(1) [OF assms]
  by (rule ext, simp add: image_idx_def foldm_map case_prod_unfold Let_def)+

definition inside :: "nat \<Rightarrow> int list \<Rightarrow> bool" where
  "inside n R \<longleftrightarrow> distinct R \<and> (\<forall>i \<in> set R. 0 \<le> i \<and> i < int n) \<and> n \<le> 2 ^ 31"

lemma center_region_ok:
  assumes "inside (length src) R" "length d = length src"
  shows "\<exists>d'. center_region src R d = Some d' \<and> wrote (set R) (centered src R) d d'"
proof -
  have R: "\<And>i. i \<in> set R \<Longrightarrow> 0 \<le> i \<and> i < int (length src)" "length src \<le> 2 ^ 31" using assms(1) by (simp_all add: inside_def)
  let ?f = "\<lambda>i d. do { v \<leftarrow> ld src i; st d i (d2f (dsub v (ddiv (sum_over (\<lambda>v. v) src R) (of_int (int (length R)))))) }"
  have "\<exists>d'. foldm ?f R d = Some d' \<and> wrote (\<Union>i \<in> set R. {i}) (centered src R) d d'"
  proof (rule wrote_foldm [where n = "length src"])
    fix i and d :: "f32 list" assume i: "i \<in> set R" and d: "length d = length src"
    have "ld src i = Some (src ! nat i)" using R(1) [OF i] R(2) by (simp add: ld_def int_ok_def)
    moreover have "\<exists>d'. st d i (centered src R i) = Some d' \<and> wrote {i} (centered src R) d d'"
      using R(1) [OF i] R(2) d by (intro wrote_st) (simp_all add: int_ok_def)
    ultimately show "\<exists>d'. ?f i d = Some d' \<and> wrote {i} (centered src R) d d'" by (simp add: centered_def)
  qed (rule assms(2))
  then show ?thesis using foldm_sum [OF R, where f = "\<lambda>v. v"] by (simp add: center_region_def)
qed

lemma scale_region_ok:
  assumes "inside (length d) R" and nz: "R \<noteq> [] \<longrightarrow> deviation powd eps d R \<noteq> 0"
  shows "\<exists>d'. scale_region powd eps R d = Some d' \<and> wrote (set R) (\<lambda>i. d2f (ddiv (d ! nat i) (deviation powd eps d R))) d d'"
proof -
  have R: "\<And>i. i \<in> set R \<Longrightarrow> 0 \<le> i \<and> i < int (length d)" "length d \<le> 2 ^ 31" "distinct R" using assms(1) by (simp_all add: inside_def)
  let ?g = "\<lambda>i. d2f (ddiv (d ! nat i) (deviation powd eps d R))" and ?f = "\<lambda>i d'. do { v \<leftarrow> ld d' i; y \<leftarrow> nonzero (deviation powd eps d R); st d' i (d2f (ddiv v y)) }"
  have "\<exists>d'. foldm ?f R d = Some d' \<and> wrote (\<Union>i \<in> set R. {i}) ?g d d'"
  proof (rule wrote_foldm_inplace [where n = "length d"])
    fix i and e :: "f32 list" assume i: "i \<in> set R" and e: "length e = length d" "\<And>k. k < length d \<Longrightarrow> int k \<in> {i} \<Longrightarrow> e ! k = d ! k"
    have "e ! nat i = d ! nat i" using e(2) [of "nat i"] R(1) [OF i] by auto
    then have "ld e i = Some (d ! nat i)" using R(1) [OF i] R(2) e(1) by (simp add: ld_def int_ok_def)
    moreover have "\<exists>d'. st e i (?g i) = Some d' \<and> wrote {i} ?g e d'"
      using R(1) [OF i] R(2) e(1) by (intro wrote_st) (simp_all add: int_ok_def)
    moreover have "deviation powd eps d R \<noteq> 0" using nz i by auto
    ultimately show "\<exists>d'. ?f i e = Some d' \<and> wrote {i} ?g e d'" by (simp add: nonzero_def)
  qed (use R(3) in auto)
  then show ?thesis using foldm_sum [OF R(1,2), where f = "\<lambda>v. powd v 2"] by (simp add: scale_region_def deviation_def)
qed

section \<open>MVN as a whole\<close>

text \<open>The region that a value is normalised with, and its final value: the distance from the mean of the region, over the
  deviation of these distances when the variance is normalised, too.\<close>

definition mvn_region :: "mvn \<Rightarrow> int \<Rightarrow> int \<Rightarrow> int \<Rightarrow> int \<Rightarrow> int \<Rightarrow> int list" where
  "mvn_region P C H W b c = (if across_channels P then image_idx C H W b else plane_idx C H W b c)"

definition spread :: "(rat \<Rightarrow> rat \<Rightarrow> rat) \<Rightarrow> f32 \<Rightarrow> f32 list \<Rightarrow> int list \<Rightarrow> rat" where
  "spread powd eps src R =
     dadd (powd (ddiv (fold (\<lambda>j s. dadd s (powd (centered src R j) 2)) R 0) (of_int (int (length R)))) (1 / 2)) eps"

definition scaled :: "(rat \<Rightarrow> rat \<Rightarrow> rat) \<Rightarrow> f32 \<Rightarrow> f32 list \<Rightarrow> int list \<Rightarrow> int \<Rightarrow> f32" where
  "scaled powd eps src R i = d2f (ddiv (centered src R i) (spread powd eps src R))"

definition mvn_value :: "(rat \<Rightarrow> rat \<Rightarrow> rat) \<Rightarrow> mvn \<Rightarrow> f32 list \<Rightarrow> int list \<Rightarrow> int \<Rightarrow> f32" where
  "mvn_value powd P src R i = (if normalize_variance P then scaled powd (mvn_eps P) src R i else centered src R i)"

text \<open>Regions that belong to the elements of a list; \<open>own\<close> gives the element whose region has an index.\<close>

definition owned :: "nat \<Rightarrow> 'x list \<Rightarrow> ('x \<Rightarrow> int list) \<Rightarrow> (int \<Rightarrow> 'x) \<Rightarrow> bool" where
  "owned n xs r own \<longleftrightarrow> distinct xs \<and> (\<forall>x \<in> set xs. inside n (r x) \<and> (\<forall>k \<in> set (r x). own k = x))"

lemma owned_disjoint:
  assumes "owned n xs r own" "x \<in> set xs" "y \<in> set xs" "x \<noteq> y"
  shows "set (r x) \<inter> set (r y) = {}"
proof (rule equals0I)
  fix k assume k: "k \<in> set (r x) \<inter> set (r y)"
  have "\<forall>k \<in> set (r x). own k = x" "\<forall>k \<in> set (r y). own k = y" using assms(1-3) by (simp_all add: owned_def)
  then have "own k = x" "own k = y" using k by blast+
  then show False using assms(4) by blast
qed

lemma center_phase:
  assumes "owned (length src) xs r own" "length dst = length src"
  shows "\<exists>d. foldm (\<lambda>x. center_region src (r x)) xs dst = Some d \<and> wrote (\<Union>x \<in> set xs. set (r x)) (\<lambda>k. centered src (r (own k)) k) dst d"
proof (rule wrote_foldm [where n = "length src"])
  fix x and d :: "f32 list" assume x: "x \<in> set xs" and d: "length d = length src"
  have "inside (length src) (r x)" "\<forall>k \<in> set (r x). own k = x" using assms(1) x by (simp_all add: owned_def)
  moreover from this obtain d' where d': "center_region src (r x) d = Some d'" "wrote (set (r x)) (centered src (r x)) d d'"
    using center_region_ok d by blast
  ultimately have "wrote (set (r x)) (\<lambda>k. centered src (r (own k)) k) d d'" by (intro wrote_cong [OF d'(2)]) simp
  then show "\<exists>d'. center_region src (r x) d = Some d' \<and> wrote (set (r x)) (\<lambda>k. centered src (r (own k)) k) d d'" using d'(1) by blast
qed (rule assms(2))

lemma scale_phase:
  assumes own: "owned (length src) xs r own" and l: "length dst = length src" and nz: "\<forall>x \<in> set xs. r x \<noteq> [] \<longrightarrow> spread powd eps src (r x) \<noteq> 0"
    and d1: "wrote (\<Union>x \<in> set xs. set (r x)) (\<lambda>k. centered src (r (own k)) k) dst d1"
  shows "\<exists>d. foldm (\<lambda>x. scale_region powd eps (r x)) xs d1 = Some d \<and> wrote (\<Union>x \<in> set xs. set (r x)) (\<lambda>k. scaled powd eps src (r (own k)) k) d1 d"
proof (rule wrote_foldm_inplace [where n = "length src"])
  fix x and d :: "f32 list"
  assume x: "x \<in> set xs" and d: "length d = length src" "\<And>k. k < length src \<Longrightarrow> int k \<in> set (r x) \<Longrightarrow> d ! k = d1 ! k"
  have r: "inside (length d) (r x)" "\<forall>k \<in> set (r x). own k = x" using own x d by (simp_all add: owned_def)
  have v: "d ! nat i = centered src (r x) i" if i: "i \<in> set (r x)" for i
  proof -
    have b: "0 \<le> i" "nat i < length src" using r(1) i d(1) by (auto simp: inside_def nat_less_iff)
    then have "d ! nat i = d1 ! nat i" using d(2) i by simp
    also have "\<dots> = centered src (r (own i)) i" using wrote_nth [OF d1, of "nat i"] b l x i by auto
    finally show ?thesis using r(2) i by simp
  qed
  have "sum_over (\<lambda>v. powd v 2) d (r x) = fold (\<lambda>j s. dadd s (powd (centered src (r x) j) 2)) (r x) 0"
    unfolding sum_over_def by (rule fold_cong) (use v in simp_all)
  then have dev: "deviation powd eps d (r x) = spread powd eps src (r x)" by (simp add: deviation_def spread_def)
  then have e: "d2f (ddiv (d ! nat i) (deviation powd eps d (r x))) = scaled powd eps src (r (own i)) i" if "i \<in> set (r x)" for i
    using v [OF that] r(2) that by (simp add: scaled_def)
  obtain d' where d': "scale_region powd eps (r x) d = Some d'" "wrote (set (r x)) (\<lambda>i. d2f (ddiv (d ! nat i) (deviation powd eps d (r x)))) d d'"
    using scale_region_ok [OF r(1)] nz x dev by metis
  have "wrote (set (r x)) (\<lambda>k. scaled powd eps src (r (own k)) k) d d'" by (rule wrote_cong [OF d'(2) e])
  then show "\<exists>d'. scale_region powd eps (r x) d = Some d' \<and> wrote (set (r x)) (\<lambda>k. scaled powd eps src (r (own k)) k) d d'" using d'(1) by blast
qed (use own owned_disjoint [OF own] d1 l in \<open>auto simp: owned_def dest: wrote_length\<close>)

lemma flat_form: "b * C * H * W + c * H * W + h * W + w = idx4 C H W b c h w" for b c h w C H W :: int
  by (simp add: algebra_simps)

lemma idx_regions:
  assumes "int n = N * C * H * W" "n \<le> 2 ^ 31"
  shows "owned n [0..N - 1] (image_idx C H W) (\<lambda>k. k div W div H div C)"
    and "owned n (List.product [0..N - 1] [0..C - 1]) (\<lambda>(b, c). plane_idx C H W b c) (\<lambda>k. (k div W div H div C, k div W div H mod C))"
proof -
  have i: "0 \<le> idx4 C H W b c h w" "idx4 C H W b c h w < int n" if "0 \<le> b" "b < N" "0 \<le> c" "c < C" "0 \<le> h" "h < H" "0 \<le> w" "w < W" for b c h w
    unfolding assms(1) using idx4_bound [OF that] by simp_all
  have d: "distinct (image_idx C H W b)" "distinct (plane_idx C H W b c)" for b c
  proof -
    have "inj_on (\<lambda>(c, h, w). idx4 C H W b c h w) ({0..C - 1} \<times> {0..H - 1} \<times> {0..W - 1})"
      by (rule inj_on_inverseI [where g = "\<lambda>k. (k div W div H mod C, k div W mod H, k mod W)"]) (auto simp: flat_div)
    then show "distinct (image_idx C H W b)" unfolding image_idx_def flat_form by (simp add: distinct_map distinct_product)
    have "inj_on (\<lambda>(h, w). idx4 C H W b c h w) ({0..H - 1} \<times> {0..W - 1})"
      by (rule inj_on_inverseI [where g = "\<lambda>k. (k div W mod H, k mod W)"]) (auto simp: flat_div)
    then show "distinct (plane_idx C H W b c)" unfolding plane_idx_def flat_form by (simp add: distinct_map distinct_product)
  qed
  show "owned n [0..N - 1] (image_idx C H W) (\<lambda>k. k div W div H div C)"
    using i assms(2) d(1) by (auto simp: owned_def inside_def image_idx_def flat_form flat_div)
  show "owned n (List.product [0..N - 1] [0..C - 1]) (\<lambda>(b, c). plane_idx C H W b c) (\<lambda>k. (k div W div H div C, k div W div H mod C))"
    using i assms(2) d(2) by (auto simp: owned_def inside_def plane_idx_def flat_form flat_div distinct_product)
qed

text \<open>A region on which the input is constant: all sums are exact, the mean is the constant, the distances are zero.\<close>

lemma rnd_scaled_int:
  assumes "rnd 24 x = x" "0 \<le> k" "k < 2 ^ 29"
  shows "rnd 53 (of_int k * x) = of_int k * x"
proof (cases "x = 0")
  case False
  define u where "u = ilog2 x - 24 + 1"
  define m where "m = rne (x / 2 powi u)"
  have x: "x = of_int m * 2 powi u" using assms(1) False by (simp add: rnd_def Let_def m_def u_def)
  have "\<bar>x\<bar> < 2 powi (ilog2 x + 1)" using ilog2_bounds(2) [OF False] by simp
  also have "(2 :: rat) powi (ilog2 x + 1) = of_int (2 ^ 24) * 2 powi u" using power_int_add [of "2 :: rat" 24 u] by (simp add: u_def add.commute)
  finally have "of_int \<bar>m\<bar> * 2 powi u < of_int (2 ^ 24) * (2 powi u :: rat)" by (subst (asm) x) (simp add: abs_mult)
  moreover have "(0 :: rat) < 2 powi u" by simp
  ultimately have "of_int \<bar>m\<bar> < (of_int (2 ^ 24) :: rat)" by (simp only: mult_less_cancel_right_pos)
  then have m: "\<bar>m\<bar> < 2 ^ 24" by (simp only: of_int_less_iff)
  have "\<bar>k * m\<bar> \<le> k * 2 ^ 24" using m assms(2) by (simp add: abs_mult mult_left_mono)
  also have "\<dots> < 2 ^ 53" using assms(3) by simp
  finally have r: "rnd 53 (of_int (k * m) * 2 powi u) = of_int (k * m) * 2 powi u" by (rule rnd_exact)
  have e: "of_int (k * m) * 2 powi u = of_int k * x" unfolding x by simp
  show ?thesis using r unfolding e .
qed simp

lemma constant_sum:
  assumes x: "rnd 24 x = x" and R: "\<And>i. i \<in> set R \<Longrightarrow> src ! nat i = x" and k: "0 \<le> k" "k + int (length R) < 2 ^ 29"
  shows "fold (\<lambda>i s. dadd s (src ! nat i)) R (of_int k * x) = of_int (k + int (length R)) * x"
  using R k
proof (induction R arbitrary: k)
  case (Cons i R)
  have "rnd 53 (of_int (k + 1) * x) = of_int (k + 1) * x" using Cons.prems(2,3) by (intro rnd_scaled_int [OF x]) simp_all
  then have "dadd (of_int k * x) (src ! nat i) = of_int (k + 1) * x" using Cons.prems(1) [of i] by (simp add: dadd_def algebra_simps)
  moreover have "fold (\<lambda>i s. dadd s (src ! nat i)) R (of_int (k + 1) * x) = of_int (k + 1 + int (length R)) * x"
    using Cons.prems by (intro Cons.IH) simp_all
  moreover have "k + int (length (i # R)) = k + 1 + int (length R)" by simp
  ultimately show ?case by (simp only: fold_simps comp_apply)
qed simp

lemma constant_value:
  assumes x: "rnd 24 x = x" and R: "\<And>i. i \<in> set R \<Longrightarrow> src ! nat i = x" and n: "int (length R) < 2 ^ 29" and i: "i \<in> set R"
  shows "mvn_value powd P src R i = 0"
proof -
  have "length R \<noteq> 0" using i by auto
  moreover have "sum_over (\<lambda>v. v) src R = of_int (int (length R)) * x"
    using constant_sum [OF x R, of R 0] n by (simp add: sum_over_def)
  ultimately have "ddiv (sum_over (\<lambda>v. v) src R) (of_int (int (length R))) = rnd 53 (of_int 1 * x)" by (simp add: ddiv_def)
  also have "\<dots> = x" using rnd_scaled_int [OF x, of 1] by simp
  finally have "centered src R i = 0" using R [OF i] by (simp add: centered_def dsub_def d2f_def)
  then show ?thesis by (simp add: mvn_value_def scaled_def d2f_def ddiv_def)
qed

lemma mvn_as_regions:
  assumes pos: "0 \<le> C" "0 \<le> H" "0 \<le> W"
  shows "for_loop 0 N (\<lambda>b. if across_channels P then center_image C H W src b else for_loop 0 C (center_plane C H W src b)) d =
      (if across_channels P then foldm (\<lambda>b. center_region src (image_idx C H W b)) [0..N - 1] d
       else foldm (\<lambda>x. center_region src (case x of (b, c) \<Rightarrow> plane_idx C H W b c)) (List.product [0..N - 1] [0..C - 1]) d)"
    and "for_loop 0 N (\<lambda>b. if across_channels P then scale_image powd eps C H W b else for_loop 0 C (scale_plane powd eps C H W b)) d =
      (if across_channels P then foldm (\<lambda>b. scale_region powd eps (image_idx C H W b)) [0..N - 1] d
       else foldm (\<lambda>x. scale_region powd eps (case x of (b, c) \<Rightarrow> plane_idx C H W b c)) (List.product [0..N - 1] [0..C - 1]) d)"
proof -
  have p: "center_plane C H W src b = (\<lambda>c. center_region src (plane_idx C H W b c))" "scale_plane powd eps C H W b = (\<lambda>c. scale_region powd eps (plane_idx C H W b c))" for b
    by (intro ext, simp add: plane_regions [OF pos(2,3)])+
  show "for_loop 0 N (\<lambda>b. if across_channels P then center_image C H W src b else for_loop 0 C (center_plane C H W src b)) d =
      (if across_channels P then foldm (\<lambda>b. center_region src (image_idx C H W b)) [0..N - 1] d
       else foldm (\<lambda>x. center_region src (case x of (b, c) \<Rightarrow> plane_idx C H W b c)) (List.product [0..N - 1] [0..C - 1]) d)"
    "for_loop 0 N (\<lambda>b. if across_channels P then scale_image powd eps C H W b else for_loop 0 C (scale_plane powd eps C H W b)) d =
      (if across_channels P then foldm (\<lambda>b. scale_region powd eps (image_idx C H W b)) [0..N - 1] d
       else foldm (\<lambda>x. scale_region powd eps (case x of (b, c) \<Rightarrow> plane_idx C H W b c)) (List.product [0..N - 1] [0..C - 1]) d)"
    using nest2 [where H = N and W = C and f = "\<lambda>b c. center_region src (plane_idx C H W b c)" and s = d]
      nest2 [where H = N and W = C and f = "\<lambda>b c. scale_region powd eps (plane_idx C H W b c)" and s = d]
    by (simp_all add: p image_regions [OF pos] for_loop_def [of 0 N] case_prod_unfold)
qed

lemma mvn_phases:
  assumes own: "owned (length src) xs r own" and l: "length dst = length src"
    and nz: "\<not> scl \<or> (\<forall>x \<in> set xs. r x \<noteq> [] \<longrightarrow> spread powd eps src (r x) \<noteq> 0)" and all: "\<And>k. 0 \<le> k \<Longrightarrow> k < int (length src) \<Longrightarrow> \<exists>x \<in> set xs. k \<in> set (r x)"
  shows "\<exists>d1. foldm (\<lambda>x. center_region src (r x)) xs dst = Some d1 \<and> d1 = map (\<lambda>i. centered src (r (own (int i))) (int i)) [0..<length src] \<and>
     (scl \<longrightarrow> foldm (\<lambda>x. scale_region powd eps (r x)) xs d1 = Some (map (\<lambda>i. scaled powd eps src (r (own (int i))) (int i)) [0..<length src]))"
proof -
  obtain d1 where d1: "foldm (\<lambda>x. center_region src (r x)) xs dst = Some d1" "wrote (\<Union>x \<in> set xs. set (r x)) (\<lambda>k. centered src (r (own k)) k) dst d1"
    using center_phase [OF own l] by blast
  have l1: "length d1 = length src" using wrote_length [OF d1(2)] l by simp
  have "foldm (\<lambda>x. scale_region powd eps (r x)) xs d1 = Some (map (\<lambda>i. scaled powd eps src (r (own (int i))) (int i)) [0..<length src])" if scl
  proof -
    have nz': "\<forall>x \<in> set xs. r x \<noteq> [] \<longrightarrow> spread powd eps src (r x) \<noteq> 0" using nz that by blast
    obtain d2 where d2: "foldm (\<lambda>x. scale_region powd eps (r x)) xs d1 = Some d2" "wrote (\<Union>x \<in> set xs. set (r x)) (\<lambda>k. scaled powd eps src (r (own k)) k) d1 d2"
      using scale_phase [OF own l nz' d1(2)] by blast
    then show ?thesis using wrote_all [OF d2(2)] all l1 by simp
  qed
  moreover have "d1 = map (\<lambda>i. centered src (r (own (int i))) (int i)) [0..<length src]" using wrote_all [OF d1(2)] all l by simp
  ultimately show ?thesis using d1(1) by blast
qed

lemma mvn_map:
  assumes "int (length src) = N * C * H * W" "length src \<le> 2 ^ 31" "length dst = length src" and pos: "0 \<le> N" "0 \<le> C" "0 \<le> H" "0 \<le> W"
    and dims: "dims = [nat N, nat C, nat H, nat W]"
    and nz: "\<not> normalize_variance P \<or> (\<forall>b \<in> {0..<N}. \<forall>c \<in> {0..<C}. spread powd (mvn_eps P) src (mvn_region P C H W b c) \<noteq> 0)"
  shows "mvn_execute powd P dims src dst =
    Some (OK, map (\<lambda>i. at4 C H W (\<lambda>b c h w. mvn_value powd P src (mvn_region P C H W b c) (idx4 C H W b c h w)) (int i)) [0..<length src])"
proof -
  have dm: "dim_at dims 0 = N" "dim_at dims 1 = C" "dim_at dims 2 = H" "dim_at dims 3 = W" using pos by (simp_all add: dims dim_at_def)
  have all: "\<exists>b \<in> {0..<N}. \<exists>c \<in> {0..<C}. k \<in> set (image_idx C H W b) \<and> k \<in> set (plane_idx C H W b c)" if k: "0 \<le> k" "k < int (length src)" for k
  proof -
    have "k < N * C * H * W" using k assms(1) by simp
    then obtain b c h w where i: "k = idx4 C H W b c h w" "0 \<le> b" "b < N" "0 \<le> c" "c < C" "0 \<le> h" "h < H" "0 \<le> w" "w < W"
      using idx4_cases [OF k(1) _ pos(2-4), of N] by metis
    then have "k \<in> set (image_idx C H W b)" "k \<in> set (plane_idx C H W b c)"
      unfolding image_idx_def plane_idx_def flat_form by (auto intro!: image_eqI [of _ _ "(c, h, w)"] image_eqI [of _ _ "(h, w)"])
    moreover have "b \<in> {0..<N}" "c \<in> {0..<C}" using i by simp_all
    ultimately show ?thesis by blast
  qed
  have inv: "idx4 C H W (k div W div H div C) (k div W div H mod C) (k div W mod H) (k mod W) = k" for k by simp
  show ?thesis
  proof (cases "across_channels P")
    case True
    have "\<not> normalize_variance P \<or> (\<forall>b \<in> set [0..N - 1]. image_idx C H W b \<noteq> [] \<longrightarrow> spread powd (mvn_eps P) src (image_idx C H W b) \<noteq> 0)"
    proof (cases "C \<le> 0")
      case True
      then have "image_idx C H W b = []" for b by (simp add: image_idx_def)
      then show ?thesis by simp
    next
      case False
      then have "0 \<in> {0..<C}" by simp
      then show ?thesis using nz True by (fastforce simp: mvn_region_def)
    qed
    note ph = mvn_phases [OF idx_regions(1) [OF assms(1,2)] assms(3) this]
    have "\<exists>x \<in> set [0..N - 1]. k \<in> set (image_idx C H W x)" if "0 \<le> k" "k < int (length src)" for k using all [OF that] by auto
    then show ?thesis unfolding mvn_execute_def dm Let_def mvn_as_regions [OF pos(2-4)] using True ph
      by (auto simp: at4_def mvn_value_def mvn_region_def inv)
  next
    case False
    have "\<not> normalize_variance P \<or> (\<forall>x \<in> set (List.product [0..N - 1] [0..C - 1]). (case x of (b, c) \<Rightarrow> plane_idx C H W b c) \<noteq> [] \<longrightarrow>
        spread powd (mvn_eps P) src (case x of (b, c) \<Rightarrow> plane_idx C H W b c) \<noteq> 0)"
      using nz False by (auto simp: mvn_region_def)
    note ph = mvn_phases [OF idx_regions(2) [OF assms(1,2)] assms(3) this]
    have "\<exists>x \<in> set (List.product [0..N - 1] [0..C - 1]). k \<in> set (case x of (b, c) \<Rightarrow> plane_idx C H W b c)" if k: "0 \<le> k" "k < int (length src)" for k
    proof -
      obtain b c where "b \<in> {0..<N}" "c \<in> {0..<C}" "k \<in> set (plane_idx C H W b c)" using all [OF k] by blast
      then show ?thesis by (intro bexI [of _ "(b, c)"]) simp_all
    qed
    then show ?thesis unfolding mvn_execute_def dm Let_def mvn_as_regions [OF pos(2-4)] using False ph
      by (auto simp: at4_def mvn_value_def mvn_region_def inv)
  qed
qed

section \<open>GRN and Normalize as a whole\<close>

lemma cover4: "0 \<le> k \<Longrightarrow> k < B * C * H * W \<Longrightarrow> 0 \<le> C \<Longrightarrow> 0 \<le> H \<Longrightarrow> 0 \<le> W \<Longrightarrow>
    \<exists>b \<in> {0..<B}. \<exists>c \<in> {0..<C}. \<exists>h \<in> {0..<H}. \<exists>w \<in> {0..<W}. k = idx4 C H W b c h w"
  by (rule idx4_cases [of k B C H W]) (auto intro!: bexI)

definition grn_norm :: "(rat \<Rightarrow> rat \<Rightarrow> rat) \<Rightarrow> f32 \<Rightarrow> f32 list \<Rightarrow> int \<Rightarrow> int \<Rightarrow> int \<Rightarrow> int \<Rightarrow> int \<Rightarrow> int \<Rightarrow> rat" where
  "grn_norm powd bias src C H W b h w =
     powd (dadd (fold (\<lambda>j s. dadd s (powd (src ! nat (idx4 C H W b j h w)) 2)) [0..C - 1] 0) bias) (1 / 2)"

definition grn_value :: "(rat \<Rightarrow> rat \<Rightarrow> rat) \<Rightarrow> f32 \<Rightarrow> f32 list \<Rightarrow> int \<Rightarrow> int \<Rightarrow> int \<Rightarrow> int \<Rightarrow> int \<Rightarrow> int \<Rightarrow> int \<Rightarrow> f32" where
  "grn_value powd bias src C H W b c h w = d2f (ddiv (src ! nat (idx4 C H W b c h w)) (grn_norm powd bias src C H W b h w))"

lemma grn_pixel_ok:
  assumes n: "int (length src) = N * C * H * W" "length src \<le> 2 ^ 31" "length d = length src"
    and i: "0 \<le> b" "b < N" "0 \<le> h" "h < H" "0 \<le> w" "w < W"
    and nz: "grn_norm powd bias src C H W b h w \<noteq> 0"
  shows "\<exists>d'. grn_pixel powd bias C H W src b h w d = Some d' \<and>
    wrote (\<Union>c \<in> {0..<C}. {idx4 C H W b c h w}) (at4 C H W (grn_value powd bias src C H W)) d d'"
proof -
  have ld: "ld src (idx4 C H W b c h w) = Some (src ! nat (idx4 C H W b c h w))" if "0 \<le> c" "c < C" for c
    using ld_idx4 [OF n(1,2) i(1,2) that i(3-6)] .
  have "for_loop 0 C (\<lambda>c s. do { v \<leftarrow> ld src (idx4 C H W b c h w); Some (dadd s (powd v 2)) }) 0 =
      Some (fold (\<lambda>j s. dadd s (powd (src ! nat (idx4 C H W b j h w)) 2)) [0..C - 1] 0)"
    using ld by (intro for_loop_pure) simp
  moreover have "\<exists>d'. for_loop 0 C (\<lambda>c d. do { v \<leftarrow> ld src (idx4 C H W b c h w); y \<leftarrow> nonzero (grn_norm powd bias src C H W b h w);
        st d (idx4 C H W b c h w) (d2f (ddiv v y)) }) d = Some d' \<and>
      wrote (\<Union>c \<in> {0..<C}. {idx4 C H W b c h w}) (at4 C H W (grn_value powd bias src C H W)) d d'"
    using ld n i nz by (intro wrote_for [where n = "length src"]) (auto simp: grn_value_def nonzero_def intro!: st_idx4)
  ultimately show ?thesis unfolding grn_pixel_def flat_form by (simp add: grn_norm_def)
qed

text \<open>GRN divides every value by the root of the sum of the squares of its pixel and the bias, when that is nowhere zero.\<close>

lemma grn_result:
  assumes n: "int (length src) = N * C * H * W" "length src \<le> 2 ^ 31" "length dst = length src" and pos: "0 \<le> N" "0 \<le> C" "0 \<le> H" "0 \<le> W"
    and dims: "dims = [nat N, nat C, nat H, nat W]"
    and nz: "\<And>b h w. b \<in> {0..<N} \<Longrightarrow> h \<in> {0..<H} \<Longrightarrow> w \<in> {0..<W} \<Longrightarrow> grn_norm powd bias src C H W b h w \<noteq> 0"
  shows "\<exists>d. grn_execute powd bias dims src dst = Some (OK, d) \<and> blob4 N C H W (grn_value powd bias src C H W) d"
proof -
  have dm: "dim_at dims 0 = N" "dim_at dims 1 = C" "dim_at dims 2 = H" "dim_at dims 3 = W" using pos by (simp_all add: dims dim_at_def)
  let ?v = "grn_value powd bias src C H W"
  let ?S = "\<Union>b \<in> {0..<N}. \<Union>h \<in> {0..<H}. \<Union>w \<in> {0..<W}. \<Union>c \<in> {0..<C}. {idx4 C H W b c h w}"
  have "\<exists>d. for_loop 0 N (\<lambda>b. for_loop 0 H (\<lambda>h. for_loop 0 W (\<lambda>w. grn_pixel powd bias C H W src b h w))) dst = Some d \<and> wrote ?S (at4 C H W ?v) dst d"
    by (intro wrote_for [where n = "length src"] grn_pixel_ok [OF n(1,2)]) (use n(3) nz in simp_all)
  then obtain d where d: "for_loop 0 N (\<lambda>b. for_loop 0 H (\<lambda>h. for_loop 0 W (\<lambda>w. grn_pixel powd bias C H W src b h w))) dst = Some d"
    "wrote ?S (at4 C H W ?v) dst d" by blast
  have "d = map (\<lambda>i. at4 C H W ?v (int i)) [0..<length dst]"
    by (rule wrote_all [OF d(2)]) (use cover4 [of _ N C H W] n pos in fastforce)
  then have "blob4 N C H W ?v d" using blob4_map [of "length dst" N C H W ?v] n by simp
  then show ?thesis using d(1) unfolding grn_execute_def dm Let_def by simp
qed

text \<open>The indices whose squares make the norm of a value, and the value that Normalize gives.\<close>

definition norm_region :: "normalize \<Rightarrow> int \<Rightarrow> int \<Rightarrow> int \<Rightarrow> int \<Rightarrow> int \<Rightarrow> int \<Rightarrow> int list" where
  "norm_region P C H W n h w = (if across_spatial P then map (\<lambda>i. n * C * H * W + i) [0..C * H * W - 1]
     else map (\<lambda>c. idx4 C H W n c h w) [0..C - 1])"

definition root_of :: "(f32 \<Rightarrow> f32) \<Rightarrow> f32 \<Rightarrow> f32 list \<Rightarrow> int list \<Rightarrow> f32" where
  "root_of sqrtf eps src R = sqrtf (fold (\<lambda>j s. fadd s (fmul (src ! nat j) (src ! nat j))) R eps)"

definition norm_of :: "(f32 \<Rightarrow> f32) \<Rightarrow> f32 \<Rightarrow> f32 list \<Rightarrow> int list \<Rightarrow> f32" where
  "norm_of sqrtf eps src R = fdiv 1 (root_of sqrtf eps src R)"

definition normalize_value :: "(f32 \<Rightarrow> f32) \<Rightarrow> normalize \<Rightarrow> f32 list \<Rightarrow> int \<Rightarrow> int \<Rightarrow> int \<Rightarrow> int \<Rightarrow> int \<Rightarrow> int \<Rightarrow> int \<Rightarrow> f32" where
  "normalize_value sqrtf P src C H W n c h w = fmul (fmul (src ! nat (idx4 C H W n c h w)) (norm_of sqrtf (norm_eps P) src (norm_region P C H W n h w)))
     (norm_weights P ! (if channel_shared P then 0 else nat c))"

definition normalize_ok :: "normalize \<Rightarrow> int \<Rightarrow> int \<Rightarrow> int \<Rightarrow> int \<Rightarrow> f32 list \<Rightarrow> bool" where
  "normalize_ok P N C H W src \<longleftrightarrow> int (length src) = N * C * H * W \<and> length src \<le> 2 ^ 31 \<and> 0 \<le> N \<and> 0 \<le> C \<and> 0 \<le> H \<and> 0 \<le> W \<and>
     (if channel_shared P then norm_weights P \<noteq> [] else C \<le> int (length (norm_weights P))) \<and> length (norm_weights P) \<le> 2 ^ 31"

lemma normalize_store:
  assumes ok: "normalize_ok P N C H W src" and d: "length d = length src" and i: "0 \<le> n" "n < N" "0 \<le> c" "c < C" "0 \<le> k" "k < H * W"
    and s: "nrm = norm_of sqrtf (norm_eps P) src (norm_region P C H W n (k div W) (k mod W))"
  shows "\<exists>d'. (do { scl \<leftarrow> ld (norm_weights P) (if channel_shared P then 0 else c); v \<leftarrow> ld src (n * C * H * W + (c * H * W + k));
       st d (n * C * H * W + (c * H * W + k)) (fmul (fmul v nrm) scl) }) = Some d' \<and>
    wrote {idx4 C H W n c (k div W) (k mod W)} (at4 C H W (normalize_value sqrtf P src C H W)) d d'"
proof -
  have n: "int (length src) = N * C * H * W" "length src \<le> 2 ^ 31" using ok by (simp_all add: normalize_ok_def)
  have W: "0 < W" using i(5,6) ok by (cases "W = 0") (auto simp: normalize_ok_def)
  have r: "0 \<le> k div W" "k div W < H" "0 \<le> k mod W" "k mod W < W" using i(5,6) W by (simp_all add: pos_imp_zdiv_nonneg_iff div_lessI)
  have "n * C * H * W + (c * H * W + k) = n * C * H * W + (c * H * W + (k div W * W + k mod W))" by simp
  then have ix: "n * C * H * W + (c * H * W + k) = idx4 C H W n c (k div W) (k mod W)" by (simp only:) (simp only: algebra_simps)
  have "ld (norm_weights P) (if channel_shared P then 0 else c) = Some (norm_weights P ! (if channel_shared P then 0 else nat c))"
    using ok i by (auto simp: normalize_ok_def ld_def int_ok_def)
  moreover have "ld src (idx4 C H W n c (k div W) (k mod W)) = Some (src ! nat (idx4 C H W n c (k div W) (k mod W)))"
    by (rule ld_idx4 [OF n i(1-4) r])
  moreover have "\<exists>d'. st d (idx4 C H W n c (k div W) (k mod W)) (normalize_value sqrtf P src C H W n c (k div W) (k mod W)) = Some d' \<and>
      wrote {idx4 C H W n c (k div W) (k mod W)} (at4 C H W (normalize_value sqrtf P src C H W)) d d'"
    using n d by (intro st_idx4 [OF _ _ i(1-4) r]) simp_all
  ultimately show ?thesis unfolding ix s by (simp add: normalize_value_def)
qed

lemma normalize_image_ok:
  assumes ok: "normalize_ok P N C H W src" and d: "length d = length src" and i: "0 \<le> n" "n < N" and ac: "across_spatial P"
    and nz: "root_of sqrtf (norm_eps P) src (map (\<lambda>i. n * C * H * W + i) [0..C * H * W - 1]) \<noteq> 0"
  shows "\<exists>d'. normalize_image sqrtf P C H W src n d = Some d' \<and>
    wrote (\<Union>c \<in> {0..<C}. \<Union>k \<in> {0..<H * W}. {idx4 C H W n c (k div W) (k mod W)}) (at4 C H W (normalize_value sqrtf P src C H W)) d d'"
proof -
  have n: "int (length src) = N * (C * H * W)" "length src \<le> 2 ^ 31" using ok by (simp_all add: normalize_ok_def mult.assoc)
  have "ld src (n * C * H * W + k) = Some (src ! nat (n * C * H * W + k))" if "0 \<le> k" "k < C * H * W" for k
    using flat_bound [OF i that] n by (intro ld_in [where k = "int (length src)"]) (simp_all add: mult.assoc)
  then have "for_loop 0 (C * H * W) (\<lambda>i s. do { v \<leftarrow> ld src (n * C * H * W + i); Some (fadd s (fmul v v)) }) (norm_eps P) =
      Some (fold (\<lambda>i s. fadd s (fmul (src ! nat (n * C * H * W + i)) (src ! nat (n * C * H * W + i)))) [0..C * H * W - 1] (norm_eps P))"
    by (intro for_loop_pure) simp
  moreover have "\<exists>d'. for_loop 0 C (\<lambda>c. for_loop 0 (H * W) (\<lambda>k d. do {
        scl \<leftarrow> ld (norm_weights P) (if channel_shared P then 0 else c); v \<leftarrow> ld src (n * C * H * W + (c * H * W + k));
        st d (n * C * H * W + (c * H * W + k)) (fmul (fmul v (fdiv 1 (sqrtf (fold (\<lambda>i s. fadd s (fmul (src ! nat (n * C * H * W + i)) (src ! nat (n * C * H * W + i))))
          [0..C * H * W - 1] (norm_eps P))))) scl) })) d = Some d' \<and>
      wrote (\<Union>c \<in> {0..<C}. \<Union>k \<in> {0..<H * W}. {idx4 C H W n c (k div W) (k mod W)}) (at4 C H W (normalize_value sqrtf P src C H W)) d d'"
    by (intro wrote_for [where n = "length src"] normalize_store [OF ok _ i] d)
       (simp_all add: norm_of_def root_of_def norm_region_def ac fold_map comp_def)
  ultimately show ?thesis using nz unfolding normalize_image_def by (simp add: root_of_def nonzero_def fold_map comp_def)
qed

lemma normalize_pixel_ok:
  assumes ok: "normalize_ok P N C H W src" and d: "length d = length src" and i: "0 \<le> n" "n < N" "0 \<le> k" "k < H * W" and ac: "\<not> across_spatial P"
    and nz: "root_of sqrtf (norm_eps P) src (norm_region P C H W n (k div W) (k mod W)) \<noteq> 0"
  shows "\<exists>d'. normalize_pixel sqrtf P C H W src n k d = Some d' \<and>
    wrote (\<Union>c \<in> {0..<C}. {idx4 C H W n c (k div W) (k mod W)}) (at4 C H W (normalize_value sqrtf P src C H W)) d d'"
proof -
  have n: "int (length src) = N * C * H * W" "length src \<le> 2 ^ 31" using ok by (simp_all add: normalize_ok_def)
  have W: "0 < W" using i(3,4) ok by (cases "W = 0") (auto simp: normalize_ok_def)
  have r: "0 \<le> k div W" "k div W < H" "0 \<le> k mod W" "k mod W < W" using i(3,4) W by (simp_all add: pos_imp_zdiv_nonneg_iff div_lessI)
  have k: "n * C * H * W + c * W * H + k = n * C * H * W + (c * H * W + k)" for c by (simp add: algebra_simps)
  have "n * C * H * W + (c * H * W + k) = n * C * H * W + (c * H * W + (k div W * W + k mod W))" for c by simp
  then have ix: "n * C * H * W + (c * H * W + k) = idx4 C H W n c (k div W) (k mod W)" for c by (simp only:) (simp only: algebra_simps)
  let ?R = "norm_region P C H W n (k div W) (k mod W)"
  have "ld src (n * C * H * W + (c * H * W + k)) = Some (src ! nat (n * C * H * W + (c * H * W + k)))" if "0 \<le> c" "c < C" for c
    unfolding ix by (rule ld_idx4 [OF n i(1,2) that r])
  then have "for_loop 0 C (\<lambda>c s. do { v \<leftarrow> ld src (n * C * H * W + (c * H * W + k)); Some (fadd s (fmul v v)) }) (norm_eps P) =
      Some (fold (\<lambda>j s. fadd s (fmul (src ! nat j) (src ! nat j))) ?R (norm_eps P))"
    by (subst for_loop_pure [where g = "\<lambda>c s. fadd s (fmul (src ! nat (n * C * H * W + (c * H * W + k))) (src ! nat (n * C * H * W + (c * H * W + k))))"])
       (simp_all add: norm_region_def ac fold_map comp_def ix)
  moreover have "\<exists>d'. for_loop 0 C (\<lambda>c d. do {
        scl \<leftarrow> ld (norm_weights P) (if channel_shared P then 0 else c); v \<leftarrow> ld src (n * C * H * W + (c * H * W + k));
        st d (n * C * H * W + (c * H * W + k)) (fmul (fmul v (norm_of sqrtf (norm_eps P) src ?R)) scl) }) d = Some d' \<and>
      wrote (\<Union>c \<in> {0..<C}. {idx4 C H W n c (k div W) (k mod W)}) (at4 C H W (normalize_value sqrtf P src C H W)) d d'"
    by (intro wrote_for [where n = "length src"] normalize_store [OF ok _ i(1,2) _ _ i(3,4) refl] d)
  ultimately show ?thesis using nz unfolding normalize_pixel_def k by (simp add: norm_of_def root_of_def nonzero_def)
qed

text \<open>Normalize multiplies every value by the reciprocal norm of its image or pixel and by the scale of its channel.\<close>

lemma normalize_result:
  assumes ok: "normalize_ok P N C H W src" and d: "length dst = length src" and dims: "dims = [nat N, nat C, nat H, nat W]"
    and nz: "\<And>n h w. root_of sqrtf (norm_eps P) src (norm_region P C H W n h w) \<noteq> 0"
  shows "\<exists>d. normalize_execute sqrtf P dims [src] (dst # outs) = Some (OK, d # outs) \<and> blob4 N C H W (normalize_value sqrtf P src C H W) d"
proof -
  let ?v = "normalize_value sqrtf P src C H W"
  have n: "int (length dst) = N * C * H * W" "0 \<le> N" "0 \<le> C" "0 \<le> H" "0 \<le> W" using ok d by (simp_all add: normalize_ok_def)
  let ?body = "\<lambda>b. if across_spatial P then normalize_image sqrtf P C H W src b else for_loop 0 (W * H) (normalize_pixel sqrtf P C H W src b)"
  let ?S = "\<lambda>b. \<Union>c \<in> {0..<C}. \<Union>k \<in> {0..<H * W}. {idx4 C H W b c (k div W) (k mod W)}"
  have "\<exists>d. for_loop 0 N ?body dst = Some d \<and> wrote (\<Union>b \<in> {0..<N}. ?S b) (at4 C H W ?v) dst d"
  proof (rule wrote_for [where n = "length src"])
    fix b and d :: "f32 list" assume b: "0 \<le> b" "b < N" and d: "length d = length src"
    show "\<exists>d'. ?body b d = Some d' \<and> wrote (?S b) (at4 C H W ?v) d d'"
    proof (cases "across_spatial P")
      case False
      have "\<exists>d'. for_loop 0 (H * W) (normalize_pixel sqrtf P C H W src b) d = Some d' \<and>
          wrote (\<Union>k \<in> {0..<H * W}. \<Union>c \<in> {0..<C}. {idx4 C H W b c (k div W) (k mod W)}) (at4 C H W ?v) d d'"
        using normalize_pixel_ok [OF ok _ b _ _ False nz] by (intro wrote_for [where n = "length src"] d) simp_all
      moreover have "(\<Union>k \<in> {0..<H * W}. \<Union>c \<in> {0..<C}. {idx4 C H W b c (k div W) (k mod W)}) = ?S b" by blast
      ultimately show ?thesis using False by (simp only: if_False mult.commute [of W H])
    qed (use normalize_image_ok [OF ok d b] nz [of b 0 0] in \<open>simp add: norm_region_def\<close>)
  qed (rule d)
  then obtain d' where d': "for_loop 0 N ?body dst = Some d'" "wrote (\<Union>b \<in> {0..<N}. ?S b) (at4 C H W ?v) dst d'" by blast
  have "d' = map (\<lambda>i. at4 C H W ?v (int i)) [0..<length dst]"
  proof (rule wrote_all [OF d'(2)])
    fix i assume "0 \<le> i" "i < int (length dst)"
    then obtain b c h w where i: "i = idx4 C H W b c h w" "b \<in> {0..<N}" "c \<in> {0..<C}" "0 \<le> h" "h < H" "0 \<le> w" "w < W"
      using cover4 [of i N C H W] n by auto
    have "(h * W + w) div W = h" "(h * W + w) mod W = w" "h * W + w \<in> {0..<H * W}" using i flat_bound [of h H w W] by (simp_all add: flat_div)
    then have "i \<in> {idx4 C H W b c ((h * W + w) div W) ((h * W + w) mod W)}" by (simp only: i(1) singleton_iff)
    then show "i \<in> (\<Union>b \<in> {0..<N}. ?S b)" using i(2,3) \<open>h * W + w \<in> {0..<H * W}\<close> by (intro UN_I)
  qed
  then have "blob4 N C H W ?v d'" using blob4_map [OF n(1)] by simp
  moreover have dm: "int (dims ! 0) = N" "int (dims ! 1) = C" "int (dims ! 2) = H" "int (dims ! 3) = W" "length dims = 4"
    using n by (simp_all add: dims)
  moreover have "normalize_execute sqrtf P dims [src] (dst # outs) = Some (OK, d' # outs)"
    unfolding normalize_execute_def dm Let_def nth_Cons_0 using d'(1) by simp
  ultimately show ?thesis by blast
qed

section \<open>Property\<close>

text \<open>What the C++ library promises of its power function: a square and a square root are not negative.\<close>

definition pow_ok :: "(rat \<Rightarrow> rat \<Rightarrow> rat) \<Rightarrow> bool" where
  "pow_ok powd \<longleftrightarrow> (\<forall>x. 0 \<le> powd x 2) \<and> (\<forall>x \<ge> 0. 0 \<le> powd x (1 / 2))"

lemma spread_positive:
  assumes "pow_ok powd" "0 < eps"
  shows "0 < spread powd eps src R"
proof -
  have sq: "0 \<le> dadd s (powd x 2)" if "0 \<le> s" for s x
    unfolding dadd_def using assms(1) that by (intro rnd_nonneg add_nonneg_nonneg) (simp_all add: pow_ok_def)
  have sum: "0 \<le> s \<Longrightarrow> 0 \<le> fold (\<lambda>j s. dadd s (powd (centered src R j) 2)) L s" for L s
    by (induction L arbitrary: s) (simp_all add: sq)
  have "0 \<le> ddiv (fold (\<lambda>j s. dadd s (powd (centered src R j) 2)) R 0) (of_int (int (length R)))"
    using sum [of 0 R] by (simp add: ddiv_def rnd_nonneg)
  then have "0 \<le> powd (ddiv (fold (\<lambda>j s. dadd s (powd (centered src R j) 2)) R 0) (of_int (int (length R)))) (1 / 2)"
    using assms(1) by (simp add: pow_ok_def)
  then show ?thesis unfolding spread_def dadd_def using assms(2) by (intro rnd_pos add_nonneg_pos) simp_all
qed

text \<open>C22. MVN stays inside its buffers and its output at every index is the distance of the input from the mean of its region
  (its plane, or its image when channels are taken together), over the deviation of these distances when the variance is
  normalised. That normalisation needs a positive \<open>eps\<close> (the default is \<open>1e-9\<close>): with it no deviation is zero, without it a
  constant region would be divided by zero. Where a region of fewer than \<open>2 ^ 29\<close> values is constant the output
  is exactly zero: no rounding of the sum or the mean shows.\<close>

theorem mvn_result:
  assumes n: "int (length src) = N * C * H * W" "length src \<le> 2 ^ 31" "length dst = length src" and pos: "0 \<le> N" "0 \<le> C" "0 \<le> H" "0 \<le> W"
    and dims: "dims = [nat N, nat C, nat H, nat W]" and eps: "normalize_variance P \<Longrightarrow> 0 < mvn_eps P" and pow: "pow_ok powd"
  shows "\<exists>d. mvn_execute powd P dims src dst = Some (OK, d) \<and>
    blob4 N C H W (\<lambda>b c h w. mvn_value powd P src (mvn_region P C H W b c) (idx4 C H W b c h w)) d \<and>
    (\<forall>b \<in> {0..<N}. \<forall>c \<in> {0..<C}. normalize_variance P \<longrightarrow> 0 < spread powd (mvn_eps P) src (mvn_region P C H W b c)) \<and>
    (\<forall>b \<in> {0..<N}. \<forall>c \<in> {0..<C}. \<forall>x. rnd 24 x = x \<and> length (mvn_region P C H W b c) < 2 ^ 29 \<and>
       (\<forall>i \<in> set (mvn_region P C H W b c). src ! nat i = x) \<longrightarrow>
       (\<forall>h \<in> {0..<H}. \<forall>w \<in> {0..<W}. d ! nat (idx4 C H W b c h w) = 0))"
proof -
  let ?v = "\<lambda>b c h w. mvn_value powd P src (mvn_region P C H W b c) (idx4 C H W b c h w)"
  let ?d = "map (\<lambda>i. at4 C H W ?v (int i)) [0..<length src]"
  have b4: "blob4 N C H W ?v ?d" by (rule blob4_map [OF n(1)])
  have sp: "0 < spread powd (mvn_eps P) src R" if "normalize_variance P" for R
    by (rule spread_positive [OF pow eps [OF that]])
  then have "\<not> normalize_variance P \<or> (\<forall>b \<in> {0..<N}. \<forall>c \<in> {0..<C}. spread powd (mvn_eps P) src (mvn_region P C H W b c) \<noteq> 0)"
    by (metis less_irrefl)
  from mvn_map [OF n pos dims this] have ex: "mvn_execute powd P dims src dst = Some (OK, ?d)" .
  have "?d ! nat (idx4 C H W b c h w) = 0"
    if i: "b \<in> {0..<N}" "c \<in> {0..<C}" "h \<in> {0..<H}" "w \<in> {0..<W}" and x: "rnd 24 x = x" "length (mvn_region P C H W b c) < 2 ^ 29"
      "\<forall>j \<in> set (mvn_region P C H W b c). src ! nat j = x" for b c h w x
  proof -
    have "idx4 C H W b c h w \<in> set (mvn_region P C H W b c)"
      unfolding mvn_region_def image_idx_def plane_idx_def flat_form using i by (auto intro!: image_eqI [of _ _ "(c, h, w)"] image_eqI [of _ _ "(h, w)"])
    then have "?v b c h w = 0" using x by (intro constant_value [where x = x]) simp_all
    then show ?thesis using b4 i unfolding blob4_def by simp
  qed
  then show ?thesis using ex b4 sp by blast
qed

theorem mvn_result_witness:
  "\<exists>d. mvn_execute (\<lambda>x y. \<bar>x\<bar>) \<lparr>across_channels = False, normalize_variance = True, mvn_eps = 1\<rparr> [1, 1, 1, 2] [3, 3] [0, 0] = Some (OK, d) \<and>
     d ! 0 = 0"
proof -
  let ?P = "\<lparr>across_channels = False, normalize_variance = True, mvn_eps = 1\<rparr>" and ?f = "\<lambda>x y :: rat. \<bar>x\<bar>"
  have r: "mvn_region ?P 1 1 2 0 0 = [0, 1]" by (simp add: mvn_region_def plane_idx_def upto.simps)
  have x: "rnd 24 3 = 3" using rnd_of_int [of 3 24] by simp
  obtain d where "mvn_execute ?f ?P [1, 1, 1, 2] [3, 3] [0, 0] = Some (OK, d)"
    and z: "\<forall>b \<in> {0..<1}. \<forall>c \<in> {0..<1}. \<forall>x. rnd 24 x = x \<and> length (mvn_region ?P 1 1 2 b c) < 2 ^ 29 \<and>
       (\<forall>i \<in> set (mvn_region ?P 1 1 2 b c). [3, 3] ! nat i = x) \<longrightarrow> (\<forall>h \<in> {0..<1}. \<forall>w \<in> {0..<2}. d ! nat (idx4 1 1 2 b c h w) = 0)"
    using mvn_result [of "[3, 3]" 1 1 1 2 "[0, 0]" "[1, 1, 1, 2]" ?P ?f] by (auto simp: pow_ok_def)
  moreover have q: "\<forall>h \<in> {0..<1}. \<forall>w \<in> {0..<2}. d ! nat (h * 2 + w) = 0"
    using z [THEN bspec [of _ _ 0], THEN bspec [of _ _ 0], THEN spec [of _ 3]] r x by simp
  have "d ! nat (0 * 2 + 0) = 0" using q [THEN bspec [of _ _ 0], THEN bspec [of _ _ 0]] by simp
  ultimately show ?thesis by (intro exI [of _ d] conjI) simp_all
qed

end
