(* ===== verification/PointLayers.thy ===== *)
theory PointLayers
  imports LayerBase
begin

text \<open>
  \<^verbatim>\<open>extension/ext_prelu.cpp\<close> and \<^verbatim>\<open>ext_powerfile.cpp\<close>: the layers that change every value by itself. PReLU multiplies
  negative values by the weight of their channel; a blob of four dimensions is expected in blocks of eight
  channels. PowerFile adds the numbers of a fixed list in turn. The portable loops for builds without AVX-512 are modelled.
\<close>

section \<open>PReLU\<close>

definition prelu :: "f32 \<Rightarrow> f32 \<Rightarrow> f32" where
  "prelu w v = fadd (max v 0) (fmul w (min v 0))"

text \<open>The constructor; \<open>weights\<close> is the content of the blob of that name. A missing input port is dereferenced.\<close>

definition prelu_new :: "f32 list \<Rightarrow> cnn_layer \<Rightarrow> (ext_layer \<times> f32 list option) option" where
  "prelu_new weights l =
     (if length (ins_data l) \<noteq> 1 \<or> out_data l = [] then Some (construct (Inl ''Incorrect number of input/output edges!''))
      else if \<not> has_weights l then Some (construct (Inl '' weights is empty!''))
      else case ins_data l ! 0 of None \<Rightarrow> None
        | Some p \<Rightarrow> (let fmt = (if length (port_dims p) \<noteq> 4 then PLN else BLK8)
            in Some (construct (try_with (addConfig l [conf_at fmt False 0] [conf_at fmt False 0] False) (\<lambda>c. Inr (weights, c))))))"

definition prelu_blocked :: "f32 list \<Rightarrow> int \<Rightarrow> int \<Rightarrow> int \<Rightarrow> int \<Rightarrow> f32 list \<Rightarrow> f32 list \<Rightarrow> f32 list option" where
  "prelu_blocked weights B C H W src dst = (let CB = (C + 8 - 1) div 8 * 8 in
     for_loop 0 B (\<lambda>b. for_loop 0 ((C + 8 - 1) div 8) (\<lambda>k. for_loop 0 (H * W) (\<lambda>i. for_loop 0 8 (\<lambda>c d. do {
       let c_block = 8 * k;
       let idx = b * CB * H * W + c_block * H * W + 8 * i + c;
       v \<leftarrow> ld src idx;
       w \<leftarrow> ld weights (c_block + c);
       st d idx (prelu w v) })))) dst)"

definition prelu_plain :: "f32 list \<Rightarrow> int \<Rightarrow> int \<Rightarrow> f32 list \<Rightarrow> f32 list \<Rightarrow> f32 list option" where
  "prelu_plain weights B C src dst = for_loop 0 B (\<lambda>b. for_loop 0 C (\<lambda>c d. do {
     v \<leftarrow> ld src (b * C + c);
     w \<leftarrow> ld weights c;
     st d (b * C + c) (prelu w v) })) dst"

definition prelu_execute :: "f32 list \<Rightarrow> nat list \<Rightarrow> f32 list list \<Rightarrow> f32 list list \<Rightarrow> (status_code \<times> f32 list list) option" where
  "prelu_execute weights dims inputs outputs =
     (if length inputs \<noteq> 1 \<or> outputs = [] then Some (GENERAL_ERROR, outputs)
      else if length dims = 4 then do {
        d \<leftarrow> prelu_blocked weights (int (dims ! 0)) (int (dims ! 1)) (int (dims ! 2)) (int (dims ! 3)) (inputs ! 0) (outputs ! 0);
        Some (OK, outputs[0 := d]) }
      else if length dims < 2 then None
      else do {
        d \<leftarrow> prelu_plain weights (int (dims ! 0)) (int (dims ! 1)) (inputs ! 0) (outputs ! 0);
        Some (OK, outputs[0 := d]) })"

section \<open>PowerFile\<close>

definition power_shifts :: "int list" where
  "power_shifts = [1, 0, 0, 0, 1, 0]"

definition powerfile_new :: "cnn_layer \<Rightarrow> ext_layer \<times> int list option" where
  "powerfile_new l = construct
     (if length (ins_data l) \<noteq> 1 \<or> out_data l = [] then Inl ''Incorrect number of input/output edges!''
      else try_with (addConfig l [conf PLN] [conf PLN] False) (\<lambda>c. Inr (power_shifts, c)))"

definition powerfile_execute :: "int list \<Rightarrow> f32 list list \<Rightarrow> f32 list list \<Rightarrow> (status_code \<times> f32 list list) option" where
  "powerfile_execute shifts inputs outputs =
     (if length inputs \<noteq> 1 \<or> outputs = [] then Some (GENERAL_ERROR, outputs)
      else do {
        d \<leftarrow> for_loop 0 (int (length (inputs ! 0))) (\<lambda>i d. do {
          v \<leftarrow> ld (inputs ! 0) i;
          s \<leftarrow> ld shifts (i mod int (length shifts));
          st d i (fadd v (i2f s)) }) (outputs ! 0);
        Some (OK, outputs[0 := d]) })"

section \<open>What they compute\<close>

text \<open>Parts of a buffer that lie in order: the buffer after a loop over all of it.\<close>

lemma fill_all:
  assumes "\<And>i d. 0 \<le> i \<Longrightarrow> i < int n \<Longrightarrow> length d = n \<Longrightarrow> \<exists>d'. body i d = Some d' \<and> wrote {i} g d d'" and "length d = n"
  shows "for_loop 0 (int n) body d = Some (map (\<lambda>i. g (int i)) [0..<n])"
proof -
  obtain d' where d': "for_loop 0 (int n) body d = Some d'" "wrote (\<Union>i\<in>{0..<int n}. {i}) g d d'"
    using wrote_for [of 0 "int n" n body "\<lambda>i. {i}" g d] assms by blast
  then show ?thesis using wrote_all [OF d'(2)] assms(2) by simp
qed

lemma powerfile_result:
  assumes "length dst = length src" "length src \<le> 2 ^ 31"
  shows "powerfile_execute power_shifts [src] (dst # outs) =
    Some (OK, map (\<lambda>i. fadd (src ! i) (if i mod 6 \<in> {0, 4} then 1 else 0)) [0..<length src] # outs)"
proof -
  let ?g = "\<lambda>i. fadd (src ! nat i) (i2f (power_shifts ! nat (i mod 6)))"
  have s: "i2f (power_shifts ! (k mod 6)) = (if k mod 6 \<in> {0, 4} then 1 else 0)" for k :: nat
  proof -
    have "k mod 6 \<in> {0, 1, 2, 3, 4, 5}" by auto
    moreover have "i2f 1 = 1" "i2f 0 = 0" by (simp_all add: i2f_exact)
    ultimately show ?thesis by (auto simp: power_shifts_def)
  qed
  have "for_loop 0 (int (length src)) (\<lambda>i d. do { v \<leftarrow> ld src i; s \<leftarrow> ld power_shifts (i mod int (length power_shifts)); st d i (fadd v (i2f s)) }) dst =
      Some (map (\<lambda>i. ?g (int i)) [0..<length src])"
  proof (rule fill_all)
    fix i and d :: "f32 list" assume i: "0 \<le> i" "i < int (length src)" and d: "length d = length src"
    have "ld src i = Some (src ! nat i)" using i assms by (simp add: ld_def int_ok_def)
    moreover have "ld power_shifts (i mod int (length power_shifts)) = Some (power_shifts ! nat (i mod 6))"
      using pos_mod_bound [of 6 i] pos_mod_sign [of 6 i] int_okI [of "i mod 6" 6] by (simp add: ld_def power_shifts_def)
    moreover have "\<exists>d'. st d i (?g i) = Some d' \<and> wrote {i} ?g d d'" using i d assms by (intro wrote_st) (simp_all add: int_ok_def)
    ultimately show "\<exists>d'. (do { v \<leftarrow> ld src i; s \<leftarrow> ld power_shifts (i mod int (length power_shifts)); st d i (fadd v (i2f s)) }) = Some d' \<and> wrote {i} ?g d d'"
      by simp
  qed (use assms in simp)
  moreover have "nat (int k mod 6) = k mod 6" for k by (simp add: nat_mod_distrib)
  ultimately show ?thesis by (simp add: powerfile_execute_def s)
qed

lemma prelu_plain_result:
  assumes n: "int (length src) = B * C" "length src \<le> 2 ^ 31" "length dst = length src" and w: "C \<le> int (length weights)" "length weights \<le> 2 ^ 31" and pos: "0 \<le> B" "0 \<le> C"
  shows "prelu_plain weights B C src dst = Some (map (\<lambda>i. prelu (weights ! (i mod nat C)) (src ! i)) [0..<length src])"
proof -
  let ?g = "\<lambda>i. prelu (weights ! nat (i mod C)) (src ! nat i)"
  have "\<exists>d. prelu_plain weights B C src dst = Some d \<and> wrote (\<Union>b\<in>{0..<B}. \<Union>c\<in>{0..<C}. {b * C + c}) ?g dst d"
    unfolding prelu_plain_def
  proof (intro wrote_for [where n = "length src"])
    fix b c and d :: "f32 list" assume i: "0 \<le> b" "b < B" "0 \<le> c" "c < C" and d: "length d = length src"
    have r: "0 \<le> b * C + c" "b * C + c < int (length src)" using flat_bound [OF i] n by simp_all
    have "ld src (b * C + c) = Some (src ! nat (b * C + c))" using r n by (simp add: ld_def int_ok_def)
    moreover have "ld weights c = Some (weights ! nat c)" using i w by (simp add: ld_def int_ok_def)
    moreover have "\<exists>d'. st d (b * C + c) (prelu (weights ! nat c) (src ! nat (b * C + c))) = Some d' \<and> wrote {b * C + c} ?g d d'"
      using r n d i int_okI [OF r] by (intro wrote_st) simp_all
    ultimately show "\<exists>d'. (do { v \<leftarrow> ld src (b * C + c); w \<leftarrow> ld weights c; st d (b * C + c) (prelu w v) }) = Some d' \<and> wrote {b * C + c} ?g d d'" by simp
  qed (simp_all add: n(3))
  then obtain d where d: "prelu_plain weights B C src dst = Some d" "wrote (\<Union>b\<in>{0..<B}. \<Union>c\<in>{0..<C}. {b * C + c}) ?g dst d" by blast
  have "d = map (\<lambda>i. ?g (int i)) [0..<length dst]"
  proof (rule wrote_all [OF d(2)])
    fix i assume "0 \<le> i" "i < int (length dst)"
    then have "0 \<le> i" "i < B * C" using n by simp_all
    then obtain b c where "i = b * C + c" "b \<in> {0..<B}" "c \<in> {0..<C}" using pos(2) by (elim flat_cases [of i B C]) auto
    then show "i \<in> (\<Union>b\<in>{0..<B}. \<Union>c\<in>{0..<C}. {b * C + c})" by blast
  qed
  moreover have "nat (int i mod C) = i mod nat C" for i using pos by (simp add: nat_mod_distrib)
  ultimately show ?thesis using d(1) n(3) by simp
qed

text \<open>A blob of four dimensions is always refused: the constructor asks for the blocked layout, which \<^verbatim>\<open>init\<close> does not take.\<close>

lemma prelu_4d_refused:
  assumes "plain_blocking b" "prelu_new weights l = Some (x, Some ws)" "ins_data l = [Some p]" "length (port_dims p) = 4"
  shows "\<forall>c \<in> set (confs x). layer_init b c = GENERAL_ERROR"
proof -
  from assms(2-4) obtain c where c: "addConfig l [conf_at BLK8 False 0] [conf_at BLK8 False 0] False = Inr c" "confs x = [c]"
    by (auto simp: prelu_new_def construct_def Let_def try_with_def split: if_splits sum.splits)
  have "layer_init b c = (if \<exists>c \<in> set ([conf_at BLK8 False 0] @ [conf_at BLK8 False 0]). blocked c then GENERAL_ERROR else OK)"
    by (rule addConfig_init [OF assms(1) c(1)]) (simp add: conf_at_def)
  then show ?thesis using c(2) by (simp add: blocked_def conf_at_def)
qed

text \<open>If it were not, the last block would read behind the weights when the number of channels is not a multiple of eight.\<close>

lemma prelu_weights_overrun:
  assumes "int (length weights) = C" "C mod 8 \<noteq> 0" "0 < B" "0 < H" "0 < W"
  shows "prelu_blocked weights B C H W src dst = None"
proof -
  let ?CB = "(C + 8 - 1) div 8 * 8"
  have k: "0 \<le> C div 8" "C div 8 < (C + 8 - 1) div 8" "0 \<le> C mod 8" "C mod 8 < 8" using assms(1,2) by presburger+
  have c: "8 * (C div 8) + C mod 8 = C" by simp
  have "ld weights C = None" using assms(1) by (auto simp: ld_def)
  then have "(do { v \<leftarrow> ld src (0 * ?CB * H * W + 8 * (C div 8) * H * W + 8 * 0 + C mod 8); w \<leftarrow> ld weights (8 * (C div 8) + C mod 8);
      st d (0 * ?CB * H * W + 8 * (C div 8) * H * W + 8 * 0 + C mod 8) (prelu w v) }) = None" for d
    unfolding c by (simp split: bind_splits)
  moreover have "0 < H * W" using assms by simp
  ultimately show ?thesis unfolding prelu_blocked_def Let_def
    by (intro for_loop_undefined [of 0 0 B] for_loop_undefined [of 0 "C div 8"] for_loop_undefined [of 0 0 "H * W"] for_loop_undefined [of 0 "C mod 8" 8])
       (use assms k in simp_all)
qed

end
