(* ===== verification/SpatialTransformer.thy ===== *)
theory SpatialTransformer
  imports LayerBase
begin

text \<open>
  \<^verbatim>\<open>extension/ext_spatial_transformer.cpp\<close> with \<^verbatim>\<open>extension/common/matrixmult.h\<close>: the layer that samples every plane of
  an image at the points of an affine grid, bilinearly. The sizes of the picture in \<^verbatim>\<open>transform_forward_cpu\<close> are
  constants, 24 rows of 94 pixels; the loops around it take the sizes of the blob.
\<close>

section \<open>Matrix product\<close>

text \<open>The second factor and the result start at an offset of their buffers.\<close>

definition dot_row :: "f32 list \<Rightarrow> f32 list \<Rightarrow> int \<Rightarrow> (int \<Rightarrow> int) \<Rightarrow> (int \<Rightarrow> int) \<Rightarrow> f32 option" where
  "dot_row A B k ia ib = for_loop 0 k (\<lambda>colA s. do {
     a \<leftarrow> ld A (ia colA);
     b \<leftarrow> ld B (ib colA);
     Some (fadd s (fmul a b)) }) 0"

definition matrixMult :: "f32 list \<Rightarrow> f32 list \<Rightarrow> int \<Rightarrow> f32 list \<Rightarrow> int \<Rightarrow> int \<Rightarrow> int \<Rightarrow> int \<Rightarrow> bool \<Rightarrow> f32 list option" where
  "matrixMult A B bo C co m n k transposeB =
     (if transposeB then
        for_loop 0 m (\<lambda>rowA. for_loop 0 n (\<lambda>rowB c. do {
          s \<leftarrow> dot_row A B k (\<lambda>colA. rowA * k + colA) (\<lambda>colA. bo + (rowB * k + colA));
          st c (co + (rowA * n + rowB)) s })) C
      else
        for_loop 0 m (\<lambda>rowA. for_loop 0 n (\<lambda>colB c. do {
          s \<leftarrow> dot_row A B k (\<lambda>colA. rowA * k + colA) (\<lambda>colA. bo + (colA * n + colB));
          st c (co + (rowA * n + colB)) s })) C)"

section \<open>The layer\<close>

definition spatial_new :: "cnn_layer \<Rightarrow> ext_layer \<times> unit option" where
  "spatial_new l = construct
     (if length (ins_data l) \<noteq> 2 \<or> out_data l = [] then Inl ''Incorrect number of input/output edges!''
      else try_with (addConfig l [conf PLN, conf PLN] [conf PLN] False) (\<lambda>c. Inr ((), c)))"

text \<open>One of the four neighbours of the point; \<open>off\<close> is the start of the plane.\<close>

definition corner :: "f32 list \<Rightarrow> int \<Rightarrow> f32 \<Rightarrow> f32 \<Rightarrow> int \<Rightarrow> int \<Rightarrow> f32 \<Rightarrow> f32 option" where
  "corner pic off x y m n res =
     (if 0 \<le> m \<and> m < 24 \<and> 0 \<le> n \<and> n < 94 then do {
        let w = fmul (max 0 (fsub 1 \<bar>fsub x (i2f m)\<bar>)) (max 0 (fsub 1 \<bar>fsub y (i2f n)\<bar>));
        v \<leftarrow> ld pic (off + (m * 94 + n));
        Some (fadd res (fmul w v)) }
      else Some res)"

definition transform_forward_cpu :: "f32 list \<Rightarrow> int \<Rightarrow> f32 \<Rightarrow> f32 \<Rightarrow> f32 option" where
  "transform_forward_cpu pic off px py = do {
     let x = fmul (fdiv (fadd px 1) 2) (i2f 24);
     let y = fmul (fdiv (fadd py 1) 2) (i2f 94);
     m0 \<leftarrow> f2i (of_int \<lfloor>x\<rfloor>);
     n0 \<leftarrow> f2i (of_int \<lfloor>y\<rfloor>);
     m1 \<leftarrow> f2i (fadd (of_int \<lfloor>x\<rfloor>) 1);
     n1 \<leftarrow> f2i (fadd (of_int \<lfloor>y\<rfloor>) 1);
     res \<leftarrow> corner pic off x y m0 n0 0;
     res \<leftarrow> corner pic off x y m1 n0 res;
     res \<leftarrow> corner pic off x y m0 n1 res;
     corner pic off x y m1 n1 res }"

text \<open>The grid of the output: row and column scaled to the interval from -1 to 1, and the constant 1.\<close>

definition grid_coord :: "int \<Rightarrow> int \<Rightarrow> f32" where
  "grid_coord k n = d2f (dsub (dmul (ddiv (dmul (of_int k) 1) (of_int n)) 2) 1)"

definition fill_grid :: "int \<Rightarrow> int \<Rightarrow> f32 list \<Rightarrow> f32 list option" where
  "fill_grid output_H output_W g = for_loop 0 (output_H * output_W) (\<lambda>i g. do {
     g1 \<leftarrow> st g (3 * i) (grid_coord (i div output_W) output_H);
     g2 \<leftarrow> st g1 (3 * i + 1) (grid_coord (i mod output_W) output_W);
     st g2 (3 * i + 2) 1 }) g"

definition sample_image :: "f32 list \<Rightarrow> int \<Rightarrow> int \<Rightarrow> int \<Rightarrow> f32 list \<Rightarrow> int \<Rightarrow> f32 list \<Rightarrow> f32 list option" where
  "sample_image src C output_H output_W coordinates i d =
     for_loop 0 C (\<lambda>j. for_loop 0 output_H (\<lambda>s. for_loop 0 output_W (\<lambda>t d. do {
       let row_idx = output_W * s + t;
       px \<leftarrow> ld coordinates (output_H * output_W * 2 * i + row_idx * 2);
       py \<leftarrow> ld coordinates (output_H * output_W * 2 * i + (row_idx * 2 + 1));
       v \<leftarrow> transform_forward_cpu src (((i * C + j) * output_H + 0) * output_W + 0) px py;
       st d (((i * C + j) * output_H + s) * output_W + t) v }))) d"

definition spatial_execute :: "nat list \<Rightarrow> f32 list \<Rightarrow> f32 list \<Rightarrow> f32 list \<Rightarrow> (status_code \<times> f32 list) option" where
  "spatial_execute real_dims src theta dst =
     (if length real_dims < 4 then None
      else do {
        let N = int (real_dims ! 0);
        let C = int (real_dims ! 1);
        let output_H = int (real_dims ! 2);
        let output_W = int (real_dims ! 3);
        grid \<leftarrow> fill_grid output_H output_W (replicate (nat (3 * output_H * output_W)) 0);
        (_, d) \<leftarrow> for_loop 0 N (\<lambda>i (coordinates, d).
          if output_H * output_W = 0 then None
          else do {
            coordinates \<leftarrow> matrixMult grid theta (6 * i) coordinates (output_H * output_W * 2 * i) (output_H * output_W) 2 3 True;
            d' \<leftarrow> sample_image src C output_H output_W coordinates i d;
            Some (coordinates, d') }) (replicate (nat (N * output_H * output_W * 2)) 0, dst);
        Some (OK, d) })"

section \<open>Points\<close>

text \<open>The point of an output pixel: one row of \<open>theta\<close> applied to the grid.\<close>

definition grid_at :: "int \<Rightarrow> int \<Rightarrow> int \<Rightarrow> f32" where
  "grid_at H W k = (let i = k div 3 in if k mod 3 = 0 then grid_coord (i div W) H else if k mod 3 = 1 then grid_coord (i mod W) W else 1)"

definition affine :: "f32 list \<Rightarrow> int \<Rightarrow> int \<Rightarrow> int \<Rightarrow> int \<Rightarrow> f32" where
  "affine theta H W i r = (let t = (\<lambda>j. theta ! nat (i + j)) in
     fadd (fadd (fadd 0 (fmul (grid_coord (r div W) H) (t 0))) (fmul (grid_coord (r mod W) W) (t 1))) (fmul 1 (t 2)))"

definition affine_grid :: "int \<Rightarrow> int \<Rightarrow> f32 list" where
  "affine_grid H W = map (\<lambda>k. grid_at H W (int k)) [0..<nat (3 * H * W)]"

lemma fill_grid_ok:
  assumes "length g = nat (3 * H * W)" "0 \<le> H" "0 \<le> W" "3 * H * W \<le> 2 ^ 31"
  shows "fill_grid H W g = Some (affine_grid H W)"
proof -
  let ?f = "\<lambda>i g. do { g1 \<leftarrow> st g (3 * i) (grid_coord (i div W) H); g2 \<leftarrow> st g1 (3 * i + 1) (grid_coord (i mod W) W); st g2 (3 * i + 2) 1 }"
  have l: "int (length g) = 3 * (H * W)" using assms by (simp add: mult.assoc)
  have "\<exists>d. for_loop 0 (H * W) ?f g = Some d \<and> wrote (\<Union>i\<in>{0..<H * W}. {3 * i} \<union> {3 * i + 1} \<union> {3 * i + 2}) (grid_at H W) g d"
  proof (rule wrote_for [where n = "length g"])
    fix i and d :: "f32 list" assume i: "0 \<le> i" "i < H * W" and d: "length d = length g"
    have v: "grid_at H W (3 * i) = grid_coord (i div W) H" "grid_at H W (3 * i + 1) = grid_coord (i mod W) W" "grid_at H W (3 * i + 2) = 1"
      by (simp_all add: grid_at_def Let_def)
    have st: "\<exists>e'. st e (3 * i + j) (grid_at H W (3 * i + j)) = Some e' \<and> wrote {3 * i + j} (grid_at H W) e e' \<and> length e' = length g"
      if "length e = length g" "j \<in> {0, 1, 2}" for e j
    proof -
      have "\<exists>e'. st e (3 * i + j) (grid_at H W (3 * i + j)) = Some e' \<and> wrote {3 * i + j} (grid_at H W) e e'"
        using that i l assms(4) by (intro wrote_st) (auto simp: int_ok_def mult.assoc)
      then show ?thesis using that(1) wrote_length by metis
    qed
    obtain d1 where 1: "st d (3 * i + 0) (grid_at H W (3 * i + 0)) = Some d1" "wrote {3 * i + 0} (grid_at H W) d d1" "length d1 = length g" using st [OF d, of 0] by blast
    obtain d2 where 2: "st d1 (3 * i + 1) (grid_at H W (3 * i + 1)) = Some d2" "wrote {3 * i + 1} (grid_at H W) d1 d2" "length d2 = length g" using st [OF 1(3), of 1] by blast
    obtain d3 where 3: "st d2 (3 * i + 2) (grid_at H W (3 * i + 2)) = Some d3" "wrote {3 * i + 2} (grid_at H W) d2 d3" using st [OF 2(3), of 2] by blast
    have "wrote ({3 * i} \<union> {3 * i + 1} \<union> {3 * i + 2}) (grid_at H W) d d3" using wrote_comp [OF wrote_comp [OF 1(2) 2(2)] 3(2)] by simp
    moreover have "?f i d = Some d3" using 1(1) 2(1) 3(1) by (simp add: v)
    ultimately show "\<exists>d'. ?f i d = Some d' \<and> wrote ({3 * i} \<union> {3 * i + 1} \<union> {3 * i + 2}) (grid_at H W) d d'" by blast
  qed simp
  then obtain d where d: "for_loop 0 (H * W) ?f g = Some d" "wrote (\<Union>i\<in>{0..<H * W}. {3 * i} \<union> {3 * i + 1} \<union> {3 * i + 2}) (grid_at H W) g d" by blast
  have "d = map (\<lambda>k. grid_at H W (int k)) [0..<length g]"
  proof (rule wrote_all [OF d(2)])
    fix k assume k: "0 \<le> k" "k < int (length g)"
    then have "k div 3 \<in> {0..<H * W}" "k = 3 * (k div 3) \<or> k = 3 * (k div 3) + 1 \<or> k = 3 * (k div 3) + 2" using l by (auto simp: div_lessI)
    then show "k \<in> (\<Union>i\<in>{0..<H * W}. {3 * i} \<union> {3 * i + 1} \<union> {3 * i + 2})" by blast
  qed
  then show ?thesis using d(1) assms(1) by (simp add: fill_grid_def affine_grid_def)
qed

lemma grid_matrix_ok:
  assumes H: "0 \<le> H" "0 \<le> W" "3 * H * W \<le> 2 ^ 31" and t: "0 \<le> bo" "bo + 6 \<le> int (length theta)" "length theta \<le> 2 ^ 31"
    and c: "0 \<le> co" "co + 2 * (H * W) \<le> int (length C)" "length C \<le> 2 ^ 31"
  shows "\<exists>C'. matrixMult (affine_grid H W) theta bo C co (H * W) 2 3 True = Some C' \<and> length C' = length C \<and>
    (\<forall>r \<in> {0..<H * W}. C' ! nat (co + r * 2) = affine theta H W bo r \<and> C' ! nat (co + (r * 2 + 1)) = affine theta H W (bo + 3) r)"
proof -
  let ?A = "affine_grid H W"
  let ?g = "\<lambda>k. affine theta H W (bo + (k - co) mod 2 * 3) ((k - co) div 2)"
  have ldA: "ld ?A (r * 3 + j) = Some (grid_at H W (r * 3 + j))" if "0 \<le> r" "r < H * W" "0 \<le> j" "j < 3" for r j
  proof -
    have "r * 3 + j < 3 * H * W" "0 \<le> r * 3 + j" using that by (simp_all add: mult.assoc)
    then show ?thesis using H by (simp add: ld_def int_ok_def nat_less_iff affine_grid_def)
  qed
  have ldB: "ld theta (bo + (q * 3 + j)) = Some (theta ! nat (bo + q * 3 + j))" if "q \<in> {0, 1}" "0 \<le> j" "j < 3" for q j
    using that t by (auto simp: ld_def int_ok_def add.assoc)
  have dot: "dot_row ?A theta 3 (\<lambda>a. r * 3 + a) (\<lambda>a. bo + (q * 3 + a)) = Some (affine theta H W (bo + q * 3) r)" if "0 \<le> r" "r < H * W" "q \<in> {0, 1}" for r q
  proof -
    have "[0..2 :: int] = [0, 1, 2]" by (simp add: upto.simps)
    moreover have "grid_at H W (r * 3) = grid_coord (r div W) H" "grid_at H W (r * 3 + 1) = grid_coord (r mod W) W" "grid_at H W (r * 3 + 2) = 1"
      by (simp_all add: grid_at_def Let_def)
    ultimately show ?thesis using ldA [OF that(1,2), of 0] ldA [OF that(1,2), of 1] ldA [OF that(1,2), of 2] ldB [OF that(3), of 0] ldB [OF that(3), of 1] ldB [OF that(3), of 2]
      by (simp add: dot_row_def for_loop_def affine_def Let_def)
  qed
  have "\<exists>C'. matrixMult ?A theta bo C co (H * W) 2 3 True = Some C' \<and> wrote (\<Union>r\<in>{0..<H * W}. \<Union>q\<in>{0..<2}. {co + (r * 2 + q)}) ?g C C'"
    unfolding matrixMult_def if_True
  proof (intro wrote_for [where n = "length C"])
    fix r q :: int and d :: "f32 list" assume i: "0 \<le> r" "r < H * W" "0 \<le> q" "q < 2" and d: "length d = length C"
    have q: "q \<in> {0, 1}" using i by auto
    have b: "0 \<le> co + (r * 2 + q)" "co + (r * 2 + q) < int (length C)" using i c by simp_all
    have "(r * 2 + q) div 2 = r" "(r * 2 + q) mod 2 = q" using i by (simp_all add: flat_div)
    then have "?g (co + (r * 2 + q)) = affine theta H W (bo + q * 3) r" by simp
    then have "\<exists>d'. st d (co + (r * 2 + q)) (affine theta H W (bo + q * 3) r) = Some d' \<and> wrote {co + (r * 2 + q)} ?g d d'"
      using b d int_okI [OF b] c(3) by (intro wrote_st) simp_all
    then show "\<exists>d'. (do { s \<leftarrow> dot_row ?A theta 3 (\<lambda>a. r * 3 + a) (\<lambda>a. bo + (q * 3 + a)); st d (co + (r * 2 + q)) s }) = Some d' \<and>
        wrote {co + (r * 2 + q)} ?g d d'" using dot [OF i(1,2) q] by simp
  qed simp_all
  then obtain C' where C': "matrixMult ?A theta bo C co (H * W) 2 3 True = Some C'" "wrote (\<Union>r\<in>{0..<H * W}. \<Union>q\<in>{0..<2}. {co + (r * 2 + q)}) ?g C C'" by blast
  have "C' ! nat (co + (r * 2 + q)) = affine theta H W (bo + q * 3) r" if r: "r \<in> {0..<H * W}" "q \<in> {0..<2}" for r q
  proof -
    have "0 \<le> co + (r * 2 + q)" "nat (co + (r * 2 + q)) < length C" using r c by (auto simp: nat_less_iff)
    moreover have "co + (r * 2 + q) \<in> (\<Union>r\<in>{0..<H * W}. \<Union>q\<in>{0..<2}. {co + (r * 2 + q)})" using r by blast
    moreover have "(r * 2 + q) div 2 = r" "(r * 2 + q) mod 2 = q" using r by (auto simp: flat_div)
    ultimately show ?thesis using wrote_nth [OF C'(2), of "nat (co + (r * 2 + q))"] by simp
  qed
  from this [of _ 0] this [of _ 1] show ?thesis using C'(1) wrote_length [OF C'(2)] by auto
qed

text \<open>Bilinear sampling without the bounds checks.\<close>

definition corner_add :: "f32 list \<Rightarrow> int \<Rightarrow> f32 \<Rightarrow> f32 \<Rightarrow> int \<Rightarrow> int \<Rightarrow> f32 \<Rightarrow> f32" where
  "corner_add pic off x y m n res = (if 0 \<le> m \<and> m < 24 \<and> 0 \<le> n \<and> n < 94
     then fadd res (fmul (fmul (max 0 (fsub 1 \<bar>fsub x (of_int m)\<bar>)) (max 0 (fsub 1 \<bar>fsub y (of_int n)\<bar>))) (pic ! nat (off + (m * 94 + n)))) else res)"

definition bilinear :: "f32 list \<Rightarrow> int \<Rightarrow> f32 \<Rightarrow> f32 \<Rightarrow> f32" where
  "bilinear pic off px py = (let x = fmul (fdiv (fadd px 1) 2) 24; y = fmul (fdiv (fadd py 1) 2) 94; c = corner_add pic off x y
     in c (\<lfloor>x\<rfloor> + 1) (\<lfloor>y\<rfloor> + 1) (c \<lfloor>x\<rfloor> (\<lfloor>y\<rfloor> + 1) (c (\<lfloor>x\<rfloor> + 1) \<lfloor>y\<rfloor> (c \<lfloor>x\<rfloor> \<lfloor>y\<rfloor> 0))))"

lemma corner_ok:
  assumes "0 \<le> off" "off + 24 * 94 \<le> int (length pic)" "length pic \<le> 2 ^ 31"
  shows "corner pic off x y m n res = Some (corner_add pic off x y m n res)"
proof (cases "0 \<le> m \<and> m < 24 \<and> 0 \<le> n \<and> n < 94")
  case True
  then have "0 \<le> off + (m * 94 + n)" "off + (m * 94 + n) < int (length pic)" using assms by linarith+
  then have "ld pic (off + (m * 94 + n)) = Some (pic ! nat (off + (m * 94 + n)))" using assms(3) by (simp add: ld_def int_ok_def)
  moreover have "i2f m = of_int m" "i2f n = of_int n" using True by (intro i2f_exact; simp)+
  ultimately show ?thesis using True by (simp add: corner_def corner_add_def)
qed (auto simp: corner_def corner_add_def)

lemma corner_nonneg: "\<forall>v \<in> set pic. 0 \<le> v \<Longrightarrow> 0 \<le> off \<Longrightarrow> off + 24 * 94 \<le> int (length pic) \<Longrightarrow> 0 \<le> res \<Longrightarrow> 0 \<le> corner_add pic off x y m n res"
  by (auto simp: corner_add_def nat_less_iff intro!: f_nonneg nth_mem)

lemma floor_index:
  fixes z :: rat
  assumes "\<bar>z\<bar> \<le> 2 ^ 20"
  shows "f2i (of_int \<lfloor>z\<rfloor>) = Some \<lfloor>z\<rfloor>" "f2i (fadd (of_int \<lfloor>z\<rfloor>) 1) = Some (\<lfloor>z\<rfloor> + 1)"
proof -
  have "- of_int (2 ^ 20) \<le> z" "z \<le> of_int (2 ^ 20)" using assms by (simp_all add: abs_le_iff)
  then have f: "- (2 ^ 20) \<le> \<lfloor>z\<rfloor>" "\<lfloor>z\<rfloor> \<le> 2 ^ 20" by (simp_all add: le_floor_iff, linarith?)
  have "(2 :: int) ^ 20 = 1048576" "(2 :: int) ^ 31 = 2147483648" by simp_all
  with f have io: "int_ok (\<lfloor>z\<rfloor> + 1)" unfolding int_ok_def by linarith
  from f show "f2i (of_int \<lfloor>z\<rfloor>) = Some \<lfloor>z\<rfloor>" by (simp add: f2i_def int_ok_def)
  have "rnd 24 (of_int (\<lfloor>z\<rfloor> + 1)) = of_int (\<lfloor>z\<rfloor> + 1)" using f by (intro rnd_of_int) (simp add: abs_less_iff, linarith)
  then have "fadd (of_int \<lfloor>z\<rfloor>) 1 = of_int (\<lfloor>z\<rfloor> + 1)" by (simp add: fadd_def)
  then show "f2i (fadd (of_int \<lfloor>z\<rfloor>) 1) = Some (\<lfloor>z\<rfloor> + 1)" using io by (simp only: f2i_def ctrunc_of_int if_True)
qed

lemma position_bound:
  assumes "\<bar>p\<bar> \<le> 2 ^ 10" "0 \<le> s" "s \<le> 2 ^ 7"
  shows "\<bar>fmul (fdiv (fadd p 1) 2) s\<bar> \<le> 2 ^ 20"
proof -
  have "\<bar>fadd p 1\<bar> \<le> 2 ^ 11" unfolding fadd_def using assms(1) by (intro rnd_abs_le) (simp add: abs_le_iff)
  then have "\<bar>fdiv (fadd p 1) 2\<bar> \<le> 2 ^ 11" unfolding fdiv_def by (intro rnd_abs_le) (simp add: abs_le_iff)
  then have "\<bar>fdiv (fadd p 1) 2\<bar> * \<bar>s\<bar> \<le> 2 ^ 11 * 2 ^ 7" using assms(2,3) by (intro mult_mono) simp_all
  then show ?thesis unfolding fmul_def by (intro rnd_abs_le) (simp add: abs_mult)
qed

lemma transform_ok:
  assumes "\<bar>px\<bar> \<le> 2 ^ 10" "\<bar>py\<bar> \<le> 2 ^ 10" "0 \<le> off" "off + 24 * 94 \<le> int (length pic)" "length pic \<le> 2 ^ 31"
  shows "transform_forward_cpu pic off px py = Some (bilinear pic off px py)"
proof -
  have i: "i2f 24 = 24" "i2f 94 = 94" by (simp_all add: i2f_exact)
  have b: "\<bar>fmul (fdiv (fadd px 1) 2) 24\<bar> \<le> 2 ^ 20" "\<bar>fmul (fdiv (fadd py 1) 2) 94\<bar> \<le> 2 ^ 20" using assms by (intro position_bound; simp)+
  show ?thesis unfolding transform_forward_cpu_def i Let_def floor_index [OF b(1)] floor_index [OF b(2)] Option.bind.simps corner_ok [OF assms(3-5)]
    by (simp only: bilinear_def Let_def)
qed

lemma bilinear_nonneg: "\<forall>v \<in> set pic. 0 \<le> v \<Longrightarrow> 0 \<le> off \<Longrightarrow> off + 24 * 94 \<le> int (length pic) \<Longrightarrow> 0 \<le> bilinear pic off px py"
  unfolding bilinear_def Let_def by (intro corner_nonneg) simp_all

text \<open>Points of the grid are between -1 and 1, so bounded parameters give bounded positions.\<close>

lemma rnd_between: "0 < p \<Longrightarrow> \<bar>m\<bar> < 2 ^ p \<Longrightarrow> \<bar>n\<bar> < 2 ^ p \<Longrightarrow> of_int m \<le> x \<Longrightarrow> x \<le> of_int n \<Longrightarrow> of_int m \<le> rnd p x \<and> rnd p x \<le> of_int n"
  using rnd_mono [of "of_int m" x p] rnd_mono [of x "of_int n" p] by (simp add: rnd_of_int)

lemma grid_coord_bound:
  assumes "0 \<le> k" "k < n" "n \<le> 2 ^ 12"
  shows "\<bar>grid_coord k n\<bar> \<le> 2 ^ 0"
proof -
  have k: "rnd 53 (of_int k) = of_int k" using assms by (intro rnd_of_int) simp
  have q: "of_int k / of_int n \<le> (1 :: rat)" "0 \<le> of_int k / (of_int n :: rat)" using assms by simp_all
  have 1: "of_int 0 \<le> rnd 53 (of_int k / of_int n) \<and> rnd 53 (of_int k / of_int n) \<le> of_int 1" using q by (intro rnd_between) simp_all
  then have 2: "of_int 0 \<le> rnd 53 (rnd 53 (of_int k / of_int n) * 2) \<and> rnd 53 (rnd 53 (of_int k / of_int n) * 2) \<le> of_int 2" by (intro rnd_between) simp_all
  then have 3: "of_int (- 1) \<le> rnd 53 (rnd 53 (rnd 53 (of_int k / of_int n) * 2) - 1) \<and> rnd 53 (rnd 53 (rnd 53 (of_int k / of_int n) * 2) - 1) \<le> of_int 1"
    by (intro rnd_between) simp_all
  have "of_int (- 1) \<le> rnd 24 (rnd 53 (rnd 53 (rnd 53 (of_int k / of_int n) * 2) - 1)) \<and> rnd 24 (rnd 53 (rnd 53 (rnd 53 (of_int k / of_int n) * 2) - 1)) \<le> of_int 1"
    using 3 by (intro rnd_between) simp_all
  then show ?thesis by (simp add: grid_coord_def d2f_def dsub_def dmul_def ddiv_def k abs_le_iff)
qed

lemma affine_bound:
  assumes "0 \<le> r" "r < H * W" "H \<le> 2 ^ 12" "W \<le> 2 ^ 12" "0 < H" "0 < W" and t: "\<And>j. j \<in> {0, 1, 2} \<Longrightarrow> \<bar>theta ! nat (i + j)\<bar> \<le> 2 ^ 8"
  shows "\<bar>affine theta H W i r\<bar> \<le> 2 ^ 10"
proof -
  have m: "\<bar>fmul g x\<bar> \<le> 2 ^ 8" if "\<bar>g\<bar> \<le> 2 ^ 0" "\<bar>x\<bar> \<le> 2 ^ 8" for g x
    unfolding fmul_def using mult_mono [OF that] by (intro rnd_abs_le) (simp add: abs_mult)
  have "0 \<le> r div W" "r div W < H" "0 \<le> r mod W" "r mod W < W" using assms(1-6) by (simp_all add: pos_imp_zdiv_nonneg_iff div_lessI)
  then have g: "\<bar>grid_coord (r div W) H\<bar> \<le> 2 ^ 0" "\<bar>grid_coord (r mod W) W\<bar> \<le> 2 ^ 0" "\<bar>1 :: f32\<bar> \<le> 2 ^ 0"
    using grid_coord_bound assms(3,4) by (blast, blast, simp)
  note p = m [OF g(1) t [of 0]] m [OF g(2) t [of 1]] m [OF g(3) t [of 2]]
  have a: "\<bar>fadd x y\<bar> \<le> 2 ^ Suc n" if "\<bar>x\<bar> \<le> 2 ^ n" "\<bar>y\<bar> \<le> 2 ^ n" for x y n
    unfolding fadd_def using order_trans [OF abs_triangle_ineq add_mono [OF that]] by (intro rnd_abs_le) simp
  have w: "\<bar>x\<bar> \<le> 2 ^ 9" if "\<bar>x\<bar> \<le> 2 ^ 8" for x :: rat using that by simp
  have "\<bar>fadd 0 (fmul (grid_coord (r div W) H) (theta ! nat (i + 0)))\<bar> \<le> 2 ^ 8" unfolding fadd_def add_0 by (intro rnd_abs_le p(1)) simp
  from a [OF this p(2)] have "\<bar>fadd (fadd 0 (fmul (grid_coord (r div W) H) (theta ! nat (i + 0)))) (fmul (grid_coord (r mod W) W) (theta ! nat (i + 1)))\<bar> \<le> 2 ^ 9" by simp
  from a [OF this w [OF p(3)]] show ?thesis by (simp add: affine_def Let_def)
qed

definition spatial_value :: "f32 list \<Rightarrow> f32 list \<Rightarrow> int \<Rightarrow> int \<Rightarrow> int \<Rightarrow> int \<Rightarrow> int \<Rightarrow> f32" where
  "spatial_value src theta C b c h w = bilinear src (idx4 C 24 94 b c 0 0)
     (affine theta 24 94 (6 * b) (h * 94 + w)) (affine theta 24 94 (6 * b + 3) (h * 94 + w))"

lemma plane_inside:
  assumes "0 \<le> b" "b < N" "0 \<le> c" "c < C"
  shows "0 \<le> idx4 C 24 94 b c 0 0" "idx4 C 24 94 b c 0 0 + 24 * 94 \<le> N * C * 24 * 94"
  using flat_bound [OF assms] by simp_all

lemma sample_image_ok:
  assumes n: "int (length src) = N * C * 24 * 94" "length src \<le> 2 ^ 31" "length d = length src" and b: "0 \<le> b" "b < N"
    and t: "int (length theta) = 6 * N" "\<forall>x \<in> set theta. \<bar>x\<bar> \<le> 2 ^ 8"
    and co: "\<And>r. 0 \<le> r \<Longrightarrow> r < 24 * 94 \<Longrightarrow> ld co (24 * 94 * 2 * b + r * 2) = Some (affine theta 24 94 (6 * b) r) \<and>
      ld co (24 * 94 * 2 * b + (r * 2 + 1)) = Some (affine theta 24 94 (6 * b + 3) r)"
  shows "\<exists>d'. sample_image src C 24 94 co b d = Some d' \<and>
    wrote (\<Union>c \<in> {0..<C}. \<Union>h \<in> {0..<24}. \<Union>w \<in> {0..<94}. {idx4 C 24 94 b c h w}) (at4 C 24 94 (spatial_value src theta C)) d d'"
  unfolding sample_image_def Let_def
proof (intro wrote_for [where n = "length src"])
  fix c h w :: int and d :: "f32 list" assume i: "0 \<le> c" "c < C" "0 \<le> h" "h < 24" "0 \<le> w" "w < 94" and d: "length d = length src"
  have r: "0 \<le> 94 * h + w" "94 * h + w < 24 * 94" using i by simp_all
  have th: "\<bar>theta ! nat (k + j)\<bar> \<le> 2 ^ 8" if "j \<in> {0, 1, 2}" "k \<in> {6 * b, 6 * b + 3}" for j k
    using that b t(1) by (intro bspec [OF t(2)] nth_mem) auto
  have a: "\<bar>affine theta 24 94 (6 * b) (94 * h + w)\<bar> \<le> 2 ^ 10" "\<bar>affine theta 24 94 (6 * b + 3) (94 * h + w)\<bar> \<le> 2 ^ 10"
    using r th by (intro affine_bound; simp)+
  have p: "0 \<le> idx4 C 24 94 b c 0 0" "idx4 C 24 94 b c 0 0 + 24 * 94 \<le> int (length src)" using plane_inside [OF b i(1,2)] n(1) by simp_all
  have "transform_forward_cpu src (idx4 C 24 94 b c 0 0) (affine theta 24 94 (6 * b) (94 * h + w)) (affine theta 24 94 (6 * b + 3) (94 * h + w)) =
      Some (spatial_value src theta C b c h w)"
    using transform_ok [OF a p n(2)] by (simp add: spatial_value_def mult.commute)
  moreover have "\<exists>d'. st d (idx4 C 24 94 b c h w) (spatial_value src theta C b c h w) = Some d' \<and>
      wrote {idx4 C 24 94 b c h w} (at4 C 24 94 (spatial_value src theta C)) d d'"
    using n d by (intro st_idx4 [OF _ _ b i]) simp_all
  ultimately show "\<exists>d'. (do { px \<leftarrow> ld co (24 * 94 * 2 * b + (94 * h + w) * 2); py \<leftarrow> ld co (24 * 94 * 2 * b + ((94 * h + w) * 2 + 1));
       v \<leftarrow> transform_forward_cpu src (idx4 C 24 94 b c 0 0) px py; st d (idx4 C 24 94 b c h w) v }) = Some d' \<and>
      wrote {idx4 C 24 94 b c h w} (at4 C 24 94 (spatial_value src theta C)) d d'" using co [OF r] by simp
qed (simp_all add: n(3))

lemma spatial_loop:
  assumes n: "int (length src) = N * C * 24 * 94" "length src \<le> 2 ^ 31" "length dst = length src" and pos: "0 \<le> N" "0 \<le> C"
    and t: "int (length theta) = 6 * N" "\<forall>x \<in> set theta. \<bar>x\<bar> \<le> 2 ^ 8" and g: "N * (24 * 94 * 2) \<le> 2 ^ 31"
  shows "\<exists>d. spatial_execute [nat N, nat C, 24, 94] src theta dst = Some (OK, d) \<and>
    wrote (\<Union>b \<in> {0..<N}. \<Union>c \<in> {0..<C}. \<Union>h \<in> {0..<24}. \<Union>w \<in> {0..<94}. {idx4 C 24 94 b c h w}) (at4 C 24 94 (spatial_value src theta C)) dst d"
proof -
  let ?grid = "affine_grid 24 94"
  let ?S = "\<lambda>b. \<Union>c \<in> {0..<C}. \<Union>h \<in> {0..<24}. \<Union>w \<in> {0..<94}. {idx4 C 24 94 b c h w}"
  let ?body = "\<lambda>i (co, d). do { co \<leftarrow> matrixMult ?grid theta (6 * i) co (24 * 94 * 2 * i) (24 * 94) 2 3 True; d' \<leftarrow> sample_image src C 24 94 co i d; Some (co, d') }"
  let ?P = "\<lambda>b s. int (length (fst s)) = N * (24 * 94 * 2) \<and> wrote (\<Union>i \<in> {0..<b}. ?S i) (at4 C 24 94 (spatial_value src theta C)) dst (snd s)"
  have "\<exists>r. for_loop 0 N ?body (replicate (nat (N * (24 * 94 * 2))) 0, dst) = Some r \<and> ?P N r"
  proof (rule for_loop_inv [where P = ?P])
    fix b and s :: "f32 list \<times> f32 list" assume b: "0 \<le> b" "b < N" and P: "?P b s"
    obtain co d where s: "s = (co, d)" by fastforce
    have l: "int (length co) = N * (24 * 94 * 2)" "length d = length src" using P n(3) by (auto simp: s)
    have off: "24 * 94 * 2 * b + 24 * 94 * 2 \<le> N * (24 * 94 * 2)" using b by simp
    have "\<exists>co'. matrixMult ?grid theta (6 * b) co (24 * 94 * 2 * b) (24 * 94) 2 3 True = Some co' \<and> length co' = length co \<and>
       (\<forall>r \<in> {0..<24 * 94}. co' ! nat (24 * 94 * 2 * b + r * 2) = affine theta 24 94 (6 * b) r \<and>
          co' ! nat (24 * 94 * 2 * b + (r * 2 + 1)) = affine theta 24 94 (6 * b + 3) r)"
      using b t l off g pos by (intro grid_matrix_ok) simp_all
    then obtain co' where co': "matrixMult ?grid theta (6 * b) co (24 * 94 * 2 * b) (24 * 94) 2 3 True = Some co'" "length co' = length co"
      "\<And>r. r \<in> {0..<24 * 94} \<Longrightarrow> co' ! nat (24 * 94 * 2 * b + r * 2) = affine theta 24 94 (6 * b) r"
      "\<And>r. r \<in> {0..<24 * 94} \<Longrightarrow> co' ! nat (24 * 94 * 2 * b + (r * 2 + 1)) = affine theta 24 94 (6 * b + 3) r" by blast
    have ld: "ld co' k = Some (co' ! nat k)" if "0 \<le> k" "k < 24 * 94 * 2 * b + 24 * 94 * 2" for k
      using that off l co'(2) g by (intro ld_in [where k = "N * (24 * 94 * 2)"]) simp_all
    have pt: "ld co' (24 * 94 * 2 * b + r * 2) = Some (affine theta 24 94 (6 * b) r) \<and> ld co' (24 * 94 * 2 * b + (r * 2 + 1)) = Some (affine theta 24 94 (6 * b + 3) r)"
      if r: "0 \<le> r" "r < 24 * 94" for r using r b co'(3,4) [of r] by (simp add: ld)
    obtain d' where d': "sample_image src C 24 94 co' b d = Some d'" "wrote (?S b) (at4 C 24 94 (spatial_value src theta C)) d d'"
      using sample_image_ok [OF n(1,2) l(2) b t pt] by blast
    have "wrote ((\<Union>i \<in> {0..<b}. ?S i) \<union> ?S b) (at4 C 24 94 (spatial_value src theta C)) dst d'"
      using P by (intro wrote_comp [OF _ d'(2)]) (simp only: s snd_conv)
    moreover have "(\<Union>i \<in> {0..<b}. ?S i) \<union> ?S b = (\<Union>i \<in> {0..<b + 1}. ?S i)"
    proof -
      have "{0..<b + 1} = insert b {0..<b}" using b by auto
      then show ?thesis by (simp only: UN_insert Un_commute)
    qed
    ultimately have "wrote (\<Union>i \<in> {0..<b + 1}. ?S i) (at4 C 24 94 (spatial_value src theta C)) dst d'" by simp
    then show "\<exists>s'. ?body b s = Some s' \<and> ?P (b + 1) s'" using co'(1,2) d'(1) l(1) by (simp add: s)
  qed (use pos in \<open>simp_all add: wrote_empty\<close>)
  then obtain co d where r: "for_loop 0 N ?body (replicate (nat (N * (24 * 94 * 2))) 0, dst) = Some (co, d)" "?P N (co, d)" by auto
  have "fill_grid 24 94 (replicate (nat (3 * 24 * 94)) 0) = Some ?grid" by (rule fill_grid_ok) (simp_all only: length_replicate, simp_all)
  moreover have "int ([nat N, nat C, 24, 94] ! 0) = N" "int ([nat N, nat C, 24, 94] ! 1) = C" "int ([nat N, nat C, 24, 94] ! 2) = 24"
    "int ([nat N, nat C, 24, 94] ! 3) = 94" "N * 24 * 94 * 2 = N * (24 * 94 * 2)" using pos by simp_all
  ultimately have "spatial_execute [nat N, nat C, 24, 94] src theta dst = Some (OK, d)"
    unfolding spatial_execute_def Let_def by (simp only: r(1)) (use r(1) in simp)
  then show ?thesis using r(2) by auto
qed

section \<open>Properties\<close>

text \<open>C32. For pictures of 24 rows and 94 columns and parameters up to 256 in absolute value, the layer stays inside
  every buffer: each output pixel is the bilinear sample of its own plane at the point that the image's two rows of
  \<open>theta\<close> give for it, wherever that point lies, and a picture without negative pixels gives none.\<close>

theorem spatial_inside:
  assumes n: "int (length src) = N * C * 24 * 94" "length src \<le> 2 ^ 31" "length dst = length src" and pos: "0 \<le> N" "0 \<le> C"
    and t: "int (length theta) = 6 * N" "\<forall>x \<in> set theta. \<bar>x\<bar> \<le> 2 ^ 8" and g: "N * (24 * 94 * 2) \<le> 2 ^ 31"
  shows "\<exists>d. spatial_execute [nat N, nat C, 24, 94] src theta dst = Some (OK, d) \<and>
    blob4 N C 24 94 (\<lambda>b c h w. bilinear src (idx4 C 24 94 b c 0 0)
      (affine theta 24 94 (6 * b) (h * 94 + w)) (affine theta 24 94 (6 * b + 3) (h * 94 + w))) d \<and>
    ((\<forall>v \<in> set src. 0 \<le> v) \<longrightarrow> (\<forall>v \<in> set d. 0 \<le> v))"
proof -
  obtain d where d: "spatial_execute [nat N, nat C, 24, 94] src theta dst = Some (OK, d)"
    "wrote (\<Union>b \<in> {0..<N}. \<Union>c \<in> {0..<C}. \<Union>h \<in> {0..<24}. \<Union>w \<in> {0..<94}. {idx4 C 24 94 b c h w}) (at4 C 24 94 (spatial_value src theta C)) dst d"
    using spatial_loop [OF assms] by blast
  have l: "int (length dst) = N * C * 24 * 94" using n by simp
  have m: "d = map (\<lambda>i. at4 C 24 94 (spatial_value src theta C) (int i)) [0..<length dst]"
  proof (rule wrote_all [OF d(2)])
    fix i assume "0 \<le> i" "i < int (length dst)"
    then have "0 \<le> i" "i < N * C * 24 * 94" using l by simp_all
    then show "i \<in> (\<Union>b \<in> {0..<N}. \<Union>c \<in> {0..<C}. \<Union>h \<in> {0..<24}. \<Union>w \<in> {0..<94}. {idx4 C 24 94 b c h w})"
      by (rule idx4_cases [OF _ _ pos(2)]) (simp_all, force)
  qed
  have b: "blob4 N C 24 94 (spatial_value src theta C) d" unfolding m by (rule blob4_map [OF l])
  have "0 \<le> at4 C 24 94 (spatial_value src theta C) (int i)" if "\<forall>v \<in> set src. 0 \<le> v" "i < length dst" for i
  proof -
    have i: "0 \<le> int i" "int i < N * C * 24 * 94" using that l by simp_all
    obtain b c h w where k: "int i = idx4 C 24 94 b c h w" "0 \<le> b" "b < N" "0 \<le> c" "c < C" "0 \<le> h" "h < 24" "0 \<le> w" "w < 94"
      by (rule idx4_cases [OF i pos(2)]) simp_all
    show ?thesis unfolding k(1) at4_idx4 [OF k(4-9)] spatial_value_def
      using that(1) plane_inside [OF k(2-5)] n(1) by (intro bilinear_nonneg) simp_all
  qed
  then have "(\<forall>v \<in> set src. 0 \<le> v) \<longrightarrow> (\<forall>v \<in> set d. 0 \<le> v)" unfolding m by auto
  moreover have "spatial_value src theta C = (\<lambda>b c h w. bilinear src (idx4 C 24 94 b c 0 0)
      (affine theta 24 94 (6 * b) (h * 94 + w)) (affine theta 24 94 (6 * b + 3) (h * 94 + w)))"
    by (intro ext) (simp only: spatial_value_def)
  ultimately show ?thesis using d(1) b by (intro exI [of _ d]) (simp only:)
qed

theorem spatial_inside_witness:
  "\<exists>d. spatial_execute [1, 1, 24, 94] (replicate 2256 3) [1, 0, 0, 0, 1, 1 / 4] (replicate 2256 0) = Some (OK, d) \<and> length d = 2256"
  using spatial_inside [of "replicate 2256 3" 1 1 "replicate 2256 0" "[1, 0, 0, 0, 1, 1 / 4]"] by (auto simp: blob4_def)

lemma half_scale [simp]: "rnd 24 (1 / 2) = 1 / 2" "rnd 24 (3 / 2) = 3 / 2" "rnd 24 (3 / 4) = 3 / 4" "rnd 24 18 = 18" "rnd 24 (141 / 2) = 141 / 2"
  using rnd_exact [of 1 24 "- 1"] rnd_exact [of 3 24 "- 1"] rnd_exact [of 3 24 "- 2"] rnd_exact [of 18 24 0] rnd_exact [of 141 24 "- 1"]
  by (simp_all add: power_int_minus)

lemma corner_behind: "off = 0 \<Longrightarrow> length pic \<le> 1762 \<Longrightarrow> transform_forward_cpu pic off (1 / 2) (1 / 2) = None"
proof -
  have "i2f 24 = 24" "i2f 94 = 94" by (simp_all add: i2f_exact)
  moreover have "\<lfloor>141 / 2 :: rat\<rfloor> = 70" by (simp add: floor_eq_iff)
  moreover have "f2i 18 = Some 18" "f2i 70 = Some 70" using floor_index [of 18] floor_index [of 70] by simp_all
  moreover have "f2i (fadd 18 1) = Some 19" "f2i (fadd 70 1) = Some 71" using floor_index [of 18] floor_index [of 70] by simp_all
  ultimately show "off = 0 \<Longrightarrow> length pic \<le> 1762 \<Longrightarrow> ?thesis"
    by (simp add: transform_forward_cpu_def fadd_def fdiv_def fmul_def corner_def ld_def Let_def)
qed

text \<open>The size 24 x 94 is fixed in the sampling function: for a picture with fewer than 1763 pixels and the
  parameters that move every point to 18 x 70.5, the first sample is read behind the end of the picture.\<close>

theorem spatial_small_overrun:
  assumes "1 \<le> H" "1 \<le> W" "length src = H * W" "H * W \<le> 1762"
  shows "spatial_execute [1, 1, H, W] src [0, 0, 1 / 2, 0, 0, 1 / 2] dst = None"
proof -
  let ?t = "[0, 0, 1 / 2, 0, 0, 1 / 2] :: f32 list"
  define c0 where "c0 = (replicate (nat (1 * int H * int W * 2)) 0 :: f32 list)"
  have hw: "int H * int W \<le> 1762" "0 < int H * int W" using assms by (simp_all flip: of_nat_mult)
  have g: "fill_grid (int H) (int W) (replicate (nat (3 * int H * int W)) 0) = Some (affine_grid (int H) (int W))"
    using hw by (intro fill_grid_ok) (simp_all add: mult.assoc)
  have l: "int (length c0) = 2 * (int H * int W)" by (simp add: c0_def)
  then have "\<exists>co. matrixMult (affine_grid (int H) (int W)) ?t 0 c0 0 (int H * int W) 2 3 True = Some co \<and> length co = length c0 \<and>
    (\<forall>r \<in> {0..<int H * int W}. co ! nat (0 + r * 2) = affine ?t (int H) (int W) 0 r \<and> co ! nat (0 + (r * 2 + 1)) = affine ?t (int H) (int W) (0 + 3) r)"
    using hw by (intro grid_matrix_ok) (simp_all add: mult.assoc)
  then obtain co where co: "matrixMult (affine_grid (int H) (int W)) ?t 0 c0 0 (int H * int W) 2 3 True = Some co" "length co = length c0"
    "co ! 0 = affine ?t (int H) (int W) 0 0" "co ! 1 = affine ?t (int H) (int W) 3 0" using hw(2) by force
  have a: "affine ?t (int H) (int W) 0 0 = 1 / 2" "affine ?t (int H) (int W) 3 0 = 1 / 2" by (simp_all add: affine_def Let_def fadd_def fmul_def)
  have "0 < length co" "1 < length co" using co(2) hw l by linarith+
  then have "ld co 0 = Some (1 / 2)" "ld co 1 = Some (1 / 2)" using co(3,4) a by (simp_all add: ld_def int_ok_def)
  then have "sample_image src 1 (int H) (int W) co 0 dst = None" unfolding sample_image_def
    using assms by (intro for_loop_undefined [of 0 0]) (simp_all add: corner_behind)
  then show ?thesis using g co(1) hw(2) by (simp add: spatial_execute_def for_loop_def Let_def c0_def)
qed

theorem spatial_small_overrun_witness:
  "spatial_execute [1, 1, 2, 2] [1, 2, 3, 4] [0, 0, 1 / 2, 0, 0, 1 / 2] [0, 0, 0, 0] = None"
  using spatial_small_overrun [of 2 2 "[1, 2, 3, 4]" "[0, 0, 0, 0]"] by simp

end
