(* ===== verification/Interp.thy ===== *)
theory Interp
  imports LayerBase
begin

text \<open>
  \<^verbatim>\<open>extension/ext_interp.cpp\<close>: the layer that stretches its planes bilinearly, in the layout that keeps eight channels
  of a pixel together. The portable loop over the eight channels is modelled; the SSE, AVX2 and AVX-512 variants are not.
\<close>

unbundle bit_operations_syntax

record interp =
  pad_beg :: int
  pad_end :: int

text \<open>The constructor; a missing input port is dereferenced.\<close>

definition interp_new :: "cnn_layer \<Rightarrow> (ext_layer \<times> interp option) option" where
  "interp_new l =
     (if length (ins_data l) \<noteq> 1 \<or> out_data l = [] then Some (construct (Inl ''Incorrect number of input/output edges!''))
      else case ins_data l ! 0 of None \<Rightarrow> None
        | Some p \<Rightarrow> Some (construct
            (if length (port_dims p) \<noteq> 4 then Inl ''Interp supports only 4d blobs!''
             else try_with (int_param l ''pad_beg'') (\<lambda>b. try_with (int_param l ''pad_end'') (\<lambda>e.
               try_with (addConfig l [conf BLK8] [conf BLK8] False) (\<lambda>c. Inr (\<lparr>pad_beg = b, pad_end = e\<rparr>, c)))))))"

text \<open>The two neighbours of a position along one axis of the padded size \<open>n\<close>, and the share of the second.\<close>

definition neighbours :: "f32 \<Rightarrow> int \<Rightarrow> int \<Rightarrow> (int \<times> int \<times> f32) option" where
  "neighbours r k n = do {
     let f = fmul r (i2f k);
     i0 \<leftarrow> f2i f;
     Some (i0, if i0 < n - 1 then i0 + 1 else i0, fsub f (i2f i0)) }"

definition scale_of :: "int \<Rightarrow> int \<Rightarrow> f32" where
  "scale_of n out = (if 1 < out then fdiv (i2f (n - 1)) (i2f (out - 1)) else 0)"

definition interp_pixel :: "f32 list \<Rightarrow> int \<Rightarrow> int \<Rightarrow> int \<Rightarrow> int \<Rightarrow> f32 \<Rightarrow> f32 \<Rightarrow> int \<Rightarrow> f32 list \<Rightarrow> f32 list option" where
  "interp_pixel src p00 p01 p10 p11 h_lambda0 w_lambda0 pdst d = (let
     h_lambda1 = fsub 1 h_lambda0;
     w_lambda1 = fsub 1 w_lambda0
   in for_loop 0 8 (\<lambda>c d. do {
     s00 \<leftarrow> ld src (p00 + c);
     s01 \<leftarrow> ld src (p01 + c);
     s10 \<leftarrow> ld src (p10 + c);
     s11 \<leftarrow> ld src (p11 + c);
     st d (pdst + c) (fadd (fmul h_lambda1 (fadd (fmul w_lambda1 s00) (fmul w_lambda0 s01)))
                           (fmul h_lambda0 (fadd (fmul w_lambda1 s10) (fmul w_lambda0 s11)))) }) d)"

definition interpolate :: "int \<Rightarrow> int \<Rightarrow> f32 list \<Rightarrow> int \<Rightarrow> int \<Rightarrow> int \<Rightarrow> int \<Rightarrow> int \<Rightarrow> int \<Rightarrow> f32 list \<Rightarrow> int \<Rightarrow> int \<Rightarrow>
    int \<Rightarrow> int \<Rightarrow> int \<Rightarrow> int \<Rightarrow> f32 list option" where
  "interpolate N C src x1 y1 IH_pad IW_pad IH IW dst x2 y2 OH_pad OW_pad OH OW =
     (if IH_pad = OH_pad \<and> IW_pad = OW_pad then
        for_loop 0 (N * C * OH * OW) (\<lambda>i d. do { v \<leftarrow> ld src i; st d i v }) dst
      else
        let rh = scale_of IH_pad OH_pad;
            rw = scale_of IW_pad OW_pad;
            CB = (C + 8 - 1) AND - 8;
            CH = (C + 8 - 1) div 8
        in for_loop 0 N (\<lambda>n. for_loop 0 CH (\<lambda>cb. for_loop 0 OH_pad (\<lambda>h d. do {
          let psrc = n * CB * IH * IW;
          (ih0, ih1, h_lambda0) \<leftarrow> neighbours rh h IH_pad;
          for_loop 0 OW_pad (\<lambda>w d. do {
            (iw0, iw1, w_lambda0) \<leftarrow> neighbours rw w IW_pad;
            let plane = psrc + cb * 8 * IW * IH;
            interp_pixel src
              (plane + (y1 + ih0) * IW * 8 + (x1 + iw0) * 8) (plane + (y1 + ih0) * IW * 8 + (x1 + iw1) * 8)
              (plane + (y1 + ih1) * IW * 8 + (x1 + iw0) * 8) (plane + (y1 + ih1) * IW * 8 + (x1 + iw1) * 8)
              h_lambda0 w_lambda0
              (n * CB * OH * OW + cb * 8 * OW * OH + (y2 + h) * OW * 8 + (x2 + w) * 8) d }) d }))) dst)"

definition interp_execute :: "interp \<Rightarrow> nat list \<Rightarrow> nat list \<Rightarrow> f32 list \<Rightarrow> f32 list \<Rightarrow> (status_code \<times> f32 list) option" where
  "interp_execute P in_dims out_dims src dst =
     (if length in_dims < 4 \<or> length out_dims < 4 then None
      else do {
        let IN = int (in_dims ! 0);
        let IC = int (in_dims ! 1);
        let IH = int (in_dims ! 2);
        let IW = int (in_dims ! 3);
        let OH = int (out_dims ! 2);
        let OW = int (out_dims ! 3);
        let IH_pad = IH + pad_beg P + pad_end P;
        let IW_pad = IW + pad_beg P + pad_end P;
        d \<leftarrow> interpolate IN IC src (- pad_beg P) (- pad_beg P) IH_pad IW_pad IH IW dst 0 0 OH OW OH OW;
        Some (OK, d) })"

section \<open>Positions\<close>

lemma channel_blocks: "(x :: int) AND - 8 = x div 8 * 8"
proof -
  have "(- 8 :: int) = NOT (mask 3)" by (simp add: mask_eq_exp_minus_1 not_int_def)
  moreover have "x AND NOT (mask 3) = push_bit 3 (drop_bit 3 x)" by (rule bit_eqI) (auto simp: bit_simps)
  ultimately show ?thesis by (simp add: push_bit_eq_mult drop_bit_eq_div)
qed

text \<open>The last position of an axis is rounded by less than a pixel, so both neighbours exist.\<close>

definition axis_share :: "int \<Rightarrow> int \<Rightarrow> int \<Rightarrow> f32" where
  "axis_share n out k = (let f = fmul (scale_of n out) (i2f k) in fsub f (of_int \<lfloor>f\<rfloor>))"

definition axis_first :: "int \<Rightarrow> int \<Rightarrow> int \<Rightarrow> int" where
  "axis_first n out k = \<lfloor>fmul (scale_of n out) (i2f k)\<rfloor>"

definition axis_second :: "int \<Rightarrow> int \<Rightarrow> int \<Rightarrow> int" where
  "axis_second n out k = (if axis_first n out k < n - 1 then axis_first n out k + 1 else axis_first n out k)"

lemma axis_first_bound:
  assumes "1 \<le> n" "n \<le> 2 ^ 20" "0 \<le> k" "k < out" "out \<le> 2 ^ 20"
  shows "0 \<le> fmul (scale_of n out) (i2f k) \<and> fmul (scale_of n out) (i2f k) < of_int n"
proof (cases "1 < out")
  case True
  let ?q = "of_int (n - 1) / of_int (out - 1) :: rat" and ?u = "1 + 1 / 2 ^ 24 :: rat"
  have i: "i2f (n - 1) = of_int (n - 1)" "i2f (out - 1) = of_int (out - 1)" "i2f k = of_int k" using assms True by (intro i2f_exact; simp)+
  have q0: "0 \<le> ?q" using assms True by simp
  have r: "rnd 24 ?q \<le> ?q * ?u" "0 \<le> rnd 24 ?q" using rel_bounds(1) [OF q0] q0 by (simp_all add: rnd_nonneg)
  have p0: "0 \<le> rnd 24 ?q * of_int k" using r(2) assms(3) by simp
  have "?q * of_int k \<le> ?q * of_int (out - 1)" using q0 assms(4) by (intro mult_left_mono) simp_all
  also have "\<dots> = of_int (n - 1)" using True by simp
  finally have m: "?q * of_int k \<le> of_int (n - 1)" .
  have "rnd 24 (rnd 24 ?q * of_int k) \<le> rnd 24 ?q * of_int k * ?u" using rel_bounds(1) [OF p0] .
  also have "\<dots> \<le> ?q * ?u * of_int k * ?u" using r(1) assms(3) by (intro mult_right_mono) simp_all
  also have "\<dots> = ?q * of_int k * (?u * ?u)" by (simp only: mult_ac)
  also have "\<dots> \<le> of_int (n - 1) * (?u * ?u)" using m by (intro mult_right_mono) simp_all
  also have "\<dots> < of_int n"
  proof -
    have n: "of_int n \<le> (1048576 :: rat)" "0 \<le> (of_int (n - 1) :: rat)" using assms(1,2) by simp_all
    have "of_int (n - 1) * (?u * ?u) \<le> of_int (n - 1) * (1 + 1 / 4194304 :: rat)" using n(2) by (intro mult_left_mono) simp_all
    also have "\<dots> < of_int n" using n(1) by (simp add: field_simps)
    finally show ?thesis .
  qed
  finally show ?thesis using True p0 i by (simp add: scale_of_def fdiv_def fmul_def rnd_nonneg)
next
  case False
  then show ?thesis using assms by (simp add: scale_of_def fmul_def)
qed

lemma neighbours_ok:
  assumes "1 \<le> n" "n \<le> 2 ^ 20" "0 \<le> k" "k < out" "out \<le> 2 ^ 20"
  shows "neighbours (scale_of n out) k n = Some (axis_first n out k, axis_second n out k, axis_share n out k) \<and>
    0 \<le> axis_first n out k \<and> axis_first n out k \<le> axis_second n out k \<and> axis_second n out k < n \<and> 0 \<le> axis_share n out k \<and> axis_share n out k \<le> 1"
proof -
  let ?f = "fmul (scale_of n out) (i2f k)"
  have f: "0 \<le> ?f" "?f < of_int n" using axis_first_bound [OF assms] by simp_all
  then have a: "0 \<le> \<lfloor>?f\<rfloor>" "\<lfloor>?f\<rfloor> < n" by (simp_all add: floor_less_iff)
  have "n < 2 ^ 24" "n < 2 ^ 31" using assms(2) by simp_all
  then have i: "f2i ?f = Some \<lfloor>?f\<rfloor>" "i2f \<lfloor>?f\<rfloor> = of_int \<lfloor>?f\<rfloor>"
    using f a by (simp add: f2i_def ctrunc_def int_ok_def, intro i2f_exact, simp)
  have "0 \<le> ?f - of_int \<lfloor>?f\<rfloor>" "?f - of_int \<lfloor>?f\<rfloor> \<le> 1" by linarith+
  then have "0 \<le> axis_share n out k" "axis_share n out k \<le> 1"
    using rnd_le_pow [of "?f - of_int \<lfloor>?f\<rfloor>" 0] by (simp_all add: axis_share_def Let_def fsub_def rnd_nonneg)
  moreover have "neighbours (scale_of n out) k n = Some (axis_first n out k, axis_second n out k, axis_share n out k)"
    by (simp add: neighbours_def i axis_first_def axis_second_def axis_share_def Let_def)
  moreover have "0 \<le> axis_first n out k" "axis_first n out k < n" using a by (simp_all add: axis_first_def)
  ultimately show ?thesis by (simp add: axis_second_def)
qed

section \<open>Pixels\<close>

definition interp_mix :: "f32 \<Rightarrow> f32 \<Rightarrow> f32 \<Rightarrow> f32 \<Rightarrow> f32 \<Rightarrow> f32 \<Rightarrow> f32" where
  "interp_mix l m s00 s01 s10 s11 =
     fadd (fmul (fsub 1 l) (fadd (fmul (fsub 1 m) s00) (fmul m s01))) (fmul l (fadd (fmul (fsub 1 m) s10) (fmul m s11)))"

lemma interp_pixel_ok:
  assumes ld: "\<And>p c. p \<in> {p00, p01, p10, p11} \<Longrightarrow> 0 \<le> c \<Longrightarrow> c < 8 \<Longrightarrow> ld src (p + c) = Some (src ! nat (p + c))"
    and d: "0 \<le> pdst" "pdst + 8 \<le> int (length d)" "length d \<le> 2 ^ 31"
    and g: "\<And>c. 0 \<le> c \<Longrightarrow> c < 8 \<Longrightarrow>
      g (pdst + c) = interp_mix l m (src ! nat (p00 + c)) (src ! nat (p01 + c)) (src ! nat (p10 + c)) (src ! nat (p11 + c))"
  shows "\<exists>d'. interp_pixel src p00 p01 p10 p11 l m pdst d = Some d' \<and> wrote (\<Union>c \<in> {0..<8}. {pdst + c}) g d d'"
  unfolding interp_pixel_def Let_def
proof (rule wrote_for [where n = "length d"])
  fix c :: int and e :: "f32 list" assume c: "0 \<le> c" "c < 8" and e: "length e = length d"
  have "\<exists>d'. st e (pdst + c) (g (pdst + c)) = Some d' \<and> wrote {pdst + c} g e d'"
    using c d e by (intro wrote_st) (simp_all add: int_ok_def)
  then show "\<exists>d'. (do { s00 \<leftarrow> ld src (p00 + c); s01 \<leftarrow> ld src (p01 + c); s10 \<leftarrow> ld src (p10 + c); s11 \<leftarrow> ld src (p11 + c);
       st e (pdst + c) (fadd (fmul (fsub 1 l) (fadd (fmul (fsub 1 m) s00) (fmul m s01))) (fmul l (fadd (fmul (fsub 1 m) s10) (fmul m s11)))) }) = Some d' \<and>
     wrote {pdst + c} g e d'" using ld [OF _ c] by (simp add: g [OF c] interp_mix_def)
qed simp

lemma interp_mix_nonneg:
  assumes "0 \<le> l" "l \<le> 1" "0 \<le> m" "m \<le> 1" "0 \<le> a" "0 \<le> b" "0 \<le> c" "0 \<le> d"
  shows "0 \<le> interp_mix l m a b c d"
proof -
  have "0 \<le> fsub 1 l" "0 \<le> fsub 1 m" using assms by (simp_all add: fsub_def rnd_nonneg)
  then show ?thesis unfolding interp_mix_def using assms by (intro f_nonneg)
qed

section \<open>The layer\<close>

definition interp_ok :: "interp \<Rightarrow> int \<Rightarrow> int \<Rightarrow> int \<Rightarrow> int \<Rightarrow> int \<Rightarrow> int \<Rightarrow> f32 list \<Rightarrow> f32 list \<Rightarrow> bool" where
  "interp_ok P N K IH IW OH OW src dst \<longleftrightarrow>
     pad_beg P \<le> 0 \<and> pad_end P \<le> 0 \<and> 1 \<le> IH + pad_beg P + pad_end P \<and> 1 \<le> IW + pad_beg P + pad_end P \<and>
     IH \<le> 2 ^ 20 \<and> IW \<le> 2 ^ 20 \<and> 0 \<le> OH \<and> OH \<le> 2 ^ 20 \<and> 0 \<le> OW \<and> OW \<le> 2 ^ 20 \<and> 0 \<le> K \<and>
     int (length src) = N * K * IH * IW * 8 \<and> length src \<le> 2 ^ 31 \<and> int (length dst) = N * K * OH * OW * 8 \<and> length dst \<le> 2 ^ 31"

text \<open>The value of channel \<open>c\<close> of a pixel of block \<open>B\<close>; \<open>H\<close> and \<open>W\<close> are the sizes after cropping.\<close>

definition interp_value :: "f32 list \<Rightarrow> int \<Rightarrow> int \<Rightarrow> int \<Rightarrow> int \<Rightarrow> int \<Rightarrow> int \<Rightarrow> int \<Rightarrow> int \<Rightarrow> int \<Rightarrow> int \<Rightarrow> int \<Rightarrow> f32" where
  "interp_value src IH IW crop H W OH OW B h w c = (let s = (\<lambda>y x. src ! nat (idx4 IH IW 8 B (y + crop) (x + crop) c)) in
     interp_mix (axis_share H OH h) (axis_share W OW w)
       (s (axis_first H OH h) (axis_first W OW w)) (s (axis_first H OH h) (axis_second W OW w))
       (s (axis_second H OH h) (axis_first W OW w)) (s (axis_second H OH h) (axis_second W OW w)))"

lemma axes_ok:
  assumes "interp_ok P N K IH IW OH OW src dst" "H = IH + pad_beg P + pad_end P" "W = IW + pad_beg P + pad_end P"
  shows "0 \<le> h \<Longrightarrow> h < OH \<Longrightarrow> neighbours (scale_of H OH) h H = Some (axis_first H OH h, axis_second H OH h, axis_share H OH h)"
    "0 \<le> w \<Longrightarrow> w < OW \<Longrightarrow> neighbours (scale_of W OW) w W = Some (axis_first W OW w, axis_second W OW w, axis_share W OW w)"
    "0 \<le> h \<Longrightarrow> h < OH \<Longrightarrow> y \<in> {axis_first H OH h, axis_second H OH h} \<Longrightarrow> 0 \<le> y - pad_beg P \<and> y - pad_beg P < IH"
    "0 \<le> w \<Longrightarrow> w < OW \<Longrightarrow> x \<in> {axis_first W OW w, axis_second W OW w} \<Longrightarrow> 0 \<le> x - pad_beg P \<and> x - pad_beg P < IW"
proof -
  have s: "1 \<le> H" "H \<le> 2 ^ 20" "1 \<le> W" "W \<le> 2 ^ 20" "OH \<le> 2 ^ 20" "OW \<le> 2 ^ 20" "pad_beg P \<le> 0" "pad_end P \<le> 0"
    using assms by (simp_all add: interp_ok_def)
  note n = neighbours_ok [OF s(1,2) _ _ s(5)] neighbours_ok [OF s(3,4) _ _ s(6)]
  show "0 \<le> h \<Longrightarrow> h < OH \<Longrightarrow> neighbours (scale_of H OH) h H = Some (axis_first H OH h, axis_second H OH h, axis_share H OH h)"
    "0 \<le> w \<Longrightarrow> w < OW \<Longrightarrow> neighbours (scale_of W OW) w W = Some (axis_first W OW w, axis_second W OW w, axis_share W OW w)"
    using n by simp_all
  show "0 \<le> h \<Longrightarrow> h < OH \<Longrightarrow> y \<in> {axis_first H OH h, axis_second H OH h} \<Longrightarrow> 0 \<le> y - pad_beg P \<and> y - pad_beg P < IH"
    using n(1) [of h] s(7,8) assms(2) by auto
  show "0 \<le> w \<Longrightarrow> w < OW \<Longrightarrow> x \<in> {axis_first W OW w, axis_second W OW w} \<Longrightarrow> 0 \<le> x - pad_beg P \<and> x - pad_beg P < IW"
    using n(2) [of w] s(7,8) assms(3) by auto
qed

lemma interp_point:
  assumes ok: "interp_ok P N K IH IW OH OW src dst" and H: "H = IH + pad_beg P + pad_end P" "W = IW + pad_beg P + pad_end P"
    and i: "0 \<le> n" "n < N" "0 \<le> k" "k < K" "0 \<le> h" "h < OH" "0 \<le> w" "w < OW" and d: "length d = length dst"
  defines "p \<equiv> \<lambda>y x. n * (K * 8) * IH * IW + k * 8 * IW * IH + (- pad_beg P + y) * IW * 8 + (- pad_beg P + x) * 8"
  shows "\<exists>d'. interp_pixel src (p (axis_first H OH h) (axis_first W OW w)) (p (axis_first H OH h) (axis_second W OW w))
      (p (axis_second H OH h) (axis_first W OW w)) (p (axis_second H OH h) (axis_second W OW w)) (axis_share H OH h) (axis_share W OW w)
      (n * (K * 8) * OH * OW + k * 8 * OW * OH + (0 + h) * OW * 8 + (0 + w) * 8) d = Some d' \<and>
    wrote (\<Union>c \<in> {0..<8}. {idx4 OH OW 8 (n * K + k) h w c}) (at4 OH OW 8 (interp_value src IH IW (- pad_beg P) H W OH OW)) d d'"
proof -
  have sz: "int (length src) = N * K * IH * IW * 8" "length src \<le> 2 ^ 31" "int (length dst) = N * K * OH * OW * 8" "length dst \<le> 2 ^ 31"
    using ok by (simp_all add: interp_ok_def)
  have B: "0 \<le> n * K + k" "n * K + k < N * K" using flat_bound [OF i(1-4)] by simp_all
  have q: "n * (K * 8) * OH * OW + k * 8 * OW * OH + (0 + h) * OW * 8 + (0 + w) * 8 = idx4 OH OW 8 (n * K + k) h w 0" by (simp add: algebra_simps)
  have r: "p y x = idx4 IH IW 8 (n * K + k) (y - pad_beg P) (x - pad_beg P) 0" for y x by (simp add: p_def algebra_simps)
  have ld: "ld src (p y x + c) = Some (src ! nat (p y x + c))"
    if "y \<in> {axis_first H OH h, axis_second H OH h}" "x \<in> {axis_first W OW w, axis_second W OW w}" "0 \<le> c" "c < 8" for y x c
    using ld_idx4 [OF sz(1,2) B, of "y - pad_beg P" "x - pad_beg P" c] axes_ok(3) [OF ok H i(5,6) that(1)] axes_ok(4) [OF ok H i(7,8) that(2)] that(3,4)
    by (simp add: r)
  have e: "idx4 OH OW 8 (n * K + k) h w 0 + c = idx4 OH OW 8 (n * K + k) h w c" for c by simp
  have b: "0 \<le> idx4 OH OW 8 (n * K + k) h w 0" "idx4 OH OW 8 (n * K + k) h w 0 + 8 \<le> int (length d)"
    using idx4_bound [OF B i(5-8), of 0 8] idx4_bound [OF B i(5-8), of 7 8] sz(3) d by simp_all
  have u: "(\<Union>c \<in> {0..<8}. {idx4 OH OW 8 (n * K + k) h w c}) = (\<Union>c \<in> {0..<8}. {idx4 OH OW 8 (n * K + k) h w 0 + c})" by (simp only: e)
  have g: "at4 OH OW 8 (interp_value src IH IW (- pad_beg P) H W OH OW) (idx4 OH OW 8 (n * K + k) h w 0 + c) =
      interp_mix (axis_share H OH h) (axis_share W OW w)
        (src ! nat (p (axis_first H OH h) (axis_first W OW w) + c)) (src ! nat (p (axis_first H OH h) (axis_second W OW w) + c))
        (src ! nat (p (axis_second H OH h) (axis_first W OW w) + c)) (src ! nat (p (axis_second H OH h) (axis_second W OW w) + c))"
    if c: "0 \<le> c" "c < 8" for c
    unfolding e at4_idx4 [OF i(5-8) c] by (simp add: interp_value_def Let_def r)
  show ?thesis unfolding q u by (rule interp_pixel_ok [OF _ b _ g]) (use ld sz(4) d in auto)
qed

lemma interpolate_ok:
  assumes ok: "interp_ok P N K IH IW OH OW src dst" and H: "H = IH + pad_beg P + pad_end P" "W = IW + pad_beg P + pad_end P"
    and ne: "H \<noteq> OH \<or> W \<noteq> OW" and K: "K = (C + 8 - 1) div 8"
  shows "\<exists>d. interpolate N C src (- pad_beg P) (- pad_beg P) H W IH IW dst 0 0 OH OW OH OW = Some d \<and>
    wrote (\<Union>n \<in> {0..<N}. \<Union>k \<in> {0..<K}. \<Union>h \<in> {0..<OH}. \<Union>w \<in> {0..<OW}. \<Union>c \<in> {0..<8}. {idx4 OH OW 8 (n * K + k) h w c})
      (at4 OH OW 8 (interp_value src IH IW (- pad_beg P) H W OH OW)) dst d"
proof -
  have f: "\<not> (H = OH \<and> W = OW)" using ne by simp
  show ?thesis unfolding interpolate_def if_not_P [OF f] Let_def channel_blocks K [symmetric]
  proof (intro wrote_for [where n = "length dst"])
    fix n k h :: int and d :: "f32 list" assume i: "0 \<le> n" "n < N" "0 \<le> k" "k < K" "0 \<le> h" "h < OH" and d: "length d = length dst"
    show "\<exists>d'. (do { (ih0, ih1, h_lambda0) \<leftarrow> neighbours (scale_of H OH) h H;
          for_loop 0 OW (\<lambda>w d. do {
            (iw0, iw1, w_lambda0) \<leftarrow> neighbours (scale_of W OW) w W;
            interp_pixel src
              (n * (K * 8) * IH * IW + k * 8 * IW * IH + (- pad_beg P + ih0) * IW * 8 + (- pad_beg P + iw0) * 8)
              (n * (K * 8) * IH * IW + k * 8 * IW * IH + (- pad_beg P + ih0) * IW * 8 + (- pad_beg P + iw1) * 8)
              (n * (K * 8) * IH * IW + k * 8 * IW * IH + (- pad_beg P + ih1) * IW * 8 + (- pad_beg P + iw0) * 8)
              (n * (K * 8) * IH * IW + k * 8 * IW * IH + (- pad_beg P + ih1) * IW * 8 + (- pad_beg P + iw1) * 8)
              h_lambda0 w_lambda0 (n * (K * 8) * OH * OW + k * 8 * OW * OH + (0 + h) * OW * 8 + (0 + w) * 8) d }) d }) = Some d' \<and>
        wrote (\<Union>w \<in> {0..<OW}. \<Union>c \<in> {0..<8}. {idx4 OH OW 8 (n * K + k) h w c}) (at4 OH OW 8 (interp_value src IH IW (- pad_beg P) H W OH OW)) d d'"
      unfolding axes_ok(1) [OF ok H i(5,6)] Option.bind.simps prod.case
    proof (rule wrote_for [where n = "length dst"])
      fix w :: int and e :: "f32 list" assume w: "0 \<le> w" "w < OW" and e: "length e = length dst"
      show "\<exists>d'. (do { (iw0, iw1, w_lambda0) \<leftarrow> neighbours (scale_of W OW) w W;
            interp_pixel src
              (n * (K * 8) * IH * IW + k * 8 * IW * IH + (- pad_beg P + axis_first H OH h) * IW * 8 + (- pad_beg P + iw0) * 8)
              (n * (K * 8) * IH * IW + k * 8 * IW * IH + (- pad_beg P + axis_first H OH h) * IW * 8 + (- pad_beg P + iw1) * 8)
              (n * (K * 8) * IH * IW + k * 8 * IW * IH + (- pad_beg P + axis_second H OH h) * IW * 8 + (- pad_beg P + iw0) * 8)
              (n * (K * 8) * IH * IW + k * 8 * IW * IH + (- pad_beg P + axis_second H OH h) * IW * 8 + (- pad_beg P + iw1) * 8)
              (axis_share H OH h) w_lambda0 (n * (K * 8) * OH * OW + k * 8 * OW * OH + (0 + h) * OW * 8 + (0 + w) * 8) e }) = Some d' \<and>
          wrote (\<Union>c \<in> {0..<8}. {idx4 OH OW 8 (n * K + k) h w c}) (at4 OH OW 8 (interp_value src IH IW (- pad_beg P) H W OH OW)) e d'"
        unfolding axes_ok(2) [OF ok H w] Option.bind.simps prod.case by (rule interp_point [OF ok H i w e])
    qed (rule d)
  qed simp_all
qed

lemma interp_value_nonneg:
  assumes ok: "interp_ok P N K IH IW OH OW src dst" and H: "H = IH + pad_beg P + pad_end P" "W = IW + pad_beg P + pad_end P"
    and i: "0 \<le> B" "B < N * K" "0 \<le> h" "h < OH" "0 \<le> w" "w < OW" "0 \<le> c" "c < 8" and src: "\<forall>v \<in> set src. 0 \<le> v"
  shows "0 \<le> interp_value src IH IW (- pad_beg P) H W OH OW B h w c"
proof -
  have s: "1 \<le> H" "H \<le> 2 ^ 20" "1 \<le> W" "W \<le> 2 ^ 20" "OH \<le> 2 ^ 20" "OW \<le> 2 ^ 20" and l: "int (length src) = N * K * IH * IW * 8"
    using ok H by (simp_all add: interp_ok_def)
  have v: "0 \<le> src ! nat (idx4 IH IW 8 B (y + - pad_beg P) (x + - pad_beg P) c)"
    if "y \<in> {axis_first H OH h, axis_second H OH h}" "x \<in> {axis_first W OW w, axis_second W OW w}" for y x
  proof -
    have "0 \<le> y + - pad_beg P" "y + - pad_beg P < IH" "0 \<le> x + - pad_beg P" "x + - pad_beg P < IW"
      using axes_ok(3) [OF ok H i(3,4) that(1)] axes_ok(4) [OF ok H i(5,6) that(2)] by simp_all
    from idx4_bound [OF i(1,2) this i(7,8)] show ?thesis using l by (intro bspec [OF src] nth_mem) linarith
  qed
  show ?thesis unfolding interp_value_def Let_def
    using neighbours_ok [OF s(1,2) i(3,4) s(5)] neighbours_ok [OF s(3,4) i(5,6) s(6)] v by (intro interp_mix_nonneg) simp_all
qed

section \<open>Property\<close>

text \<open>C31. Stretching stays inside both blobs when the padding crops (it is not positive): each value of the output is
  the bilinear mixture of the four neighbours of its position in the cropped plane of its own image, channel block and
  channel, the padded channels of the last block included, and an input without negative values gives none.\<close>

theorem interp_stretches:
  assumes ok: "interp_ok P (int N) ((int C + 7) div 8) (int IH) (int IW) (int OH) (int OW) src dst"
    and H: "H = int IH + pad_beg P + pad_end P" "W = int IW + pad_beg P + pad_end P" and ne: "H \<noteq> int OH \<or> W \<noteq> int OW"
  shows "\<exists>d. interp_execute P [N, C, IH, IW] [N, C, OH, OW] src dst = Some (OK, d) \<and>
    blob4 (int N * ((int C + 7) div 8)) (int OH) (int OW) 8 (interp_value src (int IH) (int IW) (- pad_beg P) H W (int OH) (int OW)) d \<and>
    ((\<forall>v \<in> set src. 0 \<le> v) \<longrightarrow> (\<forall>v \<in> set d. 0 \<le> v))"
proof -
  let ?K = "(int C + 7) div 8" and ?v = "interp_value src (int IH) (int IW) (- pad_beg P) H W (int OH) (int OW)"
  have K: "?K = (int C + 8 - 1) div 8" by simp
  obtain d where d: "interpolate (int N) (int C) src (- pad_beg P) (- pad_beg P) H W (int IH) (int IW) dst 0 0 (int OH) (int OW) (int OH) (int OW) = Some d"
    "wrote (\<Union>n \<in> {0..<int N}. \<Union>k \<in> {0..<?K}. \<Union>h \<in> {0..<int OH}. \<Union>w \<in> {0..<int OW}. \<Union>c \<in> {0..<8}.
      {idx4 (int OH) (int OW) 8 (n * ?K + k) h w c}) (at4 (int OH) (int OW) 8 ?v) dst d"
    using interpolate_ok [OF ok H ne K] by blast
  have l: "int (length dst) = int N * ?K * int OH * int OW * 8" "0 \<le> ?K" using ok by (simp_all add: interp_ok_def)
  have m: "d = map (\<lambda>i. at4 (int OH) (int OW) 8 ?v (int i)) [0..<length dst]"
  proof (rule wrote_all [OF d(2)])
    fix i assume "0 \<le> i" "i < int (length dst)"
    then have i: "0 \<le> i" "i < int N * ?K * int OH * int OW * 8" using l by simp_all
    obtain B h w c where p: "i = idx4 (int OH) (int OW) 8 B h w c" "0 \<le> B" "B < int N * ?K" "0 \<le> h" "h < int OH" "0 \<le> w" "w < int OW" "0 \<le> c" "c < 8"
      by (rule idx4_cases [OF i]) simp_all
    obtain n k where q: "B = n * ?K + k" "0 \<le> n" "n < int N" "0 \<le> k" "k < ?K" using flat_cases [OF p(2,3) l(2)] by metis
    show "i \<in> (\<Union>n \<in> {0..<int N}. \<Union>k \<in> {0..<?K}. \<Union>h \<in> {0..<int OH}. \<Union>w \<in> {0..<int OW}. \<Union>c \<in> {0..<8}.
        {idx4 (int OH) (int OW) 8 (n * ?K + k) h w c})" unfolding UN_iff
      by (rule bexI [of _ n], rule bexI [of _ k], rule bexI [of _ h], rule bexI [of _ w], rule bexI [of _ c]) (use p q in simp_all)
  qed
  have b: "blob4 (int N * ?K) (int OH) (int OW) 8 ?v d" unfolding m by (rule blob4_map [OF l(1)])
  have "0 \<le> at4 (int OH) (int OW) 8 ?v (int i)" if "\<forall>v \<in> set src. 0 \<le> v" "i < length dst" for i
  proof -
    have i: "0 \<le> int i" "int i < int N * ?K * int OH * int OW * 8" using that l by simp_all
    obtain B h w c where p: "int i = idx4 (int OH) (int OW) 8 B h w c" "0 \<le> B" "B < int N * ?K" "0 \<le> h" "h < int OH" "0 \<le> w" "w < int OW" "0 \<le> c" "c < 8"
      by (rule idx4_cases [OF i]) simp_all
    show ?thesis unfolding p(1) at4_idx4 [OF p(4-9)] using interp_value_nonneg [OF ok H p(2-9) that(1)] .
  qed
  then have "(\<forall>v \<in> set src. 0 \<le> v) \<longrightarrow> (\<forall>v \<in> set d. 0 \<le> v)" unfolding m by auto
  moreover have "interp_execute P [N, C, IH, IW] [N, C, OH, OW] src dst = Some (OK, d)" using d(1) by (simp add: interp_execute_def H)
  ultimately show ?thesis using b by blast
qed

theorem interp_stretches_witness:
  "\<exists>d. interp_execute \<lparr>pad_beg = 0, pad_end = - 1\<rparr> [1, 3, 2, 2] [1, 3, 2, 1] (replicate 32 5) (replicate 16 0) = Some (OK, d) \<and> length d = 16"
  using interp_stretches [of "\<lparr>pad_beg = 0, pad_end = - 1\<rparr>" 1 3 2 2 2 1 "replicate 32 5" "replicate 16 0" 1 1]
  by (auto simp: interp_ok_def blob4_def)

text \<open>What the layer does outside these conditions. Positive padding is subtracted from the coordinates, so the first
  sample already lies before the buffer.\<close>

lemma interp_padding_underrun:
  assumes "0 < pad_beg P" "0 < N" "0 < C" "0 < OH" "0 < OW"
    and "int IH + pad_beg P + pad_end P \<noteq> int OH \<or> int IW + pad_beg P + pad_end P \<noteq> int OW"
  shows "interp_execute P [N, C, IH, IW] [N, C, OH, OW] src dst = None"
proof -
  have ne: "\<not> (int IH + pad_beg P + pad_end P = int OH \<and> int IW + pad_beg P + pad_end P = int OW)" using assms(6) by simp
  have n: "neighbours r 0 n = Some (0, if 0 < n - 1 then 1 else 0, 0)" for r n
    by (simp add: neighbours_def fmul_def fsub_def f2i_def int_ok_def ctrunc_def Let_def i2f_def)
  have "0 \<le> pad_beg P * int IW" using assms(1) by simp
  then have "- pad_beg P * int IW * 8 + - pad_beg P * 8 < 0" using assms(1) by linarith
  then have "ld src (- pad_beg P * int IW * 8 + - pad_beg P * 8 + 0) = None" by (simp only: ld_def) auto
  then have px: "interp_pixel src (- pad_beg P * int IW * 8 + - pad_beg P * 8) p01 p10 p11 l m pdst d = None" for p01 p10 p11 l m pdst d
    unfolding interp_pixel_def Let_def by (intro for_loop_undefined [of 0 0]) simp_all
  have pos: "0 < (int C + 8 - 1) div 8" "0 < int N" "0 < int OH" "0 < int OW" using assms(2-5) by simp_all
  have row: "(do { (iw0, iw1, w_lambda0) \<leftarrow> neighbours rw 0 n; f iw0 iw1 w_lambda0 }) = None" if "\<And>x m. f 0 x m = None" for rw n and f :: "int \<Rightarrow> int \<Rightarrow> f32 \<Rightarrow> f32 list option"
    using that by (simp add: n)
  have "interpolate (int N) (int C) src (- pad_beg P) (- pad_beg P) (int IH + pad_beg P + pad_end P) (int IW + pad_beg P + pad_end P)
      (int IH) (int IW) dst 0 0 (int OH) (int OW) (int OH) (int OW) = None"
    unfolding interpolate_def if_not_P [OF ne] Let_def
  proof (intro for_loop_undefined [of 0 0] row)
    show "interp_pixel src
        (0 * (int C + 8 - 1 AND - 8) * int IH * int IW + 0 * 8 * int IW * int IH + (- pad_beg P + 0) * int IW * 8 + (- pad_beg P + 0) * 8)
        p01 p10 p11 l m pdst d = None" for p01 p10 p11 l m pdst d
      unfolding mult_zero_left add_0 add_0_right by (rule px)
  qed (use pos in simp_all)
  then show ?thesis by (simp add: interp_execute_def)
qed

text \<open>The copy for equal sizes counts the channels without those that fill the last block up.\<close>

lemma interp_copy_partial:
  assumes "pad_beg P + pad_end P = 0" "N * C * IH * IW \<le> length src" "N * C * IH * IW \<le> length dst" "length src \<le> 2 ^ 31" "length dst \<le> 2 ^ 31"
  shows "interp_execute P [N, C, IH, IW] [N, C, IH, IW] src dst = Some (OK, take (N * C * IH * IW) src @ drop (N * C * IH * IW) dst)"
proof -
  let ?n = "N * C * IH * IW"
  have le: "int ?n \<le> int (length src)" "int ?n \<le> int (length dst)" using assms(2,3) by (simp_all only: of_nat_le_iff)
  have "\<exists>d. for_loop 0 (int ?n) (\<lambda>i d. do { v \<leftarrow> ld src i; st d i v }) dst = Some d \<and> wrote (\<Union>i \<in> {0..<int ?n}. {i}) (\<lambda>i. src ! nat i) dst d"
  proof (rule wrote_for [where n = "length dst"])
    fix i and d :: "f32 list" assume i: "0 \<le> i" "i < int ?n" and d: "length d = length dst"
    have "ld src i = Some (src ! nat i)" using i(1) less_le_trans [OF i(2) le(1)] assms(4) by (simp add: ld_def int_ok_def)
    moreover have "\<exists>d'. st d i (src ! nat i) = Some d' \<and> wrote {i} (\<lambda>i. src ! nat i) d d'"
      using i(1) less_le_trans [OF i(2) le(2)] d assms(5) by (intro wrote_st) (simp_all add: int_ok_def)
    ultimately show "\<exists>d'. (do { v \<leftarrow> ld src i; st d i v }) = Some d' \<and> wrote {i} (\<lambda>i. src ! nat i) d d'" by simp
  qed simp
  then obtain d where d: "for_loop 0 (int ?n) (\<lambda>i d. do { v \<leftarrow> ld src i; st d i v }) dst = Some d"
    "wrote (\<Union>i \<in> {0..<int ?n}. {i}) (\<lambda>i. src ! nat i) dst d" by blast
  have "d = take ?n src @ drop ?n dst"
    using assms(2,3) wrote_length [OF d(2)] wrote_nth [OF d(2)] by (intro nth_equalityI) (simp_all add: nth_append flip: of_nat_mult)
  then show ?thesis using d(1) assms(1) by (simp add: interp_execute_def interpolate_def)
qed

text \<open>The layout that the constructor asks for is refused by \<^verbatim>\<open>init\<close>.\<close>

lemma interp_never_accepted:
  assumes "plain_blocking b" "interp_new l = Some (x, m)" "cfg \<in> set (confs x)"
  shows "layer_init b cfg = GENERAL_ERROR"
proof -
  have "addConfig l [conf BLK8] [conf BLK8] False = Inr cfg"
    using assms(2,3) by (auto simp: interp_new_def construct_def try_with_def split: if_splits option.splits sum.splits)
  from addConfig_init [OF assms(1) this] show ?thesis by (simp add: conf_def blocked_def)
qed

end
