(* ===== verification/KcfFeatures.thy ===== *)
theory KcfFeatures
  imports CmDevice KcfTracker
begin

text \<open>
  \<^verbatim>\<open>kcftracker.cpp\<close>: the features of the tracker on the GPU (\<^verbatim>\<open>refreshKernels\<close>, \<^verbatim>\<open>getFeatureMaps_gpu\<close>). Three
  kernels turn a window of a decoded picture into histograms of gradients. The picture is read through a
  scaling sampler; sampler, surfaces and most arguments are made when the size of the template
  changes, the rest at every call. For every picture buffer that was used before the tracker keeps a sampler index
  and a surface index in two maps, which it renews with the sampler.

  An object of the runtime is known by a number; a sampler index or surface index is good as long as the object it
  was taken from lives. The runtime is an argument: \<open>fe_ok\<close> tells of the n-th call with a visible
  result whether it succeeds, \<open>hog_gpu\<close> what a kernel of \<^verbatim>\<open>kcf_featrue_genx.isa\<close> writes. \<open>Fault\<close> is undefined behaviour.
  \<^verbatim>\<open>refreshKernels\<close> is declared \<^verbatim>\<open>int\<close> and runs off its end, which C++ leaves undefined although its caller does not
  look at the value. That end is a step of its own, \<open>fe_off_end\<close>: a fault, unless the environment says that the build
  lets such a function return (\<open>fe_falls_off\<close>).
\<close>

section \<open>State\<close>

datatype fkernel = featureKernel | processKernel | normalizePCAKernel

datatype fsurface = pCmSurface2D_verify | pCmSurface2D_out | pCmSurface2D_normal | pCmSurface2D_newFeature

datatype farg = ANum int | AInts "int list" | AFloats "f32 list" | AFloat f32 | ASurf fsurface nat
  | APicture nat | ASampler nat

record feature_map =
  fm_sizeX :: int
  fm_sizeY :: int
  fm_num :: int
  fm_data :: "f32 list"

record feat =
  fe_program :: bool
  fe_kernel :: "fkernel \<Rightarrow> ((nat \<Rightarrow> farg option) \<times> int) option"
  fe_surface :: "fsurface \<Rightarrow> (nat \<times> int \<times> int) option"
  fe_content :: "fsurface \<Rightarrow> (nat \<Rightarrow> f32) option"
  fe_sampler :: "nat option"
  nv12_pool :: "nat \<Rightarrow> nat option"
  sampler_pool :: "(nat \<times> nat) list"
  index_pool :: "nat \<Rightarrow> nat option"
  live_index :: "nat \<Rightarrow> nat option"
  SVMFeaturemap :: "feature_map option"
  templateWidth :: int
  templateHeight :: int
  previous_roi :: recti
  threadswidth :: int
  threadsheight :: int
  fe_queue :: bool
  fe_task :: "fkernel option list option"
  fe_space :: bool
  fe_event :: bool
  fe_lost :: nat
  fe_clock :: nat
  fe_ident :: nat

text \<open>The kernels see the arguments with their objects looked up: which surface, which picture buffer.\<close>

datatype fval = FVNum int | FVInts "int list" | FVFloats "f32 list" | FVFloat f32 | FVSurf fsurface | FVPicture nat | FVSampler

record feat_env =
  fe_ok :: "nat \<Rightarrow> bool"
  hog_gpu :: "fkernel \<Rightarrow> fval list \<Rightarrow> (fsurface \<Rightarrow> (nat \<Rightarrow> f32) option) \<Rightarrow> fsurface \<Rightarrow> nat \<Rightarrow> f32"
  atan_d :: "rat \<Rightarrow> rat"
  cos_f :: "f32 \<Rightarrow> f32"
  sin_f :: "f32 \<Rightarrow> f32"
  fe_falls_off :: bool

type_synonym fstep = "feat \<Rightarrow> feat outcome"

section \<open>Calls\<close>

text \<open>A failed call ends the process (\<open>must\<close>), returns -1 (\<open>check\<close>), is passed over (\<open>try_call\<close>), or gives a null
  pointer that is used at once (\<open>alloc\<close>).\<close>

definition tick :: "feat \<Rightarrow> feat" where "tick s = s\<lparr>fe_clock := Suc (fe_clock s)\<rparr>"

definition must :: "feat_env \<Rightarrow> (feat \<Rightarrow> feat) \<Rightarrow> fstep" where
  "must E f s = (if fe_ok E (fe_clock s) then Next (f (tick s)) else Exit (- 1) (tick s))"

definition check :: "feat_env \<Rightarrow> (feat \<Rightarrow> feat) \<Rightarrow> fstep" where
  "check E f s = (if fe_ok E (fe_clock s) then Next (f (tick s)) else Return (- 1) (tick s))"

definition try_call :: "feat_env \<Rightarrow> (feat \<Rightarrow> feat) \<Rightarrow> fstep" where
  "try_call E f s = Next (if fe_ok E (fe_clock s) then f (tick s) else tick s)"

definition alloc :: "feat_env \<Rightarrow> (feat \<Rightarrow> feat) \<Rightarrow> fstep" where
  "alloc E f s = (if fe_ok E (fe_clock s) then Next (f (tick s)) else Fault)"

definition new_fsurface :: "fsurface \<Rightarrow> int \<Rightarrow> int \<Rightarrow> feat \<Rightarrow> feat" where
  "new_fsurface x w h s = s\<lparr>fe_surface := (fe_surface s)(x \<mapsto> (fe_ident s, w, h)), fe_content := (fe_content s)(x := None),
     fe_ident := Suc (fe_ident s)\<rparr>"

text \<open>\<^verbatim>\<open>setupOutputSurface\<close> for format R8: it ends the process when the surface cannot be made.\<close>

definition setupOutputSurface :: "feat_env \<Rightarrow> fsurface \<Rightarrow> int \<Rightarrow> int \<Rightarrow> fstep" where
  "setupOutputSurface E x w h = run [
     guarded (\<lambda>s. fe_surface s x \<noteq> None) [set_st (\<lambda>s. s\<lparr>fe_surface := (fe_surface s)(x := None)\<rparr>)],
     must E (new_fsurface x w h)]"

text \<open>\<^verbatim>\<open>setupAVSSampler\<close>: the sampler has fixed settings and filter tables; the sizes it is called with only enter
  two numbers that are not used.\<close>

definition setupAVSSampler :: "feat_env \<Rightarrow> fstep" where
  "setupAVSSampler E = check E (\<lambda>s. s\<lparr>fe_sampler := Some (fe_ident s), fe_ident := Suc (fe_ident s)\<rparr>)"

definition on_fkernel :: "fkernel \<Rightarrow> ((nat \<Rightarrow> farg option) \<times> int \<Rightarrow> (nat \<Rightarrow> farg option) \<times> int) \<Rightarrow> fstep" where
  "on_fkernel k f s = (case fe_kernel s k of None \<Rightarrow> Fault | Some a \<Rightarrow> Next (s\<lparr>fe_kernel := (fe_kernel s)(k \<mapsto> f a)\<rparr>))"

definition FSetThreadCount :: "fkernel \<Rightarrow> int \<Rightarrow> fstep" where
  "FSetThreadCount k n = on_fkernel k (\<lambda>(a, _). (a, n))"

text \<open>Arguments are set one after the other from position \<open>i\<close> on.\<close>

definition set_arg :: "fkernel \<Rightarrow> nat \<Rightarrow> (feat \<Rightarrow> farg option) \<Rightarrow> fstep" where
  "set_arg k i v s = (case v s of None \<Rightarrow> Fault | Some x \<Rightarrow> on_fkernel k (\<lambda>(a, n). (a(i \<mapsto> x), n)) s)"

primrec fset_args :: "fkernel \<Rightarrow> nat \<Rightarrow> (feat \<Rightarrow> farg option) list \<Rightarrow> fstep" where
  "fset_args k i [] = Next"
| "fset_args k i (v # vs) = run [set_arg k i v, fset_args k (Suc i) vs]"

definition surf_of :: "fsurface \<Rightarrow> feat \<Rightarrow> farg option" where
  "surf_of x s = map_option (\<lambda>(n, _, _). ASurf x n) (fe_surface s x)"

text \<open>The \<^verbatim>\<open>unsigned short\<close> that is read from the address of an \<^verbatim>\<open>int\<close>.\<close>

definition short_arg :: "int \<Rightarrow> feat \<Rightarrow> farg option" where
  "short_arg v s = Some (ANum (v mod 2 ^ 16))"

section \<open>The kernels' constants\<close>

definition feature_pi :: "feat_env \<Rightarrow> f32" where
  "feature_pi E = d2f (dmul (atan_d E 1) 4)"

definition boundary :: "feat_env \<Rightarrow> (f32 \<Rightarrow> f32) \<Rightarrow> f32 list" where
  "boundary E f = map (\<lambda>i. f (fmul (i2f i) (fdiv (feature_pi E) 9))) [0..9]"

definition nearest_cells :: "int list" where
  "nearest_cells = map (\<lambda>_. - 1) [0..1] @ map (\<lambda>_. 1) [2..3]"

definition cell_weights :: "f32 list" where
  "cell_weights = concat (map (\<lambda>j.
     let b_x = fadd (i2f (2 + j)) (1 / 2); a_x = fsub (i2f (2 - j)) (1 / 2); q = fdiv (fmul a_x b_x) (fadd a_x b_x)
     in [fmul (fdiv 1 a_x) q, fmul (fdiv 1 b_x) q]) [0..1] @ map (\<lambda>j.
     let a_x = fadd (i2f (j - 2)) (1 / 2); b_x = fadd (fsub (i2f (- j + 2)) (1 / 2)) (i2f 4); q = fdiv (fmul a_x b_x) (fadd a_x b_x)
     in [fmul (fdiv 1 a_x) q, fmul (fdiv 1 b_x) q]) [2..3])"

text \<open>The window as the sampler takes it: its corner and its step, relative to the picture. The picture is not empty.\<close>

definition window_args :: "recti \<Rightarrow> int \<Rightarrow> int \<Rightarrow> int \<Rightarrow> int \<Rightarrow> (feat \<Rightarrow> farg option) list" where
  "window_args roi rawWidth rawHeight width height = map (\<lambda>f s. Some (AFloat f)) [
     d2f (ddiv (of_int (ix roi)) (of_int rawWidth)),
     d2f (ddiv (of_int (iy roi)) (of_int rawHeight)),
     fdiv (fmul 1 (i2f (iw roi))) (fmul (i2f width) (i2f rawWidth)),
     fdiv (fmul 1 (i2f (ih roi))) (fmul (i2f height) (i2f rawHeight))]"

definition size_args :: "int \<Rightarrow> int \<Rightarrow> (feat \<Rightarrow> farg option) list" where
  "size_args nInputWidth nInputHeight = map short_arg
     [nInputWidth, nInputHeight, 4, cquot nInputWidth 4 * 27, 27]"

section \<open>refreshKernels\<close>

definition fe_off_end :: "feat_env \<Rightarrow> fstep" where
  "fe_off_end E s = (if fe_falls_off E then Next s else Fault)"

definition refreshKernels :: "feat_env \<Rightarrow> int \<Rightarrow> int \<Rightarrow> recti \<Rightarrow> int \<Rightarrow> int \<Rightarrow> fstep" where
  "refreshKernels E rawW rawH roi w h = run [
     guarded (\<lambda>s. fe_sampler s \<noteq> None) [set_st (\<lambda>s. s\<lparr>fe_sampler := None\<rparr>)],
     setupAVSSampler E,
     setupOutputSurface E pCmSurface2D_verify (cquot w 4 * 4 * 32) (cquot h 4 * 9),
     setupOutputSurface E pCmSurface2D_out (cquot w 4 * 4 * 27) (cquot h 4),
     setupOutputSurface E pCmSurface2D_normal (cquot w 4 * 4) (cquot h 4),
     setupOutputSurface E pCmSurface2D_newFeature ((cquot w 4 - 2) * 4 * 31) (cquot h 4 - 2),
     set_st (\<lambda>s. s\<lparr>threadswidth := cquot w 4, threadsheight := cquot h 4\<rparr>),
     FSetThreadCount featureKernel (cquot w 4 * cquot h 4),
     FSetThreadCount processKernel (cquot w 4 * cquot h 4),
     FSetThreadCount normalizePCAKernel (cquot w 4 * cquot h 4),
     fset_args featureKernel 0 (size_args w h),
     fset_args featureKernel 5 [\<lambda>_. Some (AInts nearest_cells), \<lambda>_. Some (AFloats cell_weights),
       \<lambda>_. Some (AFloats (boundary E (cos_f E))), \<lambda>_. Some (AFloats (boundary E (sin_f E)))],
     fset_args featureKernel 9 (window_args roi rawW rawH w h),
     fset_args featureKernel 15 [surf_of pCmSurface2D_out, surf_of pCmSurface2D_verify],
     fset_args processKernel 0 (size_args w h),
     fset_args processKernel 5 [surf_of pCmSurface2D_verify, surf_of pCmSurface2D_out, surf_of pCmSurface2D_normal],
     fset_args normalizePCAKernel 0 (size_args w h),
     fset_args normalizePCAKernel 5 [surf_of pCmSurface2D_out, surf_of pCmSurface2D_normal, surf_of pCmSurface2D_newFeature],
     fe_off_end E]"

section \<open>Execution of the task\<close>

definition farity :: "fkernel \<Rightarrow> nat" where
  "farity k = (if k = featureKernel then 17 else 8)"

definition farg_val :: "feat \<Rightarrow> (nat \<Rightarrow> farg option) \<Rightarrow> nat \<Rightarrow> fval option" where
  "farg_val s a i = (case a i of
       Some (ANum v) \<Rightarrow> Some (FVNum v) | Some (AInts v) \<Rightarrow> Some (FVInts v) | Some (AFloats v) \<Rightarrow> Some (FVFloats v)
     | Some (AFloat v) \<Rightarrow> Some (FVFloat v)
     | Some (ASurf x n) \<Rightarrow> (case fe_surface s x of Some (m, _, _) \<Rightarrow> if m = n then Some (FVSurf x) else None | None \<Rightarrow> None)
     | Some (APicture n) \<Rightarrow> map_option FVPicture (live_index s n)
     | Some (ASampler n) \<Rightarrow> if fe_sampler s = Some n then Some FVSampler else None
     | None \<Rightarrow> None)"

text \<open>A kernel may write the surfaces it is given.\<close>

definition after_kernel :: "feat_env \<Rightarrow> fkernel \<Rightarrow> fval list \<Rightarrow> (fsurface \<Rightarrow> (nat \<Rightarrow> f32) option) \<Rightarrow> fsurface \<Rightarrow> (nat \<Rightarrow> f32) option" where
  "after_kernel E k vs c x = (if FVSurf x \<in> set vs then Some (hog_gpu E k vs c x) else c x)"

definition exec_fkernel :: "feat_env \<Rightarrow> fkernel \<Rightarrow> feat \<Rightarrow> feat option" where
  "exec_fkernel E k s = do {
     (a, n) \<leftarrow> fe_kernel s k;
     vs \<leftarrow> mapm (farg_val s a) [0..<farity k];
     Some (s\<lparr>fe_content := after_kernel E k vs (fe_content s)\<rparr>) }"

fun exec_ftask :: "feat_env \<Rightarrow> fkernel option list \<Rightarrow> feat \<Rightarrow> feat option" where
  "exec_ftask E [] s = Some s"
| "exec_ftask E (None # es) s = exec_ftask E es s"
| "exec_ftask E [Some k] s = exec_fkernel E k s"
| "exec_ftask E (Some k # Some k' # es) s = None"
| "exec_ftask E (Some k # None # es) s = do { s1 \<leftarrow> exec_fkernel E k s; exec_ftask E es s1 }"

definition FEnqueue :: "feat_env \<Rightarrow> fstep" where
  "FEnqueue E s = (if \<not> fe_queue s \<or> \<not> fe_space s then Fault else case fe_task s of None \<Rightarrow> Fault
     | Some es \<Rightarrow> (if fe_ok E (fe_clock s) then
          (case exec_ftask E es (tick s) of None \<Rightarrow> Fault | Some s1 \<Rightarrow> Next (s1\<lparr>fe_event := True\<rparr>))
        else Exit (- 1) (tick s)))"

definition add_fentry :: "feat_env \<Rightarrow> fkernel option \<Rightarrow> fstep" where
  "add_fentry E e = check E (\<lambda>s. s\<lparr>fe_task := map_option (\<lambda>es. es @ [e]) (fe_task s)\<rparr>)"

section \<open>getFeatureMaps_gpu\<close>

text \<open>A \<^verbatim>\<open>std::map\<close> is kept in the order of its keys; a key with a null value is treated as absent, as
  the code does.\<close>

fun put_key :: "nat \<Rightarrow> 'a \<Rightarrow> (nat \<times> 'a) list \<Rightarrow> (nat \<times> 'a) list" where
  "put_key k v [] = [(k, v)]"
| "put_key k v ((k', v') # m) = (if k < k' then (k, v) # (k', v') # m else if k = k' then (k, v) # m else (k', v') # put_key k v m)"

text \<open>The file of the kernels is opened, measured, read and loaded.\<close>

definition load_features :: "feat_env \<Rightarrow> fstep" where
  "load_features E = guarded (\<lambda>s. \<not> fe_program s) [must E id, must E id, alloc E id, must E id, must E (\<lambda>s. s\<lparr>fe_program := True\<rparr>)]"

definition make_fkernel :: "feat_env \<Rightarrow> fkernel \<Rightarrow> fstep" where
  "make_fkernel E k = guarded (\<lambda>s. fe_kernel s k = None)
     [must E (\<lambda>s. s\<lparr>fe_kernel := (fe_kernel s)(k \<mapsto> (Map.empty, 0))\<rparr>)]"

text \<open>The indices of a picture buffer: taken from the current sampler and made for its surface.\<close>

definition make_index :: "feat_env \<Rightarrow> nat \<Rightarrow> fstep" where
  "make_index E key = check E (\<lambda>s. s\<lparr>live_index := (live_index s)(fe_ident s \<mapsto> key), index_pool := (index_pool s)(key \<mapsto> fe_ident s),
     sampler_pool := put_key key (the (fe_sampler s)) (sampler_pool s), fe_ident := Suc (fe_ident s)\<rparr>)"

definition renew_index :: "feat_env \<Rightarrow> nat \<Rightarrow> fstep" where
  "renew_index E key = run [
     need (\<lambda>s. fe_sampler s \<noteq> None),
     (\<lambda>s. case index_pool s key of None \<Rightarrow> Fault
        | Some n \<Rightarrow> if live_index s n = None then Fault else Next (s\<lparr>live_index := (live_index s)(n := None)\<rparr>)),
     need (\<lambda>s. nv12_pool s key \<noteq> None),
     make_index E key]"

text \<open>\<^verbatim>\<open>allocFeatureMapObject\<close>; the template has at least three cells in each direction, so the sizes are positive.\<close>

definition allocFeatureMapObject :: "feat_env \<Rightarrow> int \<Rightarrow> int \<Rightarrow> int \<Rightarrow> fstep" where
  "allocFeatureMapObject E sizeX sizeY numFeatures = run [
     need (\<lambda>_. 0 < sizeX \<and> 0 < sizeY \<and> int_ok (sizeX * sizeY) \<and> int_ok (sizeX * sizeY * numFeatures)),
     alloc E id,
     alloc E (\<lambda>s. s\<lparr>SVMFeaturemap := Some \<lparr>fm_sizeX = sizeX, fm_sizeY = sizeY, fm_num = numFeatures,
       fm_data = replicate (nat (sizeX * sizeY * numFeatures)) 0\<rparr>\<rparr>)]"

definition freeFeatureMapObject :: fstep where
  "freeFeatureMapObject = set_st (\<lambda>s. s\<lparr>SVMFeaturemap := None\<rparr>)"

definition new_template :: "feat_env \<Rightarrow> recti \<Rightarrow> int \<Rightarrow> int \<Rightarrow> int \<Rightarrow> int \<Rightarrow> fstep" where
  "new_template E roi rawW rawH tw th = guarded (\<lambda>s. tw \<noteq> templateWidth s \<or> th \<noteq> templateHeight s) [
     set_st (\<lambda>s. s\<lparr>templateWidth := tw, templateHeight := th, previous_roi := roi\<rparr>),
     freeFeatureMapObject,
     allocFeatureMapObject E (cquot tw 4 - 2) (cquot th 4 - 2) (3 * 9 + 4),
     ignore (refreshKernels E rawW rawH roi tw th),
     (\<lambda>s. run (map (renew_index E) (rev (map fst (sampler_pool s)))) s)]"

text \<open>\<^verbatim>\<open>setupSurface\<close> wraps the picture buffer in a surface and ends the process when it cannot.\<close>

definition new_picture :: "feat_env \<Rightarrow> nat \<Rightarrow> fstep" where
  "new_picture E key = guarded (\<lambda>s. map_of (sampler_pool s) key = None) [
     must E (\<lambda>s. s\<lparr>nv12_pool := (nv12_pool s)(key \<mapsto> fe_ident s), fe_ident := Suc (fe_ident s)\<rparr>),
     need (\<lambda>s. fe_sampler s \<noteq> None),
     make_index E key]"

definition feature_task :: "feat_env \<Rightarrow> fstep" where
  "feature_task E = guarded (\<lambda>s. fe_task s = None) [
     must E (\<lambda>s. s\<lparr>fe_task := Some []\<rparr>),
     add_fentry E (Some featureKernel), add_fentry E None,
     add_fentry E (Some processKernel), add_fentry E None,
     add_fentry E (Some normalizePCAKernel)]"

text \<open>\<^verbatim>\<open>ReadSurface\<close> copies the whole surface into the map; a failure is only reported.\<close>

definition read_features :: "feat_env \<Rightarrow> fstep" where
  "read_features E s = (case (fe_surface s pCmSurface2D_newFeature, fe_content s pCmSurface2D_newFeature, SVMFeaturemap s) of
       (Some (_, w, h), Some c, Some m) \<Rightarrow>
         (let n = nat (w * h) div 4 in
          if length (fm_data m) < n then Fault
          else try_call E (\<lambda>s. s\<lparr>SVMFeaturemap := Some (m\<lparr>fm_data := map c [0..<n] @ drop n (fm_data m)\<rparr>)\<rparr>) s)
     | _ \<Rightarrow> Fault)"

definition launch_features :: "feat_env \<Rightarrow> nat \<Rightarrow> recti \<Rightarrow> int \<Rightarrow> int \<Rightarrow> int \<Rightarrow> int \<Rightarrow> fstep" where
  "launch_features E vaSurfaceID roi rawW rawH tw th = run [
     fset_args featureKernel 9 (window_args roi rawW rawH tw th),
     fset_args featureKernel 13 [\<lambda>s. map_option APicture (index_pool s vaSurfaceID), \<lambda>s. map_option ASampler (map_of (sampler_pool s) vaSurfaceID)],
     must E (\<lambda>s. s\<lparr>fe_space := True\<rparr>),
     must E id,
     guarded (\<lambda>s. \<not> fe_queue s) [check E (\<lambda>s. s\<lparr>fe_queue := True\<rparr>)],
     feature_task E,
     FEnqueue E,
     read_features E,
     set_st (\<lambda>s. s\<lparr>fe_space := False, fe_event := False\<rparr>)]"

text \<open>What the local variables of a call still hold when it returns is lost.\<close>

definition drop_feature_locals :: "feat \<Rightarrow> feat" where
  "drop_feature_locals s = s\<lparr>fe_lost := fe_lost s + (if fe_space s then 1 else 0) + (if fe_event s then 1 else 0),
     fe_space := False, fe_event := False\<rparr>"

definition getFeatureMaps_gpu :: "feat_env \<Rightarrow> nat \<Rightarrow> recti \<Rightarrow> int \<Rightarrow> int \<Rightarrow> int \<Rightarrow> int \<Rightarrow> fstep" where
  "getFeatureMaps_gpu E vaSurfaceID roi rawW rawH tw th s =
     (case run [load_features E,
        make_fkernel E featureKernel, make_fkernel E processKernel, make_fkernel E normalizePCAKernel,
        new_template E roi rawW rawH tw th,
        new_picture E vaSurfaceID,
        launch_features E vaSurfaceID roi rawW rawH tw th] s of
      Next s' \<Rightarrow> Return 0 (drop_feature_locals s') | Return r s' \<Rightarrow> Return r (drop_feature_locals s') | r \<Rightarrow> r)"

text \<open>The state that the constructor and \<^verbatim>\<open>initMDF\<close> leave behind.\<close>

definition feat_init :: feat where
  "feat_init = \<lparr>fe_program = False, fe_kernel = Map.empty, fe_surface = Map.empty, fe_content = (\<lambda>_. None), fe_sampler = None,
     nv12_pool = Map.empty, sampler_pool = [], index_pool = Map.empty, live_index = Map.empty, SVMFeaturemap = None,
     templateWidth = - 1, templateHeight = - 1, previous_roi = \<lparr>ix = 0, iy = 0, iw = 0, ih = 0\<rparr>, threadswidth = 0,
     threadsheight = 0, fe_queue = False, fe_task = None, fe_space = False, fe_event = False, fe_lost = 0, fe_clock = 0, fe_ident = 0\<rparr>"

end
