(* ===== verification/KcfFeatureFacts.thy ===== *)
theory KcfFeatureFacts
  imports KcfFeatures
begin

text \<open>
  Sequences of feature extractions: whatever pictures, windows and template sizes are asked for, no call is
  undefined, every kernel gets the arguments of the request although most of them are set only when
  the size changes, and the map is the composition of the three kernels.
\<close>

section \<open>Specification\<close>

definition size_vals :: "int \<Rightarrow> int \<Rightarrow> fval list" where
  "size_vals tw th = map (\<lambda>v. FVNum (v mod 2 ^ 16)) [tw, th, 4, tw div 4 * 27, 27]"

definition static_vals :: "feat_env \<Rightarrow> int \<Rightarrow> int \<Rightarrow> fval list" where
  "static_vals E tw th = size_vals tw th @
     [FVInts nearest_cells, FVFloats cell_weights, FVFloats (boundary E (cos_f E)), FVFloats (boundary E (sin_f E))]"

definition window_vals :: "recti \<Rightarrow> int \<Rightarrow> int \<Rightarrow> int \<Rightarrow> int \<Rightarrow> fval list" where
  "window_vals roi rawW rawH tw th = map FVFloat [
     d2f (ddiv (of_int (ix roi)) (of_int rawW)), d2f (ddiv (of_int (iy roi)) (of_int rawH)),
     fdiv (fmul 1 (i2f (iw roi))) (fmul (i2f tw) (i2f rawW)), fdiv (fmul 1 (i2f (ih roi))) (fmul (i2f th) (i2f rawH))]"

definition feature_vals :: "feat_env \<Rightarrow> nat \<Rightarrow> recti \<Rightarrow> int \<Rightarrow> int \<Rightarrow> int \<Rightarrow> int \<Rightarrow> fval list" where
  "feature_vals E key roi rawW rawH tw th = static_vals E tw th @ window_vals roi rawW rawH tw th @
     [FVPicture key, FVSampler, FVSurf pCmSurface2D_out, FVSurf pCmSurface2D_verify]"

definition process_vals :: "int \<Rightarrow> int \<Rightarrow> fval list" where
  "process_vals tw th = size_vals tw th @ [FVSurf pCmSurface2D_verify, FVSurf pCmSurface2D_out, FVSurf pCmSurface2D_normal]"

definition pca_vals :: "int \<Rightarrow> int \<Rightarrow> fval list" where
  "pca_vals tw th = size_vals tw th @ [FVSurf pCmSurface2D_out, FVSurf pCmSurface2D_normal, FVSurf pCmSurface2D_newFeature]"

type_synonym contents = "fsurface \<Rightarrow> (nat \<Rightarrow> f32) option"

definition hog_maps :: "feat_env \<Rightarrow> nat \<Rightarrow> recti \<Rightarrow> int \<Rightarrow> int \<Rightarrow> int \<Rightarrow> int \<Rightarrow> contents \<Rightarrow> contents" where
  "hog_maps E key roi rawW rawH tw th c =
     after_kernel E normalizePCAKernel (pca_vals tw th)
       (after_kernel E processKernel (process_vals tw th)
         (after_kernel E featureKernel (feature_vals E key roi rawW rawH tw th) c))"

text \<open>A request: the picture buffer, the window, the size of the picture and of the template.\<close>

type_synonym request = "nat \<times> recti \<times> int \<times> int \<times> int \<times> int"

definition good_request :: "request \<Rightarrow> bool" where
  "good_request = (\<lambda>(key, roi, rawW, rawH, tw, th). 12 \<le> tw \<and> tw \<le> 2 ^ 12 \<and> 12 \<le> th \<and> th \<le> 2 ^ 12 \<and> 0 < rawW \<and> 0 < rawH)"

text \<open>The abstract state: the size of the last template and what the surfaces hold.\<close>

definition features_spec :: "feat_env \<Rightarrow> request \<Rightarrow> int \<times> int \<times> contents \<Rightarrow> (feature_map \<times> int \<times> int \<times> contents) option" where
  "features_spec E r q = (case (r, q) of ((key, roi, rawW, rawH, tw, th), (w, h, c)) \<Rightarrow>
     if good_request r then
       let c1 = hog_maps E key roi rawW rawH tw th (if tw \<noteq> w \<or> th \<noteq> h then (\<lambda>_. None) else c)
       in Some (\<lparr>fm_sizeX = tw div 4 - 2, fm_sizeY = th div 4 - 2, fm_num = 31,
           fm_data = map (the (c1 pCmSurface2D_newFeature)) [0..<nat ((tw div 4 - 2) * (th div 4 - 2) * 31)]\<rparr>, tw, th, c1)
     else None)"

definition features_exec :: "feat_env \<Rightarrow> request \<Rightarrow> feat \<Rightarrow> (feature_map \<times> feat) option" where
  "features_exec E r s = (case r of (key, roi, rawW, rawH, tw, th) \<Rightarrow>
     case getFeatureMaps_gpu E key roi rawW rawH tw th s of
       Return v s' \<Rightarrow> if v = 0 then map_option (\<lambda>m. (m, s')) (SVMFeaturemap s') else None
     | _ \<Rightarrow> None)"

section \<open>Steps without a failed call\<close>

text \<open>Every call of the runtime succeeds, and the build lets a function run off its end.\<close>

definition all_fe_ok :: "feat_env \<Rightarrow> bool" where
  "all_fe_ok E \<longleftrightarrow> (\<forall>n. fe_ok E n) \<and> fe_falls_off E"

lemma fcalls_raw:
  assumes "\<forall>n. fe_ok E n"
  shows "must E f s = Next (f (tick s))" "check E f s = Next (f (tick s))" "try_call E f s = Next (f (tick s))"
    "alloc E f s = Next (f (tick s))"
  using assms by (simp_all add: must_def check_def try_call_def alloc_def)

lemma fcalls_ok:
  assumes "all_fe_ok E"
  shows "must E f s = Next (f (tick s))" "check E f s = Next (f (tick s))" "try_call E f s = Next (f (tick s))"
    "alloc E f s = Next (f (tick s))"
  using assms by (simp_all add: all_fe_ok_def fcalls_raw)

lemma setup_surface_ok:
  assumes "\<forall>n. fe_ok E n"
  shows "setupOutputSurface E x w h s = Next (new_fsurface x w h (tick s))"
  using assms by (auto simp: setupOutputSurface_def gpu_simps fcalls_raw new_fsurface_def tick_def)

primrec put_fargs :: "nat \<Rightarrow> farg list \<Rightarrow> (nat \<Rightarrow> farg option) \<Rightarrow> nat \<Rightarrow> farg option" where
  "put_fargs i [] m = m"
| "put_fargs i (v # vs) m = put_fargs (Suc i) vs (m(i \<mapsto> v))"

lemma put_fargs_nth: "put_fargs i vs m j = (if i \<le> j \<and> j < i + length vs then Some (vs ! (j - i)) else m j)"
proof (induction vs arbitrary: i m)
  case (Cons v vs)
  then show ?case by (cases "j = i") (auto simp: nth_Cons' Suc_diff_Suc)
qed auto

definition upd_fkernel :: "fkernel \<Rightarrow> (nat \<Rightarrow> farg option) \<times> int \<Rightarrow> feat \<Rightarrow> feat" where
  "upd_fkernel k a s = s\<lparr>fe_kernel := (fe_kernel s)(k \<mapsto> a)\<rparr>"

lemma fset_args_ok:
  assumes "fe_kernel s k = Some (a, n)" and "list_all2 (\<lambda>v x. \<forall>K. v (s\<lparr>fe_kernel := K\<rparr>) = Some x) vs xs"
  shows "fset_args k i vs s = Next (upd_fkernel k (put_fargs i xs a, n) s)"
  using assms
proof (induction vs arbitrary: i s a xs)
  case Nil
  then have "(fe_kernel s)(k \<mapsto> (a, n)) = fe_kernel s" by auto
  with Nil show ?case by (simp add: upd_fkernel_def)
next
  case (Cons v vs)
  then obtain x xs' where xs: "xs = x # xs'" and v: "\<forall>K. v (s\<lparr>fe_kernel := K\<rparr>) = Some x"
    and vs: "list_all2 (\<lambda>v x. \<forall>K. v (s\<lparr>fe_kernel := K\<rparr>) = Some x) vs xs'" by (auto simp: list_all2_Cons1)
  have "v (s\<lparr>fe_kernel := fe_kernel s\<rparr>) = Some x" using v by blast
  then have vx: "v s = Some x" by simp
  define s1 where "s1 = upd_fkernel k (a(i \<mapsto> x), n) s"
  have "list_all2 (\<lambda>v x. \<forall>K. v (s1\<lparr>fe_kernel := K\<rparr>) = Some x) vs xs'" using vs by (simp add: s1_def upd_fkernel_def)
  moreover have "fe_kernel s1 k = Some (a(i \<mapsto> x), n)" by (simp add: s1_def upd_fkernel_def)
  ultimately have "fset_args k (Suc i) vs s1 = Next (upd_fkernel k (put_fargs (Suc i) xs' (a(i \<mapsto> x)), n) s1)" by (intro Cons.IH)
  moreover have "set_arg k i v s = Next s1" using vx Cons.prems(1) by (simp add: set_arg_def on_fkernel_def s1_def upd_fkernel_def)
  ultimately show ?case by (simp add: xs s1_def upd_fkernel_def)
qed

lemma set_count_ok: "fe_kernel s k = Some (a, m) \<Longrightarrow> FSetThreadCount k n s = Next (upd_fkernel k (a, n) s)"
  by (simp add: FSetThreadCount_def on_fkernel_def upd_fkernel_def)

section \<open>The invariant\<close>

definition pic_ok :: "feat \<Rightarrow> nat \<Rightarrow> bool" where
  "pic_ok s key \<longleftrightarrow> nv12_pool s key \<noteq> None \<and> (\<exists>i < fe_ident s. index_pool s key = Some i \<and> live_index s i = Some key)"

definition full_task :: "fkernel option list" where
  "full_task = [Some featureKernel, None, Some processKernel, None, Some normalizePCAKernel]"

text \<open>What holds between two calls, also before the first.\<close>

definition pools_ok :: "feat \<Rightarrow> bool" where
  "pools_ok s \<longleftrightarrow> (\<forall>key \<in> dom (map_of (sampler_pool s)). pic_ok s key) \<and> (\<forall>i \<ge> fe_ident s. live_index s i = None) \<and>
     (fe_task s = None \<or> fe_task s = Some full_task) \<and> \<not> fe_space s \<and> \<not> fe_event s \<and> fe_lost s = 0"

definition surf_width :: "fsurface \<Rightarrow> int \<Rightarrow> int" where
  "surf_width x w = (case x of pCmSurface2D_verify \<Rightarrow> w div 4 * 4 * 32 | pCmSurface2D_out \<Rightarrow> w div 4 * 4 * 27
     | pCmSurface2D_normal \<Rightarrow> w div 4 * 4 | pCmSurface2D_newFeature \<Rightarrow> (w div 4 - 2) * 4 * 31)"

definition surf_height :: "fsurface \<Rightarrow> int \<Rightarrow> int" where
  "surf_height x h = (case x of pCmSurface2D_verify \<Rightarrow> h div 4 * 9 | pCmSurface2D_newFeature \<Rightarrow> h div 4 - 2 | _ \<Rightarrow> h div 4)"

definition kernel_vals :: "feat \<Rightarrow> fkernel \<Rightarrow> nat list \<Rightarrow> fval list \<Rightarrow> bool" where
  "kernel_vals s k is vs \<longleftrightarrow> (\<exists>a n. fe_kernel s k = Some (a, n) \<and> mapm (farg_val s a) is = Some vs)"

text \<open>The state for a template of size \<open>tw * th\<close>.\<close>

definition sized :: "feat_env \<Rightarrow> int \<Rightarrow> int \<Rightarrow> feat \<Rightarrow> bool" where
  "sized E tw th s \<longleftrightarrow> templateWidth s = tw \<and> templateHeight s = th \<and> fe_program s \<and>
     (\<forall>x. \<exists>n. fe_surface s x = Some (n, surf_width x tw, surf_height x th)) \<and>
     (\<exists>n. fe_sampler s = Some n \<and> (\<forall>key v. map_of (sampler_pool s) key = Some v \<longrightarrow> v = n)) \<and>
     kernel_vals s featureKernel [0..<9] (static_vals E tw th) \<and>
     kernel_vals s featureKernel [15..<17] [FVSurf pCmSurface2D_out, FVSurf pCmSurface2D_verify] \<and>
     kernel_vals s processKernel [0..<8] (process_vals tw th) \<and>
     kernel_vals s normalizePCAKernel [0..<8] (pca_vals tw th) \<and>
     (\<exists>m. SVMFeaturemap s = Some m \<and> fm_sizeX m = tw div 4 - 2 \<and> fm_sizeY m = th div 4 - 2 \<and> fm_num m = 31 \<and>
        int (length (fm_data m)) = (tw div 4 - 2) * (th div 4 - 2) * 31)"

section \<open>The pools\<close>

lemma map_of_put_key: "map_of (put_key k v m) = (map_of m)(k \<mapsto> v)"
  by (induction k v m rule: put_key.induct) auto

definition pools_moved :: "feat \<Rightarrow> feat \<Rightarrow> bool" where
  "pools_moved s s' \<longleftrightarrow> fe_ident s \<le> fe_ident s' \<and>
     s' = s\<lparr>live_index := live_index s', index_pool := index_pool s', sampler_pool := sampler_pool s', fe_clock := fe_clock s',
       fe_ident := fe_ident s'\<rparr>"

lemma pools_moved_refl: "pools_moved s s"
  by (simp add: pools_moved_def)

lemma pools_moved_trans:
  assumes 1: "pools_moved s s1" and 2: "pools_moved s1 s2"
  shows "pools_moved s s2"
proof -
  let ?u = "\<lambda>s. s\<lparr>live_index := live_index s2, index_pool := index_pool s2, sampler_pool := sampler_pool s2,
    fe_clock := fe_clock s2, fe_ident := fe_ident s2\<rparr>"
  from 1 have "s1 = s\<lparr>live_index := live_index s1, index_pool := index_pool s1, sampler_pool := sampler_pool s1,
    fe_clock := fe_clock s1, fe_ident := fe_ident s1\<rparr>" by (simp add: pools_moved_def)
  then have "?u s1 = ?u (s\<lparr>live_index := live_index s1, index_pool := index_pool s1, sampler_pool := sampler_pool s1,
    fe_clock := fe_clock s1, fe_ident := fe_ident s1\<rparr>)" by (rule arg_cong)
  also have "\<dots> = ?u s" by simp
  finally have "?u s1 = ?u s" .
  with 1 2 show ?thesis by (simp add: pools_moved_def)
qed

lemma pools_moved_simps:
  assumes "pools_moved s s'"
  shows "fe_sampler s' = fe_sampler s" "fe_kernel s' = fe_kernel s" "fe_surface s' = fe_surface s" "fe_content s' = fe_content s"
    "fe_task s' = fe_task s" "fe_space s' = fe_space s" "fe_event s' = fe_event s" "fe_lost s' = fe_lost s"
    "templateWidth s' = templateWidth s" "templateHeight s' = templateHeight s" "fe_program s' = fe_program s"
    "SVMFeaturemap s' = SVMFeaturemap s" "fe_queue s' = fe_queue s" "nv12_pool s' = nv12_pool s"
proof -
  from assms obtain a b c d e where "s' = s\<lparr>live_index := a, index_pool := b, sampler_pool := c, fe_clock := d, fe_ident := e\<rparr>"
    unfolding pools_moved_def by metis
  then show "fe_sampler s' = fe_sampler s" "fe_kernel s' = fe_kernel s" "fe_surface s' = fe_surface s" "fe_content s' = fe_content s"
    "fe_task s' = fe_task s" "fe_space s' = fe_space s" "fe_event s' = fe_event s" "fe_lost s' = fe_lost s"
    "templateWidth s' = templateWidth s" "templateHeight s' = templateHeight s" "fe_program s' = fe_program s"
    "SVMFeaturemap s' = SVMFeaturemap s" "fe_queue s' = fe_queue s" "nv12_pool s' = nv12_pool s" by simp_all
qed

lemma renew_one:
  assumes E: "all_fe_ok E" and smp: "fe_sampler s = Some n" and key: "pic_ok s key"
    and hi: "\<forall>i \<ge> fe_ident s. live_index s i = None"
  obtains s' where "renew_index E key s = Next s'" "pools_moved s s'" "\<And>k. pic_ok s k \<Longrightarrow> pic_ok s' k"
    "map_of (sampler_pool s') = (map_of (sampler_pool s))(key \<mapsto> n)" "\<forall>i \<ge> fe_ident s'. live_index s' i = None"
proof -
  from key obtain i where i: "i < fe_ident s" "index_pool s key = Some i" "live_index s i = Some key" and nv: "nv12_pool s key \<noteq> None"
    by (auto simp: pic_ok_def)
  define s' where "s' = s\<lparr>live_index := (live_index s)(i := None, fe_ident s \<mapsto> key), index_pool := (index_pool s)(key \<mapsto> fe_ident s),
     sampler_pool := put_key key n (sampler_pool s), fe_clock := Suc (fe_clock s), fe_ident := Suc (fe_ident s)\<rparr>"
  have "renew_index E key s = Next s'"
    using smp i nv by (simp add: renew_index_def gpu_simps make_index_def fcalls_ok [OF E] tick_def s'_def)
  moreover have "pools_moved s s'" unfolding pools_moved_def s'_def by simp
  moreover have "pic_ok s' k" if k: "pic_ok s k" for k
  proof (cases "k = key")
    case True
    then show ?thesis using nv by (simp add: pic_ok_def s'_def)
  next
    case False
    from k obtain j where j: "j < fe_ident s" "index_pool s k = Some j" "live_index s j = Some k" and "nv12_pool s k \<noteq> None"
      by (auto simp: pic_ok_def)
    moreover have "j \<noteq> i" using j(3) i(3) False by auto
    ultimately show ?thesis using False by (auto simp: pic_ok_def s'_def)
  qed
  moreover have "map_of (sampler_pool s') = (map_of (sampler_pool s))(key \<mapsto> n)" by (simp add: s'_def map_of_put_key)
  moreover have "\<forall>i \<ge> fe_ident s'. live_index s' i = None" using hi by (simp add: s'_def)
  ultimately show thesis by (rule that)
qed

lemma renew_all:
  assumes E: "all_fe_ok E"
  shows "fe_sampler s = Some n \<Longrightarrow> \<forall>k \<in> set ks. pic_ok s k \<Longrightarrow> \<forall>i \<ge> fe_ident s. live_index s i = None \<Longrightarrow>
    \<exists>s'. run (map (renew_index E) ks) s = Next s' \<and> pools_moved s s' \<and> (\<forall>k. pic_ok s k \<longrightarrow> pic_ok s' k) \<and>
      map_of (sampler_pool s') = (\<lambda>k. if k \<in> set ks then Some n else map_of (sampler_pool s) k) \<and>
      (\<forall>i \<ge> fe_ident s'. live_index s' i = None)"
proof (induction ks arbitrary: s)
  case Nil
  then show ?case using pools_moved_refl by auto
next
  case (Cons k ks)
  have "pic_ok s k" using Cons.prems(2) by simp
  from renew_one [OF E Cons.prems(1) this Cons.prems(3)] obtain s1 where
    s1: "renew_index E k s = Next s1" "pools_moved s s1" "\<And>k. pic_ok s k \<Longrightarrow> pic_ok s1 k"
      "map_of (sampler_pool s1) = (map_of (sampler_pool s))(k \<mapsto> n)" "\<forall>i \<ge> fe_ident s1. live_index s1 i = None" by blast
  have "fe_sampler s1 = fe_sampler s" using s1(2) pools_moved_simps by blast
  with Cons.prems(1) have "fe_sampler s1 = Some n" by simp
  from Cons.IH [OF this _ s1(5)] s1(3) Cons.prems(2) obtain s2 where
    s2: "run (map (renew_index E) ks) s1 = Next s2" "pools_moved s1 s2" "\<forall>k. pic_ok s1 k \<longrightarrow> pic_ok s2 k"
      "map_of (sampler_pool s2) = (\<lambda>k. if k \<in> set ks then Some n else map_of (sampler_pool s1) k)"
      "\<forall>i \<ge> fe_ident s2. live_index s2 i = None" by auto
  have "map_of (sampler_pool s2) = (\<lambda>j. if j \<in> set (k # ks) then Some n else map_of (sampler_pool s) j)"
    unfolding s2(4) s1(4) by (rule ext) simp
  then show ?case using s1 s2 pools_moved_trans [OF s1(2) s2(2)] by auto
qed

section \<open>A new template\<close>

lemma fset_consts:
  assumes "fe_kernel s k = Some (a, n)"
  shows "fset_args k i (map (\<lambda>x _. Some x) xs) s = Next (upd_fkernel k (put_fargs i xs a, n) s)"
  by (rule fset_args_ok [OF assms]) (simp add: list_all2_map1 list_all2_refl)

definition surf_farg :: "feat \<Rightarrow> fsurface \<Rightarrow> farg" where
  "surf_farg s x = ASurf x (fst (the (fe_surface s x)))"

lemma surf_farg_kernel [simp]: "surf_farg (s\<lparr>fe_kernel := K\<rparr>) = surf_farg s"
  by (rule ext) (simp add: surf_farg_def)

lemma fset_surfs:
  assumes "fe_kernel s k = Some (a, n)" "\<forall>x. fe_surface s x \<noteq> None"
  shows "fset_args k i (map surf_of xs) s = Next (upd_fkernel k (put_fargs i (map (surf_farg s) xs) a, n) s)"
proof (rule fset_args_ok [OF assms(1)])
  show "list_all2 (\<lambda>v x. \<forall>K. v (s\<lparr>fe_kernel := K\<rparr>) = Some x) (map surf_of xs) (map (surf_farg s) xs)"
    unfolding list_all2_map1 list_all2_map2
  proof (rule list.rel_refl_strong)
    fix x
    from assms(2) have "fe_surface s x \<noteq> None" by blast
    then show "\<forall>K. surf_of x (s\<lparr>fe_kernel := K\<rparr>) = Some (surf_farg s x)"
      by (auto simp: surf_of_def surf_farg_def)
  qed
qed

definition size_fargs :: "int \<Rightarrow> int \<Rightarrow> farg list" where
  "size_fargs w h = map (\<lambda>v. ANum (v mod 2 ^ 16)) [w, h, 4, cquot w 4 * 27, 27]"

definition window_fargs :: "recti \<Rightarrow> int \<Rightarrow> int \<Rightarrow> int \<Rightarrow> int \<Rightarrow> farg list" where
  "window_fargs roi rawW rawH w h = map AFloat [
     d2f (ddiv (of_int (ix roi)) (of_int rawW)), d2f (ddiv (of_int (iy roi)) (of_int rawH)),
     fdiv (fmul 1 (i2f (iw roi))) (fmul (i2f w) (i2f rawW)), fdiv (fmul 1 (i2f (ih roi))) (fmul (i2f h) (i2f rawH))]"

lemma arg_lists:
  "size_args w h = map (\<lambda>x _. Some x) (size_fargs w h)"
  "window_args roi rawW rawH w h = map (\<lambda>x _. Some x) (window_fargs roi rawW rawH w h)"
  "[\<lambda>_. Some x1, \<lambda>_. Some x2, \<lambda>_. Some x3, \<lambda>_. Some x4] = map (\<lambda>x _. Some x) [x1, x2, x3, x4]"
  "[surf_of pCmSurface2D_out, surf_of pCmSurface2D_verify] = map surf_of [pCmSurface2D_out, pCmSurface2D_verify]"
  "[surf_of pCmSurface2D_verify, surf_of pCmSurface2D_out, surf_of pCmSurface2D_normal] =
     map surf_of [pCmSurface2D_verify, pCmSurface2D_out, pCmSurface2D_normal]"
  "[surf_of pCmSurface2D_out, surf_of pCmSurface2D_normal, surf_of pCmSurface2D_newFeature] =
     map surf_of [pCmSurface2D_out, pCmSurface2D_normal, pCmSurface2D_newFeature]"
  by (simp_all add: size_args_def size_fargs_def window_args_def window_fargs_def short_arg_def [abs_def])

text \<open>The state after the sampler and the four surfaces were made.\<close>

definition surfaces_made :: "int \<Rightarrow> int \<Rightarrow> feat \<Rightarrow> feat" where
  "surfaces_made w h s = s\<lparr>fe_sampler := Some (fe_ident s),
     fe_surface := (\<lambda>x. Some (fe_ident s + (case x of pCmSurface2D_verify \<Rightarrow> 1 | pCmSurface2D_out \<Rightarrow> 2 | pCmSurface2D_normal \<Rightarrow> 3
        | pCmSurface2D_newFeature \<Rightarrow> 4), surf_width x w, surf_height x h)),
     fe_content := (\<lambda>_. None), threadswidth := w div 4, threadsheight := h div 4,
     fe_clock := fe_clock s + 5, fe_ident := fe_ident s + 5\<rparr>"

lemma make_surfaces:
  assumes E: "\<forall>n. fe_ok E n" and "0 \<le> w" "0 \<le> h"
  shows "run ([guarded (\<lambda>s. fe_sampler s \<noteq> None) [set_st (\<lambda>s. s\<lparr>fe_sampler := None\<rparr>)],
     setupAVSSampler E,
     setupOutputSurface E pCmSurface2D_verify (cquot w 4 * 4 * 32) (cquot h 4 * 9),
     setupOutputSurface E pCmSurface2D_out (cquot w 4 * 4 * 27) (cquot h 4),
     setupOutputSurface E pCmSurface2D_normal (cquot w 4 * 4) (cquot h 4),
     setupOutputSurface E pCmSurface2D_newFeature ((cquot w 4 - 2) * 4 * 31) (cquot h 4 - 2),
     set_st (\<lambda>s. s\<lparr>threadswidth := cquot w 4, threadsheight := cquot h 4\<rparr>)] @ fs) s = run fs (surfaces_made w h s)"
proof -
  have q: "cquot w 4 = w div 4" "cquot h 4 = h div 4" using assms by (simp_all add: cquot_nonneg)
  let ?f = "\<lambda>s. s\<lparr>fe_sampler := Some (fe_ident s), fe_ident := Suc (fe_ident s)\<rparr>"
  let ?t = "\<lambda>s. new_fsurface pCmSurface2D_newFeature ((w div 4 - 2) * 4 * 31) (h div 4 - 2) (tick
     (new_fsurface pCmSurface2D_normal (w div 4 * 4) (h div 4) (tick (new_fsurface pCmSurface2D_out (w div 4 * 4 * 27) (h div 4) (tick
     (new_fsurface pCmSurface2D_verify (w div 4 * 4 * 32) (h div 4 * 9) (tick s)))))))"
  have ext4: "f = g" if "f pCmSurface2D_verify = g pCmSurface2D_verify" "f pCmSurface2D_out = g pCmSurface2D_out"
    "f pCmSurface2D_normal = g pCmSurface2D_normal" "f pCmSurface2D_newFeature = g pCmSurface2D_newFeature" for f g :: "fsurface \<Rightarrow> 'a"
    using that by (intro ext) (metis fsurface.exhaust)
  have eq: "(?t (?f (tick s)))\<lparr>threadswidth := w div 4, threadsheight := h div 4\<rparr> = surfaces_made w h s" for s
  proof -
    have c: "(fe_content s)(pCmSurface2D_verify := None, pCmSurface2D_out := None, pCmSurface2D_normal := None, pCmSurface2D_newFeature := None) = (\<lambda>_. None)"
      by (rule ext4) simp_all
    have "(fe_surface s)(pCmSurface2D_verify \<mapsto> (a, p), pCmSurface2D_out \<mapsto> (b, q), pCmSurface2D_normal \<mapsto> (c', r), pCmSurface2D_newFeature \<mapsto> (d, t)) =
      (\<lambda>x. case x of pCmSurface2D_verify \<Rightarrow> Some (a, p) | pCmSurface2D_out \<Rightarrow> Some (b, q) | pCmSurface2D_normal \<Rightarrow> Some (c', r)
         | pCmSurface2D_newFeature \<Rightarrow> Some (d, t))" for a b c' d and p q r t :: "int \<times> int"
      by (rule ext4) simp_all
    then show ?thesis using c
      by (simp add: new_fsurface_def tick_def surfaces_made_def) (rule feat.equality; simp; rule ext4; simp add: surf_width_def surf_height_def)
  qed
  show ?thesis
  proof (cases "fe_sampler s = None")
    case True
    then show ?thesis using eq [of s]
      by (simp add: gpu_simps setupAVSSampler_def fcalls_raw [OF E] setup_surface_ok [OF E] q)
  next
    case False
    have "surfaces_made w h (s\<lparr>fe_sampler := None\<rparr>) = surfaces_made w h s" by (simp add: surfaces_made_def)
    then show ?thesis using False eq [of "s\<lparr>fe_sampler := None\<rparr>"]
      by (simp add: gpu_simps setupAVSSampler_def fcalls_raw [OF E] setup_surface_ok [OF E] q)
  qed
qed


lemma set_kernels:
  assumes k: "fe_kernel s featureKernel = Some (a1, n1)" "fe_kernel s processKernel = Some (a2, n2)"
      "fe_kernel s normalizePCAKernel = Some (a3, n3)"
    and sf: "\<forall>x. fe_surface s x \<noteq> None"
  shows "run [FSetThreadCount featureKernel n, FSetThreadCount processKernel n, FSetThreadCount normalizePCAKernel n,
     fset_args featureKernel 0 (size_args w h),
     fset_args featureKernel 5 [\<lambda>_. Some xa, \<lambda>_. Some xb, \<lambda>_. Some xc, \<lambda>_. Some xd],
     fset_args featureKernel 9 (window_args roi rawW rawH w h),
     fset_args featureKernel 15 [surf_of pCmSurface2D_out, surf_of pCmSurface2D_verify],
     fset_args processKernel 0 (size_args w h),
     fset_args processKernel 5 [surf_of pCmSurface2D_verify, surf_of pCmSurface2D_out, surf_of pCmSurface2D_normal],
     fset_args normalizePCAKernel 0 (size_args w h),
     fset_args normalizePCAKernel 5 [surf_of pCmSurface2D_out, surf_of pCmSurface2D_normal, surf_of pCmSurface2D_newFeature]] s =
   Next (s\<lparr>fe_kernel := (fe_kernel s)(
     featureKernel \<mapsto> (put_fargs 15 (map (surf_farg s) [pCmSurface2D_out, pCmSurface2D_verify])
       (put_fargs 9 (window_fargs roi rawW rawH w h) (put_fargs 5 [xa, xb, xc, xd] (put_fargs 0 (size_fargs w h) a1))), n),
     processKernel \<mapsto> (put_fargs 5 (map (surf_farg s) [pCmSurface2D_verify, pCmSurface2D_out, pCmSurface2D_normal])
       (put_fargs 0 (size_fargs w h) a2), n),
     normalizePCAKernel \<mapsto> (put_fargs 5 (map (surf_farg s) [pCmSurface2D_out, pCmSurface2D_normal, pCmSurface2D_newFeature])
       (put_fargs 0 (size_fargs w h) a3), n))\<rparr>)"
  unfolding arg_lists using sf
  by (simp add: set_count_ok k upd_fkernel_def fset_consts fset_surfs fun_upd_twist del: put_fargs.simps list.map fset_args.simps not_None_eq)

lemma counts:
  "[0..<8] = [0, 1, 2, 3, 4, 5, 6, 7 :: nat]" "[0..<9] = [0, 1, 2, 3, 4, 5, 6, 7, 8 :: nat]" "[15..<17] = [15, 16 :: nat]"
  "[0..<17] = [0..<9] @ [9, 10, 11, 12, 13, 14] @ [15..<17 :: nat]"
  by (simp_all add: upt_rec)

text \<open>What \<^verbatim>\<open>refreshKernels\<close> has done when it reaches its end.\<close>

lemma refresh_run:
  assumes E: "\<forall>n. fe_ok E n" and wh: "0 \<le> w" "0 \<le> h" and k: "\<forall>k. fe_kernel s k \<noteq> None"
  obtains K where "refreshKernels E rawW rawH roi w h s = fe_off_end E ((surfaces_made w h s)\<lparr>fe_kernel := K\<rparr>)"
    "kernel_vals ((surfaces_made w h s)\<lparr>fe_kernel := K\<rparr>) featureKernel [0..<9] (static_vals E w h)"
    "kernel_vals ((surfaces_made w h s)\<lparr>fe_kernel := K\<rparr>) featureKernel [15..<17] [FVSurf pCmSurface2D_out, FVSurf pCmSurface2D_verify]"
    "kernel_vals ((surfaces_made w h s)\<lparr>fe_kernel := K\<rparr>) processKernel [0..<8] (process_vals w h)"
    "kernel_vals ((surfaces_made w h s)\<lparr>fe_kernel := K\<rparr>) normalizePCAKernel [0..<8] (pca_vals w h)"
proof -
  obtain a1 n1 a2 n2 a3 n3 where ks: "fe_kernel s featureKernel = Some (a1, n1)" "fe_kernel s processKernel = Some (a2, n2)"
    "fe_kernel s normalizePCAKernel = Some (a3, n3)" using k by (metis not_None_eq surj_pair)
  let ?m = "surfaces_made w h s"
  have ks': "fe_kernel ?m featureKernel = Some (a1, n1)" "fe_kernel ?m processKernel = Some (a2, n2)"
    "fe_kernel ?m normalizePCAKernel = Some (a3, n3)" using ks by (simp_all add: surfaces_made_def)
  have sf: "\<forall>x. fe_surface ?m x \<noteq> None" by (simp add: surfaces_made_def)
  obtain K where K: "K = (fe_kernel ?m)(
     featureKernel \<mapsto> (put_fargs 15 (map (surf_farg ?m) [pCmSurface2D_out, pCmSurface2D_verify])
       (put_fargs 9 (window_fargs roi rawW rawH w h) (put_fargs 5 [AInts nearest_cells, AFloats cell_weights,
         AFloats (boundary E (cos_f E)), AFloats (boundary E (sin_f E))] (put_fargs 0 (size_fargs w h) a1))), cquot w 4 * cquot h 4),
     processKernel \<mapsto> (put_fargs 5 (map (surf_farg ?m) [pCmSurface2D_verify, pCmSurface2D_out, pCmSurface2D_normal])
       (put_fargs 0 (size_fargs w h) a2), cquot w 4 * cquot h 4),
     normalizePCAKernel \<mapsto> (put_fargs 5 (map (surf_farg ?m) [pCmSurface2D_out, pCmSurface2D_normal, pCmSurface2D_newFeature])
       (put_fargs 0 (size_fargs w h) a3), cquot w 4 * cquot h 4))" by simp
  define fs where "fs = [FSetThreadCount featureKernel (cquot w 4 * cquot h 4),
     FSetThreadCount processKernel (cquot w 4 * cquot h 4),
     FSetThreadCount normalizePCAKernel (cquot w 4 * cquot h 4),
     fset_args featureKernel 0 (size_args w h),
     fset_args featureKernel 5 [\<lambda>_. Some (AInts nearest_cells), \<lambda>_. Some (AFloats cell_weights),
       \<lambda>_. Some (AFloats (boundary E (cos_f E))), \<lambda>_. Some (AFloats (boundary E (sin_f E)))],
     fset_args featureKernel 9 (window_args roi rawW rawH w h),
     fset_args featureKernel 15 [surf_of pCmSurface2D_out, surf_of pCmSurface2D_verify],
     fset_args processKernel 0 (size_args w h),
     fset_args processKernel 5 [surf_of pCmSurface2D_verify, surf_of pCmSurface2D_out, surf_of pCmSurface2D_normal],
     fset_args normalizePCAKernel 0 (size_args w h),
     fset_args normalizePCAKernel 5 [surf_of pCmSurface2D_out, surf_of pCmSurface2D_normal, surf_of pCmSurface2D_newFeature]]"
  have "run fs ?m = Next (?m\<lparr>fe_kernel := K\<rparr>)"
    unfolding fs_def K by (rule set_kernels [OF ks' sf])
  then have "run (fs @ [fe_off_end E]) ?m = fe_off_end E (?m\<lparr>fe_kernel := K\<rparr>)"
    unfolding run_append by (simp split: outcome.splits)
  then have run: "refreshKernels E rawW rawH roi w h s = fe_off_end E (?m\<lparr>fe_kernel := K\<rparr>)"
    using make_surfaces [OF E wh, where fs = "fs @ [fe_off_end E]" and s = s] unfolding refreshKernels_def fs_def by (simp only: append.simps)
  let ?s = "?m\<lparr>fe_kernel := K\<rparr>"
  note Ks = fun_cong [OF K, of featureKernel] fun_cong [OF K, of processKernel] fun_cong [OF K, of normalizePCAKernel]
  have q: "cquot w 4 = w div 4" using wh by (simp add: cquot_nonneg)
  have sv: "farg_val ?s a i = Some (FVSurf x)" if "a i = Some (surf_farg ?m x)" for a i x
    using that by (simp add: farg_val_def surf_farg_def surfaces_made_def)
  have v: "farg_val ?s a i = Some (FVNum z)" if "a i = Some (ANum z)" for a i z using that by (simp add: farg_val_def)
  have c: "farg_val ?s a i = Some (FVInts z)" if "a i = Some (AInts z)" for a i z using that by (simp add: farg_val_def)
  have d: "farg_val ?s a i = Some (FVFloats z)" if "a i = Some (AFloats z)" for a i z using that by (simp add: farg_val_def)
  have "kernel_vals ?s featureKernel [0..<9] (static_vals E w h)"
    "kernel_vals ?s featureKernel [15..<17] [FVSurf pCmSurface2D_out, FVSurf pCmSurface2D_verify]"
    "kernel_vals ?s processKernel [0..<8] (process_vals w h)" "kernel_vals ?s normalizePCAKernel [0..<8] (pca_vals w h)"
    unfolding kernel_vals_def static_vals_def process_vals_def pca_vals_def size_vals_def counts
    by (simp_all add: Ks put_fargs_nth size_fargs_def window_fargs_def sv v c d q del: put_fargs.simps)
  then show thesis using that [OF run] by blast
qed

lemma refresh_ok:
  assumes E: "all_fe_ok E" and wh: "0 \<le> w" "0 \<le> h" and k: "\<forall>k. fe_kernel s k \<noteq> None"
  obtains K where "refreshKernels E rawW rawH roi w h s = Next ((surfaces_made w h s)\<lparr>fe_kernel := K\<rparr>)"
    "kernel_vals ((surfaces_made w h s)\<lparr>fe_kernel := K\<rparr>) featureKernel [0..<9] (static_vals E w h)"
    "kernel_vals ((surfaces_made w h s)\<lparr>fe_kernel := K\<rparr>) featureKernel [15..<17] [FVSurf pCmSurface2D_out, FVSurf pCmSurface2D_verify]"
    "kernel_vals ((surfaces_made w h s)\<lparr>fe_kernel := K\<rparr>) processKernel [0..<8] (process_vals w h)"
    "kernel_vals ((surfaces_made w h s)\<lparr>fe_kernel := K\<rparr>) normalizePCAKernel [0..<8] (pca_vals w h)"
proof -
  have c: "\<forall>n. fe_ok E n" "fe_off_end E t = Next t" for t using E by (simp_all add: all_fe_ok_def fe_off_end_def)
  show thesis by (rule refresh_run [OF c(1) wh k]) (rule that, simp_all only: c(2))
qed

lemma mapm_weaken:
  assumes "mapm f is = Some vs" "\<And>i v. i \<in> set is \<Longrightarrow> v \<in> set vs \<Longrightarrow> f i = Some v \<Longrightarrow> g i = Some v"
  shows "mapm g is = Some vs"
  using assms
proof (induction "is" arbitrary: vs)
  case (Cons i "is")
  from Cons.prems(1) obtain y ys where y: "f i = Some y" "mapm f is = Some ys" "vs = y # ys" by (auto split: bind_splits)
  have "mapm g is = Some ys" by (rule Cons.IH [OF y(2)]) (use Cons.prems(2) y in simp)
  moreover have "g i = Some y" using Cons.prems(2) y by simp
  ultimately show ?case by (simp add: y)
qed simp

text \<open>Argument values other than the picture depend on the surfaces and the sampler alone.\<close>

lemma kernel_vals_cong:
  assumes "kernel_vals s k is vs" "fe_kernel s' = fe_kernel s" "fe_surface s' = fe_surface s" "fe_sampler s' = fe_sampler s"
    "\<forall>p. FVPicture p \<notin> set vs"
  shows "kernel_vals s' k is vs"
proof -
  from assms(1) obtain a n where a: "fe_kernel s k = Some (a, n)" "mapm (farg_val s a) is = Some vs" by (auto simp: kernel_vals_def)
  have "mapm (farg_val s' a) is = Some vs"
  proof (rule mapm_weaken [OF a(2)])
    fix i v assume "v \<in> set vs" "farg_val s a i = Some v"
    then show "farg_val s' a i = Some v" using assms(3-5) by (auto simp: farg_val_def split: option.splits farg.splits)
  qed
  then show ?thesis using a(1) assms(2) by (simp add: kernel_vals_def)
qed

lemma no_picture:
  "FVPicture p \<notin> set (static_vals E w h)" "FVPicture p \<notin> set (process_vals w h)" "FVPicture p \<notin> set (pca_vals w h)"
  by (auto simp: static_vals_def process_vals_def pca_vals_def size_vals_def)

lemma sized_cong:
  assumes "sized E tw th s" "fe_kernel s' = fe_kernel s" "fe_surface s' = fe_surface s" "fe_sampler s' = fe_sampler s"
    "templateWidth s' = templateWidth s" "templateHeight s' = templateHeight s" "fe_program s' = fe_program s"
    "SVMFeaturemap s' = SVMFeaturemap s"
    "\<And>key v n. map_of (sampler_pool s') key = Some v \<Longrightarrow> fe_sampler s = Some n \<Longrightarrow> v = n \<or> map_of (sampler_pool s) key = Some v"
  shows "sized E tw th s'"
proof -
  have k: "kernel_vals s' featureKernel [0..<9] (static_vals E tw th)"
    "kernel_vals s' featureKernel [15..<17] [FVSurf pCmSurface2D_out, FVSurf pCmSurface2D_verify]"
    "kernel_vals s' processKernel [0..<8] (process_vals tw th)" "kernel_vals s' normalizePCAKernel [0..<8] (pca_vals tw th)"
    using assms(1) by (auto simp: sized_def no_picture intro!: kernel_vals_cong [OF _ assms(2-4)])
  from assms(1) obtain n where n: "fe_sampler s = Some n" "\<forall>key v. map_of (sampler_pool s) key = Some v \<longrightarrow> v = n"
    by (auto simp: sized_def)
  have "\<forall>key v. map_of (sampler_pool s') key = Some v \<longrightarrow> v = n" using assms(9) n by blast
  then show ?thesis using assms(1) k n(1) unfolding sized_def assms(3-8) by blast
qed

definition good_size :: "int \<Rightarrow> int \<Rightarrow> bool" where
  "good_size tw th \<longleftrightarrow> 12 \<le> tw \<and> tw \<le> 2 ^ 12 \<and> 12 \<le> th \<and> th \<le> 2 ^ 12"

lemma map_size_ok:
  assumes "good_size tw th"
  shows "0 < tw div 4 - 2" "0 < th div 4 - 2" "(tw div 4 - 2) * (th div 4 - 2) * 31 < 2 ^ 25"
    "int_ok ((tw div 4 - 2) * (th div 4 - 2))" "int_ok ((tw div 4 - 2) * (th div 4 - 2) * 31)"
proof -
  have "12 \<le> tw" "tw \<le> 4096" "12 \<le> th" "th \<le> 4096" using assms by (simp_all add: good_size_def)
  then have b: "tw div 4 \<le> 1024" "th div 4 \<le> 1024" and lo: "0 < tw div 4 - 2" "0 < th div 4 - 2" by linarith+
  then show "0 < tw div 4 - 2" "0 < th div 4 - 2" by simp_all
  have "(tw div 4 - 2) * (th div 4 - 2) \<le> 1022 * 1022" using b lo by (intro mult_mono) simp_all
  moreover have "0 \<le> (tw div 4 - 2) * (th div 4 - 2)" using lo by simp
  ultimately show "(tw div 4 - 2) * (th div 4 - 2) * 31 < 2 ^ 25" "int_ok ((tw div 4 - 2) * (th div 4 - 2))"
    "int_ok ((tw div 4 - 2) * (th div 4 - 2) * 31)" by (simp_all add: int_ok_def)
qed

definition with_template :: "recti \<Rightarrow> int \<Rightarrow> int \<Rightarrow> feat \<Rightarrow> feat" where
  "with_template roi tw th s = s\<lparr>templateWidth := tw, templateHeight := th, previous_roi := roi,
     SVMFeaturemap := Some \<lparr>fm_sizeX = tw div 4 - 2, fm_sizeY = th div 4 - 2, fm_num = 31,
       fm_data = replicate (nat ((tw div 4 - 2) * (th div 4 - 2) * 31)) 0\<rparr>, fe_clock := fe_clock s + 2\<rparr>"

lemma new_template_ok:
  assumes E: "all_fe_ok E" and p: "pools_ok s" "fe_program s" "\<forall>k. fe_kernel s k \<noteq> None" and g: "good_size tw th"
    and new: "tw \<noteq> templateWidth s \<or> th \<noteq> templateHeight s"
  obtains s' where "new_template E roi rawW rawH tw th s = Next s'" "sized E tw th s'" "pools_ok s'" "fe_content s' = (\<lambda>_. None)"
proof -
  define s1 where "s1 = with_template roi tw th s"
  note sz = map_size_ok [OF g]
  have q: "cquot tw 4 = tw div 4" "cquot th 4 = th div 4" using g by (simp_all add: good_size_def cquot_nonneg)
  have wh: "0 \<le> tw" "0 \<le> th" using g by (simp_all add: good_size_def)
  have k1: "\<forall>k. fe_kernel s1 k \<noteq> None" using p(3) by (simp add: s1_def with_template_def)
  from refresh_ok [OF E wh k1, where roi = roi and rawW = rawW and rawH = rawH] obtain K where
    r: "refreshKernels E rawW rawH roi tw th s1 = Next ((surfaces_made tw th s1)\<lparr>fe_kernel := K\<rparr>)"
    and kv: "kernel_vals ((surfaces_made tw th s1)\<lparr>fe_kernel := K\<rparr>) featureKernel [0..<9] (static_vals E tw th)"
    "kernel_vals ((surfaces_made tw th s1)\<lparr>fe_kernel := K\<rparr>) featureKernel [15..<17] [FVSurf pCmSurface2D_out, FVSurf pCmSurface2D_verify]"
    "kernel_vals ((surfaces_made tw th s1)\<lparr>fe_kernel := K\<rparr>) processKernel [0..<8] (process_vals tw th)"
    "kernel_vals ((surfaces_made tw th s1)\<lparr>fe_kernel := K\<rparr>) normalizePCAKernel [0..<8] (pca_vals tw th)" by blast
  define s2 where "s2 = (surfaces_made tw th s1)\<lparr>fe_kernel := K\<rparr>"
  have f2: "nv12_pool s2 = nv12_pool s" "index_pool s2 = index_pool s" "live_index s2 = live_index s" "sampler_pool s2 = sampler_pool s"
    "fe_ident s2 = fe_ident s + 5" "fe_sampler s2 = Some (fe_ident s)" "fe_task s2 = fe_task s" "fe_space s2 = fe_space s"
    "fe_event s2 = fe_event s" "fe_lost s2 = fe_lost s" "fe_content s2 = (\<lambda>_. None)" "templateWidth s2 = tw" "templateHeight s2 = th"
    "fe_program s2" "\<And>x. \<exists>n. fe_surface s2 x = Some (n, surf_width x tw, surf_height x th)" "SVMFeaturemap s2 = SVMFeaturemap s1"
    using p(2) by (simp_all add: s2_def s1_def surfaces_made_def with_template_def)
  have pic: "pic_ok s2 key" if "pic_ok s key" for key using that by (auto simp: pic_ok_def f2)
  let ?ks = "rev (map fst (sampler_pool s2))"
  have "\<forall>k \<in> set ?ks. pic_ok s2 k"
    using p(1) pic unfolding f2 pools_ok_def by (auto simp: dom_map_of_conv_image_fst)
  moreover have "\<forall>i \<ge> fe_ident s2. live_index s2 i = None" using p(1) by (simp add: pools_ok_def f2)
  ultimately obtain s3 where s3: "run (map (renew_index E) ?ks) s2 = Next s3" "pools_moved s2 s3" "\<forall>k. pic_ok s2 k \<longrightarrow> pic_ok s3 k"
    "map_of (sampler_pool s3) = (\<lambda>k. if k \<in> set ?ks then Some (fe_ident s) else map_of (sampler_pool s2) k)"
    "\<forall>i \<ge> fe_ident s3. live_index s3 i = None" using renew_all [OF E f2(6)] by blast
  have m3: "map_of (sampler_pool s3) key = (if key \<in> dom (map_of (sampler_pool s)) then Some (fe_ident s) else None)" for key
    unfolding s3(4) f2(4) by (auto simp: dom_map_of_conv_image_fst map_of_eq_None_iff)
  note f3 = pools_moved_simps [OF s3(2)]
  have "run [set_st (\<lambda>s. s\<lparr>templateWidth := tw, templateHeight := th, previous_roi := roi\<rparr>), freeFeatureMapObject,
     allocFeatureMapObject E (cquot tw 4 - 2) (cquot th 4 - 2) (3 * 9 + 4), ignore (refreshKernels E rawW rawH roi tw th),
     (\<lambda>s. run (map (renew_index E) (rev (map fst (sampler_pool s)))) s)] s = Next s3"
  proof -
    have "allocFeatureMapObject E (cquot tw 4 - 2) (cquot th 4 - 2) (3 * 9 + 4)
        (s\<lparr>templateWidth := tw, templateHeight := th, previous_roi := roi, SVMFeaturemap := None\<rparr>) = Next s1"
      using sz by (simp add: allocFeatureMapObject_def gpu_simps fcalls_ok [OF E] q tick_def s1_def with_template_def)
    then show ?thesis using s3(1) ignore_next [where f = "refreshKernels E rawW rawH roi tw th", OF r]
      by (simp add: gpu_simps freeFeatureMapObject_def s2_def [symmetric])
  qed
  then have "new_template E roi rawW rawH tw th s = Next s3" using new by (simp add: new_template_def guarded_def)
  moreover have "pools_ok s3"
    using p(1) s3(3,5) pic unfolding pools_ok_def f3 f2 by (auto simp: dom_def m3 split: if_splits)
  moreover have "fe_content s3 = (\<lambda>_. None)" by (simp add: f3 f2)
  moreover have "sized E tw th s3"
  proof -
    have kv3: "kernel_vals s3 featureKernel [0..<9] (static_vals E tw th)"
      "kernel_vals s3 featureKernel [15..<17] [FVSurf pCmSurface2D_out, FVSurf pCmSurface2D_verify]"
      "kernel_vals s3 processKernel [0..<8] (process_vals tw th)" "kernel_vals s3 normalizePCAKernel [0..<8] (pca_vals tw th)"
      using kv by (auto simp: no_picture s2_def [symmetric] intro!: kernel_vals_cong [OF _ f3(2,3,1)])
    have "\<exists>n. fe_sampler s3 = Some n \<and> (\<forall>key v. map_of (sampler_pool s3) key = Some v \<longrightarrow> v = n)"
      using m3 by (auto simp: f3 f2 split: if_splits)
    moreover have "\<exists>m. SVMFeaturemap s3 = Some m \<and> fm_sizeX m = tw div 4 - 2 \<and> fm_sizeY m = th div 4 - 2 \<and> fm_num m = 31 \<and>
        int (length (fm_data m)) = (tw div 4 - 2) * (th div 4 - 2) * 31"
      using sz(1,2) by (simp add: f3 f2 s1_def with_template_def)
    ultimately show ?thesis unfolding sized_def f3(9,10,11,3) using f2 kv3 by blast
  qed
  ultimately show thesis by (intro that)
qed

end
