(* ===== verification/KcfFeatureRuns.thy ===== *)
theory KcfFeatureRuns
  imports KcfFeatureFacts
begin

text \<open>
  A whole call of \<^verbatim>\<open>getFeatureMaps_gpu\<close> after the template is in place: the picture gets its indices, the
  kernels run one after the other, the map is read back. With \<open>new_template_ok\<close> this makes every call
  keep the invariant, so sequences of calls refine the specification. What the missing return of
  \<^verbatim>\<open>refreshKernels\<close> means is shown before the properties; what happens when the sampler
  cannot be made is shown at the end.
\<close>

section \<open>The picture\<close>

lemma new_picture_ok:
  assumes E: "all_fe_ok E" and sz: "sized E tw th s" and p: "pools_ok s"
  obtains s' n where "new_picture E key s = Next s'" "sized E tw th s'" "pools_ok s'" "fe_content s' = fe_content s"
    "fe_sampler s' = Some n" "map_of (sampler_pool s') key = Some n" "\<forall>k. fe_kernel s k \<noteq> None \<longrightarrow> fe_kernel s' k \<noteq> None"
proof (cases "map_of (sampler_pool s) key")
  case (Some v)
  have "new_picture E key s = Next s" using Some by (simp add: new_picture_def guarded_def)
  moreover from sz Some have "fe_sampler s = Some v" unfolding sized_def by blast
  ultimately show thesis using that [of s v] sz p Some by blast
next
  case None
  from sz obtain n where n: "fe_sampler s = Some n" by (auto simp: sized_def)
  define s' where "s' = s\<lparr>nv12_pool := (nv12_pool s)(key \<mapsto> fe_ident s), live_index := (live_index s)(Suc (fe_ident s) \<mapsto> key),
     index_pool := (index_pool s)(key \<mapsto> Suc (fe_ident s)), sampler_pool := put_key key n (sampler_pool s),
     fe_clock := Suc (Suc (fe_clock s)), fe_ident := Suc (Suc (fe_ident s))\<rparr>"
  have "new_picture E key s = Next s'"
    using None n by (simp add: new_picture_def make_index_def gpu_simps fcalls_ok [OF E] tick_def s'_def)
  moreover have "sized E tw th s'"
    by (rule sized_cong [OF sz]) (auto simp: s'_def map_of_put_key n split: if_splits)
  moreover have "pools_ok s'"
  proof -
    have "pic_ok s' k" if "k \<in> dom (map_of (sampler_pool s'))" for k
    proof (cases "k = key")
      case False
      with that p have "pic_ok s k" by (auto simp: s'_def map_of_put_key pools_ok_def)
      then obtain i where "nv12_pool s k \<noteq> None" "i < fe_ident s" "index_pool s k = Some i" "live_index s i = Some k"
        by (auto simp: pic_ok_def)
      then show ?thesis using False by (auto simp: pic_ok_def s'_def)
    qed (simp add: pic_ok_def s'_def)
    then show ?thesis using p by (simp add: pools_ok_def s'_def)
  qed
  ultimately show thesis using that [of s' n] n by (simp add: s'_def map_of_put_key)
qed

section \<open>The kernels\<close>

lemma mapm_append: "mapm f (xs @ ys) = do { us \<leftarrow> mapm f xs; vs \<leftarrow> mapm f ys; Some (us @ vs) }"
  by (induction xs) (auto simp: bind_assoc split: bind_splits)

lemma farg_val_same:
  assumes "fe_surface s' = fe_surface s" "fe_sampler s' = fe_sampler s" "live_index s' = live_index s"
  shows "farg_val s' = farg_val s"
  by (intro ext) (simp only: farg_val_def assms)

lemma kernel_vals_same:
  assumes "kernel_vals s k is vs" "fe_kernel s' = fe_kernel s" "fe_surface s' = fe_surface s" "fe_sampler s' = fe_sampler s"
    "live_index s' = live_index s"
  shows "kernel_vals s' k is vs"
proof -
  have "farg_val s' = farg_val s" by (rule farg_val_same [OF assms(3-5)])
  then show ?thesis using assms(1,2) by (simp add: kernel_vals_def)
qed

lemma exec_fkernel_vals:
  "kernel_vals s k [0..<farity k] vs \<Longrightarrow> exec_fkernel E k s = Some (s\<lparr>fe_content := after_kernel E k vs (fe_content s)\<rparr>)"
  by (auto simp: kernel_vals_def exec_fkernel_def)

lemma exec_full_task:
  assumes "kernel_vals s featureKernel [0..<17] (feature_vals E key roi rawW rawH tw th)"
    "kernel_vals s processKernel [0..<8] (process_vals tw th)" "kernel_vals s normalizePCAKernel [0..<8] (pca_vals tw th)"
  shows "exec_ftask E full_task s = Some (s\<lparr>fe_content := hog_maps E key roi rawW rawH tw th (fe_content s)\<rparr>)"
proof -
  have ar: "farity featureKernel = 17" "farity processKernel = 8" "farity normalizePCAKernel = 8" by (simp_all add: farity_def)
  let ?c = "after_kernel E featureKernel (feature_vals E key roi rawW rawH tw th) (fe_content s)"
  let ?d = "after_kernel E processKernel (process_vals tw th) ?c"
  have "exec_fkernel E featureKernel s = Some (s\<lparr>fe_content := ?c\<rparr>)"
    by (rule exec_fkernel_vals) (simp only: ar assms(1))
  moreover have "exec_fkernel E processKernel (s\<lparr>fe_content := ?c\<rparr>) = Some (s\<lparr>fe_content := ?d\<rparr>)"
  proof -
    have "kernel_vals (s\<lparr>fe_content := ?c\<rparr>) processKernel [0..<farity processKernel] (process_vals tw th)"
      unfolding ar by (rule kernel_vals_same [OF assms(2)]) simp_all
    from exec_fkernel_vals [OF this, of E] show ?thesis by simp
  qed
  moreover have "exec_fkernel E normalizePCAKernel (s\<lparr>fe_content := ?d\<rparr>) = Some (s\<lparr>fe_content := hog_maps E key roi rawW rawH tw th (fe_content s)\<rparr>)"
  proof -
    have "kernel_vals (s\<lparr>fe_content := ?d\<rparr>) normalizePCAKernel [0..<farity normalizePCAKernel] (pca_vals tw th)"
      unfolding ar by (rule kernel_vals_same [OF assms(3)]) simp_all
    from exec_fkernel_vals [OF this, of E] show ?thesis by (simp add: hog_maps_def)
  qed
  ultimately show ?thesis by (simp add: full_task_def)
qed

text \<open>Setting the arguments of the request leaves the other values of the first kernel alone.\<close>

definition request_args :: "recti \<Rightarrow> int \<Rightarrow> int \<Rightarrow> int \<Rightarrow> int \<Rightarrow> nat \<Rightarrow> nat \<Rightarrow> (nat \<Rightarrow> farg option) \<Rightarrow> nat \<Rightarrow> farg option" where
  "request_args roi rawW rawH tw th i n a = put_fargs 13 [APicture i, ASampler n] (put_fargs 9 (window_fargs roi rawW rawH tw th) a)"

lemma request_args_other: "j \<notin> {9..<15} \<Longrightarrow> request_args roi rawW rawH tw th i n a j = a j"
  by (auto simp: request_args_def put_fargs_nth window_fargs_def simp del: put_fargs.simps)

lemma mapm_farg_cong: "(\<And>i. i \<in> set is \<Longrightarrow> a i = b i) \<Longrightarrow> mapm (farg_val s a) is = mapm (farg_val s b) is"
  by (induction "is") (simp_all add: farg_val_def)

lemma request_vals:
  fixes roi rawW rawH
  assumes sz: "sized E tw th s" and k: "fe_kernel s featureKernel = Some (a, c)"
    and smp: "fe_sampler s = Some n" and live: "live_index s i = Some key"
  defines "s' \<equiv> upd_fkernel featureKernel (request_args roi rawW rawH tw th i n a, c) s"
  shows "kernel_vals s' featureKernel [0..<17] (feature_vals E key roi rawW rawH tw th)" "sized E tw th s'"
proof -
  let ?b = "request_args roi rawW rawH tw th i n a"
  have fv: "farg_val s' = farg_val s" by (rule farg_val_same) (simp_all add: s'_def upd_fkernel_def)
  have k': "fe_kernel s' featureKernel = Some (?b, c)" by (simp add: s'_def upd_fkernel_def)
  from sz k have a: "mapm (farg_val s a) [0..<9] = Some (static_vals E tw th)"
    "mapm (farg_val s a) [15..<17] = Some [FVSurf pCmSurface2D_out, FVSurf pCmSurface2D_verify]"
    by (simp_all add: sized_def kernel_vals_def del: upt_Suc)
  have b: "mapm (farg_val s ?b) [0..<9] = Some (static_vals E tw th)"
    "mapm (farg_val s ?b) [15..<17] = Some [FVSurf pCmSurface2D_out, FVSurf pCmSurface2D_verify]"
    using a mapm_farg_cong [where b = ?b and a = a and s = s] request_args_other by (metis atLeastLessThan_iff atLeastLessThan_upt not_less)+
  have m: "mapm (farg_val s ?b) [9, 10, 11, 12, 13, 14] = Some (window_vals roi rawW rawH tw th @ [FVPicture key, FVSampler])"
    by (simp add: request_args_def window_fargs_def window_vals_def farg_val_def smp live)
  have "mapm (farg_val s ?b) [0..<17] = Some (feature_vals E key roi rawW rawH tw th)"
    unfolding counts(4) mapm_append b m by (simp add: feature_vals_def)
  then show "kernel_vals s' featureKernel [0..<17] (feature_vals E key roi rawW rawH tw th)"
    unfolding kernel_vals_def fv k' by blast
  have kv: "kernel_vals s' featureKernel [0..<9] (static_vals E tw th)"
    "kernel_vals s' featureKernel [15..<17] [FVSurf pCmSurface2D_out, FVSurf pCmSurface2D_verify]"
    unfolding kernel_vals_def fv k' using b by blast+
  have "fe_kernel s' processKernel = fe_kernel s processKernel" "fe_kernel s' normalizePCAKernel = fe_kernel s normalizePCAKernel"
    by (simp_all add: s'_def upd_fkernel_def)
  then have kw: "kernel_vals s' processKernel [0..<8] (process_vals tw th)" "kernel_vals s' normalizePCAKernel [0..<8] (pca_vals tw th)"
    using sz unfolding kernel_vals_def fv sized_def by simp_all
  have same: "templateWidth s' = templateWidth s" "templateHeight s' = templateHeight s" "fe_program s' = fe_program s"
    "fe_surface s' = fe_surface s" "fe_sampler s' = fe_sampler s" "sampler_pool s' = sampler_pool s" "SVMFeaturemap s' = SVMFeaturemap s"
    by (simp_all add: s'_def upd_fkernel_def)
  show "sized E tw th s'" using sz kv kw unfolding sized_def same by blast
qed

lemma set_request_args:
  assumes k: "fe_kernel s featureKernel = Some (a, c)" and i: "index_pool s key = Some i" and n: "map_of (sampler_pool s) key = Some n"
  shows "run ([fset_args featureKernel 9 (window_args roi rawW rawH tw th),
     fset_args featureKernel 13 [\<lambda>s. map_option APicture (index_pool s key), \<lambda>s. map_option ASampler (map_of (sampler_pool s) key)]] @ fs) s =
     run fs (upd_fkernel featureKernel (request_args roi rawW rawH tw th i n a, c) s)"
proof -
  let ?s = "upd_fkernel featureKernel (put_fargs 9 (window_fargs roi rawW rawH tw th) a, c) s"
  have 1: "fset_args featureKernel 9 (window_args roi rawW rawH tw th) s = Next ?s"
    unfolding arg_lists by (rule fset_consts [OF k])
  have k1: "fe_kernel ?s featureKernel = Some (put_fargs 9 (window_fargs roi rawW rawH tw th) a, c)" by (simp add: upd_fkernel_def)
  have "fset_args featureKernel 13 [\<lambda>s. map_option APicture (index_pool s key), \<lambda>s. map_option ASampler (map_of (sampler_pool s) key)] ?s =
     Next (upd_fkernel featureKernel (put_fargs 13 [APicture i, ASampler n] (put_fargs 9 (window_fargs roi rawW rawH tw th) a), c) ?s)"
    by (rule fset_args_ok [OF k1]) (simp add: upd_fkernel_def i n)
  then show ?thesis using 1 by (simp add: gpu_simps request_args_def upd_fkernel_def del: fset_args.simps put_fargs.simps)
qed

lemma feature_task_ok:
  assumes E: "all_fe_ok E" and t: "fe_task s = None \<or> fe_task s = Some full_task"
  obtains n where "feature_task E s = Next (s\<lparr>fe_task := Some full_task, fe_clock := n\<rparr>)"
proof (cases "fe_task s")
  case None
  then have "feature_task E s = Next (s\<lparr>fe_task := Some full_task, fe_clock := fe_clock s + 6\<rparr>)"
    by (simp add: feature_task_def gpu_simps add_fentry_def fcalls_ok [OF E] tick_def full_task_def)
  then show thesis by (rule that)
next
  case (Some es)
  with t have "s = s\<lparr>fe_task := Some full_task, fe_clock := fe_clock s\<rparr>" by simp
  moreover have "feature_task E s = Next s" using Some by (simp add: feature_task_def gpu_simps)
  ultimately show thesis using that by metis
qed

text \<open>The map that a reader of the last surface gets.\<close>

definition map_read :: "int \<Rightarrow> int \<Rightarrow> contents \<Rightarrow> feature_map" where
  "map_read tw th c = \<lparr>fm_sizeX = tw div 4 - 2, fm_sizeY = th div 4 - 2, fm_num = 31,
     fm_data = map (the (c pCmSurface2D_newFeature)) [0..<nat ((tw div 4 - 2) * (th div 4 - 2) * 31)]\<rparr>"

lemma read_features_ok:
  assumes E: "all_fe_ok E" and sz: "sized E tw th s" and g: "good_size tw th" and c: "fe_content s pCmSurface2D_newFeature \<noteq> None"
  shows "read_features E s = Next (s\<lparr>SVMFeaturemap := Some (map_read tw th (fe_content s)), fe_clock := Suc (fe_clock s)\<rparr>)"
proof -
  from c obtain d where d: "fe_content s pCmSurface2D_newFeature = Some d" by blast
  from sz have "\<exists>n. fe_surface s pCmSurface2D_newFeature =
      Some (n, surf_width pCmSurface2D_newFeature tw, surf_height pCmSurface2D_newFeature th)" unfolding sized_def by blast
  then obtain n where n: "fe_surface s pCmSurface2D_newFeature = Some (n, (tw div 4 - 2) * 4 * 31, th div 4 - 2)"
    by (auto simp: surf_width_def surf_height_def)
  from sz obtain m where m: "SVMFeaturemap s = Some m" "fm_sizeX m = tw div 4 - 2" "fm_sizeY m = th div 4 - 2" "fm_num m = 31"
      "int (length (fm_data m)) = (tw div 4 - 2) * (th div 4 - 2) * 31" by (auto simp: sized_def)
  let ?n = "nat ((tw div 4 - 2) * (th div 4 - 2) * 31)"
  have l: "length (fm_data m) = ?n" using m(5) by linarith
  have "(tw div 4 - 2) * 4 * 31 * (th div 4 - 2) = 4 * ((tw div 4 - 2) * (th div 4 - 2) * 31)" by (simp add: algebra_simps)
  moreover have "nat (4 * x) div 4 = nat x" for x by (simp add: nat_mult_distrib)
  ultimately have b: "nat ((tw div 4 - 2) * 4 * 31 * (th div 4 - 2)) div 4 = ?n" by (simp only:)
  have "m\<lparr>fm_data := map d [0..<?n] @ drop ?n (fm_data m)\<rparr> = map_read tw th (fe_content s)"
    using m(2-4) l d by (simp add: map_read_def)
  then show ?thesis 
    unfolding read_features_def n d m(1) prod.case option.case Let_def b l by (simp add: l fcalls_ok [OF E] tick_def)
qed

lemma hog_maps_written: "hog_maps E key roi rawW rawH tw th c pCmSurface2D_newFeature \<noteq> None"
  by (simp add: hog_maps_def after_kernel_def pca_vals_def)

lemma FEnqueue_ok:
  assumes E: "all_fe_ok E" and q: "fe_queue s" "fe_space s" "fe_task s = Some full_task"
    and v: "kernel_vals s featureKernel [0..<17] (feature_vals E key roi rawW rawH tw th)"
      "kernel_vals s processKernel [0..<8] (process_vals tw th)" "kernel_vals s normalizePCAKernel [0..<8] (pca_vals tw th)"
  shows "FEnqueue E s = Next (s\<lparr>fe_content := hog_maps E key roi rawW rawH tw th (fe_content s), fe_event := True, fe_clock := Suc (fe_clock s)\<rparr>)"
proof -
  have "exec_ftask E full_task (tick s) = Some ((tick s)\<lparr>fe_content := hog_maps E key roi rawW rawH tw th (fe_content (tick s))\<rparr>)"
    by (intro exec_full_task kernel_vals_same [OF v(1)] kernel_vals_same [OF v(2)] kernel_vals_same [OF v(3)]) (simp_all add: tick_def)
  with E q show ?thesis by (simp add: FEnqueue_def all_fe_ok_def tick_def)
qed

lemma launch_ok:
  assumes E: "all_fe_ok E" and sz: "sized E tw th s" and p: "pools_ok s" and g: "good_size tw th"
    and smp: "fe_sampler s = Some n" and key: "map_of (sampler_pool s) key = Some n"
  obtains s' where "launch_features E key roi rawW rawH tw th s = Next s'" "sized E tw th s'" "pools_ok s'"
    "fe_content s' = hog_maps E key roi rawW rawH tw th (fe_content s)" "SVMFeaturemap s' = Some (map_read tw th (fe_content s'))"
proof -
  from sz obtain a c where k: "fe_kernel s featureKernel = Some (a, c)" by (auto simp: sized_def kernel_vals_def)
  from p key have "pic_ok s key" by (auto simp: pools_ok_def)
  then obtain i where i: "index_pool s key = Some i" "live_index s i = Some key" by (auto simp: pic_ok_def)
  define s1 where "s1 = upd_fkernel featureKernel (request_args roi rawW rawH tw th i n a, c) s"
  note v1 = request_vals [OF sz k smp i(2), of roi rawW rawH, folded s1_def]
  define s2 where "s2 = s1\<lparr>fe_space := True, fe_queue := True, fe_clock := (if fe_queue s1 then Suc (Suc (fe_clock s1)) else Suc (Suc (Suc (fe_clock s1))))\<rparr>"
  have pre: "run ([must E (\<lambda>s. s\<lparr>fe_space := True\<rparr>), must E id, guarded (\<lambda>s. \<not> fe_queue s) [check E (\<lambda>s. s\<lparr>fe_queue := True\<rparr>)]] @ fs) s1
      = run fs s2" for fs
    unfolding s2_def by (cases "fe_queue s1")
      (simp_all add: gpu_simps fcalls_ok [OF E] tick_def, (rule arg_cong [where f = "run fs"], rule feat.equality, simp_all)+)
  have t2: "fe_task s2 = None \<or> fe_task s2 = Some full_task" using p by (simp add: s2_def s1_def upd_fkernel_def pools_ok_def)
  obtain m where t: "feature_task E s2 = Next (s2\<lparr>fe_task := Some full_task, fe_clock := m\<rparr>)" by (rule feature_task_ok [OF E t2])
  define s3 where "s3 = s2\<lparr>fe_task := Some full_task, fe_clock := m\<rparr>"
  have sz3: "sized E tw th s3" by (rule sized_cong [OF v1(2)]) (simp_all add: s3_def s2_def)
  have v3: "kernel_vals s3 featureKernel [0..<17] (feature_vals E key roi rawW rawH tw th)"
    by (rule kernel_vals_same [OF v1(1)]) (simp_all add: s3_def s2_def)
  have w3: "kernel_vals s3 processKernel [0..<8] (process_vals tw th)" "kernel_vals s3 normalizePCAKernel [0..<8] (pca_vals tw th)"
    using sz3 by (simp_all only: sized_def)
  define s4 where "s4 = s3\<lparr>fe_content := hog_maps E key roi rawW rawH tw th (fe_content s3), fe_event := True, fe_clock := Suc (fe_clock s3)\<rparr>"
  have e: "FEnqueue E s3 = Next s4" unfolding s4_def
    by (rule FEnqueue_ok [OF E _ _ _ v3 w3]) (simp_all add: s3_def s2_def)
  have c3: "fe_content s3 = fe_content s" by (simp add: s3_def s2_def s1_def upd_fkernel_def)
  have sz4: "sized E tw th s4" by (rule sized_cong [OF sz3]) (simp_all add: s4_def)
  have r: "read_features E s4 = Next (s4\<lparr>SVMFeaturemap := Some (map_read tw th (fe_content s4)), fe_clock := Suc (fe_clock s4)\<rparr>)"
    by (rule read_features_ok [OF E sz4 g]) (simp add: s4_def hog_maps_written)
  define s5 where "s5 = s4\<lparr>SVMFeaturemap := Some (map_read tw th (fe_content s4)), fe_clock := Suc (fe_clock s4), fe_space := False, fe_event := False\<rparr>"
  have "launch_features E key roi rawW rawH tw th s = Next s5"
    unfolding launch_features_def
    using set_request_args [OF k i(1) key] pre t e r
    by (simp add: s1_def [symmetric] s3_def [symmetric] s5_def set_st_def outcome_simps)
  moreover have "sized E tw th s5"
  proof -
    have "sized E tw th (s4\<lparr>SVMFeaturemap := Some (map_read tw th (fe_content s4))\<rparr>)" (is "sized _ _ _ ?u")
    proof -
      have "kernel_vals ?u x is vs = kernel_vals s4 x is vs" for x "is" vs
        using farg_val_same [of ?u s4] by (simp add: kernel_vals_def)
      moreover have "\<exists>m. SVMFeaturemap ?u = Some m \<and> fm_sizeX m = tw div 4 - 2 \<and> fm_sizeY m = th div 4 - 2 \<and> fm_num m = 31 \<and>
        int (length (fm_data m)) = (tw div 4 - 2) * (th div 4 - 2) * 31"
        using map_size_ok(1,2) [OF g] by (simp add: map_read_def)
      ultimately show ?thesis using sz4 unfolding sized_def by simp
    qed
    then show ?thesis by (rule sized_cong) (simp_all add: s5_def)
  qed
  moreover have "pools_ok s5"
    using p by (simp add: pools_ok_def pic_ok_def s5_def s4_def s3_def s2_def s1_def upd_fkernel_def)
  moreover have "fe_content s5 = hog_maps E key roi rawW rawH tw th (fe_content s)" by (simp add: s5_def s4_def c3)
  moreover have "SVMFeaturemap s5 = Some (map_read tw th (fe_content s5))" by (simp add: s5_def)
  ultimately show thesis by (rule that)
qed

section \<open>Whole calls\<close>

lemma make_fkernel_ok:
  assumes E: "\<forall>n. fe_ok E n"
  shows "\<exists>K' t'. make_fkernel E k (s\<lparr>fe_program := True, fe_kernel := K, fe_clock := t\<rparr>) =
      Next (s\<lparr>fe_program := True, fe_kernel := K', fe_clock := t'\<rparr>) \<and> K' k \<noteq> None \<and> (\<forall>j. K j \<noteq> None \<longrightarrow> K' j = K j)"
proof (cases "K k")
  case None
  then have "make_fkernel E k (s\<lparr>fe_program := True, fe_kernel := K, fe_clock := t\<rparr>) =
      Next (s\<lparr>fe_program := True, fe_kernel := K(k \<mapsto> (Map.empty, 0)), fe_clock := Suc t\<rparr>)"
    by (simp add: make_fkernel_def gpu_simps fcalls_raw [OF E] tick_def)
  moreover have "(K(k \<mapsto> (Map.empty, 0))) k \<noteq> None \<and> (\<forall>j. K j \<noteq> None \<longrightarrow> (K(k \<mapsto> (Map.empty, 0))) j = K j)" using None by auto
  ultimately show ?thesis by blast
next
  case (Some a)
  then have "make_fkernel E k (s\<lparr>fe_program := True, fe_kernel := K, fe_clock := t\<rparr>) =
      Next (s\<lparr>fe_program := True, fe_kernel := K, fe_clock := t\<rparr>)" by (simp add: make_fkernel_def gpu_simps)
  then show ?thesis using Some by blast
qed

definition features_start :: "feat_env \<Rightarrow> fstep list" where
  "features_start E = [load_features E, make_fkernel E featureKernel, make_fkernel E processKernel, make_fkernel E normalizePCAKernel]"

lemma start_ok:
  assumes E: "\<forall>n. fe_ok E n"
  obtains K t where "\<And>fs. run (features_start E @ fs) s = run fs (s\<lparr>fe_program := True, fe_kernel := K, fe_clock := t\<rparr>)"
    "\<forall>k. K k \<noteq> None" "\<And>j. fe_kernel s j \<noteq> None \<Longrightarrow> K j = fe_kernel s j"
proof -
  have "\<exists>t. load_features E s = Next (s\<lparr>fe_program := True, fe_kernel := fe_kernel s, fe_clock := t\<rparr>)"
  proof (cases "fe_program s")
    case True
    then have "s = s\<lparr>fe_program := True, fe_kernel := fe_kernel s, fe_clock := fe_clock s\<rparr>" by simp
    moreover have "load_features E s = Next s" using True by (simp add: load_features_def gpu_simps)
    ultimately show ?thesis by metis
  next
    case False
    then show ?thesis by (intro exI [of _ "Suc (Suc (Suc (Suc (Suc (fe_clock s)))))"]) (simp add: load_features_def gpu_simps fcalls_raw [OF E] tick_def)
  qed
  then obtain t where t: "load_features E s = Next (s\<lparr>fe_program := True, fe_kernel := fe_kernel s, fe_clock := t\<rparr>)" ..
  obtain K1 t1 where 1: "make_fkernel E featureKernel (s\<lparr>fe_program := True, fe_kernel := fe_kernel s, fe_clock := t\<rparr>) =
      Next (s\<lparr>fe_program := True, fe_kernel := K1, fe_clock := t1\<rparr>)"
    "K1 featureKernel \<noteq> None" "\<forall>j. fe_kernel s j \<noteq> None \<longrightarrow> K1 j = fe_kernel s j" using make_fkernel_ok [OF E] by blast
  obtain K2 t2 where 2: "make_fkernel E processKernel (s\<lparr>fe_program := True, fe_kernel := K1, fe_clock := t1\<rparr>) =
      Next (s\<lparr>fe_program := True, fe_kernel := K2, fe_clock := t2\<rparr>)"
    "K2 processKernel \<noteq> None" "\<forall>j. K1 j \<noteq> None \<longrightarrow> K2 j = K1 j" using make_fkernel_ok [OF E] by blast
  obtain K3 t3 where 3: "make_fkernel E normalizePCAKernel (s\<lparr>fe_program := True, fe_kernel := K2, fe_clock := t2\<rparr>) =
      Next (s\<lparr>fe_program := True, fe_kernel := K3, fe_clock := t3\<rparr>)"
    "K3 normalizePCAKernel \<noteq> None" "\<forall>j. K2 j \<noteq> None \<longrightarrow> K3 j = K2 j" using make_fkernel_ok [OF E] by blast
  have "K3 k \<noteq> None" for k using 1(2) 2(2,3) 3(2,3) by (cases k) metis+
  moreover have "K3 j = fe_kernel s j" if "fe_kernel s j \<noteq> None" for j using that 1(3) 2(3) 3(3) by metis
  moreover have "run (features_start E @ fs) s = run fs (s\<lparr>fe_program := True, fe_kernel := K3, fe_clock := t3\<rparr>)" for fs
    by (simp only: features_start_def append.simps run.simps t 1(1) 2(1) 3(1) outcome.case)
  ultimately show thesis using that [of t3 K3] by blast
qed

text \<open>The state of the tracker and the abstract state: before the first call there is no template.\<close>

definition feat_rel :: "feat_env \<Rightarrow> feat \<Rightarrow> int \<times> int \<times> contents \<Rightarrow> bool" where
  "feat_rel E s q \<longleftrightarrow> (case q of (w, h, c) \<Rightarrow> all_fe_ok E \<and> pools_ok s \<and> fe_content s = c \<and> templateWidth s = w \<and> templateHeight s = h \<and>
     (w = - 1 \<or> sized E w h s))"

lemma feat_rel_init: "all_fe_ok E \<Longrightarrow> feat_rel E feat_init (- 1, - 1, \<lambda>_. None)"
  by (simp add: feat_rel_def feat_init_def pools_ok_def)

lemma template_ok:
  assumes E: "all_fe_ok E" and rel: "feat_rel E s (w, h, c)" and g: "good_size tw th" and pr: "fe_program s" and k: "\<forall>k. fe_kernel s k \<noteq> None"
  obtains s' where "new_template E roi rawW rawH tw th s = Next s'" "sized E tw th s'" "pools_ok s'"
    "fe_content s' = (if tw \<noteq> w \<or> th \<noteq> h then (\<lambda>_. None) else c)"
proof (cases "tw \<noteq> w \<or> th \<noteq> h")
  case True
  with rel have "tw \<noteq> templateWidth s \<or> th \<noteq> templateHeight s" "pools_ok s" by (auto simp: feat_rel_def)
  from new_template_ok [OF E this(2) pr k g this(1)] True show thesis by (metis that)
next
  case False
  with rel g have "sized E tw th s" "pools_ok s" "fe_content s = c" "templateWidth s = tw" "templateHeight s = th"
    by (auto simp: feat_rel_def good_size_def)
  moreover from this have "new_template E roi rawW rawH tw th s = Next s" by (simp add: new_template_def guarded_def)
  ultimately show thesis using False that [of s] by simp
qed

lemma call_ok:
  assumes rel: "feat_rel E s (w, h, c)" and g: "good_size tw th"
  obtains s' where "getFeatureMaps_gpu E key roi rawW rawH tw th s = Return 0 s'" "SVMFeaturemap s' = Some (map_read tw th (fe_content s'))"
    "feat_rel E s' (tw, th, hog_maps E key roi rawW rawH tw th (if tw \<noteq> w \<or> th \<noteq> h then (\<lambda>_. None) else c))"
proof -
  from rel have E: "all_fe_ok E" by (simp add: feat_rel_def)
  obtain K t where st: "\<And>fs. run (features_start E @ fs) s = run fs (s\<lparr>fe_program := True, fe_kernel := K, fe_clock := t\<rparr>)"
    and K: "\<forall>k. K k \<noteq> None" "\<And>j. fe_kernel s j \<noteq> None \<Longrightarrow> K j = fe_kernel s j" using start_ok [of E s] E unfolding all_fe_ok_def by metis
  let ?s1 = "s\<lparr>fe_program := True, fe_kernel := K, fe_clock := t\<rparr>"
  have "sized E w h ?s1" if sz: "sized E w h s"
  proof (rule sized_cong [OF sz])
    have "fe_kernel s j \<noteq> None" for j using sz by (cases j) (auto simp: sized_def kernel_vals_def)
    with K(2) show "fe_kernel ?s1 = fe_kernel s" by (intro ext) simp
  qed (use sz in \<open>simp_all add: sized_def\<close>)
  then have rel1: "feat_rel E ?s1 (w, h, c)" using rel by (auto simp: feat_rel_def pools_ok_def pic_ok_def)
  obtain s2 where s2: "new_template E roi rawW rawH tw th ?s1 = Next s2" "sized E tw th s2" "pools_ok s2"
    "fe_content s2 = (if tw \<noteq> w \<or> th \<noteq> h then (\<lambda>_. None) else c)"
    by (rule template_ok [OF E rel1 g]) (use K in auto)
  obtain s3 n where s3: "new_picture E key s2 = Next s3" "sized E tw th s3" "pools_ok s3" "fe_content s3 = fe_content s2"
    "fe_sampler s3 = Some n" "map_of (sampler_pool s3) key = Some n" by (rule new_picture_ok [OF E s2(2,3)])
  obtain s4 where s4: "launch_features E key roi rawW rawH tw th s3 = Next s4" "sized E tw th s4" "pools_ok s4"
    "fe_content s4 = hog_maps E key roi rawW rawH tw th (fe_content s3)" "SVMFeaturemap s4 = Some (map_read tw th (fe_content s4))"
    by (rule launch_ok [OF E s3(2,3) g s3(5,6)])
  have "drop_feature_locals s4 = s4" using s4(3) by (simp add: drop_feature_locals_def pools_ok_def)
  then have "getFeatureMaps_gpu E key roi rawW rawH tw th s = Return 0 s4"
    using st [of "[new_template E roi rawW rawH tw th, new_picture E key, launch_features E key roi rawW rawH tw th]"] s2(1) s3(1) s4(1)
    by (simp add: getFeatureMaps_gpu_def features_start_def outcome_simps)
  moreover have "feat_rel E s4 (tw, th, hog_maps E key roi rawW rawH tw th (if tw \<noteq> w \<or> th \<noteq> h then (\<lambda>_. None) else c))"
    using s4(2-4) s3(4) s2(4) E by (simp add: feat_rel_def sized_def)
  ultimately show thesis using s4(5) that by blast
qed

lemma features_step:
  assumes "feat_rel E s q" "features_spec E r q = Some (m, q')"
  shows "\<exists>s'. features_exec E r s = Some (m, s') \<and> feat_rel E s' q'"
proof -
  obtain key roi rawW rawH tw th w h c where r: "r = (key, roi, rawW, rawH, tw, th)" "q = (w, h, c)" by (metis surj_pair)
  from assms(2) have g: "good_size tw th"
    by (auto simp: r features_spec_def good_request_def good_size_def split: if_splits)
  from assms(1) have rel: "feat_rel E s (w, h, c)" by (simp add: r)
  let ?c = "hog_maps E key roi rawW rawH tw th (if tw \<noteq> w \<or> th \<noteq> h then (\<lambda>_. None) else c)"
  from assms(2) have q: "m = map_read tw th ?c" "q' = (tw, th, ?c)"
    by (auto simp: r features_spec_def map_read_def Let_def split: if_splits)
  obtain s' where s': "getFeatureMaps_gpu E key roi rawW rawH tw th s = Return 0 s'" "SVMFeaturemap s' = Some (map_read tw th (fe_content s'))"
    "feat_rel E s' (tw, th, ?c)" by (rule call_ok [OF rel g])
  from s'(3) have "fe_content s' = ?c" by (simp add: feat_rel_def)
  then show ?thesis using s' by (simp add: features_exec_def r q)
qed

interpretation hog: simulation "features_exec E" "features_spec E" "feat_rel E" for E
  by unfold_locales (rule features_step)

lemma features_spec_total:
  "list_all good_request rs \<Longrightarrow> \<exists>ms q'. run_calls (features_spec E) rs q = Some (ms, q')"
proof (induction rs arbitrary: q)
  case Nil
  have "run_calls (features_spec E) [] q = Some ([], q)" by simp
  then show ?case by blast
next
  case (Cons r rs)
  obtain m q1 where "features_spec E r q = Some (m, q1)"
    using Cons.prems by (cases r, cases q) (simp add: features_spec_def Let_def)
  moreover obtain ms q' where "run_calls (features_spec E) rs q1 = Some (ms, q')" using Cons.IH [of q1] Cons.prems by auto
  ultimately have "run_calls (features_spec E) (r # rs) q = Some (m # ms, q')" by simp
  then show ?case by blast
qed

section \<open>The missing return\<close>

text \<open>Where running off the end of \<^verbatim>\<open>refreshKernels\<close> is undefined, so is every extraction that changes the template.\<close>

lemma missing_return_fault:
  assumes "good_size tw th" and "tw \<noteq> templateWidth s \<or> th \<noteq> templateHeight s"
    and k: "\<forall>k. fe_kernel s k \<noteq> None" and ok: "\<forall>n. fe_ok E n" and off: "\<not> fe_falls_off E"
  shows "new_template E roi rawW rawH tw th s = Fault"
proof -
  note sz = map_size_ok [OF assms(1)]
  have q: "cquot tw 4 = tw div 4" "cquot th 4 = th div 4" and wh: "0 \<le> tw" "0 \<le> th"
    using assms(1) by (simp_all add: good_size_def cquot_nonneg)
  define s1 where "s1 = with_template roi tw th s"
  have a: "allocFeatureMapObject E (cquot tw 4 - 2) (cquot th 4 - 2) (3 * 9 + 4)
      (s\<lparr>templateWidth := tw, templateHeight := th, previous_roi := roi, SVMFeaturemap := None\<rparr>) = Next s1"
    using sz by (simp add: allocFeatureMapObject_def gpu_simps fcalls_raw [OF ok] q tick_def s1_def with_template_def)
  have k1: "\<forall>k. fe_kernel s1 k \<noteq> None" using k by (simp add: s1_def with_template_def)
  have "ignore (refreshKernels E rawW rawH roi tw th) s1 = Fault"
    by (rule refresh_run [OF ok wh k1, where roi = roi and rawW = rawW and rawH = rawH]) (simp add: ignore_def fe_off_end_def off)
  then show ?thesis using assms(2) a by (simp add: new_template_def gpu_simps freeFeatureMapObject_def)
qed

lemma first_extraction_fault:
  assumes ok: "\<forall>n. fe_ok E n" and off: "\<not> fe_falls_off E" and r: "good_request r"
  shows "features_exec E r feat_init = None"
proof -
  obtain key roi rawW rawH tw th where q: "r = (key, roi, rawW, rawH, tw, th)" by (metis surj_pair)
  obtain K t where st: "\<And>fs. run (features_start E @ fs) feat_init = run fs (feat_init\<lparr>fe_program := True, fe_kernel := K, fe_clock := t\<rparr>)"
    and K: "\<forall>k. K k \<noteq> None" by (rule start_ok [OF ok, of feat_init]) blast
  have g: "good_size tw th" using r by (simp add: q good_request_def good_size_def)
  then have "tw \<noteq> templateWidth feat_init" by (simp add: good_size_def feat_init_def)
  then have "new_template E roi rawW rawH tw th (feat_init\<lparr>fe_program := True, fe_kernel := K, fe_clock := t\<rparr>) = Fault"
    using K by (intro missing_return_fault [OF g _ _ ok off]) simp_all
  then have "getFeatureMaps_gpu E key roi rawW rawH tw th feat_init = Fault"
    using st [of "[new_template E roi rawW rawH tw th, new_picture E key, launch_features E key roi rawW rawH tw th]"]
    by (simp add: getFeatureMaps_gpu_def features_start_def outcome_simps)
  then show ?thesis by (simp add: features_exec_def q)
qed

section \<open>Properties\<close>

text \<open>C5. Sequences of feature extractions, from the tracker's initial state, with a runtime whose calls succeed. \<^verbatim>\<open>refreshKernels\<close>
  is an \<^verbatim>\<open>int\<close> function that runs off its end without a \<^verbatim>\<open>return\<close>. On a build that lets it go back to its caller
  (\<open>fe_falls_off\<close>), for any picture buffers, windows and template sizes (at least three cells and at most 4096 pixels in each
  direction) no call is undefined, each returns 0, and its map is what the three kernels compute one after the other from the
  arguments of that request, although sizes, constants and surfaces are handed over only when the template changes and the
  indices of older picture buffers are renewed then; between calls no thread space or event is left over. Taken as C++ has it,
  the very first extraction is undefined.\<close>

theorem features_of_requests:
  assumes "\<forall>n. fe_ok E n" and "list_all good_request rs"
  shows "if fe_falls_off E
    then \<exists>maps s' q. run_calls (features_spec E) rs (- 1, - 1, \<lambda>_. None) = Some (maps, q) \<and>
      run_calls (features_exec E) rs feat_init = Some (maps, s') \<and> feat_rel E s' q
    else rs \<noteq> [] \<longrightarrow> run_calls (features_exec E) rs feat_init = None"
proof (cases "fe_falls_off E")
  case True
  then have E: "all_fe_ok E" using assms(1) by (simp add: all_fe_ok_def)
  obtain maps q where m: "run_calls (features_spec E) rs (- 1, - 1, \<lambda>_. None) = Some (maps, q)"
    using features_spec_total [OF assms(2)] by blast
  from hog.run [OF feat_rel_init [OF E] m] show ?thesis using m True by auto
next
  case False
  have "run_calls (features_exec E) rs feat_init = None" if ne: "rs \<noteq> []"
  proof -
    obtain r rs' where "rs = r # rs'" using ne by (cases rs) auto
    then show ?thesis using first_extraction_fault [OF assms(1) False, of r] assms(2) by simp
  qed
  then show ?thesis using False by simp
qed

text \<open>An environment for the witnesses: the kernels write the number of their arguments.\<close>

definition demo_feat_env :: "(nat \<Rightarrow> bool) \<Rightarrow> feat_env" where
  "demo_feat_env b = \<lparr>fe_ok = b, hog_gpu = (\<lambda>k vs c x i. i2f (int (length vs))), atan_d = (\<lambda>_. 11 / 14), cos_f = (\<lambda>x. 1), sin_f = (\<lambda>x. x),
     fe_falls_off = True\<rparr>"

definition demo_requests :: "request list" where
  "demo_requests = [(7, \<lparr>ix = 10, iy = 20, iw = 60, ih = 80\<rparr>, 1920, 1080, 48, 64), (9, \<lparr>ix = 12, iy = 20, iw = 60, ih = 80\<rparr>, 1920, 1080, 48, 64),
     (7, \<lparr>ix = 14, iy = 20, iw = 30, ih = 80\<rparr>, 1920, 1080, 24, 64)]"

theorem features_of_requests_witness:
  "(\<exists>maps s' q. run_calls (features_spec (demo_feat_env (\<lambda>_. True))) demo_requests (- 1, - 1, \<lambda>_. None) = Some (maps, q) \<and>
    run_calls (features_exec (demo_feat_env (\<lambda>_. True))) demo_requests feat_init = Some (maps, s') \<and> feat_rel (demo_feat_env (\<lambda>_. True)) s' q) \<and>
   run_calls (features_exec (demo_feat_env (\<lambda>_. True)\<lparr>fe_falls_off := False\<rparr>)) demo_requests feat_init = None"
proof -
  let ?E = "demo_feat_env (\<lambda>_. True)"
  have r: "list_all good_request demo_requests" "demo_requests \<noteq> []" by (simp_all add: demo_requests_def good_request_def)
  have e: "\<forall>n. fe_ok ?E n" "fe_falls_off ?E" "\<forall>n. fe_ok (?E\<lparr>fe_falls_off := False\<rparr>) n" "\<not> fe_falls_off (?E\<lparr>fe_falls_off := False\<rparr>)"
    by (simp_all add: demo_feat_env_def)
  from features_of_requests [OF e(1) r(1)] features_of_requests [OF e(3) r(1)] show ?thesis
    unfolding if_P [OF e(2)] if_not_P [OF e(4)] using r(2) by blast
qed

text \<open>The sampler of a new template cannot be made: \<^verbatim>\<open>refreshKernels\<close> reports it and returns -1, its caller goes on, and the
  null pointer of the sampler is used, for an older picture buffer or for the one of this call. The surfaces and
  the kernels' arguments are those of the template before.\<close>

theorem feature_sampler_failure_fault:
  assumes "good_size tw th" and "tw \<noteq> templateWidth s \<or> th \<noteq> templateHeight s"
    and "fe_program s" and "\<forall>k. fe_kernel s k \<noteq> None"
    and "fe_ok E (fe_clock s)" and "fe_ok E (fe_clock s + 1)" and "\<not> fe_ok E (fe_clock s + 2)" and "fe_ok E (fe_clock s + 3)"
  shows "getFeatureMaps_gpu E key roi rawW rawH tw th s = Fault"
proof -
  note sz = map_size_ok [OF assms(1)]
  have q: "cquot tw 4 = tw div 4" "cquot th 4 = th div 4" using assms(1) by (simp_all add: good_size_def cquot_nonneg)
  define s1 where "s1 = with_template roi tw th s"
  define s2 where "s2 = s1\<lparr>fe_sampler := None, fe_clock := fe_clock s + 3\<rparr>"
  have a: "allocFeatureMapObject E (cquot tw 4 - 2) (cquot th 4 - 2) (3 * 9 + 4)
      (s\<lparr>templateWidth := tw, templateHeight := th, previous_roi := roi, SVMFeaturemap := None\<rparr>) = Next s1"
    using sz assms(5,6) by (simp add: allocFeatureMapObject_def gpu_simps alloc_def q tick_def s1_def with_template_def)
  have "refreshKernels E rawW rawH roi tw th s1 = Return (- 1) s2"
  proof (cases "fe_sampler s")
    case None
    then have "s2 = s1\<lparr>fe_clock := fe_clock s + 3\<rparr>" by (simp add: s2_def s1_def with_template_def)
    with None show ?thesis using assms(7)
      by (simp add: refreshKernels_def gpu_simps setupAVSSampler_def check_def tick_def s1_def with_template_def numeral_eq_Suc)
  next
    case (Some x)
    then show ?thesis using assms(7)
      by (simp add: refreshKernels_def gpu_simps setupAVSSampler_def check_def tick_def s2_def s1_def with_template_def numeral_eq_Suc)
  qed
  then have i: "ignore (refreshKernels E rawW rawH roi tw th) s1 = Next s2" by (simp add: ignore_def)
  have n: "renew_index E k s2 = Fault" for k by (simp add: renew_index_def gpu_simps s2_def)
  have pool: "run (map (renew_index E) (rev (map fst (sampler_pool s2)))) s2 = (if sampler_pool s2 = [] then Next s2 else Fault)"
    by (cases "rev (map fst (sampler_pool s2))") (auto simp: n outcome_simps)
  have pic: "new_picture E key s2 = Fault" if "sampler_pool s2 = []"
    using that assms(8) by (simp add: new_picture_def gpu_simps must_def tick_def s2_def)
  have t: "new_template E roi rawW rawH tw th s = (if sampler_pool s2 = [] then Next s2 else Fault)"
    using assms(2) a i pool by (simp add: new_template_def gpu_simps freeFeatureMapObject_def)
  show ?thesis
    by (simp add: getFeatureMaps_gpu_def load_features_def make_fkernel_def guarded_def assms(3,4) t pic outcome_simps)
qed

theorem feature_sampler_failure_fault_witness:
  "getFeatureMaps_gpu (demo_feat_env (\<lambda>n. n \<noteq> 2)) 7 \<lparr>ix = 10, iy = 20, iw = 60, ih = 80\<rparr> 1920 1080 48 64
     (feat_init\<lparr>fe_program := True, fe_kernel := (\<lambda>_. Some (Map.empty, 0))\<rparr>) = Fault"
  by (rule feature_sampler_failure_fault) (simp_all add: demo_feat_env_def good_size_def feat_init_def)

end
