(* ===== verification/Spec2Isabelle.thy ===== *)
theory Spec2Isabelle
  imports Prelude Buffers FloatBits Dpipe DpipeLife LayerBase ReorgYolo CtcGreedy ArgMax Detector Suppression DetectionOutput DftTables DftItab KcfTracker KcfTrackerFacts KcfGpuCalls KcfGpuReturns VideoAllocFacts MediaFrames PipelineLive ProposalFacts PriorBoxFacts SimplerNmsFacts ResampleFacts PsRoi RegionYolo NormLayers PointLayers SpatialTransformer Interp KcfFeatureRuns
begin

text \<open>
  A verification development for the video analytics example on Intel GPUs: a program that decodes
  several video channels, detects objects in them with an SSD network, shows the result and follows
  objects with a correlation filter. All paths are relative to \<^verbatim>\<open>src/\<close>.

  \<^bold>\<open>The program and how its parts interact.\<close> \<^verbatim>\<open>video_analytics_example/main.cpp\<close> starts one decoding thread per channel. A
  decoder asks the Media SDK for a picture (its surfaces come from the allocator in
  \<^verbatim>\<open>common/common_vaapi.cpp\<close>, its input from \<^verbatim>\<open>ReadBitStreamData\<close> in \<^verbatim>\<open>common/common_utils.cpp\<close>), copies it into the form
  that display and inference need, and stores it in the channel's frame pipe (\<^verbatim>\<open>dpipe.cpp\<close>). One
  scheduler thread takes one picture of every pipe in turn and gives it to the detector
  (\<^verbatim>\<open>detector.cpp\<close>), which fills a batch and runs the network; layers that the inference engine lacks are
  the CPU extensions under \<^verbatim>\<open>extension/\<close>. A display thread shows what the detector reports. The tracker
  (\<^verbatim>\<open>kcftracker.cpp\<close>) turns a window of a picture into features on the GPU, correlates them there with
  its template and moves the box.

  \<^bold>\<open>Theories and the code they model.\<close>

  \<^item> \<^verbatim>\<open>Prelude\<close>: lemmas on lists, divisions and flat indices; sequences of calls (\<open>run_calls\<close>) and the locale
    \<open>simulation\<close>, which lifts a simulation of single calls to sequences. It is interpreted on the pipes
    (\<open>pipe\<close>), the detector (\<open>det\<close>) and the features (\<open>hog\<close>).
  \<^item> \<^verbatim>\<open>Buffers\<close>: C buffers as lists with checked loads and stores, 32-bit \<^verbatim>\<open>int\<close> and loops that count; \<open>None\<close> is
    undefined behaviour. \<^verbatim>\<open>FloatBits\<close>: \<^verbatim>\<open>float\<close> and \<^verbatim>\<open>double\<close> arithmetic as rationals rounded to nearest even with
    24 and 53 bits, with the error bounds and monotonicity the layers need.
  \<^item> \<^verbatim>\<open>Dpipe\<close>, \<^verbatim>\<open>DpipeLife\<close> (\<^verbatim>\<open>dpipe.cpp\<close>): the linked lists of a pipe in an explicit heap, every exported operation, the
    registry, creation and destruction with every failed allocation. The pools refine two lists (\<open>pool_spec\<close>); a
    waiting \<open>dpipe_get\<close> is a recursion over what the other threads do, so that \<open>None\<close> is "still waiting".
  \<^item> \<^verbatim>\<open>Detector\<close> (\<^verbatim>\<open>detector.cpp\<close>, \<^verbatim>\<open>detector.hpp\<close>): \<^verbatim>\<open>Load\<close>, \<^verbatim>\<open>InsertImage\<close> with its synchronous and asynchronous mode,
    the copy into the input blob and the parsing of the result rows. The inference engine is the record
    \<open>engine\<close>; the specification \<open>det_spec\<close> answers each batch from the history of frames.
  \<^item> \<^verbatim>\<open>LayerBase\<close> (\<^verbatim>\<open>ext_base.cpp\<close>) and the extension layers, each after the file of its name under \<^verbatim>\<open>extension/\<close>:
    \<^verbatim>\<open>ReorgYolo\<close>, \<^verbatim>\<open>CtcGreedy\<close>, \<^verbatim>\<open>ArgMax\<close>, \<^verbatim>\<open>DetectionOutput\<close>, \<^verbatim>\<open>Proposal\<close> with \<^verbatim>\<open>ProposalFacts\<close>, \<^verbatim>\<open>PriorBox\<close> with
    \<^verbatim>\<open>PriorBoxFacts\<close> (also \<^verbatim>\<open>ext_priorbox_clustered.cpp\<close>), \<^verbatim>\<open>SimplerNms\<close> with \<^verbatim>\<open>SimplerNmsFacts\<close>, \<^verbatim>\<open>Resample\<close> with \<^verbatim>\<open>ResampleFacts\<close>,
    \<^verbatim>\<open>PsRoi\<close>, \<^verbatim>\<open>RegionYolo\<close> (with \<^verbatim>\<open>common/softmax.h\<close>), \<^verbatim>\<open>NormLayers\<close> (GRN, MVN, Normalize), \<^verbatim>\<open>PointLayers\<close> (PReLU, PowerFile),
    \<^verbatim>\<open>SpatialTransformer\<close> (with \<^verbatim>\<open>common/matrixmult.h\<close>), \<^verbatim>\<open>Interp\<close>. \<^verbatim>\<open>Suppression\<close> is greedy suppression for any clash
    relation, which the suppressing layers share.
  \<^item> \<^verbatim>\<open>DftTables\<close>, \<^verbatim>\<open>DftItab\<close> (\<^verbatim>\<open>kcftracker.cpp\<close>): \<^verbatim>\<open>DFTFactorize\<close> and \<^verbatim>\<open>DFTInit\<close>.
  \<^item> \<^verbatim>\<open>KcfTracker\<close>, \<^verbatim>\<open>KcfTrackerFacts\<close> (\<^verbatim>\<open>kcftracker.cpp\<close>, \<^verbatim>\<open>kcftracker.hpp\<close>): construction, \<^verbatim>\<open>init\<close>, \<^verbatim>\<open>update\<close>, \<^verbatim>\<open>detect\<close>, \<^verbatim>\<open>train\<close>, the window and
    its weights.
  \<^item> \<^verbatim>\<open>CmDevice\<close>: the objects of the C-for-Media runtime and steps on them, with the outcomes "goes on",
    "returns", "leaves the process" and "undefined". \<^verbatim>\<open>KcfGpu\<close>, \<^verbatim>\<open>KcfGpuSteps\<close>, \<^verbatim>\<open>KcfGpuStages\<close>, \<^verbatim>\<open>KcfGpuRun\<close>, \<^verbatim>\<open>KcfGpuCalls\<close>, \<^verbatim>\<open>KcfGpuReturns\<close>:
    \<^verbatim>\<open>initMDF\<close> and \<^verbatim>\<open>gpu_gaussianCorrelation\<close>. \<^verbatim>\<open>KcfFeatures\<close>, \<^verbatim>\<open>KcfFeatureFacts\<close>, \<^verbatim>\<open>KcfFeatureRuns\<close>: \<^verbatim>\<open>refreshKernels\<close> and
    \<^verbatim>\<open>getFeatureMaps_gpu\<close>.
  \<^item> \<^verbatim>\<open>VideoAlloc\<close>, \<^verbatim>\<open>VideoAllocFacts\<close> (\<^verbatim>\<open>common_vaapi.cpp\<close>): the callbacks \<^verbatim>\<open>simple_alloc\<close>, \<^verbatim>\<open>simple_lock\<close>, \<^verbatim>\<open>simple_unlock\<close>,
    \<^verbatim>\<open>simple_gethdl\<close>, \<^verbatim>\<open>simple_free\<close>.
  \<^item> \<^verbatim>\<open>MediaFrames\<close>: the copies of decoded surfaces (\<^verbatim>\<open>main.cpp\<close>), frame headers and the bit stream.
  \<^item> \<^verbatim>\<open>Pipeline\<close>, \<^verbatim>\<open>PipelineFacts\<close>, \<^verbatim>\<open>PipelineLive\<close> (\<^verbatim>\<open>main.cpp\<close>): decoders, scheduler, display and the start-up in \<^verbatim>\<open>main\<close> as
    processes whose steps interleave in any order; the pipes appear as the lists that \<^verbatim>\<open>Dpipe\<close> refines.

  \<^bold>\<open>How code and model correspond.\<close> A \<^verbatim>\<open>struct\<close> or class is a record with the source's field names where they are free, an
  operation a definition that takes the state and returns the new one, a loop a recursion on what it
  counts. Failures that the source reports are values (status codes, \<open>Inl\<close> messages, \<open>Return\<close>, \<open>Exit\<close>); undefined
  behaviour of C++ (a null pointer, an index outside a buffer, an overflowing \<^verbatim>\<open>int\<close>, a use after release) is \<open>None\<close> or
  \<open>Fault\<close>, so every theorem with a result also says that the code stays defined. So is the end of an \<^verbatim>\<open>int\<close> function
  without a \<^verbatim>\<open>return\<close>, of which \<^verbatim>\<open>kcftracker.cpp\<close> has several: it is a step of its own (\<open>off_end\<close>, \<open>fe_off_end\<close>), and the
  properties of the GPU code say what happens in a build that lets such a function go back to its caller and
  that otherwise the first call is undefined. In the normalising layers a division by zero, whose
  infinity or NaN the rationals lack, ends the run. Code outside the
  repository is an argument: allocation answers, the network, the runtime of the GPU and its kernels,
  the surfaces of the driver, \<^verbatim>\<open>exp\<close>, \<^verbatim>\<open>sqrt\<close>, \<^verbatim>\<open>log\<close>, \<^verbatim>\<open>sin\<close>, \<^verbatim>\<open>cos\<close>.

  \<^bold>\<open>What the lemmas show.\<close> The pipes behave as lists, lose no frame and wait as they should; creation and
  destruction are balanced. Under every interleaving the scheduler serves the channels in rotation with the
  pictures in order (with up to six channels every schedule runs; with more, only the count of results can leave
  its array), and the threads never all stop, unless the semaphore is initialised too late. Each
  batch of frames is answered with its own detections. Each layer stays inside its blobs and
  computes a function stated without its loops: a greedy decoding, the k greatest pairs, a greedy choice
  among ranked boxes, a permutation, the mean of a bin, a deviation from the mean, the nearest pixel or a bilinear
  mixture of four. The tables of the transform are a permutation and conjugate symmetric
  roots. A tracked box keeps its size and meets the frame. When no call of the runtime fails, sequences of
  correlations and of feature extractions end without a fault (but for the missing returns), each with the kernels' composition on the arguments of that call.
  The allocator gives the frames asked for and balances locks. Where the code misbehaves a theorem
  shows it: names ending in \<^verbatim>\<open>fault\<close>, \<^verbatim>\<open>deadlock\<close>, \<^verbatim>\<open>race\<close>, \<^verbatim>\<open>undefined\<close>, \<^verbatim>\<open>fails\<close>, \<^verbatim>\<open>overrun\<close>, \<^verbatim>\<open>partial\<close>,
  \<^verbatim>\<open>underrun\<close>, \<^verbatim>\<open>refused\<close>.

  \<^bold>\<open>Bounds and fuel.\<close> Buffers have at most \<open>2 ^ 31\<close> elements, the range of the \<^verbatim>\<open>int\<close> that indexes them; the theorems
  name the bound where they need it. Patches of the tracker have at most 32 by 32 cells, the room of
  the tables that the GPU gets; templates have 12 to 4096 pixels a side. Loops that might not end are
  recursions on fuel given by the size of the input, with a lemma that it is enough, or on the steps of
  the other threads.

  \<^bold>\<open>Not modelled.\<close> Contraction to fused multiply-add, infinities, NaN and subnormal numbers; the SSE and AVX variants of
  the layers, of which the portable loop is modelled (of \<^verbatim>\<open>ext_resample.cpp\<close> also which path is taken and its first
  loads); the branch of \<^verbatim>\<open>DFTInit\<close> for inverse tables, which no
  caller takes; the overflow of counters that count pictures since the start. The Media SDK session, video
  processing, the inference engine, the GPU runtime, the VA library and OpenCV, which are not part of the repository.
  Data races are interleavings of steps, not of memory accesses. Option parsing, printing,
  shutdown, the drawing in the tracker thread and the performance thread of \<^verbatim>\<open>main.cpp\<close>, and the branch for
  \<^verbatim>\<open>ENABLE_WORKLOAD_BALANCE\<close>. The features on the CPU (\<^verbatim>\<open>fhog.cpp\<close>), which the default build does not call; vendored headers, precompiled kernels and the Windows files.
\<close>

end
